(* ===== verification/Cook_Prelude.thy ===== *)
theory Cook_Prelude
  imports
    Main
    "HOL-Library.Char_ord"
    "HOL-Library.List_Lexorder"
    "HOL-Library.Product_Lexorder"
    "HOL-Library.Word"
begin

text \<open>
  Shared vocabulary of the development: the types the components exchange, the pieces of the Rust
  standard library the sources call, and the lemma collections their proofs use.

  \<^item> A Rust \<open>str\<close> or \<open>String\<close> is its UTF-8 byte sequence, a \<^typ>\<open>string\<close> whose characters are
    bytes. Where the source iterates over \<open>chars()\<close> and only ever compares with ASCII characters and
    copies everything else, iterating over bytes gives the same result: no byte of a multi-byte
    character is an ASCII byte. The one place a non-ASCII character is classified,
    \<open>char::is_whitespace\<close>, is written out over the byte sequences of the Unicode White\_Space set.
  \<^item> A \<open>BTreeMap\<close> that is only looked up is a map \<open>'k \<rightharpoonup> 'v\<close>; one that is iterated is
    the list of its entries in key order. The order on strings is the bytewise one
    (HOL-Library.List\_Lexorder over HOL-Library.Char\_ord), as Rust orders \<open>str\<close>.
  \<^item> \<open>Result\<close> is a sum with the error on the left, a panic is a value of its own error type.
\<close>

type_synonym str = string
type_synonym u8 = "8 word"
type_synonym u32 = "32 word"
type_synonym u64 = "64 word"

named_theorems str_simps "how the string operations compute on concrete shapes"
named_theorems len_intros "length bounds of scanners and splitters"

section \<open>Results\<close>

text \<open>The question mark operator: continue with the value, or return the error.\<close>

type_synonym ('err, 'v) res = "'err + 'v"

primrec bind_res :: "('err, 'v) res \<Rightarrow> ('v \<Rightarrow> ('err, 'w) res) \<Rightarrow> ('err, 'w) res" where
  on_error: "bind_res (Inl err) k = Inl err"
| on_value: "bind_res (Inr v) k = k v"

lemma bind_res_split:
  "bind_res m k = case_sum Inl k m"
  by (cases m) simp_all

lemma bind_res_Inr_iff:
  "bind_res m f = Inr y \<longleftrightarrow> (\<exists>x. m = Inr x \<and> f x = Inr y)"
  by (cases m) simp_all

lemma bind_res_Inl_iff:
  "bind_res m f = Inl e \<longleftrightarrow> m = Inl e \<or> (\<exists>x. m = Inr x \<and> f x = Inl e)"
  by (cases m) simp_all

text \<open>A loop that threads a state and stops at the first error.\<close>

fun fold_res :: "('v \<Rightarrow> 'st \<Rightarrow> ('err, 'st) res) \<Rightarrow> 'v list \<Rightarrow> 'st \<Rightarrow> ('err, 'st) res" where
  "fold_res f [] s = Inr s"
| "fold_res f (x # xs) s = (case f x s of Inl e \<Rightarrow> Inl e | Inr s' \<Rightarrow> fold_res f xs s')"

lemma fold_res_append:
  "fold_res f (xs @ ys) s = bind_res (fold_res f xs s) (fold_res f ys)"
  by (induction xs arbitrary: s) (simp_all split: sum.split)

text \<open>An invariant every successful step keeps holds after the whole loop.\<close>

lemma fold_res_invariant:
  assumes "fold_res f xs s = Inr t" and "P s"
    and "\<And>x s s'. x \<in> set xs \<Longrightarrow> P s \<Longrightarrow> f x s = Inr s' \<Longrightarrow> P s'"
  shows "P t"
  using assms
proof (induction xs arbitrary: s)
  case Nil
  then show ?case by simp
next
  case (Cons x xs)
  obtain s' where s': "f x s = Inr s'" "fold_res f xs s' = Inr t"
    using Cons.prems(1) by (auto split: sum.splits)
  have "P s'"
    by (rule Cons.prems(3)[OF _ Cons.prems(2) s'(1)]) simp
  then show ?case
    using Cons.IH[OF s'(2)] Cons.prems(3) by (metis list.set_intros(2))
qed

text \<open>A loop whose every step succeeds under an invariant succeeds.\<close>

lemma fold_res_total:
  assumes "P s"
    and "\<And>x s. x \<in> set xs \<Longrightarrow> P s \<Longrightarrow> \<exists>s'. f x s = Inr s' \<and> P s'"
  shows "\<exists>t. fold_res f xs s = Inr t \<and> P t"
  using assms
proof (induction xs arbitrary: s)
  case Nil
  then show ?case by simp
next
  case (Cons x xs)
  obtain s' where "f x s = Inr s'" "P s'"
    using Cons.prems by (meson list.set_intros(1))
  moreover have "\<exists>t. fold_res f xs s' = Inr t \<and> P t"
    using \<open>P s'\<close> Cons.prems(2) by (intro Cons.IH) auto
  ultimately show ?case by simp
qed

text \<open>Collecting results in order: the first error, or all the values.\<close>

fun map_res :: "('v \<Rightarrow> ('err, 'w) res) \<Rightarrow> 'v list \<Rightarrow> ('err, 'w list) res" where
  "map_res g [] = Inr []"
| "map_res g (x # xs) = bind_res (g x) (\<lambda>y. bind_res (map_res g xs) (\<lambda>ys. Inr (y # ys)))"

lemma fold_res_collect:
  "fold_res (\<lambda>x acc. bind_res (g x) (\<lambda>y. Inr (acc @ [y]))) xs acc
     = bind_res (map_res g xs) (\<lambda>ys. Inr (acc @ ys))"
proof (induction xs arbitrary: acc)
  case Nil
  then show ?case by simp
next
  case (Cons x xs)
  then show ?case by (cases "g x"; cases "map_res g xs") simp_all
qed

lemma map_res_Inr: "map_res g xs = Inr ys \<longleftrightarrow> list_all2 (\<lambda>x y. g x = Inr y) xs ys"
  by (induction xs arbitrary: ys) (auto simp: bind_res_Inr_iff list_all2_Cons1)

lemma map_res_Inl:
  "map_res g xs = Inl e \<longleftrightarrow>
     (\<exists>k < length xs. g (xs ! k) = Inl e \<and> (\<forall>j < k. \<exists>y. g (xs ! j) = Inr y))"
proof (induction xs)
  case Nil
  then show ?case by simp
next
  case (Cons x xs)
  show ?case
  proof (cases "g x")
    case (Inl e')
    have "(\<exists>k < length (x # xs). g ((x # xs) ! k) = Inl e \<and> (\<forall>j < k. \<exists>y. g ((x # xs) ! j) = Inr y))
      \<longleftrightarrow> e' = e" (is "?L \<longleftrightarrow> _")
    proof
      assume ?L
      then obtain k where k: "g ((x # xs) ! k) = Inl e" "\<forall>j < k. \<exists>y. g ((x # xs) ! j) = Inr y" by blast
      then have "k = 0" using Inl by (cases k) auto
      then show "e' = e" using k(1) Inl by simp
    next
      assume "e' = e"
      then show ?L using Inl by (intro exI[of _ 0]) simp
    qed
    then show ?thesis using Inl by simp
  next
    case (Inr y)
    have shift: "(\<exists>k < length (x # xs). g ((x # xs) ! k) = Inl e \<and> (\<forall>j < k. \<exists>y. g ((x # xs) ! j) = Inr y))
      \<longleftrightarrow> (\<exists>k < length xs. g (xs ! k) = Inl e \<and> (\<forall>j < k. \<exists>y. g (xs ! j) = Inr y))" (is "?L \<longleftrightarrow> ?R")
    proof
      assume ?L
      then obtain k where k: "k < length (x # xs)" "g ((x # xs) ! k) = Inl e"
        "\<forall>j < k. \<exists>y. g ((x # xs) ! j) = Inr y" by blast
      then obtain k' where k': "k = Suc k'" using Inr by (cases k) auto
      have "\<forall>j < k'. \<exists>y. g (xs ! j) = Inr y"
        using k(3) k' by (metis Suc_less_eq nth_Cons_Suc)
      then show ?R using k k' by auto
    next
      assume ?R
      then obtain k where k: "k < length xs" "g (xs ! k) = Inl e" "\<forall>j < k. \<exists>y. g (xs ! j) = Inr y" by blast
      then show ?L using Inr by (intro exI[of _ "Suc k"]) (auto simp: nth_Cons split: nat.splits)
    qed
    have "map_res g (x # xs) = Inl e \<longleftrightarrow> map_res g xs = Inl e"
      using Inr by (cases "map_res g xs") simp_all
    then show ?thesis using Cons.IH shift by blast
  qed
qed

section \<open>String operations of the standard library\<close>

fun strip_prefix :: "str \<Rightarrow> str \<Rightarrow> str option" where
  "strip_prefix [] s = Some s"
| "strip_prefix (p # ps) [] = None"
| "strip_prefix (p # ps) (c # cs) = (if p = c then strip_prefix ps cs else None)"

definition starts_with :: "str \<Rightarrow> str \<Rightarrow> bool" where
  "starts_with p s \<longleftrightarrow> strip_prefix p s \<noteq> None"

definition strip_suffix :: "str \<Rightarrow> str \<Rightarrow> str option" where
  "strip_suffix p s = map_option rev (strip_prefix (rev p) (rev s))"

definition ends_with :: "str \<Rightarrow> str \<Rightarrow> bool" where
  "ends_with p s \<longleftrightarrow> strip_suffix p s \<noteq> None"

lemma strip_prefix_iff: "strip_prefix p s = Some r \<longleftrightarrow> s = p @ r"
  by (induction p s rule: strip_prefix.induct) auto

lemma strip_prefix_append [simp]: "strip_prefix p (p @ r) = Some r"
  by (simp add: strip_prefix_iff)

lemma strip_suffix_iff: "strip_suffix p s = Some r \<longleftrightarrow> s = r @ p"
  unfolding strip_suffix_def
  by (auto simp: strip_prefix_iff) (metis rev_append rev_rev_ident)

lemma strip_suffix_append [simp]: "strip_suffix p (r @ p) = Some r"
  by (simp add: strip_suffix_iff)

lemma starts_with_iff: "starts_with p s \<longleftrightarrow> (\<exists>r. s = p @ r)"
  by (simp add: starts_with_def strip_prefix_iff)

lemma ends_with_iff: "ends_with p s \<longleftrightarrow> (\<exists>r. s = r @ p)"
  by (simp add: ends_with_def strip_suffix_iff)

lemma starts_with_Nil [simp]: "starts_with [] s"
  by (simp add: starts_with_iff)

lemma starts_with_Cons [simp]:
  "starts_with (p # ps) (c # cs) \<longleftrightarrow> p = c \<and> starts_with ps cs"
  by (simp add: starts_with_def)

text \<open>\<open>s.split(c)\<close> for a one-byte separator: always at least one piece.\<close>

fun split_on :: "char \<Rightarrow> str \<Rightarrow> str list" where
  "split_on c [] = [[]]"
| "split_on c (x # xs) =
     (if x = c then [] # split_on c xs
      else (case split_on c xs of [] \<Rightarrow> [[x]] | w # ws \<Rightarrow> (x # w) # ws))"

fun join :: "str \<Rightarrow> str list \<Rightarrow> str" where
  "join sep [] = []"
| "join sep [w] = w"
| "join sep (w # ws) = w @ sep @ join sep ws"

lemma split_on_not_Nil [simp]: "split_on c s \<noteq> []"
  by (induction s) (auto split: list.splits)

lemma split_on_no_sep: "w \<in> set (split_on c s) \<Longrightarrow> c \<notin> set w"
proof (induction s arbitrary: w)
  case Nil
  then show ?case by simp
next
  case (Cons x xs)
  then show ?case
    by (cases "split_on c xs") (auto split: if_splits)
qed

lemma join_Cons: "ws \<noteq> [] \<Longrightarrow> join sep (w # ws) = w @ sep @ join sep ws"
  by (cases ws) simp_all

lemma set_join_subset: "set (join [c] ws) \<subseteq> insert c (\<Union>(set ` set ws))"
  by (induction "[c]" ws rule: join.induct) auto

lemma join_split_on: "join [c] (split_on c s) = s"
proof (induction s)
  case Nil
  then show ?case by simp
next
  case (Cons x xs)
  obtain w ws where w: "split_on c xs = w # ws"
    by (cases "split_on c xs") auto
  show ?case
    using Cons.IH w by (cases ws) auto
qed

lemma split_on_append_sep: "c \<notin> set w \<Longrightarrow> split_on c (w @ c # s) = w # split_on c s"
  by (induction w) auto

lemma split_on_no: "c \<notin> set w \<Longrightarrow> split_on c w = [w]"
  by (induction w) auto

lemma split_on_join:
  assumes "ws \<noteq> []" and "\<forall>w \<in> set ws. c \<notin> set w"
  shows "split_on c (join [c] ws) = ws"
  using assms
proof (induction ws rule: induct_list012)
  case (3 w w' ws)
  then show ?case by (simp add: split_on_append_sep)
qed (simp_all add: split_on_no)

text \<open>\<open>find\<close> and \<open>split_once\<close> on a byte: the part before the first occurrence and the part after.\<close>

fun split_once :: "char \<Rightarrow> str \<Rightarrow> (str \<times> str) option" where
  "split_once c [] = None"
| "split_once c (x # xs) =
     (if x = c then Some ([], xs)
      else map_option (\<lambda>(a, b). (x # a, b)) (split_once c xs))"

lemma split_once_Some: "split_once c s = Some (a, b) \<longleftrightarrow> s = a @ c # b \<and> c \<notin> set a"
proof (induction s arbitrary: a)
  case Nil
  then show ?case by simp
next
  case (Cons x xs)
  show ?case
  proof (cases "x = c")
    case True
    then show ?thesis by (cases a) auto
  next
    case False
    then show ?thesis
      using Cons.IH by (cases a) auto
  qed
qed

lemma sep_unique:
  fixes c :: char
  assumes "c \<notin> set a" and "c \<notin> set a'"
  shows "a @ c # b = a' @ c # b' \<longleftrightarrow> a = a' \<and> b = b'"
proof
  assume "a @ c # b = a' @ c # b'"
  moreover have "split_once c (a @ c # b) = Some (a, b)" "split_once c (a' @ c # b') = Some (a', b')"
    unfolding split_once_Some using assms by simp_all
  ultimately show "a = a' \<and> b = b'" by (metis option.inject prod.inject)
qed (elim conjE, hypsubst, rule refl)

lemma split_once_None: "split_once c s = None \<longleftrightarrow> c \<notin> set s"
  by (induction s) auto

text \<open>\<open>rsplit(c).next()\<close> and \<open>rfind\<close>: the last piece, and the part before the last separator.\<close>

definition rsplit_last :: "char \<Rightarrow> str \<Rightarrow> str" where
  "rsplit_last c s = last (split_on c s)"

definition before_last :: "char \<Rightarrow> str \<Rightarrow> str option" where
  "before_last c s = map_option (\<lambda>(a, b). rev b) (split_once c (rev s))"

definition trim_start_matches :: "char \<Rightarrow> str \<Rightarrow> str" where
  "trim_start_matches c s = dropWhile (\<lambda>x. x = c) s"

definition trim_end_matches :: "char \<Rightarrow> str \<Rightarrow> str" where
  "trim_end_matches c s = rev (dropWhile (\<lambda>x. x = c) (rev s))"

lemma last_split_on_no: "c \<notin> set s \<Longrightarrow> last (split_on c s) = s"
  by (simp add: split_on_no)

lemma rsplit_last_sep: "c \<notin> set b \<Longrightarrow> rsplit_last c (a @ c # b) = b"
proof -
  assume b: "c \<notin> set b"
  have "\<exists>ws. ws \<noteq> [] \<and> split_on c (a @ c # b) = ws @ [b]"
  proof (induction a)
    case Nil
    then show ?case using b by (simp add: split_on_no)
  next
    case (Cons x a)
    then obtain w ws where "split_on c (a @ c # b) = w # ws @ [b]"
      by (metis append_Cons neq_Nil_conv)
    then show ?case by (intro exI[of _ "if x = c then [] # w # ws else (x # w) # ws"]) simp
  qed
  then show ?thesis by (auto simp: rsplit_last_def)
qed

lemma rsplit_last_no: "c \<notin> set s \<Longrightarrow> rsplit_last c s = s"
  by (simp add: rsplit_last_def last_split_on_no)

lemma before_last_Some: "before_last c s = Some a \<longleftrightarrow> (\<exists>b. s = a @ c # b \<and> c \<notin> set b)"
proof -
  have "before_last c s = Some a \<longleftrightarrow> (\<exists>b. split_once c (rev s) = Some (b, rev a))"
    by (auto simp: before_last_def)
  also have "\<dots> \<longleftrightarrow> (\<exists>b. rev s = b @ c # rev a \<and> c \<notin> set b)"
    by (simp add: split_once_Some)
  also have "\<dots> \<longleftrightarrow> (\<exists>b. s = a @ c # b \<and> c \<notin> set b)"
    by (auto simp: rev_eq_append_conv) (metis rev_rev_ident set_rev)
  finally show ?thesis .
qed

lemma before_last_None: "before_last c s = None \<longleftrightarrow> c \<notin> set s"
  by (simp add: before_last_def split_once_None)

text \<open>\<open>str::replace\<close>: leftmost, non-overlapping occurrences of a non-empty pattern.\<close>

function replace_all :: "str \<Rightarrow> str \<Rightarrow> str \<Rightarrow> str" where
  "replace_all pat rep [] = []"
| "replace_all pat rep (c # cs) =
     (case (if pat = [] then None else strip_prefix pat (c # cs)) of
        Some rest \<Rightarrow> rep @ replace_all pat rep rest
      | None \<Rightarrow> c # replace_all pat rep cs)"
  by pat_completeness auto
termination
proof (relation "measure (\<lambda>(pat, rep, s). length s)")
  fix pat rep rest :: str and c cs
  assume "(if pat = [] then None else strip_prefix pat (c # cs)) = Some rest"
  then have "c # cs = pat @ rest" and "pat \<noteq> []"
    by (auto simp: strip_prefix_iff split: if_splits)
  then have "length (c # cs) = length pat + length rest" and "0 < length pat"
    by (metis length_append, simp)
  then show "((pat, rep, rest), (pat, rep, c # cs)) \<in> measure (\<lambda>(pat, rep, s). length s)"
    by simp
qed simp_all

text \<open>Byte offset of the first occurrence of a pattern (\<open>str::find\<close> with a string).\<close>

fun find_str :: "str \<Rightarrow> str \<Rightarrow> nat option" where
  "find_str pat [] = (if pat = [] then Some 0 else None)"
| "find_str pat (c # cs) =
     (if starts_with pat (c # cs) then Some 0 else map_option Suc (find_str pat cs))"

lemma find_str_Some:
  "find_str pat s = Some i \<Longrightarrow> i + length pat \<le> length s \<and> starts_with pat (drop i s)"
proof (induction s arbitrary: i)
  case Nil
  then show ?case by (auto split: if_splits)
next
  case (Cons c cs)
  show ?case
  proof (cases "starts_with pat (c # cs)")
    case True
    then show ?thesis
      using Cons.prems by (auto simp: starts_with_iff) (metis le_add1 length_Cons length_append)
  next
    case False
    then obtain j where "find_str pat cs = Some j" "i = Suc j"
      using Cons.prems by auto
    then show ?thesis using Cons.IH[of j] by simp
  qed
qed

section \<open>Character classes\<close>

definition in_range :: "char \<Rightarrow> char \<Rightarrow> char \<Rightarrow> bool" where
  "in_range lo hi c \<longleftrightarrow> lo \<le> c \<and> c \<le> hi"

definition is_ascii_digit :: "char \<Rightarrow> bool" where
  "is_ascii_digit = in_range CHR ''0'' CHR ''9''"

definition is_ascii_alphabetic :: "char \<Rightarrow> bool" where
  "is_ascii_alphabetic c \<longleftrightarrow> in_range CHR ''A'' CHR ''Z'' c \<or> in_range CHR ''a'' CHR ''z'' c"

definition is_ascii_alphanumeric :: "char \<Rightarrow> bool" where
  "is_ascii_alphanumeric c \<longleftrightarrow> is_ascii_alphabetic c \<or> is_ascii_digit c"

lemmas char_class_defs =
  in_range_def is_ascii_digit_def is_ascii_alphabetic_def is_ascii_alphanumeric_def

abbreviation dquote :: char where "dquote \<equiv> CHR 0x22"
abbreviation squote :: char where "squote \<equiv> CHR 0x27"
abbreviation backslash :: char where "backslash \<equiv> CHR 0x5C"
abbreviation newline :: char where "newline \<equiv> CHR 0x0A"
abbreviation tab :: char where "tab \<equiv> CHR 0x09"
abbreviation cret :: char where "cret \<equiv> CHR 0x0D"
abbreviation backtick :: char where "backtick \<equiv> CHR 0x60"

text \<open>
  The length in bytes of the White\_Space character a string starts with, 0 when it starts with
  anything else: the ASCII ones, U+0085, U+00A0, U+1680, U+2000 to U+200A, U+2028, U+2029, U+202F,
  U+205F and U+3000 in UTF-8.
\<close>

definition ws_width :: "str \<Rightarrow> nat" where
  "ws_width s =
     (case s of
        [] \<Rightarrow> 0
      | a # r \<Rightarrow>
          (if a = CHR '' '' \<or> (CHR 0x09 \<le> a \<and> a \<le> CHR 0x0D) then 1
           else if a = CHR 0xC2 \<and> (take 1 r = [CHR 0x85] \<or> take 1 r = [CHR 0xA0]) then 2
           else
             (case r of
                b # c # _ \<Rightarrow>
                  (if a = CHR 0xE1 \<and> b = CHR 0x9A \<and> c = CHR 0x80
                     \<or> a = CHR 0xE2 \<and> b = CHR 0x80
                         \<and> (CHR 0x80 \<le> c \<and> c \<le> CHR 0x8A \<or> c = CHR 0xA8 \<or> c = CHR 0xA9 \<or> c = CHR 0xAF)
                     \<or> a = CHR 0xE2 \<and> b = CHR 0x81 \<and> c = CHR 0x9F
                     \<or> a = CHR 0xE3 \<and> b = CHR 0x80 \<and> c = CHR 0x80
                   then 3 else 0)
              | _ \<Rightarrow> 0)))"

text \<open>Decimal text of a number, as \<open>{idx}\<close> formats it.\<close>

fun show_nat :: "nat \<Rightarrow> str" where
  "show_nat n = (if n < 10 then [char_of (48 + n)] else show_nat (n div 10) @ [char_of (48 + n mod 10)])"

declare show_nat.simps [simp del]

section \<open>Writers and their readers\<close>

text \<open>
  Several components write a value as text in one crate and read it back in another. What such a
  pair promises is that reading returns what was written; that the spelling then identifies the
  value follows here, once.
\<close>

locale codec =
  fixes enc :: "'a \<Rightarrow> 'b" and dec :: "'b \<Rightarrow> 'a option" and ok :: "'a \<Rightarrow> bool"
  assumes dec_enc: "ok x \<Longrightarrow> dec (enc x) = Some x"
begin

lemma enc_inj: "ok x \<Longrightarrow> ok y \<Longrightarrow> enc x = enc y \<longleftrightarrow> x = y"
  using dec_enc by (metis option.inject)

lemma enc_inj_on: "inj_on enc {x. ok x}"
  by (auto simp: inj_on_def enc_inj)

lemma dec_enc_iff: "ok x \<Longrightarrow> dec (enc x) = Some y \<longleftrightarrow> y = x"
  by (auto simp: dec_enc)

end

end
