(* ===== verification/Release.thy ===== *)
theory Release
  imports Cook_Prelude
begin

text \<open>
  The contract of a release rule, shared by the unit graph the executor drains (\<open>cook-dag\<close>) and by
  the recipe-level topological sort (\<open>unit_graph::toposort_recipes\<close>): finishing a node hands out the
  nodes that were waiting for it alone. Whoever starts from the nodes that wait for nothing and keeps
  finishing nodes it was handed finishes each node at most once and after everything it needs; what is
  left over when nothing is ready waits for itself; with a rank, nothing is left over.
\<close>

text \<open>
  A dispatcher holds the ready nodes, finishes any one of them, and adds what its completion
  released. Which one finishes next is not determined: worker threads, the chore window and cache
  hits all complete nodes.
\<close>

inductive dispatched ::
  "('n \<Rightarrow> 's \<Rightarrow> ('s \<times> 'n list) option) \<Rightarrow> 's \<Rightarrow> 'n list \<Rightarrow> 's \<Rightarrow> 'n list \<Rightarrow> 'n list \<Rightarrow> bool"
  for release s0 rdy0 where
  dispatch_start: "dispatched release s0 rdy0 s0 rdy0 []"
| dispatch_finish: "dispatched release s0 rdy0 s rdy fin \<Longrightarrow> i \<in> set rdy \<Longrightarrow>
     release i s = Some (s', new) \<Longrightarrow>
     dispatched release s0 rdy0 s' (remove1 i rdy @ new) (fin @ [i])"

locale release_rule =
  fixes inv :: "'s \<Rightarrow> bool" and nodes_of :: "'s \<Rightarrow> 'n set" and needs :: "'s \<Rightarrow> 'n \<Rightarrow> 'n set"
    and finished :: "'s \<Rightarrow> 'n set" and release :: "'n \<Rightarrow> 's \<Rightarrow> ('s \<times> 'n list) option"
    and start :: "'s \<Rightarrow> 'n list"
  assumes needs_irrefl: "inv s \<Longrightarrow> i \<notin> needs s i"
    and needs_nodes: "inv s \<Longrightarrow> needs s i \<subseteq> nodes_of s"
    and start_distinct: "inv s \<Longrightarrow> distinct (start s)"
    and start_set: "inv s \<Longrightarrow> set (start s) = {i \<in> nodes_of s. needs s i \<subseteq> finished s}"
    and release_first: "inv s \<Longrightarrow> i \<in> nodes_of s \<Longrightarrow> i \<notin> finished s \<Longrightarrow> needs s i \<subseteq> finished s \<Longrightarrow>
      \<exists>s' new. release i s = Some (s', new) \<and> inv s' \<and> nodes_of s' = nodes_of s
        \<and> needs s' = needs s \<and> finished s' = insert i (finished s)
        \<and> distinct new \<and> set new = {j \<in> nodes_of s. i \<in> needs s j \<and> needs s j \<subseteq> insert i (finished s)}"
begin

definition dispatch_inv :: "'s \<Rightarrow> 's \<Rightarrow> 'n list \<Rightarrow> 'n list \<Rightarrow> bool" where
  "dispatch_inv s0 s rdy fin \<longleftrightarrow>
     inv s \<and> nodes_of s = nodes_of s0 \<and> needs s = needs s0 \<and> set fin = finished s
     \<and> distinct (fin @ rdy)
     \<and> set rdy = {i \<in> nodes_of s0. i \<notin> finished s \<and> needs s0 i \<subseteq> finished s}
     \<and> set fin \<subseteq> nodes_of s0
     \<and> (\<forall>k < length fin. needs s0 (fin ! k) \<subseteq> set (take k fin))"

lemma dispatch_inv_start:
  assumes "inv s" and "finished s = {}"
  shows "dispatch_inv s s (start s) []"
  using assms start_distinct start_set by (simp add: dispatch_inv_def)

lemma dispatch_inv_finish:
  assumes I: "dispatch_inv s0 s rdy fin" and i: "i \<in> set rdy" and r: "release i s = Some (s', new)"
  shows "dispatch_inv s0 s' (remove1 i rdy @ new) (fin @ [i])"
proof -
  have inv: "inv s" "nodes_of s = nodes_of s0" "needs s = needs s0" "set fin = finished s"
    and di: "distinct fin" "distinct rdy" "set fin \<inter> set rdy = {}"
    and rdy: "set rdy = {i \<in> nodes_of s0. i \<notin> finished s \<and> needs s0 i \<subseteq> finished s}"
    and sub: "set fin \<subseteq> nodes_of s0"
    and ord: "\<forall>k < length fin. needs s0 (fin ! k) \<subseteq> set (take k fin)"
    using I by (auto simp: dispatch_inv_def)
  have i': "i \<in> nodes_of s" "i \<notin> finished s" "needs s0 i \<subseteq> finished s"
    using i rdy inv(2) by auto
  then have s': "inv s'" "nodes_of s' = nodes_of s0" "needs s' = needs s0"
      "finished s' = insert i (finished s)" "distinct new"
      "set new = {j \<in> nodes_of s0. i \<in> needs s0 j \<and> needs s0 j \<subseteq> insert i (finished s)}"
    using release_first[OF inv(1), of i] r inv by auto
  have irr: "i \<notin> needs s0 i"
    using needs_irrefl[OF inv(1), of i] inv(3) by auto
  have unseen: "j \<notin> finished s" "j \<noteq> i" if "j \<in> set new" for j
  proof -
    have j: "i \<in> needs s0 j" using that s'(6) by simp
    show "j \<noteq> i" using j irr by auto
    show "j \<notin> finished s"
    proof
      assume "j \<in> finished s"
      then obtain k where k: "k < length fin" "fin ! k = j"
        using inv(4) by (metis in_set_conv_nth)
      then have "i \<in> set fin" using ord j by (metis in_set_takeD subsetD)
      then show False using i'(2) inv(4) by simp
    qed
  qed
  have fresh: "set rdy \<inter> set new = {}"
    using s'(6) rdy i'(2) by auto
  have rdy': "set (remove1 i rdy @ new)
      = {j \<in> nodes_of s0. j \<notin> finished s' \<and> needs s0 j \<subseteq> finished s'}" (is "?L = ?R")
  proof
    show "?L \<subseteq> ?R"
    proof
      fix j assume j: "j \<in> ?L"
      show "j \<in> ?R"
      proof (cases "j \<in> set new")
        case True
        then show ?thesis using s'(4,6) unseen by blast
      next
        case False
        then have "j \<in> set rdy" "j \<noteq> i" using j di(2) by auto
        then show ?thesis using s'(4) rdy by auto
      qed
    qed
    show "?R \<subseteq> ?L" using s' rdy di(2) by auto
  qed
  have "distinct ((fin @ [i]) @ remove1 i rdy @ new)"
    using di i'(2) inv(4) s'(5) unseen fresh by (auto simp: distinct_remove1)
  moreover have "\<forall>k < length (fin @ [i]). needs s0 ((fin @ [i]) ! k) \<subseteq> set (take k (fin @ [i]))"
    using ord i'(3) inv(4) by (auto simp: nth_append less_Suc_eq)
  ultimately show ?thesis
    using s' rdy' inv(2,4) i'(1) sub by (auto simp: dispatch_inv_def)
qed

lemma dispatched_inv:
  assumes "dispatched release s0 (start s0) s rdy fin" and "inv s0" and "finished s0 = {}"
  shows "dispatch_inv s0 s rdy fin"
  using assms(1)
proof (induction rule: dispatched.induct)
  case dispatch_start
  then show ?case using assms dispatch_inv_start by blast
next
  case (dispatch_finish s rdy fin i s' new)
  then show ?case using dispatch_inv_finish by blast
qed

lemma dispatch_continues:
  assumes "dispatch_inv s0 s rdy fin" and "i \<in> set rdy"
  shows "\<exists>s' new. release i s = Some (s', new)"
proof -
  have "inv s" "i \<in> nodes_of s" "i \<notin> finished s" "needs s i \<subseteq> finished s"
    using assms by (auto simp: dispatch_inv_def)
  then show ?thesis using release_first by metis
qed

text \<open>With finitely many nodes every run can be carried on until nothing is ready.\<close>

lemma dispatch_ends:
  assumes "dispatched release s0 (start s0) s rdy fin" and "inv s0" and "finished s0 = {}"
    and "finite (nodes_of s0)"
  shows "\<exists>s' fin'. dispatched release s0 (start s0) s' [] (fin @ fin')"
  using assms(1)
proof (induction "card (nodes_of s0) - length fin" arbitrary: s rdy fin rule: less_induct)
  case less
  note I = dispatched_inv[OF less.prems assms(2,3)]
  show ?case
  proof (cases rdy)
    case Nil
    then show ?thesis using less.prems by (metis append_Nil2)
  next
    case (Cons i rest)
    then have i: "i \<in> set rdy" by simp
    obtain s' new where r: "release i s = Some (s', new)" using dispatch_continues[OF I i] by blast
    have step: "dispatched release s0 (start s0) s' (remove1 i rdy @ new) (fin @ [i])"
      by (rule dispatch_finish[OF less.prems i r])
    have "distinct (fin @ [i])" "set (fin @ [i]) \<subseteq> nodes_of s0"
      using dispatched_inv[OF step assms(2,3)] unfolding dispatch_inv_def distinct_append by blast+
    then have "length (fin @ [i]) \<le> card (nodes_of s0)"
      using card_mono[OF assms(4)] distinct_card by metis
    then have "card (nodes_of s0) - length (fin @ [i]) < card (nodes_of s0) - length fin" by simp
    from less.hyps[OF this step] show ?thesis by (metis append_assoc)
  qed
qed

text \<open>Nothing ready and something left: every leftover node waits for a leftover node.\<close>

lemma dispatch_stuck:
  assumes "dispatch_inv s0 s [] fin" and "i \<in> nodes_of s0 - set fin"
  shows "\<exists>p \<in> nodes_of s0 - set fin. p \<in> needs s0 i"
proof -
  have "\<not> needs s0 i \<subseteq> finished s"
    using assms by (auto simp: dispatch_inv_def)
  moreover have "needs s0 i \<subseteq> nodes_of s0"
    using assms(1) needs_nodes[of s i] by (simp add: dispatch_inv_def)
  ultimately show ?thesis
    using assms(1) by (auto simp: dispatch_inv_def)
qed

end

locale ordered_release = release_rule inv nodes_of needs finished release start
  for inv :: "'s \<Rightarrow> bool" and nodes_of :: "'s \<Rightarrow> 'n set" and needs :: "'s \<Rightarrow> 'n \<Rightarrow> 'n set"
    and finished :: "'s \<Rightarrow> 'n set" and release :: "'n \<Rightarrow> 's \<Rightarrow> ('s \<times> 'n list) option"
    and start :: "'s \<Rightarrow> 'n list" +
  fixes rank :: "'n \<Rightarrow> nat"
  assumes needs_less: "inv s \<Longrightarrow> i \<in> nodes_of s \<Longrightarrow> p \<in> needs s i \<Longrightarrow> rank p < rank i"
begin

text \<open>While something is unfinished, something is ready: the unfinished node of least rank.\<close>

lemma dispatch_ready:
  assumes I: "dispatch_inv s0 s [] fin"
  shows "set fin = nodes_of s0"
proof (rule ccontr)
  assume "set fin \<noteq> nodes_of s0"
  then have ex: "\<exists>i. i \<in> nodes_of s0 - set fin"
    using I by (auto simp: dispatch_inv_def)
  define m where "m = (ARG_MIN rank i. i \<in> nodes_of s0 - set fin)"
  have m: "m \<in> nodes_of s0 - set fin" and least: "\<And>y. y \<in> nodes_of s0 - set fin \<Longrightarrow> rank m \<le> rank y"
    using ex arg_min_natI[of "\<lambda>i. i \<in> nodes_of s0 - set fin" _ rank]
      arg_min_nat_le[of "\<lambda>i. i \<in> nodes_of s0 - set fin" _ rank] by (auto simp: m_def)
  obtain p where p: "p \<in> nodes_of s0 - set fin" "p \<in> needs s0 m"
    using dispatch_stuck[OF I m] by blast
  have "rank p < rank m"
    by (rule needs_less[of s]) (use I m p(2) in \<open>auto simp: dispatch_inv_def\<close>)
  then show False using least[OF p(1)] by simp
qed

end

end
