(* ===== verification/Dag.thy ===== *)
theory Dag
  imports Release
begin

text \<open>
  The dependency graph the executor drains, \<open>cook-dag/src/lib.rs\<close>: construction (\<open>add_node\<close>), the
  initially ready nodes and the completion of a node, with the counters at their machine width.
  The invariant \<open>dag_wf\<close> ties each counter to the dependencies still open; \<open>complete\<close> refines the
  set-level release rule and so provides the interface \<open>ordered_release\<close>. The section on concurrency is the concurrent reading
  of \<open>complete\<close>: several workers whose atomic operations interleave.
\<close>

section \<open>Data\<close>

record 'a node =
  node_id :: nat
  node_payload :: 'a
  dependents :: "nat list"
  remaining_deps :: u64
  completed :: bool

record 'a dag =
  dag_nodes :: "'a node list"
  dag_deps :: "nat list list"

datatype dag_error = DependencyOutOfRange nat nat

section \<open>Operations\<close>

definition dag_new :: "'a dag" where
  "dag_new = \<lparr>dag_nodes = [], dag_deps = []\<rparr>"

definition dag_len :: "'a dag \<Rightarrow> nat" where
  "dag_len d = length (dag_nodes d)"

definition dag_is_empty :: "'a dag \<Rightarrow> bool" where
  "dag_is_empty d \<longleftrightarrow> dag_nodes d = []"

text \<open>Indexing past the end panics: the accessors are partial.\<close>

definition dag_node :: "'a dag \<Rightarrow> nat \<Rightarrow> 'a node option" where
  "dag_node d i = (if i < length (dag_nodes d) then Some (dag_nodes d ! i) else None)"

definition dag_deps_of :: "'a dag \<Rightarrow> nat \<Rightarrow> nat list option" where
  "dag_deps_of d i = (if i < length (dag_deps d) then Some (dag_deps d ! i) else None)"

definition is_completed :: "'a dag \<Rightarrow> nat \<Rightarrow> bool option" where
  "is_completed d i = map_option completed (dag_node d i)"

text \<open>The validation loop: the first id that does not exist yet is the error; the set collects the rest.\<close>

fun validate_deps :: "nat \<Rightarrow> nat list \<Rightarrow> nat list \<Rightarrow> dag_error + nat list" where
  "validate_deps n [] uniq = Inr (sort uniq)"
| "validate_deps n (p # ps) uniq =
     (if n \<le> p then Inl (DependencyOutOfRange p n) else validate_deps n ps (List.insert p uniq))"

fun wire_edges :: "nat \<Rightarrow> nat list \<Rightarrow> 'a node list \<Rightarrow> 'a node list" where
  "wire_edges i [] ns = ns"
| "wire_edges i (p # ps) ns =
     wire_edges i ps (ns[p := (ns ! p)\<lparr>dependents := dependents (ns ! p) @ [i]\<rparr>])"

definition add_node :: "'a \<Rightarrow> nat list \<Rightarrow> 'a dag \<Rightarrow> dag_error + 'a dag \<times> nat" where
  "add_node p depends_on d =
     (let i = length (dag_nodes d) in
      bind_res (validate_deps i depends_on []) (\<lambda>dedup.
        let n = \<lparr>node_id = i, node_payload = p, dependents = [],
                 remaining_deps = word_of_nat (length dedup), completed = False\<rparr>
        in Inr (\<lparr>dag_nodes = wire_edges i dedup (dag_nodes d @ [n]),
                 dag_deps = dag_deps d @ [dedup]\<rparr>, i)))"

definition initial_ready :: "'a dag \<Rightarrow> nat list" where
  "initial_ready d = map node_id (filter (\<lambda>n. remaining_deps n = 0) (dag_nodes d))"

text \<open>One \<open>fetch_sub\<close> per dependent; the one that saw 1 released it. The subtraction wraps.\<close>

fun drain :: "nat list \<Rightarrow> 'a node list \<Rightarrow> nat list \<Rightarrow> 'a node list \<times> nat list" where
  "drain [] ns newly = (ns, newly)"
| "drain (j # js) ns newly =
     (let prev = remaining_deps (ns ! j);
          ns' = ns[j := (ns ! j)\<lparr>remaining_deps := prev - 1\<rparr>]
      in drain js ns' (if prev = 1 then newly @ [j] else newly))"

definition complete :: "nat \<Rightarrow> 'a dag \<Rightarrow> ('a dag \<times> nat list) option" where
  "complete i d =
     (if i < length (dag_nodes d) then
        (let ns = dag_nodes d in
         if completed (ns ! i) then Some (d, [])
         else
           (let (ns', newly) = drain (dependents (ns ! i)) (ns[i := (ns ! i)\<lparr>completed := True\<rparr>]) []
            in Some (d\<lparr>dag_nodes := ns'\<rparr>, newly)))
      else None)"

section \<open>Invariant\<close>

text \<open>The dependencies of a node that have not completed, and the completed set.\<close>

definition open_deps :: "'a node list \<Rightarrow> nat list \<Rightarrow> nat list" where
  "open_deps ns ps = filter (\<lambda>p. \<not> completed (ns ! p)) ps"

definition done_set :: "'a dag \<Rightarrow> nat set" where
  "done_set d = {i. i < length (dag_nodes d) \<and> completed (dag_nodes d ! i)}"

definition preds :: "'a dag \<Rightarrow> nat \<Rightarrow> nat set" where
  "preds d i = set (dag_deps d ! i)"

definition dag_shape :: "'a dag \<Rightarrow> bool" where
  "dag_shape d \<longleftrightarrow>
     (let n = length (dag_nodes d) in
      n \<le> 2 ^ 64 \<and> length (dag_deps d) = n
      \<and> (\<forall>i < n. node_id (dag_nodes d ! i) = i
                 \<and> sorted (dag_deps d ! i) \<and> distinct (dag_deps d ! i)
                 \<and> (\<forall>p \<in> set (dag_deps d ! i). p < i)
                 \<and> dependents (dag_nodes d ! i)
                     = filter (\<lambda>j. i \<in> set (dag_deps d ! j)) [0..<n]))"

definition dag_wf :: "'a dag \<Rightarrow> bool" where
  "dag_wf d \<longleftrightarrow>
     dag_shape d
     \<and> (\<forall>i < length (dag_nodes d).
          unat (remaining_deps (dag_nodes d ! i)) = length (open_deps (dag_nodes d) (dag_deps d ! i)))"

lemma dag_wfD:
  assumes "dag_wf d" and "i < length (dag_nodes d)"
  shows "length (dag_deps d) = length (dag_nodes d)"
    and "length (dag_nodes d) \<le> 2 ^ 64"
    and "node_id (dag_nodes d ! i) = i"
    and "sorted (dag_deps d ! i)" and "distinct (dag_deps d ! i)"
    and "\<And>p. p \<in> set (dag_deps d ! i) \<Longrightarrow> p < i"
    and "dependents (dag_nodes d ! i)
           = filter (\<lambda>j. i \<in> set (dag_deps d ! j)) [0..<length (dag_nodes d)]"
    and "unat (remaining_deps (dag_nodes d ! i)) = length (open_deps (dag_nodes d) (dag_deps d ! i))"
  using assms by (auto simp: dag_wf_def dag_shape_def Let_def)

lemma preds_less:
  assumes "dag_wf d" and "i < length (dag_nodes d)" and "p \<in> preds d i"
  shows "p < i" and "p < length (dag_nodes d)"
  using dag_wfD(6)[OF assms(1,2), of p] assms(2,3) by (auto simp: preds_def)

lemma dag_new_wf: "dag_wf dag_new"
  by (simp add: dag_wf_def dag_shape_def dag_new_def)

subsection \<open>Construction\<close>

lemma validate_deps_Inr:
  "distinct uniq \<Longrightarrow> validate_deps n ps uniq = Inr r \<Longrightarrow>
     sorted r \<and> distinct r \<and> set r = set uniq \<union> set ps \<and> (\<forall>p \<in> set ps. p < n)"
proof (induction ps arbitrary: uniq)
  case Nil
  then show ?case by auto
next
  case (Cons p ps)
  then have "\<not> n \<le> p" and "validate_deps n ps (List.insert p uniq) = Inr r"
    by (auto split: if_splits)
  with Cons.IH[of "List.insert p uniq"] Cons.prems(1) show ?case
    by auto
qed

lemma validate_deps_Inl:
  "validate_deps n ps uniq = Inl e \<longleftrightarrow>
     (\<exists>as p bs. ps = as @ p # bs \<and> (\<forall>a \<in> set as. a < n) \<and> n \<le> p \<and> e = DependencyOutOfRange p n)"
proof (induction ps arbitrary: uniq)
  case Nil
  then show ?case by simp
next
  case (Cons q ps)
  show ?case
  proof (cases "n \<le> q")
    case True
    then show ?thesis
      by (auto simp: Cons_eq_append_conv intro: exI[where x = "[]"])
  next
    case False
    then show ?thesis
      using Cons.IH[of "List.insert q uniq"] by (auto simp: Cons_eq_append_conv) fastforce+
  qed
qed

lemma wire_edges_length [simp]: "length (wire_edges i ps ns) = length ns"
  by (induction ps arbitrary: ns) auto

lemma wire_edges_nth:
  assumes "distinct ps" and "\<forall>p \<in> set ps. p < length ns" and "k < length ns"
  shows "wire_edges i ps ns ! k
           = (if k \<in> set ps then (ns ! k)\<lparr>dependents := dependents (ns ! k) @ [i]\<rparr> else ns ! k)"
  using assms
proof (induction ps arbitrary: ns)
  case Nil
  then show ?case by simp
next
  case (Cons p ps)
  then show ?case
    by (auto simp: nth_list_update)
qed

lemma add_node_Inr:
  assumes "add_node p depends_on d = Inr (d', i)"
  obtains dedup where
    "i = length (dag_nodes d)" and "sorted dedup" and "distinct dedup"
    and "set dedup = set depends_on" and "\<forall>q \<in> set dedup. q < length (dag_nodes d)"
    and "dag_deps d' = dag_deps d @ [dedup]"
    and "length (dag_nodes d') = Suc (length (dag_nodes d))"
    and "dag_nodes d' ! i = \<lparr>node_id = i, node_payload = p, dependents = [],
           remaining_deps = word_of_nat (length dedup), completed = False\<rparr>"
    and "\<And>k. k < length (dag_nodes d) \<Longrightarrow> dag_nodes d' ! k =
           (if k \<in> set dedup then (dag_nodes d ! k)\<lparr>dependents := dependents (dag_nodes d ! k) @ [i]\<rparr>
            else dag_nodes d ! k)"
proof -
  obtain dedup where v: "validate_deps (length (dag_nodes d)) depends_on [] = Inr dedup"
    and i: "i = length (dag_nodes d)"
    and d': "d' = \<lparr>dag_nodes = wire_edges i dedup (dag_nodes d @
               [\<lparr>node_id = i, node_payload = p, dependents = [],
                 remaining_deps = word_of_nat (length dedup), completed = False\<rparr>]),
               dag_deps = dag_deps d @ [dedup]\<rparr>"
    using assms by (auto simp: add_node_def Let_def bind_res_Inr_iff)
  have u: "sorted dedup" "distinct dedup" "set dedup = set depends_on"
    "\<forall>q \<in> set dedup. q < length (dag_nodes d)"
    using validate_deps_Inr[OF _ v] by auto
  let ?n = "\<lparr>node_id = i, node_payload = p, dependents = [],
             remaining_deps = word_of_nat (length dedup), completed = False\<rparr>"
  have "\<forall>q \<in> set dedup. q < length (dag_nodes d @ [?n])"
    using u(4) by auto
  note w = wire_edges_nth[OF u(2) this]
  have "wire_edges i dedup (dag_nodes d @ [?n]) ! i = ?n"
    using w[of i] u(4) i by (auto simp: nth_append)
  moreover have "\<And>k. k < length (dag_nodes d) \<Longrightarrow> wire_edges i dedup (dag_nodes d @ [?n]) ! k =
       (if k \<in> set dedup then (dag_nodes d ! k)\<lparr>dependents := dependents (dag_nodes d ! k) @ [i]\<rparr>
        else dag_nodes d ! k)"
    using w by (auto simp: nth_append)
  ultimately show ?thesis
    using that[of dedup] u i d' by simp
qed

lemma add_node_error_iff:
  "add_node p depends_on d = Inl e \<longleftrightarrow>
     (\<exists>as q bs. depends_on = as @ q # bs \<and> (\<forall>a \<in> set as. a < dag_len d) \<and> dag_len d \<le> q
        \<and> e = DependencyOutOfRange q (dag_len d))"
  by (simp add: add_node_def Let_def bind_res_Inl_iff validate_deps_Inl dag_len_def)

lemma add_node_ok:
  "(\<forall>q \<in> set depends_on. q < dag_len d) \<Longrightarrow> \<exists>d'. add_node p depends_on d = Inr (d', dag_len d)"
proof -
  assume a: "\<forall>q \<in> set depends_on. q < dag_len d"
  have "\<nexists>e. add_node p depends_on d = Inl e"
    using a by (auto simp: add_node_error_iff)
  then obtain d' i where "add_node p depends_on d = Inr (d', i)"
    by (metis old.sum.exhaust surj_pair)
  moreover from this have "i = dag_len d"
    by (rule add_node_Inr) (simp add: dag_len_def)
  ultimately show ?thesis by blast
qed

lemma open_deps_cong:
  "(\<And>p. p \<in> set ps \<Longrightarrow> completed (ns ! p) = completed (ms ! p)) \<Longrightarrow> open_deps ns ps = open_deps ms ps"
  by (auto simp: open_deps_def intro: filter_cong)

text \<open>A node added while none of its dependencies has completed keeps the invariant.\<close>

lemma add_node_wf:
  assumes wf: "dag_wf d" and add: "add_node p depends_on d = Inr (d', i)"
    and room: "length (dag_nodes d) < 2 ^ 64"
    and fresh: "\<forall>q \<in> set depends_on. q \<notin> done_set d"
  shows "dag_wf d'"
proof -
  obtain dedup where i: "i = length (dag_nodes d)"
    and dd: "sorted dedup" "distinct dedup" "set dedup = set depends_on"
      "\<forall>q \<in> set dedup. q < length (dag_nodes d)"
    and deps': "dag_deps d' = dag_deps d @ [dedup]"
    and len': "length (dag_nodes d') = Suc (length (dag_nodes d))"
    and new: "dag_nodes d' ! i = \<lparr>node_id = i, node_payload = p, dependents = [],
           remaining_deps = word_of_nat (length dedup), completed = False\<rparr>"
    and old: "\<And>k. k < length (dag_nodes d) \<Longrightarrow> dag_nodes d' ! k =
           (if k \<in> set dedup then (dag_nodes d ! k)\<lparr>dependents := dependents (dag_nodes d ! k) @ [i]\<rparr>
            else dag_nodes d ! k)"
    using add by (rule add_node_Inr) (rule that)
  have lendeps: "length (dag_deps d) = length (dag_nodes d)"
    using wf by (simp add: dag_wf_def dag_shape_def Let_def)
  have lt: "p < i" if "k < i" "p \<in> set (dag_deps d ! k)" for k p
    using dag_wfD(6)[OF wf, of k p] that i by simp
  have compl: "completed (dag_nodes d' ! q) = completed (dag_nodes d ! q)" if "q < i" for q
    using old[of q] that i by simp
  have lenb: "length dedup \<le> i"
    using dd i card_mono[of "{..<i}" "set dedup"] distinct_card[OF dd(2)] by auto
  have unat_len: "unat (word_of_nat (length dedup) :: u64) = length dedup"
    using lenb room i by (simp add: unat_of_nat)
  have open_new: "open_deps (dag_nodes d') dedup = dedup"
    using dd fresh compl i by (auto simp: open_deps_def done_set_def intro!: filter_True)
  have open_old: "open_deps (dag_nodes d') (dag_deps d ! k) = open_deps (dag_nodes d) (dag_deps d ! k)"
    if "k < i" for k
    by (rule open_deps_cong) (use lt[OF that] compl in auto)
  have shape: "dag_shape d'"
    unfolding dag_shape_def Let_def
  proof (intro conjI allI impI)
    show "length (dag_nodes d') \<le> 2 ^ 64" using len' room by simp
    show "length (dag_deps d') = length (dag_nodes d')" using deps' lendeps len' by simp
    fix k assume "k < length (dag_nodes d')"
    then have k: "k < i \<or> k = i" using len' i by auto
    show "node_id (dag_nodes d' ! k) = k"
      using k new old[of k] dag_wfD(3)[OF wf, of k] i by auto
    show "sorted (dag_deps d' ! k)" and "distinct (dag_deps d' ! k)"
      and "\<forall>p \<in> set (dag_deps d' ! k). p < k"
      using k deps' dag_wfD(4,5,6)[OF wf, of k] i lendeps dd by (auto simp: nth_append)
    have f: "filter (\<lambda>j. k \<in> set (dag_deps d' ! j)) [0..<i]
              = filter (\<lambda>j. k \<in> set (dag_deps d ! j)) [0..<i]"
      by (rule filter_cong) (use deps' i lendeps in \<open>auto simp: nth_append\<close>)
    have kd: "k \<in> set (dag_deps d' ! i) \<longleftrightarrow> k \<in> set dedup"
      using deps' i lendeps by (simp add: nth_append)
    have none: "filter (\<lambda>j. i \<in> set (dag_deps d ! j)) [0..<i] = []"
      using lt by (fastforce simp: filter_empty_conv)
    show "dependents (dag_nodes d' ! k)
            = filter (\<lambda>j. k \<in> set (dag_deps d' ! j)) [0..<length (dag_nodes d')]"
      using k f kd none new old[of k] dag_wfD(7)[OF wf, of k] i len' dd(4) by auto
  qed
  have "unat (remaining_deps (dag_nodes d' ! k)) = length (open_deps (dag_nodes d') (dag_deps d' ! k))"
    if "k < length (dag_nodes d')" for k
  proof (cases "k = i")
    case True
    then show ?thesis
      using new unat_len open_new deps' i lendeps by (simp add: nth_append)
  next
    case False
    then have "k < i" using that len' i by simp
    then show ?thesis
      using old[of k] dag_wfD(8)[OF wf, of k] open_old[of k] deps' i lendeps by (simp add: nth_append)
  qed
  then show ?thesis using shape by (simp add: dag_wf_def)
qed


subsection \<open>Completion\<close>

lemma drain_length [simp]: "length (fst (drain js ns acc)) = length ns"
  by (induction js ns acc rule: drain.induct) (simp_all add: Let_def)

lemma drain_snd:
  assumes "distinct js" and "\<forall>j \<in> set js. j < length ns"
  shows "snd (drain js ns acc) = acc @ filter (\<lambda>j. remaining_deps (ns ! j) = 1) js"
  using assms
proof (induction js arbitrary: ns acc)
  case Nil
  then show ?case by simp
next
  case (Cons j js)
  let ?ns = "ns[j := (ns ! j)\<lparr>remaining_deps := remaining_deps (ns ! j) - 1\<rparr>]"
  have "?ns ! k = ns ! k" if "k \<in> set js" for k
    using that Cons.prems(1) by (metis distinct.simps(2) nth_list_update_neq)
  then have "filter (\<lambda>k. remaining_deps (?ns ! k) = 1) js = filter (\<lambda>k. remaining_deps (ns ! k) = 1) js"
    by (intro filter_cong) simp_all
  then have "snd (drain js ?ns a) = a @ filter (\<lambda>k. remaining_deps (ns ! k) = 1) js" for a
    using Cons.IH[of ?ns a] Cons.prems by simp
  then show ?case by (simp add: Let_def)
qed

lemma drain_fst:
  assumes "distinct js" and "\<forall>j \<in> set js. j < length ns" and "k < length ns"
  shows "fst (drain js ns acc) ! k
           = (if k \<in> set js then (ns ! k)\<lparr>remaining_deps := remaining_deps (ns ! k) - 1\<rparr> else ns ! k)"
  using assms
proof (induction js arbitrary: ns acc)
  case Nil
  then show ?case by simp
next
  case (Cons j js)
  let ?ns = "ns[j := (ns ! j)\<lparr>remaining_deps := remaining_deps (ns ! j) - 1\<rparr>]"
  have "fst (drain js ?ns a) ! k
      = (if k \<in> set js then (?ns ! k)\<lparr>remaining_deps := remaining_deps (?ns ! k) - 1\<rparr> else ?ns ! k)" for a
    using Cons.IH[of ?ns a] Cons.prems by simp
  then show ?case
    using Cons.prems by (auto simp: Let_def nth_list_update)
qed

lemma open_deps_step:
  assumes "distinct ps" and "i < length ns" and "\<not> completed (ns ! i)" and "\<forall>p \<in> set ps. p < length ns"
    and "\<And>k. k < length ns \<Longrightarrow> completed (ms ! k) = (k = i \<or> completed (ns ! k))"
  shows "open_deps ms ps = remove1 i (open_deps ns ps)"
proof -
  have "completed (ms ! p) = (p = i \<or> completed (ns ! p))" if "p \<in> set ps" for p
    using assms(4,5) that by blast
  then have "open_deps ms ps = filter (\<lambda>p. \<not> completed (ns ! p) \<and> i \<noteq> p) ps"
    unfolding open_deps_def by (intro filter_cong) auto
  also have "\<dots> = filter (\<lambda>p. i \<noteq> p) (open_deps ns ps)"
    by (simp add: open_deps_def conj_commute)
  also have "\<dots> = remove1 i (open_deps ns ps)"
    using assms(1) by (simp add: open_deps_def distinct_remove1_removeAll removeAll_filter_not_eq)
  finally show ?thesis .
qed

lemma dependents_distinct:
  assumes "dag_wf d" and "i < length (dag_nodes d)"
  shows "distinct (dependents (dag_nodes d ! i))"
    and "\<forall>j \<in> set (dependents (dag_nodes d ! i)). j < length (dag_nodes d) \<and> j \<noteq> i"
    and "j \<in> set (dependents (dag_nodes d ! i)) \<longleftrightarrow> j < length (dag_nodes d) \<and> i \<in> preds d j"
  using dag_wfD(7)[OF assms] dag_wfD(6)[OF assms(1)] by (auto simp: preds_def)

text \<open>The state a first completion leaves.\<close>

lemma complete_first:
  assumes wf: "dag_wf d" and i: "i < length (dag_nodes d)" and nd: "\<not> completed (dag_nodes d ! i)"
  obtains d' where
    "complete i d = Some (d', filter (\<lambda>j. remaining_deps (dag_nodes d ! j) = 1)
                                (dependents (dag_nodes d ! i)))"
    and "dag_deps d' = dag_deps d" and "length (dag_nodes d') = length (dag_nodes d)"
    and "\<And>k. k < length (dag_nodes d) \<Longrightarrow> dag_nodes d' ! k =
           (dag_nodes d ! k)\<lparr>completed := (k = i \<or> completed (dag_nodes d ! k)),
              remaining_deps := remaining_deps (dag_nodes d ! k) - (if i \<in> preds d k then 1 else 0)\<rparr>"
proof -
  let ?ns = "dag_nodes d"
  let ?ms = "?ns[i := (?ns ! i)\<lparr>completed := True\<rparr>]"
  let ?js = "dependents (?ns ! i)"
  have js: "distinct ?js" "\<forall>j \<in> set ?js. j < length ?ms"
    and ne: "\<forall>j \<in> set ?js. j \<noteq> i" and mem: "\<And>j. j \<in> set ?js \<longleftrightarrow> j < length ?ns \<and> i \<in> preds d j"
    using dependents_distinct[OF wf i] by auto
  let ?r = "drain ?js ?ms []"
  have snd: "snd ?r = filter (\<lambda>j. remaining_deps (?ns ! j) = 1) ?js"
    unfolding drain_snd[OF js] append_Nil
    by (rule filter_cong) (use ne in auto)
  have fst: "fst ?r ! k = (?ns ! k)\<lparr>completed := (k = i \<or> completed (?ns ! k)),
              remaining_deps := remaining_deps (?ns ! k) - (if i \<in> preds d k then 1 else 0)\<rparr>"
    if "k < length ?ns" for k
    using drain_fst[OF js, of k "[]"] that ne mem[of k] by (cases "k = i") auto
  have "complete i d = Some (d\<lparr>dag_nodes := fst ?r\<rparr>, snd ?r)"
    using i nd by (simp add: complete_def Let_def case_prod_beta)
  then show ?thesis
    using that[of "d\<lparr>dag_nodes := fst ?r\<rparr>"] snd fst by simp
qed

text \<open>
  The set-level rule \<open>complete\<close> implements: what completing \<open>i\<close> releases is every node waiting
  for \<open>i\<close> whose other dependencies have all completed.
\<close>

definition released_by :: "nat list list \<Rightarrow> nat set \<Rightarrow> nat \<Rightarrow> nat list" where
  "released_by ds C i =
     filter (\<lambda>j. i \<in> set (ds ! j) \<and> set (ds ! j) \<subseteq> insert i C) [0..<length ds]"

lemma card_one_mem: "i \<in> S \<Longrightarrow> card S = 1 \<longleftrightarrow> S = {i}"
  by (auto simp: card_1_singleton_iff)

lemma open_deps_single:
  assumes "distinct ps" and "i \<in> set ps" and "\<not> completed (ns ! i)"
  shows "length (open_deps ns ps) = 1 \<longleftrightarrow> (\<forall>p \<in> set ps. p = i \<or> completed (ns ! p))"
proof -
  let ?S = "{p \<in> set ps. \<not> completed (ns ! p)}"
  have "set (open_deps ns ps) = ?S" and "distinct (open_deps ns ps)"
    using assms(1) by (auto simp: open_deps_def)
  then have "length (open_deps ns ps) = card ?S"
    using distinct_card by fastforce
  moreover have "i \<in> ?S" using assms(2,3) by simp
  then have "card ?S = 1 \<longleftrightarrow> ?S = {i}"
    by (rule card_one_mem)
  moreover have "?S = {i} \<longleftrightarrow> (\<forall>p \<in> set ps. p = i \<or> completed (ns ! p))"
    using assms(2,3) by auto
  ultimately show ?thesis by simp
qed

lemma remaining_one_iff:
  assumes "dag_wf d" and "j < length (dag_nodes d)" and "i \<in> preds d j"
    and "\<not> completed (dag_nodes d ! i)"
  shows "remaining_deps (dag_nodes d ! j) = 1 \<longleftrightarrow> preds d j \<subseteq> insert i (done_set d)"
    and "remaining_deps (dag_nodes d ! j) \<noteq> 0"
proof -
  have lt: "\<forall>p \<in> preds d j. p < length (dag_nodes d)"
    using preds_less(2)[OF assms(1,2)] by blast
  have u: "unat (remaining_deps (dag_nodes d ! j)) = length (open_deps (dag_nodes d) (dag_deps d ! j))"
    by (rule dag_wfD(8)[OF assms(1,2)])
  have "remaining_deps (dag_nodes d ! j) = 1
          \<longleftrightarrow> length (open_deps (dag_nodes d) (dag_deps d ! j)) = 1"
    using u by (metis unat_1 word_unat_eq_iff)
  also have "\<dots> \<longleftrightarrow> (\<forall>p \<in> preds d j. p = i \<or> completed (dag_nodes d ! p))"
    using open_deps_single[OF dag_wfD(5)[OF assms(1,2)], of i] assms(3,4) by (simp add: preds_def)
  also have "\<dots> \<longleftrightarrow> preds d j \<subseteq> insert i (done_set d)"
    using lt by (auto simp: done_set_def)
  finally show "remaining_deps (dag_nodes d ! j) = 1 \<longleftrightarrow> preds d j \<subseteq> insert i (done_set d)" .
  have "open_deps (dag_nodes d) (dag_deps d ! j) \<noteq> []"
    using assms(3,4) by (auto simp: open_deps_def preds_def filter_empty_conv)
  then show "remaining_deps (dag_nodes d ! j) \<noteq> 0"
    using u by (metis length_0_conv unat_0)
qed

lemma complete_released:
  assumes wf: "dag_wf d" and i: "i < length (dag_nodes d)" and nd: "\<not> completed (dag_nodes d ! i)"
  shows "filter (\<lambda>j. remaining_deps (dag_nodes d ! j) = 1) (dependents (dag_nodes d ! i))
           = released_by (dag_deps d) (done_set d) i"
proof -
  have "remaining_deps (dag_nodes d ! j) = 1 \<longleftrightarrow> set (dag_deps d ! j) \<subseteq> insert i (done_set d)"
    if "j < length (dag_nodes d)" "i \<in> set (dag_deps d ! j)" for j
    using remaining_one_iff(1)[OF wf that(1) _ nd] that(2) by (simp add: preds_def)
  then show ?thesis
    using dag_wfD(7)[OF wf i] dag_wfD(1)[OF wf i]
    by (auto simp: released_by_def intro!: filter_cong)
qed

lemma complete_wf:
  assumes wf: "dag_wf d" and c: "complete i d = Some (d', r)"
  shows "dag_wf d'"
proof (cases "completed (dag_nodes d ! i)")
  case True
  then show ?thesis using wf c by (auto simp: complete_def Let_def split: if_splits)
next
  case False
  have i: "i < length (dag_nodes d)" using c by (auto simp: complete_def split: if_splits)
  obtain e where "complete i d = Some (e, filter (\<lambda>j. remaining_deps (dag_nodes d ! j) = 1)
                                (dependents (dag_nodes d ! i)))"
    and deps: "dag_deps e = dag_deps d" and len: "length (dag_nodes e) = length (dag_nodes d)"
    and nth: "\<And>k. k < length (dag_nodes d) \<Longrightarrow> dag_nodes e ! k =
           (dag_nodes d ! k)\<lparr>completed := (k = i \<or> completed (dag_nodes d ! k)),
              remaining_deps := remaining_deps (dag_nodes d ! k) - (if i \<in> preds d k then 1 else 0)\<rparr>"
    using complete_first[OF wf i False] by blast
  then have "d' = e" using c by simp
  have shape: "dag_shape e"
    using wf nth deps len by (simp add: dag_wf_def dag_shape_def Let_def)
  have "unat (remaining_deps (dag_nodes e ! k)) = length (open_deps (dag_nodes e) (dag_deps e ! k))"
    if k: "k < length (dag_nodes e)" for k
  proof -
    have k': "k < length (dag_nodes d)" using k len by simp
    have lt: "\<forall>p \<in> set (dag_deps d ! k). p < length (dag_nodes d)"
      using dag_wfD(6)[OF wf k'] k' by fastforce
    have "open_deps (dag_nodes e) (dag_deps d ! k) = remove1 i (open_deps (dag_nodes d) (dag_deps d ! k))"
      by (rule open_deps_step[OF dag_wfD(5)[OF wf k'] i False lt]) (simp add: nth)
    moreover have "i \<in> set (open_deps (dag_nodes d) (dag_deps d ! k)) \<longleftrightarrow> i \<in> preds d k"
      using False by (simp add: open_deps_def preds_def)
    ultimately have "length (open_deps (dag_nodes e) (dag_deps d ! k))
        = length (open_deps (dag_nodes d) (dag_deps d ! k)) - (if i \<in> preds d k then 1 else 0)"
      by (simp add: length_remove1)
    moreover have "unat (remaining_deps (dag_nodes e ! k))
        = unat (remaining_deps (dag_nodes d ! k)) - (if i \<in> preds d k then 1 else 0)"
      using nth[OF k'] remaining_one_iff(2)[OF wf k' _ False] by (simp add: unat_minus_one)
    ultimately show ?thesis
      using dag_wfD(8)[OF wf k'] deps by simp
  qed
  then show ?thesis using shape \<open>d' = e\<close> by (simp add: dag_wf_def)
qed

text \<open>The refinement: counters against sets.\<close>

lemma complete_refines:
  assumes wf: "dag_wf d" and i: "i < dag_len d"
  shows "\<exists>d'. complete i d
           = Some (d', if i \<in> done_set d then [] else released_by (dag_deps d) (done_set d) i)
         \<and> dag_wf d' \<and> dag_len d' = dag_len d \<and> dag_deps d' = dag_deps d
         \<and> done_set d' = insert i (done_set d)
         \<and> map node_payload (dag_nodes d') = map node_payload (dag_nodes d)"
proof (cases "completed (dag_nodes d ! i)")
  case True
  then show ?thesis
    using wf i by (auto simp: complete_def dag_len_def done_set_def Let_def)
next
  case False
  have i': "i < length (dag_nodes d)" using i by (simp add: dag_len_def)
  obtain e where e: "complete i d = Some (e, filter (\<lambda>j. remaining_deps (dag_nodes d ! j) = 1)
                                (dependents (dag_nodes d ! i)))"
    and deps: "dag_deps e = dag_deps d" and len: "length (dag_nodes e) = length (dag_nodes d)"
    and nth: "\<And>k. k < length (dag_nodes d) \<Longrightarrow> dag_nodes e ! k =
           (dag_nodes d ! k)\<lparr>completed := (k = i \<or> completed (dag_nodes d ! k)),
              remaining_deps := remaining_deps (dag_nodes d ! k) - (if i \<in> preds d k then 1 else 0)\<rparr>"
    using complete_first[OF wf i' False] by blast
  have "i \<notin> done_set d" using False by (simp add: done_set_def)
  moreover have "done_set e = insert i (done_set d)"
    using nth len i' by (auto simp: done_set_def)
  moreover have "map node_payload (dag_nodes e) = map node_payload (dag_nodes d)"
    using nth len by (auto simp: list_eq_iff_nth_eq)
  ultimately show ?thesis
    using e complete_wf[OF wf e] deps len complete_released[OF wf i' False]
    by (auto simp: dag_len_def)
qed

lemma complete_panics_iff: "complete i d = None \<longleftrightarrow> dag_len d \<le> i"
  by (auto simp: complete_def dag_len_def Let_def split: prod.splits)

lemma initial_ready_eq:
  assumes wf: "dag_wf d"
  shows "initial_ready d = filter (\<lambda>i. preds d i \<subseteq> done_set d) [0..<dag_len d]"
proof -
  let ?ns = "dag_nodes d"
  have z: "remaining_deps (?ns ! i) = 0 \<longleftrightarrow> preds d i \<subseteq> done_set d" if i: "i < length ?ns" for i
  proof -
    have "remaining_deps (?ns ! i) = 0 \<longleftrightarrow> open_deps ?ns (dag_deps d ! i) = []"
      using dag_wfD(8)[OF wf i] by (metis length_0_conv unat_0 unat_eq_zero)
    also have "\<dots> \<longleftrightarrow> (\<forall>p \<in> preds d i. completed (?ns ! p))"
      by (simp add: open_deps_def preds_def filter_empty_conv)
    also have "\<dots> \<longleftrightarrow> preds d i \<subseteq> done_set d"
      using preds_less(2)[OF wf i] by (auto simp: done_set_def)
    finally show ?thesis .
  qed
  have "?ns = map (\<lambda>i. ?ns ! i) [0..<length ?ns]"
    by (simp add: map_nth)
  then have "filter (\<lambda>n. remaining_deps n = 0) ?ns
      = map (\<lambda>i. ?ns ! i) (filter (\<lambda>i. remaining_deps (?ns ! i) = 0) [0..<length ?ns])"
    by (metis (no_types, lifting) comp_apply filter_cong filter_map)
  then have "initial_ready d
      = map (\<lambda>i. node_id (?ns ! i)) (filter (\<lambda>i. remaining_deps (?ns ! i) = 0) [0..<length ?ns])"
    by (simp add: initial_ready_def comp_def)
  also have "filter (\<lambda>i. remaining_deps (?ns ! i) = 0) [0..<length ?ns]
      = filter (\<lambda>i. preds d i \<subseteq> done_set d) [0..<length ?ns]"
    by (rule filter_cong) (use z in auto)
  also have "map (\<lambda>i. node_id (?ns ! i)) (filter (\<lambda>i. preds d i \<subseteq> done_set d) [0..<length ?ns])
      = map id (filter (\<lambda>i. preds d i \<subseteq> done_set d) [0..<length ?ns])"
    by (rule map_cong[OF refl]) (use dag_wfD(3)[OF wf] in auto)
  finally show ?thesis by (simp add: dag_len_def)
qed

text \<open>Nodes are only ever added uncompleted, so a graph under construction has nothing completed.\<close>

lemma add_node_done:
  assumes "add_node p depends_on d = Inr (d', i)"
  shows "done_set d' = done_set d"
proof -
  have "completed (dag_nodes d' ! k) = (k < length (dag_nodes d) \<and> completed (dag_nodes d ! k))"
    if "k < Suc (length (dag_nodes d))" for k
    using assms that by (elim add_node_Inr) (cases "k = length (dag_nodes d)", auto)
  then show ?thesis
    using assms by (elim add_node_Inr) (auto simp: done_set_def less_Suc_eq)
qed

text \<open>
  The counter of a node added after one of its dependencies completed counts that dependency, and
  the completion that would have drained it is spent: the node is never released. The executor adds
  every node before it completes any.
\<close>

lemma late_node_stuck:
  "\<exists>d0 d1 d2 d3. add_node () [] dag_new = Inr (d0, 0) \<and> complete 0 d0 = Some (d1, [])
     \<and> add_node () [0] d1 = Inr (d2, 1) \<and> 1 \<notin> set (initial_ready d2)
     \<and> complete 0 d2 = Some (d3, []) \<and> 1 \<notin> set (initial_ready d3)"
  by (auto simp: add_node_def dag_new_def complete_def initial_ready_def Let_def)

section \<open>What a dispatcher achieves\<close>

text \<open>The graph provides the release rule, with the insertion order as its rank.\<close>

interpretation dag_sched: ordered_release dag_wf "\<lambda>d. {..<dag_len d}"
  "\<lambda>d i. if i < dag_len d then preds d i else {}" done_set complete initial_ready "\<lambda>i. i"
proof (unfold_locales, goal_cases)
  case (1 d i)
  then show ?case using preds_less(1)[of d i i] by (auto simp: dag_len_def)
next
  case (2 d i)
  then show ?case using preds_less(2)[of d i] by (auto simp: dag_len_def)
next
  case (3 d)
  then show ?case by (simp add: initial_ready_eq)
next
  case (4 d)
  then show ?case by (auto simp: initial_ready_eq)
next
  case (5 d i)
  obtain d' where d': "complete i d = Some (d', released_by (dag_deps d) (done_set d) i)"
    "dag_wf d'" "dag_len d' = dag_len d" "dag_deps d' = dag_deps d"
    "done_set d' = insert i (done_set d)"
    using complete_refines[OF 5(1), of i] 5(2,3) by auto
  have "length (dag_deps d) = dag_len d"
    using 5(1) by (simp add: dag_wf_def dag_shape_def Let_def dag_len_def)
  then have "set (released_by (dag_deps d) (done_set d) i)
      = {j. j < dag_len d \<and> i \<in> preds d j \<and> preds d j \<subseteq> insert i (done_set d)}"
    by (auto simp: released_by_def preds_def)
  moreover have "distinct (released_by (dag_deps d) (done_set d) i)"
    by (simp add: released_by_def)
  moreover have "preds d' = preds d"
    using d'(4) by (simp add: preds_def fun_eq_iff)
  ultimately show ?case
    using d' by (intro exI[of _ d'] exI[of _ "released_by (dag_deps d) (done_set d) i"]) (auto simp: fun_eq_iff)
next
  case (6 d i p)
  then show ?case using preds_less(1)[of d i p] by (simp add: dag_len_def)
qed

section \<open>Concurrent completion\<close>

text \<open>
  The same body, one atomic operation at a time. A call in flight is a worker holding the
  dependents it has not decremented yet and the ids it will return; \<open>call_first\<close> is the \<open>swap\<close> that
  found false, \<open>call_again\<close> the one that found true, \<open>fetch_sub\<close> one round of the loop and
  \<open>call_return\<close> the end of the call. Any worker may move next, and calls may start at any time.
\<close>

record 'a csys =
  c_dag :: "'a dag"
  c_workers :: "(nat list \<times> nat list) list"
  c_returned :: "nat list"

definition mark :: "nat \<Rightarrow> 'a dag \<Rightarrow> 'a dag" where
  "mark i d = d\<lparr>dag_nodes := (dag_nodes d)[i := (dag_nodes d ! i)\<lparr>completed := True\<rparr>]\<rparr>"

definition decr :: "nat \<Rightarrow> 'a dag \<Rightarrow> 'a dag" where
  "decr j d = d\<lparr>dag_nodes := (dag_nodes d)[j := (dag_nodes d ! j)
     \<lparr>remaining_deps := remaining_deps (dag_nodes d ! j) - 1\<rparr>]\<rparr>"

inductive cstep :: "'a csys \<Rightarrow> 'a csys \<Rightarrow> bool" where
  call_first: "i < dag_len d \<Longrightarrow> \<not> completed (dag_nodes d ! i) \<Longrightarrow>
    cstep \<lparr>c_dag = d, c_workers = ws, c_returned = r\<rparr>
          \<lparr>c_dag = mark i d, c_workers = ws @ [(dependents (dag_nodes d ! i), [])], c_returned = r\<rparr>"
| call_again: "i < dag_len d \<Longrightarrow> completed (dag_nodes d ! i) \<Longrightarrow>
    cstep \<lparr>c_dag = d, c_workers = ws, c_returned = r\<rparr>
          \<lparr>c_dag = mark i d, c_workers = ws, c_returned = r\<rparr>"
| fetch_sub: "
    cstep \<lparr>c_dag = d, c_workers = ws @ (j # js, got) # ws', c_returned = r\<rparr>
          \<lparr>c_dag = decr j d,
           c_workers = ws @ (js, if remaining_deps (dag_nodes d ! j) = 1 then got @ [j] else got) # ws',
           c_returned = r\<rparr>"
| call_return: "
    cstep \<lparr>c_dag = d, c_workers = ws @ ([], got) # ws', c_returned = r\<rparr>
          \<lparr>c_dag = d, c_workers = ws @ ws', c_returned = r @ got\<rparr>"

inductive_cases cstepE: "cstep c c'"

definition c_start :: "'a dag \<Rightarrow> 'a csys" where
  "c_start d = \<lparr>c_dag = d, c_workers = [], c_returned = []\<rparr>"

text \<open>Decrements still owed to \<open>j\<close>, and how often \<open>j\<close> is held or has been handed out.\<close>

definition owed :: "(nat list \<times> nat list) list \<Rightarrow> nat \<Rightarrow> nat" where
  "owed ws j = sum_list (map (\<lambda>w. count_list (fst w) j) ws)"

definition held :: "(nat list \<times> nat list) list \<Rightarrow> nat \<Rightarrow> nat" where
  "held ws j = sum_list (map (\<lambda>w. count_list (snd w) j) ws)"

lemma owed_simps [simp]:
  "owed [] j = 0" "owed (w # ws) j = count_list (fst w) j + owed ws j"
  "owed (ws @ ws') j = owed ws j + owed ws' j"
  by (simp_all add: owed_def)

lemma held_simps [simp]:
  "held [] j = 0" "held (w # ws) j = count_list (snd w) j + held ws j"
  "held (ws @ ws') j = held ws j + held ws' j"
  by (simp_all add: held_def)

definition cinv :: "nat list list \<Rightarrow> 'a csys \<Rightarrow> bool" where
  "cinv ds c \<longleftrightarrow>
     (let d = c_dag c; ns = dag_nodes d in
      dag_shape d \<and> dag_deps d = ds
      \<and> (\<forall>w \<in> set (c_workers c). \<forall>j \<in> set (fst w). j < length ns \<and> ds ! j \<noteq> [])
      \<and> (\<forall>j < length ns. unat (remaining_deps (ns ! j)) = length (open_deps ns (ds ! j)) + owed (c_workers c) j)
      \<and> (\<forall>j. count_list (c_returned c) j + held (c_workers c) j
              = (if j < length ns \<and> remaining_deps (ns ! j) = 0 \<and> ds ! j \<noteq> [] then 1 else 0)))"

lemma nth_upd: "k < length xs \<Longrightarrow> xs[i := x] ! k = (if i = k then x else xs ! k)"
  by (cases "i = k") auto

lemma mark_shape: "dag_shape d \<Longrightarrow> dag_shape (mark i d)"
  and decr_shape: "dag_shape d \<Longrightarrow> dag_shape (decr i d)"
  and mark_deps [simp]: "dag_deps (mark i d) = dag_deps d"
  and decr_deps [simp]: "dag_deps (decr i d) = dag_deps d"
  and mark_len [simp]: "length (dag_nodes (mark i d)) = length (dag_nodes d)"
  and decr_len [simp]: "length (dag_nodes (decr i d)) = length (dag_nodes d)"
  by (auto simp: dag_shape_def mark_def decr_def Let_def nth_upd)

lemma count_distinct: "distinct xs \<Longrightarrow> count_list xs j = (if j \<in> set xs then 1 else 0)"
  by (induction xs) auto

lemma cinv_start:
  assumes "dag_wf d" and "done_set d = {}"
  shows "cinv (dag_deps d) (c_start d)"
proof -
  have "open_deps (dag_nodes d) (dag_deps d ! j) = dag_deps d ! j" if "j < length (dag_nodes d)" for j
    using preds_less(2)[OF assms(1) that] assms(2)
    by (auto simp: open_deps_def done_set_def preds_def intro!: filter_True)
  then have "unat (remaining_deps (dag_nodes d ! j)) = length (dag_deps d ! j)" if "j < length (dag_nodes d)" for j
    using dag_wfD(8)[OF assms(1) that] that by simp
  then have "remaining_deps (dag_nodes d ! j) \<noteq> 0 \<or> dag_deps d ! j = []" if "j < length (dag_nodes d)" for j
    using that by (metis length_0_conv unat_0)
  then show ?thesis
    using assms(1) by (auto simp: cinv_def c_start_def Let_def dag_wf_def)
qed

lemma cinv_call_first:
  assumes I: "cinv ds \<lparr>c_dag = d, c_workers = ws, c_returned = r\<rparr>"
    and i: "i < dag_len d" and nc: "\<not> completed (dag_nodes d ! i)"
  shows "cinv ds \<lparr>c_dag = mark i d, c_workers = ws @ [(dependents (dag_nodes d ! i), [])], c_returned = r\<rparr>"
proof -
  let ?ns = "dag_nodes d"
  let ?n = "length ?ns"
  have S: "dag_shape d" "dag_deps d = ds" and i': "i < ?n"
    using I i by (auto simp: cinv_def Let_def dag_len_def)
  have dep: "dependents (?ns ! i) = filter (\<lambda>j. i \<in> set (ds ! j)) [0..<?n]"
    and ds: "distinct (ds ! j)" "\<forall>p \<in> set (ds ! j). p < ?n" if "j < ?n" for j
    using S i' that by (force simp: dag_shape_def Let_def)+
  have o: "length (open_deps (dag_nodes (mark i d)) (ds ! j)) + count_list (dependents (?ns ! i)) j
             = length (open_deps ?ns (ds ! j))" if j: "j < ?n" for j
  proof -
    have "open_deps (dag_nodes (mark i d)) (ds ! j) = remove1 i (open_deps ?ns (ds ! j))"
      by (rule open_deps_step[OF ds(1)[OF j] i' nc ds(2)[OF j]]) (auto simp: mark_def nth_upd)
    moreover have "i \<in> set (open_deps ?ns (ds ! j)) \<longleftrightarrow> i \<in> set (ds ! j)"
      using nc by (simp add: open_deps_def)
    moreover have "count_list (dependents (?ns ! i)) j = (if i \<in> set (ds ! j) then 1 else 0)"
      using dep[OF j] j by (simp add: count_distinct)
    ultimately show ?thesis
      by (auto simp: length_remove1) (metis One_nat_def Suc_pred length_pos_if_in_set)
  qed
  have rem: "remaining_deps (dag_nodes (mark i d) ! j) = remaining_deps (?ns ! j)" if "j < ?n" for j
    using that by (auto simp: mark_def nth_upd)
  have "\<forall>j \<in> set (dependents (?ns ! i)). j < ?n \<and> ds ! j \<noteq> []"
    using dep[OF i'] by auto
  moreover have "(j < ?n \<and> remaining_deps (dag_nodes (mark i d) ! j) = 0 \<and> ds ! j \<noteq> [])
                   = (j < ?n \<and> remaining_deps (?ns ! j) = 0 \<and> ds ! j \<noteq> [])" for j
    using rem by auto
  ultimately show ?thesis
    using I mark_shape[OF S(1), of i] o rem by (simp add: cinv_def Let_def)
qed

lemma cinv_call_again:
  assumes I: "cinv ds \<lparr>c_dag = d, c_workers = ws, c_returned = r\<rparr>" and c: "completed (dag_nodes d ! i)"
  shows "cinv ds \<lparr>c_dag = mark i d, c_workers = ws, c_returned = r\<rparr>"
proof -
  have "(dag_nodes d ! i)\<lparr>completed := True\<rparr> = dag_nodes d ! i"
    using c by (cases "dag_nodes d ! i") simp
  then have "mark i d = d"
    by (simp add: mark_def)
  then show ?thesis using I by simp
qed

lemma cinv_fetch_sub:
  assumes I: "cinv ds \<lparr>c_dag = d, c_workers = ws @ (j # js, got) # ws', c_returned = r\<rparr>"
  shows "cinv ds \<lparr>c_dag = decr j d,
           c_workers = ws @ (js, if remaining_deps (dag_nodes d ! j) = 1 then got @ [j] else got) # ws',
           c_returned = r\<rparr>"
proof -
  let ?ns = "dag_nodes d"
  let ?n = "length ?ns"
  have S: "dag_shape d" "dag_deps d = ds" "j < ?n"
    and U: "\<And>k. k < ?n \<Longrightarrow> unat (remaining_deps (?ns ! k))
        = length (open_deps ?ns (ds ! k)) + (owed ws k + (count_list (j # js) k + owed ws' k))"
    and R: "\<And>k. count_list r k + (held ws k + (count_list got k + held ws' k))
        = (if k < ?n \<and> remaining_deps (?ns ! k) = 0 \<and> ds ! k \<noteq> [] then 1 else 0)"
    using I by (auto simp: cinv_def Let_def)
  have nz: "remaining_deps (?ns ! j) \<noteq> 0"
    using U[OF S(3)] by (auto simp del: unat_eq_zero)
  have ne: "ds ! j \<noteq> []"
    using I by (auto simp: cinv_def Let_def)
  have dec: "unat (remaining_deps (?ns ! j) - 1) = unat (remaining_deps (?ns ! j)) - 1"
    by (rule unat_minus_one[OF nz])
  have one: "remaining_deps (?ns ! j) - 1 = 0 \<longleftrightarrow> remaining_deps (?ns ! j) = 1"
    by simp
  have nth: "dag_nodes (decr j d) ! k = (?ns ! k)\<lparr>remaining_deps :=
      (if k = j then remaining_deps (?ns ! j) - 1 else remaining_deps (?ns ! k))\<rparr>" if "k < ?n" for k
    using that by (auto simp: decr_def nth_upd)
  have op: "open_deps (dag_nodes (decr j d)) (ds ! k) = open_deps ?ns (ds ! k)" if "k < ?n" for k
  proof -
    have "\<forall>p \<in> set (ds ! k). p < ?n"
      using S that by (force simp: dag_shape_def Let_def)
    then show ?thesis
      by (intro open_deps_cong) (auto simp: nth)
  qed
  have u': "unat (remaining_deps (dag_nodes (decr j d) ! k))
      = length (open_deps (dag_nodes (decr j d)) (ds ! k)) + (owed ws k + (count_list js k + owed ws' k))"
    if k: "k < ?n" for k
    using U[OF k] dec nth[OF k] op[OF k] by (cases "k = j") auto
  have r': "count_list r k + (held ws k + (count_list got' k + held ws' k))
      = (if k < ?n \<and> remaining_deps (dag_nodes (decr j d) ! k) = 0 \<and> ds ! k \<noteq> [] then 1 else 0)"
    if "got' = (if remaining_deps (?ns ! j) = 1 then got @ [j] else got)" for k got'
    using R[of k] nth[of k] S(3) ne nz that by (cases "k = j") (auto split: if_splits)
  show ?thesis
    using I decr_shape[OF S(1), of j] u' r'[OF refl] by (simp add: cinv_def Let_def)
qed

lemma cinv_call_return:
  assumes "cinv ds \<lparr>c_dag = d, c_workers = ws @ ([], got) # ws', c_returned = r\<rparr>"
  shows "cinv ds \<lparr>c_dag = d, c_workers = ws @ ws', c_returned = r @ got\<rparr>"
proof -
  have "count_list r k + (held ws k + (count_list got k + held ws' k))
      = count_list (r @ got) k + held (ws @ ws') k" for k
    by simp
  then have e: "count_list (r @ got) k + held (ws @ ws') k
      = count_list r k + held (ws @ ([], got) # ws') k" for k
    by simp
  show ?thesis
    using assms unfolding cinv_def Let_def by (simp only: e csys.simps) auto
qed

lemma cstep_cinv: "cstep c c' \<Longrightarrow> cinv ds c \<Longrightarrow> cinv ds c'"
  by (induction rule: cstep.induct)
    (blast intro: cinv_call_first cinv_call_again cinv_fetch_sub cinv_call_return)+

lemma csteps_cinv:
  assumes "cstep\<^sup>*\<^sup>* (c_start d) c" and "dag_wf d" and "done_set d = {}"
  shows "cinv (dag_deps d) c"
  using assms(1)
  by (induction rule: rtranclp_induct) (use cinv_start[OF assms(2,3)] cstep_cinv in blast)+

text \<open>
  However the calls interleave: a returned id has every dependency completed and was returned once,
  a counter never wraps, and when no call is in flight nothing released is missing.
\<close>

lemma distinct_by_count: "(\<And>x. count_list xs x \<le> 1) \<Longrightarrow> distinct xs"
proof (induction xs)
  case Nil
  then show ?case by simp
next
  case (Cons a xs)
  have "count_list xs x \<le> 1" for x
    using Cons.prems[of x] by (simp split: if_splits)
  moreover have "count_list xs a = 0"
    using Cons.prems[of a] by simp
  ultimately show ?case
    using Cons.IH by (simp add: count_list_0_iff)
qed

lemma concurrent_complete:
  assumes "cstep\<^sup>*\<^sup>* (c_start d) c" and "dag_wf d" and "done_set d = {}"
  shows "distinct (c_returned c)"
    and "j \<in> set (c_returned c) \<Longrightarrow> j < dag_len d \<and> preds d j \<subseteq> done_set (c_dag c)"
    and "c_workers c = [] \<Longrightarrow> set (c_returned c)
           = {j. j < dag_len d \<and> preds d j \<noteq> {} \<and> preds d j \<subseteq> done_set (c_dag c)}"
    and "c_workers c = [] \<Longrightarrow> dag_wf (c_dag c)"
proof -
  let ?e = "c_dag c"
  let ?ns = "dag_nodes ?e"
  let ?ds = "dag_deps d"
  have "cinv ?ds c" by (rule csteps_cinv[OF assms])
  then have S: "dag_shape ?e" "dag_deps ?e = ?ds"
    and U: "\<And>k. k < length ?ns \<Longrightarrow> unat (remaining_deps (?ns ! k))
        = length (open_deps ?ns (?ds ! k)) + owed (c_workers c) k"
    and R: "\<And>k. count_list (c_returned c) k + held (c_workers c) k
        = (if k < length ?ns \<and> remaining_deps (?ns ! k) = 0 \<and> ?ds ! k \<noteq> [] then 1 else 0)"
    by (simp_all add: cinv_def Let_def)
  have len: "length ?ns = dag_len d"
    using S assms(2) by (simp add: dag_shape_def dag_wf_def Let_def dag_len_def)
  have op: "open_deps ?ns (?ds ! k) = [] \<longleftrightarrow> preds d k \<subseteq> done_set ?e" if k: "k < dag_len d" for k
  proof -
    have "\<forall>p \<in> set (?ds ! k). p < length ?ns"
      using preds_less(2)[OF assms(2), of k] k len by (auto simp: preds_def dag_len_def)
    then show ?thesis
      by (auto simp: open_deps_def preds_def done_set_def filter_empty_conv)
  qed
  have zero: "remaining_deps (?ns ! k) = 0 \<longleftrightarrow> open_deps ?ns (?ds ! k) = [] \<and> owed (c_workers c) k = 0"
    if "k < dag_len d" for k
    using U[of k] that len by (metis add_is_0 length_0_conv unat_0 unat_eq_zero)
  have mem: "k \<in> set (c_returned c) \<longleftrightarrow> count_list (c_returned c) k \<noteq> 0" for k
    by (simp add: count_list_0_iff)
  show "distinct (c_returned c)"
    by (rule distinct_by_count) (use R in \<open>metis le_add1 le_numeral_extra(3,4) le_zero_eq zero_le_one\<close>)
  show "j \<in> set (c_returned c) \<Longrightarrow> j < dag_len d \<and> preds d j \<subseteq> done_set ?e"
    using mem[of j] R[of j] zero[of j] op[of j] len by (auto split: if_splits)
  assume q: "c_workers c = []"
  have "k \<in> set (c_returned c) \<longleftrightarrow> k < dag_len d \<and> preds d k \<noteq> {} \<and> preds d k \<subseteq> done_set ?e" for k
    using mem[of k] R[of k] zero[of k] op[of k] len q by (auto simp: preds_def)
  then show "set (c_returned c) = {j. j < dag_len d \<and> preds d j \<noteq> {} \<and> preds d j \<subseteq> done_set ?e}"
    by blast
  show "dag_wf ?e"
    using S U q by (simp add: dag_wf_def)
qed

section \<open>Building a graph node by node\<close>

text \<open>A caller's loop over (payload, dependencies) pairs; the first error ends it.\<close>

definition add_all :: "('a \<times> nat list) list \<Rightarrow> 'a dag \<Rightarrow> dag_error + 'a dag" where
  "add_all = fold_res (\<lambda>(p, ds) d. bind_res (add_node p ds d) (\<lambda>(d', i). Inr d'))"

lemma add_all_simps [simp]:
  "add_all [] d = Inr d"
  "add_all ((p, ds) # ns) d = bind_res (add_node p ds d) (\<lambda>(d', i). add_all ns d')"
  by (auto simp: add_all_def bind_res_split split: sum.splits)

lemma add_all_wf:
  assumes "add_all ns d = Inr d'" and "dag_wf d" and "done_set d = {}"
    and "dag_len d + length ns \<le> 2 ^ 64"
  shows "dag_wf d' \<and> done_set d' = {} \<and> dag_len d' = dag_len d + length ns
     \<and> (\<forall>k < length ns. preds d' (dag_len d + k) = set (snd (ns ! k)))
     \<and> (\<forall>k < dag_len d. preds d' k = preds d k)"
  using assms
proof (induction ns arbitrary: d)
  case Nil
  then show ?case by simp
next
  case (Cons n ns)
  obtain p ds where n: "n = (p, ds)" by (cases n)
  obtain e i where e: "add_node p ds d = Inr (e, i)" "add_all ns e = Inr d'"
    using Cons.prems(1) n by (auto simp: bind_res_Inr_iff)
  have len: "dag_len e = Suc (dag_len d)" and lenw: "length (dag_deps d) = dag_len d"
    using e(1) Cons.prems(2) by (auto elim!: add_node_Inr simp: dag_len_def dag_wf_def dag_shape_def Let_def)
  have new: "preds e (dag_len d) = set ds" and old: "\<And>k. k < dag_len d \<Longrightarrow> preds e k = preds d k"
    using e(1) lenw by (auto elim!: add_node_Inr simp: preds_def nth_append dag_len_def)
  have "dag_wf e"
    using Cons.prems by (intro add_node_wf[OF _ e(1)]) (simp_all add: dag_len_def)
  then have ih: "dag_wf d' \<and> done_set d' = {} \<and> dag_len d' = dag_len e + length ns
     \<and> (\<forall>k < length ns. preds d' (dag_len e + k) = set (snd (ns ! k)))
     \<and> (\<forall>k < dag_len e. preds d' k = preds e k)"
    using Cons.prems add_node_done[OF e(1)] len by (intro Cons.IH[OF e(2)]) simp_all
  show ?case
    using ih new old len n by (auto simp: nth_Cons split: nat.splits)
qed

text \<open>The graphs the examples below use: a diamond, and a chain of two.\<close>

definition diamond :: "unit dag" where
  "diamond = (case add_all [((), []), ((), [0]), ((), [0]), ((), [2, 1, 1])] dag_new of Inr d \<Rightarrow> d | Inl e \<Rightarrow> dag_new)"

lemma diamond_eq: "diamond = \<lparr>dag_nodes =
   [\<lparr>node_id = 0, node_payload = (), dependents = [1, 2], remaining_deps = 0, completed = False\<rparr>,
    \<lparr>node_id = 1, node_payload = (), dependents = [3], remaining_deps = 1, completed = False\<rparr>,
    \<lparr>node_id = 2, node_payload = (), dependents = [3], remaining_deps = 1, completed = False\<rparr>,
    \<lparr>node_id = 3, node_payload = (), dependents = [], remaining_deps = 2, completed = False\<rparr>],
   dag_deps = [[], [0], [0], [1, 2]]\<rparr>"
  by code_simp

lemma diamond_wf: "dag_wf diamond" "done_set diamond = {}" "dag_len diamond = 4"
proof -
  let ?ns = "[((), []), ((), [0]), ((), [0]), ((), [2, 1, 1])]"
  have a: "add_all ?ns dag_new = Inr diamond"
    by code_simp
  have n: "done_set (dag_new :: unit dag) = {}" "dag_len (dag_new :: unit dag) = 0"
    by (simp_all add: done_set_def dag_new_def dag_len_def)
  have "length ?ns = 4" by simp
  then have "dag_len (dag_new :: unit dag) + length ?ns \<le> 2 ^ 64" using n by simp
  from add_all_wf[OF a dag_new_wf n(1) this]
  show "dag_wf diamond" "done_set diamond = {}" "dag_len diamond = 4"
    using n by simp_all
qed

section \<open>Properties\<close>

lemma find_SomeE:
  assumes "find P xs = Some x"
  obtains as bs where "xs = as @ x # bs" and "\<forall>a \<in> set as. \<not> P a" and "P x"
  using assms
proof (induction xs arbitrary: thesis)
  case Nil
  then show ?case by simp
next
  case (Cons y ys)
  show ?case
  proof (cases "P y")
    case True
    then show ?thesis using Cons.prems(1)[of "[]" ys] Cons.prems(2) by simp
  next
    case False
    then have "find P ys = Some x" using Cons.prems(2) by simp
    then obtain as bs where "ys = as @ x # bs" "\<forall>a \<in> set as. \<not> P a" "P x"
      using Cons.IH by blast
    then show ?thesis using Cons.prems(1)[of "y # as" bs] False by simp
  qed
qed

text \<open>
  \<open>add_node\<close> either reports the first dependency id that does not exist yet, or succeeds with
  the next index, in which case the new node depends on exactly the named ids (deduplicated and in
  ascending order), every existing node keeps its payload, its dependencies and its counter, and a
  well-formed graph with no named id completed stays well formed.
\<close>

theorem dag_add_node_correct:
  assumes "dag_wf d" and "dag_len d < 2 ^ 64"
  shows "case find (\<lambda>q. dag_len d \<le> q) depends_on of
      Some q \<Rightarrow> add_node p depends_on d = Inl (DependencyOutOfRange q (dag_len d))
    | None \<Rightarrow> \<exists>d'. add_node p depends_on d = Inr (d', dag_len d)
        \<and> dag_deps d' = dag_deps d @ [sorted_list_of_set (set depends_on)]
        \<and> map node_payload (dag_nodes d') = map node_payload (dag_nodes d) @ [p]
        \<and> map remaining_deps (dag_nodes d')
            = map remaining_deps (dag_nodes d) @ [word_of_nat (card (set depends_on))]
        \<and> (set depends_on \<inter> done_set d = {} \<longrightarrow> dag_wf d' \<and> done_set d' = done_set d)"
proof (cases "find (\<lambda>q. dag_len d \<le> q) depends_on")
  case (Some q)
  then obtain as bs where "depends_on = as @ q # bs" "\<forall>a \<in> set as. \<not> dag_len d \<le> a" "dag_len d \<le> q"
    by (rule find_SomeE)
  moreover from this(2) have "\<forall>a \<in> set as. a < dag_len d"
    by (simp add: not_le)
  ultimately have "add_node p depends_on d = Inl (DependencyOutOfRange q (dag_len d))"
    unfolding add_node_error_iff by blast
  then show ?thesis
    using Some by simp
next
  case None
  then have "\<forall>q \<in> set depends_on. q < dag_len d"
    by (auto simp: find_None_iff)
  from add_node_ok[OF this, of p] obtain d' where add: "add_node p depends_on d = Inr (d', dag_len d)"
    by (rule exE)
  obtain dedup where dd: "sorted dedup" "distinct dedup" "set dedup = set depends_on"
    and deps': "dag_deps d' = dag_deps d @ [dedup]"
    and len': "length (dag_nodes d') = Suc (length (dag_nodes d))"
    and new: "dag_nodes d' ! dag_len d = \<lparr>node_id = dag_len d, node_payload = p, dependents = [],
           remaining_deps = word_of_nat (length dedup), completed = False\<rparr>"
    and old: "\<And>k. k < length (dag_nodes d) \<Longrightarrow> dag_nodes d' ! k =
           (if k \<in> set dedup then (dag_nodes d ! k)\<lparr>dependents := dependents (dag_nodes d ! k) @ [dag_len d]\<rparr>
            else dag_nodes d ! k)"
    using add by (rule add_node_Inr) (rule that)
  have dedup: "dedup = sorted_list_of_set (set depends_on)"
    using dd sorted_list_of_set.idem_if_sorted_distinct by metis
  have "map node_payload (dag_nodes d') = map node_payload (dag_nodes d) @ [p]"
    and "map remaining_deps (dag_nodes d')
            = map remaining_deps (dag_nodes d) @ [word_of_nat (length dedup)]"
    using len' new old by (auto simp: list_eq_iff_nth_eq nth_append less_Suc_eq dag_len_def)
  moreover have "length dedup = card (set depends_on)"
    using dd distinct_card by metis
  ultimately show ?thesis
    using None add deps' dedup add_node_wf[OF assms(1) add] assms(2) add_node_done[OF add]
    by (auto simp: dag_len_def)
qed

lemma dag_add_node_correct_witness:
  "dag_wf diamond \<and> dag_len diamond < 2 ^ 64
   \<and> add_node () [1, 7, 9] diamond = Inl (DependencyOutOfRange 7 4)"
  using dag_add_node_correct[of diamond "()" "[1, 7, 9]"] by (simp add: diamond_wf)

text \<open>
  C30: completing a node of a well-formed graph never panics. The first completion returns exactly
  the nodes that wait for it and whose other dependencies have all completed, in ascending order;
  a repeated one returns nothing and changes nothing that matters; the dependencies and payloads
  stay, and the counters keep counting the open dependencies.
\<close>

theorem dag_complete_releases:
  assumes "dag_wf d" and "i < dag_len d"
  shows "\<exists>d'. complete i d
           = Some (d', if i \<in> done_set d then [] else released_by (dag_deps d) (done_set d) i)
         \<and> dag_wf d' \<and> dag_len d' = dag_len d \<and> dag_deps d' = dag_deps d
         \<and> done_set d' = insert i (done_set d)
         \<and> map node_payload (dag_nodes d') = map node_payload (dag_nodes d)"
  by (rule complete_refines[OF assms])

lemma dag_complete_releases_witness:
  "dag_wf diamond \<and> (\<exists>d'. complete 0 diamond = Some (d', [1, 2]) \<and> dag_wf d')"
proof -
  have "released_by (dag_deps diamond) {} 0 = [1, 2]"
    by (simp add: diamond_eq released_by_def upt_rec)
  then show ?thesis
    using dag_complete_releases[of diamond 0] by (auto simp: diamond_wf)
qed

text \<open>
  \<open>initial_ready\<close> lists, in ascending order, exactly the nodes whose dependencies have all
  completed; on a graph just built, the nodes without dependencies.
\<close>

theorem dag_initial_ready_exact:
  assumes "dag_wf d"
  shows "initial_ready d = filter (\<lambda>i. preds d i \<subseteq> done_set d) [0..<dag_len d]"
  by (rule initial_ready_eq[OF assms])

lemma dag_initial_ready_exact_witness:
  "dag_wf diamond \<and> initial_ready diamond = [0]"
  using dag_initial_ready_exact[of diamond]
  by (simp add: diamond_wf preds_def) (simp add: diamond_eq upt_rec)

text \<open>
  C29: any dispatcher that starts from \<open>initial_ready\<close>, finishes ready nodes in any order and adds
  what each completion returned runs every node at most once and only after all its dependencies;
  it is never stuck while a node is unfinished, and when nothing is ready every node has run.
\<close>

theorem dag_dispatch_topological:
  assumes "dispatched complete d (initial_ready d) s rdy fin" and "dag_wf d" and "done_set d = {}"
  shows "distinct fin \<and> set fin \<subseteq> {..<dag_len d}
    \<and> (\<forall>k < length fin. preds d (fin ! k) \<subseteq> set (take k fin))
    \<and> (rdy = [] \<longrightarrow> set fin = {..<dag_len d})
    \<and> (\<forall>i \<in> set rdy. \<exists>s' new. complete i s = Some (s', new))"
proof -
  have I: "dag_sched.dispatch_inv d s rdy fin"
    by (rule dag_sched.dispatched_inv[OF assms])
  then have b: "distinct fin" and b': "set fin \<subseteq> {..<dag_len d}"
    and o: "\<forall>k < length fin. (if fin ! k < dag_len d then preds d (fin ! k) else {}) \<subseteq> set (take k fin)"
    unfolding dag_sched.dispatch_inv_def by (elim conjE; assumption | simp)+
  have "fin ! k < dag_len d" if "k < length fin" for k
    using b' that by (meson lessThan_iff nth_mem subsetD)
  then have "\<forall>k < length fin. preds d (fin ! k) \<subseteq> set (take k fin)"
    using o by simp
  then show ?thesis
    using b b' dag_sched.dispatch_ready[of d s fin] I dag_sched.dispatch_continues[OF I] by blast
qed

lemma dag_dispatch_topological_witness:
  "\<exists>s. dispatched complete diamond (initial_ready diamond) s [] [0, 2, 1, 3]
     \<and> set [0, 2, 1, 3] = {..<dag_len diamond}"
proof -
  have s0: "dispatched complete diamond [0] diamond [0] []"
    by (rule dispatch_start)
  obtain s1 where s1: "complete 0 diamond = Some (s1, [1, 2])"
    and e1: "s1 = fst (the (complete 0 diamond))"
    by (simp add: diamond_eq complete_def Let_def numeral_2_eq_2)
  have d1: "dispatched complete diamond [0] s1 [1, 2] [0]"
    using dispatch_finish[OF s0 _ s1] by simp
  obtain s2 where s2: "complete 2 s1 = Some (s2, [])" and e2: "s2 = fst (the (complete 2 s1))"
    by (simp add: e1 diamond_eq complete_def Let_def numeral_2_eq_2)
  have d2: "dispatched complete diamond [0] s2 [1] [0, 2]"
    using dispatch_finish[OF d1 _ s2] by simp
  obtain s3 where s3: "complete 1 s2 = Some (s3, [3])" and e3: "s3 = fst (the (complete 1 s2))"
    by (simp add: e2 e1 diamond_eq complete_def Let_def numeral_2_eq_2 numeral_3_eq_3)
  have d3: "dispatched complete diamond [0] s3 [3] [0, 2, 1]"
    using dispatch_finish[OF d2 _ s3] by simp
  obtain s4 where s4: "complete 3 s3 = Some (s4, [])"
    by (simp add: e3 e2 e1 diamond_eq complete_def Let_def numeral_2_eq_2 numeral_3_eq_3)
  have "dispatched complete diamond [0] s4 [] [0, 2, 1, 3]"
    using dispatch_finish[OF d3 _ s4] by simp
  moreover have "initial_ready diamond = [0]"
    by (simp add: diamond_eq initial_ready_def)
  ultimately show ?thesis
    using dag_dispatch_topological[of diamond s4 "[]" "[0, 2, 1, 3]"] diamond_wf by auto
qed

text \<open>
  C7: calls to \<open>complete\<close> from any number of threads, interleaved atom by atom: an id is handed out
  at most once over all calls and only when every dependency of the node has been marked complete;
  no counter wraps; and whenever no call is in flight, every node with dependencies whose
  dependencies are all complete has been handed out and the graph is well formed again.
\<close>

theorem dag_concurrent_exactly_once:
  assumes "cstep\<^sup>*\<^sup>* (c_start d) c" and "dag_wf d" and "done_set d = {}"
  shows "distinct (c_returned c)
    \<and> (\<forall>j \<in> set (c_returned c). j < dag_len d \<and> preds d j \<subseteq> done_set (c_dag c))
    \<and> (c_workers c = [] \<longrightarrow> dag_wf (c_dag c) \<and> set (c_returned c)
           = {j. j < dag_len d \<and> preds d j \<noteq> {} \<and> preds d j \<subseteq> done_set (c_dag c)})"
  using concurrent_complete[OF assms] by blast

lemma dag_concurrent_exactly_once_witness:
  "\<exists>c. cstep\<^sup>*\<^sup>* (c_start diamond) c \<and> c_workers c = [] \<and> set (c_returned c) = {1, 2}"
proof -
  let ?d1 = "mark 0 diamond"
  let ?d2 = "decr 1 ?d1"
  let ?d3 = "decr 2 ?d2"
  have "cstep (c_start diamond) \<lparr>c_dag = ?d1, c_workers = [([1, 2], [])], c_returned = []\<rparr>"
    using call_first[of 0 diamond "[]" "[]"]
    by (simp add: c_start_def dag_len_def diamond_eq)
  moreover have "cstep \<lparr>c_dag = ?d1, c_workers = [([1, 2], [])], c_returned = []\<rparr>
      \<lparr>c_dag = ?d2, c_workers = [([2], [1])], c_returned = []\<rparr>"
    using fetch_sub[of ?d1 "[]" 1 "[2]" "[]" "[]" "[]"]
    by (simp add: diamond_eq mark_def)
  moreover have "cstep \<lparr>c_dag = ?d2, c_workers = [([2], [1])], c_returned = []\<rparr>
      \<lparr>c_dag = ?d3, c_workers = [([], [1, 2])], c_returned = []\<rparr>"
    using fetch_sub[of ?d2 "[]" 2 "[]" "[1]" "[]" "[]"]
    by (simp add: diamond_eq mark_def decr_def)
  moreover have "cstep \<lparr>c_dag = ?d3, c_workers = [([], [1, 2])], c_returned = []\<rparr>
      \<lparr>c_dag = ?d3, c_workers = [], c_returned = [1, 2]\<rparr>"
    using call_return[of ?d3 "[]" "[1, 2]" "[]" "[]"] by simp
  ultimately have run: "cstep\<^sup>*\<^sup>* (c_start diamond) \<lparr>c_dag = ?d3, c_workers = [], c_returned = [1, 2]\<rparr>"
    by (meson converse_rtranclp_into_rtranclp rtranclp.rtrancl_refl)
  then show ?thesis
    using dag_concurrent_exactly_once[OF run diamond_wf(1,2)]
    by (intro exI[of _ "\<lparr>c_dag = ?d3, c_workers = [], c_returned = [1, 2]\<rparr>"]) auto
qed

end
