(* ===== verification/Naming.thy ===== *)
theory Naming
  imports Cook_Prelude
begin

text \<open>
  What a name means: \<open>cook-contracts/src/naming\<close> (import prefixes, internal recipes, the bare-name
  class), \<open>probe_key\<close> (the probe-key grammar, scoped keys, workspace-qualified keys) and
  \<open>module_binding\<close> (what a \<open>use\<close> target binds). The lemmas show that the two halves of a qualified
  name can be recovered from it, where the grammars are closed and disjoint, and which spellings
  identify their parts.
\<close>

section \<open>Qualified and internal names\<close>

definition last_segment :: "str \<Rightarrow> str" where
  "last_segment name = rsplit_last CHR ''.'' name"

definition is_internal_recipe :: "str \<Rightarrow> bool" where
  "is_internal_recipe name \<longleftrightarrow> starts_with ''__'' (last_segment name)"

definition internal_module_tag :: "str \<Rightarrow> str option" where
  "internal_module_tag name =
     (case strip_prefix ''__'' (last_segment name) of
        None \<Rightarrow> None
      | Some rest \<Rightarrow>
          (let module = hd (split_on CHR ''_'' rest) in if module \<noteq> [] then Some module else None))"

definition import_prefix :: "str \<Rightarrow> str" where
  "import_prefix qualified =
     (case before_last CHR ''.'' qualified of Some prefix \<Rightarrow> prefix | None \<Rightarrow> [])"

definition qualified_name :: "str \<Rightarrow> str \<Rightarrow> str" where
  "qualified_name prefix name = (if prefix = [] then name else prefix @ ''.'' @ name)"

definition qualify_recipe_reference ::
  "str \<Rightarrow> str \<Rightarrow> (str \<rightharpoonup> str) \<Rightarrow> str set \<Rightarrow> str" where
  "qualify_recipe_reference req prefix alias_qualified_prefixes local_names =
     (case (case split_once CHR ''.'' req of
              Some (alias, sub) \<Rightarrow>
                (case alias_qualified_prefixes alias of
                   Some importee_prefix \<Rightarrow>
                     Some (if importee_prefix = [] then sub else importee_prefix @ ''.'' @ sub)
                 | None \<Rightarrow> None)
            | None \<Rightarrow> None) of
        Some answer \<Rightarrow> answer
      | None \<Rightarrow> if req \<in> local_names then qualified_name prefix req else req)"

definition is_bare_name_start :: "char \<Rightarrow> bool" where
  "is_bare_name_start c \<longleftrightarrow> is_ascii_alphabetic c \<or> c = CHR ''_''"

definition is_bare_name_char :: "char \<Rightarrow> bool" where
  "is_bare_name_char c \<longleftrightarrow>
     is_ascii_alphanumeric c \<or> c = CHR ''_'' \<or> c = CHR ''-'' \<or> c = CHR ''.''"

definition is_bare_name :: "str \<Rightarrow> bool" where
  "is_bare_name s \<longleftrightarrow>
     (case s of [] \<Rightarrow> False | c # cs \<Rightarrow> is_bare_name_start c \<and> list_all is_bare_name_char cs)"

section \<open>Probe keys\<close>

text \<open>A Cookfile-local key is its spelling; a workspace-qualified one also carries its prefix.\<close>

type_synonym local_key = str

record qualified_probe_key =
  spelling :: str
  qk_import_prefix :: str

definition is_segment :: "str \<Rightarrow> bool" where
  "is_segment s \<longleftrightarrow>
     (case s of
        [] \<Rightarrow> False
      | c # cs \<Rightarrow> is_bare_name_start c
          \<and> list_all (\<lambda>c. is_ascii_alphanumeric c \<or> c = CHR ''_'' \<or> c = CHR ''-'') cs)"

definition is_valid_bare :: "str \<Rightarrow> bool" where
  "is_valid_bare key \<longleftrightarrow> key \<noteq> [] \<and> list_all is_segment (split_on CHR '':'' key)"

definition is_tool_name :: "str \<Rightarrow> bool" where
  "is_tool_name s \<longleftrightarrow> is_bare_name s"

definition bare_key_error :: "str \<Rightarrow> str \<Rightarrow> str" where
  "bare_key_error site key =
     (let hint = if CHR ''.'' \<in> set key then
          '' ('' @ [squote] @ ''.'' @ [squote] @ '' is member access in a probe reference and is not part of a key; use ''
            @ [squote] @ ''-'' @ [squote] @ '' or the quoted form)''
        else []
      in site @ '': malformed probe key '' @ [squote] @ key @ [squote] @ hint
         @ ''. A bare key is one or more '' @ [squote] @ '':'' @ [squote]
         @ ''-separated segments matching [A-Za-z_][A-Za-z0-9_-]*; the quoted form ''
         @ [dquote] @ key @ [dquote] @ '' accepts any spelling.'')"

definition scoped_key :: "str \<Rightarrow> str \<Rightarrow> str" where
  "scoped_key label key = label @ '':'' @ key"

text \<open>The section sign of the diagnostic is the two bytes C2 A7.\<close>

definition scope_label_error :: "str \<Rightarrow> str option" where
  "scope_label_error label =
     (if CHR '':'' \<in> set label then
        Some (''cook.probes.scope: label '' @ [squote] @ label @ [squote] @ '' must not contain ''
              @ [squote] @ '':'' @ [squote] @ '' (the scope separator; Standard ''
              @ [CHR 0xC2, CHR 0xA7] @ ''24.4.3)'')
      else None)"

definition qualified_key :: "str \<Rightarrow> local_key \<Rightarrow> qualified_probe_key" where
  "qualified_key prefix key =
     \<lparr>spelling = qualified_name prefix key, qk_import_prefix = prefix\<rparr>"

definition qualify_for_recipe :: "str \<Rightarrow> local_key \<Rightarrow> qualified_probe_key" where
  "qualify_for_recipe recipe_name key = qualified_key (import_prefix recipe_name) key"

section \<open>What a use declaration binds\<close>

definition load_module_fn :: str where "load_module_fn = ''load_module''"

definition path_target_suffix :: str where "path_target_suffix = ''.lua''"

definition is_path_target :: "str \<Rightarrow> bool" where
  "is_path_target target \<longleftrightarrow> ends_with path_target_suffix target"

definition is_use_name :: "str \<Rightarrow> bool" where
  "is_use_name name \<longleftrightarrow>
     (case name of
        [] \<Rightarrow> False
      | c # cs \<Rightarrow> (is_ascii_alphabetic c \<or> c = CHR ''_'')
          \<and> list_all (\<lambda>c. is_ascii_alphanumeric c \<or> c = CHR ''_'') cs)"

definition alias_of :: "str \<Rightarrow> str" where
  "alias_of module_name = map (\<lambda>c. if c = CHR ''-'' then CHR ''_'' else c) module_name"

definition module_identity :: "str \<Rightarrow> str" where
  "module_identity target =
     (if \<not> is_path_target target then target
      else
        (let base = rsplit_last CHR ''/'' target in
         case strip_suffix path_target_suffix base of Some stem \<Rightarrow> stem | None \<Rightarrow> base))"

definition derived_alias :: "str \<Rightarrow> str" where
  "derived_alias path_target = alias_of (module_identity path_target)"

section \<open>Lemmas\<close>

lemma last_segment_qualified:
  "last_segment (qualified_name p n) = last_segment n"
proof (cases "CHR ''.'' \<in> set n")
  case True
  then obtain a b where n: "n = a @ CHR ''.'' # b" "CHR ''.'' \<notin> set b"
    by (metis split_list_last)
  then have "last_segment n = b" by (simp add: last_segment_def rsplit_last_sep)
  moreover have "last_segment (qualified_name p n) = b"
    using n rsplit_last_sep[of "CHR ''.''" b "p @ CHR ''.'' # a"] rsplit_last_sep[of "CHR ''.''" b a]
    by (simp add: last_segment_def qualified_name_def)
  ultimately show ?thesis by simp
next
  case False
  then show ?thesis
    using rsplit_last_sep[of "CHR ''.''" n p]
    by (simp add: last_segment_def qualified_name_def rsplit_last_no)
qed

lemma last_segment_no_dot: "CHR ''.'' \<notin> set n \<Longrightarrow> last_segment n = n"
  by (simp add: last_segment_def rsplit_last_no)

lemma import_prefix_qualified:
  assumes "CHR ''.'' \<notin> set n"
  shows "import_prefix (qualified_name p n) = p"
proof -
  have "before_last CHR ''.'' (p @ CHR ''.'' # n) = Some p"
    using assms by (auto simp: before_last_Some)
  moreover have "before_last CHR ''.'' n = None"
    using assms by (simp add: before_last_None)
  ultimately show ?thesis
    by (simp add: import_prefix_def qualified_name_def)
qed

lemma qualified_split:
  "qualified_name (import_prefix q) (last_segment q) = q \<longleftrightarrow> \<not> (\<exists>n. q = CHR ''.'' # n \<and> CHR ''.'' \<notin> set n)"
proof (cases "before_last CHR ''.'' q")
  case None
  then have "CHR ''.'' \<notin> set q" by (simp add: before_last_None)
  then show ?thesis
    using None by (auto simp: import_prefix_def qualified_name_def last_segment_no_dot)
next
  case (Some p)
  then obtain b where q: "q = p @ CHR ''.'' # b" "CHR ''.'' \<notin> set b"
    by (auto simp: before_last_Some)
  then have "last_segment q = b" by (simp add: last_segment_def rsplit_last_sep)
  then show ?thesis
    using q Some by (cases p) (auto simp: import_prefix_def qualified_name_def)
qed

text \<open>The grammars.\<close>

lemma segment_chars:
  "is_segment s \<Longrightarrow> c \<in> set s \<Longrightarrow> is_ascii_alphanumeric c \<or> c = CHR ''_'' \<or> c = CHR ''-''"
  by (cases s) (auto simp: is_segment_def is_bare_name_start_def is_ascii_alphanumeric_def list_all_iff)

lemma not_alnum [simp]:
  "\<not> is_ascii_alphanumeric CHR ''.''" "\<not> is_ascii_alphanumeric CHR '':''"
  "\<not> is_ascii_alphanumeric CHR ''-''" "\<not> is_ascii_alphanumeric CHR ''_''"
  "\<not> is_ascii_alphabetic CHR ''.''" "\<not> is_ascii_alphabetic CHR '':''"
  by code_simp+

lemma valid_bare_chars:
  assumes "is_valid_bare k"
  shows "CHR ''.'' \<notin> set k"
proof
  assume d: "CHR ''.'' \<in> set k"
  have "set k \<subseteq> insert CHR '':'' (\<Union>(set ` set (split_on CHR '':'' k)))"
    using set_join_subset[of "CHR '':''" "split_on CHR '':'' k"] by (simp add: join_split_on)
  then obtain w where "w \<in> set (split_on CHR '':'' k)" "CHR ''.'' \<in> set w"
    using d by auto
  then show False
    using assms segment_chars[of w "CHR ''.''"] by (auto simp: is_valid_bare_def list_all_iff)
qed

lemma valid_bare_scoped:
  assumes "CHR '':'' \<notin> set l"
  shows "is_valid_bare (scoped_key l k) \<longleftrightarrow> is_segment l \<and> is_valid_bare k"
proof -
  have "split_on CHR '':'' (scoped_key l k) = l # split_on CHR '':'' k"
    using assms split_on_append_sep[of "CHR '':''" l k] by (simp add: scoped_key_def)
  moreover have "k \<noteq> []" if "list_all is_segment (split_on CHR '':'' k)"
    using that by (cases k) (auto simp: is_segment_def)
  ultimately show ?thesis
    by (auto simp: is_valid_bare_def scoped_key_def)
qed

lemma use_name_chars:
  "is_use_name s \<Longrightarrow> c \<in> set s \<Longrightarrow> is_ascii_alphanumeric c \<or> c = CHR ''_''"
  by (cases s) (auto simp: is_use_name_def is_ascii_alphanumeric_def list_all_iff)

lemma use_name_not_path: "is_use_name s \<Longrightarrow> \<not> is_path_target s"
  using use_name_chars[of s "CHR ''.''"]
  by (auto simp: is_path_target_def ends_with_iff path_target_suffix_def)

lemma alias_of_use_name: "is_use_name s \<Longrightarrow> alias_of s = s"
  using use_name_chars[of s "CHR ''-''"] by (auto simp: alias_of_def intro!: map_idI)

lemma module_identity_path:
  assumes "CHR ''/'' \<notin> set stem"
  shows "module_identity (dir @ ''/'' @ stem @ ''.lua'') = stem"
    and "module_identity (stem @ ''.lua'') = stem"
proof -
  have n: "CHR ''/'' \<notin> set (stem @ ''.lua'')" using assms by simp
  have "rsplit_last CHR ''/'' (dir @ CHR ''/'' # (stem @ ''.lua'')) = stem @ ''.lua''"
    by (rule rsplit_last_sep[OF n])
  moreover have "ends_with ''.lua'' (dir @ CHR ''/'' # (stem @ ''.lua''))"
    unfolding ends_with_iff by (rule exI[of _ "dir @ CHR ''/'' # stem"]) simp
  ultimately show "module_identity (dir @ ''/'' @ stem @ ''.lua'') = stem"
    using strip_suffix_append[of "''.lua''" stem]
    by (simp add: module_identity_def is_path_target_def path_target_suffix_def)
  have "ends_with ''.lua'' (stem @ ''.lua'')" by (auto simp: ends_with_iff)
  then show "module_identity (stem @ ''.lua'') = stem"
    using strip_suffix_append[of "''.lua''" stem] rsplit_last_no[OF n]
    by (simp add: module_identity_def is_path_target_def path_target_suffix_def)
qed

section \<open>Properties\<close>

text \<open>
  a workspace-qualified name keeps its parts. Composing an import prefix onto a name without a
  dot and splitting the result gives both back; an internal recipe stays internal, with the same
  module tag, whatever it is composed into; and every qualified name that is not a lone leading dot
  is the composition of its own two halves.
\<close>

theorem import_prefix_roundtrip:
  "(CHR ''.'' \<notin> set n \<longrightarrow> import_prefix (qualified_name p n) = p \<and> last_segment (qualified_name p n) = n)
   \<and> is_internal_recipe (qualified_name p n) = is_internal_recipe n
   \<and> internal_module_tag (qualified_name p n) = internal_module_tag n
   \<and> (qualified_name (import_prefix q) (last_segment q) = q
        \<longleftrightarrow> \<not> (\<exists>m. q = CHR ''.'' # m \<and> CHR ''.'' \<notin> set m))"
  using import_prefix_qualified qualified_split last_segment_qualified last_segment_no_dot
  by (auto simp: is_internal_recipe_def internal_module_tag_def)

lemma import_prefix_roundtrip_witness:
  "import_prefix (qualified_name ''backend.proto'' ''generate'') = ''backend.proto''
   \<and> internal_module_tag (qualified_name ''game'' ''__cc_config'') = internal_module_tag ''__cc_config''"
  using import_prefix_roundtrip[of "''generate''" "''backend.proto''" "[]"]
    import_prefix_roundtrip[of "''__cc_config''" "''game''" "[]"]
  by simp

text \<open>
  probe-key identities do not collapse. Two workspace-qualified keys are equal only when both
  the declaring Cookfile's prefix and the local key are; the spelling alone settles it for bare
  keys, and is ambiguous for quoted ones. A scope label is refused exactly when it holds a colon;
  an accepted label and its key can be read back from the scoped key, which is a valid bare key
  exactly when the label is a segment and the key is valid.
\<close>

theorem probe_key_identity:
  "(qualified_key p k = qualified_key p' k' \<longleftrightarrow> p = p' \<and> k = k')
   \<and> (is_valid_bare k \<longrightarrow> is_valid_bare k' \<longrightarrow>
        spelling (qualified_key p k) = spelling (qualified_key p' k') \<longrightarrow> p = p' \<and> k = k')
   \<and> spelling (qualified_key ''a'' ''b.c'') = spelling (qualified_key ''a.b'' ''c'')
   \<and> (scope_label_error l = None \<longleftrightarrow> CHR '':'' \<notin> set l)
   \<and> (scope_label_error l = None \<longrightarrow> scope_label_error l' = None \<longrightarrow>
        scoped_key l k = scoped_key l' k' \<longrightarrow> l = l' \<and> k = k')
   \<and> scoped_key ''a:b'' ''c'' = scoped_key ''a'' ''b:c''
   \<and> (scope_label_error l = None \<longrightarrow> (is_valid_bare (scoped_key l k) \<longleftrightarrow> is_segment l \<and> is_valid_bare k))"
proof (intro conjI)
  show "qualified_key p k = qualified_key p' k' \<longleftrightarrow> p = p' \<and> k = k'"
    by (auto simp: qualified_key_def qualified_name_def)
  show "is_valid_bare k \<longrightarrow> is_valid_bare k' \<longrightarrow>
        spelling (qualified_key p k) = spelling (qualified_key p' k') \<longrightarrow> p = p' \<and> k = k'"
  proof (intro impI)
    assume b: "is_valid_bare k" "is_valid_bare k'"
      and e: "spelling (qualified_key p k) = spelling (qualified_key p' k')"
    then have q: "qualified_name p k = qualified_name p' k'"
      by (simp add: qualified_key_def)
    have "p = p'"
      using import_prefix_qualified[OF valid_bare_chars[OF b(1)], of p]
        import_prefix_qualified[OF valid_bare_chars[OF b(2)], of p'] q by simp
    moreover have "k = k'"
      using last_segment_qualified[of p k] last_segment_qualified[of p' k'] q
        last_segment_no_dot[OF valid_bare_chars[OF b(1)]]
        last_segment_no_dot[OF valid_bare_chars[OF b(2)]] by simp
    ultimately show "p = p' \<and> k = k'" by simp
  qed
  show "spelling (qualified_key ''a'' ''b.c'') = spelling (qualified_key ''a.b'' ''c'')"
    by (simp add: qualified_key_def qualified_name_def)
  show "scope_label_error l = None \<longleftrightarrow> CHR '':'' \<notin> set l"
    by (simp add: scope_label_error_def)
  show "scope_label_error l = None \<longrightarrow> scope_label_error l' = None \<longrightarrow>
        scoped_key l k = scoped_key l' k' \<longrightarrow> l = l' \<and> k = k'"
    using sep_unique[of "CHR '':''" l l' k k'] by (simp add: scope_label_error_def scoped_key_def)
  show "scoped_key ''a:b'' ''c'' = scoped_key ''a'' ''b:c''"
    by (simp add: scoped_key_def)
  show "scope_label_error l = None \<longrightarrow> (is_valid_bare (scoped_key l k) \<longleftrightarrow> is_segment l \<and> is_valid_bare k)"
    by (simp add: scope_label_error_def valid_bare_scoped)
qed

lemma probe_key_identity_witness:
  "is_valid_bare ''cc:version'' \<and> spelling (qualified_key ''backend'' ''cc:version'') = ''backend.cc:version''
   \<and> spelling (qualified_key ''backend'' ''cc:version'') \<noteq> spelling (qualified_key [] ''cc:version'')
   \<and> scope_label_error ''find'' = None \<and> is_valid_bare (scoped_key ''find'' ''raylib'')"
proof -
  have "is_valid_bare ''cc:version''" "is_segment ''find''" "is_valid_bare ''raylib''"
    "scope_label_error ''find'' = None"
    by code_simp+
  then show ?thesis
    using probe_key_identity[of "''backend''" "''cc:version''" "[]" "''cc:version''" "''find''"]
      probe_key_identity[of "''backend''" "''raylib''" "[]" "''raylib''" "''find''"]
    by (simp add: qualified_key_def qualified_name_def)
qed

text \<open>
  the two forms of a \<open>use\<close> target are disjoint, and each binds what the Standard says: a name
  that lexes is its own alias and identity, a path is called by the stem of its file name, and the
  derived alias of a path whose stem uses only letters, digits, underscores and hyphens and starts
  with a letter or underscore is a Lua identifier.
\<close>

theorem use_target_binding:
  "(is_use_name s \<longrightarrow> \<not> is_path_target s \<and> module_identity s = s \<and> alias_of s = s)
   \<and> (CHR ''/'' \<notin> set stem \<longrightarrow> module_identity (dir @ ''/'' @ stem @ ''.lua'') = stem)
   \<and> (is_segment stem \<longrightarrow> is_use_name (derived_alias (dir @ ''/'' @ stem @ ''.lua'')))"
proof (intro conjI impI)
  show "\<not> is_path_target s" and "module_identity s = s" and "alias_of s = s" if "is_use_name s"
    using that use_name_not_path alias_of_use_name by (simp_all add: module_identity_def)
  show "module_identity (dir @ ''/'' @ stem @ ''.lua'') = stem" if "CHR ''/'' \<notin> set stem"
    using that by (rule module_identity_path)
  assume seg: "is_segment stem"
  have "\<not> is_ascii_alphanumeric CHR ''/''" by code_simp
  then have "CHR ''/'' \<notin> set stem" using segment_chars[OF seg] by auto
  then have "derived_alias (dir @ ''/'' @ stem @ ''.lua'') = alias_of stem"
    unfolding derived_alias_def using module_identity_path(1) by metis
  moreover have "is_use_name (alias_of stem)"
    using seg by (cases stem)
      (auto simp: is_segment_def is_use_name_def alias_of_def is_bare_name_start_def list_all_iff)
  ultimately show "is_use_name (derived_alias (dir @ ''/'' @ stem @ ''.lua''))" by simp
qed

lemma use_target_binding_witness:
  "is_use_name ''cook_cc'' \<and> \<not> is_path_target ''cook_cc''
   \<and> module_identity (''./build'' @ ''/'' @ ''my-helpers'' @ ''.lua'') = ''my-helpers''
   \<and> is_use_name (derived_alias (''./build'' @ ''/'' @ ''my-helpers'' @ ''.lua''))"
proof -
  have "is_use_name ''cook_cc''" "is_segment ''my-helpers''" by code_simp+
  then show ?thesis
    using use_target_binding[of "''cook_cc''" "''my-helpers''" "''./build''"] by simp
qed

end
