(* ===== verification/Unit_Types.thy ===== *)
theory Unit_Types
  imports Naming
begin

text \<open>
  What registration hands to planning: captured units, probe units and recipes
  (\<open>cook-contracts/src/{step,unit,probe,recipe}/mod.rs\<close> and the declarations of \<open>cache/mod.rs\<close>),
  with the operations these modules define on them, among them \<open>reachable_from\<close>, the closure that
  decides which chore bodies a register pass runs.

  A \<open>PathBuf\<close> is its text. The string-to-string maps of these records are only extended and looked
  up, so they are HOL maps.
\<close>

section \<open>Declarations\<close>

datatype node_kind = Compile | Link | Resolve | Generate | Write | TestKind | Cooked

datatype step_kind = CookStep | TestStep | ChoreStep

datatype input_kind = PathInput | PatternInput

record declared_input =
  di_path :: str
  di_kind :: input_kind

definition path_input :: "str \<Rightarrow> declared_input" where
  "path_input p = \<lparr>di_path = p, di_kind = PathInput\<rparr>"

definition pattern_input :: "str \<Rightarrow> declared_input" where
  "pattern_input p = \<lparr>di_path = p, di_kind = PatternInput\<rparr>"

definition is_pattern :: "declared_input \<Rightarrow> bool" where
  "is_pattern d \<longleftrightarrow> di_kind d = PatternInput"

record discovered_inputs =
  disc_from :: str
  disc_format :: str

datatype sharing = Shared | Local | Pinned

definition is_local :: "sharing \<Rightarrow> bool" where "is_local s \<longleftrightarrow> s = Local"

definition is_pinned :: "sharing \<Rightarrow> bool" where "is_pinned s \<longleftrightarrow> s = Pinned"

fun as_wire_str :: "sharing \<Rightarrow> str option" where
  "as_wire_str Shared = None"
| "as_wire_str Local = Some ''local''"
| "as_wire_str Pinned = Some ''pinned''"

definition from_wire_str :: "str \<Rightarrow> sharing" where
  "from_wire_str s = (if s = ''local'' then Local else if s = ''pinned'' then Pinned else Shared)"

record cache_meta =
  cm_recipe_name :: str
  cm_project_id :: str
  cm_cookfile_path :: str
  cm_cache_key :: str
  cm_inputs :: "declared_input list"
  cm_consumes :: "str list"
  cm_member_keyed :: bool
  cm_output_paths :: "str list"
  cm_command_hash :: u64
  cm_env_contribution :: u64
  cm_consulted_env :: "(str \<times> str) list"
  cm_discovered_inputs :: "discovered_inputs option"
  cm_seal_keys :: "local_key list"
  cm_sharing :: sharing
  cm_record :: bool

datatype work_payload =
    Shell (sh_cmd: str) (sh_line: nat)
  | Interactive (int_cmd: str) (int_line: nat) (int_is_chore: bool)
  | LuaChunk (lc_code: str) (lc_inputs: "str list") (lc_outputs: "str list")
      (lc_gather_groups: "str list list") (lc_step_kind: step_kind) (lc_is_chore: bool) (lc_line: nat)
  | ProbePayload (pp_key: local_key) (pp_produce: str) (pp_line: nat)

fun evaluates_lua :: "work_payload \<Rightarrow> bool" where
  "evaluates_lua (LuaChunk _ _ _ _ _ _ _) = True"
| "evaluates_lua (ProbePayload _ _ _) = True"
| "evaluates_lua _ = False"

fun payload_line :: "work_payload \<Rightarrow> nat" where
  "payload_line (Shell _ l) = l"
| "payload_line (Interactive _ l _) = l"
| "payload_line (LuaChunk _ _ _ _ _ _ l) = l"
| "payload_line (ProbePayload _ _ l) = l"

definition probe_label_prefix :: str where "probe_label_prefix = ''probe:''"

definition probe_label :: "local_key \<Rightarrow> str" where
  "probe_label key = probe_label_prefix @ key"

definition parse_probe_label :: "str \<Rightarrow> str option" where
  "parse_probe_label label = strip_prefix probe_label_prefix label"

datatype dep_kind = StepGroup nat | Sequential

fun wire_name :: "dep_kind \<Rightarrow> str" where
  "wire_name (StepGroup _) = ''step_group''"
| "wire_name Sequential = ''sequential''"

record captured_unit =
  payload :: work_payload
  u_cache_meta :: "cache_meta option"
  u_dep_kind :: dep_kind
  u_probes :: "str list"
  unit_env_vars :: "str \<rightharpoonup> str"
  u_member :: "str option"
  output_paths :: "str list"
  u_after :: "str list"
  test_name :: "str option"

record probe_inputs =
  in_tools :: "str list"
  in_files :: "str list"
  in_requires :: "str list"

record probe_unit =
  p_key :: local_key
  produce_source :: str
  produce_line :: nat
  p_inputs :: probe_inputs
  p_covers :: "str list"

record lowered_produce =
  chunk_name :: str
  lp_source :: str

definition lower_produce :: "str \<Rightarrow> str \<Rightarrow> lowered_produce" where
  "lower_produce key produce =
     \<lparr>chunk_name = ''@probe:'' @ key,
      lp_source = ''return (function()'' @ [newline] @ produce @ [newline] @ ''end)()''\<rparr>"

record recipe_units =
  recipe_name :: str
  r_deps :: "str list"
  r_units :: "captured_unit list"
  step_groups :: "nat list list"
  working_dir :: str
  env_vars :: "str \<rightharpoonup> str"
  terminal_outputs :: "str list"
  dep_edges :: "(nat \<times> str) list"
  r_probes :: "probe_unit list"

text \<open>\<open>find_map\<close> over the units: the first cache meta there is.\<close>

definition recipe_cache_index_name :: "recipe_units \<Rightarrow> str \<Rightarrow> str" where
  "recipe_cache_index_name ru fallback =
     (case List.find (\<lambda>u. u_cache_meta u \<noteq> None) (r_units ru) of
        Some u \<Rightarrow> cm_recipe_name (the (u_cache_meta u))
      | None \<Rightarrow> fallback)"

text \<open>The payload's probe key, as the \<open>WorkPayload::Probe \{ key, .. \}\<close> patterns of planning read it.\<close>

fun probe_key_of :: "work_payload \<Rightarrow> local_key option" where
  "probe_key_of (ProbePayload k _ _) = Some k"
| "probe_key_of _ = None"

definition is_probe_unit :: "captured_unit \<Rightarrow> bool" where
  "is_probe_unit u \<longleftrightarrow> probe_key_of (payload u) \<noteq> None"

section \<open>The registered closure\<close>

text \<open>
  The map of dependencies is the list of its entries. The stack's top is the head of the list, so
  pushing the children one after another leaves the last one on top.
\<close>

type_synonym dep_map = "(str \<times> str list) list"

function reach_loop :: "dep_map \<Rightarrow> str list \<Rightarrow> str set \<Rightarrow> str set" where
  "reach_loop deps [] reachable = reachable"
| "reach_loop deps (node # stack) reachable =
     (if node \<in> reachable then reach_loop deps stack reachable
      else
        (let reachable' = insert node reachable;
             children = (case map_of deps node of Some cs \<Rightarrow> cs | None \<Rightarrow> []);
             pushed = filter (\<lambda>c. map_of deps c \<noteq> None \<and> c \<notin> reachable') children
         in reach_loop deps (rev pushed @ stack) reachable'))"
  by pat_completeness auto

termination
proof (relation "measures [\<lambda>(deps, stack, r). card (fst ` set deps - r), \<lambda>(deps, stack, r). length stack]",
    goal_cases)
  case 1
  show ?case by simp
next
  case (2 deps node stack reachable)
  then show ?case by simp
next
  case (3 deps node stack reachable r' children pushed)
  show ?case
  proof (cases "map_of deps node")
    case None
    then have "node \<notin> fst ` set deps" by (simp add: map_of_eq_None_iff)
    then have "fst ` set deps - r' = fst ` set deps - reachable" using 3 by auto
    moreover have "pushed = []" using 3 None by simp
    ultimately show ?thesis by simp
  next
    case (Some cs)
    then have "node \<in> fst ` set deps" by (metis map_of_eq_None_iff option.distinct(1))
    then have "card (fst ` set deps - r') < card (fst ` set deps - reachable)"
      using 3 by (intro psubset_card_mono) auto
    then show ?thesis by simp
  qed
qed

definition reachable_from :: "dep_map \<Rightarrow> str list \<Rightarrow> str set" where
  "reachable_from deps seeds =
     reach_loop deps (rev (filter (\<lambda>s. map_of deps s \<noteq> None) seeds)) {}"

text \<open>The edges the closure follows: between registered names only.\<close>

definition requires_edge :: "dep_map \<Rightarrow> (str \<times> str) set" where
  "requires_edge deps =
     {(a, b). \<exists>cs. map_of deps a = Some cs \<and> b \<in> set cs \<and> map_of deps b \<noteq> None}"

lemma reach_loop_closed:
  assumes "(requires_edge deps) `` R \<subseteq> R \<union> set stack"
  shows "reach_loop deps stack R = R \<union> (requires_edge deps)\<^sup>* `` set stack"
  using assms
proof (induction deps stack R rule: reach_loop.induct)
  case (1 deps R)
  then show ?case by simp
next
  case (2 deps node stack R)
  let ?E = "requires_edge deps"
  show ?case
  proof (cases "node \<in> R")
    case True
    then have ih: "reach_loop deps stack R = R \<union> ?E\<^sup>* `` set stack"
      using 2 by (intro "2.IH"(1)) auto
    have "?E\<^sup>* `` R \<subseteq> R \<union> ?E\<^sup>* `` set stack"
    proof clarify
      fix a b assume "(a, b) \<in> ?E\<^sup>*" "a \<in> R" "b \<notin> ?E\<^sup>* `` set stack"
      then show "b \<in> R"
      proof (induction rule: rtrancl_induct)
        case base
        then show ?case by simp
      next
        case (step y z)
        then have "y \<in> R" by (meson Image_iff rtrancl.rtrancl_into_rtrancl)
        then have "z \<in> R \<union> set stack"
          using step(2) 2(3) True by auto
        then show ?case using step(5) by auto
      qed
    qed
    then show ?thesis using ih True by auto
  next
    case False
    define cs where "cs = (case map_of deps node of Some cs \<Rightarrow> cs | None \<Rightarrow> [])"
    define ps where "ps = filter (\<lambda>c. map_of deps c \<noteq> None \<and> c \<notin> insert node R) cs"
    have edges: "?E `` {node} = {c \<in> set cs. map_of deps c \<noteq> None}"
      by (cases "map_of deps node") (auto simp: requires_edge_def cs_def)
    have "?E `` insert node R \<subseteq> insert node R \<union> set (rev ps @ stack)"
      using 2(3) edges by (auto simp: ps_def)
    then have ih: "reach_loop deps (rev ps @ stack) (insert node R)
        = insert node R \<union> ?E\<^sup>* `` set (rev ps @ stack)"
      using False by (intro "2.IH"(2)) (simp_all add: ps_def cs_def)
    have "set ps \<subseteq> ?E `` {node}" using edges by (auto simp: ps_def)
    then have "?E\<^sup>* `` set ps \<subseteq> ?E\<^sup>* `` {node}"
      by (auto intro: converse_rtrancl_into_rtrancl)
    moreover have "?E\<^sup>* `` {node} \<subseteq> insert node R \<union> ?E\<^sup>* `` set (rev ps @ stack)"
    proof clarify
      fix b assume b: "(node, b) \<in> ?E\<^sup>*" "b \<notin> ?E\<^sup>* `` set (rev ps @ stack)" "b \<notin> R"
      from b(1,2) have "b \<in> insert node R"
      proof (induction rule: rtrancl_induct)
        case base
        then show ?case by simp
      next
        case (step y z)
        then have "y \<in> insert node R" by (meson Image_iff rtrancl.rtrancl_into_rtrancl)
        then have "z \<in> insert node R \<union> set (rev ps @ stack)"
          using step(2) 2(3) edges by (auto simp: ps_def)
        then show ?case using step(4) by auto
      qed
      then show "b = node" using b(3) by simp
    qed
    moreover have "reach_loop deps (node # stack) R = reach_loop deps (rev ps @ stack) (insert node R)"
      using False by (simp add: ps_def cs_def Let_def)
    ultimately show ?thesis using ih by (auto simp: Image_Un)
  qed
qed

interpretation probe_label_codec: codec probe_label parse_probe_label "\<lambda>_. True"
  by unfold_locales (simp add: probe_label_def parse_probe_label_def)

interpretation sharing_codec: codec "\<lambda>s. case as_wire_str s of Some w \<Rightarrow> w | None \<Rightarrow> []"
    "\<lambda>w. Some (from_wire_str w)" "\<lambda>_. True"
proof (unfold_locales, goal_cases)
  case (1 s)
  show ?case by (cases s) (simp_all add: from_wire_str_def)
qed

text \<open>A shell unit for the examples of the later theories.\<close>

definition shell_unit :: "str \<Rightarrow> str list \<Rightarrow> str list \<Rightarrow> str list \<Rightarrow> dep_kind \<Rightarrow> captured_unit" where
  "shell_unit cmd probes outs after kind =
     \<lparr>payload = Shell cmd 1, u_cache_meta = None, u_dep_kind = kind, u_probes = probes,
      unit_env_vars = Map.empty, u_member = None, output_paths = outs, u_after = after, test_name = None\<rparr>"

section \<open>Properties\<close>

text \<open>
  \<open>reachable_from\<close> returns exactly the registered names that some registered seed reaches through
  required names that are themselves registered; names outside the map contribute nothing.
\<close>

theorem reachable_from_exact:
  "reachable_from deps seeds =
     (requires_edge deps)\<^sup>* `` {s \<in> set seeds. map_of deps s \<noteq> None}"
  using reach_loop_closed[of deps "{}" "rev (filter (\<lambda>s. map_of deps s \<noteq> None) seeds)"]
  by (simp add: reachable_from_def)

end
