(* ===== verification/Pathlaw.thy ===== *)
theory Pathlaw
  imports Cook_Prelude "HOL-Library.Sublist"
begin

text \<open>
  The lexical path rules of \<open>cook-contracts/src/pathlaw/mod.rs\<close>: what a declared output is (pattern,
  directory, literal), whether it stays inside the unit's working directory, how an absolute
  declaration is rebased, and how broad a \<open>covers\<close> entry is.

  A declaration is a string. A \<open>Path\<close> or \<open>PathBuf\<close> is compared, ordered and iterated through its
  components, so a path value is the list of them: \<open>components\<close> is \<open>Path::components\<close> on Unix (empty
  and inner \<open>.\<close> segments vanish, a leading \<open>.\<close> of a relative path stays), and a string is joined to
  another as \<open>PathBuf::push\<close> does it. The Windows prefix component does not occur.
\<close>

section \<open>Paths of the standard library\<close>

datatype path_component = RootDir | CurDir | ParentDir | Normal str

type_synonym path = "path_component list"

text \<open>The derived order of \<open>Component\<close>, which orders the keys of a \<open>BTreeMap<PathBuf, _>\<close>.\<close>

fun component_rank :: "path_component \<Rightarrow> nat \<times> str" where
  "component_rank RootDir = (0, [])"
| "component_rank CurDir = (1, [])"
| "component_rank ParentDir = (2, [])"
| "component_rank (Normal n) = (3, n)"

lemma component_rank_inj: "component_rank a = component_rank b \<Longrightarrow> a = b"
  by (cases a; cases b) simp_all

instantiation path_component :: linorder
begin

definition less_eq_path_component :: "path_component \<Rightarrow> path_component \<Rightarrow> bool" where
  "less_eq_path_component a b \<longleftrightarrow> component_rank a \<le> component_rank b"

definition less_path_component :: "path_component \<Rightarrow> path_component \<Rightarrow> bool" where
  "less_path_component a b \<longleftrightarrow> component_rank a < component_rank b"

instance
  by intro_classes
    (auto simp: less_eq_path_component_def less_path_component_def dest: component_rank_inj antisym)

end

definition has_root :: "str \<Rightarrow> bool" where
  "has_root s \<longleftrightarrow> starts_with ''/'' s"

definition segments :: "str \<Rightarrow> str list" where
  "segments s = filter (\<lambda>w. w \<noteq> [] \<and> w \<noteq> ''.'') (split_on CHR ''/'' s)"

definition seg_component :: "str \<Rightarrow> path_component" where
  "seg_component w = (if w = ''..'' then ParentDir else Normal w)"

definition components :: "str \<Rightarrow> path" where
  "components s =
     (if has_root s then [RootDir]
      else if hd (split_on CHR ''/'' s) = ''.'' then [CurDir] else [])
     @ map seg_component (segments s)"

definition path_join :: "str \<Rightarrow> str \<Rightarrow> str" where
  "path_join base p =
     (if has_root p then p
      else if base = [] \<or> last base = CHR ''/'' then base @ p
      else base @ ''/'' @ p)"

definition path_pop :: "path \<Rightarrow> path" where
  "path_pop out = (if out = [] \<or> last out = RootDir then out else butlast out)"

definition path_has_root :: "path \<Rightarrow> bool" where
  "path_has_root p \<longleftrightarrow> p \<noteq> [] \<and> hd p = RootDir"

abbreviation path_starts_with :: "path \<Rightarrow> path \<Rightarrow> bool" where
  "path_starts_with p q \<equiv> prefix q p"

section \<open>Output shapes\<close>

definition has_glob_meta :: "str \<Rightarrow> bool" where
  "has_glob_meta s \<longleftrightarrow> list_ex (\<lambda>b. b = CHR ''*'' \<or> b = CHR ''?'' \<or> b = CHR ''['') s"

definition is_dir_output :: "str \<Rightarrow> bool" where
  "is_dir_output s \<longleftrightarrow> ends_with ''/'' s"

definition is_terminal_output :: "str \<Rightarrow> bool" where
  "is_terminal_output s \<longleftrightarrow> has_glob_meta s \<or> is_dir_output s"

definition strip_dot_slash :: "str \<Rightarrow> str" where
  "strip_dot_slash s = (case strip_prefix ''./'' s of Some r \<Rightarrow> r | None \<Rightarrow> s)"

section \<open>Normalisation and escape\<close>

fun normalize_step :: "path_component \<Rightarrow> path \<Rightarrow> path" where
  "normalize_step CurDir out = out"
| "normalize_step ParentDir out = path_pop out"
| "normalize_step RootDir out = [RootDir]"
| "normalize_step (Normal n) out = out @ [Normal n]"

definition normalize :: "path \<Rightarrow> path" where
  "normalize p = fold normalize_step p []"

fun escapes_from :: "nat \<Rightarrow> path \<Rightarrow> bool" where
  "escapes_from depth [] = False"
| "escapes_from depth (Normal n # cs) = escapes_from (depth + 1) cs"
| "escapes_from depth (CurDir # cs) = escapes_from depth cs"
| "escapes_from depth (ParentDir # cs) = (if 0 < depth then escapes_from (depth - 1) cs else True)"
| "escapes_from depth (RootDir # cs) = True"

definition escapes_base :: "path \<Rightarrow> bool" where
  "escapes_base p = escapes_from 0 p"

section \<open>Declarations relative to the unit\<close>

definition rebase :: "str \<Rightarrow> str \<Rightarrow> str \<Rightarrow> str option" where
  "rebase p from_dir to_dir =
     (case strip_prefix from_dir p of
        Some rest \<Rightarrow> if rest = [] \<or> starts_with ''/'' rest then Some (to_dir @ rest) else None
      | None \<Rightarrow> None)"

function drop_dots :: "str \<Rightarrow> str" where
  "drop_dots rest =
     (case strip_prefix ''./'' rest of
        Some r \<Rightarrow> drop_dots (trim_start_matches CHR ''/'' r)
      | None \<Rightarrow> if rest = ''.'' then [] else rest)"
  by auto
termination
  by (relation "measure length")
    (auto simp: strip_prefix_iff trim_start_matches_def less_Suc_eq_le intro: le_SucI length_dropWhile_le)

declare drop_dots.simps [simp del]

definition unit_relative :: "str \<Rightarrow> str \<Rightarrow> str" where
  "unit_relative p wd =
     (case rebase p (trim_end_matches CHR ''/'' wd) [] of
        None \<Rightarrow> p
      | Some rest \<Rightarrow> drop_dots (trim_start_matches CHR ''/'' rest))"

definition is_root_wildcard_output :: "str \<Rightarrow> str \<Rightarrow> bool" where
  "is_root_wildcard_output s wd \<longleftrightarrow>
     has_glob_meta (hd (split_on CHR ''/'' (strip_dot_slash (unit_relative s wd))))"

definition output_leaves_unit :: "str \<Rightarrow> str \<Rightarrow> bool" where
  "output_leaves_unit p wd =
     (let rel = components (unit_relative p wd) in escapes_base rel \<or> normalize rel = [])"

datatype dir_output_refusal = Pattern_Output | LeavesUnit

definition refuse_dir_output :: "str \<Rightarrow> str \<Rightarrow> dir_output_refusal option" where
  "refuse_dir_output p wd =
     (if has_glob_meta p then Some Pattern_Output
      else if output_leaves_unit p wd then Some LeavesUnit
      else None)"

definition glob_output_leaves_unit :: "str \<Rightarrow> str \<Rightarrow> bool" where
  "glob_output_leaves_unit p wd \<longleftrightarrow> has_glob_meta p \<and> output_leaves_unit p wd"

section \<open>Breadth of a covers entry\<close>

definition strip_wildcard_tail :: "str \<Rightarrow> str" where
  "strip_wildcard_tail entry =
     (let parts = rev (dropWhile (\<lambda>w. w = [] \<or> w = ''*'' \<or> w = ''**'') (rev (split_on CHR ''/'' entry)))
      in if parts = [] \<and> starts_with ''/'' entry then ''/'' else join ''/'' parts)"

definition is_normal :: "path_component \<Rightarrow> bool" where
  "is_normal c = (case c of Normal _ \<Rightarrow> True | _ \<Rightarrow> False)"

definition too_broad_root :: "path \<Rightarrow> path option \<Rightarrow> bool" where
  "too_broad_root root home =
     (let r = normalize root in
      path_has_root r
      \<and> (length (filter is_normal r) \<le> 1
         \<or> (case home of None \<Rightarrow> False | Some h \<Rightarrow> path_starts_with (normalize h) r)))"

definition covers_glob :: "str \<Rightarrow> bool" where
  "covers_glob s \<longleftrightarrow> list_ex (\<lambda>c. c = CHR ''*'' \<or> c = CHR ''?'' \<or> c = CHR ''['' \<or> c = CHR ''{'') s"

definition covers_root :: "str \<Rightarrow> str" where
  "covers_root entry =
     (let t = strip_wildcard_tail entry;
          root = join ''/'' (takeWhile (\<lambda>c. \<not> covers_glob c) (split_on CHR ''/'' t))
      in if root = [] \<and> starts_with ''/'' t then ''/'' else root)"

definition home_rest :: "str \<Rightarrow> str option" where
  "home_rest root =
     (case strip_prefix ''~'' root of
        Some r \<Rightarrow> if r = [] \<or> starts_with ''/'' r then Some (trim_start_matches CHR ''/'' r) else None
      | None \<Rightarrow> None)"

definition covers_narrowed :: "str \<Rightarrow> bool" where
  "covers_narrowed entry =
     (let t = strip_wildcard_tail entry in
      \<not> list_ex (\<lambda>c. c = CHR ''{'' \<or> c = CHR ''['' \<or> c = backslash) t
      \<and> list_ex (\<lambda>c. c \<noteq> [] \<and> c \<noteq> ''.'' \<and> c \<noteq> ''..'' \<and> \<not> covers_glob c)
          (dropWhile (\<lambda>c. \<not> covers_glob c) (split_on CHR ''/'' t)))"

definition covers_too_broad :: "str \<Rightarrow> (str \<times> str option) option \<Rightarrow> bool" where
  "covers_too_broad entry at =
     (let root = covers_root entry;
          absolute = has_root root;
          lexical =
            (case home_rest root of
               Some r \<Rightarrow> normalize (components r) = []
             | None \<Rightarrow>
                 if absolute then too_broad_root (components root) None
                 else normalize (components root) = [] \<and> \<not> covers_narrowed entry)
      in case at of
           None \<Rightarrow> lexical
         | Some (dir, home) \<Rightarrow>
             lexical
             \<or> (case home_rest root of
                  Some r \<Rightarrow>
                    (case home of
                       None \<Rightarrow> False
                     | Some h \<Rightarrow> too_broad_root (components (path_join h r)) (Some (components h)))
                | None \<Rightarrow>
                    if absolute then too_broad_root (components root) (map_option components home)
                    else
                      (let r = normalize (components (path_join dir root)) in
                       escapes_base (components root)
                       \<and> (too_broad_root r (map_option components home)
                          \<or> path_starts_with (normalize (components dir)) r))))"

section \<open>How paths compose\<close>

lemma split_on_append: "split_on c (a @ c # b) = split_on c a @ split_on c b"
proof (induction a)
  case (Cons x a)
  obtain w ws where "split_on c a = w # ws" by (cases "split_on c a") auto
  then show ?case using Cons.IH by simp
qed simp

lemma segments_sep [simp]: "segments (a @ CHR ''/'' # b) = segments a @ segments b"
  by (simp add: segments_def split_on_append)

lemma segments_Nil [simp]: "segments [] = []" by (simp add: segments_def)

lemma segments_slash [simp]: "segments (CHR ''/'' # b) = segments b"
  using segments_sep[of "[]" b] by simp

lemma segments_dot_slash [simp]: "segments (CHR ''.'' # CHR ''/'' # b) = segments b"
  by (simp add: segments_def)

lemma segments_dot [simp]: "segments ''.'' = []" by (simp add: segments_def)

lemma segments_trim_start [simp]: "segments (trim_start_matches CHR ''/'' s) = segments s"
  unfolding trim_start_matches_def by (induction s) simp_all

lemma trim_end_split:
  obtains k where "s = trim_end_matches c s @ replicate k c"
proof -
  have "rev s = takeWhile (\<lambda>x. x = c) (rev s) @ rev (trim_end_matches c s)"
    by (simp add: trim_end_matches_def)
  then have "s = trim_end_matches c s @ rev (takeWhile (\<lambda>x. x = c) (rev s))"
    by (metis rev_append rev_rev_ident)
  moreover have "takeWhile (\<lambda>x. x = c) (rev s) = replicate (length (takeWhile (\<lambda>x. x = c) (rev s))) c"
    using set_takeWhileD[of _ "\<lambda>x. x = c" "rev s"] by (intro replicate_length_same[symmetric]) auto
  ultimately show thesis using that by (metis rev_replicate)
qed

lemma segments_slashes [simp]: "segments (a @ replicate k CHR ''/'') = segments a"
proof (induction k)
  case (Suc k)
  have "a @ replicate (Suc k) CHR ''/'' = (a @ replicate k CHR ''/'') @ CHR ''/'' # []"
    by (simp add: replicate_append_same)
  then show ?case using Suc by (simp only: segments_sep segments_Nil append_Nil2)
qed simp

lemma segments_trim_end [simp]: "segments (trim_end_matches CHR ''/'' s) = segments s"
  using trim_end_split[of s "CHR ''/''"] segments_slashes by metis

lemma has_root_simps [simp]:
  "\<not> has_root []" "has_root (CHR ''/'' # s)" "has_root (c # s) \<longleftrightarrow> c = CHR ''/''"
  by (auto simp: has_root_def starts_with_def)

lemma segment_chars_sep: "w \<in> set (segments s) \<Longrightarrow> w \<noteq> [] \<and> w \<noteq> ''.'' \<and> CHR ''/'' \<notin> set w"
  by (auto simp: segments_def dest: split_on_no_sep)

lemma components_body:
  "fold normalize_step (components s) out =
     fold normalize_step (map seg_component (segments s)) (if has_root s then [RootDir] else out)"
  by (simp add: components_def)

lemma normalize_eq:
  "normalize (components s) =
     fold normalize_step (map seg_component (segments s)) (if has_root s then [RootDir] else [])"
  by (simp add: normalize_def components_body)

lemma has_root_join: "has_root (path_join b p) \<longleftrightarrow> has_root b \<or> has_root p"
  by (cases b; cases p) (auto simp: path_join_def)

lemma segments_join: "\<not> has_root p \<Longrightarrow> segments (path_join b p) = segments b @ segments p"
proof -
  assume p: "\<not> has_root p"
  consider "b = []" | "b \<noteq> []" "last b = CHR ''/''" | "b \<noteq> []" "last b \<noteq> CHR ''/''" by blast
  then show ?thesis
  proof cases
    case 2
    then have b: "b = butlast b @ CHR ''/'' # []" by (metis append_butlast_last_id)
    have "b @ p = butlast b @ CHR ''/'' # p" by (subst b) simp
    then have "segments (b @ p) = segments (butlast b) @ segments p" by (simp only: segments_sep)
    moreover have "segments b = segments (butlast b)" by (subst b) (simp only: segments_sep segments_Nil append_Nil2)
    ultimately show ?thesis using p 2 by (simp add: path_join_def)
  qed (use p in \<open>simp_all add: path_join_def\<close>)
qed

lemma normalize_join:
  assumes "\<not> has_root p"
  shows "normalize (components (path_join b p))
    = fold normalize_step (map seg_component (segments p)) (normalize (components b))"
  using assms by (simp add: normalize_eq segments_join has_root_join)


section \<open>Staying inside the base\<close>

definition plain :: "path \<Rightarrow> bool" where
  "plain p \<longleftrightarrow> list_all is_normal p"

lemma plain_simps [simp]:
  "plain []" "plain (Normal n # p) \<longleftrightarrow> plain p" "plain (p @ q) \<longleftrightarrow> plain p \<and> plain q"
  by (simp_all add: plain_def is_normal_def)

lemma plain_butlast: "plain p \<Longrightarrow> plain (butlast p)"
  by (auto simp: plain_def list_all_iff dest: in_set_butlastD)

lemma plain_last: "plain p \<Longrightarrow> p \<noteq> [] \<Longrightarrow> last p \<noteq> RootDir"
  by (cases p rule: rev_cases) (auto simp: plain_def is_normal_def)

lemma walk_inside:
  assumes "\<not> escapes_from (length out) cs" and "plain out"
  shows "fold normalize_step cs (base @ out) = base @ fold normalize_step cs out
    \<and> plain (fold normalize_step cs out)"
  using assms
proof (induction cs arbitrary: out)
  case (Cons c cs)
  show ?case
  proof (cases c)
    case (Normal n)
    then show ?thesis using Cons.IH[of "out @ [Normal n]"] Cons.prems by simp
  next
    case ParentDir
    then have "out \<noteq> []" and esc: "\<not> escapes_from (length (butlast out)) cs"
      using Cons.prems by (auto split: if_splits)
    moreover from this have "path_pop (base @ out) = base @ butlast out" "path_pop out = butlast out"
      using plain_last[OF Cons.prems(2)] by (simp_all add: path_pop_def butlast_append)
    ultimately show ?thesis
      using Cons.IH[OF esc plain_butlast[OF Cons.prems(2)]] ParentDir by simp
  qed (use Cons in simp_all)
qed simp

lemma walk_escapes:
  assumes "escapes_from (length out) cs" and "plain out" and "RootDir \<notin> set cs"
    and "Normal f \<notin> set cs" and "Normal f \<notin> set out"
  shows "\<not> prefix [RootDir, Normal f] (fold normalize_step cs ([RootDir, Normal f] @ out))"
  using assms
proof (induction cs arbitrary: out)
  case (Cons c cs)
  show ?case
  proof (cases c)
    case (Normal n)
    then show ?thesis using Cons.IH[of "out @ [Normal n]"] Cons.prems by simp
  next
    case ParentDir
    show ?thesis
    proof (cases "out = []")
      case True
      have stays: "\<not> prefix [RootDir, Normal f] (fold normalize_step cs p)"
        if "p \<noteq> []" "hd p = RootDir" "Normal f \<notin> set p" for p
        using that Cons.prems(3,4)
      proof (induction cs arbitrary: p)
        case Nil
        then show ?case by (auto simp: prefix_def)
      next
        case (Cons c cs)
        have "path_pop p \<noteq> [] \<and> hd (path_pop p) = RootDir \<and> Normal f \<notin> set (path_pop p)"
          using Cons.prems(1-3) by (cases p rule: rev_cases) (auto simp: path_pop_def hd_append)
        then show ?case using Cons by (cases c) auto
      qed
      have "path_pop ([RootDir, Normal f] @ []) = [RootDir]" by (simp add: path_pop_def)
      then show ?thesis using stays[of "[RootDir]"] ParentDir True by simp
    next
      case False
      then have "path_pop ([RootDir, Normal f] @ out) = [RootDir, Normal f] @ butlast out"
        using plain_last[OF Cons.prems(2)] by (simp add: path_pop_def butlast_append)
      moreover have "escapes_from (length (butlast out)) cs"
        using Cons.prems(1) ParentDir False by simp
      ultimately show ?thesis
        using Cons.IH[of "butlast out"] Cons.prems plain_butlast ParentDir
        by (auto dest: in_set_butlastD)
    qed
  qed (use Cons in simp_all)
qed simp

lemma escapes_components:
  "escapes_base (components s) \<longleftrightarrow> has_root s \<or> escapes_from 0 (map seg_component (segments s))"
  by (simp add: escapes_base_def components_def)

lemma no_RootDir: "RootDir \<notin> set (map seg_component ws)"
  by (auto simp: seg_component_def)

text \<open>A path that does not escape stays below whatever it is joined to.\<close>

lemma join_inside:
  assumes "\<not> escapes_base (components p)"
  shows "normalize (components (path_join b p)) = normalize (components b) @ normalize (components p)
    \<and> plain (normalize (components p))"
proof -
  have "\<not> has_root p" "\<not> escapes_from (length []) (map seg_component (segments p))"
    using assms by (simp_all add: escapes_components)
  then show ?thesis
    using walk_inside[of "[]" "map seg_component (segments p)" "normalize (components b)"]
    by (simp add: normalize_join normalize_eq[of p])
qed

lemma fresh_segment:
  obtains f where "f \<notin> set ws" "f \<noteq> []" "f \<noteq> ''.''" "f \<noteq> ''..''" "CHR ''/'' \<notin> set f"
proof
  let ?n = "Suc (sum_list (map length ws))"
  let ?f = "replicate ?n CHR ''x''"
  have "length w < ?n" if "w \<in> set ws" for w
    using member_le_sum_list[of "length w" "map length ws"] that by simp
  then show "?f \<notin> set ws" by (metis length_replicate less_irrefl)
qed auto

lemma join_may_leave:
  assumes "escapes_base (components p)"
  shows "\<exists>b. has_root b \<and> \<not> prefix (normalize (components b)) (normalize (components (path_join b p)))"
proof -
  obtain f where f: "f \<notin> set (segments p)" "f \<noteq> []" "f \<noteq> ''.''" "f \<noteq> ''..''" "CHR ''/'' \<notin> set f"
    by (rule fresh_segment)
  let ?b = "CHR ''/'' # f"
  have seg: "segments f = [f]" using f by (simp add: segments_def split_on_no)
  have b: "normalize (components ?b) = [RootDir, Normal f]"
    using f seg by (simp add: normalize_eq seg_component_def)
  have fresh: "Normal f \<notin> set (map seg_component (segments p))"
    using f by (auto simp: seg_component_def split: if_splits)
  have "\<not> prefix [RootDir, Normal f] (normalize (components (path_join ?b p)))"
  proof (cases "has_root p")
    case True
    have "Normal f \<notin> set (fold normalize_step cs out)" if "Normal f \<notin> set cs" "Normal f \<notin> set out" for cs out
      using that
    proof (induction cs arbitrary: out)
      case (Cons c cs)
      then show ?case by (cases c) (auto simp: path_pop_def dest: in_set_butlastD)
    qed simp
    from this[OF fresh, of "[RootDir]"] have "Normal f \<notin> set (normalize (components (path_join ?b p)))"
      using True by (simp add: path_join_def normalize_eq)
    then show ?thesis by (auto simp: prefix_def)
  next
    case False
    then have "escapes_from (length []) (map seg_component (segments p))"
      using assms by (simp add: escapes_components)
    from walk_escapes[OF this _ no_RootDir fresh] show ?thesis
      using False b by (simp add: normalize_join)
  qed
  then show ?thesis unfolding b[symmetric] by (intro exI[of _ ?b]) simp
qed


section \<open>Normal forms\<close>

definition normal_form :: "path \<Rightarrow> bool" where
  "normal_form p \<longleftrightarrow> plain p \<or> (\<exists>q. p = RootDir # q \<and> plain q)"

lemma normal_form_step: "normal_form out \<Longrightarrow> normal_form (normalize_step c out)"
proof (cases c)
  assume out: "normal_form out"
  case ParentDir
  have "normal_form (butlast out)" if "last out \<noteq> RootDir" "out \<noteq> []"
    using out that unfolding normal_form_def
  proof (elim disjE exE conjE)
    fix q assume "out = RootDir # q" "plain q" "last out \<noteq> RootDir"
    then show "plain (butlast out) \<or> (\<exists>q. butlast out = RootDir # q \<and> plain q)"
      using plain_butlast[of q] by (cases "q = []") simp_all
  qed (simp add: plain_butlast)
  then have "normal_form (path_pop out)"
    using out by (simp add: path_pop_def)
  then show ?thesis using ParentDir by simp
qed (auto simp: normal_form_def)

lemma normal_form_fold: "normal_form out \<Longrightarrow> normal_form (fold normalize_step cs out)"
  by (induction cs arbitrary: out) (simp_all add: normal_form_step)

lemma normalize_normal_form: "normal_form (normalize p)"
  unfolding normalize_def by (rule normal_form_fold) (simp add: normal_form_def)

lemma fold_plain: "plain p \<Longrightarrow> fold normalize_step p out = out @ p"
proof (induction p arbitrary: out)
  case (Cons c p)
  then show ?case by (cases c) (simp_all add: plain_def is_normal_def)
qed simp

lemma normalize_fixed: "normal_form p \<Longrightarrow> normalize p = p"
  by (auto simp: normal_form_def normalize_def fold_plain)

section \<open>Rebased declarations\<close>

lemma trimmed_no_root: "\<not> has_root (trim_start_matches CHR ''/'' r)"
  unfolding trim_start_matches_def by (induction r) auto

lemma drop_dots_segments: "segments (drop_dots s) = segments s \<and> (\<not> has_root s \<longrightarrow> \<not> has_root (drop_dots s))"
proof (induction s rule: drop_dots.induct)
  case (1 s)
  show ?case
  proof (cases "strip_prefix ''./'' s")
    case None
    then show ?thesis by (simp add: drop_dots.simps[of s])
  next
    case (Some r)
    then show ?thesis
      using 1[OF Some] trimmed_no_root[of r] by (simp add: drop_dots.simps[of s]) (simp add: strip_prefix_iff)
  qed
qed

text \<open>The rebased declaration names the path that the declaration names.\<close>

lemma unit_relative_keeps:
  assumes wd: "has_root wd"
  shows "normalize (components (path_join wd (unit_relative p wd))) = normalize (components (path_join wd p))"
proof (cases "rebase p (trim_end_matches CHR ''/'' wd) []")
  case None
  then show ?thesis by (simp add: unit_relative_def)
next
  case (Some rest)
  let ?w = "trim_end_matches CHR ''/'' wd"
  let ?rel = "drop_dots (trim_start_matches CHR ''/'' rest)"
  have p: "p = ?w @ rest" and rest: "rest = [] \<or> has_root rest"
    using Some by (auto simp: rebase_def has_root_def strip_prefix_iff split: option.splits if_splits)
  have rel: "segments ?rel = segments rest" "\<not> has_root ?rel"
    using drop_dots_segments[of "trim_start_matches CHR ''/'' rest"] trimmed_no_root by simp_all
  have w: "?w = [] \<or> has_root ?w"
    using wd trim_end_split[of wd "CHR ''/''"] by (metis has_root_simps(3) append_Cons neq_Nil_conv)
  have seg: "segments p = segments wd @ segments rest"
  proof (cases rest)
    case Nil
    then show ?thesis using p by simp
  next
    case (Cons c r)
    then have "p = ?w @ CHR ''/'' # r" "rest = CHR ''/'' # r" using p rest by simp_all
    then show ?thesis by (metis segments_sep segments_slash segments_trim_end)
  qed
  have j: "normalize (components (path_join wd ?rel))
      = fold normalize_step (map seg_component (segments rest)) (normalize (components wd))"
    using rel by (simp add: normalize_join)
  show ?thesis
  proof (cases "has_root p")
    case True
    then show ?thesis
      using j seg wd Some by (simp add: unit_relative_def normalize_eq[of p] normalize_eq[of wd] path_join_def)
  next
    case False
    then have "?w = []" "rest = []" using p w rest by (cases ?w; cases rest; simp)+
    then have "unit_relative p wd = p"
      using p by (simp add: unit_relative_def rebase_def trim_start_matches_def drop_dots.simps)
    then show ?thesis by simp
  qed
qed

section \<open>Covers roots\<close>

lemma rooted_fold:
  "path_has_root out \<Longrightarrow> path_has_root (fold normalize_step cs out)"
proof (induction cs arbitrary: out)
  case (Cons c cs)
  have "path_has_root (path_pop out)"
    using Cons.prems by (cases out rule: rev_cases) (auto simp: path_has_root_def path_pop_def hd_append)
  then show ?case using Cons by (cases c) (auto simp: path_has_root_def)
qed simp

lemma normalize_rooted: "has_root s \<Longrightarrow> path_has_root (normalize (components s))"
  using rooted_fold[of "[RootDir]"] by (simp add: normalize_eq path_has_root_def)

lemma not_too_broad:
  assumes "\<not> too_broad_root p (Some h)" and "path_has_root (normalize p)"
  shows "2 \<le> length (filter is_normal (normalize p)) \<and> \<not> path_starts_with (normalize h) (normalize p)"
  using assms by (simp add: too_broad_root_def Let_def not_le)

lemma covers_root_literal: "\<not> covers_glob (covers_root entry)"
proof -
  let ?t = "strip_wildcard_tail entry"
  let ?ws = "takeWhile (\<lambda>c. \<not> covers_glob c) (split_on CHR ''/'' ?t)"
  let ?g = "\<lambda>c. c = CHR ''*'' \<or> c = CHR ''?'' \<or> c = CHR ''['' \<or> c = CHR ''{''"
  have "\<not> ?g c" if "c \<in> set (join ''/'' ?ws)" for c
  proof -
    from that consider "c = CHR ''/''" | w where "w \<in> set ?ws" "c \<in> set w"
      using set_join_subset[of "CHR ''/''" ?ws] by blast
    then show ?thesis
    proof cases
      case 2
      then have "\<not> covers_glob w" by (auto dest: set_takeWhileD)
      then show ?thesis using 2(2) unfolding covers_glob_def list_ex_iff by blast
    qed simp
  qed
  then have "\<not> covers_glob (join ''/'' ?ws)" unfolding covers_glob_def list_ex_iff by blast
  moreover have "\<not> covers_glob ''/''" by (simp add: covers_glob_def)
  ultimately show ?thesis by (simp add: covers_root_def Let_def)
qed

definition covers_resolved :: "str \<Rightarrow> str \<Rightarrow> str \<Rightarrow> path" where
  "covers_resolved root dir h =
     normalize (components (case home_rest root of Some r \<Rightarrow> path_join h r | None \<Rightarrow> path_join dir root))"

section \<open>Properties\<close>

text \<open>
  normalising is idempotent and leaves only a root and plain names; and the escape test is exact:
  a path escapes its base precisely when some base exists that joining it walks out of. A path that
  does not escape normalises below every base it is joined to.
\<close>

theorem escapes_base_exact:
  "(escapes_base (components p) \<longleftrightarrow>
      (\<exists>b. has_root b \<and> \<not> path_starts_with (normalize (components (path_join b p))) (normalize (components b))))
   \<and> normalize (normalize q) = normalize q \<and> normal_form (normalize q)"
  using join_inside[of p] join_may_leave[of p] normalize_fixed[OF normalize_normal_form] normalize_normal_form
  by (metis prefixI)

text \<open>
  C36: for an absolute working directory the rebased form of a declaration names the same path as the
  declaration itself, and a declaration that does not leave the unit names a path strictly below the
  working directory, namely the working directory followed by the normalised rebased form.
\<close>

theorem output_stays_inside:
  assumes "has_root wd"
  shows "normalize (components (path_join wd (unit_relative p wd))) = normalize (components (path_join wd p))
    \<and> (\<not> output_leaves_unit p wd \<longrightarrow>
         normalize (components (path_join wd p)) = normalize (components wd) @ normalize (components (unit_relative p wd))
         \<and> strict_prefix (normalize (components wd)) (normalize (components (path_join wd p))))"
proof (intro conjI impI)
  show k: "normalize (components (path_join wd (unit_relative p wd))) = normalize (components (path_join wd p))"
    using assms by (rule unit_relative_keeps)
  assume "\<not> output_leaves_unit p wd"
  then have e: "\<not> escapes_base (components (unit_relative p wd))" "normalize (components (unit_relative p wd)) \<noteq> []"
    by (simp_all add: output_leaves_unit_def Let_def)
  show eq: "normalize (components (path_join wd p)) = normalize (components wd) @ normalize (components (unit_relative p wd))"
    using join_inside[OF e(1), of wd] k by simp
  show "strict_prefix (normalize (components wd)) (normalize (components (path_join wd p)))"
    using eq e(2) by (auto simp: strict_prefix_def)
qed

lemma output_stays_inside_witness:
  "has_root ''/w'' \<and> unit_relative ''/w/./dist/'' ''/w/'' = ''dist/''
   \<and> strict_prefix (normalize (components ''/w/'')) (normalize (components (path_join ''/w/'' ''/w/./dist/'')))"
proof -
  have u: "unit_relative ''/w/./dist/'' ''/w/'' = ''dist/''"
    by (simp add: unit_relative_def rebase_def trim_end_matches_def trim_start_matches_def starts_with_def
        drop_dots.simps)
  have "\<not> output_leaves_unit ''/w/./dist/'' ''/w/''"
    unfolding output_leaves_unit_def u by (simp add: escapes_components normalize_eq segments_def seg_component_def)
  then have "strict_prefix (normalize (components ''/w/'')) (normalize (components (path_join ''/w/'' ''/w/./dist/'')))"
    using output_stays_inside[of "''/w/''" "''/w/./dist/''"] by (metis has_root_simps(2))
  then show ?thesis using u by simp
qed


text \<open>
  the literal root of a \<open>covers\<close> entry has no glob character, and an entry that the audit accepts,
  resolved against the home directory or the Cookfile's directory, either stays inside the Cookfile's
  directory or is at least two levels deep and neither the home directory nor one of its ancestors; if
  it climbed out of the Cookfile's directory it is not an ancestor of that directory either.
\<close>

theorem covers_audit_sound:
  assumes "has_root dir" and "has_root h" and "\<not> covers_too_broad entry (Some (dir, Some h))"
  shows "\<not> covers_glob (covers_root entry)
    \<and> (let R = covers_resolved (covers_root entry) dir h; D = normalize (components dir) in
        home_rest (covers_root entry) = None \<and> path_starts_with R D
        \<or> 2 \<le> length (filter is_normal R) \<and> \<not> path_starts_with (normalize (components h)) R
          \<and> (home_rest (covers_root entry) = None \<and> \<not> has_root (covers_root entry)
                \<longrightarrow> \<not> path_starts_with D R))"
proof
  show "\<not> covers_glob (covers_root entry)" by (rule covers_root_literal)
  let ?root = "covers_root entry"
  show "let R = covers_resolved ?root dir h; D = normalize (components dir) in
        home_rest ?root = None \<and> path_starts_with R D
        \<or> 2 \<le> length (filter is_normal R) \<and> \<not> path_starts_with (normalize (components h)) R
          \<and> (home_rest ?root = None \<and> \<not> has_root ?root \<longrightarrow> \<not> path_starts_with D R)"
  proof (cases "home_rest ?root")
    case (Some r)
    then have "\<not> too_broad_root (components (path_join h r)) (Some (components h))"
      using assms(3) by (simp add: covers_too_broad_def Let_def)
    moreover have "path_has_root (normalize (components (path_join h r)))"
      using assms(2) by (simp add: normalize_rooted has_root_join)
    ultimately show ?thesis
      using not_too_broad Some by (simp add: covers_resolved_def Let_def)
  next
    case None
    have R: "path_has_root (normalize (components (path_join dir ?root)))"
      using assms(1) by (simp add: normalize_rooted has_root_join)
    show ?thesis
    proof (cases "has_root ?root")
      case True
      then have "\<not> too_broad_root (components ?root) (Some (components h))" "path_join dir ?root = ?root"
        using assms(3) None by (simp_all add: covers_too_broad_def Let_def path_join_def)
      then show ?thesis
        using not_too_broad R None True by (simp add: covers_resolved_def Let_def)
    next
      case False
      let ?R = "normalize (components (path_join dir ?root))"
      show ?thesis
      proof (cases "escapes_base (components ?root)")
        case True
        then have "\<not> too_broad_root ?R (Some (components h))" "\<not> path_starts_with (normalize (components dir)) ?R"
          using assms(3) None False by (simp_all add: covers_too_broad_def Let_def)
        moreover have "normalize ?R = ?R" by (rule normalize_fixed) (rule normalize_normal_form)
        ultimately show ?thesis
          using not_too_broad[of ?R "components h"] R None by (simp add: covers_resolved_def Let_def)
      next
        case inside: False
        then show ?thesis
          using join_inside[OF inside, of dir] None by (simp add: covers_resolved_def Let_def)
      qed
    qed
  qed
qed

lemma covers_audit_sound_witness:
  "has_root ''/p/q'' \<and> has_root ''/home/u'' \<and> covers_root ''../lib/*/x'' = ''../lib''
   \<and> covers_resolved ''../lib'' ''/p/q'' ''/home/u'' = [RootDir, Normal ''p'', Normal ''lib'']
   \<and> \<not> path_starts_with (normalize (components ''/home/u'')) [RootDir, Normal ''p'', Normal ''lib'']"
proof -
  have r: "covers_root ''../lib/*/x'' = ''../lib''"
    by (simp add: covers_root_def strip_wildcard_tail_def covers_glob_def starts_with_def)
  have h: "home_rest ''../lib'' = None" by (simp add: home_rest_def)
  have R: "covers_resolved ''../lib'' ''/p/q'' ''/home/u'' = [RootDir, Normal ''p'', Normal ''lib'']"
    by (simp add: covers_resolved_def h path_join_def normalize_eq segments_def seg_component_def path_pop_def)
  have D: "normalize (components ''/p/q'') = [RootDir, Normal ''p'', Normal ''q'']"
    by (simp add: normalize_eq segments_def seg_component_def)
  have J: "normalize (components (path_join ''/p/q'' ''../lib'')) = [RootDir, Normal ''p'', Normal ''lib'']"
    using R by (simp add: covers_resolved_def h)
  have N: "normalize [RootDir, Normal ''p'', Normal ''lib''] = [RootDir, Normal ''p'', Normal ''lib'']"
    by (simp add: normalize_def)
  have H: "normalize (components ''/home/u'') = [RootDir, Normal ''home'', Normal ''u'']"
    by (simp add: normalize_eq segments_def seg_component_def)
  have L: "normalize (components ''../lib'') = [Normal ''lib'']"
    by (simp add: normalize_eq segments_def seg_component_def path_pop_def)
  have "\<not> covers_too_broad ''../lib/*/x'' (Some (''/p/q'', Some ''/home/u''))"
    by (simp add: covers_too_broad_def r h Let_def D J L too_broad_root_def N H is_normal_def)
  from covers_audit_sound[OF _ _ this] show ?thesis
    using r h R D by (simp add: Let_def)
qed

end
