(* ===== verification/Unit_Graph.thy ===== *)
theory Unit_Graph
  imports Unit_Types Release Pathlaw "HOL-Library.AList"
begin

text \<open>
  The parts of \<open>cook-contracts/src/unit_graph/mod.rs\<close> that planning is built from: the error types
  and their messages, the resolution of \<open>after\<close> entries, the filter on declared coarse
  dependencies, the recipe-level topological sort and the demand closure over probe keys. The
  wiring itself is in the theory Unit\_Plan.
\<close>

section \<open>Types\<close>

datatype node_origin = OriginUnit str nat | OriginSynthProbe str local_key

datatype edge_provenance = Serial | Group | ProbeEdge | DepOrder | Barrier | UnitOrder

record unit_graph_node =
  origin :: node_origin
  node_deps :: "(nat \<times> edge_provenance) list"

datatype after_error =
    NotDeclared (ae_unit: str) (ae_path: str)
  | RegisteredLater (ae_unit: str) (ae_path: str) (ae_producer: str)
  | Ambiguous (ae_unit: str) (ae_path: str) (ae_producers: "str list")

datatype unit_graph_error =
    DanglingDepEdge str str
  | Cycle "str list"
  | AfterFailed str after_error
  | UnscheduledProbe str str str

text \<open>What a fallible function returns when it does not succeed: an error value, or a panic.\<close>

datatype 'e failure = Failed 'e | Panicked

definition unit_label :: "captured_unit list \<Rightarrow> nat \<Rightarrow> str" where
  "unit_label units idx =
     (case (if idx < length units then
              (case output_paths (units ! idx) of [] \<Rightarrow> None | out # _ \<Rightarrow> Some out)
            else None) of
        Some out \<Rightarrow> ''unit '' @ [squote] @ out @ [squote]
      | None \<Rightarrow> ''unit #'' @ show_nat idx)"

definition quoted :: "str \<Rightarrow> str" where "quoted s = [squote] @ s @ [squote]"

definition ticked :: "str \<Rightarrow> str" where "ticked s = [backtick] @ s @ [backtick]"

fun after_message :: "after_error \<Rightarrow> str" where
  "after_message (NotDeclared u p) =
     ''cook.add_unit: '' @ ticked ''after'' @ '' entry '' @ quoted p @ '' on '' @ u
     @ '' names no output declared by any unit of this recipe; an '' @ ticked ''after''
     @ '' entry names a declared output path of an earlier unit in the SAME recipe (for a cross-recipe edge use cook.dep_order; a unit that declares no output cannot be named)''"
| "after_message (RegisteredLater u p producer) =
     (if u = producer then
        ''cook.add_unit: '' @ ticked ''after'' @ '' entry '' @ quoted p @ '' on '' @ u
        @ '' names that same unit'' @ [squote] @ ''s own output; a unit cannot run after itself''
      else
        ''cook.add_unit: '' @ ticked ''after'' @ '' entry '' @ quoted p @ '' on '' @ u
        @ '' names an output of '' @ producer
        @ '', which is registered LATER in the same recipe; register the producer before the unit that names it (an ''
        @ ticked ''after''
        @ '' entry may only point backwards, which is what makes the generated graph acyclic by construction)'')"
| "after_message (Ambiguous u p producers) =
     ''cook.add_unit: '' @ ticked ''after'' @ '' entry '' @ quoted p @ '' on '' @ u
     @ '' names an output declared by more than one unit of this recipe ('' @ join '', '' producers
     @ ''); the reference names no single producer, so nothing here can order the two''"

section \<open>After entries\<close>

text \<open>The map from an output to the units declaring it, filled unit by unit, output by output.\<close>

definition add_producer :: "nat \<Rightarrow> str \<Rightarrow> (str \<rightharpoonup> nat list) \<Rightarrow> (str \<rightharpoonup> nat list)" where
  "add_producer idx out m =
     (let key = strip_dot_slash out in
      m(key \<mapsto> (case m key of Some is \<Rightarrow> is | None \<Rightarrow> []) @ [idx]))"

definition producers_by_output :: "captured_unit list \<Rightarrow> (str \<rightharpoonup> nat list)" where
  "producers_by_output units =
     fold (\<lambda>idx. fold (add_producer idx) (output_paths (units ! idx))) [0..<length units] Map.empty"

definition resolve_entry ::
  "captured_unit list \<Rightarrow> (str \<rightharpoonup> nat list) \<Rightarrow> nat \<Rightarrow> str \<Rightarrow> nat list \<Rightarrow> after_error + nat list" where
  "resolve_entry units prods unit_idx path here =
     (case prods (strip_dot_slash path) of
        None \<Rightarrow> Inl (NotDeclared (unit_label units unit_idx) path)
      | Some producers \<Rightarrow>
          (if 1 < length producers then
             Inl (Ambiguous (unit_label units unit_idx) path (map (unit_label units) producers))
           else
             (let producer_idx = producers ! 0 in
              if unit_idx \<le> producer_idx then
                Inl (RegisteredLater (unit_label units unit_idx) path (unit_label units producer_idx))
              else Inr (here @ [producer_idx]))))"

definition resolve_after :: "captured_unit list \<Rightarrow> after_error + nat list list" where
  "resolve_after units =
     (if list_all (\<lambda>u. u_after u = []) units then Inr (replicate (length units) [])
      else
        (let prods = producers_by_output units in
         fold_res (\<lambda>unit_idx resolved.
             bind_res (fold_res (resolve_entry units prods unit_idx) (u_after (units ! unit_idx)) [])
               (\<lambda>here. Inr (resolved @ [here])))
           [0..<length units] []))"

section \<open>Messages of the planning errors\<close>

text \<open>
  The \<open>Debug\<close> rendering of a list of strings, which two messages use: each string in double quotes
  with the control characters, the quote and the backslash escaped. Bytes above 0x7F are copied, as
  the rendering copies every printable character.
\<close>

definition hex_digit :: "nat \<Rightarrow> char" where
  "hex_digit n = ''0123456789abcdef'' ! n"

definition debug_char :: "char \<Rightarrow> str" where
  "debug_char c =
     (if c = CHR 0x00 then [backslash, CHR ''0'']
      else if c = tab then [backslash, CHR ''t'']
      else if c = cret then [backslash, CHR ''r'']
      else if c = newline then [backslash, CHR ''n'']
      else if c = dquote \<or> c = backslash then [backslash, c]
      else if c < CHR 0x10 then [backslash, CHR ''u'', CHR ''{'', hex_digit (of_char c), CHR ''}'']
      else if c < CHR 0x20 \<or> c = CHR 0x7F then
        [backslash, CHR ''u'', CHR ''{'', hex_digit (of_char c div 16), hex_digit (of_char c mod 16), CHR ''}'']
      else [c])"

definition debug_str :: "str \<Rightarrow> str" where
  "debug_str s = [dquote] @ concat (map debug_char s) @ [dquote]"

definition debug_list :: "str list \<Rightarrow> str" where
  "debug_list ws = ''['' @ join '', '' (map debug_str ws) @ '']''"

fun unit_graph_message :: "unit_graph_error \<Rightarrow> str" where
  "unit_graph_message (DanglingDepEdge referring dep) =
     ''recipe '' @ quoted referring @ '' has a fine-grained dependency (dep_edges) on recipe ''
     @ quoted dep @ '', which is not present in the build closure''"
| "unit_graph_message (Cycle unresolved) = ''cycle among recipes: '' @ debug_list unresolved"
| "unit_graph_message (AfterFailed recipe e) = ''recipe '' @ quoted recipe @ '': '' @ after_message e"
| "unit_graph_message (UnscheduledProbe recipe u key) =
     u @ '' in recipe '' @ quoted recipe @ '' needs probe '' @ quoted key @ '', but no probe ''
     @ quoted key @ '' is scheduled in this invocation''"

section \<open>Coarse dependencies\<close>

definition declared_coarse_deps :: "str list \<Rightarrow> str list \<Rightarrow> str list" where
  "declared_coarse_deps declared closure_deps = filter (\<lambda>d. d \<in> set declared) closure_deps"

section \<open>The recipe-level topological sort\<close>

text \<open>
  \<open>reachable\<close> is the ascending list of a \<open>BTreeSet\<close>. The in-degrees are iterated in key order, so
  they are an association list; \<open>deps\<close> and \<open>forward\<close> are only looked up.
\<close>

record topo_state =
  t_deps :: "str \<rightharpoonup> str set"
  t_degree :: "(str \<times> nat) list"
  t_forward :: "str \<rightharpoonup> str set"

definition degree_of :: "(str \<times> nat) list \<Rightarrow> str \<Rightarrow> nat" where
  "degree_of ind n = (case map_of ind n of Some k \<Rightarrow> k | None \<Rightarrow> 0)"

definition topo_edge :: "str list \<Rightarrow> str \<Rightarrow> str \<Rightarrow> topo_state \<Rightarrow> topo_state" where
  "topo_edge reachable name d st =
     (if d \<in> set reachable \<and> d \<noteq> name \<and> d \<notin> the (t_deps st name) then
        st\<lparr>t_deps := (t_deps st)(name \<mapsto> insert d (the (t_deps st name))),
           t_degree := AList.update name (degree_of (t_degree st) name + 1) (t_degree st),
           t_forward := (t_forward st)(d \<mapsto>
             insert name (case t_forward st d of Some s \<Rightarrow> s | None \<Rightarrow> {}))\<rparr>
      else st)"

definition topo_init :: "str list \<Rightarrow> topo_state" where
  "topo_init reachable =
     \<lparr>t_deps = map_of (map (\<lambda>n. (n, {})) reachable), t_degree = map (\<lambda>n. (n, 0)) reachable,
      t_forward = Map.empty\<rparr>"

definition topo_build :: "(str \<rightharpoonup> str list) \<Rightarrow> str list \<Rightarrow> topo_state" where
  "topo_build edges reachable =
     fold (\<lambda>name. fold (topo_edge reachable name) (case edges name of Some ds \<Rightarrow> ds | None \<Rightarrow> []))
       reachable (topo_init reachable)"

text \<open>One popped name: each dependent loses one; a missing or zero counter would panic.\<close>

fun topo_release :: "str list \<Rightarrow> (str \<times> nat) list \<Rightarrow> str list \<Rightarrow> ((str \<times> nat) list \<times> str list) option" where
  "topo_release [] ind queue = Some (ind, queue)"
| "topo_release (n # ns) ind queue =
     (case map_of ind n of
        None \<Rightarrow> None
      | Some 0 \<Rightarrow> None
      | Some (Suc deg) \<Rightarrow>
          topo_release ns (AList.update n deg ind) (if deg = 0 then queue @ [n] else queue))"

lemma sum_list_update_deg:
  "map_of ind n = Some (Suc deg) \<Longrightarrow>
     Suc (sum_list (map snd (AList.update n deg ind))) = sum_list (map snd ind)"
  by (induction ind) (auto split: if_splits)

lemma topo_release_measure:
  "topo_release ns ind queue = Some (ind', queue') \<Longrightarrow>
     length queue' + sum_list (map snd ind') \<le> length queue + sum_list (map snd ind)"
proof (induction ns ind queue rule: topo_release.induct)
  case (1 ind queue)
  then show ?case by simp
next
  case (2 n ns ind queue)
  obtain deg where deg: "map_of ind n = Some (Suc deg)"
    using 2(2) by (auto split: option.splits nat.splits)
  from 2(1)[OF deg refl] 2(2) show ?case
    using deg sum_list_update_deg[OF deg] by (auto split: if_splits)
qed

definition forward_of :: "topo_state \<Rightarrow> str \<Rightarrow> str list" where
  "forward_of st n = (case t_forward st n of Some s \<Rightarrow> sorted_list_of_set s | None \<Rightarrow> [])"

function topo_loop :: "(str \<Rightarrow> str list) \<Rightarrow> str list \<Rightarrow> (str \<times> nat) list \<Rightarrow> str list
    \<Rightarrow> ((str \<times> nat) list \<times> str list) option" where
  "topo_loop fwd [] ind order = Some (ind, order)"
| "topo_loop fwd (n # queue) ind order =
     (case topo_release (fwd n) ind queue of
        None \<Rightarrow> None
      | Some (ind', queue') \<Rightarrow> topo_loop fwd queue' ind' (order @ [n]))"
  by pat_completeness auto
termination
  by (relation "measure (\<lambda>(fwd, queue, ind, order). length queue + sum_list (map snd ind))")
    (auto dest!: topo_release_measure)

definition toposort_recipes ::
  "(str \<rightharpoonup> str list) \<Rightarrow> str list \<Rightarrow> unit_graph_error failure + str list" where
  "toposort_recipes edges reachable =
     (let st = topo_build edges reachable;
          queue = map fst (filter (\<lambda>(n, deg). deg = 0) (t_degree st))
      in case topo_loop (forward_of st) queue (t_degree st) [] of
           None \<Rightarrow> Inl Panicked
         | Some (ind, order) \<Rightarrow>
             (if length order \<noteq> length reachable
              then Inl (Failed (Cycle (map fst (filter (\<lambda>(n, d). 0 < d) ind))))
              else Inr order))"

section \<open>Demand closure over probe keys\<close>

text \<open>Collecting into a map keeps the last entry of a key: lookups read the list backwards.\<close>

definition last_of :: "('k \<times> 'v) list \<Rightarrow> 'k \<rightharpoonup> 'v" where
  "last_of xs = map_of (rev xs)"

definition probe_requires :: "probe_unit list \<Rightarrow> (str \<times> str list) list" where
  "probe_requires probes = map (\<lambda>p. (p_key p, in_requires (p_inputs p))) probes"

definition body_requires :: "captured_unit list \<Rightarrow> (str \<times> str list) list" where
  "body_requires units =
     List.map_filter (\<lambda>u. map_option (\<lambda>k. (k, u_probes u)) (probe_key_of (payload u))) units"

fun push_new :: "str list \<Rightarrow> str set \<Rightarrow> str list \<Rightarrow> str set \<times> str list" where
  "push_new [] consumed worklist = (consumed, worklist)"
| "push_new (k # ks) consumed worklist =
     (if k \<in> consumed then push_new ks consumed worklist
      else push_new ks (insert k consumed) (k # worklist))"

definition upstreams :: "(str \<times> str list) list \<Rightarrow> str \<Rightarrow> str list" where
  "upstreams reqs k = (case last_of reqs k of Some ks \<Rightarrow> ks | None \<Rightarrow> [])"

lemma push_new_eq:
  "push_new ks C wl = (C', wl') \<Longrightarrow> C' = C \<union> set ks \<and> set wl' = set wl \<union> (set ks - C)
     \<and> length wl' = length wl + card (set ks - C)"
proof (induction ks C wl rule: push_new.induct)
  case (1 C wl)
  then show ?case by auto
next
  case (2 k ks C wl)
  show ?case
  proof (cases "k \<in> C")
    case True
    then show ?thesis using 2 by (auto simp: insert_Diff_if)
  next
    case False
    then have ih: "C' = insert k C \<union> set ks \<and> set wl' = set (k # wl) \<union> (set ks - insert k C)
     \<and> length wl' = length (k # wl) + card (set ks - insert k C)"
      using 2 by auto
    have "set (k # ks) - C = insert k (set ks - insert k C)" using False by auto
    then have "card (set (k # ks) - C) = Suc (card (set ks - insert k C))" by simp
    then show ?thesis using ih False by auto
  qed
qed

lemma upstreams_subset: "set (upstreams reqs k) \<subseteq> \<Union>(set ` set (map snd reqs))"
proof
  fix x assume "x \<in> set (upstreams reqs k)"
  then obtain ks where "last_of reqs k = Some ks" "x \<in> set ks"
    by (cases "last_of reqs k") (auto simp: upstreams_def)
  then have "(k, ks) \<in> set reqs" "x \<in> set ks"
    by (auto simp: last_of_def dest: map_of_SomeD)
  then show "x \<in> \<Union>(set ` set (map snd reqs))" by force
qed

definition requires_universe :: "(str \<times> str list) list \<Rightarrow> (str \<times> str list) list \<Rightarrow> str set" where
  "requires_universe regs body = \<Union>(set ` set (map snd (regs @ body)))"

function demand_loop :: "(str \<times> str list) list \<Rightarrow> (str \<times> str list) list \<Rightarrow> str list \<Rightarrow> str set \<Rightarrow> str set" where
  "demand_loop regs body [] consumed = consumed"
| "demand_loop regs body (k # worklist) consumed =
     (let (consumed1, worklist1) = push_new (upstreams regs k) consumed worklist;
          (consumed2, worklist2) = push_new (upstreams body k) consumed1 worklist1
      in demand_loop regs body worklist2 consumed2)"
  by pat_completeness auto

termination
proof (relation "measure (\<lambda>(regs, body, wl, C). card (requires_universe regs body - C) + length wl)", goal_cases)
  case 1
  show ?case by simp
next
  case (2 regs body k wl C p1 C1 wl1 p2 C2 wl2)
  let ?U = "requires_universe regs body"
  have fin: "finite ?U" by (simp add: requires_universe_def)
  have 1: "C1 = C \<union> set (upstreams regs k)" "length wl1 = length wl + card (set (upstreams regs k) - C)"
    using push_new_eq[of "upstreams regs k" C wl C1 wl1] 2 by auto
  have 3: "C2 = C1 \<union> set (upstreams body k)" "length wl2 = length wl1 + card (set (upstreams body k) - C1)"
    using push_new_eq[of "upstreams body k" C1 wl1 C2 wl2] 2 by auto
  have sub: "set (upstreams regs k) \<subseteq> ?U" "set (upstreams body k) \<subseteq> ?U"
    using upstreams_subset[of regs k] upstreams_subset[of body k] by (auto simp: requires_universe_def)
  have "card (?U - C) = card (?U - C1) + card (set (upstreams regs k) - C)"
  proof -
    have "?U - C = (?U - C1) \<union> (set (upstreams regs k) - C)" using 1 sub by auto
    then show ?thesis using 1 fin by (simp add: card_Un_disjoint disjoint_iff)
  qed
  moreover have "card (?U - C1) = card (?U - C2) + card (set (upstreams body k) - C1)"
  proof -
    have "?U - C1 = (?U - C2) \<union> (set (upstreams body k) - C1)" using 3 sub by auto
    then show ?thesis using 3 fin by (simp add: card_Un_disjoint disjoint_iff)
  qed
  ultimately show ?case using 1 3 by simp
qed

text \<open>The seed loop, and the worklist popped from its end.\<close>

definition seed_list :: "captured_unit list \<Rightarrow> str list" where
  "seed_list units = concat (map u_probes (filter (\<lambda>u. \<not> is_probe_unit u) units))"

definition compute_consumed_probe_keys :: "captured_unit list \<Rightarrow> probe_unit list \<Rightarrow> str set" where
  "compute_consumed_probe_keys units probes =
     (let consumed = set (seed_list units) in
      demand_loop (probe_requires probes) (body_requires units)
        (rev (sorted_list_of_set consumed)) consumed)"

fun dedup_from :: "(nat \<times> edge_provenance) set \<Rightarrow> (nat \<times> edge_provenance) list
    \<Rightarrow> (nat \<times> edge_provenance) list" where
  "dedup_from seen [] = []"
| "dedup_from seen (p # ps) =
     (if p \<in> seen then dedup_from seen ps else p # dedup_from (insert p seen) ps)"

definition dedup_pairs :: "(nat \<times> edge_provenance) list \<Rightarrow> (nat \<times> edge_provenance) list" where
  "dedup_pairs deps = dedup_from {} deps"

lemma dedup_from_set: "set (dedup_from seen ps) = set ps - seen"
  by (induction seen ps rule: dedup_from.induct) auto

lemma dedup_pairs_set [simp]: "set (dedup_pairs ps) = set ps"
  by (simp add: dedup_pairs_def dedup_from_set)

lemma dedup_from_distinct: "distinct (dedup_from seen ps)"
  by (induction seen ps rule: dedup_from.induct) (auto simp: dedup_from_set)

lemma dedup_pairs_distinct [simp]: "distinct (dedup_pairs ps)"
  by (simp add: dedup_pairs_def dedup_from_distinct)

section \<open>What the demand closure computes\<close>

definition demand_edge :: "(str \<times> str list) list \<Rightarrow> (str \<times> str list) list \<Rightarrow> (str \<times> str) set" where
  "demand_edge regs body = {(k, u). u \<in> set (upstreams regs k) \<or> u \<in> set (upstreams body k)}"

lemma demand_loop_closed:
  assumes "set wl \<subseteq> C" and "demand_edge regs body `` (C - set wl) \<subseteq> C"
  shows "demand_loop regs body wl C = (demand_edge regs body)\<^sup>* `` C"
  using assms
proof (induction regs body wl C rule: demand_loop.induct)
  case (1 regs body C)
  then show ?case by (simp add: Image_closed_trancl)
next
  case (2 regs body k wl C)
  let ?E = "demand_edge regs body"
  obtain C1 wl1 where p1: "push_new (upstreams regs k) C wl = (C1, wl1)" by fastforce
  obtain C2 wl2 where p2: "push_new (upstreams body k) C1 wl1 = (C2, wl2)" by fastforce
  have C2: "C2 = C \<union> ?E `` {k}" and wl2: "set wl2 = set wl \<union> (?E `` {k} - C)"
    using push_new_eq[OF p1] push_new_eq[OF p2] by (auto simp: demand_edge_def)
  have k: "k \<in> C" "set wl \<subseteq> C" using 2(2) by simp_all
  have "set wl2 \<subseteq> C2" using C2 wl2 k by auto
  moreover have "?E `` (C2 - set wl2) \<subseteq> C2"
  proof clarify
    fix a b assume b: "(a, b) \<in> ?E" "a \<in> C2" "a \<notin> set wl2"
    then have "a \<in> C" "a \<notin> set wl" using C2 wl2 by auto
    then show "b \<in> C2" using b(1) 2(3) C2 by (cases "a = k") auto
  qed
  ultimately have "demand_loop regs body wl2 C2 = ?E\<^sup>* `` C2"
    using "2.IH"[OF p1[symmetric] refl p2[symmetric] refl] by blast
  moreover have "?E\<^sup>* `` C2 = ?E\<^sup>* `` C"
  proof
    show "?E\<^sup>* `` C \<subseteq> ?E\<^sup>* `` C2" using C2 by auto
    show "?E\<^sup>* `` C2 \<subseteq> ?E\<^sup>* `` C"
      using C2 k(1) by (auto intro: converse_rtrancl_into_rtrancl)
  qed
  ultimately show ?case using p1 p2 by simp
qed

section \<open>What an after entry names\<close>

text \<open>The units declaring an output, in index order, once per declaration.\<close>

definition declarers :: "captured_unit list \<Rightarrow> str \<Rightarrow> nat list" where
  "declarers units key =
     concat (map (\<lambda>i. map (\<lambda>out. i) (filter (\<lambda>out. strip_dot_slash out = key) (output_paths (units ! i))))
       [0..<length units])"

definition as_entry :: "nat list \<Rightarrow> nat list option" where
  "as_entry is = (if is = [] then None else Some is)"

lemma add_producers_fold:
  "m key = as_entry js \<Longrightarrow>
   fold (add_producer i) outs m key
     = as_entry (js @ map (\<lambda>out. i) (filter (\<lambda>out. strip_dot_slash out = key) outs))"
proof (induction outs arbitrary: m js)
  case Nil
  then show ?case by simp
next
  case (Cons out outs)
  show ?case
  proof (cases "strip_dot_slash out = key")
    case True
    then have "add_producer i out m key = as_entry (js @ [i])"
      using Cons.prems by (auto simp: add_producer_def as_entry_def)
    then show ?thesis using Cons.IH[of "add_producer i out m" "js @ [i]"] True by simp
  next
    case False
    then have "add_producer i out m key = as_entry js"
      using Cons.prems by (simp add: add_producer_def Let_def)
    then show ?thesis using Cons.IH[of "add_producer i out m" js] False by simp
  qed
qed

lemma producers_by_output_eq: "producers_by_output units key = as_entry (declarers units key)"
proof -
  have "m key = as_entry js \<Longrightarrow>
      fold (\<lambda>idx. fold (add_producer idx) (output_paths (units ! idx))) is m key
        = as_entry (js @ concat (map (\<lambda>i. map (\<lambda>out. i)
            (filter (\<lambda>out. strip_dot_slash out = key) (output_paths (units ! i)))) is))" for m js "is"
  proof (induction "is" arbitrary: m js)
    case Nil
    then show ?case by simp
  next
    case (Cons i "is")
    let ?out = "output_paths (units ! i)"
    have "fold (add_producer i) ?out m key
        = as_entry (js @ map (\<lambda>out. i) (filter (\<lambda>out. strip_dot_slash out = key) ?out))"
      by (rule add_producers_fold) (rule Cons.prems)
    then show ?case
      using Cons.IH[where m = "fold (add_producer i) ?out m"
          and js = "js @ map (\<lambda>out. i) (filter (\<lambda>out. strip_dot_slash out = key) ?out)"] by simp
  qed
  from this[of Map.empty "[]" "[0..<length units]"] show ?thesis
    by (simp add: producers_by_output_def declarers_def as_entry_def)
qed

definition after_target :: "captured_unit list \<Rightarrow> nat \<Rightarrow> str \<Rightarrow> after_error + nat" where
  "after_target units i path =
     (case declarers units (strip_dot_slash path) of
        [] \<Rightarrow> Inl (NotDeclared (unit_label units i) path)
      | [p] \<Rightarrow> if i \<le> p then Inl (RegisteredLater (unit_label units i) path (unit_label units p)) else Inr p
      | ps \<Rightarrow> Inl (Ambiguous (unit_label units i) path (map (unit_label units) ps)))"

lemma resolve_entry_eq:
  "resolve_entry units (producers_by_output units) i path here
     = bind_res (after_target units i path) (\<lambda>p. Inr (here @ [p]))"
  by (auto simp: resolve_entry_def after_target_def producers_by_output_eq as_entry_def split: list.split)

lemma map_res_Nil_all: "(\<And>x. x \<in> set xs \<Longrightarrow> g x = Inr c) \<Longrightarrow> map_res g xs = Inr (replicate (length xs) c)"
  by (induction xs) simp_all

lemma resolve_after_eq:
  "resolve_after units
     = map_res (\<lambda>i. map_res (after_target units i) (u_after (units ! i))) [0..<length units]"
proof (cases "list_all (\<lambda>u. u_after u = []) units")
  case True
  then have "map_res (\<lambda>i. map_res (after_target units i) (u_after (units ! i))) [0..<length units]
      = Inr (replicate (length [0..<length units]) [])"
    by (intro map_res_Nil_all) (auto simp: list_all_length)
  then show ?thesis using True by (simp add: resolve_after_def)
next
  case False
  have "fold_res (resolve_entry units (producers_by_output units) i) (u_after (units ! i)) []
      = map_res (after_target units i) (u_after (units ! i))" for i
    using fold_res_collect[of "after_target units i" "u_after (units ! i)" "[]"]
    by (simp add: resolve_entry_eq[abs_def] bind_res_split split: sum.split)
  then show ?thesis
    using False fold_res_collect[of "\<lambda>i. map_res (after_target units i) (u_after (units ! i))" "[0..<length units]" "[]"]
    by (simp add: resolve_after_def Let_def bind_res_split split: sum.split)
qed

lemma after_target_Inr:
  "after_target units i path = Inr p \<longleftrightarrow> declarers units (strip_dot_slash path) = [p] \<and> p < i"
  by (auto simp: after_target_def split: list.split if_splits)

lemma resolve_after_Inr:
  "resolve_after units = Inr rs \<longleftrightarrow>
     length rs = length units \<and>
     (\<forall>i < length units. list_all2 (\<lambda>path p. declarers units (strip_dot_slash path) = [p] \<and> p < i)
        (u_after (units ! i)) (rs ! i))"
  unfolding resolve_after_eq map_res_Inr by (auto simp: list_all2_conv_all_nth map_res_Inr after_target_Inr)

section \<open>The topological sort as a release rule\<close>

text \<open>The dependencies the sort keeps: reachable ones other than the name itself.\<close>

definition sort_deps :: "(str \<rightharpoonup> str list) \<Rightarrow> str list \<Rightarrow> str \<Rightarrow> str set" where
  "sort_deps edges reachable n =
     (if n \<in> set reachable then
        {d. (\<exists>ds. edges n = Some ds \<and> d \<in> set ds) \<and> d \<in> set reachable \<and> d \<noteq> n}
      else {})"

text \<open>What the building loop has recorded once it has seen the dependencies \<open>P\<close>.\<close>

definition topo_rep :: "str list \<Rightarrow> (str \<Rightarrow> str set) \<Rightarrow> topo_state \<Rightarrow> bool" where
  "topo_rep reachable P st \<longleftrightarrow>
     (\<forall>n \<in> set reachable. t_deps st n = Some (P n) \<and> finite (P n)
        \<and> degree_of (t_degree st) n = card (P n))
     \<and> map fst (t_degree st) = reachable
     \<and> (\<forall>d. (case t_forward st d of Some s \<Rightarrow> s | None \<Rightarrow> {}) = {n \<in> set reachable. d \<in> P n})"

lemma degree_of_update: "degree_of (AList.update n k ind) m = (if m = n then k else degree_of ind m)"
  by (simp add: degree_of_def update_conv)

lemma topo_edge_rep:
  assumes R: "topo_rep reachable P st" and n: "name \<in> set reachable"
  shows "topo_rep reachable (P(name := P name \<union> ({d} \<inter> (set reachable - {name})))) (topo_edge reachable name d st)"
proof (cases "d \<in> set reachable \<and> d \<noteq> name \<and> d \<notin> the (t_deps st name)")
  case True
  have P: "t_deps st name = Some (P name)" "finite (P name)" "degree_of (t_degree st) name = card (P name)"
    using R n by (auto simp: topo_rep_def)
  have eq: "P name \<union> ({d} \<inter> (set reachable - {name})) = insert d (P name)" using True by auto
  have fst: "map fst (AList.update name k (t_degree st)) = reachable" for k
    using R n by (simp add: topo_rep_def update_keys)
  show ?thesis
    unfolding eq topo_rep_def
  proof (intro conjI ballI allI)
    fix m assume m: "m \<in> set reachable"
    show "t_deps (topo_edge reachable name d st) m = Some ((P(name := insert d (P name))) m)"
      and "finite ((P(name := insert d (P name))) m)"
      and "degree_of (t_degree (topo_edge reachable name d st)) m = card ((P(name := insert d (P name))) m)"
      using True P R m by (auto simp: topo_edge_def degree_of_update topo_rep_def)
  next
    show "map fst (t_degree (topo_edge reachable name d st)) = reachable"
      using True fst by (simp add: topo_edge_def)
  next
    fix d'
    show "(case t_forward (topo_edge reachable name d st) d' of Some s \<Rightarrow> s | None \<Rightarrow> {})
        = {m \<in> set reachable. d' \<in> (P(name := insert d (P name))) m}"
      using True R n by (cases "d' = d") (auto simp: topo_edge_def topo_rep_def)
  qed
next
  case False
  have "the (t_deps st name) = P name" using R n by (auto simp: topo_rep_def)
  then have "P name \<union> ({d} \<inter> (set reachable - {name})) = P name" using False by auto
  moreover have "topo_edge reachable name d st = st" unfolding topo_edge_def by (rule if_not_P[OF False])
  ultimately show ?thesis using R by (simp add: fun_upd_idem)
qed

lemma topo_edges_rep:
  "topo_rep reachable P st \<Longrightarrow> name \<in> set reachable \<Longrightarrow>
   topo_rep reachable (P(name := P name \<union> (set ds \<inter> (set reachable - {name})))) (fold (topo_edge reachable name) ds st)"
proof (induction ds arbitrary: P st)
  case Nil
  then show ?case by (simp add: fun_upd_idem)
next
  case (Cons d ds)
  let ?P = "P(name := P name \<union> ({d} \<inter> (set reachable - {name})))"
  have un: "P name \<union> {d} \<inter> (set reachable - {name}) \<union> set ds \<inter> (set reachable - {name})
      = P name \<union> set (d # ds) \<inter> (set reachable - {name})"
    by auto
  have eq: "?P(name := ?P name \<union> (set ds \<inter> (set reachable - {name})))
      = P(name := P name \<union> (set (d # ds) \<inter> (set reachable - {name})))"
    unfolding fun_upd_upd fun_upd_same un by (rule refl)
  have "topo_rep reachable (?P(name := ?P name \<union> (set ds \<inter> (set reachable - {name}))))
      (fold (topo_edge reachable name) ds (topo_edge reachable name d st))"
    by (rule Cons.IH[OF topo_edge_rep[OF Cons.prems] Cons.prems(2)])
  then show ?case unfolding eq fold_simps .
qed

lemma topo_init_rep: "distinct reachable \<Longrightarrow> topo_rep reachable (\<lambda>_. {}) (topo_init reachable)"
proof -
  assume "distinct reachable"
  moreover have "degree_of (map (\<lambda>n. (n, 0)) reachable) n = 0" for n
    by (induction reachable) (auto simp: degree_of_def)
  ultimately show ?thesis
    by (auto simp: topo_rep_def topo_init_def comp_def map_of_map_restrict)
qed

lemma topo_build_rep:
  assumes "distinct reachable"
  shows "topo_rep reachable (sort_deps edges reachable) (topo_build edges reachable)"
proof -
  let ?ds = "\<lambda>name. case edges name of Some ds \<Rightarrow> ds | None \<Rightarrow> []"
  have "topo_rep reachable P st \<Longrightarrow> set ns \<subseteq> set reachable \<Longrightarrow>
      topo_rep reachable (\<lambda>n. if n \<in> set ns then P n \<union> (set (?ds n) \<inter> (set reachable - {n})) else P n)
        (fold (\<lambda>name. fold (topo_edge reachable name) (?ds name)) ns st)" for P st ns
  proof (induction ns arbitrary: P st)
    case Nil
    then show ?case by simp
  next
    case (Cons n ns)
    let ?P = "P(n := P n \<union> (set (?ds n) \<inter> (set reachable - {n})))"
    have r: "topo_rep reachable ?P (fold (topo_edge reachable n) (?ds n) st)"
      using Cons.prems by (intro topo_edges_rep) auto
    have "(\<lambda>m. if m \<in> set ns then ?P m \<union> (set (?ds m) \<inter> (set reachable - {m})) else ?P m)
        = (\<lambda>m. if m \<in> set (n # ns) then P m \<union> (set (?ds m) \<inter> (set reachable - {m})) else P m)"
      by (auto simp: fun_eq_iff)
    then show ?case using Cons.IH[OF r] Cons.prems by simp
  qed
  from this[OF topo_init_rep[OF assms], of reachable]
  have "topo_rep reachable (\<lambda>n. if n \<in> set reachable then {} \<union> (set (?ds n) \<inter> (set reachable - {n})) else {})
      (topo_build edges reachable)"
    by (simp add: topo_build_def)
  moreover have "(\<lambda>n. if n \<in> set reachable then {} \<union> (set (?ds n) \<inter> (set reachable - {n})) else {})
      = sort_deps edges reachable"
  proof (rule ext)
    fix n
    show "(if n \<in> set reachable then {} \<union> (set (?ds n) \<inter> (set reachable - {n})) else {})
        = sort_deps edges reachable n"
      by (cases "edges n") (auto simp: sort_deps_def)
  qed
  ultimately show ?thesis by simp
qed

text \<open>One release, given that every dependent still has something to lose.\<close>

lemma topo_release_eq:
  assumes "distinct ns" and "\<forall>n \<in> set ns. n \<in> fst ` set ind \<and> 0 < degree_of ind n"
  shows "\<exists>ind'. topo_release ns ind q = Some (ind', q @ filter (\<lambda>n. degree_of ind n = 1) ns)
     \<and> map fst ind' = map fst ind
     \<and> (\<forall>m. degree_of ind' m = degree_of ind m - (if m \<in> set ns then 1 else 0))"
  using assms
proof (induction ns arbitrary: ind q)
  case Nil
  then show ?case by simp
next
  case (Cons n ns)
  obtain deg where deg: "map_of ind n = Some (Suc deg)"
  proof -
    have "n \<in> fst ` set ind" "0 < degree_of ind n" using Cons.prems(2) by auto
    then show ?thesis
      using that by (cases "map_of ind n") (auto simp: degree_of_def map_of_eq_None_iff gr0_conv_Suc)
  qed
  let ?ind = "AList.update n deg ind"
  have keys: "map fst ?ind = map fst ind"
    using Cons.prems(2) by (simp add: update_keys)
  then have keyset: "fst ` set ?ind = fst ` set ind" by (metis list.set_map)
  have "\<forall>m \<in> set ns. m \<in> fst ` set ?ind \<and> 0 < degree_of ?ind m"
    using Cons.prems keyset by (auto simp: degree_of_update)
  then obtain ind' where ind': "topo_release ns ?ind (if deg = 0 then q @ [n] else q)
      = Some (ind', (if deg = 0 then q @ [n] else q) @ filter (\<lambda>n. degree_of ?ind n = 1) ns)"
    "map fst ind' = map fst ?ind"
    "\<forall>m. degree_of ind' m = degree_of ?ind m - (if m \<in> set ns then 1 else 0)"
    using Cons.IH[of ?ind "if deg = 0 then q @ [n] else q"] Cons.prems(1) by auto
  have "filter (\<lambda>m. degree_of ?ind m = 1) ns = filter (\<lambda>m. degree_of ind m = 1) ns"
    using Cons.prems(1) by (intro filter_cong) (auto simp: degree_of_update)
  moreover have d: "degree_of ind n = Suc deg" using deg by (simp add: degree_of_def)
  moreover have "degree_of ind' m = degree_of ind m - (if m \<in> set (n # ns) then 1 else 0)" for m
    using ind'(3) Cons.prems(1) d by (auto simp: degree_of_update)
  ultimately show ?case using ind' deg keys by auto
qed

text \<open>
  The sort's state is its counters and the order so far. Its invariant ties each counter to the
  dependencies not yet in the order, and the reverse map to the dependencies.
\<close>

definition topo_inv :: "str list \<Rightarrow> (str \<Rightarrow> str set) \<Rightarrow> (str \<Rightarrow> str list) \<Rightarrow> (str \<times> nat) list \<times> str list \<Rightarrow> bool" where
  "topo_inv reachable D fwd s \<longleftrightarrow>
     distinct reachable \<and> map fst (fst s) = reachable
     \<and> (\<forall>n. finite (D n) \<and> n \<notin> D n \<and> D n \<subseteq> set reachable)
     \<and> (\<forall>d. distinct (fwd d) \<and> set (fwd d) = {n \<in> set reachable. d \<in> D n})
     \<and> (\<forall>n \<in> set reachable. degree_of (fst s) n = card (D n - set (snd s)))
     \<and> set (snd s) \<subseteq> set reachable"

definition topo_finish :: "(str \<Rightarrow> str list) \<Rightarrow> str \<Rightarrow> (str \<times> nat) list \<times> str list
    \<Rightarrow> (((str \<times> nat) list \<times> str list) \<times> str list) option" where
  "topo_finish fwd n s =
     map_option (\<lambda>(ind, new). ((ind, snd s @ [n]), new)) (topo_release (fwd n) (fst s) [])"

definition topo_zero :: "(str \<times> nat) list \<times> str list \<Rightarrow> str list" where
  "topo_zero s = map fst (filter (\<lambda>(n, deg). deg = 0) (fst s))"

lemma card_Diff_zero: "finite A \<Longrightarrow> card (A - B) = 0 \<longleftrightarrow> A \<subseteq> B"
  by (simp add: card_eq_0_iff Diff_eq_empty_iff)

lemma topo_zero_set:
  assumes "topo_inv reachable D fwd s"
  shows "distinct (topo_zero s)" and "set (topo_zero s) = {n \<in> set reachable. D n \<subseteq> set (snd s)}"
proof -
  have k: "map fst (fst s) = reachable" "distinct reachable" using assms by (auto simp: topo_inv_def)
  show "distinct (topo_zero s)"
    using k by (metis (no_types, lifting) distinct_map_filter topo_zero_def)
  have keys: "fst ` set (fst s) = set reachable" using k(1) by (metis list.set_map)
  have "n \<in> set (topo_zero s) \<longleftrightarrow> n \<in> set reachable \<and> degree_of (fst s) n = 0" for n
  proof -
    have "n \<in> set (topo_zero s) \<longleftrightarrow> (n, 0) \<in> set (fst s)" by (force simp: topo_zero_def)
    also have "\<dots> \<longleftrightarrow> map_of (fst s) n = Some 0" using k by (simp add: map_of_eq_Some_iff)
    also have "\<dots> \<longleftrightarrow> n \<in> set reachable \<and> degree_of (fst s) n = 0"
      using keys map_of_eq_None_iff[of "fst s" n] by (cases "map_of (fst s) n") (simp_all add: degree_of_def)
    finally show ?thesis .
  qed
  then have mem: "n \<in> set (topo_zero s) \<longleftrightarrow> n \<in> set reachable \<and> degree_of (fst s) n = 0" for n .
  have "degree_of (fst s) n = 0 \<longleftrightarrow> D n \<subseteq> set (snd s)" if "n \<in> set reachable" for n
  proof -
    have "degree_of (fst s) n = card (D n - set (snd s))" "finite (D n)"
      using assms that by (simp_all add: topo_inv_def)
    then show ?thesis by (simp add: card_Diff_zero)
  qed
  then show "set (topo_zero s) = {n \<in> set reachable. D n \<subseteq> set (snd s)}"
    using mem by blast
qed

lemma topo_finish_step:
  assumes I: "topo_inv reachable D fwd s" and n: "n \<in> set reachable" "n \<notin> set (snd s)" "D n \<subseteq> set (snd s)"
  shows "\<exists>ind new. topo_finish fwd n s = Some ((ind, snd s @ [n]), new)
     \<and> topo_inv reachable D fwd (ind, snd s @ [n]) \<and> distinct new
     \<and> set new = {j \<in> set reachable. n \<in> D j \<and> D j \<subseteq> insert n (set (snd s))}"
proof -
  have fin: "finite (D m)" for m using I by (simp add: topo_inv_def)
  have deg: "degree_of (fst s) m = card (D m - set (snd s))" if "m \<in> set reachable" for m
    using I that by (simp add: topo_inv_def)
  have fwd: "distinct (fwd n)" "set (fwd n) = {m \<in> set reachable. n \<in> D m}"
    using I by (simp_all add: topo_inv_def)
  have keys: "fst ` set (fst s) = set reachable"
    using I by (metis list.set_map topo_inv_def)
  have pos: "0 < card (D m - set (snd s))" if "n \<in> D m" for m
    using that n(2) fin by (auto simp: card_gt_0_iff)
  obtain ind where ind: "topo_release (fwd n) (fst s) [] = Some (ind, filter (\<lambda>m. degree_of (fst s) m = 1) (fwd n))"
    "map fst ind = map fst (fst s)"
    "\<forall>m. degree_of ind m = degree_of (fst s) m - (if m \<in> set (fwd n) then 1 else 0)"
    using topo_release_eq[OF fwd(1), of "fst s" "[]"] fwd(2) keys deg pos by auto
  have split: "D m - set (snd s) = insert n (D m - set (snd s @ [n]))" if "n \<in> D m" for m
    using that n(2) by auto
  have card_n: "card (D m - set (snd s)) = Suc (card (D m - set (snd s @ [n])))" if "n \<in> D m" for m
    using split[OF that] fin by (metis Diff_iff card_insert_disjoint finite_Diff in_set_conv_decomp)
  have nothing: "D m - set (snd s @ [n]) = D m - set (snd s)" if "n \<notin> D m" for m
    using that by auto
  have "topo_inv reachable D fwd (ind, snd s @ [n])"
    using I ind n(1) fwd(2) card_n nothing deg by (auto simp: topo_inv_def)
  moreover have "degree_of (fst s) m = 1 \<longleftrightarrow> D m \<subseteq> insert n (set (snd s))" if m: "m \<in> set reachable" "n \<in> D m" for m
  proof -
    have "degree_of (fst s) m = 1 \<longleftrightarrow> card (D m - set (snd s @ [n])) = 0"
      using deg[OF m(1)] card_n[OF m(2)] by simp
    then show ?thesis using fin by (simp add: card_Diff_zero)
  qed
  then have "set (filter (\<lambda>m. degree_of (fst s) m = 1) (fwd n))
      = {j \<in> set reachable. n \<in> D j \<and> D j \<subseteq> insert n (set (snd s))}"
    using fwd(2) by auto
  ultimately show ?thesis
    using ind(1) fwd(1) by (auto simp: topo_finish_def)
qed

interpretation topo_sched: release_rule "topo_inv reachable D fwd" "\<lambda>s. set reachable" "\<lambda>s. D"
  "\<lambda>s. set (snd s)" "topo_finish fwd" topo_zero for reachable D fwd
proof (unfold_locales, goal_cases)
  case (1 s i)
  then show ?case by (simp add: topo_inv_def)
next
  case (2 s i)
  then show ?case by (simp add: topo_inv_def)
next
  case (3 s)
  then show ?case by (rule topo_zero_set(1))
next
  case (4 s)
  then show ?case by (rule topo_zero_set(2))
next
  case (5 s i)
  obtain ind new where "topo_finish fwd i s = Some ((ind, snd s @ [i]), new)"
    "topo_inv reachable D fwd (ind, snd s @ [i])" "distinct new"
    "set new = {j \<in> set reachable. i \<in> D j \<and> D j \<subseteq> insert i (set (snd s))}"
    using topo_finish_step[OF 5] by blast
  then show ?case by (intro exI[of _ "(ind, snd s @ [i])"] exI[of _ new]) auto
qed

lemma topo_release_queue:
  "topo_release ns ind (q @ r) = map_option (\<lambda>(ind', new). (ind', q @ new)) (topo_release ns ind r)"
proof (induction ns ind r rule: topo_release.induct)
  case (1 ind queue)
  then show ?case by simp
next
  case (2 n ns ind queue)
  show ?case
  proof (cases "map_of ind n")
    case None
    then show ?thesis by simp
  next
    case (Some d)
    then show ?thesis using 2 by (cases d) auto
  qed
qed

text \<open>The loop is a dispatcher over its release rule, taking the front of its queue.\<close>

lemma topo_loop_dispatched:
  assumes "dispatched (topo_finish fwd) s0 (topo_zero s0) (ind, order) queue order"
    and "topo_inv reachable D fwd s0" and "snd s0 = []"
  shows "\<exists>ind' order'. topo_loop fwd queue ind order = Some (ind', order')
     \<and> dispatched (topo_finish fwd) s0 (topo_zero s0) (ind', order') [] order'"
  using assms
proof (induction fwd queue ind order rule: topo_loop.induct)
  case (1 fwd ind order)
  then show ?case by auto
next
  case (2 fwd n queue ind order)
  have I: "topo_sched.dispatch_inv reachable D fwd s0 (ind, order) (n # queue) order"
    using topo_sched.dispatched_inv[OF 2(2,3)] 2(4) by simp
  obtain s' new where s': "topo_finish fwd n (ind, order) = Some (s', new)"
    using topo_sched.dispatch_continues[OF I, of n] by auto
  then obtain ind' where r: "topo_release (fwd n) ind [] = Some (ind', new)" "s' = (ind', order @ [n])"
    by (auto simp: topo_finish_def)
  then have rel: "topo_release (fwd n) ind queue = Some (ind', queue @ new)"
    using topo_release_queue[of "fwd n" ind queue "[]"] by simp
  have "dispatched (topo_finish fwd) s0 (topo_zero s0) (ind', order @ [n]) (queue @ new) (order @ [n])"
    using dispatch_finish[OF 2(2) _ s'] r(2) by simp
  then show ?case
    using 2(1)[OF rel refl] 2(3,4) rel by simp
qed

text \<open>What the sort returns, in one place.\<close>

lemma toposort_result:
  assumes reach: "sorted_wrt (<) reachable"
  obtains order where
    "toposort_recipes edges reachable =
       (if length order \<noteq> length reachable
        then Inl (Failed (Cycle (filter (\<lambda>n. n \<notin> set order) reachable)))
        else Inr order)"
    and "distinct order" and "set order \<subseteq> set reachable"
    and "\<forall>k < length order. sort_deps edges reachable (order ! k) \<subseteq> set (take k order)"
    and "\<forall>n \<in> set reachable - set order. \<exists>p \<in> set reachable - set order. p \<in> sort_deps edges reachable n"
proof -
  let ?D = "sort_deps edges reachable"
  let ?st = "topo_build edges reachable"
  let ?fwd = "forward_of ?st"
  let ?s0 = "(t_degree ?st, []) :: (str \<times> nat) list \<times> str list"
  have dist: "distinct reachable" using reach by (simp add: strict_sorted_iff)
  have rep: "topo_rep reachable ?D ?st" by (rule topo_build_rep[OF dist])
  have D: "finite (?D n)" "n \<notin> ?D n" "?D n \<subseteq> set reachable" for n
    by (auto simp: sort_deps_def intro: finite_subset[of _ "set reachable"])
  have fwd: "distinct (?fwd d) \<and> set (?fwd d) = {n \<in> set reachable. d \<in> ?D n}" for d
  proof -
    have e: "(case t_forward ?st d of Some s \<Rightarrow> s | None \<Rightarrow> {}) = {n \<in> set reachable. d \<in> ?D n}"
      using rep by (simp add: topo_rep_def)
    then have "finite (case t_forward ?st d of Some s \<Rightarrow> s | None \<Rightarrow> {})" by simp
    then show ?thesis
      using e by (cases "t_forward ?st d") (auto simp: forward_of_def)
  qed
  have "topo_inv reachable ?D ?fwd ?s0"
    unfolding topo_inv_def using rep dist D fwd by (simp add: topo_rep_def)
  moreover have "dispatched (topo_finish ?fwd) ?s0 (topo_zero ?s0) (t_degree ?st, []) (topo_zero ?s0) []"
    by (rule dispatch_start)
  ultimately obtain ind order where loop: "topo_loop ?fwd (topo_zero ?s0) (t_degree ?st) [] = Some (ind, order)"
    and run: "dispatched (topo_finish ?fwd) ?s0 (topo_zero ?s0) (ind, order) [] order"
    and inv0: "topo_inv reachable ?D ?fwd ?s0"
    using topo_loop_dispatched[of ?fwd ?s0 "t_degree ?st" "[]" "topo_zero ?s0" reachable ?D] by auto
  have I: "topo_sched.dispatch_inv reachable ?D ?fwd ?s0 (ind, order) [] order"
    using topo_sched.dispatched_inv[OF run inv0] by simp
  have inv: "topo_inv reachable ?D ?fwd (ind, order)"
    using I by (simp add: topo_sched.dispatch_inv_def)
  have settled: "?D n \<subseteq> set order" if n: "n \<in> set order" for n
  proof -
    obtain k where k: "k < length order" "order ! k = n" using n by (auto simp: in_set_conv_nth)
    have "\<forall>k < length order. ?D (order ! k) \<subseteq> set (take k order)"
      using I by (simp add: topo_sched.dispatch_inv_def)
    then have "?D n \<subseteq> set (take k order)" using k by blast
    then show ?thesis using set_take_subset[of k order] by blast
  qed
  have ready: "{n \<in> set reachable. n \<notin> set order \<and> ?D n \<subseteq> set order} = {}"
    using I by (simp add: topo_sched.dispatch_inv_def)
  have "degree_of ind n = 0 \<longleftrightarrow> n \<in> set order" if n: "n \<in> set reachable" for n
  proof -
    have "degree_of ind n = card (?D n - set order)" using inv n by (simp add: topo_inv_def)
    then have "degree_of ind n = 0 \<longleftrightarrow> ?D n \<subseteq> set order" using D(1) by (simp add: card_Diff_zero)
    then show ?thesis using settled ready n by blast
  qed
  moreover have keys: "map fst ind = reachable" using inv by (simp add: topo_inv_def)
  ultimately have unres: "map fst (filter (\<lambda>(n, d). 0 < d) ind) = filter (\<lambda>n. n \<notin> set order) reachable"
  proof -
    assume a: "\<And>n. n \<in> set reachable \<Longrightarrow> (degree_of ind n = 0) = (n \<in> set order)"
    have "filter (\<lambda>(n, d). 0 < d) ind = filter (\<lambda>p. fst p \<notin> set order) ind"
    proof (rule filter_cong[OF refl])
      fix p assume p: "p \<in> set ind"
      have "map_of ind (fst p) = Some (snd p)"
        using p keys dist by (simp add: map_of_is_SomeI)
      then have "degree_of ind (fst p) = snd p" by (simp add: degree_of_def)
      moreover have "fst p \<in> set reachable" using p keys by (metis image_eqI list.set_map)
      ultimately show "(case p of (n, d) \<Rightarrow> 0 < d) = (fst p \<notin> set order)"
        using a[of "fst p"] by (auto simp: case_prod_beta)
    qed
    then show ?thesis by (simp add: filter_map comp_def flip: keys)
  qed
  have "topo_zero ?s0 = map fst (filter (\<lambda>(n, deg). deg = 0) (t_degree ?st))"
    by (simp add: topo_zero_def)
  then have "toposort_recipes edges reachable =
       (if length order \<noteq> length reachable
        then Inl (Failed (Cycle (filter (\<lambda>n. n \<notin> set order) reachable))) else Inr order)"
    using loop unres by (simp add: toposort_recipes_def Let_def)
  moreover have "\<forall>n \<in> set reachable - set order. \<exists>p \<in> set reachable - set order. p \<in> ?D n"
    using topo_sched.dispatch_stuck[OF I] by blast
  ultimately show ?thesis
    using that I by (simp add: topo_sched.dispatch_inv_def)
qed

lemma order_acyclic:
  assumes "distinct order" and "\<forall>k < length order. D (order ! k) \<subseteq> set (take k order)"
  shows "acyclic {(d, n). n \<in> set order \<and> d \<in> D n}"
proof -
  let ?r = "{(d, n). n \<in> set order \<and> d \<in> D n}"
  have before: "\<exists>j < k. order ! j = d" if "k < length order" "d \<in> D (order ! k)" for k d
  proof -
    have "d \<in> set (take k order)" using assms(2) that by blast
    then obtain j where "j < length (take k order)" "take k order ! j = d" by (metis in_set_conv_nth)
    then show ?thesis by (intro exI[of _ j]) simp
  qed
  have "(d, n) \<in> ?r\<^sup>+ \<Longrightarrow> \<forall>k < length order. order ! k = n \<longrightarrow> (\<exists>j < k. order ! j = d)" for d n
  proof (induction rule: trancl_induct)
    case (base y)
    then show ?case using before by auto
  next
    case (step y z)
    show ?case
    proof (intro allI impI)
      fix k assume k: "k < length order" "order ! k = z"
      then obtain j where j: "j < k" "order ! j = y" using before step(2) by auto
      then have "j < length order" using k by simp
      then obtain i where "i < j" "order ! i = d" using step.IH j(2) by blast
      then show "\<exists>i < k. order ! i = d" using j(1) by (intro exI[of _ i]) simp
    qed
  qed
  then have "(n, n) \<notin> ?r\<^sup>+" for n
  proof -
    assume a: "\<And>d n. (d, n) \<in> ?r\<^sup>+ \<Longrightarrow> \<forall>k < length order. order ! k = n \<longrightarrow> (\<exists>j < k. order ! j = d)"
    show ?thesis
    proof
      assume c: "(n, n) \<in> ?r\<^sup>+"
      then have "n \<in> set order" by (metis (mono_tags, lifting) case_prodD mem_Collect_eq tranclD2)
      then obtain k where k: "k < length order" "order ! k = n" by (metis in_set_conv_nth)
      then obtain j where "j < k" "order ! j = n" using a[OF c] by blast
      then show False using k assms(1) by (metis less_irrefl nth_eq_iff_index_eq order.strict_trans)
    qed
  qed
  then show ?thesis by (simp add: acyclic_def)
qed

lemma stuck_cyclic:
  assumes "finite S" and "S \<noteq> {}" and "\<forall>n \<in> S. \<exists>p \<in> S. (p, n) \<in> r"
  shows "\<not> acyclic r"
proof
  assume "acyclic r"
  then have "acyclic (r \<inter> S \<times> S)" by (rule acyclic_subset) auto
  moreover have "finite (r \<inter> S \<times> S)" using assms(1) by simp
  ultimately have "wf (r \<inter> S \<times> S)" by (rule finite_acyclic_wf[rotated])
  then obtain n where "n \<in> S" "\<forall>p. (p, n) \<in> r \<inter> S \<times> S \<longrightarrow> p \<notin> S"
    using assms(2) by (metis ex_in_conv wfE_min)
  then show False using assms(3) by blast
qed

section \<open>Properties\<close>

text \<open>
  C32: \<open>toposort_recipes\<close> never panics and decides whether the recipe graph is cyclic. On success the
  order is a permutation of the reachable recipes in which every recipe comes after all the recipes
  it depends on; it fails exactly when the dependency relation has a cycle, and then it names, in
  name order, a non-empty set of recipes each of which depends on another of the set.
\<close>

theorem toposort_recipes_correct:
  assumes "sorted_wrt (<) reachable"
  shows "case toposort_recipes edges reachable of
      Inr order \<Rightarrow> distinct order \<and> set order = set reachable
        \<and> (\<forall>k < length order. sort_deps edges reachable (order ! k) \<subseteq> set (take k order))
        \<and> acyclic {(d, n). d \<in> sort_deps edges reachable n}
    | Inl (Failed (Cycle unresolved)) \<Rightarrow>
        unresolved \<noteq> [] \<and> sorted_wrt (<) unresolved \<and> set unresolved \<subseteq> set reachable
        \<and> (\<forall>n \<in> set unresolved. \<exists>p \<in> set unresolved. p \<in> sort_deps edges reachable n)
        \<and> \<not> acyclic {(d, n). d \<in> sort_deps edges reachable n}
    | _ \<Rightarrow> False"
proof -
  let ?D = "sort_deps edges reachable"
  obtain order where res: "toposort_recipes edges reachable =
       (if length order \<noteq> length reachable
        then Inl (Failed (Cycle (filter (\<lambda>n. n \<notin> set order) reachable))) else Inr order)"
    and o: "distinct order" "set order \<subseteq> set reachable"
      "\<forall>k < length order. ?D (order ! k) \<subseteq> set (take k order)"
    and stuck: "\<forall>n \<in> set reachable - set order. \<exists>p \<in> set reachable - set order. p \<in> ?D n"
    by (rule toposort_result[OF assms, of edges]) (rule that)
  have dist: "distinct reachable" using assms by (simp add: strict_sorted_iff)
  show ?thesis
  proof (cases "length order = length reachable")
    case True
    then have eq: "set order = set reachable"
      using o(1,2) dist by (metis card_subset_eq distinct_card finite_set)
    have "{(d, n). n \<in> set order \<and> d \<in> ?D n} = {(d, n). d \<in> ?D n}"
      using eq by (auto simp: sort_deps_def split: if_splits)
    then have "acyclic {(d, n). d \<in> ?D n}" using order_acyclic[OF o(1,3)] by simp
    then show ?thesis using res True o eq by simp
  next
    case False
    let ?u = "filter (\<lambda>n. n \<notin> set order) reachable"
    have "?u \<noteq> []"
    proof
      assume "?u = []"
      then have "set order = set reachable" using o(2) by (auto simp: filter_empty_conv)
      then show False using False o(1) dist by (metis distinct_card)
    qed
    moreover have "sorted_wrt (<) ?u" using assms by (rule sorted_wrt_filter)
    moreover have "\<forall>n \<in> set ?u. \<exists>p \<in> set ?u. p \<in> ?D n" using stuck by auto
    moreover from calculation have "\<not> acyclic {(d, n). d \<in> ?D n}"
      by (intro stuck_cyclic[of "set ?u"]) auto
    ultimately show ?thesis using res False by auto
  qed
qed

lemma toposort_recipes_correct_witness:
  "sorted_wrt (<) [''app'', ''lib'', ''util'']
   \<and> toposort_recipes [''app'' \<mapsto> [''lib'', ''util''], ''lib'' \<mapsto> [''util'', ''elsewhere'']] [''app'', ''lib'', ''util'']
       = Inr [''util'', ''lib'', ''app'']
   \<and> acyclic {(d, n). d \<in> sort_deps [''app'' \<mapsto> [''lib'', ''util''], ''lib'' \<mapsto> [''util'', ''elsewhere'']]
         [''app'', ''lib'', ''util''] n}"
proof -
  have s: "sorted_wrt (<) [''app'', ''lib'', ''util'']" by code_simp
  have r: "toposort_recipes [''app'' \<mapsto> [''lib'', ''util''], ''lib'' \<mapsto> [''util'', ''elsewhere'']] [''app'', ''lib'', ''util'']
       = Inr [''util'', ''lib'', ''app'']" by code_simp
  show ?thesis
    using toposort_recipes_correct[OF s, of "[''app'' \<mapsto> [''lib'', ''util''], ''lib'' \<mapsto> [''util'', ''elsewhere'']]"] s r
    by simp
qed

lemma ex_upt:
  "(\<exists>k < length [0..<n]. P ([0..<n] ! k) \<and> (\<forall>j < k. Q ([0..<n] ! j))) \<longleftrightarrow> (\<exists>i < n. P i \<and> (\<forall>h < i. Q h))"
  by (rule ex_cong1, rule conj_cong, simp, rule conj_cong, simp, rule all_cong1, rule imp_cong, simp, simp)

text \<open>
  \<open>resolve_after\<close> succeeds exactly when every \<open>after\<close> entry names an output that exactly one unit
  declares and that unit comes strictly earlier, and then gives that unit for each entry; otherwise
  the error is the one of the first entry, unit by unit, that does not resolve: declared by nobody,
  by more than one unit, or by the unit itself or a later one.
\<close>

theorem resolve_after_correct:
  "(resolve_after units = Inr rs \<longleftrightarrow>
      length rs = length units \<and>
      (\<forall>i < length units. list_all2 (\<lambda>path p. declarers units (strip_dot_slash path) = [p] \<and> p < i)
         (u_after (units ! i)) (rs ! i)))
   \<and> (resolve_after units = Inl e \<longleftrightarrow>
      (\<exists>i < length units. \<exists>k < length (u_after (units ! i)).
         after_target units i (u_after (units ! i) ! k) = Inl e
         \<and> (\<forall>j < k. \<exists>p. after_target units i (u_after (units ! i) ! j) = Inr p)
         \<and> (\<forall>h < i. \<forall>path \<in> set (u_after (units ! h)). \<exists>p. after_target units h path = Inr p)))"
proof
  show "resolve_after units = Inr rs \<longleftrightarrow>
      length rs = length units \<and>
      (\<forall>i < length units. list_all2 (\<lambda>path p. declarers units (strip_dot_slash path) = [p] \<and> p < i)
         (u_after (units ! i)) (rs ! i))"
    by (rule resolve_after_Inr)
  have all: "(\<exists>ps. map_res g xs = Inr ps) \<longleftrightarrow> (\<forall>x \<in> set xs. \<exists>p. g x = Inr p)" for g :: "str \<Rightarrow> after_error + nat" and xs
    by (induction xs) (auto simp: bind_res_Inr_iff)
  show "resolve_after units = Inl e \<longleftrightarrow>
      (\<exists>i < length units. \<exists>k < length (u_after (units ! i)).
         after_target units i (u_after (units ! i) ! k) = Inl e
         \<and> (\<forall>j < k. \<exists>p. after_target units i (u_after (units ! i) ! j) = Inr p)
         \<and> (\<forall>h < i. \<forall>path \<in> set (u_after (units ! h)). \<exists>p. after_target units h path = Inr p))"
    unfolding resolve_after_eq map_res_Inl[of _ "[0..<length units]"] all map_res_Inl
    using ex_upt[of "length units" "\<lambda>i. \<exists>k < length (u_after (units ! i)).
        after_target units i (u_after (units ! i) ! k) = Inl e
        \<and> (\<forall>j < k. \<exists>p. after_target units i (u_after (units ! i) ! j) = Inr p)"
      "\<lambda>h. \<forall>path \<in> set (u_after (units ! h)). \<exists>p. after_target units h path = Inr p"] by simp blast
qed

lemma resolve_after_correct_witness:
  "resolve_after [shell_unit ''a'' [] [''o''] [] Sequential, shell_unit ''b'' [] [] [''./o''] Sequential]
     = Inr [[], [0]]
   \<and> resolve_after [shell_unit ''b'' [] [] [''x''] Sequential]
     = Inl (NotDeclared (unit_label [shell_unit ''b'' [] [] [''x''] Sequential] 0) ''x'')"
  using resolve_after_correct[of "[shell_unit ''a'' [] [''o''] [] Sequential, shell_unit ''b'' [] [] [''./o''] Sequential]"
      "[[], [0]]"]
    resolve_after_correct[of "[shell_unit ''b'' [] [] [''x''] Sequential]" _
      "NotDeclared (unit_label [shell_unit ''b'' [] [] [''x''] Sequential] 0) ''x''"]
  by (simp add: shell_unit_def declarers_def after_target_def strip_dot_slash_def nth_Cons'
      upt_rec)

text \<open>
  the demand closure is exact: the keys that some non-probe unit of the recipe names, and all
  that are reached from them through the requirements of registered probes and of body probes.
\<close>

theorem consumed_probe_keys_exact:
  "compute_consumed_probe_keys units probes =
     (demand_edge (probe_requires probes) (body_requires units))\<^sup>*
       `` {k. \<exists>u \<in> set units. \<not> is_probe_unit u \<and> k \<in> set (u_probes u)}"
proof -
  have "set (seed_list units) = {k. \<exists>u \<in> set units. \<not> is_probe_unit u \<and> k \<in> set (u_probes u)}"
    by (auto simp: seed_list_def)
  then show ?thesis
    using demand_loop_closed[of "rev (sorted_list_of_set (set (seed_list units)))" "set (seed_list units)"]
    by (simp add: compute_consumed_probe_keys_def Let_def)
qed

end
