(* ===== verification/Unit_Plan.thy ===== *)
theory Unit_Plan
  imports Unit_Graph
begin

text \<open>
  \<open>unit_graph::plan\<close>: which units of a topologically sorted closure become nodes and which
  dependencies each node has, with the reason of each. One group of definitions per part of the
  function: the check of the fine-grained edges, the synthesis of probe nodes, the order in which a
  recipe's units are visited, the visit of one unit, one recipe, and the whole closure. The lemmas
  show that every dependency points to an earlier node, when the walk cannot panic, that the
  synthesis loop needs no more rounds than there are keys, and where a repeated entry of a probe's
  requirements loses an ordering edge.
\<close>

text \<open>A missing list is an empty one: \<open>or\_default\<close>, and lookups that add nothing when they miss.\<close>

fun or_default :: "'a list option \<Rightarrow> 'a list" where
  "or_default None = []"
| "or_default (Some xs) = xs"

section \<open>The check of the fine-grained edges\<close>

definition dangling_dep_edge :: "recipe_units list \<Rightarrow> unit_graph_error option" where
  "dangling_dep_edge rs =
     (let known = set (map recipe_name rs);
          refs = concat (map (\<lambda>ru. map (\<lambda>(i, dep). (recipe_name ru, dep)) (dep_edges ru)) rs)
      in map_option (\<lambda>(r, dep). DanglingDepEdge r dep) (List.find (\<lambda>(r, dep). dep \<notin> known) refs))"

section \<open>Indexes of one recipe\<close>

definition probe_unit_index :: "captured_unit list \<Rightarrow> local_key \<rightharpoonup> nat" where
  "probe_unit_index units =
     last_of (List.map_filter (\<lambda>i. map_option (\<lambda>k. (k, i)) (probe_key_of (payload (units ! i)))) [0..<length units])"

definition probe_meta :: "probe_unit list \<Rightarrow> str \<rightharpoonup> probe_unit" where
  "probe_meta probes = last_of (map (\<lambda>p. (p_key p, p)) probes)"

definition skipped :: "captured_unit list \<Rightarrow> str set \<Rightarrow> nat \<Rightarrow> bool" where
  "skipped units consumed i =
     (case probe_key_of (payload (units ! i)) of Some k \<Rightarrow> k \<notin> consumed | None \<Rightarrow> False)"

definition cross_deps :: "recipe_units \<Rightarrow> (str \<rightharpoonup> nat list) \<Rightarrow> nat list" where
  "cross_deps ru leaves =
     concat (map (\<lambda>dep. or_default (leaves dep)) (r_deps ru))"

text \<open>Later entries of the step groups overwrite earlier ones.\<close>

definition unit_group_info :: "nat list list \<Rightarrow> nat \<rightharpoonup> nat \<times> nat" where
  "unit_group_info groups =
     last_of (concat (map (\<lambda>gi. map (\<lambda>pos. (groups ! gi ! pos, (gi, pos))) [0..<length (groups ! gi)])
       [0..<length groups]))"

section \<open>Synthesised probes\<close>

definition synth_keys :: "recipe_units \<Rightarrow> str set \<Rightarrow> local_key list" where
  "synth_keys ru consumed =
     filter (\<lambda>k. probe_meta (r_probes ru) k \<noteq> None)
       (filter (\<lambda>k. probe_unit_index (r_units ru) k = None) (sorted_list_of_set consumed))"

definition meta_requires :: "recipe_units \<Rightarrow> local_key \<Rightarrow> str list" where
  "meta_requires ru k =
     (case probe_meta (r_probes ru) k of Some m \<Rightarrow> in_requires (p_inputs m) | None \<Rightarrow> [])"

text \<open>The in-degrees count every entry, a repeated one too; a popped key takes one off.\<close>

definition synth_degree :: "(local_key \<Rightarrow> str list) \<Rightarrow> local_key list \<Rightarrow> local_key \<Rightarrow> nat" where
  "synth_degree reqs keys k = length (filter (\<lambda>u. u \<in> set keys) (reqs k))"

fun synth_release :: "(local_key \<Rightarrow> str list) \<Rightarrow> local_key \<Rightarrow> local_key list \<Rightarrow> (local_key \<Rightarrow> nat)
    \<Rightarrow> local_key list \<Rightarrow> (local_key \<Rightarrow> nat) \<times> local_key list" where
  "synth_release reqs k [] deg queue = (deg, queue)"
| "synth_release reqs k (other # others) deg queue =
     (if other \<noteq> k \<and> k \<in> set (reqs other) then
        (let d = deg other - 1 in
         synth_release reqs k others (deg(other := d)) (if d = 0 then queue @ [other] else queue))
      else synth_release reqs k others deg queue)"

text \<open>The loop, with fuel for as many pops as there are keys; a lemma below shows that it is enough.\<close>

fun synth_loop :: "nat \<Rightarrow> (local_key \<Rightarrow> str list) \<Rightarrow> local_key list \<Rightarrow> local_key list \<Rightarrow> (local_key \<Rightarrow> nat)
    \<Rightarrow> local_key list \<Rightarrow> local_key list \<times> local_key list" where
  "synth_loop fuel reqs keys [] deg ordered = (ordered, [])"
| "synth_loop 0 reqs keys (k # queue) deg ordered = (ordered, k # queue)"
| "synth_loop (Suc fuel) reqs keys (k # queue) deg ordered =
     (let (deg', queue') = synth_release reqs k keys deg queue
      in synth_loop fuel reqs keys queue' deg' (ordered @ [k]))"

definition ordered_synth :: "(local_key \<Rightarrow> str list) \<Rightarrow> local_key list \<Rightarrow> local_key list" where
  "ordered_synth reqs keys =
     (let deg = synth_degree reqs keys;
          ordered = fst (synth_loop (length keys) reqs keys (filter (\<lambda>k. deg k = 0) keys) deg [])
      in ordered @ filter (\<lambda>k. k \<notin> set ordered) keys)"

record synth_state =
  s_nodes :: "unit_graph_node list"
  s_global :: "qualified_probe_key \<rightharpoonup> nat"
  s_ids :: "local_key \<rightharpoonup> nat"

definition synth_step :: "recipe_units \<Rightarrow> nat list \<Rightarrow> local_key \<Rightarrow> synth_state
    \<Rightarrow> unit_graph_error failure + synth_state" where
  "synth_step ru cross key st =
     (let qualified = qualify_for_recipe (recipe_name ru) key in
      case s_global st qualified of
        Some existing \<Rightarrow> Inr (st\<lparr>s_ids := (s_ids st)(key \<mapsto> existing)\<rparr>)
      | None \<Rightarrow>
          (case probe_meta (r_probes ru) key of
             None \<Rightarrow> Inl Panicked
           | Some meta \<Rightarrow>
               (let deps = map (\<lambda>d. (d, Barrier)) cross
                      @ List.map_filter (\<lambda>u. map_option (\<lambda>nid. (nid, ProbeEdge)) (s_ids st u))
                          (in_requires (p_inputs meta));
                    nid = length (s_nodes st)
                in Inr \<lparr>s_nodes = s_nodes st
                          @ [\<lparr>origin = OriginSynthProbe (recipe_name ru) key, node_deps = dedup_pairs deps\<rparr>],
                        s_global = (s_global st)(qualified \<mapsto> nid),
                        s_ids = (s_ids st)(key \<mapsto> nid)\<rparr>)))"

section \<open>The order of the unit walk\<close>

text \<open>Lowest index first among the body probes whose upstream body probes are placed; leftovers last.\<close>

function place_probes :: "captured_unit list \<Rightarrow> str set \<Rightarrow> str set \<Rightarrow> nat list \<Rightarrow> nat list" where
  "place_probes units body_keys placed pending =
     (case List.extract (\<lambda>i. list_all (\<lambda>k. k \<notin> body_keys \<or> k \<in> placed) (u_probes (units ! i))) pending of
        None \<Rightarrow> pending
      | Some (before, i, rest) \<Rightarrow>
          i # place_probes units body_keys
                (case probe_key_of (payload (units ! i)) of Some k \<Rightarrow> insert k placed | None \<Rightarrow> placed)
                (before @ rest))"
  by pat_completeness auto
termination
  by (relation "measure (\<lambda>(units, body_keys, placed, pending). length pending)") (auto simp: extract_Some_iff)

declare place_probes.simps [simp del]

definition body_keys :: "captured_unit list \<Rightarrow> str set" where
  "body_keys units = {k. \<exists>u \<in> set units. probe_key_of (payload u) = Some k}"

definition walk_order :: "captured_unit list \<Rightarrow> nat list" where
  "walk_order units =
     place_probes units (set (List.map_filter (\<lambda>u. probe_key_of (payload u)) units)) {}
         (filter (\<lambda>i. is_probe_unit (units ! i)) [0..<length units])
       @ filter (\<lambda>i. \<not> is_probe_unit (units ! i)) [0..<length units]"

section \<open>The visit of one unit\<close>

record walk_state =
  w_nodes :: "unit_graph_node list"
  w_global :: "qualified_probe_key \<rightharpoonup> nat"
  w_node_by_unit :: "nat \<rightharpoonup> nat"
  w_barrier :: "nat list"
  w_groups :: "nat \<rightharpoonup> nat list"

text \<open>What the visit reads of its recipe.\<close>

record walk_env =
  e_recipe :: recipe_units
  e_after :: "nat list list"
  e_consumed :: "str set"
  e_cross :: "nat list"
  e_leaves :: "str \<rightharpoonup> nat list"
  e_synth :: "local_key \<rightharpoonup> nat"

definition base_deps :: "walk_env \<Rightarrow> captured_unit \<Rightarrow> nat list \<Rightarrow> (nat \<times> edge_provenance) list" where
  "base_deps e u barrier =
     (let within = (if is_probe_unit u then [] else barrier);
          kind = (case u_dep_kind u of StepGroup _ \<Rightarrow> Group | Sequential \<Rightarrow> Serial)
      in if within = [] then map (\<lambda>d. (d, Barrier)) (e_cross e) else map (\<lambda>d. (d, kind)) within)"

definition fine_deps :: "walk_env \<Rightarrow> nat \<Rightarrow> (nat \<times> edge_provenance) list" where
  "fine_deps e unit_idx =
     concat (map (\<lambda>(i, dep).
         if i = unit_idx then map (\<lambda>d. (d, DepOrder)) (or_default (e_leaves e dep)) else [])
       (dep_edges (e_recipe e)))"

definition after_deps :: "(nat \<rightharpoonup> nat) \<Rightarrow> nat list
    \<Rightarrow> unit_graph_error failure + (nat \<times> edge_provenance) list" where
  "after_deps node_by_unit producers =
     map_res (\<lambda>p. case node_by_unit p of None \<Rightarrow> Inl Panicked | Some nid \<Rightarrow> Inr (nid, UnitOrder)) producers"

definition probe_dep :: "walk_env \<Rightarrow> (nat \<rightharpoonup> nat) \<Rightarrow> nat \<Rightarrow> str
    \<Rightarrow> unit_graph_error failure + nat \<times> edge_provenance" where
  "probe_dep e node_by_unit unit_idx req_key =
     (let units = r_units (e_recipe e) in
      case (case probe_unit_index units req_key of Some i \<Rightarrow> node_by_unit i | None \<Rightarrow> None) of
        Some nid \<Rightarrow> Inr (nid, ProbeEdge)
      | None \<Rightarrow>
          (case e_synth e req_key of
             Some nid \<Rightarrow> Inr (nid, ProbeEdge)
           | None \<Rightarrow> Inl (Failed (UnscheduledProbe (recipe_name (e_recipe e)) (unit_label units unit_idx) req_key))))"

text \<open>The barrier and the groups after the node of a non-probe unit; an unknown group index panics.\<close>

definition advance :: "walk_env \<Rightarrow> nat \<Rightarrow> dep_kind \<Rightarrow> nat \<Rightarrow> walk_state
    \<Rightarrow> unit_graph_error failure + walk_state" where
  "advance e unit_idx kind nid w =
     (case kind of
        Sequential \<Rightarrow> Inr (w\<lparr>w_barrier := [nid]\<rparr>)
      | StepGroup gi \<Rightarrow>
          (let ids = or_default (w_groups w gi) @ [nid];
               w' = w\<lparr>w_groups := (w_groups w)(gi \<mapsto> ids)\<rparr>;
               groups = step_groups (e_recipe e)
           in case unit_group_info groups unit_idx of
                None \<Rightarrow> Inr w'
              | Some (_, pos) \<Rightarrow>
                  (if gi < length groups then
                     Inr (if pos + 1 = length (groups ! gi) then w'\<lparr>w_barrier := ids\<rparr> else w')
                   else Inl Panicked)))"

definition unit_node_deps :: "walk_env \<Rightarrow> nat \<Rightarrow> walk_state
    \<Rightarrow> unit_graph_error failure + (nat \<times> edge_provenance) list" where
  "unit_node_deps e unit_idx w =
     (let u = r_units (e_recipe e) ! unit_idx in
      bind_res (after_deps (w_node_by_unit w) (e_after e ! unit_idx)) (\<lambda>after.
      bind_res (map_res (probe_dep e (w_node_by_unit w) unit_idx) (u_probes u)) (\<lambda>probes.
        Inr (dedup_pairs (base_deps e u (w_barrier w) @ fine_deps e unit_idx @ after @ probes)))))"

text \<open>A new node for the unit, with everything recorded that later visits look up.\<close>

definition mint :: "walk_env \<Rightarrow> nat \<Rightarrow> walk_state \<Rightarrow> unit_graph_error failure + walk_state" where
  "mint e unit_idx w =
     (let ru = e_recipe e; u = r_units ru ! unit_idx; nid = length (w_nodes w) in
      bind_res (unit_node_deps e unit_idx w) (\<lambda>deps.
        let w1 = w\<lparr>w_nodes := w_nodes w @ [\<lparr>origin = OriginUnit (recipe_name ru) unit_idx, node_deps = deps\<rparr>],
                   w_node_by_unit := (w_node_by_unit w)(unit_idx \<mapsto> nid)\<rparr>
        in case probe_key_of (payload u) of
             Some k \<Rightarrow> Inr (w1\<lparr>w_global := (w_global w1)(qualify_for_recipe (recipe_name ru) k \<mapsto> nid)\<rparr>)
           | None \<Rightarrow> advance e unit_idx (u_dep_kind u) nid w1))"

definition walk_step :: "walk_env \<Rightarrow> nat \<Rightarrow> walk_state \<Rightarrow> unit_graph_error failure + walk_state" where
  "walk_step e unit_idx w =
     (let ru = e_recipe e; units = r_units ru in
      if skipped units (e_consumed e) unit_idx then Inr w
      else
        (case probe_key_of (payload (units ! unit_idx)) of
           Some k \<Rightarrow>
             (case w_global w (qualify_for_recipe (recipe_name ru) k) of
                Some existing \<Rightarrow> Inr (w\<lparr>w_node_by_unit := (w_node_by_unit w)(unit_idx \<mapsto> existing)\<rparr>)
              | None \<Rightarrow> mint e unit_idx w)
         | None \<Rightarrow> mint e unit_idx w))"

section \<open>One recipe, and the closure\<close>

record plan_state =
  p_nodes :: "unit_graph_node list"
  p_leaves :: "str \<rightharpoonup> nat list"
  p_global :: "qualified_probe_key \<rightharpoonup> nat"

definition plan_recipe :: "recipe_units \<Rightarrow> plan_state \<Rightarrow> unit_graph_error failure + plan_state" where
  "plan_recipe ru st =
     (case resolve_after (r_units ru) of
        Inl e \<Rightarrow> Inl (Failed (AfterFailed (recipe_name ru) e))
      | Inr after \<Rightarrow>
          (let consumed = compute_consumed_probe_keys (r_units ru) (r_probes ru);
               cross = cross_deps ru (p_leaves st);
               keys = synth_keys ru consumed
           in bind_res (fold_res (synth_step ru cross) (ordered_synth (meta_requires ru) keys)
                 \<lparr>s_nodes = p_nodes st, s_global = p_global st, s_ids = Map.empty\<rparr>) (\<lambda>s.
              let e = \<lparr>e_recipe = ru, e_after = after, e_consumed = consumed, e_cross = cross,
                       e_leaves = p_leaves st, e_synth = s_ids s\<rparr>
              in bind_res (fold_res (walk_step e) (walk_order (r_units ru))
                   \<lparr>w_nodes = s_nodes s, w_global = s_global s, w_node_by_unit = Map.empty,
                    w_barrier = [], w_groups = Map.empty\<rparr>) (\<lambda>w.
                 let leaves = (if w_barrier w = [] then cross else w_barrier w)
                 in Inr \<lparr>p_nodes = w_nodes w, p_leaves = (p_leaves st)(recipe_name ru \<mapsto> leaves),
                         p_global = w_global w\<rparr>))))"

definition plan :: "recipe_units list \<Rightarrow> unit_graph_error failure + unit_graph_node list" where
  "plan rs =
     (case dangling_dep_edge rs of
        Some err \<Rightarrow> Inl (Failed err)
      | None \<Rightarrow>
          bind_res (fold_res plan_recipe rs \<lparr>p_nodes = [], p_leaves = Map.empty, p_global = Map.empty\<rparr>)
            (\<lambda>st. Inr (p_nodes st)))"

section \<open>Every dependency points backwards\<close>

definition nodes_ok :: "unit_graph_node list \<Rightarrow> bool" where
  "nodes_ok ns \<longleftrightarrow>
     (\<forall>k < length ns. distinct (node_deps (ns ! k)) \<and> (\<forall>p \<in> set (node_deps (ns ! k)). fst p < k))"

definition ids_below :: "nat \<Rightarrow> ('k \<rightharpoonup> nat) \<Rightarrow> bool" where
  "ids_below n m \<longleftrightarrow> (\<forall>k i. m k = Some i \<longrightarrow> i < n)"

definition lists_below :: "nat \<Rightarrow> ('k \<rightharpoonup> nat list) \<Rightarrow> bool" where
  "lists_below n m \<longleftrightarrow> (\<forall>k is. m k = Some is \<longrightarrow> (\<forall>i \<in> set is. i < n))"

lemma nodes_ok_Nil [simp]: "nodes_ok []"
  by (simp add: nodes_ok_def)

lemma nodes_ok_snoc:
  "nodes_ok (ns @ [\<lparr>origin = og, node_deps = deps\<rparr>]) \<longleftrightarrow>
     nodes_ok ns \<and> distinct deps \<and> (\<forall>p \<in> set deps. fst p < length ns)"
  by (auto simp: nodes_ok_def nth_append less_Suc_eq)

lemma ids_below_simps [simp]:
  "ids_below n Map.empty" "lists_below n Map.empty"
  by (simp_all add: ids_below_def lists_below_def)

lemma ids_below_upd: "ids_below n m \<Longrightarrow> i < n \<Longrightarrow> ids_below n (m(k \<mapsto> i))"
  by (auto simp: ids_below_def)

lemma lists_below_upd: "lists_below n m \<Longrightarrow> \<forall>i \<in> set is. i < n \<Longrightarrow> lists_below n (m(k \<mapsto> is))"
  by (auto simp: lists_below_def)

lemma ids_below_Suc: "ids_below n m \<Longrightarrow> ids_below (Suc n) m"
  by (auto simp: ids_below_def less_Suc_eq)

lemma lists_below_mono: "lists_below n m \<Longrightarrow> n \<le> n' \<Longrightarrow> lists_below n' m"
  by (fastforce simp: lists_below_def)

lemma ids_below_Some: "ids_below n m \<Longrightarrow> m k = Some i \<Longrightarrow> i < n"
  by (simp add: ids_below_def)

lemma lists_below_Some: "lists_below n m \<Longrightarrow> m k = Some is \<Longrightarrow> i \<in> set is \<Longrightarrow> i < n"
  by (auto simp: lists_below_def)

lemma ids_below_snoc: "ids_below n m \<Longrightarrow> ids_below (Suc n) (m(k \<mapsto> n))"
  by (auto simp: ids_below_def less_Suc_eq)

lemma lists_below_case:
  "lists_below n m \<Longrightarrow> i \<in> set (or_default (m k)) \<Longrightarrow> i < n"
  by (cases "m k") (auto simp: lists_below_def)

lemma cross_deps_below: "lists_below n leaves \<Longrightarrow> \<forall>d \<in> set (cross_deps ru leaves). d < n"
  by (auto simp: cross_deps_def dest: lists_below_case)

text \<open>Synthesis.\<close>

definition synth_ok :: "nat list \<Rightarrow> synth_state \<Rightarrow> bool" where
  "synth_ok cross s \<longleftrightarrow>
     nodes_ok (s_nodes s) \<and> ids_below (length (s_nodes s)) (s_global s)
     \<and> ids_below (length (s_nodes s)) (s_ids s) \<and> (\<forall>d \<in> set cross. d < length (s_nodes s))"

lemma map_filter_set: "x \<in> set (List.map_filter f xs) \<longleftrightarrow> (\<exists>y \<in> set xs. f y = Some x)"
  by (force simp: List.map_filter_def)

lemma synth_step_cases:
  assumes "synth_step ru cross key s = Inr s'"
  obtains (reuse) existing where
      "s_global s (qualify_for_recipe (recipe_name ru) key) = Some existing"
      "s' = s\<lparr>s_ids := (s_ids s)(key \<mapsto> existing)\<rparr>"
  | (fresh) meta deps where
      "s_global s (qualify_for_recipe (recipe_name ru) key) = None" "probe_meta (r_probes ru) key = Some meta"
      "deps = map (\<lambda>d. (d, Barrier)) cross
          @ List.map_filter (\<lambda>u. map_option (\<lambda>nid. (nid, ProbeEdge)) (s_ids s u)) (in_requires (p_inputs meta))"
      "s' = \<lparr>s_nodes = s_nodes s @ [\<lparr>origin = OriginSynthProbe (recipe_name ru) key, node_deps = dedup_pairs deps\<rparr>],
             s_global = (s_global s)(qualify_for_recipe (recipe_name ru) key \<mapsto> length (s_nodes s)),
             s_ids = (s_ids s)(key \<mapsto> length (s_nodes s))\<rparr>"
  using assms that by (auto simp: synth_step_def Let_def split: option.splits)

lemma synth_step_ok:
  assumes "synth_step ru cross key s = Inr s'" and ok: "synth_ok cross s"
  shows "synth_ok cross s' \<and> length (s_nodes s) \<le> length (s_nodes s')"
  using assms(1)
proof (cases rule: synth_step_cases)
  case (reuse existing)
  then show ?thesis
    using ok ids_below_Some[of _ "s_global s"] by (auto simp: synth_ok_def intro!: ids_below_upd)
next
  case (fresh meta deps)
  have "\<forall>p \<in> set deps. fst p < length (s_nodes s)"
    using ok fresh(3) ids_below_Some[of _ "s_ids s"] by (auto simp: synth_ok_def map_filter_set)
  then show ?thesis
    using ok fresh(4) by (auto simp: synth_ok_def nodes_ok_snoc less_Suc_eq intro: ids_below_snoc)
qed

lemma synth_fold_ok:
  assumes "fold_res (synth_step ru cross) keys s = Inr s'" and "synth_ok cross s"
  shows "synth_ok cross s' \<and> length (s_nodes s) \<le> length (s_nodes s')"
  using fold_res_invariant[OF assms(1), of "\<lambda>t. synth_ok cross t \<and> length (s_nodes s) \<le> length (s_nodes t)"]
    assms(2) synth_step_ok by (meson le_refl order_trans)

text \<open>The walk.\<close>

definition walk_ok :: "walk_env \<Rightarrow> walk_state \<Rightarrow> bool" where
  "walk_ok e w \<longleftrightarrow>
     (let n = length (w_nodes w) in
      nodes_ok (w_nodes w) \<and> ids_below n (w_global w) \<and> ids_below n (w_node_by_unit w)
      \<and> (\<forall>d \<in> set (w_barrier w). d < n) \<and> lists_below n (w_groups w)
      \<and> lists_below n (e_leaves e) \<and> (\<forall>d \<in> set (e_cross e). d < n) \<and> ids_below n (e_synth e))"

lemma map_res_set: "map_res g xs = Inr ys \<Longrightarrow> y \<in> set ys \<Longrightarrow> \<exists>x \<in> set xs. g x = Inr y"
  by (induction xs arbitrary: ys) (auto simp: bind_res_Inr_iff)

lemma fine_deps_set:
  "q \<in> set (fine_deps e i) \<longleftrightarrow>
     (\<exists>dep d. (i, dep) \<in> set (dep_edges (e_recipe e)) \<and> d \<in> set (or_default (e_leaves e dep)) \<and> q = (d, DepOrder))"
  by (force simp: fine_deps_def split: if_splits)

lemma probe_dep_Inr:
  "probe_dep e nbu i k = Inr q \<longleftrightarrow>
     (\<exists>nid. q = (nid, ProbeEdge)
        \<and> ((\<exists>j. probe_unit_index (r_units (e_recipe e)) k = Some j \<and> nbu j = Some nid)
           \<or> ((\<forall>j. probe_unit_index (r_units (e_recipe e)) k = Some j \<longrightarrow> nbu j = None) \<and> e_synth e k = Some nid)))"
  by (auto simp: probe_dep_def Let_def split: option.splits)

lemma after_deps_Inr:
  "after_deps nbu ps = Inr qs \<Longrightarrow> q \<in> set qs \<Longrightarrow> \<exists>p \<in> set ps. \<exists>nid. nbu p = Some nid \<and> q = (nid, UnitOrder)"
  unfolding after_deps_def by (drule (1) map_res_set) (auto split: option.splits)

lemma unit_node_deps_below:
  assumes d: "unit_node_deps e i w = Inr deps" and ok: "walk_ok e w"
  shows "distinct deps \<and> (\<forall>p \<in> set deps. fst p < length (w_nodes w))"
proof -
  let ?n = "length (w_nodes w)"
  let ?u = "r_units (e_recipe e) ! i"
  obtain after probes where a: "after_deps (w_node_by_unit w) (e_after e ! i) = Inr after"
    and p: "map_res (probe_dep e (w_node_by_unit w) i) (u_probes ?u) = Inr probes"
    and deps: "deps = dedup_pairs (base_deps e ?u (w_barrier w) @ fine_deps e i @ after @ probes)"
    using d by (auto simp: unit_node_deps_def Let_def bind_res_Inr_iff)
  have b: "ids_below ?n (w_node_by_unit w)" "lists_below ?n (e_leaves e)" "ids_below ?n (e_synth e)"
    "\<forall>d \<in> set (w_barrier w). d < ?n" "\<forall>d \<in> set (e_cross e). d < ?n"
    using ok by (simp_all add: walk_ok_def Let_def)
  have "\<forall>q \<in> set (base_deps e ?u (w_barrier w)). fst q < ?n"
    using b(4,5) by (auto simp: base_deps_def Let_def)
  moreover have "\<forall>q \<in> set (fine_deps e i). fst q < ?n"
    using fine_deps_set[of _ e i] lists_below_case[OF b(2)] by fastforce
  moreover have "\<forall>q \<in> set after. fst q < ?n"
    using after_deps_Inr[OF a] ids_below_Some[OF b(1)] by fastforce
  moreover have "\<forall>q \<in> set probes. fst q < ?n"
    using map_res_set[OF p] ids_below_Some[OF b(1)] ids_below_Some[OF b(3)]
    by (fastforce simp: probe_dep_Inr)
  ultimately show ?thesis using deps by auto
qed

text \<open>What minting a node leaves, for probes and for other units.\<close>

lemma mint_cases:
  assumes "mint e i w = Inr w'"
  obtains (probe) deps k where
      "unit_node_deps e i w = Inr deps" "probe_key_of (payload (r_units (e_recipe e) ! i)) = Some k"
      "w' = w\<lparr>w_nodes := w_nodes w @ [\<lparr>origin = OriginUnit (recipe_name (e_recipe e)) i, node_deps = deps\<rparr>],
              w_node_by_unit := (w_node_by_unit w)(i \<mapsto> length (w_nodes w)),
              w_global := (w_global w)(qualify_for_recipe (recipe_name (e_recipe e)) k \<mapsto> length (w_nodes w))\<rparr>"
  | (unit) deps groups barrier where
      "unit_node_deps e i w = Inr deps" "probe_key_of (payload (r_units (e_recipe e) ! i)) = None"
      "w' = w\<lparr>w_nodes := w_nodes w @ [\<lparr>origin = OriginUnit (recipe_name (e_recipe e)) i, node_deps = deps\<rparr>],
              w_node_by_unit := (w_node_by_unit w)(i \<mapsto> length (w_nodes w)),
              w_groups := groups, w_barrier := barrier\<rparr>"
      "u_dep_kind (r_units (e_recipe e) ! i) = Sequential \<and> groups = w_groups w \<and> barrier = [length (w_nodes w)]
       \<or> (\<exists>gi ids. u_dep_kind (r_units (e_recipe e) ! i) = StepGroup gi
            \<and> ids = or_default (w_groups w gi) @ [length (w_nodes w)]
            \<and> groups = (w_groups w)(gi \<mapsto> ids)
            \<and> barrier = (case unit_group_info (step_groups (e_recipe e)) i of
                  Some (_, pos) \<Rightarrow> if pos + 1 = length (step_groups (e_recipe e) ! gi) then ids else w_barrier w
                | None \<Rightarrow> w_barrier w))"
proof -
  obtain deps where d: "unit_node_deps e i w = Inr deps"
    using assms by (auto simp: mint_def Let_def bind_res_Inr_iff)
  show ?thesis
  proof (cases "probe_key_of (payload (r_units (e_recipe e) ! i))")
    case (Some k)
    then show ?thesis
      using assms d by (intro probe[of deps k]) (simp_all add: mint_def Let_def)
  next
    case None
    show ?thesis
    proof (cases "u_dep_kind (r_units (e_recipe e) ! i)")
      case Sequential
      then show ?thesis
        using assms d None by (intro unit[of deps]) (simp_all add: mint_def Let_def advance_def)
    next
      case (StepGroup gi)
      then show ?thesis
        using assms d None
        by (intro unit[of deps _ "(w_groups w)(gi \<mapsto> or_default (w_groups w gi) @ [length (w_nodes w)])"])
          (auto simp: mint_def Let_def advance_def split: option.splits if_splits)
    qed
  qed
qed

lemma mint_ok:
  assumes m: "mint e i w = Inr w'" and ok: "walk_ok e w"
  shows "walk_ok e w' \<and> length (w_nodes w) \<le> length (w_nodes w')"
  using m
proof (cases rule: mint_cases)
  case (probe deps k)
  then show ?thesis
    using unit_node_deps_below[OF probe(1) ok] ok
    by (auto simp: walk_ok_def Let_def nodes_ok_snoc less_Suc_eq
        intro: ids_below_snoc ids_below_Suc lists_below_mono)
next
  case (unit deps groups barrier)
  let ?n = "length (w_nodes w)"
  have w: "lists_below ?n (w_groups w)" "\<forall>d \<in> set (w_barrier w). d < ?n"
    using ok by (simp_all add: walk_ok_def Let_def)
  have "lists_below (Suc ?n) groups \<and> (\<forall>d \<in> set barrier. d < Suc ?n)"
    using unit(4) w
    by (elim disjE exE conjE)
      (auto simp: less_Suc_eq dest: lists_below_case[OF w(1)] split: option.splits if_splits
        intro!: lists_below_upd intro: lists_below_mono)
  then show ?thesis
    using unit(3) unit_node_deps_below[OF unit(1) ok] ok
    by (auto simp: walk_ok_def Let_def nodes_ok_snoc less_Suc_eq
        intro: ids_below_snoc ids_below_Suc lists_below_mono)
qed

lemma walk_step_ok:
  assumes "walk_step e i w = Inr w'" and ok: "walk_ok e w"
  shows "walk_ok e w' \<and> length (w_nodes w) \<le> length (w_nodes w')"
proof -
  have reuse: "walk_ok e (w\<lparr>w_node_by_unit := (w_node_by_unit w)(i \<mapsto> x)\<rparr>)" if "w_global w q = Some x" for q x
    using ok ids_below_Some[of "length (w_nodes w)" "w_global w" q x] that by (auto simp: walk_ok_def Let_def intro!: ids_below_upd)
  show ?thesis
    using assms(1) mint_ok[OF _ ok] reuse ok
    by (auto simp: walk_step_def Let_def split: if_splits option.splits)
qed

lemma walk_fold_ok:
  assumes "fold_res (walk_step e) is w = Inr w'" and "walk_ok e w"
  shows "walk_ok e w' \<and> length (w_nodes w) \<le> length (w_nodes w')"
  using fold_res_invariant[OF assms(1), of "\<lambda>t. walk_ok e t \<and> length (w_nodes w) \<le> length (w_nodes t)"]
    assms(2) walk_step_ok by (meson le_refl order_trans)

text \<open>The closure.\<close>

definition plan_ok :: "plan_state \<Rightarrow> bool" where
  "plan_ok st \<longleftrightarrow>
     nodes_ok (p_nodes st) \<and> lists_below (length (p_nodes st)) (p_leaves st)
     \<and> ids_below (length (p_nodes st)) (p_global st)"

text \<open>The stages of one recipe that succeeds.\<close>

definition recipe_env :: "recipe_units \<Rightarrow> nat list list \<Rightarrow> plan_state \<Rightarrow> synth_state \<Rightarrow> walk_env" where
  "recipe_env ru after st s =
     \<lparr>e_recipe = ru, e_after = after, e_consumed = compute_consumed_probe_keys (r_units ru) (r_probes ru),
      e_cross = cross_deps ru (p_leaves st), e_leaves = p_leaves st, e_synth = s_ids s\<rparr>"

definition walk_start :: "synth_state \<Rightarrow> walk_state" where
  "walk_start s = \<lparr>w_nodes = s_nodes s, w_global = s_global s, w_node_by_unit = Map.empty,
      w_barrier = [], w_groups = Map.empty\<rparr>"

definition synth_start :: "plan_state \<Rightarrow> synth_state" where
  "synth_start st = \<lparr>s_nodes = p_nodes st, s_global = p_global st, s_ids = Map.empty\<rparr>"

definition recipe_synth :: "recipe_units \<Rightarrow> local_key list" where
  "recipe_synth ru = ordered_synth (meta_requires ru)
     (synth_keys ru (compute_consumed_probe_keys (r_units ru) (r_probes ru)))"

lemma plan_recipe_Inr:
  assumes "plan_recipe ru st = Inr st'"
  obtains after s w where
    "resolve_after (r_units ru) = Inr after"
    and "fold_res (synth_step ru (cross_deps ru (p_leaves st))) (recipe_synth ru) (synth_start st) = Inr s"
    and "fold_res (walk_step (recipe_env ru after st s)) (walk_order (r_units ru)) (walk_start s) = Inr w"
    and "st' = \<lparr>p_nodes = w_nodes w,
                p_leaves = (p_leaves st)(recipe_name ru \<mapsto>
                  (if w_barrier w = [] then cross_deps ru (p_leaves st) else w_barrier w)),
                p_global = w_global w\<rparr>"
  using assms that
  by (auto simp: plan_recipe_def Let_def bind_res_Inr_iff recipe_env_def walk_start_def synth_start_def
      recipe_synth_def split: sum.splits)

lemma plan_recipe_ok:
  assumes "plan_recipe ru st = Inr st'" and ok: "plan_ok st"
  shows "plan_ok st' \<and> length (p_nodes st) \<le> length (p_nodes st')"
  using assms(1)
proof (cases rule: plan_recipe_Inr)
  case (1 after s w)
  let ?cross = "cross_deps ru (p_leaves st)"
  have "synth_ok ?cross (synth_start st)"
    using ok cross_deps_below by (auto simp: synth_ok_def plan_ok_def synth_start_def)
  then have s: "synth_ok ?cross s" "length (p_nodes st) \<le> length (s_nodes s)"
    using synth_fold_ok[OF 1(2)] by (simp_all add: synth_start_def)
  have "walk_ok (recipe_env ru after st s) (walk_start s)"
    using s ok by (auto simp: walk_ok_def Let_def recipe_env_def walk_start_def synth_ok_def plan_ok_def
        intro: lists_below_mono)
  then have w: "walk_ok (recipe_env ru after st s) w" "length (s_nodes s) \<le> length (w_nodes w)"
    using walk_fold_ok[OF 1(3)] by (simp_all add: walk_start_def)
  then show ?thesis
    using 1(4) s(2) by (auto simp: walk_ok_def Let_def plan_ok_def recipe_env_def intro!: lists_below_upd)
qed

lemma plan_nodes_ok:
  assumes "plan rs = Inr ns"
  shows "nodes_ok ns"
proof -
  obtain st where st: "fold_res plan_recipe rs \<lparr>p_nodes = [], p_leaves = Map.empty, p_global = Map.empty\<rparr> = Inr st"
    "ns = p_nodes st"
    using assms by (auto simp: plan_def bind_res_Inr_iff split: option.splits)
  have "plan_ok st"
    by (rule fold_res_invariant[OF st(1)]) (use plan_recipe_ok in \<open>auto simp: plan_ok_def\<close>)
  then show ?thesis using st(2) by (simp add: plan_ok_def)
qed

section \<open>The order of synthesised probes\<close>

text \<open>The upstream keys that count for a key: the synthesised ones, other than itself.\<close>

definition synth_ups :: "(local_key \<Rightarrow> str list) \<Rightarrow> local_key list \<Rightarrow> local_key \<Rightarrow> local_key set" where
  "synth_ups reqs keys k = {u \<in> set keys. u \<in> set (reqs k) \<and> u \<noteq> k}"

definition synth_inv :: "(local_key \<Rightarrow> str list) \<Rightarrow> local_key list \<Rightarrow> (local_key \<Rightarrow> nat)
    \<Rightarrow> local_key list \<Rightarrow> local_key list \<Rightarrow> bool" where
  "synth_inv reqs keys deg queue ordered \<longleftrightarrow>
     distinct keys \<and> distinct (ordered @ queue) \<and> set (ordered @ queue) = {k \<in> set keys. deg k = 0}
     \<and> (\<forall>k \<in> set keys. deg k + card (set ordered \<inter> synth_ups reqs keys k) = synth_degree reqs keys k)
     \<and> (\<forall>j < length ordered. synth_ups reqs keys (ordered ! j) \<subseteq> set (take j ordered))"

lemma synth_ups_card: "card (synth_ups reqs keys k) \<le> synth_degree reqs keys k"
proof -
  have "synth_ups reqs keys k \<subseteq> set (filter (\<lambda>u. u \<in> set keys) (reqs k))"
    by (auto simp: synth_ups_def)
  then have "card (synth_ups reqs keys k) \<le> card (set (filter (\<lambda>u. u \<in> set keys) (reqs k)))"
    by (intro card_mono) auto
  also have "\<dots> \<le> synth_degree reqs keys k" unfolding synth_degree_def by (rule card_length)
  finally show ?thesis .
qed

lemma synth_release_eq:
  "distinct others \<Longrightarrow> synth_release reqs k others deg queue =
     (\<lambda>x. if x \<in> set others \<and> x \<noteq> k \<and> k \<in> set (reqs x) then deg x - 1 else deg x,
      queue @ filter (\<lambda>x. x \<noteq> k \<and> k \<in> set (reqs x) \<and> deg x - 1 = 0) others)"
proof (induction others arbitrary: deg queue)
  case Nil
  then show ?case by simp
next
  case (Cons y ys)
  have "filter (\<lambda>x. x \<noteq> k \<and> k \<in> set (reqs x) \<and> (deg(y := d)) x - 1 = 0) ys
      = filter (\<lambda>x. x \<noteq> k \<and> k \<in> set (reqs x) \<and> deg x - 1 = 0) ys" for d
    using Cons.prems by (intro filter_cong) auto
  then show ?case using Cons by (auto simp: Let_def fun_eq_iff)
qed

lemma synth_inv_start:
  "distinct keys \<Longrightarrow> synth_inv reqs keys (synth_degree reqs keys)
     (filter (\<lambda>k. synth_degree reqs keys k = 0) keys) []"
  by (simp add: synth_inv_def)

lemma synth_inv_step:
  assumes I: "synth_inv reqs keys deg (k # queue) ordered"
    and r: "synth_release reqs k keys deg queue = (deg', queue')"
  shows "synth_inv reqs keys deg' queue' (ordered @ [k])"
proof -
  have dist: "distinct keys" "distinct (ordered @ k # queue)"
    and mem: "set (ordered @ k # queue) = {k \<in> set keys. deg k = 0}"
    and cnt: "\<And>x. x \<in> set keys \<Longrightarrow> deg x + card (set ordered \<inter> synth_ups reqs keys x) = synth_degree reqs keys x"
    and pre: "\<forall>j < length ordered. synth_ups reqs keys (ordered ! j) \<subseteq> set (take j ordered)"
    using I by (simp_all add: synth_inv_def)
  have k: "k \<in> set keys" "deg k = 0" "k \<notin> set ordered" using mem dist(2) by auto
  have deg': "deg' x = (if x \<in> set keys \<and> x \<noteq> k \<and> k \<in> set (reqs x) then deg x - 1 else deg x)"
    and queue': "queue' = queue @ filter (\<lambda>x. x \<noteq> k \<and> k \<in> set (reqs x) \<and> deg x - 1 = 0) keys" for x
    using r synth_release_eq[OF dist(1)] by auto
  have fin: "finite (synth_ups reqs keys x)" for x by (simp add: synth_ups_def)
  have up: "k \<in> synth_ups reqs keys x \<longleftrightarrow> x \<noteq> k \<and> k \<in> set (reqs x)" for x
    using k(1) by (auto simp: synth_ups_def)
  have card': "card (set (ordered @ [k]) \<inter> synth_ups reqs keys x)
      = card (set ordered \<inter> synth_ups reqs keys x) + (if x \<noteq> k \<and> k \<in> set (reqs x) then 1 else 0)" for x
    using up[of x] k(3) fin by (simp add: Int_insert_left)
  have pos: "0 < deg x" if x: "x \<in> set keys" "x \<noteq> k" "k \<in> set (reqs x)" for x
  proof -
    have "card (set (ordered @ [k]) \<inter> synth_ups reqs keys x) \<le> card (synth_ups reqs keys x)"
      using fin by (intro card_mono) auto
    then show ?thesis using cnt[OF x(1)] card'[of x] synth_ups_card[of reqs keys x] x by simp
  qed
  have all: "synth_ups reqs keys k \<subseteq> set ordered"
  proof -
    have "card (synth_ups reqs keys k) \<le> card (set ordered \<inter> synth_ups reqs keys k)"
      using cnt[OF k(1)] k(2) synth_ups_card[of reqs keys k] by simp
    then have "set ordered \<inter> synth_ups reqs keys k = synth_ups reqs keys k"
      using fin by (intro card_seteq) auto
    then show ?thesis by blast
  qed
  have zero: "deg x = 0" if "x \<in> set ordered \<or> x \<in> set queue" for x
    using mem that by auto
  have "x \<notin> set ordered" "x \<notin> set queue" if "x \<in> set keys" "x \<noteq> k" "k \<in> set (reqs x)" for x
    using pos[OF that] zero[of x] by auto
  then have "distinct ((ordered @ [k]) @ queue')"
    using dist queue' by auto
  moreover have "set ((ordered @ [k]) @ queue') = {x \<in> set keys. deg' x = 0}"
  proof -
    have m: "x \<in> set (ordered @ k # queue) \<longleftrightarrow> x \<in> set keys \<and> deg x = 0" for x
      using mem by blast
    have "x \<in> set ((ordered @ [k]) @ queue') \<longleftrightarrow> x \<in> set keys \<and> deg' x = 0" for x
      using m[of x] deg'[of x] pos[of x] k(2) by (auto simp: queue')
    then show ?thesis by blast
  qed
  moreover have "deg' x + card (set (ordered @ [k]) \<inter> synth_ups reqs keys x) = synth_degree reqs keys x"
    if x: "x \<in> set keys" for x
    using cnt[OF x] card'[of x] deg'[of x] pos[OF x] x by auto
  moreover have "\<forall>j < length (ordered @ [k]). synth_ups reqs keys ((ordered @ [k]) ! j) \<subseteq> set (take j (ordered @ [k]))"
    using pre all by (auto simp: nth_append less_Suc_eq)
  ultimately show ?thesis unfolding synth_inv_def using dist(1) by blast
qed

text \<open>Every key is popped at most once, so as many rounds as there are keys empty the queue.\<close>

lemma synth_loop_enough:
  assumes "synth_inv reqs keys deg queue ordered" and "length keys \<le> fuel + length ordered"
  shows "\<exists>deg' ordered'. synth_loop fuel reqs keys queue deg ordered = (ordered', [])
     \<and> synth_inv reqs keys deg' [] ordered'"
  using assms
proof (induction fuel reqs keys queue deg ordered rule: synth_loop.induct)
  case (1 fuel reqs keys deg ordered)
  then show ?case by auto
next
  case (2 reqs keys k queue deg ordered)
  have "distinct (ordered @ k # queue)" "set (ordered @ k # queue) \<subseteq> set keys"
    using 2 by (auto simp: synth_inv_def)
  then have "length (ordered @ k # queue) \<le> length keys"
    using 2 by (metis card_mono distinct_card finite_set synth_inv_def)
  then show ?case using 2 by simp
next
  case (3 fuel reqs keys k queue deg ordered)
  obtain deg' queue' where r: "synth_release reqs k keys deg queue = (deg', queue')" by fastforce
  show ?case
    using "3.IH"[OF r[symmetric] refl synth_inv_step[OF 3(2) r]] 3(3) r by simp
qed

lemma ordered_synth_phases:
  assumes "distinct keys"
  obtains ordered deg where "ordered_synth reqs keys = ordered @ filter (\<lambda>k. k \<notin> set ordered) keys"
    and "synth_inv reqs keys deg [] ordered"
  using synth_loop_enough[OF synth_inv_start[OF assms, of reqs], of "length keys"] that
  by (auto simp: ordered_synth_def Let_def)

lemma ordered_synth_perm:
  assumes "distinct keys"
  shows "distinct (ordered_synth reqs keys) \<and> set (ordered_synth reqs keys) = set keys"
proof -
  obtain ordered deg where o: "ordered_synth reqs keys = ordered @ filter (\<lambda>k. k \<notin> set ordered) keys"
    "synth_inv reqs keys deg [] ordered"
    using ordered_synth_phases[OF assms] by blast
  then show ?thesis using assms by (auto simp: synth_inv_def)
qed

text \<open>Without repeated requirements and without cycles nothing is left to the second phase.\<close>

lemma ordered_synth_topological:
  assumes dist: "distinct keys" and nodup: "\<forall>k \<in> set keys. distinct (reqs k)"
    and acyc: "acyclic {(u, k). k \<in> set keys \<and> u \<in> set keys \<and> u \<in> set (reqs k)}"
    and j: "j < length (ordered_synth reqs keys)"
  shows "{u \<in> set keys. u \<in> set (reqs (ordered_synth reqs keys ! j))} \<subseteq> set (take j (ordered_synth reqs keys))"
proof -
  let ?r = "{(u, k). k \<in> set keys \<and> u \<in> set keys \<and> u \<in> set (reqs k)}"
  obtain ordered deg where o: "ordered_synth reqs keys = ordered @ filter (\<lambda>k. k \<notin> set ordered) keys"
    and I: "synth_inv reqs keys deg [] ordered"
    using ordered_synth_phases[OF dist] by blast
  have no_self: "k \<notin> set (reqs k)" if "k \<in> set keys" for k
  proof
    assume "k \<in> set (reqs k)"
    then have "(k, k) \<in> ?r" using that by simp
    then show False using acyc by (metis (no_types, lifting) acyclic_def r_into_trancl)
  qed
  then have ups: "synth_ups reqs keys k = {u \<in> set keys. u \<in> set (reqs k)}" if "k \<in> set keys" for k
    using that by (auto simp: synth_ups_def)
  have degree: "synth_degree reqs keys k = card (synth_ups reqs keys k)" if "k \<in> set keys" for k
  proof -
    have "distinct (filter (\<lambda>u. u \<in> set keys) (reqs k))" using nodup that by simp
    then show ?thesis
      using ups[OF that] by (simp add: synth_degree_def flip: distinct_card) (rule arg_cong[of _ _ card], auto)
  qed
  have "set keys - set ordered = {}"
  proof (rule ccontr)
    assume ne: "set keys - set ordered \<noteq> {}"
    have "\<exists>p \<in> set keys - set ordered. (p, k) \<in> ?r" if k: "k \<in> set keys - set ordered" for k
    proof (rule ccontr)
      assume "\<not> ?thesis"
      then have "synth_ups reqs keys k \<subseteq> set ordered" using ups k by auto
      then have "set ordered \<inter> synth_ups reqs keys k = synth_ups reqs keys k" by blast
      then have "deg k = 0" using I k degree by (auto simp: synth_inv_def)
      then show False using I k by (auto simp: synth_inv_def)
    qed
    then show False using stuck_cyclic[of "set keys - set ordered" ?r] ne acyc by blast
  qed
  then have eq: "ordered_synth reqs keys = ordered" using o by (auto simp: filter_empty_conv)
  have j': "j < length ordered" using j eq by simp
  have "set ordered \<subseteq> set keys" and pre: "\<forall>j < length ordered. synth_ups reqs keys (ordered ! j) \<subseteq> set (take j ordered)"
    using I by (auto simp: synth_inv_def)
  then have "synth_ups reqs keys (ordered ! j) = {u \<in> set keys. u \<in> set (reqs (ordered ! j))}"
    using j' by (intro ups) (meson nth_mem subsetD)
  then show ?thesis
    unfolding eq using pre j' by blast
qed

section \<open>When planning cannot panic\<close>

text \<open>
  What registration guarantees: a probe unit declares no outputs and no \<open>after\<close> entries, and a group
  member's group exists.
\<close>

definition recipe_wf :: "recipe_units \<Rightarrow> bool" where
  "recipe_wf ru \<longleftrightarrow>
     (\<forall>u \<in> set (r_units ru).
        (is_probe_unit u \<longrightarrow> output_paths u = [] \<and> u_after u = [])
        \<and> (\<not> is_probe_unit u \<longrightarrow> (\<forall>gi. u_dep_kind u = StepGroup gi \<longrightarrow> gi < length (step_groups ru))))"

lemma fold_res_not: "(\<And>x s. x \<in> set xs \<Longrightarrow> f x s \<noteq> Inl e) \<Longrightarrow> fold_res f xs s \<noteq> Inl e"
  by (induction xs arbitrary: s) (auto split: sum.splits)

lemma map_res_Inl_ex: "map_res g xs = Inl e \<Longrightarrow> \<exists>x \<in> set xs. g x = Inl e"
  by (induction xs) (auto simp: bind_res_Inl_iff)

lemma synth_no_panic:
  "\<forall>k \<in> set keys. probe_meta (r_probes ru) k \<noteq> None \<Longrightarrow>
     fold_res (synth_step ru cross) keys s \<noteq> Inl Panicked"
  by (rule fold_res_not) (auto simp: synth_step_def Let_def split: option.splits)

lemma mint_no_panic:
  assumes "\<forall>p \<in> set (e_after e ! i). w_node_by_unit w p \<noteq> None"
    and "is_probe_unit (r_units (e_recipe e) ! i) \<or>
         (\<forall>gi. u_dep_kind (r_units (e_recipe e) ! i) = StepGroup gi \<longrightarrow> gi < length (step_groups (e_recipe e)))"
  shows "mint e i w \<noteq> Inl Panicked"
proof -
  have "after_deps (w_node_by_unit w) (e_after e ! i) \<noteq> Inl Panicked"
    using assms(1) by (auto simp: after_deps_def dest!: map_res_Inl_ex split: option.splits)
  moreover have "map_res (probe_dep e (w_node_by_unit w) i) ks \<noteq> Inl Panicked" for ks
    by (auto simp: probe_dep_def Let_def dest!: map_res_Inl_ex split: option.splits)
  ultimately have "unit_node_deps e i w \<noteq> Inl Panicked"
    by (auto simp: unit_node_deps_def Let_def bind_res_Inl_iff)
  then show ?thesis
    using assms(2)
    by (auto simp: mint_def Let_def bind_res_Inl_iff is_probe_unit_def advance_def split: option.splits dep_kind.splits if_splits)
qed

lemma mint_node_by_unit:
  assumes "mint e i w = Inr w'"
  shows "w_node_by_unit w' = (w_node_by_unit w)(i \<mapsto> length (w_nodes w))"
  using assms by (cases rule: mint_cases) simp_all

lemma walk_step_node_by_unit:
  assumes "walk_step e i w = Inr w'"
  shows "w_node_by_unit w p \<noteq> None \<Longrightarrow> w_node_by_unit w' p \<noteq> None"
    and "\<not> skipped (r_units (e_recipe e)) (e_consumed e) i \<Longrightarrow> w_node_by_unit w' i \<noteq> None"
  using assms by (auto simp: walk_step_def Let_def split: if_splits option.splits dest!: mint_node_by_unit)

lemma walk_no_panic:
  assumes "\<And>pre i post. is = pre @ i # post \<Longrightarrow>
      (\<forall>p \<in> set (e_after e ! i).
         (p \<in> set pre \<and> \<not> skipped (r_units (e_recipe e)) (e_consumed e) p) \<or> w_node_by_unit w p \<noteq> None)
      \<and> (is_probe_unit (r_units (e_recipe e) ! i) \<or>
         (\<forall>gi. u_dep_kind (r_units (e_recipe e) ! i) = StepGroup gi \<longrightarrow> gi < length (step_groups (e_recipe e))))"
  shows "fold_res (walk_step e) is w \<noteq> Inl Panicked"
  using assms
proof (induction "is" arbitrary: w)
  case Nil
  then show ?case by simp
next
  case (Cons i "is")
  have first: "(\<forall>p \<in> set (e_after e ! i). w_node_by_unit w p \<noteq> None)
      \<and> (is_probe_unit (r_units (e_recipe e) ! i) \<or>
         (\<forall>gi. u_dep_kind (r_units (e_recipe e) ! i) = StepGroup gi \<longrightarrow> gi < length (step_groups (e_recipe e))))"
    using Cons.prems[of "[]" i "is"] by auto
  then have "walk_step e i w \<noteq> Inl Panicked"
    using mint_no_panic[of e i w] by (auto simp: walk_step_def Let_def split: option.splits)
  moreover have "fold_res (walk_step e) is w' \<noteq> Inl Panicked" if w': "walk_step e i w = Inr w'" for w'
  proof (rule Cons.IH)
    fix pre j post assume "is = pre @ j # post"
    then have "i # is = (i # pre) @ j # post" by simp
    from Cons.prems[OF this]
    show "(\<forall>p \<in> set (e_after e ! j).
         (p \<in> set pre \<and> \<not> skipped (r_units (e_recipe e)) (e_consumed e) p) \<or> w_node_by_unit w' p \<noteq> None)
      \<and> (is_probe_unit (r_units (e_recipe e) ! j) \<or>
         (\<forall>gi. u_dep_kind (r_units (e_recipe e) ! j) = StepGroup gi \<longrightarrow> gi < length (step_groups (e_recipe e))))"
      using walk_step_node_by_unit[OF w'] by fastforce
  qed
  ultimately show ?case by (auto split: sum.splits)
qed

lemma place_probes_perm:
  "distinct pending \<Longrightarrow> set (place_probes units bk placed pending) = set pending
     \<and> distinct (place_probes units bk placed pending)"
proof (induction units bk placed pending rule: place_probes.induct)
  case (1 units bk placed pending)
  let ?P = "\<lambda>i. list_all (\<lambda>k. k \<notin> bk \<or> k \<in> placed) (u_probes (units ! i))"
  show ?case
  proof (cases "List.extract ?P pending")
    case None
    then show ?thesis using 1(2) by (simp add: place_probes.simps[of units bk placed pending])
  next
    case (Some t)
    obtain ys i zs where t: "t = (ys, i, zs)" by (cases t)
    then have "pending = ys @ i # zs" using Some by (simp add: extract_Some_iff)
    moreover have "set (place_probes units bk
          (case probe_key_of (payload (units ! i)) of Some k \<Rightarrow> insert k placed | None \<Rightarrow> placed) (ys @ zs)) = set (ys @ zs)
        \<and> distinct (place_probes units bk
          (case probe_key_of (payload (units ! i)) of Some k \<Rightarrow> insert k placed | None \<Rightarrow> placed) (ys @ zs))"
      by (rule "1.IH"[OF Some[unfolded t] refl refl]) (use 1(2) calculation in simp)
    moreover have "place_probes units bk placed pending = i # place_probes units bk
          (case probe_key_of (payload (units ! i)) of Some k \<Rightarrow> insert k placed | None \<Rightarrow> placed) (ys @ zs)"
      by (subst place_probes.simps, subst Some[unfolded t]) (simp only: option.case prod.case)
    ultimately show ?thesis
      using 1(2) by simp
  qed
qed

lemma walk_order_perm: "set (walk_order units) = {..<length units} \<and> distinct (walk_order units)"
  using place_probes_perm[of "filter (\<lambda>i. is_probe_unit (units ! i)) [0..<length units]"]
  by (auto simp: walk_order_def)

lemma split_second:
  assumes "xs @ ys = pre @ i # post" and "i \<notin> set xs"
  shows "\<exists>pre'. pre = xs @ pre' \<and> ys = pre' @ i # post"
  using assms
proof (induction xs arbitrary: pre)
  case Nil
  then show ?case by simp
next
  case (Cons x xs)
  then obtain pre1 where "pre = x # pre1" by (cases pre) auto
  then show ?case using Cons.IH[of pre1] Cons.prems by auto
qed

lemma declarers_outputs: "p \<in> set (declarers units key) \<Longrightarrow> p < length units \<and> output_paths (units ! p) \<noteq> []"
  by (auto simp: declarers_def)

lemma plan_recipe_no_panic:
  assumes wf: "recipe_wf ru"
  shows "plan_recipe ru st \<noteq> Inl Panicked"
proof
  let ?units = "r_units ru"
  let ?F = "filter (\<lambda>i. \<not> is_probe_unit (?units ! i)) [0..<length ?units]"
  assume bad: "plan_recipe ru st = Inl Panicked"
  obtain after where after: "resolve_after ?units = Inr after"
    using bad by (cases "resolve_after ?units") (auto simp: plan_recipe_def)
  have keys: "\<forall>k \<in> set (recipe_synth ru). probe_meta (r_probes ru) k \<noteq> None"
    using ordered_synth_perm[of "synth_keys ru (compute_consumed_probe_keys (r_units ru) (r_probes ru))"]
    by (auto simp: recipe_synth_def synth_keys_def)
  obtain s where s: "fold_res (walk_step (recipe_env ru after st s)) (walk_order ?units) (walk_start s) = Inl Panicked"
    using bad after synth_no_panic[OF keys]
    by (auto simp: plan_recipe_def Let_def bind_res_Inl_iff recipe_env_def walk_start_def recipe_synth_def)
  have "fold_res (walk_step (recipe_env ru after st s)) (walk_order ?units) (walk_start s) \<noteq> Inl Panicked"
  proof (rule walk_no_panic)
    fix pre i post assume split: "walk_order ?units = pre @ i # post"
    have i: "i < length ?units" using walk_order_perm[of ?units] split by (metis in_set_conv_decomp lessThan_iff)
    have res: "list_all2 (\<lambda>path p. declarers ?units (strip_dot_slash path) = [p] \<and> p < i) (u_after (?units ! i)) (after ! i)"
      using after i by (simp add: resolve_after_Inr)
    have u: "?units ! i \<in> set ?units" using i by simp
    have "p \<in> set pre \<and> \<not> skipped ?units c p" if p: "p \<in> set (after ! i)" for p c
    proof -
      obtain path where d: "declarers ?units (strip_dot_slash path) = [p]" "p < i"
        using res p by (auto simp: list_all2_conv_all_nth in_set_conv_nth)
      then have "p < length ?units" "output_paths (?units ! p) \<noteq> []"
        using declarers_outputs[of p ?units "strip_dot_slash path"] by simp_all
      then have np: "\<not> is_probe_unit (?units ! p)" "p \<in> set ?F"
        using wf by (auto simp: recipe_wf_def)
      have "\<not> is_probe_unit (?units ! i)"
        using wf u res p by (auto simp: recipe_wf_def)
      then have "i \<notin> set (place_probes ?units (set (List.map_filter (\<lambda>u. probe_key_of (payload u)) ?units)) {}
          (filter (\<lambda>i. is_probe_unit (?units ! i)) [0..<length ?units]))"
        using place_probes_perm[of "filter (\<lambda>i. is_probe_unit (?units ! i)) [0..<length ?units]"] by auto
      then obtain pre' where pre': "\<exists>xs. pre = xs @ pre'" "?F = pre' @ i # post"
        using split_second split unfolding walk_order_def by metis
      have "sorted_wrt (<) ?F" by (intro sorted_wrt_filter) simp
      then have "p \<in> set pre'" using np(2) d(2) unfolding pre'(2) by (auto simp: sorted_wrt_append)
      then show ?thesis
        using pre'(1) np(1) by (auto simp: skipped_def is_probe_unit_def)
    qed
    then show "(\<forall>p \<in> set (e_after (recipe_env ru after st s) ! i).
         (p \<in> set pre \<and> \<not> skipped (r_units (e_recipe (recipe_env ru after st s))) (e_consumed (recipe_env ru after st s)) p)
         \<or> w_node_by_unit (walk_start s) p \<noteq> None)
      \<and> (is_probe_unit (r_units (e_recipe (recipe_env ru after st s)) ! i) \<or>
         (\<forall>gi. u_dep_kind (r_units (e_recipe (recipe_env ru after st s)) ! i) = StepGroup gi \<longrightarrow>
            gi < length (step_groups (e_recipe (recipe_env ru after st s)))))"
      using wf u by (auto simp: recipe_env_def recipe_wf_def)
  qed
  then show False using s by simp
qed

section \<open>Which nodes there are\<close>

definition find_recipe :: "recipe_units list \<Rightarrow> str \<Rightarrow> recipe_units option" where
  "find_recipe rs r = List.find (\<lambda>ru. recipe_name ru = r) rs"

text \<open>The probe a node runs, if it runs one: its workspace-qualified key.\<close>

fun origin_key :: "recipe_units list \<Rightarrow> node_origin \<Rightarrow> qualified_probe_key option" where
  "origin_key rs (OriginSynthProbe r k) = Some (qualify_for_recipe r k)"
| "origin_key rs (OriginUnit r i) =
     (case find_recipe rs r of
        None \<Rightarrow> None
      | Some ru \<Rightarrow> map_option (qualify_for_recipe r) (probe_key_of (payload (r_units ru ! i))))"

definition unit_origins :: "recipe_units \<Rightarrow> node_origin list" where
  "unit_origins ru =
     map (OriginUnit (recipe_name ru)) (filter (\<lambda>i. \<not> is_probe_unit (r_units ru ! i)) [0..<length (r_units ru)])"

lemma find_recipe_mem:
  "distinct (map recipe_name rs) \<Longrightarrow> ru \<in> set rs \<Longrightarrow> find_recipe rs (recipe_name ru) = Some ru"
  by (induction rs) (auto simp: find_recipe_def image_iff)

definition keyed :: "recipe_units list \<Rightarrow> unit_graph_node list \<Rightarrow> (qualified_probe_key \<rightharpoonup> nat) \<Rightarrow> bool" where
  "keyed rs ns g \<longleftrightarrow>
     (\<forall>q i. g q = Some i \<longleftrightarrow> i < length ns \<and> origin_key rs (origin (ns ! i)) = Some q)"

lemma keyed_Nil: "keyed rs [] Map.empty"
  by (simp add: keyed_def)

lemma keyed_probe:
  assumes "keyed rs ns g" and "g q = None" and "origin_key rs og = Some q"
  shows "keyed rs (ns @ [\<lparr>origin = og, node_deps = deps\<rparr>]) (g(q \<mapsto> length ns))"
  unfolding keyed_def
proof (intro allI)
  fix q' i
  have "i < length ns \<Longrightarrow> origin_key rs (origin (ns ! i)) \<noteq> Some q"
    using assms(1,2) by (metis keyed_def option.distinct(1))
  then show "(g(q \<mapsto> length ns)) q' = Some i \<longleftrightarrow>
      i < length (ns @ [\<lparr>origin = og, node_deps = deps\<rparr>])
      \<and> origin_key rs (origin ((ns @ [\<lparr>origin = og, node_deps = deps\<rparr>]) ! i)) = Some q'"
    using assms(1,3) by (cases "i = length ns") (auto simp: keyed_def nth_append less_Suc_eq)
qed

lemma keyed_plain:
  assumes "keyed rs ns g" and "origin_key rs og = None"
  shows "keyed rs (ns @ [\<lparr>origin = og, node_deps = deps\<rparr>]) g"
  using assms by (auto simp: keyed_def nth_append less_Suc_eq)

text \<open>A consumer is wired to the node of each probe key it names.\<close>

definition wired :: "recipe_units list \<Rightarrow> unit_graph_node list \<Rightarrow> unit_graph_node \<Rightarrow> bool" where
  "wired rs ns n \<longleftrightarrow>
     (\<forall>r i ru. origin n = OriginUnit r i \<longrightarrow> find_recipe rs r = Some ru \<longrightarrow>
        (\<forall>k \<in> set (u_probes (r_units ru ! i)).
           \<exists>d < length ns. (d, ProbeEdge) \<in> set (node_deps n)
             \<and> origin_key rs (origin (ns ! d)) = Some (qualify_for_recipe r k)))"

lemma wired_snoc: "wired rs ns n \<Longrightarrow> wired rs (ns @ [m]) n"
  unfolding wired_def by (fastforce simp: nth_append less_Suc_eq)

text \<open>What the synthesis and the walk keep, for the recipe they work on.\<close>

definition synth_track :: "recipe_units list \<Rightarrow> recipe_units \<Rightarrow> synth_state \<Rightarrow> bool" where
  "synth_track rs ru s \<longleftrightarrow>
     keyed rs (s_nodes s) (s_global s) \<and> (\<forall>n \<in> set (s_nodes s). wired rs (s_nodes s) n)
     \<and> (\<forall>k i. s_ids s k = Some i \<longrightarrow> s_global s (qualify_for_recipe (recipe_name ru) k) = Some i)"

definition walk_track :: "recipe_units list \<Rightarrow> walk_env \<Rightarrow> walk_state \<Rightarrow> bool" where
  "walk_track rs e w \<longleftrightarrow>
     (let ru = e_recipe e in
      keyed rs (w_nodes w) (w_global w) \<and> (\<forall>n \<in> set (w_nodes w). wired rs (w_nodes w) n)
      \<and> (\<forall>k i. e_synth e k = Some i \<longrightarrow> w_global w (qualify_for_recipe (recipe_name ru) k) = Some i)
      \<and> (\<forall>j i k. w_node_by_unit w j = Some i \<longrightarrow> probe_key_of (payload (r_units ru ! j)) = Some k \<longrightarrow>
            w_global w (qualify_for_recipe (recipe_name ru) k) = Some i))"

lemma qualify_inj: "qualify_for_recipe r k = qualify_for_recipe r k' \<longleftrightarrow> k = k'"
  by (auto simp: qualify_for_recipe_def qualified_key_def qualified_name_def)

lemma synth_step_track:
  assumes "synth_step ru cross key s = Inr s'" and T: "synth_track rs ru s"
  shows "synth_track rs ru s'"
  using assms(1)
proof (cases rule: synth_step_cases)
  case (reuse existing)
  then show ?thesis using T by (auto simp: synth_track_def)
next
  case (fresh meta deps)
  let ?q = "qualify_for_recipe (recipe_name ru) key"
  have "keyed rs (s_nodes s') (s_global s')"
    using keyed_probe[of rs "s_nodes s" "s_global s" ?q] T fresh(1,4) by (simp add: synth_track_def)
  moreover have "\<forall>n \<in> set (s_nodes s'). wired rs (s_nodes s') n"
    using T fresh(4) wired_snoc by (auto simp: synth_track_def wired_def)
  moreover have "\<forall>k i. s_ids s' k = Some i \<longrightarrow> s_global s' (qualify_for_recipe (recipe_name ru) k) = Some i"
    using T fresh(1,4) by (auto simp: synth_track_def qualify_inj)
  ultimately show ?thesis by (simp add: synth_track_def)
qed

lemma probe_unit_index_Some:
  "probe_unit_index units k = Some i \<Longrightarrow> i < length units \<and> probe_key_of (payload (units ! i)) = Some k"
  unfolding probe_unit_index_def last_of_def by (drule map_of_SomeD) (auto simp: map_filter_set)

lemma unit_node_wired:
  assumes d: "unit_node_deps e i w = Inr deps" and T: "walk_track rs e w"
    and k: "k \<in> set (u_probes (r_units (e_recipe e) ! i))"
  shows "\<exists>d. (d, ProbeEdge) \<in> set deps \<and> w_global w (qualify_for_recipe (recipe_name (e_recipe e)) k) = Some d"
proof -
  let ?u = "r_units (e_recipe e) ! i"
  obtain after probes where p: "map_res (probe_dep e (w_node_by_unit w) i) (u_probes ?u) = Inr probes"
    and deps: "set deps = set (base_deps e ?u (w_barrier w) @ fine_deps e i @ after @ probes)"
    using d by (auto simp: unit_node_deps_def Let_def bind_res_Inr_iff)
  obtain j where j: "j < length (u_probes ?u)" "u_probes ?u ! j = k"
    using k by (auto simp: in_set_conv_nth)
  define q where "q = probes ! j"
  have q: "q \<in> set probes" "probe_dep e (w_node_by_unit w) i k = Inr q"
    using p j by (auto simp: map_res_Inr list_all2_conv_all_nth q_def)
  then obtain nid where nid: "q = (nid, ProbeEdge)"
    "(\<exists>j. probe_unit_index (r_units (e_recipe e)) k = Some j \<and> w_node_by_unit w j = Some nid) \<or> e_synth e k = Some nid"
    by (auto simp: probe_dep_Inr)
  then have "w_global w (qualify_for_recipe (recipe_name (e_recipe e)) k) = Some nid"
    using T probe_unit_index_Some by (auto simp: walk_track_def Let_def)
  then show ?thesis using q(1) nid(1) deps by auto
qed

lemma mint_track:
  assumes m: "mint e i w = Inr w'" and T: "walk_track rs e w"
    and ru: "find_recipe rs (recipe_name (e_recipe e)) = Some (e_recipe e)"
    and fresh: "\<And>k. probe_key_of (payload (r_units (e_recipe e) ! i)) = Some k \<Longrightarrow>
        w_global w (qualify_for_recipe (recipe_name (e_recipe e)) k) = None"
    and new: "w_node_by_unit w i = None"
  shows "walk_track rs e w'"
proof -
  let ?name = "recipe_name (e_recipe e)"
  have K: "keyed rs (w_nodes w) (w_global w)" and W: "\<forall>n \<in> set (w_nodes w). wired rs (w_nodes w) n"
    using T by (simp_all add: walk_track_def Let_def)
  have wired_new: "wired rs (w_nodes w @ [n]) n"
    if n: "n = \<lparr>origin = OriginUnit ?name i, node_deps = deps\<rparr>" and d: "unit_node_deps e i w = Inr deps" for n deps
    unfolding wired_def
  proof (intro allI impI ballI)
    fix r j ru' k
    assume a: "origin n = OriginUnit r j" "find_recipe rs r = Some ru'" "k \<in> set (u_probes (r_units ru' ! j))"
    then have eq: "r = ?name" "j = i" "ru' = e_recipe e" using n ru by auto
    then obtain d' where d': "(d', ProbeEdge) \<in> set deps" "w_global w (qualify_for_recipe ?name k) = Some d'"
      using unit_node_wired[OF d T] a(3) by blast
    then have "d' < length (w_nodes w)" "origin_key rs (origin (w_nodes w ! d')) = Some (qualify_for_recipe ?name k)"
      using K by (auto simp: keyed_def)
    then show "\<exists>d < length (w_nodes w @ [n]). (d, ProbeEdge) \<in> set (node_deps n)
        \<and> origin_key rs (origin ((w_nodes w @ [n]) ! d)) = Some (qualify_for_recipe r k)"
      using d'(1) n eq(1) by (intro exI[of _ d']) (simp add: nth_append)
  qed
  show ?thesis
    using m
  proof (cases rule: mint_cases)
    case (probe deps k)
    have g: "w_global w (qualify_for_recipe ?name k) = None" by (rule fresh[OF probe(2)])
    have "keyed rs (w_nodes w') (w_global w')"
      using keyed_probe[OF K g, of "OriginUnit ?name i"] probe(2,3) ru by simp
    moreover have "\<forall>n \<in> set (w_nodes w'). wired rs (w_nodes w') n"
      using W wired_snoc wired_new[OF refl probe(1)] probe(3) by auto
    ultimately show ?thesis
      using T probe g new by (auto simp: walk_track_def Let_def qualify_inj)
  next
    case (unit deps groups barrier)
    have "keyed rs (w_nodes w') (w_global w')"
      using keyed_plain[OF K, of "OriginUnit ?name i"] unit(2,3) ru by simp
    moreover have "\<forall>n \<in> set (w_nodes w'). wired rs (w_nodes w') n"
      using W wired_snoc wired_new[OF refl unit(1)] unit(3) by auto
    ultimately show ?thesis
      using T unit(2,3) by (auto simp: walk_track_def Let_def)
  qed
qed

lemma walk_step_track:
  assumes s: "walk_step e i w = Inr w'" and T: "walk_track rs e w"
    and ru: "find_recipe rs (recipe_name (e_recipe e)) = Some (e_recipe e)"
    and new: "w_node_by_unit w i = None"
  shows "walk_track rs e w'"
proof -
  let ?q = "qualify_for_recipe (recipe_name (e_recipe e))"
  have reuse: "walk_track rs e (w\<lparr>w_node_by_unit := (w_node_by_unit w)(i \<mapsto> x)\<rparr>)"
    if "probe_key_of (payload (r_units (e_recipe e) ! i)) = Some k" "w_global w (?q k) = Some x" for k x
    using T that by (auto simp: walk_track_def Let_def)
  show ?thesis
  proof (cases "skipped (r_units (e_recipe e)) (e_consumed e) i")
    case True
    then show ?thesis using s T by (simp add: walk_step_def Let_def)
  next
    case ns: False
    show ?thesis
    proof (cases "probe_key_of (payload (r_units (e_recipe e) ! i))")
      case None
      then have "mint e i w = Inr w'" using s ns by (simp add: walk_step_def Let_def)
      then show ?thesis by (rule mint_track[OF _ T ru _ new]) (simp add: None)
    next
      case (Some k)
      show ?thesis
      proof (cases "w_global w (?q k)")
        case None
        then have "mint e i w = Inr w'" using s ns Some by (simp add: walk_step_def Let_def)
        then show ?thesis by (rule mint_track[OF _ T ru _ new]) (use None Some in simp)
      next
        case (Some x)
        then have "w' = w\<lparr>w_node_by_unit := (w_node_by_unit w)(i \<mapsto> x)\<rparr>"
          using s ns \<open>probe_key_of _ = Some k\<close> by (simp add: walk_step_def Let_def)
        then show ?thesis using reuse[OF \<open>probe_key_of _ = Some k\<close> Some] by simp
      qed
    qed
  qed
qed

lemma walk_step_domain:
  assumes "walk_step e i w = Inr w'"
  shows "dom (w_node_by_unit w') \<subseteq> insert i (dom (w_node_by_unit w))"
  using assms by (auto simp: walk_step_def Let_def split: if_splits option.splits dest!: mint_node_by_unit)

lemma walk_fold_track:
  assumes "fold_res (walk_step e) is w = Inr w'" and "walk_track rs e w"
    and "find_recipe rs (recipe_name (e_recipe e)) = Some (e_recipe e)"
    and "distinct is" and "set is \<inter> dom (w_node_by_unit w) = {}"
  shows "walk_track rs e w'"
  using assms
proof (induction "is" arbitrary: w)
  case Nil
  then show ?case by simp
next
  case (Cons i "is")
  obtain w1 where w1: "walk_step e i w = Inr w1" "fold_res (walk_step e) is w1 = Inr w'"
    using Cons.prems(1) by (auto split: sum.splits)
  have "walk_track rs e w1"
    using Cons.prems by (intro walk_step_track[OF w1(1)]) auto
  moreover have "set is \<inter> dom (w_node_by_unit w1) = {}"
    using walk_step_domain[OF w1(1)] Cons.prems(4,5) by auto
  ultimately show ?case using Cons.IH[OF w1(2)] Cons.prems by simp
qed

definition plan_track :: "recipe_units list \<Rightarrow> plan_state \<Rightarrow> bool" where
  "plan_track rs st \<longleftrightarrow>
     keyed rs (p_nodes st) (p_global st) \<and> (\<forall>n \<in> set (p_nodes st). wired rs (p_nodes st) n)"

lemma plan_recipe_track:
  assumes "plan_recipe ru st = Inr st'" and T: "plan_track rs st"
    and dist: "distinct (map recipe_name rs)" and ru: "ru \<in> set rs"
  shows "plan_track rs st'"
  using assms(1)
proof (cases rule: plan_recipe_Inr)
  case (1 after s w)
  have "synth_track rs ru s"
    by (rule fold_res_invariant[OF 1(2)])
      (use T synth_step_track in \<open>auto simp: synth_track_def plan_track_def synth_start_def\<close>)
  then have "walk_track rs (recipe_env ru after st s) (walk_start s)"
    by (simp add: synth_track_def walk_track_def recipe_env_def walk_start_def)
  then have "walk_track rs (recipe_env ru after st s) w"
    using find_recipe_mem[OF dist ru] walk_order_perm[of "r_units ru"]
    by (intro walk_fold_track[OF 1(3)]) (simp_all add: recipe_env_def walk_start_def)
  then show ?thesis using 1(4) by (simp add: walk_track_def plan_track_def Let_def)
qed

lemma plan_Inr:
  assumes "plan rs = Inr ns"
  obtains st where "fold_res plan_recipe rs \<lparr>p_nodes = [], p_leaves = Map.empty, p_global = Map.empty\<rparr> = Inr st"
    and "ns = p_nodes st" and "dangling_dep_edge rs = None"
  using assms by (auto simp: plan_def bind_res_Inr_iff split: option.splits)

lemma plan_tracked:
  assumes "plan rs = Inr ns" and "distinct (map recipe_name rs)"
  shows "\<exists>g. keyed rs ns g" and "\<forall>n \<in> set ns. wired rs ns n"
proof -
  obtain st where st: "fold_res plan_recipe rs \<lparr>p_nodes = [], p_leaves = Map.empty, p_global = Map.empty\<rparr> = Inr st"
    "ns = p_nodes st"
    using plan_Inr[OF assms(1)] by blast
  have "plan_track rs st"
    by (rule fold_res_invariant[OF st(1)])
      (use plan_recipe_track assms(2) in \<open>auto simp: plan_track_def keyed_Nil\<close>)
  then show "\<exists>g. keyed rs ns g" and "\<forall>n \<in> set ns. wired rs ns n"
    using st(2) by (auto simp: plan_track_def)
qed

text \<open>The nodes of non-probe units: all of them, once, in order.\<close>

definition plain_part :: "recipe_units list \<Rightarrow> unit_graph_node list \<Rightarrow> node_origin list" where
  "plain_part rs ns = filter (\<lambda>og. og \<in> set (concat (map unit_origins rs))) (map origin ns)"

lemma unit_origin_mem:
  assumes "distinct (map recipe_name rs)" and "ru \<in> set rs" and "i < length (r_units ru)"
  shows "OriginUnit (recipe_name ru) i \<in> set (concat (map unit_origins rs)) \<longleftrightarrow> \<not> is_probe_unit (r_units ru ! i)"
proof -
  have "ru' = ru" if "ru' \<in> set rs" "recipe_name ru' = recipe_name ru" for ru'
    using that assms(1,2) by (metis find_recipe_mem option.inject)
  then show ?thesis using assms(2,3) by (force simp: unit_origins_def)
qed

lemma synth_step_plain:
  assumes "synth_step ru cross k t = Inr t'"
  shows "plain_part rs (s_nodes t') = plain_part rs (s_nodes t)"
  using assms
proof (cases rule: synth_step_cases)
  case (reuse existing)
  then show ?thesis by simp
next
  case (fresh meta deps)
  have "OriginSynthProbe r k \<notin> set (concat (map unit_origins rs))" for r k
    by (auto simp: unit_origins_def)
  then show ?thesis using fresh(4) by (simp add: plain_part_def del: set_concat)
qed

lemma synth_fold_plain:
  assumes "fold_res (synth_step ru cross) keys s = Inr s'"
  shows "plain_part rs (s_nodes s') = plain_part rs (s_nodes s)"
  by (rule fold_res_invariant[OF assms]) (simp_all add: synth_step_plain)

lemma mint_nodes:
  "mint e i w = Inr w' \<Longrightarrow> \<exists>deps. w_nodes w' = w_nodes w @ [\<lparr>origin = OriginUnit (recipe_name (e_recipe e)) i, node_deps = deps\<rparr>]"
  by (erule mint_cases) auto

lemma walk_step_plain:
  assumes s: "walk_step e i w = Inr w'" and dist: "distinct (map recipe_name rs)" and ru: "e_recipe e \<in> set rs"
    and i: "i < length (r_units (e_recipe e))"
  shows "plain_part rs (w_nodes w') = plain_part rs (w_nodes w)
     @ (if is_probe_unit (r_units (e_recipe e) ! i) then [] else [OriginUnit (recipe_name (e_recipe e)) i])"
proof -
  have minted: "?thesis" if "mint e i w = Inr w'"
    using mint_nodes[OF that] unit_origin_mem[OF dist ru i] by (auto simp: plain_part_def)
  show ?thesis
  proof (cases "probe_key_of (payload (r_units (e_recipe e) ! i))")
    case None
    then have "mint e i w = Inr w'" using s by (simp add: walk_step_def Let_def skipped_def)
    then show ?thesis by (rule minted)
  next
    case (Some k)
    then have "w_nodes w' = w_nodes w \<or> mint e i w = Inr w'"
      using s by (auto simp: walk_step_def Let_def split: if_splits option.splits)
    then show ?thesis using minted Some by (auto simp: is_probe_unit_def)
  qed
qed

lemma walk_fold_plain:
  assumes "fold_res (walk_step e) is w = Inr w'" and "distinct (map recipe_name rs)" and "e_recipe e \<in> set rs"
    and "set is \<subseteq> {..<length (r_units (e_recipe e))}"
  shows "plain_part rs (w_nodes w') = plain_part rs (w_nodes w)
     @ map (OriginUnit (recipe_name (e_recipe e))) (filter (\<lambda>i. \<not> is_probe_unit (r_units (e_recipe e) ! i)) is)"
  using assms
proof (induction "is" arbitrary: w)
  case Nil
  then show ?case by simp
next
  case (Cons i "is")
  obtain w1 where w1: "walk_step e i w = Inr w1" "fold_res (walk_step e) is w1 = Inr w'"
    using Cons.prems(1) by (auto split: sum.splits)
  show ?case
    using Cons.IH[OF w1(2)] walk_step_plain[OF w1(1) Cons.prems(2,3)] Cons.prems by auto
qed

lemma walk_order_plain:
  "filter (\<lambda>i. \<not> is_probe_unit (units ! i)) (walk_order units) = filter (\<lambda>i. \<not> is_probe_unit (units ! i)) [0..<length units]"
  using place_probes_perm[of "filter (\<lambda>i. is_probe_unit (units ! i)) [0..<length units]"]
  by (auto simp: walk_order_def filter_empty_conv)

lemma plan_recipe_plain:
  assumes "plan_recipe ru st = Inr st'" and dist: "distinct (map recipe_name rs)" and ru: "ru \<in> set rs"
  shows "plain_part rs (p_nodes st') = plain_part rs (p_nodes st) @ unit_origins ru"
  using assms(1)
proof (cases rule: plan_recipe_Inr)
  case (1 after s w)
  have "plain_part rs (w_nodes w) = plain_part rs (s_nodes s) @ unit_origins ru"
    using walk_fold_plain[OF 1(3) dist] ru walk_order_perm[of "r_units ru"] walk_order_plain[of "r_units ru"]
    by (simp add: recipe_env_def walk_start_def unit_origins_def)
  then show ?thesis
    using 1(4) synth_fold_plain[OF 1(2)] by (simp add: synth_start_def)
qed

lemma plan_fold_plain:
  assumes "fold_res plan_recipe xs st = Inr st'" and "distinct (map recipe_name rs)" and "set xs \<subseteq> set rs"
  shows "plain_part rs (p_nodes st') = plain_part rs (p_nodes st) @ concat (map unit_origins xs)"
  using assms
proof (induction xs arbitrary: st)
  case Nil
  then show ?case by simp
next
  case (Cons ru xs)
  obtain st1 where "plan_recipe ru st = Inr st1" "fold_res plan_recipe xs st1 = Inr st'"
    using Cons.prems(1) by (auto split: sum.splits)
  then show ?case using Cons plan_recipe_plain by simp
qed

section \<open>Examples\<close>

definition probe_decl :: "str \<Rightarrow> str list \<Rightarrow> probe_unit" where
  "probe_decl k reqs =
     \<lparr>p_key = k, produce_source = ''return 1'', produce_line = 1,
      p_inputs = \<lparr>in_tools = [], in_files = [], in_requires = reqs\<rparr>, p_covers = []\<rparr>"

definition recipe_of :: "str \<Rightarrow> str list \<Rightarrow> captured_unit list \<Rightarrow> (nat \<times> str) list \<Rightarrow> probe_unit list \<Rightarrow> recipe_units" where
  "recipe_of name deps units edges probes =
     \<lparr>recipe_name = name, r_deps = deps, r_units = units, step_groups = [], working_dir = [],
      env_vars = Map.empty, terminal_outputs = [], dep_edges = edges, r_probes = probes\<rparr>"

text \<open>A library that generates a header and compiles with a probed compiler, and its consumer.\<close>

definition demo_closure :: "recipe_units list" where
  "demo_closure =
     [recipe_of ''lib'' []
        [shell_unit ''gen'' [] [''gen.h''] [] Sequential,
         shell_unit ''cc'' [''cc''] [''lib.o''] [''./gen.h''] Sequential] [] [probe_decl ''cc'' [''os''], probe_decl ''os'' []],
      recipe_of ''app'' [''lib'']
        [shell_unit ''link'' [''cc''] [''app''] [] Sequential] [(0, ''lib'')] [probe_decl ''cc'' [''os''], probe_decl ''os'' []]]"

definition demo_nodes :: "unit_graph_node list" where
  "demo_nodes =
     [\<lparr>origin = OriginSynthProbe ''lib'' ''os'', node_deps = []\<rparr>,
      \<lparr>origin = OriginSynthProbe ''lib'' ''cc'', node_deps = [(0, ProbeEdge)]\<rparr>,
      \<lparr>origin = OriginUnit ''lib'' 0, node_deps = []\<rparr>,
      \<lparr>origin = OriginUnit ''lib'' 1, node_deps = [(2, Serial), (2, UnitOrder), (1, ProbeEdge)]\<rparr>,
      \<lparr>origin = OriginUnit ''app'' 0, node_deps = [(3, Barrier), (3, DepOrder), (1, ProbeEdge)]\<rparr>]"

lemma demo_plan: "plan demo_closure = Inr demo_nodes"
  by code_simp

section \<open>How planning fails\<close>

lemma fold_res_Inl_ex: "fold_res f xs s = Inl e \<Longrightarrow> \<exists>x \<in> set xs. \<exists>t. f x t = Inl e"
  by (induction xs arbitrary: s) (auto split: sum.splits)

lemma unit_node_deps_error:
  assumes "unit_node_deps e i w = Inl (Failed x)"
  shows "\<exists>k \<in> set (u_probes (r_units (e_recipe e) ! i)).
     x = UnscheduledProbe (recipe_name (e_recipe e)) (unit_label (r_units (e_recipe e)) i) k"
proof -
  have "after_deps (w_node_by_unit w) ps \<noteq> Inl (Failed x)" for ps
    by (auto simp: after_deps_def dest!: map_res_Inl_ex split: option.splits)
  then have "map_res (probe_dep e (w_node_by_unit w) i) (u_probes (r_units (e_recipe e) ! i)) = Inl (Failed x)"
    using assms by (auto simp: unit_node_deps_def Let_def bind_res_Inl_iff)
  then show ?thesis
    by (auto dest!: map_res_Inl_ex simp: probe_dep_def Let_def split: option.splits)
qed

lemma walk_step_error:
  assumes "walk_step e i w = Inl (Failed x)"
  shows "\<exists>k \<in> set (u_probes (r_units (e_recipe e) ! i)).
     x = UnscheduledProbe (recipe_name (e_recipe e)) (unit_label (r_units (e_recipe e)) i) k"
proof -
  have "mint e i w = Inl (Failed x)"
    using assms by (auto simp: walk_step_def Let_def split: if_splits option.splits)
  then have "unit_node_deps e i w = Inl (Failed x)"
    by (auto simp: mint_def Let_def bind_res_Inl_iff advance_def split: option.splits dep_kind.splits if_splits)
  then show ?thesis by (rule unit_node_deps_error)
qed

lemma plan_recipe_error:
  assumes "plan_recipe ru st = Inl (Failed x)"
  shows "(\<exists>e. resolve_after (r_units ru) = Inl e \<and> x = AfterFailed (recipe_name ru) e)
     \<or> (\<exists>i < length (r_units ru). \<exists>k \<in> set (u_probes (r_units ru ! i)).
          x = UnscheduledProbe (recipe_name ru) (unit_label (r_units ru) i) k)"
proof (cases "resolve_after (r_units ru)")
  case (Inl e)
  then show ?thesis using assms by (auto simp: plan_recipe_def)
next
  case (Inr after)
  have "fold_res (synth_step ru c) ks s \<noteq> Inl (Failed x)" for c ks s
    by (rule fold_res_not) (auto simp: synth_step_def Let_def split: option.splits)
  then obtain s where "fold_res (walk_step (recipe_env ru after st s)) (walk_order (r_units ru)) (walk_start s) = Inl (Failed x)"
    using assms Inr by (auto simp: plan_recipe_def Let_def bind_res_Inl_iff recipe_env_def walk_start_def)
  then obtain i w where "i \<in> set (walk_order (r_units ru))" "walk_step (recipe_env ru after st s) i w = Inl (Failed x)"
    using fold_res_Inl_ex by meson
  then show ?thesis
    using walk_step_error walk_order_perm[of "r_units ru"] by (fastforce simp: recipe_env_def)
qed

lemma dangling_Some:
  "dangling_dep_edge rs = Some x \<Longrightarrow>
     \<exists>ru \<in> set rs. \<exists>i dep. (i, dep) \<in> set (dep_edges ru) \<and> dep \<notin> recipe_name ` set rs
        \<and> x = DanglingDepEdge (recipe_name ru) dep"
  by (auto simp: dangling_dep_edge_def Let_def find_Some_iff dest!: nth_mem) blast

lemma dangling_None:
  "dangling_dep_edge rs = None \<longleftrightarrow> (\<forall>ru \<in> set rs. \<forall>(i, dep) \<in> set (dep_edges ru). dep \<in> recipe_name ` set rs)"
  by (fastforce simp: dangling_dep_edge_def Let_def find_None_iff)

section \<open>Properties\<close>

text \<open>
  in every plan each node's dependencies are distinct and point to strictly earlier nodes,
  whatever the registered units are, so a consumer can add the nodes in order.
\<close>

theorem plan_deps_backwards:
  assumes "plan rs = Inr ns"
  shows "\<forall>k < length ns. distinct (node_deps (ns ! k)) \<and> (\<forall>p \<in> set (node_deps (ns ! k)). fst p < k)"
  using plan_nodes_ok[OF assms] by (simp add: nodes_ok_def)

lemma plan_deps_backwards_witness:
  "plan demo_closure = Inr demo_nodes \<and> list_all (\<lambda>p. fst p < 4) (node_deps (demo_nodes ! 4))"
  using plan_deps_backwards[OF demo_plan] demo_plan by (simp add: demo_nodes_def)

text \<open>
  for recipes as registration produces them (probe units without outputs and \<open>after\<close> entries,
  group members whose group exists) planning never panics, and each way it fails is one of the
  documented errors with its cause present in the input: a fine-grained edge to a recipe that is not
  in the closure, an \<open>after\<close> entry that does not resolve, or a probe key named by the labelled unit.
  It never reports a cycle, and it succeeds only when every fine-grained edge has its recipe.
\<close>

theorem plan_outcomes:
  assumes "\<forall>ru \<in> set rs. recipe_wf ru"
  shows "case plan rs of
      Inr ns \<Rightarrow> (\<forall>ru \<in> set rs. \<forall>(i, dep) \<in> set (dep_edges ru). dep \<in> recipe_name ` set rs)
    | Inl (Failed (DanglingDepEdge r dep)) \<Rightarrow>
        \<exists>ru \<in> set rs. \<exists>i. recipe_name ru = r \<and> (i, dep) \<in> set (dep_edges ru) \<and> dep \<notin> recipe_name ` set rs
    | Inl (Failed (AfterFailed r e)) \<Rightarrow> \<exists>ru \<in> set rs. recipe_name ru = r \<and> resolve_after (r_units ru) = Inl e
    | Inl (Failed (UnscheduledProbe r u k)) \<Rightarrow>
        \<exists>ru \<in> set rs. recipe_name ru = r \<and> (\<exists>i < length (r_units ru). u = unit_label (r_units ru) i
           \<and> k \<in> set (u_probes (r_units ru ! i)))
    | Inl (Failed (Cycle _)) \<Rightarrow> False
    | Inl Panicked \<Rightarrow> False"
proof (cases "dangling_dep_edge rs")
  case (Some x)
  then have p: "plan rs = Inl (Failed x)" by (simp add: plan_def)
  obtain ru i dep where "ru \<in> set rs" "(i, dep) \<in> set (dep_edges ru)" "dep \<notin> recipe_name ` set rs"
      "x = DanglingDepEdge (recipe_name ru) dep"
    using dangling_Some[OF Some] by blast
  then show ?thesis unfolding p by simp blast
next
  case None
  let ?run = "fold_res plan_recipe rs \<lparr>p_nodes = [], p_leaves = Map.empty, p_global = Map.empty\<rparr>"
  show ?thesis
  proof (cases ?run)
    case (Inr st)
    then have p: "plan rs = Inr (p_nodes st)" using None by (simp add: plan_def)
    show ?thesis using None unfolding p dangling_None by simp
  next
    case (Inl f)
    then have p: "plan rs = Inl f" using None by (simp add: plan_def)
    obtain ru st where ru: "ru \<in> set rs" "plan_recipe ru st = Inl f"
      using fold_res_Inl_ex[OF Inl] by blast
    then obtain x where x: "f = Failed x"
      using plan_recipe_no_panic assms by (cases f) auto
    show ?thesis
      using plan_recipe_error[of ru st x] ru unfolding p x by fastforce
  qed
qed

lemma plan_outcomes_witness:
  "list_all recipe_wf demo_closure \<and> plan demo_closure = Inr demo_nodes
   \<and> snd ` set (concat (map dep_edges demo_closure)) \<subseteq> recipe_name ` set demo_closure"
proof -
  have wf: "\<forall>ru \<in> set demo_closure. recipe_wf ru"
    by (simp add: demo_closure_def recipe_wf_def recipe_of_def shell_unit_def is_probe_unit_def)
  show ?thesis
    using plan_outcomes[OF wf] wf demo_plan by (fastforce simp: list_all_iff)
qed

text \<open>
  the plan of a closure with distinct recipe names has exactly one node for every non-probe unit
  of every recipe, in closure and unit order, and at most one node per workspace-qualified probe key,
  whichever recipes demand the key and whether its node was synthesised or minted from a body.
\<close>

theorem plan_nodes_exact:
  assumes "plan rs = Inr ns" and "distinct (map recipe_name rs)"
  shows "filter (\<lambda>og. og \<in> set (concat (map unit_origins rs))) (map origin ns) = concat (map unit_origins rs)
    \<and> (\<forall>i < length ns. \<forall>j < length ns.
         origin_key rs (origin (ns ! i)) \<noteq> None \<longrightarrow>
         origin_key rs (origin (ns ! i)) = origin_key rs (origin (ns ! j)) \<longrightarrow> i = j)"
proof
  obtain st where st: "fold_res plan_recipe rs \<lparr>p_nodes = [], p_leaves = Map.empty, p_global = Map.empty\<rparr> = Inr st"
    "ns = p_nodes st"
    using plan_Inr[OF assms(1)] by blast
  show "filter (\<lambda>og. og \<in> set (concat (map unit_origins rs))) (map origin ns) = concat (map unit_origins rs)"
    using plan_fold_plain[OF st(1) assms(2)] st(2) by (simp add: plain_part_def)
  obtain g where g: "keyed rs ns g" using plan_tracked(1)[OF assms] by blast
  show "\<forall>i < length ns. \<forall>j < length ns.
         origin_key rs (origin (ns ! i)) \<noteq> None \<longrightarrow>
         origin_key rs (origin (ns ! i)) = origin_key rs (origin (ns ! j)) \<longrightarrow> i = j"
  proof (intro allI impI)
    fix i j assume ij: "i < length ns" "j < length ns" "origin_key rs (origin (ns ! i)) \<noteq> None"
      "origin_key rs (origin (ns ! i)) = origin_key rs (origin (ns ! j))"
    then obtain q where "origin_key rs (origin (ns ! i)) = Some q" by blast
    then have "g q = Some i" "g q = Some j" using g ij by (simp_all add: keyed_def)
    then show "i = j" by simp
  qed
qed

lemma plan_nodes_exact_witness:
  "distinct (map recipe_name demo_closure)
   \<and> concat (map unit_origins demo_closure) = [OriginUnit ''lib'' 0, OriginUnit ''lib'' 1, OriginUnit ''app'' 0]
   \<and> filter (\<lambda>og. og \<in> set (concat (map unit_origins demo_closure))) (map origin demo_nodes)
       = concat (map unit_origins demo_closure)"
proof -
  have d: "distinct (map recipe_name demo_closure)" by (simp add: demo_closure_def recipe_of_def)
  have "concat (map unit_origins demo_closure) = [OriginUnit ''lib'' 0, OriginUnit ''lib'' 1, OriginUnit ''app'' 0]"
    by code_simp
  then show ?thesis using plan_nodes_exact[OF demo_plan d] d by blast
qed

text \<open>
  C10: a consumer never runs on an absent probe value. In a plan every node made from a unit has, for
  each probe key the unit names, a probe edge to the node of that key in the unit's own Cookfile.
\<close>

theorem plan_probes_wired:
  assumes "plan rs = Inr ns" and "distinct (map recipe_name rs)"
    and "n \<in> set ns" and "origin n = OriginUnit (recipe_name ru) i" and "ru \<in> set rs"
    and "k \<in> set (u_probes (r_units ru ! i))"
  shows "\<exists>d < length ns. (d, ProbeEdge) \<in> set (node_deps n)
     \<and> origin_key rs (origin (ns ! d)) = Some (qualify_for_recipe (recipe_name ru) k)"
proof -
  have "wired rs ns n" using plan_tracked(2)[OF assms(1,2)] assms(3) by blast
  then show ?thesis
    using find_recipe_mem[OF assms(2,5)] assms(4,6) by (auto simp: wired_def)
qed

lemma plan_probes_wired_witness:
  "\<exists>d < length demo_nodes. (d, ProbeEdge) \<in> set (node_deps (demo_nodes ! 4))
     \<and> origin_key demo_closure (origin (demo_nodes ! d)) = Some (qualify_for_recipe ''app'' ''cc'')"
proof -
  let ?app = "demo_closure ! 1"
  have "distinct (map recipe_name demo_closure)" "?app \<in> set demo_closure" "recipe_name ?app = ''app''"
    by (simp_all add: demo_closure_def recipe_of_def)
  moreover have "demo_nodes ! 4 \<in> set demo_nodes" "origin (demo_nodes ! 4) = OriginUnit ''app'' 0"
    by (simp_all add: demo_nodes_def)
  moreover have "''cc'' \<in> set (u_probes (r_units ?app ! 0))"
    by (simp add: demo_closure_def recipe_of_def shell_unit_def)
  ultimately show ?thesis
    using plan_probes_wired[OF demo_plan, of "demo_nodes ! 4" ?app 0 "''cc''"] by simp
qed

text \<open>
  C31: the synthesis order is a permutation of the synthesised keys, reached within as many rounds as
  there are keys, and it puts every key after the synthesised keys it requires when no requirement
  list has a repeated entry and the requirements are acyclic.
\<close>

theorem ordered_synth_correct:
  assumes "distinct keys"
  shows "distinct (ordered_synth reqs keys) \<and> set (ordered_synth reqs keys) = set keys
    \<and> snd (synth_loop (length keys) reqs keys (filter (\<lambda>k. synth_degree reqs keys k = 0) keys)
         (synth_degree reqs keys) []) = []
    \<and> ((\<forall>k \<in> set keys. distinct (reqs k))
        \<longrightarrow> acyclic {(u, k). k \<in> set keys \<and> u \<in> set keys \<and> u \<in> set (reqs k)}
        \<longrightarrow> (\<forall>j < length keys. {u \<in> set keys. u \<in> set (reqs (ordered_synth reqs keys ! j))}
              \<subseteq> set (take j (ordered_synth reqs keys))))"
proof -
  have perm: "distinct (ordered_synth reqs keys)" "set (ordered_synth reqs keys) = set keys"
    using ordered_synth_perm[OF assms] by simp_all
  then have "length (ordered_synth reqs keys) = length keys"
    using assms by (metis distinct_card)
  then show ?thesis
    using perm ordered_synth_topological[OF assms, of reqs]
      synth_loop_enough[OF synth_inv_start[OF assms, of reqs], of "length keys"] by auto
qed

lemma ordered_synth_correct_witness:
  "distinct [''a'', ''b'', ''c'']
   \<and> set (ordered_synth (\<lambda>k. if k = ''a'' then [''b''] else if k = ''b'' then [''c''] else []) [''a'', ''b'', ''c''])
       = {''a'', ''b'', ''c''}"
  using ordered_synth_correct[of "[''a'', ''b'', ''c'']" "\<lambda>k. if k = ''a'' then [''b''] else if k = ''b'' then [''c''] else []"]
  by simp

text \<open>
  A repeated entry counts twice and is taken off once, so the key is left to the second phase and
  its edge to an upstream placed after it is lost: the two closures differ in a repetition only.
\<close>

definition chain_closure :: "str list \<Rightarrow> str list \<Rightarrow> recipe_units list" where
  "chain_closure a_needs b_needs =
     [recipe_of ''app'' [] [shell_unit ''run'' [''a''] [] [] Sequential] []
        [probe_decl ''a'' a_needs, probe_decl ''b'' b_needs, probe_decl ''c'' []]]"

lemma repeated_requirement_loses_edge:
  "map_sum id (map (\<lambda>n. (origin n, node_deps n))) (plan (chain_closure [''b''] [''c''])) = Inr
     [(OriginSynthProbe ''app'' ''c'', []), (OriginSynthProbe ''app'' ''b'', [(0, ProbeEdge)]),
      (OriginSynthProbe ''app'' ''a'', [(1, ProbeEdge)]), (OriginUnit ''app'' 0, [(2, ProbeEdge)])]
   \<and> map_sum id (map (\<lambda>n. (origin n, node_deps n))) (plan (chain_closure [''b''] [''c'', ''c''])) = Inr
     [(OriginSynthProbe ''app'' ''c'', []), (OriginSynthProbe ''app'' ''a'', []),
      (OriginSynthProbe ''app'' ''b'', [(0, ProbeEdge)]), (OriginUnit ''app'' 0, [(1, ProbeEdge)])]"
  by code_simp

text \<open>
  Both counts the comment at the \<open>after\<close> lookup gives hold here (the producer comes earlier and is not
  skipped), yet the lookup panics: the walk visits the probe unit before it.
\<close>

definition probe_body_unit :: "str \<Rightarrow> str list \<Rightarrow> captured_unit" where
  "probe_body_unit k after = (shell_unit [] [] [] after Sequential)\<lparr>payload := ProbePayload k ''return 1'' 1\<rparr>"

lemma probe_with_after_panics:
  "plan [recipe_of ''app'' []
      [shell_unit ''gen'' [] [''gen.h''] [] Sequential, probe_body_unit ''p'' [''gen.h''],
       shell_unit ''run'' [''p''] [] [] Sequential] [] [probe_decl ''p'' []]] = Inl Panicked"
  by code_simp

end
