(* ===== verification/Cache_Record.thy ===== *)
theory Cache_Record
  imports Unit_Types
begin

text \<open>
  The pure rules a cache record is judged by (\<open>cook-contracts/src/cache/record.rs\<close>): what a unit's
  declaration admits, and which of its determinants moved.
\<close>

datatype effect_kind = Produced | Observed

definition effect_kind_of :: "cache_meta \<Rightarrow> effect_kind" where
  "effect_kind_of meta = (if cm_output_paths meta = [] then Observed else Produced)"

datatype cacheability = Uncacheable | ResultOnly | Artifacts

definition cacheability_of :: "cache_meta option \<Rightarrow> cacheability" where
  "cacheability_of meta =
     (case meta of
        None \<Rightarrow> Uncacheable
      | Some m \<Rightarrow> (case effect_kind_of m of Observed \<Rightarrow> ResultOnly | Produced \<Rightarrow> Artifacts))"

definition has_something_to_key_on :: "nat \<Rightarrow> nat \<Rightarrow> bool \<Rightarrow> bool \<Rightarrow> bool" where
  "has_something_to_key_on output_count input_count member_keyed seal_keyed \<longleftrightarrow>
     0 < output_count \<or> 0 < input_count \<or> member_keyed \<or> seal_keyed"

record determinants =
  command_hash :: u64
  env_contribution :: u64
  seal_contribution :: u64

datatype determinant_drift = DriftCommandHash | DriftEnv | DriftSeal

definition drift :: "determinants \<Rightarrow> determinants \<Rightarrow> determinant_drift option" where
  "drift stored current =
     (if command_hash stored \<noteq> command_hash current then Some DriftCommandHash
      else if env_contribution stored \<noteq> env_contribution current then Some DriftEnv
      else if seal_contribution stored \<noteq> seal_contribution current then Some DriftSeal
      else None)"

definition record_schema_version :: u32 where "record_schema_version = 12"

lemma uncacheable_iff: "cacheability_of m = Uncacheable \<longleftrightarrow> m = None"
  by (auto simp: cacheability_of_def split: option.splits effect_kind.splits)

lemma drift_None_iff: "drift a b = None \<longleftrightarrow> a = b"
  by (cases a; cases b) (simp add: drift_def)

end
