(* ===== verification/Dag_Builder.thy ===== *)
theory Dag_Builder
  imports Dag Unit_Plan Cache_Record
begin

text \<open>
  How the engine lowers a planned closure into the graph it executes, and the structural checks that
  gate it: \<open>cook-engine/src/dag_builder.rs\<close>, with the record \<open>WorkNode\<close> and the errors of the engine's
  \<open>lib.rs\<close> that these functions build, and the first steps of \<open>run\_inner\<close> in \<open>run.rs\<close>, which put the
  topological sort, the checks and \<open>build\_dag\<close> together.

  The glob library is a parameter: \<open>glob pat\<close> is the matcher \<open>Glob::new(pat)\<close> compiles to, or \<open>None\<close>
  when the pattern does not compile.
\<close>

section \<open>Errors\<close>

datatype engine_error =
    EngineDanglingDepEdge str str
  | CycleDetected str
  | UnknownRecipe str
  | RegistrationFailed str str
  | OutputCollision str "str list"
  | GlobbedOutputCrossRecipeEdge (gx_upstream: str) (gx_downstream: str) (gx_input: str) (gx_pattern: str)
  | LiteralReadAfterWrite (rw_producer: str) (rw_consumer: str) (rw_path: str)

fun engine_error_of :: "unit_graph_error \<Rightarrow> engine_error" where
  "engine_error_of (DanglingDepEdge referring dep) = EngineDanglingDepEdge referring dep"
| "engine_error_of (Cycle unresolved) = CycleDetected (''cycle among recipes: '' @ debug_list unresolved)"
| "engine_error_of (AfterFailed recipe e) = RegistrationFailed recipe (after_message e)"
| "engine_error_of (UnscheduledProbe recipe u key) =
     RegistrationFailed recipe (unit_graph_message (UnscheduledProbe recipe u key))"

fun map_failure :: "('e \<Rightarrow> 'f) \<Rightarrow> 'e failure \<Rightarrow> 'f failure" where
  "map_failure f (Failed e) = Failed (f e)"
| "map_failure f Panicked = Panicked"

section \<open>Lowering one unit\<close>

record work_node =
  wn_payload :: "work_payload option"
  wn_recipe_name :: str
  wn_cache_meta :: "cache_meta option"
  wn_working_dir :: str
  wn_env_vars :: "str \<rightharpoonup> str"
  wn_process_env_vars :: "str \<rightharpoonup> str"
  wn_test_name :: "str option"
  wn_member :: "str option"

definition is_presatisfied :: "captured_unit \<Rightarrow> bool" where
  "is_presatisfied u =
     (let uncacheable = (cacheability_of (u_cache_meta u) = Uncacheable) in
      case payload u of Shell cmd _ \<Rightarrow> cmd = [] \<and> uncacheable | _ \<Rightarrow> False)"

definition lower_unit :: "recipe_units \<Rightarrow> captured_unit \<Rightarrow> work_node" where
  "lower_unit ru u =
     (let presatisfied = is_presatisfied u in
      \<lparr>wn_payload = (if presatisfied then None else Some (payload u)),
       wn_recipe_name = recipe_name ru,
       wn_cache_meta = (if presatisfied then None else u_cache_meta u),
       wn_working_dir = working_dir ru,
       wn_env_vars = env_vars ru ++ unit_env_vars u,
       wn_process_env_vars = unit_env_vars u,
       wn_test_name = captured_unit.test_name u,
       wn_member = u_member u\<rparr>)"

definition lower_probe :: "recipe_units \<Rightarrow> probe_unit \<Rightarrow> work_node" where
  "lower_probe ru meta =
     \<lparr>wn_payload = Some (ProbePayload (p_key meta) (produce_source meta) (produce_line meta)),
      wn_recipe_name = recipe_name ru,
      wn_cache_meta = None,
      wn_working_dir = working_dir ru,
      wn_env_vars = env_vars ru,
      wn_process_env_vars = Map.empty,
      wn_test_name = None,
      wn_member = None\<rparr>"

section \<open>Reachability between recipes\<close>

text \<open>
  A \<open>BTreeMap<_, BTreeSet<_>>\<close> of neighbours is the list of its edges; a name without an entry has
  no neighbours. The two searches of the source differ only in the graph they walk.
\<close>

type_synonym edges = "(str \<times> str) list"

definition neighbours :: "edges \<Rightarrow> str \<Rightarrow> str list" where
  "neighbours g n = sorted_list_of_set (set (map snd (filter (\<lambda>e. fst e = n) g)))"

function search :: "edges \<Rightarrow> str \<Rightarrow> str set \<Rightarrow> str list \<Rightarrow> bool" where
  "search g target seen [] = False"
| "search g target seen (n # queue) =
     (if n = target then True
      else let new = filter (\<lambda>d. d \<notin> seen) (neighbours g n)
           in search g target (seen \<union> set new) (queue @ new))"
  by pat_completeness auto
termination
proof (relation "inv_image (less_than <*lex*> less_than)
    (\<lambda>(g, target, seen, queue). (card (set (map snd g) - seen), length queue))", goal_cases)
  case 1
  then show ?case by (intro wf_inv_image wf_lex_prod wf_less_than)
next
  case (2 g target seen n queue new)
  show ?case
  proof (cases new)
    case Nil
    then show ?thesis by simp
  next
    case (Cons d ds)
    then have "d \<in> set new" by simp
    then have d: "d \<in> set (map snd g) - seen" using 2(2) by (auto simp: neighbours_def)
    have "card (set (map snd g) - (seen \<union> set new)) < card (set (map snd g) - seen)"
      by (rule psubset_card_mono) (use d \<open>d \<in> set new\<close> in auto)
    then show ?thesis by simp
  qed
qed

definition requires_edges :: "recipe_units list \<Rightarrow> edges" where
  "requires_edges rs =
     concat (map (\<lambda>ru. map (Pair (recipe_name ru)) (r_deps ru)
                     @ map (\<lambda>(i, dep). (recipe_name ru, dep)) (dep_edges ru)) rs)"

definition requires_transitively :: "edges \<Rightarrow> str \<Rightarrow> str \<Rightarrow> bool" where
  "requires_transitively g from_name to_name =
     (if from_name = to_name then True else search g to_name {from_name} [from_name])"

definition undirected_edges :: "recipe_units list \<Rightarrow> edges" where
  "undirected_edges rs =
     concat (map (\<lambda>ru. concat (map (\<lambda>dep. [(recipe_name ru, dep), (dep, recipe_name ru)]) (r_deps ru))) rs)"

definition connected :: "edges \<Rightarrow> str \<Rightarrow> str \<Rightarrow> bool" where
  "connected g a b = (if a = b then True else search g b {a} [a])"

section \<open>The structural checks\<close>

text \<open>The cache declarations of a closure, recipe by recipe and unit by unit.\<close>

definition declared :: "recipe_units list \<Rightarrow> (recipe_units \<times> cache_meta) list" where
  "declared rs =
     concat (map (\<lambda>ru. List.map_filter (\<lambda>u. map_option (Pair ru) (u_cache_meta u)) (r_units ru)) rs)"

definition literal_inputs :: "recipe_units list \<Rightarrow> (recipe_units \<times> str) list" where
  "literal_inputs rs =
     concat (map (\<lambda>(ru, m). map (\<lambda>d. (ru, di_path d)) (filter (\<lambda>d. \<not> is_pattern d) (cm_inputs m))) (declared rs))"

definition terminal_entries :: "recipe_units list \<Rightarrow> (str \<times> str) list" where
  "terminal_entries rs =
     concat (map (\<lambda>(ru, m). map (Pair (recipe_name ru)) (filter is_terminal_output (cm_output_paths m))) (declared rs))"

definition glob_matchers :: "(str \<Rightarrow> (str \<Rightarrow> bool) option) \<Rightarrow> recipe_units list
    \<Rightarrow> (str \<times> (str \<times> (str \<Rightarrow> bool)) list) list" where
  "glob_matchers glob rs =
     map (\<lambda>name. (name,
        List.map_filter (\<lambda>p. map_option (Pair p) (glob (if ends_with ''/'' p then p @ ''**'' else p)))
          (map snd (filter (\<lambda>e. fst e = name) (terminal_entries rs)))))
       (sorted_list_of_set (set (map fst (terminal_entries rs))))"

definition check_globbed_output_cross_recipe_edges ::
  "(str \<Rightarrow> (str \<Rightarrow> bool) option) \<Rightarrow> recipe_units list \<Rightarrow> engine_error + unit" where
  "check_globbed_output_cross_recipe_edges glob rs =
     (if terminal_entries rs = [] then Inr ()
      else
        (case List.find (\<lambda>(r, input, upstream, pat, matches). matches input)
            (concat (map (\<lambda>(ru, input).
               concat (map (\<lambda>(upstream, pats).
                  if upstream = recipe_name ru then []
                  else map (\<lambda>(pat, matches). (recipe_name ru, input, upstream, pat, matches)) pats)
                 (glob_matchers glob rs)))
              (literal_inputs rs))) of
           Some (r, input, upstream, pat, _) \<Rightarrow> Inl (GlobbedOutputCrossRecipeEdge upstream r input pat)
         | None \<Rightarrow> Inr ()))"

text \<open>The recipes that declare a canonical path as a literal output, ascending.\<close>

definition literal_producers :: "recipe_units list \<Rightarrow> path \<Rightarrow> str list" where
  "literal_producers rs canonical =
     sorted_list_of_set (set (concat (map (\<lambda>(ru, m).
        map (\<lambda>out. recipe_name ru)
          (filter (\<lambda>out. \<not> is_terminal_output out \<and> components (path_join (working_dir ru) out) = canonical)
             (cm_output_paths m))) (declared rs))))"

definition check_literal_read_after_write :: "recipe_units list \<Rightarrow> engine_error + unit" where
  "check_literal_read_after_write rs =
     (let g = requires_edges rs in
      case List.find (\<lambda>(r, input, producer).
             producer \<noteq> r \<and> \<not> requires_transitively g r producer)
          (concat (map (\<lambda>(ru, input).
             map (\<lambda>producer. (recipe_name ru, input, producer))
               (literal_producers rs (components (path_join (working_dir ru) input))))
            (literal_inputs rs))) of
        Some (r, input, producer) \<Rightarrow> Inl (LiteralReadAfterWrite producer r input)
      | None \<Rightarrow> Inr ())"

text \<open>Every declared output with its recipe; the map from paths keeps the first spelling of a path.\<close>

definition declared_outputs :: "recipe_units list \<Rightarrow> (str \<times> str) list" where
  "declared_outputs rs =
     concat (map (\<lambda>(ru, m). map (\<lambda>out. (path_join (working_dir ru) out, recipe_name ru)) (cm_output_paths m))
       (declared rs))"

definition path_writers :: "recipe_units list \<Rightarrow> path \<Rightarrow> str list" where
  "path_writers rs canonical =
     sorted_list_of_set (set (map snd (filter (\<lambda>(p, r). components p = canonical) (declared_outputs rs))))"

definition first_spelling :: "recipe_units list \<Rightarrow> path \<Rightarrow> str" where
  "first_spelling rs canonical =
     (case List.find (\<lambda>(p, r). components p = canonical) (declared_outputs rs) of
        Some (p, r) \<Rightarrow> p | None \<Rightarrow> [])"

definition detect_output_collisions :: "recipe_units list \<Rightarrow> engine_error option" where
  "detect_output_collisions rs =
     (let g = undirected_edges rs in
      map_option (\<lambda>canonical. OutputCollision (first_spelling rs canonical) (path_writers rs canonical))
        (List.find (\<lambda>canonical.
             let names = path_writers rs canonical in
             2 \<le> length names
             \<and> list_ex (\<lambda>i. list_ex (\<lambda>j. \<not> connected g (names ! i) (names ! j)) [i + 1..<length names])
                 [0..<length names])
           (sorted_list_of_set (set (map (\<lambda>(p, r). components p) (declared_outputs rs))))))"

section \<open>Building the graph\<close>

definition dedup_ids :: "nat list \<Rightarrow> nat list" where
  "dedup_ids ds = fold (\<lambda>d acc. if d \<in> set acc then acc else acc @ [d]) ds []"

definition units_by_name :: "recipe_units list \<Rightarrow> str \<rightharpoonup> recipe_units" where
  "units_by_name rs = last_of (map (\<lambda>ru. (recipe_name ru, ru)) rs)"

fun work_node_of :: "recipe_units list \<Rightarrow> node_origin \<Rightarrow> engine_error failure + work_node" where
  "work_node_of rs (OriginUnit recipe unit_idx) =
     (case units_by_name rs recipe of
        None \<Rightarrow> Inl Panicked
      | Some ru \<Rightarrow>
          (if unit_idx < length (r_units ru) then Inr (lower_unit ru (r_units ru ! unit_idx))
           else Inl Panicked))"
| "work_node_of rs (OriginSynthProbe recipe probe_key) =
     (case units_by_name rs recipe of
        None \<Rightarrow> Inl Panicked
      | Some ru \<Rightarrow>
          (case List.find (\<lambda>p. p_key p = probe_key) (r_probes ru) of
             None \<Rightarrow> Inl Panicked
           | Some meta \<Rightarrow> Inr (lower_probe ru meta)))"

definition lower_node :: "recipe_units list \<Rightarrow> nat \<times> unit_graph_node \<Rightarrow> work_node dag
    \<Rightarrow> engine_error failure + work_node dag" where
  "lower_node rs indexed d =
     (let (idx, node) = indexed; dep_ids = dedup_ids (map fst (node_deps node)) in
      bind_res (work_node_of rs (origin node)) (\<lambda>wn.
        case add_node wn dep_ids d of
          Inl _ \<Rightarrow> Inl Panicked
        | Inr (d', dag_id) \<Rightarrow> if dag_id = idx then Inr d' else Inl Panicked))"

definition build_dag :: "recipe_units list \<Rightarrow> engine_error failure + work_node dag" where
  "build_dag rs =
     (case detect_output_collisions rs of
        Some e \<Rightarrow> Inl (Failed e)
      | None \<Rightarrow>
          (case plan rs of
             Inl e \<Rightarrow> Inl (map_failure engine_error_of e)
           | Inr nodes \<Rightarrow> fold_res (lower_node rs) (List.enumerate 0 nodes) dag_new))"

section \<open>The closure a run builds\<close>

text \<open>\<open>workspace\<close> is \<open>units\_by\_recipe\<close>; its recipes are checked in key order.\<close>

definition stamp_deps :: "(str \<rightharpoonup> str list) \<Rightarrow> str \<Rightarrow> recipe_units \<Rightarrow> recipe_units" where
  "stamp_deps edge_map name ru =
     (case edge_map name of
        None \<Rightarrow> ru
      | Some deps \<Rightarrow> ru\<lparr>r_deps := declared_coarse_deps (r_deps ru) deps\<rparr>)"

definition closure_units :: "(str \<times> recipe_units) list \<Rightarrow> (str \<rightharpoonup> str list) \<Rightarrow> str list
    \<Rightarrow> engine_error failure + recipe_units list" where
  "closure_units workspace edge_map order =
     map_res (\<lambda>name.
        case map_of workspace name of
          None \<Rightarrow> Inl (Failed (UnknownRecipe name))
        | Some ru \<Rightarrow> Inr (stamp_deps edge_map name ru)) order"

definition run_dag :: "(str \<Rightarrow> (str \<Rightarrow> bool) option) \<Rightarrow> (str \<times> recipe_units) list
    \<Rightarrow> (str \<rightharpoonup> str list) \<Rightarrow> str list \<Rightarrow> engine_error failure + work_node dag" where
  "run_dag glob workspace edge_map reachable =
     (case check_globbed_output_cross_recipe_edges glob (map snd workspace) of
        Inl e \<Rightarrow> Inl (Failed e)
      | Inr _ \<Rightarrow>
          (case toposort_recipes edge_map reachable of
             Inl e \<Rightarrow> Inl (map_failure engine_error_of e)
           | Inr order \<Rightarrow>
               bind_res (closure_units workspace edge_map order) (\<lambda>rs.
                 case check_literal_read_after_write rs of
                   Inl e \<Rightarrow> Inl (Failed e)
                 | Inr _ \<Rightarrow> build_dag rs)))"


section \<open>What the searches decide\<close>

lemma set_neighbours: "set (neighbours g n) = {d. (n, d) \<in> set g}"
  by (force simp: neighbours_def)

lemma distinct_neighbours: "distinct (neighbours g n)"
  by (simp add: neighbours_def)

lemma leaves_region:
  assumes "(x, t) \<in> E\<^sup>*" and "x \<in> P" and "t \<notin> P" and "E `` P \<subseteq> P \<union> Q"
  shows "\<exists>q \<in> Q. (q, t) \<in> E\<^sup>*"
  using assms
  by (induction rule: converse_rtrancl_induct) auto

lemma search_iff:
  assumes "set queue \<subseteq> seen" and "set g `` (seen - set queue) \<subseteq> seen" and "target \<notin> seen - set queue"
  shows "search g target seen queue \<longleftrightarrow> (\<exists>x \<in> set queue. (x, target) \<in> (set g)\<^sup>*)"
  using assms
proof (induction g target seen queue rule: search.induct)
  case (2 g target seen n queue)
  show ?case
  proof (cases "n = target")
    case False
    define new where "new = filter (\<lambda>d. d \<notin> seen) (neighbours g n)"
    let ?seen = "seen \<union> set new" and ?queue = "queue @ new"
    have new: "set new = set g `` {n} - seen" by (auto simp: new_def set_neighbours)
    have P: "?seen - set ?queue \<subseteq> insert n (seen - set (n # queue))" by auto
    have "set g `` (?seen - set ?queue) \<subseteq> ?seen" using P 2(3) new by fastforce
    moreover have "target \<notin> ?seen - set ?queue" using P 2(4) False by blast
    moreover have "set ?queue \<subseteq> ?seen" using 2(2) by auto
    ultimately have ih: "search g target ?seen ?queue \<longleftrightarrow> (\<exists>x \<in> set ?queue. (x, target) \<in> (set g)\<^sup>*)"
      using False 2(1) new_def by blast
    have "(\<exists>x \<in> set ?queue. (x, target) \<in> (set g)\<^sup>*) \<longleftrightarrow> (\<exists>x \<in> set (n # queue). (x, target) \<in> (set g)\<^sup>*)"
    proof
      assume "\<exists>x \<in> set ?queue. (x, target) \<in> (set g)\<^sup>*"
      then show "\<exists>x \<in> set (n # queue). (x, target) \<in> (set g)\<^sup>*"
        using new by (auto intro: converse_rtrancl_into_rtrancl)
    next
      assume "\<exists>x \<in> set (n # queue). (x, target) \<in> (set g)\<^sup>*"
      then consider "(n, target) \<in> (set g)\<^sup>*" | x where "x \<in> set queue" "(x, target) \<in> (set g)\<^sup>*" by auto
      then show "\<exists>x \<in> set ?queue. (x, target) \<in> (set g)\<^sup>*"
      proof cases
        case 1
        have "set g `` (insert n (seen - set (n # queue))) \<subseteq> insert n (seen - set (n # queue)) \<union> set ?queue"
          using 2(3) new by fastforce
        moreover have "target \<notin> insert n (seen - set (n # queue))" using 2(4) False by blast
        ultimately show ?thesis using leaves_region[OF 1, of "insert n (seen - set (n # queue))"] by blast
      qed auto
    qed
    then show ?thesis using ih False by (simp add: new_def Let_def)
  qed auto
qed simp

lemma requires_transitively_iff: "requires_transitively g a b \<longleftrightarrow> (a, b) \<in> (set g)\<^sup>*"
  using search_iff[of "[a]" "{a}" g b] by (auto simp: requires_transitively_def)

lemma connected_iff: "connected g a b \<longleftrightarrow> (a, b) \<in> (set g)\<^sup>*"
  using search_iff[of "[a]" "{a}" g b] by (auto simp: connected_def)

section \<open>What the checks decide\<close>

lemma declared_mem:
  "(ru, m) \<in> set (declared rs) \<longleftrightarrow> ru \<in> set rs \<and> (\<exists>u \<in> set (r_units ru). u_cache_meta u = Some m)"
  by (auto simp: declared_def map_filter_set)

lemma literal_inputs_mem:
  "(ru, input) \<in> set (literal_inputs rs) \<longleftrightarrow>
     (\<exists>m. (ru, m) \<in> set (declared rs) \<and> (\<exists>d \<in> set (cm_inputs m). \<not> is_pattern d \<and> di_path d = input))"
  by (auto simp: literal_inputs_def)

lemma literal_producers_mem:
  "p \<in> set (literal_producers rs canonical) \<longleftrightarrow>
     (\<exists>ru m. (ru, m) \<in> set (declared rs) \<and> recipe_name ru = p
        \<and> (\<exists>out \<in> set (cm_output_paths m). \<not> is_terminal_output out
              \<and> components (path_join (working_dir ru) out) = canonical))"
  unfolding literal_producers_def set_sorted_list_of_set[OF finite_set] by auto

lemma path_writers_mem:
  "r \<in> set (path_writers rs canonical) \<longleftrightarrow> (\<exists>p. (p, r) \<in> set (declared_outputs rs) \<and> components p = canonical)"
  by (force simp: path_writers_def)

lemma declared_outputs_mem:
  "(p, r) \<in> set (declared_outputs rs) \<longleftrightarrow>
     (\<exists>ru m. (ru, m) \<in> set (declared rs) \<and> recipe_name ru = r
        \<and> (\<exists>out \<in> set (cm_output_paths m). p = path_join (working_dir ru) out))"
  by (force simp: declared_outputs_def)

lemma find_Some_mem: "List.find P xs = Some x \<Longrightarrow> x \<in> set xs \<and> P x"
  by (auto simp: find_Some_iff)

definition coarse_edges :: "recipe_units list \<Rightarrow> edges" where
  "coarse_edges rs = concat (map (\<lambda>ru. map (Pair (recipe_name ru)) (r_deps ru)) rs)"

text \<open>A violation of the read-after-write rule: who reads which literal path that who writes.\<close>

definition reads_unordered :: "recipe_units list \<Rightarrow> str \<Rightarrow> str \<Rightarrow> str \<Rightarrow> bool" where
  "reads_unordered rs producer consumer input \<longleftrightarrow>
     (\<exists>ru. (ru, input) \<in> set (literal_inputs rs) \<and> recipe_name ru = consumer
        \<and> producer \<in> set (literal_producers rs (components (path_join (working_dir ru) input)))
        \<and> producer \<noteq> consumer \<and> (consumer, producer) \<notin> (set (requires_edges rs))\<^sup>*)"

lemma read_after_write_result:
  "case check_literal_read_after_write rs of
     Inr _ \<Rightarrow> \<nexists>p c i. reads_unordered rs p c i
   | Inl e \<Rightarrow> reads_unordered rs (rw_producer e) (rw_consumer e) (rw_path e)
       \<and> e = LiteralReadAfterWrite (rw_producer e) (rw_consumer e) (rw_path e)"
proof -
  let ?P = "\<lambda>(r, input, producer). producer \<noteq> r \<and> \<not> requires_transitively (requires_edges rs) r producer"
  let ?xs = "concat (map (\<lambda>(ru, input). map (\<lambda>producer. (recipe_name ru, input, producer))
      (literal_producers rs (components (path_join (working_dir ru) input)))) (literal_inputs rs))"
  have mem: "(r, i, p) \<in> set ?xs \<and> ?P (r, i, p) \<longleftrightarrow> reads_unordered rs p r i" for r i p
    by (force simp: reads_unordered_def requires_transitively_iff)
  have res: "check_literal_read_after_write rs =
      (case List.find ?P ?xs of Some (r, input, producer) \<Rightarrow> Inl (LiteralReadAfterWrite producer r input)
       | None \<Rightarrow> Inr ())"
    by (simp only: check_literal_read_after_write_def Let_def)
  show ?thesis
  proof (cases "List.find ?P ?xs")
    case None
    then have "\<nexists>p c i. reads_unordered rs p c i"
      unfolding find_None_iff using mem by blast
    then show ?thesis unfolding res None by simp
  next
    case (Some x)
    obtain r i p where x: "x = (r, i, p)" by (cases x)
    have "reads_unordered rs p r i"
      using find_Some_mem[OF Some] mem unfolding x by blast
    then show ?thesis unfolding res Some x by simp
  qed
qed

text \<open>Two recipes that write one canonical path and are not connected through declared deps.\<close>

definition collides :: "recipe_units list \<Rightarrow> path \<Rightarrow> str \<Rightarrow> str \<Rightarrow> bool" where
  "collides rs canonical a b \<longleftrightarrow>
     a \<in> set (path_writers rs canonical) \<and> b \<in> set (path_writers rs canonical)
     \<and> (a, b) \<notin> (set (undirected_edges rs))\<^sup>*"

lemma undirected_sym: "sym (set (undirected_edges rs))"
  by (auto simp: undirected_edges_def intro!: symI)

lemma pair_scan:
  assumes "distinct names" and sym: "\<And>a b. R a b \<Longrightarrow> R b a" and refl: "\<And>a. R a a"
  shows "list_ex (\<lambda>i. list_ex (\<lambda>j. \<not> R (names ! i) (names ! j)) [i + 1..<length names]) [0..<length names]
     \<longleftrightarrow> (\<exists>a \<in> set names. \<exists>b \<in> set names. \<not> R a b)" (is "?L \<longleftrightarrow> ?R")
proof
  assume ?L
  then obtain i j where "i < j" "j < length names" "\<not> R (names ! i) (names ! j)"
    by (auto simp: list_ex_iff Suc_le_eq)
  then show ?R
    by (intro bexI[of _ "names ! i"] bexI[of _ "names ! j"]) simp_all
next
  assume ?R
  then obtain i j where ij: "i < length names" "j < length names" "\<not> R (names ! i) (names ! j)"
    by (metis in_set_conv_nth)
  moreover have "i \<noteq> j" using ij refl by auto
  ultimately obtain a b where ab: "a < b" "b < length names" "\<not> R (names ! a) (names ! b)"
    using sym by (metis nat_neq_iff)
  then have "list_ex (\<lambda>j. \<not> R (names ! a) (names ! j)) [a + 1..<length names]"
    unfolding list_ex_iff by (intro bexI[of _ b]) simp_all
  then show ?L using ab unfolding list_ex_iff[of _ "[0..<length names]"] by (intro bexI[of _ a]) simp_all
qed

lemma detect_None_iff: "detect_output_collisions rs = None \<longleftrightarrow> (\<nexists>c a b. collides rs c a b)"
proof -
  let ?E = "set (undirected_edges rs)"
  have "(a, b) \<in> ?E\<^sup>* \<Longrightarrow> (b, a) \<in> ?E\<^sup>*" for a b
    using undirected_sym by (metis sym_rtrancl symD)
  then have scan: "list_ex (\<lambda>i. list_ex (\<lambda>j. \<not> connected (undirected_edges rs) (names ! i) (names ! j))
        [i + 1..<length names]) [0..<length names]
      \<longleftrightarrow> (\<exists>a \<in> set names. \<exists>b \<in> set names. (a, b) \<notin> ?E\<^sup>*)" if "distinct names" for names
    using pair_scan[OF that, of "\<lambda>a b. (a, b) \<in> ?E\<^sup>*"] by (simp add: connected_iff)
  have two: "2 \<le> length (path_writers rs c)" if "collides rs c a b" for c a b
  proof -
    have "a \<noteq> b" using that by (auto simp: collides_def)
    then have "card {a, b} \<le> card (set (path_writers rs c))"
      using that by (intro card_mono) (auto simp: collides_def)
    then show ?thesis using \<open>a \<noteq> b\<close> card_length[of "path_writers rs c"] by simp
  qed
  have keys: "c \<in> set (map (\<lambda>(p, r). components p) (declared_outputs rs))" if "collides rs c a b" for c a b
    using that by (force simp: collides_def path_writers_mem)
  have "distinct (path_writers rs c)" for c by (simp add: path_writers_def)
  then show ?thesis
    using two keys scan
    unfolding detect_output_collisions_def Let_def option.map_disc_iff find_None_iff collides_def
    by (simp add: collides_def) blast
qed


lemma detect_SomeE:
  assumes "detect_output_collisions rs = Some e"
  obtains c a b where "collides rs c a b" and "e = OutputCollision (first_spelling rs c) (path_writers rs c)"
proof -
  let ?P = "\<lambda>c. let names = path_writers rs c in 2 \<le> length names
      \<and> list_ex (\<lambda>i. list_ex (\<lambda>j. \<not> connected (undirected_edges rs) (names ! i) (names ! j)) [i + 1..<length names])
          [0..<length names]"
  obtain c where c: "?P c" "e = OutputCollision (first_spelling rs c) (path_writers rs c)"
    using assms unfolding detect_output_collisions_def Let_def
    by (auto dest!: find_Some_mem)
  then obtain i j where "i < j" "j < length (path_writers rs c)"
    "\<not> connected (undirected_edges rs) (path_writers rs c ! i) (path_writers rs c ! j)"
    by (auto simp: Let_def list_ex_iff Suc_le_eq)
  then have "collides rs c (path_writers rs c ! i) (path_writers rs c ! j)"
    by (simp add: collides_def connected_iff)
  then show ?thesis using that c(2) by blast
qed

section \<open>Where planned nodes come from\<close>

fun origin_known :: "recipe_units list \<Rightarrow> node_origin \<Rightarrow> bool" where
  "origin_known rs (OriginUnit r i) = (\<exists>ru \<in> set rs. recipe_name ru = r \<and> i < length (r_units ru))"
| "origin_known rs (OriginSynthProbe r k) =
     (\<exists>ru \<in> set rs. recipe_name ru = r \<and> (\<exists>p \<in> set (r_probes ru). p_key p = k))"

lemma probe_meta_Some: "probe_meta probes k = Some m \<Longrightarrow> m \<in> set probes \<and> p_key m = k"
  unfolding probe_meta_def last_of_def by (drule map_of_SomeD) auto

lemma synth_origins:
  assumes "fold_res (synth_step ru cross) keys s = Inr s'" and "ru \<in> set rs"
    and "\<forall>n \<in> set (s_nodes s). origin_known rs (origin n)"
  shows "\<forall>n \<in> set (s_nodes s'). origin_known rs (origin n)"
proof (rule fold_res_invariant[OF assms(1), of "\<lambda>s. \<forall>n \<in> set (s_nodes s). origin_known rs (origin n)"])
  fix k t t' assume I: "\<forall>n \<in> set (s_nodes t). origin_known rs (origin n)"
    and step: "synth_step ru cross k t = Inr t'"
  from step show "\<forall>n \<in> set (s_nodes t'). origin_known rs (origin n)"
  proof (cases rule: synth_step_cases)
    case (fresh meta deps)
    then have "origin_known rs (OriginSynthProbe (recipe_name ru) k)"
      using probe_meta_Some[OF fresh(2)] assms(2) by auto
    then show ?thesis using I fresh(4) by simp
  qed (use I in simp)
qed (rule assms(3))

lemma walk_step_nodes:
  assumes "walk_step e i w = Inr w'"
  shows "w_nodes w' = w_nodes w
    \<or> (\<exists>deps. w_nodes w' = w_nodes w @ [\<lparr>origin = OriginUnit (recipe_name (e_recipe e)) i, node_deps = deps\<rparr>])"
proof -
  have "\<exists>deps. w_nodes w' = w_nodes w @ [\<lparr>origin = OriginUnit (recipe_name (e_recipe e)) i, node_deps = deps\<rparr>]"
    if "mint e i w = Inr w'"
    using that by (cases rule: mint_cases) auto
  then show ?thesis
    using assms by (auto simp: walk_step_def Let_def split: if_splits option.splits)
qed

lemma walk_origins:
  assumes "fold_res (walk_step e) is w = Inr w'" and "e_recipe e \<in> set rs"
    and "\<forall>i \<in> set is. i < length (r_units (e_recipe e))"
    and "\<forall>n \<in> set (w_nodes w). origin_known rs (origin n)"
  shows "\<forall>n \<in> set (w_nodes w'). origin_known rs (origin n)"
proof (rule fold_res_invariant[OF assms(1), of "\<lambda>w. \<forall>n \<in> set (w_nodes w). origin_known rs (origin n)"])
  fix i t t' assume i: "i \<in> set is" and I: "\<forall>n \<in> set (w_nodes t). origin_known rs (origin n)"
    and step: "walk_step e i t = Inr t'"
  have "origin_known rs (OriginUnit (recipe_name (e_recipe e)) i)" using assms(2,3) i by auto
  then show "\<forall>n \<in> set (w_nodes t'). origin_known rs (origin n)"
    using walk_step_nodes[OF step] I by (auto simp del: origin_known.simps)
qed (rule assms(4))

lemma plan_origins:
  assumes "plan rs = Inr ns"
  shows "\<forall>n \<in> set ns. origin_known rs (origin n)"
proof -
  obtain st where st: "fold_res plan_recipe rs \<lparr>p_nodes = [], p_leaves = Map.empty, p_global = Map.empty\<rparr> = Inr st"
    "ns = p_nodes st"
    using plan_Inr[OF assms] by blast
  have "\<forall>n \<in> set (p_nodes st). origin_known rs (origin n)"
  proof (rule fold_res_invariant[OF st(1), of "\<lambda>st. \<forall>n \<in> set (p_nodes st). origin_known rs (origin n)"])
    fix ru t t' assume ru: "ru \<in> set rs" and I: "\<forall>n \<in> set (p_nodes t). origin_known rs (origin n)"
      and step: "plan_recipe ru t = Inr t'"
    from step show "\<forall>n \<in> set (p_nodes t'). origin_known rs (origin n)"
    proof (rule plan_recipe_Inr)
      fix after s w
      assume s: "fold_res (synth_step ru (cross_deps ru (p_leaves t))) (recipe_synth ru) (synth_start t) = Inr s"
        and w: "fold_res (walk_step (recipe_env ru after t s)) (walk_order (r_units ru)) (walk_start s) = Inr w"
        and t': "t' = \<lparr>p_nodes = w_nodes w,
                p_leaves = (p_leaves t)(recipe_name ru \<mapsto>
                  (if w_barrier w = [] then cross_deps ru (p_leaves t) else w_barrier w)),
                p_global = w_global w\<rparr>"
      have "\<forall>n \<in> set (s_nodes s). origin_known rs (origin n)"
        by (rule synth_origins[OF s ru]) (use I in \<open>simp add: synth_start_def\<close>)
      then have "\<forall>n \<in> set (w_nodes w). origin_known rs (origin n)"
        using walk_order_perm[of "r_units ru"] ru
        by (intro walk_origins[OF w]) (auto simp: recipe_env_def walk_start_def)
      then show ?thesis using t' by simp
    qed
  qed simp
  then show ?thesis using st(2) by simp
qed

section \<open>Lowering a plan\<close>

lemma dedup_ids_props: "set (dedup_ids ds) = set ds \<and> distinct (dedup_ids ds)"
proof -
  have "distinct acc \<Longrightarrow> set (fold (\<lambda>d acc. if d \<in> set acc then acc else acc @ [d]) ds acc) = set acc \<union> set ds
      \<and> distinct (fold (\<lambda>d acc. if d \<in> set acc then acc else acc @ [d]) ds acc)" for acc
    by (induction ds arbitrary: acc) auto
  from this[of "[]"] show ?thesis by (simp add: dedup_ids_def)
qed

lemma units_by_name_mem:
  assumes "distinct (map recipe_name rs)" and "ru \<in> set rs"
  shows "units_by_name rs (recipe_name ru) = Some ru"
proof -
  have "distinct (map fst (rev (map (\<lambda>ru. (recipe_name ru, ru)) rs)))"
    using assms(1) by (simp add: rev_map[symmetric] o_def)
  then show ?thesis
    using assms(2) unfolding units_by_name_def last_of_def by (intro map_of_is_SomeI) auto
qed

lemma work_node_known:
  assumes "distinct (map recipe_name rs)" and "origin_known rs og"
  shows "\<exists>wn. work_node_of rs og = Inr wn"
proof (cases og)
  case (OriginUnit r i)
  then show ?thesis using assms units_by_name_mem by fastforce
next
  case (OriginSynthProbe r k)
  then obtain ru p where ru: "ru \<in> set rs" "recipe_name ru = r" "p \<in> set (r_probes ru)" "p_key p = k"
    using assms(2) by auto
  then have "List.find (\<lambda>p. p_key p = k) (r_probes ru) \<noteq> None" by (auto simp: find_None_iff)
  then show ?thesis
    using OriginSynthProbe units_by_name_mem[OF assms(1) ru(1)] ru(2) by auto
qed

lemma add_node_payloads:
  assumes "add_node p ds d = Inr (d', i)"
  shows "map node_payload (dag_nodes d') = map node_payload (dag_nodes d) @ [p]"
  using assms
proof (rule add_node_Inr)
  fix dedup
  assume "i = length (dag_nodes d)" and len: "length (dag_nodes d') = Suc (length (dag_nodes d))"
    and new: "dag_nodes d' ! i = \<lparr>node_id = i, node_payload = p, dependents = [],
           remaining_deps = word_of_nat (length dedup), completed = False\<rparr>"
    and old: "\<And>k. k < length (dag_nodes d) \<Longrightarrow> dag_nodes d' ! k =
           (if k \<in> set dedup then (dag_nodes d ! k)\<lparr>dependents := dependents (dag_nodes d ! k) @ [i]\<rparr>
            else dag_nodes d ! k)"
  then show ?thesis
    by (intro nth_equalityI) (auto simp: nth_append less_Suc_eq)
qed

lemma add_all_payloads:
  "add_all ns d = Inr d' \<Longrightarrow> map node_payload (dag_nodes d') = map node_payload (dag_nodes d) @ map fst ns"
proof (induction ns arbitrary: d)
  case (Cons n ns)
  obtain p ds where n: "n = (p, ds)" by (cases n)
  then obtain e i where e: "add_node p ds d = Inr (e, i)" "add_all ns e = Inr d'"
    using Cons.prems by (auto simp: bind_res_Inr_iff)
  show ?case using Cons.IH[OF e(2)] add_node_payloads[OF e(1)] n by simp
qed simp

definition lowered :: "recipe_units list \<Rightarrow> unit_graph_node \<Rightarrow> work_node \<times> nat list" where
  "lowered rs n = (projr (work_node_of rs (origin n)), dedup_ids (map fst (node_deps n)))"

lemma lower_fold:
  assumes "\<forall>k < length ns. (\<forall>p \<in> set (node_deps (ns ! k)). fst p < dag_len d + k)
       \<and> (\<exists>wn. work_node_of rs (origin (ns ! k)) = Inr wn)"
  shows "\<exists>d'. fold_res (lower_node rs) (List.enumerate (dag_len d) ns) d = Inr d'
     \<and> add_all (map (lowered rs) ns) d = Inr d'"
  using assms
proof (induction ns arbitrary: d)
  case (Cons n ns)
  obtain wn where wn: "work_node_of rs (origin n) = Inr wn"
    using Cons.prems by fastforce
  let ?ids = "dedup_ids (map fst (node_deps n))"
  have "\<forall>q \<in> set ?ids. q < dag_len d"
    using Cons.prems dedup_ids_props[of "map fst (node_deps n)"] by fastforce
  then obtain e where e: "add_node wn ?ids d = Inr (e, dag_len d)"
    using add_node_ok[of ?ids d wn] by blast
  then have len: "dag_len e = Suc (dag_len d)"
    by (auto elim!: add_node_Inr simp: dag_len_def)
  have step: "lower_node rs (dag_len d, n) d = Inr e"
    using wn e by (simp add: lower_node_def)
  have "\<exists>d'. fold_res (lower_node rs) (List.enumerate (dag_len e) ns) e = Inr d'
      \<and> add_all (map (lowered rs) ns) e = Inr d'"
  proof (intro Cons.IH allI impI)
    fix k assume "k < length ns"
    then show "(\<forall>p \<in> set (node_deps (ns ! k)). fst p < dag_len e + k)
        \<and> (\<exists>wn. work_node_of rs (origin (ns ! k)) = Inr wn)"
      using Cons.prems[rule_format, of "Suc k"] len by simp
  qed
  then obtain d' where d': "fold_res (lower_node rs) (List.enumerate (Suc (dag_len d)) ns) e = Inr d'"
    "add_all (map (lowered rs) ns) e = Inr d'" unfolding len by blast
  have "fold_res (lower_node rs) (List.enumerate (dag_len d) (n # ns)) d = Inr d'"
    using step d'(1) by simp
  moreover have "add_all (map (lowered rs) (n # ns)) d = Inr d'"
    using wn e d'(2) by (simp add: lowered_def)
  ultimately show ?case by blast
qed simp

text \<open>What a built graph is: the plan, lowered node by node.\<close>

definition lowers :: "recipe_units list \<Rightarrow> unit_graph_node list \<Rightarrow> work_node dag \<Rightarrow> bool" where
  "lowers rs ns d \<longleftrightarrow>
     dag_len d = length ns \<and> dag_wf d \<and> done_set d = {}
     \<and> (\<forall>k < length ns. preds d k = fst ` set (node_deps (ns ! k))
           \<and> work_node_of rs (origin (ns ! k)) = Inr (node_payload (dag_nodes d ! k)))"

lemma lower_plan:
  assumes "plan rs = Inr ns" and "distinct (map recipe_name rs)" and "length ns \<le> 2 ^ 64"
  shows "\<exists>d. fold_res (lower_node rs) (List.enumerate 0 ns) dag_new = Inr d \<and> lowers rs ns d"
proof -
  have ok: "\<forall>k < length ns. (\<forall>p \<in> set (node_deps (ns ! k)). fst p < dag_len (dag_new :: work_node dag) + k)
       \<and> (\<exists>wn. work_node_of rs (origin (ns ! k)) = Inr wn)"
    using plan_nodes_ok[OF assms(1)] plan_origins[OF assms(1)] work_node_known[OF assms(2)]
    by (auto simp: nodes_ok_def dag_len_def dag_new_def)
  then obtain d where d: "fold_res (lower_node rs) (List.enumerate 0 ns) dag_new = Inr d"
    "add_all (map (lowered rs) ns) dag_new = Inr d"
    using lower_fold[of ns dag_new rs] by (auto simp: dag_len_def dag_new_def)
  have new: "dag_len (dag_new :: work_node dag) = 0" "done_set (dag_new :: work_node dag) = {}"
    by (simp_all add: dag_len_def dag_new_def done_set_def)
  have w: "dag_wf d" "done_set d = {}" "dag_len d = length ns"
    "\<forall>k < length ns. preds d k = set (snd (map (lowered rs) ns ! k))"
    using add_all_wf[OF d(2) dag_new_wf] assms(3) new by simp_all
  have pay: "map node_payload (dag_nodes d) = map (\<lambda>n. fst (lowered rs n)) ns"
    using add_all_payloads[OF d(2)] by (simp add: dag_new_def o_def)
  have "preds d k = fst ` set (node_deps (ns ! k))
      \<and> work_node_of rs (origin (ns ! k)) = Inr (node_payload (dag_nodes d ! k))" if "k < length ns" for k
  proof
    show "preds d k = fst ` set (node_deps (ns ! k))"
      using w(4) that dedup_ids_props by (simp add: lowered_def)
    have "node_payload (dag_nodes d ! k) = fst (lowered rs (ns ! k))"
      using arg_cong[OF pay, of "\<lambda>xs. xs ! k"] w(3) that by (simp add: dag_len_def)
    then show "work_node_of rs (origin (ns ! k)) = Inr (node_payload (dag_nodes d ! k))"
      using ok that by (auto simp: lowered_def)
  qed
  then show ?thesis using d(1) w by (auto simp: lowers_def)
qed


section \<open>Runs of a built graph\<close>

text \<open>
  What the properties below say of a graph that lowers a plan: some run finishes everything, and every
  run finishes each node at most once and after its planned dependencies.
\<close>

lemma lowered_runs:
  assumes "lowers rs ns d"
  shows "\<exists>s fin. dispatched complete d (initial_ready d) s [] fin"
    and "dispatched complete d (initial_ready d) s rdy fin \<Longrightarrow>
       distinct fin \<and> set fin \<subseteq> {..<length ns}
       \<and> (\<forall>k < length fin. fst ` set (node_deps (ns ! (fin ! k))) \<subseteq> set (take k fin))
       \<and> (rdy = [] \<longrightarrow> set fin = {..<length ns})"
proof -
  have wf: "dag_wf d" "done_set d = {}" and len: "dag_len d = length ns"
    and pre: "\<And>k. k < length ns \<Longrightarrow> preds d k = fst ` set (node_deps (ns ! k))"
    using assms by (simp_all add: lowers_def)
  show "\<exists>s fin. dispatched complete d (initial_ready d) s [] fin"
    using dag_sched.dispatch_ends[OF dispatch_start wf] by auto
  assume run: "dispatched complete d (initial_ready d) s rdy fin"
  have I: "dag_sched.dispatch_inv d s rdy fin" by (rule dag_sched.dispatched_inv[OF run wf])
  have fin: "distinct fin" "set fin \<subseteq> {..<length ns}"
    using I unfolding dag_sched.dispatch_inv_def distinct_append len by blast+
  have "fst ` set (node_deps (ns ! (fin ! k))) \<subseteq> set (take k fin)" if "k < length fin" for k
  proof -
    have "fin ! k < length ns" using fin(2) that nth_mem by blast
    moreover have "\<forall>k < length fin. (if fin ! k < dag_len d then preds d (fin ! k) else {}) \<subseteq> set (take k fin)"
      using I unfolding dag_sched.dispatch_inv_def lessThan_iff by blast
    ultimately show ?thesis using pre[of "fin ! k"] len that by metis
  qed
  moreover have "rdy = [] \<longrightarrow> set fin = {..<length ns}"
    using dag_sched.dispatch_ready[of d s fin] I len by auto
  ultimately show "distinct fin \<and> set fin \<subseteq> {..<length ns}
       \<and> (\<forall>k < length fin. fst ` set (node_deps (ns ! (fin ! k))) \<subseteq> set (take k fin))
       \<and> (rdy = [] \<longrightarrow> set fin = {..<length ns})"
    using fin by blast
qed

section \<open>Examples\<close>

definition file_meta :: "str list \<Rightarrow> str list \<Rightarrow> cache_meta" where
  "file_meta ins outs =
     \<lparr>cm_recipe_name = [], cm_project_id = [], cm_cookfile_path = [], cm_cache_key = [],
      cm_inputs = map path_input ins, cm_consumes = [], cm_member_keyed = False, cm_output_paths = outs,
      cm_command_hash = 0, cm_env_contribution = 0, cm_consulted_env = [], cm_discovered_inputs = None,
      cm_seal_keys = [], cm_sharing = Shared, cm_record = False\<rparr>"

definition file_unit :: "str \<Rightarrow> str list \<Rightarrow> str list \<Rightarrow> dep_kind \<Rightarrow> captured_unit" where
  "file_unit cmd ins outs kind = (shell_unit cmd [] outs [] kind)\<lparr>u_cache_meta := Some (file_meta ins outs)\<rparr>"

text \<open>
  Two recipes that write one file, neither depending on the other, pass the collision check as soon as
  a third recipe depends on both: it connects them without ordering them. The plan leaves both without
  dependencies.
\<close>

definition race_closure :: "recipe_units list" where
  "race_closure =
     [recipe_of ''a'' [] [file_unit ''gen1'' [] [''out''] Sequential] [] [],
      recipe_of ''b'' [] [file_unit ''gen2'' [] [''out''] Sequential] [] [],
      recipe_of ''app'' [''a'', ''b''] [file_unit ''link'' [''out''] [''app''] Sequential] [] []]"

definition race_nodes :: "unit_graph_node list" where
  "race_nodes =
      [\<lparr>origin = OriginUnit ''a'' 0, node_deps = []\<rparr>,
       \<lparr>origin = OriginUnit ''b'' 0, node_deps = []\<rparr>,
       \<lparr>origin = OriginUnit ''app'' 0, node_deps = [(0, Barrier), (1, Barrier)]\<rparr>]"

lemma race_passes_checks:
  "detect_output_collisions race_closure = None" "check_literal_read_after_write race_closure = Inr ()"
  "path_writers race_closure [Normal ''out''] = [''a'', ''b'']" "plan race_closure = Inr race_nodes"
  by code_simp+

text \<open>
  A fine-grained reference orders the unit that makes it, not its recipe. The read-after-write check
  takes it for the whole recipe: here the second unit of \<open>app\<close> reads what \<open>gen\<close> writes, only the first
  one names \<open>gen\<close>, the check passes, and the plan gives the reader no dependency.
\<close>

definition stale_closure :: "recipe_units list" where
  "stale_closure =
     [recipe_of ''gen'' [] [file_unit ''gen'' [] [''out''] Sequential] [] [],
      (recipe_of ''app'' [] [file_unit ''cc1'' [] [''x''] (StepGroup 0), file_unit ''cc2'' [''out''] [''y''] (StepGroup 0)]
         [(0, ''gen'')] [])\<lparr>step_groups := [[0, 1]]\<rparr>]"

lemma stale_read_passes_check:
  "check_literal_read_after_write stale_closure = Inr ()
   \<and> plan stale_closure = Inr
      [\<lparr>origin = OriginUnit ''gen'' 0, node_deps = []\<rparr>,
       \<lparr>origin = OriginUnit ''app'' 0, node_deps = [(0, DepOrder)]\<rparr>,
       \<lparr>origin = OriginUnit ''app'' 1, node_deps = []\<rparr>]"
  by code_simp

text \<open>
  The other way round, the collision check looks at declared dependencies only: a recipe that rewrites
  an output of a recipe it depends on through a fine-grained reference is rejected although the
  reference orders the two.
\<close>

definition ordered_closure :: "recipe_units list" where
  "ordered_closure =
     [recipe_of ''gen'' [] [file_unit ''gen'' [] [''out''] Sequential] [] [],
      recipe_of ''app'' [] [file_unit ''strip'' [] [''out''] Sequential] [(0, ''gen'')] []]"

lemma ordered_closure_rejected:
  "detect_output_collisions ordered_closure = Some (OutputCollision ''out'' [''app'', ''gen''])
   \<and> plan ordered_closure = Inr
      [\<lparr>origin = OriginUnit ''gen'' 0, node_deps = []\<rparr>,
       \<lparr>origin = OriginUnit ''app'' 0, node_deps = [(0, DepOrder)]\<rparr>]"
  by code_simp


section \<open>Properties\<close>

lemma plan_no_panic:
  assumes "\<forall>ru \<in> set rs. recipe_wf ru"
  shows "plan rs \<noteq> Inl Panicked"
  using fold_res_not[of rs plan_recipe Panicked] plan_recipe_no_panic assms
  by (auto simp: plan_def bind_res_Inl_iff split: option.splits)

lemma lower_total:
  assumes "plan rs = Inr ns" and "distinct (map recipe_name rs)"
  shows "\<exists>d. fold_res (lower_node rs) (List.enumerate 0 ns) dag_new = Inr d"
  using lower_fold[of ns dag_new rs] plan_nodes_ok[OF assms(1)] plan_origins[OF assms(1)] work_node_known[OF assms(2)]
  by (auto simp: nodes_ok_def dag_len_def dag_new_def)

lemma build_dag_result:
  assumes "\<forall>ru \<in> set rs. recipe_wf ru" and "distinct (map recipe_name rs)"
  shows "case build_dag rs of
      Inr d \<Rightarrow> detect_output_collisions rs = None
        \<and> (\<exists>ns. plan rs = Inr ns \<and> (length ns \<le> 2 ^ 64 \<longrightarrow> lowers rs ns d))
    | Inl (Failed e) \<Rightarrow> detect_output_collisions rs = Some e
        \<or> (\<exists>x. plan rs = Inl (Failed x) \<and> e = engine_error_of x)
    | Inl Panicked \<Rightarrow> False"
proof (cases "detect_output_collisions rs")
  case (Some e)
  then show ?thesis by (simp add: build_dag_def)
next
  case None
  show ?thesis
  proof (cases "plan rs")
    case (Inl f)
    then show ?thesis
      using None plan_no_panic[OF assms(1)] by (cases f) (simp_all add: build_dag_def)
  next
    case (Inr ns)
    obtain d where d: "fold_res (lower_node rs) (List.enumerate 0 ns) dag_new = Inr d"
      using lower_total[OF Inr assms(2)] by blast
    have "length ns \<le> 2 ^ 64 \<longrightarrow> lowers rs ns d"
      using lower_plan[OF Inr assms(2)] d by auto
    then show ?thesis using None Inr d by (simp add: build_dag_def)
  qed
qed

text \<open>
  C33: for registered recipes with distinct names building the graph never panics; it fails exactly with
  the collision found or the planning error, and otherwise yields the plan lowered node by node: the
  same indices, each node waiting for its planned dependencies and for nothing else, carrying the
  work of its unit or probe, with no node completed.
\<close>

theorem build_dag_correct:
  assumes "\<forall>ru \<in> set rs. recipe_wf ru" and "distinct (map recipe_name rs)"
  shows "case build_dag rs of
      Inr d \<Rightarrow> detect_output_collisions rs = None
        \<and> (\<exists>ns. plan rs = Inr ns \<and> (length ns \<le> 2 ^ 64 \<longrightarrow> lowers rs ns d))
    | Inl (Failed e) \<Rightarrow> detect_output_collisions rs = Some e
        \<or> (\<exists>x. plan rs = Inl (Failed x) \<and> e = engine_error_of x)
    | Inl Panicked \<Rightarrow> False"
  using assms by (rule build_dag_result)

lemma demo_builds: "\<exists>d. build_dag demo_closure = Inr d \<and> lowers demo_closure demo_nodes d"
proof -
  have "distinct (map recipe_name demo_closure)" by (simp add: demo_closure_def recipe_of_def)
  moreover have "length demo_nodes \<le> 2 ^ 64" by (simp add: demo_nodes_def)
  moreover have "detect_output_collisions demo_closure = None" by code_simp
  ultimately show ?thesis using lower_plan[OF demo_plan] by (auto simp: build_dag_def demo_plan)
qed

lemma build_dag_correct_witness:
  "list_all recipe_wf race_closure \<and> distinct (map recipe_name race_closure)
   \<and> (\<exists>d. build_dag race_closure = Inr d \<and> dag_len d = 3 \<and> preds d 0 = {} \<and> preds d 1 = {} \<and> preds d 2 = {0, 1})"
proof -
  have wf: "\<forall>ru \<in> set race_closure. recipe_wf ru"
    by (simp add: race_closure_def recipe_wf_def recipe_of_def file_unit_def shell_unit_def is_probe_unit_def)
  have dist: "distinct (map recipe_name race_closure)" by (simp add: race_closure_def recipe_of_def)
  obtain d where d: "fold_res (lower_node race_closure) (List.enumerate 0 race_nodes) dag_new = Inr d"
    using lower_total[OF race_passes_checks(4) dist] by (elim exE)
  then have b: "build_dag race_closure = Inr d" by (simp add: build_dag_def race_passes_checks)
  have "length race_nodes = 3" by (simp add: race_nodes_def)
  then have "lowers race_closure race_nodes d"
    using build_dag_correct[OF wf dist] unfolding b race_passes_checks(4) by simp
  then have len: "dag_len d = length race_nodes"
    and pre: "k < length race_nodes \<Longrightarrow> preds d k = fst ` set (node_deps (race_nodes ! k))" for k
    unfolding lowers_def by blast+
  have "dag_len d = 3" "preds d 0 = {}" "preds d 1 = {}" "preds d 2 = {0, 1}"
    using len pre[of 0] pre[of 1] pre[of 2] by (simp_all add: race_nodes_def)
  then show ?thesis using wf dist b by (simp add: list_all_iff)
qed

text \<open>
  the built graph can be run to the end, and whatever order ready nodes are finished in, every node
  runs at most once and after all its planned dependencies, and when nothing is ready any more every
  planned node has run.
\<close>

theorem build_dag_runs:
  assumes "build_dag rs = Inr d" and "plan rs = Inr ns" and "distinct (map recipe_name rs)"
    and "length ns \<le> 2 ^ 64"
  shows "(\<exists>s fin. dispatched complete d (initial_ready d) s [] fin)
    \<and> (\<forall>s rdy fin. dispatched complete d (initial_ready d) s rdy fin \<longrightarrow>
         distinct fin \<and> set fin \<subseteq> {..<length ns}
         \<and> (\<forall>k < length fin. fst ` set (node_deps (ns ! (fin ! k))) \<subseteq> set (take k fin))
         \<and> (rdy = [] \<longrightarrow> set fin = {..<length ns}))"
proof -
  have "lowers rs ns d"
    using lower_plan[OF assms(2-4)] assms(1,2) by (auto simp: build_dag_def split: option.splits)
  from lowered_runs[OF this] show ?thesis by blast
qed

lemma build_dag_runs_witness:
  "\<exists>d s fin. build_dag demo_closure = Inr d \<and> dispatched complete d (initial_ready d) s [] fin
     \<and> set fin = {..<5} \<and> plan demo_closure = Inr demo_nodes"
proof -
  obtain d where d: "build_dag demo_closure = Inr d" using demo_builds by blast
  have dist: "distinct (map recipe_name demo_closure)" by (simp add: demo_closure_def recipe_of_def)
  have five: "length demo_nodes = 5" by (simp add: demo_nodes_def)
  then have few: "length demo_nodes \<le> 2 ^ 64" by simp
  note runs = build_dag_runs[OF d demo_plan dist few]
  obtain s fin where run: "dispatched complete d (initial_ready d) s [] fin"
    using runs[THEN conjunct1] by (elim exE)
  have "set fin = {..<5}" using runs[THEN conjunct2, rule_format, OF run] five by simp
  then show ?thesis using run d demo_plan by (intro exI conjI)
qed

text \<open>
  C34: the read-after-write check passes exactly when every recipe that reads a literal path which
  another recipe declares as a literal output reaches that recipe through declared or fine-grained
  dependencies, paths compared by their components; a rejection names such a reader and writer.
\<close>

theorem read_after_write_exact:
  "(check_literal_read_after_write rs = Inr () \<longleftrightarrow> (\<nexists>p c i. reads_unordered rs p c i))
   \<and> (check_literal_read_after_write rs = Inl e \<longrightarrow>
        reads_unordered rs (rw_producer e) (rw_consumer e) (rw_path e)
        \<and> e = LiteralReadAfterWrite (rw_producer e) (rw_consumer e) (rw_path e))"
  using read_after_write_result[of rs] by (cases "check_literal_read_after_write rs") auto

definition unnamed_closure :: "recipe_units list" where
  "unnamed_closure =
     [recipe_of ''gen'' [''app''] [file_unit ''gen'' [] [''./out''] Sequential] [] [],
      recipe_of ''app'' [] [file_unit ''cc'' [''out''] [''y''] Sequential] [] []]"

lemma read_after_write_exact_witness:
  "check_literal_read_after_write unnamed_closure = Inr () \<and> \<not> reads_unordered unnamed_closure ''gen'' ''app'' ''out''
   \<and> reads_unordered (map (\<lambda>ru. ru\<lparr>working_dir := ''/w''\<rparr>) unnamed_closure) ''gen'' ''app'' ''out''"
proof -
  have "check_literal_read_after_write unnamed_closure = Inr ()" by code_simp
  moreover have "check_literal_read_after_write (map (\<lambda>ru. ru\<lparr>working_dir := ''/w''\<rparr>) unnamed_closure)
      = Inl (LiteralReadAfterWrite ''gen'' ''app'' ''out'')" by code_simp
  ultimately show ?thesis
    using read_after_write_exact[of unnamed_closure]
      read_after_write_exact[of "map (\<lambda>ru. ru\<lparr>working_dir := ''/w''\<rparr>) unnamed_closure"
        "LiteralReadAfterWrite ''gen'' ''app'' ''out''"] by simp
qed


text \<open>
  C35: the collision check passes exactly when any two recipes that write one canonical path are
  connected by declared dependencies, direction ignored; a rejection names all writers of such a path.
  It therefore never fires in a closure in which one recipe reaches all others through declared
  dependencies.
\<close>

theorem output_collisions_exact:
  "(detect_output_collisions rs = None \<longleftrightarrow> (\<nexists>c a b. collides rs c a b))
   \<and> (detect_output_collisions rs = Some e \<longrightarrow>
        (\<exists>c a b. collides rs c a b \<and> e = OutputCollision (first_spelling rs c) (path_writers rs c)))
   \<and> ((\<exists>t. \<forall>ru \<in> set rs. (t, recipe_name ru) \<in> (set (coarse_edges rs))\<^sup>*)
        \<longrightarrow> detect_output_collisions rs = None)"
proof (intro conjI impI)
  show none: "detect_output_collisions rs = None \<longleftrightarrow> (\<nexists>c a b. collides rs c a b)"
    by (rule detect_None_iff)
  show "\<exists>c a b. collides rs c a b \<and> e = OutputCollision (first_spelling rs c) (path_writers rs c)"
    if "detect_output_collisions rs = Some e"
    using that by (rule detect_SomeE) blast
  assume "\<exists>t. \<forall>ru \<in> set rs. (t, recipe_name ru) \<in> (set (coarse_edges rs))\<^sup>*"
  then obtain t where t: "\<forall>ru \<in> set rs. (t, recipe_name ru) \<in> (set (coarse_edges rs))\<^sup>*"
    by blast
  let ?U = "(set (undirected_edges rs))\<^sup>*"
  have sub: "set (coarse_edges rs) \<subseteq> set (undirected_edges rs)"
    by (auto simp: undirected_edges_def coarse_edges_def)
  have reach: "(t, r) \<in> ?U" if "(p, r) \<in> set (declared_outputs rs)" for p r
    using t that rtrancl_mono[OF sub] by (auto simp: declared_outputs_mem declared_mem)
  have swap: "(a, b) \<in> ?U \<Longrightarrow> (b, a) \<in> ?U" for a b
    using undirected_sym by (metis sym_rtrancl symD)
  show "detect_output_collisions rs = None"
    unfolding none collides_def using reach swap by (meson path_writers_mem rtrancl_trans)
qed

lemma output_collisions_exact_witness:
  "detect_output_collisions race_closure = None
   \<and> collides ordered_closure [Normal ''out''] ''app'' ''gen''"
proof
  have "set (coarse_edges race_closure) = {(''app'', ''a''), (''app'', ''b'')}"
    "recipe_name ` set race_closure = {''a'', ''b'', ''app''}"
    by (simp_all add: race_closure_def recipe_of_def coarse_edges_def)
  moreover have "(''app'', r) \<in> {(''app'', ''a''), (''app'', ''b'')}\<^sup>*" if "r \<in> {''a'', ''b'', ''app''}" for r
    using that by blast
  ultimately have "\<forall>ru \<in> set race_closure. (''app'', recipe_name ru) \<in> (set (coarse_edges race_closure))\<^sup>*"
    by (metis image_eqI)
  then show "detect_output_collisions race_closure = None"
    using output_collisions_exact[of race_closure] by blast
  have "undirected_edges ordered_closure = []" "path_writers ordered_closure [Normal ''out''] = [''app'', ''gen'']"
    by code_simp+
  then show "collides ordered_closure [Normal ''out''] ''app'' ''gen''" by (simp add: collides_def)
qed

definition reads_terminal :: "(str \<Rightarrow> (str \<Rightarrow> bool) option) \<Rightarrow> recipe_units list \<Rightarrow> str \<Rightarrow> str \<Rightarrow> str \<Rightarrow> str \<Rightarrow> bool" where
  "reads_terminal glob rs upstream downstream input pat \<longleftrightarrow>
     (\<exists>ru. (ru, input) \<in> set (literal_inputs rs) \<and> recipe_name ru = downstream) \<and> upstream \<noteq> downstream
     \<and> (upstream, pat) \<in> set (terminal_entries rs)
     \<and> (\<exists>matches. glob (if ends_with ''/'' pat then pat @ ''**'' else pat) = Some matches \<and> matches input)"

lemma glob_matchers_mem:
  "(\<exists>pats. (up, pats) \<in> set (glob_matchers glob rs) \<and> (pat, m) \<in> set pats) \<longleftrightarrow>
     (up, pat) \<in> set (terminal_entries rs) \<and> glob (if ends_with ''/'' pat then pat @ ''**'' else pat) = Some m"
  by (force simp: glob_matchers_def map_filter_set)

lemma globbed_result:
  "case check_globbed_output_cross_recipe_edges glob rs of
     Inr _ \<Rightarrow> \<nexists>u d i p. reads_terminal glob rs u d i p
   | Inl e \<Rightarrow> reads_terminal glob rs (gx_upstream e) (gx_downstream e) (gx_input e) (gx_pattern e)
       \<and> e = GlobbedOutputCrossRecipeEdge (gx_upstream e) (gx_downstream e) (gx_input e) (gx_pattern e)"
proof (cases "terminal_entries rs = []")
  case True
  then show ?thesis by (simp add: check_globbed_output_cross_recipe_edges_def reads_terminal_def)
next
  case False
  let ?xs = "concat (map (\<lambda>(ru, input).
       concat (map (\<lambda>(upstream, pats).
          if upstream = recipe_name ru then []
          else map (\<lambda>(pat, matches). (recipe_name ru, input, upstream, pat, matches)) pats)
         (glob_matchers glob rs))) (literal_inputs rs))"
  let ?P = "\<lambda>(r, input, upstream, pat, matches). matches input"
  have mem: "(r, i, u, p, m) \<in> set ?xs \<longleftrightarrow>
      (\<exists>ru. (ru, i) \<in> set (literal_inputs rs) \<and> recipe_name ru = r) \<and> u \<noteq> r
      \<and> (\<exists>pats. (u, pats) \<in> set (glob_matchers glob rs) \<and> (p, m) \<in> set pats)" for r i u p m
    by (fastforce split: if_splits)
  have res: "check_globbed_output_cross_recipe_edges glob rs =
      (case List.find ?P ?xs of
         Some (r, input, upstream, pat, _) \<Rightarrow> Inl (GlobbedOutputCrossRecipeEdge upstream r input pat)
       | None \<Rightarrow> Inr ())"
    unfolding check_globbed_output_cross_recipe_edges_def using False by (simp only: if_False)
  show ?thesis
  proof (cases "List.find ?P ?xs")
    case None
    have "\<not> reads_terminal glob rs u d i p" for u d i p
    proof
      assume "reads_terminal glob rs u d i p"
      then obtain m where "(d, i, u, p, m) \<in> set ?xs" "m i"
        unfolding mem glob_matchers_mem reads_terminal_def by blast
      then show False using None unfolding find_None_iff by blast
    qed
    then show ?thesis unfolding res None by simp
  next
    case (Some x)
    obtain r i u p m where x: "x = (r, i, u, p, m)" by (cases x)
    have "(r, i, u, p, m) \<in> set ?xs" "m i" using find_Some_mem[OF Some] unfolding x by blast+
    then have "reads_terminal glob rs u r i p"
      unfolding mem glob_matchers_mem reads_terminal_def by blast
    then show ?thesis unfolding res Some x by simp
  qed
qed

text \<open>
  the terminal-output check passes exactly when no literal input of a recipe is matched by a
  compiling terminal output pattern of another recipe, a directory output standing for its subtree; a
  rejection names such an input and pattern.
\<close>

theorem terminal_outputs_exact:
  "(check_globbed_output_cross_recipe_edges glob rs = Inr () \<longleftrightarrow> (\<nexists>u d i p. reads_terminal glob rs u d i p))
   \<and> (check_globbed_output_cross_recipe_edges glob rs = Inl e \<longrightarrow>
        reads_terminal glob rs (gx_upstream e) (gx_downstream e) (gx_input e) (gx_pattern e)
        \<and> e = GlobbedOutputCrossRecipeEdge (gx_upstream e) (gx_downstream e) (gx_input e) (gx_pattern e))"
  using globbed_result[of glob rs] by (cases "check_globbed_output_cross_recipe_edges glob rs") auto

definition demo_glob :: "str \<Rightarrow> (str \<Rightarrow> bool) option" where
  "demo_glob pat = map_option (\<lambda>dir s. starts_with dir s) (strip_suffix ''**'' pat)"

definition dir_closure :: "recipe_units list" where
  "dir_closure =
     [recipe_of ''gen'' [] [file_unit ''gen'' [] [''pkg/''] Sequential] [] [],
      recipe_of ''app'' [''gen''] [file_unit ''cc'' [''pkg/a.c''] [''app''] Sequential] [] []]"

lemma terminal_outputs_exact_witness:
  "reads_terminal demo_glob dir_closure ''gen'' ''app'' ''pkg/a.c'' ''pkg/''"
proof -
  have "check_globbed_output_cross_recipe_edges demo_glob dir_closure
      = Inl (GlobbedOutputCrossRecipeEdge ''gen'' ''app'' ''pkg/a.c'' ''pkg/'')"
    by code_simp
  then show ?thesis
    using terminal_outputs_exact[of demo_glob dir_closure "GlobbedOutputCrossRecipeEdge ''gen'' ''app'' ''pkg/a.c'' ''pkg/''"]
    by simp
qed


text \<open>
  a lowered unit sees the recipe's environment overridden by its own exports, spawns with its own
  exports only, and is dropped as already satisfied exactly when it is an empty shell command without a
  cache declaration.
\<close>

theorem lower_unit_correct:
  "wn_env_vars (lower_unit ru u) k = (case unit_env_vars u k of Some v \<Rightarrow> Some v | None \<Rightarrow> env_vars ru k)
   \<and> wn_process_env_vars (lower_unit ru u) = unit_env_vars u
   \<and> (wn_payload (lower_unit ru u) = None \<longleftrightarrow> (\<exists>line. payload u = Shell [] line) \<and> u_cache_meta u = None)
   \<and> wn_payload (lower_unit ru u) \<in> {None, Some (payload u)}
   \<and> wn_cache_meta (lower_unit ru u) = u_cache_meta u"
  by (auto simp: lower_unit_def is_presatisfied_def Let_def uncacheable_iff map_add_def
      split: work_payload.splits option.splits)

section \<open>From the workspace to the graph\<close>

lemma map_res_nth:
  "map_res g xs = Inr ys \<Longrightarrow> length ys = length xs \<and> (\<forall>k < length xs. g (xs ! k) = Inr (ys ! k))"
proof (induction xs arbitrary: ys)
  case (Cons x xs)
  then obtain y zs where "g x = Inr y" "map_res g xs = Inr zs" "ys = y # zs"
    by (auto simp: bind_res_Inr_iff)
  then show ?case using Cons.IH[of zs] by (auto simp: nth_Cons split: nat.split)
qed simp

definition workspace_wf :: "(str \<times> recipe_units) list \<Rightarrow> bool" where
  "workspace_wf workspace \<longleftrightarrow> list_all (\<lambda>(n, ru). recipe_name ru = n \<and> recipe_wf ru) workspace"

lemma closure_units_Inr:
  assumes "closure_units workspace edge_map order = Inr rs" and "workspace_wf workspace"
  shows "map recipe_name rs = order \<and> (\<forall>ru \<in> set rs. recipe_wf ru)"
proof -
  note nth = map_res_nth[OF assms(1)[unfolded closure_units_def]]
  have one: "recipe_name (rs ! k) = order ! k \<and> recipe_wf (rs ! k)" if "k < length order" for k
  proof -
    from nth that have "(case map_of workspace (order ! k) of None \<Rightarrow> Inl (Failed (UnknownRecipe (order ! k)))
        | Some ru \<Rightarrow> Inr (stamp_deps edge_map (order ! k) ru)) = Inr (rs ! k)" by blast
    then obtain ru where ru: "map_of workspace (order ! k) = Some ru" "rs ! k = stamp_deps edge_map (order ! k) ru"
      by (cases "map_of workspace (order ! k)") auto
    then have "recipe_name ru = order ! k" "recipe_wf ru"
      using assms(2) by (auto simp: workspace_wf_def list_all_iff dest: map_of_SomeD)
    then show ?thesis
      using ru(2) by (simp add: stamp_deps_def recipe_wf_def split: option.splits)
  qed
  have "length rs = length order" using nth by blast
  then show ?thesis using one by (auto simp: in_set_conv_nth intro: nth_equalityI)
qed

lemma closure_units_no_panic: "closure_units workspace edge_map order \<noteq> Inl Panicked"
  by (auto simp: closure_units_def dest!: map_res_Inl_ex split: option.splits)

text \<open>
  C8: what a run builds from a workspace whose recipes are registered under their names: it never
  panics, and a graph is built only for the reachable recipes, each once and in topological order, only
  when all checks pass on the workspace and on the closure, and it is the lowered plan of that closure.
\<close>

theorem run_dag_sound:
  assumes "sorted_wrt (<) reachable" and "workspace_wf workspace"
  shows "case run_dag glob workspace edge_map reachable of
      Inr d \<Rightarrow> \<exists>order rs ns. toposort_recipes edge_map reachable = Inr order
        \<and> closure_units workspace edge_map order = Inr rs
        \<and> map recipe_name rs = order \<and> distinct order \<and> set order = set reachable
        \<and> (\<nexists>u c i p. reads_terminal glob (map snd workspace) u c i p)
        \<and> (\<nexists>p c i. reads_unordered rs p c i) \<and> (\<nexists>c a b. collides rs c a b)
        \<and> plan rs = Inr ns \<and> (length ns \<le> 2 ^ 64 \<longrightarrow> lowers rs ns d)
    | Inl f \<Rightarrow> f \<noteq> Panicked"
proof (cases "check_globbed_output_cross_recipe_edges glob (map snd workspace)")
  case (Inl e)
  then show ?thesis by (simp add: run_dag_def)
next
  case glob: (Inr x)
  obtain order where res: "toposort_recipes edge_map reachable =
       (if length order \<noteq> length reachable
        then Inl (Failed (Cycle (filter (\<lambda>n. n \<notin> set order) reachable))) else Inr order)"
    and o: "distinct order" "set order \<subseteq> set reachable"
    by (rule toposort_result[OF assms(1), of edge_map]) (rule that)
  show ?thesis
  proof (cases "length order = length reachable")
    case False
    then show ?thesis using glob res by (simp add: run_dag_def)
  next
    case True
    then have topo: "toposort_recipes edge_map reachable = Inr order" using res by simp
    have "distinct reachable" using assms(1) by (simp add: strict_sorted_iff)
    then have all: "set order = set reachable"
      using o True by (metis List.finite_set card_subset_eq distinct_card)
    show ?thesis
    proof (cases "closure_units workspace edge_map order")
      case (Inl f)
      then have "f \<noteq> Panicked" using closure_units_no_panic by metis
      then show ?thesis using glob topo Inl by (simp add: run_dag_def)
    next
      case rs: (Inr rs)
      note names = closure_units_Inr[OF rs assms(2)]
      show ?thesis
      proof (cases "check_literal_read_after_write rs")
        case (Inl e)
        then show ?thesis using glob topo rs by (simp add: run_dag_def)
      next
        case raw: (Inr y)
        have run: "run_dag glob workspace edge_map reachable = build_dag rs"
          using glob topo rs raw by (simp add: run_dag_def)
        have clean: "\<nexists>u c i p. reads_terminal glob (map snd workspace) u c i p"
          "\<nexists>p c i. reads_unordered rs p c i"
          using globbed_result[of glob "map snd workspace"] glob read_after_write_result[of rs] raw by simp_all
        have "distinct (map recipe_name rs)" "\<forall>ru \<in> set rs. recipe_wf ru" using names o(1) by simp_all
        then have "case build_dag rs of
            Inr d \<Rightarrow> detect_output_collisions rs = None
              \<and> (\<exists>ns. plan rs = Inr ns \<and> (length ns \<le> 2 ^ 64 \<longrightarrow> lowers rs ns d))
          | Inl f \<Rightarrow> f \<noteq> Panicked"
          using build_dag_result[of rs] by (cases "build_dag rs") (auto split: failure.splits)
        then show ?thesis
          unfolding run using topo rs names o(1) all clean detect_None_iff[of rs]
          by (cases "build_dag rs") auto
      qed
    qed
  qed
qed

definition demo_workspace :: "(str \<times> recipe_units) list" where
  "demo_workspace = map (\<lambda>ru. (recipe_name ru, ru)) (demo_closure @ [recipe_of ''other'' [] [] [] []])"

lemma run_dag_sound_witness:
  "workspace_wf demo_workspace \<and> sorted_wrt (<) [''app'', ''lib'']
   \<and> (\<exists>d. run_dag demo_glob demo_workspace [''app'' \<mapsto> [''lib'']] [''app'', ''lib''] = Inr d
          \<and> lowers demo_closure demo_nodes d)"
proof -
  let ?em = "[''app'' \<mapsto> [''lib'']]" and ?re = "[''app'', ''lib'']"
  have wf: "workspace_wf demo_workspace"
    by (simp add: demo_workspace_def demo_closure_def workspace_wf_def recipe_wf_def recipe_of_def
        shell_unit_def is_probe_unit_def)
  have sorted: "sorted_wrt (<) ?re" by code_simp
  have glob: "check_globbed_output_cross_recipe_edges demo_glob (map snd demo_workspace) = Inr ()"
    and topo: "toposort_recipes ?em ?re = Inr [''lib'', ''app'']"
    and raw: "check_literal_read_after_write demo_closure = Inr ()" by code_simp+
  have units: "closure_units demo_workspace ?em [''lib'', ''app''] = Inr demo_closure"
    by (simp add: closure_units_def demo_workspace_def demo_closure_def recipe_of_def stamp_deps_def
        declared_coarse_deps_def)
  obtain d where d: "build_dag demo_closure = Inr d" using demo_builds by blast
  then have run: "run_dag demo_glob demo_workspace ?em ?re = Inr d"
    by (simp add: run_dag_def glob topo units raw)
  have few: "length demo_nodes \<le> 2 ^ 64" by (simp add: demo_nodes_def)
  obtain order rs ns where "toposort_recipes ?em ?re = Inr order" "closure_units demo_workspace ?em order = Inr rs"
    "plan rs = Inr ns" "length ns \<le> 2 ^ 64 \<longrightarrow> lowers rs ns d"
    using run_dag_sound[OF sorted wf, where glob = demo_glob and edge_map = ?em] unfolding run by auto
  then have "lowers demo_closure demo_nodes d"
    using topo units demo_plan few by simp
  then show ?thesis using wf sorted run by blast
qed

end
