(* ===== verification/Bytes.thy ===== *)
theory Bytes
  imports Cook_Prelude
begin

text \<open>
  Bytes as the encoders and readers of the sources handle them: little-endian integers
  (\<open>to\_le\_bytes\<close>, \<open>from\_le\_bytes\<close>), and the two operations of the standard library that read bytes as
  UTF-8, \<open>str::from\_utf8\<close> (which only accepts) and \<open>String::from\_utf8\_lossy\<close> (which replaces every
  maximal invalid piece by U+FFFD).
\<close>

section \<open>Little-endian integers\<close>

fun le_bytes :: "nat \<Rightarrow> nat \<Rightarrow> str" where
  "le_bytes 0 v = []"
| "le_bytes (Suc n) v = char_of (v mod 256) # le_bytes n (v div 256)"

fun from_le :: "str \<Rightarrow> nat" where
  "from_le [] = 0"
| "from_le (c # cs) = of_char c + 256 * from_le cs"

definition u32_le :: "u32 \<Rightarrow> str" where "u32_le w = le_bytes 4 (unat w)"

definition u64_le :: "u64 \<Rightarrow> str" where "u64_le w = le_bytes 8 (unat w)"

definition u32_of_le :: "str \<Rightarrow> u32" where "u32_of_le s = word_of_nat (from_le s)"

definition u64_of_le :: "str \<Rightarrow> u64" where "u64_of_le s = word_of_nat (from_le s)"

lemma length_le_bytes [simp]: "length (le_bytes n v) = n"
  by (induction n arbitrary: v) simp_all

lemma from_le_bytes: "from_le (le_bytes n v) = v mod 256 ^ n"
proof (induction n arbitrary: v)
  case (Suc n)
  have "v mod 256 + 256 * ((v div 256) mod 256 ^ n) = v mod (256 * 256 ^ n)"
    by (metis add.commute mod_mult2_eq)
  then show ?case using Suc by simp
qed simp

lemma from_le_less: "from_le s < 256 ^ length s"
proof (induction s)
  case (Cons c s)
  have "(of_char c :: nat) < 256" by simp
  moreover have "256 * (from_le s + 1) \<le> 256 * 256 ^ length s"
    using Cons.IH by (intro mult_le_mono2) simp
  moreover have "a < 256 \<Longrightarrow> 256 * (x + 1) \<le> m \<Longrightarrow> a + 256 * x < m" for a x m :: nat by auto
  ultimately have "of_char c + 256 * from_le s < 256 * 256 ^ length s" by blast
  then show ?case by simp
qed simp

lemma le_from_le: "le_bytes (length s) (from_le s) = s"
proof (induction s)
  case (Cons c s)
  have "(of_char c + 256 * from_le s) mod 256 = of_char c" "(of_char c + 256 * from_le s) div 256 = from_le s"
    by simp_all
  then show ?case using Cons.IH by simp
qed simp

lemma u32_le_length [simp]: "length (u32_le w) = 4" by (simp add: u32_le_def)

lemma u64_le_length [simp]: "length (u64_le w) = 8" by (simp add: u64_le_def)

lemma u32_roundtrip [simp]: "u32_of_le (u32_le w) = w"
proof -
  have "unat w < 2 ^ 32" using unsigned_less[of w] by simp
  then show ?thesis by (simp add: u32_of_le_def u32_le_def from_le_bytes)
qed

lemma u64_roundtrip [simp]: "u64_of_le (u64_le w) = w"
proof -
  have "unat w < 2 ^ 64" using unsigned_less[of w] by simp
  then show ?thesis by (simp add: u64_of_le_def u64_le_def from_le_bytes)
qed

lemma u32_le_of: "length s = 4 \<Longrightarrow> u32_le (u32_of_le s) = s"
  using from_le_less[of s] le_from_le[of s] by (simp add: u32_of_le_def u32_le_def unat_of_nat)

lemma u64_le_of: "length s = 8 \<Longrightarrow> u64_le (u64_of_le s) = s"
  using from_le_less[of s] le_from_le[of s] by (simp add: u64_of_le_def u64_le_def unat_of_nat)

section \<open>UTF-8\<close>

definition utf8_len :: "char \<Rightarrow> nat" where
  "utf8_len a =
     (if a < CHR 0x80 then 1
      else if in_range CHR 0xC2 CHR 0xDF a then 2
      else if in_range CHR 0xE0 CHR 0xEF a then 3
      else if in_range CHR 0xF0 CHR 0xF4 a then 4
      else 0)"

definition utf8_cont :: "char \<Rightarrow> bool" where "utf8_cont = in_range CHR 0x80 CHR 0xBF"

definition utf8_second :: "char \<Rightarrow> char \<Rightarrow> bool" where
  "utf8_second a b =
     (if a = CHR 0xE0 then in_range CHR 0xA0 CHR 0xBF b
      else if a = CHR 0xED then in_range CHR 0x80 CHR 0x9F b
      else if a = CHR 0xF0 then in_range CHR 0x90 CHR 0xBF b
      else if a = CHR 0xF4 then in_range CHR 0x80 CHR 0x8F b
      else utf8_cont b)"

text \<open>Whether a character starts here, and how many bytes it, or the invalid piece, takes.\<close>

fun utf8_step :: "str \<Rightarrow> bool \<times> nat" where
  "utf8_step [] = (False, 0)"
| "utf8_step (a # r) =
     (let n = utf8_len a in
      if n \<le> 1 then (n = 1, 1)
      else
        (case r of
           [] \<Rightarrow> (False, 1)
         | b # t \<Rightarrow>
             (if \<not> utf8_second a b then (False, 1)
              else let k = length (takeWhile utf8_cont (take (n - 2) t)) in (k = n - 2, k + 2))))"

lemma utf8_step_bounds: "utf8_step (a # r) = (v, w) \<Longrightarrow> 0 < w \<and> w \<le> Suc (length r)"
proof -
  have "length (takeWhile utf8_cont (take m t)) \<le> length t" for m t
    using length_takeWhile_le[of utf8_cont "take m t"] by (simp add: order_trans)
  then show "utf8_step (a # r) = (v, w) \<Longrightarrow> 0 < w \<and> w \<le> Suc (length r)"
    by (auto simp: Let_def split: if_splits list.splits)
qed

declare utf8_step.simps(2) [simp del]

function utf8_valid :: "str \<Rightarrow> bool" where
  "utf8_valid [] = True"
| "utf8_valid (a # r) = (let (v, w) = utf8_step (a # r) in v \<and> utf8_valid (drop w (a # r)))"
  by pat_completeness auto
termination
  by (relation "measure length") (auto dest!: utf8_step_bounds[OF sym])

function from_utf8_lossy :: "str \<Rightarrow> str" where
  "from_utf8_lossy [] = []"
| "from_utf8_lossy (a # r) =
     (let (v, w) = utf8_step (a # r) in
      (if v then take w (a # r) else [CHR 0xEF, CHR 0xBF, CHR 0xBD]) @ from_utf8_lossy (drop w (a # r)))"
  by pat_completeness auto
termination
  by (relation "measure length") (auto dest!: utf8_step_bounds[OF sym])

declare utf8_valid.simps(2) [simp del] from_utf8_lossy.simps(2) [simp del]

lemma lossy_valid: "utf8_valid s \<Longrightarrow> from_utf8_lossy s = s"
proof (induction s rule: utf8_valid.induct)
  case (2 a r)
  obtain v w where vw: "utf8_step (a # r) = (v, w)" by (cases "utf8_step (a # r)")
  then show ?case
    using 2 by (simp add: utf8_valid.simps(2)[of a r] from_utf8_lossy.simps(2)[of a r])
qed simp

lemma ascii_step: "a < CHR 0x80 \<Longrightarrow> utf8_step (a # r) = (True, 1)"
  by (simp add: utf8_step.simps(2) utf8_len_def)

lemma ascii_valid: "\<forall>c \<in> set s. c < CHR 0x80 \<Longrightarrow> utf8_valid s"
  by (induction s) (simp_all add: utf8_valid.simps(2) ascii_step)

lemma utf8_step_append:
  assumes "utf8_step s = (True, w)"
  shows "utf8_step (s @ t) = (True, w) \<and> utf8_step (take w s) = (True, w)"
proof (cases s)
  case (Cons a r)
  show ?thesis
  proof (cases "utf8_len a \<le> 1")
    case True
    then show ?thesis using assms Cons by (auto simp: Let_def utf8_step.simps(2))
  next
    case False
    then obtain b u where r: "r = b # u" using assms Cons by (cases r) (auto simp: Let_def utf8_step.simps(2))
    let ?m = "utf8_len a - 2"
    have b: "utf8_second a b" using assms Cons r False by (auto simp: Let_def utf8_step.simps(2) split: if_splits)
    have k: "length (takeWhile utf8_cont (take ?m u)) = ?m" "w = ?m + 2"
      using assms Cons r False b by (auto simp: Let_def utf8_step.simps(2))
    then have "length (take ?m u) = ?m" "takeWhile utf8_cont (take ?m u) = take ?m u"
      using length_takeWhile_le[of utf8_cont "take ?m u"] takeWhile_eq_take[of utf8_cont "take ?m u"] by auto
    then show ?thesis using Cons r False b k by (simp add: Let_def utf8_step.simps(2))
  qed
qed (use assms in simp)

end
