(* ===== verification/Byte_Reader.thy ===== *)
theory Byte_Reader
  imports Bytes
begin

text \<open>
  The cursor types of \<open>cook-cache/src/index\_bin.rs\<close>: the bounds-checked \<open>Reader\<close>, given by the bytes it
  has not consumed yet, and the string table that \<open>Writer::string\_table\<close> and
  \<open>Reader::string\_table\<close> agree on. A \<open>usize\<close> is 64 bits wide, so the sums and products of two 32-bit
  numbers the reader checks cannot overflow and its \<open>checked\_add\<close> and \<open>checked\_mul\<close> succeed.
\<close>

datatype decode_error =
    BadMagic
  | Truncated
  | ChecksumMismatch
  | SchemaVersion u32
  | Utf8
  | BadReference

type_synonym 'v reader = "str \<Rightarrow> (decode_error, 'v \<times> str) res"

definition rd_ret :: "'v \<Rightarrow> 'v reader" where "rd_ret v s = Inr (v, s)"

definition rd_fail :: "decode_error \<Rightarrow> 'v reader" where "rd_fail e s = Inl e"

definition rd_bind :: "'v reader \<Rightarrow> ('v \<Rightarrow> 'w reader) \<Rightarrow> 'w reader" where
  "rd_bind r f s = bind_res (r s) (\<lambda>(v, s'). f v s')"

definition rd_lift :: "(decode_error, 'v) res \<Rightarrow> 'v reader" where
  "rd_lift m s = bind_res m (\<lambda>v. Inr (v, s))"

definition rd_remaining :: "nat reader" where "rd_remaining s = Inr (length s, s)"

definition rd_take :: "nat \<Rightarrow> str reader" where
  "rd_take n s = (if n \<le> length s then Inr (take n s, drop n s) else Inl Truncated)"

definition rd_u8 :: "char reader" where "rd_u8 = rd_bind (rd_take 1) (\<lambda>b. rd_ret (b ! 0))"

definition rd_u32 :: "u32 reader" where "rd_u32 = rd_bind (rd_take 4) (\<lambda>b. rd_ret (u32_of_le b))"

definition rd_u64 :: "u64 reader" where "rd_u64 = rd_bind (rd_take 8) (\<lambda>b. rd_ret (u64_of_le b))"

fun rd_many :: "nat \<Rightarrow> 'v reader \<Rightarrow> 'v list reader" where
  "rd_many 0 r = rd_ret []"
| "rd_many (Suc n) r = rd_bind r (\<lambda>v. rd_bind (rd_many n r) (\<lambda>vs. rd_ret (v # vs)))"

section \<open>String tables\<close>

fun offsets_from :: "nat \<Rightarrow> 'a list list \<Rightarrow> nat list" where
  "offsets_from at [] = [at]"
| "offsets_from at (s # ss) = at # offsets_from (at + length s) ss"

definition string_table :: "str list \<Rightarrow> str" where
  "string_table items =
     u32_le (word_of_nat (length items)) @ u32_le (word_of_nat (length (concat items)))
     @ concat (map (\<lambda>off. u32_le (word_of_nat off)) (offsets_from 0 items)) @ concat items"

definition table_item :: "str \<Rightarrow> nat list \<Rightarrow> nat \<Rightarrow> (decode_error, str) res" where
  "table_item blob offsets i =
     (let start = offsets ! i; stop = offsets ! (i + 1) in
      if start > stop \<or> stop > length blob then Inl BadReference
      else (let s = take (stop - start) (drop start blob) in if utf8_valid s then Inr s else Inl Utf8))"

definition rd_strings :: "str list reader" where
  "rd_strings =
     rd_bind rd_u32 (\<lambda>count. rd_bind rd_u32 (\<lambda>blob_len. rd_bind rd_remaining (\<lambda>remaining.
       if (unat count + 1) * 4 > remaining then rd_fail Truncated
       else
         rd_bind (rd_many (unat count + 1) rd_u32) (\<lambda>offs.
           let offsets = map unat offs in
           rd_bind (rd_take (unat blob_len)) (\<lambda>blob.
             if offsets ! unat count \<noteq> unat blob_len then rd_fail BadReference
             else rd_lift (map_res (table_item blob offsets) [0..<unat count]))))))"

section \<open>What a reader makes of written bytes\<close>

text \<open>The reader consumes exactly \<open>bs\<close>, whatever follows, and yields \<open>v\<close>.\<close>

definition reads :: "'v reader \<Rightarrow> str \<Rightarrow> 'v \<Rightarrow> bool" where
  "reads r bs v \<longleftrightarrow> (\<forall>rest. r (bs @ rest) = Inr (v, rest))"

named_theorems reads_intros "readers composed along the bytes they consume"

lemma readsI: "(\<And>rest. r (bs @ rest) = Inr (v, rest)) \<Longrightarrow> reads r bs v"
  by (simp add: reads_def)

lemma readsD: "reads r bs v \<Longrightarrow> r (bs @ rest) = Inr (v, rest)"
  by (simp add: reads_def)

lemma reads_ret [reads_intros]: "reads (rd_ret v) [] v"
  by (simp add: reads_def rd_ret_def)

lemma reads_bind [reads_intros]: "reads r a v \<Longrightarrow> reads (f v) b w \<Longrightarrow> reads (rd_bind r f) (a @ b) w"
  by (simp add: reads_def rd_bind_def)

text \<open>The last reader of a sequence, where the bytes are not followed by an empty remainder.\<close>

lemma reads_bind_last: "reads r a v \<Longrightarrow> reads (f v) [] w \<Longrightarrow> reads (rd_bind r f) a w"
  using reads_bind[of r a v f "[]" w] by simp

lemma reads_lift: "m = Inr v \<Longrightarrow> reads (rd_lift m) [] v"
  by (simp add: reads_def rd_lift_def)

lemma reads_take [reads_intros]: "n = length bs \<Longrightarrow> reads (rd_take n) bs bs"
  by (simp add: reads_def rd_take_def)

lemma reads_u8 [reads_intros]: "reads rd_u8 [b] b"
  unfolding rd_u8_def by (rule reads_bind_last[OF reads_take]) (simp_all add: reads_def rd_ret_def)

lemma reads_u32 [reads_intros]: "reads rd_u32 (u32_le w) w"
  unfolding rd_u32_def by (rule reads_bind_last[OF reads_take]) (simp_all add: reads_def rd_ret_def)

lemma reads_u64 [reads_intros]: "reads rd_u64 (u64_le w) w"
  unfolding rd_u64_def by (rule reads_bind_last[OF reads_take]) (simp_all add: reads_def rd_ret_def)

text \<open>One reader of a sequence, with the bytes it consumes at the front.\<close>

lemmas reads_seq =
  reads_bind[OF reads_u8, simplified append_Cons append_Nil] reads_bind[OF reads_u32] reads_bind[OF reads_u64]
  reads_bind_last[OF reads_u64] reads_bind_last[OF reads_u32]

lemma reads_bind_lift: "m = Inr v \<Longrightarrow> reads (f v) b w \<Longrightarrow> reads (rd_bind (rd_lift m) f) b w"
  using reads_bind[OF reads_lift, of m v f b w] by simp

lemma reads_many:
  "(\<And>x. x \<in> set xs \<Longrightarrow> reads r (enc x) (val x)) \<Longrightarrow> reads (rd_many (length xs) r) (concat (map enc xs)) (map val xs)"
proof (induction xs)
  case Nil
  then show ?case by (simp add: reads_ret)
next
  case (Cons x xs)
  then show ?case by (auto intro!: reads_bind reads_bind_last[OF Cons.IH] reads_ret)
qed

lemma length_offsets_from [simp]: "length (offsets_from at ss) = length ss + 1"
  by (induction ss arbitrary: at) simp_all

lemma offsets_from_nth: "i \<le> length ss \<Longrightarrow> offsets_from at ss ! i = at + length (concat (take i ss))"
proof (induction ss arbitrary: at i)
  case (Cons s ss)
  then show ?case by (cases i) simp_all
qed simp

lemma offsets_from_bound: "o' \<in> set (offsets_from at ss) \<Longrightarrow> o' \<le> at + length (concat ss)"
  by (induction ss arbitrary: at) force+

lemma slice_concat:
  assumes "i < length ss"
  shows "take (length (ss ! i)) (drop (length (concat (take i ss))) (concat ss)) = ss ! i"
proof -
  have "concat ss = concat (take i ss) @ ss ! i @ concat (drop (Suc i) ss)"
    using id_take_nth_drop[OF assms] by (metis concat.simps(2) concat_append)
  then show ?thesis by simp
qed

lemma length_concat_take_Suc:
  "i < length ss \<Longrightarrow> length (concat (take (Suc i) ss)) = length (concat (take i ss)) + length (ss ! i)"
  by (simp add: take_Suc_conv_app_nth)

lemma length_concat_take_le: "length (concat (take i ss)) \<le> length (concat ss)"
  by (metis append_take_drop_id concat_append le_add1 length_append)

lemma table_items:
  assumes "list_all utf8_valid ss"
  shows "map_res (table_item (concat ss) (offsets_from 0 ss)) [0..<length ss] = Inr ss"
proof -
  have "table_item (concat ss) (offsets_from 0 ss) i = Inr (ss ! i)" if "i < length ss" for i
    using that assms length_concat_take_le[of "Suc i" ss] slice_concat[OF that]
    by (simp add: table_item_def offsets_from_nth length_concat_take_Suc Let_def list_all_length)
  then show ?thesis by (auto simp: map_res_Inr list_all2_conv_all_nth)
qed

definition table_ok :: "str list \<Rightarrow> bool" where
  "table_ok items \<longleftrightarrow> list_all utf8_valid items \<and> length items < 2 ^ 32 \<and> length (concat items) < 2 ^ 32"

lemma unat_u32_of_nat: "n < 2 ^ 32 \<Longrightarrow> unat (word_of_nat n :: u32) = n"
  by (simp add: unat_of_nat)

lemma reads_strings [reads_intros]:
  assumes ok: "table_ok items"
  shows "reads rd_strings (string_table items) items"
proof (rule readsI)
  fix rest
  let ?offs = "map (\<lambda>off. word_of_nat off :: u32) (offsets_from 0 items)"
  let ?ob = "concat (map (\<lambda>off. u32_le (word_of_nat off)) (offsets_from 0 items))"
  note u32 = readsD[OF reads_u32]
  have n: "unat (word_of_nat (length items) :: u32) = length items"
    and b: "unat (word_of_nat (length (concat items)) :: u32) = length (concat items)"
    using ok by (auto simp: table_ok_def intro!: unat_u32_of_nat)
  have offs: "rd_many (length items + 1) rd_u32 (?ob @ tl) = Inr (?offs, tl)" for tl
    using readsD[OF reads_many[of "offsets_from 0 items" rd_u32 "\<lambda>off. u32_le (word_of_nat off)" "\<lambda>off. word_of_nat off"]]
      reads_u32 by simp
  have unat_offs: "map (unat :: u32 \<Rightarrow> nat) ?offs = offsets_from 0 items"
  proof (rule nth_equalityI)
    fix i assume "i < length (map (unat :: u32 \<Rightarrow> nat) ?offs)"
    then have i: "i < length (offsets_from 0 items)" by simp
    from offsets_from_bound[OF nth_mem[OF i]] have "offsets_from 0 items ! i < 2 ^ 32"
      using ok by (simp add: table_ok_def)
    then show "map (unat :: u32 \<Rightarrow> nat) ?offs ! i = offsets_from 0 items ! i" using i
      by (simp add: unat_u32_of_nat)
  qed simp
  have "length ?ob = 4 * (length items + 1)"
    by (simp add: length_concat comp_def sum_list_triv)
  then have room: "\<not> (length items + 1) * 4 > length (?ob @ concat items @ rest)" by simp
  have "rd_take (length (concat items)) (concat items @ rest) = Inr (concat items, rest)"
    by (rule readsD[OF reads_take]) simp
  moreover have "map_res (table_item (concat items) (offsets_from 0 items)) [0..<length items] = Inr items"
    using ok by (intro table_items) (simp add: table_ok_def)
  ultimately show "rd_strings (string_table items @ rest) = Inr (items, rest)"
    unfolding rd_strings_def string_table_def append_assoc rd_bind_def u32 on_value prod.case rd_remaining_def n b
      if_not_P[OF room] offs Let_def unat_offs
    by (simp add: offsets_from_nth rd_lift_def)
qed

end
