(* ===== verification/Output_Log.thy ===== *)
theory Output_Log
  imports Bytes
begin

text \<open>
  What a unit was observed to do: the captured output of \<open>cook-contracts/src/output/mod.rs\<close>, the
  observation with its log, the log's truncation and its canonical encoding
  (\<open>cache/observation/mod.rs\<close>), and the bounded rendering of a stream (\<open>captured\_stream/mod.rs\<close>) that
  command failures carry. Lengths are natural numbers: no buffer of a running process reaches
  \<open>2 ^ 64\<close> bytes. The bytes on the wire are at their width.
\<close>

section \<open>Captured output\<close>

datatype output_stream = Stdout | Stderr

record output_chunk =
  chunk_stream :: output_stream
  chunk_bytes :: str

definition chunk_new :: "output_stream \<Rightarrow> str \<Rightarrow> output_chunk option" where
  "chunk_new s bs = (if bs = [] then None else Some \<lparr>chunk_stream = s, chunk_bytes = bs\<rparr>)"

definition chunk_lossy :: "output_chunk \<Rightarrow> str" where
  "chunk_lossy c = from_utf8_lossy (chunk_bytes c)"

record observation =
  obs_duration_ms :: u64
  obs_recorded_at :: u64
  obs_cause :: "str option"
  obs_log_bytes :: u64

record output_log =
  log_chunks :: "output_chunk list"
  truncated_bytes :: u64

definition is_truncated :: "output_log \<Rightarrow> bool" where
  "is_truncated l \<longleftrightarrow> 0 < truncated_bytes l"

definition elision_notice :: "output_log \<Rightarrow> str option" where
  "elision_notice l =
     (if is_truncated l
      then Some (''... ('' @ show_nat (unat (truncated_bytes l)) @ '' bytes of the recorded output elided) ...'')
      else None)"

section \<open>Truncation\<close>

definition extend_chunk :: "output_chunk option \<Rightarrow> output_chunk list" where
  "extend_chunk c = (case c of None \<Rightarrow> [] | Some c \<Rightarrow> [c])"

text \<open>The two loops: whole chunks while they fit, then the piece of the one that straddles.\<close>

fun keep_head :: "nat \<Rightarrow> output_chunk list \<Rightarrow> output_chunk list \<times> nat" where
  "keep_head room [] = ([], 0)"
| "keep_head room (c # cs) =
     (if room = 0 then ([], 0)
      else
        (let n = length (chunk_bytes c) in
         if n \<le> room then (let (kept, used) = keep_head (room - n) cs in (c # kept, n + used))
         else (extend_chunk (chunk_new (chunk_stream c) (take room (chunk_bytes c))), room)))"

fun keep_tail :: "nat \<Rightarrow> output_chunk list \<Rightarrow> output_chunk list \<times> nat" where
  "keep_tail room [] = ([], 0)"
| "keep_tail room (c # cs) =
     (if room = 0 then ([], 0)
      else
        (let n = length (chunk_bytes c) in
         if n \<le> room then (let (kept, used) = keep_tail (room - n) cs in (c # kept, n + used))
         else (extend_chunk (chunk_new (chunk_stream c) (drop (n - room) (chunk_bytes c))), room)))"

definition log_total :: "output_log \<Rightarrow> nat" where
  "log_total l = sum_list (map (\<lambda>c. length (chunk_bytes c)) (log_chunks l))"

definition truncate_to :: "nat \<Rightarrow> output_log \<Rightarrow> output_log" where
  "truncate_to cap l =
     (let total = log_total l in
      if total \<le> cap then l
      else
        (let (head, head_used) = keep_head (cap div 2) (log_chunks l);
             (tail, tail_used) = keep_tail (cap - head_used) (rev (log_chunks l))
         in \<lparr>log_chunks = head @ rev tail, truncated_bytes = word_of_nat (total - (head_used + tail_used))\<rparr>))"

section \<open>The canonical encoding\<close>

definition log_magic :: str where "log_magic = ''COOKLOG'' @ [CHR 0x00]"

definition log_version :: u32 where "log_version = 1"

fun stream_tag :: "output_stream \<Rightarrow> char" where
  "stream_tag Stdout = CHR 0x00"
| "stream_tag Stderr = CHR 0x01"

definition encode_chunk :: "output_chunk \<Rightarrow> str" where
  "encode_chunk c =
     stream_tag (chunk_stream c) # u32_le (word_of_nat (length (chunk_bytes c))) @ chunk_bytes c"

definition encode_log :: "output_log \<Rightarrow> str" where
  "encode_log l =
     log_magic @ u32_le log_version @ u64_le (truncated_bytes l) @ concat (map encode_chunk (log_chunks l))"

definition need :: "str \<Rightarrow> nat \<Rightarrow> nat \<Rightarrow> str \<Rightarrow> str + unit" where
  "need bytes p n what =
     (if length bytes < p + n
      then Inl (''output log truncated: want '' @ show_nat n @ '' bytes for '' @ what @ '' at '' @ show_nat p)
      else Inr ())"

definition slice :: "str \<Rightarrow> nat \<Rightarrow> nat \<Rightarrow> str" where
  "slice bytes p n = take n (drop p bytes)"

definition stream_of_tag :: "char \<Rightarrow> str + output_stream" where
  "stream_of_tag b =
     (if b = CHR 0x00 then Inr Stdout
      else if b = CHR 0x01 then Inr Stderr
      else Inl (''output log: unknown stream tag '' @ show_nat (of_char b)))"

lemma stream_tag_inverse [simp]: "stream_of_tag (stream_tag s) = Inr s"
  by (cases s) (simp_all add: stream_of_tag_def)

lemma stream_of_tag_Inr: "stream_of_tag b = Inr s \<Longrightarrow> b = stream_tag s"
  by (auto simp: stream_of_tag_def split: if_splits)

text \<open>One chunk at a position: the chunk and the position after it.\<close>

definition decode_chunk :: "str \<Rightarrow> nat \<Rightarrow> str + output_chunk \<times> nat" where
  "decode_chunk bytes p =
     bind_res (need bytes p 1 ''stream tag'') (\<lambda>_.
     bind_res (stream_of_tag (bytes ! p)) (\<lambda>stream.
     bind_res (need bytes (p + 1) 4 ''chunk length'') (\<lambda>_.
       let len = unat (u32_of_le (slice bytes (p + 1) 4)) in
     bind_res (need bytes (p + 5) len ''chunk body'') (\<lambda>_.
       case chunk_new stream (slice bytes (p + 5) len) of
         None \<Rightarrow> Inl ''output log: zero-length chunk''
       | Some chunk \<Rightarrow> Inr (chunk, p + 5 + len)))))"

function decode_chunks :: "str \<Rightarrow> nat \<Rightarrow> output_chunk list \<Rightarrow> str + output_chunk list" where
  "decode_chunks bytes p chunks =
     (if p < length bytes then
        (case decode_chunk bytes p of
           Inl e \<Rightarrow> Inl e
         | Inr (chunk, p') \<Rightarrow> decode_chunks bytes p' (chunks @ [chunk]))
      else Inr chunks)"
  by auto
termination
  by (relation "measure (\<lambda>(bytes, p, chunks). length bytes - p)")
    (auto simp: decode_chunk_def bind_res_Inr_iff Let_def split: option.splits)

declare decode_chunks.simps [simp del]

definition decode_log :: "str \<Rightarrow> str + output_log" where
  "decode_log bytes =
     bind_res (need bytes 0 8 ''magic'') (\<lambda>_.
     if slice bytes 0 8 \<noteq> log_magic then Inl ''output log: bad magic''
     else bind_res (need bytes 8 4 ''version'') (\<lambda>_.
       let version = u32_of_le (slice bytes 8 4) in
       if version \<noteq> log_version
       then Inl (''output log: unsupported version '' @ show_nat (unat version))
       else bind_res (need bytes 12 8 ''truncated_bytes'') (\<lambda>_.
            bind_res (decode_chunks bytes 20 []) (\<lambda>chunks.
              Inr \<lparr>log_chunks = chunks, truncated_bytes = u64_of_le (slice bytes 12 8)\<rparr>))))"

section \<open>A stream within a budget\<close>

definition stream_cap :: nat where "stream_cap = 64 * 1024"

definition stream_head :: nat where "stream_head = 16 * 1024"

text \<open>Where the kept head ends and the kept tail starts: at a line end when there is one.\<close>

definition head_cut :: "str \<Rightarrow> nat" where
  "head_cut bytes =
     (let flat = stream_head;
          snapped = length (rev (dropWhile (\<lambda>b. b \<noteq> newline) (rev (take flat bytes))))
      in if 0 < snapped then snapped else flat)"

definition tail_cut :: "str \<Rightarrow> nat" where
  "tail_cut bytes =
     (let flat = length bytes - (stream_cap - stream_head);
          line = takeWhile (\<lambda>b. b \<noteq> newline) (drop flat bytes);
          snapped = (if flat + length line < length bytes then flat + length line + 1 else length bytes)
      in if head_cut bytes < snapped \<and> snapped < length bytes then snapped
         else max flat (head_cut bytes))"

definition captured_stream :: "str \<Rightarrow> str" where
  "captured_stream bytes =
     (if length bytes \<le> stream_cap then from_utf8_lossy bytes
      else
        (let h = head_cut bytes; t = tail_cut bytes;
             rendered = from_utf8_lossy (take h bytes);
             rendered' = (if ends_with [newline] rendered then rendered else rendered @ [newline])
         in rendered'
            @ ''... ('' @ show_nat (t - h) @ '' bytes elided; showing the first '' @ show_nat h
            @ '' and last '' @ show_nat (length bytes - t) @ '' bytes) ...'' @ [newline]
            @ from_utf8_lossy (drop t bytes)))"


section \<open>Reading back what was written\<close>

definition chunk_ok :: "output_chunk \<Rightarrow> bool" where
  "chunk_ok c \<longleftrightarrow> chunk_bytes c \<noteq> [] \<and> length (chunk_bytes c) < 2 ^ 32"

definition log_ok :: "output_log \<Rightarrow> bool" where
  "log_ok l \<longleftrightarrow> list_all chunk_ok (log_chunks l)"

lemma need_Inr: "need bytes p n what = Inr u \<longleftrightarrow> p + n \<le> length bytes"
  by (auto simp: need_def)

lemma slice_append [simp]: "slice (pre @ rest) (length pre) n = take n rest"
  by (simp add: slice_def)

lemma slice_shift: "slice (pre @ rest) (length pre + k) n = slice rest k n"
  by (simp add: slice_def)

lemma encode_chunk_length [simp]: "length (encode_chunk c) = 5 + length (chunk_bytes c)"
  by (simp add: encode_chunk_def)

lemma decode_encode_chunk:
  assumes "chunk_ok c"
  shows "decode_chunk (pre @ encode_chunk c @ rest) (length pre) = Inr (c, length pre + length (encode_chunk c))"
proof -
  let ?n = "length (chunk_bytes c)"
  let ?b = "pre @ encode_chunk c @ rest"
  have "(word_of_nat ?n :: u32) = word_of_nat (?n mod 2 ^ 32)" using assms by (simp add: chunk_ok_def)
  have n: "unat (word_of_nat ?n :: u32) = ?n"
    using assms by (simp add: chunk_ok_def unat_of_nat)
  have tag: "?b ! length pre = stream_tag (chunk_stream c)"
    by (simp add: encode_chunk_def nth_append)
  have len: "slice ?b (length pre + 1) 4 = u32_le (word_of_nat ?n)"
    by (simp only: slice_shift) (simp add: slice_def encode_chunk_def)
  have body: "slice ?b (length pre + 5) ?n = chunk_bytes c"
    by (simp only: slice_shift) (simp add: slice_def encode_chunk_def)
  have new: "chunk_new (chunk_stream c) (chunk_bytes c) = Some c"
    using assms by (simp add: chunk_new_def chunk_ok_def)
  have nd: "need ?b p m what = Inr ()" if "p + m \<le> length pre + (5 + ?n)" for p m what
    using that by (simp add: need_def)
  show ?thesis
    unfolding decode_chunk_def tag
    by (simp add: nd len[unfolded Suc_eq_plus1[symmetric]] n body new[simplified] Let_def)
qed

lemma decode_chunks_encode:
  assumes "list_all chunk_ok cs"
  shows "decode_chunks (pre @ concat (map encode_chunk cs)) (length pre) acc = Inr (acc @ cs)"
  using assms
proof (induction cs arbitrary: pre acc)
  case Nil
  then show ?case by (simp add: decode_chunks.simps)
next
  case (Cons c cs)
  have "decode_chunk (pre @ encode_chunk c @ concat (map encode_chunk cs)) (length pre)
      = Inr (c, length (pre @ encode_chunk c))"
    using decode_encode_chunk[of c pre] Cons.prems by simp
  moreover have "decode_chunks ((pre @ encode_chunk c) @ concat (map encode_chunk cs)) (length (pre @ encode_chunk c)) (acc @ [c])
      = Inr ((acc @ [c]) @ cs)"
    using Cons.prems by (intro Cons.IH) simp
  ultimately show ?case by (subst decode_chunks.simps) simp
qed

lemma log_header_length: "length (log_magic @ u32_le log_version @ u64_le t) = 20"
  by (simp add: log_magic_def)

lemma decode_encode_log:
  assumes "log_ok l"
  shows "decode_log (encode_log l) = Inr l"
proof -
  let ?t = "u64_le (truncated_bytes l)" and ?c = "concat (map encode_chunk (log_chunks l))"
  let ?b = "encode_log l"
  have m: "slice ?b 0 8 = log_magic" "slice ?b 8 4 = u32_le log_version" "slice ?b 12 8 = ?t"
    by (simp_all add: encode_log_def log_magic_def slice_def)
  have "length ?b = 20 + length ?c" by (simp add: encode_log_def log_magic_def)
  then have nd: "need ?b p n what = Inr ()" if "p + n \<le> 20" for p n what
    using that by (simp add: need_def)
  have "decode_chunks ?b 20 [] = Inr (log_chunks l)"
    using decode_chunks_encode[of "log_chunks l" "log_magic @ u32_le log_version @ ?t" "[]"] assms
    by (simp only: log_header_length) (simp add: encode_log_def log_ok_def)
  then show ?thesis by (simp add: decode_log_def nd m Let_def)
qed

lemma slice_split: "p + n \<le> length bytes \<Longrightarrow> m \<le> n \<Longrightarrow> slice bytes p n = slice bytes p m @ slice bytes (p + m) (n - m)"
  using take_add[of m "n - m" "drop p bytes"] by (simp add: slice_def add.commute)

lemma decode_chunk_Inr:
  assumes "decode_chunk bytes p = Inr (c, p')"
  shows "p < p' \<and> p' \<le> length bytes \<and> slice bytes p (p' - p) = encode_chunk c \<and> chunk_ok c"
proof -
  let ?len = "unat (u32_of_le (slice bytes (Suc p) 4))"
  from assms obtain st where tag: "stream_of_tag (bytes ! p) = Inr st" and n5: "p + 5 \<le> length bytes"
    and body: "p + 5 + ?len \<le> length bytes"
    and res: "(case chunk_new st (slice bytes (p + 5) ?len) of None \<Rightarrow> Inl ''output log: zero-length chunk''
         | Some chunk \<Rightarrow> Inr (chunk, p + 5 + ?len)) = Inr (c, p')"
    by (auto simp: decode_chunk_def bind_res_Inr_iff need_Inr Let_def)
  then have st: "bytes ! p = stream_tag st" and new: "chunk_new st (slice bytes (p + 5) ?len) = Some c"
    and p': "p' = p + 5 + ?len"
    using stream_of_tag_Inr by (auto split: option.splits)
  have c: "chunk_stream c = st" "chunk_bytes c = slice bytes (p + 5) ?len" "chunk_bytes c \<noteq> []"
    using new by (auto simp: chunk_new_def split: if_splits)
  have l4: "length (slice bytes (Suc p) 4) = 4" and lb: "length (slice bytes (p + 5) ?len) = ?len"
    using n5 body by (simp_all add: slice_def)
  have "?len < 2 ^ 32" using unsigned_less[of "u32_of_le (slice bytes (Suc p) 4)"] by simp
  then have ok: "chunk_ok c" using c lb by (simp add: chunk_ok_def)
  have u: "u32_le (word_of_nat ?len) = slice bytes (Suc p) 4"
    using u32_le_of[OF l4] by simp
  have "slice bytes p (5 + ?len) = slice bytes p 1 @ slice bytes (Suc p) 4 @ slice bytes (p + 5) ?len"
    using body slice_split[of p "5 + ?len" bytes 1] slice_split[of "Suc p" "4 + ?len" bytes 4]
    by (simp add: add.commute add.left_commute)
  moreover have "slice bytes p 1 = [bytes ! p]"
    using n5 by (simp add: slice_def take_Suc_conv_app_nth hd_drop_conv_nth take_Suc)
  ultimately have "slice bytes p (p' - p) = encode_chunk c"
    using c lb u st p' by (simp add: encode_chunk_def)
  then show ?thesis using ok p' body by simp
qed

lemma decode_chunks_Inr:
  assumes "decode_chunks bytes p acc = Inr cs" and "p \<le> length bytes"
  shows "\<exists>new. cs = acc @ new \<and> list_all chunk_ok new \<and> drop p bytes = concat (map encode_chunk new)"
  using assms
proof (induction bytes p acc rule: decode_chunks.induct)
  case (1 bytes p acc)
  show ?case
  proof (cases "p < length bytes")
    case False
    then have "decode_chunks bytes p acc = Inr acc" by (subst decode_chunks.simps) simp
    then show ?thesis using 1(2,3) False by (intro exI[of _ "[]"]) simp
  next
    case True
    then obtain c p' where d: "decode_chunk bytes p = Inr (c, p')" and rest: "decode_chunks bytes p' (acc @ [c]) = Inr cs"
      using 1(2) by (auto simp: decode_chunks.simps[of bytes p] split: sum.splits)
    note f = decode_chunk_Inr[OF d]
    from 1(1)[OF True d refl rest] f obtain new where new: "cs = (acc @ [c]) @ new" "list_all chunk_ok new"
      "drop p' bytes = concat (map encode_chunk new)" by auto
    have "drop p bytes = take (p' - p) (drop p bytes) @ drop (p' - p) (drop p bytes)"
      by (rule append_take_drop_id[symmetric])
    also have "\<dots> = encode_chunk c @ drop p' bytes" using f by (simp add: slice_def)
    finally show ?thesis using new f by (intro exI[of _ "c # new"]) simp
  qed
qed

lemma encode_decode_log:
  assumes "decode_log bytes = Inr l"
  shows "encode_log l = bytes \<and> log_ok l"
proof -
  have n: "20 \<le> length bytes" and m: "slice bytes 0 8 = log_magic"
    and v: "u32_of_le (slice bytes 8 4) = log_version"
    and t: "truncated_bytes l = u64_of_le (slice bytes 12 8)"
    and cs: "decode_chunks bytes 20 [] = Inr (log_chunks l)"
    using assms by (auto simp: decode_log_def bind_res_Inr_iff need_Inr Let_def split: if_splits)
  from decode_chunks_Inr[OF cs] n have d: "drop 20 bytes = concat (map encode_chunk (log_chunks l))"
    and ok: "log_ok l" by (auto simp: log_ok_def)
  have "length (slice bytes 8 4) = 4" "length (slice bytes 12 8) = 8" using n by (simp_all add: slice_def)
  then have vt: "u32_le log_version = slice bytes 8 4" "u64_le (truncated_bytes l) = slice bytes 12 8"
    using u32_le_of[of "slice bytes 8 4"] u64_le_of[of "slice bytes 12 8"] v t by simp_all
  have "slice bytes 0 20 = slice bytes 0 8 @ slice bytes 8 4 @ slice bytes 12 8"
    using n slice_split[of 0 20 bytes 8] slice_split[of 8 12 bytes 4] by simp
  then have "bytes = (slice bytes 0 8 @ slice bytes 8 4 @ slice bytes 12 8) @ drop 20 bytes"
    by (metis append_take_drop_id drop0 slice_def)
  then show ?thesis using m vt d ok by (simp add: encode_log_def)
qed

interpretation log_codec: codec encode_log "\<lambda>bs. case decode_log bs of Inr l \<Rightarrow> Some l | Inl _ \<Rightarrow> None" log_ok
  by unfold_locales (simp add: decode_encode_log)


text \<open>
  C38: The canonical encoding of an observation's log loses nothing and admits nothing else: what was
  encoded decodes to the same log (the same chunks of the same streams in the same order), and a
  byte string decodes only if it is the encoding of a well-formed log, namely the one it decodes to.
\<close>

theorem log_roundtrip:
  "(log_ok l \<longrightarrow> decode_log (encode_log l) = Inr l)
   \<and> (decode_log bytes = Inr l \<longrightarrow> encode_log l = bytes \<and> log_ok l)"
  using log_codec.dec_enc[of l] encode_decode_log[of bytes l] by (auto split: sum.splits)

theorem log_roundtrip_witness:
  "let l = \<lparr>log_chunks = [\<lparr>chunk_stream = Stderr, chunk_bytes = ''no''\<rparr>], truncated_bytes = 7\<rparr>
   in decode_log (encode_log l) = Inr l \<and> log_ok l"
  using log_roundtrip[of "\<lparr>log_chunks = [\<lparr>chunk_stream = Stderr, chunk_bytes = ''no''\<rparr>], truncated_bytes = 7\<rparr>" "[]"]
  by (simp add: log_ok_def chunk_ok_def Let_def)

section \<open>Truncation keeps the two ends\<close>

text \<open>The log as one stream of bytes, each with the descriptor it came from.\<close>

definition tagged_chunks :: "output_chunk list \<Rightarrow> (output_stream \<times> char) list" where
  "tagged_chunks cs = concat (map (\<lambda>c. map (Pair (chunk_stream c)) (chunk_bytes c)) cs)"

lemma tagged_chunks_simps [simp]:
  "tagged_chunks [] = []"
  "tagged_chunks (c # cs) = map (Pair (chunk_stream c)) (chunk_bytes c) @ tagged_chunks cs"
  "tagged_chunks (cs @ ds) = tagged_chunks cs @ tagged_chunks ds"
  by (simp_all add: tagged_chunks_def)

lemma length_tagged: "length (tagged_chunks cs) = sum_list (map (\<lambda>c. length (chunk_bytes c)) cs)"
  by (simp add: tagged_chunks_def length_concat comp_def)

lemma extend_chunk_tagged:
  "tagged_chunks (extend_chunk (chunk_new st bs)) = map (Pair st) bs"
  by (simp_all add: extend_chunk_def chunk_new_def)

lemma keep_head_keeps:
  "keep_head room cs = (kept, used) \<Longrightarrow>
     tagged_chunks kept = take room (tagged_chunks cs) \<and> used = min room (length (tagged_chunks cs))"
proof (induction room cs arbitrary: kept used rule: keep_head.induct)
  case (2 room c cs)
  then show ?case
    by (auto simp: Let_def extend_chunk_tagged take_map split: if_splits prod.splits)
qed simp

lemma keep_tail_keeps:
  "keep_tail room cs = (kept, used) \<Longrightarrow>
     tagged_chunks (rev kept) = drop (length (tagged_chunks (rev cs)) - room) (tagged_chunks (rev cs))
     \<and> used = min room (length (tagged_chunks (rev cs)))"
proof (induction room cs arbitrary: kept used rule: keep_tail.induct)
  case (2 room c cs)
  have one: "rev (extend_chunk x) = extend_chunk x" for x :: "output_chunk option"
    by (simp add: extend_chunk_def split: option.splits)
  show ?case
  proof (cases "room = 0 \<or> room < length (chunk_bytes c)")
    case True
    then show ?thesis using "2.prems" by (auto simp: Let_def one extend_chunk_tagged drop_map split: if_splits)
  next
    case False
    then obtain k u where "keep_tail (room - length (chunk_bytes c)) cs = (k, u)"
      "kept = c # k" "used = length (chunk_bytes c) + u"
      using "2.prems" by (auto simp: Let_def split: prod.splits)
    then show ?thesis using "2.IH"[of "length (chunk_bytes c)" k u] False
      by (auto simp: diff_diff_eq add.commute)
  qed
qed simp

definition elided_ends :: "nat \<Rightarrow> 'a list \<Rightarrow> 'a list" where
  "elided_ends cap xs =
     (if length xs \<le> cap then xs else take (cap div 2) xs @ drop (length xs - (cap - cap div 2)) xs)"

text \<open>
  Truncating a log to a budget keeps exactly the budget: the first half of it from the front of
  the recorded stream and the rest from its end, each byte still on its own descriptor and in order,
  and the bytes that were dropped are counted. A log within the budget is returned as it is.
\<close>

theorem truncate_keeps_ends:
  "tagged_chunks (log_chunks (truncate_to cap l)) = elided_ends cap (tagged_chunks (log_chunks l))
   \<and> log_total (truncate_to cap l) = min cap (log_total l)
   \<and> truncated_bytes (truncate_to cap l)
       = (if log_total l \<le> cap then truncated_bytes l else word_of_nat (log_total l - cap))"
proof (cases "log_total l \<le> cap")
  case True
  then show ?thesis by (simp add: truncate_to_def elided_ends_def length_tagged log_total_def)
next
  case False
  obtain h hu where h: "keep_head (cap div 2) (log_chunks l) = (h, hu)" by fastforce
  obtain t tu where t: "keep_tail (cap - hu) (rev (log_chunks l)) = (t, tu)" by fastforce
  have len: "length (tagged_chunks (log_chunks l)) = log_total l"
    by (simp add: length_tagged log_total_def)
  have hu: "hu = cap div 2" and "tu = cap - hu"
    using keep_head_keeps[OF h] keep_tail_keeps[OF t] False by (auto simp: len)
  then have used: "hu + tu = cap" by linarith
  have stream: "tagged_chunks (h @ rev t) = elided_ends cap (tagged_chunks (log_chunks l))"
    using keep_head_keeps[OF h] keep_tail_keeps[OF t] False by (simp add: elided_ends_def len hu)
  have res: "truncate_to cap l = \<lparr>log_chunks = h @ rev t, truncated_bytes = word_of_nat (log_total l - cap)\<rparr>"
    using False h t used by (simp add: truncate_to_def Let_def)
  have "log_total (truncate_to cap l) = length (elided_ends cap (tagged_chunks (log_chunks l)))"
    unfolding stream[symmetric] by (simp only: res log_total_def length_tagged output_log.select_convs)
  then have "log_total (truncate_to cap l) = min cap (log_total l)"
    using False by (simp add: elided_ends_def len)
  then show ?thesis using stream res False by simp
qed

text \<open>The count is overwritten, not added to: a second truncation forgets what the first dropped.\<close>

lemma retruncation_undercounts:
  "let l = \<lparr>log_chunks = [\<lparr>chunk_stream = Stdout, chunk_bytes = ''0123456789''\<rparr>], truncated_bytes = 0\<rparr>
   in truncated_bytes (truncate_to 4 l) = 6 \<and> truncated_bytes (truncate_to 2 (truncate_to 4 l)) = 2"
  by code_simp

section \<open>A captured stream stays within its budget\<close>

lemma head_cut_bounds:
  assumes "stream_cap < length bytes"
  shows "0 < head_cut bytes" "head_cut bytes \<le> stream_head"
proof -
  have "length (dropWhile P (rev (take stream_head bytes))) \<le> stream_head" for P
    using length_dropWhile_le[of P "rev (take stream_head bytes)"] by simp
  then show "0 < head_cut bytes" "head_cut bytes \<le> stream_head"
    using assms by (auto simp: head_cut_def Let_def stream_head_def)
qed

lemma tail_cut_bounds:
  assumes "stream_cap < length bytes"
  shows "head_cut bytes < tail_cut bytes" "tail_cut bytes \<le> length bytes"
    "length bytes - tail_cut bytes \<le> stream_cap - stream_head"
proof -
  have "head_cut bytes < length bytes - (stream_cap - stream_head)"
    using head_cut_bounds[OF assms] assms by (simp add: stream_cap_def stream_head_def)
  then show "head_cut bytes < tail_cut bytes" "tail_cut bytes \<le> length bytes"
    "length bytes - tail_cut bytes \<le> stream_cap - stream_head"
    by (auto simp: tail_cut_def Let_def stream_cap_def stream_head_def)
qed

lemma nth_last_prefix: "xs = a @ b \<Longrightarrow> a \<noteq> [] \<Longrightarrow> xs ! (length a - 1) = last a"
  by (simp add: nth_append last_conv_nth)

lemma head_cut_line:
  assumes "stream_cap < length bytes" "newline \<in> set (take stream_head bytes)"
  shows "bytes ! (head_cut bytes - 1) = newline"
proof -
  let ?d = "dropWhile (\<lambda>b. b \<noteq> newline) (rev (take stream_head bytes))"
  let ?w = "takeWhile (\<lambda>b. b \<noteq> newline) (rev (take stream_head bytes))"
  have "?d \<noteq> []" using assms(2) by auto
  then have hd: "hd ?d = newline" using hd_dropWhile[of "\<lambda>b. b \<noteq> newline" "rev (take stream_head bytes)"] by auto
  have "take stream_head bytes = rev ?d @ rev ?w"
    by (metis rev_append rev_rev_ident takeWhile_dropWhile_id)
  then have "take stream_head bytes ! (length (rev ?d) - 1) = last (rev ?d)"
    using \<open>?d \<noteq> []\<close> by (intro nth_last_prefix) simp_all
  moreover have "length ?d \<le> stream_head"
    using length_dropWhile_le[of "\<lambda>b. b \<noteq> newline" "rev (take stream_head bytes)"] by simp
  ultimately have "take stream_head bytes ! (length ?d - 1) = newline" "length ?d \<le> stream_head"
    using hd by (simp_all only: last_rev length_rev)
  moreover have "head_cut bytes = length ?d" using \<open>?d \<noteq> []\<close> by (simp add: head_cut_def Let_def)
  moreover have "length ?d - 1 < stream_head"
    using \<open>length ?d \<le> stream_head\<close> by (simp add: stream_head_def)
  ultimately show ?thesis by (simp only: nth_take)
qed

text \<open>
  However long a command's output is, what a failure carries of it comes from at most
  \<open>64 * 1024\<close> of its bytes: a non-empty head of at most \<open>16 * 1024\<close>, a tail of at most the rest, cut
  apart so that something is elided whenever anything is said to be, the head ending at a line end
  when there is one to end at, and the notice between them counting exactly what is missing.
\<close>

theorem captured_stream_bounded:
  assumes "64 * 1024 < length bytes"
  shows "\<exists>h t. 0 < h \<and> h \<le> 16 * 1024 \<and> h < t \<and> t \<le> length bytes \<and> h + (length bytes - t) \<le> 64 * 1024
    \<and> (newline \<in> set (take (16 * 1024) bytes) \<longrightarrow> bytes ! (h - 1) = newline)
    \<and> (\<exists>head. head \<in> {from_utf8_lossy (take h bytes), from_utf8_lossy (take h bytes) @ [newline]}
        \<and> ends_with [newline] head
        \<and> captured_stream bytes = head @ ''... ('' @ show_nat (t - h) @ '' bytes elided; showing the first ''
            @ show_nat h @ '' and last '' @ show_nat (length bytes - t) @ '' bytes) ...'' @ [newline]
            @ from_utf8_lossy (drop t bytes))"
proof -
  have big: "stream_cap < length bytes" using assms by (simp add: stream_cap_def)
  define head where "head = (let r = from_utf8_lossy (take (head_cut bytes) bytes)
    in if ends_with [newline] r then r else r @ [newline])"
  have head: "head \<in> {from_utf8_lossy (take (head_cut bytes) bytes), from_utf8_lossy (take (head_cut bytes) bytes) @ [newline]}"
    "ends_with [newline] head"
    by (auto simp: head_def Let_def ends_with_iff)
  have "captured_stream bytes = head @ ''... ('' @ show_nat (tail_cut bytes - head_cut bytes)
      @ '' bytes elided; showing the first '' @ show_nat (head_cut bytes) @ '' and last ''
      @ show_nat (length bytes - tail_cut bytes) @ '' bytes) ...'' @ [newline] @ from_utf8_lossy (drop (tail_cut bytes) bytes)"
    using big by (simp add: captured_stream_def head_def Let_def)
  moreover have "head_cut bytes + (length bytes - tail_cut bytes) \<le> 64 * 1024"
    using head_cut_bounds[OF big] tail_cut_bounds(3)[OF big] by (simp add: stream_cap_def stream_head_def)
  ultimately show ?thesis
    using head head_cut_bounds[OF big] tail_cut_bounds(1,2)[OF big] head_cut_line[OF big]
    by (intro exI[of _ "head_cut bytes"] exI[of _ "tail_cut bytes"] conjI exI[of _ head] impI)
      (simp_all add: stream_head_def)
qed


theorem captured_stream_bounded_witness:
  "\<exists>h t. 0 < h \<and> h < t \<and> t \<le> 70000 \<and> h + (70000 - t) \<le> 64 * (1024::nat)
    \<and> from_utf8_lossy (drop t (replicate 70000 CHR ''x'')) \<noteq> captured_stream (replicate 70000 CHR ''x'')"
proof -
  from captured_stream_bounded[of "replicate 70000 CHR ''x''"]
  obtain h t head where b: "0 < h" "h < t" "t \<le> 70000" "h + (70000 - t) \<le> 64 * (1024::nat)"
    and c: "captured_stream (replicate 70000 CHR ''x'') = head @ ''... ('' @ show_nat (t - h)
      @ '' bytes elided; showing the first '' @ show_nat h @ '' and last '' @ show_nat (70000 - t)
      @ '' bytes) ...'' @ [newline] @ from_utf8_lossy (drop t (replicate 70000 CHR ''x''))"
    by (auto simp del: drop_replicate)
  have "y \<noteq> x @ ''... ('' @ z @ w @ v @ y" for x y z w v :: str
    using arg_cong[of y "x @ ''... ('' @ z @ w @ v @ y" length] by auto
  then have "from_utf8_lossy (drop t (replicate 70000 CHR ''x'')) \<noteq> captured_stream (replicate 70000 CHR ''x'')"
    unfolding c by (metis append.assoc)
  with b show ?thesis by blast
qed

text \<open>
  Reading a captured stream as if it were the command's bytes, as \<open>CommandFailure::from\_wire\<close> does,
  captures it again: the notice of the first capture is then itself elided, and counted.
\<close>

definition one_line :: "str \<Rightarrow> bool" where
  "one_line s \<longleftrightarrow> (\<forall>c \<in> set s. c < CHR 0x80 \<and> c \<noteq> newline)"

definition capture_notice :: "nat \<Rightarrow> str" where
  "capture_notice n = ''... ('' @ show_nat n @ '' bytes elided; showing the first '' @ show_nat stream_head
     @ '' and last '' @ show_nat (stream_cap - stream_head) @ '' bytes) ...'' @ [newline]"

lemma captured_two_ends:
  assumes "one_line a" "one_line b" "mid \<noteq> []"
    and a: "length a = stream_head" and b: "length b = stream_cap - stream_head"
  shows "captured_stream (a @ mid @ b) = a @ [newline] @ capture_notice (length mid) @ b"
proof -
  let ?x = "a @ mid @ b"
  have big: "\<not> length ?x \<le> stream_cap" using assms by (cases mid) (simp_all add: stream_cap_def stream_head_def)
  have take: "take stream_head ?x = a" using a by simp
  have flat: "length ?x - (stream_cap - stream_head) = stream_head + length mid" using a b by simp
  have drop: "drop (stream_head + length mid) ?x = b" using a by simp
  have "dropWhile (\<lambda>c. c \<noteq> newline) (rev a) = []" using assms(1) by (auto simp: one_line_def)
  then have h: "head_cut ?x = stream_head" unfolding head_cut_def take Let_def by (simp add: a)
  have tw: "takeWhile (\<lambda>c. c \<noteq> newline) b = b" using assms(2) by (simp add: one_line_def takeWhile_eq_all_conv)
  have t: "tail_cut ?x = stream_head + length mid"
    unfolding tail_cut_def Let_def flat drop tw h using a b by simp
  have v: "from_utf8_lossy a = a" "from_utf8_lossy b = b"
    using assms(1,2) by (simp_all add: one_line_def lossy_valid[OF ascii_valid])
  have e: "\<not> ends_with [newline] a"
  proof
    assume "ends_with [newline] a"
    then obtain r where "a = r @ [newline]" unfolding ends_with_iff by (elim exE)
    then have "newline \<in> set a" by (simp only: set_append list.set Un_iff insert_iff simp_thms)
    then show False using assms(1) unfolding one_line_def by blast
  qed
  have n: "stream_head + length mid - stream_head = length mid"
    "length ?x - (stream_head + length mid) = stream_cap - stream_head" using a b by simp_all
  show ?thesis
    unfolding captured_stream_def if_not_P[OF big] Let_def h t take drop v n if_not_P[OF e] capture_notice_def
    by (simp only: append_assoc)
qed

text \<open>
  What a failure says of an elided stream depends on how often it crossed the wire. A one-line
  output over the budget is captured with its two ends and the true count; captured again, it still
  shows the two ends, and reports, whatever was elided, the length of the first notice.
\<close>

theorem recapture_miscounts:
  assumes "one_line a" "one_line b" "mid \<noteq> []"
    and "length a = stream_head" "length b = stream_cap - stream_head"
  shows "captured_stream (a @ mid @ b) = a @ [newline] @ capture_notice (length mid) @ b
    \<and> captured_stream (captured_stream (a @ mid @ b))
        = a @ [newline] @ capture_notice (1 + length (capture_notice (length mid))) @ b"
  using captured_two_ends[OF assms] captured_two_ends[OF assms(1,2) _ assms(4,5), of "[newline] @ capture_notice (length mid)"]
  by simp

theorem recapture_miscounts_witness:
  "captured_stream (captured_stream (replicate 1000000 CHR ''x''))
     = replicate stream_head CHR ''x'' @ [newline] @ capture_notice 77
       @ replicate (stream_cap - stream_head) CHR ''x''"
proof -
  let ?r = "\<lambda>n. replicate n CHR ''x''"
  have l: "1 + length (capture_notice 934464) = 77"
    by (simp add: capture_notice_def stream_head_def stream_cap_def show_nat.simps)
  have n: "(1000000::nat) = stream_head + (934464 + (stream_cap - stream_head))"
    by (simp add: stream_cap_def stream_head_def)
  have one: "one_line (?r n)" for n by (auto simp: one_line_def less_char_def)
  have eq: "?r 1000000 = ?r stream_head @ ?r 934464 @ ?r (stream_cap - stream_head)"
    unfolding n by (simp only: replicate_add)
  have ne: "?r 934464 \<noteq> []" by (simp only: replicate_empty zero_neq_numeral[symmetric] simp_thms)
  show ?thesis
    unfolding eq using recapture_miscounts[OF one one ne length_replicate length_replicate, THEN conjunct2]
    by (simp only: length_replicate l)
qed

end
