(* ===== verification/Recipe_Index.thy ===== *)
theory Recipe_Index
  imports Byte_Reader Output_Log Cache_Record
begin

text \<open>
  The recipe index: the fingerprint state of a step (\<open>cook-contracts/src/cache/step.rs\<close>), the
  \<open>RecipeCache\<close> that holds it (\<open>cook-cache/src/store.rs\<close>), and its binary file
  (\<open>cook-cache/src/index\_bin.rs\<close>). A \<open>BTreeMap\<close> is its entry list in ascending key order, a
  \<open>BTreeSet\<close> its ascending element list. The checksum \<open>xxh3\<close> is a function of the caller's: nothing
  is assumed of it. The signed fields of a file identity are read and written as their 64 bits.
\<close>

section \<open>The index in memory\<close>

record file_identity =
  fi_mtime_secs :: u64
  fi_mtime_nanos :: u32
  fi_len :: u64
  fi_ctime_secs :: u64
  fi_ctime_nanos :: u64
  fi_ino :: u64
  fi_dev :: u64

record file_record =
  fr_path :: str
  fr_mtime :: u64
  fr_identity :: "file_identity option"
  fr_hash :: u64

record step_entry =
  se_inputs :: "file_record list"
  se_outputs :: "file_record list"
  se_command_hash :: u64
  se_env_contribution :: u64
  se_seal_contribution :: u64
  se_module_inputs :: "file_record list"
  se_observed :: "observation option"

record recipe_cache =
  schema_version :: u32
  globs :: "(str \<times> str list) list"
  steps :: "(str \<times> step_entry) list"

text \<open>Insertion into a \<open>BTreeMap\<close>, replacing an equal key; collecting into a \<open>BTreeSet\<close>.\<close>

fun btree_insert :: "'k::linorder \<Rightarrow> 'v \<Rightarrow> ('k \<times> 'v) list \<Rightarrow> ('k \<times> 'v) list" where
  "btree_insert k v [] = [(k, v)]"
| "btree_insert k v (e # m) =
     (if k < fst e then (k, v) # e # m else if k = fst e then (k, v) # m else e # btree_insert k v m)"

definition btree_set :: "'k::linorder list \<Rightarrow> 'k list" where
  "btree_set xs = sort (remdups xs)"

definition ascending :: "'k::linorder list \<Rightarrow> bool" where
  "ascending xs \<longleftrightarrow> sorted xs \<and> distinct xs"

section \<open>Writing\<close>

definition step_records :: "step_entry \<Rightarrow> file_record list" where
  "step_records s = se_inputs s @ se_outputs s @ se_module_inputs s"

definition index_paths :: "recipe_cache \<Rightarrow> str list" where
  "index_paths c =
     btree_set (map fr_path (concat (map (step_records \<circ> snd) (steps c))) @ concat (map snd (globs c)))"

text \<open>The id of an interned path: its position in the sorted table, which holds every path written.\<close>

definition path_id :: "str list \<Rightarrow> str \<Rightarrow> u32" where
  "path_id paths p = word_of_nat (length (takeWhile (\<lambda>q. q \<noteq> p) paths))"

definition encode_identity :: "file_identity \<Rightarrow> str" where
  "encode_identity fi =
     u64_le (fi_mtime_secs fi) @ u32_le (fi_mtime_nanos fi) @ u64_le (fi_len fi)
     @ u64_le (fi_ctime_secs fi) @ u64_le (fi_ctime_nanos fi) @ u64_le (fi_ino fi) @ u64_le (fi_dev fi)"

definition encode_record :: "str list \<Rightarrow> file_record \<Rightarrow> str" where
  "encode_record paths r =
     u32_le (path_id paths (fr_path r)) @ u64_le (fr_mtime r) @ u64_le (fr_hash r)
     @ (case fr_identity r of None \<Rightarrow> [CHR 0x00] | Some fi \<Rightarrow> [CHR 0x01] @ encode_identity fi)"

definition encode_observed :: "observation option \<Rightarrow> str" where
  "encode_observed obs =
     (case obs of
        None \<Rightarrow> [CHR 0x00]
      | Some ob \<Rightarrow>
          (let cause = (case obs_cause ob of None \<Rightarrow> [] | Some c \<Rightarrow> c) in
           [CHR 0x01] @ u64_le (obs_duration_ms ob) @ u64_le (obs_recorded_at ob) @ u64_le (obs_log_bytes ob)
           @ u32_le (word_of_nat (length cause)) @ cause))"

fun encode_steps :: "u32 \<Rightarrow> step_entry list \<Rightarrow> str" where
  "encode_steps cursor [] = []"
| "encode_steps cursor (s # ss) =
     (let inputs_len = word_of_nat (length (se_inputs s));
          outputs_start = cursor + inputs_len;
          outputs_len = word_of_nat (length (se_outputs s));
          modules_start = outputs_start + outputs_len;
          modules_len = word_of_nat (length (se_module_inputs s))
      in u32_le cursor @ u32_le inputs_len @ u32_le outputs_start @ u32_le outputs_len
         @ u32_le modules_start @ u32_le modules_len
         @ u64_le (se_command_hash s) @ u64_le (se_env_contribution s) @ u64_le (se_seal_contribution s)
         @ encode_observed (se_observed s) @ encode_steps (modules_start + modules_len) ss)"

fun encode_member_offsets :: "u32 \<Rightarrow> str list list \<Rightarrow> str" where
  "encode_member_offsets acc [] = u32_le acc"
| "encode_member_offsets acc (ms # mss) =
     u32_le acc @ encode_member_offsets (acc + word_of_nat (length ms)) mss"

definition encode_payload :: "recipe_cache \<Rightarrow> str" where
  "encode_payload c =
     (let paths = index_paths c;
          records = concat (map (step_records \<circ> snd) (steps c));
          members = concat (map snd (globs c))
      in string_table paths
         @ u32_le (word_of_nat (length records)) @ concat (map (encode_record paths) records)
         @ string_table (map fst (steps c)) @ encode_steps 0 (map snd (steps c))
         @ string_table (map fst (globs c)) @ u32_le (word_of_nat (length members))
         @ encode_member_offsets 0 (map snd (globs c))
         @ concat (map (\<lambda>m. u32_le (path_id paths m)) members))"

definition index_magic :: str where "index_magic = ''COOKIDX'' @ [CHR 0x00]"

definition header_len :: nat where "header_len = 32"

definition encode_index :: "(str \<Rightarrow> u64) \<Rightarrow> recipe_cache \<Rightarrow> str" where
  "encode_index xxh3 c =
     (let payload = encode_payload c in
      index_magic @ u32_le record_schema_version @ u32_le 0 @ u64_le (word_of_nat (length payload))
      @ u64_le (xxh3 payload) @ payload)"

section \<open>Reading\<close>

definition slice_records :: "file_record list \<Rightarrow> nat \<Rightarrow> nat \<Rightarrow> (decode_error, file_record list) res" where
  "slice_records pool start len =
     (if start + len \<le> length pool then Inr (take len (drop start pool)) else Inl BadReference)"

definition rd_identity :: "file_identity reader" where
  "rd_identity =
     rd_bind rd_u64 (\<lambda>mtime_secs. rd_bind rd_u32 (\<lambda>mtime_nanos. rd_bind rd_u64 (\<lambda>len.
     rd_bind rd_u64 (\<lambda>ctime_secs. rd_bind rd_u64 (\<lambda>ctime_nanos. rd_bind rd_u64 (\<lambda>ino. rd_bind rd_u64 (\<lambda>dev.
       rd_ret \<lparr>fi_mtime_secs = mtime_secs, fi_mtime_nanos = mtime_nanos, fi_len = len,
               fi_ctime_secs = ctime_secs, fi_ctime_nanos = ctime_nanos, fi_ino = ino, fi_dev = dev\<rparr>)))))))"

definition rd_path :: "str list \<Rightarrow> u32 \<Rightarrow> (decode_error, str) res" where
  "rd_path paths i = (if unat i < length paths then Inr (paths ! unat i) else Inl BadReference)"

definition rd_record :: "str list \<Rightarrow> file_record reader" where
  "rd_record paths =
     rd_bind rd_u32 (\<lambda>i. rd_bind rd_u64 (\<lambda>mtime. rd_bind rd_u64 (\<lambda>hash. rd_bind rd_u8 (\<lambda>tag.
     rd_bind (if tag = CHR 0x00 then rd_ret None
              else if tag = CHR 0x01 then rd_bind rd_identity (\<lambda>fi. rd_ret (Some fi))
              else rd_fail BadReference) (\<lambda>identity.
     rd_bind (rd_lift (rd_path paths i)) (\<lambda>path.
       rd_ret \<lparr>fr_path = path, fr_mtime = mtime, fr_identity = identity, fr_hash = hash\<rparr>))))))"

definition rd_observed :: "observation option reader" where
  "rd_observed =
     rd_bind rd_u8 (\<lambda>tag.
       if tag = CHR 0x00 then rd_ret None
       else if tag = CHR 0x01 then
         rd_bind rd_u64 (\<lambda>duration_ms. rd_bind rd_u64 (\<lambda>recorded_at. rd_bind rd_u64 (\<lambda>log_bytes.
         rd_bind rd_u32 (\<lambda>cause_len. rd_bind (rd_take (unat cause_len)) (\<lambda>cause.
           if utf8_valid cause then
             rd_ret (Some \<lparr>obs_duration_ms = duration_ms, obs_recorded_at = recorded_at,
               obs_cause = (if cause = [] then None else Some cause), obs_log_bytes = log_bytes\<rparr>)
           else rd_fail Utf8)))))
       else rd_fail BadReference)"

definition rd_step :: "file_record list \<Rightarrow> step_entry reader" where
  "rd_step records =
     rd_bind rd_u32 (\<lambda>inputs_start. rd_bind rd_u32 (\<lambda>inputs_len.
     rd_bind rd_u32 (\<lambda>outputs_start. rd_bind rd_u32 (\<lambda>outputs_len.
     rd_bind rd_u32 (\<lambda>modules_start. rd_bind rd_u32 (\<lambda>modules_len.
     rd_bind rd_u64 (\<lambda>command. rd_bind rd_u64 (\<lambda>env. rd_bind rd_u64 (\<lambda>seal.
     rd_bind rd_observed (\<lambda>observed.
     rd_bind (rd_lift (slice_records records (unat inputs_start) (unat inputs_len))) (\<lambda>inputs.
     rd_bind (rd_lift (slice_records records (unat outputs_start) (unat outputs_len))) (\<lambda>outputs.
     rd_bind (rd_lift (slice_records records (unat modules_start) (unat modules_len))) (\<lambda>modules.
       rd_ret \<lparr>se_inputs = inputs, se_outputs = outputs, se_command_hash = command,
         se_env_contribution = env, se_seal_contribution = seal, se_module_inputs = modules,
         se_observed = observed\<rparr>)))))))))))))"

fun rd_steps :: "file_record list \<Rightarrow> str list \<Rightarrow> (str \<times> step_entry) list \<Rightarrow> (str \<times> step_entry) list reader" where
  "rd_steps records [] m = rd_ret m"
| "rd_steps records (key # keys) m =
     rd_bind (rd_step records) (\<lambda>s. rd_steps records keys (btree_insert key s m))"

fun build_globs :: "nat list \<Rightarrow> str list \<Rightarrow> nat \<Rightarrow> str list \<Rightarrow> (str \<times> str list) list
    \<Rightarrow> (decode_error, (str \<times> str list) list) res" where
  "build_globs offsets members i [] m = Inr m"
| "build_globs offsets members i (key # keys) m =
     (let start = offsets ! i; stop = offsets ! (i + 1) in
      if start > stop \<or> stop > length members then Inl BadReference
      else build_globs offsets members (i + 1) keys
             (btree_insert key (btree_set (take (stop - start) (drop start members))) m))"

definition rd_payload :: "u32 \<Rightarrow> recipe_cache reader" where
  "rd_payload version =
     rd_bind rd_strings (\<lambda>paths. rd_bind rd_u32 (\<lambda>record_count. rd_bind rd_remaining (\<lambda>remaining.
     if unat record_count * 21 > remaining then rd_fail Truncated
     else
     rd_bind (rd_many (unat record_count) (rd_record paths)) (\<lambda>records.
     rd_bind rd_strings (\<lambda>step_keys. rd_bind (rd_steps records step_keys []) (\<lambda>steps.
     rd_bind rd_strings (\<lambda>glob_keys. rd_bind rd_u32 (\<lambda>member_total.
     rd_bind (rd_many (length glob_keys + 1) rd_u32) (\<lambda>offs. rd_bind rd_remaining (\<lambda>remaining'.
     if unat member_total * 4 > remaining' then rd_fail Truncated
     else
     rd_bind (rd_many (unat member_total) (rd_bind rd_u32 (\<lambda>i. rd_lift (rd_path paths i)))) (\<lambda>members.
     rd_bind (rd_lift (build_globs (map unat offs) members 0 glob_keys [])) (\<lambda>globs.
       rd_ret \<lparr>schema_version = version, globs = globs, steps = steps\<rparr>))))))))))))"

definition decode_index :: "(str \<Rightarrow> u64) \<Rightarrow> str \<Rightarrow> (decode_error, recipe_cache) res" where
  "decode_index xxh3 bytes =
     (if length bytes < header_len then Inl Truncated
      else if slice bytes 0 8 \<noteq> index_magic then Inl BadMagic
      else
        (let version = u32_of_le (slice bytes 8 4) in
         if version \<noteq> record_schema_version then Inl (SchemaVersion version)
         else
           (let payload_len = u64_of_le (slice bytes 16 8); payload_hash = u64_of_le (slice bytes 24 8);
                payload = drop header_len bytes
            in if word_of_nat (length payload) \<noteq> payload_len then Inl Truncated
               else if xxh3 payload \<noteq> payload_hash then Inl ChecksumMismatch
               else bind_res (rd_payload version payload) (\<lambda>(c, _). Inr c))))"


section \<open>What is read back\<close>

definition observed_ok :: "observation option \<Rightarrow> bool" where
  "observed_ok obs =
     (case obs of None \<Rightarrow> True
      | Some ob \<Rightarrow> (case obs_cause ob of None \<Rightarrow> True
                    | Some c \<Rightarrow> c \<noteq> [] \<and> utf8_valid c \<and> length c < 2 ^ 32))"

text \<open>
  An index the file can hold as it is: what Rust's types guarantee of it (maps and sets ascending,
  strings UTF-8), the counts and text sizes within their 32-bit fields, and no recorded cause that is
  empty.
\<close>

definition plain_index :: "recipe_cache \<Rightarrow> bool" where
  "plain_index c \<longleftrightarrow>
     schema_version c = record_schema_version
     \<and> ascending (map fst (steps c)) \<and> ascending (map fst (globs c))
     \<and> list_all (\<lambda>g. ascending (snd g)) (globs c)
     \<and> table_ok (index_paths c) \<and> table_ok (map fst (steps c)) \<and> table_ok (map fst (globs c))
     \<and> list_all (\<lambda>s. observed_ok (se_observed (snd s))) (steps c)
     \<and> length (concat (map (step_records \<circ> snd) (steps c))) < 2 ^ 32
     \<and> length (concat (map snd (globs c))) < 2 ^ 32
     \<and> length (encode_payload c) < 2 ^ 64"

lemma btree_insert_last:
  "ascending (map fst m @ [k]) \<Longrightarrow> btree_insert k v m = m @ [(k, v)]"
  by (induction m) (auto simp: ascending_def sorted_append less_le_not_le)

lemma ascending_append: "ascending (xs @ ys) \<Longrightarrow> ascending xs"
  by (simp add: ascending_def sorted_append)

lemma btree_set_ascending: "ascending xs \<Longrightarrow> btree_set xs = xs"
  by (simp add: btree_set_def ascending_def distinct_remdups_id sorted_sort_id)

lemma btree_set_set [simp]: "set (btree_set xs) = set xs" by (simp add: btree_set_def)

lemma rd_path_id:
  assumes "p \<in> set paths" "length paths < 2 ^ 32"
  shows "rd_path paths (path_id paths p) = Inr p"
proof -
  let ?i = "length (takeWhile (\<lambda>q. q \<noteq> p) paths)"
  have lt: "?i < length paths" using assms(1) by (induction paths) auto
  then have "unat (path_id paths p) = ?i" using assms(2) by (simp add: path_id_def unat_u32_of_nat)
  moreover have "paths ! ?i = p" using nth_length_takeWhile[OF lt] by simp
  ultimately show ?thesis using lt by (simp add: rd_path_def)
qed

lemma reads_identity: "reads rd_identity (encode_identity fi) fi"
  unfolding rd_identity_def encode_identity_def
  by (intro reads_seq) (simp add: reads_def rd_ret_def)

lemma reads_record:
  assumes "fr_path r \<in> set paths" "length paths < 2 ^ 32"
  shows "reads (rd_record paths) (encode_record paths r) r"
proof -
  let ?tag = "case fr_identity r of None \<Rightarrow> CHR 0x00 | Some fi \<Rightarrow> CHR 0x01"
  let ?id = "case fr_identity r of None \<Rightarrow> [] | Some fi \<Rightarrow> encode_identity fi"
  have id: "reads (if ?tag = CHR 0x00 then rd_ret None
              else if ?tag = CHR 0x01 then rd_bind rd_identity (\<lambda>fi. rd_ret (Some fi))
              else rd_fail BadReference) ?id (fr_identity r)"
    by (auto intro!: reads_ret reads_bind_last[OF reads_identity] split: option.splits)
  have "encode_record paths r = u32_le (path_id paths (fr_path r)) @ u64_le (fr_mtime r) @ u64_le (fr_hash r)
      @ [?tag] @ ?id"
    by (simp add: encode_record_def split: option.splits)
  then show ?thesis
    unfolding rd_record_def
    by (simp only: append_Cons append_Nil)
      (intro reads_seq reads_bind_last[OF id] reads_bind_lift[OF rd_path_id[OF assms]], simp add: reads_def rd_ret_def)
qed

lemma reads_observed:
  assumes "observed_ok obs"
  shows "reads rd_observed (encode_observed obs) obs"
proof (cases obs)
  case None
  then show ?thesis unfolding rd_observed_def encode_observed_def
    by (auto intro!: reads_bind_last[OF reads_u8] reads_ret)
next
  case (Some ob)
  let ?c = "case obs_cause ob of None \<Rightarrow> [] | Some c \<Rightarrow> c"
  have c: "utf8_valid ?c" "length ?c < 2 ^ 32" "(if ?c = [] then None else Some ?c) = obs_cause ob"
    using assms Some by (auto simp: observed_ok_def split: option.splits)
  have tag: "CHR 0x01 \<noteq> CHR 0x00" by simp
  show ?thesis
    unfolding rd_observed_def encode_observed_def Some option.case Let_def
    by (rule reads_bind[OF reads_u8], simp only: tag if_False if_True simp_thms, intro reads_seq reads_bind_last[OF reads_take])
      (use c in \<open>simp_all add: unat_u32_of_nat reads_def rd_ret_def\<close>)
qed


lemma slice_records_at:
  assumes "pool = pre @ rs @ post" "length pool < 2 ^ 32"
  shows "slice_records pool (unat (word_of_nat (length pre) :: u32)) (unat (word_of_nat (length rs) :: u32)) = Inr rs"
  using assms by (simp add: slice_records_def unat_u32_of_nat)

lemma word_of_nat_plus: "(word_of_nat m :: u32) + word_of_nat n = word_of_nat (m + n)" by simp

lemma reads_step:
  assumes pool: "pool = pre @ step_records s @ post" and small: "length pool < 2 ^ 32"
    and obs: "observed_ok (se_observed s)"
    and rest: "reads (k s) bs v"
  shows "reads (rd_bind (rd_step pool) k)
    (let inputs_len = word_of_nat (length (se_inputs s));
          outputs_start = word_of_nat (length pre) + inputs_len;
          outputs_len = word_of_nat (length (se_outputs s));
          modules_start = outputs_start + outputs_len;
          modules_len = word_of_nat (length (se_module_inputs s))
      in u32_le (word_of_nat (length pre)) @ u32_le inputs_len @ u32_le outputs_start @ u32_le outputs_len
         @ u32_le modules_start @ u32_le modules_len
         @ u64_le (se_command_hash s) @ u64_le (se_env_contribution s) @ u64_le (se_seal_contribution s)
         @ encode_observed (se_observed s) @ bs) v"
proof -
  have i: "slice_records pool (unat (word_of_nat (length pre) :: u32))
      (unat (word_of_nat (length (se_inputs s)) :: u32)) = Inr (se_inputs s)"
    by (rule slice_records_at[OF _ small]) (simp add: pool step_records_def)
  have outs: "slice_records pool (unat (word_of_nat (length (pre @ se_inputs s)) :: u32))
      (unat (word_of_nat (length (se_outputs s)) :: u32)) = Inr (se_outputs s)"
    by (rule slice_records_at[OF _ small]) (simp add: pool step_records_def)
  have mods: "slice_records pool (unat (word_of_nat (length ((pre @ se_inputs s) @ se_outputs s)) :: u32))
      (unat (word_of_nat (length (se_module_inputs s)) :: u32)) = Inr (se_module_inputs s)"
    by (rule slice_records_at[OF _ small]) (simp add: pool step_records_def)
  have one: "reads (rd_step pool)
      (u32_le (word_of_nat (length pre)) @ u32_le (word_of_nat (length (se_inputs s)))
       @ u32_le (word_of_nat (length (pre @ se_inputs s))) @ u32_le (word_of_nat (length (se_outputs s)))
       @ u32_le (word_of_nat (length ((pre @ se_inputs s) @ se_outputs s))) @ u32_le (word_of_nat (length (se_module_inputs s)))
       @ u64_le (se_command_hash s) @ u64_le (se_env_contribution s) @ u64_le (se_seal_contribution s)
       @ encode_observed (se_observed s)) s"
    unfolding rd_step_def
    by (intro reads_seq reads_bind_last[OF reads_observed[OF obs]] reads_bind_lift[OF i] reads_bind_lift[OF outs]
        reads_bind_lift[OF mods]) (simp add: reads_def rd_ret_def)
  show ?thesis
    using reads_bind[where f = k, OF one rest] unfolding Let_def append_assoc length_append word_of_nat_plus add.assoc .
qed

lemma reads_steps:
  assumes "pool = pre @ concat (map (step_records \<circ> snd) es)" "length pool < 2 ^ 32"
    and "list_all (\<lambda>s. observed_ok (se_observed (snd s))) es" "ascending (map fst (m @ es))"
  shows "reads (rd_steps pool (map fst es) m) (encode_steps (word_of_nat (length pre)) (map snd es)) (m @ es)"
  using assms
proof (induction es arbitrary: pre m)
  case Nil
  then show ?case by (simp add: reads_ret)
next
  case (Cons e es)
  have asc: "ascending (map fst m @ [fst e])"
    using ascending_append[of "map fst m @ [fst e]" "map fst es"] Cons.prems(4) by simp
  have "reads (rd_steps pool (map fst es) (m @ [e]))
      (encode_steps (word_of_nat (length (pre @ step_records (snd e)))) (map snd es)) ((m @ [e]) @ es)"
    using Cons.prems by (intro Cons.IH) simp_all
  then have rest: "reads (rd_steps pool (map fst es) (btree_insert (fst e) (snd e) m))
      (encode_steps (word_of_nat (length pre) + word_of_nat (length (se_inputs (snd e)))
        + word_of_nat (length (se_outputs (snd e))) + word_of_nat (length (se_module_inputs (snd e)))) (map snd es)) (m @ e # es)"
    by (simp add: btree_insert_last[OF asc] step_records_def add.assoc)
  have "pool = pre @ step_records (snd e) @ concat (map (step_records \<circ> snd) es)" "observed_ok (se_observed (snd e))"
    using Cons.prems by (simp_all add: comp_def)
  from reads_step[where k = "\<lambda>s. rd_steps pool (map fst es) (btree_insert (fst e) s m)",
      OF this(1) Cons.prems(2) this(2) rest]
  show ?case unfolding list.map rd_steps.simps encode_steps.simps Let_def .
qed

lemma encode_member_offsets_eq:
  "encode_member_offsets (word_of_nat n) mss = concat (map (\<lambda>off. u32_le (word_of_nat off)) (offsets_from n mss))"
proof (induction mss arbitrary: n)
  case (Cons ms mss)
  then show ?case using Cons.IH[of "n + length ms"] by simp
qed simp

lemma reads_offsets:
  assumes "n + length (concat mss) < 2 ^ 32"
  shows "reads (rd_many (length mss + 1) rd_u32) (encode_member_offsets (word_of_nat n) mss)
    (map word_of_nat (offsets_from n mss))"
    "map (unat \<circ> (word_of_nat :: nat \<Rightarrow> u32)) (offsets_from n mss) = offsets_from n mss"
proof -
  show "reads (rd_many (length mss + 1) rd_u32) (encode_member_offsets (word_of_nat n) mss)
    (map word_of_nat (offsets_from n mss))"
    using reads_many[of "offsets_from n mss" rd_u32 "\<lambda>off. u32_le (word_of_nat off)" word_of_nat] reads_u32
    by (simp add: encode_member_offsets_eq)
  show "map (unat \<circ> (word_of_nat :: nat \<Rightarrow> u32)) (offsets_from n mss) = offsets_from n mss"
    using assms offsets_from_bound[of _ n mss]
    by (intro map_idI) (fastforce intro: unat_u32_of_nat)
qed

lemma build_globs_at:
  assumes "list_all (\<lambda>g. ascending (snd g)) gs" "ascending (map fst (d @ gs))"
  shows "build_globs (offsets_from 0 (map snd (d @ gs))) (concat (map snd (d @ gs))) (length d) (map fst gs) d = Inr (d @ gs)"
  using assms
proof (induction gs arbitrary: d)
  case Nil
  then show ?case by simp
next
  case (Cons g gs)
  let ?mss = "map snd (d @ g # gs)"
  have i: "length d < length ?mss" and ith: "?mss ! length d = snd g" by (simp_all add: nth_append)
  note slice = slice_concat[OF i, unfolded ith]
  have "ascending (map fst d @ [fst g])"
    using ascending_append[of "map fst d @ [fst g]" "map fst gs"] Cons.prems(2) by simp
  then have ins: "btree_insert (fst g) (btree_set (snd g)) d = d @ [g]"
    using Cons.prems(1) by (simp add: btree_insert_last btree_set_ascending)
  have "build_globs (offsets_from 0 (map snd ((d @ [g]) @ gs))) (concat (map snd ((d @ [g]) @ gs))) (length (d @ [g]))
      (map fst gs) (d @ [g]) = Inr ((d @ [g]) @ gs)"
    using Cons.prems by (intro Cons.IH) simp_all
  then have rest: "build_globs (offsets_from 0 ?mss) (concat ?mss) (length d + 1) (map fst gs) (d @ [g]) = Inr (d @ g # gs)"
    by simp
  have start: "offsets_from 0 ?mss ! length d = length (concat (take (length d) ?mss))"
    and stop: "offsets_from 0 ?mss ! (length d + 1) = length (concat (take (length d) ?mss)) + length (snd g)"
    using i length_concat_take_Suc[OF i] unfolding ith by (simp_all only: offsets_from_nth Suc_leI less_imp_le_nat Suc_eq_plus1[symmetric] add_0)
  have le: "length (concat (take (length d) ?mss)) + length (snd g) \<le> length (concat ?mss)"
    using length_concat_take_le[of "Suc (length d)" ?mss] unfolding length_concat_take_Suc[OF i] ith .
  then have cond: "\<not> (length (concat (take (length d) ?mss)) > length (concat (take (length d) ?mss)) + length (snd g)
      \<or> length (concat (take (length d) ?mss)) + length (snd g) > length (concat ?mss))" by simp
  show ?case
    unfolding list.map(2)[of fst] build_globs.simps Let_def start stop if_not_P[OF cond] add_diff_cancel_left' slice ins
    by (rule rest)
qed


text \<open>The payload: every section is read back, each from exactly the bytes it was written to.\<close>

lemma encode_record_length: "21 \<le> length (encode_record paths r)"
  by (simp add: encode_record_def encode_identity_def split: option.splits)

lemma length_concat_lower: "(\<And>x. x \<in> set xs \<Longrightarrow> n \<le> length (f x)) \<Longrightarrow> length xs * n \<le> length (concat (map f xs))"
proof (induction xs)
  case (Cons x xs)
  then have "length xs * n \<le> length (concat (map f xs))" "n \<le> length (f x)" by simp_all
  then show ?case by simp
qed simp

text \<open>A guard on the remaining length that the bytes to come satisfy.\<close>

lemma reads_guard:
  assumes "reads r bs v" "lo \<le> length bs"
  shows "reads (rd_bind rd_remaining (\<lambda>remaining. if lo > remaining then rd_fail Truncated else r)) bs v"
  using assms by (simp add: reads_def rd_bind_def rd_remaining_def)

lemma reads_record_path:
  "m \<in> set paths \<Longrightarrow> length paths < 2 ^ 32 \<Longrightarrow>
     reads (rd_bind rd_u32 (\<lambda>i. rd_lift (rd_path paths i))) (u32_le (path_id paths m)) m"
  by (rule reads_bind_last[OF reads_u32]) (simp add: reads_lift rd_path_id)

lemma reads_payload:
  assumes ok: "plain_index c"
  shows "reads (rd_payload record_schema_version) (encode_payload c) c"
proof -
  let ?paths = "index_paths c" and ?recs = "concat (map (step_records \<circ> snd) (steps c))"
    and ?mem = "concat (map snd (globs c))"
  note ok' = ok[unfolded plain_index_def]
  have tp: "table_ok ?paths" and ts: "table_ok (map fst (steps c))" and tg: "table_ok (map fst (globs c))"
    and lr: "length ?recs < 2 ^ 32" and lm: "length ?mem < 2 ^ 32" using ok' by blast+
  have lp: "length ?paths < 2 ^ 32" using tp by (simp add: table_ok_def)
  have inp: "fr_path r \<in> set ?paths" if "r \<in> set ?recs" for r
    using that by (simp add: index_paths_def image_iff) blast
  have inm: "m \<in> set ?paths" if "m \<in> set ?mem" for m
    using that by (simp add: index_paths_def)
  have recs: "reads (rd_many (length ?recs) (rd_record ?paths)) (concat (map (encode_record ?paths) ?recs)) ?recs"
    using reads_many[of ?recs "rd_record ?paths" "encode_record ?paths" "\<lambda>r. r"] inp reads_record[OF _ lp] by simp
  have mems: "reads (rd_many (length ?mem) (rd_bind rd_u32 (\<lambda>i. rd_lift (rd_path ?paths i))))
      (concat (map (\<lambda>m. u32_le (path_id ?paths m)) ?mem)) ?mem"
    using reads_many[of ?mem "rd_bind rd_u32 (\<lambda>i. rd_lift (rd_path ?paths i))" "\<lambda>m. u32_le (path_id ?paths m)" "\<lambda>m. m"]
      inm reads_record_path[OF _ lp] by simp
  have st: "reads (rd_steps ?recs (map fst (steps c)) []) (encode_steps 0 (map snd (steps c))) (steps c)"
    using reads_steps[of ?recs "[]" "steps c" "[]"] lr ok' by simp
  have offs: "reads (rd_many (length (map fst (globs c)) + 1) rd_u32) (encode_member_offsets 0 (map snd (globs c)))
      (map word_of_nat (offsets_from 0 (map snd (globs c))))"
    using reads_offsets(1)[of 0 "map snd (globs c)"] lm by simp
  have off: "map unat (map (word_of_nat :: nat \<Rightarrow> u32) (offsets_from 0 (map snd (globs c)))) = offsets_from 0 (map snd (globs c))"
    using reads_offsets(2)[of 0 "map snd (globs c)"] lm by simp
  have gl: "build_globs (map unat (map (word_of_nat :: nat \<Rightarrow> u32) (offsets_from 0 (map snd (globs c))))) ?mem 0 (map fst (globs c)) []
      = Inr (globs c)"
    unfolding off using build_globs_at[of "globs c" "[]"] ok' by simp
  have room: "length ?recs * 21 \<le> length (concat (map (encode_record ?paths) ?recs) @ tl)" for tl
    using length_concat_lower[of ?recs 21 "encode_record ?paths"] encode_record_length by (simp only: length_append trans_le_add1)
  have room': "length ?mem * 4 \<le> length (concat (map (\<lambda>m. u32_le (path_id ?paths m)) ?mem))"
    using length_concat_lower[of ?mem 4 "\<lambda>m. u32_le (path_id ?paths m)"] by (simp only: u32_le_length order_refl)
  have fin: "reads (rd_ret \<lparr>schema_version = record_schema_version, globs = globs c, steps = steps c\<rparr>) [] c"
    using ok' by (simp add: reads_def rd_ret_def)
  show ?thesis
    unfolding rd_payload_def encode_payload_def Let_def
    by (intro reads_bind[OF reads_strings[OF tp]] reads_bind[OF reads_u32], unfold unat_u32_of_nat[OF lr] unat_u32_of_nat[OF lm],
        intro reads_guard[OF _ room] reads_bind[OF recs] reads_bind[OF reads_strings[OF ts]] reads_bind[OF st]
          reads_bind[OF reads_strings[OF tg]] reads_bind[OF reads_u32] reads_bind[OF offs],
        unfold unat_u32_of_nat[OF lm],
        intro reads_guard[OF _ room'] reads_bind_last[OF mems] reads_bind_lift[OF gl] fin)
qed


lemma encode_index_length: "length (encode_index xxh3 c) = header_len + length (encode_payload c)"
  by (simp add: encode_index_def Let_def header_len_def index_magic_def)

lemma index_header:
  "slice (encode_index xxh3 c) 0 8 = index_magic"
  "slice (encode_index xxh3 c) 8 4 = u32_le record_schema_version"
  "slice (encode_index xxh3 c) 16 8 = u64_le (word_of_nat (length (encode_payload c)))"
  "slice (encode_index xxh3 c) 24 8 = u64_le (xxh3 (encode_payload c))"
  "drop header_len (encode_index xxh3 c) = encode_payload c"
  by (simp_all add: encode_index_def Let_def header_len_def index_magic_def slice_def)

lemma decode_encode_index:
  assumes "plain_index c"
  shows "decode_index xxh3 (encode_index xxh3 c) = Inr c"
proof -
  have p: "rd_payload record_schema_version (encode_payload c) = Inr (c, [])"
    using readsD[OF reads_payload[OF assms], of "[]"] by simp
  show ?thesis
    unfolding decode_index_def index_header u32_roundtrip u64_roundtrip Let_def
    by (simp add: p encode_index_length header_len_def)
qed

text \<open>
  The file has no room for an empty cause: it is written as a missing one. \<open>index_ok\<close> allows it, and
  \<open>read_back\<close> is what the file then holds.
\<close>

definition cause_ok :: "observation option \<Rightarrow> bool" where
  "cause_ok obs =
     (case obs of None \<Rightarrow> True
      | Some ob \<Rightarrow> (case obs_cause ob of None \<Rightarrow> True | Some c \<Rightarrow> utf8_valid c \<and> length c < 2 ^ 32))"

definition index_ok :: "recipe_cache \<Rightarrow> bool" where
  "index_ok c \<longleftrightarrow>
     schema_version c = record_schema_version
     \<and> ascending (map fst (steps c)) \<and> ascending (map fst (globs c))
     \<and> list_all (\<lambda>g. ascending (snd g)) (globs c)
     \<and> table_ok (index_paths c) \<and> table_ok (map fst (steps c)) \<and> table_ok (map fst (globs c))
     \<and> list_all (\<lambda>s. cause_ok (se_observed (snd s))) (steps c)
     \<and> length (concat (map (step_records \<circ> snd) (steps c))) < 2 ^ 32
     \<and> length (concat (map snd (globs c))) < 2 ^ 32
     \<and> length (encode_payload c) < 2 ^ 64"

definition kept_cause :: "observation \<Rightarrow> observation" where
  "kept_cause ob = (if obs_cause ob = Some [] then ob\<lparr>obs_cause := None\<rparr> else ob)"

definition read_back :: "recipe_cache \<Rightarrow> recipe_cache" where
  "read_back c = c\<lparr>steps := map (\<lambda>(k, e). (k, e\<lparr>se_observed := map_option kept_cause (se_observed e)\<rparr>)) (steps c)\<rparr>"

lemma encode_kept_cause: "encode_observed (map_option kept_cause obs) = encode_observed obs"
  by (cases obs) (simp_all add: encode_observed_def kept_cause_def)

lemma encode_steps_kept:
  "encode_steps n (map (\<lambda>e. e\<lparr>se_observed := map_option kept_cause (se_observed e)\<rparr>) es) = encode_steps n es"
  by (induction n es rule: encode_steps.induct) (simp_all add: encode_kept_cause Let_def)

lemma read_back_frames:
  "schema_version (read_back c) = schema_version c" "globs (read_back c) = globs c" "map fst (steps (read_back c)) = map fst (steps c)"
  "map (step_records \<circ> snd) (steps (read_back c)) = map (step_records \<circ> snd) (steps c)"
  "map snd (steps (read_back c)) = map (\<lambda>e. e\<lparr>se_observed := map_option kept_cause (se_observed e)\<rparr>) (map snd (steps c))"
  by (auto simp: read_back_def step_records_def)

lemma read_back_encoding: "index_paths (read_back c) = index_paths c" "encode_payload (read_back c) = encode_payload c"
proof -
  show p: "index_paths (read_back c) = index_paths c" unfolding index_paths_def read_back_frames ..
  show "encode_payload (read_back c) = encode_payload c"
    unfolding encode_payload_def p read_back_frames encode_steps_kept ..
qed

lemma read_back_plain: "index_ok c \<Longrightarrow> plain_index (read_back c)"
proof -
  assume ok: "index_ok c"
  have "cause_ok obs \<Longrightarrow> observed_ok (map_option kept_cause obs)" for obs
    by (auto simp: cause_ok_def observed_ok_def kept_cause_def split: option.splits)
  then have "list_all (\<lambda>s. observed_ok (se_observed (snd s))) (steps (read_back c))"
    using ok by (auto simp: index_ok_def read_back_def list_all_iff)
  then show ?thesis using ok unfolding plain_index_def index_ok_def read_back_frames read_back_encoding by blast
qed

text \<open>
  C13: The recipe index survives its file. For an index whose counts and text sizes fit their fields,
  whose text is UTF-8 and whose maps and sets are in order, as those of Rust are, reading the bytes it
  is written to gives the index back: every step under its key with its inputs, outputs, modules,
  hashes and observation, every glob with its members, every path through the interned table. The
  one thing that changes is an empty cause of an observation, which comes back as none; without one,
  what is read is exactly what was written. Nothing is assumed of the checksum function.
\<close>

theorem index_roundtrip:
  assumes "index_ok c"
  shows "decode_index xxh3 (encode_index xxh3 c) = Inr (read_back c)
    \<and> ((\<forall>(k, e) \<in> set (steps c). \<forall>ob. se_observed e = Some ob \<longrightarrow> obs_cause ob \<noteq> Some []) \<longrightarrow> read_back c = c)"
proof
  have "encode_index xxh3 c = encode_index xxh3 (read_back c)" by (simp add: encode_index_def read_back_encoding)
  then show "decode_index xxh3 (encode_index xxh3 c) = Inr (read_back c)"
    using decode_encode_index[OF read_back_plain[OF assms]] by simp
  show "(\<forall>(k, e) \<in> set (steps c). \<forall>ob. se_observed e = Some ob \<longrightarrow> obs_cause ob \<noteq> Some []) \<longrightarrow> read_back c = c"
  proof
    assume full: "\<forall>(k, e) \<in> set (steps c). \<forall>ob. se_observed e = Some ob \<longrightarrow> obs_cause ob \<noteq> Some []"
    have "(\<lambda>(k, e). (k, e\<lparr>se_observed := map_option kept_cause (se_observed e)\<rparr>)) x = x" if "x \<in> set (steps c)" for x
    proof -
      obtain k e where x: "x = (k, e)" by fastforce
      have "map_option kept_cause (se_observed e) = se_observed e"
        using full that x by (cases "se_observed e") (auto simp: kept_cause_def)
      then show ?thesis using x by simp
    qed
    then show "read_back c = c" by (simp add: read_back_def map_idI)
  qed
qed

interpretation index_codec: codec "encode_index xxh3"
    "\<lambda>bs. case decode_index xxh3 bs of Inr c \<Rightarrow> Some c | Inl _ \<Rightarrow> None" plain_index for xxh3
  by unfold_locales (simp add: decode_encode_index)


lemma decode_wrong_length:
  assumes hd: "take header_len bs = take header_len (encode_index xxh3 c)"
    and len: "header_len \<le> length bs" "length bs \<noteq> length (encode_index xxh3 c)"
    and small: "length (encode_payload c) < 2 ^ 64" "length bs < 2 ^ 64"
  shows "decode_index xxh3 bs = Inl Truncated"
proof -
  have sl: "slice bs i k = slice (encode_index xxh3 c) i k" if "i + k \<le> header_len" for i k
  proof -
    have "slice bs i k = take k (drop i (take header_len bs))" using that by (simp add: slice_def drop_take)
    then show ?thesis unfolding hd using that by (simp add: slice_def drop_take)
  qed
  have "length bs - header_len \<noteq> length (encode_payload c)"
    using len by (simp add: encode_index_length)
  moreover have "unat (word_of_nat (length bs - header_len) :: u64) = length bs - header_len"
    "unat (word_of_nat (length (encode_payload c)) :: u64) = length (encode_payload c)"
    using small by (simp_all add: unat_of_nat)
  ultimately have "(word_of_nat (length bs - header_len) :: u64) \<noteq> word_of_nat (length (encode_payload c))"
    by metis
  then show ?thesis using len(1)
    by (simp add: decode_index_def Let_def sl header_len_def index_header[of xxh3 c])
qed

text \<open>
  A recipe index file that lost its end, or gained one, is never read as an index: every proper
  prefix of a written file, the empty file included, and every extension of it, is refused as
  truncated, whatever the checksum function. A file of another version is refused with the version
  it carries, before its length and checksum are looked at.
\<close>

theorem index_torn:
  assumes "length (encode_index xxh3 c @ junk) < 2 ^ 64"
  shows "(n < length (encode_index xxh3 c) \<longrightarrow> decode_index xxh3 (take n (encode_index xxh3 c)) = Inl Truncated)
    \<and> (junk \<noteq> [] \<longrightarrow> decode_index xxh3 (encode_index xxh3 c @ junk) = Inl Truncated)
    \<and> (v \<noteq> record_schema_version
        \<longrightarrow> decode_index xxh3 (index_magic @ u32_le v @ drop 12 (encode_index xxh3 c) @ junk) = Inl (SchemaVersion v))"
proof (intro conjI impI)
  let ?e = "encode_index xxh3 c"
  have small: "length (encode_payload c) < 2 ^ 64" and len: "length ?e = header_len + length (encode_payload c)"
    using assms by (simp_all add: encode_index_length)
  show "decode_index xxh3 (take n ?e) = Inl Truncated" if "n < length ?e"
  proof (cases "n < header_len")
    case True
    then have "length (take n ?e) < header_len" by simp
    then show ?thesis by (simp only: decode_index_def if_True)
  next
    case False
    then show ?thesis using that assms by (intro decode_wrong_length[of _ _ c] small) (simp_all add: min_def)
  qed
  show "decode_index xxh3 (?e @ junk) = Inl Truncated" if "junk \<noteq> []"
    using that assms len by (intro decode_wrong_length[of _ _ c] small) simp_all
  show "decode_index xxh3 (index_magic @ u32_le v @ drop 12 ?e @ junk) = Inl (SchemaVersion v)"
    if "v \<noteq> record_schema_version"
  proof -
    have "slice (index_magic @ u32_le v @ drop 12 ?e @ junk) 0 8 = index_magic"
      "slice (index_magic @ u32_le v @ drop 12 ?e @ junk) 8 4 = u32_le v"
      by (simp_all add: slice_def index_magic_def)
    then show ?thesis using that len by (simp add: decode_index_def Let_def header_len_def index_magic_def)
  qed
qed

section \<open>Whatever the bytes, what is read is an index\<close>

definition yields :: "'v reader \<Rightarrow> ('v \<Rightarrow> bool) \<Rightarrow> bool" where
  "yields r P \<longleftrightarrow> (\<forall>s v s'. r s = Inr (v, s') \<longrightarrow> P v)"

lemma yields_bind: "yields r P \<Longrightarrow> (\<And>v. P v \<Longrightarrow> yields (f v) Q) \<Longrightarrow> yields (rd_bind r f) Q"
  by (fastforce simp: yields_def rd_bind_def bind_res_Inr_iff)

lemma yields_any: "yields r (\<lambda>_. True)" by (simp add: yields_def)

lemma yields_ret: "P v \<Longrightarrow> yields (rd_ret v) P" by (simp add: yields_def rd_ret_def)

lemma yields_fail: "yields (rd_fail e) P" by (simp add: yields_def rd_fail_def)

lemma yields_lift: "(\<And>v. m = Inr v \<Longrightarrow> P v) \<Longrightarrow> yields (rd_lift m) P"
  by (auto simp: yields_def rd_lift_def bind_res_Inr_iff)

lemma yields_bind_lift: "(\<And>v. m = Inr v \<Longrightarrow> yields (f v) Q) \<Longrightarrow> yields (rd_bind (rd_lift m) f) Q"
  by (rule yields_bind[OF yields_lift, of m "\<lambda>v. m = Inr v"])

lemma yields_if: "(b \<Longrightarrow> yields r P) \<Longrightarrow> (\<not> b \<Longrightarrow> yields r' P) \<Longrightarrow> yields (if b then r else r') P"
  by simp

lemma yields_many: "yields r P \<Longrightarrow> yields (rd_many n r) (list_all P)"
proof (induction n)
  case (Suc n)
  then show ?case by (auto intro!: yields_bind[of r P] yields_bind[of "rd_many n r" "list_all P"] yields_ret)
qed (simp add: yields_ret)

lemmas yields_rules = yields_ret yields_fail yields_if yields_bind[OF yields_any]

lemmas yields_seq =
  yields_bind[OF yields_any[of rd_u8]] yields_bind[OF yields_any[of rd_u32]] yields_bind[OF yields_any[of rd_u64]]

lemma yields_strings: "yields rd_strings (list_all utf8_valid)"
proof -
  have "list_all utf8_valid ss" if "map_res (table_item blob offsets) is = Inr ss" for blob offsets "is" ss
    using that by (induction "is" arbitrary: ss)
      (auto simp: bind_res_Inr_iff table_item_def Let_def split: if_splits)
  then show ?thesis
    unfolding rd_strings_def Let_def by (intro yields_rules yields_lift) simp
qed


lemma btree_insert_set: "set (btree_insert k v m) \<subseteq> insert (k, v) (set m)"
  by (induction m) auto

lemma btree_insert_keys: "set (map fst (btree_insert k v m)) = insert k (set (map fst m))"
  by (induction m) auto

lemma ascending_Cons: "ascending (x # xs) \<longleftrightarrow> (\<forall>y \<in> set xs. x < y) \<and> ascending xs"
  by (auto simp: ascending_def order.strict_iff_order)

lemma btree_insert_ascending: "ascending (map fst m) \<Longrightarrow> ascending (map fst (btree_insert k v m))"
proof (induction m)
  case (Cons e m)
  then show ?case
    by (cases k "fst e" rule: linorder_cases) (auto simp: ascending_Cons btree_insert_keys simp del: set_map)
qed (simp add: ascending_def)

lemma btree_set_is_ascending: "ascending (btree_set xs)"
  by (simp add: ascending_def btree_set_def)

definition step_read_ok :: "step_entry \<Rightarrow> bool" where
  "step_read_ok s \<longleftrightarrow>
     list_all (\<lambda>r. utf8_valid (fr_path r)) (step_records s)
     \<and> (\<forall>ob c. se_observed s = Some ob \<and> obs_cause ob = Some c \<longrightarrow> c \<noteq> [] \<and> utf8_valid c)"

definition index_read_ok :: "recipe_cache \<Rightarrow> bool" where
  "index_read_ok c \<longleftrightarrow>
     schema_version c = record_schema_version
     \<and> ascending (map fst (steps c)) \<and> list_all (\<lambda>(k, s). utf8_valid k \<and> step_read_ok s) (steps c)
     \<and> ascending (map fst (globs c))
     \<and> list_all (\<lambda>(k, ms). utf8_valid k \<and> ascending ms \<and> list_all utf8_valid ms) (globs c)"

lemma rd_path_valid: "rd_path paths i = Inr p \<Longrightarrow> list_all utf8_valid paths \<Longrightarrow> utf8_valid p"
  by (auto simp: rd_path_def list_all_length split: if_splits)

lemma yields_record: "list_all utf8_valid paths \<Longrightarrow> yields (rd_record paths) (\<lambda>r. utf8_valid (fr_path r))"
  unfolding rd_record_def
  by (intro yields_seq, rule yields_bind[OF yields_any], intro yields_bind_lift yields_ret) (auto intro: rd_path_valid)

lemma yields_observed:
  "yields rd_observed (\<lambda>obs. \<forall>ob c. obs = Some ob \<and> obs_cause ob = Some c \<longrightarrow> c \<noteq> [] \<and> utf8_valid c)"
  unfolding rd_observed_def by (intro yields_rules) auto

lemma slice_records_sub: "slice_records pool i n = Inr rs \<Longrightarrow> list_all P pool \<Longrightarrow> list_all P rs"
  by (auto simp: slice_records_def list_all_iff dest: in_set_takeD in_set_dropD split: if_splits)

lemma yields_step: "list_all (\<lambda>r. utf8_valid (fr_path r)) pool \<Longrightarrow> yields (rd_step pool) step_read_ok"
  unfolding rd_step_def
  by (intro yields_seq yields_bind[OF yields_observed] yields_bind_lift yields_ret)
    (auto simp: step_read_ok_def step_records_def dest!: slice_records_sub)

lemma yields_steps:
  assumes "list_all (\<lambda>r. utf8_valid (fr_path r)) pool" "list_all utf8_valid keys"
    "ascending (map fst m)" "list_all (\<lambda>(k, s). utf8_valid k \<and> step_read_ok s) m"
  shows "yields (rd_steps pool keys m)
    (\<lambda>m. ascending (map fst m) \<and> list_all (\<lambda>(k, s). utf8_valid k \<and> step_read_ok s) m)"
  using assms
proof (induction keys arbitrary: m)
  case (Cons k keys)
  have "list_all (\<lambda>(k, s). utf8_valid k \<and> step_read_ok s) (btree_insert k s m)" if "step_read_ok s" for s
    using btree_insert_set[of k s m] that Cons.prems(2,4) by (auto simp: list_all_iff)
  then show ?case using Cons
    by (auto intro!: yields_bind[OF yields_step] btree_insert_ascending)
qed (simp add: yields_ret)

lemma build_globs_ok:
  assumes "build_globs offs members i keys m = Inr m'" "list_all utf8_valid members" "list_all utf8_valid keys"
    "ascending (map fst m)" "list_all (\<lambda>(k, ms). utf8_valid k \<and> ascending ms \<and> list_all utf8_valid ms) m"
  shows "ascending (map fst m') \<and> list_all (\<lambda>(k, ms). utf8_valid k \<and> ascending ms \<and> list_all utf8_valid ms) m'"
  using assms
proof (induction keys arbitrary: i m)
  case (Cons k keys)
  let ?ms = "btree_set (take (offs ! (i + 1) - offs ! i) (drop (offs ! i) members))"
  have "list_all (\<lambda>(k, ms). utf8_valid k \<and> ascending ms \<and> list_all utf8_valid ms) (btree_insert k ?ms m)"
    using btree_insert_set[of k ?ms m] Cons.prems btree_set_is_ascending
    by (fastforce simp: list_all_iff dest: in_set_takeD in_set_dropD)
  then show ?case using Cons btree_insert_ascending[OF Cons.prems(4), of k ?ms]
    by (simp add: Let_def split: if_splits)
qed simp


lemma yields_member: "list_all utf8_valid paths \<Longrightarrow> yields (rd_bind rd_u32 (\<lambda>i. rd_lift (rd_path paths i))) utf8_valid"
  by (intro yields_seq yields_lift) (rule rd_path_valid)

lemma yields_payload: "yields (rd_payload record_schema_version) index_read_ok"
  unfolding rd_payload_def
  apply (rule yields_bind[OF yields_strings])
  apply (intro yields_seq yields_bind[OF yields_any[of rd_remaining]] yields_if yields_fail)
  apply (rule yields_bind[OF yields_many[OF yields_record]], assumption)
  apply (rule yields_bind[OF yields_strings])
  apply (rule yields_bind[OF yields_steps], assumption, assumption, simp add: ascending_def, simp)
  apply (rule yields_bind[OF yields_strings])
  apply (intro yields_seq)
  apply (rule yields_bind[OF yields_any])
  apply (intro yields_bind[OF yields_any[of rd_remaining]] yields_if yields_fail)
  apply (rule yields_bind[OF yields_many[OF yields_member]], assumption)
  apply (intro yields_bind_lift yields_ret)
  apply (drule build_globs_ok)
  apply (simp_all add: index_read_ok_def ascending_def)
  done

text \<open>
  C37: Reading is total, and what it accepts is well-formed: whatever the bytes and whatever the
  checksum function says of them, decoding returns an error or an index of this version whose
  maps and sets are in order, whose keys and paths are valid UTF-8, and whose recorded causes are
  non-empty text.
\<close>

theorem index_decode_wf:
  "(\<exists>e. decode_index xxh3 bytes = Inl e) \<or> (\<exists>c. decode_index xxh3 bytes = Inr c \<and> index_read_ok c)"
proof (cases "decode_index xxh3 bytes")
  case (Inr c)
  then obtain rest where "rd_payload record_schema_version (drop header_len bytes) = Inr (c, rest)"
    by (auto simp: decode_index_def Let_def bind_res_Inr_iff split: if_splits)
  then show ?thesis using Inr yields_payload by (auto simp: yields_def)
qed simp

text \<open>An empty cause is written as a missing one, and read back as that.\<close>

lemma empty_cause_lost:
  "reads rd_observed (encode_observed (Some (ob\<lparr>obs_cause := Some []\<rparr>))) (Some (ob\<lparr>obs_cause := None\<rparr>))"
proof -
  have "encode_observed (Some (ob\<lparr>obs_cause := Some []\<rparr>)) = encode_observed (Some (ob\<lparr>obs_cause := None\<rparr>))"
    by (simp add: encode_observed_def)
  then show ?thesis using reads_observed[of "Some (ob\<lparr>obs_cause := None\<rparr>)"] by (simp add: observed_ok_def)
qed

section \<open>A concrete index\<close>

definition sample_record :: "str \<Rightarrow> file_record" where
  "sample_record p = \<lparr>fr_path = p, fr_mtime = 5, fr_identity = None, fr_hash = 6\<rparr>"

definition sample_index :: recipe_cache where
  "sample_index = \<lparr>schema_version = record_schema_version,
     globs = [(''*.c'', [''a.c'', ''b.c''])],
     steps = [(''cc'', \<lparr>se_inputs = [sample_record ''a.c''], se_outputs = [sample_record ''a.o''],
        se_command_hash = 1, se_env_contribution = 2, se_seal_contribution = 3, se_module_inputs = [],
        se_observed = Some \<lparr>obs_duration_ms = 9, obs_recorded_at = 8, obs_cause = Some ''first'', obs_log_bytes = 0\<rparr>\<rparr>)]\<rparr>"

lemma sample_index_ok: "index_ok sample_index"
proof -
  have paths: "index_paths sample_index = [''a.c'', ''a.o'', ''b.c'']" by code_simp
  have len: "length (encode_payload sample_index) = 218" by code_simp
  have u: "utf8_valid ''a.c''" "utf8_valid ''a.o''" "utf8_valid ''b.c''" "utf8_valid ''*.c''" "utf8_valid ''cc''"
    "utf8_valid ''first''" by code_simp+
  have a: "ascending (map fst (steps sample_index))" "ascending (map fst (globs sample_index))"
    "list_all (\<lambda>g. ascending (snd g)) (globs sample_index)" by code_simp+
  show ?thesis
    unfolding index_ok_def paths len
    by (intro conjI a)
      (simp_all add: sample_index_def table_ok_def cause_ok_def step_records_def u)
qed

theorem index_roundtrip_witness:
  "decode_index (\<lambda>_. 77) (encode_index (\<lambda>_. 77) sample_index) = Inr sample_index"
proof -
  have "\<forall>(k, e) \<in> set (steps sample_index). \<forall>ob. se_observed e = Some ob \<longrightarrow> obs_cause ob \<noteq> Some []"
    by (simp add: sample_index_def)
  then show ?thesis using index_roundtrip[OF sample_index_ok, of "\<lambda>_. 77"] by simp
qed

theorem index_torn_witness:
  "decode_index (\<lambda>_. 77) (take 100 (encode_index (\<lambda>_. 77) sample_index)) = Inl Truncated
   \<and> decode_index (\<lambda>_. 77) (encode_index (\<lambda>_. 77) sample_index @ ''!'') = Inl Truncated"
proof -
  have len: "length (encode_index (\<lambda>_. 77) sample_index) = 250"
    unfolding encode_index_length by code_simp
  show ?thesis
    using index_torn[of "\<lambda>_. 77" sample_index "''!''" 100 0] by (simp add: len)
qed

end
