(* ===== verification/Text_Ops.thy ===== *)
theory Text_Ops
  imports Bytes
begin

text \<open>
  The string functions of the standard library that the parser, the labels and the cache identities
  call, on strings as UTF-8 bytes: lines, trimming, words, searching for a character, formatting of
  numbers. No byte inside a multi-byte character is ASCII or starts a White\_Space character, so a
  search over bytes finds what a search over characters finds.
\<close>

section \<open>Lines and trimming\<close>

text \<open>
  \<open>str::lines\<close>: a line ends at a line feed, which goes with one carriage return before it; text after
  the last line feed is a line of its own and keeps its carriage return.
\<close>

definition chomp_cr :: "str \<Rightarrow> str" where
  "chomp_cr w = (if w \<noteq> [] \<and> last w = cret then butlast w else w)"

definition str_lines :: "str \<Rightarrow> str list" where
  "str_lines s =
     (let ps = split_on newline s in
      map chomp_cr (butlast ps) @ (if last ps = [] then [] else [last ps]))"

function trim_start :: "str \<Rightarrow> str" where
  "trim_start s = (if ws_width s = 0 then s else trim_start (drop (ws_width s) s))"
  by auto
termination
  by (relation "measure length") (auto simp: ws_width_def split: list.splits)

declare trim_start.simps [simp del]

fun trim_end :: "str \<Rightarrow> str" where
  "trim_end [] = []"
| "trim_end (c # r) = (if trim_start (c # r) = [] then [] else c # trim_end r)"

definition trim :: "str \<Rightarrow> str" where
  "trim s = trim_end (trim_start s)"

text \<open>The first \<open>n\<close> characters, over bytes.\<close>

fun take_chars :: "nat \<Rightarrow> str \<Rightarrow> str" where
  "take_chars 0 s = []"
| "take_chars (Suc n) s =
     (if s = [] then [] else (let w = snd (utf8_step s) in take w s @ take_chars n (drop w s)))"

lemma ws_width_le: "ws_width s \<le> length s"
  by (auto simp: ws_width_def split: list.splits)

lemma ws_width_Nil [simp]: "ws_width [] = 0"
  by (simp add: ws_width_def)

lemma trim_start_Nil [simp]: "trim_start [] = []"
  by (simp add: trim_start.simps)

lemma trim_start_fix: "ws_width s = 0 \<Longrightarrow> trim_start s = s"
  by (simp add: trim_start.simps)

lemma ws_width_trim_start [simp]: "ws_width (trim_start s) = 0"
  by (induction s rule: trim_start.induct) (simp add: trim_start.simps)

lemma trim_start_idem [simp]: "trim_start (trim_start s) = trim_start s"
  by (simp add: trim_start_fix)

lemma trim_start_suffix: "\<exists>p. s = p @ trim_start s"
proof (induction s rule: trim_start.induct)
  case (1 s)
  show ?case
  proof (cases "ws_width s = 0")
    case False
    obtain p where "drop (ws_width s) s = p @ trim_start (drop (ws_width s) s)" using 1[OF False] ..
    then have "s = (take (ws_width s) s @ p) @ trim_start s"
      using False by (metis append.assoc append_take_drop_id trim_start.simps)
    then show ?thesis ..
  qed (simp add: trim_start.simps)
qed

lemma trim_start_length: "length (trim_start s) \<le> length s"
  by (metis trim_start_suffix le_add2 length_append)

section \<open>Words and searches\<close>

text \<open>\<open>find\<close> with a class of ASCII characters or its complement, and the two parts it cuts a text into.\<close>

definition span_of :: "(char \<Rightarrow> bool) \<Rightarrow> str \<Rightarrow> str \<times> str" where
  "span_of ok s = (takeWhile ok s, dropWhile ok s)"

text \<open>The text up to the first White\_Space character, and the text from it on.\<close>

fun word_split :: "str \<Rightarrow> str \<times> str" where
  "word_split [] = ([], [])"
| "word_split (c # r) =
     (if 0 < ws_width (c # r) then ([], c # r) else (let (w, t) = word_split r in (c # w, t)))"

lemma word_split_append: "word_split s = (w, t) \<Longrightarrow> s = w @ t"
  by (induction s arbitrary: w t) (auto split: if_splits prod.splits)

lemma word_split_nonempty: "ws_width s = 0 \<Longrightarrow> s \<noteq> [] \<Longrightarrow> word_split s = (w, t) \<Longrightarrow> w \<noteq> []"
  by (cases s) (auto split: if_splits prod.splits)

function split_whitespace :: "str \<Rightarrow> str list" where
  "split_whitespace s =
     (let u = trim_start s in
      if u = [] then [] else (let (w, t) = word_split u in w # split_whitespace t))"
  by auto
termination
proof (relation "measure length", goal_cases)
  case (2 s u p w t)
  then have "u = w @ t" "w \<noteq> []"
    using word_split_append[of u w t] word_split_nonempty[of u w t] by auto
  then show ?case using trim_start_length[of s] 2(1) by (cases w) auto
qed simp

declare split_whitespace.simps [simp del]

definition has_ws :: "str \<Rightarrow> bool" where
  "has_ws s \<longleftrightarrow> snd (word_split s) \<noteq> []"

text \<open>The characters of a text.\<close>

function chars_of :: "str \<Rightarrow> str list" where
  "chars_of s = (if s = [] then [] else (let w = snd (utf8_step s) in take w s # chars_of (drop w s)))"
  by auto
termination
proof (relation "measure length", goal_cases)
  case (2 s w)
  then show ?case using utf8_step_bounds[of "hd s" "tl s"] by (cases s) (auto simp: prod_eq_iff)
qed simp

declare chars_of.simps [simp del]

section \<open>Hexadecimal\<close>

definition hex_digit :: "nat \<Rightarrow> char" where
  "hex_digit n = (if n < 10 then char_of (48 + n) else char_of (87 + n))"

text \<open>Lower-case hexadecimal, without and with padding to 16 digits.\<close>

fun show_hex :: "nat \<Rightarrow> str" where
  "show_hex n = (if n < 16 then [hex_digit n] else show_hex (n div 16) @ [hex_digit (n mod 16)])"

declare show_hex.simps [simp del]

fun hex_digits :: "nat \<Rightarrow> nat \<Rightarrow> str" where
  "hex_digits 0 n = []"
| "hex_digits (Suc k) n = hex_digits k (n div 16) @ [hex_digit (n mod 16)]"

definition hex16 :: "u64 \<Rightarrow> str" where "hex16 w = hex_digits 16 (unat w)"

lemma hex_digits_length [simp]: "length (hex_digits k n) = k"
  by (induction k arbitrary: n) simp_all

lemma hex_digit_inj: "a < 16 \<Longrightarrow> b < 16 \<Longrightarrow> hex_digit a = hex_digit b \<longleftrightarrow> a = b"
  by (auto simp: hex_digit_def of_char_eq_iff[symmetric] split: if_splits)

lemma hex_digits_inj: "m < 16 ^ k \<Longrightarrow> n < 16 ^ k \<Longrightarrow> hex_digits k m = hex_digits k n \<longleftrightarrow> m = n"
proof (induction k arbitrary: m n)
  case (Suc k)
  then have "m div 16 < 16 ^ k" "n div 16 < 16 ^ k" by (simp_all add: less_mult_imp_div_less mult.commute)
  then show ?case using Suc.IH by (simp add: hex_digit_inj) (metis div_mod_decomp)
qed simp

lemma hex16_inj: "hex16 a = hex16 b \<longleftrightarrow> a = b"
proof -
  have "unat w < 16 ^ 16" for w :: u64 using unsigned_less[of w] by simp
  then show ?thesis by (simp add: hex16_def hex_digits_inj word_unat_eq_iff)
qed

end
