(* ===== verification/Cache_Keys.thy ===== *)
theory Cache_Keys
  imports Text_Ops Unit_Types
begin

text \<open>
  How cache identities are composed: the store's keys and reserved artifacts
  (\<open>cook-contracts/src/cache/cas/mod.rs\<close>), the local identity of a unit
  (\<open>cache/local\_key/mod.rs\<close>), the folds of the consulted environment (\<open>envkey/mod.rs\<close>,
  \<open>cook-cache/src/check.rs\<close>) and of the sealed probe values (\<open>cook-engine/src/seal.rs\<close>), and the text
  fold under them (\<open>hash/mod.rs\<close>). The hash functions are arguments: \<open>sha256\<close> to 32 bytes, \<open>xxh3\<close> to
  a 64-bit word, each a function of the concatenated updates. The lemmas are about what is hashed,
  so that two things share a key only through a collision of the hash function itself.
\<close>

definition nul :: char where "nul = CHR 0x00"

section \<open>The store's keys\<close>

record cloud_key_inputs =
  ck_schema_version :: u32
  ck_recipe_namespace :: str
  ck_command_hash :: u64
  ck_env_contribution :: u64
  ck_seal_contribution :: u64
  ck_declared_outputs :: "str list"
  ck_input_hashes :: "u64 list"

definition recipe_namespace :: "str \<Rightarrow> str \<Rightarrow> str \<Rightarrow> str" where
  "recipe_namespace project_id cookfile_path recipe = project_id @ ''/'' @ cookfile_path @ ''::'' @ recipe"

definition cloud_preimage :: "cloud_key_inputs \<Rightarrow> str" where
  "cloud_preimage k =
     u32_le (ck_schema_version k) @ ck_recipe_namespace k @ [nul]
     @ u64_le (ck_command_hash k) @ u64_le (ck_env_contribution k) @ u64_le (ck_seal_contribution k)
     @ u32_le (word_of_nat (length (ck_declared_outputs k)))
     @ concat (map (\<lambda>path. path @ [nul]) (ck_declared_outputs k))
     @ concat (map u64_le (ck_input_hashes k))"

definition cloud_key :: "(str \<Rightarrow> str) \<Rightarrow> cloud_key_inputs \<Rightarrow> str" where
  "cloud_key sha256 k = sha256 (cloud_preimage k)"

definition artifact_preimage :: "str \<Rightarrow> u32 \<Rightarrow> str \<Rightarrow> str" where
  "artifact_preimage key output_index output_path = key @ u32_le output_index @ output_path"

definition artifact_key :: "(str \<Rightarrow> str) \<Rightarrow> str \<Rightarrow> u32 \<Rightarrow> str \<Rightarrow> str" where
  "artifact_key sha256 key output_index output_path = sha256 (artifact_preimage key output_index output_path)"

text \<open>The reserved artifacts of a key: index and path.\<close>

definition discovered_inputs_manifest :: "u32 \<times> str" where
  "discovered_inputs_manifest = (- 1, ''__cook_discovered_inputs__'')"

definition discovered_input_sets :: "u32 \<times> str" where
  "discovered_input_sets = (- 1 - 1, ''__cook_discovered_input_sets__'')"

definition observation_artifact :: "u32 \<times> str" where
  "observation_artifact = (- 1 - 2, ''__cook_observation__'')"

definition module_input_sets :: "u32 \<times> str" where
  "module_input_sets = (- 1 - 3, ''__cook_module_inputs__'')"

definition module_set_cap :: nat where "module_set_cap = 8"

definition merge_path_set :: "str list list \<Rightarrow> str list \<Rightarrow> str list list" where
  "merge_path_set existing observed =
     take module_set_cap (observed # filter (\<lambda>set. set \<noteq> observed) existing)"

definition path_set_candidates :: "str list list \<Rightarrow> str list list" where
  "path_set_candidates recorded = (if [] \<in> set recorded then recorded else recorded @ [[]])"

section \<open>Folds\<close>

definition hash_str :: "(str \<Rightarrow> u64) \<Rightarrow> str \<Rightarrow> u64" where "hash_str xxh3 s = xxh3 s"

definition hash_env :: "(str \<Rightarrow> u64) \<Rightarrow> (str \<times> str) list \<Rightarrow> u64" where
  "hash_env xxh3 env = hash_str xxh3 (join [newline] (map (\<lambda>(k, v). k @ ''='' @ v) env))"

definition baseline_exact :: "str list" where
  "baseline_exact =
     [''HOME'', ''USER'', ''LOGNAME'', ''SHELL'', ''PATH'', ''PWD'', ''OLDPWD'', ''MAIL'', ''HOSTNAME'',
      ''TERM'', ''TERMINFO'', ''COLORTERM'', ''DISPLAY'', ''WAYLAND_DISPLAY'', ''XAUTHORITY'',
      ''SSH_AUTH_SOCK'', ''SSH_CONNECTION'', ''SSH_CLIENT'', ''SSH_TTY'',
      ''DBUS_SESSION_BUS_ADDRESS'', ''DBUS_STARTER_BUS_TYPE'', ''DBUS_STARTER_ADDRESS'',
      ''EDITOR'', ''VISUAL'', ''PAGER'', ''BROWSER'', ''TMPDIR'', ''TMP'', ''TEMP'',
      ''HISTFILE'', ''HISTSIZE'', ''HISTCONTROL'', ''SHLVL'', ''PS1'', ''PS2'', ''PS3'', ''PS4'', ''CI'']"

definition baseline_globs :: "str list" where
  "baseline_globs =
     [''XDG_*'', ''GITHUB_*'', ''RUNNER_*'', ''GITLAB_CI_*'', ''BUILDKITE_*'', ''CIRCLE_*'', ''TRAVIS_*'',
      ''JENKINS_*'', ''TEAMCITY_*'', ''DRONE_*'']"

text \<open>Glob patterns are another crate's: \<open>glob\_new\<close> compiles one, \<open>glob\_matches\<close> applies it.\<close>

record 'p env_denylist =
  deny_names :: "str set"
  deny_globs :: "'p list"

definition denylist_baseline :: "(str \<Rightarrow> 'p option) \<Rightarrow> 'p env_denylist option" where
  "denylist_baseline glob_new =
     map_option (\<lambda>globs. \<lparr>deny_names = set baseline_exact, deny_globs = globs\<rparr>)
       (those (map glob_new baseline_globs))"

fun extend_with :: "(str \<Rightarrow> 'p option) \<Rightarrow> str list \<Rightarrow> 'p env_denylist \<Rightarrow> 'p env_denylist" where
  "extend_with glob_new [] d = d"
| "extend_with glob_new (a # additions) d =
     extend_with glob_new additions
       (if CHR ''*'' \<in> set a \<or> CHR ''?'' \<in> set a
        then (case glob_new a of Some p \<Rightarrow> d\<lparr>deny_globs := deny_globs d @ [p]\<rparr> | None \<Rightarrow> d)
        else d\<lparr>deny_names := insert a (deny_names d)\<rparr>)"

definition is_ignored :: "('p \<Rightarrow> str \<Rightarrow> bool) \<Rightarrow> 'p env_denylist \<Rightarrow> str \<Rightarrow> bool" where
  "is_ignored glob_matches d key \<longleftrightarrow> key \<in> deny_names d \<or> list_ex (\<lambda>p. glob_matches p key) (deny_globs d)"

definition env_preimage :: "(str \<Rightarrow> bool) \<Rightarrow> (str \<times> str) list \<Rightarrow> str" where
  "env_preimage ignored consulted =
     concat (map (\<lambda>(k, v). (k @ ''='' @ v) @ [newline]) (filter (\<lambda>(k, v). \<not> ignored k) consulted))"

definition env_contribution :: "(str \<Rightarrow> u64) \<Rightarrow> (str \<Rightarrow> bool) \<Rightarrow> (str \<times> str) list \<Rightarrow> u64" where
  "env_contribution xxh3 ignored consulted = xxh3 (env_preimage ignored consulted)"

text \<open>The store of probe values is read through \<open>value\<close>; a key it lacks folds as an empty value.\<close>

definition seal_record :: "(local_key \<Rightarrow> str option) \<Rightarrow> local_key \<Rightarrow> str" where
  "seal_record value key = key @ [nul] @ (case value key of Some bytes \<Rightarrow> bytes | None \<Rightarrow> [])"

definition seal_contribution :: "(str \<Rightarrow> u64) \<Rightarrow> local_key list \<Rightarrow> (local_key \<Rightarrow> str option) \<Rightarrow> u64" where
  "seal_contribution xxh3 seal value =
     (if seal = [] then 0 else xxh3 (join [newline] (map (seal_record value) seal)))"

definition resolve_sealed_probes :: "local_key list \<Rightarrow> (local_key \<Rightarrow> str option) \<Rightarrow> (local_key \<times> str) list" where
  "resolve_sealed_probes seal value =
     map (\<lambda>k. (k, case value k of Some bytes \<Rightarrow> from_utf8_lossy bytes | None \<Rightarrow> [])) seal"

section \<open>Local identities\<close>

definition observing_key_marker :: char where "observing_key_marker = CHR '':''"

definition producing_identity :: "(str \<Rightarrow> u64) \<Rightarrow> str list \<Rightarrow> str option" where
  "producing_identity xxh3 outputs =
     (case outputs of
        [] \<Rightarrow> None
      | [first] \<Rightarrow> Some first
      | first # _ \<Rightarrow>
          Some (first @ [observing_key_marker] @ hex16 (xxh3 (concat (map (\<lambda>path. path @ [nul]) outputs)))))"

text \<open>The declared inputs an identity folds: the first entry of every path, in order.\<close>

fun dedup_inputs :: "str list \<Rightarrow> declared_input list \<Rightarrow> declared_input list" where
  "dedup_inputs seen [] = []"
| "dedup_inputs seen (d # ds) =
     (if di_path d \<in> set seen then dedup_inputs seen ds else d # dedup_inputs (seen @ [di_path d]) ds)"

definition observing_preimage :: "declared_input list \<Rightarrow> u64 \<Rightarrow> str list \<Rightarrow> str" where
  "observing_preimage inputs command seal_keys =
     concat (map (\<lambda>d. di_path d @ [nul] @ (if is_pattern d then ''*'' else ''='')) (dedup_inputs [] inputs))
     @ u64_le command @ concat (map (\<lambda>key. key @ [nul]) seal_keys)"

definition observing_identity :: "(str \<Rightarrow> u64) \<Rightarrow> declared_input list \<Rightarrow> u64 \<Rightarrow> str list \<Rightarrow> str" where
  "observing_identity xxh3 inputs command seal_keys =
     observing_key_marker # hex16 (xxh3 (observing_preimage inputs command seal_keys))"

definition build_local_cache_key ::
  "(str \<Rightarrow> u64) \<Rightarrow> str list \<Rightarrow> declared_input list \<Rightarrow> u64 \<Rightarrow> u64 \<Rightarrow> str list \<Rightarrow> str" where
  "build_local_cache_key xxh3 outputs inputs command env seal_keys =
     (let identity = (case producing_identity xxh3 outputs of
                        Some identity \<Rightarrow> identity
                      | None \<Rightarrow> observing_identity xxh3 inputs command seal_keys)
      in if env \<noteq> 0 then identity @ ''@'' @ show_hex (unat env) else identity)"

section \<open>Terminated and fixed-width texts are read back\<close>

lemma terminated_inj:
  fixes f :: "'x \<Rightarrow> str"
  assumes "concat (map (\<lambda>x. f x @ [c]) xs) = concat (map (\<lambda>x. f x @ [c]) ys)"
    and "\<forall>x \<in> set xs. c \<notin> set (f x)" "\<forall>y \<in> set ys. c \<notin> set (f y)"
  shows "map f xs = map f ys"
  using assms
proof (induction xs arbitrary: ys)
  case Nil
  then show ?case by (cases ys) simp_all
next
  case (Cons x xs)
  then obtain y ys' where ys: "ys = y # ys'" by (cases ys) simp_all
  with Cons.prems sep_unique[where a = "f x" and a' = "f y" and c = c] show ?case using Cons.IH[of ys'] by auto
qed

lemma terminated_prefix_inj:
  fixes f :: "'x \<Rightarrow> str"
  assumes "concat (map (\<lambda>x. f x @ [c]) xs) @ r = concat (map (\<lambda>x. f x @ [c]) ys) @ r'" "length xs = length ys"
    and "\<forall>x \<in> set xs. c \<notin> set (f x)" "\<forall>y \<in> set ys. c \<notin> set (f y)"
  shows "map f xs = map f ys \<and> r = r'"
  using assms
proof (induction xs arbitrary: ys)
  case (Cons x xs)
  then obtain y ys' where ys: "ys = y # ys'" by (cases ys) simp_all
  with Cons.prems sep_unique[where a = "f x" and a' = "f y" and c = c] show ?case using Cons.IH[of ys'] by auto
qed simp

lemma u64_le_inj: "u64_le a = u64_le b \<longleftrightarrow> a = b" using u64_roundtrip by metis

lemma u32_le_inj: "u32_le a = u32_le b \<longleftrightarrow> a = b" using u32_roundtrip by metis

lemma u64_list_inj: "concat (map u64_le xs) = concat (map u64_le ys) \<longleftrightarrow> xs = ys"
proof (induction xs arbitrary: ys)
  case Nil
  show ?case by (cases ys) (auto dest: arg_cong[of _ _ length])
next
  case (Cons x xs)
  show ?case using Cons by (cases ys) (auto simp: u64_le_inj dest: arg_cong[of _ _ length])
qed


section \<open>A shared key is a shared declaration\<close>

text \<open>
  What holds of every unit: paths and namespaces have no NUL byte, and a unit declares fewer than
  \<open>2 ^ 32\<close> outputs.
\<close>

definition key_inputs_ok :: "cloud_key_inputs \<Rightarrow> bool" where
  "key_inputs_ok k \<longleftrightarrow>
     nul \<notin> set (ck_recipe_namespace k) \<and> list_all (\<lambda>p. nul \<notin> set p) (ck_declared_outputs k)
     \<and> length (ck_declared_outputs k) < 2 ^ 32"

lemma cloud_preimage_inj:
  assumes "key_inputs_ok a" "key_inputs_ok b" and eq: "cloud_preimage a = cloud_preimage b"
  shows "a = b"
proof -
  note ok = assms(1,2)[unfolded key_inputs_ok_def list_all_iff]
  let ?tail = "\<lambda>k. u64_le (ck_command_hash k) @ u64_le (ck_env_contribution k) @ u64_le (ck_seal_contribution k)
     @ u32_le (word_of_nat (length (ck_declared_outputs k)))
     @ concat (map (\<lambda>path. path @ [nul]) (ck_declared_outputs k)) @ concat (map u64_le (ck_input_hashes k))"
  have v: "ck_schema_version a = ck_schema_version b"
    and rest: "ck_recipe_namespace a @ nul # ?tail a = ck_recipe_namespace b @ nul # ?tail b"
    using eq by (simp_all add: cloud_preimage_def u32_le_inj)
  from rest have ns: "ck_recipe_namespace a = ck_recipe_namespace b" and tail: "?tail a = ?tail b"
    using sep_unique[where a = "ck_recipe_namespace a" and a' = "ck_recipe_namespace b" and c = nul] ok by blast+
  then have w: "ck_command_hash a = ck_command_hash b" "ck_env_contribution a = ck_env_contribution b"
      "ck_seal_contribution a = ck_seal_contribution b"
    and n: "(word_of_nat (length (ck_declared_outputs a)) :: u32) = word_of_nat (length (ck_declared_outputs b))"
    and outs: "concat (map (\<lambda>path. path @ [nul]) (ck_declared_outputs a)) @ concat (map u64_le (ck_input_hashes a))
        = concat (map (\<lambda>path. path @ [nul]) (ck_declared_outputs b)) @ concat (map u64_le (ck_input_hashes b))"
    by (simp_all add: u64_le_inj u32_le_inj)
  have "length (ck_declared_outputs a) = length (ck_declared_outputs b)"
    using arg_cong[OF n, of unat] ok by (simp add: unat_of_nat)
  from terminated_prefix_inj[where f = "\<lambda>p. p", OF outs this] ok
  have "ck_declared_outputs a = ck_declared_outputs b" "ck_input_hashes a = ck_input_hashes b"
    by (simp_all add: u64_list_inj)
  with v ns w show ?thesis by simp
qed

text \<open>
  C14: Two units share an entry of the content-addressed store only by declaring the same: the same
  schema version, namespace, command, environment and seal folds, outputs in the same order and
  input contents, or by a collision of SHA-256 itself; and under one key of the store, different
  output indices or paths, the four reserved artifacts among them, have different artifact keys up
  to such a collision.
\<close>

theorem cloud_key_exact:
  assumes "key_inputs_ok a" "key_inputs_ok b"
  shows "(cloud_key sha256 a = cloud_key sha256 b \<longleftrightarrow>
      a = b \<or> (cloud_preimage a \<noteq> cloud_preimage b \<and> sha256 (cloud_preimage a) = sha256 (cloud_preimage b)))
    \<and> (artifact_key sha256 key i p = artifact_key sha256 key j q \<longleftrightarrow>
      (i, p) = (j, q) \<or> (artifact_preimage key i p \<noteq> artifact_preimage key j q
        \<and> sha256 (artifact_preimage key i p) = sha256 (artifact_preimage key j q)))
    \<and> distinct [discovered_inputs_manifest, discovered_input_sets, observation_artifact, module_input_sets]"
proof (intro conjI)
  show "cloud_key sha256 a = cloud_key sha256 b \<longleftrightarrow>
      a = b \<or> (cloud_preimage a \<noteq> cloud_preimage b \<and> sha256 (cloud_preimage a) = sha256 (cloud_preimage b))"
    using cloud_preimage_inj[OF assms] by (auto simp: cloud_key_def)
  show "artifact_key sha256 key i p = artifact_key sha256 key j q \<longleftrightarrow>
      (i, p) = (j, q) \<or> (artifact_preimage key i p \<noteq> artifact_preimage key j q
        \<and> sha256 (artifact_preimage key i p) = sha256 (artifact_preimage key j q))"
    by (auto simp: artifact_key_def artifact_preimage_def u32_le_inj)
qed (simp add: discovered_inputs_manifest_def discovered_input_sets_def observation_artifact_def module_input_sets_def)

theorem cloud_key_exact_witness:
  "let k = \<lparr>ck_schema_version = 12, ck_recipe_namespace = ''p/Cookfile::b'', ck_command_hash = 1,
     ck_env_contribution = 2, ck_seal_contribution = 0, ck_declared_outputs = [''a'', ''bc''], ck_input_hashes = [7]\<rparr>
   in cloud_key (\<lambda>x. x) k \<noteq> cloud_key (\<lambda>x. x) (k\<lparr>ck_declared_outputs := [''ab'', ''c'']\<rparr>)"
  using cloud_key_exact[of "\<lparr>ck_schema_version = 12, ck_recipe_namespace = ''p/Cookfile::b'', ck_command_hash = 1,
     ck_env_contribution = 2, ck_seal_contribution = 0, ck_declared_outputs = [''a'', ''bc''], ck_input_hashes = [7]\<rparr>"
      "\<lparr>ck_schema_version = 12, ck_recipe_namespace = ''p/Cookfile::b'', ck_command_hash = 1,
     ck_env_contribution = 2, ck_seal_contribution = 0, ck_declared_outputs = [''ab'', ''c''], ck_input_hashes = [7]\<rparr>"
      "\<lambda>x. x" "[]" 0 "[]" 0 "[]"]
  by (simp add: key_inputs_ok_def nul_def)

section \<open>The folds of environment and seals\<close>

definition env_clean :: "(str \<times> str) list \<Rightarrow> bool" where
  "env_clean env \<longleftrightarrow> list_all (\<lambda>(k, v). CHR ''='' \<notin> set k \<and> newline \<notin> set k \<and> newline \<notin> set v) env"

lemma env_preimage_inj:
  assumes "env_clean a" "env_clean b" "env_preimage ignored a = env_preimage ignored b"
  shows "filter (\<lambda>(k, v). \<not> ignored k) a = filter (\<lambda>(k, v). \<not> ignored k) b"
proof -
  let ?f = "\<lambda>(k, v). k @ ''='' @ v :: str" and ?p = "\<lambda>(k, v :: str). \<not> ignored k"
  have nl: "newline \<noteq> CHR ''=''" by simp
  have "concat (map (\<lambda>e. ?f e @ [newline]) (filter ?p a)) = concat (map (\<lambda>e. ?f e @ [newline]) (filter ?p b))"
    using assms(3) by (simp add: env_preimage_def case_prod_unfold)
  then have "map ?f (filter ?p a) = map ?f (filter ?p b)"
    by (rule terminated_inj) (use assms(1,2) nl in \<open>auto simp: env_clean_def list_all_iff\<close>)
  moreover have "inj_on ?f (set (filter ?p a) \<union> set (filter ?p b))"
  proof (rule inj_onI)
    fix x y assume x: "x \<in> set (filter ?p a) \<union> set (filter ?p b)" and y: "y \<in> set (filter ?p a) \<union> set (filter ?p b)"
      and eq: "?f x = ?f y"
    then have "CHR ''='' \<notin> set (fst x)" "CHR ''='' \<notin> set (fst y)"
      using assms(1,2) by (auto simp: env_clean_def list_all_iff)
    then show "x = y" using eq sep_unique[where a = "fst x" and a' = "fst y" and c = "CHR ''=''"]
      by (cases x; cases y) auto
  qed
  ultimately show ?thesis by (rule map_inj_on)
qed

text \<open>
  The separators are not escaped: a value with a line break can stand for the next variable. Two
  steps that consult the same two variables, at different values, fold alike under every hash.
\<close>

lemma env_fold_collides:
  "env_contribution xxh3 (\<lambda>_. False) [(''A'', ''x'' @ [newline] @ ''B=y''), (''B'', ''z'')]
     = env_contribution xxh3 (\<lambda>_. False) [(''A'', ''x''), (''B'', ''y'' @ [newline] @ ''B=z'')]"
  "hash_env xxh3 [(''A'', ''x'' @ [newline] @ ''B=y''), (''B'', ''z'')]
     = hash_env xxh3 [(''A'', ''x''), (''B'', ''y'' @ [newline] @ ''B=z'')]"
  by (simp_all add: env_contribution_def env_preimage_def hash_env_def)

definition seal_clean :: "local_key list \<Rightarrow> (local_key \<Rightarrow> str option) \<Rightarrow> bool" where
  "seal_clean seal value \<longleftrightarrow>
     list_all (\<lambda>k. nul \<notin> set k \<and> newline \<notin> set k
       \<and> (case value k of Some v \<Rightarrow> newline \<notin> set v | None \<Rightarrow> True)) seal"

text \<open>What a seal folds: every key with its value, an absent one as the empty value.\<close>

definition sealed_values :: "local_key list \<Rightarrow> (local_key \<Rightarrow> str option) \<Rightarrow> (local_key \<times> str) list" where
  "sealed_values seal value = map (\<lambda>k. (k, case value k of Some bytes \<Rightarrow> bytes | None \<Rightarrow> [])) seal"

lemma seal_records:
  "map (seal_record value) s = map (\<lambda>(k, v). k @ [nul] @ v) (sealed_values s value)"
  by (simp add: sealed_values_def seal_record_def)

lemma seal_fold_inj:
  assumes "seal_clean s value" "seal_clean s' value'" "s \<noteq> []" "s' \<noteq> []"
    and "join [newline] (map (seal_record value) s) = join [newline] (map (seal_record value') s')"
  shows "sealed_values s value = sealed_values s' value'"
proof -
  let ?rec = "\<lambda>(k, v). k @ [nul] @ v :: str"
  have nn: "nul \<noteq> newline" by (simp add: nul_def)
  have free: "newline \<notin> set w" if "w \<in> set (map (seal_record val) t)" "seal_clean t val" for w val t
    using that nn by (auto simp: seal_record_def seal_clean_def list_all_iff split: option.splits)
  have "split_on newline (join [newline] (map (seal_record val) t)) = map (seal_record val) t"
    if "seal_clean t val" "t \<noteq> []" for val t
    using that free[OF _ that(1)] by (intro split_on_join) blast+
  then have "map (seal_record value) s = map (seal_record value') s'"
    using assms by metis
  then have "map ?rec (sealed_values s value) = map ?rec (sealed_values s' value')"
    by (simp only: seal_records)
  moreover have "inj_on ?rec (set (sealed_values s value) \<union> set (sealed_values s' value'))"
  proof (rule inj_onI)
    fix x y assume xy: "x \<in> set (sealed_values s value) \<union> set (sealed_values s' value')"
      "y \<in> set (sealed_values s value) \<union> set (sealed_values s' value')" and eq: "?rec x = ?rec y"
    then have "nul \<notin> set (fst x)" "nul \<notin> set (fst y)"
      using assms(1,2) by (auto simp: sealed_values_def seal_clean_def list_all_iff)
    then show "x = y" using eq sep_unique[where a = "fst x" and a' = "fst y" and c = nul]
      by (cases x; cases y) auto
  qed
  ultimately show ?thesis by (rule map_inj_on)
qed

text \<open>
  What the environment and seal folds hash is faithful: where no name holds an equals sign and
  nothing a line break (and no seal key a NUL), two environments are hashed from the same bytes
  exactly when they agree on the variables that are not ignored, and two non-empty seal sets exactly
  when they have the same keys with the same values.
\<close>

theorem folds_exact:
  assumes "env_clean a" "env_clean b" "seal_clean s value" "seal_clean s' value'" "s \<noteq> []" "s' \<noteq> []"
  shows "(env_preimage ignored a = env_preimage ignored b \<longleftrightarrow>
      filter (\<lambda>(k, v). \<not> ignored k) a = filter (\<lambda>(k, v). \<not> ignored k) b)
    \<and> (join [newline] (map (seal_record value) s) = join [newline] (map (seal_record value') s') \<longleftrightarrow>
      sealed_values s value = sealed_values s' value')"
proof (intro conjI iffI)
  assume "sealed_values s value = sealed_values s' value'"
  then show "join [newline] (map (seal_record value) s) = join [newline] (map (seal_record value') s')"
    by (simp only: seal_records)
next
  assume "env_preimage ignored a = env_preimage ignored b"
  then show "filter (\<lambda>(k, v). \<not> ignored k) a = filter (\<lambda>(k, v). \<not> ignored k) b"
    by (rule env_preimage_inj[OF assms(1,2)])
next
  assume "filter (\<lambda>(k, v). \<not> ignored k) a = filter (\<lambda>(k, v). \<not> ignored k) b"
  then show "env_preimage ignored a = env_preimage ignored b" by (simp only: env_preimage_def)
next
  assume "join [newline] (map (seal_record value) s) = join [newline] (map (seal_record value') s')"
  then show "sealed_values s value = sealed_values s' value'" by (rule seal_fold_inj[OF assms(3-6)])
qed

theorem folds_exact_witness:
  "env_preimage (\<lambda>_. False) [(''CC'', ''gcc'')] \<noteq> env_preimage (\<lambda>_. False) [(''CC'', ''clang'')]
   \<and> join [newline] (map (seal_record [''os'' \<mapsto> ''1'']) [''os''])
       \<noteq> join [newline] (map (seal_record [''os'' \<mapsto> ''2'']) [''os''])"
  using folds_exact[of "[(''CC'', ''gcc'')]" "[(''CC'', ''clang'')]" "[''os'']" "[''os'' \<mapsto> ''1'']" "[''os'']" "[''os'' \<mapsto> ''2'']" "\<lambda>_. False"]
  by (simp add: env_clean_def seal_clean_def sealed_values_def nul_def)

section \<open>Local identities and path sets\<close>

text \<open>A digest-named identity and one named by an output path are apart, unless a path begins with the marker.\<close>

lemma identities_apart:
  assumes "outputs \<noteq> []" "hd outputs \<noteq> []" "hd (hd outputs) \<noteq> observing_key_marker"
  shows "build_local_cache_key xxh3 outputs inputs c e seals \<noteq> build_local_cache_key xxh3 [] inputs' c' e' seals'"
proof -
  obtain a p ps where o: "outputs = (a # p) # ps" and a: "a \<noteq> observing_key_marker"
    using assms by (cases outputs; cases "hd outputs") auto
  obtain identity where i: "producing_identity xxh3 outputs = Some (a # identity)"
    using o by (cases ps) (auto simp: producing_identity_def)
  show ?thesis using a i by (auto simp: build_local_cache_key_def observing_identity_def producing_identity_def Let_def)
qed

text \<open>With the same command and seals, an observing identity folds exactly the declared entries.\<close>

lemma entries_inj:
  assumes "concat (map (\<lambda>d. di_path d @ [nul] @ (if is_pattern d then ''*'' else ''='')) ds)
      = concat (map (\<lambda>d. di_path d @ [nul] @ (if is_pattern d then ''*'' else ''='')) ds')"
    and "\<forall>d \<in> set ds \<union> set ds'. nul \<notin> set (di_path d)"
  shows "ds = ds'"
  using assms
proof (induction ds arbitrary: ds')
  case Nil
  then show ?case by (cases ds') simp_all
next
  case (Cons d ds)
  let ?k = "\<lambda>d. if is_pattern d then CHR ''*'' else CHR ''=''"
    and ?es = "\<lambda>ds. concat (map (\<lambda>d. di_path d @ [nul] @ (if is_pattern d then ''*'' else ''='')) ds)"
  from Cons.prems obtain d' ds'' where ds': "ds' = d' # ds''" by (cases ds') simp_all
  have "di_path d @ nul # (?k d # ?es ds) = di_path d' @ nul # (?k d' # ?es ds'')"
    using Cons.prems(1) by (simp add: ds' split: if_splits)
  with Cons.prems(2) ds' have "di_path d = di_path d'" "?k d = ?k d'" "?es ds = ?es ds''"
    using sep_unique[where a = "di_path d" and a' = "di_path d'" and c = nul] by auto
  moreover from this(2) have "di_kind d = di_kind d'"
    by (cases "di_kind d"; cases "di_kind d'") (simp_all add: is_pattern_def split: if_splits)
  ultimately show ?case using Cons.IH[of ds''] Cons.prems(2) ds' by auto
qed

lemma observing_preimage_inputs:
  assumes "observing_preimage inputs c seals = observing_preimage inputs' c seals"
    and "list_all (\<lambda>d. nul \<notin> set (di_path d)) (inputs @ inputs')"
  shows "dedup_inputs [] inputs = dedup_inputs [] inputs'"
proof -
  let ?e = "\<lambda>d. di_path d @ [nul] @ (if is_pattern d then ''*'' else ''='')"
  have sub: "set (dedup_inputs seen ds) \<subseteq> set ds" for seen ds
    by (induction seen ds rule: dedup_inputs.induct) auto
  have "concat (map ?e (dedup_inputs [] inputs)) = concat (map ?e (dedup_inputs [] inputs'))"
    using assms(1) by (simp add: observing_preimage_def)
  then show ?thesis
    by (rule entries_inj) (use assms(2) sub in \<open>auto simp: list_all_iff\<close>)
qed

lemma merged_sets:
  "length (merge_path_set sets observed) \<le> module_set_cap \<and> hd (merge_path_set sets observed) = observed
   \<and> (distinct sets \<longrightarrow> distinct (merge_path_set sets observed)) \<and> [] \<in> set (path_set_candidates sets)"
  by (auto simp: merge_path_set_def module_set_cap_def path_set_candidates_def dest: in_set_takeD)

end
