(* ===== verification/Work_Tree.thy ===== *)
theory Work_Tree
  imports Pathlaw Recipe_Index Cache_Keys
begin

text \<open>
  The file tree a build reads and a restore writes, and what the restore of cached artifacts into it
  rests on (\<open>cook-cache/src/check.rs\<close> from \<open>set\_mode\<close> to \<open>restorable\<close>).

  The tree is a map from real absolute paths, as lists of names, to nodes; the root is always a
  directory. Symbolic links are nodes of their own, followed by \<open>walk\<close> as the kernel follows them,
  at most 40 of them on one path. The operations on it are the calls of \<open>std::fs\<close> the source makes,
  with their documented effect on a tree nobody else writes to at the same time and on a disk that
  is not full. What the operating system decides (the mode of a new directory, the time stamps and
  identity of a written file) is an argument, \<open>stamp\<close>; a pattern is matched by \<open>glob\<close>.
\<close>

section \<open>The tree\<close>

datatype fs_kind = FileNode "str option" | DirNode | LinkNode str

record fs_node =
  node_kind :: fs_kind
  node_mode :: u32
  node_mtime :: u64
  node_identity :: "file_identity option"

type_synonym tree = "str list \<Rightarrow> fs_node option"

type_synonym stamp = "str list \<Rightarrow> u32 \<times> u64 \<times> file_identity option"

definition root_node :: fs_node where
  "root_node = \<lparr>node_kind = DirNode, node_mode = 0, node_mtime = 0, node_identity = None\<rparr>"

definition node_at :: "tree \<Rightarrow> str list \<Rightarrow> fs_node option" where
  "node_at fs q = (if q = [] then Some root_node else fs q)"

definition kind_at :: "tree \<Rightarrow> str list \<Rightarrow> fs_kind option" where
  "kind_at fs q = map_option node_kind (node_at fs q)"

definition dir_at :: "tree \<Rightarrow> str list \<Rightarrow> bool" where "dir_at fs q \<longleftrightarrow> kind_at fs q = Some DirNode"

definition link_at :: "tree \<Rightarrow> str list \<Rightarrow> bool" where
  "link_at fs q \<longleftrightarrow> (case kind_at fs q of Some (LinkNode _) \<Rightarrow> True | _ \<Rightarrow> False)"

definition file_at :: "tree \<Rightarrow> str list \<Rightarrow> bool" where
  "file_at fs q \<longleftrightarrow> (case kind_at fs q of Some (FileNode _) \<Rightarrow> True | _ \<Rightarrow> False)"

definition new_node :: "stamp \<Rightarrow> str list \<Rightarrow> fs_kind \<Rightarrow> fs_node" where
  "new_node stamp q k =
     (case stamp q of (mode, mtime, identity) \<Rightarrow>
        \<lparr>node_kind = k, node_mode = mode, node_mtime = mtime, node_identity = identity\<rparr>)"

text \<open>Everything in the tree hangs below directories.\<close>

definition tree_ok :: "tree \<Rightarrow> bool" where
  "tree_ok fs \<longleftrightarrow> (\<forall>q. q \<noteq> [] \<and> fs q \<noteq> None \<longrightarrow> dir_at fs (butlast q))"

section \<open>Following a path\<close>

definition max_links :: nat where "max_links = 40"

function walk :: "nat \<Rightarrow> tree \<Rightarrow> str list \<Rightarrow> path \<Rightarrow> str list option" where
  "walk links fs cur [] = Some cur"
| "walk links fs cur (c # cs) =
     (case c of
        RootDir \<Rightarrow> walk links fs [] cs
      | CurDir \<Rightarrow> walk links fs cur cs
      | ParentDir \<Rightarrow> walk links fs (butlast cur) cs
      | Normal s \<Rightarrow>
          (case kind_at fs (cur @ [s]) of
             None \<Rightarrow> None
           | Some DirNode \<Rightarrow> walk links fs (cur @ [s]) cs
           | Some (FileNode _) \<Rightarrow> if cs = [] then Some (cur @ [s]) else None
           | Some (LinkNode target) \<Rightarrow>
               (case links of 0 \<Rightarrow> None | Suc n \<Rightarrow> walk n fs cur (components target @ cs))))"
  by pat_completeness auto
termination
  by (relation "inv_image (less_than <*lex*> less_than) (\<lambda>(links, fs, cur, cs). (links, length cs))") auto

text \<open>\<open>fs::canonicalize\<close>, \<open>fs::metadata\<close> and \<open>fs::symlink\_metadata\<close> of a path read from \<open>cur\<close>.\<close>

definition canonicalize :: "tree \<Rightarrow> str list \<Rightarrow> path \<Rightarrow> str list option" where
  "canonicalize fs cur p = walk max_links fs cur p"

definition metadata :: "tree \<Rightarrow> str list \<Rightarrow> path \<Rightarrow> fs_node option" where
  "metadata fs cur p = Option.bind (canonicalize fs cur p) (node_at fs)"

definition entry_of :: "tree \<Rightarrow> str list \<Rightarrow> str list \<Rightarrow> str list option" where
  "entry_of fs cur names =
     (if names = [] then Some cur
      else map_option (\<lambda>d. d @ [last names]) (canonicalize fs cur (map Normal (butlast names))))"

definition symlink_metadata :: "tree \<Rightarrow> str list \<Rightarrow> str list \<Rightarrow> fs_node option" where
  "symlink_metadata fs cur names = Option.bind (entry_of fs cur names) (node_at fs)"

section \<open>Changing the tree\<close>

definition remove_file :: "tree \<Rightarrow> str list \<Rightarrow> tree" where
  "remove_file fs q = (if dir_at fs q then fs else fs(q := None))"

definition set_mode :: "tree \<Rightarrow> str list \<Rightarrow> u32 \<Rightarrow> tree" where
  "set_mode fs q mode = (case fs q of None \<Rightarrow> fs | Some n \<Rightarrow> fs(q \<mapsto> n\<lparr>node_mode := mode\<rparr>))"

text \<open>\<open>fs::create\_dir\_all\<close>: whether it succeeds, and the tree after it.\<close>

fun create_dir_all :: "stamp \<Rightarrow> tree \<Rightarrow> str list \<Rightarrow> str list \<Rightarrow> bool \<times> tree" where
  "create_dir_all stamp fs cur [] = (True, fs)"
| "create_dir_all stamp fs cur (s # ss) =
     (let q = cur @ [s] in
      case kind_at fs q of
        None \<Rightarrow> create_dir_all stamp (fs(q \<mapsto> new_node stamp q DirNode)) q ss
      | Some DirNode \<Rightarrow> create_dir_all stamp fs q ss
      | Some (FileNode _) \<Rightarrow> (False, fs)
      | Some (LinkNode target) \<Rightarrow>
          (case canonicalize fs cur [Normal s] of
             Some d \<Rightarrow> if dir_at fs d then create_dir_all stamp fs d ss else (False, fs)
           | None \<Rightarrow> (False, fs)))"

section \<open>Names a restore may write\<close>

definition ascii_lower :: "char \<Rightarrow> char" where
  "ascii_lower c = (if in_range CHR ''A'' CHR ''Z'' c then char_of (of_char c + 32 :: nat) else c)"

definition restorable :: "str \<Rightarrow> bool" where
  "restorable rel \<longleftrightarrow>
     (let rel = strip_dot_slash rel in
      list_all is_normal (components rel)
      \<and> list_all (\<lambda>seg. seg \<noteq> [] \<and> seg \<noteq> ''.'' \<and> seg \<noteq> ''..'' \<and> map ascii_lower seg \<noteq> ''.git'')
          (split_on CHR ''/'' rel))"

definition normal_names :: "path \<Rightarrow> str list" where
  "normal_names p = concat (map (\<lambda>c. case c of Normal n \<Rightarrow> [n] | _ \<Rightarrow> []) p)"

definition rel_names :: "str \<Rightarrow> str list" where
  "rel_names rel = normal_names (normalize (components rel))"

fun no_link_on_the_way :: "tree \<Rightarrow> str list \<Rightarrow> str list \<Rightarrow> bool" where
  "no_link_on_the_way fs cur [] = True"
| "no_link_on_the_way fs cur (s # ss) =
     (case kind_at fs (cur @ [s]) of
        None \<Rightarrow> True
      | Some (LinkNode _) \<Rightarrow> False
      | Some _ \<Rightarrow> no_link_on_the_way fs (cur @ [s]) ss)"

definition normalize_glob_pattern :: "str \<Rightarrow> str" where
  "normalize_glob_pattern pattern =
     (if pattern = ''**'' then ''**/*''
      else if ends_with ''/**'' pattern then pattern @ ''/*''
      else if ends_with ''/'' pattern then pattern @ ''**/*''
      else pattern)"

text \<open>\<open>glob pat\<close> is the matcher of a pattern, if it is one, with \<open>OUTPUT\_MATCH\<close>.\<close>

definition declared_output_covers :: "(str \<Rightarrow> (str \<Rightarrow> bool) option) \<Rightarrow> str list \<Rightarrow> str \<Rightarrow> bool" where
  "declared_output_covers glob declared p \<longleftrightarrow>
     list_ex (\<lambda>d. d = p \<or> (is_terminal_output d
       \<and> (case glob (normalize_glob_pattern d) of Some matches \<Rightarrow> matches p | None \<Rightarrow> False))) declared"

section \<open>Restoring a link\<close>

fun resolve_target :: "tree \<Rightarrow> str list \<Rightarrow> path \<Rightarrow> str list option" where
  "resolve_target fs cur [] = Some cur"
| "resolve_target fs cur (Normal n # cs) = resolve_target fs (cur @ [n]) cs"
| "resolve_target fs cur (CurDir # cs) = resolve_target fs cur cs"
| "resolve_target fs cur (ParentDir # cs) =
     (case canonicalize fs [] (map Normal cur) of
        None \<Rightarrow> None
      | Some real \<Rightarrow> resolve_target fs (butlast real) cs)"
| "resolve_target fs cur (RootDir # cs) = None"

text \<open>The longest prefix that exists, with the names after it.\<close>

function existing_prefix :: "tree \<Rightarrow> str list \<Rightarrow> str list \<Rightarrow> str list \<times> str list" where
  "existing_prefix fs q rest =
     (if q = [] \<or> metadata fs [] (map Normal q) \<noteq> None then (q, rest)
      else existing_prefix fs (butlast q) (last q # rest))"
  by auto
termination
  by (relation "measure (\<lambda>(fs, q, rest). length q)") auto

declare existing_prefix.simps [simp del]

definition link_lands :: "(str \<Rightarrow> (str \<Rightarrow> bool) option) \<Rightarrow> str list \<Rightarrow> str list \<Rightarrow> tree \<Rightarrow> str list \<Rightarrow> str \<Rightarrow> bool" where
  "link_lands glob declared wd fs link target \<longleftrightarrow>
     \<not> has_root target
     \<and> (case canonicalize fs [] (map Normal (butlast link)) of
          None \<Rightarrow> False
        | Some from \<Rightarrow>
            (case resolve_target fs from (components target) of
               None \<Rightarrow> False
             | Some resolved \<Rightarrow>
                 (let (existing, rest) = existing_prefix fs resolved [] in
                  case canonicalize fs [] (map Normal existing) of
                    None \<Rightarrow> False
                  | Some real \<Rightarrow>
                      (case canonicalize fs [] (map Normal wd) of
                         None \<Rightarrow> False
                       | Some base \<Rightarrow>
                           prefix base (real @ rest)
                           \<and> (let rel = join ''/'' (drop (length base) (real @ rest))
                              in restorable rel \<and> declared_output_covers glob declared rel)))))"


section \<open>Real directories\<close>

text \<open>Every directory on the way to \<open>q\<close>, and \<open>q\<close> itself, is one: none is a link.\<close>

definition real_dir :: "tree \<Rightarrow> str list \<Rightarrow> bool" where
  "real_dir fs q \<longleftrightarrow> (\<forall>k \<le> length q. dir_at fs (take k q))"

lemma real_dir_snoc: "real_dir fs (q @ [s]) \<longleftrightarrow> real_dir fs q \<and> dir_at fs (q @ [s])"
  unfolding real_dir_def by (auto simp: le_Suc_eq)

lemma walk_down:
  "(\<forall>k. 0 < k \<and> k \<le> length q \<longrightarrow> dir_at fs (cur @ take k q)) \<Longrightarrow>
     walk n fs cur (map Normal q @ p) = walk n fs (cur @ q) p"
proof (induction q arbitrary: cur)
  case (Cons s q)
  have "dir_at fs (cur @ [s])" using Cons.prems by (auto dest: spec[of _ 1])
  moreover have "\<forall>k. 0 < k \<and> k \<le> length q \<longrightarrow> dir_at fs ((cur @ [s]) @ take k q)"
    using Cons.prems by (auto dest: spec[of _ "Suc _"])
  ultimately show ?case using Cons.IH[of "cur @ [s]"] by (simp add: dir_at_def)
qed simp

lemma walk_real: "real_dir fs q \<Longrightarrow> walk n fs [] (map Normal q @ p) = walk n fs q p"
  using walk_down[of q fs "[]"] by (simp add: real_dir_def)

lemma canonicalize_real: "real_dir fs q \<Longrightarrow> canonicalize fs [] (map Normal q) = Some q"
  using walk_real[of fs q max_links "[]"] by (simp add: canonicalize_def)

lemma node_at_upd: "q \<noteq> [] \<Longrightarrow> node_at (fs(q := v)) p = (if p = q then v else node_at fs p)"
  by (simp add: node_at_def)

lemma not_dir_below: "tree_ok fs \<Longrightarrow> \<not> dir_at fs q \<Longrightarrow> fs (q @ [s]) = None"
  unfolding tree_ok_def by (metis butlast_snoc snoc_eq_iff_butlast)

lemma tree_ok_below: "tree_ok fs \<Longrightarrow> node_at fs q = None \<Longrightarrow> fs (q @ [s]) = None"
  by (rule not_dir_below) (simp_all add: dir_at_def kind_at_def)

lemma new_node_kind [simp]: "node_kind (new_node stamp q k) = k"
  by (simp add: new_node_def split: prod.split)

lemma kind_at_upd:
  "q \<noteq> [] \<Longrightarrow> kind_at (fs(q \<mapsto> n)) p = (if p = q then Some (node_kind n) else kind_at fs p)"
  by (simp add: kind_at_def node_at_upd)

lemma tree_ok_insert:
  assumes "tree_ok fs" "q \<noteq> []" "dir_at fs (butlast q)" "dir_at fs q \<longrightarrow> node_kind n = DirNode"
  shows "tree_ok (fs(q \<mapsto> n))"
  unfolding tree_ok_def
proof (intro allI impI)
  fix p assume p: "p \<noteq> [] \<and> (fs(q \<mapsto> n)) p \<noteq> None"
  have "dir_at fs (butlast p)" using p assms by (cases "p = q") (auto simp: tree_ok_def)
  then show "dir_at (fs(q \<mapsto> n)) (butlast p)"
    using assms by (auto simp: dir_at_def kind_at_upd)
qed

lemma tree_ok_remove:
  assumes "tree_ok fs" "\<not> dir_at fs q"
  shows "tree_ok (fs(q := None))"
  unfolding tree_ok_def
proof (intro allI impI)
  fix p assume p: "p \<noteq> [] \<and> (fs(q := None)) p \<noteq> None"
  then have "dir_at fs (butlast p)" using assms(1) by (auto simp: tree_ok_def split: if_splits)
  then show "dir_at (fs(q := None)) (butlast p)" using assms(2)
    by (cases "butlast p = q") (auto simp: dir_at_def kind_at_def node_at_def)
qed

lemma tree_ok_remove_file: "tree_ok fs \<Longrightarrow> tree_ok (remove_file fs q)"
  by (simp add: remove_file_def tree_ok_remove)

lemma tree_ok_set_mode: "tree_ok fs \<Longrightarrow> q \<noteq> [] \<Longrightarrow> tree_ok (set_mode fs q m)"
  by (cases "fs q")
    (auto simp: set_mode_def tree_ok_def dir_at_def kind_at_def node_at_def)

text \<open>Making the directories of a path with no link on it adds directories on that path, nothing else.\<close>

lemma create_dirs:
  assumes "create_dir_all stamp fs cur ss = (ok, fs')" "no_link_on_the_way fs cur ss" "tree_ok fs" "dir_at fs cur"
  shows "tree_ok fs' \<and>
    (\<forall>q. fs' q = fs q \<or> (fs q = None \<and> dir_at fs' q \<and> (\<exists>k \<le> length ss. 0 < k \<and> q = cur @ take k ss)))
    \<and> (ok \<longrightarrow> (\<forall>k \<le> length ss. dir_at fs' (cur @ take k ss)))"
  using assms
proof (induction stamp fs cur ss arbitrary: ok fs' rule: create_dir_all.induct)
  case (2 stamp fs cur s ss)
  let ?q = "cur @ [s]"
  consider (missing) "kind_at fs ?q = None" | (dir) "kind_at fs ?q = Some DirNode"
    | (plain) b where "kind_at fs ?q = Some (FileNode b)"
    using "2.prems"(2) by (cases "kind_at fs ?q") (auto split: option.splits fs_kind.splits)
  then show ?case
  proof cases
    case missing
    let ?fs = "fs(?q \<mapsto> new_node stamp ?q DirNode)"
    have none: "fs ?q = None" using missing by (simp add: kind_at_def node_at_def)
    have ok1: "tree_ok ?fs" using "2.prems"(3,4) by (intro tree_ok_insert) simp_all
    have "fs (?q @ [t]) = None" for t using tree_ok_below[of fs ?q t] "2.prems"(3) none by (simp add: node_at_def)
    then have nl: "no_link_on_the_way ?fs ?q ss"
      by (cases ss) (simp_all add: kind_at_upd, simp add: kind_at_def node_at_def)
    have "create_dir_all stamp ?fs ?q ss = (ok, fs')" "dir_at ?fs ?q"
      using "2.prems"(1) missing by (simp_all add: Let_def dir_at_def kind_at_upd)
    note ih = "2.IH"(1)[OF refl missing this(1) nl ok1 this(2)]
    show ?thesis
    proof (intro conjI allI impI)
      show "tree_ok fs'" using ih by blast
      fix q show "fs' q = fs q \<or> (fs q = None \<and> dir_at fs' q \<and> (\<exists>k \<le> length (s # ss). 0 < k \<and> q = cur @ take k (s # ss)))"
      proof (cases "q = ?q")
        case True
        have "dir_at fs' ?q"
          using conjunct1[OF conjunct2[OF ih], rule_format, of ?q] by (auto simp: dir_at_def kind_at_def node_at_def)
        then show ?thesis using True none by (intro disjI2) (auto intro: exI[of _ 1])
      next
        case False
        then show ?thesis using conjunct1[OF conjunct2[OF ih], rule_format, of q]
          by (auto intro: exI[of _ "Suc _"])
      qed
    next
      fix k assume ok and k: "k \<le> length (s # ss)"
      have d: "dir_at fs' (?q @ take j ss)" if "j \<le> length ss" for j using ih \<open>ok\<close> that by blast
      show "dir_at fs' (cur @ take k (s # ss))"
      proof (cases k)
        case 0
        have "dir_at fs' cur"
          using conjunct1[OF conjunct2[OF ih], rule_format, of cur] "2.prems"(4)
          by (auto simp: dir_at_def kind_at_def node_at_def split: if_splits)
        then show ?thesis by (simp add: 0)
      qed (use d k in auto)
    qed
  next
    case dir
    then have "create_dir_all stamp fs ?q ss = (ok, fs')" "dir_at fs ?q" "no_link_on_the_way fs ?q ss"
      using "2.prems"(1,2) by (simp_all add: Let_def dir_at_def)
    note ih = "2.IH"(2)[OF refl dir refl this(1,3) "2.prems"(3) this(2)]
    show ?thesis
    proof (intro conjI allI impI)
      show "tree_ok fs'" using ih by blast
      fix q show "fs' q = fs q \<or> (fs q = None \<and> dir_at fs' q \<and> (\<exists>k \<le> length (s # ss). 0 < k \<and> q = cur @ take k (s # ss)))"
        using conjunct1[OF conjunct2[OF ih], rule_format, of q] by (auto intro: exI[of _ "Suc _"])
    next
      fix k assume ok and k: "k \<le> length (s # ss)"
      have d: "dir_at fs' (?q @ take j ss)" if "j \<le> length ss" for j using ih \<open>ok\<close> that by blast
      have "dir_at fs' cur"
        using conjunct1[OF conjunct2[OF ih], rule_format, of cur] "2.prems"(4)
        by (auto simp: dir_at_def kind_at_def node_at_def split: if_splits)
      then show "dir_at fs' (cur @ take k (s # ss))" using d k by (cases k) auto
    qed
  next
    case plain
    then show ?thesis using "2.prems" by (auto simp: Let_def)
  qed
qed (auto simp: dir_at_def)

end
