(* ===== verification/Restore.thy ===== *)
theory Restore
  imports Work_Tree
begin

text \<open>
  Restoring stored artifacts into the work tree: \<open>restore\_one\<close>, the two passes of \<open>try\_restore\<close> and
  \<open>restore\_all\<close>, the sweep of the links they leave, and which outputs a stored manifest may name
  (\<open>cook-cache/src/check.rs\<close>), with the artifact and manifest records of
  \<open>cook-contracts/src/cache/cas/mod.rs\<close>. The store is untrusted: \<open>backend\<close> is any function from keys
  to artifacts and manifests, an error of a store being the absence of the entry.
\<close>

section \<open>What the store holds\<close>

record artifact_meta =
  am_recipe_namespace :: str
  am_command_hash :: u64
  am_env_contribution :: u64
  am_seal_contribution :: u64
  am_schema_version :: u32
  am_size_bytes :: u64
  am_tags :: "str list"
  am_consulted_env_keys :: "str list"
  am_output_index :: u32
  am_output_path :: str
  am_content_hash :: str
  am_kind :: "str option"
  am_mode :: u32
  am_target :: "str option"

record determinant_manifest =
  dm_schema_version :: u32
  dm_recipe_namespace :: str
  dm_key :: str
  dm_command_hash :: u64
  dm_env_contribution :: u64
  dm_seal_contribution :: u64
  dm_inputs :: "(str \<times> u64) list"
  dm_output_paths :: "str list"
  dm_empty_dir_outputs :: "str list"
  dm_consulted_env :: "(str \<times> str) list"
  dm_sealed_probes :: "(str \<times> str) list"
  dm_observation :: "observation option"

definition kind_dir :: str where "kind_dir = ''dir''"

definition kind_symlink :: str where "kind_symlink = ''symlink''"

definition kind_observation :: str where "kind_observation = ''observation''"

text \<open>
  A fetched artifact is its metadata and what draining its verifying reader gives: all its bytes, or
  nothing when the stream fails or does not match its recorded digest. \<open>get\_bytes\<close> is the draining
  of \<open>CacheBackend::get\<close>, which serves the bytes without the metadata.
\<close>

record backend =
  get_with_meta :: "str \<Rightarrow> (str option \<times> artifact_meta) option"
  get_manifest :: "str \<Rightarrow> determinant_manifest option"
  get_bytes :: "str \<Rightarrow> str option"

section \<open>One artifact\<close>

definition file_stem :: "str \<Rightarrow> str" where
  "file_stem name =
     (case before_last CHR ''.'' name of Some stem \<Rightarrow> if stem = [] then name else stem | None \<Rightarrow> name)"

definition tmp_name :: "str list \<Rightarrow> str list" where
  "tmp_name q = butlast q @ [file_stem (last q) @ ''.cook.tmp'']"

definition write_file :: "stamp \<Rightarrow> tree \<Rightarrow> str list \<Rightarrow> str \<Rightarrow> tree" where
  "write_file stamp fs q bytes = fs(q \<mapsto> new_node stamp q (FileNode (Some bytes)))"

text \<open>A regular file goes through a fresh temporary beside it, and is renamed once both checks hold.\<close>

definition restore_file ::
  "(str \<Rightarrow> u64) \<Rightarrow> stamp \<Rightarrow> str option \<Rightarrow> artifact_meta \<Rightarrow> u64 option \<Rightarrow> tree \<Rightarrow> str list \<Rightarrow> bool \<times> tree" where
  "restore_file xxh3 stamp body meta expected fs q =
     (let fs = remove_file fs (tmp_name q) in
      if dir_at fs (tmp_name q) then (False, fs)
      else
        (case body of
           None \<Rightarrow> (False, fs)
         | Some bytes \<Rightarrow>
             if (case expected of Some h \<Rightarrow> xxh3 bytes \<noteq> h | None \<Rightarrow> False) \<or> dir_at fs q then (False, fs)
             else (True, set_mode (write_file stamp fs q bytes) q (am_mode meta))))"

definition target_of :: "str list \<Rightarrow> str \<Rightarrow> str list" where
  "target_of wd rel = wd @ rel_names rel"

definition restore_one ::
  "(str \<Rightarrow> u64) \<Rightarrow> stamp \<Rightarrow> (str \<Rightarrow> (str \<Rightarrow> bool) option) \<Rightarrow> backend \<Rightarrow> str list \<Rightarrow> str list
    \<Rightarrow> str \<Rightarrow> str \<Rightarrow> u64 option \<Rightarrow> tree \<Rightarrow> bool \<times> tree" where
  "restore_one xxh3 stamp glob backend wd declared artifact_k rel expected fs =
     (if \<not> restorable rel then (False, fs)
      else
        (let names = rel_names rel; q = target_of wd rel in
         if \<not> no_link_on_the_way fs wd (butlast names) then (False, fs)
         else
           (case get_with_meta backend artifact_k of
              None \<Rightarrow> (False, fs)
            | Some (body, meta) \<Rightarrow>
                (let (made, fs) = create_dir_all stamp fs [] (butlast q) in
                 if \<not> made \<or> \<not> no_link_on_the_way fs wd (butlast names) then (False, fs)
                 else if am_kind meta = Some kind_dir then
                   (if link_at fs q then (False, fs)
                    else (let (made, fs) = create_dir_all stamp fs [] q in
                          if made then (True, set_mode fs q (am_mode meta)) else (False, fs)))
                 else if am_kind meta = Some kind_symlink then
                   (case am_target meta of
                      None \<Rightarrow> (False, fs)
                    | Some target \<Rightarrow>
                        if link_lands glob declared wd fs q target \<and> node_at fs q = None
                        then (True, fs(q \<mapsto> new_node stamp q (LinkNode target)))
                        else (False, fs))
                 else restore_file xxh3 stamp body meta expected fs q))))"

section \<open>The two passes and the sweep\<close>

fun first_pass :: "('i \<Rightarrow> tree \<Rightarrow> bool \<times> tree) \<Rightarrow> 'i list \<Rightarrow> tree \<Rightarrow> 'i list \<times> tree" where
  "first_pass f [] fs = ([], fs)"
| "first_pass f (i # is) fs =
     (let (ok, fs) = f i fs; (pending, fs) = first_pass f is fs
      in (if ok then pending else i # pending, fs))"

fun second_pass :: "('i \<Rightarrow> tree \<Rightarrow> bool \<times> tree) \<Rightarrow> 'i list \<Rightarrow> tree \<Rightarrow> bool \<times> tree" where
  "second_pass f [] fs = (True, fs)"
| "second_pass f (i # is) fs =
     (let (ok, fs) = f i fs in if ok then second_pass f is fs else (False, fs))"

definition reaches_file :: "tree \<Rightarrow> str list \<Rightarrow> str list \<Rightarrow> bool" where
  "reaches_file fs wd names \<longleftrightarrow>
     (case metadata fs wd (map Normal names) of
        Some n \<Rightarrow> (case node_kind n of FileNode _ \<Rightarrow> True | _ \<Rightarrow> False)
      | None \<Rightarrow> False)"

fun restored_links_reach_files :: "str list \<Rightarrow> str list \<Rightarrow> tree \<Rightarrow> bool \<times> tree" where
  "restored_links_reach_files wd [] fs = (True, fs)"
| "restored_links_reach_files wd (rel # rels) fs =
     (if restorable rel then
        (case entry_of fs wd (rel_names rel) of
           Some q \<Rightarrow>
             if link_at fs q \<and> \<not> reaches_file fs wd (rel_names rel)
             then (let (_, fs) = restored_links_reach_files wd rels (remove_file fs q) in (False, fs))
             else restored_links_reach_files wd rels fs
         | None \<Rightarrow> restored_links_reach_files wd rels fs)
      else restored_links_reach_files wd rels fs)"

definition two_pass :: "('i \<Rightarrow> tree \<Rightarrow> bool \<times> tree) \<Rightarrow> ('i \<Rightarrow> str) \<Rightarrow> str list \<Rightarrow> 'i list \<Rightarrow> tree \<Rightarrow> bool \<times> tree" where
  "two_pass f path_of wd is fs =
     (let (pending, fs) = first_pass f is fs;
          (restored, fs) = second_pass f pending fs;
          (links_ok, fs) = restored_links_reach_files wd (map path_of is) fs
      in (restored \<and> links_ok, fs))"

text \<open>What a restore needs besides the tree: \<open>RestoreCtx\<close>, and the functions the model is over.\<close>

record restore_ctx =
  rc_backend :: backend
  rc_namespace :: str
  rc_declared :: "str list"
  rc_xxh3 :: "str \<Rightarrow> u64"
  rc_sha256 :: "str \<Rightarrow> str"
  rc_stamp :: stamp
  rc_glob :: "str \<Rightarrow> (str \<Rightarrow> bool) option"

definition restore_index :: "restore_ctx \<Rightarrow> str \<Rightarrow> str list \<Rightarrow> (nat \<Rightarrow> u64 option) \<Rightarrow> nat \<times> str \<Rightarrow> tree \<Rightarrow> bool \<times> tree" where
  "restore_index ctx cloud_k wd expected ip fs =
     restore_one (rc_xxh3 ctx) (rc_stamp ctx) (rc_glob ctx) (rc_backend ctx) wd (rc_declared ctx)
       (artifact_key (rc_sha256 ctx) cloud_k (word_of_nat (fst ip)) (snd ip)) (snd ip) (expected (fst ip)) fs"

definition restore_all :: "restore_ctx \<Rightarrow> str \<Rightarrow> str list \<Rightarrow> str list \<Rightarrow> tree \<Rightarrow> bool \<times> tree" where
  "restore_all ctx cloud_k wd paths fs =
     two_pass (restore_index ctx cloud_k wd (\<lambda>_. None)) snd wd (enumerate 0 paths) fs"

section \<open>Which outputs a stored manifest may name\<close>

definition manifest_outputs ::
  "(str \<Rightarrow> (str \<Rightarrow> bool) option) \<Rightarrow> determinant_manifest \<Rightarrow> str option \<Rightarrow> str list \<Rightarrow> str list option" where
  "manifest_outputs glob m depfile declared =
     (if list_all (\<lambda>p. restorable p \<and> declared_output_covers glob declared p) (dm_output_paths m @ dm_empty_dir_outputs m)
      then Some (dm_output_paths m @ (case depfile of Some d \<Rightarrow> [d] | None \<Rightarrow> []) @ dm_empty_dir_outputs m)
      else None)"

definition restore_list ::
  "(str \<Rightarrow> (str \<Rightarrow> bool) option) \<Rightarrow> backend \<Rightarrow> str \<Rightarrow> str list \<Rightarrow> str list \<Rightarrow> str option
    \<Rightarrow> (str list \<times> observation option) option" where
  "restore_list glob backend key declared caller_outputs depfile =
     (case Option.bind (get_manifest backend key)
             (\<lambda>m. map_option (\<lambda>l. (l, dm_observation m)) (manifest_outputs glob m depfile declared)) of
        Some r \<Rightarrow> Some r
      | None \<Rightarrow>
          if depfile = None \<and> \<not> list_ex is_terminal_output declared then Some (caller_outputs, None) else None)"


section \<open>A restore stays on the paths it was given\<close>

text \<open>The places of one artifact: its path, its temporary, and directories missing above it.\<close>

definition place_of :: "str list \<Rightarrow> tree \<Rightarrow> str \<Rightarrow> str list \<Rightarrow> bool" where
  "place_of wd fs rel q \<longleftrightarrow>
     restorable rel \<and> (q = target_of wd rel \<or> q = tmp_name (target_of wd rel)
       \<or> (fs q = None \<and> strict_prefix q (target_of wd rel)))"

definition tree_inv :: "str list \<Rightarrow> tree \<Rightarrow> bool" where
  "tree_inv wd fs \<longleftrightarrow> tree_ok fs \<and> real_dir fs wd"

lemma restorable_names:
  assumes "restorable rel"
  shows "rel_names rel \<noteq> []" "rel_names rel = segments rel" "\<not> has_root rel"
    "\<forall>s \<in> set (rel_names rel). s \<noteq> [] \<and> s \<noteq> ''.'' \<and> s \<noteq> ''..'' \<and> map ascii_lower s \<noteq> ''.git''"
proof -
  let ?r = "strip_dot_slash rel"
  have segs: "list_all (\<lambda>seg. seg \<noteq> [] \<and> seg \<noteq> ''.'' \<and> seg \<noteq> ''..'' \<and> map ascii_lower seg \<noteq> ''.git'') (split_on CHR ''/'' ?r)"
    using assms by (simp add: restorable_def Let_def)
  then have all: "segments ?r = split_on CHR ''/'' ?r"
    by (auto simp: segments_def list_all_iff intro!: filter_True)
  have same: "segments rel = segments ?r"
    by (auto simp: strip_dot_slash_def strip_prefix_iff split: option.splits)
  show nr: "\<not> has_root rel"
  proof
    assume "has_root rel"
    then obtain t where t: "rel = CHR ''/'' # t" by (auto simp: has_root_def starts_with_iff)
    then have "?r = rel" by (auto simp: strip_dot_slash_def strip_prefix_iff split: option.splits)
    then have "[] \<in> set (split_on CHR ''/'' ?r)" using t by simp
    then show False using segs by (auto simp: list_all_iff)
  qed
  have plain: "normalize (components rel) = map Normal (segments rel)"
  proof -
    have m: "map seg_component (segments rel) = map Normal (segments rel)"
      using segs same all by (auto simp: seg_component_def list_all_iff)
    have "fold normalize_step (map Normal ws) out = out @ map Normal ws" for ws out
      by (induction ws arbitrary: out) simp_all
    then show ?thesis using nr unfolding normalize_def components_def m by simp
  qed
  have nn: "normal_names (map Normal ws) = ws" for ws by (induction ws) (simp_all add: normal_names_def)
  show eq: "rel_names rel = segments rel" by (simp add: rel_names_def plain nn)
  show "rel_names rel \<noteq> []" unfolding eq same all by simp
  show "\<forall>s \<in> set (rel_names rel). s \<noteq> [] \<and> s \<noteq> ''.'' \<and> s \<noteq> ''..'' \<and> map ascii_lower s \<noteq> ''.git''"
    unfolding eq same all using segs by (simp add: list_all_iff)
qed

lemma tmp_name_length: "q \<noteq> [] \<Longrightarrow> length (tmp_name q) = length q"
  by (simp add: tmp_name_def)

lemma real_dir_kept:
  assumes "real_dir fs wd" "\<forall>q. fs' q = fs q \<or> fs q = None \<or> length wd < length q"
  shows "real_dir fs' wd"
  unfolding real_dir_def
proof (intro allI impI)
  fix k assume "k \<le> length wd"
  moreover from this have "dir_at fs (take k wd)" using assms(1) by (simp add: real_dir_def)
  ultimately show "dir_at fs' (take k wd)"
    using assms(2)[rule_format, of "take k wd"] by (auto simp: dir_at_def kind_at_def node_at_def split: if_splits)
qed

lemma no_link_real:
  "(\<forall>k. 0 < k \<and> k \<le> length d \<longrightarrow> dir_at fs (cur @ take k d)) \<Longrightarrow>
     no_link_on_the_way fs cur (d @ ss) = no_link_on_the_way fs (cur @ d) ss"
proof (induction d arbitrary: cur)
  case (Cons s d)
  have "dir_at fs (cur @ [s])" using Cons.prems by (auto dest: spec[of _ 1])
  moreover have "\<forall>k. 0 < k \<and> k \<le> length d \<longrightarrow> dir_at fs ((cur @ [s]) @ take k d)"
    using Cons.prems by (auto dest: spec[of _ "Suc _"])
  ultimately show ?case using Cons.IH[of "cur @ [s]"] by (simp add: dir_at_def)
qed simp

lemma no_link_from_root:
  "real_dir fs wd \<Longrightarrow> no_link_on_the_way fs [] (wd @ ss) = no_link_on_the_way fs wd ss"
  using no_link_real[of wd fs "[]" ss] by (simp add: real_dir_def)

lemma dirs_above:
  assumes "create_dir_all stamp fs [] p = (made, fs')" "no_link_on_the_way fs wd names" "tree_inv wd fs"
    and p: "p = wd @ names"
  shows "tree_inv wd fs' \<and> (\<forall>q. fs' q = fs q \<or> (fs q = None \<and> dir_at fs' q \<and> prefix q p))
    \<and> (made \<longrightarrow> dir_at fs' p)"
proof -
  have inv: "tree_ok fs" "real_dir fs wd" using assms(3) by (simp_all add: tree_inv_def)
  have nl: "no_link_on_the_way fs [] p" using no_link_from_root[OF inv(2)] assms(2) p by simp
  have "dir_at fs []" by (simp add: dir_at_def kind_at_def node_at_def root_node_def)
  note c = create_dirs[OF assms(1) nl inv(1) this]
  have eff: "\<forall>q. fs' q = fs q \<or> (fs q = None \<and> dir_at fs' q \<and> prefix q p)"
    using c by (metis append_Nil take_is_prefix)
  then have "real_dir fs' wd" using real_dir_kept[OF inv(2), of fs'] by blast
  moreover have "made \<longrightarrow> dir_at fs' p" using c by (metis append_Nil order_refl take_all)
  ultimately show ?thesis using c eff by (simp add: tree_inv_def)
qed

lemma set_mode_at: "set_mode fs q m p = (if p = q then map_option (\<lambda>n. n\<lparr>node_mode := m\<rparr>) (fs q) else fs p)"
  by (simp add: set_mode_def split: option.split)

lemma remove_file_at: "remove_file fs q p = fs p \<or> p = q"
  by (simp add: remove_file_def)

lemma restore_file_confined:
  assumes "restore_file xxh3 stamp body meta expected fs q = (ok, fs')" "tree_inv wd fs" "dir_at fs (butlast q)"
    and len: "length wd < length q"
  shows "tree_inv wd fs' \<and> (\<forall>p. fs' p = fs p \<or> p = q \<or> p = tmp_name q)"
proof -
  have ne: "q \<noteq> []" using len by auto
  let ?r = "remove_file fs (tmp_name q)"
  have bl: "butlast q \<noteq> tmp_name q" using tmp_name_length[OF ne] ne by (metis length_butlast length_greater_0_conv diff_less less_irrefl zero_less_one)
  have keeps: "\<forall>p. ?r p = fs p \<or> p = tmp_name q" using remove_file_at by blast
  have "dir_at ?r (butlast q)"
    using assms(3) keeps[rule_format, of "butlast q"] bl by (auto simp: dir_at_def kind_at_def node_at_def)
  moreover have "tree_ok ?r" using assms(2) by (simp add: tree_inv_def tree_ok_remove_file)
  moreover have rd: "real_dir fs'' wd" if "\<forall>p. fs'' p = fs p \<or> p = q \<or> p = tmp_name q" for fs''
  proof (rule real_dir_kept[of fs], use assms(2) in \<open>simp add: tree_inv_def\<close>, intro allI)
    fix p
    show "fs'' p = fs p \<or> fs p = None \<or> length wd < length p"
      using that[rule_format, of p] len tmp_name_length[OF ne] by (elim disjE) simp_all
  qed
  moreover have "fs' = ?r \<or> (\<exists>bytes. \<not> dir_at ?r q \<and> fs' = set_mode (write_file stamp ?r q bytes) q (am_mode meta))"
    using assms(1) by (auto simp: restore_file_def Let_def split: if_splits option.splits)
  ultimately have "tree_ok fs' \<and> (\<forall>p. fs' p = fs p \<or> p = q \<or> p = tmp_name q)"
    using keeps ne by (auto simp: write_file_def set_mode_at split: if_splits intro!: tree_ok_set_mode tree_ok_insert)
  then show ?thesis using rd by (simp add: tree_inv_def)
qed


lemma no_link_last:
  assumes "no_link_on_the_way fs cur (butlast ss)" "\<not> link_at fs (cur @ ss)"
  shows "no_link_on_the_way fs cur ss"
  using assms
proof (induction ss arbitrary: cur)
  case (Cons s ss)
  show ?case
  proof (cases "ss = []")
    case True
    then show ?thesis using Cons.prems(2) by (auto simp: link_at_def split: option.splits fs_kind.splits)
  next
    case False
    have "no_link_on_the_way fs (cur @ [s]) (butlast ss) \<Longrightarrow> no_link_on_the_way fs (cur @ [s]) ss"
      using Cons.prems(2) by (intro Cons.IH) simp_all
    then show ?thesis using Cons.prems(1) False by (simp split: option.splits fs_kind.splits)
  qed
qed simp

lemma prefix_butlast_strict:
  assumes "prefix p (butlast q)" "q \<noteq> []"
  shows "strict_prefix p q"
proof -
  have "length p < length q" using prefix_length_le[OF assms(1)] assms(2)
    by (metis length_butlast length_greater_0_conv diff_less le_less_trans zero_less_one)
  moreover have "prefix p q" using assms(1) prefixeq_butlast prefix_order.trans by blast
  ultimately show ?thesis by (auto simp: strict_prefix_def)
qed

lemma restore_one_confined:
  assumes run: "restore_one xxh3 stamp glob backend wd declared key rel expected fs = (ok, fs')"
    and inv: "tree_inv wd fs"
  shows "tree_inv wd fs' \<and> (\<forall>q. fs' q = fs q \<or> place_of wd fs rel q)"
proof (cases "restorable rel \<and> no_link_on_the_way fs wd (butlast (rel_names rel)) \<and> get_with_meta backend key \<noteq> None")
  case False
  then have "fs' = fs" using run by (auto simp: restore_one_def Let_def split: if_splits option.splits)
  then show ?thesis using inv by simp
next
  case True
  let ?q = "target_of wd rel" and ?names = "rel_names rel"
  have res: "restorable rel" and nl: "no_link_on_the_way fs wd (butlast ?names)" using True by simp_all
  have ne: "?names \<noteq> []" by (rule restorable_names(1)[OF res])
  have len: "length wd < length ?q" and bl: "butlast ?q = wd @ butlast ?names"
    using ne by (simp_all add: target_of_def butlast_append)
  obtain body meta where got: "get_with_meta backend key = Some (body, meta)" using True by auto
  obtain made fs1 where mk: "create_dir_all stamp fs [] (butlast ?q) = (made, fs1)" by fastforce
  note up = dirs_above[OF mk nl inv bl]
  have above: "\<forall>p. fs1 p = fs p \<or> (fs p = None \<and> strict_prefix p ?q)"
    using up prefix_butlast_strict[of _ ?q] len by fastforce
  have fin: "tree_inv wd fs' \<and> (\<forall>q. fs' q = fs q \<or> place_of wd fs rel q)"
    if "tree_inv wd fs'" "\<forall>p. fs' p = fs1 p \<or> p = ?q \<or> p = tmp_name ?q \<or> (fs1 p = None \<and> strict_prefix p ?q)"
  proof (intro conjI allI that(1))
    fix p show "fs' p = fs p \<or> place_of wd fs rel p"
      using that(2)[rule_format, of p] above[rule_format, of p] res by (auto simp: place_of_def)
  qed
  show ?thesis
  proof (cases "made \<and> no_link_on_the_way fs1 wd (butlast ?names)")
    case False
    then have "fs' = fs1" using run True got mk ne
      by (auto simp: restore_one_def Let_def split: if_splits)
    then show ?thesis using up by (intro fin) simp_all
  next
    case t1: True
    have dir1: "dir_at fs1 (butlast ?q)" and inv1: "tree_inv wd fs1" using up t1 by simp_all
    have step: "restore_one xxh3 stamp glob backend wd declared key rel expected fs =
       (if am_kind meta = Some kind_dir then
          (if link_at fs1 ?q then (False, fs1)
           else (let (made, fs) = create_dir_all stamp fs1 [] ?q in
                 if made then (True, set_mode fs ?q (am_mode meta)) else (False, fs)))
        else if am_kind meta = Some kind_symlink then
          (case am_target meta of
             None \<Rightarrow> (False, fs1)
           | Some target \<Rightarrow>
               if link_lands glob declared wd fs1 ?q target \<and> node_at fs1 ?q = None
               then (True, fs1(?q \<mapsto> new_node stamp ?q (LinkNode target)))
               else (False, fs1))
        else restore_file xxh3 stamp body meta expected fs1 ?q)"
      using mk t1 res nl got ne by (simp add: restore_one_def Let_def)
    note run' = run[unfolded step]
    show ?thesis
    proof (cases "am_kind meta = Some kind_dir \<and> \<not> link_at fs1 ?q")
      case True
      obtain made2 fs2 where mk2: "create_dir_all stamp fs1 [] ?q = (made2, fs2)" by fastforce
      have fs': "fs' = (if made2 then set_mode fs2 ?q (am_mode meta) else fs2)"
        using run' True mk2 by (simp split: if_splits)
      have nq: "no_link_on_the_way fs1 wd ?names"
        using no_link_last[OF conjunct2[OF t1]] True by (simp add: target_of_def)
      note d = dirs_above[OF mk2 nq inv1 target_of_def]
      have eff: "\<forall>p. fs2 p = fs1 p \<or> p = ?q \<or> (fs1 p = None \<and> strict_prefix p ?q)"
        using d by (auto simp: strict_prefix_def)
      have "tree_inv wd fs'"
        using d fs' len
        by (auto simp: tree_inv_def set_mode_at split: if_splits intro!: tree_ok_set_mode real_dir_kept[of fs2])
      then show ?thesis using eff fs' by (intro fin) (auto simp: set_mode_at)
    next
      case not_dir: False
      show ?thesis
      proof (cases "am_kind meta = Some kind_dir \<or> am_kind meta = Some kind_symlink")
        case False
        then have "restore_file xxh3 stamp body meta expected fs1 ?q = (ok, fs')" using run' by simp
        from restore_file_confined[OF this inv1 dir1 len] show ?thesis by (intro fin) blast+
      next
        case True
        have "fs' = fs1 \<or> (\<exists>t. node_at fs1 ?q = None \<and> fs' = fs1(?q \<mapsto> new_node stamp ?q (LinkNode t)))"
          using run' True not_dir by (cases "am_target meta") (simp_all split: if_splits, metis+)
        then show ?thesis
        proof (elim disjE exE conjE)
          assume "fs' = fs1"
          then show ?thesis using inv1 by (intro fin) simp_all
        next
          fix t assume none: "node_at fs1 ?q = None" and fs': "fs' = fs1(?q \<mapsto> new_node stamp ?q (LinkNode t))"
          have "tree_ok fs'" using inv1 dir1 len none fs'
            by (auto simp: tree_inv_def dir_at_def kind_at_def intro!: tree_ok_insert)
          moreover have "real_dir fs' wd"
            using inv1 len fs' by (auto simp: tree_inv_def split: if_splits intro!: real_dir_kept[of fs1])
          ultimately show ?thesis using fs' by (intro fin) (auto simp: tree_inv_def)
        qed
      qed
    qed
  qed
qed


text \<open>
  Both passes run a step over a list. What a step keeps of the tree, and where it may change it,
  carries over to the passes: a step changes only its own places, where a place may depend on what
  stands there.
\<close>

locale restore_step =
  fixes step :: "'i \<Rightarrow> tree \<Rightarrow> bool \<times> tree"
    and inv :: "tree \<Rightarrow> bool"
    and place :: "'i \<Rightarrow> fs_node option \<Rightarrow> str list \<Rightarrow> bool"
  assumes step_confined: "step i fs = (ok, fs') \<Longrightarrow> inv fs \<Longrightarrow> inv fs' \<and> (\<forall>q. fs' q = fs q \<or> place i (fs q) q)"
begin

lemma first_pass_confined:
  "first_pass step is fs = (pending, fs') \<Longrightarrow> inv fs \<Longrightarrow>
     inv fs' \<and> set pending \<subseteq> set is \<and> (\<forall>q. fs' q = fs q \<or> (\<exists>i \<in> set is. place i (fs q) q))"
proof (induction "is" arbitrary: fs pending)
  case (Cons i "is")
  obtain ok fs1 where one: "step i fs = (ok, fs1)" by fastforce
  obtain pend where rest: "first_pass step is fs1 = (pend, fs')" "set pending \<subseteq> insert i (set pend)"
    using Cons.prems(1) one by (auto simp: Let_def split: prod.splits if_splits)
  have inv1: "inv fs1" using step_confined[OF one Cons.prems(2)] by blast
  note ih = Cons.IH[OF rest(1) inv1]
  show ?case
  proof (intro conjI allI)
    show "inv fs'" using ih by blast
    show "set pending \<subseteq> set (i # is)" using ih rest(2) by auto
    fix q show "fs' q = fs q \<or> (\<exists>j \<in> set (i # is). place j (fs q) q)"
      using conjunct2[OF step_confined[OF one Cons.prems(2)], rule_format, of q]
        conjunct2[OF conjunct2[OF ih], rule_format, of q] by auto
  qed
qed simp

lemma second_pass_confined:
  "second_pass step is fs = (ok, fs') \<Longrightarrow> inv fs \<Longrightarrow>
     inv fs' \<and> (\<forall>q. fs' q = fs q \<or> (\<exists>i \<in> set is. place i (fs q) q))"
proof (induction "is" arbitrary: fs)
  case (Cons i "is")
  obtain ok1 fs1 where one: "step i fs = (ok1, fs1)" by fastforce
  have inv1: "inv fs1" using step_confined[OF one Cons.prems(2)] by blast
  show ?case
  proof (cases ok1)
    case True
    have ih: "inv fs' \<and> (\<forall>q. fs' q = fs1 q \<or> (\<exists>i \<in> set is. place i (fs1 q) q))"
      using Cons.prems(1) one True inv1 by (intro Cons.IH) simp_all
    then show ?thesis
      using conjunct2[OF step_confined[OF one Cons.prems(2)]] by (metis list.set_intros(1,2))
  next
    case False
    then have "fs' = fs1" using Cons.prems(1) one by simp
    then show ?thesis using step_confined[OF one Cons.prems(2)] by auto
  qed
qed simp

text \<open>What a step puts in a place stays there through the passes when it is in the place of no other step.\<close>

lemma first_pass_stays:
  assumes "first_pass step is fs = (pending, fs')" and "inv fs" and "i \<in> set is" and "i \<notin> set pending" and "distinct is"
    and good: "\<And>ts ts'. inv ts \<Longrightarrow> step i ts = (True, ts') \<Longrightarrow> good (ts' q)"
    and apart: "\<And>j n. j \<in> set is \<Longrightarrow> j \<noteq> i \<Longrightarrow> good n \<Longrightarrow> \<not> place j n q"
  shows "good (fs' q)"
  using assms(1-5) apart
proof (induction "is" arbitrary: fs pending)
  case (Cons j "is")
  obtain ok fs1 where one: "step j fs = (ok, fs1)" by fastforce
  obtain pend where rest: "first_pass step is fs1 = (pend, fs')" "pending = (if ok then pend else j # pend)"
    using Cons.prems(1) one by (auto simp: Let_def split: prod.splits)
  have inv1: "inv fs1" using step_confined[OF one Cons.prems(2)] by blast
  show ?case
  proof (cases "j = i")
    case True
    then have "good (fs1 q)" using good one Cons.prems(2,4) rest(2) by (cases ok) auto
    moreover have "fs' q = fs1 q \<or> (\<exists>k \<in> set is. place k (fs1 q) q)" using first_pass_confined[OF rest(1) inv1] by blast
    ultimately show ?thesis using Cons.prems(5,6) True by (metis distinct.simps(2) list.set_intros(2))
  next
    case False
    show ?thesis
      by (rule Cons.IH[OF rest(1) inv1]) (use Cons.prems(3-6) rest(2) False in \<open>auto split: if_splits\<close>)
  qed
qed simp

lemma second_pass_stays:
  assumes "second_pass step is fs = (True, fs')" and "inv fs" and "i \<in> set is" and "distinct is"
    and good: "\<And>ts ts'. inv ts \<Longrightarrow> step i ts = (True, ts') \<Longrightarrow> good (ts' q)"
    and apart: "\<And>j n. j \<in> set is \<Longrightarrow> j \<noteq> i \<Longrightarrow> good n \<Longrightarrow> \<not> place j n q"
  shows "good (fs' q)"
  using assms(1-4) apart
proof (induction "is" arbitrary: fs)
  case (Cons j "is")
  obtain ok fs1 where one: "step j fs = (ok, fs1)" by fastforce
  have ok: "ok" and rest: "second_pass step is fs1 = (True, fs')" using Cons.prems(1) one by (auto split: if_splits)
  have inv1: "inv fs1" using step_confined[OF one Cons.prems(2)] by blast
  show ?case
  proof (cases "j = i")
    case True
    then have "good (fs1 q)" using good one ok Cons.prems(2) by simp
    moreover have "fs' q = fs1 q \<or> (\<exists>k \<in> set is. place k (fs1 q) q)" using second_pass_confined[OF rest inv1] by blast
    ultimately show ?thesis using Cons.prems(4,5) True by (metis distinct.simps(2) list.set_intros(2))
  next
    case False
    show ?thesis by (rule Cons.IH[OF rest inv1]) (use Cons.prems(3-5) False in auto)
  qed
qed simp

lemma first_pass_distinct: "first_pass step is fs = (pending, fs') \<Longrightarrow> inv fs \<Longrightarrow> distinct is \<Longrightarrow> distinct pending"
proof (induction "is" arbitrary: fs pending)
  case (Cons j "is")
  obtain ok fs1 where one: "step j fs = (ok, fs1)" by fastforce
  obtain pend where rest: "first_pass step is fs1 = (pend, fs')" "pending = (if ok then pend else j # pend)"
    using Cons.prems(1) one by (auto simp: Let_def split: prod.splits)
  have inv1: "inv fs1" using step_confined[OF one Cons.prems(2)] by blast
  have "set pend \<subseteq> set is" using first_pass_confined[OF rest(1) inv1] by blast
  then show ?case using Cons.IH[OF rest(1) inv1] Cons.prems(3) rest(2) by auto
qed simp

lemma passes_stay:
  assumes p1: "first_pass step is fs = (pending, fs1)" and p2: "second_pass step pending fs1 = (True, fs2)"
    and "inv fs" and "i \<in> set is" and "distinct is"
    and good: "\<And>ts ts'. inv ts \<Longrightarrow> step i ts = (True, ts') \<Longrightarrow> good (ts' q)"
    and apart: "\<And>j n. j \<in> set is \<Longrightarrow> j \<noteq> i \<Longrightarrow> good n \<Longrightarrow> \<not> place j n q"
  shows "good (fs2 q)"
proof -
  note c1 = first_pass_confined[OF p1 assms(3)]
  have inv1: "inv fs1" and sub: "set pending \<subseteq> set is" using c1 by blast+
  show ?thesis
  proof (cases "i \<in> set pending")
    case True
    then show ?thesis
      using second_pass_stays[OF p2 inv1 True first_pass_distinct[OF p1 assms(3,5)], of good q] good apart sub by blast
  next
    case False
    have "good (fs1 q)" by (rule first_pass_stays[OF p1 assms(3,4) False assms(5)]) (use good apart in blast)+
    moreover have "fs2 q = fs1 q \<or> (\<exists>j \<in> set pending. place j (fs1 q) q)" using second_pass_confined[OF p2 inv1] by blast
    ultimately show ?thesis using apart sub False by (metis subsetD)
  qed
qed

end

text \<open>An artifact of a list of paths: its index and its path.\<close>

definition place_in :: "str list \<Rightarrow> 'i \<times> str \<Rightarrow> fs_node option \<Rightarrow> str list \<Rightarrow> bool" where
  "place_in wd ip node q \<longleftrightarrow> place_of wd (\<lambda>_. node) (snd ip) q"

interpretation restoring: restore_step "restore_index ctx cloud_k wd expected" "tree_inv wd" "place_in wd"
    for ctx cloud_k wd expected
proof unfold_locales
  fix i fs ok fs' assume "restore_index ctx cloud_k wd expected i fs = (ok, fs')" "tree_inv wd fs"
  from restore_one_confined[OF this(1)[unfolded restore_index_def] this(2)]
  show "tree_inv wd fs' \<and> (\<forall>q. fs' q = fs q \<or> place_in wd i (fs q) q)"
    by (simp add: place_in_def place_of_def)
qed

lemma sweep_confined:
  "restored_links_reach_files wd rels fs = (ok, fs') \<Longrightarrow> tree_inv wd fs \<Longrightarrow>
     tree_inv wd fs' \<and> (\<forall>q. fs' q = fs q \<or> (link_at fs q \<and> fs' q = None))"
proof (induction rels arbitrary: fs ok)
  case (Cons rel rels)
  have one: "tree_inv wd (remove_file fs q) \<and> (\<forall>p. remove_file fs q p = fs p \<or> (p = q \<and> link_at fs p \<and> remove_file fs q p = None))"
    if "link_at fs q" for q
  proof -
    have nd: "\<not> dir_at fs q" "q \<noteq> []"
      using that by (auto simp: dir_at_def link_at_def kind_at_def node_at_def root_node_def)
    have "dir_at (remove_file fs q) p" if "dir_at fs p" for p
      using that nd by (auto simp: remove_file_def dir_at_def kind_at_def node_at_def)
    then have "real_dir (remove_file fs q) wd" using Cons.prems(2) by (auto simp: tree_inv_def real_dir_def)
    then show ?thesis using Cons.prems(2) nd that
      by (auto simp: tree_inv_def tree_ok_remove_file) (auto simp: remove_file_def split: if_splits)
  qed
  show ?case
  proof (cases "\<exists>q. restorable rel \<and> entry_of fs wd (rel_names rel) = Some q \<and> link_at fs q \<and> \<not> reaches_file fs wd (rel_names rel)")
    case True
    then obtain q where q: "restorable rel" "entry_of fs wd (rel_names rel) = Some q" "link_at fs q"
      "\<not> reaches_file fs wd (rel_names rel)" by blast
    then obtain ok1 where rest: "restored_links_reach_files wd rels (remove_file fs q) = (ok1, fs')"
      using Cons.prems(1) by (auto split: prod.splits)
    note rm = one[OF q(3)] and ih = Cons.IH[OF rest conjunct1[OF one[OF q(3)]]]
    show ?thesis
    proof (intro conjI allI)
      show "tree_inv wd fs'" using ih by blast
      fix p show "fs' p = fs p \<or> (link_at fs p \<and> fs' p = None)"
        using conjunct2[OF ih, rule_format, of p] conjunct2[OF rm, rule_format, of p]
        by (auto simp: link_at_def kind_at_def node_at_def split: if_splits)
    qed
  next
    case False
    then have "restored_links_reach_files wd rels fs = (ok, fs')"
      using Cons.prems(1) by (auto split: if_splits option.splits)
    then show ?thesis using Cons by blast
  qed
qed simp


lemma first_pass_done: "first_pass f is fs = (pending, fs') \<Longrightarrow> i \<in> set is \<Longrightarrow> i \<in> set pending \<or> (\<exists>fs fs'. f i fs = (True, fs'))"
proof (induction "is" arbitrary: fs pending)
  case (Cons j "is")
  obtain ok fs1 where one: "f j fs = (ok, fs1)" by fastforce
  obtain pend where rest: "first_pass f is fs1 = (pend, fs')" "pending = (if ok then pend else j # pend)"
    using Cons.prems(1) one by (auto simp: Let_def split: prod.splits)
  show ?case using Cons.IH[OF rest(1)] Cons.prems(2) rest(2) one by (cases ok) auto
qed simp

lemma second_pass_done: "second_pass f is fs = (True, fs') \<Longrightarrow> i \<in> set is \<Longrightarrow> \<exists>fs fs'. f i fs = (True, fs')"
  by (induction "is" arbitrary: fs) (auto split: prod.splits if_splits)

lemma sweep_ok:
  "restored_links_reach_files wd rels fs = (True, fs') \<Longrightarrow>
     fs' = fs \<and> (\<forall>rel \<in> set rels. restorable rel \<longrightarrow>
       (\<forall>q. entry_of fs wd (rel_names rel) = Some q \<and> link_at fs q \<longrightarrow> reaches_file fs wd (rel_names rel)))"
proof (induction rels arbitrary: fs)
  case (Cons rel rels)
  have "restored_links_reach_files wd rels fs = (True, fs')
    \<and> (restorable rel \<longrightarrow> (\<forall>q. entry_of fs wd (rel_names rel) = Some q \<and> link_at fs q \<longrightarrow> reaches_file fs wd (rel_names rel)))"
    using Cons.prems by (auto split: if_splits option.splits prod.splits)
  then show ?case using Cons.IH[of fs] by auto
qed simp

lemma restored_restorable: "restore_index ctx cloud_k wd expected i ts = (True, ts') \<Longrightarrow> restorable (snd i)"
  by (auto simp: restore_index_def restore_one_def split: if_splits)

text \<open>An artifact that is no directory and no link was written as a file with the expected hash.\<close>

definition pinned_at :: "restore_ctx \<Rightarrow> str \<Rightarrow> str list \<Rightarrow> nat \<times> str \<Rightarrow> u64 \<Rightarrow> tree \<Rightarrow> bool" where
  "pinned_at ctx cloud_k wd i h ts \<longleftrightarrow>
     (\<exists>body meta. get_with_meta (rc_backend ctx) (artifact_key (rc_sha256 ctx) cloud_k (word_of_nat (fst i)) (snd i)) = Some (body, meta)
        \<and> (am_kind meta = Some kind_dir \<or> am_kind meta = Some kind_symlink
           \<or> (\<exists>bytes. body = Some bytes \<and> rc_xxh3 ctx bytes = h
                \<and> kind_at ts (target_of wd (snd i)) = Some (FileNode (Some bytes)))))"

lemma restored_pinned:
  assumes ran: "restore_index ctx cloud_k wd expected i ts = (True, ts')" and pin: "expected (fst i) = Some h"
  shows "pinned_at ctx cloud_k wd i h ts'"
proof -
  let ?q = "target_of wd (snd i)"
  obtain body meta where got: "get_with_meta (rc_backend ctx) (artifact_key (rc_sha256 ctx) cloud_k (word_of_nat (fst i)) (snd i)) = Some (body, meta)"
    using ran by (auto simp: restore_index_def restore_one_def Let_def split: if_splits option.splits)
  show ?thesis
  proof (cases "am_kind meta = Some kind_dir \<or> am_kind meta = Some kind_symlink")
    case True
    then show ?thesis using got unfolding pinned_at_def by blast
  next
    case False
    then obtain fs1 where last: "restore_file (rc_xxh3 ctx) (rc_stamp ctx) body meta (Some h) fs1 ?q = (True, ts')"
      using ran pin got by (auto simp: restore_index_def restore_one_def Let_def split: if_splits prod.splits)
    then obtain bytes where "body = Some bytes" "rc_xxh3 ctx bytes = h" "\<not> dir_at (remove_file fs1 (tmp_name ?q)) ?q"
      "ts' = set_mode (write_file (rc_stamp ctx) (remove_file fs1 (tmp_name ?q)) ?q bytes) ?q (am_mode meta)"
      by (auto simp: restore_file_def Let_def split: if_splits option.splits)
    moreover from this(3) have "?q \<noteq> []" by (auto simp: dir_at_def kind_at_def node_at_def root_node_def)
    ultimately show ?thesis using got unfolding pinned_at_def
      by (auto simp: kind_at_def node_at_def set_mode_at write_file_def)
  qed
qed

lemma two_pass_confined:
  assumes run: "two_pass (restore_index ctx cloud_k wd expected) snd wd is fs = (ok, fs')" and inv: "tree_inv wd fs"
  shows "tree_inv wd fs'"
    and "\<forall>q. fs' q = fs q \<or> (\<exists>rel \<in> snd ` set is. place_of wd fs rel q) \<or> (link_at fs q \<and> fs' q = None)"
    and "ok \<Longrightarrow> i \<in> set is \<Longrightarrow> \<exists>ts ts'. restore_index ctx cloud_k wd expected i ts = (True, ts')"
    and "ok \<Longrightarrow> \<forall>rel \<in> snd ` set is. restorable rel
        \<and> (\<forall>q. entry_of fs' wd (rel_names rel) = Some q \<and> link_at fs' q \<longrightarrow> reaches_file fs' wd (rel_names rel))"
proof -
  let ?f = "restore_index ctx cloud_k wd expected"
  obtain pending fs1 where p1: "first_pass ?f is fs = (pending, fs1)" by fastforce
  obtain ok2 fs2 where p2: "second_pass ?f pending fs1 = (ok2, fs2)" by fastforce
  obtain ok3 fs3 where p3: "restored_links_reach_files wd (map snd is) fs2 = (ok3, fs3)" by fastforce
  have res: "ok = (ok2 \<and> ok3)" "fs' = fs3" using run p1 p2 p3 by (simp_all add: two_pass_def)
  note c1 = restoring.first_pass_confined[OF p1 inv]
  note c2 = restoring.second_pass_confined[OF p2 conjunct1[OF c1]]
  note c3 = sweep_confined[OF p3 conjunct1[OF c2]]
  have place: "place_in wd i (f q) q \<Longrightarrow> f q = fs q \<Longrightarrow> place_of wd fs (snd i) q" for i :: "nat \<times> str" and q and f :: tree
    by (simp add: place_in_def place_of_def)
  show "tree_inv wd fs'" using c3 res by blast
  show "\<forall>q. fs' q = fs q \<or> (\<exists>rel \<in> snd ` set is. place_of wd fs rel q) \<or> (link_at fs q \<and> fs' q = None)"
  proof
    fix q
    have "fs2 q = fs q \<or> (\<exists>rel \<in> snd ` set is. place_of wd fs rel q)"
    proof (cases "fs1 q = fs q")
      case True
      then show ?thesis using conjunct2[OF c2, rule_format, of q] c1 place[of _ fs1 q] by (metis imageI subsetD)
    next
      case False
      then show ?thesis using conjunct2[OF conjunct2[OF c1], rule_format, of q] place[of _ fs q] by blast
    qed
    then show "fs' q = fs q \<or> (\<exists>rel \<in> snd ` set is. place_of wd fs rel q) \<or> (link_at fs q \<and> fs' q = None)"
      using conjunct2[OF c3, rule_format, of q] res
      by (auto simp: link_at_def kind_at_def node_at_def split: if_splits)
  qed
  have ran: "\<exists>ts ts'. ?f i ts = (True, ts')" if "ok" "i \<in> set is" for i
    using first_pass_done[OF p1 that(2)] second_pass_done[of ?f pending fs1 fs2 i] p2 that(1) res by auto
  then show "ok \<Longrightarrow> i \<in> set is \<Longrightarrow> \<exists>ts ts'. ?f i ts = (True, ts')" .
  assume ok
  have "restorable rel" if "rel \<in> snd ` set is" for rel
    using that ran[OF \<open>ok\<close>] restored_restorable by blast
  then show "\<forall>rel \<in> snd ` set is. restorable rel
        \<and> (\<forall>q. entry_of fs' wd (rel_names rel) = Some q \<and> link_at fs' q \<longrightarrow> reaches_file fs' wd (rel_names rel))"
    using sweep_ok[of wd "map snd is" fs2 fs3] p3 \<open>ok\<close> res by auto
qed

text \<open>
  An artifact stays as it was restored to the end of the two passes, unless another of the list has its
  path, or is restored through a temporary of its path.
\<close>

definition stands_apart :: "str list \<Rightarrow> (nat \<times> str) list \<Rightarrow> nat \<times> str \<Rightarrow> bool" where
  "stands_apart wd is i \<longleftrightarrow>
     (\<forall>j \<in> set is. j \<noteq> i \<longrightarrow> target_of wd (snd i) \<noteq> target_of wd (snd j) \<and> target_of wd (snd i) \<noteq> tmp_name (target_of wd (snd j)))"

lemma two_pass_pinned:
  assumes run: "two_pass (restore_index ctx cloud_k wd expected) snd wd is fs = (True, fs')" and inv: "tree_inv wd fs"
    and i: "i \<in> set is" and d: "distinct is" and pin: "expected (fst i) = Some h" and apart: "stands_apart wd is i"
  shows "pinned_at ctx cloud_k wd i h fs'"
proof -
  let ?f = "restore_index ctx cloud_k wd expected" and ?q = "target_of wd (snd i)"
  obtain pending fs1 where p1: "first_pass ?f is fs = (pending, fs1)" by fastforce
  obtain ok2 fs2 where p2: "second_pass ?f pending fs1 = (ok2, fs2)" by fastforce
  obtain ok3 fs3 where p3: "restored_links_reach_files wd (map snd is) fs2 = (ok3, fs3)" by fastforce
  have ok: "ok2" "ok3" and "fs' = fs3" using run p1 p2 p3 by (simp_all add: two_pass_def)
  then have end_: "fs' = fs2" using sweep_ok[of wd "map snd is" fs2 fs3] p3 by simp
  obtain ts ts' where "?f i ts = (True, ts')" using two_pass_confined(3)[OF run inv _ i] by blast
  from restored_pinned[where expected = expected, OF this pin]
  obtain body meta where got: "get_with_meta (rc_backend ctx) (artifact_key (rc_sha256 ctx) cloud_k (word_of_nat (fst i)) (snd i)) = Some (body, meta)"
    unfolding pinned_at_def by blast
  show ?thesis
  proof (cases "am_kind meta = Some kind_dir \<or> am_kind meta = Some kind_symlink")
    case True
    then show ?thesis using got unfolding pinned_at_def by blast
  next
    case False
    define good where "good (n :: fs_node option) \<longleftrightarrow>
      (\<exists>node bytes. n = Some node \<and> node_kind node = FileNode (Some bytes) \<and> body = Some bytes \<and> rc_xxh3 ctx bytes = h) \<and> ?q \<noteq> []"
      for n
    have placed: "good (ts' ?q)" if "?f i ts = (True, ts')" for ts ts'
      using restored_pinned[where expected = expected, OF that pin] restored_restorable[OF that] got False
      unfolding pinned_at_def good_def
      by (auto simp: kind_at_def node_at_def target_of_def dest: restorable_names(1) split: if_splits)
    have others: "\<not> place_in wd j n ?q" if "j \<in> set is" "j \<noteq> i" "good n" for j n
      using that apart by (auto simp: place_in_def place_of_def good_def stands_apart_def)
    have "good (fs2 ?q)"
      using p2 ok placed others by (intro restoring.passes_stay[OF p1 _ inv i d, of fs2 good ?q]) simp_all
    then show ?thesis using got unfolding end_ pinned_at_def good_def by (auto simp: kind_at_def node_at_def)
  qed
qed

text \<open>
  C9: Restoring from a store stays where it was told to, whatever the store holds. From a tree in
  which the working directory is reached without a link, a restore of a list of outputs changes the
  tree only at the paths of that list that are plain names inside the working directory (no
  parent, no absolute path, no \<open>.git\<close>), at the temporary beside each, at directories missing above
  them, and by removing symbolic links; and when it reports success every path of the list was such a
  path and every link at one of them reaches a regular file.
\<close>

theorem restore_confined:
  assumes run: "restore_all ctx cloud_k wd paths fs = (ok, fs')" and inv: "tree_inv wd fs"
  shows "tree_inv wd fs'
    \<and> (\<forall>q. fs' q = fs q \<or> (\<exists>rel \<in> set paths. place_of wd fs rel q) \<or> (link_at fs q \<and> fs' q = None))
    \<and> (ok \<longrightarrow> (\<forall>rel \<in> set paths. restorable rel
        \<and> (\<forall>q. entry_of fs' wd (rel_names rel) = Some q \<and> link_at fs' q \<longrightarrow> reaches_file fs' wd (rel_names rel))))"
proof -
  have paths: "snd ` set (enumerate 0 paths) = set paths" by (simp flip: set_map)
  note two = two_pass_confined[OF run[unfolded restore_all_def] inv, unfolded paths]
  show ?thesis using two(1,2,4) by blast
qed


section \<open>Concrete restores\<close>

definition plain_dir :: fs_node where
  "plain_dir = \<lparr>node_kind = DirNode, node_mode = 0, node_mtime = 0, node_identity = None\<rparr>"

definition sample_meta :: artifact_meta where
  "sample_meta = \<lparr>am_recipe_namespace = [], am_command_hash = 0, am_env_contribution = 0, am_seal_contribution = 0,
     am_schema_version = 12, am_size_bytes = 0, am_tags = [], am_consulted_env_keys = [], am_output_index = 0,
     am_output_path = [], am_content_hash = [], am_kind = None, am_mode = 420, am_target = None\<rparr>"

definition sample_ctx :: "(str \<times> str) list \<Rightarrow> restore_ctx" where
  "sample_ctx stored = \<lparr>
     rc_backend = \<lparr>get_with_meta = (\<lambda>k. case List.find (\<lambda>e. ends_with (fst e) k) stored of
                       Some e \<Rightarrow> Some (Some (snd e), sample_meta) | None \<Rightarrow> None),
                   get_manifest = (\<lambda>_. None), get_bytes = (\<lambda>_. None)\<rparr>,
     rc_namespace = [], rc_declared = [], rc_xxh3 = (\<lambda>_. 0), rc_sha256 = (\<lambda>s. s), rc_stamp = (\<lambda>_. (0, 0, None)),
     rc_glob = (\<lambda>_. None)\<rparr>"

definition sample_tree :: tree where
  "sample_tree = [[''w''] \<mapsto> plain_dir]"

lemma sample_tree_inv: "tree_inv [''w''] sample_tree"
proof -
  have "dir_at sample_tree [''w'']" "dir_at sample_tree []" by code_simp+
  then show ?thesis
    by (auto simp: tree_inv_def tree_ok_def real_dir_def sample_tree_def le_Suc_eq split: if_splits)
qed

theorem restore_confined_witness:
  "let (ok, fs) = restore_all (sample_ctx [(''a/b.o'', ''obj'')]) [] [''w''] [''a/b.o''] sample_tree
   in ok \<and> tree_inv [''w''] fs \<and> fs [''x''] = None
     \<and> map_option node_kind (fs [''w'', ''a'', ''b.o'']) = Some (FileNode (Some ''obj''))"
proof -
  let ?r = "restore_all (sample_ctx [(''a/b.o'', ''obj'')]) [] [''w''] [''a/b.o''] sample_tree"
  have "fst ?r" "map_option node_kind (snd ?r [''w'', ''a'', ''b.o'']) = Some (FileNode (Some ''obj''))"
    "snd ?r [''x''] = None" by code_simp+
  moreover have "tree_inv [''w''] (snd ?r)"
    using restore_confined[of "sample_ctx [(''a/b.o'', ''obj'')]" "[]" "[''w'']" "[''a/b.o'']" sample_tree "fst ?r" "snd ?r",
        OF prod.collapse[symmetric] sample_tree_inv] by blast
  ultimately show ?thesis
    by (simp only: case_prod_unfold Let_def simp_thms)
qed

text \<open>
  The sweep reads a path through whatever links are on the way. A restore that fails because an
  output's directory has become a link deletes the dangling link of that name outside the working
  directory, which neither the unit nor the restore made.
\<close>

lemma sweep_leaves_the_tree:
  "let fs = [[''w''] \<mapsto> plain_dir, [''w'', ''out''] \<mapsto> plain_dir\<lparr>node_kind := LinkNode ''../ext''\<rparr>,
             [''ext''] \<mapsto> plain_dir, [''ext'', ''cfg''] \<mapsto> plain_dir\<lparr>node_kind := LinkNode ''gone''\<rparr>];
       (ok, fs') = restore_all (sample_ctx [(''out/cfg'', ''x'')]) [] [''w''] [''out/cfg''] fs
   in \<not> ok \<and> fs [''ext'', ''cfg''] \<noteq> None \<and> fs' [''ext'', ''cfg''] = None"
  by code_simp

text \<open>
  The temporary of one output can be another output: restoring the second deletes the first, and the
  restore reports success.
\<close>

lemma temporary_clash:
  "let (ok, fs') = restore_all (sample_ctx [(''a.cook.tmp'', ''1''), (''a.o'', ''2'')]) [] [''w''] [''a.cook.tmp'', ''a.o''] sample_tree
   in ok \<and> fs' [''w'', ''a.cook.tmp''] = None"
  by code_simp

end
