(* ===== verification/Stat_Memo.thy ===== *)
theory Stat_Memo
  imports Work_Tree
begin

text \<open>
  The metadata memo of a run (\<open>cook-cache/src/statmemo.rs\<close>): the observation of a file, the
  arm/disarm-gated memo that serves it, and the memo of tool digests. The memo is shared by the
  threads of a run. Its calls are split at their accesses of the shared fields, an atomic load, a
  swap, a locked lookup or insertion, and a stat of the tree, and the calls of several threads
  interleave at those points. The history of a run is the list of the trees its writes made, oldest
  first, so that what a call returns can be compared with the trees that existed while it ran.
\<close>

section \<open>Observing a file\<close>

record file_observation =
  fo_mtime :: u64
  fo_identity :: "file_identity option"

definition observe_file :: "tree \<Rightarrow> str list \<Rightarrow> str \<Rightarrow> file_observation option" where
  "observe_file fs wd rel =
     map_option (\<lambda>n. \<lparr>fo_mtime = node_mtime n, fo_identity = node_identity n\<rparr>) (metadata fs wd (components rel))"

definition stat_mtime :: "tree \<Rightarrow> str list \<Rightarrow> str \<Rightarrow> u64 option" where
  "stat_mtime fs wd rel = map_option fo_mtime (observe_file fs wd rel)"

definition matches :: "file_observation \<Rightarrow> file_record \<Rightarrow> bool" where
  "matches ob r \<longleftrightarrow> fo_identity ob \<noteq> None \<and> fo_identity ob = fr_identity r"

section \<open>The memo\<close>

record stat_memo =
  sm_armed :: bool
  sm_entries :: "str list \<times> str \<Rightarrow> file_observation option option"

definition memo_new :: stat_memo where
  "memo_new = \<lparr>sm_armed = False, sm_entries = (\<lambda>_. None)\<rparr>"

definition arm :: "stat_memo \<Rightarrow> stat_memo" where
  "arm m = m\<lparr>sm_entries := (\<lambda>_. None), sm_armed := True\<rparr>"

definition disarm :: "stat_memo \<Rightarrow> stat_memo" where
  "disarm m = (if sm_armed m then m\<lparr>sm_armed := False, sm_entries := (\<lambda>_. None)\<rparr> else m)"

text \<open>\<open>observe\<close>, run alone: the answer and the memo after it.\<close>

definition memo_observe :: "tree \<Rightarrow> str list \<Rightarrow> str \<Rightarrow> stat_memo \<Rightarrow> file_observation option \<times> stat_memo" where
  "memo_observe fs wd rel m =
     (if \<not> sm_armed m then (observe_file fs wd rel, m)
      else
        (case sm_entries m (wd, rel) of
           Some hit \<Rightarrow> (hit, m)
         | None \<Rightarrow>
             (let result = observe_file fs wd rel
              in (result, m\<lparr>sm_entries := (sm_entries m)((wd, rel) \<mapsto> result)\<rparr>))))"

definition memo_mtime :: "tree \<Rightarrow> str list \<Rightarrow> str \<Rightarrow> stat_memo \<Rightarrow> u64 option \<times> stat_memo" where
  "memo_mtime fs wd rel m = map_prod (map_option fo_mtime) id (memo_observe fs wd rel m)"

text \<open>A memo tells the truth about a tree when all it could serve is that tree's.\<close>

definition memo_true :: "tree \<Rightarrow> stat_memo \<Rightarrow> bool" where
  "memo_true fs m \<longleftrightarrow>
     (sm_armed m \<longrightarrow> (\<forall>wd rel v. sm_entries m (wd, rel) = Some v \<longrightarrow> v = observe_file fs wd rel))"

lemma memo_observe_true:
  assumes "memo_true fs m"
  shows "fst (memo_observe fs wd rel m) = observe_file fs wd rel" "memo_true fs (snd (memo_observe fs wd rel m))"
  using assms by (auto simp: memo_observe_def memo_true_def Let_def split: option.splits)

lemma memo_new_true: "memo_true fs memo_new" by (simp add: memo_true_def memo_new_def)

lemma arm_true: "memo_true fs (arm m)" by (simp add: memo_true_def arm_def)

lemma disarm_true: "memo_true fs (disarm m)" by (simp add: memo_true_def disarm_def)

lemma disarm_off [simp]: "\<not> sm_armed (disarm m)" by (simp add: disarm_def)

section \<open>Calls that interleave\<close>

text \<open>
  Where a thread is. A call of \<open>observe\<close> names its file and the moment it began, the last index of the
  history then; one that has returned names the moment of its return and the value. A thread that
  has run \<open>disarm\<close> to its end is \<open>Writing\<close>: it may change the tree any number of times.
\<close>

datatype memo_pc =
    Idle
  | LoadArmed "str list" str nat
  | StatPlain "str list" str nat
  | LookUp "str list" str nat
  | StatArmed "str list" str nat
  | Recheck "str list" str nat "file_observation option"
  | Publish "str list" str nat "file_observation option"
  | Returned "str list" str nat nat "file_observation option"
  | Swap
  | Clear
  | Writing

text \<open>One access of a call: where the thread is after it, and the memo. \<open>now\<close> is the moment.\<close>

fun observe_step :: "tree \<Rightarrow> nat \<Rightarrow> stat_memo \<Rightarrow> memo_pc \<Rightarrow> memo_pc \<times> stat_memo" where
  "observe_step fs now m (LoadArmed wd rel s) =
     (if sm_armed m then LookUp wd rel s else StatPlain wd rel s, m)"
| "observe_step fs now m (StatPlain wd rel s) = (Returned wd rel s now (observe_file fs wd rel), m)"
| "observe_step fs now m (LookUp wd rel s) =
     (case sm_entries m (wd, rel) of
        Some hit \<Rightarrow> (Returned wd rel s now hit, m)
      | None \<Rightarrow> (StatArmed wd rel s, m))"
| "observe_step fs now m (StatArmed wd rel s) = (Recheck wd rel s (observe_file fs wd rel), m)"
| "observe_step fs now m (Recheck wd rel s v) =
     (if sm_armed m then Publish wd rel s v else Returned wd rel s now v, m)"
| "observe_step fs now m (Publish wd rel s v) =
     (Returned wd rel s now v, m\<lparr>sm_entries := (sm_entries m)((wd, rel) \<mapsto> v)\<rparr>)"
| "observe_step fs now m pc = (pc, m)"

fun disarm_step :: "stat_memo \<Rightarrow> memo_pc \<Rightarrow> memo_pc \<times> stat_memo" where
  "disarm_step m Swap = (if sm_armed m then Clear else Writing, m\<lparr>sm_armed := False\<rparr>)"
| "disarm_step m Clear = (Writing, m\<lparr>sm_entries := (\<lambda>_. None)\<rparr>)"
| "disarm_step m pc = (pc, m)"

record run_state =
  rs_memo :: stat_memo
  rs_history :: "tree list"
  rs_pc :: "nat \<Rightarrow> memo_pc"

definition now_tree :: "run_state \<Rightarrow> tree" where "now_tree s = last (rs_history s)"

definition now_index :: "run_state \<Rightarrow> nat" where "now_index s = length (rs_history s) - 1"

definition with_pc :: "nat \<Rightarrow> memo_pc \<times> stat_memo \<Rightarrow> run_state \<Rightarrow> run_state" where
  "with_pc t r s = s\<lparr>rs_pc := (rs_pc s)(t := fst r), rs_memo := snd r\<rparr>"

text \<open>A run begins armed on one tree, with no call under way.\<close>

definition run_start :: "tree \<Rightarrow> stat_memo \<Rightarrow> run_state" where
  "run_start fs m = \<lparr>rs_memo = arm m, rs_history = [fs], rs_pc = (\<lambda>_. Idle)\<rparr>"

inductive memo_step :: "run_state \<Rightarrow> run_state \<Rightarrow> bool" where
  begin_observe: "rs_pc s t = Idle \<Longrightarrow> memo_step s (with_pc t (LoadArmed wd rel (now_index s), rs_memo s) s)"
| observing: "memo_step s (with_pc t (observe_step (now_tree s) (now_index s) (rs_memo s) (rs_pc s t)) s)"
| leave: "rs_pc s t = Returned wd rel i j v \<Longrightarrow> memo_step s (with_pc t (Idle, rs_memo s) s)"
| begin_disarm: "rs_pc s t = Idle \<Longrightarrow> memo_step s (with_pc t (Swap, rs_memo s) s)"
| disarming: "memo_step s (with_pc t (disarm_step (rs_memo s) (rs_pc s t)) s)"
| store: "rs_pc s t = Writing \<Longrightarrow> memo_step s (s\<lparr>rs_history := rs_history s @ [fs]\<rparr>)"
| finish: "rs_pc s t = Writing \<Longrightarrow> memo_step s (with_pc t (Idle, rs_memo s) s)"

section \<open>What the memo serves\<close>

definition first_tree :: "run_state \<Rightarrow> tree" where "first_tree s = hd (rs_history s)"

text \<open>
  What holds of a thread: a value that will be published is the first tree's, and a call that has
  found the memo armed began while the first tree was the only one.
\<close>

fun pc_ok :: "tree list \<Rightarrow> memo_pc \<Rightarrow> bool" where
  "pc_ok h Idle = True"
| "pc_ok h (LoadArmed wd rel s) = (s < length h)"
| "pc_ok h (StatPlain wd rel s) = (s < length h)"
| "pc_ok h (LookUp wd rel s) = (s = 0)"
| "pc_ok h (StatArmed wd rel s) = (s = 0)"
| "pc_ok h (Recheck wd rel s v) = (\<exists>k. s \<le> k \<and> k < length h \<and> v = observe_file (h ! k) wd rel)"
| "pc_ok h (Publish wd rel s v) = (s = 0 \<and> v = observe_file (hd h) wd rel)"
| "pc_ok h (Returned wd rel s e v) = (\<exists>k. s \<le> k \<and> k \<le> e \<and> e < length h \<and> v = observe_file (h ! k) wd rel)"
| "pc_ok h Swap = True"
| "pc_ok h Clear = True"
| "pc_ok h Writing = True"

definition memo_inv :: "run_state \<Rightarrow> bool" where
  "memo_inv s \<longleftrightarrow>
     rs_history s \<noteq> []
     \<and> (sm_armed (rs_memo s) \<longrightarrow> length (rs_history s) = 1 \<and> (\<forall>t. rs_pc s t \<noteq> Clear \<and> rs_pc s t \<noteq> Writing))
     \<and> (\<forall>wd rel v. sm_entries (rs_memo s) (wd, rel) = Some v \<longrightarrow> v = observe_file (first_tree s) wd rel)
     \<and> (\<forall>t. pc_ok (rs_history s) (rs_pc s t))"

lemma memo_inv_start: "memo_inv (run_start fs m)"
  by (simp add: memo_inv_def run_start_def arm_def)

lemma pc_ok_grow: "pc_ok h pc \<Longrightarrow> h \<noteq> [] \<Longrightarrow> pc_ok (h @ [fs]) pc"
proof (cases pc)
  case (Recheck wd rel s v)
  assume "pc_ok h pc"
  then obtain k where "s \<le> k" "k < length h" "v = observe_file (h ! k) wd rel" using Recheck by auto
  then show ?thesis using Recheck by (auto simp: nth_append intro!: exI[of _ k])
next
  case (Returned wd rel s e v)
  assume "pc_ok h pc"
  then obtain k where "s \<le> k" "k \<le> e" "e < length h" "v = observe_file (h ! k) wd rel" using Returned by auto
  then show ?thesis using Returned by (auto simp: nth_append intro!: exI[of _ k])
qed auto

lemma observe_step_armed [simp]: "sm_armed (snd (observe_step fs now m pc)) = sm_armed m"
  by (cases pc) (auto split: option.splits)

lemma observe_step_pc:
  "fst (observe_step fs now m pc) = Clear \<longleftrightarrow> pc = Clear"
  "fst (observe_step fs now m pc) = Writing \<longleftrightarrow> pc = Writing"
  by (cases pc; auto split: option.splits)+

lemma observe_step_entries:
  assumes "pc_ok h pc" and "\<forall>wd rel v. sm_entries m (wd, rel) = Some v \<longrightarrow> v = observe_file (hd h) wd rel"
  shows "sm_entries (snd (observe_step fs now m pc)) (wd, rel) = Some v \<Longrightarrow> v = observe_file (hd h) wd rel"
  using assms by (cases pc) (auto split: option.splits if_splits)

lemma observe_step_ok:
  assumes pc: "pc_ok h pc" and h: "h \<noteq> []"
    and entries: "\<forall>wd rel v. sm_entries m (wd, rel) = Some v \<longrightarrow> v = observe_file (hd h) wd rel"
    and armed: "sm_armed m \<longrightarrow> length h = 1"
  shows "pc_ok h (fst (observe_step (last h) (length h - 1) m pc))"
proof -
  have ends: "last h = h ! (length h - 1)" "hd h = h ! 0" using h by (simp_all add: last_conv_nth hd_conv_nth)
  have len: "length h - 1 < length h" "0 < length h" using h by simp_all
  show ?thesis
  proof (cases pc)
    case (LoadArmed wd rel s)
    then show ?thesis using pc armed by auto
  next
    case (StatPlain wd rel s)
    then show ?thesis using pc ends len by (auto intro!: exI[of _ "length h - 1"])
  next
    case (LookUp wd rel s)
    then show ?thesis using pc entries ends len by (auto split: option.splits intro!: exI[of _ 0])
  next
    case (StatArmed wd rel s)
    then show ?thesis using pc ends len by (auto intro!: exI[of _ "length h - 1"])
  next
    case (Recheck wd rel s v)
    then obtain k where k: "s \<le> k" "k < length h" "v = observe_file (h ! k) wd rel" using pc by auto
    show ?thesis
    proof (cases "sm_armed m")
      case True
      then have "k = 0" using armed k(2) by simp
      then show ?thesis using True Recheck k ends by simp
    next
      case False
      then show ?thesis using Recheck k by (auto intro!: exI[of _ k])
    qed
  next
    case (Publish wd rel s v)
    then show ?thesis using pc ends len by (auto intro!: exI[of _ 0])
  qed (use pc in auto)
qed

lemma memo_inv_observe:
  assumes inv: "memo_inv s"
  shows "memo_inv (with_pc t (observe_step (now_tree s) (now_index s) (rs_memo s) (rs_pc s t)) s)"
proof -
  let ?h = "rs_history s" and ?r = "observe_step (now_tree s) (now_index s) (rs_memo s) (rs_pc s t)"
  have h: "?h \<noteq> []" and pc: "pc_ok ?h (rs_pc s t)"
    and entries: "\<forall>wd rel v. sm_entries (rs_memo s) (wd, rel) = Some v \<longrightarrow> v = observe_file (hd ?h) wd rel"
    and armed: "sm_armed (rs_memo s) \<longrightarrow> length ?h = 1"
    using inv by (auto simp: memo_inv_def first_tree_def)
  have "pc_ok ?h (fst ?r)"
    unfolding now_tree_def now_index_def by (rule observe_step_ok[OF pc h entries armed])
  moreover have "\<forall>wd rel v. sm_entries (snd ?r) (wd, rel) = Some v \<longrightarrow> v = observe_file (hd ?h) wd rel"
    using observe_step_entries[OF pc entries] by blast
  ultimately show ?thesis
    using inv by (simp add: memo_inv_def with_pc_def first_tree_def observe_step_pc)
qed

lemma memo_inv_disarm:
  assumes inv: "memo_inv s"
  shows "memo_inv (with_pc t (disarm_step (rs_memo s) (rs_pc s t)) s)"
proof -
  let ?r = "disarm_step (rs_memo s) (rs_pc s t)"
  have "pc_ok (rs_history s) (rs_pc s t)" using inv by (simp add: memo_inv_def)
  then have "pc_ok (rs_history s) (fst ?r)" by (cases "rs_pc s t") simp_all
  moreover have "sm_armed (snd ?r) \<longrightarrow> sm_armed (rs_memo s) \<and> fst ?r \<noteq> Clear \<and> fst ?r \<noteq> Writing"
    using inv by (cases "rs_pc s t") (auto simp: memo_inv_def)
  moreover have "sm_entries (snd ?r) (wd, rel) = Some v \<Longrightarrow> sm_entries (rs_memo s) (wd, rel) = Some v" for wd rel v
    by (cases "rs_pc s t") simp_all
  ultimately show ?thesis using inv by (simp add: memo_inv_def with_pc_def first_tree_def)
qed

lemma memo_inv_step: "memo_step s s' \<Longrightarrow> memo_inv s \<Longrightarrow> memo_inv s'"
proof (induction rule: memo_step.induct)
  case (begin_observe s t wd rel)
  then show ?case by (auto simp: memo_inv_def with_pc_def first_tree_def now_index_def)
next
  case (store s t fs)
  then have "\<not> sm_armed (rs_memo s)" by (auto simp: memo_inv_def)
  then show ?case using store pc_ok_grow by (auto simp: memo_inv_def first_tree_def hd_append)
next
  case (observing s t)
  then show ?case by (rule memo_inv_observe)
next
  case (disarming s t)
  then show ?case by (rule memo_inv_disarm)
qed (auto simp: memo_inv_def with_pc_def first_tree_def)

lemma memo_inv_reachable: "memo_step\<^sup>*\<^sup>* (run_start fs m) s \<Longrightarrow> memo_inv s"
  by (induction rule: rtranclp_induct) (auto intro: memo_inv_start memo_inv_step)

text \<open>The first tree of a run stays the first.\<close>

lemma first_tree_step: "memo_step s s' \<Longrightarrow> rs_history s \<noteq> [] \<Longrightarrow> first_tree s' = first_tree s \<and> rs_history s' \<noteq> []"
  by (induction rule: memo_step.induct) (auto simp: first_tree_def with_pc_def)

lemma first_tree_reachable: "memo_step\<^sup>*\<^sup>* (run_start fs m) s \<Longrightarrow> first_tree s = fs \<and> rs_history s \<noteq> []"
  by (induction rule: rtranclp_induct) (auto simp: run_start_def first_tree_def dest: first_tree_step)

text \<open>
  C40: the metadata memo is linearisable and serves nothing it read after a write. However the calls
  of a run interleave, when every thread finishes \<open>disarm\<close> before it writes and nobody arms again, each
  call of \<open>observe\<close> that has returned gave what the tree held at some moment between its beginning and
  its return; whatever lies in the memo is the observation of the tree the run was armed on; and while
  the memo is armed, nothing has been written.
\<close>

theorem memo_linearisable:
  assumes run: "memo_step\<^sup>*\<^sup>* (run_start fs m) s"
  shows "(rs_pc s t = Returned wd rel i j v
            \<longrightarrow> (\<exists>k. i \<le> k \<and> k \<le> j \<and> j < length (rs_history s) \<and> v = observe_file (rs_history s ! k) wd rel))
    \<and> (sm_entries (rs_memo s) (d, p) = Some e \<longrightarrow> e = observe_file fs d p)
    \<and> (sm_armed (rs_memo s) \<longrightarrow> rs_history s = [fs])"
proof -
  have inv: "memo_inv s" and first: "first_tree s = fs" "rs_history s \<noteq> []"
    using memo_inv_reachable[OF run] first_tree_reachable[OF run] by auto
  have "pc_ok (rs_history s) (rs_pc s t)" using inv by (simp add: memo_inv_def)
  then have "rs_pc s t = Returned wd rel i j v
      \<longrightarrow> (\<exists>k. i \<le> k \<and> k \<le> j \<and> j < length (rs_history s) \<and> v = observe_file (rs_history s ! k) wd rel)" by auto
  moreover have "sm_armed (rs_memo s) \<longrightarrow> rs_history s = [fs]"
    using inv first by (cases "rs_history s") (auto simp: memo_inv_def first_tree_def)
  ultimately show ?thesis using inv first by (simp add: memo_inv_def)
qed

text \<open>One access of a thread inside \<open>observe\<close>, as a function on states, and a call run to its end.\<close>

definition observe_one :: "nat \<Rightarrow> run_state \<Rightarrow> run_state" where
  "observe_one t s = with_pc t (observe_step (now_tree s) (now_index s) (rs_memo s) (rs_pc s t)) s"

lemma observe_many: "memo_step\<^sup>*\<^sup>* s ((observe_one t ^^ n) s)"
proof (induction n)
  case (Suc n)
  have "memo_step x (observe_one t x)" for x unfolding observe_one_def by (rule observing)
  from rtranclp.rtrancl_into_rtrancl[OF Suc this] show ?case by simp
qed simp

definition one_file :: tree where
  "one_file = [[''a''] \<mapsto> \<lparr>node_kind = FileNode (Some ''x''), node_mode = 0, node_mtime = 7, node_identity = None\<rparr>]"

definition one_call :: run_state where
  "one_call = with_pc 0 (LoadArmed [] ''a'' 0, arm memo_new) (run_start one_file memo_new)"

theorem memo_linearisable_witness:
  "rs_pc ((observe_one 0 ^^ 5) one_call) 0 = Returned [] ''a'' 0 0 (Some \<lparr>fo_mtime = 7, fo_identity = None\<rparr>)
   \<and> (\<exists>k. k \<le> 0 \<and> Some \<lparr>fo_mtime = 7, fo_identity = None\<rparr> = observe_file (rs_history ((observe_one 0 ^^ 5) one_call) ! k) [] ''a'')
   \<and> rs_history ((observe_one 0 ^^ 5) one_call) = [one_file]"
proof -
  let ?s = "(observe_one 0 ^^ 5) one_call" and ?v = "Some \<lparr>fo_mtime = 7, fo_identity = None\<rparr>"
  have "memo_step (run_start one_file memo_new) one_call"
    using memo_step.begin_observe[of "run_start one_file memo_new" 0 "[]" "''a''"]
    by (simp add: run_start_def now_index_def one_call_def)
  then have run: "memo_step\<^sup>*\<^sup>* (run_start one_file memo_new) ?s"
    using observe_many by (rule converse_rtranclp_into_rtranclp)
  have pc: "rs_pc ?s 0 = Returned [] ''a'' 0 0 ?v" and armed: "sm_armed (rs_memo ?s)" by code_simp+
  show ?thesis
    using memo_linearisable[OF run, of 0 "[]" "''a''" 0 0 ?v] pc armed by blast
qed

section \<open>The memo of tool digests\<close>

text \<open>
  \<open>ToolHashMemo\<close> has no arming: a digest is served while the identity of the file is the one its
  writer saw before it read the bytes. Its calls are split the same way, and any thread may change
  the tree at any moment.
\<close>

definition hash_file_sha256 :: "(str \<Rightarrow> str) \<Rightarrow> tree \<Rightarrow> str \<Rightarrow> str" where
  "hash_file_sha256 sha256 fs p =
     (case map_option node_kind (metadata fs [] (components p)) of
        Some (FileNode (Some bytes)) \<Rightarrow> sha256 bytes
      | _ \<Rightarrow> replicate 32 CHR 0x00)"

definition identity_of :: "tree \<Rightarrow> str \<Rightarrow> file_identity option" where
  "identity_of fs p = Option.bind (observe_file fs [] p) fo_identity"

record tool_memo =
  tm_entries :: "str \<Rightarrow> (file_identity \<times> str) option"
  tm_reads :: nat

datatype tool_pc =
    Resting
  | ReadIdentity str nat
  | TryServe str nat "file_identity option"
  | ReadBytes str nat "file_identity option"
  | Remember str nat "file_identity option" str
  | Answered str nat nat str

fun tool_step :: "(str \<Rightarrow> str) \<Rightarrow> tree \<Rightarrow> nat \<Rightarrow> tool_memo \<Rightarrow> tool_pc \<Rightarrow> tool_pc \<times> tool_memo" where
  "tool_step sha256 fs now m (ReadIdentity p s) = (TryServe p s (identity_of fs p), m)"
| "tool_step sha256 fs now m (TryServe p s identity) =
     (case identity of
        None \<Rightarrow> (ReadBytes p s identity, m)
      | Some current \<Rightarrow>
          (case tm_entries m p of
             None \<Rightarrow> (ReadBytes p s identity, m)
           | Some (seen, hash) \<Rightarrow>
               if seen = current then (Answered p s now hash, m) else (ReadBytes p s identity, m)))"
| "tool_step sha256 fs now m (ReadBytes p s identity) =
     (Remember p s identity (hash_file_sha256 sha256 fs p), m\<lparr>tm_reads := tm_reads m + 1\<rparr>)"
| "tool_step sha256 fs now m (Remember p s identity hash) =
     (Answered p s now hash,
      case identity of
        None \<Rightarrow> m
      | Some current \<Rightarrow> m\<lparr>tm_entries := (tm_entries m)(p \<mapsto> (current, hash))\<rparr>)"
| "tool_step sha256 fs now m pc = (pc, m)"

record tool_state =
  ts_memo :: tool_memo
  ts_history :: "tree list"
  ts_pc :: "nat \<Rightarrow> tool_pc"

definition tool_start :: "tree \<Rightarrow> tool_state" where
  "tool_start fs = \<lparr>ts_memo = \<lparr>tm_entries = (\<lambda>_. None), tm_reads = 0\<rparr>, ts_history = [fs], ts_pc = (\<lambda>_. Resting)\<rparr>"

definition tool_one :: "(str \<Rightarrow> str) \<Rightarrow> nat \<Rightarrow> tool_state \<Rightarrow> tool_state" where
  "tool_one sha256 t s =
     (let r = tool_step sha256 (last (ts_history s)) (length (ts_history s) - 1) (ts_memo s) (ts_pc s t)
      in s\<lparr>ts_pc := (ts_pc s)(t := fst r), ts_memo := snd r\<rparr>)"

inductive tool_run :: "(str \<Rightarrow> str) \<Rightarrow> tree \<Rightarrow> tool_state \<Rightarrow> bool" for sha256 fs where
  tool_begin: "tool_run sha256 fs (tool_start fs)"
| tool_ask: "tool_run sha256 fs s \<Longrightarrow> ts_pc s t = Resting
    \<Longrightarrow> tool_run sha256 fs (s\<lparr>ts_pc := (ts_pc s)(t := ReadIdentity p (length (ts_history s) - 1))\<rparr>)"
| tool_go: "tool_run sha256 fs s \<Longrightarrow> tool_run sha256 fs (tool_one sha256 t s)"
| tool_leave: "tool_run sha256 fs s \<Longrightarrow> ts_pc s t = Answered p i j hash
    \<Longrightarrow> tool_run sha256 fs (s\<lparr>ts_pc := (ts_pc s)(t := Resting)\<rparr>)"
| tool_change: "tool_run sha256 fs s \<Longrightarrow> tool_run sha256 fs (s\<lparr>ts_history := ts_history s @ [fs']\<rparr>)"

text \<open>
  The identity of a file is evidence of its bytes in a history when it never comes back: two trees
  of the history with the same identity have the same bytes, and so have those between.
\<close>

definition identity_evidence :: "(str \<Rightarrow> str) \<Rightarrow> tree list \<Rightarrow> str \<Rightarrow> bool" where
  "identity_evidence sha256 h p \<longleftrightarrow>
     (\<forall>k < length h. \<forall>i \<le> k. \<forall>j. i \<le> j \<and> j \<le> k
        \<and> identity_of (h ! i) p \<noteq> None \<and> identity_of (h ! i) p = identity_of (h ! k) p
        \<longrightarrow> hash_file_sha256 sha256 (h ! j) p = hash_file_sha256 sha256 (h ! k) p)"

text \<open>What a moment of a history shows, and what holds of the threads and of the entries.\<close>

definition seen_at :: "tree list \<Rightarrow> str \<Rightarrow> nat \<Rightarrow> file_identity option \<Rightarrow> bool" where
  "seen_at h p c identity \<longleftrightarrow> c < length h \<and> identity_of (h ! c) p = identity"

definition read_at :: "(str \<Rightarrow> str) \<Rightarrow> tree list \<Rightarrow> str \<Rightarrow> nat \<Rightarrow> str \<Rightarrow> bool" where
  "read_at sha256 h p b hash \<longleftrightarrow> b < length h \<and> hash_file_sha256 sha256 (h ! b) p = hash"

definition seen_since :: "tree list \<Rightarrow> str \<Rightarrow> nat \<Rightarrow> file_identity option \<Rightarrow> bool" where
  "seen_since h p s identity \<longleftrightarrow> (\<exists>c \<ge> s. seen_at h p c identity)"

definition seen_and_read :: "(str \<Rightarrow> str) \<Rightarrow> tree list \<Rightarrow> str \<Rightarrow> nat \<Rightarrow> file_identity option \<Rightarrow> str \<Rightarrow> bool" where
  "seen_and_read sha256 h p s identity hash \<longleftrightarrow>
     (\<exists>c b. s \<le> c \<and> c \<le> b \<and> seen_at h p c identity \<and> read_at sha256 h p b hash)"

definition answer_ok :: "(str \<Rightarrow> str) \<Rightarrow> tree list \<Rightarrow> str \<Rightarrow> nat \<Rightarrow> nat \<Rightarrow> str \<Rightarrow> bool" where
  "answer_ok sha256 h p s e hash \<longleftrightarrow> e < length h \<and>
     (\<exists>b \<le> e. read_at sha256 h p b hash
        \<and> (s \<le> b \<or> (\<exists>a c identity. a \<le> b \<and> b \<le> c \<and> s \<le> c \<and> c \<le> e
             \<and> seen_at h p a (Some identity) \<and> seen_at h p c (Some identity))))"

fun tool_ok :: "(str \<Rightarrow> str) \<Rightarrow> tree list \<Rightarrow> tool_pc \<Rightarrow> bool" where
  "tool_ok sha256 h Resting = True"
| "tool_ok sha256 h (ReadIdentity p s) = (s < length h)"
| "tool_ok sha256 h (TryServe p s identity) = seen_since h p s identity"
| "tool_ok sha256 h (ReadBytes p s identity) = seen_since h p s identity"
| "tool_ok sha256 h (Remember p s identity hash) = seen_and_read sha256 h p s identity hash"
| "tool_ok sha256 h (Answered p s e hash) = answer_ok sha256 h p s e hash"

definition tool_entries_ok :: "(str \<Rightarrow> str) \<Rightarrow> tree list \<Rightarrow> tool_memo \<Rightarrow> bool" where
  "tool_entries_ok sha256 h m \<longleftrightarrow>
     (\<forall>p identity hash. tm_entries m p = Some (identity, hash)
        \<longrightarrow> seen_and_read sha256 h p 0 (Some identity) hash)"

lemma seen_at_grow: "seen_at h p c i \<Longrightarrow> seen_at (h @ [fs]) p c i" by (simp add: seen_at_def nth_append)

lemma read_at_grow: "read_at sha256 h p b d \<Longrightarrow> read_at sha256 (h @ [fs]) p b d" by (simp add: read_at_def nth_append)

lemma seen_since_grow: "seen_since h p s i \<Longrightarrow> seen_since (h @ [fs]) p s i"
  unfolding seen_since_def using seen_at_grow by blast

lemma seen_and_read_grow: "seen_and_read sha256 h p s i d \<Longrightarrow> seen_and_read sha256 (h @ [fs]) p s i d"
  unfolding seen_and_read_def using seen_at_grow read_at_grow by blast

lemma answer_ok_grow: "answer_ok sha256 h p s e d \<Longrightarrow> answer_ok sha256 (h @ [fs]) p s e d"
  unfolding answer_ok_def using seen_at_grow read_at_grow by (simp only: length_append list.size) (meson less_Suc_eq add_less_mono1 trans_less_add1)

lemma tool_ok_grow: "tool_ok sha256 h pc \<Longrightarrow> tool_ok sha256 (h @ [fs]) pc"
  by (cases pc) (simp_all add: seen_since_grow seen_and_read_grow answer_ok_grow)

lemma tool_entries_grow: "tool_entries_ok sha256 h m \<Longrightarrow> tool_entries_ok sha256 (h @ [fs]) m"
  unfolding tool_entries_ok_def using seen_and_read_grow by blast

lemma seen_now: "h \<noteq> [] \<Longrightarrow> seen_at h p (length h - 1) (identity_of (last h) p)"
  by (simp add: seen_at_def last_conv_nth)

lemma read_now: "h \<noteq> [] \<Longrightarrow> read_at sha256 h p (length h - 1) (hash_file_sha256 sha256 (last h) p)"
  by (simp add: read_at_def last_conv_nth)

lemma seen_before: "seen_at h p c i \<Longrightarrow> c \<le> length h - 1" unfolding seen_at_def by linarith

lemma read_before: "read_at sha256 h p b d \<Longrightarrow> b \<le> length h - 1" unfolding read_at_def by linarith

text \<open>A digest served from an entry: from the entry's two moments and the moment of the stat.\<close>

lemma served_ok:
  assumes h: "h \<noteq> []" and c: "seen_since h p s (Some current)"
    and entry: "seen_and_read sha256 h p 0 (Some current) hash"
  shows "answer_ok sha256 h p s (length h - 1) hash"
proof -
  obtain c where c: "s \<le> c" "seen_at h p c (Some current)" using c by (auto simp: seen_since_def)
  obtain a b where ab: "a \<le> b" "seen_at h p a (Some current)" "read_at sha256 h p b hash"
    using entry by (auto simp: seen_and_read_def)
  have "s \<le> b \<or> b \<le> c" using c(1) by linarith
  moreover have "length h - 1 < length h" using h by simp
  ultimately show ?thesis
    unfolding answer_ok_def using c ab seen_before[OF c(2)] read_before[OF ab(3)] by blast
qed

lemma tool_step_ok:
  assumes h: "h \<noteq> []" and pc: "tool_ok sha256 h pc" and entries: "tool_entries_ok sha256 h m"
  shows "tool_ok sha256 h (fst (tool_step sha256 (last h) (length h - 1) m pc))
    \<and> tool_entries_ok sha256 h (snd (tool_step sha256 (last h) (length h - 1) m pc))"
proof (cases pc)
  case (ReadIdentity p s)
  then have "s \<le> length h - 1" using pc by simp
  then have "seen_since h p s (identity_of (last h) p)" unfolding seen_since_def using seen_now[OF h] by blast
  then show ?thesis using ReadIdentity entries by simp
next
  case (TryServe p s identity)
  then have since: "seen_since h p s identity" using pc by simp
  have "answer_ok sha256 h p s (length h - 1) hash"
    if "identity = Some current" "tm_entries m p = Some (current, hash)" for current hash
    using served_ok[OF h] since entries that by (simp add: tool_entries_ok_def)
  then show ?thesis using TryServe since entries
    by (auto simp: tool_entries_ok_def split: option.splits)
next
  case (ReadBytes p s identity)
  then obtain c where c: "s \<le> c" "seen_at h p c identity" using pc by (auto simp: seen_since_def)
  have "seen_and_read sha256 h p s identity (hash_file_sha256 sha256 (last h) p)"
    unfolding seen_and_read_def using c read_now[OF h] seen_before[OF c(2)] by blast
  then show ?thesis using ReadBytes entries by (simp add: tool_entries_ok_def)
next
  case (Remember p s identity hash)
  then obtain c b where cb: "s \<le> c" "c \<le> b" "seen_at h p c identity" "read_at sha256 h p b hash"
    using pc by (auto simp: seen_and_read_def)
  have "length h - 1 < length h" "s \<le> b" using h cb by simp_all
  then have "answer_ok sha256 h p s (length h - 1) hash"
    unfolding answer_ok_def using cb read_before[OF cb(4)] by blast
  moreover have "seen_and_read sha256 h p 0 identity hash" unfolding seen_and_read_def using cb by blast
  ultimately show ?thesis using Remember entries by (auto simp: tool_entries_ok_def split: option.splits)
qed (use pc entries in auto)

lemma tool_run_ok:
  "tool_run sha256 fs s \<Longrightarrow>
     ts_history s \<noteq> [] \<and> tool_entries_ok sha256 (ts_history s) (ts_memo s)
     \<and> (\<forall>t. tool_ok sha256 (ts_history s) (ts_pc s t))"
proof (induction rule: tool_run.induct)
  case tool_begin
  then show ?case by (simp add: tool_start_def tool_entries_ok_def)
next
  case (tool_go s t)
  then show ?case
    using tool_step_ok[of "ts_history s" sha256 "ts_pc s t" "ts_memo s"] by (simp add: tool_one_def Let_def)
next
  case (tool_change s fs')
  then show ?case using tool_ok_grow tool_entries_grow by auto
qed auto

text \<open>
  a tool digest is one the file had while it was asked for. However calls and changes of the tree
  interleave, each call of \<open>hash\<close> that has answered gave the digest the file had at some moment between
  its beginning and its return, whether it read the bytes or served them from the memo, provided the
  identity of the file never comes back to an earlier value after a change. This is why the identity is
  read before the bytes and the entry stores that identity.
\<close>

theorem tool_memo_linearisable:
  assumes run: "tool_run sha256 fs s" and answered: "ts_pc s t = Answered p i j hash"
    and evidence: "identity_evidence sha256 (ts_history s) p"
  shows "\<exists>k. i \<le> k \<and> k \<le> j \<and> j < length (ts_history s) \<and> hash = hash_file_sha256 sha256 (ts_history s ! k) p"
proof -
  have "answer_ok sha256 (ts_history s) p i j hash" using tool_run_ok[OF run] answered by (metis tool_ok.simps(6))
  then obtain b where b: "j < length (ts_history s)" "b \<le> j" "read_at sha256 (ts_history s) p b hash"
    and from_when: "i \<le> b \<or> (\<exists>a c identity. a \<le> b \<and> b \<le> c \<and> i \<le> c \<and> c \<le> j
        \<and> seen_at (ts_history s) p a (Some identity) \<and> seen_at (ts_history s) p c (Some identity))"
    by (auto simp: answer_ok_def)
  from from_when show ?thesis
  proof (elim disjE exE conjE)
    assume "i \<le> b"
    then show ?thesis using b by (auto simp: read_at_def)
  next
    fix a c identity
    assume abc: "a \<le> b" "b \<le> c" "i \<le> c" "c \<le> j"
      and at: "seen_at (ts_history s) p a (Some identity)" "seen_at (ts_history s) p c (Some identity)"
    have "identity_of (ts_history s ! a) p = Some identity" "identity_of (ts_history s ! c) p = Some identity"
      "c < length (ts_history s)" using at by (simp_all add: seen_at_def)
    then have "hash_file_sha256 sha256 (ts_history s ! b) p = hash_file_sha256 sha256 (ts_history s ! c) p"
      using evidence[unfolded identity_evidence_def, rule_format, of c a b] abc by simp
    then show ?thesis using abc b unfolding read_at_def by metis
  qed
qed

lemma tool_many: "tool_run sha256 fs s \<Longrightarrow> tool_run sha256 fs ((tool_one sha256 t ^^ n) s)"
  by (induction n) (auto intro: tool_go)

definition ask_tool :: "nat \<Rightarrow> str \<Rightarrow> tool_state \<Rightarrow> tool_state" where
  "ask_tool t p s = s\<lparr>ts_pc := (ts_pc s)(t := ReadIdentity p (length (ts_history s) - 1))\<rparr>"

text \<open>Two threads ask for one tool: the first reads it, the second is served.\<close>

definition one_tool :: tree where
  "one_tool = [[''a''] \<mapsto> \<lparr>node_kind = FileNode (Some ''x''), node_mode = 0, node_mtime = 7,
     node_identity = Some \<lparr>fi_mtime_secs = 1, fi_mtime_nanos = 0, fi_len = 1, fi_ctime_secs = 1, fi_ctime_nanos = 0, fi_ino = 5, fi_dev = 1\<rparr>\<rparr>]"

definition two_asks :: tool_state where
  "two_asks = (tool_one (\<lambda>s. s) 1 ^^ 2) (ask_tool 1 ''/a'' ((tool_one (\<lambda>s. s) 0 ^^ 4) (ask_tool 0 ''/a'' (tool_start one_tool))))"

theorem tool_memo_linearisable_witness:
  "ts_pc two_asks 1 = Answered ''/a'' 0 0 ''x'' \<and> tm_reads (ts_memo two_asks) = 1
   \<and> (\<exists>k. k \<le> 0 \<and> ''x'' = hash_file_sha256 (\<lambda>s. s) (ts_history two_asks ! k) ''/a'')"
proof -
  have "tool_run (\<lambda>s. s) one_tool (ask_tool 0 ''/a'' (tool_start one_tool))"
    unfolding ask_tool_def by (rule tool_ask[OF tool_begin]) (simp add: tool_start_def)
  then have half: "tool_run (\<lambda>s. s) one_tool ((tool_one (\<lambda>s. s) 0 ^^ 4) (ask_tool 0 ''/a'' (tool_start one_tool)))"
    by (rule tool_many)
  have "ts_pc ((tool_one (\<lambda>s. s) 0 ^^ 4) (ask_tool 0 ''/a'' (tool_start one_tool))) 1 = Resting" by code_simp
  then have run: "tool_run (\<lambda>s. s) one_tool two_asks"
    unfolding two_asks_def by (intro tool_many, unfold ask_tool_def[of 1], intro tool_ask half)
  have pc: "ts_pc two_asks 1 = Answered ''/a'' 0 0 ''x''" "tm_reads (ts_memo two_asks) = 1" "length (ts_history two_asks) = 1"
    by code_simp+
  then have "identity_evidence (\<lambda>s. s) (ts_history two_asks) ''/a''" by (simp add: identity_evidence_def)
  from tool_memo_linearisable[OF run pc(1) this] show ?thesis using pc by blast
qed

end
