(* ===== verification/Freshness.thy ===== *)
theory Freshness
  imports Restore Stat_Memo
begin

text \<open>
  Whether a step may be skipped (\<open>cook-cache/src/check.rs\<close> from \<open>drift\_reason\<close> to \<open>needs\_rebuild\_cook\<close>,
  and \<open>try\_restore\<close>), and the records a completed step leaves
  (\<open>cook-cache/src/manager.rs\<close>: \<open>record\_file\<close>, \<open>collect\_records\<close>, \<open>record\_completion\<close> up to the
  storing of its entry). The check observes the tree through the metadata memo, so the memo is part
  of the state it threads; its restore changes the tree. The content hash \<open>xxh3\<close> is an argument.
\<close>

section \<open>Hashing a file\<close>

text \<open>
  What the calls of \<open>read\<close> on a reader give, in order; after the last one the reader is at its end. A
  read of no bytes is the end of the stream.
\<close>

datatype read_result = Got str | Interrupted | ReadError

fun hash_reader :: "(str \<Rightarrow> u64) \<Rightarrow> str \<Rightarrow> read_result list \<Rightarrow> u64 option" where
  "hash_reader xxh3 hashed [] = Some (xxh3 hashed)"
| "hash_reader xxh3 hashed (Got bytes # rs) =
     (if bytes = [] then Some (xxh3 hashed) else hash_reader xxh3 (hashed @ bytes) rs)"
| "hash_reader xxh3 hashed (Interrupted # rs) = hash_reader xxh3 hashed rs"
| "hash_reader xxh3 hashed (ReadError # rs) = None"

text \<open>Opening a file: its bytes to be read, if it can be opened; a directory opens, and fails to read.\<close>

definition open_file :: "tree \<Rightarrow> str list \<Rightarrow> str \<Rightarrow> read_result list option" where
  "open_file fs wd rel =
     (case map_option node_kind (metadata fs wd (components rel)) of
        Some (FileNode (Some bytes)) \<Rightarrow> Some [Got bytes]
      | Some DirNode \<Rightarrow> Some [ReadError]
      | _ \<Rightarrow> None)"

definition hash_file :: "(str \<Rightarrow> u64) \<Rightarrow> tree \<Rightarrow> str list \<Rightarrow> str \<Rightarrow> u64 option" where
  "hash_file xxh3 fs wd rel = Option.bind (open_file fs wd rel) (hash_reader xxh3 [])"

definition empty_hash :: "(str \<Rightarrow> u64) \<Rightarrow> u64" where "empty_hash xxh3 = xxh3 []"

section \<open>Reasons\<close>

datatype rebuild_reason =
    NoCacheEntry
  | CommandHashChanged
  | EnvChanged
  | SealChanged
  | OutputMissing
  | OutputChanged
  | InputsChanged (ic_changed: "str list") (ic_added: "str list") (ic_removed: "str list")
  | ModulesChanged (mc_changed: "str list")

datatype rebuild_result = Skip | Rebuild rebuild_reason

definition drift_reason :: "determinant_drift \<Rightarrow> rebuild_reason" where
  "drift_reason d =
     (case d of DriftCommandHash \<Rightarrow> CommandHashChanged | DriftEnv \<Rightarrow> EnvChanged | DriftSeal \<Rightarrow> SealChanged)"

text \<open>
  \<open>cause\_summary\<close>: \<open>None\<close> is a panic, of an index into an empty list or a subtraction below zero.
\<close>

definition more_suffix :: "nat \<Rightarrow> str" where
  "more_suffix others = (if 0 < others then '' (+'' @ show_nat others @ '' more)'' else [])"

definition capped :: "str \<Rightarrow> str list \<Rightarrow> nat \<Rightarrow> str option" where
  "capped kind paths extra =
     (if length paths + extra < 1 then None
      else (case paths of
              [] \<Rightarrow> None
            | p # _ \<Rightarrow> Some (''input '' @ kind @ '': '' @ p @ more_suffix (length paths + extra - 1))))"

definition cause_summary :: "rebuild_reason \<Rightarrow> str option option" where
  "cause_summary reason =
     (case reason of
        NoCacheEntry \<Rightarrow> Some None
      | CommandHashChanged \<Rightarrow> Some (Some ''command changed'')
      | EnvChanged \<Rightarrow> Some (Some ''env changed'')
      | SealChanged \<Rightarrow> Some (Some ''seal changed'')
      | OutputMissing \<Rightarrow> Some (Some ''output missing (not restorable)'')
      | OutputChanged \<Rightarrow> Some (Some ''output drifted (not restorable)'')
      | InputsChanged changed added removed \<Rightarrow>
          (let rest = (\<lambda>skip. length changed + length added + length removed - length skip) in
           if changed \<noteq> [] then map_option Some (capped ''changed'' changed (rest changed))
           else if added \<noteq> [] then map_option Some (capped ''added'' added (rest added))
           else if removed \<noteq> [] then map_option Some (capped ''removed'' removed (rest removed))
           else Some (Some ''input set reordered''))
      | ModulesChanged changed \<Rightarrow>
          (case changed of
             [] \<Rightarrow> None
           | p # _ \<Rightarrow> Some (Some (''module changed: '' @ p @ more_suffix (length changed - 1)))))"

section \<open>One record\<close>

definition refresh_file_record ::
  "(str \<Rightarrow> u64) \<Rightarrow> tree \<Rightarrow> str list \<Rightarrow> file_record \<Rightarrow> bool \<Rightarrow> stat_memo \<Rightarrow> file_record option \<times> stat_memo" where
  "refresh_file_record xxh3 fs wd r empty_marker m =
     (let (seen, m) = memo_observe fs wd (fr_path r) m in
      (case seen of
         None \<Rightarrow> None
       | Some ob \<Rightarrow>
           if empty_marker \<and> fr_hash r = empty_hash xxh3 \<and> fo_mtime ob \<noteq> fr_mtime r then None
           else if \<not> matches ob r \<and> hash_file xxh3 fs wd (fr_path r) \<noteq> Some (fr_hash r) then None
           else Some (r\<lparr>fr_mtime := fo_mtime ob, fr_identity := fo_identity ob\<rparr>),
       m))"

text \<open>The walk over records: the refreshed list, and the paths of those that changed.\<close>

fun refresh_all ::
  "(str \<Rightarrow> u64) \<Rightarrow> tree \<Rightarrow> str list \<Rightarrow> bool \<Rightarrow> file_record list \<Rightarrow> stat_memo
    \<Rightarrow> (file_record list \<times> str list) \<times> stat_memo" where
  "refresh_all xxh3 fs wd marker [] m = (([], []), m)"
| "refresh_all xxh3 fs wd marker (r # rs) m =
     (let (u, m) = refresh_file_record xxh3 fs wd r marker m;
          ((updated, changed), m) = refresh_all xxh3 fs wd marker rs m
      in ((case u of Some r' \<Rightarrow> (r' # updated, changed) | None \<Rightarrow> (r # updated, fr_path r # changed)), m))"

definition check_module_inputs ::
  "(str \<Rightarrow> u64) \<Rightarrow> tree \<Rightarrow> str list \<Rightarrow> file_record list \<Rightarrow> stat_memo
    \<Rightarrow> (rebuild_reason, file_record list) res \<times> stat_memo" where
  "check_module_inputs xxh3 fs wd recorded m =
     (let ((updated, changed), m) = refresh_all xxh3 fs wd False recorded m
      in (if changed = [] then Inr updated else Inl (ModulesChanged changed), m))"

text \<open>The elements of one ordered set that are not in another, in order.\<close>

definition btree_difference :: "str list \<Rightarrow> str list \<Rightarrow> str list" where
  "btree_difference xs ys = filter (\<lambda>x. x \<notin> set ys) (btree_set xs)"

definition check_inputs ::
  "(str \<Rightarrow> u64) \<Rightarrow> tree \<Rightarrow> str list \<Rightarrow> file_record list \<Rightarrow> str list \<Rightarrow> stat_memo
    \<Rightarrow> (rebuild_reason, file_record list) res \<times> stat_memo" where
  "check_inputs xxh3 fs wd cached current_paths m =
     (let cached_paths = map fr_path cached in
      if cached_paths \<noteq> current_paths
      then (Inl (InputsChanged [] (btree_difference current_paths cached_paths)
                   (btree_difference cached_paths current_paths)), m)
      else
        (let ((updated, changed), m) = refresh_all xxh3 fs wd True cached m
         in (if changed \<noteq> [] then Inl (InputsChanged changed [] []) else Inr updated, m)))"

section \<open>Outputs\<close>

text \<open>\<open>Path::exists\<close> and \<open>Path::is\_dir\<close> of a path read from the working directory.\<close>

definition path_exists :: "tree \<Rightarrow> str list \<Rightarrow> str \<Rightarrow> bool" where
  "path_exists fs wd rel \<longleftrightarrow> metadata fs wd (components rel) \<noteq> None"

definition path_is_dir :: "tree \<Rightarrow> str list \<Rightarrow> str \<Rightarrow> bool" where
  "path_is_dir fs wd rel \<longleftrightarrow> map_option node_kind (metadata fs wd (components rel)) = Some DirNode"

text \<open>The walk over the outputs: updated records, what needs a restore, whether one was missing.\<close>

definition output_record :: "file_record \<Rightarrow> str \<Rightarrow> file_record" where
  "output_record r rel = (if fr_path r \<noteq> rel then r\<lparr>fr_path := rel, fr_identity := None\<rparr> else r)"

fun walk_outputs ::
  "(str \<Rightarrow> u64) \<Rightarrow> tree \<Rightarrow> str list \<Rightarrow> bool \<Rightarrow> nat \<Rightarrow> file_record list \<Rightarrow> str list \<Rightarrow> stat_memo
    \<Rightarrow> (file_record list \<times> nat list \<times> bool) \<times> stat_memo" where
  "walk_outputs xxh3 fs wd record_kept i (r # rs) (rel # rels) m =
     (if \<not> path_exists fs wd rel then
        (let ((updated, needs, missing), m) = walk_outputs xxh3 fs wd record_kept (i + 1) rs rels m
         in ((r # updated, i # needs, True), m))
      else if \<not> record_kept \<and> \<not> path_is_dir fs wd rel then
        (let r = output_record r rel;
             (u, m) = refresh_file_record xxh3 fs wd r False m;
             ((updated, needs, missing), m) = walk_outputs xxh3 fs wd record_kept (i + 1) rs rels m
         in ((case u of
                Some r' \<Rightarrow> (r' # updated, needs, missing)
              | None \<Rightarrow> (r # updated, i # needs, missing)), m))
      else
        (let ((updated, needs, missing), m) = walk_outputs xxh3 fs wd record_kept (i + 1) rs rels m
         in ((r # updated, needs, missing), m)))"
| "walk_outputs xxh3 fs wd record_kept i rs rels m = ((rs, [], False), m)"

section \<open>Restoring what is missing or drifted\<close>

definition step_key :: "restore_ctx \<Rightarrow> u64 \<Rightarrow> u64 \<Rightarrow> u64 \<Rightarrow> u64 list \<Rightarrow> str" where
  "step_key ctx command env seal hashes =
     cloud_key (rc_sha256 ctx)
       \<lparr>ck_schema_version = record_schema_version, ck_recipe_namespace = rc_namespace ctx, ck_command_hash = command,
        ck_env_contribution = env, ck_seal_contribution = seal, ck_declared_outputs = rc_declared ctx,
        ck_input_hashes = hashes\<rparr>"

text \<open>\<open>try\_restore\<close>, with the memo disarmed before anything is written.\<close>

definition try_restore ::
  "restore_ctx \<Rightarrow> step_entry \<Rightarrow> str list \<Rightarrow> nat list \<Rightarrow> file_record list \<Rightarrow> str list \<Rightarrow> tree \<Rightarrow> stat_memo
    \<Rightarrow> bool \<times> tree \<times> stat_memo" where
  "try_restore ctx e outputs needs updated_inputs wd fs m =
     (let m = disarm m;
          key = step_key ctx (se_command_hash e) (se_env_contribution e) (se_seal_contribution e)
                  (sort (map fr_hash updated_inputs));
          (restored, fs) = two_pass (restore_index ctx key wd (\<lambda>i. Some (fr_hash (se_outputs e ! i)))) snd wd
                             (map (\<lambda>i. (i, outputs ! i)) needs) fs
      in (restored, fs, m))"

section \<open>The check\<close>

definition outputs_to_check :: "step_entry \<Rightarrow> str list \<Rightarrow> discovered_inputs option \<Rightarrow> str list" where
  "outputs_to_check e outputs discovered =
     (case discovered of
        None \<Rightarrow> outputs
      | Some di \<Rightarrow> if length (se_outputs e) = length outputs + 1 then outputs @ [disc_from di] else outputs)"

definition inputs_to_check :: "step_entry \<Rightarrow> str list \<Rightarrow> discovered_inputs option \<Rightarrow> str list" where
  "inputs_to_check e inputs discovered =
     (case discovered of None \<Rightarrow> inputs | Some di \<Rightarrow> map fr_path (se_inputs e))"

text \<open>What a step is judged by: its declaration as resolved for this run.\<close>

record step_query =
  q_inputs :: "str list"
  q_outputs :: "str list"
  q_determinants :: determinants
  q_discovered :: "discovered_inputs option"
  q_record :: bool

definition entry_determinants :: "step_entry \<Rightarrow> determinants" where
  "entry_determinants e =
     \<lparr>command_hash = se_command_hash e, env_contribution = se_env_contribution e,
      seal_contribution = se_seal_contribution e\<rparr>"

text \<open>The repair half: the outputs as walked, restored where that is needed.\<close>

definition repair_outputs ::
  "(str \<Rightarrow> u64) \<Rightarrow> restore_ctx option \<Rightarrow> step_entry \<Rightarrow> str list \<Rightarrow> bool \<Rightarrow> file_record list \<Rightarrow> str list \<Rightarrow> tree \<Rightarrow> stat_memo
    \<Rightarrow> (rebuild_reason, file_record list) res \<times> tree \<times> stat_memo" where
  "repair_outputs xxh3 ctx e outputs record_kept updated_inputs wd fs m =
     (let ((updated, needs, missing), m) = walk_outputs xxh3 fs wd record_kept 0 (se_outputs e) outputs m in
      if needs = [] then (Inr updated, fs, m)
      else
        (let (restored, fs, m) =
           (case ctx of
              Some c \<Rightarrow> try_restore c e outputs needs updated_inputs wd fs m
            | None \<Rightarrow> (False, fs, m))
         in (if restored then Inr updated else Inl (if missing then OutputMissing else OutputChanged), fs, m)))"

definition needs_rebuild_cook ::
  "(str \<Rightarrow> u64) \<Rightarrow> step_entry option \<Rightarrow> step_query \<Rightarrow> str list \<Rightarrow> restore_ctx option \<Rightarrow> tree \<Rightarrow> stat_memo
    \<Rightarrow> (rebuild_result \<times> step_entry option) \<times> tree \<times> stat_memo" where
  "needs_rebuild_cook xxh3 entry q wd ctx fs m =
     (case entry of
        None \<Rightarrow> ((Rebuild NoCacheEntry, None), fs, m)
      | Some e \<Rightarrow>
          (case drift (entry_determinants e) (q_determinants q) of
             Some d \<Rightarrow> ((Rebuild (drift_reason d), None), fs, m)
           | None \<Rightarrow>
               (let (inputs, m) = check_inputs xxh3 fs wd (se_inputs e) (inputs_to_check e (q_inputs q) (q_discovered q)) m in
                case inputs of
                  Inl reason \<Rightarrow> ((Rebuild reason, None), fs, m)
                | Inr updated_inputs \<Rightarrow>
                    (let (modules, m) = check_module_inputs xxh3 fs wd (se_module_inputs e) m in
                     case modules of
                       Inl reason \<Rightarrow> ((Rebuild reason, None), fs, m)
                     | Inr updated_modules \<Rightarrow>
                         (let outputs = outputs_to_check e (q_outputs q) (q_discovered q) in
                          if length (se_outputs e) \<noteq> length outputs then ((Rebuild OutputMissing, None), fs, m)
                          else
                            (let (repaired, fs, m) =
                               repair_outputs xxh3 ctx e outputs (q_record q) updated_inputs wd fs m in
                             case repaired of
                               Inl reason \<Rightarrow> ((Rebuild reason, None), fs, m)
                             | Inr updated_outputs \<Rightarrow>
                                 ((Skip, Some (e\<lparr>se_inputs := updated_inputs, se_outputs := updated_outputs,
                                                 se_module_inputs := updated_modules\<rparr>)), fs, m)))))))"

section \<open>Recording a completed step\<close>

definition record_file :: "(str \<Rightarrow> u64) \<Rightarrow> tree \<Rightarrow> str list \<Rightarrow> str \<Rightarrow> file_record option" where
  "record_file xxh3 fs wd rel =
     (case observe_file fs wd rel of
        None \<Rightarrow> None
      | Some ob \<Rightarrow>
          (case hash_file xxh3 fs wd rel of
             None \<Rightarrow> None
           | Some h \<Rightarrow> Some \<lparr>fr_path = rel, fr_mtime = fo_mtime ob, fr_identity = fo_identity ob, fr_hash = h\<rparr>))"

definition collect_records :: "(str \<Rightarrow> u64) \<Rightarrow> tree \<Rightarrow> str list \<Rightarrow> str list \<Rightarrow> (str, file_record list) res" where
  "collect_records xxh3 fs wd paths =
     map_res (\<lambda>rel. case record_file xxh3 fs wd rel of Some r \<Rightarrow> Inr r | None \<Rightarrow> Inl rel) paths"

datatype record_error = MissingFile str | UnreadableFile str

definition map_error :: "('x \<Rightarrow> 'y) \<Rightarrow> ('x, 'v) res \<Rightarrow> ('y, 'v) res" where
  "map_error f r = (case r of Inl x \<Rightarrow> Inl (f x) | Inr v \<Rightarrow> Inr v)"

definition completion_entry ::
  "(str \<Rightarrow> u64) \<Rightarrow> tree \<Rightarrow> str list \<Rightarrow> cache_meta \<Rightarrow> u64 \<Rightarrow> str list \<Rightarrow> (record_error, step_entry) res" where
  "completion_entry xxh3 fs wd meta seal module_paths =
     bind_res (map_error MissingFile (collect_records xxh3 fs wd (map di_path (cm_inputs meta)))) (\<lambda>inputs.
     bind_res (map_error UnreadableFile (collect_records xxh3 fs wd (cm_output_paths meta))) (\<lambda>outputs.
     let outputs =
       (case cm_discovered_inputs meta of
          None \<Rightarrow> outputs
        | Some di \<Rightarrow>
            (case collect_records xxh3 fs wd [disc_from di] of
               Inr records \<Rightarrow> outputs @ records
             | Inl _ \<Rightarrow> outputs)) in
     bind_res (map_error UnreadableFile (collect_records xxh3 fs wd module_paths)) (\<lambda>modules.
     Inr \<lparr>se_inputs = inputs, se_outputs = outputs, se_command_hash = cm_command_hash meta,
          se_env_contribution = cm_env_contribution meta, se_seal_contribution = seal,
          se_module_inputs = modules, se_observed = None\<rparr>)))"

section \<open>Hashing does not depend on how the bytes arrive\<close>

fun pieces :: "read_result list \<Rightarrow> str option" where
  "pieces [] = Some []"
| "pieces (Got bytes # rs) = (if bytes = [] then Some [] else map_option (\<lambda>b. bytes @ b) (pieces rs))"
| "pieces (Interrupted # rs) = pieces rs"
| "pieces (ReadError # rs) = None"

lemma hash_reader_pieces: "hash_reader xxh3 hashed rs = map_option (\<lambda>b. xxh3 (hashed @ b)) (pieces rs)"
  by (induction xxh3 hashed rs rule: hash_reader.induct) (simp_all add: option.map_comp comp_def)

lemma hash_file_eq:
  "hash_file xxh3 fs wd rel =
     (case map_option node_kind (metadata fs wd (components rel)) of
        Some (FileNode (Some bytes)) \<Rightarrow> Some (xxh3 bytes)
      | _ \<Rightarrow> None)"
  by (auto simp: hash_file_def open_file_def split: option.splits fs_kind.splits)

lemma hash_file_seen: "hash_file xxh3 fs wd rel = Some h \<Longrightarrow> \<exists>ob. observe_file fs wd rel = Some ob"
  by (auto simp: hash_file_eq observe_file_def split: option.splits)

lemma hash_file_exists:
  "hash_file xxh3 fs wd rel = Some h \<Longrightarrow> path_exists fs wd rel \<and> \<not> path_is_dir fs wd rel"
  by (auto simp: hash_file_eq path_exists_def path_is_dir_def split: option.splits)

section \<open>The check on the tree itself\<close>

text \<open>What \<open>refresh\_file\_record\<close> gives when the memo only tells the truth.\<close>

definition refreshed :: "(str \<Rightarrow> u64) \<Rightarrow> tree \<Rightarrow> str list \<Rightarrow> bool \<Rightarrow> file_record \<Rightarrow> file_record option" where
  "refreshed xxh3 fs wd marker r =
     (case observe_file fs wd (fr_path r) of
        None \<Rightarrow> None
      | Some ob \<Rightarrow>
          if marker \<and> fr_hash r = empty_hash xxh3 \<and> fo_mtime ob \<noteq> fr_mtime r then None
          else if \<not> matches ob r \<and> hash_file xxh3 fs wd (fr_path r) \<noteq> Some (fr_hash r) then None
          else Some (r\<lparr>fr_mtime := fo_mtime ob, fr_identity := fo_identity ob\<rparr>))"

lemma refresh_true:
  assumes "memo_true fs m"
  shows "\<exists>m'. refresh_file_record xxh3 fs wd r marker m = (refreshed xxh3 fs wd marker r, m') \<and> memo_true fs m'"
  using memo_observe_true[OF assms, of wd "fr_path r"]
  by (auto simp: refresh_file_record_def refreshed_def Let_def case_prod_unfold)

definition refreshed_list :: "(str \<Rightarrow> u64) \<Rightarrow> tree \<Rightarrow> str list \<Rightarrow> bool \<Rightarrow> file_record list \<Rightarrow> file_record list" where
  "refreshed_list xxh3 fs wd marker rs =
     map (\<lambda>r. case refreshed xxh3 fs wd marker r of Some r' \<Rightarrow> r' | None \<Rightarrow> r) rs"

definition stale_paths :: "(str \<Rightarrow> u64) \<Rightarrow> tree \<Rightarrow> str list \<Rightarrow> bool \<Rightarrow> file_record list \<Rightarrow> str list" where
  "stale_paths xxh3 fs wd marker rs = map fr_path (filter (\<lambda>r. refreshed xxh3 fs wd marker r = None) rs)"

lemma refresh_all_true:
  "memo_true fs m \<Longrightarrow>
     \<exists>m'. refresh_all xxh3 fs wd marker rs m
            = ((refreshed_list xxh3 fs wd marker rs, stale_paths xxh3 fs wd marker rs), m') \<and> memo_true fs m'"
proof (induction rs arbitrary: m)
  case (Cons r rs)
  obtain m1 where m1: "refresh_file_record xxh3 fs wd r marker m = (refreshed xxh3 fs wd marker r, m1)" "memo_true fs m1"
    using refresh_true[OF Cons.prems] by blast
  obtain m2 where m2: "refresh_all xxh3 fs wd marker rs m1
      = ((refreshed_list xxh3 fs wd marker rs, stale_paths xxh3 fs wd marker rs), m2)" "memo_true fs m2"
    using Cons.IH[OF m1(2)] by blast
  show ?case using m1 m2 by (auto simp: Let_def refreshed_list_def stale_paths_def split: option.splits)
qed (simp add: refreshed_list_def stale_paths_def)

lemma stale_paths_Nil: "stale_paths xxh3 fs wd marker rs = [] \<longleftrightarrow> (\<forall>r \<in> set rs. refreshed xxh3 fs wd marker r \<noteq> None)"
  by (auto simp: stale_paths_def filter_empty_conv)

lemma check_modules_true:
  assumes "memo_true fs m"
  shows "\<exists>m'. check_module_inputs xxh3 fs wd rs m =
      (if stale_paths xxh3 fs wd False rs = [] then Inr (refreshed_list xxh3 fs wd False rs)
       else Inl (ModulesChanged (stale_paths xxh3 fs wd False rs)), m') \<and> memo_true fs m'"
  using refresh_all_true[OF assms, of xxh3 wd False rs] by (auto simp: check_module_inputs_def)

definition input_verdict :: "(str \<Rightarrow> u64) \<Rightarrow> tree \<Rightarrow> str list \<Rightarrow> file_record list \<Rightarrow> str list \<Rightarrow> (rebuild_reason, file_record list) res" where
  "input_verdict xxh3 fs wd rs current =
     (if map fr_path rs \<noteq> current
      then Inl (InputsChanged [] (btree_difference current (map fr_path rs)) (btree_difference (map fr_path rs) current))
      else if stale_paths xxh3 fs wd True rs \<noteq> [] then Inl (InputsChanged (stale_paths xxh3 fs wd True rs) [] [])
      else Inr (refreshed_list xxh3 fs wd True rs))"

lemma check_inputs_true:
  assumes "memo_true fs m"
  shows "\<exists>m'. check_inputs xxh3 fs wd rs current m = (input_verdict xxh3 fs wd rs current, m') \<and> memo_true fs m'"
  using refresh_all_true[OF assms, of xxh3 wd True rs] assms
  by (auto simp: check_inputs_def input_verdict_def Let_def)

text \<open>The output walk: what it makes of one output, and which outputs it passes.\<close>

definition walked :: "(str \<Rightarrow> u64) \<Rightarrow> tree \<Rightarrow> str list \<Rightarrow> bool \<Rightarrow> file_record \<Rightarrow> str \<Rightarrow> file_record" where
  "walked xxh3 fs wd kept r rel =
     (if path_exists fs wd rel \<and> \<not> kept \<and> \<not> path_is_dir fs wd rel
      then (case refreshed xxh3 fs wd False (output_record r rel) of Some r' \<Rightarrow> r' | None \<Rightarrow> output_record r rel)
      else r)"

definition output_passes :: "(str \<Rightarrow> u64) \<Rightarrow> tree \<Rightarrow> str list \<Rightarrow> bool \<Rightarrow> file_record \<Rightarrow> str \<Rightarrow> bool" where
  "output_passes xxh3 fs wd kept r rel \<longleftrightarrow>
     path_exists fs wd rel
     \<and> (kept \<or> path_is_dir fs wd rel \<or> refreshed xxh3 fs wd False (output_record r rel) \<noteq> None)"

lemma walk_outputs_true:
  "memo_true fs m \<Longrightarrow> length rs = length rels \<Longrightarrow>
     \<exists>m' missing. walk_outputs xxh3 fs wd kept i rs rels m =
       ((map2 (walked xxh3 fs wd kept) rs rels,
         map (\<lambda>k. i + k) (filter (\<lambda>k. \<not> output_passes xxh3 fs wd kept (rs ! k) (rels ! k)) [0..<length rs]),
         missing), m')
       \<and> memo_true fs m' \<and> (missing \<longleftrightarrow> (\<exists>k < length rels. \<not> path_exists fs wd (rels ! k)))"
proof (induction rs arbitrary: rels i m)
  case (Cons r rs rels')
  then obtain rel rels where rels: "rels' = rel # rels" "length rs = length rels" by (cases rels') auto
  have upt: "[0..<length (r # rs)] = 0 # map Suc [0..<length rs]"
    by (simp add: upt_conv_Cons map_Suc_upt del: upt_Suc)
  have shift: "map (\<lambda>k. i + k) (filter P (map Suc xs)) = map (\<lambda>k. (i + 1) + k) (filter (\<lambda>k. P (Suc k)) xs)" for P xs
    by (induction xs) auto
  have ex: "(\<exists>k < length (rel # rels). \<not> path_exists fs wd ((rel # rels) ! k)) \<longleftrightarrow>
      \<not> path_exists fs wd rel \<or> (\<exists>k < length rels. \<not> path_exists fs wd (rels ! k))"
    by (auto simp: less_Suc_eq_0_disj)
  obtain m1 where m1: "refresh_file_record xxh3 fs wd (output_record r rel) False m
      = (refreshed xxh3 fs wd False (output_record r rel), m1)" "memo_true fs m1"
    using refresh_true[OF Cons.prems(1)] by blast
  let ?m = "if path_exists fs wd rel \<and> \<not> kept \<and> \<not> path_is_dir fs wd rel then m1 else m"
  have "memo_true fs ?m" using m1(2) Cons.prems(1) by simp
  from Cons.IH[OF this rels(2), of "i + 1"] obtain m' missing where ih:
    "walk_outputs xxh3 fs wd kept (i + 1) rs rels ?m =
       ((map2 (walked xxh3 fs wd kept) rs rels,
         map (\<lambda>k. (i + 1) + k) (filter (\<lambda>k. \<not> output_passes xxh3 fs wd kept (rs ! k) (rels ! k)) [0..<length rs]),
         missing), m')"
    "memo_true fs m'" "missing \<longleftrightarrow> (\<exists>k < length rels. \<not> path_exists fs wd (rels ! k))" by blast
  show ?case
    unfolding rels(1) upt filter.simps nth_Cons_0 shift nth_Cons_Suc ex
    using ih m1(1)
    by (auto simp: Let_def walked_def output_passes_def shift simp del: upt_Suc split: if_splits option.splits)
qed (auto intro!: exI[of _ False])

section \<open>Records and the trees they were taken from\<close>

text \<open>A record is true of a tree when it is what \<open>record\_file\<close> would make of that tree now.\<close>

definition record_true :: "(str \<Rightarrow> u64) \<Rightarrow> tree \<Rightarrow> str list \<Rightarrow> file_record \<Rightarrow> bool" where
  "record_true xxh3 fs wd r \<longleftrightarrow> record_file xxh3 fs wd (fr_path r) = Some r"

text \<open>
  What the platform promises of an identity: a file that has the identity it had in an earlier tree
  has the bytes it had there.
\<close>

definition identity_kept :: "(str \<Rightarrow> u64) \<Rightarrow> tree \<Rightarrow> tree \<Rightarrow> str list \<Rightarrow> str \<Rightarrow> bool" where
  "identity_kept xxh3 fs0 fs wd p \<longleftrightarrow>
     (\<forall>ob0 ob. observe_file fs0 wd p = Some ob0 \<and> observe_file fs wd p = Some ob
        \<and> fo_identity ob \<noteq> None \<and> fo_identity ob = fo_identity ob0
        \<longrightarrow> hash_file xxh3 fs wd p = hash_file xxh3 fs0 wd p)"

lemma record_true_iff:
  "record_true xxh3 fs wd r \<longleftrightarrow>
     observe_file fs wd (fr_path r) = Some \<lparr>fo_mtime = fr_mtime r, fo_identity = fr_identity r\<rparr>
     \<and> hash_file xxh3 fs wd (fr_path r) = Some (fr_hash r)"
  by (cases r) (auto simp: record_true_def record_file_def split: option.splits)

text \<open>The evidence of a record suffices when its identity, seen again, means its hash.\<close>

definition evidence_for :: "(str \<Rightarrow> u64) \<Rightarrow> tree \<Rightarrow> str list \<Rightarrow> file_record \<Rightarrow> bool" where
  "evidence_for xxh3 fs wd r \<longleftrightarrow>
     (\<forall>ob. observe_file fs wd (fr_path r) = Some ob \<and> matches ob r \<longrightarrow> hash_file xxh3 fs wd (fr_path r) = Some (fr_hash r))"

lemma evidence_kept:
  "record_true xxh3 fs0 wd r \<Longrightarrow> identity_kept xxh3 fs0 fs wd (fr_path r) \<Longrightarrow> evidence_for xxh3 fs wd r"
  by (auto simp: evidence_for_def record_true_iff identity_kept_def matches_def)

lemma evidence_output:
  "evidence_for xxh3 fs wd r \<Longrightarrow> evidence_for xxh3 fs wd (output_record r rel)"
  by (auto simp: evidence_for_def output_record_def matches_def)

lemma refreshed_Some:
  assumes "evidence_for xxh3 fs wd r" and "refreshed xxh3 fs wd marker r = Some r'"
  shows "record_true xxh3 fs wd r'" "fr_path r' = fr_path r" "fr_hash r' = fr_hash r"
    "marker \<and> fr_hash r = empty_hash xxh3 \<Longrightarrow> stat_mtime fs wd (fr_path r) = Some (fr_mtime r)"
  using assms
  by (auto simp: refreshed_def record_true_iff evidence_for_def stat_mtime_def split: option.splits if_splits)

lemma refreshed_iff:
  assumes "evidence_for xxh3 fs wd r"
  shows "refreshed xxh3 fs wd marker r \<noteq> None \<longleftrightarrow>
     hash_file xxh3 fs wd (fr_path r) = Some (fr_hash r)
     \<and> (marker \<and> fr_hash r = empty_hash xxh3 \<longrightarrow> stat_mtime fs wd (fr_path r) = Some (fr_mtime r))"
  using assms hash_file_seen[of xxh3 fs wd "fr_path r"]
  by (auto simp: refreshed_def evidence_for_def stat_mtime_def split: option.splits if_splits)

lemma refreshed_same:
  assumes "record_true xxh3 fs wd r"
  shows "refreshed xxh3 fs wd marker r = Some r"
  using assms by (simp add: record_true_iff refreshed_def)

section \<open>When a step is up to date\<close>

text \<open>The reference the check is held to: contents compared, and nothing else.\<close>

definition content_current :: "(str \<Rightarrow> u64) \<Rightarrow> tree \<Rightarrow> str list \<Rightarrow> file_record \<Rightarrow> bool" where
  "content_current xxh3 fs wd r \<longleftrightarrow> hash_file xxh3 fs wd (fr_path r) = Some (fr_hash r)"

definition input_current :: "(str \<Rightarrow> u64) \<Rightarrow> tree \<Rightarrow> str list \<Rightarrow> file_record \<Rightarrow> bool" where
  "input_current xxh3 fs wd r \<longleftrightarrow>
     content_current xxh3 fs wd r \<and> (fr_hash r = empty_hash xxh3 \<longrightarrow> stat_mtime fs wd (fr_path r) = Some (fr_mtime r))"

definition output_current :: "(str \<Rightarrow> u64) \<Rightarrow> tree \<Rightarrow> str list \<Rightarrow> bool \<Rightarrow> file_record \<Rightarrow> str \<Rightarrow> bool" where
  "output_current xxh3 fs wd kept r rel \<longleftrightarrow>
     path_exists fs wd rel \<and> (kept \<or> path_is_dir fs wd rel \<or> hash_file xxh3 fs wd rel = Some (fr_hash r))"

definition stale_outputs :: "(str \<Rightarrow> u64) \<Rightarrow> step_entry \<Rightarrow> step_query \<Rightarrow> str list \<Rightarrow> tree \<Rightarrow> nat list" where
  "stale_outputs xxh3 e q wd fs =
     filter (\<lambda>k. \<not> output_current xxh3 fs wd (q_record q) (se_outputs e ! k) (outputs_to_check e (q_outputs q) (q_discovered q) ! k))
       [0..<length (se_outputs e)]"

definition inputs_stand :: "(str \<Rightarrow> u64) \<Rightarrow> step_entry \<Rightarrow> step_query \<Rightarrow> str list \<Rightarrow> tree \<Rightarrow> bool" where
  "inputs_stand xxh3 e q wd fs \<longleftrightarrow>
     entry_determinants e = q_determinants q
     \<and> (q_discovered q = None \<longrightarrow> map fr_path (se_inputs e) = q_inputs q)
     \<and> (\<forall>r \<in> set (se_inputs e). input_current xxh3 fs wd r)
     \<and> (\<forall>r \<in> set (se_module_inputs e). content_current xxh3 fs wd r)
     \<and> length (se_outputs e) = length (outputs_to_check e (q_outputs q) (q_discovered q))"

text \<open>The restore an entry calls for, under the key its unchanged inputs compose.\<close>

definition entry_key :: "restore_ctx \<Rightarrow> step_entry \<Rightarrow> str" where
  "entry_key ctx e =
     step_key ctx (se_command_hash e) (se_env_contribution e) (se_seal_contribution e) (sort (map fr_hash (se_inputs e)))"

definition restore_outputs :: "restore_ctx \<Rightarrow> step_entry \<Rightarrow> step_query \<Rightarrow> nat list \<Rightarrow> str list \<Rightarrow> tree \<Rightarrow> bool \<times> tree" where
  "restore_outputs ctx e q needs wd fs =
     two_pass (restore_index ctx (entry_key ctx e) wd (\<lambda>i. Some (fr_hash (se_outputs e ! i)))) snd wd
       (map (\<lambda>i. (i, outputs_to_check e (q_outputs q) (q_discovered q) ! i)) needs) fs"

definition recorded_on :: "(str \<Rightarrow> u64) \<Rightarrow> tree \<Rightarrow> tree \<Rightarrow> str list \<Rightarrow> step_entry \<Rightarrow> bool" where
  "recorded_on xxh3 fs0 fs wd e \<longleftrightarrow>
     (\<forall>r \<in> set (step_records e). record_true xxh3 fs0 wd r \<and> identity_kept xxh3 fs0 fs wd (fr_path r))"

lemma recorded_evidence: "recorded_on xxh3 fs0 fs wd e \<Longrightarrow> r \<in> set (step_records e) \<Longrightarrow> evidence_for xxh3 fs wd r"
  unfolding recorded_on_def using evidence_kept by blast

lemma record_sets: "set (step_records e) = set (se_inputs e) \<union> set (se_outputs e) \<union> set (se_module_inputs e)"
  by (auto simp: step_records_def)

lemma output_passes_iff:
  assumes "evidence_for xxh3 fs wd r"
  shows "output_passes xxh3 fs wd kept r rel \<longleftrightarrow> output_current xxh3 fs wd kept r rel"
proof -
  have "fr_path (output_record r rel) = rel" "fr_hash (output_record r rel) = fr_hash r"
    by (simp_all add: output_record_def)
  then show ?thesis
    using refreshed_iff[OF evidence_output[OF assms], of False rel] by (auto simp: output_passes_def output_current_def)
qed

lemma refreshed_list_hashes:
  assumes "\<And>r. r \<in> set rs \<Longrightarrow> evidence_for xxh3 fs wd r"
  shows "map fr_hash (refreshed_list xxh3 fs wd marker rs) = map fr_hash rs"
proof -
  have "fr_hash (case refreshed xxh3 fs wd marker r of Some r' \<Rightarrow> r' | None \<Rightarrow> r) = fr_hash r" if "r \<in> set rs" for r
    using refreshed_Some(3)[OF assms[OF that]] by (auto split: option.splits)
  then show ?thesis by (simp add: refreshed_list_def)
qed


text \<open>The check, with every walk replaced by its outcome.\<close>

lemma needs_rebuild_true:
  fixes e q wd fs and xxh3 :: "str \<Rightarrow> u64"
  defines "outs \<equiv> outputs_to_check e (q_outputs q) (q_discovered q)"
  defines "ui \<equiv> refreshed_list xxh3 fs wd True (se_inputs e)"
    and "um \<equiv> refreshed_list xxh3 fs wd False (se_module_inputs e)"
    and "uo \<equiv> map2 (walked xxh3 fs wd (q_record q)) (se_outputs e) outs"
    and "needs \<equiv> filter (\<lambda>k. \<not> output_passes xxh3 fs wd (q_record q) (se_outputs e ! k) (outs ! k)) [0..<length (se_outputs e)]"
  assumes memo: "memo_true fs m"
  shows "\<exists>m1. memo_true fs m1 \<and>
     fst (needs_rebuild_cook xxh3 (Some e) q wd ctx fs m) =
       (case drift (entry_determinants e) (q_determinants q) of
          Some d \<Rightarrow> (Rebuild (drift_reason d), None)
        | None \<Rightarrow>
            (case input_verdict xxh3 fs wd (se_inputs e) (inputs_to_check e (q_inputs q) (q_discovered q)) of
               Inl reason \<Rightarrow> (Rebuild reason, None)
             | Inr _ \<Rightarrow>
                 if stale_paths xxh3 fs wd False (se_module_inputs e) \<noteq> []
                 then (Rebuild (ModulesChanged (stale_paths xxh3 fs wd False (se_module_inputs e))), None)
                 else if length (se_outputs e) \<noteq> length outs then (Rebuild OutputMissing, None)
                 else if needs = [] \<or> (\<exists>c. ctx = Some c \<and> fst (try_restore c e outs needs ui wd fs m1))
                 then (Skip, Some (e\<lparr>se_inputs := ui, se_outputs := uo, se_module_inputs := um\<rparr>))
                 else (Rebuild (if \<exists>k < length outs. \<not> path_exists fs wd (outs ! k) then OutputMissing else OutputChanged), None)))
     \<and> fst (snd (needs_rebuild_cook xxh3 (Some e) q wd ctx fs m)) =
       (case ctx of
          Some c \<Rightarrow>
            if drift (entry_determinants e) (q_determinants q) = None
              \<and> (\<exists>us. input_verdict xxh3 fs wd (se_inputs e) (inputs_to_check e (q_inputs q) (q_discovered q)) = Inr us)
              \<and> stale_paths xxh3 fs wd False (se_module_inputs e) = [] \<and> length (se_outputs e) = length outs \<and> needs \<noteq> []
            then fst (snd (try_restore c e outs needs ui wd fs m1)) else fs
        | None \<Rightarrow> fs)"
proof -
  let ?paths = "inputs_to_check e (q_inputs q) (q_discovered q)"
  obtain mi where mi: "check_inputs xxh3 fs wd (se_inputs e) ?paths m = (input_verdict xxh3 fs wd (se_inputs e) ?paths, mi)" "memo_true fs mi"
    using check_inputs_true[OF memo] by blast
  obtain mm where mm: "check_module_inputs xxh3 fs wd (se_module_inputs e) mi =
      (if stale_paths xxh3 fs wd False (se_module_inputs e) = [] then Inr um
       else Inl (ModulesChanged (stale_paths xxh3 fs wd False (se_module_inputs e))), mm)" "memo_true fs mm"
    using check_modules_true[OF mi(2)] um_def by blast
  have ui: "input_verdict xxh3 fs wd (se_inputs e) ?paths = Inr us \<Longrightarrow> us = ui" for us
    by (auto simp: input_verdict_def ui_def split: if_splits)
  show ?thesis
  proof (cases "length (se_outputs e) = length outs")
    case True
    obtain mo missing where mo: "walk_outputs xxh3 fs wd (q_record q) 0 (se_outputs e) outs mm = ((uo, needs, missing), mo)"
      "memo_true fs mo" "missing \<longleftrightarrow> (\<exists>k < length outs. \<not> path_exists fs wd (outs ! k))"
      using walk_outputs_true[OF mm(2) True, of xxh3 wd "q_record q" 0] by (auto simp: uo_def needs_def)
    show ?thesis
      by (intro exI[of _ mo])
        (auto simp: needs_rebuild_cook_def mi mm mo repair_outputs_def True ui Let_def case_prod_unfold
           simp flip: outs_def split: option.splits sum.splits dest: ui)
  next
    case False
    then show ?thesis
      by (intro exI[of _ mm])
        (auto simp: needs_rebuild_cook_def mi mm Let_def case_prod_unfold simp flip: outs_def split: option.splits sum.splits)
  qed
qed

lemma try_restore_eq:
  assumes "\<And>r. r \<in> set (se_inputs e) \<Longrightarrow> evidence_for xxh3 fs wd r"
  shows "try_restore c e (outputs_to_check e (q_outputs q) (q_discovered q)) needs (refreshed_list xxh3 fs wd True (se_inputs e)) wd fs m
    = (fst (restore_outputs c e q needs wd fs), snd (restore_outputs c e q needs wd fs), disarm m)"
  using refreshed_list_hashes[of "se_inputs e" xxh3 fs wd True] assms
  by (simp add: try_restore_def restore_outputs_def entry_key_def Let_def case_prod_unfold)

lemma input_verdict_iff:
  assumes "\<And>r. r \<in> set rs \<Longrightarrow> evidence_for xxh3 fs wd r"
  shows "(\<exists>us. input_verdict xxh3 fs wd rs current = Inr us) \<longleftrightarrow>
     map fr_path rs = current \<and> (\<forall>r \<in> set rs. input_current xxh3 fs wd r)"
proof -
  have "refreshed xxh3 fs wd True r \<noteq> None \<longleftrightarrow> input_current xxh3 fs wd r" if "r \<in> set rs" for r
    using refreshed_iff[OF assms[OF that], of True] by (simp add: input_current_def content_current_def)
  then have "stale_paths xxh3 fs wd True rs = [] \<longleftrightarrow> (\<forall>r \<in> set rs. input_current xxh3 fs wd r)"
    unfolding stale_paths_Nil by blast
  then show ?thesis by (auto simp: input_verdict_def)
qed

lemma stale_modules_iff:
  assumes "\<And>r. r \<in> set rs \<Longrightarrow> evidence_for xxh3 fs wd r"
  shows "stale_paths xxh3 fs wd False rs = [] \<longleftrightarrow> (\<forall>r \<in> set rs. content_current xxh3 fs wd r)"
proof -
  have "refreshed xxh3 fs wd False r \<noteq> None \<longleftrightarrow> content_current xxh3 fs wd r" if "r \<in> set rs" for r
    using refreshed_iff[OF assms[OF that], of False] by (simp add: content_current_def)
  then show ?thesis unfolding stale_paths_Nil by blast
qed

text \<open>The outcome of the check in terms of the reference.\<close>

lemma needs_rebuild_reference:
  fixes q :: step_query and ctx :: "restore_ctx option"
  assumes memo: "memo_true fs m" and rec: "recorded_on xxh3 fs0 fs wd e"
  defines "stale \<equiv> stale_outputs xxh3 e q wd fs"
  defines "r \<equiv> needs_rebuild_cook xxh3 (Some e) q wd ctx fs m"
  shows "fst (fst r) = Skip \<longleftrightarrow> inputs_stand xxh3 e q wd fs
      \<and> (stale = [] \<or> (\<exists>c. ctx = Some c \<and> fst (restore_outputs c e q stale wd fs)))"
    and "snd (fst r) = (if fst (fst r) = Skip
          then Some (e\<lparr>se_inputs := refreshed_list xxh3 fs wd True (se_inputs e),
                       se_outputs := map2 (walked xxh3 fs wd (q_record q)) (se_outputs e) (outputs_to_check e (q_outputs q) (q_discovered q)),
                       se_module_inputs := refreshed_list xxh3 fs wd False (se_module_inputs e)\<rparr>) else None)"
    and "fst (snd r) = (case ctx of
          Some c \<Rightarrow> if inputs_stand xxh3 e q wd fs \<and> stale \<noteq> [] then snd (restore_outputs c e q stale wd fs) else fs
        | None \<Rightarrow> fs)"
proof -
  let ?outs = "outputs_to_check e (q_outputs q) (q_discovered q)" and ?ins = "inputs_to_check e (q_inputs q) (q_discovered q)"
  have ev: "evidence_for xxh3 fs wd r" if "r \<in> set (se_inputs e) \<union> set (se_outputs e) \<union> set (se_module_inputs e)" for r
    using recorded_evidence[OF rec] that record_sets by blast
  have ins: "(\<exists>us. input_verdict xxh3 fs wd (se_inputs e) ?ins = Inr us) \<longleftrightarrow>
      (q_discovered q = None \<longrightarrow> map fr_path (se_inputs e) = q_inputs q) \<and> (\<forall>r \<in> set (se_inputs e). input_current xxh3 fs wd r)"
    using input_verdict_iff[of "se_inputs e" xxh3 fs wd ?ins] ev by (auto simp: inputs_to_check_def split: option.splits)
  have mods: "stale_paths xxh3 fs wd False (se_module_inputs e) = [] \<longleftrightarrow> (\<forall>r \<in> set (se_module_inputs e). content_current xxh3 fs wd r)"
    using stale_modules_iff[of "se_module_inputs e" xxh3 fs wd] ev by blast
  have needs: "filter (\<lambda>k. \<not> output_passes xxh3 fs wd (q_record q) (se_outputs e ! k) (?outs ! k)) [0..<length (se_outputs e)] = stale"
    unfolding stale_def stale_outputs_def using output_passes_iff ev by (intro filter_cong) auto
  have restore: "try_restore c e ?outs needs (refreshed_list xxh3 fs wd True (se_inputs e)) wd fs m1
      = (fst (restore_outputs c e q needs wd fs), snd (restore_outputs c e q needs wd fs), disarm m1)" for c needs m1
    using try_restore_eq[of e xxh3 fs wd c q needs m1] ev by blast
  have stands: "inputs_stand xxh3 e q wd fs \<longleftrightarrow>
      drift (entry_determinants e) (q_determinants q) = None
      \<and> (\<exists>us. input_verdict xxh3 fs wd (se_inputs e) ?ins = Inr us)
      \<and> stale_paths xxh3 fs wd False (se_module_inputs e) = [] \<and> length (se_outputs e) = length ?outs"
    unfolding inputs_stand_def ins mods drift_None_iff by blast
  obtain m1 where result: "fst r =
       (case drift (entry_determinants e) (q_determinants q) of
          Some d \<Rightarrow> (Rebuild (drift_reason d), None)
        | None \<Rightarrow>
            (case input_verdict xxh3 fs wd (se_inputs e) ?ins of
               Inl reason \<Rightarrow> (Rebuild reason, None)
             | Inr _ \<Rightarrow>
                 if stale_paths xxh3 fs wd False (se_module_inputs e) \<noteq> []
                 then (Rebuild (ModulesChanged (stale_paths xxh3 fs wd False (se_module_inputs e))), None)
                 else if length (se_outputs e) \<noteq> length ?outs then (Rebuild OutputMissing, None)
                 else if stale = [] \<or> (\<exists>c. ctx = Some c \<and> fst (restore_outputs c e q stale wd fs))
                 then (Skip, Some (e\<lparr>se_inputs := refreshed_list xxh3 fs wd True (se_inputs e),
                       se_outputs := map2 (walked xxh3 fs wd (q_record q)) (se_outputs e) ?outs,
                       se_module_inputs := refreshed_list xxh3 fs wd False (se_module_inputs e)\<rparr>))
                 else (Rebuild (if \<exists>k < length ?outs. \<not> path_exists fs wd (?outs ! k) then OutputMissing else OutputChanged), None)))"
    and tree: "fst (snd r) =
       (case ctx of
          Some c \<Rightarrow> if inputs_stand xxh3 e q wd fs \<and> stale \<noteq> [] then snd (restore_outputs c e q stale wd fs) else fs
        | None \<Rightarrow> fs)"
    using needs_rebuild_true[OF memo, of xxh3 e q wd ctx] unfolding needs restore fst_conv snd_conv stands r_def conj_assoc
    by blast
  show "fst (snd r) = (case ctx of
          Some c \<Rightarrow> if inputs_stand xxh3 e q wd fs \<and> stale \<noteq> [] then snd (restore_outputs c e q stale wd fs) else fs
        | None \<Rightarrow> fs)" by (rule tree)
  show "fst (fst r) = Skip \<longleftrightarrow> inputs_stand xxh3 e q wd fs
      \<and> (stale = [] \<or> (\<exists>c. ctx = Some c \<and> fst (restore_outputs c e q stale wd fs)))"
    unfolding result stands by (auto split: option.splits sum.splits)
  show "snd (fst r) = (if fst (fst r) = Skip
          then Some (e\<lparr>se_inputs := refreshed_list xxh3 fs wd True (se_inputs e),
                       se_outputs := map2 (walked xxh3 fs wd (q_record q)) (se_outputs e) ?outs,
                       se_module_inputs := refreshed_list xxh3 fs wd False (se_module_inputs e)\<rparr>) else None)"
    unfolding result by (auto split: option.splits sum.splits)
qed

text \<open>
  C4: The check skips exactly the steps that are up to date. It compares recorded with current metadata
  and hashes only where that moved; the outcome is the one of comparing contents. For an entry whose
  records were true of an earlier tree, on a platform where an identity seen again means the bytes
  seen then, a step is skipped exactly when command, environment and sealed values are the recorded
  ones, the declared inputs are the recorded ones in their order, every input and module has its
  recorded content (and an empty marker its recorded time), and every output is there with its recorded
  content, is a directory, or is authoritative by declaration, or all that are not could be restored.
\<close>

theorem skip_exact:
  assumes memo: "memo_true fs m" and recorded: "recorded_on xxh3 fs0 fs wd e"
  shows "fst (fst (needs_rebuild_cook xxh3 (Some e) q wd ctx fs m)) = Skip \<longleftrightarrow>
     inputs_stand xxh3 e q wd fs
     \<and> (stale_outputs xxh3 e q wd fs = []
        \<or> (\<exists>c. ctx = Some c \<and> fst (restore_outputs c e q (stale_outputs xxh3 e q wd fs) wd fs)))"
  by (rule needs_rebuild_reference(1)[OF memo recorded])










lemma collected:
  assumes "collect_records xxh3 fs wd paths = Inr rs"
  shows "map fr_path rs = paths \<and> (\<forall>r \<in> set rs. record_true xxh3 fs wd r)"
proof -
  have one: "fr_path r = rel \<and> record_true xxh3 fs wd r" if "record_file xxh3 fs wd rel = Some r" for rel r
    using that by (auto simp: record_true_def record_file_def split: option.splits)
  have "list_all2 (\<lambda>rel r. record_file xxh3 fs wd rel = Some r) paths rs"
    using assms unfolding collect_records_def map_res_Inr
    by (rule list_all2_mono) (auto split: option.splits)
  then show ?thesis by (induction rule: list_all2_induct) (use one in auto)
qed

text \<open>What the check is asked right after a completion: the declaration that was recorded.\<close>

definition query_of :: "cache_meta \<Rightarrow> u64 \<Rightarrow> step_query" where
  "query_of meta seal =
     \<lparr>q_inputs = map di_path (cm_inputs meta), q_outputs = cm_output_paths meta,
      q_determinants = \<lparr>command_hash = cm_command_hash meta, env_contribution = cm_env_contribution meta, seal_contribution = seal\<rparr>,
      q_discovered = cm_discovered_inputs meta, q_record = cm_record meta\<rparr>"

lemma completion_facts:
  assumes "completion_entry xxh3 fs wd meta seal modules = Inr e"
  shows "map fr_path (se_inputs e) = map di_path (cm_inputs meta)"
    "map fr_path (se_outputs e) = outputs_to_check e (cm_output_paths meta) (cm_discovered_inputs meta)"
    "\<forall>r \<in> set (step_records e). record_true xxh3 fs wd r"
    "entry_determinants e = q_determinants (query_of meta seal)" "map fr_path (se_module_inputs e) = modules"
proof -
  have err: "map_error f x = Inr v \<longleftrightarrow> x = Inr v" for f :: "str \<Rightarrow> record_error" and x and v :: "file_record list"
    by (auto simp: map_error_def split: sum.splits)
  obtain ins os ms where parts: "collect_records xxh3 fs wd (map di_path (cm_inputs meta)) = Inr ins"
    "collect_records xxh3 fs wd (cm_output_paths meta) = Inr os" "collect_records xxh3 fs wd modules = Inr ms"
    and e: "e = \<lparr>se_inputs = ins,
       se_outputs = (case cm_discovered_inputs meta of None \<Rightarrow> os
          | Some di \<Rightarrow> (case collect_records xxh3 fs wd [disc_from di] of Inr records \<Rightarrow> os @ records | Inl _ \<Rightarrow> os)),
       se_command_hash = cm_command_hash meta, se_env_contribution = cm_env_contribution meta, se_seal_contribution = seal,
       se_module_inputs = ms, se_observed = None\<rparr>"
    using assms by (auto simp: completion_entry_def bind_res_Inr_iff err Let_def)
  note c = collected[OF parts(1)] collected[OF parts(2)] collected[OF parts(3)]
  have len: "length os = length (cm_output_paths meta)" using c(2) by (metis length_map)
  show "map fr_path (se_inputs e) = map di_path (cm_inputs meta)" "map fr_path (se_module_inputs e) = modules"
    using c e by simp_all
  show "entry_determinants e = q_determinants (query_of meta seal)" by (simp add: e entry_determinants_def query_of_def)
  obtain dep where dep: "se_outputs e = os @ dep" "\<forall>r \<in> set dep. record_true xxh3 fs wd r"
    "dep = [] \<or> (\<exists>di. cm_discovered_inputs meta = Some di \<and> map fr_path dep = [disc_from di])"
  proof (cases "cm_discovered_inputs meta")
    case None
    then show ?thesis using that[of "[]"] by (simp add: e)
  next
    case (Some di)
    show ?thesis
    proof (cases "collect_records xxh3 fs wd [disc_from di]")
      case (Inl x)
      then show ?thesis using that[of "[]"] Some by (simp add: e)
    next
      case (Inr records)
      then show ?thesis using that[of records] collected[OF Inr] Some by (simp add: e)
    qed
  qed
  have "length dep \<le> 1" "dep \<noteq> [] \<Longrightarrow> length dep = 1" using dep(3) by (auto dest!: arg_cong[where f = length])
  then show "map fr_path (se_outputs e) = outputs_to_check e (cm_output_paths meta) (cm_discovered_inputs meta)"
    using c(2) len dep(1,3) by (auto simp: outputs_to_check_def split: option.splits)
  show "\<forall>r \<in> set (step_records e). record_true xxh3 fs wd r"
    using c dep by (auto simp: e step_records_def split: option.splits)
qed

text \<open>
  C11: A completed step is fresh. The entry \<open>record\_completion\<close> makes of a finished step is one the
  check skips on the same tree, under the same declaration, whatever the memo has observed of that
  tree, without touching the store or the tree, and the entry it returns is the one that was made: a
  settled build runs nothing again and has nothing to write back. This holds with and without a
  depfile, and whether or not the depfile was there to be recorded.
\<close>

theorem recorded_then_fresh:
  assumes made: "completion_entry xxh3 fs wd meta seal modules = Inr e" and memo: "memo_true fs m"
  shows "\<exists>m'. needs_rebuild_cook xxh3 (Some e) (query_of meta seal) wd ctx fs m = ((Skip, Some e), fs, m')"
proof -
  let ?q = "query_of meta seal" and ?r = "needs_rebuild_cook xxh3 (Some e) (query_of meta seal) wd ctx fs m"
  note facts = completion_facts[OF made]
  have true: "record_true xxh3 fs wd r" if "r \<in> set (se_inputs e) \<or> r \<in> set (se_outputs e) \<or> r \<in> set (se_module_inputs e)" for r
    using facts(3) that unfolding record_sets by blast
  have recorded: "recorded_on xxh3 fs fs wd e" using facts(3) by (simp add: recorded_on_def identity_kept_def)
  let ?outs = "outputs_to_check e (q_outputs ?q) (q_discovered ?q)"
  have outs: "?outs = map fr_path (se_outputs e)" using facts(2) by (simp add: query_of_def)
  have current: "content_current xxh3 fs wd r \<and> input_current xxh3 fs wd r" if "record_true xxh3 fs wd r" for r
    using that by (simp add: record_true_iff content_current_def input_current_def stat_mtime_def)
  have "inputs_stand xxh3 e ?q wd fs"
    using facts(1,4) true current outs by (auto simp: inputs_stand_def query_of_def)
  moreover have "stale_outputs xxh3 e ?q wd fs = []"
  proof -
    have "hash_file xxh3 fs wd (fr_path r) = Some (fr_hash r)" if "r \<in> set (se_outputs e)" for r
      using true that by (simp add: record_true_iff)
    then have "output_current xxh3 fs wd kept r (fr_path r)" if "r \<in> set (se_outputs e)" for r kept
      using hash_file_exists[of xxh3 fs wd "fr_path r"] that by (simp add: output_current_def)
    then show ?thesis by (auto simp: stale_outputs_def outs filter_empty_conv)
  qed
  moreover note ref = needs_rebuild_reference[OF memo recorded, of ?q ctx]
  ultimately have res: "fst (fst ?r) = Skip" "fst (snd ?r) = fs" by (auto split: option.splits)
  have same: "refreshed_list xxh3 fs wd marker rs = rs" if "\<forall>r \<in> set rs. record_true xxh3 fs wd r" for marker rs
    using that by (auto simp: refreshed_list_def refreshed_same intro: map_idI)
  have "walked xxh3 fs wd kept r (fr_path r) = r" if "record_true xxh3 fs wd r" for kept r
    using that by (simp add: walked_def output_record_def refreshed_same)
  then have "map2 (walked xxh3 fs wd (q_record ?q)) (se_outputs e) ?outs = se_outputs e"
    using true unfolding outs by (auto simp: intro: nth_equalityI)
  then have "snd (fst ?r) = Some e" using ref(2) res(1) same true by auto
  then have "?r = ((Skip, Some e), fs, snd (snd ?r))" using res by (metis prod.collapse)
  then show ?thesis by blast
qed

section \<open>Why a step is rebuilt\<close>

lemma set_btree_difference: "set (btree_difference xs ys) = set xs - set ys"
  by (auto simp: btree_difference_def btree_set_set)

text \<open>What each reason says of the entry, the declaration and the tree.\<close>

fun reason_holds :: "(str \<Rightarrow> u64) \<Rightarrow> step_entry \<Rightarrow> step_query \<Rightarrow> str list \<Rightarrow> restore_ctx option \<Rightarrow> tree \<Rightarrow> rebuild_reason \<Rightarrow> bool" where
  "reason_holds xxh3 e q wd ctx fs NoCacheEntry = False"
| "reason_holds xxh3 e q wd ctx fs CommandHashChanged = (se_command_hash e \<noteq> command_hash (q_determinants q))"
| "reason_holds xxh3 e q wd ctx fs EnvChanged =
     (se_command_hash e = command_hash (q_determinants q) \<and> se_env_contribution e \<noteq> determinants.env_contribution (q_determinants q))"
| "reason_holds xxh3 e q wd ctx fs SealChanged =
     (se_command_hash e = command_hash (q_determinants q) \<and> se_env_contribution e = determinants.env_contribution (q_determinants q)
      \<and> se_seal_contribution e \<noteq> determinants.seal_contribution (q_determinants q))"
| "reason_holds xxh3 e q wd ctx fs (InputsChanged changed added removed) =
     (entry_determinants e = q_determinants q \<and>
      (if q_discovered q = None \<and> map fr_path (se_inputs e) \<noteq> q_inputs q
       then changed = [] \<and> set added = set (q_inputs q) - fr_path ` set (se_inputs e)
            \<and> set removed = fr_path ` set (se_inputs e) - set (q_inputs q)
       else changed \<noteq> [] \<and> added = [] \<and> removed = []
            \<and> changed = map fr_path (filter (\<lambda>r. \<not> input_current xxh3 fs wd r) (se_inputs e))))"
| "reason_holds xxh3 e q wd ctx fs (ModulesChanged changed) =
     (entry_determinants e = q_determinants q \<and> (\<forall>r \<in> set (se_inputs e). input_current xxh3 fs wd r) \<and> changed \<noteq> []
      \<and> changed = map fr_path (filter (\<lambda>r. \<not> content_current xxh3 fs wd r) (se_module_inputs e)))"
| "reason_holds xxh3 e q wd ctx fs OutputMissing =
     (entry_determinants e = q_determinants q \<and> (\<forall>r \<in> set (se_inputs e). input_current xxh3 fs wd r)
      \<and> (length (se_outputs e) \<noteq> length (outputs_to_check e (q_outputs q) (q_discovered q))
         \<or> (\<exists>rel \<in> set (outputs_to_check e (q_outputs q) (q_discovered q)). \<not> path_exists fs wd rel)))"
| "reason_holds xxh3 e q wd ctx fs OutputChanged =
     (inputs_stand xxh3 e q wd fs \<and> stale_outputs xxh3 e q wd fs \<noteq> []
      \<and> (\<forall>rel \<in> set (outputs_to_check e (q_outputs q) (q_discovered q)). path_exists fs wd rel))"

definition summary_of :: "rebuild_reason \<Rightarrow> str option" where
  "summary_of reason = (case cause_summary reason of Some s \<Rightarrow> s | None \<Rightarrow> None)"

lemma summary_total: "(\<forall>changed. reason = ModulesChanged changed \<longrightarrow> changed \<noteq> []) \<Longrightarrow> cause_summary reason \<noteq> None"
  by (cases reason) (auto simp: cause_summary_def capped_def Let_def split: list.splits)

lemma stale_inputs_current:
  assumes "\<And>r. r \<in> set rs \<Longrightarrow> evidence_for xxh3 fs wd r"
  shows "stale_paths xxh3 fs wd True rs = map fr_path (filter (\<lambda>r. \<not> input_current xxh3 fs wd r) rs)"
    and "stale_paths xxh3 fs wd False rs = map fr_path (filter (\<lambda>r. \<not> content_current xxh3 fs wd r) rs)"
proof -
  have "refreshed xxh3 fs wd True r = None \<longleftrightarrow> \<not> input_current xxh3 fs wd r"
    "refreshed xxh3 fs wd False r = None \<longleftrightarrow> \<not> content_current xxh3 fs wd r" if "r \<in> set rs" for r
    using refreshed_iff[OF assms[OF that], of True] refreshed_iff[OF assms[OF that], of False]
    unfolding input_current_def content_current_def by blast+
  then show "stale_paths xxh3 fs wd True rs = map fr_path (filter (\<lambda>r. \<not> input_current xxh3 fs wd r) rs)"
    "stale_paths xxh3 fs wd False rs = map fr_path (filter (\<lambda>r. \<not> content_current xxh3 fs wd r) rs)"
    unfolding stale_paths_def by (simp_all cong: filter_cong)
qed

text \<open>
  A rebuild names its cause, truly. A unit without an entry is the one unit that gets no
  attribution. Otherwise the reason names the first determinant that moved, command before environment
  before sealed values; then the inputs, with exactly the declared paths that are new and the recorded
  ones that are gone when the lists differ, or else exactly the paths whose content (or, for an empty
  marker, whose time) is not the recorded one; then exactly the modules that changed; then a missing
  and last a drifted output. And the one-line summary of a reason the check gives always exists: its
  indexing of the lists never fails.
\<close>

theorem rebuild_reasons:
  assumes memo: "memo_true fs m" and recorded: "\<And>e. entry = Some e \<Longrightarrow> recorded_on xxh3 fs0 fs wd e"
    and run: "fst (fst (needs_rebuild_cook xxh3 entry q wd ctx fs m)) = Rebuild reason"
  shows "cause_summary reason \<noteq> None \<and> (summary_of reason = None \<longleftrightarrow> entry = None)
    \<and> (case entry of None \<Rightarrow> reason = NoCacheEntry | Some e \<Rightarrow> reason_holds xxh3 e q wd ctx fs reason)"
proof (cases entry)
  case None
  then show ?thesis using run by (auto simp: needs_rebuild_cook_def cause_summary_def summary_of_def)
next
  case (Some e)
  let ?outs = "outputs_to_check e (q_outputs q) (q_discovered q)" and ?ins = "inputs_to_check e (q_inputs q) (q_discovered q)"
  note rec = recorded[OF Some]
  have ev: "evidence_for xxh3 fs wd r" if "r \<in> set (se_inputs e) \<union> set (se_outputs e) \<union> set (se_module_inputs e)" for r
    using recorded_evidence[OF rec] that record_sets by blast
  have evi: "\<And>r. r \<in> set (se_inputs e) \<Longrightarrow> evidence_for xxh3 fs wd r" and evm: "\<And>r. r \<in> set (se_module_inputs e) \<Longrightarrow> evidence_for xxh3 fs wd r"
    using ev by blast+
  obtain m1 where result: "fst (needs_rebuild_cook xxh3 (Some e) q wd ctx fs m) =
       (case drift (entry_determinants e) (q_determinants q) of
          Some d \<Rightarrow> (Rebuild (drift_reason d), None)
        | None \<Rightarrow>
            (case input_verdict xxh3 fs wd (se_inputs e) ?ins of
               Inl reason \<Rightarrow> (Rebuild reason, None)
             | Inr _ \<Rightarrow>
                 if stale_paths xxh3 fs wd False (se_module_inputs e) \<noteq> []
                 then (Rebuild (ModulesChanged (stale_paths xxh3 fs wd False (se_module_inputs e))), None)
                 else if length (se_outputs e) \<noteq> length ?outs then (Rebuild OutputMissing, None)
                 else if filter (\<lambda>k. \<not> output_passes xxh3 fs wd (q_record q) (se_outputs e ! k) (?outs ! k)) [0..<length (se_outputs e)] = []
                   \<or> (\<exists>c. ctx = Some c \<and> fst (try_restore c e ?outs (filter (\<lambda>k. \<not> output_passes xxh3 fs wd (q_record q) (se_outputs e ! k) (?outs ! k)) [0..<length (se_outputs e)]) (refreshed_list xxh3 fs wd True (se_inputs e)) wd fs m1))
                 then (Skip, Some (e\<lparr>se_inputs := refreshed_list xxh3 fs wd True (se_inputs e),
                       se_outputs := map2 (walked xxh3 fs wd (q_record q)) (se_outputs e) ?outs,
                       se_module_inputs := refreshed_list xxh3 fs wd False (se_module_inputs e)\<rparr>))
                 else (Rebuild (if \<exists>k < length ?outs. \<not> path_exists fs wd (?outs ! k) then OutputMissing else OutputChanged), None)))"
    using needs_rebuild_true[OF memo, of xxh3 e q wd ctx] by blast
  have det: "drift (entry_determinants e) (q_determinants q) = None \<longleftrightarrow> entry_determinants e = q_determinants q"
    by (rule drift_None_iff)
  have holds: "reason_holds xxh3 e q wd ctx fs reason"
  proof (cases "drift (entry_determinants e) (q_determinants q)")
    case (Some d)
    then have "reason = drift_reason d" using run \<open>entry = Some e\<close> result by simp
    then show ?thesis using Some by (auto simp: drift_def drift_reason_def entry_determinants_def split: if_splits)
  next
    case no_drift: None
    then have same: "entry_determinants e = q_determinants q" using det by blast
    show ?thesis
    proof (cases "input_verdict xxh3 fs wd (se_inputs e) ?ins")
      case (Inl r)
      then have "reason = r" using run \<open>entry = Some e\<close> result no_drift by simp
      moreover have "stale_paths xxh3 fs wd True (se_inputs e)
          = map fr_path (filter (\<lambda>r. \<not> input_current xxh3 fs wd r) (se_inputs e))"
        by (rule stale_inputs_current(1)[OF evi])
      ultimately show ?thesis using Inl same unfolding input_verdict_def
        by (auto simp: set_btree_difference inputs_to_check_def split: if_splits option.splits)
    next
      case (Inr us)
      then have ins: "\<forall>r \<in> set (se_inputs e). input_current xxh3 fs wd r" "map fr_path (se_inputs e) = ?ins"
        using input_verdict_iff[OF evi, where current = ?ins] Inr by blast+
      show ?thesis
      proof (cases "stale_paths xxh3 fs wd False (se_module_inputs e) = []")
        case False
        then have "reason = ModulesChanged (stale_paths xxh3 fs wd False (se_module_inputs e))"
          using run \<open>entry = Some e\<close> result no_drift Inr by simp
        then show ?thesis using False same ins by (simp add: stale_inputs_current(2)[OF evm])
      next
        case mods: True
        show ?thesis
        proof (cases "length (se_outputs e) = length ?outs")
          case False
          then have "reason = OutputMissing" using run \<open>entry = Some e\<close> result no_drift Inr mods by simp
          then show ?thesis using False same ins by simp
        next
          case len: True
          then have r: "reason = (if \<exists>k < length ?outs. \<not> path_exists fs wd (?outs ! k) then OutputMissing else OutputChanged)"
            using run \<open>entry = Some e\<close> result no_drift Inr mods by (auto split: if_splits)
          have stands: "inputs_stand xxh3 e q wd fs"
            using same ins len mods stale_modules_iff[OF evm] by (auto simp: inputs_stand_def inputs_to_check_def)
          have "stale_outputs xxh3 e q wd fs \<noteq> []"
            using needs_rebuild_reference(1)[OF memo rec, of q ctx] stands run \<open>entry = Some e\<close> by auto
          then show ?thesis using r same ins stands by (auto simp: set_conv_nth)
        qed
      qed
    qed
  qed
  have "cause_summary reason \<noteq> None" using holds by (intro summary_total) auto
  moreover have "reason \<noteq> NoCacheEntry" using holds by auto
  then have "summary_of reason \<noteq> None"
    using calculation by (cases reason) (auto simp: summary_of_def cause_summary_def Let_def split: list.splits if_splits)
  ultimately show ?thesis using holds Some by simp
qed

section \<open>Concrete checks\<close>

definition len_hash :: "str \<Rightarrow> u64" where "len_hash s = word_of_nat (length s)"

definition demo_file :: "u64 \<Rightarrow> str \<Rightarrow> fs_node" where
  "demo_file t bytes = \<lparr>node_kind = FileNode (Some bytes), node_mode = 420, node_mtime = t,
     node_identity = Some \<lparr>fi_mtime_secs = t, fi_mtime_nanos = 0, fi_len = 3, fi_ctime_secs = t, fi_ctime_nanos = 0, fi_ino = t, fi_dev = 1\<rparr>\<rparr>"

definition demo_tree :: tree where
  "demo_tree = [[''w''] \<mapsto> plain_dir, [''w'', ''a.c''] \<mapsto> demo_file 1 ''int'', [''w'', ''a.o''] \<mapsto> demo_file 2 ''obj!'']"

definition demo_meta :: cache_meta where
  "demo_meta = \<lparr>cm_recipe_name = ''r'', cm_project_id = [], cm_cookfile_path = [], cm_cache_key = ''a.o'',
     cm_inputs = [path_input ''a.c''], cm_consumes = [], cm_member_keyed = False, cm_output_paths = [''a.o''],
     cm_command_hash = 7, cm_env_contribution = 0, cm_consulted_env = [], cm_discovered_inputs = None,
     cm_seal_keys = [], cm_sharing = Shared, cm_record = False\<rparr>"

definition demo_entry :: step_entry where
  "demo_entry = (case completion_entry len_hash demo_tree [''w''] demo_meta 0 [] of Inr e \<Rightarrow> e | Inl _ \<Rightarrow> undefined)"

lemma demo_made: "completion_entry len_hash demo_tree [''w''] demo_meta 0 [] = Inr demo_entry"
proof -
  have "\<not> isl (completion_entry len_hash demo_tree [''w''] demo_meta 0 [])" by code_simp
  then show ?thesis by (cases "completion_entry len_hash demo_tree [''w''] demo_meta 0 []") (simp_all add: demo_entry_def)
qed

theorem recorded_then_fresh_witness:
  "\<exists>m'. needs_rebuild_cook len_hash (Some demo_entry) (query_of demo_meta 0) [''w''] None demo_tree memo_new
       = ((Skip, Some demo_entry), demo_tree, m')"
  by (rule recorded_then_fresh[OF demo_made memo_new_true])

text \<open>The output goes missing, and the store has it.\<close>

definition demo_later :: tree where
  "demo_later = demo_tree([''w'', ''a.o''] := None)"

definition demo_store :: restore_ctx where
  "demo_store = (sample_ctx [(''a.o'', ''obj!'')])\<lparr>rc_xxh3 := len_hash\<rparr>"

lemma demo_recorded: "recorded_on len_hash demo_tree demo_later [''w''] demo_entry"
proof -
  have "hash_file len_hash demo_later [''w''] ''a.c'' = hash_file len_hash demo_tree [''w''] ''a.c''"
    "observe_file demo_later [''w''] ''a.o'' = None" by code_simp+
  then have "identity_kept len_hash demo_tree demo_later [''w''] p" if "p = ''a.c'' \<or> p = ''a.o''" for p
    using that by (auto simp: identity_kept_def)
  moreover have "map fr_path (step_records demo_entry) = [''a.c'', ''a.o'']"
    using completion_facts(1,2,5)[OF demo_made]
    by (simp add: step_records_def demo_meta_def outputs_to_check_def path_input_def)
  then have "fr_path r = ''a.c'' \<or> fr_path r = ''a.o''" if "r \<in> set (step_records demo_entry)" for r
    using imageI[OF that, of fr_path] by (simp flip: set_map)
  ultimately show ?thesis using completion_facts(3)[OF demo_made] by (auto simp: recorded_on_def)
qed

theorem skip_exact_witness:
  "fst (fst (needs_rebuild_cook len_hash (Some demo_entry) (query_of demo_meta 0) [''w''] (Some demo_store) demo_later memo_new)) = Skip
   \<and> inputs_stand len_hash demo_entry (query_of demo_meta 0) [''w''] demo_later
   \<and> stale_outputs len_hash demo_entry (query_of demo_meta 0) [''w''] demo_later = [0]"
proof -
  let ?stale = "stale_outputs len_hash demo_entry (query_of demo_meta 0) [''w''] demo_later"
  have stale: "?stale = [0]" by code_simp
  have ran: "fst (needs_rebuild_cook len_hash (Some demo_entry) (query_of demo_meta 0) [''w''] (Some demo_store) demo_later memo_new)
      = (Skip, snd (fst (needs_rebuild_cook len_hash (Some demo_entry) (query_of demo_meta 0) [''w''] (Some demo_store) demo_later memo_new)))"
    by code_simp
  then show ?thesis
    using skip_exact[OF memo_new_true demo_recorded, of "query_of demo_meta 0" "Some demo_store"] stale by (metis fst_conv)
qed



theorem rebuild_reasons_witness:
  "fst (fst (needs_rebuild_cook len_hash (Some demo_entry) (query_of demo_meta 0) [''w''] None demo_later memo_new)) = Rebuild OutputMissing
   \<and> cause_summary OutputMissing \<noteq> None
   \<and> reason_holds len_hash demo_entry (query_of demo_meta 0) [''w''] None demo_later OutputMissing"
proof -
  let ?r = "needs_rebuild_cook len_hash (Some demo_entry) (query_of demo_meta 0) [''w''] None demo_later memo_new"
  have "fst ?r = (Rebuild OutputMissing, None)" by code_simp
  then have run: "fst (fst ?r) = Rebuild OutputMissing" by simp
  have "recorded_on len_hash demo_tree demo_later [''w''] e" if "Some demo_entry = Some e" for e
    using that demo_recorded by simp
  from rebuild_reasons[OF memo_new_true this run] run show ?thesis by simp
qed

end
