(* ===== verification/Fetch.thy ===== *)
theory Fetch
  imports Freshness
begin

text \<open>
  Serving a unit straight from the store (\<open>cook-cache/src/check.rs\<close>: \<open>read\_module\_input\_sets\<close>,
  \<open>read\_discovered\_input\_sets\<close>, \<open>shared\_observation\<close>, \<open>fetch\_observation\<close>, \<open>fetch\_by\_key\<close>,
  \<open>hash\_input\_paths\<close>), with the decoding of stored path sets (\<open>cache/cas/mod.rs\<close>). The JSON reader is
  an argument: \<open>json\_sets\<close> reads a list of path lists, \<open>json\_set\<close> a path list.
\<close>

section \<open>Stored path sets and observations\<close>

record json_reader =
  json_sets :: "str \<Rightarrow> str list list option"
  json_set :: "str \<Rightarrow> str list option"

definition decode_path_sets :: "json_reader \<Rightarrow> str \<Rightarrow> str list list" where
  "decode_path_sets json bytes = (case json_sets json bytes of Some sets \<Rightarrow> sets | None \<Rightarrow> [])"

definition stored_bytes :: "restore_ctx \<Rightarrow> str \<Rightarrow> u32 \<times> str \<Rightarrow> str option" where
  "stored_bytes ctx key reserved = get_bytes (rc_backend ctx) (artifact_key (rc_sha256 ctx) key (fst reserved) (snd reserved))"

definition read_module_input_sets :: "json_reader \<Rightarrow> restore_ctx \<Rightarrow> str \<Rightarrow> str list list" where
  "read_module_input_sets json ctx declared_key =
     (case stored_bytes ctx declared_key module_input_sets of
        Some bytes \<Rightarrow> decode_path_sets json bytes
      | None \<Rightarrow> [])"

definition read_discovered_input_sets :: "json_reader \<Rightarrow> restore_ctx \<Rightarrow> str \<Rightarrow> str list list" where
  "read_discovered_input_sets json ctx declared_key =
     (case Option.bind (stored_bytes ctx declared_key discovered_input_sets) (json_sets json) of
        Some sets \<Rightarrow> sets
      | None \<Rightarrow>
          (case Option.bind (stored_bytes ctx declared_key discovered_inputs_manifest) (json_set json) of
             Some paths \<Rightarrow> [paths]
           | None \<Rightarrow> []))"

definition fetch_observation :: "restore_ctx \<Rightarrow> str \<Rightarrow> output_log option" where
  "fetch_observation ctx key =
     (case get_with_meta (rc_backend ctx) (artifact_key (rc_sha256 ctx) key (fst observation_artifact) (snd observation_artifact)) of
        None \<Rightarrow> None
      | Some (body, meta) \<Rightarrow>
          if am_kind meta \<noteq> Some kind_observation then None
          else Option.bind body (\<lambda>bytes. case decode_log bytes of Inr log \<Rightarrow> Some log | Inl _ \<Rightarrow> None))"

definition shared_observation :: "restore_ctx \<Rightarrow> str \<Rightarrow> observation option" where
  "shared_observation ctx key =
     Option.bind (get_manifest (rc_backend ctx) key) (\<lambda>manifest.
       if dm_output_paths manifest \<noteq> [] then None
       else Option.bind (dm_observation manifest) (\<lambda>observation.
         Option.bind (fetch_observation ctx key) (\<lambda>_. Some observation)))"

section \<open>Fetching by key\<close>

definition hash_input_paths :: "(str \<Rightarrow> u64) \<Rightarrow> tree \<Rightarrow> str list \<Rightarrow> str list \<Rightarrow> u64 list option" where
  "hash_input_paths xxh3 fs wd paths = map_option sort (those (map (hash_file xxh3 fs wd) paths))"

record fetch_outcome =
  fo_restored :: "str list"
  fo_discovered :: "str list"
  fo_modules :: "str list"
  fo_observation :: "observation option"

text \<open>What a unit asks for: its determinants, the sorted hashes of its declared inputs, its outputs.\<close>

record fetch_query =
  fq_command :: u64
  fq_env :: u64
  fq_seal :: u64
  fq_hashes :: "u64 list"
  fq_outputs :: "str list"
  fq_discovered :: "discovered_inputs option"
  fq_may_load_modules :: bool

definition fetch_key :: "restore_ctx \<Rightarrow> fetch_query \<Rightarrow> u64 list \<Rightarrow> str" where
  "fetch_key ctx q hashes = step_key ctx (fq_command q) (fq_env q) (fq_seal q) hashes"

text \<open>The hashes under which one pair of recorded sets would have been stored, of the tree as it is.\<close>

definition full_hashes :: "(str \<Rightarrow> u64) \<Rightarrow> tree \<Rightarrow> str list \<Rightarrow> u64 list \<Rightarrow> str list \<Rightarrow> str list \<Rightarrow> u64 list option" where
  "full_hashes xxh3 fs wd declared discovered modules =
     (if discovered = [] \<and> modules = [] then Some declared
      else map_option (\<lambda>h. sort (declared @ h)) (hash_input_paths xxh3 fs wd (discovered @ modules)))"

definition depfile_of :: "fetch_query \<Rightarrow> str option" where
  "depfile_of q = map_option disc_from (fq_discovered q)"

fun try_pairs ::
  "restore_ctx \<Rightarrow> fetch_query \<Rightarrow> str list \<Rightarrow> (str list \<times> str list) list \<Rightarrow> tree \<Rightarrow> fetch_outcome option \<times> tree" where
  "try_pairs ctx q wd [] fs = (None, fs)"
| "try_pairs ctx q wd ((discovered, modules) # pairs) fs =
     (case full_hashes (rc_xxh3 ctx) fs wd (fq_hashes q) discovered modules of
        None \<Rightarrow> try_pairs ctx q wd pairs fs
      | Some hashes \<Rightarrow>
          (let key = fetch_key ctx q hashes in
           case restore_list (rc_glob ctx) (rc_backend ctx) key (rc_declared ctx) (fq_outputs q) (depfile_of q) of
             None \<Rightarrow> try_pairs ctx q wd pairs fs
           | Some (outputs, observation) \<Rightarrow>
               (let (ok, fs) = restore_all ctx key wd outputs fs in
                if ok then (Some \<lparr>fo_restored = outputs, fo_discovered = discovered, fo_modules = modules,
                                  fo_observation = observation\<rparr>, fs)
                else try_pairs ctx q wd pairs fs)))"

definition fetch_pairs :: "json_reader \<Rightarrow> restore_ctx \<Rightarrow> fetch_query \<Rightarrow> (str list \<times> str list) list" where
  "fetch_pairs json ctx q =
     (let declared_key = fetch_key ctx q (fq_hashes q);
          candidates = (case fq_discovered q of Some _ \<Rightarrow> read_discovered_input_sets json ctx declared_key | None \<Rightarrow> [[]]);
          modules = (if fq_may_load_modules q then path_set_candidates (read_module_input_sets json ctx declared_key) else [[]])
      in concat (map (\<lambda>d. map (\<lambda>m. (d, m)) modules) candidates))"

definition fetch_by_key ::
  "json_reader \<Rightarrow> restore_ctx \<Rightarrow> fetch_query \<Rightarrow> str list \<Rightarrow> tree \<Rightarrow> fetch_outcome option \<times> tree" where
  "fetch_by_key json ctx q wd fs =
     (if fq_outputs q = [] then (None, fs) else try_pairs ctx q wd (fetch_pairs json ctx q) fs)"

section \<open>What a fetch may write, and what it needs\<close>

text \<open>
  The paths a store can make a fetch write: plain names the unit's own declaration covers, its
  depfile, or, when the declaration is all literal names, the caller's list.
\<close>

definition fetchable :: "restore_ctx \<Rightarrow> fetch_query \<Rightarrow> str \<Rightarrow> bool" where
  "fetchable ctx q rel \<longleftrightarrow>
     declared_output_covers (rc_glob ctx) (rc_declared ctx) rel
     \<or> depfile_of q = Some rel
     \<or> (depfile_of q = None \<and> \<not> list_ex is_terminal_output (rc_declared ctx) \<and> rel \<in> set (fq_outputs q))"

lemma restore_list_fetchable:
  assumes "restore_list (rc_glob ctx) (rc_backend ctx) key (rc_declared ctx) (fq_outputs q) (depfile_of q) = Some (outputs, ob)"
    and "rel \<in> set outputs"
  shows "fetchable ctx q rel"
  using assms
  by (auto simp: restore_list_def manifest_outputs_def fetchable_def list_all_iff split: option.splits if_splits Option.bind_splits)

text \<open>
  How the tree may differ after some restores: at places of fetchable paths; and where a link was, which
  is gone, or is a directory that a later candidate made above a fetchable path.
\<close>

definition fetch_changes :: "(str \<Rightarrow> bool) \<Rightarrow> str list \<Rightarrow> tree \<Rightarrow> tree \<Rightarrow> bool" where
  "fetch_changes allowed wd fs fs' \<longleftrightarrow>
     (\<forall>p. fs' p = fs p \<or> (\<exists>rel. allowed rel \<and> place_of wd fs rel p)
        \<or> (link_at fs p \<and> (fs' p = None \<or> (\<exists>rel. allowed rel \<and> restorable rel \<and> strict_prefix p (target_of wd rel)))))"

lemma fetch_changes_refl: "fetch_changes allowed wd fs fs" by (simp add: fetch_changes_def)

lemma fetch_changes_trans:
  assumes one: "fetch_changes allowed wd fs fs1" and two: "fetch_changes allowed wd fs1 fs2"
  shows "fetch_changes allowed wd fs fs2"
  unfolding fetch_changes_def
proof
  fix p
  let ?above = "\<exists>rel. allowed rel \<and> restorable rel \<and> strict_prefix p (target_of wd rel)"
  have same: "place_of wd fs1 rel p \<Longrightarrow> fs1 p = fs p \<Longrightarrow> place_of wd fs rel p" for rel by (simp add: place_of_def)
  have gone: "place_of wd fs1 rel p \<Longrightarrow> allowed rel \<Longrightarrow> place_of wd fs rel p \<or> ?above" for rel by (auto simp: place_of_def)
  have link: "link_at fs1 p \<Longrightarrow> fs1 p = fs p \<Longrightarrow> link_at fs p" and no_link: "link_at fs1 p \<Longrightarrow> fs1 p \<noteq> None"
    by (auto simp: link_at_def kind_at_def node_at_def root_node_def split: if_splits option.splits)
  note two_p = two[unfolded fetch_changes_def, rule_format, of p]
  from one[unfolded fetch_changes_def, rule_format, of p]
  consider (kept) "fs1 p = fs p" | (placed) rel where "allowed rel" "place_of wd fs rel p"
    | (swept) "link_at fs p" "fs1 p = None" | (above) "link_at fs p" ?above
    by (elim disjE exE conjE) blast+
  then show "fs2 p = fs p \<or> (\<exists>rel. allowed rel \<and> place_of wd fs rel p) \<or> (link_at fs p \<and> (fs2 p = None \<or> ?above))"
  proof cases
    case kept
    then show ?thesis using two_p same link by metis
  next
    case swept
    then have "\<not> link_at fs1 p" using no_link by blast
    then show ?thesis using two_p swept gone by auto
  qed blast+
qed

text \<open>
  What a successful fetch rests on: one recorded pair of path sets, whose files, hashed as they were
  when it was tried, complete the key; the list the store's manifest or the declaration gives for
  that key; and a restore of all of it.
\<close>

definition fetched :: "restore_ctx \<Rightarrow> fetch_query \<Rightarrow> str list \<Rightarrow> (str list \<times> str list) list \<Rightarrow> tree \<Rightarrow> fetch_outcome \<Rightarrow> tree \<Rightarrow> bool" where
  "fetched ctx q wd pairs fs out fs' \<longleftrightarrow>
     (\<exists>ts hashes. fetch_changes (fetchable ctx q) wd fs ts
        \<and> (fo_discovered out, fo_modules out) \<in> set pairs
        \<and> full_hashes (rc_xxh3 ctx) ts wd (fq_hashes q) (fo_discovered out) (fo_modules out) = Some hashes
        \<and> restore_list (rc_glob ctx) (rc_backend ctx) (fetch_key ctx q hashes) (rc_declared ctx) (fq_outputs q) (depfile_of q)
            = Some (fo_restored out, fo_observation out)
        \<and> restore_all ctx (fetch_key ctx q hashes) wd (fo_restored out) ts = (True, fs'))
     \<and> (\<forall>rel \<in> set (fo_restored out). restorable rel \<and> fetchable ctx q rel)"

lemma fetched_later:
  assumes "fetched ctx q wd pairs fs1 out fs'" and "fetch_changes (fetchable ctx q) wd fs fs1"
  shows "fetched ctx q wd (p # pairs) fs out fs'"
  using assms fetch_changes_trans[OF assms(2)] unfolding fetched_def list.set insert_iff by blast

lemma try_pairs_safe:
  "try_pairs ctx q wd pairs fs = (r, fs') \<Longrightarrow> tree_inv wd fs \<Longrightarrow>
     tree_inv wd fs' \<and> fetch_changes (fetchable ctx q) wd fs fs'
     \<and> (\<forall>out. r = Some out \<longrightarrow> fetched ctx q wd pairs fs out fs')"
proof (induction pairs arbitrary: fs)
  case Nil
  then show ?case by (auto simp: fetch_changes_refl)
next
  case (Cons p pairs)
  obtain discovered modules where p: "p = (discovered, modules)" by fastforce
  note run = Cons.prems(1)[unfolded p] and inv = Cons.prems(2)
  let ?key = "fetch_key ctx q" and ?ok = "fetchable ctx q"
  let ?hashes = "full_hashes (rc_xxh3 ctx) fs wd (fq_hashes q) discovered modules"
  let ?list = "\<lambda>h. restore_list (rc_glob ctx) (rc_backend ctx) (?key h) (rc_declared ctx) (fq_outputs q) (depfile_of q)"
  consider (skip) "try_pairs ctx q wd pairs fs = (r, fs')"
    | (tried) h outputs ob ok fs1 where "?hashes = Some h"
      "?list h = Some (outputs, ob)" "restore_all ctx (?key h) wd outputs fs = (ok, fs1)"
    using run by (cases ?hashes) (auto simp: Let_def split: option.splits prod.splits)
  then show ?case
  proof cases
    case skip
    then show ?thesis using Cons.IH[OF skip inv] fetched_later[OF _ fetch_changes_refl] by blast
  next
    case tried
    have paths: "snd ` set (enumerate 0 outputs) = set outputs" by (simp flip: set_map)
    note c = two_pass_confined[OF tried(3)[unfolded restore_all_def] inv, unfolded paths]
    have changes: "fetch_changes ?ok wd fs fs1"
      unfolding fetch_changes_def using c(2) restore_list_fetchable[OF tried(2)] by blast
    show ?thesis
    proof (cases ok)
      case True
      then have out: "r = Some \<lparr>fo_restored = outputs, fo_discovered = discovered, fo_modules = modules, fo_observation = ob\<rparr>" "fs' = fs1"
        using run tried by (simp_all add: Let_def)
      have "\<forall>rel \<in> set outputs. restorable rel \<and> ?ok rel" using c(4) True restore_list_fetchable[OF tried(2)] by blast
      then have "fetched ctx q wd (p # pairs) fs \<lparr>fo_restored = outputs, fo_discovered = discovered, fo_modules = modules, fo_observation = ob\<rparr> fs'"
        unfolding fetched_def using tried True out fetch_changes_refl[of ?ok wd fs] p by auto
      then show ?thesis using c(1) changes out by simp
    next
      case False
      then have rest: "try_pairs ctx q wd pairs fs1 = (r, fs')" using run tried by (simp add: Let_def)
      show ?thesis using Cons.IH[OF rest c(1)] fetch_changes_trans[OF changes] fetched_later[OF _ changes] by blast
    qed
  qed
qed

text \<open>
  C12: A fetch is confined, and justified by the tree. Whatever the store answers, and however many
  recorded candidates are tried and abandoned half-way, the tree changes only at paths the unit's own
  declaration covers, at its depfile, or, where the declaration is all literal names, at the caller's
  list, each a plain name inside the working directory; at the temporary beside each and at
  directories missing above them; and by the removal of symbolic links, wherever in the tree the sweep
  of a restore meets them (the place of one may then be a directory above such a path). A fetch that
  succeeds names one recorded pair of path sets whose files, hashed on the tree as it then was, give
  the key under which everything it restored was stored; and it never succeeds for a unit without
  outputs, nor for a unit with a depfile for which the store has no recorded input sets.
\<close>

theorem fetch_safe:
  assumes run: "fetch_by_key json ctx q wd fs = (r, fs')" and inv: "tree_inv wd fs"
  shows "tree_inv wd fs' \<and> fetch_changes (fetchable ctx q) wd fs fs'
    \<and> (\<forall>out. r = Some out \<longrightarrow> fq_outputs q \<noteq> [] \<and> fetched ctx q wd (fetch_pairs json ctx q) fs out fs')
    \<and> (fq_discovered q \<noteq> None \<and> read_discovered_input_sets json ctx (fetch_key ctx q (fq_hashes q)) = [] \<longrightarrow> r = None \<and> fs' = fs)"
proof (cases "fq_outputs q = []")
  case True
  then show ?thesis using run inv by (simp add: fetch_by_key_def fetch_changes_refl)
next
  case False
  then have "try_pairs ctx q wd (fetch_pairs json ctx q) fs = (r, fs')" using run by (simp add: fetch_by_key_def)
  moreover have "fetch_pairs json ctx q = []"
    if "fq_discovered q \<noteq> None" "read_discovered_input_sets json ctx (fetch_key ctx q (fq_hashes q)) = []"
    using that by (auto simp: fetch_pairs_def Let_def)
  ultimately show ?thesis using try_pairs_safe inv False by (metis prod.inject try_pairs.simps(1))
qed

text \<open>A replayed observation comes with a log that reads back, and never from a producing unit.\<close>

lemma shared_observation_complete:
  "shared_observation ctx key = Some ob \<Longrightarrow>
     \<exists>m log. get_manifest (rc_backend ctx) key = Some m \<and> dm_output_paths m = [] \<and> dm_observation m = Some ob
       \<and> fetch_observation ctx key = Some log \<and> log_ok log"
proof -
  assume "shared_observation ctx key = Some ob"
  then obtain m log where got: "get_manifest (rc_backend ctx) key = Some m" "dm_output_paths m = []" "dm_observation m = Some ob"
    and log: "fetch_observation ctx key = Some log"
    by (auto simp: shared_observation_def bind_eq_Some_conv split: if_splits)
  obtain bytes where "(case decode_log bytes of Inr log \<Rightarrow> Some log | Inl _ \<Rightarrow> None) = Some log"
    using log by (auto simp: fetch_observation_def bind_eq_Some_conv split: option.splits if_splits)
  then have "decode_log bytes = Inr log" by (cases "decode_log bytes") simp_all
  then have "log_ok log" using encode_decode_log by blast
  then show ?thesis using got log by blast
qed

definition no_json :: json_reader where "no_json = \<lparr>json_sets = (\<lambda>_. None), json_set = (\<lambda>_. None)\<rparr>"

definition demo_fetch :: fetch_query where
  "demo_fetch = \<lparr>fq_command = 7, fq_env = 0, fq_seal = 0, fq_hashes = [3], fq_outputs = [''b/a.o''], fq_discovered = None,
     fq_may_load_modules = False\<rparr>"

definition demo_fetch_ctx :: restore_ctx where
  "demo_fetch_ctx = (sample_ctx [(''b/a.o'', ''obj'')])\<lparr>rc_declared := [''b/a.o'']\<rparr>"

theorem fetch_safe_witness:
  "let r = fetch_by_key no_json demo_fetch_ctx demo_fetch [''w''] sample_tree
   in fst r = Some \<lparr>fo_restored = [''b/a.o''], fo_discovered = [], fo_modules = [], fo_observation = None\<rparr>
      \<and> tree_inv [''w''] (snd r) \<and> kind_at (snd r) [''w'', ''b'', ''a.o''] = Some (FileNode (Some ''obj''))"
proof -
  let ?r = "fetch_by_key no_json demo_fetch_ctx demo_fetch [''w''] sample_tree"
  have kind: "kind_at (snd ?r) [''w'', ''b'', ''a.o''] = Some (FileNode (Some ''obj''))" by code_simp
  have out: "map_option (\<lambda>f. (fo_restored f, fo_discovered f, fo_modules f, fo_observation f)) (fst ?r) = Some ([''b/a.o''], [], [], None)"
    by code_simp
  then have "fst ?r = Some \<lparr>fo_restored = [''b/a.o''], fo_discovered = [], fo_modules = [], fo_observation = None\<rparr>"
    by (cases "fst ?r") auto
  moreover have "tree_inv [''w''] (snd ?r)"
    using fetch_safe[OF prod.collapse[symmetric, of ?r] sample_tree_inv] by (rule conjunct1)
  ultimately show ?thesis using kind unfolding Let_def by blast
qed

end
