(* ===== verification/Labels.thy ===== *)
theory Labels
  imports Dag_Builder Output_Log Text_Ops
begin

text \<open>
  The names a run reports its work under: the text of a shell body and its \<open>set -e\<close> prelude
  (\<open>cook-contracts/src/shell_block\<close>), the label of a payload and of a node
  (\<open>cook-contracts/src/unit\<close>, \<open>cook-engine/src/lib.rs\<close>), test identities (\<open>cook-engine/src/id.rs\<close>), and
  the events and rows of a run that carry them.
\<close>

section \<open>Shell bodies\<close>

definition set_e_prefix :: str where
  "set_e_prefix = ''set -e'' @ [newline]"

definition shell_compose :: "str list \<Rightarrow> str" where
  "shell_compose ls = ''set -e'' @ concat (map (\<lambda>l. newline # l) ls)"

definition strip_set_e :: "str \<Rightarrow> str" where
  "strip_set_e cmd =
     (case strip_prefix set_e_prefix cmd of
        Some body \<Rightarrow> body
      | None \<Rightarrow> (if cmd = ''set -e'' then [] else cmd))"

text \<open>What stripping gives back: the author's lines.\<close>

lemma strip_compose: "strip_set_e (shell_compose ls) = join [newline] ls"
proof (cases ls)
  case Nil
  have "strip_prefix set_e_prefix ''set -e'' = None"
    by (simp add: set_e_prefix_def)
  then show ?thesis using Nil by (simp add: strip_set_e_def shell_compose_def)
next
  case (Cons l ls')
  have "concat (map (\<lambda>l. newline # l) ms) = (if ms = [] then [] else newline # join [newline] ms)" for ms
    by (induction ms rule: induct_list012) simp_all
  then have "shell_compose ls = set_e_prefix @ join [newline] ls"
    using Cons by (simp add: shell_compose_def set_e_prefix_def join_Cons)
  then show ?thesis by (simp add: strip_set_e_def)
qed

section \<open>Labels of work\<close>

definition first_line :: "str \<Rightarrow> str option" where
  "first_line s = List.find (\<lambda>l. l \<noteq> []) (map trim (str_lines s))"

definition shell_label :: "str \<Rightarrow> str" where
  "shell_label cmd =
     (let body = (case first_line (strip_set_e cmd) of
                    Some l \<Rightarrow> l
                  | None \<Rightarrow> (case first_line cmd of Some l \<Rightarrow> l | None \<Rightarrow> ''sh''))
      in if length body \<le> 60 then body else take_chars 57 body @ ''...'')"

fun payload_name :: "work_payload \<Rightarrow> str" where
  "payload_name (Shell cmd _) = shell_label cmd"
| "payload_name (LuaChunk _ _ _ _ _ _ _) = ''lua''"
| "payload_name (Interactive _ line _) = ''@'' @ show_nat line"
| "payload_name (ProbePayload key _ _) = probe_label key"

definition is_test :: "work_node \<Rightarrow> bool" where
  "is_test wn \<longleftrightarrow> wn_test_name wn \<noteq> None"

definition display_name :: "work_node \<Rightarrow> str" where
  "display_name wn =
     (case (wn_test_name wn, wn_payload wn) of
        (Some n, _) \<Rightarrow> n
      | (None, Some p) \<Rightarrow> payload_name p
      | (None, None) \<Rightarrow> [])"

definition node_line :: "work_node \<Rightarrow> nat" where
  "node_line wn = (case wn_payload wn of None \<Rightarrow> 0 | Some p \<Rightarrow> payload_line p)"

definition node_kind_for_node :: "work_node \<Rightarrow> node_kind" where
  "node_kind_for_node wn = (if is_test wn then TestKind else Cooked)"

definition node_cache_key :: "work_node \<Rightarrow> str option" where
  "node_cache_key wn = map_option cm_cache_key (wn_cache_meta wn)"

definition first_artifact :: "work_node \<Rightarrow> str option" where
  "first_artifact wn =
     (case wn_cache_meta wn of
        None \<Rightarrow> None
      | Some m \<Rightarrow> (case cm_output_paths m of [] \<Rightarrow> None | p # _ \<Rightarrow> Some p))"

fun is_chore_window_member :: "work_payload option \<Rightarrow> bool" where
  "is_chore_window_member (Some (Interactive _ _ c)) = c"
| "is_chore_window_member (Some (LuaChunk _ _ _ _ _ c _)) = c"
| "is_chore_window_member _ = False"

section \<open>Test identities\<close>

datatype test_id = TestId (id_str: str)

definition parse_test_id :: "str \<Rightarrow> test_id" where
  "parse_test_id s = TestId s"

definition id_namespace :: "test_id \<Rightarrow> str" where
  "id_namespace t =
     (case split_once CHR '':'' (id_str t) of
        None \<Rightarrow> []
      | Some (before, _) \<Rightarrow> (case before_last CHR ''.'' before of None \<Rightarrow> [] | Some ns \<Rightarrow> ns))"

definition id_recipe :: "test_id \<Rightarrow> str" where
  "id_recipe t = rsplit_last CHR ''.'' (hd (split_on CHR '':'' (id_str t)))"

definition id_recipe_path :: "test_id \<Rightarrow> str" where
  "id_recipe_path t =
     (let ns = id_namespace t; r = id_recipe t in if ns = [] then r else ns @ ''.'' @ r)"

text \<open>The identity of a test node: \<open>recipe:name\<close>, with the member it iterates over in brackets.\<close>

definition test_id_text :: "str \<Rightarrow> str \<Rightarrow> str option \<Rightarrow> str" where
  "test_id_text recipe name item =
     (case item of
        Some m \<Rightarrow> (if m = [] then recipe @ '':'' @ name else recipe @ '':'' @ name @ ''['' @ m @ '']'')
      | None \<Rightarrow> recipe @ '':'' @ name)"

definition node_test_id :: "work_node \<Rightarrow> test_id" where
  "node_test_id wn =
     parse_test_id (test_id_text (wn_recipe_name wn) (the (wn_test_name wn)) (wn_member wn))"

lemma hd_split_on: "split_once c s = Some (a, b) \<Longrightarrow> hd (split_on c s) = a"
  by (auto simp: split_once_Some split_on_append_sep)

lemma id_recipe_path_test:
  assumes "CHR '':'' \<notin> set recipe" and "\<not> starts_with ''.'' recipe"
  shows "id_recipe_path (parse_test_id (test_id_text recipe name item)) = recipe"
proof -
  have "\<exists>b. test_id_text recipe name item = recipe @ CHR '':'' # b"
    by (simp add: test_id_text_def split: option.split)
  then obtain b where b: "test_id_text recipe name item = recipe @ CHR '':'' # b" ..
  have so: "split_once CHR '':'' (test_id_text recipe name item) = Some (recipe, b)"
    using assms(1) b by (simp add: split_once_Some)
  note h = hd_split_on[OF so]
  show ?thesis
  proof (cases "before_last CHR ''.'' recipe")
    case None
    then have "CHR ''.'' \<notin> set recipe" by (simp add: before_last_None)
    then show ?thesis
      using None so h
      by (simp add: id_recipe_path_def id_namespace_def id_recipe_def parse_test_id_def rsplit_last_no)
  next
    case (Some ns)
    then obtain r where r: "recipe = ns @ CHR ''.'' # r" "CHR ''.'' \<notin> set r"
      by (auto simp: before_last_Some)
    have "ns \<noteq> []" using assms(2) r(1) by auto
    then show ?thesis
      using Some so h r
      by (simp add: id_recipe_path_def id_namespace_def id_recipe_def parse_test_id_def Let_def
          rsplit_last_sep)
  qed
qed

section \<open>Rows and events\<close>

datatype test_outcome = Passed | Failed | Blocked | TimedOut

record test_result =
  tr_id :: test_id
  tr_namespace :: str
  tr_recipe :: str
  tr_name :: str
  tr_iteration_item :: "str option"
  tr_outcome :: test_outcome
  tr_from_cache :: bool
  tr_stdout :: str
  tr_stderr :: str
  tr_fingerprint :: "str option"
  tr_blocked_by :: "str option"
  tr_should_fail :: bool
  tr_timed_out :: bool
  tr_line :: nat
  tr_exit_code :: "int option"

datatype recipe_kind = OrdinaryRecipe | ChoreRecipe

text \<open>
  The events of a run, without their durations: \<open>(recipe, unit)\<close> is the node, the rest is what the
  renderer shows.
\<close>

datatype engine_event =
    RecipeStarted str nat
  | RecipeCompleted str nat nat recipe_kind
  | RecipeSkipped str nat nat nat
  | RecipeFailed str nat nat
  | NodeStarted str nat str "str option" str node_kind "str option" "str option"
  | NodeCompleted str nat str node_kind "str option"
  | NodeFailed str nat str str
  | NodeCacheHit str nat str "str option" node_kind
  | NodeSkipped str str
  | InteractiveStart str str nat
  | InteractiveEnd str str bool bool "nat option"
  | OutputLine str nat str str output_stream
  | TestStarted test_id str str nat "str option"
  | TestPassed test_id bool str str nat
  | TestFailed test_id str str "int option" nat
  | TestBlocked test_id str nat

text \<open>The lines of the captured chunks, and the text of one stream.\<close>

definition output_event_lines :: "output_chunk list \<Rightarrow> (output_stream \<times> str) list" where
  "output_event_lines cs = concat (map (\<lambda>c. map (Pair (chunk_stream c)) (str_lines (chunk_lossy c))) cs)"

definition stream_text :: "output_chunk list \<Rightarrow> output_stream \<Rightarrow> str" where
  "stream_text cs want = concat (map chunk_lossy (filter (\<lambda>c. chunk_stream c = want) cs))"

end
