(* ===== verification/Executor.thy ===== *)
theory Executor
  imports Labels "HOL-Library.While_Combinator"
begin

text \<open>
  The engine of a run, \<open>execute_dag\<close> of \<open>cook-engine/src/executor.rs\<close>: the per-recipe trackers, the
  cancellation of a subtree, what becomes of a node that is ready, the interactive queue with its
  chore windows, and the loop that receives the workers' results.

  \<^item> The state is the record \<open>exec\<close>: the local variables of \<open>execute_dag\<close>, the events sent, the items
    the worker pool holds, and the trace of the calls made on the pool, the terminal and the graph.
  \<^item> What lies outside is the record \<open>exec_env\<close>: the decision of the cache, the outcome of each
    command, and the order in which the pool returns results, a function from the number of the
    receive to a choice among the items in flight. Every interleaving is one such function.
  \<^item> The functions that call themselves on each successor, \<open>process_ready\<close> and \<open>cancel_subtree\<close>, work
    on the list of the nodes still to visit: what a node releases goes in front of it. That is the
    order in which the recursion of the source visits them (\<open>process_list_append\<close>,
    \<open>cancel_list_append\<close>).
  \<^item> Indexing out of range panics: it sets \<open>x_panicked\<close>, and no run of a well-formed graph does.
    Times and durations are left out.
\<close>

section \<open>State\<close>

record recipe_tracker =
  total_nodes :: nat
  completed_nodes :: nat
  cached_nodes :: nat
  skipped_nodes :: nat
  has_failure :: bool
  rt_started :: bool
  rt_is_chore :: bool

text \<open>The calls on the pool, the terminal, the graph, the probe store and the cache, in order.\<close>

datatype exec_call =
    SubmitItem nat
  | RunInteractive nat
  | CompleteNode nat
  | CleanDirOutput nat str
  | SetToolPaths str str
  | InsertProbe str str str
  | PublishCompletion nat

record exec =
  x_dag :: "work_node dag"
  x_cancelled :: "bool list"
  x_trackers :: "str \<rightharpoonup> recipe_tracker"
  x_queue :: "nat list"
  x_pending :: nat
  x_finished :: nat
  x_failures :: "(nat \<times> str \<times> str) list"
  x_test_results :: "test_result list"
  x_cached_results :: "test_result list"
  x_blocked_results :: "test_result list"
  x_backfill :: "nat list"
  x_events :: "engine_event list"
  x_calls :: "exec_call list"
  x_inflight :: "nat list"
  x_received :: nat
  x_panicked :: bool

datatype cache_decision = CacheHit | CacheMiss "str option" | PinnedColdMiss

record work_result =
  wr_success :: bool
  wr_error :: "str option"
  wr_node_name :: str
  wr_output :: "output_chunk list"
  wr_exit_code :: "int option"
  wr_probe_output :: "(str \<times> str) option"

record probe_found =
  pf_has_tool_paths :: bool
  pf_resolved :: "str option"

text \<open>
  \<open>e_parent_dirs\<close> is what \<open>ensure_output_parent_dirs\<close> answers for a node, the error if it fails;
  \<open>e_probe\<close> the declared probe of a node and what its lookup found; \<open>e_recorded\<close> the observation a hit
  replays, with its log when \<open>--replay-logs\<close> asks for it; \<open>e_progress_error\<close> how an error reads in a
  progress line.
\<close>

record exec_env =
  e_cache :: "nat \<Rightarrow> cache_decision"
  e_rerun_patterns :: "str list"
  e_glob :: "str \<Rightarrow> (str \<Rightarrow> bool) option"
  e_parent_dirs :: "nat \<Rightarrow> str option"
  e_probe :: "nat \<Rightarrow> (str + probe_found) option"
  e_recorded :: "nat \<Rightarrow> output_log option"
  e_replay_logs :: bool
  e_publish_enabled :: bool
  e_result :: "nat \<Rightarrow> work_result"
  e_order :: "nat \<Rightarrow> nat"
  e_interactive :: "nat \<Rightarrow> str option"
  e_group_new :: "nat \<Rightarrow> str option"
  e_group_drain :: "nat \<Rightarrow> str option"
  e_has_manager :: "str \<Rightarrow> bool"
  e_progress_error :: "str \<Rightarrow> str"

definition emit :: "engine_event \<Rightarrow> exec \<Rightarrow> exec" where
  "emit e s = s\<lparr>x_events := x_events s @ [e]\<rparr>"

definition call :: "exec_call \<Rightarrow> exec \<Rightarrow> exec" where
  "call c s = s\<lparr>x_calls := x_calls s @ [c]\<rparr>"

definition panic :: "exec \<Rightarrow> exec" where
  "panic s = s\<lparr>x_panicked := True\<rparr>"

definition tick :: "exec \<Rightarrow> exec" where
  "tick s = s\<lparr>x_finished := Suc (x_finished s)\<rparr>"

definition fail :: "nat \<Rightarrow> str \<Rightarrow> str \<Rightarrow> exec \<Rightarrow> exec" where
  "fail i recipe msg s = s\<lparr>x_failures := x_failures s @ [(i, recipe, msg)]\<rparr>"

definition wnode :: "exec \<Rightarrow> nat \<Rightarrow> work_node" where
  "wnode s i = node_payload (dag_nodes (x_dag s) ! i)"

definition dependents_of :: "exec \<Rightarrow> nat \<Rightarrow> nat list" where
  "dependents_of s i = dependents (dag_nodes (x_dag s) ! i)"

definition node_exists :: "exec \<Rightarrow> nat \<Rightarrow> bool" where
  "node_exists s i \<longleftrightarrow> i < length (dag_nodes (x_dag s)) \<and> i < length (x_cancelled s)"

definition rerun_matches :: "exec_env \<Rightarrow> str \<Rightarrow> bool" where
  "rerun_matches env test_id =
     list_ex (\<lambda>pat. case e_glob env pat of Some m \<Rightarrow> m test_id | None \<Rightarrow> False) (e_rerun_patterns env)"

section \<open>Recipe trackers\<close>

definition recipe_node_counts :: "work_node dag \<Rightarrow> str \<rightharpoonup> nat" where
  "recipe_node_counts d r =
     (let n = length (filter (\<lambda>x. wn_recipe_name (node_payload x) = r) (dag_nodes d))
      in if n = 0 then None else Some n)"

definition new_tracker :: "nat \<Rightarrow> recipe_tracker" where
  "new_tracker n = \<lparr>total_nodes = n, completed_nodes = 0, cached_nodes = 0, skipped_nodes = 0,
     has_failure = False, rt_started = False, rt_is_chore = False\<rparr>"

definition ensure_recipe_started :: "str \<Rightarrow> exec \<Rightarrow> exec" where
  "ensure_recipe_started r s =
     (case x_trackers s r of
        None \<Rightarrow> s
      | Some t \<Rightarrow>
          if rt_started t then s
          else emit (RecipeStarted r (total_nodes t))
                 (s\<lparr>x_trackers := (x_trackers s)(r \<mapsto> t\<lparr>rt_started := True\<rparr>)\<rparr>))"

definition bump :: "bool \<Rightarrow> bool \<Rightarrow> bool \<Rightarrow> recipe_tracker \<Rightarrow> recipe_tracker" where
  "bump is_cached is_failure is_skipped t =
     t\<lparr>completed_nodes := completed_nodes t + 1,
       cached_nodes := cached_nodes t + (if is_cached then 1 else 0),
       skipped_nodes := skipped_nodes t + (if is_skipped then 1 else 0),
       has_failure := has_failure t \<or> is_failure\<rparr>"

definition recipe_end :: "str \<Rightarrow> recipe_tracker \<Rightarrow> engine_event" where
  "recipe_end r t =
     (if has_failure t then RecipeFailed r (completed_nodes t - 1) (total_nodes t)
      else if 0 < skipped_nodes t
      then RecipeSkipped r (skipped_nodes t) (completed_nodes t - skipped_nodes t) (total_nodes t)
      else RecipeCompleted r (cached_nodes t) (total_nodes t)
             (if rt_is_chore t then ChoreRecipe else OrdinaryRecipe))"

definition finish_recipe_node_inner :: "str \<Rightarrow> bool \<Rightarrow> bool \<Rightarrow> bool \<Rightarrow> exec \<Rightarrow> exec" where
  "finish_recipe_node_inner r is_cached is_failure is_skipped s =
     (case x_trackers s r of
        None \<Rightarrow> s
      | Some t \<Rightarrow>
          (let t' = bump is_cached is_failure is_skipped t;
               s' = s\<lparr>x_trackers := (x_trackers s)(r \<mapsto> t')\<rparr>
           in if completed_nodes t' = total_nodes t' then emit (recipe_end r t') s' else s'))"

definition finish_recipe_node :: "str \<Rightarrow> bool \<Rightarrow> bool \<Rightarrow> exec \<Rightarrow> exec" where
  "finish_recipe_node r is_cached is_failure s = finish_recipe_node_inner r is_cached is_failure False s"

section \<open>Cancelling a subtree\<close>

definition cancel_name :: "work_node \<Rightarrow> str" where
  "cancel_name wn = (case wn_payload wn of Some p \<Rightarrow> payload_name p | None \<Rightarrow> wn_recipe_name wn)"

definition blocked_row :: "work_node \<Rightarrow> str \<Rightarrow> test_result" where
  "blocked_row wn upstream =
     (let t = node_test_id wn in
      \<lparr>tr_id = t, tr_namespace = id_namespace t, tr_recipe = id_recipe t,
       tr_name = the (wn_test_name wn), tr_iteration_item = wn_member wn, tr_outcome = Blocked,
       tr_from_cache = False, tr_stdout = [], tr_stderr = [], tr_fingerprint = None,
       tr_blocked_by = Some upstream, tr_should_fail = False, tr_timed_out = False,
       tr_line = node_line wn, tr_exit_code = None\<rparr>)"

definition block_test :: "work_node \<Rightarrow> str \<Rightarrow> exec \<Rightarrow> exec" where
  "block_test wn upstream s =
     (if is_test wn
      then (emit (TestBlocked (node_test_id wn) upstream (node_line wn)) s)
             \<lparr>x_blocked_results := x_blocked_results s @ [blocked_row wn upstream]\<rparr>
      else s)"

definition mark_cancelled :: "nat \<Rightarrow> exec \<Rightarrow> exec" where
  "mark_cancelled i s = s\<lparr>x_cancelled := (x_cancelled s)[i := True]\<rparr>"

definition cancel_node :: "nat \<Rightarrow> str \<Rightarrow> exec \<Rightarrow> exec" where
  "cancel_node i upstream s =
     (let wn = wnode s i in
      finish_recipe_node_inner (wn_recipe_name wn) False False True
        (block_test wn upstream
          (emit (NodeSkipped (wn_recipe_name wn) (cancel_name wn)) (mark_cancelled i s))))"

lemma cancel_parts [simp]:
  "x_dag (emit e s) = x_dag s" "x_cancelled (emit e s) = x_cancelled s"
  "x_dag (block_test wn up s) = x_dag s" "x_cancelled (block_test wn up s) = x_cancelled s"
  "x_dag (finish_recipe_node_inner r a b c s) = x_dag s"
  "x_cancelled (finish_recipe_node_inner r a b c s) = x_cancelled s"
  by (simp_all add: emit_def block_test_def finish_recipe_node_inner_def Let_def split: option.split)

lemma cancel_node_parts [simp]:
  "x_dag (cancel_node i up s) = x_dag s"
  "x_cancelled (cancel_node i up s) = (x_cancelled s)[i := True]"
  by (simp_all add: cancel_node_def Let_def mark_cancelled_def)

definition live_count :: "bool list \<Rightarrow> nat" where
  "live_count bs = length (filter Not bs)"

lemma live_count_update:
  "i < length bs \<Longrightarrow> \<not> bs ! i \<Longrightarrow> live_count (bs[i := True]) < live_count bs"
  by (induction bs arbitrary: i) (auto simp: live_count_def nth_Cons split: nat.splits)

function cancel_list :: "(nat \<times> str) list \<Rightarrow> exec \<Rightarrow> exec" where
  "cancel_list [] s = s"
| "cancel_list ((i, upstream) # rest) s =
     (if \<not> node_exists s i then panic s
      else if x_cancelled s ! i then cancel_list rest s
      else cancel_list (map (\<lambda>d. (d, cancel_name (wnode s i))) (dependents_of s i) @ rest)
             (cancel_node i upstream s))"
  by pat_completeness auto
termination
  by (relation "measures [\<lambda>(ws, s). live_count (x_cancelled s), \<lambda>(ws, s). length ws]")
    (auto simp: node_exists_def live_count_update)

definition cancel_subtree :: "nat \<Rightarrow> str \<Rightarrow> exec \<Rightarrow> exec" where
  "cancel_subtree i upstream s = cancel_list [(i, upstream)] s"

definition cancel_dependents :: "nat \<Rightarrow> str \<Rightarrow> exec \<Rightarrow> exec" where
  "cancel_dependents i upstream s = cancel_list (map (\<lambda>d. (d, upstream)) (dependents_of s i)) s"

section \<open>Completing a node\<close>

definition complete_node :: "nat \<Rightarrow> exec \<Rightarrow> exec \<times> nat list" where
  "complete_node i s =
     (case complete i (x_dag s) of
        None \<Rightarrow> (panic s, [])
      | Some (d, newly_ready) \<Rightarrow> (call (CompleteNode i) (s\<lparr>x_dag := d\<rparr>), newly_ready))"

definition undone :: "'a dag \<Rightarrow> nat" where
  "undone d = length (filter (\<lambda>x. \<not> completed x) (dag_nodes d))"

lemma drain_completed: "map completed (fst (drain js ns acc)) = map completed ns"
proof (induction js ns acc rule: drain.induct)
  case (2 j js ns newly)
  have "map completed (ns[j := (ns ! j)\<lparr>remaining_deps := r\<rparr>]) = map completed ns" for r
    by (cases "j < length ns") (simp_all add: map_update list_update_same_conv list_update_beyond)
  then show ?case using 2 by (simp add: Let_def)
qed simp

lemma undone_map: "undone d = live_count (map completed (dag_nodes d))"
  by (simp add: undone_def live_count_def filter_map comp_def)

lemma complete_undone:
  assumes "complete i d = Some (d', r)"
  shows "undone d' \<le> undone d" and "r \<noteq> [] \<Longrightarrow> undone d' < undone d"
proof -
  have i: "i < length (dag_nodes d)" using assms by (auto simp: complete_def split: if_splits)
  show "undone d' \<le> undone d" and "r \<noteq> [] \<Longrightarrow> undone d' < undone d"
  proof (atomize (full), cases "completed (dag_nodes d ! i)")
    case True
    then have "d' = d" and "r = []" using assms i by (auto simp: complete_def)
    then show "undone d' \<le> undone d \<and> (r \<noteq> [] \<longrightarrow> undone d' < undone d)" by simp
  next
    case False
    let ?ms = "(dag_nodes d)[i := (dag_nodes d ! i)\<lparr>completed := True\<rparr>]"
    have "d' = d\<lparr>dag_nodes := fst (drain (dependents (dag_nodes d ! i)) ?ms [])\<rparr>"
      using assms False i by (auto simp: complete_def Let_def case_prod_beta)
    then have "undone d' = live_count ((map completed (dag_nodes d))[i := True])"
      using i by (simp add: undone_map drain_completed map_update)
    also have "\<dots> < undone d"
      using i False by (simp add: undone_map live_count_update)
    finally show "undone d' \<le> undone d \<and> (r \<noteq> [] \<longrightarrow> undone d' < undone d)" by simp
  qed
qed

lemma complete_node_undone:
  "undone (x_dag (fst (complete_node i s))) \<le> undone (x_dag s)"
  "snd (complete_node i s) \<noteq> [] \<Longrightarrow> undone (x_dag (fst (complete_node i s))) < undone (x_dag s)"
  using complete_undone[of i "x_dag s"]
  by (auto simp: complete_node_def panic_def call_def split: option.splits prod.splits)

section \<open>A node that is ready\<close>

definition note_backfill :: "exec_env \<Rightarrow> nat \<Rightarrow> exec \<Rightarrow> exec" where
  "note_backfill env i s =
     (case wn_cache_meta (wnode s i) of
        Some m \<Rightarrow> (if e_publish_enabled env \<and> \<not> is_local (cm_sharing m)
                   then s\<lparr>x_backfill := x_backfill s @ [i]\<rparr> else s)
      | None \<Rightarrow> s)"

definition test_started :: "work_node \<Rightarrow> exec \<Rightarrow> exec" where
  "test_started wn s =
     (if is_test wn
      then emit (TestStarted (node_test_id wn) (wn_recipe_name wn) (the (wn_test_name wn)) (node_line wn)
                   (wn_member wn)) s
      else s)"

definition node_failed :: "exec_env \<Rightarrow> nat \<Rightarrow> str \<Rightarrow> str \<Rightarrow> str \<Rightarrow> exec \<Rightarrow> exec" where
  "node_failed env i name shown msg s =
     (let r = wn_recipe_name (wnode s i) in
      finish_recipe_node r False True (fail i r msg (emit (NodeFailed r i name shown) s)))"

definition submit :: "nat \<Rightarrow> exec \<Rightarrow> exec" where
  "submit i s = call (SubmitItem i) (s\<lparr>x_inflight := x_inflight s @ [i]\<rparr>)"

text \<open>The declared directories of a node are emptied before it runs.\<close>

definition clean_dirs :: "nat \<Rightarrow> exec \<Rightarrow> exec" where
  "clean_dirs i s =
     (case wn_cache_meta (wnode s i) of
        None \<Rightarrow> s
      | Some m \<Rightarrow>
          s\<lparr>x_calls := x_calls s @ List.map_filter
               (\<lambda>p. map_option (CleanDirOutput i) (strip_suffix ''/'' p)) (cm_output_paths m)\<rparr>)"

definition dispatch_to_pool :: "exec_env \<Rightarrow> nat \<Rightarrow> str option \<Rightarrow> exec \<Rightarrow> exec \<times> nat" where
  "dispatch_to_pool env i cause s =
     (let wn = wnode s i; r = wn_recipe_name wn;
          s1 = test_started wn
                 (emit (NodeStarted r i (display_name wn) (first_artifact wn) (display_name wn)
                          (node_kind_for_node wn) cause (node_cache_key wn))
                   (ensure_recipe_started r s))
      in case e_parent_dirs env i of
           Some err \<Rightarrow>
             (cancel_dependents i (cancel_name wn)
                (tick (node_failed env i (display_name wn) err err s1)), 0)
         | None \<Rightarrow> (submit i (clean_dirs i s1), 1))"

text \<open>A node served without running, up to its completion in the graph.\<close>

definition serve_presatisfied :: "nat \<Rightarrow> exec \<Rightarrow> exec" where
  "serve_presatisfied i s =
     (let wn = wnode s i; r = wn_recipe_name wn in
      tick (finish_recipe_node r True False
        (emit (NodeCacheHit r i r (first_artifact wn) Cooked) (ensure_recipe_started r s))))"

text \<open>The streams a replayed log shows, with the notice of what the log elides at the end of the errors.\<close>

definition replayed_streams :: "output_log \<Rightarrow> str \<times> str" where
  "replayed_streams log =
     (let bytes = (\<lambda>w. concat (map chunk_bytes (filter (\<lambda>c. chunk_stream c = w) (log_chunks log))));
          err = bytes Stderr
      in (from_utf8_lossy (bytes Stdout),
          from_utf8_lossy
            (case elision_notice log of
               None \<Rightarrow> err
             | Some n \<Rightarrow> err @ (if err \<noteq> [] \<and> last err \<noteq> newline then [newline] else []) @ n @ [newline])))"

definition test_row ::
  "work_node \<Rightarrow> test_outcome \<Rightarrow> bool \<Rightarrow> str \<Rightarrow> str \<Rightarrow> str option \<Rightarrow> int option \<Rightarrow> test_result" where
  "test_row wn outcome from_cache out err fp code =
     (let t = node_test_id wn in
      \<lparr>tr_id = t, tr_namespace = id_namespace t, tr_recipe = id_recipe t,
       tr_name = the (wn_test_name wn), tr_iteration_item = wn_member wn, tr_outcome = outcome,
       tr_from_cache = from_cache, tr_stdout = out, tr_stderr = err, tr_fingerprint = fp,
       tr_blocked_by = None, tr_should_fail = False, tr_timed_out = False,
       tr_line = node_line wn, tr_exit_code = code\<rparr>)"

definition test_decision :: "exec_env \<Rightarrow> nat \<Rightarrow> exec \<Rightarrow> cache_decision" where
  "test_decision env i s =
     (if rerun_matches env (id_str (node_test_id (wnode s i)))
      then CacheMiss (Some ''forced by --rerun'') else e_cache env i)"

definition serve_test :: "exec_env \<Rightarrow> nat \<Rightarrow> exec \<Rightarrow> exec" where
  "serve_test env i s =
     (let wn = wnode s i; r = wn_recipe_name wn; name = the (wn_test_name wn);
          (out, err) = (case e_recorded env i of
                          Some log \<Rightarrow> (if e_replay_logs env then replayed_streams log else ([], []))
                        | None \<Rightarrow> ([], []));
          s1 = test_started wn (ensure_recipe_started r (note_backfill env i s));
          s2 = emit (NodeCompleted r i name TestKind (node_cache_key wn))
                 (emit (NodeCacheHit r i name None TestKind)
                   (emit (TestPassed (node_test_id wn) True out err (node_line wn)) s1));
          s3 = finish_recipe_node r True False s2;
          fp = Some (case node_cache_key wn of Some k \<Rightarrow> k | None \<Rightarrow> []);
          s4 = s3\<lparr>x_cached_results := x_cached_results s3 @ [test_row wn Passed True out err fp None]\<rparr>
      in tick s4)"

text \<open>A decision of \<open>PinnedColdMiss\<close> counts as a miss here: the test is dispatched.\<close>

definition ready_test :: "exec_env \<Rightarrow> nat \<Rightarrow> exec \<Rightarrow> exec \<times> nat list \<times> nat" where
  "ready_test env i s =
     (case test_decision env i s of
        CacheHit \<Rightarrow> (let (s', new) = complete_node i (serve_test env i s) in (s', new, 0))
      | PinnedColdMiss \<Rightarrow> (let (s', k) = dispatch_to_pool env i None s in (s', [], k))
      | CacheMiss cause \<Rightarrow> (let (s', k) = dispatch_to_pool env i cause s in (s', [], k)))"

definition probe_started :: "nat \<Rightarrow> str \<Rightarrow> exec \<Rightarrow> exec" where
  "probe_started i name s =
     (let wn = wnode s i; r = wn_recipe_name wn in
      emit (NodeStarted r i name None name Cooked None (node_cache_key wn)) (ensure_recipe_started r s))"

definition submit_probe :: "nat \<Rightarrow> str \<Rightarrow> exec \<Rightarrow> exec" where
  "submit_probe i name s =
     submit i (probe_started i name s)"

definition serve_probe :: "nat \<Rightarrow> str \<Rightarrow> str \<Rightarrow> exec \<Rightarrow> exec" where
  "serve_probe i key bytes s =
     (let wn = wnode s i; r = wn_recipe_name wn; name = ''probe:'' @ key in
      tick (finish_recipe_node r False False
        (emit (NodeCompleted r i name Cooked (node_cache_key wn))
          (probe_started i name (call (InsertProbe r key bytes) s)))))"

definition ready_probe :: "exec_env \<Rightarrow> nat \<Rightarrow> str \<Rightarrow> exec \<Rightarrow> exec \<times> nat list \<times> nat" where
  "ready_probe env i key s =
     (let wn = wnode s i; r = wn_recipe_name wn; name = ''probe:'' @ key in
      case e_probe env i of
        None \<Rightarrow> (submit_probe i name s, [], 1)
      | Some (Inr found) \<Rightarrow>
          (let s1 = (if pf_has_tool_paths found then call (SetToolPaths r key) s else s) in
           case pf_resolved found of
             None \<Rightarrow> (submit_probe i name s1, [], 1)
           | Some bytes \<Rightarrow>
               (let (s2, new) = complete_node i (serve_probe i key bytes s1) in (s2, new, 0)))
      | Some (Inl msg) \<Rightarrow>
          (cancel_dependents i name
             (tick (node_failed env i name msg msg (ensure_recipe_started r s))), [], 0))"

text \<open>The replayed output of a hit, line by line, under \<open>--replay-logs\<close>.\<close>

definition replay_lines :: "exec_env \<Rightarrow> nat \<Rightarrow> exec \<Rightarrow> exec" where
  "replay_lines env i s =
     (let wn = wnode s i in
      case e_recorded env i of
        Some log \<Rightarrow>
          if e_replay_logs env then
            s\<lparr>x_events := x_events s @ map
                 (\<lambda>(stream, line). OutputLine (wn_recipe_name wn) i (display_name wn) (''[replayed] '' @ line) stream)
                 (output_event_lines (log_chunks log)
                    @ (case elision_notice log of None \<Rightarrow> [] | Some n \<Rightarrow> [(Stderr, n)]))\<rparr>
          else s
      | None \<Rightarrow> s)"

definition serve_step :: "exec_env \<Rightarrow> nat \<Rightarrow> exec \<Rightarrow> exec" where
  "serve_step env i s =
     (let wn = wnode s i; r = wn_recipe_name wn;
          s1 = replay_lines env i (ensure_recipe_started r (note_backfill env i s));
          s2 = emit (NodeCacheHit r i (display_name wn) (first_artifact wn) (node_kind_for_node wn)) s1
      in tick (finish_recipe_node r True False s2))"

definition pinned_message :: "str \<Rightarrow> str" where
  "pinned_message name = ''pinned unit '' @ [squote] @ name @ [squote] @
     '' has no cached artifact for its key; pinned units are fetch-only and are never rebuilt''"

definition ready_step :: "exec_env \<Rightarrow> nat \<Rightarrow> work_payload \<Rightarrow> exec \<Rightarrow> exec \<times> nat list \<times> nat" where
  "ready_step env i p s =
     (let wn = wnode s i; r = wn_recipe_name wn in
      case e_cache env i of
        CacheHit \<Rightarrow> (let (s', new) = complete_node i (serve_step env i s) in (s', new, 0))
      | PinnedColdMiss \<Rightarrow>
          (let msg = pinned_message (payload_name p) in
           (cancel_dependents i (payload_name p)
              (tick (node_failed env i (display_name wn) msg msg (ensure_recipe_started r s))), [], 0))
      | CacheMiss cause \<Rightarrow> (let (s', k) = dispatch_to_pool env i cause s in (s', [], k)))"

definition enqueue :: "nat \<Rightarrow> exec \<Rightarrow> exec" where
  "enqueue i s = s\<lparr>x_queue := x_queue s @ [i]\<rparr>"

text \<open>
  \<open>process_ready\<close> without its recursion: the state, the nodes the completion of \<open>i\<close> released, and the
  number of items submitted for \<open>i\<close> itself.
\<close>

definition ready_one :: "exec_env \<Rightarrow> nat \<Rightarrow> exec \<Rightarrow> exec \<times> nat list \<times> nat" where
  "ready_one env i s =
     (if \<not> node_exists s i then (panic s, [], 0)
      else if x_cancelled s ! i then (tick s, [], 0)
      else
        (let wn = wnode s i in
         case wn_payload wn of
           None \<Rightarrow> (let (s', new) = complete_node i (serve_presatisfied i s) in (s', new, 0))
         | Some p \<Rightarrow>
             (case p of
                Interactive _ _ _ \<Rightarrow> (enqueue i s, [], 0)
              | _ \<Rightarrow>
                  if is_chore_window_member (Some p) then (enqueue i s, [], 0)
                  else if is_test wn then ready_test env i s
                  else (case p of
                          ProbePayload key _ _ \<Rightarrow> ready_probe env i key s
                        | _ \<Rightarrow> ready_step env i p s))))"

text \<open>
  What a node that is ready gets, read off its payload and the outside alone: it is served without
  running, it waits for the terminal, it goes to the pool, or it fails before it runs.
\<close>

datatype disposition = Serve | Queue | Dispatch | Reject

definition dispatch_disposition :: "exec_env \<Rightarrow> nat \<Rightarrow> disposition" where
  "dispatch_disposition env i = (if e_parent_dirs env i = None then Dispatch else Reject)"

definition node_test_decision :: "exec_env \<Rightarrow> nat \<Rightarrow> work_node \<Rightarrow> cache_decision" where
  "node_test_decision env i wn =
     (if rerun_matches env (id_str (node_test_id wn)) then CacheMiss (Some ''forced by --rerun'')
      else e_cache env i)"

definition disposition_of :: "exec_env \<Rightarrow> nat \<Rightarrow> work_node \<Rightarrow> disposition" where
  "disposition_of env i wn =
     (case wn_payload wn of
        None \<Rightarrow> Serve
      | Some p \<Rightarrow>
          if is_chore_window_member (Some p) \<or> (\<exists>c l b. p = Interactive c l b) then Queue
          else if is_test wn then
            (if node_test_decision env i wn = CacheHit then Serve else dispatch_disposition env i)
          else
            (case p of
               ProbePayload _ _ _ \<Rightarrow>
                 (case e_probe env i of
                    None \<Rightarrow> Dispatch
                  | Some (Inl _) \<Rightarrow> Reject
                  | Some (Inr f) \<Rightarrow> if pf_resolved f = None then Dispatch else Serve)
             | _ \<Rightarrow>
                 (case e_cache env i of
                    CacheHit \<Rightarrow> Serve
                  | PinnedColdMiss \<Rightarrow> Reject
                  | CacheMiss _ \<Rightarrow> dispatch_disposition env i)))"

text \<open>
  The part of the state scheduling depends on: everything but the trackers, the rows, the number of
  settled nodes, and the events and calls that only report.
\<close>

fun scheduling :: "exec_call \<Rightarrow> bool" where
  "scheduling (SubmitItem _) = True"
| "scheduling (RunInteractive _) = True"
| "scheduling (CompleteNode _) = True"
| "scheduling _ = False"

definition failed_units :: "engine_event list \<Rightarrow> nat set" where
  "failed_units es = {i. \<exists>r n m. NodeFailed r i n m \<in> set es}"

record sview =
  v_dag :: "work_node dag"
  v_cancelled :: "bool list"
  v_queue :: "nat list"
  v_pending :: nat
  v_inflight :: "nat list"
  v_received :: nat
  v_panicked :: bool
  v_calls :: "exec_call list"
  v_failed :: "nat set"
  v_hard :: "nat list"

definition view :: "exec \<Rightarrow> sview" where
  "view s = \<lparr>v_dag = x_dag s, v_cancelled = x_cancelled s, v_queue = x_queue s, v_pending = x_pending s,
     v_inflight = x_inflight s, v_received = x_received s, v_panicked = x_panicked s,
     v_calls = filter scheduling (x_calls s), v_failed = failed_units (x_events s),
     v_hard = map fst (x_failures s)\<rparr>"

fun is_failure :: "engine_event \<Rightarrow> bool" where
  "is_failure (NodeFailed _ _ _ _) = True"
| "is_failure _ = False"

lemma failed_units_append:
  "failed_units (es @ fs) = failed_units es \<union> failed_units fs"
  "failed_units [] = {}"
  "failed_units (NodeFailed r i n m # fs) = insert i (failed_units fs)"
  by (auto simp: failed_units_def)

lemma failed_units_none: "\<forall>e \<in> set es. \<not> is_failure e \<Longrightarrow> failed_units es = {}"
  by (force simp: failed_units_def)

lemma view_emit [simp]: "\<not> is_failure e \<Longrightarrow> view (emit e s) = view s"
  by (simp add: view_def emit_def failed_units_append failed_units_none)

lemma view_failed [simp]:
  "view (emit (NodeFailed r i n m) s) = (view s)\<lparr>v_failed := insert i (v_failed (view s))\<rparr>"
  "view (fail i r m s) = (view s)\<lparr>v_hard := v_hard (view s) @ [i]\<rparr>"
  by (simp_all add: view_def emit_def fail_def failed_units_append)

lemma recipe_end_quiet [simp]: "\<not> is_failure (recipe_end r t)"
  by (simp add: recipe_end_def)

lemma view_update [simp]:
  "view (s\<lparr>x_trackers := T\<rparr>) = view s" "view (s\<lparr>x_blocked_results := B\<rparr>) = view s"
  "view (s\<lparr>x_backfill := F\<rparr>) = view s" "view (s\<lparr>x_cached_results := B\<rparr>) = view s"
  "view (s\<lparr>x_test_results := B\<rparr>) = view s" "view (s\<lparr>x_finished := f\<rparr>) = view s"
  by (simp_all add: view_def)

lemma view_finish [simp]: "view (finish_recipe_node_inner r a b c s) = view s"
  by (simp add: finish_recipe_node_inner_def Let_def split: option.split)

lemma view_quiet [simp]:
  "view (tick s) = view s" "view (ensure_recipe_started r s) = view s"
  "view (finish_recipe_node r a b s) = view s" "view (note_backfill env i s) = view s"
  "view (test_started wn s) = view s" "view (block_test wn up s) = view s"
  by (simp_all add: tick_def ensure_recipe_started_def finish_recipe_node_def note_backfill_def
      test_started_def block_test_def split: option.split)

lemma view_call [simp]: "\<not> scheduling c \<Longrightarrow> view (call c s) = view s"
  by (simp add: view_def call_def)

lemma view_clean_dirs [simp]: "view (clean_dirs i s) = view s"
proof -
  have "filter scheduling (List.map_filter (\<lambda>p. map_option (CleanDirOutput i) (f p)) ps) = []"
    for f and ps :: "str list"
    by (auto simp: List.map_filter_def filter_empty_conv)
  then show ?thesis by (simp add: view_def clean_dirs_def split: option.split)
qed

lemma view_replay_lines [simp]: "view (replay_lines env i s) = view s"
proof -
  have "failed_units (map (\<lambda>(a, b). OutputLine r u n (f b) a) ls) = {}"
    for r u n f and ls :: "(output_stream \<times> str) list"
    by (rule failed_units_none) auto
  note this [of _ _ _ "\<lambda>b. ''[replayed] '' @ b", simplified, simp]
  then show ?thesis
    by (simp add: view_def replay_lines_def Let_def failed_units_append split: option.split)
qed

lemma view_probe_started [simp]: "view (probe_started i name s) = view s"
  by (simp add: probe_started_def Let_def)

lemma view_node_failed [simp]:
  "view (node_failed env i n sh m s)
     = (view s)\<lparr>v_failed := insert i (v_failed (view s)), v_hard := v_hard (view s) @ [i]\<rparr>"
  by (simp add: node_failed_def Let_def)

lemma view_serve [simp]:
  "view (serve_presatisfied i s) = view s" "view (serve_test env i s) = view s"
  "view (serve_step env i s) = view s" "view (serve_probe i key bytes s) = view s"
  by (simp_all add: serve_presatisfied_def serve_test_def serve_step_def serve_probe_def Let_def case_prod_beta)

text \<open>The outcomes of a ready node, up to what only reports.\<close>

inductive ready_outcome :: "exec_env \<Rightarrow> nat \<Rightarrow> exec \<Rightarrow> exec \<Rightarrow> nat list \<Rightarrow> nat \<Rightarrow> bool"
  for env i s where
  ro_panic: "\<not> node_exists s i \<Longrightarrow> ready_outcome env i s (panic s) [] 0"
| ro_skip: "node_exists s i \<Longrightarrow> x_cancelled s ! i \<Longrightarrow> ready_outcome env i s (tick s) [] 0"
| ro_serve: "node_exists s i \<Longrightarrow> \<not> x_cancelled s ! i \<Longrightarrow> disposition_of env i (wnode s i) = Serve
    \<Longrightarrow> view t = view s \<Longrightarrow> complete_node i t = (s', new) \<Longrightarrow> ready_outcome env i s s' new 0"
| ro_queue: "node_exists s i \<Longrightarrow> \<not> x_cancelled s ! i \<Longrightarrow> disposition_of env i (wnode s i) = Queue
    \<Longrightarrow> ready_outcome env i s (enqueue i s) [] 0"
| ro_dispatch: "node_exists s i \<Longrightarrow> \<not> x_cancelled s ! i \<Longrightarrow> disposition_of env i (wnode s i) = Dispatch
    \<Longrightarrow> view t = view s \<Longrightarrow> ready_outcome env i s (submit i t) [] (Suc 0)"
| ro_reject: "node_exists s i \<Longrightarrow> \<not> x_cancelled s ! i \<Longrightarrow> disposition_of env i (wnode s i) = Reject
    \<Longrightarrow> view t = view s
    \<Longrightarrow> ready_outcome env i s (cancel_dependents i up (tick (node_failed env i n sh m t))) [] 0"

lemma dispatch_outcome:
  assumes "dispatch_to_pool env i cause s = (s', k)" and "node_exists s i" and "\<not> x_cancelled s ! i"
    and "disposition_of env i (wnode s i) = dispatch_disposition env i"
  shows "ready_outcome env i s s' [] k"
proof (cases "e_parent_dirs env i")
  case None
  then show ?thesis
    using assms by (auto simp: dispatch_to_pool_def Let_def dispatch_disposition_def intro!: ro_dispatch)
next
  case (Some err)
  then show ?thesis
    using assms by (auto simp: dispatch_to_pool_def Let_def dispatch_disposition_def intro!: ro_reject)
qed

lemma serve_outcome:
  assumes "(case complete_node i t of (u, w) \<Rightarrow> (u, w, 0)) = (s', new, k)" and "view t = view s"
    and "node_exists s i" and "\<not> x_cancelled s ! i" and "disposition_of env i (wnode s i) = Serve"
  shows "ready_outcome env i s s' new k"
  using assms ro_serve[of s i env t s' new] by (auto split: prod.splits)

lemma ready_test_outcome:
  assumes "ready_test env i s = (s', new, k)" and "node_exists s i" and "\<not> x_cancelled s ! i"
    and "disposition_of env i (wnode s i)
           = (if node_test_decision env i (wnode s i) = CacheHit then Serve else dispatch_disposition env i)"
  shows "ready_outcome env i s s' new k"
proof -
  have d: "test_decision env i s = node_test_decision env i (wnode s i)"
    by (simp add: test_decision_def node_test_decision_def)
  show ?thesis
  proof (cases "test_decision env i s")
    case CacheHit
    then show ?thesis
      using assms d by (intro serve_outcome[of i "serve_test env i s"]) (simp_all add: ready_test_def)
  qed (use assms d in \<open>auto simp: ready_test_def split: prod.splits intro!: dispatch_outcome\<close>)
qed

lemma ready_step_outcome:
  assumes "ready_step env i p s = (s', new, k)" and "node_exists s i" and "\<not> x_cancelled s ! i"
    and "disposition_of env i (wnode s i) = (case e_cache env i of CacheHit \<Rightarrow> Serve
           | PinnedColdMiss \<Rightarrow> Reject | CacheMiss _ \<Rightarrow> dispatch_disposition env i)"
  shows "ready_outcome env i s s' new k"
proof (cases "e_cache env i")
  case CacheHit
  then show ?thesis
    using assms by (intro serve_outcome[of i "serve_step env i s"]) (simp_all add: ready_step_def)
next
  case PinnedColdMiss
  then show ?thesis
    using assms by (auto simp: ready_step_def Let_def intro!: ro_reject)
qed (use assms in \<open>auto simp: ready_step_def Let_def split: prod.splits intro!: dispatch_outcome\<close>)

lemma ready_probe_outcome:
  assumes "ready_probe env i key s = (s', new, k)" and "node_exists s i" and "\<not> x_cancelled s ! i"
    and "disposition_of env i (wnode s i) = (case e_probe env i of None \<Rightarrow> Dispatch | Some (Inl _) \<Rightarrow> Reject
           | Some (Inr f) \<Rightarrow> if pf_resolved f = None then Dispatch else Serve)"
  shows "ready_outcome env i s s' new k"
proof (cases "e_probe env i")
  case None
  then show ?thesis
    using assms by (auto simp: ready_probe_def Let_def submit_probe_def intro!: ro_dispatch)
next
  case (Some r)
  show ?thesis
  proof (cases r)
    case (Inl msg)
    then show ?thesis
      using assms Some by (auto simp: ready_probe_def Let_def intro!: ro_reject)
  next
    case (Inr f)
    let ?t = "if pf_has_tool_paths f then call (SetToolPaths (wn_recipe_name (wnode s i)) key) s else s"
    have t: "view ?t = view s" by simp
    show ?thesis
    proof (cases "pf_resolved f")
      case None
      then show ?thesis
        using assms Some Inr t
        by (auto simp: ready_probe_def Let_def submit_probe_def simp del: if_split intro!: ro_dispatch)
    next
      case (Some bytes)
      then show ?thesis
        using assms \<open>e_probe env i = Some r\<close> Inr t
        by (intro serve_outcome[of i "serve_probe i key bytes ?t"])
          (simp_all add: ready_probe_def Let_def del: if_split)
    qed
  qed
qed

lemma ready_one_outcome:
  assumes "ready_one env i s = (s', new, k)"
  shows "ready_outcome env i s s' new k"
proof -
  consider "\<not> node_exists s i" | "node_exists s i" "x_cancelled s ! i"
    | (live) "node_exists s i" "\<not> x_cancelled s ! i"
    by blast
  then show ?thesis
  proof cases
    case live
    show ?thesis
    proof (cases "wn_payload (wnode s i)")
      case None
      then show ?thesis
        using assms live
        by (intro serve_outcome[of i "serve_presatisfied i s"])
          (simp_all add: ready_one_def disposition_of_def)
    next
      case (Some p)
      consider "is_chore_window_member (Some p) \<or> (\<exists>c l b. p = Interactive c l b)"
        | (test) "\<not> (is_chore_window_member (Some p) \<or> (\<exists>c l b. p = Interactive c l b))" "is_test (wnode s i)"
        | (work) "\<not> (is_chore_window_member (Some p) \<or> (\<exists>c l b. p = Interactive c l b))" "\<not> is_test (wnode s i)"
        by blast
      then show ?thesis
      proof cases
        case 1
        then show ?thesis
          using assms live Some
          by (cases p) (auto simp: ready_one_def disposition_of_def intro!: ro_queue)
      next
        case test
        then have "ready_test env i s = (s', new, k)"
          using assms live Some by (cases p) (auto simp: ready_one_def)
        then show ?thesis
          by (rule ready_test_outcome) (use live test Some in \<open>auto simp: disposition_of_def\<close>)
      next
        case work
        show ?thesis
        proof (cases "\<exists>key src l. p = ProbePayload key src l")
          case True
          then obtain key src l where p: "p = ProbePayload key src l" by blast
          then have "ready_probe env i key s = (s', new, k)"
            using assms live Some work by (auto simp: ready_one_def)
          then show ?thesis
            by (rule ready_probe_outcome) (use live work Some p in \<open>auto simp: disposition_of_def\<close>)
        next
          case False
          then have "ready_step env i p s = (s', new, k)"
            using assms live Some work by (cases p) (auto simp: ready_one_def)
          then show ?thesis
            by (rule ready_step_outcome)
              (use live work Some False in \<open>auto simp: disposition_of_def split: work_payload.split\<close>)
        qed
      qed
    qed
  qed (use assms in \<open>auto simp: ready_one_def intro: ro_panic ro_skip\<close>)
qed

section \<open>Processing what is ready\<close>

lemma cancel_list_dag [simp]: "x_dag (cancel_list ws s) = x_dag s"
  by (induction ws s rule: cancel_list.induct) (simp_all add: panic_def)

lemma view_dagD: "view t = view s \<Longrightarrow> x_dag t = x_dag s"
  by (simp add: view_def)

lemma ready_one_undone:
  assumes "ready_one env i s = (s', new, k)"
  shows "undone (x_dag s') \<le> undone (x_dag s)" and "new \<noteq> [] \<Longrightarrow> undone (x_dag s') < undone (x_dag s)"
proof -
  have "undone (x_dag s') \<le> undone (x_dag s) \<and> (new \<noteq> [] \<longrightarrow> undone (x_dag s') < undone (x_dag s))"
    using ready_one_outcome[OF assms]
  proof cases
    case (ro_serve t)
    then show ?thesis
      using complete_node_undone[of i t] view_dagD[of t s] by simp
  next
    case (ro_reject t up n sh m)
    have "x_dag (node_failed env i n sh m t) = x_dag t"
      using view_node_failed[of env i n sh m t] by (simp add: view_def)
    then show ?thesis
      using ro_reject view_dagD[of t s] by (simp add: cancel_dependents_def tick_def)
  qed (auto simp: panic_def tick_def enqueue_def submit_def call_def dest: view_dagD)
  then show "undone (x_dag s') \<le> undone (x_dag s)"
    and "new \<noteq> [] \<Longrightarrow> undone (x_dag s') < undone (x_dag s)" by auto
qed

function process_list :: "exec_env \<Rightarrow> nat list \<Rightarrow> exec \<Rightarrow> exec \<times> nat" where
  "process_list env [] s = (s, 0)"
| "process_list env (i # rest) s =
     (case ready_one env i s of
        (s1, new, k) \<Rightarrow> (case process_list env (new @ rest) s1 of (s2, m) \<Rightarrow> (s2, k + m)))"
  by pat_completeness auto
termination
proof (relation "measures [\<lambda>(env, ws, s). undone (x_dag s), \<lambda>(env, ws, s). length ws]", goal_cases)
  case (2 env i rest s s1 q new k)
  then have "ready_one env i s = (s1, new, k)" by simp
  from ready_one_undone[OF this] show ?case by (cases "new = []") auto
qed simp

text \<open>\<open>for nid in newly_ready \{ pending += process_ready(..) \}\<close>\<close>

definition process_all :: "exec_env \<Rightarrow> nat list \<Rightarrow> exec \<Rightarrow> exec" where
  "process_all env ids s =
     (case process_list env ids s of (s', k) \<Rightarrow> s'\<lparr>x_pending := x_pending s' + k\<rparr>)"

section \<open>The terminal\<close>

text \<open>
  The receive on the pool's channel: some item in flight, chosen by the order the environment fixes.
  A receive with nothing in flight blocks for ever; it counts as a panic, like the closed channel.
\<close>

definition receive :: "exec_env \<Rightarrow> exec \<Rightarrow> exec \<times> nat" where
  "receive env s =
     (let q = x_inflight s;
          i = q ! (e_order env (x_received s) mod length q)
      in if q = [] then (panic s, 0)
         else (s\<lparr>x_inflight := remove1 i q, x_received := Suc (x_received s)\<rparr>, i))"

subsection \<open>Chore windows\<close>

definition same_window :: "exec \<Rightarrow> str \<Rightarrow> nat \<Rightarrow> bool" where
  "same_window s recipe i \<longleftrightarrow>
     wn_recipe_name (wnode s i) = recipe \<and> is_chore_window_member (wn_payload (wnode s i))"

text \<open>
  The walk along the chain of successors. Each step goes to a node with a larger number, so the
  number of nodes bounds the walk (\<open>walk_chain_enough\<close>).
\<close>

definition chain_next :: "exec \<Rightarrow> str \<Rightarrow> nat \<Rightarrow> nat option" where
  "chain_next s recipe tail =
     (case dependents_of s tail of
        [nx] \<Rightarrow> (if same_window s recipe nx \<and> remaining_deps (dag_nodes (x_dag s) ! nx) = 1
                 then Some nx else None)
      | _ \<Rightarrow> None)"

fun walk_chain :: "nat \<Rightarrow> exec \<Rightarrow> str \<Rightarrow> nat \<Rightarrow> nat list" where
  "walk_chain 0 s recipe tail = []"
| "walk_chain (Suc fuel) s recipe tail =
     (case chain_next s recipe tail of
        None \<Rightarrow> []
      | Some nx \<Rightarrow> nx # walk_chain fuel s recipe nx)"

text \<open>The window of the head of the queue, and what stays queued.\<close>

definition gather_window :: "exec \<Rightarrow> str \<Rightarrow> nat \<Rightarrow> nat list \<Rightarrow> nat list \<times> nat list" where
  "gather_window s recipe h rest =
     (let ready = h # takeWhile (same_window s recipe) rest
      in (ready @ walk_chain (length (dag_nodes (x_dag s))) s recipe (last ready),
          dropWhile (same_window s recipe) rest))"

text \<open>One step of a window: the shell on the terminal, or the Lua chunk through the pool.\<close>

definition run_chore_step :: "exec_env \<Rightarrow> nat \<Rightarrow> exec \<Rightarrow> exec \<times> str option" where
  "run_chore_step env i s =
     (case wn_payload (wnode s i) of
        Some (Interactive _ _ _) \<Rightarrow>
          (case e_parent_dirs env i of
             Some err \<Rightarrow> (s, Some err)
           | None \<Rightarrow> (call (RunInteractive i) s, e_interactive env i))
      | Some (LuaChunk _ _ _ _ _ _ _) \<Rightarrow>
          (case e_parent_dirs env i of
             Some err \<Rightarrow> (s, Some err)
           | None \<Rightarrow>
               (let (s', j) = receive env (submit i s); r = e_result env j
                in (s', if wr_success r then None
                        else Some (case wr_error r of Some e \<Rightarrow> e | None \<Rightarrow> ''lua chunk failed''))))
      | _ \<Rightarrow> (s, Some ''BUG: unexpected payload in chore window''))"

text \<open>
  The steps in order; \<open>k\<close> is the number of the step, counted from 1. The result is the number and the
  error of the step that failed.
\<close>

fun run_window :: "exec_env \<Rightarrow> nat list \<Rightarrow> nat \<Rightarrow> nat list \<Rightarrow> exec \<Rightarrow> exec \<times> (nat \<times> str) option" where
  "run_window env w k [] s = (s, None)"
| "run_window env w k (i # rest) s =
     (if x_cancelled s ! i then run_window env w (Suc k) rest s
      else
        (case run_chore_step env i s of
           (s1, Some err) \<Rightarrow> (s1, Some (k, err))
         | (s1, None) \<Rightarrow>
             (let (s2, new) = complete_node i s1
              in run_window env w (Suc k) rest (process_all env (filter (\<lambda>j. j \<notin> set w) new) s2))))"

text \<open>The whole body of the window, between the creation of its process group and its drain.\<close>

definition window_outcome :: "exec_env \<Rightarrow> nat list \<Rightarrow> exec \<Rightarrow> exec \<times> (nat \<times> str) option" where
  "window_outcome env w s =
     (case e_group_new env (hd w) of
        Some err \<Rightarrow> (s, Some (1, err))
      | None \<Rightarrow>
          (case run_window env w 1 w s of
             (s', None) \<Rightarrow> (s', map_option (Pair (length w)) (e_group_drain env (hd w)))
           | r \<Rightarrow> r))"

definition cancel_tail :: "nat list \<Rightarrow> exec \<Rightarrow> exec" where
  "cancel_tail js s = fold (\<lambda>j s. if x_cancelled s ! j then s else tick (mark_cancelled j s)) js s"

definition window_failed :: "exec_env \<Rightarrow> str \<Rightarrow> nat list \<Rightarrow> nat \<Rightarrow> str \<Rightarrow> exec \<Rightarrow> exec" where
  "window_failed env recipe w k err s =
     (let step = ''step '' @ show_nat k @ ''/'' @ show_nat (length w) @ '': '';
          s1 = cancel_tail (drop k w) s;
          s2 = fail (w ! (k - 1)) recipe (step @ err)
                 (emit (NodeFailed recipe (w ! (k - 1)) recipe (step @ e_progress_error env err)) s1)
      in fold (\<lambda>i. cancel_dependents i recipe) (drop (k - 1) w) s2)"

definition set_is_chore :: "str \<Rightarrow> exec \<Rightarrow> exec" where
  "set_is_chore r s =
     (case x_trackers s r of
        None \<Rightarrow> s
      | Some t \<Rightarrow> s\<lparr>x_trackers := (x_trackers s)(r \<mapsto> t\<lparr>rt_is_chore := True\<rparr>)\<rparr>)"

definition run_chore_window :: "exec_env \<Rightarrow> nat \<Rightarrow> nat list \<Rightarrow> exec \<Rightarrow> exec" where
  "run_chore_window env h rest s =
     (let r = wn_recipe_name (wnode s h);
          s1 = set_is_chore r (ensure_recipe_started r s);
          (w, queue) = gather_window s1 r h rest;
          head_name = cancel_name (wnode s1 (hd w));
          s2 = emit (InteractiveStart r head_name (length w)) (s1\<lparr>x_queue := queue\<rparr>);
          (s3, failed) = window_outcome env w s2;
          attempted = (case failed of None \<Rightarrow> length w | Some (k, _) \<Rightarrow> k);
          s4 = s3\<lparr>x_finished := x_finished s3 + attempted\<rparr>;
          is_terminal = (x_queue s4 = [] \<and> x_pending s4 = 0
             \<and> list_all (\<lambda>i. list_all (\<lambda>d. x_cancelled s4 ! d \<or> d \<in> set w) (dependents_of s4 i)) w);
          s5 = emit (InteractiveEnd r head_name (failed = None) is_terminal (map_option fst failed)) s4;
          success_count = (case failed of None \<Rightarrow> length w | Some (k, _) \<Rightarrow> k - 1);
          s6 = (finish_recipe_node r False False ^^ success_count) s5
      in case failed of
           None \<Rightarrow> s6
         | Some (k, err) \<Rightarrow> window_failed env r w k err (finish_recipe_node r False True s6))"

subsection \<open>Single interactive nodes\<close>

definition legacy_begin :: "exec_env \<Rightarrow> nat \<Rightarrow> str \<Rightarrow> exec \<Rightarrow> exec \<times> str option" where
  "legacy_begin env i name s =
     (let wn = wnode s i; r = wn_recipe_name wn;
          s1 = emit (NodeStarted r i name (first_artifact wn) name Cooked None (node_cache_key wn))
                 (emit (InteractiveStart r name 0) (ensure_recipe_started r s))
      in case e_parent_dirs env i of
           Some err \<Rightarrow> (s1, Some err)
         | None \<Rightarrow> (call (RunInteractive i) s1, e_interactive env i))"

definition legacy_end :: "nat \<Rightarrow> str \<Rightarrow> bool \<Rightarrow> exec \<Rightarrow> exec" where
  "legacy_end i name success s =
     (let s' = tick s;
          is_terminal = (x_queue s' = [] \<and> list_all (\<lambda>d. x_cancelled s' ! d) (dependents_of s' i))
      in emit (InteractiveEnd (wn_recipe_name (wnode s' i)) name success is_terminal None) s')"

text \<open>What a success does before the completion in the graph, on the terminal and in a worker alike.\<close>

definition publish_node :: "exec_env \<Rightarrow> nat \<Rightarrow> exec \<Rightarrow> exec" where
  "publish_node env i s =
     (if wn_cache_meta (wnode s i) \<noteq> None \<and> e_has_manager env (wn_recipe_name (wnode s i))
      then call (PublishCompletion i) s else s)"

definition legacy_success :: "exec_env \<Rightarrow> nat \<Rightarrow> str \<Rightarrow> exec \<Rightarrow> exec" where
  "legacy_success env i name s =
     (let wn = wnode s i; r = wn_recipe_name wn in
      finish_recipe_node r False False
        (publish_node env i (emit (NodeCompleted r i name Cooked (node_cache_key wn)) s)))"

definition run_legacy :: "exec_env \<Rightarrow> nat \<Rightarrow> exec \<Rightarrow> exec" where
  "run_legacy env i s =
     (case wn_payload (wnode s i) of
        Some (Interactive cmd line chore) \<Rightarrow>
          (let name = payload_name (Interactive cmd line chore) in
           case legacy_begin env i name s of
             (s1, None) \<Rightarrow>
               (let (s2, new) = complete_node i (legacy_success env i name (legacy_end i name True s1))
                in process_all env new s2)
           | (s1, Some err) \<Rightarrow>
               cancel_dependents i name
                 (node_failed env i name (e_progress_error env err) err (legacy_end i name False s1)))
      | _ \<Rightarrow> s)"

text \<open>One turn of the loop over the queue: \<open>while pending == 0 \&\& !interactive\_queue.is\_empty()\<close>.\<close>

definition run_queued :: "exec_env \<Rightarrow> exec \<Rightarrow> exec" where
  "run_queued env s =
     (case x_queue s of
        [] \<Rightarrow> s
      | h # rest \<Rightarrow>
          if \<not> node_exists s h then panic s
          else if x_cancelled s ! h then tick (s\<lparr>x_queue := rest\<rparr>)
          else if is_chore_window_member (wn_payload (wnode s h)) then run_chore_window env h rest s
          else run_legacy env h (s\<lparr>x_queue := rest\<rparr>))"

section \<open>The result of a worker\<close>

definition output_lines :: "nat \<Rightarrow> work_result \<Rightarrow> exec \<Rightarrow> exec" where
  "output_lines i r s =
     s\<lparr>x_events := x_events s @ map (\<lambda>(stream, line).
          OutputLine (wn_recipe_name (wnode s i)) i (wr_node_name r) line stream)
        (output_event_lines (wr_output r))\<rparr>"

definition worker_row :: "work_node \<Rightarrow> test_outcome \<Rightarrow> work_result \<Rightarrow> test_result" where
  "worker_row wn outcome r =
     test_row wn outcome False (stream_text (wr_output r) Stdout) (stream_text (wr_output r) Stderr)
       (node_cache_key wn) (wr_exit_code r)"

definition worker_test :: "nat \<Rightarrow> test_outcome \<Rightarrow> work_result \<Rightarrow> exec \<Rightarrow> exec" where
  "worker_test i outcome r s =
     (let wn = wnode s i; out = stream_text (wr_output r) Stdout; err = stream_text (wr_output r) Stderr in
      if is_test wn then
        (emit (if outcome = Passed
               then TestPassed (node_test_id wn) False out err (node_line wn)
               else TestFailed (node_test_id wn) out err (wr_exit_code r) (node_line wn)) s)
          \<lparr>x_test_results := x_test_results s @ [worker_row wn outcome r]\<rparr>
      else s)"

definition worker_success :: "exec_env \<Rightarrow> nat \<Rightarrow> work_result \<Rightarrow> exec \<Rightarrow> exec" where
  "worker_success env i r s =
     (let wn = wnode s i; recipe = wn_recipe_name wn in
      worker_test i Passed r
        (finish_recipe_node recipe False False
          (publish_node env i
            (emit (NodeCompleted recipe i (wr_node_name r) (node_kind_for_node wn) (node_cache_key wn))
              (output_lines i r s)))))"

definition work_succeeded :: "exec_env \<Rightarrow> nat \<Rightarrow> work_result \<Rightarrow> exec \<Rightarrow> exec" where
  "work_succeeded env i r s =
     (let (s', new) = complete_node i (worker_success env i r s) in process_all env new s')"

definition work_failed :: "exec_env \<Rightarrow> nat \<Rightarrow> work_result \<Rightarrow> exec \<Rightarrow> exec" where
  "work_failed env i r s =
     (let wn = wnode s i; recipe = wn_recipe_name wn; name = wr_node_name r;
          msg = (case wr_error r of Some e \<Rightarrow> e | None \<Rightarrow> ''unknown error'');
          s1 = worker_test i Failed r (output_lines i r s)
      in if is_test wn then
           (let s2 = cancel_dependents i name
                       (finish_recipe_node recipe False False
                         (emit (NodeFailed recipe i name (e_progress_error env msg)) s1));
                (s3, new) = complete_node i s2
            in process_all env new s3)
         else cancel_dependents i name (node_failed env i name (e_progress_error env msg) msg s1))"

definition probe_output :: "nat \<Rightarrow> work_result \<Rightarrow> exec \<Rightarrow> exec" where
  "probe_output i r s =
     (case wr_probe_output r of
        None \<Rightarrow> s
      | Some (key, bytes) \<Rightarrow> call (InsertProbe (wn_recipe_name (wnode s i)) key bytes) s)"

definition handle_result :: "exec_env \<Rightarrow> exec \<Rightarrow> exec" where
  "handle_result env s =
     (let (s1, i) = receive env s; r = e_result env i;
          s2 = probe_output i r (tick (s1\<lparr>x_pending := x_pending s1 - 1\<rparr>))
      in if x_panicked s1 then s1
         else if wr_success r then work_succeeded env i r s2 else work_failed env i r s2)"

section \<open>The run\<close>

definition exec_init :: "work_node dag \<Rightarrow> exec" where
  "exec_init d =
     \<lparr>x_dag = d, x_cancelled = replicate (dag_len d) False,
      x_trackers = (\<lambda>r. map_option new_tracker (recipe_node_counts d r)),
      x_queue = [], x_pending = 0, x_finished = 0, x_failures = [], x_test_results = [],
      x_cached_results = [], x_blocked_results = [], x_backfill = [], x_events = [], x_calls = [],
      x_inflight = [], x_received = 0, x_panicked = False\<rparr>"

definition exec_seed :: "exec_env \<Rightarrow> work_node dag \<Rightarrow> exec" where
  "exec_seed env d = process_all env (initial_ready d) (exec_init d)"

definition running :: "exec \<Rightarrow> bool" where
  "running s \<longleftrightarrow> \<not> x_panicked s \<and> \<not> (x_pending s = 0 \<and> x_queue s = [])"

text \<open>
  One turn: a queued node when the pool has drained, a result otherwise. Two nested loops of the
  source are one here; which of them takes a turn is what their conditions say.
\<close>

definition exec_turn :: "exec_env \<Rightarrow> exec \<Rightarrow> exec" where
  "exec_turn env s = (if x_pending s = 0 \<and> x_queue s \<noteq> [] then run_queued env s else handle_result env s)"

definition exec_loop :: "exec_env \<Rightarrow> exec \<Rightarrow> exec option" where
  "exec_loop env s = while_option running (exec_turn env) s"

datatype task_failures = TaskFailures nat "(nat \<times> str \<times> str) list" "test_result list"

definition exec_result :: "exec \<Rightarrow> task_failures + test_result list" where
  "exec_result s =
     (let rows = x_cached_results s @ x_test_results s @ x_blocked_results s in
      if x_failures s = [] then Inr rows
      else Inl (TaskFailures (length (x_failures s)) (x_failures s) rows))"

definition execute_dag :: "exec_env \<Rightarrow> work_node dag \<Rightarrow> (task_failures + test_result list) option" where
  "execute_dag env d =
     (if dag_is_empty d then Some (Inr [])
      else map_option exec_result (exec_loop env (exec_seed env d)))"

end
