(* ===== verification/Executor_Run.thy ===== *)
theory Executor_Run
  imports Executor "HOL-Library.Multiset"
begin

text \<open>
  What a run of the executor achieves, whatever the order in which the workers return: an invariant
  of the scheduling state (\<open>sched_ok\<close>), kept by each operation of \<open>Executor\<close>, the termination of the
  loop, and the outcome of every node at its end.

  The invariant follows a depth-first traversal: \<open>todo\<close> are the nodes released and not yet processed,
  \<open>cur\<close> the node being run, \<open>W\<close> the nodes about to be cancelled.
\<close>

section \<open>The invariant\<close>

record job =
  j_dag :: "work_node dag"
  j_fails :: "nat \<Rightarrow> bool"
  j_soft :: "nat \<Rightarrow> bool"
  j_pooled :: "nat \<Rightarrow> bool"

abbreviation jpreds :: "job \<Rightarrow> nat \<Rightarrow> nat set" where
  "jpreds J i \<equiv> preds (j_dag J) i"

abbreviation jlen :: "job \<Rightarrow> nat" where
  "jlen J \<equiv> length (dag_nodes (j_dag J))"

definition vdone :: "sview \<Rightarrow> nat set" where
  "vdone v = done_set (v_dag v)"

definition vcanc :: "sview \<Rightarrow> nat set" where
  "vcanc v = {i. i < length (v_cancelled v) \<and> v_cancelled v ! i}"

definition vbad :: "sview \<Rightarrow> nat set" where
  "vbad v = vcanc v \<union> v_failed v"

definition same_graph :: "job \<Rightarrow> sview \<Rightarrow> bool" where
  "same_graph J v \<longleftrightarrow>
     dag_wf (v_dag v) \<and> dag_deps (v_dag v) = dag_deps (j_dag J)
     \<and> map node_payload (dag_nodes (v_dag v)) = map node_payload (dag_nodes (j_dag J))
     \<and> length (v_cancelled v) = jlen J \<and> \<not> v_panicked v"

abbreviation jpayload :: "job \<Rightarrow> nat \<Rightarrow> work_payload option" where
  "jpayload J i \<equiv> wn_payload (node_payload (dag_nodes (j_dag J) ! i))"

definition queued_kind :: "work_payload option \<Rightarrow> bool" where
  "queued_kind p \<longleftrightarrow> is_chore_window_member p \<or> (\<exists>c l b. p = Some (Interactive c l b))"

text \<open>
  The trace: what a call starts, the starts of a trace, and that each comes after its dependencies and
  is of a node that was dispatched or waited for the terminal.
\<close>

fun starts :: "exec_call \<Rightarrow> nat option" where
  "starts (SubmitItem i) = Some i"
| "starts (RunInteractive i) = Some i"
| "starts _ = None"

definition started :: "exec_call list \<Rightarrow> nat list" where
  "started cs = List.map_filter starts cs"

definition may_start :: "job \<Rightarrow> nat \<Rightarrow> bool" where
  "may_start J i \<longleftrightarrow> j_pooled J i \<or> queued_kind (jpayload J i)"

definition trace_ok :: "job \<Rightarrow> exec_call list \<Rightarrow> bool" where
  "trace_ok J cs \<longleftrightarrow>
     (\<forall>as c bs. cs = as @ c # bs \<longrightarrow>
        (\<forall>i. starts c = Some i \<longrightarrow> may_start J i \<and> (\<forall>p \<in> jpreds J i. CompleteNode p \<in> set as)))"

definition calls_ok :: "job \<Rightarrow> nat list \<Rightarrow> sview \<Rightarrow> bool" where
  "calls_ok J cur v \<longleftrightarrow>
     (\<forall>p. CompleteNode p \<in> set (v_calls v) \<longleftrightarrow> p \<in> vdone v) \<and> trace_ok J (v_calls v)
     \<and> distinct (started (v_calls v))
     \<and> set (started (v_calls v)) \<subseteq> set cur \<union> set (v_inflight v) \<union> vdone v \<union> v_failed v"

text \<open>What waits for the terminal is interactive or a chore step; what is in flight was dispatched.\<close>

definition placed_ok :: "job \<Rightarrow> sview \<Rightarrow> bool" where
  "placed_ok J v \<longleftrightarrow>
     (\<forall>i \<in> set (v_queue v). queued_kind (jpayload J i)) \<and> (\<forall>i \<in> set (v_inflight v). j_pooled J i)"

definition active :: "nat list \<Rightarrow> nat list \<Rightarrow> sview \<Rightarrow> nat list" where
  "active todo cur v = cur @ todo @ v_queue v @ v_inflight v"

definition live_ok :: "job \<Rightarrow> nat list \<Rightarrow> nat list \<Rightarrow> sview \<Rightarrow> bool" where
  "live_ok J todo cur v \<longleftrightarrow>
     distinct (active todo cur v)
     \<and> (\<forall>i \<in> set (active todo cur v). i < jlen J \<and> i \<notin> vdone v \<and> i \<notin> v_failed v \<and> jpreds J i \<subseteq> vdone v)
     \<and> (\<forall>i \<in> set cur \<union> set (v_queue v) \<union> set (v_inflight v). i \<notin> vcanc v)
     \<and> placed_ok J v
     \<and> (\<forall>i < jlen J. i \<notin> vdone v \<longrightarrow> jpreds J i \<subseteq> vdone v \<longrightarrow> i \<in> set (active todo cur v) \<union> vbad v)"

definition dead_ok :: "job \<Rightarrow> nat set \<Rightarrow> sview \<Rightarrow> bool" where
  "dead_ok J W v \<longleftrightarrow>
     (\<forall>j < jlen J. jpreds J j \<inter> vbad v \<noteq> {} \<longrightarrow> j \<in> vcanc v \<union> W)
     \<and> (\<forall>j \<in> W. j < jlen J \<and> \<not> jpreds J j \<subseteq> vdone v \<and> jpreds J j \<inter> vbad v \<noteq> {})
     \<and> vdone v \<inter> vcanc v = {}
     \<and> (\<forall>j \<in> vcanc v. jpreds J j \<inter> vbad v \<noteq> {})
     \<and> (\<forall>i \<in> vdone v. i < jlen J \<and> jpreds J i \<subseteq> vdone v)
     \<and> (\<forall>i \<in> v_failed v. i < jlen J \<and> jpreds J i \<subseteq> vdone v \<and> i \<notin> vcanc v \<and> j_fails J i
           \<and> (i \<in> vdone v \<longrightarrow> j_soft J i) \<and> (i \<in> set (v_hard v) \<longleftrightarrow> \<not> j_soft J i))
     \<and> (\<forall>i \<in> vdone v. i \<notin> v_failed v \<longrightarrow> \<not> j_fails J i)
     \<and> set (v_hard v) \<subseteq> v_failed v"

definition sched_ok :: "job \<Rightarrow> nat list \<Rightarrow> nat list \<Rightarrow> nat set \<Rightarrow> sview \<Rightarrow> bool" where
  "sched_ok J todo cur W v \<longleftrightarrow>
     same_graph J v \<and> live_ok J todo cur v \<and> dead_ok J W v \<and> calls_ok J cur v"

lemma sched_okI:
  "same_graph J v \<Longrightarrow> live_ok J todo cur v \<Longrightarrow> dead_ok J W v \<Longrightarrow> calls_ok J cur v \<Longrightarrow> sched_ok J todo cur W v"
  by (simp add: sched_ok_def)

lemma sched_okD:
  assumes "sched_ok J todo cur W v"
  shows "same_graph J v" "live_ok J todo cur v" "dead_ok J W v" "calls_ok J cur v"
  using assms by (simp_all add: sched_ok_def)

text \<open>What has settled only grows, and a soft failure is completed by the end of the step it occurs in.\<close>

definition grows :: "job \<Rightarrow> sview \<Rightarrow> sview \<Rightarrow> bool" where
  "grows J v w \<longleftrightarrow> vdone v \<subseteq> vdone w \<and> vcanc v \<subseteq> vcanc w \<and> v_failed v \<subseteq> v_failed w
     \<and> (\<forall>i \<in> v_failed w. i \<notin> v_failed v \<longrightarrow> j_soft J i \<longrightarrow> i \<in> vdone w)"

lemma grows_refl [simp]: "grows J v v" by (simp add: grows_def)

lemma grows_trans: "grows J u v \<Longrightarrow> grows J v w \<Longrightarrow> grows J u w"
  unfolding grows_def by blast

lemma view_frames [simp]:
  "vdone (v\<lparr>v_inflight := f\<rparr>) = vdone v" "vdone (v\<lparr>v_queue := f\<rparr>) = vdone v"
  "vdone (v\<lparr>v_calls := cs\<rparr>) = vdone v" "vdone (v\<lparr>v_received := k\<rparr>) = vdone v"
  "vdone (v\<lparr>v_pending := k\<rparr>) = vdone v" "vdone (v\<lparr>v_failed := F\<rparr>) = vdone v"
  "vdone (v\<lparr>v_hard := H\<rparr>) = vdone v" "vdone (v\<lparr>v_cancelled := C\<rparr>) = vdone v"
  "vcanc (v\<lparr>v_inflight := f\<rparr>) = vcanc v" "vcanc (v\<lparr>v_queue := f\<rparr>) = vcanc v"
  "vcanc (v\<lparr>v_calls := cs\<rparr>) = vcanc v" "vcanc (v\<lparr>v_received := k\<rparr>) = vcanc v"
  "vcanc (v\<lparr>v_pending := k\<rparr>) = vcanc v" "vcanc (v\<lparr>v_failed := F\<rparr>) = vcanc v"
  "vcanc (v\<lparr>v_hard := H\<rparr>) = vcanc v" "vcanc (v\<lparr>v_dag := D\<rparr>) = vcanc v"
  by (simp_all add: vdone_def vcanc_def)

lemma same_graph_frames [simp]:
  "same_graph J (v\<lparr>v_inflight := f\<rparr>) = same_graph J v" "same_graph J (v\<lparr>v_queue := f\<rparr>) = same_graph J v"
  "same_graph J (v\<lparr>v_calls := cs\<rparr>) = same_graph J v" "same_graph J (v\<lparr>v_received := k\<rparr>) = same_graph J v"
  "same_graph J (v\<lparr>v_pending := k\<rparr>) = same_graph J v" "same_graph J (v\<lparr>v_failed := F\<rparr>) = same_graph J v"
  "same_graph J (v\<lparr>v_hard := H\<rparr>) = same_graph J v"
  by (simp_all add: same_graph_def)

lemma dead_ok_frames [simp]:
  "dead_ok J W (v\<lparr>v_inflight := f\<rparr>) = dead_ok J W v" "dead_ok J W (v\<lparr>v_queue := f\<rparr>) = dead_ok J W v"
  "dead_ok J W (v\<lparr>v_calls := cs\<rparr>) = dead_ok J W v" "dead_ok J W (v\<lparr>v_received := k\<rparr>) = dead_ok J W v"
  "dead_ok J W (v\<lparr>v_pending := k\<rparr>) = dead_ok J W v"
  by (simp_all add: dead_ok_def vbad_def)

lemma live_okD:
  assumes "live_ok J todo cur v"
  shows "distinct (active todo cur v)"
    and "\<And>i. i \<in> set (active todo cur v)
           \<Longrightarrow> i < jlen J \<and> i \<notin> vdone v \<and> i \<notin> v_failed v \<and> jpreds J i \<subseteq> vdone v"
    and "(set cur \<union> set (v_queue v) \<union> set (v_inflight v)) \<inter> vcanc v = {}"
    and "placed_ok J v"
    and "\<And>i. i < jlen J \<Longrightarrow> i \<notin> vdone v \<Longrightarrow> jpreds J i \<subseteq> vdone v \<Longrightarrow> i \<in> set (active todo cur v) \<union> vbad v"
  using assms unfolding live_ok_def by auto

text \<open>A node moves between the lists.\<close>

lemma live_ok_move:
  assumes ok: "live_ok J todo cur v"
    and m: "mset (active todo' cur' w) = mset (active todo cur v)"
    and f: "vdone w = vdone v" "vcanc w = vcanc v" "v_failed w = v_failed v"
    and c: "(set cur' \<union> set (v_queue w) \<union> set (v_inflight w)) \<inter> vcanc v = {}"
    and q: "placed_ok J w"
  shows "live_ok J todo' cur' w"
proof -
  note l = live_okD[OF ok]
  have s: "set (active todo' cur' w) = set (active todo cur v)" using m by (rule mset_eq_setD)
  have d: "distinct (active todo' cur' w)" using m l(1) by (metis mset_eq_imp_distinct_iff)
  have b: "vbad w = vbad v" using f by (simp add: vbad_def)
  show ?thesis
    unfolding live_ok_def s f b
  proof (intro conjI)
    show "\<forall>i \<in> set cur' \<union> set (v_queue w) \<union> set (v_inflight w). i \<notin> vcanc v" using c by blast
  qed (use d l q in blast)+
qed

lemma same_graph_len:
  assumes "same_graph J v"
  shows "length (dag_nodes (v_dag v)) = jlen J" and "dag_len (v_dag v) = jlen J"
    and "preds (v_dag v) i = jpreds J i"
proof -
  show len: "length (dag_nodes (v_dag v)) = jlen J"
    using assms map_eq_imp_length_eq unfolding same_graph_def by blast
  then show "dag_len (v_dag v) = jlen J" by (simp add: dag_len_def)
  show "preds (v_dag v) i = jpreds J i"
    using assms unfolding same_graph_def preds_def by simp
qed

lemma same_graph_node:
  assumes "same_graph J v" and "i < jlen J"
  shows "node_payload (dag_nodes (v_dag v) ! i) = node_payload (dag_nodes (j_dag J) ! i)"
proof -
  have "map node_payload (dag_nodes (v_dag v)) ! i = map node_payload (dag_nodes (j_dag J)) ! i"
    using assms(1) by (simp add: same_graph_def)
  then show ?thesis using assms(2) same_graph_len(1)[OF assms(1)] by simp
qed

lemma same_graph_dependents:
  assumes "same_graph J v" and "i < jlen J"
  shows "set (dependents (dag_nodes (v_dag v) ! i)) = {j. j < jlen J \<and> i \<in> jpreds J j}"
    and "distinct (dependents (dag_nodes (v_dag v) ! i))"
proof -
  have wf: "dag_wf (v_dag v)" using assms(1) by (simp add: same_graph_def)
  have i: "i < length (dag_nodes (v_dag v))" using assms same_graph_len(1) by simp
  show "distinct (dependents (dag_nodes (v_dag v) ! i))" by (rule dependents_distinct(1)[OF wf i])
  show "set (dependents (dag_nodes (v_dag v) ! i)) = {j. j < jlen J \<and> i \<in> jpreds J j}"
    using dependents_distinct(3)[OF wf i] same_graph_len(1,3)[OF assms(1)] by auto
qed

subsection \<open>Traces\<close>

lemma started_snoc: "started (cs @ [c]) = started cs @ (case starts c of None \<Rightarrow> [] | Some i \<Rightarrow> [i])"
  by (simp add: started_def List.map_filter_def split: option.split)

lemma trace_ok_snoc:
  "trace_ok J (cs @ [c]) \<longleftrightarrow>
     trace_ok J cs \<and> (\<forall>i. starts c = Some i \<longrightarrow> may_start J i \<and> (\<forall>p \<in> jpreds J i. CompleteNode p \<in> set cs))"
  (is "?l \<longleftrightarrow> ?r")
proof
  assume l: ?l
  have "trace_ok J cs"
    unfolding trace_ok_def
  proof (intro allI impI)
    fix as x bs i assume e: "cs = as @ x # bs" "starts x = Some i"
    then have "cs @ [c] = as @ x # (bs @ [c])" by simp
    then show "may_start J i \<and> (\<forall>p \<in> jpreds J i. CompleteNode p \<in> set as)"
      using l e(2) unfolding trace_ok_def by blast
  qed
  moreover have "may_start J i \<and> (\<forall>p \<in> jpreds J i. CompleteNode p \<in> set cs)" if "starts c = Some i" for i
    using l that unfolding trace_ok_def by blast
  ultimately show ?r by blast
next
  assume r: ?r
  show ?l
    unfolding trace_ok_def
  proof (intro allI impI)
    fix as x bs i assume e: "cs @ [c] = as @ x # bs" and x: "starts x = Some i"
    show "may_start J i \<and> (\<forall>p \<in> jpreds J i. CompleteNode p \<in> set as)"
    proof (cases bs rule: rev_cases)
      case Nil
      then show ?thesis using e x r by auto
    next
      case (snoc bs' y)
      then have "cs = as @ x # bs'" using e by auto
      then show ?thesis using r x unfolding trace_ok_def by blast
    qed
  qed
qed

section \<open>What each step does to the invariant\<close>

subsection \<open>Picking a node\<close>

lemma calls_okD:
  assumes "calls_ok J cur v"
  shows "\<And>p. CompleteNode p \<in> set (v_calls v) \<longleftrightarrow> p \<in> vdone v" and "trace_ok J (v_calls v)"
    and "distinct (started (v_calls v))"
    and "set (started (v_calls v)) \<subseteq> set cur \<union> set (v_inflight v) \<union> vdone v \<union> v_failed v"
  using assms by (simp_all add: calls_ok_def)

lemma pick_facts:
  assumes ok: "sched_ok J (i # todo) [] W v"
  shows "i \<notin> set (started (v_calls v))" and "i < jlen J" and "i \<notin> vdone v" and "i \<notin> v_failed v"
    and "jpreds J i \<subseteq> vdone v"
proof -
  note l = live_okD[OF sched_okD(2)[OF ok]] and c = calls_okD[OF sched_okD(4)[OF ok]]
  show a: "i < jlen J" "i \<notin> vdone v" "i \<notin> v_failed v" "jpreds J i \<subseteq> vdone v"
    using l(2)[of i] by (simp_all add: active_def)
  have "i \<notin> set (v_inflight v)" using l(1) by (auto simp: active_def)
  then show "i \<notin> set (started (v_calls v))" using c(4) a by auto
qed

lemma pick_cancelled:
  assumes ok: "sched_ok J (i # todo) [] {} v" and c: "i \<in> vcanc v"
  shows "sched_ok J todo [] {} v"
proof -
  note l = live_okD[OF sched_okD(2)[OF ok]]
  have a: "active (i # todo) [] v = i # active todo [] v" by (simp add: active_def)
  have "live_ok J todo [] v"
    unfolding live_ok_def
    using l c unfolding a by (auto simp: vbad_def)
  then show ?thesis using sched_okD[OF ok] by (simp add: sched_ok_def)
qed

lemma pick_cur:
  assumes ok: "sched_ok J (i # todo) [] {} v" and c: "i \<notin> vcanc v"
  shows "sched_ok J todo [i] {} v"
proof -
  have "live_ok J todo [i] v"
    by (rule live_ok_move[OF sched_okD(2)[OF ok]])
      (use live_okD(3,4)[OF sched_okD(2)[OF ok]] c in \<open>simp_all add: active_def\<close>)
  moreover have "calls_ok J [i] v"
    unfolding calls_ok_def using calls_okD[OF sched_okD(4)[OF ok]] by simp blast
  ultimately show ?thesis using sched_okD[OF ok] by (simp add: sched_ok_def)
qed

lemma calls_ok_start:
  assumes "calls_ok J [] v" and "starts c = Some i" and "jpreds J i \<subseteq> vdone v"
    and "i \<notin> set (started (v_calls v))" and "\<And>p. c \<noteq> CompleteNode p"
    and "i \<in> set cur \<union> set f" and "set (v_inflight v) \<subseteq> set f" and "may_start J i"
  shows "calls_ok J cur (v\<lparr>v_inflight := f, v_calls := v_calls v @ [c]\<rparr>)"
proof -
  have d: "vdone (v\<lparr>v_inflight := f, v_calls := v_calls v @ [c]\<rparr>) = vdone v" by simp
  have t: "trace_ok J (v_calls v @ [c])"
    using assms(1,2,3,8) by (auto simp: trace_ok_snoc calls_ok_def)
  show ?thesis
    unfolding calls_ok_def d
    using calls_okD[OF assms(1)] t assms(2,4-7) by (auto simp: started_snoc)
qed

lemma start_submit:
  assumes ok: "sched_ok J (i # todo) [] {} v" and c: "i \<notin> vcanc v" and p: "j_pooled J i"
  shows "sched_ok J todo [] {} (v\<lparr>v_inflight := v_inflight v @ [i], v_calls := v_calls v @ [SubmitItem i]\<rparr>)"
    (is "sched_ok J todo [] {} ?v")
proof (rule sched_okI)
  show "live_ok J todo [] ?v"
    by (rule live_ok_move[OF sched_okD(2)[OF ok]])
      (use live_okD(3,4)[OF sched_okD(2)[OF ok]] c p in \<open>auto simp: active_def placed_ok_def\<close>)
  show "calls_ok J [] ?v"
    by (rule calls_ok_start[where i = i]) (use sched_okD(4)[OF ok] pick_facts[OF ok] p in \<open>auto simp: may_start_def\<close>)
qed (use sched_okD[OF ok] in simp_all)

lemma start_enqueue:
  assumes ok: "sched_ok J (i # todo) [] {} v" and c: "i \<notin> vcanc v" and q: "queued_kind (jpayload J i)"
  shows "sched_ok J todo [] {} (v\<lparr>v_queue := v_queue v @ [i]\<rparr>)" (is "sched_ok J todo [] {} ?v")
proof (rule sched_okI)
  show "live_ok J todo [] ?v"
    by (rule live_ok_move[OF sched_okD(2)[OF ok]])
      (use live_okD(3,4)[OF sched_okD(2)[OF ok]] c q in \<open>auto simp: active_def placed_ok_def\<close>)
  show "calls_ok J [] ?v" using sched_okD(4)[OF ok] by (simp add: calls_ok_def)
qed (use sched_okD[OF ok] in simp_all)

lemma start_cur:
  assumes ok: "sched_ok J (i # todo) [] {} v" and c: "i \<notin> vcanc v"
    and q: "queued_kind (jpayload J i)"
    and x: "starts x = Some i" "\<And>p. x \<noteq> CompleteNode p"
  shows "sched_ok J todo [i] {} (v\<lparr>v_calls := v_calls v @ [x]\<rparr>)" (is "sched_ok J todo [i] {} ?v")
proof (rule sched_okI)
  note p = sched_okD[OF pick_cur[OF ok c]]
  show "live_ok J todo [i] ?v"
    by (rule live_ok_move[OF p(2)]) (use live_okD(3,4)[OF p(2)] in \<open>simp_all add: active_def placed_ok_def\<close>)
  have "v\<lparr>v_calls := v_calls v @ [x]\<rparr>
      = v\<lparr>v_inflight := v_inflight v, v_calls := v_calls v @ [x]\<rparr>" by simp
  then show "calls_ok J [i] ?v"
    using calls_ok_start[of J v x i "[i]" "v_inflight v"] sched_okD(4)[OF ok] pick_facts[OF ok] x q
    by (simp add: may_start_def)
qed (use sched_okD[OF ok] in simp_all)

lemma start_interactive:
  assumes "sched_ok J (i # todo) [] {} v" and "i \<notin> vcanc v" and "queued_kind (jpayload J i)"
  shows "sched_ok J todo [i] {} (v\<lparr>v_calls := v_calls v @ [RunInteractive i]\<rparr>)"
  by (rule start_cur[OF assms]) simp_all

lemma take_received:
  assumes ok: "sched_ok J todo [] {} v" and i: "i \<in> set (v_inflight v)"
  shows "sched_ok J todo [i] {} (v\<lparr>v_inflight := remove1 i (v_inflight v)\<rparr>)" (is "sched_ok J todo [i] {} ?v")
proof (rule sched_okI)
  note l = live_okD[OF sched_okD(2)[OF ok]]
  have "distinct (v_inflight v)" using l(1) by (simp add: active_def)
  then have r: "set (remove1 i (v_inflight v)) = set (v_inflight v) - {i}" by simp
  have m: "mset (v_inflight v) = add_mset i (mset (remove1 i (v_inflight v)))" using i by simp
  show "live_ok J todo [i] ?v"
  proof (rule live_ok_move[OF sched_okD(2)[OF ok]])
    show "mset (active todo [i] ?v) = mset (active todo [] v)"
      using m by (simp add: active_def)
    show "(set [i] \<union> set (v_queue ?v) \<union> set (v_inflight ?v)) \<inter> vcanc v = {}"
      using l(3) i r by auto
    show "placed_ok J ?v" using l(4) r by (auto simp: placed_ok_def)
  qed simp_all
  show "calls_ok J [i] ?v"
    unfolding calls_ok_def using calls_okD[OF sched_okD(4)[OF ok]] r by simp blast
qed (use sched_okD[OF ok] in simp_all)

lemma dequeue:
  assumes ok: "sched_ok J [] [] {} v" and q: "v_queue v = i # rest"
  shows "sched_ok J [i] [] {} (v\<lparr>v_queue := rest\<rparr>)" and "i \<notin> vcanc v" and "queued_kind (jpayload J i)"
proof -
  note l = live_okD[OF sched_okD(2)[OF ok]]
  show "i \<notin> vcanc v" and "queued_kind (jpayload J i)" using l(3,4) q by (auto simp: placed_ok_def)
  have "live_ok J [i] [] (v\<lparr>v_queue := rest\<rparr>)"
    by (rule live_ok_move[OF sched_okD(2)[OF ok]]) (use l(3,4) q in \<open>auto simp: active_def placed_ok_def\<close>)
  moreover have "calls_ok J [] (v\<lparr>v_queue := rest\<rparr>)"
    using sched_okD(4)[OF ok] by (simp add: calls_ok_def)
  ultimately show "sched_ok J [i] [] {} (v\<lparr>v_queue := rest\<rparr>)"
    using sched_okD[OF ok] by (simp add: sched_ok_def)
qed


subsection \<open>Dead nodes\<close>

lemma dead_okD:
  assumes "dead_ok J W v"
  shows "\<And>j. j < jlen J \<Longrightarrow> jpreds J j \<inter> vbad v \<noteq> {} \<Longrightarrow> j \<in> vcanc v \<union> W"
    and "\<And>j. j \<in> W \<Longrightarrow> j < jlen J \<and> \<not> jpreds J j \<subseteq> vdone v \<and> jpreds J j \<inter> vbad v \<noteq> {}"
    and "vdone v \<inter> vcanc v = {}"
    and "\<And>j. j \<in> vcanc v \<Longrightarrow> jpreds J j \<inter> vbad v \<noteq> {}"
    and "\<And>i. i \<in> vdone v \<Longrightarrow> i < jlen J \<and> jpreds J i \<subseteq> vdone v"
    and "\<And>i. i \<in> v_failed v \<Longrightarrow> i < jlen J \<and> jpreds J i \<subseteq> vdone v \<and> i \<notin> vcanc v \<and> j_fails J i
           \<and> (i \<in> vdone v \<longrightarrow> j_soft J i) \<and> (i \<in> set (v_hard v) \<longleftrightarrow> \<not> j_soft J i)"
    and "\<And>i. i \<in> vdone v \<Longrightarrow> i \<notin> v_failed v \<Longrightarrow> \<not> j_fails J i"
    and "set (v_hard v) \<subseteq> v_failed v"
  using assms unfolding dead_ok_def by blast+

lemma dead_okI:
  assumes "\<And>j. j < jlen J \<Longrightarrow> jpreds J j \<inter> vbad v \<noteq> {} \<Longrightarrow> j \<in> vcanc v \<union> W"
    and "\<And>j. j \<in> W \<Longrightarrow> j < jlen J \<and> \<not> jpreds J j \<subseteq> vdone v \<and> jpreds J j \<inter> vbad v \<noteq> {}"
    and "vdone v \<inter> vcanc v = {}"
    and "\<And>j. j \<in> vcanc v \<Longrightarrow> jpreds J j \<inter> vbad v \<noteq> {}"
    and "\<And>i. i \<in> vdone v \<Longrightarrow> i < jlen J \<and> jpreds J i \<subseteq> vdone v"
    and "\<And>i. i \<in> v_failed v \<Longrightarrow> i < jlen J \<and> jpreds J i \<subseteq> vdone v \<and> i \<notin> vcanc v \<and> j_fails J i
           \<and> (i \<in> vdone v \<longrightarrow> j_soft J i) \<and> (i \<in> set (v_hard v) \<longleftrightarrow> \<not> j_soft J i)"
    and "\<And>i. i \<in> vdone v \<Longrightarrow> i \<notin> v_failed v \<Longrightarrow> \<not> j_fails J i"
    and "set (v_hard v) \<subseteq> v_failed v"
  shows "dead_ok J W v"
  unfolding dead_ok_def
  by (intro conjI allI ballI impI) (use assms in blast)+

text \<open>
  The running node fails, and a chain \<open>T\<close> of its successors (the rest of its chore window, or nothing)
  is given up with it. Their other successors are to be cancelled.
\<close>

definition vsuccs :: "job \<Rightarrow> nat set \<Rightarrow> nat set" where
  "vsuccs J S = {j. j < jlen J \<and> jpreds J j \<inter> S \<noteq> {}}"

definition give_up :: "nat list \<Rightarrow> bool list \<Rightarrow> bool list" where
  "give_up T bs = fold (\<lambda>j bs. bs[j := True]) T bs"

lemma give_up_length [simp]: "length (give_up T bs) = length bs"
  by (induction T arbitrary: bs) (simp_all add: give_up_def)

lemma give_up_nth: "k < length bs \<Longrightarrow> give_up T bs ! k \<longleftrightarrow> k \<in> set T \<or> bs ! k"
proof (induction T arbitrary: bs)
  case (Cons j T)
  have "give_up (j # T) bs ! k \<longleftrightarrow> k \<in> set T \<or> bs[j := True] ! k"
    using Cons.IH[of "bs[j := True]"] Cons.prems by (simp add: give_up_def)
  then show ?case using Cons.prems by (cases "k = j") auto
qed (simp add: give_up_def)

lemma vcanc_give_up:
  assumes "set T \<subseteq> {..<length (v_cancelled v)}"
  shows "vcanc (v\<lparr>v_cancelled := give_up T (v_cancelled v)\<rparr>) = vcanc v \<union> set T"
  using assms by (auto simp: vcanc_def give_up_nth)

lemma vcanc_give_up' [simp]:
  "vcanc (v\<lparr>v_cancelled := C, v_failed := F\<rparr>) = vcanc (v\<lparr>v_cancelled := C\<rparr>)"
  "vcanc (v\<lparr>v_cancelled := C, v_failed := F, v_hard := H\<rparr>) = vcanc (v\<lparr>v_cancelled := C\<rparr>)"
  by (simp_all add: vcanc_def)

lemma fail_cur:
  assumes ok: "sched_ok J todo [i] {} v" and f: "j_fails J i"
    and h: "H = (if j_soft J i then v_hard v else v_hard v @ [i])"
    and T: "\<And>t. t \<in> set T \<Longrightarrow> t < jlen J \<and> \<not> jpreds J t \<subseteq> vdone v \<and> jpreds J t \<inter> insert i (set T) \<noteq> {}"
  shows "sched_ok J todo [] (vsuccs J (insert i (set T)))
    (v\<lparr>v_cancelled := give_up T (v_cancelled v), v_failed := insert i (v_failed v), v_hard := H\<rparr>)"
    (is "sched_ok J todo [] ?W ?v")
proof -
  note sg = sched_okD(1)[OF ok] and l = live_okD[OF sched_okD(2)[OF ok]]
    and d = dead_okD[OF sched_okD(3)[OF ok]] and c = calls_okD[OF sched_okD(4)[OF ok]]
  have len: "length (v_cancelled v) = jlen J" using sg by (simp add: same_graph_def)
  have canc: "vcanc ?v = vcanc v \<union> set T"
    using vcanc_give_up[of T v] T len by auto
  have dn: "vdone ?v = vdone v" by (simp add: vdone_def)
  have bad: "vbad ?v = vbad v \<union> insert i (set T)" using canc by (auto simp: vbad_def)
  have i: "i < jlen J" "i \<notin> vdone v" "i \<notin> v_failed v" "jpreds J i \<subseteq> vdone v" "i \<notin> vcanc v"
    using l(2)[of i] l(3) by (auto simp: active_def)
  have und: "\<not> jpreds J j \<subseteq> vdone v" if "jpreds J j \<inter> insert i (set T) \<noteq> {}" for j
    using that T i(2) d(5) by blast
  have sg': "same_graph J ?v" using sg by (simp add: same_graph_def)
  have live: "live_ok J todo [] ?v"
  proof -
    have a: "active todo [i] v = i # active todo [] v" by (simp add: active_def)
    have a': "active todo [] ?v = active todo [] v" by (simp add: active_def)
    have q: "v_queue ?v = v_queue v" "v_inflight ?v = v_inflight v" "v_failed ?v = insert i (v_failed v)"
      "placed_ok J ?v = placed_ok J v"
      by (simp_all add: placed_ok_def)
    have t: "t \<notin> set (active todo [i] v)" if "t \<in> set T" for t
      using T[OF that] l(2)[of t] by blast
    show ?thesis
      unfolding live_ok_def a' dn bad canc q
    proof (intro conjI ballI allI impI)
      fix j assume "j \<in> set [] \<union> set (v_queue v) \<union> set (v_inflight v)"
      then show "j \<notin> vcanc v \<union> set T" using l(3) t[of j] by (auto simp: active_def)
    qed (use l a in auto)
  qed
  have dead: "dead_ok J ?W ?v"
  proof (rule dead_okI, unfold dn bad canc, goal_cases)
    case (1 j)
    then show ?case using d(1)[of j] by (auto simp: vsuccs_def)
  next
    case (2 j)
    then show ?case using und by (auto simp: vsuccs_def)
  next
    case 3
    then show ?case using d(3,5) T by blast
  next
    case (4 j)
    then show ?case using d(4) T by blast
  next
    case (6 k)
    have "k \<notin> set T" if "jpreds J k \<subseteq> vdone v" using that T by blast
    moreover have "i \<in> set H \<longleftrightarrow> \<not> j_soft J i"
      using h i(3) d(8) by auto
    moreover have "k \<in> set H \<longleftrightarrow> k \<in> set (v_hard v)" if "k \<noteq> i" using h that by auto
    ultimately show ?case using 6 d(6)[of k] f i by auto
  next
    case (5 k)
    then show ?case by (rule d(5))
  next
    case (7 k)
    then show ?case using d(7)[of k] by simp
  next
    case 8
    then show ?case using d(8) h by (auto split: if_splits)
  qed
  have "calls_ok J [] ?v"
    unfolding calls_ok_def dn using c by auto
  then show ?thesis using sg' live dead by (simp add: sched_ok_def)
qed

lemma fail_cur_only:
  assumes ok: "sched_ok J todo [i] {} v" and f: "j_fails J i"
    and h: "H = (if j_soft J i then v_hard v else v_hard v @ [i])"
  shows "sched_ok J todo [] (vsuccs J {i}) (v\<lparr>v_failed := insert i (v_failed v), v_hard := H\<rparr>)"
proof -
  have e: "v\<lparr>v_cancelled := give_up [] (v_cancelled v), v_failed := F, v_hard := H\<rparr>
      = v\<lparr>v_failed := F, v_hard := H\<rparr>" for F
    by (simp add: give_up_def)
  show ?thesis using fail_cur[OF ok f h, of "[]"] unfolding e by simp
qed

text \<open>One node of the list to cancel.\<close>

lemma cancel_step:
  assumes ok: "sched_ok J todo cur W v" and j: "j \<in> W" and n: "j \<notin> vcanc v"
    and W': "W \<union> vsuccs J {j} \<subseteq> insert j W'" "W' \<subseteq> W \<union> vsuccs J {j}"
  shows "sched_ok J todo cur W' (v\<lparr>v_cancelled := (v_cancelled v)[j := True]\<rparr>)"
    (is "sched_ok J todo cur _ ?v")
proof -
  note sg = sched_okD(1)[OF ok] and l = live_okD[OF sched_okD(2)[OF ok]]
    and d = dead_okD[OF sched_okD(3)[OF ok]] and c = calls_okD[OF sched_okD(4)[OF ok]]
  have len: "length (v_cancelled v) = jlen J" using sg by (simp add: same_graph_def)
  have jj: "j < jlen J" "\<not> jpreds J j \<subseteq> vdone v" "jpreds J j \<inter> vbad v \<noteq> {}" using d(2)[OF j] by auto
  have canc: "vcanc ?v = insert j (vcanc v)"
    using vcanc_give_up[of "[j]" v] jj(1) len by (simp add: give_up_def)
  have bad: "vbad ?v = insert j (vbad v)" using canc by (simp add: vbad_def)
  have dn: "vdone ?v = vdone v" by simp
  have nd: "j \<notin> vdone v" using d(5) jj(2) by blast
  have na: "j \<notin> set (active todo cur v)" using l(2)[of j] jj(2) by blast
  have sg': "same_graph J ?v" using sg by (simp add: same_graph_def)
  have a': "active todo cur ?v = active todo cur v" by (simp add: active_def)
  have q: "v_queue ?v = v_queue v" "v_inflight ?v = v_inflight v" "v_failed ?v = v_failed v"
    "placed_ok J ?v = placed_ok J v"
    by (simp_all add: placed_ok_def)
  have live: "live_ok J todo cur ?v"
    unfolding live_ok_def a' dn bad canc q
  proof (intro conjI ballI allI impI)
    fix k assume "k \<in> set cur \<union> set (v_queue v) \<union> set (v_inflight v)"
    then show "k \<notin> insert j (vcanc v)" using l(3) na by (auto simp: active_def)
  qed (use l in auto)
  have dead: "dead_ok J W' ?v"
  proof (rule dead_okI, unfold dn bad canc, goal_cases)
    case (1 k)
    then have "k \<in> vcanc v \<union> (W \<union> vsuccs J {j})" using d(1)[of k] by (auto simp: vsuccs_def)
    then show ?case using W'(1) by blast
  next
    case (2 k)
    then have "k \<in> W \<or> k \<in> vsuccs J {j}" using W'(2) by blast
    then show ?case using d(2)[of k] nd by (auto simp: vsuccs_def)
  next
    case (6 k)
    then show ?case using d(6)[of k] jj(2) by auto
  qed (use d jj nd in auto)
  have "calls_ok J cur ?v"
    unfolding calls_ok_def dn using c by auto
  then show ?thesis using sg' live dead by (simp add: sched_ok_def)
qed

lemma cancel_already:
  assumes ok: "sched_ok J todo cur (insert j W) v" and n: "j \<in> vcanc v"
  shows "sched_ok J todo cur W v"
proof -
  note d = dead_okD[OF sched_okD(3)[OF ok]]
  have "dead_ok J W v"
    by (rule dead_okI) (use d n in blast)+
  then show ?thesis using sched_okD[OF ok] by (simp add: sched_ok_def)
qed


subsection \<open>Completion\<close>

text \<open>
  The node being run completes, or a test that failed softly does: what is released is what has to
  be processed next.
\<close>

lemma released_new:
  assumes sg: "same_graph J v" and i: "i < jlen J" and n: "i \<notin> vdone v"
    and c: "complete i (v_dag v) = Some (d', new)"
  shows "same_graph J (v\<lparr>v_dag := d'\<rparr>)" and "vdone (v\<lparr>v_dag := d'\<rparr>) = insert i (vdone v)"
    and "distinct new"
    and "set new = {j. j < jlen J \<and> i \<in> jpreds J j \<and> jpreds J j \<subseteq> insert i (vdone v)}"
proof -
  have wf: "dag_wf (v_dag v)" and dp: "dag_deps (v_dag v) = dag_deps (j_dag J)"
    using sg by (simp_all add: same_graph_def)
  obtain e where e: "complete i (v_dag v)
        = Some (e, released_by (dag_deps (v_dag v)) (done_set (v_dag v)) i)"
    and we: "dag_wf e" "dag_deps e = dag_deps (v_dag v)" "done_set e = insert i (done_set (v_dag v))"
      "map node_payload (dag_nodes e) = map node_payload (dag_nodes (v_dag v))"
    using complete_refines[OF wf, of i] i n same_graph_len(2)[OF sg] by (auto simp: vdone_def)
  have d': "d' = e" and new: "new = released_by (dag_deps (v_dag v)) (done_set (v_dag v)) i"
    using e c by auto
  show "same_graph J (v\<lparr>v_dag := d'\<rparr>)" using sg we d' by (simp add: same_graph_def)
  show "vdone (v\<lparr>v_dag := d'\<rparr>) = insert i (vdone v)" using we d' by (simp add: vdone_def)
  show "distinct new" using new by (simp add: released_by_def)
  have "length (dag_deps (v_dag v)) = jlen J"
    using wf same_graph_len(1)[OF sg] by (simp add: dag_wf_def dag_shape_def Let_def)
  then show "set new = {j. j < jlen J \<and> i \<in> jpreds J j \<and> jpreds J j \<subseteq> insert i (vdone v)}"
    using new dp by (auto simp: released_by_def preds_def vdone_def)
qed

lemma preds_irrefl: "same_graph J v \<Longrightarrow> i < jlen J \<Longrightarrow> p \<in> jpreds J i \<Longrightarrow> p < i"
  using preds_less(1)[of "v_dag v" i p] same_graph_len[of J v] by (auto simp: same_graph_def)

lemma complete_core:
  assumes sg: "same_graph J v" and lv: "live_ok J todo cur v" and dd: "dead_ok J {} v"
    and cl: "calls_ok J cur v"
    and i: "i < jlen J" "i \<notin> vdone v" "i \<notin> vcanc v" "jpreds J i \<subseteq> vdone v"
    and cur: "cur = [i] \<and> \<not> j_fails J i \<or> cur = [] \<and> i \<in> v_failed v \<and> j_soft J i"
    and c: "complete i (v_dag v) = Some (d', new)"
  shows "sched_ok J (new @ todo) [] {} (v\<lparr>v_dag := d', v_calls := v_calls v @ [CompleteNode i]\<rparr>)"
    (is "sched_ok J _ _ _ ?v")
proof -
  note r = released_new[OF sg i(1,2) c] and l = live_okD[OF lv] and d = dead_okD[OF dd] and cc = calls_okD[OF cl]
  have dn: "vdone ?v = insert i (vdone v)" using r(2) by (simp add: vdone_def)
  have bad: "vbad ?v = vbad v" "vcanc ?v = vcanc v" by (simp_all add: vbad_def vcanc_def)
  have q: "v_queue ?v = v_queue v" "v_inflight ?v = v_inflight v" "v_failed ?v = v_failed v"
    "v_hard ?v = v_hard v" "placed_ok J ?v = placed_ok J v"
    by (simp_all add: placed_ok_def)
  have ni: "i \<notin> set (active todo [] v)"
  proof
    assume a: "i \<in> set (active todo [] v)"
    show False
    proof (cases "cur = [i]")
      case True
      then show False using l(1) a by (simp add: active_def)
    next
      case False
      then show False using cur l(2)[of i] a by (auto simp: active_def)
    qed
  qed
  have sub: "set (active todo cur v) = set cur \<union> set (active todo [] v)" by (simp add: active_def)
  have ci: "set cur \<subseteq> {i}" using cur by auto
  have irr: "i \<notin> jpreds J i" using i(2,4) by blast
  have newf: "j < jlen J \<and> j \<noteq> i \<and> j \<notin> vdone v \<and> j \<notin> v_failed v \<and> j \<notin> set (active todo [] v)
      \<and> jpreds J j \<subseteq> insert i (vdone v)" if "j \<in> set new" for j
  proof -
    have j: "j < jlen J" "i \<in> jpreds J j" "jpreds J j \<subseteq> insert i (vdone v)" using that r(4) by auto
    have "j \<noteq> i" using j(2) irr by blast
    moreover have "j \<notin> vdone v" using d(5)[of j] j(2) i(2) by blast
    moreover have "j \<notin> v_failed v" using d(6)[of j] j(2) i(2) by blast
    moreover have "j \<notin> set (active todo [] v)" using l(2)[of j] sub j(2) i(2) by blast
    ultimately show ?thesis using j by blast
  qed
  have sg': "same_graph J ?v" using r(1) by simp
  have act: "active (new @ todo) [] ?v = new @ active todo [] v" by (simp add: active_def)
  have da: "distinct (active todo [] v)" using l(1) by (simp add: active_def)
  have live: "live_ok J (new @ todo) [] ?v"
    unfolding live_ok_def act dn bad q
  proof (intro conjI ballI allI impI)
    show "distinct (new @ active todo [] v)" using r(3) da newf by auto
  next
    fix j assume "j \<in> set (new @ active todo [] v)"
    then consider "j \<in> set new" | "j \<in> set (active todo [] v)" by auto
    then have "j < jlen J \<and> j \<notin> insert i (vdone v) \<and> j \<notin> v_failed v \<and> jpreds J j \<subseteq> insert i (vdone v)"
      using newf[of j] l(2)[of j] sub ni by cases auto
    then show "j < jlen J" and "j \<notin> insert i (vdone v)" and "j \<notin> v_failed v"
      and "jpreds J j \<subseteq> insert i (vdone v)" by auto
  next
    fix j assume "j \<in> set [] \<union> set (v_queue v) \<union> set (v_inflight v)"
    then show "j \<notin> vcanc v" using l(3) by auto
  next
    show "placed_ok J v" by (rule l(4))
  next
    fix j assume j: "j < jlen J" "j \<notin> insert i (vdone v)" "jpreds J j \<subseteq> insert i (vdone v)"
    show "j \<in> set (new @ active todo [] v) \<union> vbad v"
    proof (cases "i \<in> jpreds J j")
      case True
      then show ?thesis using r(4) j by auto
    next
      case False
      then have "j \<in> set (active todo cur v) \<union> vbad v" using l(5)[of j] j by auto
      then show ?thesis using sub ci j(2) by auto
    qed
  qed
  have dead: "dead_ok J {} ?v"
  proof (rule dead_okI, unfold dn bad q, goal_cases)
    case (1 j)
    then show ?case using d(1) by blast
  next
    case (3)
    then show ?case using d(3) i(3) by blast
  next
    case (4 j)
    then show ?case using d(4) by blast
  next
    case (5 j)
    then show ?case using d(5)[of j] i by auto
  next
    case (6 j)
    then show ?case using d(6)[of j] cur l(2)[of i] by (auto simp: active_def)
  next
    case (7 j)
    then show ?case using d(7)[of j] cur by auto
  qed (use d(8) in auto)
  have "calls_ok J [] ?v"
    unfolding calls_ok_def dn q
  proof (intro conjI allI)
    show "trace_ok J (v_calls ?v)" using cc(2) by (simp add: trace_ok_snoc)
    show "distinct (started (v_calls ?v))" using cc(3) by (simp add: started_snoc)
    show "set (started (v_calls ?v)) \<subseteq> set [] \<union> set (v_inflight v) \<union> insert i (vdone v) \<union> v_failed v"
      using cc(4) ci by (auto simp: started_snoc)
  qed (use cc(1) in auto)
  then show ?thesis using sg' live dead by (simp add: sched_ok_def)
qed

lemma complete_cur:
  assumes ok: "sched_ok J todo [i] {} v" and nf: "\<not> j_fails J i"
    and c: "complete i (v_dag v) = Some (d', new)"
  shows "sched_ok J (new @ todo) [] {} (v\<lparr>v_dag := d', v_calls := v_calls v @ [CompleteNode i]\<rparr>)"
proof -
  note l = live_okD[OF sched_okD(2)[OF ok]]
  have "i < jlen J" "i \<notin> vdone v" "i \<notin> vcanc v" "jpreds J i \<subseteq> vdone v"
    using l(2)[of i] l(3) by (auto simp: active_def)
  then show ?thesis using complete_core[OF sched_okD[OF ok]] nf c by blast
qed

lemma complete_soft:
  assumes ok: "sched_ok J todo [] {} v" and i: "i \<in> v_failed v" "i \<notin> vdone v" "j_soft J i"
    and c: "complete i (v_dag v) = Some (d', new)"
  shows "sched_ok J (new @ todo) [] {} (v\<lparr>v_dag := d', v_calls := v_calls v @ [CompleteNode i]\<rparr>)"
  using complete_core[OF sched_okD[OF ok], of i] dead_okD(6)[OF sched_okD(3)[OF ok] i(1)] i c by blast


section \<open>The operations of the executor\<close>

text \<open>What the outside makes of each node, and the job the executor then has.\<close>

definition node_fails :: "exec_env \<Rightarrow> work_node dag \<Rightarrow> nat \<Rightarrow> bool" where
  "node_fails env d i =
     (let wn = node_payload (dag_nodes d ! i) in
      case disposition_of env i wn of
        Serve \<Rightarrow> False
      | Reject \<Rightarrow> True
      | Dispatch \<Rightarrow> \<not> wr_success (e_result env i)
      | Queue \<Rightarrow>
          e_parent_dirs env i \<noteq> None
          \<or> (case wn_payload wn of
               Some (Interactive _ _ _) \<Rightarrow> e_interactive env i \<noteq> None
             | _ \<Rightarrow> \<not> wr_success (e_result env i)))"

definition fails_softly :: "exec_env \<Rightarrow> work_node dag \<Rightarrow> nat \<Rightarrow> bool" where
  "fails_softly env d i =
     (let wn = node_payload (dag_nodes d ! i) in is_test wn \<and> disposition_of env i wn = Dispatch)"

definition job_of :: "exec_env \<Rightarrow> work_node dag \<Rightarrow> job" where
  "job_of env d = \<lparr>j_dag = d, j_fails = node_fails env d, j_soft = fails_softly env d,
     j_pooled = (\<lambda>i. disposition_of env i (node_payload (dag_nodes d ! i)) = Dispatch)\<rparr>"

lemma job_simps [simp]:
  "j_dag (job_of env d) = d" "j_fails (job_of env d) = node_fails env d"
  "j_soft (job_of env d) = fails_softly env d"
  "j_pooled (job_of env d) i \<longleftrightarrow> disposition_of env i (node_payload (dag_nodes d ! i)) = Dispatch"
  by (simp_all add: job_of_def)

lemma view_simps [simp]:
  "v_dag (view s) = x_dag s" "v_queue (view s) = x_queue s" "v_pending (view s) = x_pending s"
  "v_inflight (view s) = x_inflight s" "v_cancelled (view s) = x_cancelled s"
  "v_received (view s) = x_received s" "v_panicked (view s) = x_panicked s"
  by (simp_all add: view_def)

lemma in_vcanc: "i < length (v_cancelled v) \<Longrightarrow> i \<in> vcanc v \<longleftrightarrow> v_cancelled v ! i"
  by (simp add: vcanc_def)

lemma graph_exec:
  assumes "same_graph J (view s)" and "i < jlen J"
  shows "node_exists s i" and "wnode s i = node_payload (dag_nodes (j_dag J) ! i)"
    and "set (dependents_of s i) = vsuccs J {i}" and "i \<in> vcanc (view s) \<longleftrightarrow> x_cancelled s ! i"
    and "length (x_cancelled s) = jlen J"
proof -
  show len: "length (x_cancelled s) = jlen J" using assms(1) by (simp add: same_graph_def)
  show "node_exists s i"
    using same_graph_len(1)[OF assms(1)] len assms(2) by (simp add: node_exists_def)
  show "wnode s i = node_payload (dag_nodes (j_dag J) ! i)"
    using same_graph_node[OF assms] by (simp add: wnode_def)
  show "set (dependents_of s i) = vsuccs J {i}"
    using same_graph_dependents(1)[OF assms] by (auto simp: dependents_of_def vsuccs_def)
  show "i \<in> vcanc (view s) \<longleftrightarrow> x_cancelled s ! i" using len assms(2) by (simp add: vcanc_def)
qed

subsection \<open>Cancelling\<close>

lemma view_mark: "view (cancel_node j up s) = (view s)\<lparr>v_cancelled := (x_cancelled s)[j := True]\<rparr>"
proof -
  have "view (mark_cancelled j s) = (view s)\<lparr>v_cancelled := (x_cancelled s)[j := True]\<rparr>"
    by (simp add: view_def mark_cancelled_def)
  then show ?thesis by (simp add: cancel_node_def Let_def)
qed

lemma cancel_list_ok:
  assumes "sched_ok J todo cur (fst ` set ws \<union> W) (view s)"
  shows "sched_ok J todo cur W (view (cancel_list ws s))
     \<and> grows J (view s) (view (cancel_list ws s))
     \<and> (\<exists>C. view (cancel_list ws s) = (view s)\<lparr>v_cancelled := C\<rparr>)"
  using assms
proof (induction ws s rule: cancel_list.induct)
  case (1 s)
  have "view s = (view s)\<lparr>v_cancelled := v_cancelled (view s)\<rparr>" by simp
  then show ?case using 1 by (auto intro: exI[of _ "v_cancelled (view s)"])
next
  case (2 j up rest s)
  have sg: "same_graph J (view s)" using 2(3) by (rule sched_okD)
  have j: "j < jlen J" using dead_okD(2)[OF sched_okD(3)[OF 2(3)], of j] by simp
  note g = graph_exec[OF sg j]
  show ?case
  proof (cases "x_cancelled s ! j")
    case True
    have "sched_ok J todo cur (fst ` set rest \<union> W) (view s)"
      by (rule cancel_already[of J todo cur j]) (use 2(3) True g(4) in auto)
    then show ?thesis using 2(1) True g(1) by simp
  next
    case False
    let ?ws = "map (\<lambda>d. (d, cancel_name (wnode s j))) (dependents_of s j) @ rest"
    let ?s = "cancel_node j up s"
    have ws: "fst ` set ?ws = vsuccs J {j} \<union> fst ` set rest"
      using g(3) by (auto simp: image_Un image_image)
    have ok: "sched_ok J todo cur (fst ` set ?ws \<union> W) (view ?s)"
    proof -
      have "sched_ok J todo cur (fst ` set ?ws \<union> W)
        ((view s)\<lparr>v_cancelled := (v_cancelled (view s))[j := True]\<rparr>)"
        by (rule cancel_step[OF 2(3)]) (use False g(4) ws in auto)
      then show ?thesis by (simp add: view_mark)
    qed
    have gr: "grows J (view s) (view ?s)"
    proof -
      have "(x_cancelled s)[j := True] ! k" if "x_cancelled s ! k" "k < length (x_cancelled s)" for k
        using that by (cases "k = j") auto
      then show ?thesis by (auto simp: view_mark grows_def vcanc_def)
    qed
    from 2(2)[OF _ False ok] obtain C where
      r: "sched_ok J todo cur W (view (cancel_list ?ws ?s))" "grows J (view ?s) (view (cancel_list ?ws ?s))"
      and C: "view (cancel_list ?ws ?s) = (view ?s)\<lparr>v_cancelled := C\<rparr>"
      using g(1) by blast
    have "view (cancel_list ?ws ?s) = (view s)\<lparr>v_cancelled := C\<rparr>"
      using C by (simp add: view_mark)
    then show ?thesis using r grows_trans[OF gr] g(1) False by (auto simp del: cancel_list.simps(1))
  qed
qed


lemma cancel_dependents_ok:
  assumes ok: "sched_ok J todo cur (vsuccs J {i} \<union> W) (view s)" and i: "i < jlen J"
  shows "sched_ok J todo cur W (view (cancel_dependents i up s))"
    and "grows J (view s) (view (cancel_dependents i up s))"
    and "\<exists>C. view (cancel_dependents i up s) = (view s)\<lparr>v_cancelled := C\<rparr>"
proof -
  let ?ws = "map (\<lambda>d. (d, up)) (dependents_of s i)"
  have "fst ` set ?ws = vsuccs J {i}"
    using graph_exec(3)[OF sched_okD(1)[OF ok] i] by (simp add: image_image)
  then have "sched_ok J todo cur (fst ` set ?ws \<union> W) (view s)" using ok by simp
  from cancel_list_ok[OF this] show "sched_ok J todo cur W (view (cancel_dependents i up s))"
    and "grows J (view s) (view (cancel_dependents i up s))"
    and "\<exists>C. view (cancel_dependents i up s) = (view s)\<lparr>v_cancelled := C\<rparr>"
    by (simp_all add: cancel_dependents_def)
qed

subsection \<open>Completing and failing\<close>

lemma complete_node_view:
  assumes sg: "same_graph J (view t)" and i: "i < jlen J" and c: "complete_node i t = (s', new)"
  obtains d' where "complete i (v_dag (view t)) = Some (d', new)"
    and "view s' = (view t)\<lparr>v_dag := d', v_calls := v_calls (view t) @ [CompleteNode i]\<rparr>"
proof -
  have "complete i (x_dag t) \<noteq> None"
    using i same_graph_len(2)[OF sg] by (simp add: complete_panics_iff)
  then obtain d' r where d: "complete i (x_dag t) = Some (d', r)" by auto
  then have r: "new = r" and s': "s' = call (CompleteNode i) (t\<lparr>x_dag := d'\<rparr>)"
    using c by (auto simp: complete_node_def)
  have v: "view s' = (view t)\<lparr>v_dag := d', v_calls := v_calls (view t) @ [CompleteNode i]\<rparr>"
    unfolding s' by (simp add: view_def call_def)
  show ?thesis by (rule that[of d']) (use d r v in simp_all)
qed

text \<open>What a step leaves: the invariant, with \<open>m\<close> more items in flight.\<close>

definition step_ok :: "job \<Rightarrow> nat list \<Rightarrow> nat \<Rightarrow> sview \<Rightarrow> sview \<Rightarrow> bool" where
  "step_ok J todo m v w \<longleftrightarrow>
     sched_ok J todo [] {} w \<and> grows J v w \<and> v_pending w = v_pending v
     \<and> length (v_inflight w) = length (v_inflight v) + m"

lemma step_okD:
  assumes "step_ok J todo m v w"
  shows "sched_ok J todo [] {} w" "grows J v w" "v_pending w = v_pending v"
    "length (v_inflight w) = length (v_inflight v) + m"
  using assms by (simp_all add: step_ok_def)

lemma step_ok_trans: "step_ok J a m u v \<Longrightarrow> step_ok J b k v w \<Longrightarrow> step_ok J b (m + k) u w"
  by (auto simp: step_ok_def intro: grows_trans)

definition settled :: "sview \<Rightarrow> nat set" where
  "settled v = vdone v \<union> vcanc v \<union> v_failed v"

lemma grows_settled: "grows J v w \<Longrightarrow> settled v \<subseteq> settled w"
  by (auto simp: grows_def settled_def)

lemma complete_step:
  assumes ok: "sched_ok J todo [i] {} (view t)" and nf: "\<not> j_fails J i" and i: "i < jlen J"
    and c: "complete_node i t = (s', new)"
  shows "step_ok J (new @ todo) 0 (view t) (view s')" and "i \<in> settled (view s')"
    and "set new = {j. j < jlen J \<and> i \<in> jpreds J j \<and> jpreds J j \<subseteq> insert i (vdone (view t))}"
    and "vdone (view s') = insert i (vdone (view t))"
    and "v_inflight (view s') = v_inflight (view t)"
proof -
  have sg: "same_graph J (view t)" using ok by (rule sched_okD)
  have n: "i \<notin> vdone (view t)" using live_okD(2)[OF sched_okD(2)[OF ok], of i] by (simp add: active_def)
  obtain d' where d: "complete i (v_dag (view t)) = Some (d', new)"
    and v: "view s' = (view t)\<lparr>v_dag := d', v_calls := v_calls (view t) @ [CompleteNode i]\<rparr>"
    using complete_node_view[OF sg i c] .
  note r = released_new[OF sg i n d]
  show dn: "vdone (view s') = insert i (vdone (view t))" using r(2) unfolding v by (simp add: vdone_def)
  have g: "grows J (view t) (view s')" using dn unfolding v by (auto simp: grows_def vcanc_def)
  show "step_ok J (new @ todo) 0 (view t) (view s')"
    using complete_cur[OF ok nf d] g unfolding v step_ok_def by simp
  show "i \<in> settled (view s')" using dn by (simp add: settled_def)
  show "set new = {j. j < jlen J \<and> i \<in> jpreds J j \<and> jpreds J j \<subseteq> insert i (vdone (view t))}" by (rule r(4))
  show "v_inflight (view s') = v_inflight (view t)" using v by simp
qed

lemma fail_step:
  assumes ok: "sched_ok J todo [i] {} (view t)" and f: "j_fails J i" and h: "\<not> j_soft J i" and i: "i < jlen J"
    and v: "view s = (view t)\<lparr>v_failed := insert i (v_failed (view t)), v_hard := v_hard (view t) @ [i]\<rparr>"
  shows "step_ok J todo 0 (view t) (view (cancel_dependents i up s))"
    and "i \<in> settled (view (cancel_dependents i up s))"
proof -
  have "sched_ok J todo [] (vsuccs J {i}) (view s)"
    using fail_cur_only[OF ok f refl] h unfolding v by simp
  then have ok': "sched_ok J todo [] (vsuccs J {i} \<union> {}) (view s)" by simp
  note c = cancel_dependents_ok[OF ok' i, of up]
  obtain C where C: "view (cancel_dependents i up s) = (view s)\<lparr>v_cancelled := C\<rparr>" using c(3) by blast
  have "grows J (view t) (view s)" unfolding v using h by (auto simp: grows_def)
  then show "step_ok J todo 0 (view t) (view (cancel_dependents i up s))"
    unfolding step_ok_def using c(1) grows_trans[OF _ c(2)] C v by simp
  show "i \<in> settled (view (cancel_dependents i up s))" using C v by (simp add: settled_def)
qed

subsection \<open>Processing ready nodes\<close>

lemma ready_one_step:
  assumes ok: "sched_ok (job_of env d) (i # rest) [] {} (view s)" and r: "ready_outcome env i s s' new k"
  shows "step_ok (job_of env d) (new @ rest) k (view s) (view s')"
proof -
  let ?J = "job_of env d"
  note pf = pick_facts[OF ok]
  have sg: "same_graph ?J (view s)" using ok by (rule sched_okD)
  note g = graph_exec[OF sg pf(2)]
  show ?thesis
    using r
  proof cases
    case ro_panic
    then show ?thesis using g(1) by simp
  next
    case ro_skip
    then show ?thesis using pick_cancelled[OF ok] g(4) by (simp add: step_ok_def)
  next
    case (ro_serve t)
    have "sched_ok ?J rest [i] {} (view t)" using pick_cur[OF ok] g(4) ro_serve by simp
    moreover have "\<not> j_fails ?J i" using ro_serve g(2) by (simp add: node_fails_def Let_def)
    ultimately show ?thesis using complete_step(1)[of ?J rest i t s' new] ro_serve pf(2) by simp
  next
    case ro_queue
    have "queued_kind (jpayload ?J i)"
      using ro_queue g(2) by (auto simp: disposition_of_def queued_kind_def dispatch_disposition_def
          split: option.splits if_splits work_payload.splits cache_decision.splits sum.splits)
    then have "sched_ok ?J rest [] {} ((view s)\<lparr>v_queue := v_queue (view s) @ [i]\<rparr>)"
      using start_enqueue[OF ok] ro_queue g(4) by blast
    moreover have "view s' = (view s)\<lparr>v_queue := v_queue (view s) @ [i]\<rparr>"
      using ro_queue by (simp add: enqueue_def view_def)
    ultimately show ?thesis using ro_queue by (simp add: step_ok_def grows_def)
  next
    case (ro_dispatch t)
    have "sched_ok ?J rest [] {} ((view t)\<lparr>v_inflight := v_inflight (view t) @ [i],
        v_calls := v_calls (view t) @ [SubmitItem i]\<rparr>)"
      using start_submit[OF ok] ro_dispatch g(2,4) by simp
    moreover have "view s' = (view t)\<lparr>v_inflight := v_inflight (view t) @ [i],
        v_calls := v_calls (view t) @ [SubmitItem i]\<rparr>"
      using ro_dispatch by (simp add: submit_def call_def view_def)
    ultimately show ?thesis using ro_dispatch by (simp add: step_ok_def grows_def)
  next
    case (ro_reject t up n sh m)
    have ok': "sched_ok ?J rest [i] {} (view t)" using pick_cur[OF ok] g(4) ro_reject by simp
    have "j_fails ?J i" "\<not> j_soft ?J i"
      using ro_reject g(2) by (simp_all add: node_fails_def fails_softly_def Let_def)
    then have "step_ok ?J rest 0 (view t) (view (cancel_dependents i up (tick (node_failed env i n sh m t))))"
      by (rule fail_step(1)[OF ok' _ _ pf(2)]) simp
    then show ?thesis using ro_reject by simp
  qed
qed

lemma process_list_step:
  assumes "sched_ok (job_of env d) ids [] {} (view s)" and "process_list env ids s = (s', k)"
  shows "step_ok (job_of env d) [] k (view s) (view s')"
  using assms
proof (induction env ids s arbitrary: s' k rule: process_list.induct)
  case (1 env s)
  then show ?case by (simp add: step_ok_def)
next
  case (2 env i rest s)
  obtain s1 new k1 where r: "ready_one env i s = (s1, new, k1)" by (metis surj_pair)
  obtain s2 m where p: "process_list env (new @ rest) s1 = (s2, m)" by (metis surj_pair)
  note st = ready_one_step[OF 2(2) ready_one_outcome[OF r]]
  have "step_ok (job_of env d) [] m (view s1) (view s2)"
    by (rule 2(1)[OF r[symmetric] refl _ p]) (use step_okD(1)[OF st] in simp)
  with st have "step_ok (job_of env d) [] (k1 + m) (view s) (view s2)" by (rule step_ok_trans)
  then show ?case using 2(3) r p by simp
qed

lemma process_all_step:
  assumes ok: "sched_ok (job_of env d) ids [] {} (view s)"
  shows "sched_ok (job_of env d) [] [] {} (view (process_all env ids s))"
    and "grows (job_of env d) (view s) (view (process_all env ids s))"
    and "v_pending (view s) = length (v_inflight (view s)) \<Longrightarrow>
           v_pending (view (process_all env ids s)) = length (v_inflight (view (process_all env ids s)))"
proof -
  obtain s' k where p: "process_list env ids s = (s', k)" by (metis surj_pair)
  note st = step_okD[OF process_list_step[OF ok p]]
  have v: "view (process_all env ids s) = (view s')\<lparr>v_pending := v_pending (view s') + k\<rparr>"
    using p by (simp add: process_all_def view_def)
  have "same_graph J (w\<lparr>v_pending := n\<rparr>) = same_graph J w" "live_ok J t c (w\<lparr>v_pending := n\<rparr>) = live_ok J t c w"
    "calls_ok J c (w\<lparr>v_pending := n\<rparr>) = calls_ok J c w" for J t c w n
    by (simp_all add: live_ok_def active_def vbad_def calls_ok_def placed_ok_def)
  then show "sched_ok (job_of env d) [] [] {} (view (process_all env ids s))"
    using st(1) unfolding v sched_ok_def by simp
  show "grows (job_of env d) (view s) (view (process_all env ids s))" using st(2) unfolding v by (simp add: grows_def)
  show "v_pending (view (process_all env ids s)) = length (v_inflight (view (process_all env ids s)))"
    if "v_pending (view s) = length (v_inflight (view s))"
    using that st(3,4) unfolding v by simp
qed


section \<open>The turns of the loop\<close>

definition turn_ok :: "job \<Rightarrow> sview \<Rightarrow> bool" where
  "turn_ok J v \<longleftrightarrow> sched_ok J [] [] {} v \<and> v_pending v = length (v_inflight v)"

definition progress :: "job \<Rightarrow> sview \<Rightarrow> sview \<Rightarrow> bool" where
  "progress J v w \<longleftrightarrow> grows J v w \<and> (\<exists>i < jlen J. i \<notin> settled v \<and> i \<in> settled w)"

lemma sched_ok_counters [simp]:
  "sched_ok J todo cur W (v\<lparr>v_received := k\<rparr>) = sched_ok J todo cur W v"
  "sched_ok J todo cur W (v\<lparr>v_pending := k\<rparr>) = sched_ok J todo cur W v"
  by (simp_all add: sched_ok_def live_ok_def active_def vbad_def calls_ok_def placed_ok_def)

lemma cur_unsettled:
  assumes "sched_ok J todo [i] {} v"
  shows "i < jlen J" and "i \<notin> settled v" and "i \<notin> vcanc v" and "i \<notin> vdone v"
  using live_okD(2,3)[OF sched_okD(2)[OF assms]] by (auto simp: active_def settled_def)

text \<open>From the state in which a node runs to the state after its successors were processed.\<close>

lemma progress_intro:
  assumes "grows J u v" and "grows J v w" and "sched_ok J todo [i] {} v" and "settled u \<subseteq> settled v" and "i \<in> settled w"
  shows "progress J u w"
  using assms grows_trans cur_unsettled(1,2)[OF assms(3)] unfolding progress_def by blast

lemma finish_complete:
  assumes ok: "sched_ok (job_of env d) [] [i] {} (view t)" and nf: "\<not> node_fails env d i"
    and pd: "v_pending (view t) = length (v_inflight (view t))"
    and c: "complete_node i t = (s3, new)"
  shows "turn_ok (job_of env d) (view (process_all env new s3))"
    and "grows (job_of env d) (view t) (view (process_all env new s3))" and "i \<in> settled (view (process_all env new s3))"
proof -
  let ?J = "job_of env d"
  note i = cur_unsettled(1)[OF ok]
  note cs = complete_step[OF ok _ i c]
  have st: "step_ok ?J new 0 (view t) (view s3)" using cs(1) nf by simp
  note p = process_all_step[OF step_okD(1)[OF st]]
  show "turn_ok ?J (view (process_all env new s3))"
    unfolding turn_ok_def using p(1,3) step_okD(3,4)[OF st] pd by simp
  show "grows (job_of env d) (view t) (view (process_all env new s3))" by (rule grows_trans[OF step_okD(2)[OF st] p(2)])
  have "i \<in> settled (view s3)" using cs(2) nf by simp
  then show "i \<in> settled (view (process_all env new s3))" using grows_settled[OF p(2)] by blast
qed

lemma view_results [simp]:
  "view (output_lines i r s) = view s" "view (worker_test i outcome r s) = view s"
  "view (probe_output i r s) = view s"
proof -
  have "failed_units (map (\<lambda>(a, b). OutputLine x u n b a) ls) = {}"
    for x u n and ls :: "(output_stream \<times> str) list"
    by (rule failed_units_none) auto
  then show "view (output_lines i r s) = view s"
    by (simp add: view_def output_lines_def failed_units_append)
qed (simp_all add: worker_test_def Let_def probe_output_def split: option.split)

lemma view_success [simp]:
  "view (publish_node env i s) = view s" "view (legacy_success env i name s) = view s"
  "view (legacy_end i name b s) = view s" "view (worker_success env i r s) = view s"
  by (simp_all add: publish_node_def legacy_success_def legacy_end_def worker_success_def Let_def)

lemma work_succeeded_step:
  assumes ok: "sched_ok (job_of env d) [] [i] {} (view s)" and nf: "\<not> node_fails env d i"
    and pd: "v_pending (view s) = length (v_inflight (view s))"
  shows "turn_ok (job_of env d) (view (work_succeeded env i r s))"
    and "grows (job_of env d) (view s) (view (work_succeeded env i r s))" and "i \<in> settled (view (work_succeeded env i r s))"
proof -
  let ?t = "worker_success env i r s"
  have v: "view ?t = view s" by simp
  obtain s3 new where c: "complete_node i ?t = (s3, new)" by (metis surj_pair)
  have w: "work_succeeded env i r s = process_all env new s3"
    unfolding work_succeeded_def using c by simp
  from finish_complete[OF ok[folded v] nf pd[folded v] c]
  show "turn_ok (job_of env d) (view (work_succeeded env i r s))"
    and "grows (job_of env d) (view s) (view (work_succeeded env i r s))" and "i \<in> settled (view (work_succeeded env i r s))"
    unfolding w v by simp_all
qed

lemma work_failed_hard:
  assumes ok: "sched_ok (job_of env d) [] [i] {} (view s)" and f: "node_fails env d i"
    and h: "\<not> fails_softly env d i" and t: "\<not> is_test (wnode s i)"
    and pd: "v_pending (view s) = length (v_inflight (view s))"
  shows "turn_ok (job_of env d) (view (work_failed env i r s))"
    and "grows (job_of env d) (view s) (view (work_failed env i r s))" and "i \<in> settled (view (work_failed env i r s))"
proof -
  let ?msg = "case wr_error r of Some e \<Rightarrow> e | None \<Rightarrow> ''unknown error''"
  let ?u = "node_failed env i (wr_node_name r) (e_progress_error env ?msg) ?msg
    (worker_test i Failed r (output_lines i r s))"
  have w: "work_failed env i r s = cancel_dependents i (wr_node_name r) ?u"
    unfolding work_failed_def Let_def using t by simp
  have v: "view ?u = (view s)\<lparr>v_failed := insert i (v_failed (view s)), v_hard := v_hard (view s) @ [i]\<rparr>"
    by simp
  note fs = fail_step[OF ok _ _ cur_unsettled(1)[OF ok] v, of "wr_node_name r"]
  have st: "step_ok (job_of env d) [] 0 (view s) (view (work_failed env i r s))"
    unfolding w using fs(1) f h by simp
  show "turn_ok (job_of env d) (view (work_failed env i r s))"
    unfolding turn_ok_def using step_okD[OF st] pd by simp
  show "grows (job_of env d) (view s) (view (work_failed env i r s))" by (rule step_okD(2)[OF st])
  show "i \<in> settled (view (work_failed env i r s))" unfolding w using fs(2) f h by simp
qed

lemma work_failed_soft:
  assumes ok: "sched_ok (job_of env d) [] [i] {} (view s)" and f: "node_fails env d i"
    and h: "fails_softly env d i" and t: "is_test (wnode s i)"
    and pd: "v_pending (view s) = length (v_inflight (view s))"
  shows "turn_ok (job_of env d) (view (work_failed env i r s))"
    and "grows (job_of env d) (view s) (view (work_failed env i r s))" and "i \<in> settled (view (work_failed env i r s))"
proof -
  let ?J = "job_of env d"
  note i = cur_unsettled[OF ok]
  let ?msg = "case wr_error r of Some e \<Rightarrow> e | None \<Rightarrow> ''unknown error''"
  let ?u = "finish_recipe_node (wn_recipe_name (wnode s i)) False False
    (emit (NodeFailed (wn_recipe_name (wnode s i)) i (wr_node_name r) (e_progress_error env ?msg))
      (worker_test i Failed r (output_lines i r s)))"
  let ?c = "cancel_dependents i (wr_node_name r) ?u"
  obtain s3 new where c: "complete_node i ?c = (s3, new)" by (metis surj_pair)
  have w: "work_failed env i r s = process_all env new s3"
    unfolding work_failed_def Let_def using t c by simp
  have v: "view ?u = (view s)\<lparr>v_failed := insert i (v_failed (view s))\<rparr>" by simp
  have "view ?u = (view s)\<lparr>v_failed := insert i (v_failed (view s)), v_hard := v_hard (view s)\<rparr>"
    unfolding v by simp
  then have "sched_ok ?J [] [] (vsuccs ?J {i} \<union> {}) (view ?u)"
    using fail_cur_only[OF ok, of "v_hard (view s)"] f h by simp
  note cd = cancel_dependents_ok[OF this i(1), of "wr_node_name r"]
  obtain C where C: "view ?c = (view ?u)\<lparr>v_cancelled := C\<rparr>" using cd(3) by blast
  have fi: "i \<in> v_failed (view ?c)" "i \<notin> vdone (view ?c)" using C v i(4) by simp_all
  have sg: "same_graph ?J (view ?c)" using cd(1) by (rule sched_okD)
  obtain d' where d': "complete i (v_dag (view ?c)) = Some (d', new)"
    and v3: "view s3 = (view ?c)\<lparr>v_dag := d', v_calls := v_calls (view ?c) @ [CompleteNode i]\<rparr>"
    using complete_node_view[OF sg i(1) c] .
  have "sched_ok ?J (new @ []) [] {} (view s3)"
    unfolding v3 by (rule complete_soft[OF cd(1) fi _ d']) (use h in simp)
  then have ok3: "sched_ok ?J new [] {} (view s3)" by simp
  note p = process_all_step[OF ok3]
  have "vdone (view s3) = insert i (vdone (view ?c))"
    using released_new(2)[OF sg i(1) fi(2) d'] unfolding v3 by (simp add: vdone_def)
  then have g: "grows (job_of env d) (view s) (view s3)"
    using cd(2) unfolding v3 by (auto simp: grows_def vcanc_def C v)
  show "grows (job_of env d) (view s) (view (work_failed env i r s))" unfolding w by (rule grows_trans[OF g p(2)])
  have "v_pending (view s3) = length (v_inflight (view s3))" using v3 C v pd by simp
  then show "turn_ok ?J (view (work_failed env i r s))" unfolding w turn_ok_def using p(1,3) by simp
  have "i \<in> settled (view s3)" using fi(1) v3 by (simp add: settled_def)
  then show "i \<in> settled (view (work_failed env i r s))" unfolding w using grows_settled[OF p(2)] by blast
qed

lemma receive_view:
  assumes "x_inflight s \<noteq> []" and "receive env s = (s1, i)"
  shows "i \<in> set (x_inflight s)" and "x_panicked s1 = x_panicked s"
    and "view s1 = (view s)\<lparr>v_inflight := remove1 i (v_inflight (view s)), v_received := Suc (v_received (view s))\<rparr>"
  using assms by (auto simp: receive_def Let_def view_def)

lemma handle_result_step:
  assumes ok: "turn_ok (job_of env d) (view s)" and p: "x_pending s \<noteq> 0" and np: "\<not> x_panicked s"
  shows "turn_ok (job_of env d) (view (handle_result env s))"
    and "progress (job_of env d) (view s) (view (handle_result env s))"
proof -
  let ?J = "job_of env d"
  have so: "sched_ok ?J [] [] {} (view s)" and pd: "x_pending s = length (x_inflight s)"
    using ok by (simp_all add: turn_ok_def)
  have ne: "x_inflight s \<noteq> []" using p pd by auto
  obtain s1 i where r: "receive env s = (s1, i)" by (metis surj_pair)
  note rv = receive_view[OF ne r]
  let ?s2 = "probe_output i (e_result env i) (tick (s1\<lparr>x_pending := x_pending s1 - 1\<rparr>))"
  have v2: "view ?s2 = (view s)\<lparr>v_inflight := remove1 i (v_inflight (view s)),
      v_received := Suc (v_received (view s)), v_pending := x_pending s - 1\<rparr>"
  proof -
    have "view (s1\<lparr>x_pending := q\<rparr>) = (view s1)\<lparr>v_pending := q\<rparr>" for q by (simp add: view_def)
    moreover have "x_pending s1 = x_pending s" using rv(3) view_simps(3)[of s1] by simp
    ultimately show ?thesis using rv(3) by simp
  qed
  have tk: "sched_ok ?J [] [i] {} ((view s)\<lparr>v_inflight := remove1 i (v_inflight (view s))\<rparr>)"
    by (rule take_received[OF so]) (use rv(1) in simp)
  have ok2: "sched_ok ?J [] [i] {} (view ?s2)" unfolding v2 using tk by simp
  have pd2: "v_pending (view ?s2) = length (v_inflight (view ?s2))"
    unfolding v2 using pd rv(1) by (simp add: length_remove1)
  have g: "grows (job_of env d) (view s) (view ?s2)" "settled (view s) \<subseteq> settled (view ?s2)"
    unfolding v2 by (simp_all add: grows_def settled_def)
  have il: "i < jlen ?J" using cur_unsettled(1)[OF ok2] .
  have wn: "wnode ?s2 i = node_payload (dag_nodes (j_dag ?J) ! i)"
    by (rule graph_exec(2)[OF sched_okD(1)[OF ok2] il])
  have pool: "j_pooled ?J i"
    using live_okD(4)[OF sched_okD(2)[OF so]] rv(1) by (simp add: placed_ok_def)
  have fl: "node_fails env d i \<longleftrightarrow> \<not> wr_success (e_result env i)"
    using pool by (simp add: node_fails_def Let_def)
  have so': "fails_softly env d i \<longleftrightarrow> is_test (wnode ?s2 i)"
    using pool wn by (simp add: fails_softly_def Let_def)
  have h: "handle_result env s = (if wr_success (e_result env i) then work_succeeded env i (e_result env i) ?s2
      else work_failed env i (e_result env i) ?s2)"
    unfolding handle_result_def Let_def using r rv(2) np by simp
  have "turn_ok ?J (view (handle_result env s)) \<and> grows (job_of env d) (view ?s2) (view (handle_result env s))
      \<and> i \<in> settled (view (handle_result env s))"
  proof (cases "wr_success (e_result env i)")
    case True
    then show ?thesis using work_succeeded_step[OF ok2 _ pd2] fl h by simp
  next
    case False
    then show ?thesis
      using work_failed_hard[OF ok2 _ _ _ pd2] work_failed_soft[OF ok2 _ _ _ pd2] fl so' h
      by (cases "is_test (wnode ?s2 i)") simp_all
  qed
  then show "turn_ok ?J (view (handle_result env s))" and "progress ?J (view s) (view (handle_result env s))"
    using progress_intro[OF g(1) _ ok2 g(2)] by blast+
qed

subsection \<open>A single interactive node\<close>

lemma disposition_queue:
  assumes "queued_kind (wn_payload wn)"
  shows "disposition_of env i wn = Queue"
proof -
  obtain p where p: "wn_payload wn = Some p"
    and q: "is_chore_window_member (Some p) \<or> (\<exists>c l b. p = Interactive c l b)"
    using assms by (cases "wn_payload wn") (auto simp: queued_kind_def)
  show ?thesis unfolding disposition_of_def p option.case if_P[OF q] ..
qed

lemma run_legacy_step:
  assumes ok: "sched_ok (job_of env d) [i] [] {} (view s)" and c: "i \<notin> vcanc (view s)"
    and p: "jpayload (job_of env d) i = Some (Interactive cmd line False)"
    and pd: "v_pending (view s) = length (v_inflight (view s))"
  shows "turn_ok (job_of env d) (view (run_legacy env i s))"
    and "progress (job_of env d) (view s) (view (run_legacy env i s))"
proof -
  let ?J = "job_of env d"
  have sg: "same_graph ?J (view s)" using ok by (rule sched_okD)
  note il = pick_facts(2)[OF ok]
  have wn: "wnode s i = node_payload (dag_nodes d ! i)" using graph_exec(2)[OF sg il] by simp
  have pl: "wn_payload (wnode s i) = Some (Interactive cmd line False)" using p wn by simp
  have nf: "node_fails env d i \<longleftrightarrow> e_parent_dirs env i \<noteq> None \<or> e_interactive env i \<noteq> None"
    and ns: "\<not> fails_softly env d i"
  proof -
    have "disposition_of env i (wnode s i) = Queue"
      by (rule disposition_queue) (use pl in \<open>auto simp: queued_kind_def\<close>)
    then show "node_fails env d i \<longleftrightarrow> e_parent_dirs env i \<noteq> None \<or> e_interactive env i \<noteq> None"
      and "\<not> fails_softly env d i"
      using pl wn by (simp_all add: node_fails_def fails_softly_def Let_def)
  qed
  let ?n = "payload_name (Interactive cmd line False)"
  obtain s2 result where s2: "legacy_begin env i ?n s = (s2, result)" by (metis surj_pair)
  have res: "result = None \<longleftrightarrow> \<not> node_fails env d i"
    using s2 nf by (auto simp: legacy_begin_def Let_def split: option.splits)
  have v2: "view s2 = view s \<or> view s2 = (view s)\<lparr>v_calls := v_calls (view s) @ [RunInteractive i]\<rparr>"
  proof -
    have "view (call (RunInteractive i) t) = (view t)\<lparr>v_calls := v_calls (view t) @ [RunInteractive i]\<rparr>" for t
      by (simp add: view_def call_def)
    then show ?thesis using s2 by (auto simp: legacy_begin_def Let_def split: option.splits)
  qed
  have qk: "queued_kind (jpayload ?J i)" unfolding queued_kind_def p by blast
  have ok2: "sched_ok ?J [] [i] {} (view s2)"
    using v2 pick_cur[OF ok c] start_interactive[OF ok c qk] by auto
  have g: "grows (job_of env d) (view s) (view s2)" "settled (view s) \<subseteq> settled (view s2)"
    using v2 by (auto simp: grows_def settled_def)
  have pd2: "v_pending (view s2) = length (v_inflight (view s2))"
    using v2 pd by (elim disjE) (simp_all del: view_simps)
  show "turn_ok ?J (view (run_legacy env i s))" and "progress ?J (view s) (view (run_legacy env i s))"
  proof (atomize (full), cases result)
    case None
    let ?t = "legacy_success env i ?n (legacy_end i ?n True s2)"
    obtain s7 new where c7: "complete_node i ?t = (s7, new)" by (metis surj_pair)
    have v: "view ?t = view s2" by simp
    have w: "run_legacy env i s = process_all env new s7"
      unfolding run_legacy_def Let_def pl using s2 None c7 by simp
    have nf': "\<not> node_fails env d i" using res None by simp
    note fc = finish_complete[OF ok2[folded v] nf' pd2[folded v] c7]
    show "turn_ok ?J (view (run_legacy env i s)) \<and> progress ?J (view s) (view (run_legacy env i s))"
      unfolding w using fc(1) progress_intro[OF g(1) fc(2)[unfolded v] ok2 g(2) fc(3)] by blast
  next
    case (Some err)
    let ?u = "node_failed env i ?n (e_progress_error env err) err (legacy_end i ?n False s2)"
    have w: "run_legacy env i s = cancel_dependents i ?n ?u"
      unfolding run_legacy_def Let_def pl using s2 Some by simp
    have v: "view ?u = (view s2)\<lparr>v_failed := insert i (v_failed (view s2)), v_hard := v_hard (view s2) @ [i]\<rparr>"
      by simp
    have f: "j_fails ?J i" "\<not> j_soft ?J i" using res Some ns by simp_all
    note fs = fail_step[OF ok2 f cur_unsettled(1)[OF ok2] v, of ?n]
    have "turn_ok ?J (view (run_legacy env i s))"
      unfolding w turn_ok_def using step_okD[OF fs(1)] pd2 by simp
    moreover have "progress ?J (view s) (view (run_legacy env i s))"
      unfolding w by (rule progress_intro[OF g(1) step_okD(2)[OF fs(1)] ok2 g(2) fs(2)])
    ultimately show "turn_ok ?J (view (run_legacy env i s)) \<and> progress ?J (view s) (view (run_legacy env i s))" ..
  qed
qed

subsection \<open>Chore windows\<close>

text \<open>A chain: each node is the only successor of the one before it, and waits for nothing else.\<close>

fun chained :: "job \<Rightarrow> nat set \<Rightarrow> nat list \<Rightarrow> bool" where
  "chained J D (a # b # r) \<longleftrightarrow> vsuccs J {a} = {b} \<and> jpreds J b \<subseteq> insert a D \<and> chained J D (b # r)"
| "chained J D _ \<longleftrightarrow> True"

lemma chained_mono: "chained J D xs \<Longrightarrow> D \<subseteq> E \<Longrightarrow> chained J E xs"
  by (induction J D xs rule: chained.induct) auto

lemma chained_drop: "chained J D xs \<Longrightarrow> chained J D (drop n xs)"
proof (induction J D xs arbitrary: n rule: chained.induct)
  case (1 J D a b r)
  then show ?case by (cases n) auto
qed (auto simp: drop_Cons split: nat.split)

lemma chained_cancelled:
  assumes d: "dead_ok J {} v" and "chained J D (i # rest)" and "i \<in> vcanc v"
  shows "set rest \<subseteq> vcanc v"
  using assms(2,3)
proof (induction rest arbitrary: i)
  case (Cons b r)
  have "b \<in> vsuccs J {i}" using Cons(2) by simp
  then have "b \<in> vcanc v" using dead_okD(1)[OF d, of b] Cons(3) by (auto simp: vsuccs_def vbad_def)
  then show ?case using Cons by auto
qed simp

text \<open>The nodes of a chain after its head all wait for the one before them.\<close>

lemma chained_waiting:
  assumes "chained J D (f # T)" and "f \<notin> vdone v" and dn: "\<And>i. i \<in> vdone v \<Longrightarrow> jpreds J i \<subseteq> vdone v"
    and "t \<in> set T"
  shows "t < jlen J \<and> \<not> jpreds J t \<subseteq> vdone v \<and> jpreds J t \<inter> insert f (set T) \<noteq> {}"
  using assms(1,2,4)
proof (induction T arbitrary: f)
  case (Cons b r)
  have b: "b \<in> vsuccs J {f}" "chained J D (b # r)" using Cons(2) by auto
  have bp: "b < jlen J" "f \<in> jpreds J b" using b(1) by (auto simp: vsuccs_def)
  have nb: "b \<notin> vdone v" using dn[of b] bp(2) Cons(3) by blast
  show ?case
  proof (cases "t = b")
    case True
    then show ?thesis using bp Cons(3) by auto
  next
    case False
    then have "t < jlen J \<and> \<not> jpreds J t \<subseteq> vdone v \<and> jpreds J t \<inter> insert b (set r) \<noteq> {}"
      using Cons(1)[OF b(2) nb] Cons(4) by simp
    then show ?thesis by auto
  qed
qed simp

lemma run_chore_step_ok:
  assumes ok: "sched_ok (job_of env d) [i] [] {} (view s)" and c: "i \<notin> vcanc (view s)"
    and ch: "is_chore_window_member (jpayload (job_of env d) i)"
    and e: "x_inflight s = []" and r: "run_chore_step env i s = (s1, res)"
  shows "sched_ok (job_of env d) [] [i] {} (view s1)" and "res = None \<longleftrightarrow> \<not> node_fails env d i"
    and "grows (job_of env d) (view s) (view s1)" and "settled (view s1) = settled (view s)"
    and "x_inflight s1 = []" and "x_pending s1 = x_pending s" and "vdone (view s1) = vdone (view s)"
    and "\<not> fails_softly env d i"
proof -
  let ?J = "job_of env d"
  have sg: "same_graph ?J (view s)" using ok by (rule sched_okD)
  note il = pick_facts(2)[OF ok]
  have wn: "wnode s i = node_payload (dag_nodes d ! i)" using graph_exec(2)[OF sg il] by simp
  have q: "disposition_of env i (wnode s i) = Queue"
    by (rule disposition_queue) (use ch wn in \<open>simp add: queued_kind_def\<close>)
  then show "\<not> fails_softly env d i" using wn by (simp add: fails_softly_def Let_def)
  obtain p where p: "wn_payload (wnode s i) = Some p" "is_chore_window_member (Some p)"
    using ch wn by (cases "wn_payload (wnode s i)") auto
  have nf: "node_fails env d i \<longleftrightarrow> e_parent_dirs env i \<noteq> None
      \<or> (case p of Interactive _ _ _ \<Rightarrow> e_interactive env i \<noteq> None | _ \<Rightarrow> \<not> wr_success (e_result env i))"
    using q p(1) wn by (simp add: node_fails_def Let_def)
  have eq: "(view s1 = view s \<or> (\<exists>x n. starts x = Some i \<and> (\<forall>p. x \<noteq> CompleteNode p)
        \<and> view s1 = (view s)\<lparr>v_calls := v_calls (view s) @ [x], v_received := n\<rparr>))
      \<and> (res = None \<longleftrightarrow> \<not> node_fails env d i)"
  proof (cases "e_parent_dirs env i")
    case (Some err)
    then show ?thesis using r p nf by (cases p) (auto simp: run_chore_step_def)
  next
    case None
    show ?thesis
    proof (cases "\<exists>cmd l b. p = Interactive cmd l b")
      case True
      then have "s1 = call (RunInteractive i) s" "res = e_interactive env i"
        using r p None by (auto simp: run_chore_step_def)
      then show ?thesis
        using nf None True
        by (auto simp: view_def call_def intro!: exI[of _ "RunInteractive i"] exI[of _ "x_received s"])
    next
      case False
      then obtain a b g h k m l where lc: "p = LuaChunk a b g h k m l" using p(2) by (cases p) auto
      let ?u = "submit i s"
      have iu: "x_inflight ?u = [i]" using e by (simp add: submit_def call_def)
      have rc: "receive env ?u = (?u\<lparr>x_inflight := [], x_received := Suc (x_received ?u)\<rparr>, i)"
        using iu by (simp add: receive_def Let_def)
      then have s1: "s1 = ?u\<lparr>x_inflight := [], x_received := Suc (x_received ?u)\<rparr>"
        and rs: "res = None \<longleftrightarrow> wr_success (e_result env i)"
        using r p(1) None lc by (auto simp: run_chore_step_def Let_def split: if_splits)
      have "view s1 = (view s)\<lparr>v_calls := v_calls (view s) @ [SubmitItem i], v_received := Suc (x_received s)\<rparr>"
        unfolding s1 using e by (simp add: view_def submit_def call_def)
      then show ?thesis
        using nf None lc rs by (auto intro!: exI[of _ "SubmitItem i"] exI[of _ "Suc (x_received s)"])
    qed
  qed
  then show "res = None \<longleftrightarrow> \<not> node_fails env d i" by blast
  from eq consider "view s1 = view s" | x n where "starts x = Some i" "\<And>p. x \<noteq> CompleteNode p"
      "view s1 = ((view s)\<lparr>v_calls := v_calls (view s) @ [x]\<rparr>)\<lparr>v_received := n\<rparr>"
    by auto
  then have "sched_ok ?J [] [i] {} (view s1) \<and> grows (job_of env d) (view s) (view s1) \<and> settled (view s1) = settled (view s)
      \<and> v_inflight (view s1) = v_inflight (view s) \<and> v_pending (view s1) = v_pending (view s)
      \<and> vdone (view s1) = vdone (view s)"
  proof cases
    case 1
    then show ?thesis using pick_cur[OF ok c] by simp
  next
    case 2
    have "queued_kind (jpayload ?J i)" using ch by (simp add: queued_kind_def)
    then show ?thesis using 2 start_cur[OF ok c _ 2(1,2)] by (simp add: grows_def settled_def)
  qed
  then show "sched_ok ?J [] [i] {} (view s1)" "grows (job_of env d) (view s) (view s1)" "settled (view s1) = settled (view s)"
    "x_inflight s1 = []" "x_pending s1 = x_pending s" "vdone (view s1) = vdone (view s)"
    using e by simp_all
qed

lemma run_window_cancelled:
  "\<forall>j \<in> set js. x_cancelled s ! j \<Longrightarrow> run_window env w k js s = (s, None)"
  by (induction js arbitrary: k) simp_all

text \<open>How a window ends: every step ran or was cancelled, or one failed and the rest is a chain after it.\<close>

definition window_ended :: "exec_env \<Rightarrow> work_node dag \<Rightarrow> nat list \<Rightarrow> nat \<Rightarrow> exec \<Rightarrow> exec
    \<Rightarrow> (nat \<times> str) option \<Rightarrow> bool" where
  "window_ended env d js k s s' res \<longleftrightarrow>
     grows (job_of env d) (view s) (view s')
     \<and> (case res of
          None \<Rightarrow> turn_ok (job_of env d) (view s') \<and> hd js \<in> settled (view s')
        | Some (k', err) \<Rightarrow>
            (\<exists>m < length js. k' = k + m \<and> node_fails env d (js ! m) \<and> \<not> fails_softly env d (js ! m)
               \<and> sched_ok (job_of env d) [] [js ! m] {} (view s')
               \<and> chained (job_of env d) (vdone (view s')) (drop m js)
               \<and> x_pending s' = length (x_inflight s')))"

lemma run_window_ok:
  assumes "sched_ok (job_of env d) [i] [] {} (view s)" and "chained (job_of env d) (vdone (view s)) (i # rest)"
    and "x_inflight s = []" and "x_pending s = 0"
    and "\<And>j. j \<in> set (i # rest) \<Longrightarrow> is_chore_window_member (jpayload (job_of env d) j)"
    and "set (i # rest) \<subseteq> set w" and "vsuccs (job_of env d) {last (i # rest)} \<inter> set w = {}"
    and "run_window env w k (i # rest) s = (s', res)"
  shows "window_ended env d (i # rest) k s s' res"
  using assms
proof (induction rest arbitrary: i s k)
  case Nil
  note ok = Nil(1)
  let ?J = "job_of env d"
  have sg: "same_graph ?J (view s)" using ok by (rule sched_okD)
  note il = pick_facts(2)[OF ok]
  show ?case
  proof (cases "x_cancelled s ! i")
    case True
    then have "s' = s" and "res = None" using Nil(8) by simp_all
    moreover have "i \<in> vcanc (view s)" using graph_exec(4)[OF sg il] True by simp
    ultimately show ?thesis
      using pick_cancelled[OF ok] Nil(3,4) by (simp add: window_ended_def turn_ok_def settled_def)
  next
    case False
    then have c: "i \<notin> vcanc (view s)" using graph_exec(4)[OF sg il] by simp
    obtain s1 r where rs: "run_chore_step env i s = (s1, r)" by (metis surj_pair)
    have m: "is_chore_window_member (jpayload ?J i)" using Nil(5)[of i] by simp
    note st = run_chore_step_ok[OF ok c m Nil(3) rs]
    show ?thesis
    proof (cases r)
      case (Some err)
      then have "s' = s1" and "res = Some (k, err)" using Nil(8) False rs by simp_all
      then show ?thesis
        using st Some Nil(4) by (auto simp: window_ended_def intro!: exI[of _ 0])
    next
      case None
      have nf: "\<not> node_fails env d i" using st(2) None by simp
      obtain s2 new where c2: "complete_node i s1 = (s2, new)" by (metis surj_pair)
      have nf': "\<not> j_fails ?J i" using nf by simp
      note cs = complete_step[OF st(1) nf' il c2]
      have "set new \<inter> set w = {}"
        using cs(3) Nil(7) by (auto simp: vsuccs_def)
      then have "filter (\<lambda>j. j \<notin> set w) new = new" by (auto intro: filter_True)
      then have s': "s' = process_all env new s2" and "res = None"
        using Nil(8) False rs None c2 by simp_all
      have pd: "v_pending (view s1) = length (v_inflight (view s1))" using st(5,6) Nil(4) by simp
      note fc = finish_complete[OF st(1) nf pd c2]
      show ?thesis
        unfolding window_ended_def s' \<open>res = None\<close>
        using fc grows_trans[OF st(3) fc(2)] by simp
    qed
  qed
next
  case (Cons b rest)
  note ok = Cons(2)
  let ?J = "job_of env d"
  have sg: "same_graph ?J (view s)" using ok by (rule sched_okD)
  note il = pick_facts(2)[OF ok]
  have ch: "vsuccs ?J {i} = {b}" "jpreds ?J b \<subseteq> insert i (vdone (view s))"
    "chained ?J (vdone (view s)) (b # rest)" using Cons(3) by simp_all
  show ?case
  proof (cases "x_cancelled s ! i")
    case True
    then have ci: "i \<in> vcanc (view s)" using graph_exec(4)[OF sg il] by simp
    have "set (b # rest) \<subseteq> vcanc (view s)"
      by (rule chained_cancelled[OF sched_okD(3)[OF ok] Cons(3) ci])
    then have "\<forall>j \<in> set (b # rest). x_cancelled s ! j" by (auto simp: vcanc_def)
    then have "s' = s" and "res = None"
      using Cons(9) True run_window_cancelled[of "b # rest" s env w "Suc k"] by simp_all
    then show ?thesis
      using pick_cancelled[OF ok ci] Cons(4,5) ci by (simp add: window_ended_def turn_ok_def settled_def)
  next
    case False
    then have c: "i \<notin> vcanc (view s)" using graph_exec(4)[OF sg il] by simp
    obtain s1 r where rs: "run_chore_step env i s = (s1, r)" by (metis surj_pair)
    have m: "is_chore_window_member (jpayload ?J i)" using Cons(6)[of i] by simp
    note st = run_chore_step_ok[OF ok c m Cons(4) rs]
    show ?thesis
    proof (cases r)
      case (Some err)
      then have "s' = s1" and "res = Some (k, err)" using Cons(9) False rs by simp_all
      then show ?thesis
        using st Some Cons(3,5) by (auto simp: window_ended_def intro!: exI[of _ 0])
    next
      case None
      have nf: "\<not> j_fails ?J i" using st(2) None by simp
      obtain s2 new where c2: "complete_node i s1 = (s2, new)" by (metis surj_pair)
      note cs = complete_step[OF st(1) nf il c2]
      have ok2: "sched_ok ?J new [] {} (view s2)" using step_okD(1)[OF cs(1)] by simp
      have "set new = {b}" using cs(3) ch(1,2) st(7) by (auto simp: vsuccs_def)
      moreover have "distinct new" using live_okD(1)[OF sched_okD(2)[OF ok2]] by (simp add: active_def)
      ultimately have "length new = 1" using distinct_card[of new] by simp
      then have new: "new = [b]" using \<open>set new = {b}\<close> by (cases new) auto
      have "b \<in> set w" using Cons(7) by simp
      then have run: "run_window env w (Suc k) (b # rest) (process_all env [] s2) = (s', res)"
        using Cons(9) unfolding run_window.simps(2)[of env w k i "b # rest"]
        using False rs None c2 new by (simp del: run_window.simps)
      have pa: "process_all env [] s2 = s2" by (simp add: process_all_def)
      have inf: "x_inflight s2 = []" "x_pending s2 = 0"
        using cs(5) step_okD(3)[OF cs(1)] st(5,6) Cons(5) by simp_all
      have ch2: "chained ?J (vdone (view s2)) (b # rest)"
        by (rule chained_mono[OF ch(3)]) (use cs(4) st(7) in auto)
      have "window_ended env d (b # rest) (Suc k) s2 s' res"
        by (rule Cons(1)[OF _ ch2 inf _ _ _ run[unfolded pa]])
          (use ok2 new Cons(6,7,8) in auto)
      then have we: "grows (job_of env d) (view s2) (view s')" and
        re: "case res of None \<Rightarrow> turn_ok ?J (view s') | Some (k', err) \<Rightarrow>
            (\<exists>m < length (b # rest). k' = Suc k + m \<and> node_fails env d ((b # rest) ! m)
               \<and> \<not> fails_softly env d ((b # rest) ! m) \<and> sched_ok ?J [] [(b # rest) ! m] {} (view s')
               \<and> chained ?J (vdone (view s')) (drop m (b # rest)) \<and> x_pending s' = length (x_inflight s'))"
        by (auto simp: window_ended_def split: option.splits)
      have g: "grows (job_of env d) (view s) (view s')"
        by (rule grows_trans[OF grows_trans[OF st(3) step_okD(2)[OF cs(1)]] we])
      have i: "i \<in> settled (view s')" using cs(2) grows_settled[OF we] by blast
      show ?thesis
      proof (cases res)
        case None
        then show ?thesis using g i re by (simp add: window_ended_def)
      next
        case (Some r)
        then obtain k' err m where r: "r = (k', err)" and m: "m < length (b # rest)" "k' = Suc k + m"
          "node_fails env d ((b # rest) ! m)" "\<not> fails_softly env d ((b # rest) ! m)"
          "sched_ok ?J [] [(b # rest) ! m] {} (view s')" "chained ?J (vdone (view s')) (drop m (b # rest))"
          "x_pending s' = length (x_inflight s')"
          using re by (cases r) auto
        show ?thesis
          unfolding window_ended_def Some r
          using g m by (auto intro!: exI[of _ "Suc m"])
      qed
    qed
  qed
qed


text \<open>
  The bodies of chores are sequences: of two steps of one chore, one waits for the other. The
  process group of a window can be created, and drains.
\<close>

definition dep_rel :: "work_node dag \<Rightarrow> (nat \<times> nat) set" where
  "dep_rel d = {(p, i). i < length (dag_nodes d) \<and> p \<in> preds d i}"

definition chore_serial :: "work_node dag \<Rightarrow> bool" where
  "chore_serial d \<longleftrightarrow>
     (\<forall>i < length (dag_nodes d). \<forall>j < i.
        is_chore_window_member (wn_payload (node_payload (dag_nodes d ! i)))
        \<longrightarrow> is_chore_window_member (wn_payload (node_payload (dag_nodes d ! j)))
        \<longrightarrow> wn_recipe_name (node_payload (dag_nodes d ! i)) = wn_recipe_name (node_payload (dag_nodes d ! j))
        \<longrightarrow> (j, i) \<in> (dep_rel d)\<^sup>+)"

definition groups_ok :: "exec_env \<Rightarrow> bool" where
  "groups_ok env \<longleftrightarrow> (\<forall>i. e_group_new env i = None \<and> e_group_drain env i = None)"

lemma done_ancestors:
  assumes d: "dead_ok J W v" and r: "(a, i) \<in> (dep_rel (j_dag J))\<^sup>*" and i: "i \<in> vdone v"
  shows "a \<in> vdone v"
  using r i by (induction rule: converse_rtrancl_induct) (auto simp: dep_rel_def dest: dead_okD(5)[OF d])

lemma waiting_ancestors:
  assumes d: "dead_ok J W v" and r: "(a, i) \<in> (dep_rel (j_dag J))\<^sup>+" and i: "jpreds J i \<subseteq> vdone v"
  shows "a \<in> vdone v"
proof -
  obtain p where p: "(a, p) \<in> (dep_rel (j_dag J))\<^sup>*" "(p, i) \<in> dep_rel (j_dag J)"
    using r by (meson tranclD2)
  then have "p \<in> vdone v" using i by (auto simp: dep_rel_def)
  then show ?thesis using done_ancestors[OF d p(1)] by blast
qed

text \<open>The queue never holds two steps of one chore, so a window is its head and the chain after it.\<close>

lemma no_second_head:
  assumes ok: "sched_ok (job_of env d) [] [] {} (view s)" and q: "x_queue s = h # rest" and cs: "chore_serial d"
    and h: "is_chore_window_member (wn_payload (wnode s h))"
  shows "takeWhile (same_window s (wn_recipe_name (wnode s h))) rest = []"
proof (cases rest)
  case (Cons r rest')
  let ?J = "job_of env d"
  note sg = sched_okD(1)[OF ok] and l = live_okD[OF sched_okD(2)[OF ok]] and dd = sched_okD(3)[OF ok]
  have m: "h \<in> set (active [] [] (view s))" "r \<in> set (active [] [] (view s))" "h \<noteq> r"
    using q Cons l(1) by (auto simp: active_def)
  note lh = l(2)[OF m(1)] and lr = l(2)[OF m(2)]
  have wh: "wnode s h = node_payload (dag_nodes d ! h)" and wr: "wnode s r = node_payload (dag_nodes d ! r)"
    using graph_exec(2)[OF sg] lh lr by simp_all
  have "\<not> same_window s (wn_recipe_name (wnode s h)) r"
  proof
    assume a: "same_window s (wn_recipe_name (wnode s h)) r"
    have "(h, r) \<in> (dep_rel d)\<^sup>+ \<or> (r, h) \<in> (dep_rel d)\<^sup>+"
      using cs a h m(3) lh lr unfolding chore_serial_def same_window_def wh wr
      by (metis job_simps(1) linorder_neqE_nat)
    then show False
      using waiting_ancestors[OF dd, of h r] waiting_ancestors[OF dd, of r h] lh lr by auto
  qed
  then show ?thesis using Cons by simp
qed simp

lemma chain_next_facts:
  assumes sg: "same_graph J (view s)" and n: "chain_next s r a = Some b" and a: "a < jlen J" "a \<notin> vdone (view s)"
  shows "b < jlen J" and "vsuccs J {a} = {b}" and "jpreds J b \<subseteq> insert a (vdone (view s))" and "a < b"
    and "same_window s r b"
proof -
  have f: "dependents_of s a = [b]" "same_window s r b" "remaining_deps (dag_nodes (x_dag s) ! b) = 1"
    using n by (auto simp: chain_next_def split: list.splits if_splits)
  show vs: "vsuccs J {a} = {b}" using graph_exec(3)[OF sg a(1)] f(1) by simp
  then have b: "b \<in> vsuccs J {a}" by simp
  then show bl: "b < jlen J" by (simp add: vsuccs_def)
  have ap: "a \<in> jpreds J b" using b by (simp add: vsuccs_def)
  show "a < b" by (rule preds_irrefl[OF sg bl ap])
  show "same_window s r b" by (rule f(2))
  have wf: "dag_wf (x_dag s)" using sg by (simp add: same_graph_def)
  note len = same_graph_len[OF sg]
  have "\<not> completed (dag_nodes (x_dag s) ! a)"
    using a len(1) by (simp add: vdone_def done_set_def)
  then have "preds (x_dag s) b \<subseteq> insert a (done_set (x_dag s))"
    using remaining_one_iff(1)[OF wf, of b a] f(3) bl ap len(1,3) by simp
  then show "jpreds J b \<subseteq> insert a (vdone (view s))" using len(3) by (simp add: vdone_def)
qed

lemma walk_chain_facts:
  assumes sg: "same_graph J (view s)" and d: "dead_ok J W (view s)" and a: "a < jlen J" "a \<notin> vdone (view s)"
  shows "chained J (vdone (view s)) (a # walk_chain fuel s r a)
     \<and> sorted_wrt (<) (a # walk_chain fuel s r a)
     \<and> (\<forall>x \<in> set (walk_chain fuel s r a). x < jlen J \<and> same_window s r x)"
  using a
proof (induction fuel arbitrary: a)
  case (Suc fuel)
  show ?case
  proof (cases "chain_next s r a")
    case (Some b)
    note f = chain_next_facts[OF sg Some Suc(2,3)]
    have "a \<in> jpreds J b" using f(2) by (auto simp: vsuccs_def)
    then have nb: "b \<notin> vdone (view s)" using dead_okD(5)[OF d, of b] Suc(3) by blast
    note ih = Suc(1)[OF f(1) nb]
    have "sorted_wrt (<) (a # b # walk_chain fuel s r b)" using ih f(4) by auto
    then show ?thesis using Some f ih by simp
  qed simp
qed simp

text \<open>
  The walk stops because a successor is missing, not because its bound runs out: each step goes to a
  larger node.
\<close>

lemma walk_chain_enough:
  assumes sg: "same_graph J (view s)" and d: "dead_ok J W (view s)" and a: "a < jlen J" "a \<notin> vdone (view s)"
    and f: "jlen J - a \<le> fuel"
  shows "chain_next s r (last (a # walk_chain fuel s r a)) = None"
  using a f
proof (induction fuel arbitrary: a)
  case (Suc fuel)
  show ?case
  proof (cases "chain_next s r a")
    case (Some b)
    note f = chain_next_facts[OF sg Some Suc(2,3)]
    have "a \<in> jpreds J b" using f(2) by (auto simp: vsuccs_def)
    then have nb: "b \<notin> vdone (view s)" using dead_okD(5)[OF d, of b] Suc(3) by blast
    have "jlen J - b \<le> fuel" using Suc(4) f(4) by linarith
    then show ?thesis using Suc(1)[OF f(1) nb] Some by simp
  qed simp
qed simp


lemma view_finish_iter [simp]: "view ((finish_recipe_node r a b ^^ n) s) = view s"
  by (induction n) simp_all

lemma view_set_is_chore [simp]: "view (set_is_chore r s) = view s"
  by (simp add: set_is_chore_def split: option.split)

lemma view_cancel_tail: "view (cancel_tail js s) = (view s)\<lparr>v_cancelled := give_up js (x_cancelled s)\<rparr>"
proof (induction js arbitrary: s)
  case Nil
  then show ?case by (simp add: cancel_tail_def give_up_def view_def)
next
  case (Cons j js)
  let ?s = "if x_cancelled s ! j then s else tick (mark_cancelled j s)"
  have "view ?s = (view s)\<lparr>v_cancelled := (x_cancelled s)[j := True]\<rparr>"
  proof (cases "x_cancelled s ! j")
    case True
    then have "(x_cancelled s)[j := True] = x_cancelled s" by (metis list_update_id)
    then show ?thesis using True by (simp add: view_def)
  next
    case False
    then show ?thesis by (simp add: view_def tick_def mark_cancelled_def)
  qed
  moreover have "x_cancelled ?s = (x_cancelled s)[j := True]"
    using calculation view_simps(5)[of ?s] by simp
  ultimately show ?case
    using Cons.IH[of ?s] by (simp add: cancel_tail_def give_up_def)
qed

lemma vsuccs_Un: "vsuccs J (A \<union> B) = vsuccs J A \<union> vsuccs J B"
  by (auto simp: vsuccs_def)

lemma fold_cancel_ok:
  assumes "sched_ok J todo cur (vsuccs J (set xs) \<union> W) (view s)" and "\<forall>x \<in> set xs. x < jlen J"
  shows "sched_ok J todo cur W (view (fold (\<lambda>i. cancel_dependents i up) xs s))
     \<and> grows J (view s) (view (fold (\<lambda>i. cancel_dependents i up) xs s))
     \<and> (\<exists>C. view (fold (\<lambda>i. cancel_dependents i up) xs s) = (view s)\<lparr>v_cancelled := C\<rparr>)"
  using assms
proof (induction xs arbitrary: s)
  case Nil
  have "view s = (view s)\<lparr>v_cancelled := v_cancelled (view s)\<rparr>" by simp
  then show ?case using Nil by (auto simp: vsuccs_def intro: exI[of _ "v_cancelled (view s)"])
next
  case (Cons x xs)
  have "vsuccs J (set (x # xs)) = vsuccs J {x} \<union> vsuccs J (set xs)"
    using vsuccs_Un[of J "{x}" "set xs"] by simp
  then have "sched_ok J todo cur (vsuccs J {x} \<union> (vsuccs J (set xs) \<union> W)) (view s)"
    using Cons(2) by (simp add: Un_assoc)
  note c = cancel_dependents_ok[OF this, of up]
  have x: "x < jlen J" using Cons(3) by simp
  obtain C where C: "view (cancel_dependents x up s) = (view s)\<lparr>v_cancelled := C\<rparr>" using c(3)[OF x] by blast
  from Cons(1)[OF c(1)[OF x]] Cons(3) obtain C' where
    r: "sched_ok J todo cur W (view (fold (\<lambda>i. cancel_dependents i up) xs (cancel_dependents x up s)))"
      "grows J (view (cancel_dependents x up s)) (view (fold (\<lambda>i. cancel_dependents i up) xs (cancel_dependents x up s)))"
      "view (fold (\<lambda>i. cancel_dependents i up) xs (cancel_dependents x up s))
         = (view (cancel_dependents x up s))\<lparr>v_cancelled := C'\<rparr>"
    by auto
  have "view (fold (\<lambda>i. cancel_dependents i up) xs (cancel_dependents x up s)) = (view s)\<lparr>v_cancelled := C'\<rparr>"
    using r(3) C by simp
  then show ?case using r(1) grows_trans[OF c(2)[OF x] r(2)] by auto
qed

lemma window_failed_ok:
  assumes ok: "sched_ok (job_of env d) [] [f] {} (view s)" and nf: "node_fails env d f" and ns: "\<not> fails_softly env d f"
    and ch: "chained (job_of env d) D (f # T)" and w: "w ! (k - 1) = f" "drop (k - 1) w = f # T" "drop k w = T"
    and pd: "x_pending s = length (x_inflight s)"
  shows "turn_ok (job_of env d) (view (window_failed env r w k err s))"
    and "grows (job_of env d) (view s) (view (window_failed env r w k err s))"
    and "f \<in> settled (view (window_failed env r w k err s))"
proof -
  let ?J = "job_of env d"
  let ?step = "''step '' @ show_nat k @ ''/'' @ show_nat (length w) @ '': ''"
  let ?s2 = "fail f r (?step @ err) (emit (NodeFailed r f r (?step @ e_progress_error env err)) (cancel_tail T s))"
  have v2: "view ?s2 = (view s)\<lparr>v_cancelled := give_up T (v_cancelled (view s)),
      v_failed := insert f (v_failed (view s)), v_hard := v_hard (view s) @ [f]\<rparr>"
    by (simp add: view_cancel_tail)
  note fl = cur_unsettled[OF ok]
  have T: "t < jlen ?J \<and> \<not> jpreds ?J t \<subseteq> vdone (view s) \<and> jpreds ?J t \<inter> insert f (set T) \<noteq> {}"
    if "t \<in> set T" for t
    by (rule chained_waiting[OF ch fl(4) _ that]) (use dead_okD(5)[OF sched_okD(3)[OF ok]] in blast)
  have "sched_ok ?J [] [] (vsuccs ?J (insert f (set T))) (view ?s2)"
    unfolding v2 by (rule fail_cur[OF ok]) (use nf ns T in simp_all)
  then have ok2: "sched_ok ?J [] [] (vsuccs ?J (set (f # T)) \<union> {}) (view ?s2)" by simp
  have "\<forall>x \<in> set (f # T). x < jlen ?J" using fl(1) T by auto
  note fc = fold_cancel_ok[OF ok2 this, of r]
  have wf: "window_failed env r w k err s = fold (\<lambda>i. cancel_dependents i r) (f # T) ?s2"
    by (simp only: window_failed_def Let_def w)
  obtain C where C: "view (window_failed env r w k err s) = (view ?s2)\<lparr>v_cancelled := C\<rparr>"
    using fc unfolding wf by blast
  have g: "grows (job_of env d) (view s) (view ?s2)"
  proof -
    have "x_cancelled s ! x \<Longrightarrow> x < length (x_cancelled s) \<Longrightarrow> give_up T (x_cancelled s) ! x" for x
      by (simp add: give_up_nth)
    then show ?thesis unfolding v2 using ns by (auto simp: grows_def vcanc_def)
  qed
  show "grows (job_of env d) (view s) (view (window_failed env r w k err s))"
    using fc grows_trans[OF g] unfolding wf by blast
  have "v_pending (view (window_failed env r w k err s)) = length (v_inflight (view (window_failed env r w k err s)))"
    unfolding C v2 using pd by simp
  then show "turn_ok ?J (view (window_failed env r w k err s))"
    unfolding turn_ok_def using fc wf by simp
  show "f \<in> settled (view (window_failed env r w k err s))"
    unfolding C v2 by (simp add: settled_def)
qed

lemma sorted_last: "sorted_wrt (<) xs \<Longrightarrow> x \<in> set xs \<Longrightarrow> x \<le> last xs" for x :: nat
  by (induction xs) (auto simp: less_imp_le)

lemma run_chore_window_step:
  assumes ok: "turn_ok (job_of env d) (view s)" and p0: "x_pending s = 0" and q: "x_queue s = h # rest"
    and m: "is_chore_window_member (wn_payload (wnode s h))" and cs: "chore_serial d" and go: "groups_ok env"
  shows "turn_ok (job_of env d) (view (run_chore_window env h rest s))"
    and "progress (job_of env d) (view s) (view (run_chore_window env h rest s))"
proof -
  let ?J = "job_of env d"
  let ?r = "wn_recipe_name (wnode s h)"
  have so: "sched_ok ?J [] [] {} (view s)" and pd: "x_pending s = length (x_inflight s)"
    using ok by (simp_all add: turn_ok_def)
  have inf: "x_inflight s = []" using pd p0 by simp
  have qv: "v_queue (view s) = h # rest" using q by simp
  note dq = dequeue[OF so qv]
  let ?s1 = "set_is_chore ?r (ensure_recipe_started ?r s)"
  have v1: "view ?s1 = view s" by simp
  have same1: "same_window ?s1 = same_window s" "wnode ?s1 = wnode s" "dag_nodes (x_dag ?s1) = dag_nodes (x_dag s)"
    using v1 by (auto simp: same_window_def wnode_def view_def fun_eq_iff)
  have sg: "same_graph ?J (view s)" using so by (rule sched_okD)
  note hf = pick_facts[OF dq(1)]
  have hd: "h < jlen ?J" "h \<notin> vdone (view s)" using hf(2,3) by simp_all
  let ?walk = "walk_chain (jlen ?J) ?s1 ?r h"
  let ?w = "h # ?walk"
  have tw: "takeWhile (same_window ?s1 ?r) rest = []"
    unfolding same1 by (rule no_second_head[OF so q cs m])
  have dw: "dropWhile (same_window ?s1 ?r) rest = rest"
    using tw by (cases rest) (auto split: if_splits)
  have gw: "gather_window ?s1 ?r h rest = (?w, rest)"
    unfolding gather_window_def Let_def tw dw same1(3) using same_graph_len(1)[OF sg] by simp
  have wf: "chained ?J (vdone (view s)) ?w \<and> sorted_wrt (<) ?w
      \<and> (\<forall>x \<in> set ?walk. x < jlen ?J \<and> same_window ?s1 ?r x)"
    using walk_chain_facts[of ?J ?s1 "{}" h "jlen ?J" ?r] sg sched_okD(3)[OF so] hd unfolding v1 by blast
  let ?s2 = "emit (InteractiveStart ?r (cancel_name (wnode ?s1 h)) (length ?w)) (?s1\<lparr>x_queue := rest\<rparr>)"
  have v2: "view ?s2 = (view s)\<lparr>v_queue := rest\<rparr>"
  proof -
    have "view (t\<lparr>x_queue := rest\<rparr>) = (view t)\<lparr>v_queue := rest\<rparr>" for t by (simp add: view_def)
    then show ?thesis by simp
  qed
  have ok2: "sched_ok ?J [h] [] {} (view ?s2)" using dq(1) unfolding v2 .
  have inf2: "x_inflight ?s2 = []" "x_pending ?s2 = 0"
    using view_simps(3,4)[of ?s2] unfolding v2 using inf p0 by simp_all
  have mem: "is_chore_window_member (jpayload ?J j)" if "j \<in> set ?w" for j
  proof -
    have jm: "j < jlen ?J \<and> is_chore_window_member (wn_payload (wnode s j))"
    proof (cases "j = h")
      case True
      then show ?thesis using hd(1) m by blast
    next
      case False
      then have "j \<in> set ?walk" using that by simp
      then have "j < jlen ?J \<and> same_window ?s1 ?r j" using wf by blast
      then show ?thesis unfolding same1(1) same_window_def by blast
    qed
    have "wnode s j = node_payload (dag_nodes (j_dag ?J) ! j)"
      using graph_exec(2)[OF sg] jm by blast
    then show ?thesis using jm by metis
  qed
  have last: "vsuccs ?J {last ?w} \<inter> set ?w = {}"
  proof (rule ccontr)
    assume "vsuccs ?J {last ?w} \<inter> set ?w \<noteq> {}"
    then obtain x where x: "x \<in> set ?w" "x < jlen ?J" "last ?w \<in> jpreds ?J x" by (auto simp: vsuccs_def)
    have "last ?w < x" by (rule preds_irrefl[OF sg x(2,3)])
    moreover have "x \<le> last ?w"
    proof -
      have "sorted_wrt (<) ?w" using wf by blast
      then show ?thesis using x(1) by (rule sorted_last)
    qed
    ultimately show False by simp
  qed
  have ch2: "chained ?J (vdone (view ?s2)) ?w" using wf unfolding v2 by simp
  obtain s3 res where rw: "run_window env ?w 1 ?w ?s2 = (s3, res)" by (metis surj_pair)
  have we: "window_ended env d ?w 1 ?s2 s3 res"
    by (rule run_window_ok[OF ok2 ch2 inf2 mem subset_refl last rw])
  have wo: "window_outcome env ?w ?s2 = (s3, res)"
    using rw go by (cases res) (simp_all add: window_outcome_def groups_ok_def)
  define attempted where "attempted = (case res of None \<Rightarrow> length ?w | Some (k, _) \<Rightarrow> k)"
  let ?s4 = "s3\<lparr>x_finished := x_finished s3 + attempted\<rparr>"
  define fin where "fin \<longleftrightarrow> x_queue ?s4 = [] \<and> x_pending ?s4 = 0
    \<and> list_all (\<lambda>i. list_all (\<lambda>d. x_cancelled ?s4 ! d \<or> d \<in> set ?w) (dependents_of ?s4 i)) ?w"
  let ?s5 = "emit (InteractiveEnd ?r (cancel_name (wnode ?s1 h)) (res = None) fin (map_option fst res)) ?s4"
  define n where "n = (case res of None \<Rightarrow> length ?w | Some (k, _) \<Rightarrow> k - 1)"
  let ?s6 = "(finish_recipe_node ?r False False ^^ n) ?s5"
  have v6: "view ?s6 = view s3" by simp
  have run: "run_chore_window env h rest s = (case res of None \<Rightarrow> ?s6
      | Some (k, err) \<Rightarrow> window_failed env ?r ?w k err (finish_recipe_node ?r False True ?s6))"
    unfolding run_chore_window_def Let_def gw prod.case list.sel wo
    by (simp only: attempted_def n_def fin_def)
  have g23: "grows (job_of env d) (view ?s2) (view s3)" using we by (simp add: window_ended_def)
  have g02: "grows (job_of env d) (view s) (view ?s2)" "settled (view s) = settled (view ?s2)"
    unfolding v2 by (simp_all add: grows_def settled_def)
  have hu: "h \<notin> settled (view s)" using hf(3,4) dq(2) by (simp add: settled_def)
  show "turn_ok ?J (view (run_chore_window env h rest s))"
    and "progress ?J (view s) (view (run_chore_window env h rest s))"
  proof (atomize (full), cases res)
    case None
    then have e: "view (run_chore_window env h rest s) = view s3" using run v6 by simp
    have "turn_ok ?J (view s3)" "h \<in> settled (view s3)"
      using we None by (simp_all add: window_ended_def)
    then show "turn_ok ?J (view (run_chore_window env h rest s))
        \<and> progress ?J (view s) (view (run_chore_window env h rest s))"
      unfolding e progress_def using grows_trans[OF g02(1) g23] hu hd(1) by blast
  next
    case (Some kr)
    obtain k err where kr: "kr = (k, err)" by (cases kr)
    obtain i where mm: "i < length ?w" "k = Suc i" "node_fails env d (?w ! i)" "\<not> fails_softly env d (?w ! i)"
      "sched_ok ?J [] [?w ! i] {} (view s3)" "chained ?J (vdone (view s3)) (drop i ?w)"
      "x_pending s3 = length (x_inflight s3)"
      using we Some kr by (auto simp: window_ended_def)
    let ?f = "?w ! i" and ?T = "drop (Suc i) ?w"
    let ?s7 = "finish_recipe_node ?r False True ?s6"
    have v7: "view ?s7 = view s3" by simp
    have ok7: "sched_ok ?J [] [?f] {} (view ?s7)" unfolding v7 by (rule mm(5))
    have dr: "drop i ?w = ?f # ?T" by (rule Cons_nth_drop_Suc[OF mm(1), symmetric])
    have ch7: "chained ?J (vdone (view s3)) (?f # ?T)" using mm(6) dr by simp
    have pd7: "x_pending ?s7 = length (x_inflight ?s7)"
      using view_simps(3,4)[of ?s7] view_simps(3,4)[of s3] mm(7) unfolding v7 by simp
    note wfl = window_failed_ok[OF ok7 mm(3,4) ch7, of ?w k ?r err]
    have e: "run_chore_window env h rest s = window_failed env ?r ?w k err ?s7"
      using run Some kr by simp
    have wk: "?w ! (k - 1) = ?f" "drop (k - 1) ?w = ?f # ?T" "drop k ?w = ?T" using mm(2) dr by simp_all
    have t: "turn_ok ?J (view (run_chore_window env h rest s))"
      unfolding e by (rule wfl(1)[OF wk pd7])
    have "settled (view s) \<subseteq> settled (view s3)" using g02(2) grows_settled[OF g23] by simp
    moreover have "grows (job_of env d) (view s3) (view (run_chore_window env h rest s))"
      using wfl(2)[OF wk pd7] unfolding e v7 .
    ultimately have "progress ?J (view s) (view (run_chore_window env h rest s))"
      using progress_intro[OF grows_trans[OF g02(1) g23] _ mm(5)] wfl(3)[OF wk pd7] unfolding e by blast
    with t show "turn_ok ?J (view (run_chore_window env h rest s))
        \<and> progress ?J (view s) (view (run_chore_window env h rest s))" ..
  qed
qed


section \<open>The loop\<close>

lemma run_queued_step:
  assumes ok: "turn_ok (job_of env d) (view s)" and p0: "x_pending s = 0" and q: "x_queue s \<noteq> []"
    and cs: "chore_serial d" and go: "groups_ok env"
  shows "turn_ok (job_of env d) (view (run_queued env s))"
    and "progress (job_of env d) (view s) (view (run_queued env s))"
proof -
  let ?J = "job_of env d"
  obtain h rest where hr: "x_queue s = h # rest" using q by (cases "x_queue s") auto
  have so: "sched_ok ?J [] [] {} (view s)" and pd: "x_pending s = length (x_inflight s)"
    using ok by (simp_all add: turn_ok_def)
  have qv: "v_queue (view s) = h # rest" using hr by simp
  note dq = dequeue[OF so qv]
  have sg: "same_graph ?J (view s)" using so by (rule sched_okD)
  note hl = pick_facts(2)[OF dq(1)] and g = graph_exec[OF sg pick_facts(2)[OF dq(1)]]
  have live: "node_exists s h" "\<not> x_cancelled s ! h" using g(1,4) dq(2) by simp_all
  show "turn_ok ?J (view (run_queued env s))" and "progress ?J (view s) (view (run_queued env s))"
  proof (atomize (full), cases "is_chore_window_member (wn_payload (wnode s h))")
    case True
    then have "run_queued env s = run_chore_window env h rest s"
      using hr live by (simp add: run_queued_def)
    then show "turn_ok ?J (view (run_queued env s)) \<and> progress ?J (view s) (view (run_queued env s))"
      using run_chore_window_step[OF ok p0 hr True cs go] by simp
  next
    case False
    let ?s = "s\<lparr>x_queue := rest\<rparr>"
    have v: "view ?s = (view s)\<lparr>v_queue := rest\<rparr>" by (simp add: view_def)
    have r: "run_queued env s = run_legacy env h ?s" using hr live False by (simp add: run_queued_def)
    have "\<not> is_chore_window_member (jpayload ?J h)" using False g(2) by simp
    then obtain c l where pl: "jpayload ?J h = Some (Interactive c l False)"
      using dq(3) by (auto simp: queued_kind_def)
    have "sched_ok ?J [h] [] {} (view ?s)" unfolding v by (rule dq(1))
    moreover have "h \<notin> vcanc (view ?s)" unfolding v using dq(2) by simp
    moreover have "v_pending (view ?s) = length (v_inflight (view ?s))" unfolding v using pd by simp
    ultimately have t: "turn_ok ?J (view (run_legacy env h ?s))"
      and pr: "progress ?J (view ?s) (view (run_legacy env h ?s))"
      using run_legacy_step[OF _ _ pl] by blast+
    have "progress ?J (view s) (view (run_legacy env h ?s))"
      using pr unfolding v progress_def by (auto simp: grows_def settled_def)
    then show "turn_ok ?J (view (run_queued env s)) \<and> progress ?J (view s) (view (run_queued env s))"
      using t r by simp
  qed
qed

lemma exec_turn_step:
  assumes ok: "turn_ok (job_of env d) (view s)" and r: "running s" and cs: "chore_serial d" and go: "groups_ok env"
  shows "turn_ok (job_of env d) (view (exec_turn env s))"
    and "progress (job_of env d) (view s) (view (exec_turn env s))"
proof -
  have np: "\<not> x_panicked s" and w: "\<not> (x_pending s = 0 \<and> x_queue s = [])"
    using r by (simp_all add: running_def)
  show "turn_ok (job_of env d) (view (exec_turn env s))"
    and "progress (job_of env d) (view s) (view (exec_turn env s))"
    using run_queued_step[OF ok _ _ cs go] handle_result_step[OF ok _ np] w
    by (auto simp: exec_turn_def)
qed

definition soft_done :: "job \<Rightarrow> sview \<Rightarrow> bool" where
  "soft_done J v \<longleftrightarrow> (\<forall>i \<in> v_failed v. j_soft J i \<longrightarrow> i \<in> vdone v)"

lemma soft_done_grows: "soft_done J v \<Longrightarrow> grows J v w \<Longrightarrow> soft_done J w"
  unfolding soft_done_def grows_def by blast

definition loop_ok :: "job \<Rightarrow> exec \<Rightarrow> bool" where
  "loop_ok J s \<longleftrightarrow> turn_ok J (view s) \<and> soft_done J (view s)"

lemma loop_ok_turn:
  assumes "loop_ok (job_of env d) s" and "running s" and "chore_serial d" and "groups_ok env"
  shows "loop_ok (job_of env d) (exec_turn env s)"
    and "card ({..<dag_len d} - settled (view (exec_turn env s))) < card ({..<dag_len d} - settled (view s))"
proof -
  have ok: "turn_ok (job_of env d) (view s)" using assms(1) by (simp add: loop_ok_def)
  note st = exec_turn_step[OF ok assms(2-4)]
  have g: "grows (job_of env d) (view s) (view (exec_turn env s))" using st(2) by (simp add: progress_def)
  show "loop_ok (job_of env d) (exec_turn env s)"
    using st(1) soft_done_grows[OF _ g] assms(1) by (simp add: loop_ok_def)
  obtain i where i: "i < dag_len d" "i \<notin> settled (view s)" "i \<in> settled (view (exec_turn env s))"
    using st(2) by (auto simp: progress_def dag_len_def)
  have "{..<dag_len d} - settled (view (exec_turn env s)) \<subset> {..<dag_len d} - settled (view s)"
    using grows_settled[OF g] i by blast
  then show "card ({..<dag_len d} - settled (view (exec_turn env s))) < card ({..<dag_len d} - settled (view s))"
    by (intro psubset_card_mono) simp_all
qed

lemma exec_loop_ends:
  assumes "loop_ok (job_of env d) s" and "chore_serial d" and "groups_ok env"
  shows "\<exists>t. exec_loop env s = Some t \<and> loop_ok (job_of env d) t \<and> \<not> running t"
proof -
  have "\<exists>t. while_option running (exec_turn env) s = Some t"
    by (rule measure_while_option_Some[where P = "loop_ok (job_of env d)"
          and f = "\<lambda>s. card ({..<dag_len d} - settled (view s))"])
      (use assms loop_ok_turn in blast)+
  then obtain t where t: "while_option running (exec_turn env) s = Some t" ..
  have "loop_ok (job_of env d) t"
    by (rule while_option_rule[where P = "loop_ok (job_of env d)", OF _ t assms(1)]) (use assms loop_ok_turn in blast)
  then show ?thesis using t while_option_stop[OF t] by (auto simp: exec_loop_def)
qed

lemma exec_seed_ok:
  assumes wf: "dag_wf d" and fresh: "done_set d = {}"
  shows "loop_ok (job_of env d) (exec_seed env d)"
proof -
  let ?J = "job_of env d"
  let ?v = "view (exec_init d)"
  have f: "v_dag ?v = d" "v_queue ?v = []" "v_inflight ?v = []" "v_failed ?v = {}" "v_hard ?v = []"
    "v_calls ?v = []" "v_pending ?v = 0"
    by (simp_all add: view_def exec_init_def failed_units_def)
  have q0: "x_queue (exec_init d) = []" "x_inflight (exec_init d) = []" by (simp_all add: exec_init_def)
  have dn: "vdone ?v = {}" using fresh f(1) by (simp add: vdone_def)
  have cn: "vcanc ?v = {}" by (auto simp: vcanc_def exec_init_def view_def)
  have ir: "initial_ready d = filter (\<lambda>i. preds d i \<subseteq> {}) [0..<dag_len d]"
    using initial_ready_eq[OF wf] fresh by simp
  have "same_graph ?J ?v"
    using wf f(1) by (simp add: same_graph_def exec_init_def dag_len_def)
  moreover have "live_ok ?J (initial_ready d) [] ?v"
    unfolding live_ok_def active_def dn cn f ir by (auto simp: placed_ok_def dag_len_def f q0)
  moreover have "dead_ok ?J {} ?v"
    by (rule dead_okI) (simp_all add: vbad_def dn cn f)
  moreover have "calls_ok ?J [] ?v"
    by (simp add: calls_ok_def dn f started_def trace_ok_def List.map_filter_def)
  ultimately have ok: "sched_ok ?J (initial_ready d) [] {} ?v" by (rule sched_okI)
  note p = process_all_step[OF ok]
  have sd: "soft_done ?J ?v" by (simp add: soft_done_def f)
  show ?thesis
    unfolding loop_ok_def exec_seed_def turn_ok_def
    using p(1,3) f(3,7) soft_done_grows[OF sd p(2)] by simp
qed

section \<open>The outcome of a run\<close>

text \<open>Nodes with a failing node among the nodes they depend on, directly or not.\<close>

definition blocked :: "exec_env \<Rightarrow> work_node dag \<Rightarrow> nat \<Rightarrow> bool" where
  "blocked env d i \<longleftrightarrow> (\<exists>p. (p, i) \<in> (dep_rel d)\<^sup>+ \<and> node_fails env d p)"

lemma all_settled:
  assumes ok: "turn_ok J (view s)" and st: "x_queue s = []" "x_pending s = 0" and i: "i < jlen J"
  shows "i \<in> settled (view s)"
  using i
proof (induction i rule: less_induct)
  case (less i)
  have so: "sched_ok J [] [] {} (view s)" using ok by (simp add: turn_ok_def)
  note sg = sched_okD(1)[OF so] and l = live_okD[OF sched_okD(2)[OF so]] and dd = dead_okD[OF sched_okD(3)[OF so]]
  have e: "active [] [] (view s) = []" using ok st by (simp add: active_def turn_ok_def)
  show ?case
  proof (rule ccontr)
    assume n: "i \<notin> settled (view s)"
    have "jpreds J i \<subseteq> vdone (view s)"
    proof
      fix p assume p: "p \<in> jpreds J i"
      have pl: "p < i" by (rule preds_irrefl[OF sg less(2) p])
      then have "p \<in> settled (view s)" using less by simp
      moreover have "p \<notin> vbad (view s)" using dd(1)[OF less(2)] p n by (auto simp: settled_def)
      ultimately show "p \<in> vdone (view s)" by (auto simp: settled_def vbad_def)
    qed
    then show False using l(5)[OF less(2)] n e by (auto simp: settled_def vbad_def)
  qed
qed

lemma bad_reaches:
  assumes d: "dead_ok J {} v" and p: "p \<in> vbad v" and r: "(p, i) \<in> (dep_rel (j_dag J))\<^sup>+"
  shows "i \<in> vcanc v"
  using r
proof (induction rule: trancl_induct)
  case (base y)
  then show ?case using dead_okD(1)[OF d, of y] p by (auto simp: dep_rel_def)
next
  case (step y z)
  then show ?case using dead_okD(1)[OF d, of z] by (auto simp: dep_rel_def vbad_def)
qed

lemma cancelled_blocked:
  assumes sg: "same_graph (job_of env d) v" and dd: "dead_ok (job_of env d) {} v" and i: "i \<in> vcanc v"
  shows "blocked env d i"
  using i
proof (induction i rule: less_induct)
  case (less i)
  let ?J = "job_of env d"
  have il: "i < length (dag_nodes d)" using less(2) sg by (simp add: vcanc_def same_graph_def)
  obtain p where p: "p \<in> preds d i" "p \<in> vbad v" using dead_okD(4)[OF dd less(2)] by auto
  have e: "(p, i) \<in> dep_rel d" using p il by (simp add: dep_rel_def)
  show ?case
  proof (cases "p \<in> v_failed v")
    case True
    then have "node_fails env d p" using dead_okD(6)[OF dd] by simp
    then show ?thesis using e by (auto simp: blocked_def)
  next
    case False
    then have "p \<in> vcanc v" using p by (simp add: vbad_def)
    moreover have "p < i" using preds_irrefl[OF sg, of i p] il p by simp
    ultimately show ?thesis
      using less(1)[of p] e by (auto simp: blocked_def intro: trancl_into_trancl)
  qed
qed

text \<open>What each node came to at the end of a run.\<close>

lemma final_outcome:
  assumes ok: "loop_ok (job_of env d) t" and st: "\<not> running t" and i: "i < dag_len d"
  shows "i \<in> vcanc (view t) \<longleftrightarrow> blocked env d i"
    and "i \<in> v_failed (view t) \<longleftrightarrow> \<not> blocked env d i \<and> node_fails env d i"
    and "i \<in> vdone (view t) \<longleftrightarrow> \<not> blocked env d i \<and> (node_fails env d i \<longrightarrow> fails_softly env d i)"
    and "i \<in> set (map fst (x_failures t)) \<longleftrightarrow> \<not> blocked env d i \<and> node_fails env d i \<and> \<not> fails_softly env d i"
proof -
  let ?J = "job_of env d"
  have to: "turn_ok ?J (view t)" and sd: "soft_done ?J (view t)" using ok by (simp_all add: loop_ok_def)
  have so: "sched_ok ?J [] [] {} (view t)" using to by (simp add: turn_ok_def)
  note sg = sched_okD(1)[OF so] and dd = sched_okD(3)[OF so]
  note d = dead_okD[OF dd]
  have q: "x_queue t = []" "x_pending t = 0"
    using st sg by (auto simp: running_def same_graph_def)
  have stl: "k \<in> settled (view t)" if "k < dag_len d" for k
    using all_settled[OF to q, of k] that by (simp add: dag_len_def)
  have fb: "p \<in> vbad (view t)" if "node_fails env d p" "p < dag_len d" for p
    using stl[OF that(2)] d(7)[of p] that(1) by (auto simp: settled_def vbad_def)
  show c: "i \<in> vcanc (view t) \<longleftrightarrow> blocked env d i"
  proof
    assume "blocked env d i"
    then obtain p where p: "(p, i) \<in> (dep_rel d)\<^sup>+" "node_fails env d p" by (auto simp: blocked_def)
    obtain q where q: "(p, q) \<in> dep_rel d" using p(1) by (meson tranclD)
    have "q < jlen ?J" "p \<in> jpreds ?J q" using q by (simp_all add: dep_rel_def)
    then have "p < dag_len d" using preds_irrefl[OF sg, of q p] by (simp add: dag_len_def)
    then have "p \<in> vbad (view t)" using fb p(2) by blast
    then show "i \<in> vcanc (view t)" by (rule bad_reaches[OF dd]) (use p(1) in simp)
  qed (rule cancelled_blocked[OF sg dd])
  show f: "i \<in> v_failed (view t) \<longleftrightarrow> \<not> blocked env d i \<and> node_fails env d i"
    using c d(6)[of i] stl[OF i] d(7)[of i] by (auto simp: settled_def)
  show "i \<in> vdone (view t) \<longleftrightarrow> \<not> blocked env d i \<and> (node_fails env d i \<longrightarrow> fails_softly env d i)"
    using c f d(3) d(6)[of i] stl[OF i] d(7)[of i] sd by (auto simp: settled_def soft_done_def)
  show "i \<in> set (map fst (x_failures t)) \<longleftrightarrow> \<not> blocked env d i \<and> node_fails env d i \<and> \<not> fails_softly env d i"
  proof -
    have "v_hard (view t) = map fst (x_failures t)" by (simp add: view_def)
    then show ?thesis using f d(6)[of i] d(8) by auto
  qed
qed

lemma run_ends:
  assumes "dag_wf d" and "done_set d = {}" and "chore_serial d" and "groups_ok env"
  shows "\<exists>t. exec_loop env (exec_seed env d) = Some t \<and> loop_ok (job_of env d) t \<and> \<not> running t"
  by (rule exec_loop_ends[OF exec_seed_ok[OF assms(1,2)] assms(3,4)])

end
