(* ===== verification/Executor_Props.thy ===== *)
theory Executor_Props
  imports Executor_Run
begin

text \<open>
  The properties of the executor: what every run comes to, that the order in which the workers return
  does not change it, that no command starts before what it depends on has finished, and what the run
  returns. The concrete runs at the end show where the code departs from what it promises.
\<close>

section \<open>The recursion of the source\<close>

text \<open>
  The lists of \<open>process_list\<close> and \<open>cancel_list\<close> are processed from the left, each element with all it
  leads to before the next: the order of the recursive calls.
\<close>

lemma process_list_append:
  "process_list env (is @ js) s =
     (case process_list env is s of (s1, k) \<Rightarrow> case process_list env js s1 of (s2, m) \<Rightarrow> (s2, k + m))"
proof (induction env "is" s rule: process_list.induct)
  case (2 env i rest s)
  obtain s1 new k where r: "ready_one env i s = (s1, new, k)" by (cases "ready_one env i s")
  have "process_list env (new @ rest @ js) s1 =
     (case process_list env (new @ rest) s1 of (s1, k) \<Rightarrow> case process_list env js s1 of (s2, m) \<Rightarrow> (s2, k + m))"
    using 2(1)[OF r[symmetric] refl] by simp
  then show ?case by (simp add: r case_prod_beta)
qed (simp add: case_prod_beta)

lemma cancel_list_append:
  "\<not> x_panicked (cancel_list vs s) \<Longrightarrow> cancel_list (vs @ ws) s = cancel_list ws (cancel_list vs s)"
  by (induction vs s rule: cancel_list.induct) (auto simp: panic_def split: if_splits)

section \<open>How a node ends\<close>

text \<open>The abstract outcome of a run: read off the graph and the outside, with no state.\<close>

datatype node_end = Finished | Failed_softly | Failed_hard | Skipped_node | Unsettled

definition expected_end :: "exec_env \<Rightarrow> work_node dag \<Rightarrow> nat \<Rightarrow> node_end" where
  "expected_end env d i =
     (if blocked env d i then Skipped_node
      else if \<not> node_fails env d i then Finished
      else if fails_softly env d i then Failed_softly else Failed_hard)"

text \<open>What the state says of a node: its flags in the graph, and the failures reported.\<close>

definition actual_end :: "exec \<Rightarrow> nat \<Rightarrow> node_end" where
  "actual_end t i =
     (if x_cancelled t ! i then Skipped_node
      else if completed (dag_nodes (x_dag t) ! i)
      then (if i \<in> failed_units (x_events t) then Failed_softly else Finished)
      else if i \<in> failed_units (x_events t) then Failed_hard else Unsettled)"

lemma run_outcome:
  assumes ok: "loop_ok (job_of env d) t" and st: "\<not> running t" and i: "i < dag_len d"
  shows "actual_end t i = expected_end env d i"
proof -
  note f = final_outcome[OF ok st i]
  have sg: "same_graph (job_of env d) (view t)"
    using ok by (simp add: loop_ok_def turn_ok_def sched_ok_def)
  have il: "i < jlen (job_of env d)" using i by (simp add: dag_len_def)
  have len: "i < length (dag_nodes (x_dag t))" "i < length (x_cancelled t)"
    using same_graph_len(1)[OF sg] sg il by (simp_all add: same_graph_def)
  have "i \<in> vdone (view t) \<longleftrightarrow> completed (dag_nodes (x_dag t) ! i)"
    using len by (simp add: vdone_def done_set_def)
  moreover have "i \<in> vcanc (view t) \<longleftrightarrow> x_cancelled t ! i" using len by (simp add: vcanc_def)
  moreover have "v_failed (view t) = failed_units (x_events t)" by (simp add: view_def)
  ultimately show ?thesis using f(1-3) by (auto simp: actual_end_def expected_end_def)
qed

lemma failed_units_code [code]:
  "failed_units es = set (List.map_filter (\<lambda>e. case e of NodeFailed r i n m \<Rightarrow> Some i | _ \<Rightarrow> None) es)"
proof (induction es)
  case (Cons e es)
  have "failed_units (e # es) = failed_units [e] \<union> failed_units es" using failed_units_append(1)[of "[e]" es] by simp
  then show ?case using Cons by (cases e) (auto simp: failed_units_def List.map_filter_def)
qed (simp add: failed_units_def List.map_filter_def)

lemma run_failures:
  assumes ok: "loop_ok (job_of env d) t" and st: "\<not> running t"
  shows "set (map fst (x_failures t)) = {i. i < dag_len d \<and> expected_end env d i = Failed_hard}"
proof -
  have so: "sched_ok (job_of env d) [] [] {} (view t)" using ok by (simp add: loop_ok_def turn_ok_def)
  note dd = dead_okD[OF sched_okD(3)[OF so]]
  have "i < dag_len d" if "i \<in> set (map fst (x_failures t))" for i
    using that dd(8) dd(6)[of i] by (auto simp: view_def dag_len_def)
  then show ?thesis using final_outcome(4)[OF ok st] by (auto simp: expected_end_def)
qed

lemma run_quiet:
  assumes ok: "loop_ok (job_of env d) t" and st: "\<not> running t"
  shows "\<not> x_panicked t" and "x_pending t = 0" and "x_queue t = []" and "x_inflight t = []"
proof -
  have to: "turn_ok (job_of env d) (view t)" using ok by (simp add: loop_ok_def)
  show np: "\<not> x_panicked t" using to by (simp add: turn_ok_def sched_ok_def same_graph_def)
  show "x_pending t = 0" "x_queue t = []" using np st by (simp_all add: running_def)
  then show "x_inflight t = []" using to by (simp add: turn_ok_def)
qed

lemma scheduling_starts: "starts c = Some i \<Longrightarrow> scheduling c"
  by (cases c) simp_all

lemma started_scheduling: "started (filter scheduling cs) = started cs"
proof (induction cs)
  case (Cons c cs)
  have "starts c = None" if "\<not> scheduling c" using that scheduling_starts[of c] by (cases "starts c") auto
  then show ?case using Cons by (auto simp: started_def List.map_filter_def)
qed (simp add: started_def List.map_filter_def)

lemma started_split: "i \<in> set (started cs) \<Longrightarrow> \<exists>as c bs. cs = as @ c # bs \<and> starts c = Some i"
  by (auto simp: started_def List.map_filter_def dest!: split_list) blast

lemma may_start_disposition:
  assumes "may_start (job_of env d) i"
  shows "disposition_of env i (node_payload (dag_nodes d ! i)) \<in> {Queue, Dispatch}"
  using assms disposition_queue[of "node_payload (dag_nodes d ! i)" env i] by (auto simp: may_start_def)

lemma run_calls:
  assumes ok: "loop_ok (job_of env d) t" and st: "\<not> running t"
  shows "\<And>as c bs i p. x_calls t = as @ c # bs \<Longrightarrow> starts c = Some i \<Longrightarrow> p \<in> preds d i
      \<Longrightarrow> CompleteNode p \<in> set as"
    and "distinct (started (x_calls t))"
    and "\<And>i. i \<in> set (started (x_calls t)) \<Longrightarrow> i < dag_len d \<and> \<not> blocked env d i
      \<and> disposition_of env i (node_payload (dag_nodes d ! i)) \<in> {Queue, Dispatch}"
proof -
  let ?J = "job_of env d"
  have so: "sched_ok ?J [] [] {} (view t)" using ok by (simp add: loop_ok_def turn_ok_def)
  note c = calls_okD[OF sched_okD(4)[OF so]] and dd = dead_okD[OF sched_okD(3)[OF so]]
  have v: "v_calls (view t) = filter scheduling (x_calls t)" by (simp add: view_def)
  have tr: "may_start ?J i \<and> (\<forall>p \<in> preds d i. CompleteNode p \<in> set as)"
    if "x_calls t = as @ c # bs" "starts c = Some i" for as c bs i
  proof -
    have "v_calls (view t) = filter scheduling as @ c # filter scheduling bs"
      using that scheduling_starts[OF that(2)] by (simp add: v)
    then show ?thesis using c(2) that(2) unfolding trace_ok_def by fastforce
  qed
  show "CompleteNode p \<in> set as" if "x_calls t = as @ c # bs" "starts c = Some i" "p \<in> preds d i" for as c bs i p
    using tr[OF that(1,2)] that(3) by blast
  show "distinct (started (x_calls t))" using c(3) by (simp add: v started_scheduling)
  show "i < dag_len d \<and> \<not> blocked env d i
      \<and> disposition_of env i (node_payload (dag_nodes d ! i)) \<in> {Queue, Dispatch}"
    if i: "i \<in> set (started (x_calls t))" for i
  proof -
    have "i \<in> vdone (view t) \<union> v_failed (view t)"
      using c(4) i run_quiet(4)[OF ok st] by (auto simp: v started_scheduling)
    then have l: "i < dag_len d" and "i \<notin> vcanc (view t)"
      using dd(3) dd(5)[of i] dd(6)[of i] by (auto simp: dag_len_def)
    then have "\<not> blocked env d i" using final_outcome(1)[OF ok st l] by simp
    moreover obtain as c bs where "x_calls t = as @ c # bs" "starts c = Some i"
      using started_split[OF i] by blast
    ultimately show ?thesis using tr may_start_disposition l by blast
  qed
qed

lemma expected_end_order: "expected_end (env\<lparr>e_order := ord\<rparr>) d i = expected_end env d i"
proof -
  let ?e = "env\<lparr>e_order := ord\<rparr>"
  have parts: "e_cache ?e = e_cache env" "e_probe ?e = e_probe env" "e_rerun_patterns ?e = e_rerun_patterns env"
    "e_glob ?e = e_glob env" "e_parent_dirs ?e = e_parent_dirs env" "e_interactive ?e = e_interactive env"
    "e_result ?e = e_result env" by simp_all
  have dis: "disposition_of ?e = disposition_of env"
    unfolding fun_eq_iff disposition_of_def node_test_decision_def rerun_matches_def
      dispatch_disposition_def parts by blast
  have "node_fails ?e d = node_fails env d" "fails_softly ?e d = fails_softly env d"
    unfolding fun_eq_iff node_fails_def fails_softly_def dis parts by blast+
  then show ?thesis by (simp add: expected_end_def blocked_def)
qed

text \<open>The run of a small graph, used as an example: it fails at the nodes listed, and nothing is cached.\<close>

definition sample_node :: "str \<Rightarrow> work_payload \<Rightarrow> str option \<Rightarrow> work_node" where
  "sample_node recipe p test = \<lparr>wn_payload = Some p, wn_recipe_name = recipe, wn_cache_meta = None,
     wn_working_dir = ''/w'', wn_env_vars = Map.empty, wn_process_env_vars = Map.empty,
     wn_test_name = test, wn_member = None\<rparr>"

definition sample_env :: "nat list \<Rightarrow> exec_env" where
  "sample_env bad = \<lparr>e_cache = (\<lambda>_. CacheMiss None), e_rerun_patterns = [], e_glob = (\<lambda>_. None),
     e_parent_dirs = (\<lambda>_. None), e_probe = (\<lambda>_. None), e_recorded = (\<lambda>_. None), e_replay_logs = False,
     e_publish_enabled = False,
     e_result = (\<lambda>i. \<lparr>wr_success = i \<notin> set bad, wr_error = None, wr_node_name = show_nat i, wr_output = [],
        wr_exit_code = None, wr_probe_output = None\<rparr>),
     e_order = (\<lambda>_. 0), e_interactive = (\<lambda>i. if i \<in> set bad then Some ''exit 1'' else None),
     e_group_new = (\<lambda>_. None), e_group_drain = (\<lambda>_. None), e_has_manager = (\<lambda>_. False),
     e_progress_error = (\<lambda>e. e)\<rparr>"

definition sample_list :: "(work_node \<times> nat list) list" where
  "sample_list =
     [(sample_node ''gen'' (Shell ''gen'' 1) None, []),
      (sample_node ''app'' (Shell ''cc'' 2) None, [0]),
      (sample_node ''app'' (Shell ''ld'' 3) None, [1]),
      (sample_node ''app'' (Shell ''t'' 4) (Some ''t''), [0]),
      (sample_node ''go'' (Interactive ''./app'' 5 True) None, [0])]"

definition graph_of :: "(work_node \<times> nat list) list \<Rightarrow> work_node dag" where
  "graph_of ns = (case add_all ns dag_new of Inr d \<Rightarrow> d | Inl _ \<Rightarrow> dag_new)"

abbreviation sample :: "work_node dag" where "sample \<equiv> graph_of sample_list"

lemma graph_of_built: "\<not> isl (add_all ns dag_new) \<Longrightarrow> add_all ns dag_new = Inr (graph_of ns)"
  by (auto simp: graph_of_def split: sum.splits)

lemma graph_of_wf:
  assumes "\<not> isl (add_all ns dag_new)" and "length ns \<le> 2 ^ 64"
  shows "dag_wf (graph_of ns)" and "done_set (graph_of ns) = {}"
proof -
  have n: "done_set (dag_new :: work_node dag) = {}" "dag_len (dag_new :: work_node dag) = 0"
    by (simp_all add: done_set_def dag_new_def dag_len_def)
  show "dag_wf (graph_of ns)" "done_set (graph_of ns) = {}"
    using add_all_wf[OF graph_of_built[OF assms(1)] dag_new_wf n(1)] assms(2) n by simp_all
qed

lemma sample_eq: "graph_of sample_list = \<lparr>dag_nodes =
   [\<lparr>node_id = 0, node_payload = sample_node ''gen'' (Shell ''gen'' 1) None, dependents = [1, 3, 4], remaining_deps = 0, completed = False\<rparr>,
    \<lparr>node_id = 1, node_payload = sample_node ''app'' (Shell ''cc'' 2) None, dependents = [2], remaining_deps = 1, completed = False\<rparr>,
    \<lparr>node_id = 2, node_payload = sample_node ''app'' (Shell ''ld'' 3) None, dependents = [], remaining_deps = 1, completed = False\<rparr>,
    \<lparr>node_id = 3, node_payload = sample_node ''app'' (Shell ''t'' 4) (Some ''t''), dependents = [], remaining_deps = 1, completed = False\<rparr>,
    \<lparr>node_id = 4, node_payload = sample_node ''go'' (Interactive ''./app'' 5 True) None, dependents = [], remaining_deps = 1, completed = False\<rparr>],
   dag_deps = [[], [0], [1], [0], [0]]\<rparr>"
  by (simp add: graph_of_def sample_list_def dag_new_def add_node_def)

lemma sample_ok: "dag_wf sample" "done_set sample = {}" "dag_len sample = 5"
  "chore_serial sample" "groups_ok (sample_env bad)"
proof -
  have "\<not> isl (add_all sample_list dag_new)" by code_simp
  moreover have "length sample_list = 5" by (simp add: sample_list_def)
  ultimately show "dag_wf sample" "done_set sample = {}" using graph_of_wf[of sample_list] by simp_all
  show "dag_len sample = 5" by (simp add: sample_eq dag_len_def)
  show "chore_serial sample"
    unfolding chore_serial_def sample_eq by (auto simp: less_Suc_eq numeral_eq_Suc sample_node_def)
  show "groups_ok (sample_env bad)" by (simp add: groups_ok_def sample_env_def)
qed

section \<open>Every run\<close>

text \<open>
  C1: a run of a well-formed graph, none of it completed yet and with chores that run their steps one
  after the other, comes to an end whatever the outcomes of the commands and the order in which the
  workers return: no panic, nothing pending, queued or in flight. Every node has then settled the way
  the outcomes of the commands say: skipped when a node it depends on, directly or not, failed, and
  otherwise finished, failed softly (a test) or failed.
\<close>

theorem execute_outcome:
  assumes "dag_wf d" and "done_set d = {}" and "chore_serial d" and "groups_ok env"
  shows "\<exists>t. exec_loop env (exec_seed env d) = Some t
    \<and> \<not> x_panicked t \<and> x_pending t = 0 \<and> x_queue t = [] \<and> x_inflight t = []
    \<and> (\<forall>i < dag_len d. actual_end t i = expected_end env d i)"
proof -
  obtain t where t: "exec_loop env (exec_seed env d) = Some t" "loop_ok (job_of env d) t" "\<not> running t"
    using run_ends[OF assms] by blast
  show ?thesis using t run_quiet[OF t(2,3)] run_outcome[OF t(2,3)] by blast
qed

lemma sample_ends:
  "map_option (\<lambda>t. map (actual_end t) [0..<5]) (exec_loop (sample_env [1, 3]) (exec_seed (sample_env [1, 3]) sample))
     = Some [Finished, Failed_hard, Skipped_node, Failed_softly, Finished]"
  by code_simp

lemma execute_outcome_witness:
  "dag_wf sample \<and> done_set sample = {} \<and> chore_serial sample \<and> groups_ok (sample_env [1, 3])
   \<and> map (expected_end (sample_env [1, 3]) sample) [0..<5]
       = [Finished, Failed_hard, Skipped_node, Failed_softly, Finished]"
proof -
  obtain t where t: "exec_loop (sample_env [1, 3]) (exec_seed (sample_env [1, 3]) sample) = Some t"
    "\<forall>i < dag_len sample. actual_end t i = expected_end (sample_env [1, 3]) sample i"
    using execute_outcome[OF sample_ok(1,2,4) sample_ok(5)] by blast
  have "map (expected_end (sample_env [1, 3]) sample) [0..<5] = map (actual_end t) [0..<5]"
    using t(2) sample_ok(3) by (intro map_cong) simp_all
  moreover have "map (actual_end t) [0..<5] = [Finished, Failed_hard, Skipped_node, Failed_softly, Finished]"
    using sample_ends unfolding t(1) by simp
  ultimately show ?thesis using sample_ok by (intro conjI) simp_all
qed

text \<open>
  C5: the order in which the workers return decides nothing: two runs that differ in it alone leave
  every node in the same end and report the same failed nodes.
\<close>

theorem run_order_irrelevant:
  assumes "dag_wf d" and "done_set d = {}" and "chore_serial d" and "groups_ok env"
  shows "\<exists>t u. exec_loop env (exec_seed env d) = Some t
    \<and> exec_loop (env\<lparr>e_order := ord\<rparr>) (exec_seed (env\<lparr>e_order := ord\<rparr>) d) = Some u
    \<and> (\<forall>i < dag_len d. actual_end u i = actual_end t i)
    \<and> set (map fst (x_failures u)) = set (map fst (x_failures t))"
proof -
  let ?e = "env\<lparr>e_order := ord\<rparr>"
  have g: "groups_ok ?e" using assms(4) by (simp add: groups_ok_def)
  obtain t where t: "exec_loop env (exec_seed env d) = Some t" "loop_ok (job_of env d) t" "\<not> running t"
    using run_ends[OF assms] by blast
  obtain u where u: "exec_loop ?e (exec_seed ?e d) = Some u" "loop_ok (job_of ?e d) u" "\<not> running u"
    using run_ends[OF assms(1-3) g] by blast
  have "expected_end ?e d i = expected_end env d i" for i by (rule expected_end_order)
  then show ?thesis
    using t(1) u(1) run_outcome[OF t(2,3)] run_outcome[OF u(2,3)] run_failures[OF t(2,3)] run_failures[OF u(2,3)]
    by simp
qed

lemma run_order_irrelevant_witness:
  "dag_wf sample \<and> chore_serial sample
   \<and> map_option (\<lambda>u. map fst (x_failures u))
       (exec_loop ((sample_env [2, 3])\<lparr>e_order := Suc\<rparr>) (exec_seed ((sample_env [2, 3])\<lparr>e_order := Suc\<rparr>) sample))
     = Some [2]"
proof -
  let ?e = "sample_env [2, 3]" and ?f = "(sample_env [2, 3])\<lparr>e_order := Suc\<rparr>"
  have "map_option (\<lambda>t. map fst (x_failures t)) (exec_loop ?e (exec_seed ?e sample)) = Some [2]" by code_simp
  then obtain u where u: "exec_loop ?f (exec_seed ?f sample) = Some u" "set (map fst (x_failures u)) = {2}"
    using run_order_irrelevant[OF sample_ok(1,2,4,5), of "[2, 3]" Suc] by auto
  have "map_option (\<lambda>t. map fst (x_failures t)) (exec_loop ?f (exec_seed ?f sample)) = Some [2]" by code_simp
  then show ?thesis using sample_ok u by simp
qed

text \<open>
  C2: in a run no command is started before every node it depends on has been completed, no node is
  started twice, and a node is started only if nothing it depends on failed and it was neither served
  from the cache nor rejected.
\<close>

theorem starts_follow_dependencies:
  assumes "dag_wf d" and "done_set d = {}" and "chore_serial d" and "groups_ok env"
    and "exec_loop env (exec_seed env d) = Some t"
  shows "(\<forall>as c bs i. x_calls t = as @ c # bs \<longrightarrow> starts c = Some i \<longrightarrow> (\<forall>p \<in> preds d i. CompleteNode p \<in> set as))
    \<and> distinct (started (x_calls t))
    \<and> (\<forall>i \<in> set (started (x_calls t)). i < dag_len d \<and> expected_end env d i \<noteq> Skipped_node
          \<and> disposition_of env i (node_payload (dag_nodes d ! i)) \<in> {Queue, Dispatch})"
proof -
  have t: "loop_ok (job_of env d) t" "\<not> running t" using run_ends[OF assms(1-4)] assms(5) by auto
  show ?thesis
    using run_calls[OF t] by (auto simp: expected_end_def)
qed

lemma starts_follow_dependencies_witness:
  "\<exists>t. exec_loop (sample_env [1]) (exec_seed (sample_env [1]) sample) = Some t
     \<and> started (x_calls t) = [0, 1, 3, 4] \<and> distinct (started (x_calls t))"
proof -
  let ?e = "sample_env [1]"
  have "map_option (\<lambda>t. started (x_calls t)) (exec_loop ?e (exec_seed ?e sample)) = Some [0, 1, 3, 4]"
    by code_simp
  then obtain t where t: "exec_loop ?e (exec_seed ?e sample) = Some t" "started (x_calls t) = [0, 1, 3, 4]"
    by auto
  then show ?thesis using starts_follow_dependencies[OF sample_ok(1,2,4,5) t(1)] by blast
qed

text \<open>
  C3: a run reports failure exactly when some node failed hard, with the failed nodes themselves and
  their number; skipped nodes and failed tests do not make it fail.
\<close>

theorem execute_result_exact:
  assumes "dag_wf d" and "done_set d = {}" and "chore_serial d" and "groups_ok env"
  shows "\<exists>r. execute_dag env d = Some r
    \<and> (case r of
         Inr rows \<Rightarrow> \<forall>i < dag_len d. expected_end env d i \<noteq> Failed_hard
       | Inl (TaskFailures n fs rows) \<Rightarrow> fs \<noteq> [] \<and> n = length fs
           \<and> set (map fst fs) = {i. i < dag_len d \<and> expected_end env d i = Failed_hard})"
proof (cases "dag_is_empty d")
  case True
  then show ?thesis by (simp add: execute_dag_def dag_is_empty_def dag_len_def)
next
  case False
  obtain t where t: "exec_loop env (exec_seed env d) = Some t" "loop_ok (job_of env d) t" "\<not> running t"
    using run_ends[OF assms] by blast
  have "execute_dag env d = Some (exec_result t)" using False t(1) by (simp add: execute_dag_def)
  then show ?thesis using run_failures[OF t(2,3)] by (auto simp: exec_result_def Let_def)
qed

lemma execute_result_exact_witness:
  "\<exists>fs rows. execute_dag (sample_env [1, 3]) sample = Some (Inl (TaskFailures 1 fs rows))
     \<and> set (map fst fs) = {1} \<and> expected_end (sample_env [1, 3]) sample 1 = Failed_hard"
proof -
  let ?e = "sample_env [1, 3]"
  have "map_option (\<lambda>r. case r of Inl (TaskFailures n fs rows) \<Rightarrow> (n, map fst fs) | Inr _ \<Rightarrow> (0, []))
     (execute_dag ?e sample) = Some (1, [1])"
    by code_simp
  then obtain z where z: "execute_dag ?e sample = Some z"
    "(case z of Inl (TaskFailures n fs rows) \<Rightarrow> (n, map fst fs) | Inr _ \<Rightarrow> (0, [])) = (1, [1])"
    by (auto simp: map_option_case split: option.splits)
  then obtain fs rows where r: "execute_dag ?e sample = Some (Inl (TaskFailures 1 fs rows))" "map fst fs = [1]"
    by (cases z) (auto split: task_failures.splits)
  have "set (map fst fs) = {i. i < dag_len sample \<and> expected_end ?e sample i = Failed_hard}"
    using execute_result_exact[OF sample_ok(1,2,4,5), of "[1, 3]"] unfolding r(1) by simp
  moreover have "set (map fst fs) = {1}" unfolding r(2) by simp
  ultimately have "1 \<in> {i. i < dag_len sample \<and> expected_end ?e sample i = Failed_hard}" by simp
  then show ?thesis using r by auto
qed

text \<open>
  C6: what is built from registered recipes can be executed: the graph of a planned closure runs to its
  end, and its units end as the outcomes of their commands say, a unit being skipped exactly when one
  that it depends on in the plan, directly or not, fails.
\<close>

theorem built_graph_executes:
  assumes "build_dag rs = Inr d" and "plan rs = Inr ns" and "distinct (map recipe_name rs)"
    and "length ns \<le> 2 ^ 64" and "chore_serial d" and "groups_ok env"
  shows "\<exists>t. exec_loop env (exec_seed env d) = Some t \<and> \<not> x_panicked t
    \<and> (\<forall>i < length ns. actual_end t i = expected_end env d i
        \<and> (expected_end env d i = Skipped_node \<longleftrightarrow>
             (\<exists>p. (p, i) \<in> {(p, i). i < length ns \<and> p \<in> fst ` set (node_deps (ns ! i))}\<^sup>+ \<and> node_fails env d p)))"
proof -
  have "lowers rs ns d"
    using lower_plan[OF assms(2-4)] assms(1,2) by (auto simp: build_dag_def split: option.splits)
  then have l: "dag_wf d" "done_set d = {}" "dag_len d = length ns"
    "\<forall>k < length ns. preds d k = fst ` set (node_deps (ns ! k))"
    by (auto simp: lowers_def)
  have "dep_rel d = {(p, i). i < length ns \<and> p \<in> fst ` set (node_deps (ns ! i))}"
    using l(3,4) by (auto simp: dep_rel_def dag_len_def)
  moreover obtain t where "exec_loop env (exec_seed env d) = Some t" "loop_ok (job_of env d) t" "\<not> running t"
    using run_ends[OF l(1,2) assms(5,6)] by blast
  note t = this
  ultimately show ?thesis
    using t(1) run_quiet(1)[OF t(2,3)] run_outcome[OF t(2,3)] l(3)
    by (auto simp: expected_end_def blocked_def)
qed

lemma built_graph_executes_witness:
  "\<exists>d t. build_dag demo_closure = Inr d \<and> exec_loop (sample_env []) (exec_seed (sample_env []) d) = Some t
     \<and> \<not> x_panicked t \<and> (\<nexists>i. i < 5 \<and> actual_end t i = Unsettled)"
proof -
  obtain d where d: "build_dag demo_closure = Inr d" "lowers demo_closure demo_nodes d"
    using demo_builds by blast
  have dist: "distinct (map recipe_name demo_closure)" by (simp add: demo_closure_def recipe_of_def)
  have len: "length demo_nodes = 5" by (simp add: demo_nodes_def)
  have "\<not> is_chore_window_member (wn_payload (node_payload (dag_nodes d ! k)))" if "k < 5" for k
  proof -
    let ?m = "\<lambda>n. case work_node_of demo_closure (origin n) of
        Inr wn \<Rightarrow> is_chore_window_member (wn_payload wn) | Inl _ \<Rightarrow> True"
    have "map ?m demo_nodes = replicate 5 False" by code_simp
    from arg_cong[OF this, of "\<lambda>xs. xs ! k"] have "\<not> ?m (demo_nodes ! k)" using that len by simp
    moreover have "work_node_of demo_closure (origin (demo_nodes ! k)) = Inr (node_payload (dag_nodes d ! k))"
      using d(2) that len by (simp add: lowers_def)
    ultimately show ?thesis by simp
  qed
  then have cs: "chore_serial d" using d(2) len by (simp add: chore_serial_def lowers_def dag_len_def)
  obtain t where "exec_loop (sample_env []) (exec_seed (sample_env []) d) = Some t" "\<not> x_panicked t"
    "\<forall>i < length demo_nodes. actual_end t i = expected_end (sample_env []) d i"
    using built_graph_executes[OF d(1) demo_plan dist _ cs sample_ok(5)] len by force
  then show ?thesis using d(1) len by (intro exI conjI) (auto simp: expected_end_def split: if_splits)
qed

section \<open>Where the code departs from what it promises\<close>

text \<open>
  a pinned unit that has no artifact for its key fails without running, as promised, unless it is a
  test: the same decision sends a test to the workers, and its command runs.
\<close>

theorem pinned_miss_runs_tests:
  assumes "wn_payload wn = Some (Shell cmd line)" and "e_cache env i = PinnedColdMiss"
    and "e_parent_dirs env i = None" and "e_rerun_patterns env = []"
  shows "disposition_of env i wn = (if is_test wn then Dispatch else Reject)"
  using assms by (simp add: disposition_of_def node_test_decision_def rerun_matches_def dispatch_disposition_def)

definition pinned_graph :: "work_node dag" where
  "pinned_graph = graph_of
     [(sample_node ''app'' (Shell ''cc'' 1) None, []), (sample_node ''app'' (Shell ''t'' 2) (Some ''t''), [])]"

definition pinned_env :: "exec_env" where
  "pinned_env = (sample_env [])\<lparr>e_cache := (\<lambda>_. PinnedColdMiss)\<rparr>"

lemma pinned_miss_runs_tests_witness:
  "map_option (\<lambda>t. (started (x_calls t), map fst (x_failures t))) (exec_loop pinned_env (exec_seed pinned_env pinned_graph))
     = Some ([1], [0])
   \<and> disposition_of pinned_env 1 (sample_node ''app'' (Shell ''t'' 2) (Some ''t'')) = Dispatch"
proof
  show "map_option (\<lambda>t. (started (x_calls t), map fst (x_failures t)))
      (exec_loop pinned_env (exec_seed pinned_env pinned_graph)) = Some ([1], [0])"
    by code_simp
  have "is_test (sample_node ''app'' (Shell ''t'' 2) (Some ''t''))" by code_simp
  then show "disposition_of pinned_env 1 (sample_node ''app'' (Shell ''t'' 2) (Some ''t'')) = Dispatch"
    using pinned_miss_runs_tests[of "sample_node ''app'' (Shell ''t'' 2) (Some ''t'')" "''t''" 2 pinned_env 1]
    by (simp add: pinned_env_def sample_env_def sample_node_def)
qed

fun ends_recipe :: "engine_event \<Rightarrow> bool" where
  "ends_recipe (RecipeCompleted _ _ _ _) = True"
| "ends_recipe (RecipeFailed _ _ _) = True"
| "ends_recipe (RecipeSkipped _ _ _ _) = True"
| "ends_recipe _ = False"

definition chore_graph :: "nat \<Rightarrow> work_node dag" where
  "chore_graph n = graph_of (map (\<lambda>k. (sample_node ''go'' (Interactive ''false'' (k + 1) True) None,
     if k = 0 then [] else [k - 1])) [0..<n])"

definition run_events :: "exec_env \<Rightarrow> work_node dag \<Rightarrow> engine_event list" where
  "run_events env d = (case exec_loop env (exec_seed env d) of Some t \<Rightarrow> x_events t | None \<Rightarrow> [])"

text \<open>
  a chore of two steps whose first step fails ends without any event that ends its recipe: the
  failure of the step is reported, and the recipe stays open. The same recipe with one step is reported
  as failed.
\<close>

theorem chore_failure_leaves_recipe_open:
  "filter ends_recipe (run_events (sample_env [0]) (chore_graph 2)) = []
   \<and> list_ex is_failure (run_events (sample_env [0]) (chore_graph 2))
   \<and> filter ends_recipe (run_events (sample_env [0]) (chore_graph 1)) = [RecipeFailed ''go'' 0 1]"
  by code_simp

definition follower_graph :: "work_node dag" where
  "follower_graph = graph_of
     [(sample_node ''go'' (Interactive ''serve'' 1 True) None, []), (sample_node ''app'' (Shell ''cc'' 2) None, [0])]"

definition undrained_env :: "exec_env" where
  "undrained_env = (sample_env [])\<lparr>e_group_drain := (\<lambda>_. Some ''still running'')\<rparr>"

text \<open>
  when the process group of a chore does not drain, the chore has failed only after what depends on
  it was dispatched: the run below completes the chore's step, then reports it failed, and the node that
  waits for it is both run to success and counted as skipped.
\<close>

theorem undrained_chore_runs_followers:
  "map_option (\<lambda>t. (map fst (x_failures t), x_cancelled t, map completed (dag_nodes (x_dag t)), x_calls t))
     (exec_loop undrained_env (exec_seed undrained_env follower_graph))
   = Some ([0], [False, True], [True, True], [RunInteractive 0, CompleteNode 0, SubmitItem 1, CompleteNode 1])"
  by code_simp

end
