(* ===== verification/Lang_Syntax.thy ===== *)
theory Lang_Syntax
  imports Text_Ops Naming Unit_Types
begin

text \<open>
  The data of the parser: the syntax tree (\<open>cook-lang/src/ast.rs\<close>), the tokens and the errors of the
  lexer (\<open>lexer.rs\<close>) and the error of the parser (\<open>lib.rs\<close>). A \<open>BTreeSet\<close> of references is a set; the
  Display texts of the lexer's errors are left out but for the one another message embeds.
\<close>

section \<open>Syntax tree\<close>

record use_statement =
  us_alias :: str
  us_target :: str
  us_line :: nat

definition is_path_form :: "use_statement \<Rightarrow> bool" where
  "is_path_form u \<longleftrightarrow> is_path_target (us_target u)"

datatype import_path = TreePath str | SigilPath str

fun import_path_text :: "import_path \<Rightarrow> str" where
  "import_path_text (TreePath s) = s"
| "import_path_text (SigilPath s) = ''//'' @ s"

record import_decl =
  im_name :: str
  im_path :: import_path
  im_line :: nat

record config_block =
  cb_name :: "str option"
  cb_body :: str
  cb_line :: nat

record register_block =
  rb_body :: str
  rb_line :: nat

record top_level_module_call =
  mc_code :: str
  mc_line :: nat

text \<open>Name, default, line and column of a parameter; the lexer leaves the column 0.\<close>

datatype chore_param =
    RequiredParam str nat nat
  | DefaultedString str str nat nat
  | DefaultedLua str str nat nat
  | VariadicPlus str nat nat
  | VariadicStar str nat nat

fun param_name :: "chore_param \<Rightarrow> str" where
  "param_name (RequiredParam name l c) = name"
| "param_name (DefaultedString name d l c) = name"
| "param_name (DefaultedLua name d l c) = name"
| "param_name (VariadicPlus name l c) = name"
| "param_name (VariadicStar name l c) = name"

datatype body = ShellBlock "str list" | LuaBlock str

datatype output_pattern = QuotedOut str | LuaExpr str

fun pattern_text :: "output_pattern \<Rightarrow> str" where
  "pattern_text (QuotedOut s) = s"
| "pattern_text (LuaExpr s) = s"

fun is_lua_expr :: "output_pattern \<Rightarrow> bool" where
  "is_lua_expr (LuaExpr s) \<longleftrightarrow> True"
| "is_lua_expr (QuotedOut s) \<longleftrightarrow> False"

record disposition =
  dp_sharing :: sharing
  dp_record :: bool
  dp_seal :: "str set"

record cook_step =
  ck_outputs :: "output_pattern list"
  ck_body :: "body option"
  ck_disposition :: disposition

record test_step =
  ts_body :: body
  ts_seal :: "str set"

datatype member_source = ProbeKeySource str | GatherKeySource str | RecipeRefSource str

record member_source_step =
  ms_source :: member_source
  ms_extra_gather :: "str list"

datatype step =
    GatherStep nat
  | ShellStep str nat bool
  | LuaStep str nat
  | LuaBlockStep str nat
  | InlineLuaStep str nat
  | CookLine cook_step nat
  | TestLine test_step nat
  | MemberStep member_source_step nat

record recipe_decl =
  rd_name :: str
  rd_description :: "str option"
  rd_deps :: "str list"
  rd_inputs :: "str list"
  rd_excludes :: "str list"
  rd_steps :: "step list"
  rd_line :: nat

record chore_decl =
  ch_name :: str
  ch_description :: "str option"
  ch_params :: "chore_param list"
  ch_deps :: "str list"
  ch_steps :: "step list"
  ch_line :: nat

datatype shell_produce_type = StringTyped | LinesTyped | JsonTyped

datatype probe_produce =
    ProduceLua str
  | ProduceShell "str list" shell_produce_type
  | ProduceTools "str list"
  | ProduceFiles "str list" "str list"

record probe_decl =
  pb_name :: str
  pb_deps :: "str list"
  pb_inputs :: "str list"
  pb_excludes :: "str list"
  pb_covers :: "str list"
  pb_produce :: probe_produce
  pb_line :: nat

record cookfile =
  cf_config_blocks :: "config_block list"
  cf_recipes :: "recipe_decl list"
  cf_chores :: "chore_decl list"
  cf_uses :: "use_statement list"
  cf_imports :: "import_decl list"
  cf_register_blocks :: "register_block list"
  cf_module_calls :: "top_level_module_call list"
  cf_probes :: "probe_decl list"

section \<open>Tokens\<close>

datatype token =
    CommentTok str
  | RecipeHeader str "str list"
  | ChoreHeader str "chore_param list" "str list"
  | ConfigHeader "str option"
  | UseTok str str
  | ImportTok str str
  | RegisterHeader
  | ProbeHeader str "str list"
  | FilesHeader str
  | ToolsHeader str
  | LuaLineTok str
  | LuaBlockOpen
  | InlineLuaLine str
  | InlineLuaBlockOpen
  | BlankTok
  | ContentTok str

record located =
  tok_value :: token
  tok_line :: nat

section \<open>Errors\<close>

datatype use_name_position = UseName | UseAlias

datatype lex_error =
    UnterminatedString nat
  | MissingRecipeName nat
  | ReservedRecipeName nat str
  | ReservedTripleArrow nat
  | InvalidUseName str use_name_position nat
  | InvalidUsePath str nat
  | UnusableDerivedAlias str str nat
  | UseSecondArgumentNotAPath str str nat
  | UseNameWithExtraArgument str str nat
  | UseTooManyArguments nat
  | UseTrailingComment str nat
  | UseMissingArgument nat
  | DottedDeclaredRecipeName str nat
  | DottedDeclaredChoreName str nat
  | DuplicateChoreParam nat str str
  | RequiredAfterDefaulted nat str str str
  | BadChoreParamDefault nat str str
  | UnclosedChoreParamDefault nat str str
  | RecipeWithParams nat str
  | MissingProbeName nat
  | ProbeExtraTokens str nat
  | MalformedProbeName str nat
  | MissingSetName str nat
  | SetExtraTokens str str nat
  | VariadicNotLast nat str str
  | MultipleVariadics nat str str str
  | VariadicWithDefault nat str str
  | DottedChoreParam nat str str

datatype parse_error = LexErr lex_error | ParseErr nat str

end
