(* ===== verification/Lexer.thy ===== *)
theory Lexer
  imports Lang_Syntax
begin

text \<open>
  The lexer (\<open>cook-lang/src/lexer.rs\<close>): one token for each line of the source, or the error of the
  first line that has one. What \<open>use\<close> accepts as a path is \<open>normalise\_use\_path\<close> of
  \<open>cook-contracts/src/layout/mod.rs\<close>.
\<close>

section \<open>Names\<close>

definition reserved_recipe_segments :: "str list" where
  "reserved_recipe_segments = [''stem'', ''name'', ''ext'', ''dir'', ''in'', ''out'', ''env'']"

definition check_reserved_recipe_name :: "str \<Rightarrow> nat \<Rightarrow> lex_error + unit" where
  "check_reserved_recipe_name name line =
     (if hd (split_on CHR ''.'' name) = ''env'' then Inl (ReservedRecipeName line ''env'')
      else if rsplit_last CHR ''.'' name \<in> set reserved_recipe_segments then
        Inl (ReservedRecipeName line (rsplit_last CHR ''.'' name))
      else Inr ())"

definition is_probe_seg_char :: "char \<Rightarrow> bool" where
  "is_probe_seg_char c \<longleftrightarrow> is_ascii_alphanumeric c \<or> c = CHR ''_'' \<or> c = CHR ''-''"

definition is_param_char :: "char \<Rightarrow> bool" where
  "is_param_char c \<longleftrightarrow> is_ascii_alphanumeric c \<or> c = CHR ''_''"

definition first_is :: "(char \<Rightarrow> bool) \<Rightarrow> str \<Rightarrow> bool" where
  "first_is p s \<longleftrightarrow> s \<noteq> [] \<and> p (hd s)"

definition starts_ws :: "str \<Rightarrow> bool" where "starts_ws s \<longleftrightarrow> 0 < ws_width s"

text \<open>A quoted name or a bare identifier, and the text after it.\<close>

definition parse_name :: "str \<Rightarrow> nat \<Rightarrow> lex_error + str \<times> str" where
  "parse_name text line =
     (let u = trim_start text in
      if first_is ((=) dquote) u then
        (case split_once dquote (tl u) of
           None \<Rightarrow> Inl (UnterminatedString line)
         | Some (name, t) \<Rightarrow> Inr (name, trim_start t))
      else
        (let (w, t) = span_of is_bare_name_char u in
         if w = [] \<or> \<not> is_bare_name_start (hd u) then Inl (MissingRecipeName line) else Inr (w, trim_start t)))"

lemma span_shorter: "first_is ok s \<Longrightarrow> length (dropWhile ok s) < length s"
  by (cases s) (auto simp: first_is_def less_Suc_eq_le length_dropWhile_le)

lemma span_first: "takeWhile ok s \<noteq> [] \<longleftrightarrow> first_is ok s"
  by (cases s) (auto simp: first_is_def)

lemma parse_name_shorter: "parse_name src line = Inr (name, t) \<Longrightarrow> length t < length src"
proof -
  assume a: "parse_name src line = Inr (name, t)"
  let ?u = "trim_start src"
  have "length t < length ?u"
  proof (cases "first_is ((=) dquote) ?u")
    case True
    then obtain t' where t: "split_once dquote (tl ?u) = Some (name, t')" "t = trim_start t'"
      using a by (auto simp: parse_name_def Let_def split: option.splits)
    then show ?thesis
      using trim_start_length[of t'] True by (cases ?u) (auto simp: split_once_Some first_is_def)
  next
    case False
    then have "first_is is_bare_name_char ?u" and t: "t = trim_start (dropWhile is_bare_name_char ?u)"
      using a by (auto simp: parse_name_def span_of_def Let_def first_is_def span_first split: if_splits)
    then show ?thesis using span_shorter[of is_bare_name_char ?u] trim_start_length[of "dropWhile is_bare_name_char ?u"] by simp
  qed
  then show ?thesis using trim_start_length[of src] by simp
qed

function names_loop :: "str \<Rightarrow> nat \<Rightarrow> lex_error + str list" where
  "names_loop remaining line =
     (if remaining = [] then Inr []
      else
        (case parse_name remaining line of
           Inl e \<Rightarrow> Inl e
         | Inr (name, rest) \<Rightarrow> bind_res (names_loop rest line) (\<lambda>ns. Inr (name # ns))))"
  by pat_completeness auto
termination by (relation "measure (\<lambda>(s, l). length s)") (auto dest: parse_name_shorter)

declare names_loop.simps [simp del]

definition parse_names :: "str \<Rightarrow> nat \<Rightarrow> lex_error + str list" where
  "parse_names text line = names_loop (trim text) line"

section \<open>Use declarations\<close>

definition check_use_name :: "str \<Rightarrow> use_name_position \<Rightarrow> nat \<Rightarrow> lex_error + unit" where
  "check_use_name name position line =
     (if is_use_name name then Inr () else Inl (InvalidUseName name position line))"

function use_arguments :: "str \<Rightarrow> nat \<Rightarrow> lex_error + str list" where
  "use_arguments rest line =
     (if rest = [] then Inr []
      else if hd rest = dquote then
        (case split_once dquote (tl rest) of
           None \<Rightarrow> Inl (UnterminatedString line)
         | Some (a, t) \<Rightarrow> bind_res (use_arguments (trim_start t) line) (\<lambda>xs. Inr (a # xs)))
      else if ws_width rest = 0 then
        bind_res (use_arguments (trim_start (snd (word_split rest))) line) (\<lambda>xs. Inr (fst (word_split rest) # xs))
      else bind_res (use_arguments (trim_start rest) line) (\<lambda>xs. Inr ([] # xs)))"
  by pat_completeness auto
termination
proof (relation "measure (\<lambda>(s, l). length s)", goal_cases)
  case (2 rest line x a t)
  then show ?case using trim_start_length[of t] by (cases rest) (auto simp: split_once_Some)
next
  case (3 rest line)
  obtain w t where wt: "word_split rest = (w, t)" by (cases "word_split rest")
  then have "rest = w @ t" "w \<noteq> []"
    using word_split_append[of rest w t] word_split_nonempty[of rest w t] 3 by auto
  then show ?case using trim_start_length[of t] wt by (cases w) auto
next
  case (4 rest line)
  then have "length (trim_start rest) < length rest"
    using trim_start_length[of "drop (ws_width rest) rest"] ws_width_le[of rest]
    by (simp add: trim_start.simps[of rest])
  then show ?case by simp
qed simp

declare use_arguments.simps [simp del]

definition split_use_arguments :: "str \<Rightarrow> nat \<Rightarrow> lex_error + str list" where
  "split_use_arguments text line = use_arguments (trim_start text) line"

datatype use_path_rejection = SigilUse | AbsoluteUse | DotDotSegment | WhitespaceUse | EmptyUse

fun rejection_reason :: "use_path_rejection \<Rightarrow> str" where
  "rejection_reason SigilUse =
     (''the '' @ [squote] @ ''//'' @ [squote]
       @ '' workspace-root sigil is not permitted in a `use` path; a module is confined to the declaring Cookfile''
       @ [squote] @ ''s own subtree ('' @ [CHR 0xC2, CHR 0xA7] @ ''12.2.1)'')"
| "rejection_reason AbsoluteUse =
     (''absolute paths are not permitted in a `use` path; write it relative to the Cookfile'' @ [squote]
       @ ''s directory'')"
| "rejection_reason DotDotSegment =
     ([squote] @ ''..'' @ [squote]
       @ '' segments are not permitted in a `use` path; a module is confined to the declaring Cookfile''
       @ [squote] @ ''s own subtree ('' @ [CHR 0xC2, CHR 0xA7] @ ''12.2.1)'')"
| "rejection_reason WhitespaceUse =
     ''whitespace is not permitted in a `use` path (App. A.5 `path_segment`); quoting does not admit it''"
| "rejection_reason EmptyUse = ''a `use` path names no file''"

definition use_path_rejected_message :: "str \<Rightarrow> use_path_rejection \<Rightarrow> str" where
  "use_path_rejected_message raw r = (''use path '' @ [squote] @ raw @ [squote] @ '': '' @ rejection_reason r)"

fun use_segments :: "str list \<Rightarrow> use_path_rejection + str list" where
  "use_segments [] = Inr []"
| "use_segments (segment # rest) =
     (if segment = [] \<or> segment = ''.'' then use_segments rest
      else if segment = ''..'' then Inl DotDotSegment
      else bind_res (use_segments rest) (\<lambda>ss. Inr (segment # ss)))"

definition normalise_use_path :: "str \<Rightarrow> use_path_rejection + str" where
  "normalise_use_path raw =
     (if has_ws raw then Inl WhitespaceUse
      else if starts_with ''//'' raw then Inl SigilUse
      else if starts_with ''/'' raw then Inl AbsoluteUse
      else
        (case use_segments (split_on CHR ''/'' raw) of
           Inl r \<Rightarrow> Inl r
         | Inr segments \<Rightarrow> if segments = [] then Inl EmptyUse else Inr (join ''/'' segments)))"

definition normalised_use_path :: "str \<Rightarrow> nat \<Rightarrow> lex_error + str" where
  "normalised_use_path raw line =
     (case normalise_use_path raw of
        Inl rejection \<Rightarrow> Inl (InvalidUsePath (use_path_rejected_message raw rejection) line)
      | Inr p \<Rightarrow> Inr p)"

fun classify_arguments :: "str list \<Rightarrow> nat \<Rightarrow> lex_error + str \<times> str" where
  "classify_arguments [] line = Inl (UseMissingArgument line)"
| "classify_arguments [one] line =
     (if \<not> is_path_target one then
        bind_res (check_use_name one UseName line) (\<lambda>_. Inr (alias_of one, one))
      else
        bind_res (normalised_use_path one line) (\<lambda>normalised.
          let alias = derived_alias normalised in
          case check_use_name alias UseAlias line of
            Inl _ \<Rightarrow> Inl (UnusableDerivedAlias one alias line)
          | Inr _ \<Rightarrow> Inr (alias, normalised)))"
| "classify_arguments [first, second] line =
     (if \<not> is_path_target second then
        Inl (if is_path_target first then UseSecondArgumentNotAPath first second line
             else UseNameWithExtraArgument first second line)
      else
        bind_res (check_use_name first UseAlias line) (\<lambda>_.
        bind_res (normalised_use_path second line) (\<lambda>normalised. Inr (first, normalised))))"
| "classify_arguments (a # b # c # r) line = Inl (UseTooManyArguments line)"

definition classify_use_arguments :: "str list \<Rightarrow> nat \<Rightarrow> lex_error + str \<times> str" where
  "classify_use_arguments args line =
     (case dropWhile (\<lambda>a. \<not> starts_with ''#'' a) args of
        comment # _ \<Rightarrow>
          if starts_with ''#'' (hd args) then classify_arguments args line
          else Inl (UseTrailingComment comment line)
      | [] \<Rightarrow> classify_arguments args line)"

section \<open>Parameters of a chore\<close>

text \<open>The text after a closing quote.\<close>

fun skip_quoted :: "char \<Rightarrow> str \<Rightarrow> str option" where
  "skip_quoted q [] = None"
| "skip_quoted q [c] = (if c = q then Some [] else None)"
| "skip_quoted q (c # d # s) =
     (if c = q then Some (d # s) else if c = backslash then skip_quoted q s else skip_quoted q (d # s))"

lemma skip_quoted_shorter: "skip_quoted q s = Some t \<Longrightarrow> length t < length s"
  by (induction q s rule: skip_quoted.induct) (auto split: if_splits)

text \<open>The text from the closing parenthesis on; an open string or an open parenthesis is an error.\<close>

datatype paren_error = OpenStringLiteral | OpenParenthesis

function paren_scan :: "nat \<Rightarrow> str \<Rightarrow> paren_error + str" where
  "paren_scan depth [] = Inl OpenParenthesis"
| "paren_scan depth (c # s) =
     (if c = CHR ''('' then paren_scan (Suc depth) s
      else if c = CHR '')'' then (if depth - 1 = 0 then Inr (c # s) else paren_scan (depth - 1) s)
      else if c = dquote \<or> c = squote then
        (case skip_quoted c s of None \<Rightarrow> Inl OpenStringLiteral | Some t \<Rightarrow> paren_scan depth t)
      else paren_scan depth s)"
  by pat_completeness auto
termination
  by (relation "measure (\<lambda>(d, s). length s)") (auto dest: skip_quoted_shorter)

definition scan_balanced :: "str \<Rightarrow> paren_error + str \<times> str" where
  "scan_balanced text =
     (case paren_scan 1 text of
        Inl e \<Rightarrow> Inl e
      | Inr t \<Rightarrow> Inr (trim (take (length text - length t) text), tl t))"

lemma paren_scan_suffix: "paren_scan d s = Inr t \<Longrightarrow> t \<noteq> [] \<and> length t \<le> length s"
  by (induction d s rule: paren_scan.induct)
    (auto dest: skip_quoted_shorter split: if_splits option.splits)

lemma scan_balanced_shorter: "scan_balanced s = Inr (x, t) \<Longrightarrow> length t < length s"
proof -
  assume a: "scan_balanced s = Inr (x, t)"
  then obtain u where "paren_scan 1 s = Inr u" "t = tl u"
    unfolding scan_balanced_def by (cases "paren_scan 1 s") simp_all
  then show ?thesis using paren_scan_suffix[of 1 s u] by (cases u) simp_all
qed

definition scan_balanced_paren :: "str \<Rightarrow> nat \<Rightarrow> str \<Rightarrow> str \<Rightarrow> lex_error + str \<times> str" where
  "scan_balanced_paren text line chore name =
     (case scan_balanced text of Inl _ \<Rightarrow> Inl (UnclosedChoreParamDefault line chore name) | Inr r \<Rightarrow> Inr r)"

text \<open>What the loop over the parameters keeps; its step ends the list or goes on with the text left.\<close>

record param_state =
  pr_params :: "chore_param list"
  pr_defaulted :: bool
  pr_variadic :: "str option"

definition no_params :: param_state where
  "no_params = \<lparr>pr_params = [], pr_defaulted = False, pr_variadic = None\<rparr>"

definition is_defaulted :: "chore_param \<Rightarrow> bool" where
  "is_defaulted p \<longleftrightarrow> (case p of DefaultedString _ _ _ _ \<Rightarrow> True | DefaultedLua _ _ _ _ \<Rightarrow> True | _ \<Rightarrow> False)"

definition last_defaulted :: "chore_param list \<Rightarrow> str" where
  "last_defaulted ps = (case filter is_defaulted (rev ps) of [] \<Rightarrow> [] | p # _ \<Rightarrow> param_name p)"

definition variadic_param :: "str \<Rightarrow> nat \<Rightarrow> char \<Rightarrow> str \<Rightarrow> str \<Rightarrow> param_state \<Rightarrow> lex_error + param_state \<times> str" where
  "variadic_param chore line sigil name remaining st =
     (case pr_variadic st of
        Some v \<Rightarrow> Inl (MultipleVariadics line chore v name)
      | None \<Rightarrow>
          if first_is ((=) CHR ''='') remaining then Inl (VariadicWithDefault line chore name)
          else if first_is (\<lambda>c. c = CHR ''+'' \<or> c = CHR ''*'') remaining then
            Inl (MultipleVariadics line chore name
                  (takeWhile is_param_char (trim_start_matches CHR '' '' (tl remaining))))
          else if first_is is_bare_name_start remaining then Inl (VariadicNotLast line chore name)
          else
            Inr (st\<lparr>pr_variadic := Some name,
                    pr_params := pr_params st @ [if sigil = CHR ''+'' then VariadicPlus name line 0 else VariadicStar name line 0]\<rparr>,
                 remaining))"

definition plain_param :: "str \<Rightarrow> nat \<Rightarrow> str \<Rightarrow> str \<Rightarrow> param_state \<Rightarrow> lex_error + param_state \<times> str" where
  "plain_param chore line name remaining st =
     (case pr_variadic st of
        Some v \<Rightarrow> Inl (VariadicNotLast line chore v)
      | None \<Rightarrow>
          if first_is ((=) CHR ''='') remaining then
            (let after_eq = tl remaining in
             if first_is ((=) dquote) after_eq then
               (case split_once dquote (tl after_eq) of
                  None \<Rightarrow> Inl (UnclosedChoreParamDefault line chore name)
                | Some (dflt, t) \<Rightarrow>
                    Inr (st\<lparr>pr_params := pr_params st @ [DefaultedString name dflt line 0], pr_defaulted := True\<rparr>,
                         trim_start t))
             else if first_is ((=) CHR ''('') after_eq then
               bind_res (scan_balanced_paren (tl after_eq) line chore name) (\<lambda>(expr, t).
                 Inr (st\<lparr>pr_params := pr_params st @ [DefaultedLua name expr line 0], pr_defaulted := True\<rparr>,
                      trim_start t))
             else Inl (BadChoreParamDefault line chore name))
          else if pr_defaulted st then
            Inl (RequiredAfterDefaulted line chore name (last_defaulted (pr_params st)))
          else Inr (st\<lparr>pr_params := pr_params st @ [RequiredParam name line 0]\<rparr>, remaining))"

definition one_param :: "str \<Rightarrow> nat \<Rightarrow> char option \<Rightarrow> str \<Rightarrow> param_state \<Rightarrow> lex_error + param_state \<times> str" where
  "one_param chore line sigil u st =
     (let (name, t) = span_of is_param_char u;
          tail = (if first_is ((=) CHR ''.'') t then takeWhile (\<lambda>c. is_param_char c \<or> c = CHR ''.'') (tl t) else []);
          remaining = trim_start t
      in
      if tail \<noteq> [] then Inl (DottedChoreParam line chore (name @ ''.'' @ tail))
      else if name \<in> set (map param_name (pr_params st)) then Inl (DuplicateChoreParam line chore name)
      else
        (case sigil of
           Some c \<Rightarrow> variadic_param chore line c name remaining st
         | None \<Rightarrow> plain_param chore line name remaining st))"

definition variadic_sigil :: "str \<Rightarrow> char option \<times> str" where
  "variadic_sigil remaining =
     (if first_is (\<lambda>c. c = CHR ''+'' \<or> c = CHR ''*'') remaining
      then (Some (hd remaining), trim_start_matches CHR '' '' (tl remaining))
      else (None, remaining))"

lemma trim_start_matches_length: "length (trim_start_matches c s) \<le> length s"
  by (simp add: trim_start_matches_def length_dropWhile_le)

lemma one_param_shorter:
  assumes "first_is is_bare_name_start u" and "one_param chore line sigil u st = Inr (st', t')"
  shows "length t' < length u"
proof -
  let ?t = "dropWhile is_param_char u"
  have "first_is is_param_char u" using assms(1)
    by (auto simp: first_is_def is_bare_name_start_def is_param_char_def is_ascii_alphanumeric_def)
  then have t: "length (trim_start ?t) < length u"
    using span_shorter[of is_param_char u] trim_start_length[of ?t] by simp
  have "length t' \<le> length (trim_start ?t)"
  proof (cases sigil)
    case (Some c)
    then have "\<exists>name. variadic_param chore line c name (trim_start ?t) st = Inr (st', t')"
      using assms(2) by (auto simp: one_param_def span_of_def Let_def split: if_splits)
    then show ?thesis by (auto simp: variadic_param_def split: option.splits if_splits)
  next
    case None
    then obtain name where p: "plain_param chore line name (trim_start ?t) st = Inr (st', t')"
      using assms(2) by (auto simp: one_param_def span_of_def Let_def split: if_splits)
    have l: "length (tl s) \<le> length s" for s :: str by simp
    show ?thesis
    proof (cases "first_is ((=) CHR ''='') (trim_start ?t)")
      case False
      then show ?thesis using p by (auto simp: plain_param_def split: option.splits if_splits)
    next
      case True
      let ?r = "tl (trim_start ?t)"
      consider (s) d x where "split_once dquote (tl ?r) = Some (d, x)" "t' = trim_start x"
        | (b) e x where "scan_balanced (tl ?r) = Inr (e, x)" "t' = trim_start x"
        using p True
        by (auto simp: plain_param_def bind_res_Inr_iff scan_balanced_paren_def Let_def
            split: option.splits if_splits sum.splits)
      then have "length t' \<le> length (tl ?r)"
      proof cases
        case s
        then show ?thesis using trim_start_length[of x] by (auto simp: split_once_Some)
      next
        case b
        then show ?thesis using trim_start_length[of x] scan_balanced_shorter[OF b(1)] by simp
      qed
      then show ?thesis by simp
    qed
  qed
  then show ?thesis using t by simp
qed

lemma param_step_shorter:
  assumes "variadic_sigil remaining = (sigil, u)" and "first_is is_bare_name_start u"
    and "one_param chore line sigil u st = Inr (st', t)"
  shows "length t < length remaining"
proof -
  have "length u \<le> length remaining"
    using assms(1) trim_start_matches_length[of "CHR '' ''" "tl remaining"]
    by (auto simp: variadic_sigil_def split: if_splits)
  then show ?thesis using one_param_shorter[OF assms(2,3)] by simp
qed

function params_loop :: "str \<Rightarrow> nat \<Rightarrow> str \<Rightarrow> param_state \<Rightarrow> lex_error + param_state \<times> str" where
  "params_loop chore line remaining st =
     (if remaining = [] \<or> first_is ((=) CHR '':'') remaining then Inr (st, remaining)
      else
        (case variadic_sigil remaining of
           (sigil, u) \<Rightarrow>
             if first_is is_bare_name_start u then
               (case one_param chore line sigil u st of
                  Inl e \<Rightarrow> Inl e
                | Inr (st', t) \<Rightarrow> params_loop chore line t st')
             else Inr (st, u)))"
  by pat_completeness auto
termination
  by (relation "measure (\<lambda>(c, l, s, st). length s)") (auto dest: param_step_shorter[OF sym])

declare params_loop.simps [simp del]

definition parse_chore_params :: "str \<Rightarrow> str \<Rightarrow> nat \<Rightarrow> lex_error + chore_param list \<times> str" where
  "parse_chore_params text chore_name line =
     bind_res (params_loop chore_name line (trim_start text) no_params) (\<lambda>(st, t). Inr (pr_params st, t))"

section \<open>Probe keys and set names\<close>

text \<open>The segments after the first, with their colons, and the text after them.\<close>

function probe_segments :: "str \<Rightarrow> str \<times> str" where
  "probe_segments after =
     (case strip_prefix '':'' after of
        None \<Rightarrow> ([], after)
      | Some rest \<Rightarrow>
          if \<not> first_is is_bare_name_start rest then ([], after)
          else (case probe_segments (dropWhile is_probe_seg_char rest) of
                  (w, t) \<Rightarrow> (CHR '':'' # takeWhile is_probe_seg_char rest @ w, t)))"
  by pat_completeness auto
termination
  by (relation "measure length") (auto simp: strip_prefix_iff less_Suc_eq_le length_dropWhile_le)

declare probe_segments.simps [simp del]

definition scan_probe_ref :: "str \<Rightarrow> nat \<Rightarrow> lex_error + str \<times> str" where
  "scan_probe_ref src line =
     (let s = trim_start src; (w, after_first) = span_of is_probe_seg_char s in
      if w = [] \<or> \<not> first_is is_bare_name_start s then Inl (MissingProbeName line)
      else
        (let (ws, after) = probe_segments after_first; name = w @ ws in
         case strip_prefix ''.'' after of
           Some tail \<Rightarrow>
             if first_is is_probe_seg_char tail
             then Inl (MalformedProbeName (name @ ''.'' @ takeWhile is_probe_seg_char tail) line)
             else Inr (name, after)
         | None \<Rightarrow> Inr (name, after)))"

lemma probe_segments_append: "probe_segments s = (w, t) \<Longrightarrow> s = w @ t"
proof (induction s arbitrary: w t rule: probe_segments.induct)
  case (1 s)
  show ?case
  proof (cases "\<exists>r. s = CHR '':'' # r \<and> first_is is_bare_name_start r")
    case True
    then obtain r where r: "strip_prefix '':'' s = Some r" "first_is is_bare_name_start r" by (auto simp: strip_prefix_iff)
    obtain w' t' where wt: "probe_segments (dropWhile is_probe_seg_char r) = (w', t')" by (cases "probe_segments (dropWhile is_probe_seg_char r)")
    have "dropWhile is_probe_seg_char r = w' @ t'" by (rule 1(1)[OF r(1) _ wt]) (simp add: r(2))
    moreover have "w = CHR '':'' # takeWhile is_probe_seg_char r @ w'" "t = t'"
      using 1(2) r wt by (simp_all add: probe_segments.simps[of s])
    moreover have "s = CHR '':'' # r" using r(1) by (simp only: strip_prefix_iff) simp
    ultimately show ?thesis by (metis append_Cons append_assoc takeWhile_dropWhile_id)
  next
    case False
    then have "probe_segments s = ([], s)"
      by (auto simp: probe_segments.simps[of s] strip_prefix_iff split: option.splits)
    then show ?thesis using 1(2) by simp
  qed
qed

lemma scan_probe_ref_shorter: "scan_probe_ref src line = Inr (name, t) \<Longrightarrow> length t < length src"
proof -
  assume a: "scan_probe_ref src line = Inr (name, t)"
  let ?s = "trim_start src"
  obtain ws after where p: "probe_segments (dropWhile is_probe_seg_char ?s) = (ws, after)"
    by (cases "probe_segments (dropWhile is_probe_seg_char ?s)")
  have "first_is is_probe_seg_char ?s" "t = after"
    using a p by (auto simp: scan_probe_ref_def span_of_def Let_def span_first split: if_splits option.splits)
  moreover have "length after \<le> length (dropWhile is_probe_seg_char ?s)"
    using probe_segments_append[OF p] by simp
  ultimately show ?thesis
    using span_shorter[of is_probe_seg_char ?s] trim_start_length[of src] by simp
qed

definition parse_set_header :: "str \<Rightarrow> str \<Rightarrow> nat \<Rightarrow> lex_error + str" where
  "parse_set_header kind src line =
     (let rest = trim src in
      if rest = [] then Inl (MissingSetName kind line)
      else
        (case (if first_is ((=) dquote) rest then parse_name rest line else scan_probe_ref rest line) of
           Inl _ \<Rightarrow> Inl (SetExtraTokens kind rest line)
         | Inr (name, tail) \<Rightarrow> if trim tail \<noteq> [] then Inl (SetExtraTokens kind name line) else Inr name))"

definition probe_dep :: "str \<Rightarrow> nat \<Rightarrow> lex_error + str \<times> str" where
  "probe_dep rest line = (if first_is ((=) dquote) rest then parse_name rest line else scan_probe_ref rest line)"

lemma probe_dep_shorter: "probe_dep rest line = Inr (name, t) \<Longrightarrow> length (trim_start t) < length rest"
  using parse_name_shorter[of rest line name t] scan_probe_ref_shorter[of rest line name t] trim_start_length[of t]
  by (auto simp: probe_dep_def split: if_splits)

function probe_deps_loop :: "str \<Rightarrow> nat \<Rightarrow> lex_error + str list" where
  "probe_deps_loop rest line =
     (if rest = [] then Inr []
      else
        (case probe_dep rest line of
           Inl e \<Rightarrow> Inl e
         | Inr (name, after) \<Rightarrow>
             bind_res (probe_deps_loop (trim_start after) line) (\<lambda>ns. Inr (name # ns))))"
  by pat_completeness auto
termination
  by (relation "measure (\<lambda>(s, l). length s)")
    (auto dest: probe_dep_shorter)

declare probe_deps_loop.simps [simp del]

definition parse_probe_dep_list :: "str \<Rightarrow> nat \<Rightarrow> lex_error + str list" where
  "parse_probe_dep_list src line = probe_deps_loop (trim src) line"

section \<open>Lines\<close>

text \<open>A keyword that starts the line and is followed by a separator; \<open>quotes\<close> lets a quote be one.\<close>

definition keyword_line :: "bool \<Rightarrow> str \<Rightarrow> str \<Rightarrow> str \<Rightarrow> bool" where
  "keyword_line quotes kw line trimmed \<longleftrightarrow>
     \<not> starts_ws line \<and> starts_with kw trimmed \<and>
     first_is (\<lambda>c. c = CHR '' '' \<or> c = tab \<or> quotes \<and> c = dquote) (drop (length kw) trimmed)"

definition set_line :: "str \<Rightarrow> str \<Rightarrow> str \<Rightarrow> bool" where
  "set_line kw line trimmed \<longleftrightarrow>
     \<not> starts_ws line \<and>
     (trimmed = kw \<or>
      (case strip_prefix kw trimmed of
         None \<Rightarrow> False
       | Some rest \<Rightarrow> starts_ws rest \<or> first_is ((=) dquote) rest \<or> first_is ((=) CHR ''.'') rest))"

definition deps_after_colon :: "str \<Rightarrow> nat \<Rightarrow> lex_error + str list" where
  "deps_after_colon s line =
     (case strip_prefix '':'' s of Some t \<Rightarrow> parse_names (trim t) line | None \<Rightarrow> Inr [])"

definition lex_recipe :: "str \<Rightarrow> nat \<Rightarrow> lex_error + token" where
  "lex_recipe rest line =
     bind_res (parse_name rest line) (\<lambda>(name, after).
       if CHR ''.'' \<in> set name then
         bind_res (check_reserved_recipe_name name line) (\<lambda>_. Inl (DottedDeclaredRecipeName name line))
       else if trim_start after \<noteq> [] \<and> \<not> first_is ((=) CHR '':'') (trim_start after) then
         Inl (RecipeWithParams line name)
       else bind_res (deps_after_colon after line) (\<lambda>deps. Inr (RecipeHeader name deps)))"

definition lex_chore :: "str \<Rightarrow> nat \<Rightarrow> lex_error + token" where
  "lex_chore rest line =
     bind_res (parse_name rest line) (\<lambda>(name, after).
       if CHR ''.'' \<in> set name then
         bind_res (check_reserved_recipe_name name line) (\<lambda>_. Inl (DottedDeclaredChoreName name line))
       else
         bind_res (parse_chore_params after name line) (\<lambda>(params, after_params).
         bind_res (deps_after_colon after_params line) (\<lambda>deps. Inr (ChoreHeader name params deps))))"

definition lex_probe :: "str \<Rightarrow> nat \<Rightarrow> lex_error + token" where
  "lex_probe rest line =
     bind_res (probe_dep rest line) (\<lambda>(name, after).
       let after_name = trim_start after in
       case strip_prefix '':'' after_name of
         Some t \<Rightarrow> bind_res (parse_probe_dep_list (trim t) line) (\<lambda>deps. Inr (ProbeHeader name deps))
       | None \<Rightarrow> if after_name = [] then Inr (ProbeHeader name []) else Inl (ProbeExtraTokens name line))"

definition lex_use :: "str \<Rightarrow> nat \<Rightarrow> lex_error + token" where
  "lex_use rest line =
     bind_res (split_use_arguments rest line) (\<lambda>args.
     bind_res (classify_use_arguments args line) (\<lambda>(alias, target). Inr (UseTok alias target)))"

definition lex_import :: "str \<Rightarrow> nat \<Rightarrow> lex_error + token" where
  "lex_import rest line =
     (let (name, t) = span_of (\<lambda>c. c \<noteq> CHR '' '' \<and> c \<noteq> tab) rest in
      if t = [] \<or> trim t = [] then Inl (MissingRecipeName line) else Inr (ImportTok name (trim t)))"

text \<open>The code after an arrow, less one blank.\<close>

definition after_arrow :: "nat \<Rightarrow> str \<Rightarrow> str" where
  "after_arrow n trimmed =
     (let code = drop n trimmed in case strip_prefix '' '' code of Some c \<Rightarrow> c | None \<Rightarrow> code)"

definition lex_line :: "nat \<Rightarrow> str \<Rightarrow> lex_error + token" where
  "lex_line n line =
     (let trimmed = trim line in
      if trimmed = [] then Inr BlankTok
      else if starts_with ''#'' trimmed then Inr (CommentTok (tl trimmed))
      else if starts_with ''>>>'' trimmed then Inl (ReservedTripleArrow n)
      else if starts_with ''>>{'' trimmed then Inr InlineLuaBlockOpen
      else if starts_with ''>>'' trimmed then Inr (InlineLuaLine (after_arrow 2 trimmed))
      else if starts_with ''>{'' trimmed then Inr LuaBlockOpen
      else if starts_with ''>'' trimmed then Inr (LuaLineTok (after_arrow 1 trimmed))
      else if keyword_line True ''recipe'' line trimmed then lex_recipe (trim (drop 6 trimmed)) n
      else if keyword_line True ''chore'' line trimmed then lex_chore (trim (drop 5 trimmed)) n
      else if \<not> starts_ws line \<and> trimmed = ''config'' then Inr (ConfigHeader None)
      else if keyword_line True ''config'' line trimmed then
        bind_res (parse_name (trim (drop 6 trimmed)) n) (\<lambda>(name, _). Inr (ConfigHeader (Some name)))
      else if \<not> starts_ws line \<and> trimmed = ''register'' \<or> keyword_line False ''register'' line trimmed then
        Inr RegisterHeader
      else if set_line ''files'' line trimmed then
        bind_res (parse_set_header ''files'' (drop 5 trimmed) n) (\<lambda>name. Inr (FilesHeader name))
      else if set_line ''tools'' line trimmed then
        bind_res (parse_set_header ''tools'' (drop 5 trimmed) n) (\<lambda>name. Inr (ToolsHeader name))
      else if keyword_line True ''probe'' line trimmed then lex_probe (trim (drop 5 trimmed)) n
      else if keyword_line True ''use'' line trimmed then lex_use (trim (drop 3 trimmed)) n
      else if keyword_line False ''import'' line trimmed then lex_import (trim (drop 6 trimmed)) n
      else Inr (ContentTok trimmed))"

definition lex_located :: "nat \<times> str \<Rightarrow> lex_error + located" where
  "lex_located p =
     bind_res (lex_line (fst p) (snd p)) (\<lambda>t. Inr \<lparr>tok_value = t, tok_line = fst p\<rparr>)"

definition tokenize :: "str \<Rightarrow> lex_error + located list" where
  "tokenize source = map_res lex_located (List.enumerate 1 (str_lines source))"

end
