(* ===== verification/Quoting.thy ===== *)
theory Quoting
  imports Text_Ops
begin

text \<open>
  Placeholders in shell text (\<open>cook-contracts/src/sigil/mod.rs\<close>) and the law by which a value is quoted
  for the place it is put in (\<open>cook-contracts/src/quoting/mod.rs\<close>). Two abstract specifications stand
  beside the code: \<open>placeholder_at\<close>, the grammar of a placeholder, and \<open>sh_read\<close>, a reader of shell text
  after the quoting rules of POSIX, which marks every character it passes on as one that stands for
  itself or one the shell acts on.
\<close>

section \<open>Placeholders\<close>

record placeholder_span =
  ps_start :: nat
  ps_end :: nat
  ps_ident :: str

definition is_alpha :: "char \<Rightarrow> bool" where
  "is_alpha c \<longleftrightarrow> is_ascii_alphabetic c \<or> c = CHR ''_''"

definition is_ident_continue :: "char \<Rightarrow> bool" where
  "is_ident_continue c \<longleftrightarrow> is_ascii_alphanumeric c \<or> c \<in> set ''_.:[]-''"

text \<open>The identifier of a placeholder the text begins with, and the text after it.\<close>

fun try_match_placeholder :: "str \<Rightarrow> (str \<times> str) option" where
  "try_match_placeholder (d # l # c # r) =
     (if d = CHR ''$'' \<and> l = CHR ''<'' \<and> is_alpha c then
        (let (w, t) = span_of is_ident_continue r in
         if t \<noteq> [] \<and> hd t = CHR ''>'' then Some (c # w, tl t) else None)
      else None)"
| "try_match_placeholder _ = None"

lemma try_match_Some:
  assumes "try_match_placeholder s = Some (w, t)"
  shows "s = ''$<'' @ w @ ''>'' @ t" and "w \<noteq> []" and "is_alpha (hd w)" and "list_all is_ident_continue (tl w)"
proof -
  obtain d l c r where dr: "s = d # l # c # r" using assms by (cases s rule: try_match_placeholder.cases) simp_all
  let ?t = "dropWhile is_ident_continue r"
  have d: "d = CHR ''$''" "l = CHR ''<''" and c: "is_alpha c"
    using assms unfolding dr by (simp_all split: if_splits)
  have m: "?t \<noteq> []" "hd ?t = CHR ''>''" "w = c # takeWhile is_ident_continue r" "t = tl ?t"
    using assms d c unfolding dr by (auto simp: span_of_def Let_def split: if_splits)
  have t: "?t = CHR ''>'' # t" using m by (cases ?t) simp_all
  have s: "s = CHR ''$'' # CHR ''<'' # c # r" using d dr by simp
  have "r = takeWhile is_ident_continue r @ CHR ''>'' # t" using t by (metis takeWhile_dropWhile_id)
  then show "s = ''$<'' @ w @ ''>'' @ t" using s m(3) by simp
  show "w \<noteq> []" "is_alpha (hd w)" "list_all is_ident_continue (tl w)"
    using c m(3) by (auto simp: list_all_iff dest: set_takeWhileD)
qed

function scan_from :: "nat \<Rightarrow> str \<Rightarrow> placeholder_span list" where
  "scan_from i [] = []"
| "scan_from i (c # s) =
     (case try_match_placeholder (c # s) of
        Some (w, t) \<Rightarrow> \<lparr>ps_start = i, ps_end = i + length w + 3, ps_ident = w\<rparr> # scan_from (i + length w + 3) t
      | None \<Rightarrow> scan_from (Suc i) s)"
  by pat_completeness auto
termination
  by (relation "measure (\<lambda>(i, s). length s)") (auto dest!: arg_cong[where f = length] try_match_Some(1))

definition scan :: "str \<Rightarrow> placeholder_span list" where
  "scan text = scan_from 0 text"

section \<open>References to probe values\<close>

datatype seg = Field str | Index str

record probe_reference =
  pr_key :: str
  pr_path :: "seg list"

definition split_base :: "str \<Rightarrow> str \<times> str" where
  "split_base ident =
     (let (from, rest) = (case split_once CHR '':'' ident of
            None \<Rightarrow> ([], ident) | Some (a, b) \<Rightarrow> (a @ '':'', b));
          (w, t) = span_of (\<lambda>c. c \<noteq> CHR ''.'' \<and> c \<noteq> CHR ''['') rest
      in (from @ w, t))"

text \<open>
  The access path, over the characters of the text. \<open>alnum\<close> is \<open>char::is_alphanumeric\<close>, the tables of
  Unicode; the identifiers \<open>scan\<close> finds are ASCII.
\<close>

definition in_field :: "(str \<Rightarrow> bool) \<Rightarrow> str \<Rightarrow> bool" where
  "in_field alnum c \<longleftrightarrow> alnum c \<or> c = ''_''"

fun access_path :: "(str \<Rightarrow> bool) \<Rightarrow> nat \<Rightarrow> str list \<Rightarrow> seg list" where
  "access_path alnum 0 cs = []"
| "access_path alnum (Suc fuel) cs =
     (case cs of
        [] \<Rightarrow> []
      | c # r \<Rightarrow>
          (if c = ''.'' then
             (let name = concat (takeWhile (in_field alnum) r);
                  more_segs = access_path alnum fuel (dropWhile (in_field alnum) r)
              in if name = [] then more_segs else Field name # more_segs)
           else if c = ''['' then
             Index (concat (takeWhile (\<lambda>d. d \<noteq> '']'') r)) # access_path alnum fuel (tl (dropWhile (\<lambda>d. d \<noteq> '']'') r))
           else access_path alnum fuel r))"

definition probe_ref :: "(str \<Rightarrow> bool) \<Rightarrow> (str \<Rightarrow> bool) \<Rightarrow> str \<Rightarrow> probe_reference option" where
  "probe_ref alnum declares ident =
     (let (base, path) = split_base ident in
      if CHR '':'' \<notin> set base \<and> \<not> declares base then None
      else Some \<lparr>pr_key = base, pr_path = access_path alnum (length path) (chars_of path)\<rparr>)"

section \<open>Quoting\<close>

datatype q_ctx = QBare | QDouble | QSingle

fun tag_of :: "q_ctx \<Rightarrow> str" where
  "tag_of QBare = ''bare''"
| "tag_of QDouble = ''dquote''"
| "tag_of QSingle = ''squote''"

definition from_tag :: "str \<Rightarrow> q_ctx option" where
  "from_tag tag =
     (if tag = ''bare'' then Some QBare
      else if tag = ''dquote'' then Some QDouble
      else if tag = ''squote'' then Some QSingle
      else None)"

text \<open>One character of the classifier: inside single quotes, inside double quotes, after a backslash.\<close>

fun quote_step :: "char \<Rightarrow> bool \<times> bool \<times> bool \<Rightarrow> bool \<times> bool \<times> bool" where
  "quote_step c (sq, dq, esc) =
     (if esc then (sq, dq, False)
      else if c = backslash \<and> \<not> sq then (sq, dq, True)
      else if c = squote \<and> \<not> dq then (\<not> sq, dq, False)
      else if c = dquote \<and> \<not> sq then (sq, \<not> dq, False)
      else (sq, dq, False))"

definition quote_state :: "str \<Rightarrow> bool \<times> bool \<times> bool" where
  "quote_state prefix = fold quote_step prefix (False, False, False)"

definition quote_context :: "str \<Rightarrow> q_ctx" where
  "quote_context prefix =
     (case quote_state prefix of (sq, dq, esc) \<Rightarrow> if sq then QSingle else if dq then QDouble else QBare)"

definition shell_quote :: "str \<Rightarrow> str" where
  "shell_quote s =
     squote # concat (map (\<lambda>c. if c = squote then [squote, backslash, squote, squote] else [c]) s) @ [squote]"

definition dquote_escaped :: "char \<Rightarrow> bool" where
  "dquote_escaped c \<longleftrightarrow> c = backslash \<or> c = dquote \<or> c = CHR ''$'' \<or> c = backtick"

fun quote_for_ctx :: "str \<Rightarrow> q_ctx \<Rightarrow> str" where
  "quote_for_ctx s QDouble = concat (map (\<lambda>c. if dquote_escaped c then [backslash, c] else [c]) s)"
| "quote_for_ctx s QSingle = s"
| "quote_for_ctx s QBare = shell_quote s"

section \<open>How the shell reads a command\<close>

text \<open>
  The quoting rules of POSIX (Shell Command Language, 2.2) over a whole command, one character at a
  time. A character that is passed on stands for itself (\<open>True\<close>) or is one the shell acts on (\<open>False\<close>):
  blanks, operators, patterns, and the names of variables. Quotes and escapes are not passed on. The
  reader gives up, \<open>None\<close>, where another way of reading begins: at a command substitution, a braced or
  arithmetic expansion, a dollar quote, a comment and a here-document.
\<close>

datatype sh_place = WordStart | InWord | Escaped | AfterDollar | InName | AfterLess

type_synonym sh_state = "q_ctx \<times> sh_place"

type_synonym sh_text = "(char \<times> bool) list"

definition sh_operator :: "char \<Rightarrow> bool" where
  "sh_operator c \<longleftrightarrow> c \<in> set ''|&;>() '' \<or> c = tab \<or> c = newline"

definition sh_pattern :: "char \<Rightarrow> bool" where
  "sh_pattern c \<longleftrightarrow> c \<in> set ''*?[]~=%!{}''"

definition sh_name_char :: "char \<Rightarrow> bool" where
  "sh_name_char c \<longleftrightarrow> is_ascii_alphanumeric c \<or> c = CHR ''_''"

definition sh_special :: "char \<Rightarrow> bool" where
  "sh_special c \<longleftrightarrow> is_ascii_digit c \<or> c \<in> set ''@*#?-$!''"

text \<open>What a backslash escapes in double quotes, the line feed apart.\<close>

definition sh_dquote_escapes :: "char \<Rightarrow> bool" where
  "sh_dquote_escapes c \<longleftrightarrow> c \<in> {backslash, dquote, CHR ''$'', backtick}"

text \<open>A character where nothing is pending.\<close>

fun sh_plain :: "q_ctx \<Rightarrow> sh_place \<Rightarrow> char \<Rightarrow> (sh_state \<times> sh_text) option" where
  "sh_plain QSingle place c =
     Some (if c = squote then ((QBare, InWord), []) else ((QSingle, InWord), [(c, True)]))"
| "sh_plain QDouble place c =
     (if c = backtick then None
      else Some (if c = dquote then ((QBare, InWord), [])
        else if c = backslash then ((QDouble, Escaped), [])
        else if c = CHR ''$'' then ((QDouble, AfterDollar), [(c, False)])
        else ((QDouble, InWord), [(c, True)])))"
| "sh_plain QBare place c =
     (if c = backtick \<or> c = CHR ''#'' \<and> place = WordStart then None
      else Some (if c = squote then ((QSingle, InWord), [])
        else if c = dquote then ((QDouble, InWord), [])
        else if c = backslash then ((QBare, Escaped), [])
        else if c = CHR ''$'' then ((QBare, AfterDollar), [(c, False)])
        else if c = CHR ''<'' then ((QBare, AfterLess), [(c, False)])
        else if sh_operator c then ((QBare, WordStart), [(c, False)])
        else ((QBare, InWord), [(c, \<not> sh_pattern c)])))"

fun sh_step :: "sh_state \<Rightarrow> char \<Rightarrow> (sh_state \<times> sh_text) option" where
  "sh_step (ctx, Escaped) c =
     Some (if c = newline then ((ctx, if ctx = QBare then WordStart else InWord), [])
       else ((ctx, InWord),
         if ctx = QDouble \<and> \<not> sh_dquote_escapes c then [(backslash, True), (c, True)] else [(c, True)]))"
| "sh_step (ctx, AfterDollar) c =
     (if c \<in> set ''({['' \<or> ctx = QBare \<and> (c = squote \<or> c = dquote) then None
      else if sh_special c then Some ((ctx, InWord), [(c, False)])
      else if sh_name_char c then Some ((ctx, InName), [(c, False)])
      else sh_plain ctx InWord c)"
| "sh_step (ctx, InName) c =
     (if sh_name_char c then Some ((ctx, InName), [(c, False)]) else sh_plain ctx InWord c)"
| "sh_step (ctx, AfterLess) c = (if c = CHR ''<'' then None else sh_plain ctx WordStart c)"
| "sh_step (ctx, place) c = sh_plain ctx place c"

fun sh_read :: "sh_state \<Rightarrow> str \<Rightarrow> (sh_text \<times> sh_state) option" where
  "sh_read st [] = Some ([], st)"
| "sh_read st (c # s) =
     (case sh_step st c of
        None \<Rightarrow> None
      | Some (st', w) \<Rightarrow> map_option (\<lambda>(u, e). (w @ u, e)) (sh_read st' s))"

text \<open>Where a value may be put: not after a backslash, not after a dollar, and in double quotes not in a name.\<close>

fun takes_value :: "sh_state \<Rightarrow> bool" where
  "takes_value (QBare, place) \<longleftrightarrow> place \<noteq> Escaped \<and> place \<noteq> AfterDollar"
| "takes_value (QDouble, place) \<longleftrightarrow> place = InWord"
| "takes_value (QSingle, place) \<longleftrightarrow> place = InWord"

definition stands :: "str \<Rightarrow> sh_text" where
  "stands v = map (\<lambda>c. (c, True)) v"

section \<open>Lemmas\<close>

lemma try_match_dollar: "try_match_placeholder (c # s) \<noteq> None \<Longrightarrow> c = CHR ''$''"
  by (cases "c # s" rule: try_match_placeholder.cases) (auto split: if_splits)

lemma ident_no_dollar:
  assumes "is_alpha (hd w)" and "list_all is_ident_continue (tl w)"
  shows "CHR ''$'' \<notin> set w"
proof -
  have "\<not> is_alpha CHR ''$''" "\<not> is_ident_continue CHR ''$''" by code_simp+
  then show ?thesis using assms by (cases w) (auto simp: list_all_iff)
qed

lemma no_match_inside:
  assumes "CHR ''$'' \<notin> set u" and "k < length u"
  shows "try_match_placeholder (drop k (u @ v)) = None"
proof -
  have "drop k (u @ v) = u ! k # drop (Suc k) (u @ v)"
    using assms(2) by (metis Cons_nth_drop_Suc length_append nth_append trans_less_add1)
  moreover have "u ! k \<noteq> CHR ''$''" using assms nth_mem[OF assms(2)] by metis
  ultimately show ?thesis using try_match_dollar[of "u ! k"] by metis
qed

lemma scan_from_exact:
  "map ps_start (scan_from i s) = filter (\<lambda>k. try_match_placeholder (drop (k - i) s) \<noteq> None) [i..<i + length s]
   \<and> (\<forall>p \<in> set (scan_from i s). i \<le> ps_start p \<and>
        take (ps_end p - ps_start p) (drop (ps_start p - i) s) = ''$<'' @ ps_ident p @ ''>'')"
proof (induction i s rule: scan_from.induct)
  case (2 i c s)
  show ?case
  proof (cases "try_match_placeholder (c # s)")
    case None
    have shift: "drop (k - i) (c # s) = drop (k - Suc i) s" if "Suc i \<le> k" for k
      using that by (simp add: Suc_diff_le drop_Cons')
    let ?P = "\<lambda>k. try_match_placeholder (drop (k - i) (c # s)) \<noteq> None"
    have "[i..<i + length (c # s)] = i # [Suc i..<Suc i + length s]" by (simp add: upt_rec)
    moreover have "\<not> ?P i" using None by simp
    ultimately have "filter ?P [i..<i + length (c # s)] = filter ?P [Suc i..<Suc i + length s]"
      by (simp only: filter.simps if_False)
    also have "\<dots> = filter (\<lambda>k. try_match_placeholder (drop (k - Suc i) s) \<noteq> None) [Suc i..<Suc i + length s]"
      by (intro filter_cong refl) (simp only: set_upt atLeastLessThan_iff shift)
    finally have f: "filter ?P [i..<i + length (c # s)] = map ps_start (scan_from (Suc i) s)"
      using 2(1)[OF None] by (simp only:)
    have sc: "scan_from i (c # s) = scan_from (Suc i) s" using None by simp
    show ?thesis
      unfolding f sc using 2(1)[OF None] shift Suc_leD by fastforce
  next
    case (Some m)
    obtain w t where m: "m = (w, t)" by (cases m)
    note e = try_match_Some[OF Some[unfolded m]]
    let ?u = "CHR ''<'' # w @ [CHR ''>'']" and ?j = "i + length w + 3"
    have cs: "c # s = CHR ''$'' # ?u @ t" using e(1) by simp
    have "CHR ''$'' \<notin> set ?u" using ident_no_dollar[OF e(3,4)] by simp
    then have quiet: "try_match_placeholder (drop (k - i) (c # s)) = None" if "i < k" "k < ?j" for k
    proof -
      have "drop (k - i) (c # s) = drop (k - Suc i) (?u @ t)"
      proof -
        have "k - i = Suc (k - Suc i)" using that by simp
        then show ?thesis unfolding cs by simp
      qed
      then show ?thesis using no_match_inside[of ?u "k - Suc i" t] \<open>CHR ''$'' \<notin> set ?u\<close> that by simp
    qed
    have shift: "drop (k - i) (c # s) = drop (k - ?j) t" if "?j \<le> k" for k
    proof -
      have e: "k - i = length (CHR ''$'' # ?u) + (k - ?j)" using that by simp
      have d: "drop (length xs + n) (xs @ ys) = drop n ys" for xs ys :: str and n by simp
      show ?thesis unfolding cs e using d[of "CHR ''$'' # ?u"] by (simp only: append_Cons)
    qed
    have len: "i + length (c # s) = ?j + length t" unfolding cs by simp
    note ih = 2(2)[OF Some, OF m[symmetric]]
    let ?P = "\<lambda>k. try_match_placeholder (drop (k - i) (c # s)) \<noteq> None"
    have "[i..<i + length (c # s)] = i # [Suc i..<?j] @ [?j..<?j + length t]"
    proof -
      have "[Suc i..<?j + length t] = [Suc i..<?j] @ [?j..<?j + length t]" by (rule upt_add_eq_append) simp
      moreover have "[i..<?j + length t] = i # [Suc i..<?j + length t]" by (rule upt_conv_Cons) simp
      ultimately show ?thesis unfolding len by (simp only:)
    qed
    moreover have "filter ?P [Suc i..<?j] = []" using quiet by (simp add: filter_empty_conv)
    moreover have "filter ?P [?j..<?j + length t] = filter (\<lambda>k. try_match_placeholder (drop (k - ?j) t) \<noteq> None) [?j..<?j + length t]"
      by (intro filter_cong refl) (simp only: set_upt atLeastLessThan_iff shift)
    moreover have "?P i" using Some by simp
    ultimately have f: "filter ?P [i..<i + length (c # s)] = i # map ps_start (scan_from ?j t)"
      using ih by (simp only: filter.simps filter_append if_True append_Nil not_False_eq_True)
    have sc: "scan_from i (c # s) = \<lparr>ps_start = i, ps_end = ?j, ps_ident = w\<rparr> # scan_from ?j t"
      using Some m by simp
    have "take (?j - i) (drop (i - i) (c # s)) = ''$<'' @ w @ ''>''" unfolding cs by (simp add: numeral_3_eq_3)
    moreover have "i \<le> ps_start p \<and> take (ps_end p - ps_start p) (drop (ps_start p - i) (c # s)) = ''$<'' @ ps_ident p @ ''>''"
      if "p \<in> set (scan_from ?j t)" for p
      using ih that shift[of "ps_start p"] by auto
    ultimately show ?thesis unfolding f sc by simp
  qed
qed simp

subsection \<open>Placeholders\<close>

text \<open>
  The grammar of a placeholder: an identifier that begins with a letter or an underscore, between \<open>$<\<close>
  and \<open>>\<close>.
\<close>

definition ident_start_chars :: str where
  "ident_start_chars = ''ABCDEFGHIJKLMNOPQRSTUVWXYZ_abcdefghijklmnopqrstuvwxyz''"

definition ident_chars :: str where
  "ident_chars = ''-.0123456789:ABCDEFGHIJKLMNOPQRSTUVWXYZ[]_abcdefghijklmnopqrstuvwxyz''"

definition placeholder_at :: "str \<Rightarrow> nat \<Rightarrow> str \<Rightarrow> bool" where
  "placeholder_at text k w \<longleftrightarrow>
     (\<exists>t. drop k text = ''$<'' @ w @ ''>'' @ t) \<and> w \<noteq> [] \<and> hd w \<in> set ident_start_chars \<and> set w \<subseteq> set ident_chars"

lemma all_chars: "list_all ok (Enum.enum :: char list) \<Longrightarrow> ok c"
  using enum_UNIV[where 'a = char] by (simp add: list_all_iff)

lemma ident_start_iff: "is_alpha c \<longleftrightarrow> c \<in> set ident_start_chars"
  by (rule all_chars[of "\<lambda>c. is_alpha c \<longleftrightarrow> c \<in> set ident_start_chars"]) code_simp

lemma ident_continue_iff: "is_ident_continue c \<longleftrightarrow> c \<in> set ident_chars"
  by (rule all_chars[of "\<lambda>c. is_ident_continue c \<longleftrightarrow> c \<in> set ident_chars"]) code_simp

lemma try_match_iff:
  "try_match_placeholder s = Some (w, t)
    \<longleftrightarrow> s = ''$<'' @ w @ ''>'' @ t \<and> w \<noteq> [] \<and> is_alpha (hd w) \<and> list_all is_ident_continue (tl w)" (is "?l \<longleftrightarrow> ?r")
proof
  assume ?l
  then show ?r using try_match_Some by blast
next
  assume r: ?r
  then obtain c u where w: "w = c # u" by (cases w) auto
  have "\<not> is_ident_continue CHR ''>''" by code_simp
  then have "takeWhile is_ident_continue (u @ CHR ''>'' # t) = u" "dropWhile is_ident_continue (u @ CHR ''>'' # t) = CHR ''>'' # t"
    using r w by (simp_all add: list_all_iff)
  then show ?l using r w by (simp add: span_of_def)
qed

lemma placeholder_at_iff: "placeholder_at s k w \<longleftrightarrow> (\<exists>t. try_match_placeholder (drop k s) = Some (w, t))"
proof -
  have "is_ident_continue c" if "is_alpha c" for c
    using that by (auto simp: is_alpha_def is_ident_continue_def is_ascii_alphanumeric_def)
  then show ?thesis
    unfolding placeholder_at_def try_match_iff ident_start_iff[symmetric]
    by (cases w) (auto simp: list_all_iff ident_continue_iff[symmetric])
qed

lemma scan_from_spans:
  "(\<forall>p \<in> set (scan_from i s). i \<le> ps_start p \<and> ps_end p = ps_start p + length (ps_ident p) + 3
      \<and> placeholder_at s (ps_start p - i) (ps_ident p))
   \<and> sorted_wrt (\<lambda>p q. ps_end p \<le> ps_start q) (scan_from i s)"
proof (induction i s rule: scan_from.induct)
  case (2 i c s)
  show ?case
  proof (cases "try_match_placeholder (c # s)")
    case None
    have "placeholder_at (c # s) (k - i) w \<longleftrightarrow> placeholder_at s (k - Suc i) w" if "Suc i \<le> k" for k w
      using that by (simp add: placeholder_at_def Suc_diff_le drop_Cons')
    then show ?thesis using None 2(1)[OF None] by fastforce
  next
    case (Some m)
    obtain w t where m: "m = (w, t)" by (cases m)
    let ?j = "i + length w + 3"
    have cs: "c # s = ''$<'' @ w @ ''>'' @ t" using try_match_Some(1)[OF Some[unfolded m]] .
    have shift: "placeholder_at (c # s) (k - i) v \<longleftrightarrow> placeholder_at t (k - ?j) v" if "?j \<le> k" for k v
    proof -
      have "k - i = length (''$<'' @ w @ ''>'') + (k - ?j)" using that by simp
      moreover have "drop (length xs + n) (xs @ ys) = drop n ys" for xs ys :: str and n by simp
      ultimately have "drop (k - i) (c # s) = drop (k - ?j) t" unfolding cs by (metis append_assoc)
      then show ?thesis by (simp add: placeholder_at_def)
    qed
    have "placeholder_at (c # s) 0 w" using Some m by (simp add: placeholder_at_iff)
    then show ?thesis
      using Some m 2(2)[OF Some, OF m[symmetric]] shift by fastforce
  qed
qed simp

text \<open>
  C27: a scan finds exactly the well-formed placeholders of a text, in order and without overlap. The
  places and identifiers it gives are those at which the grammar of a placeholder matches (an
  identifier of the listed characters between \<open>$<\<close> and \<open>>\<close>); a span is as long as its identifier with
  the three characters around it; and each span ends before the next begins.
\<close>

theorem placeholders_exact:
  "(\<lambda>p. (ps_start p, ps_ident p)) ` set (scan text) = {(k, w). placeholder_at text k w}
   \<and> (\<forall>p \<in> set (scan text). ps_end p = ps_start p + length (ps_ident p) + 3)
   \<and> sorted_wrt (\<lambda>p q. ps_end p \<le> ps_start q) (scan text)"
proof -
  note spans = scan_from_spans[of 0 "text", folded scan_def]
  have "(k, w) \<in> (\<lambda>p. (ps_start p, ps_ident p)) ` set (scan text)" if at: "placeholder_at text k w" for k w
  proof -
    obtain t where t: "try_match_placeholder (drop k text) = Some (w, t)" using at by (auto simp: placeholder_at_iff)
    have "k < length text" using t by (cases "k < length text") simp_all
    then have "k \<in> set (map ps_start (scan text))"
      unfolding scan_def using scan_from_exact[of 0 "text"] t by simp
    then obtain p where p: "p \<in> set (scan text)" "ps_start p = k" by auto
    then have "placeholder_at text k (ps_ident p)" using spans by auto
    then show ?thesis using p t by (force simp: placeholder_at_iff)
  qed
  then show ?thesis using spans by auto
qed

lemma placeholders_exact_witness:
  "map (\<lambda>p. (ps_start p, ps_end p, ps_ident p)) (scan ''cp $<in> $<a b> $<lib:x.y[2]>$<o-ut>'')
     = [(3, 8, ''in''), (16, 29, ''lib:x.y[2]''), (29, 36, ''o-ut'')]
   \<and> placeholder_at ''cp $<in> $<a b> $<lib:x.y[2]>$<o-ut>'' 29 ''o-ut''
   \<and> \<not> placeholder_at ''cp $<in> $<a b> $<lib:x.y[2]>$<o-ut>'' 9 ''a b''"
proof -
  let ?t = "''cp $<in> $<a b> $<lib:x.y[2]>$<o-ut>''"
  have s: "map (\<lambda>p. (ps_start p, ps_end p, ps_ident p)) (scan ?t) = [(3, 8, ''in''), (16, 29, ''lib:x.y[2]''), (29, 36, ''o-ut'')]"
    by code_simp
  have "(\<lambda>p. (ps_start p, ps_ident p)) ` set (scan ?t) = (\<lambda>(a, b, c). (a, c)) ` set (map (\<lambda>p. (ps_start p, ps_end p, ps_ident p)) (scan ?t))"
    by force
  then have "{(k, w). placeholder_at ?t k w} = {(3, ''in''), (16, ''lib:x.y[2]''), (29, ''o-ut'')}"
    using placeholders_exact[of ?t] unfolding s by simp
  then have "placeholder_at ?t k w \<longleftrightarrow> (k, w) \<in> {(3, ''in''), (16, ''lib:x.y[2]''), (29, ''o-ut'')}" for k w by blast
  then show ?thesis using s by simp
qed

subsection \<open>Quoting\<close>

fun state_of :: "sh_state \<Rightarrow> bool \<times> bool \<times> bool" where
  "state_of (ctx, place) = (ctx = QSingle, ctx = QDouble, place = Escaped)"

lemma sh_plain_classified:
  "sh_plain ctx place c = Some (st, w) \<Longrightarrow> quote_step c (ctx = QSingle, ctx = QDouble, False) = state_of st"
  by (induction ctx place c rule: sh_plain.induct) (auto split: if_splits)

lemma sh_quiet:
  "sh_special c \<Longrightarrow> quote_step c (a, b, False) = (a, b, False)" "sh_name_char c \<Longrightarrow> quote_step c (a, b, False) = (a, b, False)"
  by (auto simp: sh_special_def sh_name_char_def char_class_defs)

lemma sh_step_classified: "sh_step st c = Some (st', w) \<Longrightarrow> quote_step c (state_of st) = state_of st'"
proof -
  assume a: "sh_step st c = Some (st', w)"
  obtain ctx place where st: "st = (ctx, place)" by fastforce
  show ?thesis
  proof (cases place)
    case Escaped
    then show ?thesis using a st by (cases "c = newline") auto
  next
    case AfterDollar
    then show ?thesis using a st sh_plain_classified[of ctx InWord c st' w] sh_quiet[of c]
      by (auto simp del: quote_step.simps split: if_splits)
  next
    case InName
    then show ?thesis using a st sh_plain_classified[of ctx InWord c st' w] sh_quiet[of c]
      by (auto simp del: quote_step.simps split: if_splits)
  next
    case AfterLess
    then show ?thesis using a st sh_plain_classified[of ctx WordStart c st' w]
      by (auto simp del: quote_step.simps split: if_splits)
  qed (use a st sh_plain_classified[of ctx place c st' w] in \<open>simp_all del: quote_step.simps\<close>)
qed

lemma sh_read_classified: "sh_read st s = Some (w, e) \<Longrightarrow> fold quote_step s (state_of st) = state_of e"
  by (induction st s arbitrary: w rule: sh_read.induct)
    (auto split: option.splits simp: sh_step_classified simp del: state_of.simps quote_step.simps)

lemma quote_context_reads: "sh_read (QBare, WordStart) p = Some (w, e) \<Longrightarrow> quote_context p = fst e"
  using sh_read_classified[of "(QBare, WordStart)" p w e]
  by (cases e; cases "fst e") (simp_all add: quote_context_def quote_state_def)

lemma sh_read_append:
  "sh_read st a = Some (w, e) \<Longrightarrow> sh_read st (a @ b) = map_option (\<lambda>(u, e'). (w @ u, e')) (sh_read e b)"
proof (induction st a arbitrary: w rule: sh_read.induct)
  case (1 st)
  then show ?case by (simp add: option.map_ident case_prod_unfold)
next
  case (2 st c s)
  then show ?case by (auto split: option.splits simp: option.map_comp o_def case_prod_unfold)
qed

lemma stands_simps [simp]: "stands [] = []" "stands (c # v) = (c, True) # stands v"
  by (simp_all add: stands_def)

lemma read_single: "squote \<notin> set v \<Longrightarrow> sh_read (QSingle, InWord) v = Some (stands v, (QSingle, InWord))"
  by (induction v) auto

lemma read_shell_quote:
  "sh_read (QSingle, InWord) (concat (map (\<lambda>c. if c = squote then [squote, backslash, squote, squote] else [c]) v) @ [squote])
    = Some (stands v, (QBare, InWord))"
  by (induction v) simp_all

lemma read_double:
  "sh_read (QDouble, InWord) (concat (map (\<lambda>c. if dquote_escaped c then [backslash, c] else [c]) v))
    = Some (stands v, (QDouble, InWord))"
  by (induction v) (auto simp: dquote_escaped_def sh_dquote_escapes_def)

lemma quoted_reads:
  assumes "takes_value (ctx, place)" and "ctx = QSingle \<Longrightarrow> squote \<notin> set v"
  shows "sh_read (ctx, place) (quote_for_ctx v ctx) = Some (stands v, (ctx, InWord))"
proof (cases ctx)
  case QBare
  have "sh_step (QBare, place) squote = Some ((QSingle, InWord), [])"
    using assms(1) QBare by (cases place) (simp_all add: sh_name_char_def char_class_defs)
  then show ?thesis using QBare by (simp add: shell_quote_def read_shell_quote)
next
  case QDouble
  then show ?thesis using assms(1) read_double by simp
next
  case QSingle
  then show ?thesis using assms read_single by simp
qed

text \<open>
  C26: a value that is quoted for the place of its placeholder reaches the shell as it is. Let the command
  before the placeholder be text the reader gets through (it may hold words, quotes, escapes,
  variables, operators, redirections and patterns, but no substitution, braced expansion,
  here-document or comment) and let it not end in a backslash or a dollar, nor, in double quotes, in
  the name of a variable; and where the placeholder stands in single quotes let the value have none.
  Then the classifier finds the quotes the placeholder stands in, each character of the value is passed
  on as one that stands for itself, and the text after it is read in the same quotes, inside a word.
\<close>

theorem quoted_value_literal:
  assumes "sh_read (QBare, WordStart) prefix = Some (w, e)" and "takes_value e" and "fst e = QSingle \<Longrightarrow> squote \<notin> set v"
  shows "quote_context prefix = fst e
    \<and> sh_read (QBare, WordStart) (prefix @ quote_for_ctx v (quote_context prefix) @ rest)
        = map_option (\<lambda>(u, e'). (w @ stands v @ u, e')) (sh_read (fst e, InWord) rest)"
proof -
  have q: "quote_context prefix = fst e" by (rule quote_context_reads[OF assms(1)])
  have "sh_read (fst e, snd e) (quote_for_ctx v (fst e)) = Some (stands v, (fst e, InWord))"
    by (rule quoted_reads) (use assms(2,3) in simp_all)
  from sh_read_append[OF this, of rest] show ?thesis
    unfolding q using sh_read_append[OF assms(1), of "quote_for_ctx v (fst e) @ rest"]
    by (simp add: option.map_comp o_def case_prod_unfold)
qed

lemma read_found:
  assumes "map_option (\<lambda>(w, e). (plain w, e)) r = Some (u, e)"
  obtains w where "r = Some (w, e)" "plain w = u"
  using assms that by auto

text \<open>In a command with blanks, a variable and a redirection before the placeholder.\<close>

lemma quoted_value_literal_witness:
  "quote_context (''CC=gcc make -C $DIR > log '' @ [dquote] @ ''x '') = QDouble
   \<and> map_option (map fst \<circ> filter snd \<circ> fst)
       (sh_read (QBare, WordStart) ((''CC=gcc make -C $DIR > log '' @ [dquote] @ ''x '') @ quote_for_ctx ''$(y); z'' QDouble @ [dquote]))
     = Some (''CCgccmake-Clogx $(y); z'')"
proof -
  let ?p = "''CC=gcc make -C $DIR > log '' @ [dquote] @ ''x ''"
  have "map_option (\<lambda>(w, e). (map fst (filter snd w), e)) (sh_read (QBare, WordStart) ?p) = Some (''CCgccmake-Clogx '', (QDouble, InWord))"
    by code_simp
  then obtain w where p: "sh_read (QBare, WordStart) ?p = Some (w, (QDouble, InWord))" "map fst (filter snd w) = ''CCgccmake-Clogx ''"
    by (rule read_found)
  have r: "sh_read (QDouble, InWord) [dquote] = Some ([], (QBare, InWord))" by code_simp
  have q: "quote_context ?p = QDouble" by code_simp
  have v: "map fst (filter snd (stands ''$(y); z'')) = ''$(y); z''" by (simp add: stands_def)
  from quoted_value_literal[OF p(1), of "''$(y); z''" "[dquote]"]
  have "sh_read (QBare, WordStart) (?p @ quote_for_ctx ''$(y); z'' QDouble @ [dquote])
      = map_option (\<lambda>(u, e'). (w @ stands ''$(y); z'' @ u, e')) (Some ([], (QBare, InWord)))"
    unfolding q fst_conv r by simp
  then show ?thesis using q p(2) v by simp
qed

text \<open>
  Each hypothesis is needed. After a backslash the opening quote is itself escaped, and the value is
  read by the shell as commands; in double quotes a value after a dollar or in a name is taken for the
  name of a variable, or the rest of one, and expanded; in single quotes a quote in the value ends them.
\<close>

lemma escaped_placeholder_exposes_value:
  "quote_context [backslash] = QBare
   \<and> [backslash] @ quote_for_ctx '';reboot;'' QBare = [backslash, squote] @ '';reboot;'' @ [squote]
   \<and> map_option fst (sh_read (QBare, WordStart) ([backslash, squote] @ '';reboot;''))
       = Some ([(squote, True), (CHR '';'', False)] @ stands ''reboot'' @ [(CHR '';'', False)])"
  by code_simp

lemma name_swallows_value:
  "quote_context ([dquote] @ ''price: $'') = QDouble \<and> quote_for_ctx ''HOME'' QDouble = ''HOME''
   \<and> map_option fst (sh_read (QBare, WordStart) ([dquote] @ ''price: $'' @ ''HOME'' @ [dquote]))
       = Some (stands ''price: '' @ map (\<lambda>c. (c, False)) ''$HOME'')"
  by code_simp

lemma single_quotes_end_in_value:
  "quote_context [squote] = QSingle
   \<and> map_option fst (sh_read (QBare, WordStart) ([squote] @ quote_for_ctx ([squote] @ '';reboot;'' @ [squote]) QSingle @ [squote]))
       = Some ([(CHR '';'', False)] @ stands ''reboot'' @ [(CHR '';'', False)])"
  by code_simp

end
