(* ===== verification/Brace_Scan.thy ===== *)
theory Brace_Scan
  imports Quoting
begin

text \<open>
  The brace scanners of the parser (\<open>cook-lang/src/brace\_scan.rs\<close>) and the collection of the blocks
  they delimit (\<open>lua\_block.rs\<close>, \<open>shell\_block.rs\<close>). A scanner walks over one line after the other and
  carries what a line leaves open to the next: a long bracket of Lua, a quote or here-documents of the
  shell. The scan of a line is a recursion over the bytes that are left of it; \<open>n\<close> is the length of
  the line, so that \<open>n\<close> minus what is left is the index of the current byte.
\<close>

section \<open>Lua\<close>

text \<open>An opening long bracket at the start of a text, with its level, and the text after it.\<close>

definition match_open_long_bracket :: "str \<Rightarrow> (nat \<times> str) option" where
  "match_open_long_bracket s =
     (if s \<noteq> [] \<and> hd s = CHR ''['' then
        (let (e, t) = span_of ((=) CHR ''='') (tl s)
         in if t \<noteq> [] \<and> hd t = CHR ''['' then Some (length e, tl t) else None)
      else None)"

definition match_close_long_bracket :: "nat \<Rightarrow> str \<Rightarrow> str option" where
  "match_close_long_bracket level s =
     (if s \<noteq> [] \<and> hd s = CHR '']'' then
        (let (e, t) = span_of ((=) CHR ''='') (tl s)
         in if length e = level \<and> t \<noteq> [] \<and> hd t = CHR '']'' then Some (tl t) else None)
      else None)"

text \<open>What follows a string whose opening quote is behind; an open string ends with the line.\<close>

fun skip_string :: "char \<Rightarrow> str \<Rightarrow> str" where
  "skip_string q [] = []"
| "skip_string q [c] = []"
| "skip_string q (c # d # s) =
     (if c = q then d # s else if c = backslash then skip_string q s else skip_string q (d # s))"

lemma dropWhile_pred [simp]: "length (dropWhile ok xs) - Suc 0 \<le> length xs"
  using length_dropWhile_le[of ok xs] by simp

lemma open_long_shorter: "match_open_long_bracket s = Some (l, t) \<Longrightarrow> length t < length s"
  by (cases s)
    (auto simp: match_open_long_bracket_def span_of_def Let_def less_Suc_eq_le split: if_splits)

lemma close_long_shorter: "match_close_long_bracket l s = Some t \<Longrightarrow> length t < length s"
  by (cases s)
    (auto simp: match_close_long_bracket_def span_of_def Let_def less_Suc_eq_le split: if_splits)

lemma skip_string_length: "length (skip_string q s) \<le> length s"
  by (induction q s rule: skip_string.induct) auto

function lua_scan :: "bool \<Rightarrow> nat \<Rightarrow> str \<Rightarrow> nat option \<Rightarrow> int \<Rightarrow> nat option \<times> int \<times> nat option" where
  "lua_scan stop n [] st depth = (st, depth, None)"
| "lua_scan stop n (c # s) (Some level) depth =
     (case match_close_long_bracket level (c # s) of
        Some t \<Rightarrow> lua_scan stop n t None depth
      | None \<Rightarrow> lua_scan stop n s (Some level) depth)"
| "lua_scan stop n (c # s) None depth =
     (if c = CHR ''-'' \<and> s \<noteq> [] \<and> hd s = CHR ''-'' then
        (case match_open_long_bracket (tl s) of
           Some (level, t) \<Rightarrow> lua_scan stop n t (Some level) depth
         | None \<Rightarrow> (None, depth, None))
      else
        (case match_open_long_bracket (c # s) of
           Some (level, t) \<Rightarrow> lua_scan stop n t (Some level) depth
         | None \<Rightarrow>
             if c = dquote \<or> c = squote then lua_scan stop n (skip_string c s) None depth
             else if c = CHR ''{'' then lua_scan stop n s None (depth + 1)
             else if c = CHR ''}'' then
               (if stop \<and> depth - 1 = 0 then (None, depth - 1, Some (n - length (c # s)))
                else lua_scan stop n s None (depth - 1))
             else lua_scan stop n s None depth))"
  by pat_completeness auto
termination
  by (relation "measure (\<lambda>(stop, n, s, st, depth). length s)")
    (auto simp: less_Suc_eq_le skip_string_length neq_Nil_conv dest: close_long_shorter open_long_shorter)

definition lua_scan_line :: "nat option \<Rightarrow> str \<Rightarrow> nat option \<times> int" where
  "lua_scan_line st line = (case lua_scan False (length line) line st 0 of (st', depth, _) \<Rightarrow> (st', depth))"

definition lua_scan_to_close :: "nat option \<Rightarrow> str \<Rightarrow> int \<Rightarrow> nat option \<times> int \<times> nat option" where
  "lua_scan_to_close st line depth = lua_scan True (length line) line st depth"

section \<open>Shell\<close>

text \<open>Here-documents not closed yet, in order, and the quote an earlier line left open.\<close>

record shell_scanner =
  pending_heredocs :: "(str \<times> bool) list"
  in_quote :: "char option"

definition shell_scanner_new :: shell_scanner where
  "shell_scanner_new = \<lparr>pending_heredocs = [], in_quote = None\<rparr>"

definition is_shell_word_break :: "char \<Rightarrow> bool" where
  "is_shell_word_break c \<longleftrightarrow> c \<in> set '' ;&|()'' \<or> c = tab"

definition is_bare_delim_char :: "char \<Rightarrow> bool" where
  "is_bare_delim_char c \<longleftrightarrow> is_ascii_alphanumeric c \<or> c = CHR ''_''"

definition read_heredoc_delim :: "str \<Rightarrow> (str \<times> str) option" where
  "read_heredoc_delim s =
     (case s of
        [] \<Rightarrow> None
      | c # r \<Rightarrow>
          if c = squote \<or> c = dquote then
            map_option (\<lambda>(w, t). (from_utf8_lossy w, t)) (split_once c r)
          else if is_bare_delim_char c then
            (let (w, t) = span_of is_bare_delim_char s in Some (from_utf8_lossy w, t))
          else None)"

text \<open>A here-document introduced at the start of a text: its delimiter, the \<open>-\<close>, and the text after it.\<close>

definition match_heredoc :: "str \<Rightarrow> (str \<times> bool \<times> str) option" where
  "match_heredoc s =
     (case strip_prefix ''<<'' s of
        None \<Rightarrow> None
      | Some r \<Rightarrow>
          (let (tabbed, r') = (case strip_prefix ''-'' r of Some t \<Rightarrow> (True, t) | None \<Rightarrow> (False, r));
               u = dropWhile (\<lambda>c. c = CHR '' '' \<or> c = tab) r'
           in map_option (\<lambda>(w, t). (w, tabbed, t)) (read_heredoc_delim u)))"

lemma read_heredoc_shorter: "read_heredoc_delim s = Some (w, t) \<Longrightarrow> length t < length s"
proof (cases s)
  case (Cons c r)
  assume a: "read_heredoc_delim s = Some (w, t)"
  show ?thesis
  proof (cases "c = squote \<or> c = dquote")
    case True
    then obtain w' where "split_once c r = Some (w', t)" using a Cons by (auto simp: read_heredoc_delim_def)
    then show ?thesis using Cons by (simp add: split_once_Some)
  next
    case False
    then have "is_bare_delim_char c" and "t = dropWhile is_bare_delim_char s"
      using a Cons by (auto simp: read_heredoc_delim_def span_of_def split: if_splits)
    then show ?thesis using Cons by (simp add: less_Suc_eq_le length_dropWhile_le)
  qed
qed (simp add: read_heredoc_delim_def)

lemma match_heredoc_shorter: "match_heredoc s = Some (w, b, t) \<Longrightarrow> length t < length s"
proof -
  assume a: "match_heredoc s = Some (w, b, t)"
  then obtain r where r: "s = ''<<'' @ r" by (auto simp: match_heredoc_def strip_prefix_iff split: option.splits)
  let ?ws = "\<lambda>c. c = CHR '' '' \<or> c = tab"
  have "\<exists>r'. length r' \<le> length r \<and> read_heredoc_delim (dropWhile ?ws r') = Some (w, t)"
  proof (cases "strip_prefix ''-'' r")
    case None
    then show ?thesis using a r by (auto simp: match_heredoc_def)
  next
    case (Some r')
    then have "length r' \<le> length r" by (simp only: strip_prefix_iff) simp
    then show ?thesis using a r Some by (auto simp: match_heredoc_def)
  qed
  then obtain r' where r': "length r' \<le> length r" "read_heredoc_delim (dropWhile ?ws r') = Some (w, t)" by blast
  then show ?thesis
    using read_heredoc_shorter[OF r'(2)] r length_dropWhile_le[of ?ws r'] by simp
qed

text \<open>\<open>prev\<close> is the byte before the current one.\<close>

function shell_scan ::
  "bool \<Rightarrow> nat \<Rightarrow> char option \<Rightarrow> str \<Rightarrow> shell_scanner \<Rightarrow> int \<Rightarrow> shell_scanner \<times> int \<times> nat option" where
  "shell_scan stop n prev [] st depth = (st, depth, None)"
| "shell_scan stop n prev (c # s) st depth =
     (case in_quote st of
        Some q \<Rightarrow>
          if q = dquote \<and> c = backslash \<and> s \<noteq> [] then shell_scan stop n (Some (hd s)) (tl s) st depth
          else if c = q then shell_scan stop n (Some c) s (st\<lparr>in_quote := None\<rparr>) depth
          else shell_scan stop n (Some c) s st depth
      | None \<Rightarrow>
          if c = CHR ''#'' \<and> (case prev of None \<Rightarrow> True | Some p \<Rightarrow> is_shell_word_break p) then (st, depth, None)
          else if c = squote \<or> c = dquote then shell_scan stop n (Some c) s (st\<lparr>in_quote := Some c\<rparr>) depth
          else
            (case match_heredoc (c # s) of
               Some (delim, tabbed, t) \<Rightarrow>
                 shell_scan stop n (Some (last (take (length (c # s) - length t) (c # s)))) t
                   (st\<lparr>pending_heredocs := pending_heredocs st @ [(delim, tabbed)]\<rparr>) depth
             | None \<Rightarrow>
                 if c = backslash \<and> s \<noteq> [] then shell_scan stop n (Some (hd s)) (tl s) st depth
                 else if c = CHR ''{'' then shell_scan stop n (Some c) s st (depth + 1)
                 else if c = CHR ''}'' then
                   (if stop \<and> depth - 1 = 0 then (st, depth - 1, Some (n - length (c # s)))
                    else shell_scan stop n (Some c) s st (depth - 1))
                 else shell_scan stop n (Some c) s st depth))"
  by pat_completeness auto
termination
  by (relation "measure (\<lambda>(stop, n, prev, s, st, depth). length s)")
    (auto simp: neq_Nil_conv dest: match_heredoc_shorter)

definition shell_scan_impl :: "bool \<Rightarrow> shell_scanner \<Rightarrow> str \<Rightarrow> int \<Rightarrow> shell_scanner \<times> int \<times> nat option" where
  "shell_scan_impl stop st line depth =
     (case pending_heredocs st of
        (delim, tabbed) # rest \<Rightarrow>
          (if trim line = delim then st\<lparr>pending_heredocs := rest\<rparr> else st, depth, None)
      | [] \<Rightarrow> shell_scan stop (length line) None line st depth)"

definition shell_scan_to_close :: "shell_scanner \<Rightarrow> str \<Rightarrow> int \<Rightarrow> shell_scanner \<times> int \<times> nat option" where
  "shell_scan_to_close st line depth = shell_scan_impl True st line depth"

subsection \<open>The context of a placeholder in a shell body\<close>

fun context_scan :: "char option \<Rightarrow> bool \<Rightarrow> char option \<Rightarrow> str \<Rightarrow> char option option" where
  "context_scan prev escaped q [] = Some q"
| "context_scan prev escaped q (c # s) =
     (if escaped then context_scan (Some c) False q s
      else if c = backslash \<and> q \<noteq> Some squote then context_scan (Some c) True q s
      else if c = CHR ''#'' \<and> q = None \<and> (case prev of None \<Rightarrow> True | Some p \<Rightarrow> is_shell_word_break p) then None
      else if c = squote \<and> q \<noteq> Some dquote then
        context_scan (Some c) False (if q = Some squote then None else Some squote) s
      else if c = dquote \<and> q \<noteq> Some squote then
        context_scan (Some c) False (if q = Some dquote then None else Some dquote) s
      else context_scan (Some c) False q s)"

definition shell_context :: "str \<Rightarrow> char option \<Rightarrow> q_ctx option" where
  "shell_context prefix q =
     map_option (\<lambda>e. if e = Some squote then QSingle else if e = Some dquote then QDouble else QBare)
       (context_scan None False q prefix)"

fun placeholder_contexts_from :: "shell_scanner \<Rightarrow> str list \<Rightarrow> (str \<times> q_ctx) list" where
  "placeholder_contexts_from st [] = []"
| "placeholder_contexts_from st (line # rest) =
     (if pending_heredocs st = []
      then List.map_filter (\<lambda>p. map_option (Pair (ps_ident p)) (shell_context (take (ps_start p) line) (in_quote st)))
             (scan line)
      else [])
     @ placeholder_contexts_from (fst (shell_scan_impl False st line 1)) rest"

definition shell_placeholder_contexts :: "str list \<Rightarrow> (str \<times> q_ctx) list" where
  "shell_placeholder_contexts ls = placeholder_contexts_from shell_scanner_new ls"

section \<open>Where a Lua block closes\<close>

text \<open>What an opening, a closing bracket or a string has consumed does not depend on what follows it.\<close>

lemma open_long_iff:
  "match_open_long_bracket s = Some (l, t) \<longleftrightarrow> s = CHR ''['' # replicate l CHR ''='' @ CHR ''['' # t"
proof
  assume a: "match_open_long_bracket s = Some (l, t)"
  then obtain r where s: "s = CHR ''['' # r" by (cases s) (auto simp: match_open_long_bracket_def split: if_splits)
  let ?t = "dropWhile ((=) CHR ''='') r" and ?e = "takeWhile ((=) CHR ''='') r"
  have t: "?t = CHR ''['' # t" "l = length ?e"
    using a unfolding s
    by (auto simp: match_open_long_bracket_def span_of_def Let_def split: if_splits) (cases ?t; simp)+
  have "?e = replicate l CHR ''=''" unfolding t(2) by (intro replicate_eqI) (auto dest: set_takeWhileD)
  then show "s = CHR ''['' # replicate l CHR ''='' @ CHR ''['' # t"
    using takeWhile_dropWhile_id[of "(=) CHR ''=''" r] s t by simp
next
  assume "s = CHR ''['' # replicate l CHR ''='' @ CHR ''['' # t"
  moreover have "takeWhile ((=) CHR ''='') (replicate l CHR ''='' @ CHR ''['' # t) = replicate l CHR ''=''"
    "dropWhile ((=) CHR ''='') (replicate l CHR ''='' @ CHR ''['' # t) = CHR ''['' # t" by (induction l) simp_all
  ultimately show "match_open_long_bracket s = Some (l, t)"
    by (simp add: match_open_long_bracket_def span_of_def)
qed

lemma close_long_iff:
  "match_close_long_bracket l s = Some t \<longleftrightarrow> s = CHR '']'' # replicate l CHR ''='' @ CHR '']'' # t"
proof
  assume a: "match_close_long_bracket l s = Some t"
  then obtain r where s: "s = CHR '']'' # r" by (cases s) (auto simp: match_close_long_bracket_def split: if_splits)
  let ?t = "dropWhile ((=) CHR ''='') r" and ?e = "takeWhile ((=) CHR ''='') r"
  have t: "?t = CHR '']'' # t" "l = length ?e"
    using a unfolding s
    by (auto simp: match_close_long_bracket_def span_of_def Let_def split: if_splits) (cases ?t; simp)+
  have "?e = replicate l CHR ''=''" unfolding t(2) by (intro replicate_eqI) (auto dest: set_takeWhileD)
  then show "s = CHR '']'' # replicate l CHR ''='' @ CHR '']'' # t"
    using takeWhile_dropWhile_id[of "(=) CHR ''=''" r] s t by simp
next
  assume "s = CHR '']'' # replicate l CHR ''='' @ CHR '']'' # t"
  moreover have "takeWhile ((=) CHR ''='') (replicate l CHR ''='' @ CHR '']'' # t) = replicate l CHR ''=''"
    "dropWhile ((=) CHR ''='') (replicate l CHR ''='' @ CHR '']'' # t) = CHR '']'' # t" by (induction l) simp_all
  ultimately show "match_close_long_bracket l s = Some t"
    by (simp add: match_close_long_bracket_def span_of_def)
qed

lemma open_long_prefix: "match_open_long_bracket (u @ v) = None \<Longrightarrow> match_open_long_bracket u = None"
  by (cases "match_open_long_bracket u") (auto simp: open_long_iff, metis append_Cons append_assoc open_long_iff option.distinct(1))

lemma close_long_prefix: "match_close_long_bracket l (u @ v) = None \<Longrightarrow> match_close_long_bracket l u = None"
  by (cases "match_close_long_bracket l u") (auto simp: close_long_iff, metis append_Cons append_assoc close_long_iff option.distinct(1))

lemma skip_string_cut:
  "skip_string q s = t \<Longrightarrow> t \<noteq> [] \<Longrightarrow> \<exists>u. s = u @ t \<and> (\<forall>w. skip_string q (u @ w) = w)"
proof (induction q s rule: skip_string.induct)
  case (3 q c d s)
  show ?case
  proof (cases "c = q")
    case True
    have "\<forall>w. skip_string q ([q] @ w) = w"
    proof
      fix w show "skip_string q ([q] @ w) = w" by (cases w) simp_all
    qed
    then show ?thesis using 3(3) True by (intro exI[of _ "[q]"]) simp
  next
    case False
    show ?thesis
    proof (cases "c = backslash")
      case True
      then obtain u where u: "s = u @ t" "\<forall>w. skip_string q (u @ w) = w" using 3 False by auto
      then show ?thesis using True False by (intro exI[of _ "c # d # u"]) simp
    next
      case bs: False
      then obtain u where u: "d # s = u @ t" "\<forall>w. skip_string q (u @ w) = w" using 3 False by auto
      have "skip_string q ((c # u) @ w) = w" for w
        using u False bs by (cases u; cases w) (force dest: spec[of _ w])+
      then show ?thesis using u by (intro exI[of _ "c # u"]) simp
    qed
  qed
qed simp_all

text \<open>
  \<open>closes_after st d u\<close>: scanning \<open>u\<close> does not close the block, and leaves it with one brace open and
  outside of brackets and strings.
\<close>

definition closes_after :: "nat option \<Rightarrow> int \<Rightarrow> str \<Rightarrow> bool" where
  "closes_after st depth u \<longleftrightarrow> (\<forall>stop n. lua_scan stop n u st depth = (None, 1, None))"

lemma closes_after_step:
  assumes "\<And>stop n. lua_scan stop n u st depth = lua_scan stop n u' st' depth'" and "closes_after st' depth' u'"
  shows "closes_after st depth u"
  using assms by (simp add: closes_after_def)

lemma lua_scan_close:
  "lua_scan stop n s st depth = (st', d', Some k) \<Longrightarrow>
     stop \<and> (\<exists>u v. s = u @ CHR ''}'' # v \<and> k = n - Suc (length v) \<and> st' = None \<and> d' = 0 \<and> closes_after st depth u)"
proof (induction stop n s st depth rule: lua_scan.induct)
  case (1 stop n st depth)
  then show ?case by simp
next
  case (2 stop n c s level depth)
  show ?case
  proof (cases "match_close_long_bracket level (c # s)")
    case (Some t)
    then obtain u v where sp: "stop" and uv: "t = u @ CHR ''}'' # v" "k = n - Suc (length v)" "st' = None" "d' = 0" "closes_after None depth u"
      using 2(2)[OF Some] 2(3) by auto
    let ?p = "CHR '']'' # replicate level CHR ''='' @ [CHR '']'']"
    have e: "c # s = ?p @ t" using Some by (simp add: close_long_iff)
    have "match_close_long_bracket level (?p @ u) = Some u" by (simp add: close_long_iff)
    then have "closes_after (Some level) depth (?p @ u)"
      by (intro closes_after_step[OF _ uv(5)]) simp
    then show ?thesis using e uv sp by (intro conjI exI[of _ "?p @ u"] exI[of _ v]) simp_all
  next
    case None
    then obtain u v where sp: "stop" and uv: "s = u @ CHR ''}'' # v" "k = n - Suc (length v)" "st' = None" "d' = 0"
      "closes_after (Some level) depth u"
      using 2(1)[OF None] 2(3) by auto
    have "match_close_long_bracket level (c # u) = None"
      using close_long_prefix[of level "c # u" "CHR ''}'' # v"] None uv(1) by simp
    then have "closes_after (Some level) depth (c # u)" by (intro closes_after_step[OF _ uv(5)]) simp
    then show ?thesis using uv sp by (intro conjI exI[of _ "c # u"] exI[of _ v]) simp_all
  qed
next
  case (3 stop n c s depth)
  consider (dash) "c = CHR ''-''" "s \<noteq> []" "hd s = CHR ''-''"
    | (other) "\<not> (c = CHR ''-'' \<and> s \<noteq> [] \<and> hd s = CHR ''-'')"
    by blast
  then show ?case
  proof cases
    case dash
    then obtain l t where o: "match_open_long_bracket (tl s) = Some (l, t)"
      and r: "lua_scan stop n t (Some l) depth = (st', d', Some k)"
      using 3(7) by (auto split: option.splits)
    obtain u v where sp: "stop" and uv: "t = u @ CHR ''}'' # v" "k = n - Suc (length v)" "st' = None" "d' = 0" "closes_after (Some l) depth u"
      using 3(1)[OF _ o refl r] dash by auto
    let ?p = "''--'' @ CHR ''['' # replicate l CHR ''='' @ [CHR ''['']"
    have e: "c # s = ?p @ t" using o dash by (cases s) (simp_all add: open_long_iff)
    have "match_open_long_bracket (CHR ''['' # replicate l CHR ''='' @ CHR ''['' # u) = Some (l, u)" by (simp add: open_long_iff)
    then have "closes_after None depth (?p @ u)" by (intro closes_after_step[OF _ uv(5)]) simp
    then show ?thesis using e uv sp by (intro conjI exI[of _ "?p @ u"] exI[of _ v]) simp_all
  next
    case other
    have nd: "\<not> (c = CHR ''-'' \<and> u \<noteq> [] \<and> hd u = CHR ''-'')" if "s = u @ w" for u w
      using other that by (cases u) auto
    show ?thesis
    proof (cases "match_open_long_bracket (c # s)")
      case (Some lt)
      obtain l t where o: "match_open_long_bracket (c # s) = Some (l, t)" using Some by (cases lt) simp
      have r: "lua_scan stop n t (Some l) depth = (st', d', Some k)" using 3(7) other o by simp
      obtain u v where sp: "stop" and uv: "t = u @ CHR ''}'' # v" "k = n - Suc (length v)" "st' = None" "d' = 0" "closes_after (Some l) depth u"
        using 3(6)[OF other o refl r] by auto
      let ?p = "CHR ''['' # replicate l CHR ''='' @ [CHR ''['']"
      have e: "c # s = ?p @ t" using o by (simp add: open_long_iff)
      have "match_open_long_bracket (?p @ u) = Some (l, u)" by (simp add: open_long_iff)
      then have "closes_after None depth (?p @ u)" by (intro closes_after_step[OF _ uv(5)]) simp
      then show ?thesis using e uv sp by (intro conjI exI[of _ "?p @ u"] exI[of _ v]) simp_all
    next
      case None
      have no: "match_open_long_bracket (c # u) = None" if "s = u @ w" for u w
        using open_long_prefix[of "c # u" w] None that by simp
      consider (str) "c = dquote \<or> c = squote" | (up) "c = CHR ''{''" | (close) "c = CHR ''}''" "stop" "depth - 1 = 0"
        | (down) "c = CHR ''}''" "\<not> (stop \<and> depth - 1 = 0)"
        | (plain) "\<not> (c = dquote \<or> c = squote)" "c \<noteq> CHR ''{''" "c \<noteq> CHR ''}''"
        by auto
      then show ?thesis
      proof cases
        case str
        then have r: "lua_scan stop n (skip_string c s) None depth = (st', d', Some k)" using 3(7) other None by auto
        obtain u v where sp: "stop" and uv: "skip_string c s = u @ CHR ''}'' # v" "k = n - Suc (length v)" "st' = None" "d' = 0" "closes_after None depth u"
          using 3(2)[OF other None str r] by blast
        obtain w where w: "s = w @ u @ CHR ''}'' # v" "\<forall>x. skip_string c (w @ x) = x"
          using skip_string_cut[OF uv(1)] by auto
        have "closes_after None depth (c # w @ u)"
          by (rule closes_after_step[OF _ uv(5)]) (use str no[of "w @ u"] nd[of "w @ u"] w in auto)
        then show ?thesis using uv w sp by (intro conjI exI[of _ "c # w @ u"] exI[of _ v]) simp_all
      next
        case up
        then have r: "lua_scan stop n s None (depth + 1) = (st', d', Some k)" using 3(7) other None by auto
        obtain u v where sp: "stop" and uv: "s = u @ CHR ''}'' # v" "k = n - Suc (length v)" "st' = None" "d' = 0" "closes_after None (depth + 1) u"
          using 3(3)[OF other None _ _ r] up by auto
        have "closes_after None depth (c # u)"
          by (rule closes_after_step[OF _ uv(5)]) (use up no[OF uv(1)] in auto)
        then show ?thesis using uv sp by (intro conjI exI[of _ "c # u"] exI[of _ v]) simp_all
      next
        case close
        then have "(st', d', Some k) = (None, depth - 1, Some (n - length (c # s)))" using 3(7) other None by auto
        then show ?thesis
          using close by (intro conjI exI[of _ "[]"] exI[of _ s]) (auto simp: closes_after_def)
      next
        case down
        then have r: "lua_scan stop n s None (depth - 1) = (st', d', Some k)" using 3(7) other None by auto
        obtain u v where sp: "stop" and uv: "s = u @ CHR ''}'' # v" "k = n - Suc (length v)" "st' = None" "d' = 0" "closes_after None (depth - 1) u"
          using 3(4)[OF other None _ _ _ _ r] down by auto
        have "closes_after None depth (c # u)"
          by (rule closes_after_step[OF _ uv(5)]) (use down sp no[OF uv(1)] in auto)
        then show ?thesis using uv sp by (intro conjI exI[of _ "c # u"] exI[of _ v]) simp_all
      next
        case plain
        then have r: "lua_scan stop n s None depth = (st', d', Some k)" using 3(7) other None by auto
        obtain u v where sp: "stop" and uv: "s = u @ CHR ''}'' # v" "k = n - Suc (length v)" "st' = None" "d' = 0" "closes_after None depth u"
          using 3(5)[OF other None _ _ _ r] plain by auto
        have "closes_after None depth (c # u)"
          by (rule closes_after_step[OF _ uv(5)]) (use plain no[OF uv(1)] nd[OF uv(1)] in auto)
        then show ?thesis using uv sp by (intro conjI exI[of _ "c # u"] exI[of _ v]) simp_all
      qed
    qed
  qed
qed

text \<open>
  the byte a Lua block closes at: it is a closing brace of the line, the scan of what stands before
  it leaves exactly one brace open, outside of every string, comment and long bracket, and does not
  close the block earlier. This holds whatever the earlier lines left open.
\<close>

theorem lua_close_exact:
  assumes "lua_scan_to_close st line depth = (st', d, Some k)"
  shows "k < length line \<and> line ! k = CHR ''}'' \<and> st' = None \<and> d = 0 \<and> closes_after st depth (take k line)"
proof -
  obtain u v where uv: "line = u @ CHR ''}'' # v" "k = length line - Suc (length v)" "st' = None" "d = 0"
      "closes_after st depth u"
    using lua_scan_close[OF assms[unfolded lua_scan_to_close_def]] by blast
  then have "k = length u" by simp
  then show ?thesis using uv by simp
qed

text \<open>The line ends a long bracket, has a closing brace in a string, and closes the block at its twelfth byte.\<close>

theorem lua_close_exact_witness:
  "closes_after (Some 0) 1 ('']] x = '' @ [dquote] @ ''}'' @ [dquote] @ '' '')"
proof -
  have "lua_scan_to_close (Some 0) ('']] x = '' @ [dquote] @ ''}'' @ [dquote] @ '' } local'') 1 = (None, 0, Some 11)"
    by code_simp
  from lua_close_exact[OF this] show ?thesis by (simp add: numeral_eq_Suc)
qed

subsection \<open>What a here-string does\<close>

text \<open>
  The scanner takes the last two bytes of \<open><<<\<close> for the opener of a here-document, so the lines after a
  here-string are passed over until one of them is its word.
\<close>

lemma here_string_opens_heredoc:
  "pending_heredocs (fst (shell_scan_to_close shell_scanner_new ''cat <<<word'' 1)) = [(''word'', False)]"
  "shell_scan_to_close (fst (shell_scan_to_close shell_scanner_new ''cat <<<word'' 1)) ''}'' 1 =
     (\<lparr>pending_heredocs = [(''word'', False)], in_quote = None\<rparr>, 1, None)"
  by code_simp+

end
