(* ===== verification/Step_Parser.thy ===== *)
theory Step_Parser
  imports Lexer Brace_Scan Cache_Keys
begin

text \<open>
  What a step of a recipe is parsed from: the blocks (\<open>cook-lang/src/lua\_block.rs\<close>,
  \<open>shell\_block.rs\<close>), the modifiers and the operands of \<open>seal\<close> (\<open>disposition.rs\<close>), and the lines of
  \<open>gather\<close> and \<open>cook\<close> (\<open>cook\_line.rs\<close>).

  The position of the parser in the tokens is the list of the tokens that are left; a line number
  \<open>n\<close> counts from 1, so the lines after it are \<open>drop n\<close> of the source. The counters of braces do not
  wrap around.
\<close>

section \<open>Parameters\<close>

text \<open>
  \<open>char::is\_alphabetic\<close> and \<open>char::is\_alphanumeric\<close>, the tables of Unicode, on one character; and the
  hash function of the \<open>xxhash-rust\<close> package.
\<close>

record parser_env =
  pe_alphabetic :: "str \<Rightarrow> bool"
  pe_alphanumeric :: "str \<Rightarrow> bool"
  pe_xxh3 :: "str \<Rightarrow> u64"

section \<open>Blocks\<close>

definition skip_past_line :: "located list \<Rightarrow> nat \<Rightarrow> located list" where
  "skip_past_line toks close_line = dropWhile (\<lambda>t. tok_line t \<le> close_line) toks"

definition push_boundary :: "str list \<Rightarrow> str \<Rightarrow> str list" where
  "push_boundary code_lines segment = (if trim segment \<noteq> [] then code_lines @ [segment] else code_lines)"

fun lua_block_lines :: "nat option \<Rightarrow> int \<Rightarrow> nat \<Rightarrow> str list \<Rightarrow> str list \<Rightarrow> (str list \<times> str \<times> nat) option" where
  "lua_block_lines st depth line_idx code_lines [] = None"
| "lua_block_lines st depth line_idx code_lines (raw # rest) =
     (case lua_scan_to_close st raw depth of
        (st', depth', Some close) \<Rightarrow>
          Some (push_boundary code_lines (take close raw), trim (drop (close + 1) raw), line_idx + 1)
      | (st', depth', None) \<Rightarrow> lua_block_lines st' depth' (line_idx + 1) (code_lines @ [raw]) rest)"

definition collect_lua_block ::
  "nat \<Rightarrow> str \<Rightarrow> located list \<Rightarrow> str list \<Rightarrow> parse_error + str \<times> str \<times> located list" where
  "collect_lua_block open_line after_open toks source_lines =
     (case lua_scan_to_close None after_open 1 of
        (st, depth, Some close) \<Rightarrow>
          Inr (trim (join [newline] (push_boundary [] (take close after_open))),
               trim (drop (close + 1) after_open), skip_past_line toks open_line)
      | (st, depth, None) \<Rightarrow>
          (case lua_block_lines st depth open_line (push_boundary [] after_open) (drop open_line source_lines) of
             Some (code_lines, tail, close_line) \<Rightarrow>
               Inr (join [newline] code_lines, tail, skip_past_line toks close_line)
           | None \<Rightarrow> Inl (ParseErr open_line (''unclosed Lua block (missing closing '' @ [squote] @ ''}'' @ [squote] @ '')''))))"

definition push_segment :: "str list \<Rightarrow> str \<Rightarrow> str list" where
  "push_segment commands segment = (if trim segment \<noteq> [] then commands @ [trim segment] else commands)"

fun shell_block_lines :: "shell_scanner \<Rightarrow> int \<Rightarrow> nat \<Rightarrow> str list \<Rightarrow> str list \<Rightarrow> (str list \<times> str \<times> nat) option" where
  "shell_block_lines st depth line_idx commands [] = None"
| "shell_block_lines st depth line_idx commands (raw # rest) =
     (case shell_scan_to_close st raw depth of
        (st', depth', Some close) \<Rightarrow>
          Some (push_segment commands (take close raw), trim (drop (close + 1) raw), line_idx + 1)
      | (st', depth', None) \<Rightarrow> shell_block_lines st' depth' (line_idx + 1) (push_segment commands raw) rest)"

definition collect_shell_block ::
  "nat \<Rightarrow> str \<Rightarrow> located list \<Rightarrow> str list \<Rightarrow> parse_error + str list \<times> str \<times> located list" where
  "collect_shell_block open_line after_open toks source_lines =
     (case shell_scan_to_close shell_scanner_new after_open 1 of
        (st, depth, Some close) \<Rightarrow>
          Inr (push_segment [] (take close after_open), trim (drop (close + 1) after_open),
               skip_past_line toks open_line)
      | (st, depth, None) \<Rightarrow>
          (case shell_block_lines st depth open_line (push_segment [] after_open) (drop open_line source_lines) of
             Some (commands, tail, close_line) \<Rightarrow> Inr (commands, tail, skip_past_line toks close_line)
           | None \<Rightarrow> Inl (ParseErr open_line (''unclosed shell block (missing closing '' @ [squote] @ ''}'' @ [squote] @ '')''))))"

definition reject_stray_tail :: "str \<Rightarrow> nat \<Rightarrow> str \<Rightarrow> parse_error + unit" where
  "reject_stray_tail tail line ctx =
     (if tail = [] then Inr ()
      else Inl (ParseErr line (ctx @ '': unexpected text after the closing '' @ [squote] @ ''}'' @ [squote] @ '': `'' @ tail
       @ ''`'')))"

section \<open>Modifiers and seals\<close>

record cook_modifiers =
  cm_sharing :: sharing
  cm_record :: bool

definition no_modifiers :: cook_modifiers where
  "no_modifiers = \<lparr>cm_sharing = Shared, cm_record = False\<rparr>"

definition removed_trailing_seal :: "str \<Rightarrow> nat \<Rightarrow> parse_error" where
  "removed_trailing_seal step line = ParseErr line
     (step @ '': `seal` was removed as a trailing modifier (CS-0225); use a recipe-level `seal` step'')"

definition removed_unseal :: "nat \<Rightarrow> parse_error" where
  "removed_unseal line = ParseErr line
     (''`unseal` was removed (CS-0225); do not put the ref in the recipe'' @ [squote] @ ''s `seal` step'')"

definition removed_envs :: "str \<Rightarrow> str list \<Rightarrow> nat \<Rightarrow> parse_error" where
  "removed_envs form names line =
     (let replacement = (if names = [] then (''echo '' @ [dquote] @ ''$NAME'' @ [dquote])
        else join ''; '' (map (\<lambda>name. (''echo '' @ [dquote] @ ''$'' @ name @ [dquote])) names))
      in ParseErr line
           (''`'' @ form @ ''` was removed (CS-0226); use an ordinary shell probe: `lines { '' @ replacement
       @ '' }`''))"

definition bad_modifier :: "str \<Rightarrow> nat \<Rightarrow> parse_error" where
  "bad_modifier tok line =
     (if tok = ''seal'' then removed_trailing_seal ''cook'' line
      else if tok = ''unseal'' then removed_unseal line
      else if tok = ''record'' then ParseErr line
        ''cook: the `record` disposition was renamed to `nondet` (Cache-surface ergonomics, CS-0115)''
      else if tok = ''as'' then ParseErr line
        (''cook: `as` was removed in v1.0 '' @ [CHR 0xE2, CHR 0x80, CHR 0x94]
       @ '' it is no longer a step modifier (CS-0135)'')
      else ParseErr line (''cook: unexpected modifier `'' @ tok @ ''`''))"

fun cook_modifiers_loop :: "bool \<Rightarrow> cook_modifiers \<Rightarrow> str list \<Rightarrow> nat \<Rightarrow> parse_error + cook_modifiers" where
  "cook_modifiers_loop share_set m [] line = Inr m"
| "cook_modifiers_loop share_set m (tok # toks) line =
     (if share_set then
        Inl (ParseErr line ''cook: no modifier may follow the disposition (share_mod must be last)'')
      else if tok = ''local'' then cook_modifiers_loop True (m\<lparr>cm_sharing := Local\<rparr>) toks line
      else if tok = ''pinned'' then cook_modifiers_loop True (m\<lparr>cm_sharing := Pinned\<rparr>) toks line
      else if tok = ''nondet'' then cook_modifiers_loop True (m\<lparr>cm_record := True\<rparr>) toks line
      else Inl (bad_modifier tok line))"

definition parse_cook_modifiers :: "str \<Rightarrow> nat \<Rightarrow> parse_error + cook_modifiers" where
  "parse_cook_modifiers tail line = cook_modifiers_loop False no_modifiers (split_whitespace tail) line"

definition seal_ref :: "nat \<Rightarrow> str \<Rightarrow> parse_error + str" where
  "seal_ref line tok =
     (if is_valid_bare tok then Inr tok else Inl (ParseErr line (bare_key_error ''seal'' tok)))"

definition parse_seal_refs :: "str list \<Rightarrow> nat \<Rightarrow> parse_error + str list" where
  "parse_seal_refs refs line = map_res (seal_ref line) refs"

text \<open>
  The records of a set of globs, each in the order of its first byte on, without duplicates, and the
  key of an anonymous file determinant.
\<close>

definition seal_records :: "str list \<Rightarrow> str list \<Rightarrow> str list" where
  "seal_records globs excludes =
     remdups_adj (sort (map (\<lambda>g. ''+'' @ g) globs @ map (\<lambda>e. ''-'' @ e) excludes))"

definition anonymous_seal_key :: "(str \<Rightarrow> u64) \<Rightarrow> str list \<Rightarrow> str list \<Rightarrow> str" where
  "anonymous_seal_key xxh3 globs excludes =
     ''@seal:'' @ hex16 (hash_str xxh3 (join [newline] (seal_records globs excludes)))"

text \<open>One character: what the flags \<open>quoted\<close> and \<open>escaped\<close> become.\<close>

fun seal_quote :: "char \<Rightarrow> bool \<times> bool \<Rightarrow> bool \<times> bool" where
  "seal_quote c (quoted, escaped) =
     (if quoted \<and> escaped then (quoted, False)
      else if quoted \<and> c = backslash then (quoted, True)
      else if c = dquote then (\<not> quoted, escaped)
      else (quoted, escaped))"

text \<open>The operands, and whether the text ends inside a quote; \<open>cur\<close> is the operand that is read.\<close>

function seal_operands :: "str option \<Rightarrow> bool \<times> bool \<Rightarrow> str \<Rightarrow> str list \<times> bool" where
  "seal_operands cur q [] = ((case cur of None \<Rightarrow> [] | Some w \<Rightarrow> [w]), fst q)"
| "seal_operands cur q (c # s) =
     (if 0 < ws_width (c # s) then
        (let w = ws_width (c # s) in
         case cur of
           None \<Rightarrow> seal_operands None q (drop w (c # s))
         | Some u \<Rightarrow>
             if fst q then seal_operands (Some (u @ take w (c # s))) (fst q, False) (drop w (c # s))
             else (case seal_operands None q (drop w (c # s)) of (ops, open) \<Rightarrow> (u # ops, open)))
      else
        seal_operands (Some ((case cur of None \<Rightarrow> [] | Some u \<Rightarrow> u) @ [c])) (seal_quote c q) s)"
  by pat_completeness auto
termination
  by (relation "measure (\<lambda>(c, q, s). length s)") (auto simp: less_Suc_eq_le)

record seal_operands_result =
  so_refs :: "str list"
  so_inline_probe :: "probe_decl option"

text \<open>One operand: what it adds to the references, the globs and the excludes.\<close>

definition unquote :: "str \<Rightarrow> str option" where
  "unquote s = (case strip_prefix [dquote] s of None \<Rightarrow> None | Some t \<Rightarrow> strip_suffix [dquote] t)"

definition seal_operand ::
  "nat \<Rightarrow> str \<Rightarrow> str list \<times> str list \<times> str list \<Rightarrow> parse_error + str list \<times> str list \<times> str list" where
  "seal_operand line operand acc =
     (case acc of (refs, globs, excludes) \<Rightarrow>
      (case strip_prefix ''!'' operand of
         Some q \<Rightarrow>
           (case unquote q of
              None \<Rightarrow> Inl (ParseErr line ''seal: `!` must be immediately followed by a quoted glob'')
            | Some inner \<Rightarrow>
                if inner = [] then Inl (ParseErr line ''seal: excluded file glob must not be empty'')
                else Inr (refs, globs, excludes @ [inner]))
       | None \<Rightarrow>
           (case unquote operand of
              Some inner \<Rightarrow>
                if inner = [] then Inl (ParseErr line ''seal: file glob must not be empty'')
                else Inr (refs, globs @ [inner], excludes)
            | None \<Rightarrow> bind_res (parse_seal_refs [operand] line) (\<lambda>rs. Inr (refs @ rs, globs, excludes)))))"

definition anonymous_probe :: "(str \<Rightarrow> u64) \<Rightarrow> str list \<Rightarrow> str list \<Rightarrow> nat \<Rightarrow> probe_decl" where
  "anonymous_probe xxh3 globs excludes line =
     \<lparr>pb_name = anonymous_seal_key xxh3 globs excludes, pb_deps = [], pb_inputs = [], pb_excludes = [],
      pb_covers = [], pb_produce = ProduceFiles globs excludes, pb_line = line\<rparr>"

definition parse_seal_operands :: "(str \<Rightarrow> u64) \<Rightarrow> str \<Rightarrow> nat \<Rightarrow> parse_error + seal_operands_result" where
  "parse_seal_operands xxh3 src line =
     (let (operands, open) = seal_operands None (False, False) src in
      if open then Inl (ParseErr line ''seal: unterminated quoted file glob'')
      else
        bind_res (fold_res (seal_operand line) operands ([], [], [])) (\<lambda>(refs, globs, excludes).
          if globs = [] \<and> excludes \<noteq> [] then Inl (ParseErr line
            ''seal: an excluded glob requires a quoted include glob in the same `seal` step'')
          else if globs = [] then Inr \<lparr>so_refs = refs, so_inline_probe = None\<rparr>
          else
            Inr \<lparr>so_refs = refs @ [anonymous_seal_key xxh3 globs excludes],
                 so_inline_probe = Some (anonymous_probe xxh3 globs excludes line)\<rparr>))"

section \<open>Bodies and patterns\<close>

definition parse_body_payload ::
  "str \<Rightarrow> nat \<Rightarrow> located list \<Rightarrow> str list \<Rightarrow> str \<Rightarrow> parse_error + body \<times> str \<times> located list" where
  "parse_body_payload after_kw line toks source_lines kw =
     (let trimmed = trim_start after_kw in
      if starts_with ''>>{'' trimmed then
        Inl (ParseErr line (kw @ '': `>>{ '' @ [CHR 0xE2, CHR 0x80, CHR 0xA6]
       @ '' }` (register-phase Lua block) is not a valid body '' @ [CHR 0xE2, CHR 0x80, CHR 0x94]
       @ '' use `>{ '' @ [CHR 0xE2, CHR 0x80, CHR 0xA6] @ '' }` for an execute-phase Lua block''))
      else if starts_with ''>{'' trimmed then
        bind_res (collect_lua_block line (drop 2 trimmed) (drop 1 toks) source_lines)
          (\<lambda>(code, tail, rest). Inr (LuaBlock code, tail, rest))
      else if starts_with ''{'' trimmed then
        bind_res (collect_shell_block line (drop 1 trimmed) (drop 1 toks) source_lines)
          (\<lambda>(commands, tail, rest). Inr (ShellBlock commands, tail, rest))
      else if starts_with [dquote] trimmed then
        Inl (ParseErr line (kw @ '': the bare-string form `'' @ [dquote] @ ''cmd'' @ [dquote]
       @ ''` is not supported; write a one-line shell block: `{ cmd }`''))
      else
        Inl (ParseErr line (kw @ '': expected `>{ Lua block }` or `{ shell block }`, found: '' @ trimmed)))"

definition strip_keyword :: "str \<Rightarrow> str \<Rightarrow> str option" where
  "strip_keyword s keyword =
     (case strip_prefix keyword s of
        None \<Rightarrow> None
      | Some rest \<Rightarrow>
          if rest = [] then Some rest
          else if starts_with '' '' rest \<or> starts_with [tab] rest then Some (trim rest)
          else None)"

text \<open>A run of quoted patterns on one line, each with whether it excludes, and the text it stops at.\<close>

lemma split_once_shorter: "split_once c s = Some (a, b) \<Longrightarrow> length b < length s"
  by (auto simp: split_once_Some)

function take_patterns :: "bool \<Rightarrow> nat \<Rightarrow> str \<Rightarrow> parse_error + (str \<times> bool) list \<times> str" where
  "take_patterns allow_exclude line cursor =
     (let trimmed = trim_start cursor;
          is_exclude = (allow_exclude \<and> starts_with ''!'' trimmed);
          after_bang = (if is_exclude then tl trimmed else trimmed)
      in
      if \<not> starts_with [dquote] after_bang then Inr ([], trimmed)
      else
        (case split_once dquote (tl after_bang) of
           None \<Rightarrow> Inl (ParseErr line ''unterminated string'')
         | Some (p, rest) \<Rightarrow>
             bind_res (take_patterns allow_exclude line rest) (\<lambda>(ps, c). Inr ((p, is_exclude) # ps, c))))"
  by pat_completeness auto
termination
proof (relation "measure (\<lambda>(a, l, s). length s)", goal_cases)
  case (2 allow line cursor trimmed is_exclude after_bang x p rest)
  have "length trimmed \<le> length cursor" using 2(1) trim_start_length by simp
  moreover have "length after_bang \<le> length trimmed" using 2(3) by simp
  moreover have "length rest < length (tl after_bang)" using 2(5,6) by (auto dest: split_once_shorter)
  ultimately show ?case by simp
qed simp

declare take_patterns.simps [simp del]

definition starts_pattern :: "bool \<Rightarrow> str \<Rightarrow> bool" where
  "starts_pattern allow_exclude s \<longleftrightarrow>
     starts_with [dquote] s \<or> allow_exclude \<and> starts_with ''!'' s \<and> starts_with [dquote] (tl s)"

text \<open>\<open>later\<close> are the lines of the source after \<open>cur_line\<close>.\<close>

fun quoted_patterns ::
  "bool \<Rightarrow> nat \<Rightarrow> str \<Rightarrow> str list \<Rightarrow> located list \<Rightarrow> parse_error + (str \<times> bool) list \<times> str \<times> located list" where
  "quoted_patterns allow_exclude cur_line cursor [] toks =
     bind_res (take_patterns allow_exclude cur_line cursor) (\<lambda>(ps, c). Inr (ps, trim c, toks))"
| "quoted_patterns allow_exclude cur_line cursor (next_line # later) toks =
     bind_res (take_patterns allow_exclude cur_line cursor) (\<lambda>(ps, c).
       if trim c \<noteq> [] then Inr (ps, trim c, toks)
       else if \<not> starts_pattern allow_exclude (trim_start next_line) then Inr (ps, [], toks)
       else
         bind_res (quoted_patterns allow_exclude (cur_line + 1) (trim_start next_line) later
                     (skip_past_line toks cur_line))
           (\<lambda>(qs, c', toks'). Inr (ps @ qs, c', toks')))"

definition collect_quoted_patterns_multiline ::
  "str \<Rightarrow> nat \<Rightarrow> located list \<Rightarrow> str list \<Rightarrow> bool \<Rightarrow> parse_error + (str \<times> bool) list \<times> str \<times> located list" where
  "collect_quoted_patterns_multiline initial_text initial_line toks source_lines allow_exclude =
     quoted_patterns allow_exclude initial_line (trim initial_text) (drop initial_line source_lines) toks"

definition ends_inside_quote :: "str \<Rightarrow> bool" where
  "ends_inside_quote s = fst (fold seal_quote s (False, False))"

fun seal_continuation :: "str \<Rightarrow> nat \<Rightarrow> str list \<Rightarrow> str \<times> nat" where
  "seal_continuation s last_line [] = (s, last_line)"
| "seal_continuation s last_line (l # later) =
     (if \<not> starts_pattern True (trim_start l) \<or> ends_inside_quote s then (s, last_line)
      else seal_continuation (s @ '' '' @ trim_start l) (last_line + 1) later)"

definition collect_seal_continuation :: "str \<Rightarrow> nat \<Rightarrow> str list \<Rightarrow> str \<times> nat" where
  "collect_seal_continuation initial_text line source_lines =
     seal_continuation initial_text line (drop line source_lines)"

section \<open>The lines of gather and cook\<close>

definition stop_line_of :: "located list \<Rightarrow> nat \<Rightarrow> nat" where
  "stop_line_of toks line = (case toks of [] \<Rightarrow> line | t # _ \<Rightarrow> tok_line t)"

definition parse_gather_line ::
  "str \<Rightarrow> str \<Rightarrow> nat \<Rightarrow> located list \<Rightarrow> str list \<Rightarrow> parse_error + str list \<times> str list \<times> located list" where
  "parse_gather_line src keyword line toks source_lines =
     bind_res (collect_quoted_patterns_multiline src line toks source_lines True)
       (\<lambda>(ps, leftover, rest).
         if trim leftover \<noteq> [] then
           Inl (ParseErr line (keyword @ '': expected '' @ [squote, dquote, squote] @ '' or '' @ [squote] @ ''!''
       @ [dquote, squote] @ '', found: '' @ leftover))
         else
           Inr (map fst (filter (\<lambda>p. \<not> snd p) ps), map fst (filter snd ps),
                skip_past_line rest (stop_line_of rest line)))"

definition gather_ref_error :: "nat \<Rightarrow> str \<Rightarrow> parse_error" where
  "gather_ref_error line detail = ParseErr line (''gather $<...>: '' @ detail)"

fun reserved_message :: "lex_error \<Rightarrow> str" where
  "reserved_message (ReservedRecipeName line segment) =
     (''line '' @ show_nat line @ '': '' @ [squote] @ segment @ [squote]
       @ '' is a reserved word and cannot be used in this position in a dotted recipe name'')"
| "reserved_message _ = []"

definition parse_gather_recipe_ref ::
  "str \<Rightarrow> nat \<Rightarrow> located list \<Rightarrow> parse_error + member_source_step \<times> located list" where
  "parse_gather_recipe_ref rest line toks =
     (case strip_prefix ''$<'' rest of
        None \<Rightarrow> Inl (gather_ref_error line ''expected a `$<recipe>` reference'')
      | Some after_open \<Rightarrow>
          (case split_once CHR ''>'' after_open of
             None \<Rightarrow> Inl (gather_ref_error line ''unterminated `$<` reference'')
           | Some (name, after) \<Rightarrow>
               if \<not> list_all is_bare_name (split_on CHR ''.'' name) then
                 Inl (gather_ref_error line ([squote] @ name @ [squote] @ '' is not a well-formed recipe name''))
               else
                 (case check_reserved_recipe_name name line of
                    Inl e \<Rightarrow> Inl (gather_ref_error line (name @ '' is not a usable recipe reference ('' @ reserved_message e @ '')''))
                  | Inr _ \<Rightarrow>
                      if trim after \<noteq> [] then
                        Inl (ParseErr line (''gather $<...>: unexpected trailing content '' @ [squote] @ trim after @ [squote]
       @ '' after the recipe reference (a `gather $<recipe>` source stands alone)''))
                      else
                        Inr (\<lparr>ms_source = RecipeRefSource name, ms_extra_gather = []\<rparr>,
                             skip_past_line (drop 1 toks) line))))"

text \<open>\<open>replacen(.., 1)\<close>.\<close>

fun replace_first :: "str \<Rightarrow> str \<Rightarrow> str \<Rightarrow> str" where
  "replace_first pat by_text [] = []"
| "replace_first pat by_text (c # s) =
     (case strip_prefix pat (c # s) of Some t \<Rightarrow> by_text @ t | None \<Rightarrow> c # replace_first pat by_text s)"

lemma trim_end_length: "length (trim_end s) \<le> length s"
  by (induction s) auto

lemma trim_length: "length (trim s) \<le> length s"
  using trim_end_length[of "trim_start s"] trim_start_length[of s] by (simp add: trim_def)

function gather_globs :: "nat \<Rightarrow> str \<Rightarrow> parse_error + str list" where
  "gather_globs line leftover =
     (if leftover = [] then Inr []
      else
        (case strip_prefix [dquote] leftover of
           None \<Rightarrow> Inl (ParseErr line (''gather: unexpected trailing content '' @ [squote] @ leftover @ [squote]
       @ '' after source name (only quoted '' @ [dquote] @ ''glob'' @ [dquote]
       @ '' patterns may follow the source)''))
         | Some stripped \<Rightarrow>
             (case split_once dquote stripped of
                None \<Rightarrow> Inl (ParseErr line (''gather: unterminated '' @ [dquote] @ '' in trailing glob pattern''))
              | Some (pat, t) \<Rightarrow>
                  if pat = [] then Inl (ParseErr line ''gather: empty trailing glob pattern'')
                  else bind_res (gather_globs line (trim t)) (\<lambda>ps. Inr (pat # ps)))))"
  by pat_completeness auto
termination
proof (relation "measure (\<lambda>(l, s). length s)", goal_cases)
  case (2 line leftover stripped x pat t)
  then show ?case using trim_length[of t] by (auto simp: strip_prefix_iff split_once_Some)
qed simp

declare gather_globs.simps [simp del]

definition parse_gather_bare_source ::
  "str \<Rightarrow> nat \<Rightarrow> located list \<Rightarrow> bool \<Rightarrow> parse_error + member_source_step \<times> located list" where
  "parse_gather_bare_source rest line toks gather =
     (let (key, t) = span_of (\<lambda>c. is_ascii_alphanumeric c \<or> c = CHR ''_'' \<or> c = CHR '':'' \<or> c = CHR ''-'') rest in
      if key = [] then Inl (ParseErr line (''gather: expected a '' @ [dquote] @ ''glob'' @ [dquote] @ '' pattern or a bare source name''))
      else if \<not> is_valid_bare key then
        Inl (ParseErr line (replace_first ''probe key'' ''bare source name'' (bare_key_error ''gather'' key)))
      else
        bind_res (gather_globs line (trim t)) (\<lambda>extra.
          Inr (\<lparr>ms_source = (if gather then GatherKeySource key else ProbeKeySource key), ms_extra_gather = extra\<rparr>,
               skip_past_line (drop 1 toks) line)))"

definition scan_balanced_paren_expr :: "str \<Rightarrow> nat \<Rightarrow> parse_error + str \<times> str" where
  "scan_balanced_paren_expr s line =
     (case scan_balanced s of
        Inl OpenStringLiteral \<Rightarrow> Inl (ParseErr line ''cook (LUA_EXPR): unclosed string literal in expression'')
      | Inl OpenParenthesis \<Rightarrow> Inl (ParseErr line (''cook (LUA_EXPR): unclosed '' @ [squote] @ ''('' @ [squote] @ '' in output expression''))
      | Inr r \<Rightarrow> Inr r)"

definition cook_disposition_from_tail :: "str \<Rightarrow> nat \<Rightarrow> parse_error + disposition" where
  "cook_disposition_from_tail tail line =
     bind_res (parse_cook_modifiers tail line) (\<lambda>m.
       Inr \<lparr>dp_sharing = cm_sharing m, dp_record = cm_record m, dp_seal = {}\<rparr>)"

text \<open>A body and the modifiers after it; the line the modifiers are reported at is that of the step.\<close>

definition cook_with_body ::
  "output_pattern list \<Rightarrow> str \<Rightarrow> nat \<Rightarrow> nat \<Rightarrow> located list \<Rightarrow> str list \<Rightarrow> parse_error + cook_step \<times> located list" where
  "cook_with_body outputs after_outputs body_line line toks source_lines =
     bind_res (parse_body_payload after_outputs body_line toks source_lines ''cook'') (\<lambda>(b, tail, rest).
     bind_res (cook_disposition_from_tail tail line) (\<lambda>d.
       Inr (\<lparr>ck_outputs = outputs, ck_body = Some b, ck_disposition = d\<rparr>, rest)))"

definition parse_cook_expr ::
  "str \<Rightarrow> nat \<Rightarrow> located list \<Rightarrow> str list \<Rightarrow> parse_error + cook_step \<times> located list" where
  "parse_cook_expr after_open line toks source_lines =
     bind_res (scan_balanced_paren_expr after_open line) (\<lambda>(expr, after_close).
       let leftover = trim after_close in
       if starts_with [dquote] leftover \<or> starts_with ''('' leftover then
         Inl (ParseErr line ''cook (LUA_EXPR) form requires exactly one output'')
       else if leftover = [] then
         Inl (ParseErr line (''cook (LUA_EXPR): expected a `>{ '' @ [CHR 0xE2, CHR 0x80, CHR 0xA6] @ '' }` or `{ ''
       @ [CHR 0xE2, CHR 0x80, CHR 0xA6] @ '' }` body after expression''))
       else if starts_with ''using'' leftover then
         Inl (ParseErr line (''cook (LUA_EXPR): the `using` keyword is not supported; write the body directly after the expression: `cook (EXPR) >{ ''
       @ [CHR 0xE2, CHR 0x80, CHR 0xA6] @ '' }`''))
       else cook_with_body [LuaExpr expr] leftover line line toks source_lines)"

definition opens_body :: "str \<Rightarrow> bool" where
  "opens_body s \<longleftrightarrow> starts_with ''{'' s \<or> starts_with ''>{'' s \<or> starts_with ''>>{'' s"

definition parse_cook_quoted ::
  "str \<Rightarrow> nat \<Rightarrow> located list \<Rightarrow> str list \<Rightarrow> parse_error + cook_step \<times> located list" where
  "parse_cook_quoted rest line toks source_lines =
     bind_res (collect_quoted_patterns_multiline rest line toks source_lines False) (\<lambda>(ps, leftover, at_body).
       let after_pattern = trim leftover in
       if starts_with ''using'' after_pattern then
         Inl (ParseErr line (''cook: the `using` keyword is not supported; write the body directly after the output pattern: `cook ''
       @ [dquote] @ ''out'' @ [dquote] @ '' { '' @ [CHR 0xE2, CHR 0x80, CHR 0xA6] @ '' }` / `cook ''
       @ [dquote] @ ''out'' @ [dquote] @ '' >{ '' @ [CHR 0xE2, CHR 0x80, CHR 0xA6] @ '' }`''))
       else if after_pattern = [] \<or> \<not> opens_body after_pattern then
         bind_res (cook_disposition_from_tail after_pattern line) (\<lambda>_.
           Inl (ParseErr line (''cook: a cook step requires a body; declaration-only cook steps were removed (CS-0133) ''
       @ [CHR 0xE2, CHR 0x80, CHR 0x94] @ '' write `cook '' @ [dquote] @ ''out'' @ [dquote]
       @ '' { '' @ [CHR 0xE2, CHR 0x80, CHR 0xA6] @ '' }` or `cook '' @ [dquote] @ ''out''
       @ [dquote] @ '' >{ '' @ [CHR 0xE2, CHR 0x80, CHR 0xA6] @ '' }`'')))
       else
         cook_with_body (map (QuotedOut \<circ> fst) ps) after_pattern (stop_line_of at_body line) line at_body source_lines)"

definition parse_cook_line ::
  "str \<Rightarrow> nat \<Rightarrow> located list \<Rightarrow> str list \<Rightarrow> parse_error + cook_step \<times> located list" where
  "parse_cook_line src line toks source_lines =
     (let rest = trim src in
      if starts_with ''('' rest then parse_cook_expr (drop 1 rest) line toks source_lines
      else if \<not> starts_with [dquote] rest then
        Inl (ParseErr line ''cook: expected quoted output pattern or `(LUA_EXPR)`'')
      else parse_cook_quoted rest line toks source_lines)"

end
