(* ===== verification/Recipe_Parser.thy ===== *)
theory Recipe_Parser
  imports Step_Parser
begin

text \<open>
  The bodies of recipes and chores, of config and register blocks, and module calls
  (\<open>cook-lang/src/recipe.rs\<close>). One pass of a body's loop is a definition of its own: it ends the body
  and leaves the token in place, or goes on with the tokens that are left.
\<close>

section \<open>Loops over the tokens of a body\<close>

text \<open>
  The loop of a body runs a step on the current token and the tokens from it on, until the step ends
  the body or fails. All a step promises is to consume a token whenever it goes on.
\<close>

locale body_loop =
  fixes step :: "located \<Rightarrow> 'st \<Rightarrow> located list \<Rightarrow> 'err + ('st \<times> located list) option"
    and body_run :: "'st \<Rightarrow> located list \<Rightarrow> 'err + 'st \<times> located list"
  assumes run_Nil: "body_run st [] = Inr (st, [])"
    and run_Cons: "body_run st (tok # toks) =
      (case step tok st (tok # toks) of
         Inl e \<Rightarrow> Inl e
       | Inr None \<Rightarrow> Inr (st, tok # toks)
       | Inr (Some (st', toks')) \<Rightarrow> body_run st' toks')"
    and step_consumes: "step tok st (tok # toks) = Inr (Some (st', rest)) \<Longrightarrow> length rest < length (tok # toks)"
begin

text \<open>The rule of the loop: an invariant the steps keep holds at its end.\<close>

lemma run_invariant:
  assumes "body_run st toks = Inr (st', rest)" and "P st"
    and "\<And>tok s later s' r. step tok s (tok # later) = Inr (Some (s', r)) \<Longrightarrow> P s \<Longrightarrow> P s'"
  shows "P st' \<and> length rest \<le> length toks"
  using assms(1,2)
proof (induction toks arbitrary: st rule: length_induct)
  case (1 toks)
  show ?case
  proof (cases toks)
    case Nil
    then show ?thesis using 1(2,3) by (simp add: run_Nil)
  next
    case (Cons tok later)
    obtain r where r: "step tok st (tok # later) = Inr r"
      using 1(2) Cons by (cases "step tok st (tok # later)") (simp_all add: run_Cons)
    show ?thesis
    proof (cases r)
      case None
      then show ?thesis using 1(2,3) Cons r by (simp add: run_Cons)
    next
      case (Some q)
      obtain s1 t1 where q: "q = (s1, t1)" by (cases q)
      have l: "length t1 < length toks" using step_consumes[of tok st later s1 t1] r Some q Cons by simp
      have "body_run s1 t1 = Inr (st', rest)" using 1(2) Cons r Some q by (simp add: run_Cons)
      moreover have "P s1" using assms(3)[of tok st later s1 t1] r Some q 1(3) by simp
      ultimately show ?thesis using 1(1) l by fastforce
    qed
  qed
qed

lemma run_length: "body_run st toks = Inr (st', rest) \<Longrightarrow> length rest \<le> length toks"
  using run_invariant[of st toks st' rest "\<lambda>_. True"] by simp

text \<open>A body that ends before the last token ends at a token whose step ends it.\<close>

lemma run_stops:
  assumes "body_run st toks = Inr (st', rest)" and "rest \<noteq> []"
  shows "step (hd rest) st' rest = Inr None"
  using assms(1)
proof (induction toks arbitrary: st rule: length_induct)
  case (1 toks)
  show ?case
  proof (cases toks)
    case Nil
    then show ?thesis using 1(2) assms(2) by (simp add: run_Nil)
  next
    case (Cons tok later)
    obtain r where r: "step tok st (tok # later) = Inr r"
      using 1(2) Cons by (cases "step tok st (tok # later)") (simp_all add: run_Cons)
    show ?thesis
    proof (cases r)
      case None
      then have "st' = st" "rest = tok # later" using 1(2) Cons r by (simp_all add: run_Cons)
      then show ?thesis using r None by simp
    next
      case (Some q)
      obtain s1 t1 where q: "q = (s1, t1)" by (cases q)
      have "length t1 < length toks" using step_consumes[of tok st later s1 t1] r Some q Cons by simp
      moreover have "body_run s1 t1 = Inr (st', rest)" using 1(2) Cons r Some q by (simp add: run_Cons)
      ultimately show ?thesis using 1(1) by blast
    qed
  qed
qed

end

section \<open>How far a step reads\<close>

lemma skip_past_line_length: "length (skip_past_line toks l) \<le> length toks"
  by (simp add: skip_past_line_def length_dropWhile_le)

lemma collect_lua_length:
  "collect_lua_block l a toks src = Inr (c, t, rest) \<Longrightarrow> length rest \<le> length toks"
  by (auto simp: collect_lua_block_def skip_past_line_length split: prod.splits option.splits)

lemma collect_shell_length:
  "collect_shell_block l a toks src = Inr (c, t, rest) \<Longrightarrow> length rest \<le> length toks"
  by (auto simp: collect_shell_block_def skip_past_line_length split: prod.splits option.splits)

lemma body_length:
  "parse_body_payload a l toks src kw = Inr (b, t, rest) \<Longrightarrow> length rest \<le> length toks - 1"
  by (auto simp: parse_body_payload_def Let_def bind_res_Inr_iff split: if_splits
      dest!: collect_lua_length collect_shell_length)

lemma quoted_patterns_length:
  "quoted_patterns a n c later toks = Inr (ps, w, rest) \<Longrightarrow> length rest \<le> length toks"
proof (induction a n c later toks arbitrary: ps w rest rule: quoted_patterns.induct)
  case (2 a n c next_line later toks)
  obtain qs d where p: "take_patterns a n c = Inr (qs, d)"
    using 2(2) by (cases "take_patterns a n c") auto
  show ?case
  proof (cases "trim d = [] \<and> starts_pattern a (trim_start next_line)")
    case True
    then obtain us w' where "quoted_patterns a (n + 1) (trim_start next_line) later (skip_past_line toks n) = Inr (us, w', rest)"
      using 2(2) p by (auto simp: bind_res_Inr_iff)
    then have "length rest \<le> length (skip_past_line toks n)" using 2(1)[of d] True by auto
    then show ?thesis using skip_past_line_length[of toks n] by simp
  next
    case False
    then show ?thesis using 2(2) p by (auto split: if_splits)
  qed
qed (auto simp: bind_res_Inr_iff)

lemma collect_patterns_length:
  "collect_quoted_patterns_multiline s l toks src a = Inr (ps, w, rest) \<Longrightarrow> length rest \<le> length toks"
  unfolding collect_quoted_patterns_multiline_def by (rule quoted_patterns_length)

lemma skip_stop_line: "toks \<noteq> [] \<Longrightarrow> length (skip_past_line toks (stop_line_of toks l)) < length toks"
  by (cases toks) (auto simp: skip_past_line_def stop_line_of_def less_Suc_eq_le length_dropWhile_le)

lemma gather_line_length:
  assumes "parse_gather_line s k l toks src = Inr (i, x, rest)" and "toks \<noteq> []"
  shows "length rest < length toks"
proof -
  obtain ps w at where p: "collect_quoted_patterns_multiline s l toks src True = Inr (ps, w, at)"
    and r: "rest = skip_past_line at (stop_line_of at l)"
    using assms(1) by (auto simp: parse_gather_line_def bind_res_Inr_iff split: if_splits)
  show ?thesis
  proof (cases "at = []")
    case True
    then show ?thesis using r assms(2) by (simp add: skip_past_line_def)
  next
    case False
    then show ?thesis using skip_stop_line[OF False, of l] collect_patterns_length[OF p] r by simp
  qed
qed

lemma skip_rest_length: "toks \<noteq> [] \<Longrightarrow> length (skip_past_line (drop 1 toks) l) < length toks"
  using skip_past_line_length[of "drop 1 toks" l] by (cases toks) auto

lemma gather_ref_length:
  "parse_gather_recipe_ref s l toks = Inr (m, rest) \<Longrightarrow> toks \<noteq> [] \<Longrightarrow> length rest < length toks"
  using skip_rest_length[of toks l]
  by (auto simp: parse_gather_recipe_ref_def split: option.splits if_splits sum.splits)

lemma gather_bare_length:
  "parse_gather_bare_source s l toks g = Inr (m, rest) \<Longrightarrow> toks \<noteq> [] \<Longrightarrow> length rest < length toks"
  using skip_rest_length[of toks l]
  by (auto simp: parse_gather_bare_source_def Let_def bind_res_Inr_iff split: prod.splits if_splits)

lemma cook_with_body_length:
  "cook_with_body os a bl l toks src = Inr (c, rest) \<Longrightarrow> length rest \<le> length toks - 1"
  by (auto simp: cook_with_body_def bind_res_Inr_iff dest: body_length)

lemma cook_line_length:
  assumes "parse_cook_line s l toks src = Inr (c, rest)" and "toks \<noteq> []"
  shows "length rest < length toks"
proof -
  have pos: "0 < length toks" using assms(2) by simp
  consider (e) os a bl where "cook_with_body os a bl l toks src = Inr (c, rest)"
    | (q) ps w at os a bl where "collect_quoted_patterns_multiline (trim s) l toks src False = Inr (ps, w, at)"
        "cook_with_body os a bl l at src = Inr (c, rest)"
    using assms(1)
    by (auto simp: parse_cook_line_def parse_cook_expr_def parse_cook_quoted_def Let_def bind_res_Inr_iff split: if_splits)
  then show ?thesis
  proof cases
    case e
    from cook_with_body_length[OF e] pos show ?thesis by linarith
  next
    case q
    from cook_with_body_length[OF q(2)] collect_patterns_length[OF q(1)] pos show ?thesis by linarith
  qed
qed

section \<open>Module calls\<close>

definition ingredients_removed :: str where
  "ingredients_removed =
     (''`ingredients` was removed (CS-0229).'' @ [newline]
       @ ''For determinants (the command never names these files):'' @ [newline]
       @ ''    files core:src'' @ [newline] @ ''        '' @ [dquote] @ ''src/**/*.rs'' @ [dquote]
       @ '' '' @ [dquote] @ ''Cargo.toml'' @ [dquote, newline] @ ''    recipe build'' @ [newline]
       @ ''        seal core:src'' @ [newline] @ ''For iteration (the command consumes each file):''
       @ [newline] @ ''    gather '' @ [dquote] @ ''tests/*.txt'' @ [dquote])"

definition is_module_call :: "str \<Rightarrow> bool" where
  "is_module_call s \<longleftrightarrow>
     first_is is_alpha s \<and>
     (let t = dropWhile is_param_char (tl s) in first_is ((=) CHR ''.'') t \<and> first_is is_alpha (tl t))"

fun module_call_lines :: "nat option \<Rightarrow> int \<Rightarrow> nat \<Rightarrow> str list \<Rightarrow> str list \<Rightarrow> (str list \<times> nat) option" where
  "module_call_lines st depth line_idx code_lines [] = None"
| "module_call_lines st depth line_idx code_lines (raw # later) =
     (case lua_scan_line st raw of
        (st', delta) \<Rightarrow>
          if depth + delta \<le> 0 then Some (code_lines @ [raw], line_idx + 1)
          else module_call_lines st' (depth + delta) (line_idx + 1) (code_lines @ [raw]) later)"

definition collect_module_call ::
  "str \<Rightarrow> nat \<Rightarrow> located list \<Rightarrow> str list \<Rightarrow> parse_error + str \<times> located list" where
  "collect_module_call first_line line toks source_lines =
     (case lua_scan_line None first_line of
        (st, depth) \<Rightarrow>
          if depth \<le> 0 then Inr (first_line, drop 1 toks)
          else
            (case module_call_lines st depth line [first_line] (drop line source_lines) of
               None \<Rightarrow> Inl (ParseErr line ''unclosed brace in module call'')
             | Some (code_lines, close_line) \<Rightarrow>
                 Inr (join [newline] code_lines, skip_past_line (drop 1 toks) close_line)))"

lemma module_call_length:
  "collect_module_call s l toks src = Inr (c, rest) \<Longrightarrow> toks \<noteq> [] \<Longrightarrow> length rest < length toks"
  using skip_rest_length[of toks]
  by (auto simp: collect_module_call_def split: prod.splits if_splits option.splits)

section \<open>Config and register blocks\<close>

definition source_line :: "str list \<Rightarrow> nat \<Rightarrow> str" where
  "source_line source_lines n = (if n - 1 < length source_lines then source_lines ! (n - 1) else [])"

fun is_top_level :: "token \<Rightarrow> bool" where
  "is_top_level (RecipeHeader n ds) = True"
| "is_top_level (ChoreHeader n ps ds) = True"
| "is_top_level (ConfigHeader n) = True"
| "is_top_level (UseTok a t) = True"
| "is_top_level (ImportTok n p) = True"
| "is_top_level RegisterHeader = True"
| "is_top_level (ProbeHeader n ds) = True"
| "is_top_level (FilesHeader n) = True"
| "is_top_level (ToolsHeader n) = True"
| "is_top_level _ = False"

text \<open>A module call in column 0.\<close>

definition top_level_call :: "str list \<Rightarrow> nat \<Rightarrow> str \<Rightarrow> bool" where
  "top_level_call source_lines n s \<longleftrightarrow> is_module_call s \<and> \<not> starts_ws (source_line source_lines n)"

definition ends_block :: "str list \<Rightarrow> located \<Rightarrow> bool" where
  "ends_block source_lines tok \<longleftrightarrow>
     is_top_level (tok_value tok) \<or>
     (case tok_value tok of ContentTok s \<Rightarrow> top_level_call source_lines (tok_line tok) s | _ \<Rightarrow> False)"

definition reserved_words :: "str list" where
  "reserved_words =
     [''and'', ''break'', ''do'', ''else'', ''elseif'', ''end'', ''false'', ''for'', ''function'', ''goto'', ''if'',
      ''in'', ''local'', ''nil'', ''not'', ''or'', ''repeat'', ''return'', ''then'', ''true'', ''until'', ''while'']"

definition is_reserved_word :: "str \<Rightarrow> bool" where
  "is_reserved_word word \<longleftrightarrow> word \<in> set reserved_words"

text \<open>The text before the first occurrence of a pattern.\<close>

fun before_sub :: "str \<Rightarrow> str \<Rightarrow> str option" where
  "before_sub pat [] = (if pat = [] then Some [] else None)"
| "before_sub pat (c # s) =
     (if starts_with pat (c # s) then Some [] else map_option ((#) c) (before_sub pat s))"

definition detect_bare_config_value :: "str \<Rightarrow> (str \<times> str) option" where
  "detect_bare_config_value line =
     (let t = trim line in
      if t = [] \<or> starts_with ''#'' t \<or> starts_with ''--'' t then None
      else if \<not> first_is is_alpha t then None
      else
        (let (ident, rest) = span_of is_param_char t in
         if rest = [] \<or> is_reserved_word ident \<or> \<not> starts_ws rest then None
         else
           (let r = trim_start rest;
                r' = (case before_sub '' --'' r of Some p \<Rightarrow> trim_end p | None \<Rightarrow> r)
            in
            if starts_with [dquote] r' \<or> starts_with [squote] r' then Some (ident, r')
            else if first_is is_ascii_alphanumeric r' \<and> CHR ''='' \<notin> set r' \<and> CHR ''('' \<notin> set r'
            then Some (ident, [dquote] @ r' @ [dquote])
            else None)))"

text \<open>The lines of the body of a block whose header is on line \<open>open_line\<close>.\<close>

definition block_lines :: "located list \<Rightarrow> nat \<Rightarrow> str list \<Rightarrow> str list" where
  "block_lines rest open_line source_lines =
     (let end_idx = (case rest of t # _ \<Rightarrow> tok_line t | [] \<Rightarrow> length source_lines + 1) - 1 in
      if open_line < end_idx \<and> end_idx \<le> length source_lines
      then drop open_line (take end_idx source_lines) else [])"

definition trim_blank_end :: "str list \<Rightarrow> str list" where
  "trim_blank_end ls = rev (dropWhile (\<lambda>l. trim l = []) (rev ls))"

fun check_config_lines :: "nat \<Rightarrow> str list \<Rightarrow> parse_error + unit" where
  "check_config_lines n [] = Inr ()"
| "check_config_lines n (raw # later) =
     (case detect_bare_config_value raw of
        Some (name, val) \<Rightarrow>
          Inl (ParseErr n (''config values are Lua assignments '' @ [CHR 0xE2, CHR 0x80, CHR 0x94] @ '' did you mean '' @ name
       @ '' = '' @ val @ ''?''))
      | None \<Rightarrow> check_config_lines (n + 1) later)"

definition parse_config_block_lua ::
  "located list \<Rightarrow> nat \<Rightarrow> str list \<Rightarrow> parse_error + str \<times> located list" where
  "parse_config_block_lua toks open_line source_lines =
     (let rest = dropWhile (\<lambda>t. \<not> ends_block source_lines t) toks;
          ls = block_lines rest open_line source_lines
      in bind_res (check_config_lines (open_line + 1) ls)
           (\<lambda>_. Inr (join [newline] (trim_blank_end ls), rest)))"

definition parse_register_block_lua :: "located list \<Rightarrow> nat \<Rightarrow> str list \<Rightarrow> str \<times> located list" where
  "parse_register_block_lua toks open_line source_lines =
     (let rest = dropWhile (\<lambda>t. \<not> ends_block source_lines t) toks
      in (join [newline] (trim_blank_end (block_lines rest open_line source_lines)), rest))"

section \<open>Recipes\<close>

fun seal_step :: "str set \<Rightarrow> step \<Rightarrow> step" where
  "seal_step base (CookLine c l) =
     CookLine (c\<lparr>ck_disposition := (ck_disposition c)\<lparr>dp_seal := dp_seal (ck_disposition c) \<union> base\<rparr>\<rparr>) l"
| "seal_step base (TestLine t l) = TestLine (t\<lparr>ts_seal := ts_seal t \<union> base\<rparr>) l"
| "seal_step base s = s"

fun is_sealable :: "step \<Rightarrow> bool" where
  "is_sealable (CookLine c l) = True"
| "is_sealable (TestLine t l) = True"
| "is_sealable _ = False"

definition apply_base_seal :: "step list \<Rightarrow> str set \<Rightarrow> step list" where
  "apply_base_seal steps base = map (seal_step base) steps"

definition finalize_base_seal :: "str \<Rightarrow> nat \<Rightarrow> step list \<Rightarrow> str set \<Rightarrow> parse_error + step list" where
  "finalize_base_seal name recipe_line steps base =
     (if base \<noteq> {} \<and> \<not> list_ex is_sealable steps then
        Inl (ParseErr recipe_line (''seal on recipe '' @ name @ '': no cook or test units to apply to''))
      else Inr (apply_base_seal steps base))"

definition test_tail_error :: "str \<Rightarrow> nat \<Rightarrow> parse_error" where
  "test_tail_error word line =
     (if word = ''seal'' then removed_trailing_seal ''test'' line
      else if word = ''unseal'' then removed_unseal line
      else if word = ''should_fail'' then
        ParseErr line (''test: should_fail was removed in v1.0 '' @ [CHR 0xE2, CHR 0x80, CHR 0x94]
       @ '' invert the check in the body instead'')
      else if word = ''timeout'' then
        ParseErr line (''test: timeout was removed in v1.0 '' @ [CHR 0xE2, CHR 0x80, CHR 0x94]
       @ '' enforce a deadline from inside the test body instead'')
      else if word = ''as'' then
        ParseErr line (''test: as was removed in v1.0 '' @ [CHR 0xE2, CHR 0x80, CHR 0x94]
       @ '' test steps no longer take a custom name'')
      else ParseErr line (''unexpected text after test body: '' @ [squote] @ word @ [squote]))"

definition reject_test_tail :: "str \<Rightarrow> nat \<Rightarrow> parse_error + unit" where
  "reject_test_tail tail line =
     (case split_whitespace tail of [] \<Rightarrow> Inr () | word # _ \<Rightarrow> Inl (test_tail_error word line))"

record recipe_state =
  rs_inputs :: "str list"
  rs_excludes :: "str list"
  rs_steps :: "step list"
  rs_member_seen :: bool
  rs_base_seal :: "str set"
  rs_probes :: "probe_decl list"

definition recipe_start :: recipe_state where
  "recipe_start = \<lparr>rs_inputs = [], rs_excludes = [], rs_steps = [], rs_member_seen = False, rs_base_seal = {}, rs_probes = []\<rparr>"

text \<open>The pieces of a text between separators and White\_Space, with the empty ones.\<close>

function split_pieces :: "(char \<Rightarrow> bool) \<Rightarrow> str \<Rightarrow> str \<Rightarrow> str list" where
  "split_pieces sep cur [] = [cur]"
| "split_pieces sep cur (c # s) =
     (if 0 < ws_width (c # s) then cur # split_pieces sep [] (drop (ws_width (c # s)) (c # s))
      else if sep c then cur # split_pieces sep [] s
      else split_pieces sep (cur @ [c]) s)"
  by pat_completeness auto
termination by (relation "measure (\<lambda>(p, w, s). length s)") (auto simp: less_Suc_eq_le)

definition name_pieces :: "(char \<Rightarrow> bool) \<Rightarrow> str \<Rightarrow> str list" where
  "name_pieces sep s = filter (\<lambda>p. p \<noteq> []) (split_pieces sep [] s)"

definition recipe_seal ::
  "(str \<Rightarrow> u64) \<Rightarrow> str list \<Rightarrow> str \<Rightarrow> nat \<Rightarrow> recipe_state \<Rightarrow> located list \<Rightarrow> parse_error + recipe_state \<times> located list" where
  "recipe_seal xxh3 source_lines rest line st toks =
     (if trim rest = [] then
        Inl (ParseErr line ''seal: a recipe-level `seal` step requires at least one probe ref'')
      else
        (case collect_seal_continuation rest line source_lines of
           (operands, last_line) \<Rightarrow>
             bind_res (parse_seal_operands xxh3 operands line) (\<lambda>parsed.
               Inr (st\<lparr>rs_base_seal := rs_base_seal st \<union> set (so_refs parsed),
                       rs_probes := rs_probes st @ (case so_inline_probe parsed of None \<Rightarrow> [] | Some p \<Rightarrow> [p])\<rparr>,
                    skip_past_line toks last_line))))"

definition recipe_gather ::
  "str list \<Rightarrow> str \<Rightarrow> nat \<Rightarrow> recipe_state \<Rightarrow> located list \<Rightarrow> parse_error + recipe_state \<times> located list" where
  "recipe_gather source_lines rest line st toks =
     (if rs_member_seen st then
        Inl (ParseErr line ''a recipe may declare at most one bare `gather` source'')
      else
        (let head = trim_start rest in
         if starts_with [dquote] head \<or> starts_with ''!'' head then
           (if rs_inputs st \<noteq> [] \<or> rs_excludes st \<noteq> [] then
              Inl (ParseErr line (''duplicate '' @ [squote] @ ''gather'' @ [squote] @ '' line''))
            else
              bind_res (parse_gather_line rest ''gather'' line toks source_lines) (\<lambda>(inc, exc, toks').
                Inr (st\<lparr>rs_inputs := inc, rs_excludes := exc, rs_steps := rs_steps st @ [GatherStep line]\<rparr>, toks')))
         else if rs_inputs st \<noteq> [] \<or> rs_excludes st \<noteq> [] then
           Inl (ParseErr line ''gather: cannot mix glob patterns with a bare source'')
         else
           bind_res (if starts_with ''$<'' head then parse_gather_recipe_ref head line toks
                     else parse_gather_bare_source rest line toks True) (\<lambda>(source, toks').
             Inr (st\<lparr>rs_member_seen := True, rs_steps := rs_steps st @ [MemberStep source line]\<rparr>, toks'))))"

definition recipe_cook ::
  "str list \<Rightarrow> str \<Rightarrow> nat \<Rightarrow> recipe_state \<Rightarrow> located list \<Rightarrow> parse_error + recipe_state \<times> located list" where
  "recipe_cook source_lines rest line st toks =
     bind_res (parse_cook_line rest line toks source_lines) (\<lambda>(c, toks').
       Inr (st\<lparr>rs_steps := rs_steps st @ [CookLine c line]\<rparr>, toks'))"

definition recipe_test ::
  "str list \<Rightarrow> str \<Rightarrow> nat \<Rightarrow> recipe_state \<Rightarrow> located list \<Rightarrow> parse_error + recipe_state \<times> located list" where
  "recipe_test source_lines rest line st toks =
     bind_res (parse_body_payload rest line toks source_lines ''test'') (\<lambda>(b, trailing, toks').
     bind_res (reject_test_tail trailing line) (\<lambda>_.
       Inr (st\<lparr>rs_steps := rs_steps st @ [TestLine \<lparr>ts_body = b, ts_seal = {}\<rparr> line]\<rparr>, toks')))"

text \<open>A \<open>register\<close> that is followed by a separator, where a register block may not stand.\<close>

definition misplaced_register :: "str \<Rightarrow> bool" where
  "misplaced_register s \<longleftrightarrow>
     starts_with ''register'' (trim s) \<and> first_is (\<lambda>c. c = CHR '' '' \<or> c = tab) (drop 8 (trim s))"

definition loose_content :: "str \<Rightarrow> nat \<Rightarrow> parse_error" where
  "loose_content s line =
     (if starts_with ''@'' s then ParseErr line
        (''the `@` interactive prefix was removed from the language (CS-0134); recipes are declarative and chore commands are interactive by default ''
       @ [CHR 0xE2, CHR 0x80, CHR 0x94] @ '' drop the `@`'')
      else if misplaced_register s then ParseErr line
        ''`register` blocks are top-level only; move this outside the recipe body''
      else ParseErr line
        (''loose shell commands are not allowed in a recipe body (CS-0134): `'' @ trim s
       @ ''`; move it into a `cook '' @ [dquote] @ ''out'' @ [dquote] @ '' { ''
       @ [CHR 0xE2, CHR 0x80, CHR 0xA6] @ '' }` body or a chore''))"

definition recipe_content ::
  "parser_env \<Rightarrow> str list \<Rightarrow> str \<Rightarrow> nat \<Rightarrow> recipe_state \<Rightarrow> located list \<Rightarrow> parse_error + (recipe_state \<times> located list) option" where
  "recipe_content env source_lines s line st toks =
     (if is_module_call s then
        (if \<not> starts_ws (source_line source_lines line) then Inr None
         else
           bind_res (collect_module_call s line toks source_lines) (\<lambda>(code, toks').
             Inr (Some (st\<lparr>rs_steps := rs_steps st @ [InlineLuaStep code line]\<rparr>, toks'))))
      else
        (case strip_keyword s ''seal'' of
           Some rest \<Rightarrow> bind_res (recipe_seal (pe_xxh3 env) source_lines rest line st toks) (Inr \<circ> Some)
         | None \<Rightarrow>
        (case strip_keyword s ''unseal'' of
           Some _ \<Rightarrow> Inl (removed_unseal line)
         | None \<Rightarrow>
        (case strip_keyword s ''envs'' of
           Some rest \<Rightarrow>
             Inl (removed_envs ''envs''
                   (name_pieces (\<lambda>c. c = CHR '','' \<or> c = CHR ''{'' \<or> c = CHR ''}'') rest) line)
         | None \<Rightarrow>
        (case strip_keyword s ''ingredients'' of
           Some _ \<Rightarrow> Inl (ParseErr line ingredients_removed)
         | None \<Rightarrow>
        (case strip_keyword s ''gather'' of
           Some rest \<Rightarrow> bind_res (recipe_gather source_lines rest line st toks) (Inr \<circ> Some)
         | None \<Rightarrow>
        (case strip_keyword s ''cook'' of
           Some rest \<Rightarrow> bind_res (recipe_cook source_lines rest line st toks) (Inr \<circ> Some)
         | None \<Rightarrow>
        (case strip_keyword s ''test'' of
           Some rest \<Rightarrow> bind_res (recipe_test source_lines rest line st toks) (Inr \<circ> Some)
         | None \<Rightarrow> Inl (loose_content s line)))))))))"

definition lua_line_banned :: str where
  "lua_line_banned = (''execute-phase `>` Lua is not allowed in a recipe body (CS-0134); use `cook '' @ [dquote] @ ''out''
       @ [dquote] @ '' >{ '' @ [CHR 0xE2, CHR 0x80, CHR 0xA6] @ '' }`, `test >{ ''
       @ [CHR 0xE2, CHR 0x80, CHR 0xA6] @ '' }`, or a chore'')"

definition lua_block_banned :: str where
  "lua_block_banned = (''execute-phase `>{ '' @ [CHR 0xE2, CHR 0x80, CHR 0xA6]
       @ '' }` Lua block is not allowed in a recipe body (CS-0134); use `cook '' @ [dquote]
       @ ''out'' @ [dquote] @ '' >{ '' @ [CHR 0xE2, CHR 0x80, CHR 0xA6] @ '' }`, `test >{ ''
       @ [CHR 0xE2, CHR 0x80, CHR 0xA6] @ '' }`, or a chore'')"

definition inline_lua_removed :: str where
  "inline_lua_removed = ''the register-phase `>>` sigil was removed (CS-0134); write a bare `module.call()` in the recipe body, or move register work to a top-level `register` block''"

definition inline_block_removed :: str where
  "inline_block_removed = (''the register-phase `>>{ '' @ [CHR 0xE2, CHR 0x80, CHR 0xA6]
       @ '' }` sigil was removed (CS-0134); move it into a top-level `register` block'')"

definition recipe_step ::
  "parser_env \<Rightarrow> str list \<Rightarrow> located \<Rightarrow> recipe_state \<Rightarrow> located list \<Rightarrow> parse_error + (recipe_state \<times> located list) option" where
  "recipe_step env source_lines tok st toks =
     (if is_top_level (tok_value tok) then Inr None
      else
        (case tok_value tok of
           ContentTok s \<Rightarrow> recipe_content env source_lines s (tok_line tok) st toks
         | LuaLineTok _ \<Rightarrow> Inl (ParseErr (tok_line tok) lua_line_banned)
         | LuaBlockOpen \<Rightarrow> Inl (ParseErr (tok_line tok) lua_block_banned)
         | InlineLuaLine _ \<Rightarrow> Inl (ParseErr (tok_line tok) inline_lua_removed)
         | InlineLuaBlockOpen \<Rightarrow> Inl (ParseErr (tok_line tok) inline_block_removed)
         | _ \<Rightarrow> Inr (Some (st, tl toks))))"

lemma seal_continuation_last: "seal_continuation s n later = (w, l) \<Longrightarrow> n \<le> l"
  by (induction s n later rule: seal_continuation.induct) (auto split: if_splits)

lemma skip_this_line: "n \<le> l \<Longrightarrow> tok_line tok = n \<Longrightarrow> length (skip_past_line (tok # toks) l) < length (tok # toks)"
  by (simp add: skip_past_line_def less_Suc_eq_le length_dropWhile_le)

lemma recipe_seal_length:
  assumes "recipe_seal h src s (tok_line tok) st (tok # toks) = Inr (st', rest)"
  shows "length rest < length (tok # toks)"
proof -
  obtain w l where c: "collect_seal_continuation s (tok_line tok) src = (w, l)"
    by (cases "collect_seal_continuation s (tok_line tok) src")
  then have "tok_line tok \<le> l" unfolding collect_seal_continuation_def by (rule seal_continuation_last)
  moreover have "rest = skip_past_line (tok # toks) l"
    using assms c by (auto simp: recipe_seal_def bind_res_Inr_iff split: if_splits)
  ultimately show ?thesis using skip_this_line[of "tok_line tok" l tok toks] by simp
qed

lemma recipe_gather_length:
  "recipe_gather src s l st toks = Inr (st', rest) \<Longrightarrow> toks \<noteq> [] \<Longrightarrow> length rest < length toks"
  by (auto simp: recipe_gather_def Let_def bind_res_Inr_iff split: if_splits
      dest: gather_line_length gather_ref_length gather_bare_length)

lemma recipe_cook_length:
  "recipe_cook src s l st toks = Inr (st', rest) \<Longrightarrow> toks \<noteq> [] \<Longrightarrow> length rest < length toks"
  by (auto simp: recipe_cook_def bind_res_Inr_iff dest: cook_line_length)

lemma recipe_test_length:
  assumes "recipe_test src s l st toks = Inr (st', rest)" and "toks \<noteq> []"
  shows "length rest < length toks"
proof -
  obtain b t where "parse_body_payload s l toks src ''test'' = Inr (b, t, rest)"
    using assms(1) by (auto simp: recipe_test_def bind_res_Inr_iff)
  from body_length[OF this] show ?thesis using assms(2) by (cases toks) auto
qed

text \<open>What can have gone on when a line of a recipe does not end it.\<close>

lemma recipe_content_cases:
  assumes "recipe_content env src s line st toks = Inr (Some (st', rest))"
  obtains (call) code where "collect_module_call s line toks src = Inr (code, rest)" "is_module_call s"
      "st' = st\<lparr>rs_steps := rs_steps st @ [InlineLuaStep code line]\<rparr>"
    | (seal) r where "recipe_seal (pe_xxh3 env) src r line st toks = Inr (st', rest)" "strip_keyword s ''seal'' = Some r"
    | (gather) r where "recipe_gather src r line st toks = Inr (st', rest)" "strip_keyword s ''seal'' = None"
    | (cook) r where "recipe_cook src r line st toks = Inr (st', rest)" "strip_keyword s ''seal'' = None"
    | (test) r where "recipe_test src r line st toks = Inr (st', rest)" "strip_keyword s ''seal'' = None"
proof (cases "is_module_call s")
  case True
  then show thesis
    using assms call by (auto simp: recipe_content_def bind_res_Inr_iff split: if_splits)
next
  case False
  note d = assms[unfolded recipe_content_def, simplified False, simplified]
  consider (seal) r where "strip_keyword s ''seal'' = Some r"
    | (none) "strip_keyword s ''seal'' = None" by (cases "strip_keyword s ''seal''") auto
  then show thesis
  proof cases
    case (seal r)
    then show thesis using d that(2) by (auto simp: bind_res_Inr_iff)
  next
    case none
    then show thesis using d that(3-5) by (auto simp: bind_res_Inr_iff split: option.splits)
  qed
qed

lemma recipe_content_length:
  assumes "recipe_content env src s (tok_line tok) st (tok # toks) = Inr (Some (st', rest))"
  shows "length rest < length (tok # toks)"
  using assms
proof (cases rule: recipe_content_cases)
  case (call code)
  then show ?thesis using module_call_length by blast
next
  case (seal r)
  from seal(1) show ?thesis by (rule recipe_seal_length)
next
  case (gather r)
  then show ?thesis using recipe_gather_length by blast
next
  case (cook r)
  then show ?thesis using recipe_cook_length by blast
next
  case (test r)
  then show ?thesis using recipe_test_length by blast
qed

lemma recipe_step_length:
  "recipe_step env src tok st (tok # toks) = Inr (Some (st', rest)) \<Longrightarrow> length rest < length (tok # toks)"
  using recipe_content_length[of env src _ tok st toks st' rest]
  by (auto simp: recipe_step_def split: if_splits token.splits)

function recipe_loop ::
  "parser_env \<Rightarrow> str list \<Rightarrow> recipe_state \<Rightarrow> located list \<Rightarrow> parse_error + recipe_state \<times> located list" where
  "recipe_loop env source_lines st [] = Inr (st, [])"
| "recipe_loop env source_lines st (tok # toks) =
     (case recipe_step env source_lines tok st (tok # toks) of
        Inl e \<Rightarrow> Inl e
      | Inr None \<Rightarrow> Inr (st, tok # toks)
      | Inr (Some (st', toks')) \<Rightarrow> recipe_loop env source_lines st' toks')"
  by pat_completeness auto
termination
  by (relation "measure (\<lambda>(e, s, st, toks). length toks)") (auto dest: recipe_step_length)

interpretation recipe_body: body_loop "recipe_step env source_lines" "recipe_loop env source_lines"
  for env source_lines
  by unfold_locales (simp_all, rule recipe_step_length[simplified])

definition parse_recipe ::
  "parser_env \<Rightarrow> str \<Rightarrow> str list \<Rightarrow> nat \<Rightarrow> located list \<Rightarrow> str list
    \<Rightarrow> parse_error + recipe_decl \<times> probe_decl list \<times> located list" where
  "parse_recipe env name deps recipe_line toks source_lines =
     bind_res (recipe_loop env source_lines recipe_start toks) (\<lambda>(st, rest).
     bind_res (finalize_base_seal name recipe_line (rs_steps st) (rs_base_seal st)) (\<lambda>steps.
       Inr (\<lparr>rd_name = name, rd_description = None, rd_deps = deps, rd_inputs = rs_inputs st,
             rd_excludes = rs_excludes st, rd_steps = steps, rd_line = recipe_line\<rparr>,
            rs_probes st, rest)))"

section \<open>Chores\<close>

definition banned_operand :: "parser_env \<Rightarrow> str \<Rightarrow> str \<Rightarrow> bool" where
  "banned_operand env keyword rest \<longleftrightarrow>
     keyword \<noteq> ''test'' \<and> (starts_with [dquote] rest \<or> starts_with [squote] rest) \<or>
     keyword = ''gather'' \<and> starts_with ''!'' rest \<or>
     keyword = ''test'' \<and> (starts_with ''{'' rest \<or> starts_with ''>'' rest) \<or>
     keyword = ''cook'' \<and> starts_with ''('' rest \<or>
     keyword = ''gather'' \<and> rest \<noteq> [] \<and>
       (pe_alphabetic env (hd (chars_of rest)) \<or> hd (chars_of rest) = ''_'') \<and>
       list_all (\<lambda>c. pe_alphanumeric env c \<or> c \<in> set [''_'', ''.'', ''-'', '':'']) (chars_of rest)"

fun first_keyword :: "str list \<Rightarrow> str \<Rightarrow> (str \<times> str) option" where
  "first_keyword [] s = None"
| "first_keyword (k # ks) s =
     (case strip_keyword s k of Some rest \<Rightarrow> Some (k, rest) | None \<Rightarrow> first_keyword ks s)"

definition chore_banned_step_kind :: "parser_env \<Rightarrow> str \<Rightarrow> str option" where
  "chore_banned_step_kind env s =
     (case first_keyword [''gather'', ''cook'', ''test''] s of
        None \<Rightarrow> None
      | Some (keyword, rest) \<Rightarrow> if banned_operand env keyword rest then Some keyword else None)"

definition chore_banned :: "str \<Rightarrow> nat \<Rightarrow> parse_error" where
  "chore_banned keyword line =
     (let kind_descriptor = (if keyword = ''inputs'' then ''inputs''
        else if keyword = ''cook'' then ''outputs''
        else if keyword = ''test'' then ''tested outputs'' else ''targets'')
      in ParseErr line ([squote] @ keyword @ [squote] @ '' is not allowed in a chore; use '' @ [squote] @ ''recipe''
       @ [squote] @ '' for build '' @ kind_descriptor))"

definition chore_content ::
  "parser_env \<Rightarrow> str list \<Rightarrow> str \<Rightarrow> nat \<Rightarrow> step list \<Rightarrow> located list \<Rightarrow> parse_error + (step list \<times> located list) option" where
  "chore_content env source_lines s line steps toks =
     (if top_level_call source_lines line s then Inr None
      else if strip_keyword s ''ingredients'' \<noteq> None then Inl (ParseErr line ingredients_removed)
      else
        (case chore_banned_step_kind env s of
           Some keyword \<Rightarrow> Inl (chore_banned keyword line)
         | None \<Rightarrow>
             if starts_with ''@'' s then Inl (ParseErr line
               (''the `@` interactive prefix was removed from the language (CS-0134); chore commands are interactive by default ''
       @ [CHR 0xE2, CHR 0x80, CHR 0x94] @ '' drop the `@`''))
             else if misplaced_register s then Inl (ParseErr line
               ''`register` blocks are top-level only; move this outside the chore body'')
             else Inr (Some (steps @ [ShellStep s line True], tl toks))))"

definition chore_lua_block ::
  "str list \<Rightarrow> nat \<Rightarrow> step list \<Rightarrow> located list \<Rightarrow> parse_error + (step list \<times> located list) option" where
  "chore_lua_block source_lines line steps toks =
     (let after_open = (case strip_prefix ''>{'' (trim_start (source_line source_lines line)) of Some t \<Rightarrow> t | None \<Rightarrow> [])
      in bind_res (collect_lua_block line after_open (tl toks) source_lines) (\<lambda>(code, tail, toks').
         bind_res (reject_stray_tail tail line ''chore'') (\<lambda>_.
           Inr (Some (steps @ [LuaBlockStep code line], toks')))))"

definition chore_step ::
  "parser_env \<Rightarrow> str list \<Rightarrow> located \<Rightarrow> step list \<Rightarrow> located list \<Rightarrow> parse_error + (step list \<times> located list) option" where
  "chore_step env source_lines tok steps toks =
     (if is_top_level (tok_value tok) then Inr None
      else
        (case tok_value tok of
           ContentTok s \<Rightarrow> chore_content env source_lines s (tok_line tok) steps toks
         | LuaLineTok code \<Rightarrow> Inr (Some (steps @ [LuaStep code (tok_line tok)], tl toks))
         | LuaBlockOpen \<Rightarrow> chore_lua_block source_lines (tok_line tok) steps toks
         | InlineLuaLine _ \<Rightarrow> Inl (ParseErr (tok_line tok) inline_lua_removed)
         | InlineLuaBlockOpen \<Rightarrow> Inl (ParseErr (tok_line tok) inline_block_removed)
         | _ \<Rightarrow> Inr (Some (steps, tl toks))))"

lemma chore_step_length:
  "chore_step env src tok steps (tok # toks) = Inr (Some (steps', rest)) \<Longrightarrow> length rest < length (tok # toks)"
  by (auto simp: chore_step_def chore_content_def chore_lua_block_def Let_def bind_res_Inr_iff less_Suc_eq_le
      split: if_splits token.splits option.splits dest: collect_lua_length)

function chore_loop ::
  "parser_env \<Rightarrow> str list \<Rightarrow> step list \<Rightarrow> located list \<Rightarrow> parse_error + step list \<times> located list" where
  "chore_loop env source_lines steps [] = Inr (steps, [])"
| "chore_loop env source_lines steps (tok # toks) =
     (case chore_step env source_lines tok steps (tok # toks) of
        Inl e \<Rightarrow> Inl e
      | Inr None \<Rightarrow> Inr (steps, tok # toks)
      | Inr (Some (steps', toks')) \<Rightarrow> chore_loop env source_lines steps' toks')"
  by pat_completeness auto
termination
  by (relation "measure (\<lambda>(e, s, st, toks). length toks)") (auto dest: chore_step_length)

interpretation chore_body: body_loop "chore_step env source_lines" "chore_loop env source_lines"
  for env source_lines
  by unfold_locales (simp_all, rule chore_step_length[simplified])

definition parse_chore ::
  "parser_env \<Rightarrow> str \<Rightarrow> chore_param list \<Rightarrow> str list \<Rightarrow> nat \<Rightarrow> located list \<Rightarrow> str list
    \<Rightarrow> parse_error + chore_decl \<times> located list" where
  "parse_chore env name params deps chore_line toks source_lines =
     bind_res (chore_loop env source_lines [] toks) (\<lambda>(steps, rest).
       Inr (\<lparr>ch_name = name, ch_description = None, ch_params = params, ch_deps = deps, ch_steps = steps,
             ch_line = chore_line\<rparr>, rest))"

end
