(* ===== verification/Probe_Parser.thy ===== *)
theory Probe_Parser
  imports Recipe_Parser
begin

text \<open>
  The bodies of \<open>probe\<close>, \<open>files\<close> and \<open>tools\<close> declarations (\<open>cook-lang/src/probe.rs\<close>).
\<close>

section \<open>Name and glob lists\<close>

text \<open>What stands between the braces of a list.\<close>

definition brace_list :: "str \<Rightarrow> str option" where
  "brace_list body_src =
     (case strip_prefix ''{'' (trim_start body_src) of
        None \<Rightarrow> None
      | Some t \<Rightarrow> strip_suffix ''}'' (trim_end t))"

definition is_env_name :: "str \<Rightarrow> bool" where
  "is_env_name tok \<longleftrightarrow> first_is is_bare_name_start tok \<and> list_all is_param_char tok"

definition source_name :: "str \<Rightarrow> nat \<Rightarrow> str \<Rightarrow> parse_error + str" where
  "source_name kind line tok =
     (if (if kind = ''tools'' then is_tool_name tok else is_env_name tok) then Inr tok
      else
        (let charset = (if kind = ''tools'' then ''[A-Za-z_][A-Za-z0-9_.-]*'' else ''[A-Za-z_][A-Za-z0-9_]*'')
         in Inl (ParseErr line (kind @ '': invalid name '' @ [squote] @ tok @ [squote] @ ''; names must be bare identifiers (''
       @ charset @ '')''))))"

definition parse_source_name_list :: "str \<Rightarrow> nat \<Rightarrow> str \<Rightarrow> parse_error + str list" where
  "parse_source_name_list body_src line kind =
     (case brace_list body_src of
        None \<Rightarrow> Inl (ParseErr line (kind @ '': expected a brace name list `{ a, b }` on one line''))
      | Some inner \<Rightarrow>
          bind_res (map_res (source_name kind line) (name_pieces (\<lambda>c. c = CHR '','') inner)) (\<lambda>names.
            if names = [] then Inl (ParseErr line (kind @ '': expected at least one name in `{ '' @ [CHR 0xE2, CHR 0x80, CHR 0xA6] @ '' }`''))
            else Inr names))"

lemma glob_rest_length:
  assumes "strip_prefix [dquote] u = Some r" and "split_once dquote r = Some (p, t)"
  shows "length (trim_start (trim_start_matches CHR '','' t)) < length u"
  using assms trim_start_length[of "trim_start_matches CHR '','' t"] trim_start_matches_length[of "CHR '',''" t]
  by (simp add: strip_prefix_iff split_once_Some)

function glob_list :: "nat \<Rightarrow> str \<Rightarrow> parse_error + str list \<times> str list" where
  "glob_list line rest =
     (if rest = [] then Inr ([], [])
      else
        (let is_exc = starts_with ''!'' rest;
             u = (if is_exc then tl rest else rest)
         in
         case strip_prefix [dquote] u of
           None \<Rightarrow> Inl (ParseErr line (''files: expected a quoted glob (`'' @ [dquote, CHR 0xE2, CHR 0x80, CHR 0xA6, dquote] @ ''` or `!''
       @ [dquote, CHR 0xE2, CHR 0x80, CHR 0xA6, dquote] @ ''`), found: '' @ u))
         | Some r \<Rightarrow>
             (case split_once dquote r of
                None \<Rightarrow> Inl (ParseErr line ''files: unterminated quoted glob'')
              | Some (pat, t) \<Rightarrow>
                  bind_res (glob_list line (trim_start (trim_start_matches CHR '','' t))) (\<lambda>(gs, xs).
                    Inr (if is_exc then (gs, pat # xs) else (pat # gs, xs))))))"
  by pat_completeness auto
termination
proof (relation "measure (\<lambda>(l, s). length s)", goal_cases)
  case (2 line rest is_exc u r x pat t)
  have "length u \<le> length rest" using 2(3) by simp
  then show ?case using glob_rest_length[of u r pat t] 2 by simp
qed simp

declare glob_list.simps [simp del]

definition parse_files_glob_list :: "str \<Rightarrow> nat \<Rightarrow> bool \<Rightarrow> parse_error + str list \<times> str list" where
  "parse_files_glob_list body_src line require_include =
     (case brace_list body_src of
        None \<Rightarrow> Inl (ParseErr line (''files: expected a brace glob list `{ '' @ [dquote] @ ''a/*.c'' @ [dquote] @ '' !'' @ [dquote]
       @ ''a/gen/*.c'' @ [dquote] @ '' }` on one line''))
      | Some inner \<Rightarrow>
          bind_res (glob_list line (trim inner)) (\<lambda>(globs, excludes).
            if require_include \<and> globs = [] then
              Inl (ParseErr line (''files: expected at least one quoted glob in `{ '' @ [CHR 0xE2, CHR 0x80, CHR 0xA6] @ '' }`''))
            else Inr (globs, excludes)))"

fun covers_error :: "parse_error \<Rightarrow> parse_error" where
  "covers_error (ParseErr line message) = ParseErr line (''covers: operands are quoted roots (`'' @ [dquote, CHR 0xE2, CHR 0x80, CHR 0xA6, dquote] @ ''`); ''
       @ message)"
| "covers_error (LexErr e) = LexErr e"

definition parse_covers_operands :: "str \<Rightarrow> nat \<Rightarrow> parse_error + str list" where
  "parse_covers_operands rest line =
     (case parse_files_glob_list (''{'' @ trim rest @ ''}'') line True of
        Inl e \<Rightarrow> Inl (covers_error e)
      | Inr (roots, excludes) \<Rightarrow>
          if excludes \<noteq> [] then
            Inl (ParseErr line ''covers: `!` excludes are not admitted; operands are quoted roots'')
          else Inr roots)"

section \<open>Producers\<close>

definition finish_typed_shell ::
  "str \<Rightarrow> shell_produce_type \<Rightarrow> nat \<Rightarrow> located list \<Rightarrow> str list \<Rightarrow> parse_error + probe_produce \<times> located list" where
  "finish_typed_shell tail typing line toks source_lines =
     bind_res (parse_body_payload tail line toks source_lines ''probe'') (\<lambda>(b, block_tail, rest).
     bind_res (reject_stray_tail block_tail line ''probe'') (\<lambda>_.
       case b of
         LuaBlock _ \<Rightarrow> Inl (ParseErr line (''probe: `json`/`lines` is only valid on a shell block; a `>{ '' @ [CHR 0xE2, CHR 0x80, CHR 0xA6]
       @ '' }` Lua block already returns a structured value''))
       | ShellBlock cmds \<Rightarrow> Inr (ProduceShell cmds typing, rest)))"

definition parse_producer ::
  "str \<Rightarrow> nat \<Rightarrow> located list \<Rightarrow> str list \<Rightarrow> parse_error + probe_produce \<times> located list" where
  "parse_producer src line toks source_lines =
     (let s = trim_start src in
      case strip_keyword s ''envs'' of
        Some tail \<Rightarrow>
          (let names = (case parse_source_name_list tail line ''envs'' of Inr ns \<Rightarrow> ns | Inl _ \<Rightarrow> [])
           in Inl (removed_envs (''envs { '' @ [CHR 0xE2, CHR 0x80, CHR 0xA6] @ '' }'') names line))
      | None \<Rightarrow>
      (case strip_keyword s ''json'' of
         Some tail \<Rightarrow> finish_typed_shell tail JsonTyped line toks source_lines
       | None \<Rightarrow>
       (case strip_keyword s ''lines'' of
          Some tail \<Rightarrow> finish_typed_shell tail LinesTyped line toks source_lines
        | None \<Rightarrow>
            bind_res (parse_body_payload s line toks source_lines ''probe'') (\<lambda>(b, block_tail, rest).
            bind_res (reject_stray_tail block_tail line ''probe'') (\<lambda>_.
              Inr ((case b of LuaBlock code \<Rightarrow> ProduceLua code | ShellBlock cmds \<Rightarrow> ProduceShell cmds StringTyped),
                   rest))))))"

lemma typed_shell_body:
  "finish_typed_shell a ty l toks src = Inr (p, rest) \<Longrightarrow>
     \<exists>b t. parse_body_payload a l toks src ''probe'' = Inr (b, t, rest)"
  by (cases "parse_body_payload a l toks src ''probe''")
    (auto simp: finish_typed_shell_def bind_res_split split: sum.splits body.splits prod.splits)

lemma producer_length:
  assumes "parse_producer s l toks src = Inr (p, rest)" and "toks \<noteq> []"
  shows "length rest < length toks"
proof -
  let ?s = "trim_start s"
  have "\<exists>a b t. parse_body_payload a l toks src ''probe'' = Inr (b, t, rest)"
  proof (cases "strip_keyword ?s ''json'' = None \<and> strip_keyword ?s ''lines'' = None")
    case True
    then show ?thesis using assms(1) by (auto simp: parse_producer_def Let_def bind_res_Inr_iff split: option.splits)
  next
    case False
    then have "\<exists>a ty. finish_typed_shell a ty l toks src = Inr (p, rest)"
      using assms(1) by (auto simp: parse_producer_def Let_def split: option.splits)
    then show ?thesis using typed_shell_body by blast
  qed
  then obtain a b t where "parse_body_payload a l toks src ''probe'' = Inr (b, t, rest)" by blast
  from body_length[OF this] show ?thesis using assms(2) by (cases toks) auto
qed

section \<open>Probes\<close>

record probe_state =
  ps_deps :: "str list"
  ps_producer :: "probe_produce option"
  ps_seal_seen :: bool
  ps_covers :: "str list option"
  ps_inline :: "probe_decl list"

definition probe_start :: "str list \<Rightarrow> probe_state" where
  "probe_start deps = \<lparr>ps_deps = deps, ps_producer = None, ps_seal_seen = False, ps_covers = None, ps_inline = []\<rparr>"

definition probe_covers ::
  "str \<Rightarrow> str \<Rightarrow> nat \<Rightarrow> probe_state \<Rightarrow> located list \<Rightarrow> parse_error + probe_state \<times> located list" where
  "probe_covers name rest line st toks =
     (if ps_producer st \<noteq> None then
        Inl (ParseErr line (''probe '' @ [squote] @ name @ [squote] @ '': `covers` must appear before the producer''))
      else if ps_covers st \<noteq> None then
        Inl (ParseErr line (''probe '' @ [squote] @ name @ [squote] @ '': at most one `covers` per probe''))
      else
        bind_res (parse_covers_operands rest line) (\<lambda>roots. Inr (st\<lparr>ps_covers := Some roots\<rparr>, tl toks)))"

definition probe_seal ::
  "(str \<Rightarrow> u64) \<Rightarrow> str list \<Rightarrow> str \<Rightarrow> str \<Rightarrow> nat \<Rightarrow> probe_state \<Rightarrow> located list \<Rightarrow> parse_error + probe_state \<times> located list" where
  "probe_seal xxh3 source_lines name rest line st toks =
     (if ps_producer st \<noteq> None then
        Inl (ParseErr line (''probe '' @ [squote] @ name @ [squote] @ '': `seal` must appear before the producer''))
      else if ps_seal_seen st then
        Inl (ParseErr line (''probe '' @ [squote] @ name @ [squote] @ '': at most one `seal` per probe''))
      else if trim rest = [] then
        Inl (ParseErr line ''seal: a probe-level `seal` requires at least one probe ref'')
      else
        (case collect_seal_continuation rest line source_lines of
           (operands, last_line) \<Rightarrow>
             bind_res (parse_seal_operands xxh3 operands line) (\<lambda>parsed.
               Inr (st\<lparr>ps_deps := ps_deps st @ so_refs parsed,
                       ps_inline := ps_inline st @ (case so_inline_probe parsed of None \<Rightarrow> [] | Some p \<Rightarrow> [p]),
                       ps_seal_seen := True\<rparr>,
                    skip_past_line toks last_line))))"

definition set_in_probe :: str where
  "set_in_probe = (''`files` and `tools` are top-level declarations; for determinants:'' @ [newline]
       @ ''    files core:src'' @ [newline] @ ''        '' @ [dquote] @ ''src/**/*.rs'' @ [dquote]
       @ '' '' @ [dquote] @ ''Cargo.toml'' @ [dquote, newline] @ ''    tools core:toolchain''
       @ [newline] @ ''        cc ld'' @ [newline] @ ''    recipe build'' @ [newline]
       @ ''        seal core:src core:toolchain'')"

definition probe_producer ::
  "str list \<Rightarrow> str \<Rightarrow> nat \<Rightarrow> probe_state \<Rightarrow> located list \<Rightarrow> parse_error + probe_state \<times> located list" where
  "probe_producer source_lines s line st toks =
     (if ps_producer st \<noteq> None then Inl (ParseErr line ''probe: at most one producer per probe'')
      else
        bind_res (parse_producer s line toks source_lines) (\<lambda>(p, rest). Inr (st\<lparr>ps_producer := Some p\<rparr>, rest)))"

definition probe_content ::
  "(str \<Rightarrow> u64) \<Rightarrow> str list \<Rightarrow> str \<Rightarrow> str \<Rightarrow> nat \<Rightarrow> probe_state \<Rightarrow> located list \<Rightarrow> parse_error + probe_state \<times> located list" where
  "probe_content xxh3 source_lines name s line st toks =
     (if strip_keyword s ''ingredients'' \<noteq> None then Inl (ParseErr line ingredients_removed)
      else
        (case strip_keyword s ''covers'' of
           Some rest \<Rightarrow> probe_covers name rest line st toks
         | None \<Rightarrow>
        (case strip_keyword s ''seal'' of
           Some rest \<Rightarrow> probe_seal xxh3 source_lines name rest line st toks
         | None \<Rightarrow>
             if strip_keyword s ''files'' \<noteq> None \<or> strip_keyword s ''tools'' \<noteq> None then
               Inl (ParseErr line set_in_probe)
             else probe_producer source_lines s line st toks)))"

definition probe_step ::
  "(str \<Rightarrow> u64) \<Rightarrow> str list \<Rightarrow> str \<Rightarrow> located \<Rightarrow> probe_state \<Rightarrow> located list
    \<Rightarrow> parse_error + (probe_state \<times> located list) option" where
  "probe_step xxh3 source_lines name tok st toks =
     (if is_top_level (tok_value tok) then Inr None
      else
        (case tok_value tok of
           CommentTok _ \<Rightarrow> Inr (Some (st, tl toks))
         | BlankTok \<Rightarrow> Inr (Some (st, tl toks))
         | LuaBlockOpen \<Rightarrow>
             bind_res (probe_producer source_lines (trim_start (source_line source_lines (tok_line tok)))
                         (tok_line tok) st toks) (Inr \<circ> Some)
         | ContentTok s \<Rightarrow>
             if top_level_call source_lines (tok_line tok) s then Inr None
             else bind_res (probe_content xxh3 source_lines name s (tok_line tok) st toks) (Inr \<circ> Some)
         | _ \<Rightarrow> Inl (ParseErr (tok_line tok)
             (''probe body: only `seal` and a producer (`{ '' @ [CHR 0xE2, CHR 0x80, CHR 0xA6]
       @ '' }`, `json`/`lines`, or `>{ '' @ [CHR 0xE2, CHR 0x80, CHR 0xA6]
       @ '' }`) are allowed here''))))"

lemma probe_producer_length:
  "probe_producer src s l st toks = Inr (st', rest) \<Longrightarrow> toks \<noteq> [] \<Longrightarrow> length rest < length toks"
  by (auto simp: probe_producer_def bind_res_Inr_iff split: if_splits dest: producer_length)

lemma probe_seal_length:
  assumes "probe_seal h src n s (tok_line tok) st (tok # toks) = Inr (st', rest)"
  shows "length rest < length (tok # toks)"
proof -
  obtain w l where c: "collect_seal_continuation s (tok_line tok) src = (w, l)"
    by (cases "collect_seal_continuation s (tok_line tok) src")
  then have "tok_line tok \<le> l" unfolding collect_seal_continuation_def by (rule seal_continuation_last)
  moreover have "rest = skip_past_line (tok # toks) l"
    using assms c by (auto simp: probe_seal_def bind_res_Inr_iff split: if_splits)
  ultimately show ?thesis using skip_this_line[of "tok_line tok" l tok toks] by simp
qed

lemma probe_content_cases:
  assumes "probe_content h src n s line st toks = Inr (st', rest)"
  obtains (covers) r where "probe_covers n r line st toks = Inr (st', rest)"
    | (seal) r where "probe_seal h src n r line st toks = Inr (st', rest)"
    | (producer) "probe_producer src s line st toks = Inr (st', rest)"
  using assms by (auto simp: probe_content_def split: if_splits option.splits)

lemma probe_content_length:
  assumes "probe_content h src n s (tok_line tok) st (tok # toks) = Inr (st', rest)"
  shows "length rest < length (tok # toks)"
  using assms
proof (cases rule: probe_content_cases)
  case (covers r)
  then show ?thesis by (auto simp: probe_covers_def bind_res_Inr_iff split: if_splits)
next
  case (seal r)
  then show ?thesis by (rule probe_seal_length)
next
  case producer
  then show ?thesis using probe_producer_length by blast
qed

lemma probe_step_length:
  assumes "probe_step h src n tok st (tok # toks) = Inr (Some (st', rest))"
  shows "length rest < length (tok # toks)"
  using assms probe_content_length[of h src n _ tok st toks st' rest]
    probe_producer_length[of src _ "tok_line tok" st "tok # toks" st' rest]
  by (auto simp: probe_step_def bind_res_Inr_iff split: if_splits token.splits)

function probe_loop ::
  "(str \<Rightarrow> u64) \<Rightarrow> str list \<Rightarrow> str \<Rightarrow> probe_state \<Rightarrow> located list \<Rightarrow> parse_error + probe_state \<times> located list" where
  "probe_loop xxh3 source_lines name st [] = Inr (st, [])"
| "probe_loop xxh3 source_lines name st (tok # toks) =
     (case probe_step xxh3 source_lines name tok st (tok # toks) of
        Inl e \<Rightarrow> Inl e
      | Inr None \<Rightarrow> Inr (st, tok # toks)
      | Inr (Some (st', toks')) \<Rightarrow> probe_loop xxh3 source_lines name st' toks')"
  by pat_completeness auto
termination
  by (relation "measure (\<lambda>(h, s, n, st, toks). length toks)") (auto dest: probe_step_length)

interpretation probe_body: body_loop "probe_step xxh3 source_lines name" "probe_loop xxh3 source_lines name"
  for xxh3 source_lines name
  by unfold_locales (simp_all, rule probe_step_length[simplified])

definition parse_probe ::
  "(str \<Rightarrow> u64) \<Rightarrow> str \<Rightarrow> str list \<Rightarrow> nat \<Rightarrow> located list \<Rightarrow> str list
    \<Rightarrow> parse_error + probe_decl \<times> probe_decl list \<times> located list" where
  "parse_probe xxh3 name deps probe_line toks source_lines =
     bind_res (probe_loop xxh3 source_lines name (probe_start deps) toks) (\<lambda>(st, rest).
       case ps_producer st of
         None \<Rightarrow> Inl (ParseErr probe_line (''probe '' @ [squote] @ name @ [squote] @ '' has no producer''))
       | Some produce \<Rightarrow>
           Inr (\<lparr>pb_name = name, pb_deps = ps_deps st, pb_inputs = [], pb_excludes = [],
                 pb_covers = (case ps_covers st of None \<Rightarrow> [] | Some c \<Rightarrow> c), pb_produce = produce,
                 pb_line = probe_line\<rparr>, ps_inline st, rest))"

section \<open>Set declarations\<close>

record set_state =
  ss_values :: "str list"
  ss_excludes :: "str list"
  ss_covers :: "str list option"

definition set_kind :: "bool \<Rightarrow> str" where "set_kind files = (if files then ''files'' else ''tools'')"

definition set_covers :: "bool \<Rightarrow> str \<Rightarrow> str \<Rightarrow> nat \<Rightarrow> set_state \<Rightarrow> parse_error + set_state" where
  "set_covers files name rest line st =
     (if \<not> files then
        Inl (ParseErr line (''tools '' @ name @ '': `covers` is not admitted on a tools declaration ''
       @ [CHR 0xE2, CHR 0x80, CHR 0x94]
       @ '' a tools hash keys the binary, not its install root; put `covers` on the probe that keys the version''))
      else if ss_covers st \<noteq> None then
        Inl (ParseErr line (set_kind files @ '' '' @ name @ '': at most one `covers` line''))
      else bind_res (parse_covers_operands rest line) (\<lambda>roots. Inr (st\<lparr>ss_covers := Some roots\<rparr>)))"

definition set_content :: "bool \<Rightarrow> str \<Rightarrow> str \<Rightarrow> nat \<Rightarrow> set_state \<Rightarrow> parse_error + set_state" where
  "set_content files name raw line st =
     (case strip_keyword (trim raw) ''covers'' of
        Some rest \<Rightarrow> set_covers files name rest line st
      | None \<Rightarrow>
          if files then
            bind_res (parse_files_glob_list (''{'' @ trim raw @ ''}'') line False) (\<lambda>(inc, exc).
              Inr (st\<lparr>ss_values := ss_values st @ inc, ss_excludes := ss_excludes st @ exc\<rparr>))
          else
            bind_res (parse_source_name_list (''{'' @ trim raw @ ''}'') line ''tools'') (\<lambda>names.
              Inr (st\<lparr>ss_values := ss_values st @ names\<rparr>)))"

definition set_step ::
  "bool \<Rightarrow> str list \<Rightarrow> str \<Rightarrow> located \<Rightarrow> set_state \<Rightarrow> located list \<Rightarrow> parse_error + (set_state \<times> located list) option" where
  "set_step files source_lines name tok st toks =
     (if is_top_level (tok_value tok) then Inr None
      else
        (case tok_value tok of
           CommentTok _ \<Rightarrow> Inr (Some (st, tl toks))
         | BlankTok \<Rightarrow> Inr (Some (st, tl toks))
         | ContentTok _ \<Rightarrow>
             (let raw = source_line source_lines (tok_line tok) in
              if \<not> starts_ws raw then Inr None
              else bind_res (set_content files name raw (tok_line tok) st) (\<lambda>st'. Inr (Some (st', tl toks))))
         | _ \<Rightarrow>
             (let admits = (if files then ''quoted globs'' else ''tool names'')
              in Inl (ParseErr (tok_line tok) (set_kind files @ '' declaration body admits only '' @ admits)))))"

lemma set_step_rest:
  "set_step files src name tok st toks = Inr (Some (st', rest)) \<Longrightarrow> rest = tl toks"
  by (auto simp: set_step_def Let_def bind_res_Inr_iff split: if_splits token.splits)

fun set_loop ::
  "bool \<Rightarrow> str list \<Rightarrow> str \<Rightarrow> set_state \<Rightarrow> located list \<Rightarrow> parse_error + set_state \<times> located list" where
  "set_loop files source_lines name st [] = Inr (st, [])"
| "set_loop files source_lines name st (tok # toks) =
     (case set_step files source_lines name tok st (tok # toks) of
        Inl e \<Rightarrow> Inl e
      | Inr None \<Rightarrow> Inr (st, tok # toks)
      | Inr (Some (st', _)) \<Rightarrow> set_loop files source_lines name st' toks)"

interpretation set_body: body_loop "set_step files source_lines name" "set_loop files source_lines name"
  for files source_lines name
proof (unfold_locales, goal_cases)
  case (2 st tok toks)
  show ?case
    using set_step_rest[of files source_lines name tok st "tok # toks"]
    by (auto split: sum.splits option.splits)
next
  case (3 tok st toks st' rest)
  then show ?case using set_step_rest by fastforce
qed simp

definition parse_set_declaration ::
  "str \<Rightarrow> nat \<Rightarrow> located list \<Rightarrow> str list \<Rightarrow> bool \<Rightarrow> parse_error + probe_decl \<times> located list" where
  "parse_set_declaration name declaration_line toks source_lines files =
     bind_res (set_loop files source_lines name \<lparr>ss_values = [], ss_excludes = [], ss_covers = None\<rparr> toks)
       (\<lambda>(st, rest).
         if ss_values st = [] then
           (let what = (if files then ''quoted glob'' else ''tool name'')
            in Inl (ParseErr declaration_line (set_kind files @ '' declaration '' @ [squote] @ name @ [squote] @ '' requires at least one '' @ what)))
         else
           Inr (\<lparr>pb_name = name, pb_deps = [], pb_inputs = [], pb_excludes = [],
                 pb_covers = (case ss_covers st of None \<Rightarrow> [] | Some c \<Rightarrow> c),
                 pb_produce = (if files then ProduceFiles (ss_values st) (ss_excludes st) else ProduceTools (ss_values st)),
                 pb_line = declaration_line\<rparr>, rest))"

end
