(* ===== verification/Cook_Parser.thy ===== *)
theory Cook_Parser
  imports Probe_Parser
begin

text \<open>
  The parser's entry (\<open>cook-lang/src/lib.rs\<close>): the loop over the declarations of a Cookfile, with the
  name space that recipes, chores and probes share.
\<close>

section \<open>Imports\<close>

definition path_contains_dotdot_segment :: "str \<Rightarrow> bool" where
  "path_contains_dotdot_segment path \<longleftrightarrow> ''..'' \<in> set (split_on CHR ''/'' path)"

definition validate_and_classify_import_path :: "str \<Rightarrow> nat \<Rightarrow> parse_error + import_path" where
  "validate_and_classify_import_path raw line =
     (case strip_prefix ''//'' raw of
        Some after_sigil \<Rightarrow>
          if starts_with ''/'' after_sigil then
            Inl (ParseErr line (''import path '' @ [squote] @ raw @ [squote] @ '': '' @ [squote] @ ''/'' @ [squote]
       @ '' immediately after '' @ [squote] @ ''//'' @ [squote] @ '' is not permitted''))
          else if path_contains_dotdot_segment after_sigil then
            Inl (ParseErr line (''import path '' @ [squote] @ raw @ [squote] @ '': '' @ [squote] @ ''..'' @ [squote]
       @ '' segments are not permitted after '' @ [squote] @ ''//'' @ [squote]))
          else Inr (SigilPath after_sigil)
      | None \<Rightarrow>
          if starts_with ''/'' raw then
            Inl (ParseErr line (''import path '' @ [squote] @ raw @ [squote]
       @ '': absolute paths are not permitted; tree-relative or '' @ [squote] @ ''//'' @ [squote]
       @ '' sigil''))
          else if path_contains_dotdot_segment raw then
            Inl (ParseErr line (''import path '' @ [squote] @ raw @ [squote] @ '': '' @ [squote] @ ''..'' @ [squote]
       @ '' segments are not permitted; use the workspace-root sigil '' @ [squote] @ ''//path''
       @ [squote] @ '' for cross-cutting imports''))
          else Inr (TreePath raw))"

section \<open>Declared names\<close>

datatype callable_kind = RecipeDecl | ChoreDecl | ProbeDecl | FilesDecl | ToolsDecl | ImportDecl

fun kind_label :: "callable_kind \<Rightarrow> str" where
  "kind_label RecipeDecl = ''recipe''"
| "kind_label ChoreDecl = ''chore''"
| "kind_label ProbeDecl = ''probe''"
| "kind_label FilesDecl = ''files declaration''"
| "kind_label ToolsDecl = ''tools declaration''"
| "kind_label ImportDecl = ''import alias''"

definition duplicate_callable_error :: "callable_kind \<Rightarrow> str \<Rightarrow> nat \<Rightarrow> callable_kind \<Rightarrow> nat \<Rightarrow> parse_error" where
  "duplicate_callable_error new_kind name new_line prior_kind prior_line =
     ParseErr new_line (kind_label new_kind @ '' '' @ [squote] @ name @ [squote]
       @ '': duplicate declaration (already declared as '' @ kind_label prior_kind @ '' at line ''
       @ show_nat prior_line @ '')'')"

type_synonym decls = "str \<rightharpoonup> callable_kind \<times> nat"

text \<open>Also what the loop does for a recipe and a chore.\<close>

definition note_decl :: "decls \<Rightarrow> callable_kind \<Rightarrow> str \<Rightarrow> nat \<Rightarrow> parse_error + decls" where
  "note_decl decls kind name line =
     (case decls name of
        Some (prior_kind, prior_line) \<Rightarrow> Inl (duplicate_callable_error kind name line prior_kind prior_line)
      | None \<Rightarrow> Inr (decls(name \<mapsto> (kind, line))))"

text \<open>The comments right before the current token, from the tokens before it.\<close>

fun comment_text :: "token \<Rightarrow> str option" where
  "comment_text (CommentTok s) = Some s"
| "comment_text _ = None"

fun comment_run :: "located list \<Rightarrow> str list" where
  "comment_run [] = []"
| "comment_run (t # ts) = (case comment_text (tok_value t) of Some s \<Rightarrow> trim s # comment_run ts | None \<Rightarrow> [])"

definition preceding_comment_block :: "located list \<Rightarrow> str option" where
  "preceding_comment_block before =
     (let ls = comment_run (rev before) in if ls = [] then None else Some (join [newline] (rev ls)))"

section \<open>Declarations\<close>

record top_state =
  tp_file :: cookfile
  tp_seen_recipe :: bool
  tp_decls :: decls

definition empty_cookfile :: cookfile where
  "empty_cookfile =
     \<lparr>cf_config_blocks = [], cf_recipes = [], cf_chores = [], cf_uses = [], cf_imports = [],
      cf_register_blocks = [], cf_module_calls = [], cf_probes = []\<rparr>"

definition top_start :: top_state where
  "top_start = \<lparr>tp_file = empty_cookfile, tp_seen_recipe = False, tp_decls = Map.empty\<rparr>"

text \<open>\<open>rest\<close> are the tokens after the header, \<open>line\<close> is that of the header.\<close>

definition top_config ::
  "str list \<Rightarrow> str option \<Rightarrow> nat \<Rightarrow> top_state \<Rightarrow> located list \<Rightarrow> parse_error + top_state \<times> located list" where
  "top_config source_lines name line st rest =
     (let f = tp_file st in
      if tp_seen_recipe st then
        Inl (ParseErr line ''config blocks must appear before recipes and chores'')
      else if name \<in> set (map cb_name (cf_config_blocks f)) then
        Inl (ParseErr line (case name of
            None \<Rightarrow> ''multiple unnamed config blocks (only one allowed)''
          | Some n \<Rightarrow> (''duplicate config block '' @ [squote] @ n @ [squote])))
      else
        bind_res (parse_config_block_lua rest line source_lines) (\<lambda>(b, rest').
          Inr (st\<lparr>tp_file := f\<lparr>cf_config_blocks := cf_config_blocks f
                    @ [\<lparr>cb_name = name, cb_body = b, cb_line = line\<rparr>]\<rparr>\<rparr>, rest')))"

definition top_recipe ::
  "parser_env \<Rightarrow> str list \<Rightarrow> str option \<Rightarrow> str \<Rightarrow> str list \<Rightarrow> nat \<Rightarrow> top_state \<Rightarrow> located list
    \<Rightarrow> parse_error + top_state \<times> located list" where
  "top_recipe env source_lines description name deps line st rest =
     bind_res (note_decl (tp_decls st) RecipeDecl name line) (\<lambda>decls.
     bind_res (parse_recipe env name deps line rest source_lines) (\<lambda>(r, inline, rest').
       let f = tp_file st in
       Inr (st\<lparr>tp_seen_recipe := True, tp_decls := decls,
               tp_file := f\<lparr>cf_recipes := cf_recipes f @ [r\<lparr>rd_description := description\<rparr>],
                            cf_probes := cf_probes f @ inline\<rparr>\<rparr>, rest')))"

definition top_chore ::
  "parser_env \<Rightarrow> str list \<Rightarrow> str option \<Rightarrow> str \<Rightarrow> chore_param list \<Rightarrow> str list \<Rightarrow> nat \<Rightarrow> top_state \<Rightarrow> located list
    \<Rightarrow> parse_error + top_state \<times> located list" where
  "top_chore env source_lines description name params deps line st rest =
     bind_res (note_decl (tp_decls st) ChoreDecl name line) (\<lambda>decls.
     bind_res (parse_chore env name params deps line rest source_lines) (\<lambda>(c, rest').
       let f = tp_file st in
       Inr (st\<lparr>tp_seen_recipe := True, tp_decls := decls,
               tp_file := f\<lparr>cf_chores := cf_chores f @ [c\<lparr>ch_description := description\<rparr>]\<rparr>\<rparr>, rest')))"

definition unexpected_content :: "nat \<Rightarrow> parse_error" where
  "unexpected_content line = ParseErr line ''unexpected content outside of a recipe''"

definition top_call ::
  "str list \<Rightarrow> str \<Rightarrow> nat \<Rightarrow> top_state \<Rightarrow> located list \<Rightarrow> parse_error + top_state \<times> located list" where
  "top_call source_lines s line st toks =
     (if is_module_call s then
        bind_res (collect_module_call s line toks source_lines) (\<lambda>(code, rest).
          let f = tp_file st in
          Inr (st\<lparr>tp_file := f\<lparr>cf_module_calls := cf_module_calls f @ [\<lparr>mc_code = code, mc_line = line\<rparr>]\<rparr>\<rparr>, rest))
      else Inl (unexpected_content line))"

definition top_use ::
  "str \<Rightarrow> str \<Rightarrow> nat \<Rightarrow> top_state \<Rightarrow> located list \<Rightarrow> parse_error + top_state \<times> located list" where
  "top_use alias target line st rest =
     (let f = tp_file st;
          added = Inr (st\<lparr>tp_file := f\<lparr>cf_uses := cf_uses f
                    @ [\<lparr>us_alias = alias, us_target = target, us_line = line\<rparr>]\<rparr>\<rparr>, rest)
      in
      if tp_seen_recipe st then Inl (ParseErr line ''use statements must appear before recipes and chores'')
      else
        (case find (\<lambda>u. us_alias u = alias) (cf_uses f) of
           Some prior \<Rightarrow>
             if us_target prior \<noteq> target then
               Inl (ParseErr line ([squote] @ ''use'' @ [squote] @ '' binds '' @ [squote] @ alias @ [squote] @ '' to '' @ [squote]
       @ target @ [squote] @ '' here, but line '' @ show_nat (us_line prior)
       @ '' already bound it to '' @ [squote] @ us_target prior @ [squote]
       @ ''; give one of them an explicit alias''))
             else added
         | None \<Rightarrow> added))"

definition top_import ::
  "str \<Rightarrow> str \<Rightarrow> nat \<Rightarrow> top_state \<Rightarrow> located list \<Rightarrow> parse_error + top_state \<times> located list" where
  "top_import name path line st rest =
     (let f = tp_file st in
      if tp_seen_recipe st then Inl (ParseErr line ''import declarations must appear before recipes and chores'')
      else if name \<in> set (map im_name (cf_imports f)) then Inl (ParseErr line (''duplicate import name '' @ [squote] @ name @ [squote]))
      else if name = ''var'' then
        Inl (ParseErr line (''import alias '' @ [squote] @ ''var'' @ [squote]
       @ '': `var` is the reserved declared-variable namespace (Standard '' @ [CHR 0xC2, CHR 0xA7]
       @ ''10.7), so `$<var.NAME>` always names a variable and can never reach a recipe through this alias; choose another alias''))
      else
        bind_res (validate_and_classify_import_path path line) (\<lambda>parsed.
          Inr (st\<lparr>tp_file := f\<lparr>cf_imports := cf_imports f
                    @ [\<lparr>im_name = name, im_path = parsed, im_line = line\<rparr>]\<rparr>\<rparr>, rest)))"

definition reserved_key :: "str \<Rightarrow> str \<Rightarrow> nat \<Rightarrow> parse_error + unit" where
  "reserved_key kind name line =
     (if starts_with ''@seal:'' name then
        Inl (ParseErr line (kind @ '': keys beginning `@seal:` are reserved for inline file determinants''))
      else Inr ())"

definition top_probe ::
  "(str \<Rightarrow> u64) \<Rightarrow> str list \<Rightarrow> str \<Rightarrow> str list \<Rightarrow> nat \<Rightarrow> top_state \<Rightarrow> located list \<Rightarrow> parse_error + top_state \<times> located list" where
  "top_probe xxh3 source_lines name deps line st rest =
     bind_res (reserved_key ''probe'' name line) (\<lambda>_.
     bind_res (note_decl (tp_decls st) ProbeDecl name line) (\<lambda>decls.
     bind_res (parse_probe xxh3 name deps line rest source_lines) (\<lambda>(p, inline, rest').
       let f = tp_file st in
       Inr (st\<lparr>tp_decls := decls, tp_file := f\<lparr>cf_probes := cf_probes f @ [p] @ inline\<rparr>\<rparr>, rest'))))"

definition top_set ::
  "bool \<Rightarrow> str list \<Rightarrow> str \<Rightarrow> nat \<Rightarrow> top_state \<Rightarrow> located list \<Rightarrow> parse_error + top_state \<times> located list" where
  "top_set files source_lines name line st rest =
     bind_res (reserved_key (set_kind files) name line) (\<lambda>_.
     bind_res (note_decl (tp_decls st) (if files then FilesDecl else ToolsDecl) name line) (\<lambda>decls.
     bind_res (parse_set_declaration name line rest source_lines files) (\<lambda>(p, rest').
       let f = tp_file st in
       Inr (st\<lparr>tp_decls := decls, tp_file := f\<lparr>cf_probes := cf_probes f @ [p]\<rparr>\<rparr>, rest'))))"

definition top_register ::
  "str list \<Rightarrow> nat \<Rightarrow> top_state \<Rightarrow> located list \<Rightarrow> parse_error + top_state \<times> located list" where
  "top_register source_lines line st rest =
     (let after_kw = (case strip_prefix ''register'' (trim_start (source_line source_lines line)) of Some t \<Rightarrow> t | None \<Rightarrow> [])
      in
      if trim after_kw \<noteq> [] then
        Inl (ParseErr line ''register block takes no name; remove the trailing arguments'')
      else
        (case parse_register_block_lua rest line source_lines of
           (b, rest') \<Rightarrow>
             let f = tp_file st in
             Inr (st\<lparr>tp_file := f\<lparr>cf_register_blocks := cf_register_blocks f @ [\<lparr>rb_body = b, rb_line = line\<rparr>]\<rparr>\<rparr>, rest')))"

definition top_step ::
  "parser_env \<Rightarrow> str list \<Rightarrow> located list \<Rightarrow> located \<Rightarrow> top_state \<Rightarrow> located list \<Rightarrow> parse_error + top_state \<times> located list" where
  "top_step env source_lines before tok st rest =
     (let line = tok_line tok in
      case tok_value tok of
        CommentTok _ \<Rightarrow> Inr (st, rest)
      | BlankTok \<Rightarrow> Inr (st, rest)
      | ConfigHeader name \<Rightarrow> top_config source_lines name line st rest
      | RecipeHeader name deps \<Rightarrow>
          top_recipe env source_lines (preceding_comment_block before) name deps line st rest
      | ChoreHeader name params deps \<Rightarrow>
          top_chore env source_lines (preceding_comment_block before) name params deps line st rest
      | ContentTok s \<Rightarrow> top_call source_lines s line st (tok # rest)
      | UseTok alias target \<Rightarrow> top_use alias target line st rest
      | ImportTok name path \<Rightarrow> top_import name path line st rest
      | ProbeHeader name deps \<Rightarrow> top_probe (pe_xxh3 env) source_lines name deps line st rest
      | FilesHeader name \<Rightarrow> top_set True source_lines name line st rest
      | ToolsHeader name \<Rightarrow> top_set False source_lines name line st rest
      | RegisterHeader \<Rightarrow> top_register source_lines line st rest
      | _ \<Rightarrow> Inl (unexpected_content line))"

section \<open>How far a declaration reads\<close>

lemma top_step_length:
  "top_step env src before tok st rest = Inr (st', rest') \<Longrightarrow> length rest' < length (tok # rest)"
  by (auto simp: top_step_def top_config_def top_recipe_def top_chore_def top_call_def top_use_def top_import_def
      top_probe_def top_set_def top_register_def parse_config_block_lua_def parse_register_block_lua_def
      parse_recipe_def parse_chore_def parse_probe_def parse_set_declaration_def Let_def bind_res_Inr_iff
      less_Suc_eq_le length_dropWhile_le
      split: token.splits if_splits option.splits
      dest: recipe_body.run_length chore_body.run_length probe_body.run_length set_body.run_length module_call_length)

section \<open>The Cookfile\<close>

function top_loop ::
  "parser_env \<Rightarrow> str list \<Rightarrow> located list \<Rightarrow> top_state \<Rightarrow> located list \<Rightarrow> parse_error + top_state" where
  "top_loop env source_lines tokens st [] = Inr st"
| "top_loop env source_lines tokens st (tok # rest) =
     (case top_step env source_lines (take (length tokens - length (tok # rest)) tokens) tok st rest of
        Inl e \<Rightarrow> Inl e
      | Inr (st', rest') \<Rightarrow> top_loop env source_lines tokens st' rest')"
  by pat_completeness auto
termination
  by (relation "measure (\<lambda>(e, s, t, st, toks). length toks)") (auto dest: top_step_length)

fun retain_probes :: "str set \<Rightarrow> probe_decl list \<Rightarrow> probe_decl list" where
  "retain_probes seen [] = []"
| "retain_probes seen (p # ps) =
     (if \<not> starts_with ''@seal:'' (pb_name p) then p # retain_probes seen ps
      else if pb_name p \<in> seen then retain_probes seen ps
      else p # retain_probes (insert (pb_name p) seen) ps)"

fun probe_alias_clash :: "import_decl list \<Rightarrow> decls \<Rightarrow> probe_decl list \<Rightarrow> parse_error + unit" where
  "probe_alias_clash imports decls [] = Inr ()"
| "probe_alias_clash imports decls (p # ps) =
     (case find (\<lambda>i. im_name i = pb_name p) imports of
        Some i \<Rightarrow>
          Inl (duplicate_callable_error (case decls (pb_name p) of Some (k, _) \<Rightarrow> k | None \<Rightarrow> ProbeDecl)
                 (pb_name p) (pb_line p) ImportDecl (im_line i))
      | None \<Rightarrow> probe_alias_clash imports decls ps)"

definition finish_cookfile :: "top_state \<Rightarrow> parse_error + cookfile" where
  "finish_cookfile st =
     (let f = tp_file st; probes = retain_probes {} (cf_probes f) in
      bind_res (probe_alias_clash (cf_imports f) (tp_decls st) probes) (\<lambda>_. Inr (f\<lparr>cf_probes := probes\<rparr>)))"

definition parse_cookfile :: "parser_env \<Rightarrow> str \<Rightarrow> parse_error + cookfile" where
  "parse_cookfile env source =
     (case tokenize source of
        Inl e \<Rightarrow> Inl (LexErr e)
      | Inr tokens \<Rightarrow>
          bind_res (top_loop env (str_lines source) tokens top_start tokens) finish_cookfile)"

end
