(* ===== verification/Lexer_Props.thy ===== *)
theory Lexer_Props
  imports Lexer Pathlaw
begin

text \<open>
  What the lexer promises: the order of a chore's parameters, that the header of a chore that is
  printed is read back, and what a \<open>use\<close> path may name.
\<close>

section \<open>Trimming plain text\<close>

definition plain_char :: "char \<Rightarrow> bool" where
  "plain_char c \<longleftrightarrow> c < CHR 0x80 \<and> c \<noteq> CHR '' '' \<and> \<not> (CHR 0x09 \<le> c \<and> c \<le> CHR 0x0D)"

lemma wide_chars:
  "\<not> plain_char CHR '' ''" "\<not> plain_char CHR 0x80" "\<not> plain_char CHR 0x85" "\<not> plain_char CHR 0x9F" "\<not> plain_char CHR 0xA0"
  "\<not> plain_char CHR 0xA8" "\<not> plain_char CHR 0xA9" "\<not> plain_char CHR 0xAF"
  "\<not> plain_char CHR 0xC2" "\<not> plain_char CHR 0xE1" "\<not> plain_char CHR 0xE2" "\<not> plain_char CHR 0xE3"
  by code_simp+

lemma plain_cases:
  assumes "plain_char c"
  shows "c \<noteq> CHR '' ''" "c \<noteq> CHR 0x80" "c \<noteq> CHR 0x85" "c \<noteq> CHR 0x9F" "c \<noteq> CHR 0xA0"
    "c \<noteq> CHR 0xA8" "c \<noteq> CHR 0xA9" "c \<noteq> CHR 0xAF" "c \<noteq> CHR 0xC2" "c \<noteq> CHR 0xE1" "c \<noteq> CHR 0xE2" "c \<noteq> CHR 0xE3"
    "\<not> CHR 0x80 \<le> c" "\<not> (CHR 0x09 \<le> c \<and> c \<le> CHR 0x0D)"
  using assms wide_chars by (metis, metis, metis, metis, metis, metis, metis, metis, metis, metis, metis, metis)
    (use assms in \<open>simp_all only: plain_char_def not_le not_False_eq_True\<close>)

lemma ws_width_plain:
  assumes "plain_char c"
  shows "ws_width (c # s) = 0"
proof -
  note p = plain_cases[OF assms]
  show ?thesis unfolding ws_width_def list.case using p by (simp split: list.split)
qed

lemma ws_width_snoc:
  assumes "plain_char c"
  shows "ws_width (v @ [c]) \<le> length v"
proof -
  note p = plain_cases[OF assms]
  consider "v = []" | a where "v = [a]" | a b where "v = [a, b]" | a b d r where "v = a # b # d # r"
    by (metis list.exhaust)
  then show ?thesis
  proof cases
    case 1
    then show ?thesis using ws_width_plain[OF assms, of "[]"] by simp
  next
    case 2
    then show ?thesis using p(3,5) by (simp add: ws_width_def)
  next
    case (3 a b)
    then show ?thesis using p(2-8,13) by (simp add: ws_width_def)
  next
    case 4
    then show ?thesis by (simp add: ws_width_def split: list.split)
  qed
qed

lemma trim_start_plain: "plain_char c \<Longrightarrow> trim_start (c # s) = c # s"
  by (simp add: trim_start_fix ws_width_plain)

lemma trim_start_blank [simp]: "trim_start (CHR '' '' # s) = trim_start s"
  by (simp add: trim_start.simps[of "CHR '' '' # s"] ws_width_def)

lemma trim_start_snoc: "plain_char c \<Longrightarrow> trim_start (v @ [c]) \<noteq> []"
proof (induction "v @ [c]" arbitrary: v rule: trim_start.induct)
  case 1
  show ?case
  proof (cases "ws_width (v @ [c]) = 0")
    case False
    have "ws_width (v @ [c]) \<le> length v" by (rule ws_width_snoc[OF 1(2)])
    then have d: "drop (ws_width (v @ [c])) (v @ [c]) = drop (ws_width (v @ [c])) v @ [c]" by simp
    have "trim_start (drop (ws_width (v @ [c])) v @ [c]) \<noteq> []" using 1(1)[OF False d 1(2)] d by simp
    then show ?thesis using False d by (simp add: trim_start.simps[of "v @ [c]"])
  qed (simp add: trim_start_fix)
qed

lemma trim_end_snoc: "plain_char c \<Longrightarrow> trim_end (v @ [c]) = v @ [c]"
proof (induction v)
  case Nil
  then show ?case by (simp add: trim_start_plain)
next
  case (Cons a v)
  then show ?case using trim_start_snoc[of c "a # v"] by simp
qed

definition plain_end :: "str \<Rightarrow> bool" where
  "plain_end s \<longleftrightarrow> s \<noteq> [] \<and> plain_char (last s)"

lemma plain_end_append: "plain_end s \<Longrightarrow> plain_end (u @ s)"
  by (auto simp: plain_end_def)

lemma trim_end_plain: "plain_end s \<Longrightarrow> trim_end s = s"
  by (cases s rule: rev_cases) (auto simp: plain_end_def trim_end_snoc)

lemma trim_plain: "plain_end s \<Longrightarrow> plain_char (hd s) \<Longrightarrow> trim s = s"
proof -
  assume e: "plain_end s" and h: "plain_char (hd s)"
  have "trim_start s = s" using e h by (cases s) (auto simp: trim_start_plain plain_end_def)
  then show ?thesis unfolding trim_def by (simp only: trim_end_plain[OF e])
qed

lemma trim_blank_plain: "plain_end s \<Longrightarrow> plain_char (hd s) \<Longrightarrow> trim (CHR '' '' # s) = s"
  using trim_plain[of s] by (simp add: trim_def)

lemma name_char_plain: "is_bare_name_char c \<Longrightarrow> plain_char c"
  unfolding is_bare_name_char_def is_ascii_alphanumeric_def is_ascii_alphabetic_def is_ascii_digit_def in_range_def plain_char_def
  by (auto simp: less_char_def less_eq_char_def)

lemma param_char_name: "is_param_char c \<Longrightarrow> is_bare_name_char c"
  by (auto simp: is_param_char_def is_bare_name_char_def)

lemma name_start_char: "is_bare_name_start c \<Longrightarrow> is_bare_name_char c"
  by (auto simp: is_bare_name_start_def is_bare_name_char_def is_ascii_alphanumeric_def)

lemma bare_name_chars: "is_bare_name s \<Longrightarrow> s \<noteq> [] \<and> list_all is_bare_name_char s \<and> is_bare_name_start (hd s)"
  by (cases s) (auto simp: is_bare_name_def name_start_char)

lemma bare_name_end: "is_bare_name s \<Longrightarrow> plain_end s \<and> plain_char (hd s)"
  using bare_name_chars[of s] by (auto simp: plain_end_def list_all_iff name_char_plain name_start_char)

section \<open>Printed names\<close>

definition spaced :: "str list \<Rightarrow> str" where
  "spaced ws = concat (map (\<lambda>w. '' '' @ w) ws)"

lemma spaced_simps [simp]: "spaced [] = []" "spaced (w # ws) = CHR '' '' # w @ spaced ws"
  by (simp_all add: spaced_def)

lemma span_stop:
  assumes "list_all ok w" and "t = [] \<or> \<not> ok (hd t)"
  shows "takeWhile ok (w @ t) = w \<and> dropWhile ok (w @ t) = t"
  using assms by (induction w) (cases t; auto)+

lemma not_name_chars [simp]:
  "\<not> is_bare_name_char CHR '' ''" "\<not> is_bare_name_char CHR '':''" "\<not> is_bare_name_char dquote"
  "\<not> is_param_char CHR '' ''" "\<not> is_param_char CHR '':''" "\<not> is_param_char CHR ''=''" "\<not> is_param_char CHR ''.''"
  "\<not> is_bare_name_start CHR '' ''" "\<not> is_bare_name_start CHR ''=''" "\<not> is_bare_name_start CHR '':''"
  "\<not> is_bare_name_start CHR ''+''" "\<not> is_bare_name_start CHR ''*''" "\<not> is_bare_name_start dquote"
  by code_simp+

lemma parse_name_bare:
  assumes "is_bare_name w" and "t = [] \<or> \<not> is_bare_name_char (hd t)"
  shows "parse_name (w @ t) line = Inr (w, trim_start t)"
proof -
  have w: "w \<noteq> []" "list_all is_bare_name_char w" "is_bare_name_start (hd w)" using bare_name_chars[OF assms(1)] by auto
  have "trim_start (w @ t) = w @ t"
    using w bare_name_end[OF assms(1)] by (cases w) (auto simp: trim_start_plain)
  moreover have "\<not> first_is ((=) dquote) (w @ t)" using w by (cases w) (auto simp: first_is_def)
  ultimately show ?thesis
    using span_stop[OF w(2) assms(2)] w by (simp add: parse_name_def span_of_def)
qed

lemma names_loop_spaced: "list_all is_bare_name ws \<Longrightarrow> names_loop (trim_start (spaced ws)) line = Inr ws"
proof (induction ws)
  case Nil
  then show ?case by (simp add: names_loop.simps)
next
  case (Cons w ws)
  have s: "spaced ws = [] \<or> \<not> is_bare_name_char (hd (spaced ws))" by (cases ws) simp_all
  have w: "w \<noteq> []" "plain_char (hd w)" using Cons.prems bare_name_end[of w] bare_name_chars[of w] by auto
  then have "trim_start (w @ spaced ws) = w @ spaced ws" by (cases w) (auto simp: trim_start_plain)
  then show ?case
    using Cons w parse_name_bare[of w "spaced ws" line] s by (simp add: names_loop.simps[of "w @ spaced ws"])
qed

lemma spaced_end: "list_all plain_end ws \<Longrightarrow> ws \<noteq> [] \<Longrightarrow> plain_end (spaced ws)"
proof (induction ws)
  case (Cons w ws)
  then show ?case
    using plain_end_append[of "spaced ws" "CHR '' '' # w"] plain_end_append[of w "'' ''"] by (cases ws) auto
qed simp

lemma parse_names_spaced:
  assumes "list_all is_bare_name ws"
  shows "parse_names (trim (spaced ws)) line = Inr ws"
proof (cases "ws = []")
  case True
  then show ?thesis by (simp add: parse_names_def names_loop.simps trim_def)
next
  case False
  then have e: "plain_end (spaced ws)"
    using assms bare_name_end by (intro spaced_end) (auto simp: list_all_iff)
  obtain w us where ws: "ws = w # us" using False by (cases ws) auto
  have "plain_char (hd (w @ spaced us))" "plain_end (w @ spaced us)"
    using e assms bare_name_end[of w] bare_name_chars[of w] ws by (auto simp: plain_end_def split: if_splits)
  then have "trim (spaced ws) = w @ spaced us" "trim (w @ spaced us) = w @ spaced us"
    using ws trim_blank_plain trim_plain by simp_all
  moreover have "trim_start (spaced ws) = w @ spaced us"
    using ws \<open>plain_char (hd (w @ spaced us))\<close> assms bare_name_chars[of w] by (cases w) (auto simp: trim_start_plain)
  ultimately show ?thesis using names_loop_spaced[OF assms] by (simp add: parse_names_def)
qed

section \<open>The parameters of a chore\<close>

fun param_rank :: "chore_param \<Rightarrow> nat" where
  "param_rank (RequiredParam n l c) = 0"
| "param_rank (DefaultedString n d l c) = 1"
| "param_rank (DefaultedLua n d l c) = 1"
| "param_rank (VariadicPlus n l c) = 2"
| "param_rank (VariadicStar n l c) = 2"

fun param_pos :: "chore_param \<Rightarrow> nat \<times> nat" where
  "param_pos (RequiredParam n l c) = (l, c)"
| "param_pos (DefaultedString n d l c) = (l, c)"
| "param_pos (DefaultedLua n d l c) = (l, c)"
| "param_pos (VariadicPlus n l c) = (l, c)"
| "param_pos (VariadicStar n l c) = (l, c)"

definition param_name_ok :: "str \<Rightarrow> bool" where
  "param_name_ok n \<longleftrightarrow> first_is is_bare_name_start n \<and> list_all is_param_char n"

text \<open>
  Distinct names, the required parameters before those with a default, and nothing after a variadic
  one.
\<close>

definition params_ok :: "chore_param list \<Rightarrow> bool" where
  "params_ok ps \<longleftrightarrow>
     distinct (map param_name ps) \<and> list_all (\<lambda>p. param_name_ok (param_name p)) ps \<and>
     sorted_wrt (\<lambda>p q. param_rank p \<le> param_rank q \<and> param_rank p < 2) ps"

text \<open>What the parser keeps, from the parameters it has read.\<close>

definition state_after :: "chore_param list \<Rightarrow> param_state" where
  "state_after ps =
     \<lparr>pr_params = ps, pr_defaulted = list_ex is_defaulted ps,
      pr_variadic = map_option param_name (find (\<lambda>p. param_rank p = 2) ps)\<rparr>"

lemma defaulted_rank: "is_defaulted p \<longleftrightarrow> param_rank p = 1"
  by (cases p) (simp_all add: is_defaulted_def)

lemma rank_cases: "param_rank p = 0 \<or> param_rank p = 1 \<or> param_rank p = 2"
  by (cases p) simp_all

lemma params_ok_snoc:
  "params_ok (ps @ [p]) \<longleftrightarrow>
     params_ok ps \<and> param_name_ok (param_name p) \<and> param_name p \<notin> set (map param_name ps)
     \<and> pr_variadic (state_after ps) = None \<and> \<not> (param_rank p = 0 \<and> pr_defaulted (state_after ps))"
proof -
  have v: "pr_variadic (state_after ps) = None \<longleftrightarrow> (\<forall>q \<in> set ps. param_rank q < 2)"
    using rank_cases by (auto simp: state_after_def find_None_iff) (metis less_2_cases_iff less_irrefl one_less_numeral_iff semiring_norm(76) zero_less_numeral)+
  have d: "pr_defaulted (state_after ps) \<longleftrightarrow> (\<exists>q \<in> set ps. param_rank q = 1)"
    by (simp add: state_after_def list_ex_iff defaulted_rank)
  have "(\<forall>q \<in> set ps. param_rank q \<le> param_rank p \<and> param_rank q < 2) \<longleftrightarrow>
      (\<forall>q \<in> set ps. param_rank q < 2) \<and> \<not> (param_rank p = 0 \<and> (\<exists>q \<in> set ps. param_rank q = 1))"
    using rank_cases[of p] by (force simp: less_2_cases_iff)
  then show ?thesis unfolding v d by (auto simp: params_ok_def sorted_wrt_append)
qed

lemma find_snoc: "find p xs = None \<Longrightarrow> find p (xs @ ys) = find p ys"
  by (induction xs) (auto split: if_splits)

lemma state_after_snoc:
  "pr_variadic (state_after ps) = None \<Longrightarrow>
     state_after (ps @ [p]) =
       \<lparr>pr_params = ps @ [p], pr_defaulted = pr_defaulted (state_after ps) \<or> is_defaulted p,
        pr_variadic = if param_rank p = 2 then Some (param_name p) else None\<rparr>"
  by (simp add: state_after_def find_snoc list_ex_append)

subsection \<open>What is read is well-formed\<close>

lemma variadic_param_sound:
  assumes "variadic_param chore line sg name u (state_after ps) = Inr (st', t)"
    and "name \<notin> set (map param_name ps)" and "param_name_ok name" and "params_ok ps"
  shows "\<exists>p. st' = state_after (ps @ [p]) \<and> params_ok (ps @ [p]) \<and> param_pos p = (line, 0)"
proof -
  let ?p = "if sg = CHR ''+'' then VariadicPlus name line 0 else VariadicStar name line 0"
  have n: "pr_variadic (state_after ps) = None"
    and st: "st' = (state_after ps)\<lparr>pr_variadic := Some name, pr_params := ps @ [?p]\<rparr>"
    using assms(1) by (auto simp: variadic_param_def state_after_def split: option.splits if_splits)
  have p: "param_rank ?p = 2" "param_name ?p = name" "param_pos ?p = (line, 0)" "\<not> is_defaulted ?p"
    by (simp_all add: is_defaulted_def)
  have "params_ok (ps @ [?p])" using n assms(2-4) p unfolding params_ok_snoc by simp
  moreover have "st' = state_after (ps @ [?p])"
    unfolding st using p by (simp add: state_after_snoc[OF n])
  ultimately show ?thesis using p(3) by blast
qed

lemma plain_param_sound:
  assumes "plain_param chore line name u (state_after ps) = Inr (st', t)"
    and "name \<notin> set (map param_name ps)" and "param_name_ok name" and "params_ok ps"
  shows "\<exists>p. st' = state_after (ps @ [p]) \<and> params_ok (ps @ [p]) \<and> param_pos p = (line, 0)"
proof -
  let ?s = "state_after ps"
  have n: "pr_variadic ?s = None" using assms(1) by (auto simp: plain_param_def split: option.splits)
  have k: "\<exists>p. param_name p = name \<and> param_pos p = (line, 0)
      \<and> (param_rank p = 1 \<and> st' = ?s\<lparr>pr_params := ps @ [p], pr_defaulted := True\<rparr>
         \<or> param_rank p = 0 \<and> \<not> pr_defaulted ?s \<and> st' = ?s\<lparr>pr_params := ps @ [p]\<rparr>)"
  proof (cases "first_is ((=) CHR ''='') u")
    case True
    then consider d where "st' = ?s\<lparr>pr_params := ps @ [DefaultedString name d line 0], pr_defaulted := True\<rparr>"
      | e where "st' = ?s\<lparr>pr_params := ps @ [DefaultedLua name e line 0], pr_defaulted := True\<rparr>"
      using assms(1) n by (auto simp: plain_param_def Let_def bind_res_Inr_iff state_after_def split: if_splits option.splits)
    then show ?thesis by cases (metis param_name.simps(2,3) param_pos.simps(2,3) param_rank.simps(2,3))+
  next
    case False
    then have "st' = ?s\<lparr>pr_params := ps @ [RequiredParam name line 0]\<rparr>" "\<not> pr_defaulted ?s"
      using assms(1) n by (auto simp: plain_param_def state_after_def split: if_splits)
    then show ?thesis by (metis param_name.simps(1) param_pos.simps(1) param_rank.simps(1))
  qed
  then obtain p where p: "param_name p = name" "param_pos p = (line, 0)"
      "param_rank p = 1 \<and> st' = ?s\<lparr>pr_params := ps @ [p], pr_defaulted := True\<rparr>
       \<or> param_rank p = 0 \<and> \<not> pr_defaulted ?s \<and> st' = ?s\<lparr>pr_params := ps @ [p]\<rparr>" by blast
  have "params_ok (ps @ [p])" using p n assms(2-4) unfolding params_ok_snoc by auto
  moreover have "st' = state_after (ps @ [p])"
    using p(3) n unfolding state_after_snoc[OF n] by (auto simp: defaulted_rank state_after_def)
  ultimately show ?thesis using p(2) by blast
qed

lemma one_param_sound:
  assumes "one_param chore line sg u (state_after ps) = Inr (st', t)" and "first_is is_bare_name_start u" and "params_ok ps"
  shows "\<exists>p. st' = state_after (ps @ [p]) \<and> params_ok (ps @ [p]) \<and> param_pos p = (line, 0)"
proof -
  let ?n = "takeWhile is_param_char u" and ?r = "trim_start (dropWhile is_param_char u)"
  have "is_param_char (hd u)" "u \<noteq> []"
    using assms(2) by (auto simp: first_is_def is_bare_name_start_def is_param_char_def is_ascii_alphanumeric_def)
  then have n: "param_name_ok ?n"
    using assms(2) by (cases u) (auto simp: param_name_ok_def first_is_def list_all_iff dest: set_takeWhileD)
  have f: "?n \<notin> set (map param_name ps)"
    using assms(1) by (auto simp: one_param_def span_of_def Let_def state_after_def split: if_splits)
  show ?thesis
  proof (cases sg)
    case None
    then have "plain_param chore line ?n ?r (state_after ps) = Inr (st', t)"
      using assms(1) by (auto simp: one_param_def span_of_def Let_def split: if_splits)
    from plain_param_sound[OF this f n assms(3)] show ?thesis .
  next
    case (Some c)
    then have "variadic_param chore line c ?n ?r (state_after ps) = Inr (st', t)"
      using assms(1) by (auto simp: one_param_def span_of_def Let_def split: if_splits)
    from variadic_param_sound[OF this f n assms(3)] show ?thesis .
  qed
qed

lemma params_loop_sound:
  assumes "params_loop chore line u (state_after ps) = Inr (st', t)" and "params_ok ps"
  shows "\<exists>qs. st' = state_after (ps @ qs) \<and> params_ok (ps @ qs) \<and> list_all (\<lambda>p. param_pos p = (line, 0)) qs"
  using assms
proof (induction "length u" arbitrary: u ps rule: less_induct)
  case less
  show ?case
  proof (cases "u = [] \<or> first_is ((=) CHR '':'') u")
    case True
    then have "st' = state_after (ps @ [])" using less(2) by (auto simp: params_loop.simps[of chore line u])
    then show ?thesis using less(3) by (intro exI[of _ "[]"]) simp
  next
    case False
    obtain sg w where v: "variadic_sigil u = (sg, w)" by (cases "variadic_sigil u")
    show ?thesis
    proof (cases "first_is is_bare_name_start w")
      case no: False
      then have "st' = state_after (ps @ [])" using less(2) False v by (auto simp: params_loop.simps[of chore line u])
      then show ?thesis using less(3) by (intro exI[of _ "[]"]) simp
    next
      case yes: True
      obtain st1 t1 where o: "one_param chore line sg w (state_after ps) = Inr (st1, t1)"
        and l: "params_loop chore line t1 st1 = Inr (st', t)"
        using less(2) False v yes by (auto simp: params_loop.simps[of chore line u] split: sum.splits)
      obtain p where p: "st1 = state_after (ps @ [p])" "params_ok (ps @ [p])" "param_pos p = (line, 0)"
        using one_param_sound[OF o yes less(3)] by blast
      have "length t1 < length u" by (rule param_step_shorter[OF v yes o])
      from less(1)[OF this l[unfolded p(1)] p(2)]
      obtain qs where "st' = state_after (ps @ p # qs)" "params_ok (ps @ p # qs)" "list_all (\<lambda>p. param_pos p = (line, 0)) qs"
        by auto
      then show ?thesis using p(3) by (intro exI[of _ "p # qs"]) simp
    qed
  qed
qed

lemma state_after_Nil: "no_params = state_after []"
  by (simp add: no_params_def state_after_def)

lemma params_ok_Nil [simp]: "params_ok []"
  by (simp add: params_ok_def)

text \<open>
  whatever stands in the header of a chore, the parameters the lexer accepts have distinct names made
  of identifier characters, the required ones precede those with a default, at most one is variadic
  and it is the last; and every one carries the line of the header.
\<close>

theorem chore_params_ordered:
  assumes "parse_chore_params src chore line = Inr (ps, rest)"
  shows "params_ok ps \<and> list_all (\<lambda>p. param_pos p = (line, 0)) ps"
proof -
  obtain st where l: "params_loop chore line (trim_start src) (state_after []) = Inr (st, rest)" and p: "ps = pr_params st"
    using assms by (auto simp: parse_chore_params_def bind_res_Inr_iff state_after_Nil)
  from params_loop_sound[OF l] p show ?thesis by (auto simp: state_after_def)
qed

theorem chore_params_ordered_witness:
  "params_ok [RequiredParam ''env'' 4 0, DefaultedString ''mode'' ''fast'' 4 0, VariadicStar ''rest'' 4 0]"
proof -
  have "parse_chore_params (''env mode='' @ [dquote] @ ''fast'' @ [dquote] @ '' * rest : build'') ''deploy'' 4
      = Inr ([RequiredParam ''env'' 4 0, DefaultedString ''mode'' ''fast'' 4 0, VariadicStar ''rest'' 4 0], '': build'')"
    by code_simp
  from chore_params_ordered[OF this] show ?thesis by simp
qed

section \<open>The path of a module\<close>

lemma use_segments_eq:
  "use_segments ws = (if ''..'' \<in> set ws then Inl DotDotSegment else Inr (filter (\<lambda>w. w \<noteq> [] \<and> w \<noteq> ''.'') ws))"
  by (induction ws) auto

text \<open>The accepted paths, and the spelling they get.\<close>

lemma use_path_accepted:
  "normalise_use_path raw = Inr p \<longleftrightarrow>
     \<not> has_ws raw \<and> \<not> has_root raw \<and> ''..'' \<notin> set (segments raw) \<and> segments raw \<noteq> [] \<and> p = join ''/'' (segments raw)"
proof -
  have "''..'' \<in> set (split_on CHR ''/'' raw) \<longleftrightarrow> ''..'' \<in> set (segments raw)" by (simp add: segments_def)
  moreover have "starts_with ''//'' raw \<Longrightarrow> starts_with ''/'' raw" by (auto simp: starts_with_iff)
  ultimately show ?thesis
    by (auto simp: normalise_use_path_def use_segments_eq has_root_def segments_def split: if_splits)
qed

lemma segments_of_join:
  assumes "ws = segments raw" and "ws \<noteq> []"
  shows "segments (join ''/'' ws) = ws"
proof -
  have "\<forall>w \<in> set ws. CHR ''/'' \<notin> set w" using assms(1) segment_chars_sep by blast
  then have "split_on CHR ''/'' (join ''/'' ws) = ws" using assms(2) by (intro split_on_join) auto
  moreover have "filter (\<lambda>w. w \<noteq> [] \<and> w \<noteq> ''.'') ws = ws" unfolding assms(1) by (simp add: segments_def)
  ultimately show ?thesis by (simp add: segments_def)
qed

lemma relative_join: "ws = segments raw \<Longrightarrow> ws \<noteq> [] \<Longrightarrow> \<not> has_root (join ''/'' ws)"
proof -
  assume ws: "ws = segments raw" "ws \<noteq> []"
  obtain w us where w: "ws = w # us" using ws(2) by (cases ws) auto
  then have "w \<noteq> []" "CHR ''/'' \<notin> set w" using segment_chars_sep[of w raw] ws by auto
  then show ?thesis by (cases w; cases us) (auto simp: w has_root_def starts_with_iff)
qed

text \<open>Where a path leads from a directory.\<close>

definition place :: "str \<Rightarrow> str \<Rightarrow> path" where
  "place dir p = normalize (components (path_join dir p))"

lemma plain_segments: "''..'' \<notin> set ws \<Longrightarrow> fold normalize_step (map seg_component ws) out = out @ map Normal ws"
  by (induction ws arbitrary: out) (auto simp: seg_component_def)

lemma place_plain:
  "\<not> has_root p \<Longrightarrow> ''..'' \<notin> set (segments p) \<Longrightarrow> place dir p = normalize (components dir) @ map Normal (segments p)"
  by (simp add: place_def normalize_join plain_segments)

text \<open>
  C28: a path that \<open>use\<close> accepts stays below the directory of its Cookfile, strictly, wherever that is, and
  the spelling it is recorded under names the same place. Two accepted paths get the same spelling
  exactly when they name the same place, so that one file is one module.
\<close>

theorem use_path_one_spelling:
  assumes "normalise_use_path raw = Inr p" and "normalise_use_path raw' = Inr p'"
  shows "strict_prefix (normalize (components dir)) (place dir raw) \<and> place dir p = place dir raw
    \<and> (p = p' \<longleftrightarrow> place dir raw = place dir raw')"
proof -
  have r: "place dir raw = normalize (components dir) @ map Normal (segments raw)" "segments raw \<noteq> []"
    "place dir raw' = normalize (components dir) @ map Normal (segments raw')" "segments raw' \<noteq> []"
    and d: "''..'' \<notin> set (segments raw)" and p: "p = join ''/'' (segments raw)" "p' = join ''/'' (segments raw')"
    using assms place_plain by (auto simp: use_path_accepted)
  have s: "segments p = segments raw" "segments p' = segments raw'" using r p segments_of_join by simp_all
  have "place dir p = place dir raw"
    using place_plain[of p dir] relative_join[of "segments raw" raw] d r s p(1) by simp
  moreover have "p = p' \<longleftrightarrow> segments raw = segments raw'" using p s by metis
  moreover have "map Normal (segments raw) = map Normal (segments raw') \<longleftrightarrow> segments raw = segments raw'"
    by (rule inj_map_eq_map) (auto intro: injI)
  ultimately show ?thesis using r by (auto simp: strict_prefix_def)
qed

theorem use_path_one_spelling_witness:
  "place ''/w'' ''build/helpers.lua'' = place ''/w'' ''./build//helpers.lua''
   \<and> strict_prefix (normalize (components ''/w'')) (place ''/w'' ''./build//helpers.lua'')"
proof -
  have "normalise_use_path ''./build//helpers.lua'' = Inr ''build/helpers.lua''" by code_simp
  from use_path_one_spelling[OF this this, of "''/w''"] show ?thesis by simp
qed

end
