(* ===== verification/Recipe_Props.thy ===== *)
theory Recipe_Props
  imports Recipe_Parser Lexer_Props "HOL-Library.Sublist"
begin

text \<open>
  What a parsed recipe is: which steps it can have, that the seals of its body apply to every one of
  them, and where its body ends. \<open>body\_lines\<close> are the lines of a body; the seals of a line are read off
  its words (\<open>line\_seals\<close>), apart from the loop that gathers them.
\<close>

section \<open>Operands of a seal\<close>

lemma seal_operand_refs:
  assumes "seal_operand line operand (refs, globs, excludes) = Inr (refs', globs', excludes')" and "list_all is_valid_bare refs"
  shows "list_all is_valid_bare refs'"
proof -
  have "parse_seal_refs [operand] line = Inr rs \<Longrightarrow> list_all is_valid_bare rs" for rs
    by (auto simp: parse_seal_refs_def map_res_Inr list_all2_Cons1 seal_ref_def split: if_splits)
  then show ?thesis
    using assms by (auto simp: seal_operand_def bind_res_Inr_iff split: option.splits if_splits)
qed

text \<open>A probe made for the quoted globs of a seal: its name is the key of its globs.\<close>

definition inline_probe_ok :: "(str \<Rightarrow> u64) \<Rightarrow> probe_decl \<Rightarrow> bool" where
  "inline_probe_ok xxh3 p \<longleftrightarrow>
     (case pb_produce p of
        ProduceFiles globs excludes \<Rightarrow> globs \<noteq> [] \<and> p = anonymous_probe xxh3 globs excludes (pb_line p)
      | _ \<Rightarrow> False)"

lemma inline_probe_name: "inline_probe_ok xxh3 p \<Longrightarrow> starts_with ''@seal:'' (pb_name p)"
proof -
  assume "inline_probe_ok xxh3 p"
  then obtain gs xs where "p = anonymous_probe xxh3 gs xs (pb_line p)"
    by (auto simp: inline_probe_ok_def split: probe_produce.splits)
  then have "pb_name p = anonymous_seal_key xxh3 gs xs" by (metis anonymous_probe_def probe_decl.select_convs(1))
  then show ?thesis by (auto simp: anonymous_seal_key_def starts_with_iff)
qed

lemma seal_operands_sound:
  assumes "parse_seal_operands xxh3 src line = Inr parsed"
  shows "(\<forall>k \<in> set (so_refs parsed). is_valid_bare k \<or> (\<exists>p. so_inline_probe parsed = Some p \<and> k = pb_name p))
    \<and> (\<forall>p. so_inline_probe parsed = Some p \<longrightarrow> pb_name p \<in> set (so_refs parsed) \<and> inline_probe_ok xxh3 p)"
proof -
  obtain ops refs globs excludes where f: "fold_res (seal_operand line) ops ([], [], []) = Inr (refs, globs, excludes)"
    and p: "globs = [] \<and> parsed = \<lparr>so_refs = refs, so_inline_probe = None\<rparr>
      \<or> globs \<noteq> [] \<and> parsed = \<lparr>so_refs = refs @ [anonymous_seal_key xxh3 globs excludes],
           so_inline_probe = Some (anonymous_probe xxh3 globs excludes line)\<rparr>"
    using assms by (auto simp: parse_seal_operands_def Let_def bind_res_Inr_iff split: prod.splits if_splits)
  have "list_all is_valid_bare (fst (refs, globs, excludes))"
    by (rule fold_res_invariant[OF f, of "\<lambda>a. list_all is_valid_bare (fst a)"])
      (auto dest: seal_operand_refs)
  then show ?thesis
    using p by (auto simp: list_all_iff inline_probe_ok_def anonymous_probe_def)
qed

text \<open>The words of a seal by what they are: a word that is not quoted is a key, a quoted one a glob.\<close>

definition seal_globs :: "str list \<Rightarrow> str list" where
  "seal_globs ws = List.map_filter unquote (filter (\<lambda>w. \<not> starts_with ''!'' w) ws)"

definition seal_excludes :: "str list \<Rightarrow> str list" where
  "seal_excludes ws = List.map_filter unquote (map tl (filter (starts_with ''!'') ws))"

definition seal_keys :: "str list \<Rightarrow> str list" where
  "seal_keys ws = filter (\<lambda>w. \<not> starts_with ''!'' w \<and> unquote w = None) ws"

definition seals_of_words :: "(str \<Rightarrow> u64) \<Rightarrow> str list \<Rightarrow> str set" where
  "seals_of_words xxh3 ws =
     set (seal_keys ws) \<union> (if seal_globs ws = [] then {} else {anonymous_seal_key xxh3 (seal_globs ws) (seal_excludes ws)})"

definition probes_of_words :: "(str \<Rightarrow> u64) \<Rightarrow> str list \<Rightarrow> nat \<Rightarrow> probe_decl list" where
  "probes_of_words xxh3 ws line =
     (if seal_globs ws = [] then [] else [anonymous_probe xxh3 (seal_globs ws) (seal_excludes ws) line])"

lemma seal_words_Nil [simp]: "seal_globs [] = []" "seal_excludes [] = []" "seal_keys [] = []"
  by (simp_all add: seal_globs_def seal_excludes_def seal_keys_def map_filter_def)

lemma seal_operand_words:
  assumes "seal_operand line w (refs, globs, excludes) = Inr acc"
  shows "acc = (refs @ seal_keys [w], globs @ seal_globs [w], excludes @ seal_excludes [w])"
proof (cases "strip_prefix ''!'' w")
  case (Some q)
  then have "w = ''!'' @ q" by (simp add: strip_prefix_iff)
  then show ?thesis
    using assms Some
    by (auto simp: seal_operand_def seal_keys_def seal_globs_def seal_excludes_def map_filter_def
        split: option.splits if_splits)
next
  case None
  then have "\<not> starts_with ''!'' w" by (auto simp: starts_with_iff strip_prefix_iff[symmetric])
  then show ?thesis
    using assms None
    by (auto simp: seal_operand_def seal_keys_def seal_globs_def seal_excludes_def map_filter_def parse_seal_refs_def
        bind_res_Inr_iff map_res_Inr list_all2_Cons1 seal_ref_def split: option.splits if_splits)
qed

lemma seal_words_Cons:
  "seal_globs (w # ws) = seal_globs [w] @ seal_globs ws" "seal_excludes (w # ws) = seal_excludes [w] @ seal_excludes ws"
  "seal_keys (w # ws) = seal_keys [w] @ seal_keys ws"
  by (simp_all add: seal_globs_def seal_excludes_def seal_keys_def map_filter_def)

lemma seal_fold_words:
  "fold_res (seal_operand line) ws (refs, globs, excludes) = Inr acc \<Longrightarrow>
     acc = (refs @ seal_keys ws, globs @ seal_globs ws, excludes @ seal_excludes ws)"
proof (induction ws arbitrary: refs globs excludes)
  case (Cons w ws)
  then obtain a where a: "seal_operand line w (refs, globs, excludes) = Inr a" "fold_res (seal_operand line) ws a = Inr acc"
    by (auto simp: bind_res_Inr_iff split: sum.splits)
  from Cons.IH[OF a(2)[unfolded seal_operand_words[OF a(1)]]] show ?case by (simp add: seal_words_Cons[of w ws])
qed simp

lemma parsed_seal_words:
  assumes "parse_seal_operands xxh3 src line = Inr parsed"
  shows "set (so_refs parsed) = seals_of_words xxh3 (fst (seal_operands None (False, False) src))
    \<and> (case so_inline_probe parsed of None \<Rightarrow> [] | Some p \<Rightarrow> [p])
        = probes_of_words xxh3 (fst (seal_operands None (False, False) src)) line"
proof -
  let ?ws = "fst (seal_operands None (False, False) src)"
  obtain refs globs excludes where f: "fold_res (seal_operand line) ?ws ([], [], []) = Inr (refs, globs, excludes)"
    and p: "globs = [] \<and> parsed = \<lparr>so_refs = refs, so_inline_probe = None\<rparr>
      \<or> globs \<noteq> [] \<and> parsed = \<lparr>so_refs = refs @ [anonymous_seal_key xxh3 globs excludes],
           so_inline_probe = Some (anonymous_probe xxh3 globs excludes line)\<rparr>"
    using assms by (auto simp: parse_seal_operands_def Let_def bind_res_Inr_iff split: prod.splits if_splits)
  from seal_fold_words[OF f] show ?thesis
    using p by (auto simp: seals_of_words_def probes_of_words_def)
qed

section \<open>The key of quoted globs\<close>

lemma distinct_remdups_adj: "sorted (xs :: 'x :: linorder list) \<Longrightarrow> distinct (remdups_adj xs)"
proof (induction xs rule: remdups_adj.induct)
  case (3 x y xs)
  show ?case
  proof (cases "x = y")
    case True
    then show ?thesis using 3(1,3) by simp
  next
    case False
    have xy: "x \<le> y" and yz: "\<And>z. z \<in> set (y # xs) \<Longrightarrow> y \<le> z" using 3(3) by auto
    have "x \<notin> set (y # xs)" using yz[of x] antisym[OF xy] False by blast
    then show ?thesis using 3(2,3) False by simp
  qed
qed simp_all

lemma set_seal_records: "set (seal_records globs excludes) = (@) ''+'' ` set globs \<union> (@) ''-'' ` set excludes"
  by (simp add: seal_records_def)

lemma seal_records_eq:
  "seal_records gs xs = seal_records gs' xs' \<longleftrightarrow> set gs = set gs' \<and> set xs = set xs'"
proof -
  have "(@) ''+'' ` A \<union> (@) ''-'' ` B = (@) ''+'' ` A' \<union> (@) ''-'' ` B' \<longleftrightarrow> A = A' \<and> B = B'" for A A' B B' :: "str set"
  proof -
    have "X = {x. ''+'' @ x \<in> (@) ''+'' ` X \<union> (@) ''-'' ` Y}" "Y = {y. ''-'' @ y \<in> (@) ''+'' ` X \<union> (@) ''-'' ` Y}" for X Y :: "str set"
      by auto
    then show ?thesis by metis
  qed
  then have "set (seal_records gs xs) = set (seal_records gs' xs') \<longleftrightarrow> set gs = set gs' \<and> set xs = set xs'"
    unfolding set_seal_records .
  moreover have "sorted (seal_records a b)" "distinct (seal_records a b)" for a b
    by (simp_all add: seal_records_def distinct_remdups_adj)
  ultimately show ?thesis using sorted_distinct_set_unique by metis
qed

lemma seal_records_lines:
  "list_all (\<lambda>g. newline \<notin> set g) (gs @ xs) \<Longrightarrow> \<forall>r \<in> set (seal_records gs xs). newline \<notin> set r"
  unfolding set_seal_records by (auto simp: list_all_iff)

lemma seal_records_Nil: "seal_records gs xs = [] \<longleftrightarrow> gs = [] \<and> xs = []"
  unfolding set_empty[symmetric] set_seal_records by simp

text \<open>
  the name of the probe that is made for the quoted globs of a seal identifies them. Two seals get the
  same name exactly when they include the same globs and exclude the same globs, in any order and with
  any repetition, or when the hash of their records collides; so that merging the probes of one name,
  as the end of the parse does, loses no determinant. No glob holds a line feed, since each stands on a
  line of the source.
\<close>

theorem seal_key_exact:
  assumes "list_all (\<lambda>g. newline \<notin> set g) (gs @ xs)" and "list_all (\<lambda>g. newline \<notin> set g) (gs' @ xs')"
    and "gs \<noteq> []" and "gs' \<noteq> []"
  shows "anonymous_seal_key xxh3 gs xs = anonymous_seal_key xxh3 gs' xs' \<longleftrightarrow>
      set gs = set gs' \<and> set xs = set xs'
      \<or> (join [newline] (seal_records gs xs) \<noteq> join [newline] (seal_records gs' xs')
         \<and> xxh3 (join [newline] (seal_records gs xs)) = xxh3 (join [newline] (seal_records gs' xs')))"
proof -
  let ?j = "join [newline] (seal_records gs xs)" and ?k = "join [newline] (seal_records gs' xs')"
  have "split_on newline ?j = seal_records gs xs"
    by (rule split_on_join[OF _ seal_records_lines[OF assms(1)]]) (simp add: seal_records_Nil assms(3))
  moreover have "split_on newline ?k = seal_records gs' xs'"
    by (rule split_on_join[OF _ seal_records_lines[OF assms(2)]]) (simp add: seal_records_Nil assms(4))
  ultimately have j: "?j = ?k \<longleftrightarrow> set gs = set gs' \<and> set xs = set xs'"
    unfolding seal_records_eq[symmetric] by metis
  have "anonymous_seal_key xxh3 gs xs = anonymous_seal_key xxh3 gs' xs' \<longleftrightarrow> xxh3 ?j = xxh3 ?k"
    by (simp add: anonymous_seal_key_def hex16_inj hash_str_def)
  then show ?thesis using j by metis
qed

theorem seal_key_exact_witness:
  "anonymous_seal_key (\<lambda>_. 7) [''b'', ''a''] [''c''] = anonymous_seal_key (\<lambda>_. 7) [''a'', ''b'', ''a''] [''c'']"
  by (subst seal_key_exact) (auto simp: insert_commute)

section \<open>Patterns of a gather line\<close>

lemma trim_keeps_plain: "plain_char a \<Longrightarrow> trim (a # s) = a # trim_end s"
  using trim_start_plain[of a s] by (simp add: trim_def)

lemma first_pattern:
  assumes "take_patterns True n s = Inr ([], c)" and "trim_start s = a # u"
  shows "c = a # u"
  using assms
  by (auto simp: take_patterns.simps[of True n s] Let_def bind_res_Inr_iff split: if_splits option.splits prod.splits)

lemma gather_line_patterns:
  assumes "parse_gather_line s k l toks src = Inr (inc, exc, rest)" and "trim_start s = a # u" and "plain_char a"
  shows "inc \<noteq> [] \<or> exc \<noteq> []"
proof (rule ccontr)
  assume no: "\<not> (inc \<noteq> [] \<or> exc \<noteq> [])"
  obtain ps w at where q: "quoted_patterns True l (trim s) (drop l src) toks = Inr (ps, w, at)"
    and w: "trim w = []" and ps: "inc = map fst (filter (\<lambda>p. \<not> snd p) ps)" "exc = map fst (filter snd ps)"
    using assms(1) by (auto simp: parse_gather_line_def collect_quoted_patterns_multiline_def bind_res_Inr_iff split: if_splits)
  have e: "ps = []" using no ps by (cases ps) (auto split: if_splits)
  have t: "trim s = a # trim_end u" using assms(2,3) trim_start_plain[OF assms(3)] by (simp add: trim_def trim_keeps_plain)
  then have ts: "trim_start (trim s) = a # trim_end u" using trim_start_plain[OF assms(3)] by simp
  obtain ps' c where p: "take_patterns True l (trim s) = Inr (ps', c)"
    using q by (cases "drop l src") (auto simp: bind_res_Inr_iff)
  have "ps' = []" using q p e by (cases "drop l src") (auto simp: bind_res_Inr_iff split: if_splits)
  then have "c = a # trim_end u" using first_pattern[OF _ ts] p by simp
  then have c: "trim c = a # trim_end (trim_end u)" using trim_keeps_plain[OF assms(3)] by simp
  then have "w = trim c" using q p by (cases "drop l src") (auto simp: bind_res_Inr_iff)
  then have "trim w \<noteq> []" using c trim_keeps_plain[OF assms(3)] by simp
  then show False using w by simp
qed

section \<open>The steps of a body\<close>

text \<open>What a recipe can hold, every cook and test step with the given seals.\<close>

fun sealed_with :: "str set \<Rightarrow> step \<Rightarrow> bool" where
  "sealed_with base (CookLine c l) \<longleftrightarrow> dp_seal (ck_disposition c) = base \<and> ck_body c \<noteq> None"
| "sealed_with base (TestLine t l) \<longleftrightarrow> ts_seal t = base"
| "sealed_with base (GatherStep l) \<longleftrightarrow> True"
| "sealed_with base (MemberStep m l) \<longleftrightarrow> True"
| "sealed_with base (InlineLuaStep code l) \<longleftrightarrow> True"
| "sealed_with base (ShellStep s l i) \<longleftrightarrow> False"
| "sealed_with base (LuaStep s l) \<longleftrightarrow> False"
| "sealed_with base (LuaBlockStep s l) \<longleftrightarrow> False"

fun gathers_files :: "step \<Rightarrow> bool" where
  "gathers_files (GatherStep l) = True"
| "gathers_files _ = False"

fun gathers_members :: "step \<Rightarrow> bool" where
  "gathers_members (MemberStep m l) = True"
| "gathers_members _ = False"

text \<open>The patterns and the bare source come from one step each, and not from both.\<close>

definition one_source :: "str list \<Rightarrow> str list \<Rightarrow> step list \<Rightarrow> bool" where
  "one_source inc exc steps \<longleftrightarrow>
     length (filter gathers_files steps) = (if inc \<noteq> [] \<or> exc \<noteq> [] then 1 else 0)
     \<and> length (filter gathers_files steps) + length (filter gathers_members steps) \<le> 1"

definition seals_known :: "(str \<Rightarrow> u64) \<Rightarrow> str set \<Rightarrow> probe_decl list \<Rightarrow> bool" where
  "seals_known xxh3 base probes \<longleftrightarrow>
     (\<forall>p \<in> set probes. inline_probe_ok xxh3 p \<and> pb_name p \<in> base)
     \<and> (\<forall>k \<in> base. is_valid_bare k \<or> k \<in> pb_name ` set probes)"

definition recipe_inv :: "(str \<Rightarrow> u64) \<Rightarrow> recipe_state \<Rightarrow> bool" where
  "recipe_inv xxh3 st \<longleftrightarrow>
     list_all (sealed_with {}) (rs_steps st) \<and> one_source (rs_inputs st) (rs_excludes st) (rs_steps st)
     \<and> (list_ex gathers_members (rs_steps st) \<longleftrightarrow> rs_member_seen st)
     \<and> seals_known xxh3 (rs_base_seal st) (rs_probes st)"

lemma recipe_inv_start: "recipe_inv xxh3 recipe_start"
  by (simp add: recipe_inv_def recipe_start_def one_source_def seals_known_def)

lemma recipe_seal_inv:
  assumes "recipe_seal xxh3 src r l st toks = Inr (st', rest)" and "recipe_inv xxh3 st"
  shows "recipe_inv xxh3 st'"
proof -
  obtain ops last parsed where p: "parse_seal_operands xxh3 ops l = Inr parsed"
    and st': "st' = st\<lparr>rs_base_seal := rs_base_seal st \<union> set (so_refs parsed),
                  rs_probes := rs_probes st @ (case so_inline_probe parsed of None \<Rightarrow> [] | Some p \<Rightarrow> [p])\<rparr>"
    using assms(1) by (auto simp: recipe_seal_def bind_res_Inr_iff split: if_splits prod.splits)
  have "seals_known xxh3 (rs_base_seal st') (rs_probes st')"
    using assms(2) seal_operands_sound[OF p] unfolding st' recipe_inv_def seals_known_def
    by (cases "so_inline_probe parsed") auto
  then show ?thesis using assms(2) unfolding st' by (simp add: recipe_inv_def)
qed

lemma add_step_inv:
  assumes "recipe_inv xxh3 st" and "sealed_with {} s" and "\<not> gathers_files s" and "\<not> gathers_members s"
  shows "recipe_inv xxh3 (st\<lparr>rs_steps := rs_steps st @ [s]\<rparr>)"
  using assms by (simp add: recipe_inv_def one_source_def)

lemma recipe_gather_inv:
  assumes "recipe_gather src r l st toks = Inr (st', rest)" and "recipe_inv xxh3 st"
  shows "recipe_inv xxh3 st'"
proof -
  let ?h = "trim_start r"
  have seen: "\<not> rs_member_seen st" using assms(1) by (auto simp: recipe_gather_def split: if_splits)
  have no: "rs_inputs st = [] \<and> rs_excludes st = []"
    using assms(1) seen by (auto simp: recipe_gather_def Let_def split: if_splits)
  have none: "filter gathers_members (rs_steps st) = []" "filter gathers_files (rs_steps st) = []"
    using assms(2) seen no by (auto simp: recipe_inv_def one_source_def filter_empty_conv list_ex_iff)
  show ?thesis
  proof (cases "starts_with [dquote] ?h \<or> starts_with ''!'' ?h")
    case True
    then obtain inc exc where p: "parse_gather_line r ''gather'' l toks src = Inr (inc, exc, rest)"
      and st': "st' = st\<lparr>rs_inputs := inc, rs_excludes := exc, rs_steps := rs_steps st @ [GatherStep l]\<rparr>"
      using assms(1) seen no by (auto simp: recipe_gather_def Let_def bind_res_Inr_iff)
    obtain a u where h: "?h = a # u" "a = dquote \<or> a = CHR ''!''" using True by (cases ?h) (auto simp: starts_with_iff)
    have "plain_char dquote" "plain_char CHR ''!''" by code_simp+
    then have "inc \<noteq> [] \<or> exc \<noteq> []" using gather_line_patterns[OF p h(1)] h(2) by blast
    then show ?thesis using assms(2) none unfolding st' by (simp add: recipe_inv_def one_source_def)
  next
    case False
    then obtain source where "st' = st\<lparr>rs_member_seen := True, rs_steps := rs_steps st @ [MemberStep source l]\<rparr>"
      using assms(1) seen no by (auto simp: recipe_gather_def Let_def bind_res_Inr_iff split: if_splits)
    then show ?thesis using assms(2) none no by (simp add: recipe_inv_def one_source_def)
  qed
qed

lemma cook_line_unsealed:
  assumes "parse_cook_line s l toks src = Inr (c, rest)"
  shows "dp_seal (ck_disposition c) = {} \<and> ck_body c \<noteq> None"
proof -
  obtain os a bl toks' where "cook_with_body os a bl l toks' src = Inr (c, rest)"
    using assms
    by (auto simp: parse_cook_line_def parse_cook_expr_def parse_cook_quoted_def Let_def bind_res_Inr_iff split: if_splits)
  then show ?thesis by (auto simp: cook_with_body_def cook_disposition_from_tail_def bind_res_Inr_iff)
qed

lemma recipe_step_inv:
  assumes "recipe_step env src tok st toks = Inr (Some (st', rest))" and "recipe_inv (pe_xxh3 env) st"
  shows "recipe_inv (pe_xxh3 env) st'"
proof (cases "tok_value tok")
  case (ContentTok s)
  then have "recipe_content env src s (tok_line tok) st toks = Inr (Some (st', rest))"
    using assms(1) by (simp add: recipe_step_def)
  then show ?thesis
  proof (cases rule: recipe_content_cases)
    case (call code)
    then show ?thesis using add_step_inv[OF assms(2), of "InlineLuaStep code (tok_line tok)"] by simp
  next
    case (seal r)
    then show ?thesis using recipe_seal_inv assms(2) by blast
  next
    case (gather r)
    then show ?thesis using recipe_gather_inv assms(2) by blast
  next
    case (cook r)
    then obtain c t where "parse_cook_line r (tok_line tok) toks src = Inr (c, t)"
      "st' = st\<lparr>rs_steps := rs_steps st @ [CookLine c (tok_line tok)]\<rparr>"
      by (auto simp: recipe_cook_def bind_res_Inr_iff)
    then show ?thesis using add_step_inv[OF assms(2), of "CookLine c (tok_line tok)"] cook_line_unsealed by simp
  next
    case (test r)
    then obtain b where "st' = st\<lparr>rs_steps := rs_steps st @ [TestLine \<lparr>ts_body = b, ts_seal = {}\<rparr> (tok_line tok)]\<rparr>"
      by (auto simp: recipe_test_def bind_res_Inr_iff)
    then show ?thesis using add_step_inv[OF assms(2), of "TestLine \<lparr>ts_body = b, ts_seal = {}\<rparr> (tok_line tok)"] by simp
  qed
qed (use assms in \<open>auto simp: recipe_step_def split: if_splits\<close>)

lemma seal_step_sealed: "sealed_with {} s \<Longrightarrow> sealed_with base (seal_step base s)"
  by (cases s) simp_all

lemma seal_step_gathers [simp]:
  "gathers_files (seal_step base s) = gathers_files s" "gathers_members (seal_step base s) = gathers_members s"
  "is_sealable (seal_step base s) = is_sealable s"
  by (cases s; simp)+

lemma filter_seal_step:
  "gathers_files \<circ> seal_step base = gathers_files" "gathers_members \<circ> seal_step base = gathers_members"
  by (auto simp: fun_eq_iff)

text \<open>A declaration: its header, or a module call in column 0.\<close>

fun heads_declaration :: "token \<Rightarrow> bool" where
  "heads_declaration (CommentTok s) = False"
| "heads_declaration BlankTok = False"
| "heads_declaration (ContentTok s) = False"
| "heads_declaration (LuaLineTok s) = False"
| "heads_declaration LuaBlockOpen = False"
| "heads_declaration (InlineLuaLine s) = False"
| "heads_declaration InlineLuaBlockOpen = False"
| "heads_declaration _ = True"

definition declares :: "str list \<Rightarrow> located \<Rightarrow> bool" where
  "declares src tok \<longleftrightarrow>
     heads_declaration (tok_value tok)
     \<or> (case tok_value tok of ContentTok s \<Rightarrow> is_module_call s \<and> \<not> starts_ws (source_line src (tok_line tok)) | _ \<Rightarrow> False)"

lemma declares_iff: "declares src tok \<longleftrightarrow> ends_block src tok"
  by (cases "tok_value tok") (simp_all add: declares_def ends_block_def top_level_call_def)

lemma recipe_step_end:
  "recipe_step env src tok st toks = Inr None \<Longrightarrow> declares src tok"
  unfolding declares_iff
  by (auto simp: recipe_step_def recipe_content_def ends_block_def top_level_call_def bind_res_Inr_iff
      split: if_splits token.splits option.splits)

section \<open>The lines of a body\<close>

text \<open>The tokens at which a line of the body is read: each is the first that the line before has not consumed.\<close>

function body_lines :: "parser_env \<Rightarrow> str list \<Rightarrow> located list \<Rightarrow> located list" where
  "body_lines env src [] = []"
| "body_lines env src (tok # toks) =
     (case recipe_step env src tok recipe_start (tok # toks) of
        Inr (Some (st, later)) \<Rightarrow> tok # body_lines env src later
      | _ \<Rightarrow> [])"
  by pat_completeness auto
termination
  by (relation "measure (\<lambda>(e, s, toks). length toks)") (auto dest: recipe_step_length)

definition seal_words :: "str list \<Rightarrow> located \<Rightarrow> str list" where
  "seal_words src tok =
     (case tok_value tok of
        ContentTok s \<Rightarrow>
          (case strip_keyword s ''seal'' of
             Some r \<Rightarrow> fst (seal_operands None (False, False) (fst (collect_seal_continuation r (tok_line tok) src)))
           | None \<Rightarrow> [])
      | _ \<Rightarrow> [])"

definition gives_step :: "located \<Rightarrow> bool" where
  "gives_step tok \<longleftrightarrow> (case tok_value tok of ContentTok s \<Rightarrow> strip_keyword s ''seal'' = None | _ \<Rightarrow> False)"

definition body_seals :: "parser_env \<Rightarrow> str list \<Rightarrow> located list \<Rightarrow> str set" where
  "body_seals env src toks = \<Union>(set (map (\<lambda>tok. seals_of_words (pe_xxh3 env) (seal_words src tok)) (body_lines env src toks)))"

definition body_probes :: "parser_env \<Rightarrow> str list \<Rightarrow> located list \<Rightarrow> probe_decl list" where
  "body_probes env src toks =
     concat (map (\<lambda>tok. probes_of_words (pe_xxh3 env) (seal_words src tok) (tok_line tok)) (body_lines env src toks))"

fun step_line :: "step \<Rightarrow> nat" where
  "step_line (CookLine c l) = l"
| "step_line (TestLine t l) = l"
| "step_line (GatherStep l) = l"
| "step_line (MemberStep m l) = l"
| "step_line (InlineLuaStep code l) = l"
| "step_line (ShellStep s l i) = l"
| "step_line (LuaStep s l) = l"
| "step_line (LuaBlockStep s l) = l"

lemma step_line_sealed [simp]: "step_line (seal_step base s) = step_line s"
  by (cases s) simp_all

lemma module_call_no_seal: "is_module_call s \<Longrightarrow> strip_keyword s ''seal'' = None"
  by (auto simp: is_module_call_def strip_keyword_def strip_prefix_iff first_is_def is_param_char_def is_alpha_def char_class_defs
      starts_with_iff Let_def split: option.splits if_splits list.splits)

text \<open>What one line adds to the state; how far it reads does not depend on the lines before it.\<close>

definition line_adds :: "parser_env \<Rightarrow> str list \<Rightarrow> located \<Rightarrow> recipe_state \<Rightarrow> recipe_state \<Rightarrow> bool" where
  "line_adds env src tok st st' \<longleftrightarrow>
     rs_base_seal st' = rs_base_seal st \<union> seals_of_words (pe_xxh3 env) (seal_words src tok)
     \<and> rs_probes st' = rs_probes st @ probes_of_words (pe_xxh3 env) (seal_words src tok) (tok_line tok)
     \<and> map step_line (rs_steps st') = map step_line (rs_steps st) @ (if gives_step tok then [tok_line tok] else [])"

lemma no_seal_words: "seals_of_words xxh3 [] = {}" "probes_of_words xxh3 [] l = []"
  by (simp_all add: seals_of_words_def probes_of_words_def)

lemma seal_line_adds:
  assumes "recipe_seal (pe_xxh3 env) src r (tok_line tok) st toks = Inr (st', rest)"
    and "tok_value tok = ContentTok s" and "strip_keyword s ''seal'' = Some r"
  shows "line_adds env src tok st st'"
proof -
  let ?text = "fst (collect_seal_continuation r (tok_line tok) src)"
  obtain parsed where p: "parse_seal_operands (pe_xxh3 env) ?text (tok_line tok) = Inr parsed"
    and st': "st' = st\<lparr>rs_base_seal := rs_base_seal st \<union> set (so_refs parsed),
                  rs_probes := rs_probes st @ (case so_inline_probe parsed of None \<Rightarrow> [] | Some p \<Rightarrow> [p])\<rparr>"
    using assms(1) by (auto simp: recipe_seal_def bind_res_Inr_iff split: if_splits prod.splits)
  have "seal_words src tok = fst (seal_operands None (False, False) ?text)" "\<not> gives_step tok"
    using assms(2,3) by (simp_all add: seal_words_def gives_step_def)
  then show ?thesis using parsed_seal_words[OF p] unfolding st' by (simp add: line_adds_def)
qed

lemma step_line_adds:
  assumes "tok_value tok = ContentTok s" and "strip_keyword s ''seal'' = None"
    and "rs_base_seal st' = rs_base_seal st" and "rs_probes st' = rs_probes st"
    and "map step_line (rs_steps st') = map step_line (rs_steps st) @ [tok_line tok]"
  shows "line_adds env src tok st st'"
  using assms by (simp add: line_adds_def seal_words_def gives_step_def no_seal_words)

lemma recipe_step_adds:
  assumes "recipe_step env src tok st toks = Inr (Some (st', rest))"
  shows "line_adds env src tok st st' \<and> \<not> declares src tok"
proof (cases "tok_value tok")
  case (ContentTok s)
  then have c: "recipe_content env src s (tok_line tok) st toks = Inr (Some (st', rest))"
    using assms by (simp add: recipe_step_def)
  have d: "\<not> declares src tok"
    using c ContentTok by (auto simp: declares_def recipe_content_def split: if_splits)
  from c show ?thesis
  proof (cases rule: recipe_content_cases)
    case (call code)
    then show ?thesis using d step_line_adds[OF ContentTok module_call_no_seal[OF call(2)]] by simp
  next
    case (seal r)
    then show ?thesis using d seal_line_adds[OF seal(1) ContentTok seal(2)] by simp
  next
    case (gather r)
    then show ?thesis
      using d step_line_adds[OF ContentTok gather(2), of st' st]
      by (auto simp: recipe_gather_def Let_def bind_res_Inr_iff split: if_splits)
  next
    case (cook r)
    then show ?thesis
      using d step_line_adds[OF ContentTok cook(2), of st' st] by (auto simp: recipe_cook_def bind_res_Inr_iff)
  next
    case (test r)
    then show ?thesis
      using d step_line_adds[OF ContentTok test(2), of st' st] by (auto simp: recipe_test_def bind_res_Inr_iff)
  qed
qed (use assms in \<open>auto simp: recipe_step_def line_adds_def seal_words_def gives_step_def no_seal_words declares_def split: if_splits\<close>)

lemma seal_extent: "recipe_seal h src r l st toks = Inr (st', rest) \<Longrightarrow> \<exists>st''. recipe_seal h src r l st0 toks = Inr (st'', rest)"
  by (auto simp: recipe_seal_def bind_res_Inr_iff split: if_splits prod.splits)

lemma gather_extent:
  "recipe_gather src r l st toks = Inr (st', rest) \<Longrightarrow> \<exists>st''. recipe_gather src r l recipe_start toks = Inr (st'', rest)"
  by (auto simp: recipe_gather_def recipe_start_def Let_def bind_res_Inr_iff split: if_splits)

lemma cook_extent: "recipe_cook src r l st toks = Inr (st', rest) \<Longrightarrow> \<exists>st''. recipe_cook src r l st0 toks = Inr (st'', rest)"
  by (auto simp: recipe_cook_def bind_res_Inr_iff)

lemma test_extent: "recipe_test src r l st toks = Inr (st', rest) \<Longrightarrow> \<exists>st''. recipe_test src r l st0 toks = Inr (st'', rest)"
  by (auto simp: recipe_test_def bind_res_Inr_iff)

lemma bind_some: "bind_res r (Inr \<circ> Some) = Inr (Some x) \<longleftrightarrow> r = Inr x"
  by (auto simp: bind_res_Inr_iff)

lemma recipe_content_extent:
  assumes "recipe_content env src s line st toks = Inr (Some (st', rest))"
  shows "\<exists>st''. recipe_content env src s line recipe_start toks = Inr (Some (st'', rest))"
proof (cases "is_module_call s")
  case True
  then show ?thesis using assms by (auto simp: recipe_content_def bind_res_Inr_iff split: if_splits)
next
  case False
  note c = assms[unfolded recipe_content_def, simplified False, simplified]
  have none: "strip_keyword s ''unseal'' = None" "strip_keyword s ''envs'' = None" "strip_keyword s ''ingredients'' = None"
    if "strip_keyword s ''seal'' = None"
    using c that by (auto split: option.splits)
  consider (seal) r where "strip_keyword s ''seal'' = Some r"
    | (gather) r where "strip_keyword s ''seal'' = None" "strip_keyword s ''gather'' = Some r"
    | (cook) r where "strip_keyword s ''seal'' = None" "strip_keyword s ''gather'' = None" "strip_keyword s ''cook'' = Some r"
    | (test) r where "strip_keyword s ''seal'' = None" "strip_keyword s ''gather'' = None" "strip_keyword s ''cook'' = None"
        "strip_keyword s ''test'' = Some r"
    using c by (auto split: option.splits)
  then show ?thesis
  proof cases
    case (seal r)
    then show ?thesis using c seal_extent by (simp add: recipe_content_def False bind_some; blast)
  next
    case (gather r)
    then show ?thesis using c none gather_extent by (simp add: recipe_content_def False bind_some; blast)
  next
    case (cook r)
    then show ?thesis using c none cook_extent by (simp add: recipe_content_def False bind_some; blast)
  next
    case (test r)
    then show ?thesis using c none test_extent by (simp add: recipe_content_def False bind_some; blast)
  qed
qed

lemma recipe_step_extent:
  assumes "recipe_step env src tok st toks = Inr (Some (st', rest))"
  shows "\<exists>st''. recipe_step env src tok recipe_start toks = Inr (Some (st'', rest))"
proof (cases "tok_value tok")
  case (ContentTok s)
  then show ?thesis using assms recipe_content_extent by (simp add: recipe_step_def)
qed (use assms in \<open>auto simp: recipe_step_def split: if_splits\<close>)

lemma recipe_loop_reads:
  "recipe_loop env src st toks = Inr (st', rest) \<Longrightarrow>
     rs_base_seal st' = rs_base_seal st \<union> body_seals env src toks \<and> rs_probes st' = rs_probes st @ body_probes env src toks
     \<and> map step_line (rs_steps st') = map step_line (rs_steps st) @ map tok_line (filter gives_step (body_lines env src toks))
     \<and> list_all (\<lambda>t. \<not> declares src t) (body_lines env src toks)"
proof (induction env src st toks rule: recipe_loop.induct)
  case (1 env src st)
  then show ?case by (simp add: body_seals_def body_probes_def)
next
  case (2 env src st tok toks)
  show ?case
  proof (cases "recipe_step env src tok st (tok # toks)")
    case (Inr r)
    show ?thesis
    proof (cases r)
      case None
      then have "\<nexists>x. recipe_step env src tok recipe_start (tok # toks) = Inr (Some x)"
        using recipe_step_end[of env src tok st "tok # toks"] recipe_step_adds[of env src tok recipe_start "tok # toks"] Inr by auto
      then have bl: "body_lines env src (tok # toks) = []" by (auto split: sum.splits option.splits)
      have "st' = st" using 2(2) Inr None by simp
      then show ?thesis unfolding body_seals_def body_probes_def bl by simp
    next
      case (Some x)
      obtain st1 later where x: "x = (st1, later)" by fastforce
      note run = Inr[unfolded Some x]
      obtain st'' where "recipe_step env src tok recipe_start (tok # toks) = Inr (Some (st'', later))"
        using recipe_step_extent[OF run] by blast
      then have bl: "body_lines env src (tok # toks) = tok # body_lines env src later" by simp
      have "recipe_loop env src st1 later = Inr (st', rest)" using 2(2) run by simp
      note ih = "2.IH"[OF Inr Some x[symmetric] this]
      have "body_seals env src (tok # toks) = seals_of_words (pe_xxh3 env) (seal_words src tok) \<union> body_seals env src later"
        "body_probes env src (tok # toks)
          = probes_of_words (pe_xxh3 env) (seal_words src tok) (tok_line tok) @ body_probes env src later"
        by (simp_all only: body_seals_def body_probes_def bl list.map set_simps concat.simps Union_insert)
      then show ?thesis using ih recipe_step_adds[OF run] bl by (auto simp: line_adds_def)
    qed
  qed (use 2(2) in simp)
qed

section \<open>What a step leaves is the end of the tokens\<close>

lemma suffix_of_drop: "suffix r (drop k xs) \<Longrightarrow> suffix r xs"
  using suffix_drop suffix_order.trans by blast

lemma skip_tail: "suffix (skip_past_line toks l) toks" "suffix (skip_past_line (drop k toks) l) toks"
  unfolding skip_past_line_def using suffix_dropWhile suffix_of_drop by blast+

lemma tl_tail: "suffix (tl toks) toks" by (cases toks) (simp_all add: suffix_ConsI)

lemma collect_tail:
  "collect_lua_block l a toks src = Inr (c, t, rest) \<Longrightarrow> suffix rest toks"
  "collect_shell_block l a toks src = Inr (c', t, rest) \<Longrightarrow> suffix rest toks"
  "collect_module_call s l toks src = Inr (c, rest) \<Longrightarrow> suffix rest toks"
  by (auto simp: collect_lua_block_def collect_shell_block_def collect_module_call_def skip_tail suffix_drop
      simp del: drop_0 drop_Suc One_nat_def split: prod.splits option.splits if_splits)

lemma body_tail: "parse_body_payload a l toks src kw = Inr (b, t, rest) \<Longrightarrow> suffix rest toks"
  by (auto simp: parse_body_payload_def Let_def bind_res_Inr_iff split: if_splits
      dest!: collect_tail intro: suffix_of_drop)

lemma quoted_patterns_tail: "quoted_patterns a n c later toks = Inr (ps, w, rest) \<Longrightarrow> suffix rest toks"
proof (induction a n c later toks arbitrary: ps w rest rule: quoted_patterns.induct)
  case (2 a n c next_line later toks)
  obtain qs d where p: "take_patterns a n c = Inr (qs, d)"
    using 2(2) by (cases "take_patterns a n c") auto
  show ?case
  proof (cases "trim d = [] \<and> starts_pattern a (trim_start next_line)")
    case True
    then obtain us w' where "quoted_patterns a (n + 1) (trim_start next_line) later (skip_past_line toks n) = Inr (us, w', rest)"
      using 2(2) p by (auto simp: bind_res_Inr_iff)
    then have "suffix rest (skip_past_line toks n)" using 2(1)[of d] True by auto
    then show ?thesis using skip_tail(1) suffix_order.trans by blast
  next
    case False
    then show ?thesis using 2(2) p by (auto split: if_splits)
  qed
qed (auto simp: bind_res_Inr_iff)

lemma collect_patterns_tail: "collect_quoted_patterns_multiline s l toks src a = Inr (ps, w, rest) \<Longrightarrow> suffix rest toks"
  unfolding collect_quoted_patterns_multiline_def by (rule quoted_patterns_tail)

lemma gather_line_tail: "parse_gather_line s k l toks src = Inr (i, x, rest) \<Longrightarrow> suffix rest toks"
  by (auto simp: parse_gather_line_def bind_res_Inr_iff split: if_splits
      dest!: collect_patterns_tail intro: suffix_order.trans[OF skip_tail(1)])

lemma gather_ref_tail: "parse_gather_recipe_ref s l toks = Inr (m, rest) \<Longrightarrow> suffix rest toks"
  by (auto simp: parse_gather_recipe_ref_def skip_tail simp del: drop_Suc One_nat_def split: option.splits if_splits sum.splits)

lemma gather_bare_tail: "parse_gather_bare_source s l toks g = Inr (m, rest) \<Longrightarrow> suffix rest toks"
  by (auto simp: parse_gather_bare_source_def Let_def bind_res_Inr_iff skip_tail simp del: drop_Suc One_nat_def
      split: prod.splits if_splits)

lemma cook_line_tail:
  assumes "parse_cook_line s l toks src = Inr (c, rest)"
  shows "suffix rest toks"
proof -
  have b: "cook_with_body os a bl l toks' src = Inr (c, rest) \<Longrightarrow> suffix rest toks'" for os a bl toks'
    by (auto simp: cook_with_body_def bind_res_Inr_iff dest: body_tail)
  consider (e) os a bl where "cook_with_body os a bl l toks src = Inr (c, rest)"
    | (q) ps w at os a bl where "collect_quoted_patterns_multiline (trim s) l toks src False = Inr (ps, w, at)"
        "cook_with_body os a bl l at src = Inr (c, rest)"
    using assms
    by (auto simp: parse_cook_line_def parse_cook_expr_def parse_cook_quoted_def Let_def bind_res_Inr_iff split: if_splits)
  then show ?thesis using b collect_patterns_tail suffix_order.trans by cases blast+
qed

lemma recipe_step_tail:
  assumes "recipe_step env src tok st toks = Inr (Some (st', rest))"
  shows "suffix rest toks"
proof (cases "tok_value tok")
  case (ContentTok s)
  then have "recipe_content env src s (tok_line tok) st toks = Inr (Some (st', rest))"
    using assms by (simp add: recipe_step_def)
  then show ?thesis
  proof (cases rule: recipe_content_cases)
    case (call code)
    then show ?thesis using collect_tail(3) by blast
  next
    case (seal r)
    then show ?thesis by (auto simp: recipe_seal_def bind_res_Inr_iff skip_tail split: if_splits prod.splits)
  next
    case (gather r)
    then show ?thesis
      by (auto simp: recipe_gather_def Let_def bind_res_Inr_iff split: if_splits
          dest: gather_line_tail gather_ref_tail gather_bare_tail)
  next
    case (cook r)
    then show ?thesis by (auto simp: recipe_cook_def bind_res_Inr_iff dest: cook_line_tail)
  next
    case (test r)
    then show ?thesis by (auto simp: recipe_test_def bind_res_Inr_iff dest: body_tail)
  qed
qed (use assms in \<open>auto simp: recipe_step_def tl_tail split: if_splits\<close>)

lemma recipe_loop_tail: "recipe_loop env src st toks = Inr (st', rest) \<Longrightarrow> suffix rest toks"
proof (induction env src st toks rule: recipe_loop.induct)
  case (2 env src st tok toks)
  show ?case
  proof (cases "recipe_step env src tok st (tok # toks)")
    case (Inr r)
    show ?thesis
    proof (cases r)
      case (Some x)
      obtain st1 later where x: "x = (st1, later)" by fastforce
      have "suffix rest later" using "2.IH"[OF Inr Some x[symmetric]] 2(2) Inr Some x by simp
      then show ?thesis using recipe_step_tail[OF Inr[unfolded Some x]] suffix_order.trans by blast
    qed (use 2(2) Inr in simp)
  qed (use 2(2) in simp)
qed simp

text \<open>A parsed recipe is what its loop ends with, under the seals of the whole body.\<close>

lemma parse_recipe_parts:
  assumes "parse_recipe env name deps line toks src = Inr (r, probes, rest)"
  obtains st where "recipe_inv (pe_xxh3 env) st" "suffix rest toks" "rest = [] \<or> declares src (hd rest)"
    "rs_base_seal st = body_seals env src toks" "rs_probes st = body_probes env src toks"
    "map step_line (rs_steps st) = map tok_line (filter gives_step (body_lines env src toks))"
    "list_all (\<lambda>t. \<not> declares src t) (body_lines env src toks)"
    "rd_steps r = map (seal_step (rs_base_seal st)) (rs_steps st)"
    "rs_base_seal st \<noteq> {} \<longrightarrow> list_ex is_sealable (rs_steps st)"
    "rd_inputs r = rs_inputs st" "rd_excludes r = rs_excludes st" "probes = rs_probes st"
    "(rd_name r, rd_deps r, rd_line r) = (name, deps, line)"
proof -
  obtain st where run: "recipe_loop env src recipe_start toks = Inr (st, rest)"
    and fin: "finalize_base_seal name line (rs_steps st) (rs_base_seal st) = Inr (rd_steps r)"
    and r: "rd_inputs r = rs_inputs st" "rd_excludes r = rs_excludes st" "probes = rs_probes st"
      "(rd_name r, rd_deps r, rd_line r) = (name, deps, line)"
    using assms by (auto simp: parse_recipe_def bind_res_Inr_iff)
  have inv: "recipe_inv (pe_xxh3 env) st"
    using recipe_body.run_invariant[OF run, of "recipe_inv (pe_xxh3 env)"] recipe_inv_start recipe_step_inv by blast
  have tail: "suffix rest toks" by (rule recipe_loop_tail[OF run])
  have stop: "rest = [] \<or> declares src (hd rest)" using recipe_body.run_stops[OF run] recipe_step_end by blast
  have reads: "rs_base_seal st = body_seals env src toks" "rs_probes st = body_probes env src toks"
    "map step_line (rs_steps st) = map tok_line (filter gives_step (body_lines env src toks))"
    "list_all (\<lambda>t. \<not> declares src t) (body_lines env src toks)"
    using recipe_loop_reads[OF run] by (simp_all add: recipe_start_def)
  have "rd_steps r = map (seal_step (rs_base_seal st)) (rs_steps st)"
    "rs_base_seal st \<noteq> {} \<longrightarrow> list_ex is_sealable (rs_steps st)"
    using fin by (auto simp: finalize_base_seal_def apply_base_seal_def split: if_splits)
  from that[OF inv tail stop reads this r] show thesis .
qed

lemma parsed_steps_sealed: "recipe_inv xxh3 st \<Longrightarrow> list_all (sealed_with base) (map (seal_step base) (rs_steps st))"
  using seal_step_sealed by (auto simp: recipe_inv_def list_all_iff)

text \<open>
  C16: a recipe is read whole and sealed as a whole. Its body is a piece of the file that ends with the
  file or at the next declaration, and no line of it begins one; each of its lines that is no \<open>seal\<close>,
  comment or blank gives one step, in their order, and none a step that runs outside of a cook or a
  test. All of these carry the same seals, and a sealed recipe has one to carry them: they are the
  words of every \<open>seal\<close> line of the body, wherever it stands, that are not quoted, which are all probe
  keys by their spelling, and for the quoted globs of each line the content key of the probe made for
  them; these probes, one for each such line, are returned. The recipe gathers from one source at most.
\<close>

theorem recipe_sealed_whole:
  assumes "parse_recipe env name deps line toks src = Inr (r, probes, rest)"
  shows "list_all (sealed_with (body_seals env src toks)) (rd_steps r)
    \<and> (body_seals env src toks \<noteq> {} \<longrightarrow> list_ex is_sealable (rd_steps r))
    \<and> probes = body_probes env src toks \<and> seals_known (pe_xxh3 env) (body_seals env src toks) probes
    \<and> map step_line (rd_steps r) = map tok_line (filter gives_step (body_lines env src toks))
    \<and> one_source (rd_inputs r) (rd_excludes r) (rd_steps r)
    \<and> list_all (\<lambda>t. \<not> declares src t) (body_lines env src toks)
    \<and> suffix rest toks \<and> (rest = [] \<or> declares src (hd rest))
    \<and> (rd_name r, rd_deps r, rd_line r) = (name, deps, line)"
proof -
  obtain st where st: "recipe_inv (pe_xxh3 env) st" "suffix rest toks" "rest = [] \<or> declares src (hd rest)"
    and seals: "rs_base_seal st = body_seals env src toks" "rs_probes st = body_probes env src toks"
    and ls: "map step_line (rs_steps st) = map tok_line (filter gives_step (body_lines env src toks))"
      "list_all (\<lambda>t. \<not> declares src t) (body_lines env src toks)"
    and s: "rd_steps r = map (seal_step (rs_base_seal st)) (rs_steps st)"
    and b: "rs_base_seal st \<noteq> {} \<longrightarrow> list_ex is_sealable (rs_steps st)"
    and r: "rd_inputs r = rs_inputs st" "rd_excludes r = rs_excludes st" "probes = rs_probes st"
      "(rd_name r, rd_deps r, rd_line r) = (name, deps, line)"
    using assms by (rule parse_recipe_parts)
  have "body_seals env src toks \<noteq> {} \<longrightarrow> list_ex is_sealable (rd_steps r)"
    using b by (auto simp: s seals list_ex_iff)
  moreover have "one_source (rd_inputs r) (rd_excludes r) (rd_steps r)"
    using st(1) by (simp add: recipe_inv_def one_source_def s r filter_map filter_seal_step)
  moreover have "list_all (sealed_with (body_seals env src toks)) (rd_steps r)"
    using parsed_steps_sealed[OF st(1)] by (simp add: s seals)
  moreover have "seals_known (pe_xxh3 env) (body_seals env src toks) probes" "probes = body_probes env src toks"
    using st(1) by (simp_all add: recipe_inv_def r seals)
  moreover have "map step_line (rd_steps r) = map tok_line (filter gives_step (body_lines env src toks))"
    using ls(1) by (simp add: s o_def)
  ultimately show ?thesis using st(2,3) ls(2) r(4) by blast
qed

definition sample_env :: parser_env where
  "sample_env = \<lparr>pe_alphabetic = (\<lambda>_. False), pe_alphanumeric = (\<lambda>_. False), pe_xxh3 = (\<lambda>_. 7)\<rparr>"

definition sample_source :: "str list" where
  "sample_source =
     [''recipe app: lib'', ''    cook '' @ [dquote] @ ''a.o'' @ [dquote] @ '' { cc }'',
      ''    seal core:src '' @ [dquote] @ ''*.h'' @ [dquote], ''    gather '' @ [dquote] @ ''*.c'' @ [dquote], ''chore x'']"

definition sample_tokens :: "located list" where
  "sample_tokens =
     [\<lparr>tok_value = ContentTok (''cook '' @ [dquote] @ ''a.o'' @ [dquote] @ '' { cc }''), tok_line = 2\<rparr>,
      \<lparr>tok_value = ContentTok (''seal core:src '' @ [dquote] @ ''*.h'' @ [dquote]), tok_line = 3\<rparr>,
      \<lparr>tok_value = ContentTok (''gather '' @ [dquote] @ ''*.c'' @ [dquote]), tok_line = 4\<rparr>,
      \<lparr>tok_value = ChoreHeader ''x'' [] [], tok_line = 5\<rparr>]"

definition sample_probe :: probe_decl where
  "sample_probe =
     \<lparr>pb_name = ''@seal:0000000000000007'', pb_deps = [], pb_inputs = [], pb_excludes = [], pb_covers = [],
      pb_produce = ProduceFiles [''*.h''] [], pb_line = 3\<rparr>"

definition sample_recipe :: recipe_decl where
  "sample_recipe =
     \<lparr>rd_name = ''app'', rd_description = None, rd_deps = [''lib''], rd_inputs = [''*.c''], rd_excludes = [],
      rd_steps =
        [CookLine \<lparr>ck_outputs = [QuotedOut ''a.o''], ck_body = Some (ShellBlock [''cc'']),
            ck_disposition = \<lparr>dp_sharing = Shared, dp_record = False, dp_seal = {''core:src'', ''@seal:0000000000000007''}\<rparr>\<rparr> 2,
         GatherStep 4],
      rd_line = 1\<rparr>"

lemma sample_tokenized:
  "tokenize (join [newline] sample_source) = Inr (\<lparr>tok_value = RecipeHeader ''app'' [''lib''], tok_line = 1\<rparr> # sample_tokens)"
  by code_simp

text \<open>The seal of the third line reaches the cook step of the second.\<close>

theorem recipe_sealed_whole_witness:
  "body_seals sample_env sample_source sample_tokens = {''core:src'', ''@seal:0000000000000007''}
   \<and> list_all (sealed_with (body_seals sample_env sample_source sample_tokens)) (rd_steps sample_recipe)
   \<and> body_probes sample_env sample_source sample_tokens = [sample_probe]
   \<and> map step_line (rd_steps sample_recipe) = [2, 4]
   \<and> one_source [''*.c''] [] (rd_steps sample_recipe)"
proof -
  have p: "parse_recipe sample_env ''app'' [''lib''] 1 sample_tokens sample_source
      = Inr (sample_recipe, [sample_probe], [\<lparr>tok_value = ChoreHeader ''x'' [] [], tok_line = 5\<rparr>])"
    by code_simp
  have "body_seals sample_env sample_source sample_tokens = {''core:src'', ''@seal:0000000000000007''}" by code_simp
  moreover have "rd_inputs sample_recipe = [''*.c'']" "rd_excludes sample_recipe = []"
    "map step_line (rd_steps sample_recipe) = [2, 4]" by (simp_all add: sample_recipe_def)
  ultimately show ?thesis using recipe_sealed_whole[OF p] by simp
qed

end
