(* ===== verification/Cookfile_Props.thy ===== *)
theory Cookfile_Props
  imports Cook_Parser Recipe_Props
begin

text \<open>
  What a Cookfile that parses is: one name space for its recipes, chores and probes, imports and blocks
  without repetition, a recipe for each header with the seals of its body, and chores that only run
  commands.
\<close>

section \<open>Chores and probes\<close>

fun runs_command :: "step \<Rightarrow> bool" where
  "runs_command (ShellStep s l interactive) = interactive"
| "runs_command (LuaStep s l) = True"
| "runs_command (LuaBlockStep s l) = True"
| "runs_command _ = False"

lemma chore_step_runs:
  assumes "chore_step env src tok steps toks = Inr (Some (steps', rest))" and "list_all runs_command steps"
  shows "list_all runs_command steps'"
  using assms
  by (auto simp: chore_step_def chore_content_def chore_lua_block_def Let_def bind_res_Inr_iff
      split: if_splits token.splits option.splits)

lemma parse_chore_sound:
  assumes "parse_chore env name params deps line toks src = Inr (c, rest)"
  shows "list_all runs_command (ch_steps c) \<and> ch_name c = name"
proof -
  obtain steps where run: "chore_loop env src [] toks = Inr (steps, rest)" and c: "ch_steps c = steps" "ch_name c = name"
    using assms by (auto simp: parse_chore_def bind_res_Inr_iff)
  have "list_all runs_command steps"
    using chore_body.run_invariant[OF run, of "list_all runs_command"] chore_step_runs by (metis list.pred_inject(1))
  then show ?thesis using c by simp
qed

lemma probe_content_inline:
  assumes "probe_content xxh3 src n s line st toks = Inr (st', rest)" and "list_all (inline_probe_ok xxh3) (ps_inline st)"
  shows "list_all (inline_probe_ok xxh3) (ps_inline st')"
  using assms(1)
proof (cases rule: probe_content_cases)
  case (seal r)
  then obtain parsed ops where "parse_seal_operands xxh3 ops line = Inr parsed"
    "ps_inline st' = ps_inline st @ (case so_inline_probe parsed of None \<Rightarrow> [] | Some p \<Rightarrow> [p])"
    by (auto simp: probe_seal_def bind_res_Inr_iff split: if_splits prod.splits)
  then show ?thesis using assms(2) seal_operands_sound[of xxh3 ops line parsed] by (auto split: option.split)
qed (use assms(2) in \<open>auto simp: probe_covers_def probe_producer_def bind_res_Inr_iff split: if_splits\<close>)

lemma probe_step_inline:
  assumes "probe_step xxh3 src n tok st toks = Inr (Some (st', rest))" and "list_all (inline_probe_ok xxh3) (ps_inline st)"
  shows "list_all (inline_probe_ok xxh3) (ps_inline st')"
  using assms probe_content_inline[of xxh3 src n _ "tok_line tok" st toks st' rest]
  by (auto simp: probe_step_def probe_producer_def bind_res_Inr_iff split: if_splits token.splits)

lemma parse_probe_sound:
  assumes "parse_probe xxh3 name deps line toks src = Inr (p, inline, rest)"
  shows "pb_name p = name \<and> list_all (inline_probe_ok xxh3) inline"
proof -
  obtain st where run: "probe_loop xxh3 src name (probe_start deps) toks = Inr (st, rest)"
    and p: "pb_name p = name" "inline = ps_inline st"
    using assms by (auto simp: parse_probe_def bind_res_Inr_iff split: option.splits)
  have "list_all (inline_probe_ok xxh3) (ps_inline st)"
    using probe_body.run_invariant[OF run, of "\<lambda>s. list_all (inline_probe_ok xxh3) (ps_inline s)"] probe_step_inline
    by (simp add: probe_start_def)
  then show ?thesis using p by simp
qed

lemma parse_set_name: "parse_set_declaration name line toks src files = Inr (p, rest) \<Longrightarrow> pb_name p = name"
  by (auto simp: parse_set_declaration_def Let_def bind_res_Inr_iff split: if_splits)

section \<open>The name space\<close>

definition anonymous :: "probe_decl \<Rightarrow> bool" where
  "anonymous p \<longleftrightarrow> starts_with ''@seal:'' (pb_name p)"

definition declared :: "cookfile \<Rightarrow> str list" where
  "declared f = map rd_name (cf_recipes f) @ map ch_name (cf_chores f) @ map pb_name (filter (Not \<circ> anonymous) (cf_probes f))"

lemma declared_frames [simp]:
  "declared (f\<lparr>cf_config_blocks := cs\<rparr>) = declared f" "declared (f\<lparr>cf_module_calls := ms\<rparr>) = declared f"
  "declared (f\<lparr>cf_uses := us\<rparr>) = declared f" "declared (f\<lparr>cf_imports := is\<rparr>) = declared f"
  "declared (f\<lparr>cf_register_blocks := rs\<rparr>) = declared f"
  by (simp_all add: declared_def)

text \<open>Where an import may lead: no absolute path, no step up.\<close>

fun import_path_ok :: "import_path \<Rightarrow> bool" where
  "import_path_ok (TreePath s) \<longleftrightarrow> \<not> starts_with ''/'' s \<and> ''..'' \<notin> set (split_on CHR ''/'' s)"
| "import_path_ok (SigilPath s) \<longleftrightarrow> \<not> starts_with ''/'' s \<and> ''..'' \<notin> set (split_on CHR ''/'' s)"

lemma import_path_sound:
  "validate_and_classify_import_path raw line = Inr p \<longleftrightarrow> import_path_text p = raw \<and> import_path_ok p"
proof -
  have "starts_with ''/'' raw" if "strip_prefix ''//'' raw = Some t" for t using that by (auto simp: strip_prefix_iff starts_with_iff)
  moreover have "strip_prefix ''//'' raw = None" if "\<not> starts_with ''/'' raw"
    using that by (cases "strip_prefix ''//'' raw") (auto simp: strip_prefix_iff starts_with_iff)
  ultimately show ?thesis
    by (cases p)
      (auto simp: validate_and_classify_import_path_def path_contains_dotdot_segment_def strip_prefix_iff
        split: option.split)
qed

definition imports_ok :: "import_decl list \<Rightarrow> bool" where
  "imports_ok is \<longleftrightarrow> distinct (map im_name is) \<and> ''var'' \<notin> im_name ` set is \<and> list_all (import_path_ok \<circ> im_path) is"

definition uses_ok :: "use_statement list \<Rightarrow> bool" where
  "uses_ok us \<longleftrightarrow> (\<forall>u \<in> set us. \<forall>v \<in> set us. us_alias u = us_alias v \<longrightarrow> us_target u = us_target v)"

text \<open>The declarations of a file: the token each begins with, and the tokens after it.\<close>

function declarations :: "parser_env \<Rightarrow> str list \<Rightarrow> located list \<Rightarrow> (located \<times> located list) list" where
  "declarations env src [] = []"
| "declarations env src (tok # rest) =
     (case top_step env src [] tok top_start rest of
        Inl e \<Rightarrow> []
      | Inr (st, later) \<Rightarrow> (tok, rest) # declarations env src later)"
  by pat_completeness auto
termination
  by (relation "measure (\<lambda>(e, s, toks). length toks)") (auto dest: top_step_length)

definition heads_recipe :: "located \<times> located list \<Rightarrow> bool" where
  "heads_recipe part \<longleftrightarrow> (case tok_value (fst part) of RecipeHeader n ds \<Rightarrow> True | _ \<Rightarrow> False)"

definition recipe_parts :: "parser_env \<Rightarrow> str list \<Rightarrow> located list \<Rightarrow> (located \<times> located list) list" where
  "recipe_parts env src toks = filter heads_recipe (declarations env src toks)"

text \<open>
  A recipe is that of a header: it has its name, dependencies and line, a step for each line of the body
  after it that gives one, and on all of them the seals of that body. A seal is a word that is a probe
  key by its spelling, declared or not, or the name of a probe of the file.
\<close>

definition recipe_read :: "parser_env \<Rightarrow> str list \<Rightarrow> probe_decl list \<Rightarrow> located \<times> located list \<Rightarrow> recipe_decl \<Rightarrow> bool" where
  "recipe_read env src probes part r \<longleftrightarrow>
     tok_value (fst part) = RecipeHeader (rd_name r) (rd_deps r) \<and> tok_line (fst part) = rd_line r
     \<and> map step_line (rd_steps r) = map tok_line (filter gives_step (body_lines env src (snd part)))
     \<and> list_all (sealed_with (body_seals env src (snd part))) (rd_steps r)
     \<and> (\<forall>k \<in> body_seals env src (snd part). is_valid_bare k \<or> k \<in> pb_name ` set probes)"

definition parts_ok :: "parser_env \<Rightarrow> str list \<Rightarrow> (located \<times> located list) list \<Rightarrow> cookfile \<Rightarrow> bool" where
  "parts_ok env src ps f \<longleftrightarrow>
     distinct (declared f) \<and> distinct (map cb_name (cf_config_blocks f))
     \<and> imports_ok (cf_imports f) \<and> uses_ok (cf_uses f)
     \<and> list_all2 (recipe_read env src (cf_probes f)) ps (cf_recipes f)
     \<and> list_all (\<lambda>c. list_all runs_command (ch_steps c)) (cf_chores f)
     \<and> list_all (\<lambda>p. anonymous p \<longrightarrow> inline_probe_ok (pe_xxh3 env) p) (cf_probes f)"

definition cookfile_ok :: "parser_env \<Rightarrow> str list \<Rightarrow> (located \<times> located list) list \<Rightarrow> cookfile \<Rightarrow> bool" where
  "cookfile_ok env src ps f \<longleftrightarrow>
     parts_ok env src ps f \<and> distinct (map pb_name (cf_probes f)) \<and> pb_name ` set (cf_probes f) \<inter> im_name ` set (cf_imports f) = {}"

definition top_inv :: "parser_env \<Rightarrow> str list \<Rightarrow> (located \<times> located list) list \<Rightarrow> top_state \<Rightarrow> bool" where
  "top_inv env src ps st \<longleftrightarrow> parts_ok env src ps (tp_file st) \<and> dom (tp_decls st) = set (declared (tp_file st))"

section \<open>Every declaration keeps it\<close>

lemma top_inv_file:
  "top_inv env src ps st \<Longrightarrow> parts_ok env src ps f \<Longrightarrow> declared f = declared (tp_file st) \<Longrightarrow> top_inv env src ps (st\<lparr>tp_file := f\<rparr>)"
  by (simp add: top_inv_def)

lemma top_inv_parts: "top_inv env src ps st \<Longrightarrow> parts_ok env src ps (tp_file st)"
  by (simp add: top_inv_def)

lemma note_decl_Inr: "note_decl d k n l = Inr d' \<longleftrightarrow> n \<notin> dom d \<and> d' = d(n \<mapsto> (k, l))"
  by (auto simp: note_decl_def split: option.splits)

lemma recipes_read_more:
  "list_all2 (recipe_read env src probes) ps rs \<Longrightarrow> pb_name ` set probes \<subseteq> pb_name ` set qs
     \<Longrightarrow> list_all2 (recipe_read env src qs) ps rs"
  unfolding recipe_read_def by (erule list_all2_mono) blast

lemma inline_anonymous: "inline_probe_ok xxh3 p \<Longrightarrow> anonymous p"
  by (simp add: anonymous_def inline_probe_name)

lemma inline_filter: "list_all (inline_probe_ok xxh3) ps \<Longrightarrow> filter (Not \<circ> anonymous) ps = []"
  by (auto simp: filter_empty_conv list_all_iff inline_anonymous)

lemma parse_recipe_sound:
  assumes "parse_recipe env name deps line toks src = Inr (r, probes, rest)"
    and "tok_value tok = RecipeHeader name deps" and "tok_line tok = line"
  shows "recipe_read env src probes (tok, toks) r \<and> rd_name r = name \<and> list_all (inline_probe_ok (pe_xxh3 env)) probes"
proof -
  obtain st where st: "recipe_inv (pe_xxh3 env) st" and seals: "rs_base_seal st = body_seals env src toks"
    and ls: "map step_line (rs_steps st) = map tok_line (filter gives_step (body_lines env src toks))"
    and s: "rd_steps r = map (seal_step (rs_base_seal st)) (rs_steps st)"
    and r: "probes = rs_probes st" "(rd_name r, rd_deps r, rd_line r) = (name, deps, line)"
    using assms(1) by (rule parse_recipe_parts)
  have "list_all (sealed_with (body_seals env src toks)) (rd_steps r)"
    using parsed_steps_sealed[OF st] by (simp add: s seals)
  moreover have "map step_line (rd_steps r) = map tok_line (filter gives_step (body_lines env src toks))"
    using ls by (simp add: s o_def)
  moreover have "seals_known (pe_xxh3 env) (body_seals env src toks) probes"
    using st by (simp add: recipe_inv_def r seals)
  ultimately show ?thesis
    using r assms(2,3) by (auto simp: recipe_read_def seals_known_def list_all_iff)
qed

lemma top_recipe_inv:
  assumes "top_recipe env src d name deps line st rest = Inr (st', rest')" and "top_inv env src ps st"
    and "tok_value tok = RecipeHeader name deps" and "tok_line tok = line"
  shows "top_inv env src (ps @ [(tok, rest)]) st'"
proof -
  let ?f = "tp_file st"
  obtain r inline where n: "name \<notin> set (declared ?f)" and p: "parse_recipe env name deps line rest src = Inr (r, inline, rest')"
    and st': "st' = st\<lparr>tp_seen_recipe := True, tp_decls := (tp_decls st)(name \<mapsto> (RecipeDecl, line)),
               tp_file := ?f\<lparr>cf_recipes := cf_recipes ?f @ [r\<lparr>rd_description := d\<rparr>], cf_probes := cf_probes ?f @ inline\<rparr>\<rparr>"
    using assms by (auto simp: top_recipe_def top_inv_def note_decl_Inr Let_def bind_res_Inr_iff)
  have r: "recipe_read env src inline (tok, rest) r" "rd_name r = name" "list_all (inline_probe_ok (pe_xxh3 env)) inline"
    using parse_recipe_sound[OF p assms(3,4)] by simp_all
  have "recipe_read env src (cf_probes ?f @ inline) (tok, rest) (r\<lparr>rd_description := d\<rparr>)"
    using r(1) by (auto simp: recipe_read_def)
  moreover have "list_all2 (recipe_read env src (cf_probes ?f @ inline)) ps (cf_recipes ?f)"
    by (rule recipes_read_more[of env src "cf_probes ?f"]) (use assms(2) in \<open>auto simp: top_inv_def parts_ok_def\<close>)
  moreover have "list_all (\<lambda>p. anonymous p \<longrightarrow> inline_probe_ok (pe_xxh3 env) p) (cf_probes ?f @ inline)"
    using assms(2) r(3) by (auto simp: top_inv_def parts_ok_def list_all_iff)
  ultimately show ?thesis
    using assms(2) n r(2) inline_filter[OF r(3)] unfolding st'
    by (auto simp: top_inv_def parts_ok_def declared_def list_all2_appendI)
qed

lemma top_chore_inv:
  assumes "top_chore env src d name params deps line st rest = Inr (st', rest')" and "top_inv env src ps st"
  shows "top_inv env src ps st'"
proof -
  let ?f = "tp_file st"
  obtain c where n: "name \<notin> set (declared ?f)" and p: "parse_chore env name params deps line rest src = Inr (c, rest')"
    and st': "st' = st\<lparr>tp_seen_recipe := True, tp_decls := (tp_decls st)(name \<mapsto> (ChoreDecl, line)),
               tp_file := ?f\<lparr>cf_chores := cf_chores ?f @ [c\<lparr>ch_description := d\<rparr>]\<rparr>\<rparr>"
    using assms by (auto simp: top_chore_def top_inv_def note_decl_Inr Let_def bind_res_Inr_iff)
  from parse_chore_sound[OF p] show ?thesis
    using assms(2) n unfolding st' by (auto simp: top_inv_def parts_ok_def declared_def)
qed

text \<open>A declared probe with the anonymous ones of its seal.\<close>

lemma add_probe_inv:
  assumes "top_inv env src ps st" and "name \<notin> set (declared (tp_file st))" and "\<not> starts_with ''@seal:'' name"
    and "pb_name p = name" and "list_all (inline_probe_ok (pe_xxh3 env)) inline"
  shows "top_inv env src ps (st\<lparr>tp_decls := (tp_decls st)(name \<mapsto> k),
           tp_file := (tp_file st)\<lparr>cf_probes := cf_probes (tp_file st) @ p # inline\<rparr>\<rparr>)"
proof -
  let ?f = "tp_file st"
  have a: "\<not> anonymous p" using assms(3,4) by (simp add: anonymous_def)
  have "list_all2 (recipe_read env src (cf_probes ?f @ p # inline)) ps (cf_recipes ?f)"
    by (rule recipes_read_more[of env src "cf_probes ?f"]) (use assms(1) in \<open>auto simp: top_inv_def parts_ok_def\<close>)
  moreover have "list_all (\<lambda>p. anonymous p \<longrightarrow> inline_probe_ok (pe_xxh3 env) p) (cf_probes ?f @ p # inline)"
    using assms(1,5) a by (auto simp: top_inv_def parts_ok_def list_all_iff)
  ultimately show ?thesis
    using assms(1,2,4) a inline_filter[OF assms(5)] by (auto simp: top_inv_def parts_ok_def declared_def)
qed

lemma top_probe_inv:
  assumes "top_probe (pe_xxh3 env) src name deps line st rest = Inr (st', rest')" and "top_inv env src ps st"
  shows "top_inv env src ps st'"
proof -
  let ?f = "tp_file st"
  obtain p inline where n: "name \<notin> set (declared ?f)" "\<not> starts_with ''@seal:'' name"
    and p: "parse_probe (pe_xxh3 env) name deps line rest src = Inr (p, inline, rest')"
    and st': "st' = st\<lparr>tp_decls := (tp_decls st)(name \<mapsto> (ProbeDecl, line)),
               tp_file := ?f\<lparr>cf_probes := cf_probes ?f @ p # inline\<rparr>\<rparr>"
    using assms by (auto simp: top_probe_def top_inv_def note_decl_Inr reserved_key_def Let_def bind_res_Inr_iff split: if_splits)
  from parse_probe_sound[OF p] show ?thesis unfolding st' by (intro add_probe_inv assms(2) n) simp_all
qed

lemma top_set_inv:
  assumes "top_set files src name line st rest = Inr (st', rest')" and "top_inv env src ps st"
  shows "top_inv env src ps st'"
proof -
  let ?f = "tp_file st"
  obtain p where n: "name \<notin> set (declared ?f)" "\<not> starts_with ''@seal:'' name"
    and p: "parse_set_declaration name line rest src files = Inr (p, rest')"
    and st': "st' = st\<lparr>tp_decls := (tp_decls st)(name \<mapsto> (if files then FilesDecl else ToolsDecl, line)),
               tp_file := ?f\<lparr>cf_probes := cf_probes ?f @ [p]\<rparr>\<rparr>"
    using assms by (auto simp: top_set_def top_inv_def note_decl_Inr reserved_key_def Let_def bind_res_Inr_iff split: if_splits)
  from parse_set_name[OF p] show ?thesis unfolding st' by (intro add_probe_inv assms(2) n) simp_all
qed

lemma top_config_inv:
  assumes "top_config src name line st rest = Inr (st', rest')" and "top_inv env src ps st"
  shows "top_inv env src ps st'"
  using assms(1) top_inv_parts[OF assms(2)]
  by (auto simp: top_config_def Let_def bind_res_Inr_iff parts_ok_def intro!: top_inv_file[OF assms(2)]
      split: if_splits)

lemma top_call_inv:
  assumes "top_call src s line st rest = Inr (st', rest')" and "top_inv env src ps st"
  shows "top_inv env src ps st'"
  using assms(1) top_inv_parts[OF assms(2)]
  by (auto simp: top_call_def Let_def bind_res_Inr_iff parts_ok_def intro!: top_inv_file[OF assms(2)]
      split: if_splits)

lemma top_register_inv:
  assumes "top_register src line st rest = Inr (st', rest')" and "top_inv env src ps st"
  shows "top_inv env src ps st'"
  using assms(1) top_inv_parts[OF assms(2)]
  by (auto simp: top_register_def Let_def parts_ok_def intro!: top_inv_file[OF assms(2)]
      split: if_splits prod.splits)

lemma top_import_inv:
  assumes "top_import name path line st rest = Inr (st', rest')" and "top_inv env src ps st"
  shows "top_inv env src ps st'"
  using assms(1) top_inv_parts[OF assms(2)]
  by (auto simp: top_import_def Let_def bind_res_Inr_iff import_path_sound parts_ok_def imports_ok_def intro!: top_inv_file[OF assms(2)]
      split: if_splits)

lemma find_found: "find ok xs = Some x \<Longrightarrow> x \<in> set xs \<and> ok x"
  by (induction xs) (auto split: if_splits)

lemma uses_ok_snoc:
  assumes "uses_ok us" and "\<And>p. find (\<lambda>u. us_alias u = us_alias v) us = Some p \<Longrightarrow> us_target p = us_target v"
  shows "uses_ok (us @ [v])"
proof -
  have "us_target u = us_target v" if u: "u \<in> set us" "us_alias u = us_alias v" for u
  proof -
    obtain p where p: "find (\<lambda>u. us_alias u = us_alias v) us = Some p"
      using u by (cases "find (\<lambda>u. us_alias u = us_alias v) us") (auto simp: find_None_iff)
    then have "p \<in> set us" "us_alias p = us_alias v" using find_found[OF p] by simp_all
    then have "us_target u = us_target p" using u assms(1)[unfolded uses_ok_def, rule_format, of u p] by simp
    then show ?thesis using assms(2)[OF p] by simp
  qed
  note new = this
  show ?thesis
    unfolding uses_ok_def
  proof (intro ballI impI)
    fix a b
    assume "a \<in> set (us @ [v])" "b \<in> set (us @ [v])" and e: "us_alias a = us_alias b"
    then consider "a = v" "b = v" | "a = v" "b \<in> set us" | "a \<in> set us" "b = v" | "a \<in> set us" "b \<in> set us" by auto
    then show "us_target a = us_target b"
      by cases (use e new[of a] new[of b] assms(1)[unfolded uses_ok_def, rule_format, of a b] in simp_all)
  qed
qed

lemma top_use_inv:
  assumes "top_use alias target line st rest = Inr (st', rest')" and "top_inv env src ps st"
  shows "top_inv env src ps st'"
proof -
  let ?f = "tp_file st" and ?u = "\<lparr>us_alias = alias, us_target = target, us_line = line\<rparr>"
  have st': "st' = st\<lparr>tp_file := ?f\<lparr>cf_uses := cf_uses ?f @ [?u]\<rparr>\<rparr>"
    and t: "\<And>p. find (\<lambda>u. us_alias u = alias) (cf_uses ?f) = Some p \<Longrightarrow> us_target p = target"
    using assms(1) by (auto simp: top_use_def Let_def split: if_splits option.splits)
  have "uses_ok (cf_uses ?f @ [?u])"
    using assms(2) t by (intro uses_ok_snoc) (auto simp: top_inv_def parts_ok_def)
  then show ?thesis
    using top_inv_parts[OF assms(2)] unfolding st' by (intro top_inv_file[OF assms(2)]) (simp_all add: parts_ok_def)
qed

lemma top_step_inv:
  assumes "top_step env src before tok st rest = Inr (st', rest')" and "top_inv env src ps st"
  shows "top_inv env src (ps @ (if heads_recipe (tok, rest) then [(tok, rest)] else [])) st'"
  using assms
  by (cases "tok_value tok")
    (auto simp: top_step_def heads_recipe_def intro: assms(2) top_recipe_inv[OF _ assms(2)] top_chore_inv[OF _ assms(2)]
      top_probe_inv[OF _ assms(2)] top_set_inv[OF _ assms(2)] top_config_inv[OF _ assms(2)] top_call_inv[OF _ assms(2)]
      top_register_inv[OF _ assms(2)] top_import_inv[OF _ assms(2)] top_use_inv[OF _ assms(2)])

text \<open>How far a declaration reads does not depend on those before it.\<close>

lemma top_step_extent:
  assumes "top_step env src before tok st rest = Inr (st', rest')"
  shows "\<exists>st''. top_step env src [] tok top_start rest = Inr (st'', rest')"
  using assms
  by (cases "tok_value tok")
    (auto simp: top_step_def top_config_def top_recipe_def top_chore_def top_call_def top_use_def top_import_def
      top_probe_def top_set_def top_register_def note_decl_Inr top_start_def empty_cookfile_def Let_def bind_res_Inr_iff
      split: if_splits option.splits prod.splits)

lemma top_loop_inv:
  "top_loop env src tokens st toks = Inr st' \<Longrightarrow> top_inv env src ps st
     \<Longrightarrow> top_inv env src (ps @ recipe_parts env src toks) st'"
proof (induction env src tokens st toks arbitrary: ps rule: top_loop.induct)
  case (1 env src tokens st)
  then show ?case by (simp add: recipe_parts_def)
next
  case (2 env src tokens st tok rest)
  let ?before = "take (length tokens - length (tok # rest)) tokens"
  obtain st1 later where run: "top_step env src ?before tok st rest = Inr (st1, later)"
    and l: "top_loop env src tokens st1 later = Inr st'"
    using 2(2) by (auto split: sum.splits)
  obtain st'' where "top_step env src [] tok top_start rest = Inr (st'', later)" using top_step_extent[OF run] by blast
  then have "recipe_parts env src (tok # rest)
      = (if heads_recipe (tok, rest) then [(tok, rest)] else []) @ recipe_parts env src later"
    by (simp add: recipe_parts_def)
  then show ?case using "2.IH"[OF run refl l top_step_inv[OF run 2(3)]] by simp
qed

section \<open>The end of the file\<close>

lemma retain_probes_plain:
  "filter (Not \<circ> anonymous) (retain_probes seen ps) = filter (Not \<circ> anonymous) ps"
  by (induction seen ps rule: retain_probes.induct) (auto simp: anonymous_def)

lemma retain_probes_subset: "set (retain_probes seen ps) \<subseteq> set ps"
  by (induction seen ps rule: retain_probes.induct) auto

lemma retain_probes_names: "pb_name ` set ps \<subseteq> pb_name ` set (retain_probes seen ps) \<union> seen"
  by (induction seen ps rule: retain_probes.induct) auto

lemma retain_probes_distinct:
  assumes "distinct (map pb_name (filter (Not \<circ> anonymous) ps))"
  shows "distinct (map pb_name (retain_probes seen ps))
    \<and> (\<forall>p \<in> set (retain_probes seen ps). anonymous p \<longrightarrow> pb_name p \<notin> seen)"
  using assms
proof (induction seen ps rule: retain_probes.induct)
  case (2 seen p ps)
  have "pb_name p \<notin> pb_name ` set (retain_probes seen ps)" if n: "\<not> anonymous p"
  proof
    assume "pb_name p \<in> pb_name ` set (retain_probes seen ps)"
    then obtain q where q: "q \<in> set ps" "pb_name q = pb_name p" using retain_probes_subset by force
    then have "\<not> anonymous q" using n by (simp add: anonymous_def)
    then have "pb_name p \<in> set (map pb_name (filter (Not \<circ> anonymous) ps))"
      using q by (simp add: image_iff) metis
    then show False using 2(4) n by (auto simp: anonymous_def)
  qed
  note n = this
  consider "\<not> anonymous p" | "anonymous p" "pb_name p \<in> seen" | "anonymous p" "pb_name p \<notin> seen" by blast
  then show ?case
  proof cases
    case 1
    then show ?thesis using 2(1,4) n by (auto simp: anonymous_def)
  next
    case 2
    then show ?thesis using "2.IH"(2) "2.prems" by (simp add: anonymous_def)
  next
    case 3
    then have "distinct (map pb_name (retain_probes (insert (pb_name p) seen) ps))"
      and a: "\<forall>q \<in> set (retain_probes (insert (pb_name p) seen) ps). anonymous q \<longrightarrow> pb_name q \<notin> insert (pb_name p) seen"
      using "2.IH"(3) "2.prems" by (simp_all add: anonymous_def)
    moreover have "pb_name p \<notin> pb_name ` set (retain_probes (insert (pb_name p) seen) ps)"
      using a 3 by (auto simp: anonymous_def)
    ultimately show ?thesis using 3 by (simp add: anonymous_def)
  qed
qed simp

lemma probe_alias_clash_Inr:
  "probe_alias_clash is d ps = Inr () \<Longrightarrow> pb_name ` set ps \<inter> im_name ` set is = {}"
  by (induction "is" d ps rule: probe_alias_clash.induct) (force simp: find_None_iff split: option.splits)+

lemma finish_cookfile_ok:
  assumes "finish_cookfile st = Inr f" and "top_inv env src ps st"
  shows "cookfile_ok env src ps f"
proof -
  let ?g = "tp_file st" and ?ps = "retain_probes {} (cf_probes (tp_file st))"
  have f: "f = ?g\<lparr>cf_probes := ?ps\<rparr>" and c: "pb_name ` set ?ps \<inter> im_name ` set (cf_imports ?g) = {}"
    using assms(1) by (auto simp: finish_cookfile_def Let_def bind_res_Inr_iff dest: probe_alias_clash_Inr)
  have g: "parts_ok env src ps ?g" using assms(2) by (simp add: top_inv_def)
  have d: "distinct (map pb_name (filter (Not \<circ> anonymous) (cf_probes ?g)))"
    using g by (auto simp: parts_ok_def declared_def)
  have "list_all2 (recipe_read env src ?ps) ps (cf_recipes ?g)"
    by (rule recipes_read_more[of env src "cf_probes ?g"]) (use g retain_probes_names[of "cf_probes ?g" "{}"] in \<open>auto simp: parts_ok_def\<close>)
  moreover have "list_all (\<lambda>p. anonymous p \<longrightarrow> inline_probe_ok (pe_xxh3 env) p) ?ps"
    using g retain_probes_subset[of "{}" "cf_probes ?g"] by (auto simp: parts_ok_def list_all_iff)
  ultimately have "parts_ok env src ps f" using g unfolding f by (simp add: parts_ok_def declared_def retain_probes_plain)
  then show ?thesis using c retain_probes_distinct[OF d, of "{}"] unfolding f by (simp add: cookfile_ok_def)
qed

lemma top_inv_start: "top_inv env src [] top_start"
  by (simp add: top_inv_def top_start_def empty_cookfile_def parts_ok_def declared_def imports_ok_def uses_ok_def)

text \<open>
  C15: a Cookfile that parses is consistent. Its recipes, chores and declared probes have distinct names,
  and so have all of its probes, none of which is also an import; imports have distinct names other
  than \<open>var\<close> and lead to no absolute path and no step up; an alias of \<open>use\<close> has one target, and config
  blocks do not repeat. There is one recipe for each recipe header, in their order, with the header's
  name, dependencies and line, a step for each line of its body that gives one, and on all of them the
  seals the \<open>seal\<close> lines of that body name, no others: each of these is a word that is a probe key by
  its spelling (whether or not a probe of that name is declared) or the name of a probe of the file,
  kept through the merging of equal ones, that was made from the globs it hashes. Chores hold
  commands only.
\<close>

theorem cookfile_consistent:
  assumes "parse_cookfile env source = Inr f"
  shows "\<exists>tokens. tokenize source = Inr tokens
    \<and> cookfile_ok env (str_lines source) (recipe_parts env (str_lines source) tokens) f"
proof -
  obtain tokens st where t: "tokenize source = Inr tokens" and e: "finish_cookfile st = Inr f"
    and l: "top_loop env (str_lines source) tokens top_start tokens = Inr st"
    using assms by (auto simp: parse_cookfile_def bind_res_Inr_iff split: sum.splits)
  have "top_inv env (str_lines source) (recipe_parts env (str_lines source) tokens) st"
    using top_loop_inv[OF l top_inv_start] by simp
  from finish_cookfile_ok[OF e this] show ?thesis using t by blast
qed

definition sample_text :: str where
  "sample_text = join [newline]
     ([''use gcc'', ''import lib libs/core'', ''config'', ''    x = 1'',
       ''probe core:cc'', ''    { cc --version }''] @ sample_source @ [''    ls''])"

definition sample_kinds :: "cookfile \<Rightarrow> str list \<times> str list \<times> nat" where
  "sample_kinds f = (declared f, map im_name (cf_imports f), length (cf_config_blocks f))"

theorem cookfile_consistent_witness:
  "\<exists>f tokens. parse_cookfile sample_env sample_text = Inr f \<and> sample_kinds f = ([''app'', ''x'', ''core:cc''], [''lib''], 1)
     \<and> tokenize sample_text = Inr tokens
     \<and> cookfile_ok sample_env (str_lines sample_text) (recipe_parts sample_env (str_lines sample_text) tokens) f
     \<and> map (\<lambda>p. body_seals sample_env (str_lines sample_text) (snd p)) (recipe_parts sample_env (str_lines sample_text) tokens)
         = [{''core:src'', ''@seal:0000000000000007''}]"
proof -
  have "(case parse_cookfile sample_env sample_text of
      Inr f \<Rightarrow> sample_kinds f = ([''app'', ''x'', ''core:cc''], [''lib''], 1) | Inl e \<Rightarrow> False)"
    by code_simp
  then obtain f where f: "parse_cookfile sample_env sample_text = Inr f" "sample_kinds f = ([''app'', ''x'', ''core:cc''], [''lib''], 1)"
    by (cases "parse_cookfile sample_env sample_text") simp_all
  from cookfile_consistent[OF f(1)] obtain tokens where t: "tokenize sample_text = Inr tokens"
    and ok: "cookfile_ok sample_env (str_lines sample_text) (recipe_parts sample_env (str_lines sample_text) tokens) f" by blast
  have "(case tokenize sample_text of Inl e \<Rightarrow> False
      | Inr toks \<Rightarrow> map (\<lambda>p. body_seals sample_env (str_lines sample_text) (snd p)) (recipe_parts sample_env (str_lines sample_text) toks)
          = [{''core:src'', ''@seal:0000000000000007''}])"
    by code_simp
  then show ?thesis using f t ok by auto
qed

end
