(* ===== verification/Lua_Text.thy ===== *)
theory Lua_Text
  imports Text_Ops Naming Lexer_Props Recipe_Index "HOL-Library.Sublist"
begin

text \<open>
  The Lua text Cook writes and the Lua text it reads: string literals (\<open>cook-contracts/src/lua\_string\<close>,
  \<open>cook-luagen/src/long\_bracket.rs\<close>), what is not code (\<open>cook-contracts/src/lua\_scan\<close>), the reads of a
  body (\<open>reads.rs\<close>, \<open>cook-luagen/src/lua\_scan.rs\<close>), the statements both ends agree on
  (\<open>module\_binding\<close>, \<open>registration\<close>) and the prelude of a body (\<open>use\_prelude.rs\<close>). How Lua itself reads a
  literal is stated beside them, as far as the literals written here go.
\<close>

section \<open>Short literals\<close>

definition decimal3 :: "nat \<Rightarrow> str" where
  "decimal3 n = [char_of (48 + n div 100), char_of (48 + n div 10 mod 10), char_of (48 + n mod 10)]"

definition escape_char :: "char \<Rightarrow> str" where
  "escape_char c =
     (if c = backslash then [backslash, backslash]
      else if c = dquote then [backslash, dquote]
      else if c = newline then [backslash, CHR ''n'']
      else if c = cret then [backslash, CHR ''r'']
      else if c = tab then [backslash, CHR ''t'']
      else if c < CHR 0x20 \<or> c = CHR 0x7F then backslash # decimal3 (of_char c)
      else [c])"

definition escape_double_quoted :: "str \<Rightarrow> str" where
  "escape_double_quoted s = concat (map escape_char s)"

definition literal :: "str \<Rightarrow> str" where
  "literal s = [dquote] @ escape_double_quoted s @ [dquote]"

text \<open>
  How Lua reads a short literal after its opening quote: the string and the text after the closing
  quote. A line break ends the reading; of the escapes, those of letters that Cook does not write are
  left out.
\<close>

fun digits_value :: "nat \<Rightarrow> str \<Rightarrow> nat" where
  "digits_value v [] = v"
| "digits_value v (c # s) = digits_value (10 * v + (of_char c - 48)) s"

fun read_escape :: "str \<Rightarrow> (char \<times> str) option" where
  "read_escape [] = None"
| "read_escape (c # s) =
     (if c = backslash \<or> c = dquote \<or> c = squote then Some (c, s)
      else if c = CHR ''n'' then Some (newline, s)
      else if c = CHR ''r'' then Some (cret, s)
      else if c = CHR ''t'' then Some (tab, s)
      else
        (let ds = takeWhile is_ascii_digit (take 3 (c # s)); v = digits_value 0 ds in
         if ds = [] \<or> 255 < v then None else Some (char_of v, drop (length ds) (c # s))))"

lemma read_escape_shorter: "read_escape s = Some (c, t) \<Longrightarrow> length t < length s"
  by (cases s) (auto simp: Let_def takeWhile_eq_Nil_iff neq_Nil_conv split: if_splits)

function read_short :: "char \<Rightarrow> str \<Rightarrow> (str \<times> str) option" where
  "read_short q [] = None"
| "read_short q (c # s) =
     (if c = q then Some ([], s)
      else if c = newline \<or> c = cret then None
      else if c = backslash then
        (case read_escape s of
           None \<Rightarrow> None
         | Some (e, t) \<Rightarrow> map_option (\<lambda>(u, r). (e # u, r)) (read_short q t))
      else map_option (\<lambda>(u, r). (c # u, r)) (read_short q s))"
  by pat_completeness auto
termination
  by (relation "measure (\<lambda>(q, s). length s)") (auto dest: read_escape_shorter)

lemma digit_char:
  fixes n :: nat
  shows "n < 10 \<Longrightarrow> is_ascii_digit (char_of (48 + n)) \<and> of_char (char_of (48 + n)) = 48 + n
    \<and> CHR 0x20 \<le> char_of (48 + n) \<and> char_of (48 + n) \<noteq> CHR 0x7F"
proof -
  assume "n < 10"
  then have "n = 0 \<or> n = 1 \<or> n = 2 \<or> n = 3 \<or> n = 4 \<or> n = 5 \<or> n = 6 \<or> n = 7 \<or> n = 8 \<or> n = 9" by arith
  then show ?thesis by (elim disjE) (simp_all only:, code_simp+)
qed

lemma digit_plain:
  "is_ascii_digit c \<Longrightarrow> c \<noteq> backslash \<and> c \<noteq> dquote \<and> c \<noteq> squote \<and> c \<noteq> CHR ''n'' \<and> c \<noteq> CHR ''r'' \<and> c \<noteq> CHR ''t''"
proof -
  have "\<not> is_ascii_digit backslash" "\<not> is_ascii_digit dquote" "\<not> is_ascii_digit squote" "\<not> is_ascii_digit CHR ''n''"
    "\<not> is_ascii_digit CHR ''r''" "\<not> is_ascii_digit CHR ''t''" by code_simp+
  then show "is_ascii_digit c \<Longrightarrow> ?thesis" by metis
qed

lemma decimal3_value: "100 * (n div 100) + 10 * (n div 10 mod 10) + n mod 10 = (n :: nat)"
proof -
  have "n div 100 = n div 10 div 10" by (simp add: div_mult2_eq[symmetric])
  moreover have "10 * (n div 10 div 10) + n div 10 mod 10 = n div 10" "10 * (n div 10) + n mod 10 = n" by simp_all
  ultimately show ?thesis by linarith
qed

lemma read_decimal3: "n < 256 \<Longrightarrow> read_escape (decimal3 n @ s) = Some (char_of n, s)"
proof -
  assume n: "n < 256"
  let ?a = "n div 100" and ?b = "n div 10 mod 10" and ?c = "n mod 10"
  have b: "?a < 10" "?b < 10" "?c < 10" using n by auto
  note d = b[THEN digit_char]
  have "char_of (48 + ?a) \<noteq> backslash" "char_of (48 + ?a) \<noteq> dquote" "char_of (48 + ?a) \<noteq> squote"
    "char_of (48 + ?a) \<noteq> CHR ''n''" "char_of (48 + ?a) \<noteq> CHR ''r''" "char_of (48 + ?a) \<noteq> CHR ''t''"
    using d(1) digit_plain by blast+
  moreover have "digits_value 0 [char_of (48 + ?a), char_of (48 + ?b), char_of (48 + ?c)] = n"
    using d decimal3_value[of n] by simp
  ultimately show ?thesis using d n by (simp add: decimal3_def)
qed

lemma of_char_small: "(of_char c :: nat) < 256"
  by (metis of_char_mod_256 mod_less_divisor zero_less_numeral)

lemma read_escaped_char:
  "read_short dquote (escape_char c @ s) = map_option (\<lambda>(u, r). (c # u, r)) (read_short dquote s)"
proof -
  have "c < CHR 0x20 \<or> c = CHR 0x7F \<Longrightarrow> read_escape (decimal3 (of_char c) @ s) = Some (c, s)"
    using read_decimal3[OF of_char_small[of c]] by simp
  then show ?thesis by (simp add: escape_char_def)
qed

lemma read_escaped: "read_short dquote (escape_double_quoted s @ t) = map_option (\<lambda>(u, r). (s @ u, r)) (read_short dquote t)"
  by (induction s) (simp_all add: escape_double_quoted_def read_escaped_char option.map_comp o_def split_def option.map_ident)

text \<open>
  C24: a short literal means the string it was written for. Whatever the string holds, Lua reads it back
  from the literal and goes on right after it; and what is written between the quotes has no quote, no
  control character and no line break of its own.
\<close>

theorem literal_read_back:
  "\<exists>u. literal s @ t = [dquote] @ u \<and> read_short dquote u = Some (s, t)
     \<and> list_all (\<lambda>c. CHR 0x20 \<le> c \<and> c \<noteq> CHR 0x7F) (escape_double_quoted s)"
proof -
  have "list_all (\<lambda>c. CHR 0x20 \<le> c \<and> c \<noteq> CHR 0x7F) (escape_char c)" for c
  proof -
    have "(of_char c :: nat) div 100 < 10" using less_trans[OF of_char_small[of c], of 1000] by (intro less_mult_imp_div_less) simp
    then have "list_all (\<lambda>c. CHR 0x20 \<le> c \<and> c \<noteq> CHR 0x7F) (decimal3 (of_char c))"
      by (simp add: decimal3_def digit_char)
    moreover have "CHR 0x20 \<le> backslash \<and> backslash \<noteq> CHR 0x7F" "CHR 0x20 \<le> dquote \<and> dquote \<noteq> CHR 0x7F"
      "CHR 0x20 \<le> CHR ''n'' \<and> CHR ''n'' \<noteq> CHR 0x7F" "CHR 0x20 \<le> CHR ''r'' \<and> CHR ''r'' \<noteq> CHR 0x7F"
      "CHR 0x20 \<le> CHR ''t'' \<and> CHR ''t'' \<noteq> CHR 0x7F" by code_simp+
    ultimately show ?thesis by (simp add: escape_char_def not_less)
  qed
  then have "list_all (\<lambda>c. CHR 0x20 \<le> c \<and> c \<noteq> CHR 0x7F) (escape_double_quoted s)"
    by (simp add: escape_double_quoted_def list_all_iff)
  then show ?thesis using read_escaped[of s "[dquote] @ t"] by (simp add: literal_def)
qed

section \<open>Long literals\<close>

text \<open>The longest run of equals signs between two closing brackets.\<close>

definition eq_run :: "str \<Rightarrow> nat" where
  "eq_run s = length (takeWhile ((=) CHR ''='') s)"

definition run_at :: "str \<Rightarrow> nat option" where
  "run_at s = (if starts_with '']'' (drop (eq_run s) s) then Some (eq_run s) else None)"

fun max_run :: "nat option \<Rightarrow> str \<Rightarrow> nat option" where
  "max_run m [] = m"
| "max_run m (c # s) =
     max_run
       (if c = CHR '']'' then
          (case run_at s of
             None \<Rightarrow> m
           | Some run \<Rightarrow> Some (case m of None \<Rightarrow> run | Some k \<Rightarrow> max k run))
        else m) s"

definition pick_long_bracket_level :: "str \<Rightarrow> nat" where
  "pick_long_bracket_level s = (case max_run None s of None \<Rightarrow> 0 | Some m \<Rightarrow> m + 1)"

definition long_open :: "nat \<Rightarrow> str" where
  "long_open level = ''['' @ replicate level CHR ''='' @ ''[''"

definition long_close :: "nat \<Rightarrow> str" where
  "long_close level = '']'' @ replicate level CHR ''='' @ '']''"

definition wrap_lua_string :: "str \<Rightarrow> str" where
  "wrap_lua_string s =
     (let level = pick_long_bracket_level (s @ '']'') in long_open level @ s @ long_close level)"

definition lua_chunk_literal :: "str \<Rightarrow> str" where
  "lua_chunk_literal code =
     (let level = pick_long_bracket_level code in
      long_open level @ [newline] @ code @ [newline] @ long_close level)"

text \<open>
  How Lua reads a long literal: up to the first closing bracket of the level of the opening one, without
  a line break right after the opening bracket. Carriage returns are left out: Lua turns them into
  line feeds.
\<close>

definition drop_first_newline :: "str \<Rightarrow> str" where
  "drop_first_newline s = (case s of c # t \<Rightarrow> (if c = newline then t else s) | [] \<Rightarrow> [])"

definition read_long :: "str \<Rightarrow> (str \<times> str) option" where
  "read_long text =
     (case text of
        [] \<Rightarrow> None
      | c # u \<Rightarrow>
          (let level = eq_run u; v = drop level u in
           if c \<noteq> CHR ''['' \<or> \<not> starts_with ''['' v \<or> cret \<in> set text then None
           else
             (case find_str (long_close level) (tl v) of
                None \<Rightarrow> None
              | Some k \<Rightarrow> Some (drop_first_newline (take k (tl v)), drop (k + level + 2) (tl v)))))"

lemma max_run_mono: "max_run (Some k) s \<noteq> None \<and> k \<le> the (max_run (Some k) s)"
proof (induction s arbitrary: k)
  case (Cons c s)
  then show ?case
    by (auto split: option.splits) (metis dual_order.trans max.cobounded1)+
qed simp

lemma max_run_bound:
  assumes "run_at (drop (Suc i) s) = Some r" and "i < length s" and "s ! i = CHR '']''"
  shows "\<exists>m. max_run b s = Some m \<and> r \<le> m"
  using assms
proof (induction s arbitrary: b i)
  case (Cons c s)
  show ?case
  proof (cases i)
    case 0
    let ?k = "case b of None \<Rightarrow> r | Some k \<Rightarrow> max k r"
    have "max_run b (c # s) = max_run (Some ?k) s" using Cons.prems 0 by simp
    moreover have "r \<le> ?k" by (cases b) auto
    ultimately show ?thesis using max_run_mono[of ?k s] by (metis option.collapse order_trans)
  next
    case (Suc j)
    then show ?thesis using Cons.IH[of j] Cons.prems by simp
  qed
qed simp

lemma level_exceeds:
  assumes "run_at (drop (Suc i) s) = Some r" and "i < length s" and "s ! i = CHR '']''"
  shows "r < pick_long_bracket_level s"
  using max_run_bound[OF assms, of None] by (auto simp: pick_long_bracket_level_def)

lemma eq_run_replicate: "c \<noteq> CHR ''='' \<Longrightarrow> eq_run (replicate n CHR ''='' @ c # s) = n"
  by (induction n) (simp_all add: eq_run_def)

text \<open>The text before a closing bracket has none of its level that begins in it.\<close>

lemma no_earlier_close:
  assumes "starts_with (long_close n) (drop i (s @ long_close n @ t))" and "i < length s"
  shows "run_at (drop (Suc i) (s @ '']'')) = Some n \<and> s ! i = CHR '']''"
proof -
  obtain w where w: "drop i (s @ long_close n @ t) = long_close n @ w" using assms(1) by (auto simp: starts_with_iff)
  obtain u where u: "drop i s = s ! i # u" "length u = length s - Suc i" "u = drop (Suc i) s"
    using assms(2) by (simp add: Cons_nth_drop_Suc)
  have e: "s ! i = CHR '']''" "u @ long_close n @ t = replicate n CHR ''='' @ CHR '']'' # w"
    using w u(1) assms(2) by (simp_all add: long_close_def)
  have "run_at (u @ '']'') = Some n"
  proof (cases "n < length u")
    case True
    then have "take (Suc n) (u @ long_close n @ t) = take (Suc n) u" by simp
    then have "take (Suc n) u = replicate n CHR ''='' @ [CHR '']'']" unfolding e(2) by simp
    then obtain v where "u = replicate n CHR ''='' @ CHR '']'' # v" by (metis append_take_drop_id append_Cons append_Nil append_assoc)
    then show ?thesis by (simp add: run_at_def eq_run_replicate starts_with_iff)
  next
    case False
    have "(u @ long_close n @ t) ! length u = CHR '']''" by (simp add: long_close_def nth_append)
    then have "\<not> length u < n" unfolding e(2) by (auto simp: nth_append)
    then have l: "length u = n" using False by simp
    then have "u = replicate n CHR ''=''" using e(2) by (metis append_eq_append_conv length_replicate)
    then show ?thesis by (simp add: run_at_def eq_run_replicate starts_with_iff)
  qed
  then show ?thesis using e(1) u(3) assms(2) by simp
qed

lemma find_str_first:
  assumes "starts_with p (drop k s)" and "\<And>i. i < k \<Longrightarrow> \<not> starts_with p (drop i s)" and "k \<le> length s"
  shows "find_str p s = Some k"
  using assms
proof (induction s arbitrary: k)
  case Nil
  then show ?case by (auto simp: starts_with_iff)
next
  case (Cons c s)
  show ?case
  proof (cases k)
    case 0
    then show ?thesis using Cons.prems(1) by simp
  next
    case (Suc j)
    have "\<not> starts_with p (c # s)" using Cons.prems(2)[of 0] Suc by simp
    moreover have "\<not> starts_with p (drop i s)" if "i < j" for i using Cons.prems(2)[of "Suc i"] Suc that by simp
    ultimately show ?thesis using Cons.IH[of j] Cons.prems(1,3) Suc by simp
  qed
qed

lemma read_wrapped:
  assumes "\<And>i. i < length s \<Longrightarrow> s ! i = CHR '']'' \<Longrightarrow> run_at (drop (Suc i) (s @ '']'')) \<noteq> Some n"
    and "cret \<notin> set s" and "cret \<notin> set t"
  shows "read_long (long_open n @ s @ long_close n @ t) = Some (drop_first_newline s, t)"
proof -
  have "find_str (long_close n) (s @ long_close n @ t) = Some (length s)"
    by (rule find_str_first) (use no_earlier_close[of n _ s t] assms(1) in \<open>auto simp: starts_with_iff\<close>)
  moreover have "cret \<notin> set (long_open n @ s @ long_close n @ t)"
    using assms(2,3) by (auto simp: long_open_def long_close_def)
  moreover have "drop (length s + n + 2) (s @ long_close n @ t) = t"
    by (simp add: long_close_def)
  ultimately show ?thesis
    by (simp add: read_long_def long_open_def Let_def eq_run_replicate starts_with_iff)
qed

lemma drop_newline_Cons [simp]: "drop_first_newline (newline # s) = s"
  by (simp add: drop_first_newline_def)

lemma eq_run_newline: "eq_run (v @ newline # s) = eq_run v"
  by (induction v) (auto simp: eq_run_def)

lemma drop_newline_other: "\<not> starts_with [newline] s \<Longrightarrow> drop_first_newline s = s"
  by (cases s) (auto simp: drop_first_newline_def starts_with_iff)

lemma wrap_level:
  "i < length s \<Longrightarrow> s ! i = CHR '']'' \<Longrightarrow>
    run_at (drop (Suc i) (s @ '']'')) \<noteq> Some (pick_long_bracket_level (s @ '']''))"
  using level_exceeds[of i "s @ '']''" "pick_long_bracket_level (s @ '']'')"] by (auto simp: nth_append)

lemma chunk_level:
  assumes i: "i < length (newline # s @ [newline])" "(newline # s @ [newline]) ! i = CHR '']''"
  shows "run_at (drop (Suc i) ((newline # s @ [newline]) @ '']'')) \<noteq> Some (pick_long_bracket_level s)"
proof
  let ?n = "pick_long_bracket_level s" and ?u = "newline # s @ [newline]"
  assume a: "run_at (drop (Suc i) (?u @ '']'')) = Some ?n"
  obtain j where j: "i = Suc j" "j < length s" "s ! j = CHR '']''"
    using i by (cases i) (auto simp: nth_append split: if_splits)
  have d: "drop (Suc i) (?u @ '']'') = drop (Suc j) s @ newline # '']''" using j by simp
  have "run_at (drop (Suc j) s) = Some ?n"
  proof -
    let ?v = "drop (Suc j) s"
    have r: "eq_run (?v @ newline # '']'') = ?n" "starts_with '']'' (drop ?n (?v @ newline # '']''))"
      using a unfolding d by (auto simp: run_at_def split: if_splits)
    have e: "eq_run (?v @ newline # '']'') = eq_run ?v" by (rule eq_run_newline)
    have "eq_run ?v \<le> length ?v" using length_takeWhile_le[of _ ?v] by (simp add: eq_run_def)
    moreover have "eq_run ?v \<noteq> length ?v" using r e by (auto simp: starts_with_iff)
    ultimately have "starts_with '']'' (drop ?n ?v)" using r e by (cases "drop ?n ?v") (auto simp: starts_with_iff)
    then show ?thesis using r(1) e by (simp add: run_at_def)
  qed
  then show False using level_exceeds[of j s ?n] j by simp
qed

text \<open>
  A long literal ends where it was meant to, whatever the text in it, brackets and equals signs at its
  end included. A chunk is read as its code with a line break after it; a wrapped string is read as it
  is unless it begins with a line break, which Lua drops.
\<close>

lemma long_literal_read_back:
  assumes "cret \<notin> set s" and "cret \<notin> set t"
  shows "read_long (wrap_lua_string s @ t) = Some (drop_first_newline s, t)
    \<and> read_long (lua_chunk_literal s @ t) = Some (s @ [newline], t)"
  using read_wrapped[OF wrap_level assms(1,2)] read_wrapped[OF chunk_level, of s t] assms
  by (simp add: wrap_lua_string_def lua_chunk_literal_def Let_def)

lemma long_literal_example:
  "wrap_lua_string ''[ -f x ]'' = ''[=[[ -f x ]]=]'' \<and> read_long ''[=[[ -f x ]]=], y'' = Some (''[ -f x ]'', '', y'')"
proof -
  have "wrap_lua_string ''[ -f x ]'' = ''[=[[ -f x ]]=]''" by code_simp
  then show ?thesis using long_literal_read_back[of "''[ -f x ]''" "'', y''"] by (simp add: drop_first_newline_def)
qed

text \<open>The line break at the front of a body is lost, and with it a line of its numbering.\<close>

lemma wrapped_body_loses_line: "read_long (wrap_lua_string (newline # ''f()'')) = Some (''f()'', [])"
  by code_simp

lemma decimal3_digits: "list_all is_ascii_digit (decimal3 (of_char c))"
proof -
  have "(of_char c :: nat) div 100 < 10" using less_trans[OF of_char_small[of c], of 1000] by (intro less_mult_imp_div_less) simp
  then show ?thesis by (simp add: decimal3_def digit_char)
qed

section \<open>What is not code\<close>

datatype skip = Ended nat | Unterminated | Code

definition skip_while :: "(char \<Rightarrow> bool) \<Rightarrow> str \<Rightarrow> nat \<Rightarrow> nat" where
  "skip_while ok src j = j + length (takeWhile ok (drop j src))"

definition byte_is :: "str \<Rightarrow> nat \<Rightarrow> char \<Rightarrow> bool" where
  "byte_is src i c \<longleftrightarrow> i < length src \<and> src ! i = c"

definition opens_comment :: "str \<Rightarrow> nat \<Rightarrow> bool" where
  "opens_comment src i \<longleftrightarrow> src ! i = CHR ''-'' \<and> byte_is src (i + 1) CHR ''-''"

definition count_long_bracket_eqs :: "str \<Rightarrow> nat \<times> nat option" where
  "count_long_bracket_eqs s =
     (let eq = eq_run s in if starts_with ''['' (drop eq s) then (eq, Some (eq + 1)) else (0, None))"

text \<open>The bytes up to a closing quote, a backslash taking the byte after it along.\<close>

fun quoted_len :: "char \<Rightarrow> str \<Rightarrow> nat" where
  "quoted_len q [] = 0"
| "quoted_len q [c] = (if c = q then 0 else 1)"
| "quoted_len q (c # d # s) =
     (if c = q then 0 else if c = backslash then 2 + quoted_len q s else 1 + quoted_len q (d # s))"

definition skip_long :: "str \<Rightarrow> nat \<Rightarrow> nat \<Rightarrow> skip" where
  "skip_long src from eq_count =
     (case find_str (long_close eq_count) (drop from src) of
        Some rel \<Rightarrow> Ended (from + rel + length (long_close eq_count))
      | None \<Rightarrow> Unterminated)"

definition skip_non_code :: "str \<Rightarrow> nat \<Rightarrow> skip" where
  "skip_non_code src i =
     (if opens_comment src i then
        (case (if byte_is src (i + 2) CHR ''['' then count_long_bracket_eqs (drop (i + 3) src) else (0, None)) of
           (eq_count, Some after_open) \<Rightarrow> skip_long src (i + 3 + after_open) eq_count
         | (_, None) \<Rightarrow> Ended (skip_while (\<lambda>c. c \<noteq> newline) src i))
      else if src ! i = dquote \<or> src ! i = squote then
        Ended (min (i + 1 + quoted_len (src ! i) (drop (i + 1) src) + 1) (length src))
      else if src ! i = CHR ''['' then
        (case count_long_bracket_eqs (drop (i + 1) src) of
           (eq_count, Some after_open) \<Rightarrow> skip_long src (i + 1 + after_open) eq_count
         | (_, None) \<Rightarrow> Code)
      else Code)"

definition is_ident_start :: "char \<Rightarrow> bool" where
  "is_ident_start b \<longleftrightarrow> is_ascii_alphabetic b \<or> b = CHR ''_''"

definition is_ident_cont :: "char \<Rightarrow> bool" where
  "is_ident_cont b \<longleftrightarrow> is_ascii_alphanumeric b \<or> b = CHR ''_''"

definition ident_end :: "str \<Rightarrow> nat \<Rightarrow> nat" where
  "ident_end src start =
     (if length src \<le> start \<or> \<not> is_ident_start (src ! start) then start
      else skip_while is_ident_cont src (start + 1))"

lemma skip_while_bounds: "j \<le> length src \<Longrightarrow> j \<le> skip_while ok src j \<and> skip_while ok src j \<le> length src"
  using length_takeWhile_le[of ok "drop j src"] by (simp add: skip_while_def)

lemma skip_while_ge [simp]: "j \<le> skip_while ok src j"
  by (simp add: skip_while_def)

lemma skip_while_step: "i < length src \<Longrightarrow> ok (src ! i) \<Longrightarrow> i < skip_while ok src i"
  by (simp add: skip_while_def Cons_nth_drop_Suc[symmetric])

lemma skip_long_progress:
  assumes "skip_long src from n = Ended k"
  shows "from < k \<and> k \<le> length src"
proof -
  obtain rel where r: "find_str (long_close n) (drop from src) = Some rel" "k = from + rel + length (long_close n)"
    using assms by (auto simp: skip_long_def split: option.splits)
  have "0 < length (long_close n)" by (simp add: long_close_def)
  moreover have "rel + length (long_close n) \<le> length src - from" using find_str_Some[OF r(1)] by simp
  ultimately show ?thesis unfolding r(2) by arith
qed

lemma skip_progress:
  assumes "skip_non_code src i = Ended n" and "i < length src"
  shows "i < n \<and> n \<le> length src"
proof (cases "opens_comment src i")
  case True
  then have "src ! i \<noteq> newline" by (auto simp: opens_comment_def)
  then show ?thesis
    using assms True skip_while_step[of i src "\<lambda>c. c \<noteq> newline"] skip_while_bounds[of i src "\<lambda>c. c \<noteq> newline"]
    by (auto simp: skip_non_code_def split: if_splits prod.splits option.splits dest!: skip_long_progress)
next
  case False
  then show ?thesis
    using assms by (auto simp: skip_non_code_def split: if_splits prod.splits option.splits dest!: skip_long_progress)
qed

lemma ident_end_progress: "i < length src \<Longrightarrow> is_ident_start (src ! i) \<Longrightarrow> i < ident_end src i"
  by (simp add: ident_end_def skip_while_def)

lemma ident_end_ge: "i \<le> ident_end src i"
  by (simp add: ident_end_def skip_while_def)

section \<open>What a body reads\<close>

definition bytes_starts_with :: "str \<Rightarrow> nat \<Rightarrow> str \<Rightarrow> bool" where
  "bytes_starts_with src i needle \<longleftrightarrow> starts_with needle (drop i src)"

definition is_part_of_larger_identifier :: "str \<Rightarrow> nat \<Rightarrow> nat \<Rightarrow> bool" where
  "is_part_of_larger_identifier src i prefix_len \<longleftrightarrow>
     0 < i \<and> is_ident_cont (src ! (i - 1))
     \<or> i + prefix_len < length src \<and> is_ident_cont (src ! (i + prefix_len)) \<and> src ! (i + prefix_len) \<noteq> CHR ''.''"

definition is_hspace :: "char \<Rightarrow> bool" where
  "is_hspace c \<longleftrightarrow> c = CHR '' '' \<or> c = tab"

definition is_lua_space :: "char \<Rightarrow> bool" where
  "is_lua_space c \<longleftrightarrow> c = CHR '' '' \<or> c = tab \<or> c = cret \<or> c = newline"

definition is_assignment_target :: "str \<Rightarrow> nat \<Rightarrow> bool" where
  "is_assignment_target src pos =
     (let k = skip_while is_hspace src pos in byte_is src k CHR ''='' \<and> \<not> byte_is src (k + 1) CHR ''='')"

text \<open>A byte pushed as the character of that number, in UTF-8.\<close>

definition byte_as_char :: "char \<Rightarrow> str" where
  "byte_as_char c =
     (let n = of_char c :: nat in
      if n < 128 then [c] else [char_of (192 + n div 64), char_of (128 + n mod 64)])"

definition escape_letter :: "char \<Rightarrow> char option" where
  "escape_letter d =
     (if d = backslash \<or> d = dquote \<or> d = squote then Some d
      else if d = CHR ''n'' then Some newline
      else if d = CHR ''t'' then Some tab
      else if d = CHR ''r'' then Some cret
      else None)"

fun simple_unescape :: "str \<Rightarrow> str" where
  "simple_unescape [] = []"
| "simple_unescape [c] = byte_as_char c"
| "simple_unescape (c # d # s) =
     (if c = backslash then
        (case escape_letter d of
           Some e \<Rightarrow> e # simple_unescape s
         | None \<Rightarrow> byte_as_char c @ simple_unescape (d # s))
      else byte_as_char c @ simple_unescape (d # s))"

definition slice :: "str \<Rightarrow> nat \<Rightarrow> nat \<Rightarrow> str" where
  "slice src i j = take (j - i) (drop i src)"

definition var_global_name :: str where "var_global_name = ''var''"

text \<open>
  What is read where \<open>var\<close> stands at \<open>i\<close>, and where the scan goes on. A key that is not empty is kept
  unless it is assigned to.
\<close>

definition var_read_at :: "str \<Rightarrow> nat \<Rightarrow> str list \<times> nat" where
  "var_read_at src i =
     (let after = i + length var_global_name; id_end = ident_end src (after + 1) in
      if byte_is src after CHR ''.'' \<and> after + 1 < id_end then
        (if is_assignment_target src id_end then [] else [slice src (after + 1) id_end], id_end)
      else if byte_is src after CHR ''['' then
        (let j = skip_while is_hspace src (after + 1) in
         if byte_is src j dquote \<or> byte_is src j squote then
           (let k = j + 1 + quoted_len (src ! j) (drop (j + 1) src) in
            if k < length src then
              (let m = skip_while is_hspace src (k + 1) in
               if byte_is src m CHR '']'' then
                 (let key = simple_unescape (slice src (j + 1) k) in
                  (if key \<noteq> [] \<and> \<not> is_assignment_target src (m + 1) then [key] else [], m + 1))
               else ([], after + 1))
            else ([], after + 1))
         else ([], after + 1))
      else ([], after))"

definition names_at :: "str \<Rightarrow> nat \<Rightarrow> str \<Rightarrow> bool" where
  "names_at src i needle \<longleftrightarrow>
     bytes_starts_with src i needle \<and> \<not> is_part_of_larger_identifier src i (length needle)"

lemma var_read_progress: "i < snd (var_read_at src i)"
  by (simp add: var_read_at_def Let_def var_global_name_def skip_while_def)

function scan_var_from :: "str \<Rightarrow> nat \<Rightarrow> str list" where
  "scan_var_from src i =
     (if length src \<le> i then []
      else
        (case skip_non_code src i of
           Ended n \<Rightarrow> scan_var_from src n
         | Unterminated \<Rightarrow> []
         | Code \<Rightarrow>
             (if names_at src i var_global_name then
                fst (var_read_at src i) @ scan_var_from src (snd (var_read_at src i))
              else scan_var_from src (if is_ident_start (src ! i) then ident_end src i else i + 1))))"
  by auto
termination
  using skip_progress var_read_progress ident_end_progress
  by (relation "measure (\<lambda>(src, i). length src - i)") (fastforce intro!: diff_less_mono2)+

definition scan_var_reads :: "str \<Rightarrow> str list" where
  "scan_var_reads source = btree_set (scan_var_from source 0)"

definition literal_first_arg :: "str \<Rightarrow> nat \<Rightarrow> str option \<times> nat" where
  "literal_first_arg src p =
     (let q = skip_while is_lua_space src (p + 1) in
      if \<not> (byte_is src q dquote \<or> byte_is src q squote) then (None, p + 1)
      else
        (let m = q + 1 + quoted_len (src ! q) (drop (q + 1) src) in
         if length src \<le> m then (None, q + 1)
         else
           (let n = skip_while is_lua_space src (m + 1);
                key = simple_unescape (slice src (q + 1) m)
            in (if (byte_is src n CHR '')'' \<or> byte_is src n CHR '','') \<and> key \<noteq> [] then Some key else None, m + 1))))"

lemma literal_first_arg_progress: "p < snd (literal_first_arg src p)"
  by (simp add: literal_first_arg_def Let_def skip_while_def)

definition keys_of :: "str option \<Rightarrow> str list" where
  "keys_of k = (case k of None \<Rightarrow> [] | Some key \<Rightarrow> [key])"

definition probes_get :: str where "probes_get = ''cook.probes.get''"

definition probe_read_at :: "str \<Rightarrow> nat \<Rightarrow> str list \<times> nat" where
  "probe_read_at src i =
     (let after = i + length probes_get; j = skip_while is_lua_space src after in
      if byte_is src j CHR ''('' then
        (keys_of (fst (literal_first_arg src j)), snd (literal_first_arg src j))
      else ([], after))"

lemma probe_read_progress: "i < snd (probe_read_at src i)"
proof -
  have "i < skip_while is_lua_space src (i + length probes_get)" by (simp add: skip_while_def probes_get_def)
  then show ?thesis
    using literal_first_arg_progress[of "skip_while is_lua_space src (i + length probes_get)" src]
    by (simp add: probe_read_at_def Let_def) (simp add: probes_get_def)
qed

function scan_probe_from :: "str \<Rightarrow> nat \<Rightarrow> str list" where
  "scan_probe_from src i =
     (if length src \<le> i then []
      else
        (case skip_non_code src i of
           Ended n \<Rightarrow> scan_probe_from src n
         | Unterminated \<Rightarrow> []
         | Code \<Rightarrow>
             (if names_at src i probes_get then
                fst (probe_read_at src i) @ scan_probe_from src (snd (probe_read_at src i))
              else scan_probe_from src (if is_ident_start (src ! i) then ident_end src i else i + 1))))"
  by auto
termination
  using skip_progress probe_read_progress ident_end_progress
  by (relation "measure (\<lambda>(src, i). length src - i)") (fastforce intro!: diff_less_mono2)+

definition scan_probe_reads :: "str \<Rightarrow> str list" where
  "scan_probe_reads source = btree_set (scan_probe_from source 0)"

definition getenv_name :: str where "getenv_name = ''getenv''"

definition getenv_open :: "str \<Rightarrow> nat \<Rightarrow> nat" where
  "getenv_open src i = skip_while is_lua_space src (i + length getenv_name)"

lemma getenv_progress: "i < snd (literal_first_arg src (getenv_open src i))"
  using literal_first_arg_progress[of "getenv_open src i" src]
  by (simp add: getenv_open_def skip_while_def)

function scan_getenv_from :: "str \<Rightarrow> nat \<Rightarrow> str list" where
  "scan_getenv_from src i =
     (if length src \<le> i then []
      else
        (case skip_non_code src i of
           Ended n \<Rightarrow> scan_getenv_from src n
         | Unterminated \<Rightarrow> []
         | Code \<Rightarrow>
             (if names_at src i getenv_name \<and> byte_is src (getenv_open src i) CHR ''('' then
                (let r = literal_first_arg src (getenv_open src i) in
                 keys_of (fst r) @ scan_getenv_from src (snd r))
              else scan_getenv_from src (if is_ident_start (src ! i) then ident_end src i else i + 1))))"
  by auto
termination
  using skip_progress getenv_progress ident_end_progress
  by (relation "measure (\<lambda>(src, i). length src - i)") (fastforce intro!: diff_less_mono2)+

definition scan_getenv_reads :: "str \<Rightarrow> str list" where
  "scan_getenv_reads source = btree_set (scan_getenv_from source 0)"

section \<open>Free identifiers\<close>

definition is_field_access_at :: "str \<Rightarrow> nat \<Rightarrow> bool" where
  "is_field_access_at src start =
     (if start = 0 then False
      else if src ! (start - 1) = CHR '':'' then True
      else if src ! (start - 1) = CHR ''.'' then start < 2 \<or> src ! (start - 2) \<noteq> CHR ''.''
      else False)"

function free_from :: "str \<Rightarrow> str \<Rightarrow> nat \<Rightarrow> bool" where
  "free_from src ident i =
     (if length src \<le> i then False
      else
        (case skip_non_code src i of
           Ended n \<Rightarrow> free_from src ident (max n (i + 1))
         | Unterminated \<Rightarrow> False
         | Code \<Rightarrow>
             (if is_ident_start (src ! i) then
                (if slice src i (ident_end src i) = ident \<and> \<not> is_field_access_at src i then True
                 else free_from src ident (ident_end src i))
              else free_from src ident (i + 1))))"
  by auto
termination
  using ident_end_progress
  by (relation "measure (\<lambda>(src, ident, i). length src - i)") (fastforce intro!: diff_less_mono2)+

definition free_identifier_occurs :: "str \<Rightarrow> str \<Rightarrow> bool" where
  "free_identifier_occurs src ident \<longleftrightarrow> ident \<noteq> [] \<and> free_from src ident 0"

declare scan_var_from.simps [simp del]
  scan_probe_from.simps [simp del]
  scan_getenv_from.simps [simp del]
  free_from.simps [simp del]

section \<open>The doors of the registration and the bindings of a body\<close>

definition door_call :: "str \<Rightarrow> str \<Rightarrow> str" where
  "door_call name arg = ''cook.'' @ name @ ''('' @ literal arg @ '')''"

definition probe_subst_name :: str where "probe_subst_name = ''__probe_subst''"

definition probe_subst_call :: "str \<Rightarrow> str" where
  "probe_subst_call ident = door_call probe_subst_name ident"

definition load_module_call :: "str \<Rightarrow> str" where
  "load_module_call target = door_call load_module_fn target"

definition binding :: "str \<Rightarrow> str \<Rightarrow> str" where
  "binding alias target = ''local '' @ alias @ '' = '' @ load_module_call target"

fun prelude_from :: "str list \<Rightarrow> str \<Rightarrow> use_statement list \<Rightarrow> str" where
  "prelude_from bound body [] = []"
| "prelude_from bound body (u # uses) =
     (if us_alias u \<in> set bound \<or> \<not> free_identifier_occurs body (us_alias u) then prelude_from bound body uses
      else binding (us_alias u) (us_target u) @ ''; '' @ prelude_from (us_alias u # bound) body uses)"

definition execute_prelude :: "use_statement list \<Rightarrow> str \<Rightarrow> str" where
  "execute_prelude uses body = prelude_from [] body uses"

definition with_execute_prelude :: "use_statement list \<Rightarrow> str \<Rightarrow> str" where
  "with_execute_prelude uses body =
     (let prelude = execute_prelude uses body in if prelude = [] then body else prelude @ body)"

section \<open>What the scans make of what is written\<close>

lemma quoted_len_escaped:
  "quoted_len dquote (escape_double_quoted s @ dquote # t) = length (escape_double_quoted s)"
proof (induction s)
  case (Cons c s)
  have d: "decimal3 n = [a, b, e] \<Longrightarrow> x \<in> {a, b, e} \<Longrightarrow> n < 256 \<Longrightarrow> x \<noteq> dquote \<and> x \<noteq> backslash" for n a b e x
  proof -
    assume a: "decimal3 n = [a, b, e]" "x \<in> {a, b, e}" "n < 256"
    have "is_ascii_digit x"
      using a less_mult_imp_div_less[of n 10 100] digit_char[of "n div 100"] digit_char[of "n div 10 mod 10"]
        digit_char[of "n mod 10"]
      by (auto simp: decimal3_def)
    moreover have "\<not> is_ascii_digit dquote" "\<not> is_ascii_digit backslash" by code_simp+
    ultimately show "x \<noteq> dquote \<and> x \<noteq> backslash" by metis
  qed
  have plain: "quoted_len dquote (x # u) = Suc (quoted_len dquote u)" if "x \<noteq> dquote" "x \<noteq> backslash" for x u
    using that by (cases u) auto
  have esc: "quoted_len dquote (backslash # x # u) = Suc (Suc (quoted_len dquote u))" for x u by simp
  obtain a b e where de: "decimal3 (of_char c) = [a, b, e]" by (simp add: decimal3_def)
  have "of_char c < (256 :: nat)" by (rule of_char_small)
  from d[OF de _ this] have abe: "\<And>x. x \<in> {a, b, e} \<Longrightarrow> x \<noteq> dquote \<and> x \<noteq> backslash" .
  have step: "quoted_len dquote (escape_char c @ u) = length (escape_char c) + quoted_len dquote u" for u
    using abe[of a] abe[of b] abe[of e]
    by (simp add: escape_char_def de esc plain del: quoted_len.simps)
  show ?case using Cons step[of "escape_double_quoted s @ dquote # t"]
    by (simp add: escape_double_quoted_def)
qed (cases t; simp add: escape_double_quoted_def)

lemma skip_short_literal:
  "skip_non_code (p @ literal s @ t) (length p) = Ended (length p + length (literal s))"
  using quoted_len_escaped[of s t]
  by (simp add: skip_non_code_def opens_comment_def byte_is_def literal_def nth_append)

lemma skip_long_literal:
  assumes "\<And>i. i < length s \<Longrightarrow> s ! i = CHR '']'' \<Longrightarrow> run_at (drop (Suc i) (s @ '']'')) \<noteq> Some n"
  shows "skip_non_code (p @ long_open n @ s @ long_close n @ t) (length p)
    = Ended (length p + length (long_open n @ s @ long_close n))"
proof -
  have "find_str (long_close n) (s @ long_close n @ t) = Some (length s)"
    by (rule find_str_first) (use no_earlier_close[of n _ s t] assms in \<open>auto simp: starts_with_iff\<close>)
  moreover have "drop n (replicate n CHR ''='' @ CHR ''['' # u) = CHR ''['' # u" for u by simp
  ultimately show ?thesis
    by (simp add: skip_non_code_def opens_comment_def byte_is_def long_open_def nth_append
        count_long_bracket_eqs_def eq_run_replicate starts_with_iff skip_long_def Let_def)
qed

text \<open>
  C23: the scans pass over the literals Cook writes. Wherever a text is written into Lua as a short
  literal, as a wrapped string or as a chunk, the scanner of the same repository takes the literal as one
  piece and goes on right after it, so nothing in the text is taken for a read or a name of the body.
\<close>

theorem own_literals_skipped:
  "skip_non_code (p @ literal s @ t) (length p) = Ended (length p + length (literal s))
    \<and> skip_non_code (p @ wrap_lua_string s @ t) (length p) = Ended (length p + length (wrap_lua_string s))
    \<and> skip_non_code (p @ lua_chunk_literal s @ t) (length p) = Ended (length p + length (lua_chunk_literal s))"
  using skip_short_literal[of p s t] skip_long_literal[OF wrap_level, of s p t]
    skip_long_literal[OF chunk_level, of s p t]
  by (simp add: wrap_lua_string_def lua_chunk_literal_def Let_def)

lemma binding_one_line: "newline \<notin> set alias \<Longrightarrow> newline \<notin> set (binding alias target)"
proof -
  have "newline \<notin> set (escape_char c)" for c
  proof -
    obtain a b e where de: "decimal3 (of_char c) = [a, b, e]" by (simp add: decimal3_def)
    have "list_all is_ascii_digit (decimal3 (of_char c))" by (rule decimal3_digits)
    moreover have "\<not> is_ascii_digit newline" by code_simp
    ultimately show ?thesis by (auto simp: escape_char_def list_all_iff)
  qed
  then have "newline \<notin> set (literal target)" by (simp add: literal_def escape_double_quoted_def)
  then show "newline \<notin> set alias \<Longrightarrow> newline \<notin> set (binding alias target)"
    by (simp add: binding_def load_module_call_def door_call_def load_module_fn_def)
qed

fun bound_uses :: "str list \<Rightarrow> str \<Rightarrow> use_statement list \<Rightarrow> use_statement list" where
  "bound_uses bound body [] = []"
| "bound_uses bound body (u # uses) =
     (if us_alias u \<in> set bound \<or> \<not> free_identifier_occurs body (us_alias u) then bound_uses bound body uses
      else u # bound_uses (us_alias u # bound) body uses)"

lemma prelude_from_bound:
  "prelude_from bound body uses = concat (map (\<lambda>u. binding (us_alias u) (us_target u) @ ''; '') (bound_uses bound body uses))"
  by (induction uses arbitrary: bound) simp_all

lemma bound_uses_exact:
  "set (map us_alias (bound_uses bound body uses))
      = {a \<in> us_alias ` set uses. free_identifier_occurs body a} - set bound
    \<and> distinct (map us_alias (bound_uses bound body uses)) \<and> subseq (bound_uses bound body uses) uses
    \<and> set (bound_uses bound body uses) \<subseteq> set uses"
proof (induction uses arbitrary: bound)
  case (Cons u uses)
  let ?skip = "us_alias u \<in> set bound \<or> \<not> free_identifier_occurs body (us_alias u)"
  note a = Cons[of bound] and b = Cons[of "us_alias u # bound"]
  show ?case
  proof (cases ?skip)
    case True
    then have r: "bound_uses bound body (u # uses) = bound_uses bound body uses" by simp
    have "{a \<in> us_alias ` set (u # uses). free_identifier_occurs body a} - set bound
        = {a \<in> us_alias ` set uses. free_identifier_occurs body a} - set bound" using True by auto
    then show ?thesis unfolding r using a by (simp add: list_emb_Cons subset_insertI2)
  next
    case False
    then have r: "bound_uses bound body (u # uses) = u # bound_uses (us_alias u # bound) body uses" by simp
    have "{a \<in> us_alias ` set (u # uses). free_identifier_occurs body a} - set bound
        = insert (us_alias u) ({a \<in> us_alias ` set uses. free_identifier_occurs body a} - set (us_alias u # bound))"
      using False by auto
    moreover have "us_alias u \<notin> set (map us_alias (bound_uses (us_alias u # bound) body uses))"
      unfolding b[THEN conjunct1] by simp
    ultimately show ?thesis unfolding r using b by (simp add: subset_insertI2)
  qed
qed simp

text \<open>
  C25: a body has the aliases it names bound before it, and no other. Its prelude is one line, so the body's
  lines keep their numbers; it binds each alias that occurs free in the body, once, in the order of the
  declarations, and is empty when none does.
\<close>

theorem prelude_binds_names_used:
  assumes "\<forall>u \<in> set uses. newline \<notin> set (us_alias u)"
  shows "\<exists>us p. with_execute_prelude uses body = p @ body \<and> newline \<notin> set p
    \<and> p = concat (map (\<lambda>u. binding (us_alias u) (us_target u) @ ''; '') us)
    \<and> subseq us uses \<and> distinct (map us_alias us)
    \<and> us_alias ` set us = {a \<in> us_alias ` set uses. free_identifier_occurs body a}"
proof (intro exI conjI)
  let ?us = "bound_uses [] body uses"
  show "with_execute_prelude uses body = execute_prelude uses body @ body"
    by (simp add: with_execute_prelude_def Let_def)
  show e: "execute_prelude uses body = concat (map (\<lambda>u. binding (us_alias u) (us_target u) @ ''; '') ?us)"
    by (simp add: execute_prelude_def prelude_from_bound)
  show "subseq ?us uses" and "distinct (map us_alias ?us)"
    and "us_alias ` set ?us = {a \<in> us_alias ` set uses. free_identifier_occurs body a}"
    using bound_uses_exact[of "[]" body uses] by auto
  have "set ?us \<subseteq> set uses" using bound_uses_exact[of "[]" body uses] by blast
  then show "newline \<notin> set (execute_prelude uses body)" using assms by (auto simp: e binding_one_line)
qed

theorem prelude_binds_names_used_witness:
  "\<exists>p. with_execute_prelude [\<lparr>us_alias = ''fmt'', us_target = ''fmt'', us_line = 1\<rparr>, \<lparr>us_alias = ''gen'', us_target = ''lib/gen.lua'', us_line = 2\<rparr>]
        ''x.fmt = gen.run()'' = p @ ''x.fmt = gen.run()''
     \<and> p = ''local gen = cook.load_module('' @ literal ''lib/gen.lua'' @ ''); '' \<and> newline \<notin> set p"
proof -
  let ?uses = "[\<lparr>us_alias = ''fmt'', us_target = ''fmt'', us_line = 1\<rparr>, \<lparr>us_alias = ''gen'', us_target = ''lib/gen.lua'', us_line = 2\<rparr>]"
  have "\<forall>u \<in> set ?uses. newline \<notin> set (us_alias u)" by code_simp
  from prelude_binds_names_used[OF this, of "''x.fmt = gen.run()''"] obtain p
    where p: "with_execute_prelude ?uses ''x.fmt = gen.run()'' = p @ ''x.fmt = gen.run()''" "newline \<notin> set p" by blast
  have "with_execute_prelude ?uses ''x.fmt = gen.run()''
      = (''local gen = cook.load_module('' @ literal ''lib/gen.lua'' @ ''); '') @ ''x.fmt = gen.run()''" by code_simp
  then have "p = ''local gen = cook.load_module('' @ literal ''lib/gen.lua'' @ ''); ''"
    unfolding p(1) by (simp only: append_same_eq)
  then show ?thesis using p by metis
qed

end
