(* ===== verification/Resolver.thy ===== *)
theory Resolver
  imports Lang_Syntax Lua_Text Quoting
begin

text \<open>
  What a placeholder means: the resolver of the code generator (\<open>cook-luagen/src/resolver.rs\<close>) and the
  references to recipes it implies (\<open>dep\_ref.rs\<close>). A set of names in scope is a set; the texts of the
  errors are those of \<open>thiserror\<close>.
\<close>

section \<open>Data\<close>

datatype iter_mode = OneToOne | ManyToOne | OneShot

datatype output_shape = NoOutputs | SingleOutput | MultiOutput nat

record resolve_ctx =
  rc_mode :: iter_mode
  rc_outputs :: output_shape
  rc_recipes :: "str set"
  rc_probes :: "str set"

datatype builtin_kind =
    In
  | InAccessor str
  | Out
  | OutAccessor str
  | OutIndexed nat
  | OutIndexedAccessor nat str
  | Item
  | ItemField str

datatype resolve_error =
    BuiltinWrongMode str builtin_kind iter_mode
  | BuiltinWrongOutputCount str builtin_kind str nat
  | MalformedOutIndex str
  | RecipeMemberOutsideFanout str
  | RecipeMemberEmptyIndex str str
  | RecipeMemberBadIndex str str
  | RecipeMemberUnknownRecipe str str
  | RetiredEnvPrefix str
  | RetiredFilePrefix str

datatype resolved =
    Builtin builtin_kind
  | RecipeValue str "str option"
  | RecipeMember str
  | EnvRuntime str
  | ProbeValue str
  | ResolveFails resolve_error

datatype builtin_match = YesBuiltin builtin_kind | MalformedBuiltin resolve_error | NoBuiltin

definition accessors :: "str list" where
  "accessors = [''stem'', ''name'', ''ext'', ''dir'']"

definition parse_usize :: "str \<Rightarrow> nat option" where
  "parse_usize s =
     (let ds = (if starts_with ''+'' s then tl s else s) in
      if ds \<noteq> [] \<and> list_all is_ascii_digit ds \<and> int (digits_value 0 ds) < 2 ^ 64 then Some (digits_value 0 ds) else None)"

section \<open>Classifying an identifier\<close>

definition match_member_sigil :: "str \<Rightarrow> builtin_kind option" where
  "match_member_sigil ident =
     (if ident = ''in'' then Some Item
      else
        (case strip_prefix ''in.'' ident of
           Some field \<Rightarrow> if field \<noteq> [] then Some (ItemField field) else None
         | None \<Rightarrow> None))"

definition match_out_indexed :: "str \<Rightarrow> str \<Rightarrow> builtin_match" where
  "match_out_indexed ident rest =
     (let (num_str, acc) = (case split_once CHR ''.'' rest of
            Some (a, b) \<Rightarrow> (a, Some b) | None \<Rightarrow> (rest, None))
      in case parse_usize num_str of
           None \<Rightarrow> NoBuiltin
         | Some n \<Rightarrow>
             (if n = 0 then MalformedBuiltin (MalformedOutIndex ident)
              else
                (case acc of
                   None \<Rightarrow> YesBuiltin (OutIndexed n)
                 | Some a \<Rightarrow>
                     if a \<in> set accessors then YesBuiltin (OutIndexedAccessor n a) else NoBuiltin)))"

definition match_builtin :: "str \<Rightarrow> builtin_match" where
  "match_builtin ident =
     (if ident = ''in'' then YesBuiltin In
      else if ident = ''out'' then YesBuiltin Out
      else
        (case strip_prefix ''in.'' ident of
           Some rest \<Rightarrow> if rest \<in> set accessors then YesBuiltin (InAccessor rest) else NoBuiltin
         | None \<Rightarrow>
             (case strip_prefix ''out.'' ident of
                Some rest \<Rightarrow> if rest \<in> set accessors then YesBuiltin (OutAccessor rest) else NoBuiltin
              | None \<Rightarrow>
                  (case strip_prefix ''out_'' ident of
                     Some rest \<Rightarrow> match_out_indexed ident rest
                   | None \<Rightarrow> NoBuiltin))))"

fun is_in_builtin :: "builtin_match \<Rightarrow> bool" where
  "is_in_builtin (YesBuiltin In) = True"
| "is_in_builtin (YesBuiltin (InAccessor a)) = True"
| "is_in_builtin _ = False"

fun is_out_builtin :: "builtin_match \<Rightarrow> bool" where
  "is_out_builtin (YesBuiltin Out) = True"
| "is_out_builtin (YesBuiltin (OutAccessor a)) = True"
| "is_out_builtin (YesBuiltin (OutIndexed n)) = True"
| "is_out_builtin (YesBuiltin (OutIndexedAccessor n a)) = True"
| "is_out_builtin (MalformedBuiltin (MalformedOutIndex i)) = True"
| "is_out_builtin _ = False"

definition is_own_input_ref :: "str \<Rightarrow> bool" where
  "is_own_input_ref ident \<longleftrightarrow> is_in_builtin (match_builtin ident) \<or> match_member_sigil ident \<noteq> None"

definition is_output_ref :: "str \<Rightarrow> bool" where
  "is_output_ref ident \<longleftrightarrow> is_out_builtin (match_builtin ident)"

text \<open>The name and the accessor of an identifier, split at its last dot.\<close>

definition accessor_ref :: "str \<Rightarrow> str set \<Rightarrow> (str \<times> str) option" where
  "accessor_ref ident names =
     (case before_last CHR ''.'' ident of
        None \<Rightarrow> None
      | Some name \<Rightarrow>
          (let acc = rsplit_last CHR ''.'' ident in
           if acc \<in> set accessors \<and> name \<in> names then Some (name, acc) else None))"

text \<open>The key \<open>probe_ref\<close> reads; its access path is not consulted here.\<close>

definition probe_key :: "(str \<Rightarrow> bool) \<Rightarrow> str \<Rightarrow> str option" where
  "probe_key declares ident =
     (let base = fst (split_base ident) in
      if CHR '':'' \<notin> set base \<and> \<not> declares base then None else Some base)"

definition colon_keys_only :: "str \<Rightarrow> bool" where
  "colon_keys_only name \<longleftrightarrow> False"

fun shape_count :: "output_shape \<Rightarrow> nat" where
  "shape_count NoOutputs = 0"
| "shape_count SingleOutput = 1"
| "shape_count (MultiOutput n) = n"

section \<open>Resolving\<close>

definition wrong_count :: "str \<Rightarrow> builtin_kind \<Rightarrow> str \<Rightarrow> output_shape \<Rightarrow> resolved" where
  "wrong_count ident b required shape =
     ResolveFails (BuiltinWrongOutputCount ident b required (shape_count shape))"

definition check_indexed :: "str \<Rightarrow> builtin_kind \<Rightarrow> nat \<Rightarrow> output_shape \<Rightarrow> resolved" where
  "check_indexed ident b n shape =
     (case shape of
        MultiOutput declared \<Rightarrow>
          if declared < n then wrong_count ident b ([CHR 0xE2, CHR 0x89, CHR 0xA5] @ '' '' @ show_nat n) shape else Builtin b
      | _ \<Rightarrow> wrong_count ident b (''multi-output '' @ [CHR 0xE2, CHR 0x89, CHR 0xA5] @ '' '' @ show_nat n) shape)"

definition validate_builtin :: "str \<Rightarrow> builtin_kind \<Rightarrow> resolve_ctx \<Rightarrow> resolved" where
  "validate_builtin ident b ctx =
     (case b of
        In \<Rightarrow> if rc_mode ctx = OneShot then ResolveFails (BuiltinWrongMode ident b (rc_mode ctx)) else Builtin b
      | InAccessor a \<Rightarrow>
          if rc_mode ctx \<noteq> OneToOne then ResolveFails (BuiltinWrongMode ident b (rc_mode ctx)) else Builtin b
      | Out \<Rightarrow> if rc_outputs ctx \<noteq> SingleOutput then wrong_count ident b ''exactly 1'' (rc_outputs ctx) else Builtin b
      | OutAccessor a \<Rightarrow>
          if rc_outputs ctx \<noteq> SingleOutput then wrong_count ident b ''exactly 1'' (rc_outputs ctx) else Builtin b
      | OutIndexed n \<Rightarrow> check_indexed ident b n (rc_outputs ctx)
      | OutIndexedAccessor n a \<Rightarrow> check_indexed ident b n (rc_outputs ctx)
      | Item \<Rightarrow> Builtin b
      | ItemField f \<Rightarrow> Builtin b)"

text \<open>
  The last three steps: a declared variable, behind a probe of this file, behind the refusal of the
  retired \<open>env.\<close>, behind a recipe.
\<close>

definition resolve_name :: "str \<Rightarrow> resolve_ctx \<Rightarrow> resolved" where
  "resolve_name ident ctx =
     (if ident \<in> rc_recipes ctx then RecipeValue ident None
      else
        (case accessor_ref ident (rc_recipes ctx) of
           Some (name, acc) \<Rightarrow> RecipeValue name (Some acc)
         | None \<Rightarrow>
             (case strip_prefix ''env.'' ident of
                Some key \<Rightarrow> ResolveFails (RetiredEnvPrefix key)
              | None \<Rightarrow>
                  (case probe_key (\<lambda>k. k \<in> rc_probes ctx) ident of
                     Some key \<Rightarrow> ProbeValue key
                   | None \<Rightarrow> EnvRuntime ident))))"

definition resolve_member :: "str \<Rightarrow> str \<Rightarrow> str \<Rightarrow> resolve_ctx \<Rightarrow> resolved" where
  "resolve_member ident name index ctx =
     (if index = ''in'' then
        (if name \<in> rc_recipes ctx then RecipeMember name else ResolveFails (RecipeMemberUnknownRecipe ident name))
      else if index = [] then ResolveFails (RecipeMemberEmptyIndex ident name)
      else ResolveFails (RecipeMemberBadIndex ident index))"

definition resolve_plain :: "str \<Rightarrow> resolve_ctx \<Rightarrow> resolved" where
  "resolve_plain ident ctx =
     (case (if ends_with '']'' ident then split_once CHR ''['' ident else None) of
        Some (name, r) \<Rightarrow> resolve_member ident name (butlast r) ctx
      | None \<Rightarrow>
          (case match_builtin ident of
             YesBuiltin b \<Rightarrow> validate_builtin ident b ctx
           | MalformedBuiltin e \<Rightarrow> ResolveFails e
           | NoBuiltin \<Rightarrow> resolve_name ident ctx))"

definition colon_recipe :: "str \<Rightarrow> resolve_ctx \<Rightarrow> (str \<times> str option) option" where
  "colon_recipe ident ctx =
     (if CHR '':'' \<notin> set ident then None
      else if ident \<in> rc_recipes ctx then Some (ident, None)
      else map_option (\<lambda>(name, acc). (name, Some acc)) (accessor_ref ident (rc_recipes ctx)))"

definition resolve :: "str \<Rightarrow> resolve_ctx \<Rightarrow> resolved" where
  "resolve ident ctx =
     (case strip_prefix ''file:'' ident of
        Some path \<Rightarrow> ResolveFails (RetiredFilePrefix path)
      | None \<Rightarrow>
          (case strip_prefix ''var.'' ident of
             Some key \<Rightarrow> EnvRuntime key
           | None \<Rightarrow>
               (case colon_recipe ident ctx of
                  Some (name, acc) \<Rightarrow> RecipeValue name acc
                | None \<Rightarrow>
                    (case probe_key colon_keys_only ident of
                       Some key \<Rightarrow> ProbeValue key
                     | None \<Rightarrow> resolve_plain ident ctx))))"

section \<open>The recipes a text refers to\<close>

fun recipe_of :: "resolved \<Rightarrow> (str \<times> str option) option" where
  "recipe_of (RecipeValue name acc) = Some (name, acc)"
| "recipe_of (RecipeMember name) = Some (name, None)"
| "recipe_of _ = None"

definition recipe_ref :: "str \<Rightarrow> str set \<Rightarrow> (str \<times> str option) option" where
  "recipe_ref ident names =
     recipe_of (resolve ident \<lparr>rc_mode = OneToOne, rc_outputs = SingleOutput, rc_recipes = names, rc_probes = {}\<rparr>)"

definition extract_recipe_names :: "cookfile \<Rightarrow> str set" where
  "extract_recipe_names cf = rd_name ` set (cf_recipes cf)"

definition extract_recipe_names_with_imports :: "cookfile \<Rightarrow> (str \<times> cookfile) list \<Rightarrow> str set" where
  "extract_recipe_names_with_imports cf imports =
     extract_recipe_names cf
     \<union> (\<Union>(alias, imp) \<in> set imports. (\<lambda>r. alias @ ''.'' @ rd_name r) ` set (cf_recipes imp))"

definition extract_sigil_tokens :: "str \<Rightarrow> str list" where
  "extract_sigil_tokens template = map ps_ident (scan template)"

fun extract_body_tokens :: "body \<Rightarrow> str list" where
  "extract_body_tokens (ShellBlock ls) = extract_sigil_tokens (join [newline] ls)"
| "extract_body_tokens (LuaBlock code) = []"

fun step_tokens :: "step \<Rightarrow> str list" where
  "step_tokens (CookLine s line) =
     concat (map (extract_sigil_tokens \<circ> pattern_text) (ck_outputs s))
     @ (case ck_body s of
          Some (ShellBlock ls) \<Rightarrow> concat (map extract_sigil_tokens ls)
        | _ \<Rightarrow> [])"
| "step_tokens (TestLine s line) = extract_body_tokens (ts_body s)"
| "step_tokens (MemberStep s line) = (case ms_source s of RecipeRefSource name \<Rightarrow> [name] | _ \<Rightarrow> [])"
| "step_tokens (ShellStep command line interactive) = extract_sigil_tokens command"
| "step_tokens _ = []"

definition extract_dep_refs_from_steps :: "step list \<Rightarrow> str set \<Rightarrow> (str \<times> str option) set" where
  "extract_dep_refs_from_steps ss names =
     set (List.map_filter (\<lambda>t. recipe_ref t names) (concat (map step_tokens ss)))"

definition extract_dep_refs :: "recipe_decl \<Rightarrow> str set \<Rightarrow> (str \<times> str option) set" where
  "extract_dep_refs r names = extract_dep_refs_from_steps (recipe_decl.rd_steps r) names"

end
