(* ===== verification/Template.thy ===== *)
theory Template
  imports Resolver Labels
begin

text \<open>
  Shell text with placeholders as a Lua expression: \<open>cook-luagen/src/template.rs\<close>, with the modes of a
  step (\<open>CookMode\<close> of \<open>cook\_step.rs\<close>). What an expansion collects on its way (the variables it consults,
  the probes it names) is a state passed from one placeholder to the next; a \<open>BTreeSet\<close> of keys is its
  sorted list.
\<close>

section \<open>Names of doors\<close>

definition dep_output_name :: str where "dep_output_name = ''dep_output''"
definition dep_output_list_name :: str where "dep_output_list_name = ''dep_output_list''"
definition dep_output_member_name :: str where "dep_output_member_name = ''dep_output_member''"
definition member_to_string_name :: str where "member_to_string_name = ''member_to_string''"
definition quote_param_name :: str where "quote_param_name = ''__quote_param''"
definition cook_params_local :: str where "cook_params_local = ''__cook_params''"

section \<open>What an expansion collects\<close>

record expansion =
  ex_env :: "str list"
  ex_probes :: "str list"

definition no_expansion :: expansion where
  "no_expansion = \<lparr>ex_env = [], ex_probes = []\<rparr>"

definition record_key :: "str \<Rightarrow> str list \<Rightarrow> str list" where
  "record_key key keys = btree_set (key # keys)"

definition record_env :: "str \<Rightarrow> expansion \<Rightarrow> expansion" where
  "record_env key x = x\<lparr>ex_env := record_key key (ex_env x)\<rparr>"

definition record_probe :: "str \<Rightarrow> expansion \<Rightarrow> expansion" where
  "record_probe key x = x\<lparr>ex_probes := record_key key (ex_probes x)\<rparr>"

definition to_lua_table :: "str list \<Rightarrow> str" where
  "to_lua_table keys =
     (if keys = [] then ''{}'' else ''{'' @ join '', '' (map literal keys) @ ''}'')"

section \<open>Walking a template\<close>

type_synonym lowering = "placeholder_span \<Rightarrow> expansion \<Rightarrow> resolve_error + str \<times> expansion"

fun join_from :: "str \<Rightarrow> lowering \<Rightarrow> nat \<Rightarrow> placeholder_span list \<Rightarrow> expansion
    \<Rightarrow> resolve_error + str list \<times> expansion" where
  "join_from t lower last_end [] x =
     Inr (if last_end < length t then [literal (drop last_end t)] else [], x)"
| "join_from t lower last_end (p # ps) x =
     bind_res (lower p x) (\<lambda>(part, y).
     bind_res (join_from t lower (ps_end p) ps y) (\<lambda>(parts, z).
       Inr ((if last_end < ps_start p then [literal (slice t last_end (ps_start p))] else []) @ part # parts, z)))"

definition concat_parts :: "str list \<Rightarrow> str" where
  "concat_parts parts = (if parts = [] then [dquote, dquote] else join '' .. '' parts)"

definition join_spans :: "str \<Rightarrow> lowering \<Rightarrow> expansion \<Rightarrow> resolve_error + str \<times> expansion" where
  "join_spans t lower x =
     bind_res (join_from t lower 0 (scan t) x) (\<lambda>(parts, y). Inr (concat_parts parts, y))"

definition span_text :: "str \<Rightarrow> placeholder_span \<Rightarrow> str" where
  "span_text t p = slice t (ps_start p) (ps_end p)"

section \<open>What a resolved placeholder becomes\<close>

fun builtin_to_lua :: "builtin_kind \<Rightarrow> str" where
  "builtin_to_lua In = ''_cook_in''"
| "builtin_to_lua (InAccessor acc) = (''path.'' @ acc @ ''(_cook_in)'')"
| "builtin_to_lua Out = ''_cook_out''"
| "builtin_to_lua (OutAccessor acc) = (''path.'' @ acc @ ''(_cook_out)'')"
| "builtin_to_lua (OutIndexed n) = (''_cook_outs['' @ show_nat n @ '']'')"
| "builtin_to_lua (OutIndexedAccessor n acc) = (''path.'' @ acc @ ''(_cook_outs['' @ show_nat n @ ''])'')"
| "builtin_to_lua Item = ''cook.member_to_string(item)''"
| "builtin_to_lua (ItemField field) =
     (let rec = (''cook.member_to_string(item['' @ [dquote] @ escape_double_quoted field @ [dquote] @ ''])'') in
      if field \<in> set accessors then (''(type(item) == '' @ [dquote] @ ''string'' @ [dquote] @ '' and path.'' @ field @ ''(item) or ''
       @ rec @ '')'') else rec)"

definition dep_output_call :: "str \<Rightarrow> str option \<Rightarrow> str" where
  "dep_output_call name acc =
     (let call = door_call dep_output_name name in
      case acc of Some a \<Rightarrow> (''path.'' @ a @ ''('' @ call @ '')'') | None \<Rightarrow> call)"

definition require_var_call :: "str \<Rightarrow> str" where
  "require_var_call key = (''cook.require_var('' @ [dquote] @ escape_double_quoted key @ [dquote] @ '')'')"

fun resolved_to_lua :: "resolved \<Rightarrow> str \<Rightarrow> expansion \<Rightarrow> resolve_error + str \<times> expansion" where
  "resolved_to_lua (Builtin b) ident x = Inr (builtin_to_lua b, x)"
| "resolved_to_lua (RecipeValue name acc) ident x = Inr (dep_output_call name acc, x)"
| "resolved_to_lua (EnvRuntime key) ident x = Inr (require_var_call key, record_env key x)"
| "resolved_to_lua (ProbeValue key) ident x = Inr (probe_subst_call ident, x)"
| "resolved_to_lua (ResolveFails e) ident x = Inl e"
| "resolved_to_lua (RecipeMember name) ident x = Inl (RecipeMemberOutsideFanout (name @ ''[in]''))"

section \<open>Expanders\<close>

definition lower_command :: "str \<Rightarrow> resolve_ctx \<Rightarrow> lowering" where
  "lower_command cmd ctx p x =
     (case resolve (ps_ident p) ctx of
        ProbeValue key \<Rightarrow> Inr (literal (span_text cmd p), record_probe key x)
      | r \<Rightarrow> resolved_to_lua r (ps_ident p) x)"

definition expand_command_template :: "str \<Rightarrow> resolve_ctx \<Rightarrow> expansion \<Rightarrow> resolve_error + str \<times> expansion" where
  "expand_command_template cmd ctx x = join_spans cmd (lower_command cmd ctx) x"

datatype probe_lowering = LiteralSigil | CacheGet

definition lower_member :: "str \<Rightarrow> resolve_ctx \<Rightarrow> probe_lowering \<Rightarrow> lowering" where
  "lower_member t ctx pl p x =
     (case match_member_sigil (ps_ident p) of
        Some b \<Rightarrow> Inr (builtin_to_lua b, x)
      | None \<Rightarrow>
          (case resolve (ps_ident p) ctx of
             ProbeValue key \<Rightarrow>
               (let y = record_probe key x in
                if pl = LiteralSigil then Inr (literal (span_text t p), y)
                else resolved_to_lua (ProbeValue key) (ps_ident p) y)
           | RecipeMember name \<Rightarrow>
               Inr ((''cook.'' @ dep_output_member_name @ ''('' @ [dquote] @ escape_double_quoted name @ [dquote]
       @ '', cook.'' @ member_to_string_name @ ''(item))''), x)
           | r \<Rightarrow> resolved_to_lua r (ps_ident p) x))"

definition expand_member_fanout_template :: "str \<Rightarrow> resolve_ctx \<Rightarrow> expansion \<Rightarrow> probe_lowering
    \<Rightarrow> resolve_error + str \<times> expansion" where
  "expand_member_fanout_template t ctx x pl = join_spans t (lower_member t ctx pl) x"

definition lower_chore :: "str \<Rightarrow> resolve_ctx \<Rightarrow> str set \<Rightarrow> probe_lowering \<Rightarrow> lowering" where
  "lower_chore t ctx params pl p x =
     (if ps_ident p \<in> params then
        (let qctx = tag_of (quote_context (take (ps_start p) t)); n = escape_double_quoted (ps_ident p) in
         Inr ((''cook.'' @ quote_param_name @ ''('' @ cook_params_local @ ''['' @ [dquote] @ n @ [dquote] @ ''], ''
       @ [dquote] @ n @ [dquote] @ '', '' @ [dquote] @ qctx @ [dquote] @ '')''), x))
      else
        (case resolve (ps_ident p) ctx of
           ProbeValue key \<Rightarrow>
             if pl = LiteralSigil then Inr (literal (span_text t p), x)
             else resolved_to_lua (ProbeValue key) (ps_ident p) x
         | r \<Rightarrow> resolved_to_lua r (ps_ident p) x))"

definition expand_sigil_template_with_chore_params :: "str \<Rightarrow> resolve_ctx \<Rightarrow> expansion \<Rightarrow> str set option
    \<Rightarrow> probe_lowering \<Rightarrow> resolve_error + str \<times> expansion" where
  "expand_sigil_template_with_chore_params t ctx x chore_params pl =
     join_spans t (lower_chore t ctx (case chore_params of Some ps \<Rightarrow> ps | None \<Rightarrow> {}) pl) x"

definition expand_sigil_template :: "str \<Rightarrow> resolve_ctx \<Rightarrow> expansion \<Rightarrow> resolve_error + str \<times> expansion" where
  "expand_sigil_template t ctx x = expand_sigil_template_with_chore_params t ctx x None CacheGet"

section \<open>Output patterns\<close>

datatype output_pattern_kind = LiteralPattern | OwnInputAccessor | DepDriven str

definition first_dep_accessor_sigil :: "str \<Rightarrow> str set \<Rightarrow> str option" where
  "first_dep_accessor_sigil pattern names =
     (case List.map_filter (\<lambda>p. accessor_ref (ps_ident p) names) (scan pattern) of
        [] \<Rightarrow> None | (name, acc) # r \<Rightarrow> Some name)"

definition output_pattern_kind_with_recipes :: "str \<Rightarrow> str set \<Rightarrow> output_pattern_kind" where
  "output_pattern_kind_with_recipes pattern names =
     (if list_ex (\<lambda>p. is_own_input_ref (ps_ident p)) (scan pattern) then OwnInputAccessor
      else (case first_dep_accessor_sigil pattern names of Some name \<Rightarrow> DepDriven name | None \<Rightarrow> LiteralPattern))"

definition output_pattern_ident_to_lua :: "resolve_ctx \<Rightarrow> lowering" where
  "output_pattern_ident_to_lua ctx p x =
     (case accessor_ref (ps_ident p) (rc_recipes ctx) of
        Some (name, acc) \<Rightarrow> Inr ((''path.'' @ acc @ ''(_cook_in)''), x)
      | None \<Rightarrow> resolved_to_lua (resolve (ps_ident p) ctx) (ps_ident p) x)"

definition expand_output_pattern :: "str \<Rightarrow> str set \<Rightarrow> str set \<Rightarrow> expansion \<Rightarrow> resolve_error + str \<times> expansion" where
  "expand_output_pattern pattern names probes x =
     join_spans pattern
       (output_pattern_ident_to_lua
          \<lparr>rc_mode = OneToOne, rc_outputs = SingleOutput, rc_recipes = names, rc_probes = probes\<rparr>) x"

section \<open>Test bodies\<close>

datatype plate_test_mode = PerItem | Batched | OneUnit

datatype plate_test_mode_error = MixedModes str str

definition body_text_has_in_placeholder_sigil :: "str \<Rightarrow> bool" where
  "body_text_has_in_placeholder_sigil t = list_ex (\<lambda>p. is_own_input_ref (ps_ident p)) (scan t)"

fun detect_plate_test_mode :: "body \<Rightarrow> plate_test_mode_error + plate_test_mode" where
  "detect_plate_test_mode (ShellBlock ls) =
     Inr (if body_text_has_in_placeholder_sigil (join [newline] ls) then PerItem else OneUnit)"
| "detect_plate_test_mode (LuaBlock code) =
     (let has_input = free_identifier_occurs code ''input''; has_inputs = free_identifier_occurs code ''inputs'' in
      if has_input \<and> has_inputs then Inl (MixedModes ''input'' ''inputs'')
      else if has_input then Inr PerItem
      else if has_inputs then Inr Batched
      else Inr OneUnit)"

datatype placeholder_error =
    BadPlaceholder str plate_test_mode str
  | OutForbidden str
  | BareAccessor str
  | LibAccessor str str

definition token_of :: "str \<Rightarrow> str" where "token_of ident = (''$<'' @ ident @ ''>'')"

definition test_ctx :: "str set \<Rightarrow> str set \<Rightarrow> resolve_ctx" where
  "test_ctx names probes = \<lparr>rc_mode = OneToOne, rc_outputs = NoOutputs, rc_recipes = names, rc_probes = probes\<rparr>"

definition validate_sigil_token :: "str \<Rightarrow> plate_test_mode \<Rightarrow> str \<Rightarrow> str set \<Rightarrow> str set \<Rightarrow> placeholder_error + unit" where
  "validate_sigil_token ident mode line names probes =
     (if is_output_ref ident then Inl (OutForbidden (token_of ident))
      else if ident \<in> set accessors then Inl (BareAccessor ident)
      else
        (case resolve ident (test_ctx names probes) of
           RecipeValue name (Some acc) \<Rightarrow> Inl (LibAccessor name acc)
         | Builtin In \<Rightarrow> if mode \<noteq> PerItem then Inl (BadPlaceholder (token_of ident) mode line) else Inr ()
         | Builtin (InAccessor a) \<Rightarrow> if mode \<noteq> PerItem then Inl (BadPlaceholder (token_of ident) mode line) else Inr ()
         | _ \<Rightarrow> Inr ()))"

fun first_error :: "('a \<Rightarrow> 'e + unit) \<Rightarrow> 'a list \<Rightarrow> 'e + unit" where
  "first_error f [] = Inr ()"
| "first_error f (x # xs) = bind_res (f x) (\<lambda>_. first_error f xs)"

fun validate_plate_test_placeholders :: "body \<Rightarrow> plate_test_mode \<Rightarrow> str set \<Rightarrow> str set \<Rightarrow> placeholder_error + unit" where
  "validate_plate_test_placeholders (ShellBlock ls) mode names probes =
     first_error (\<lambda>line. first_error (\<lambda>p. validate_sigil_token (ps_ident p) mode line names probes) (scan line)) ls"
| "validate_plate_test_placeholders (LuaBlock code) mode names probes = Inr ()"

definition lower_test :: "str set \<Rightarrow> str set \<Rightarrow> str \<Rightarrow> lowering" where
  "lower_test names probes iter_var p x =
     (case resolve (ps_ident p) (test_ctx names probes) of
        Builtin In \<Rightarrow> Inr (iter_var, x)
      | Builtin (InAccessor acc) \<Rightarrow> Inr ((''path.'' @ acc @ ''('' @ iter_var @ '')''), x)
      | ProbeValue key \<Rightarrow> Inr (probe_subst_call (ps_ident p), record_probe key x)
      | r \<Rightarrow> resolved_to_lua r (ps_ident p) x)"

definition expand_plate_test_body :: "str \<Rightarrow> str set \<Rightarrow> str set \<Rightarrow> str \<Rightarrow> expansion \<Rightarrow> resolve_error + str \<times> expansion" where
  "expand_plate_test_body t names probes iter_var x = join_spans t (lower_test names probes iter_var) x"

section \<open>Modes of a cook step\<close>

datatype cook_mode = OneToOneCook | OneToMany | ManyToOneCook | DeclarationOnly | BlockStep | LuaExprOneToOne

fun cook_mode_to_iter_mode :: "cook_mode \<Rightarrow> iter_mode" where
  "cook_mode_to_iter_mode OneToOneCook = OneToOne"
| "cook_mode_to_iter_mode OneToMany = OneToOne"
| "cook_mode_to_iter_mode LuaExprOneToOne = OneToOne"
| "cook_mode_to_iter_mode ManyToOneCook = ManyToOne"
| "cook_mode_to_iter_mode BlockStep = ManyToOne"
| "cook_mode_to_iter_mode DeclarationOnly = OneShot"

definition count_to_output_shape :: "nat \<Rightarrow> output_shape" where
  "count_to_output_shape n = (if n = 0 then NoOutputs else if n = 1 then SingleOutput else MultiOutput n)"

section \<open>Placeholders of a cook step\<close>

text \<open>The texts of the resolver's errors.\<close>

fun show_mode :: "iter_mode \<Rightarrow> str" where
  "show_mode OneToOne = ''OneToOne''"
| "show_mode ManyToOne = ''ManyToOne''"
| "show_mode OneShot = ''OneShot''"

fun show_builtin :: "builtin_kind \<Rightarrow> str" where
  "show_builtin In = ''In''"
| "show_builtin (InAccessor a) = (''InAccessor('' @ [dquote] @ a @ [dquote] @ '')'')"
| "show_builtin Out = ''Out''"
| "show_builtin (OutAccessor a) = (''OutAccessor('' @ [dquote] @ a @ [dquote] @ '')'')"
| "show_builtin (OutIndexed n) = (''OutIndexed('' @ show_nat n @ '')'')"
| "show_builtin (OutIndexedAccessor n a) = (''OutIndexedAccessor('' @ show_nat n @ '', '' @ [dquote] @ a @ [dquote] @ '')'')"
| "show_builtin Item = ''Item''"
| "show_builtin (ItemField f) = (''ItemField('' @ [dquote] @ f @ [dquote] @ '')'')"

fun show_resolve_error :: "resolve_error \<Rightarrow> str" where
  "show_resolve_error (BuiltinWrongMode ident b mode) =
     (''placeholder $<'' @ ident @ ''>: '' @ [squote] @ show_builtin b @ [squote] @ '' is not valid in ''
       @ show_mode mode @ '' mode'')"
| "show_resolve_error (BuiltinWrongOutputCount ident b required actual) =
     (''placeholder $<'' @ ident @ ''>: '' @ [squote] @ show_builtin b @ [squote] @ '' requires ''
       @ required @ '' declared output(s); step declares '' @ show_nat actual)"
| "show_resolve_error (MalformedOutIndex ident) = (''placeholder $<'' @ ident @ ''>: malformed out_N (N must be '' @ [CHR 0xE2, CHR 0x89, CHR 0xA5]
       @ '' 1)'')"
| "show_resolve_error (RecipeMemberOutsideFanout ident) =
     (''placeholder $<'' @ ident
       @ ''>: a recipe-member ref `$<recipe[in]>` is only valid inside a bare-`gather` fan-out body'')"
| "show_resolve_error (RecipeMemberEmptyIndex ident name) =
     (''placeholder $<'' @ ident @ ''>: `$<'' @ name @ ''[]>` was respelled `$<'' @ name
       @ ''[in]>` in v1.0'')"
| "show_resolve_error (RecipeMemberBadIndex ident index) =
     (''placeholder $<'' @ ident @ ''>: invalid member index `['' @ index @ '']` ''
       @ [CHR 0xE2, CHR 0x80, CHR 0x94]
       @ '' the only valid index is the literal `[in]`; member-field joins are not part of v1.0'')"
| "show_resolve_error (RecipeMemberUnknownRecipe ident name) =
     (''placeholder $<'' @ ident @ ''>: `[in]` names a per-member recipe output, but no recipe named ''
       @ [squote] @ name @ [squote] @ '' is in scope'')"
| "show_resolve_error (RetiredEnvPrefix key) =
     (''placeholder $<env.'' @ key @ ''>: the `env.` prefix is retired '' @ [CHR 0xE2, CHR 0x80, CHR 0x94]
       @ '' a declared variable is `$<'' @ key @ ''>` (or `$<var.'' @ key
       @ ''>` to disambiguate from a recipe of the same name). For an ambient process variable use `$''
       @ key @ ''` in the step body, or declare and seal `probe host:'' @ key
       @ ''` with `lines { echo '' @ [dquote] @ ''$'' @ key @ [dquote]
       @ '' }` to make it a determinant.'')"
| "show_resolve_error (RetiredFilePrefix path) =
     (''placeholder $<file:'' @ path
       @ ''>: the `file:` prefix is retired (CS-0187). Declare `files NAME` with `'' @ [dquote]
       @ path @ [dquote]
       @ ''`, then seal `NAME` on the unit that reads it; this makes the file content a cache determinant, and the step body names the path directly.'')"

definition accessor_in_body :: "str \<Rightarrow> str set \<Rightarrow> str + unit" where
  "accessor_in_body ident names =
     (case accessor_ref ident names of
        Some (name, acc) \<Rightarrow>
          Inl (''$<'' @ name @ ''.'' @ acc @ ''> is rejected inside a cook-step body; use $<in.'' @ acc
       @ ''> if `'' @ name @ ''` is the driver, or reach for Lua otherwise'')
      | None \<Rightarrow> Inr ())"

definition validate_placeholders :: "str \<Rightarrow> cook_mode \<Rightarrow> nat \<Rightarrow> str set \<Rightarrow> str set \<Rightarrow> str + unit" where
  "validate_placeholders body_text mode count names probes =
     (let ctx = \<lparr>rc_mode = cook_mode_to_iter_mode mode, rc_outputs = count_to_output_shape count,
                 rc_recipes = names, rc_probes = probes\<rparr>
      in first_error (\<lambda>p.
           (case resolve (ps_ident p) ctx of
              ResolveFails e \<Rightarrow> Inl (show_resolve_error e)
            | _ \<Rightarrow> if starts_with ''file:'' (ps_ident p) then Inr () else accessor_in_body (ps_ident p) names))
           (scan body_text))"

end
