(* ===== verification/Step_Codegen.thy ===== *)
theory Step_Codegen
  imports Template
begin

text \<open>
  The Lua of the steps of a recipe and of the probes: \<open>cook-luagen/src/cook\_step.rs\<close>, \<open>test\_step.rs\<close>
  and \<open>probe.rs\<close>. Each function returns the text it appends. A step without a body has the mode
  \<open>DeclarationOnly\<close>, so the modes that need one meet a body; the parser gives every cook step an
  output, the first of which is \<open>first\_output\<close>.
\<close>

section \<open>Fields of a unit\<close>

definition probe_keys_to_lua_table :: "str list \<Rightarrow> str" where
  "probe_keys_to_lua_table keys =
     (if keys = [] then ''{}'' else ''{'' @ join '', '' (map literal keys) @ ''}'')"

definition lua_body_consulted_env_keys :: "str \<Rightarrow> str" where
  "lua_body_consulted_env_keys code = to_lua_table (ex_env (fold record_env (scan_var_reads code) no_expansion))"

definition format_gather_groups :: "nat \<Rightarrow> str" where
  "format_gather_groups n = ''{'' @ join '', '' (map (\<lambda>i. (''recipe.inputs['' @ show_nat i @ '']'')) [1..<n + 1]) @ ''}''"

definition record_field :: "bool \<Rightarrow> str" where
  "record_field r = (if r then '', record = true'' else [])"

definition disposition_field :: "disposition \<Rightarrow> str" where
  "disposition_field d =
     (let seal = sorted_list_of_set (dp_seal d) in
      (if seal \<noteq> [] then ('', seal = '' @ probe_keys_to_lua_table seal) else [])
      @ (case as_wire_str (dp_sharing d) of Some s \<Rightarrow> ('', sharing = '' @ [dquote] @ s @ [dquote]) | None \<Rightarrow> [])
      @ record_field (dp_record d))"

section \<open>The mode of a cook step\<close>

definition first_output :: "cook_step \<Rightarrow> output_pattern" where
  "first_output s = hd (ck_outputs s)"

definition cook_step_mode_with_names :: "cook_step \<Rightarrow> str set \<Rightarrow> cook_mode" where
  "cook_step_mode_with_names s names =
     (if ck_body s = None then DeclarationOnly
      else if list_ex is_lua_expr (ck_outputs s) then LuaExprOneToOne
      else if 1 < length (ck_outputs s) then
        (if list_ex (\<lambda>p. output_pattern_kind_with_recipes (pattern_text p) names \<noteq> LiteralPattern) (ck_outputs s)
         then OneToMany else BlockStep)
      else if output_pattern_kind_with_recipes (pattern_text (first_output s)) names = LiteralPattern then ManyToOneCook
      else OneToOneCook)"

section \<open>Cook steps\<close>

text \<open>The call that adds the unit, from its indentation, its inputs and its output field.\<close>

fun add_unit_line :: "str \<Rightarrow> str \<Rightarrow> str \<Rightarrow> cook_step \<Rightarrow> nat \<Rightarrow> use_statement list \<Rightarrow> nat \<Rightarrow> resolve_ctx \<Rightarrow> expansion
    \<Rightarrow> body \<Rightarrow> resolve_error + str" where
  "add_unit_line indent ins outp s line uses gather_len ctx x (ShellBlock ls) =
     bind_res (expand_command_template (shell_compose ls) ctx x) (\<lambda>(e, y).
       Inr (indent @ ''cook.add_unit({inputs = '' @ ins @ '', '' @ outp @ '', command = '' @ e @ '', probes = ''
       @ probe_keys_to_lua_table (ex_probes y) @ '', consulted_env_keys = ''
       @ to_lua_table (ex_env y) @ disposition_field (ck_disposition s) @ ''})'' @ [newline]))"
| "add_unit_line indent ins outp s line uses gather_len ctx x (LuaBlock code) =
     Inr (indent @ ''cook.add_unit({inputs = '' @ ins @ '', '' @ outp @ '', lua_code = ''
       @ wrap_lua_string (with_execute_prelude uses code) @ '', gather_groups = ''
       @ format_gather_groups gather_len @ '', consulted_env_keys = ''
       @ lua_body_consulted_env_keys code @ disposition_field (ck_disposition s) @ '', line = ''
       @ show_nat line @ ''})'' @ [newline])"

definition cook_step_ctx :: "iter_mode \<Rightarrow> output_shape \<Rightarrow> str set \<Rightarrow> str set \<Rightarrow> resolve_ctx" where
  "cook_step_ctx mode shape names probes =
     \<lparr>rc_mode = mode, rc_outputs = shape, rc_recipes = names, rc_probes = probes\<rparr>"

definition input_source :: "nat option \<Rightarrow> str list \<Rightarrow> str" where
  "input_source prev inputs =
     (case prev of Some k \<Rightarrow> (''_cook_outputs_'' @ show_nat k) | None \<Rightarrow> if inputs \<noteq> [] then ''inputs'' else ''{}'')"

text \<open>Where the loop of an iterating step takes its items from.\<close>

definition iter_source :: "output_pattern_kind \<Rightarrow> str \<Rightarrow> str" where
  "iter_source kind source =
     (case kind of DepDriven dep \<Rightarrow> door_call dep_output_list_name dep | _ \<Rightarrow> source)"

definition declaration_only :: "cook_step \<Rightarrow> nat \<Rightarrow> str" where
  "declaration_only s index =
     (''    _cook_outputs_'' @ show_nat index @ ''[1] = '' @ [dquote]
       @ escape_double_quoted (pattern_text (first_output s)) @ [dquote, newline])"

definition lua_expr_step :: "cook_step \<Rightarrow> str \<Rightarrow> nat \<Rightarrow> str \<Rightarrow> str" where
  "lua_expr_step s source index unit_line =
     (''    for _, _cook_in in ipairs('' @ source @ '') do'' @ [newline] @ ''        local _cook_out''
       @ [newline] @ ''        do'' @ [newline] @ ''            local input = _cook_in'' @ [newline]
       @ ''            _cook_out = ('' @ pattern_text (first_output s) @ '')'' @ [newline]
       @ ''        end'' @ [newline] @ ''        if type(_cook_out) ~= '' @ [dquote] @ ''string''
       @ [dquote] @ '' or _cook_out == '' @ [dquote, dquote] @ '' then'' @ [newline]
       @ ''            error('' @ [dquote]
       @ ''cook (LUA_EXPR) returned non-string or empty value for input '' @ [dquote]
       @ '' .. tostring(_cook_in), 2)'' @ [newline] @ ''        end'' @ [newline] @ unit_line
       @ ''        table.insert(_cook_outputs_'' @ show_nat index @ '', _cook_out)'' @ [newline]
       @ ''    end'' @ [newline])"

definition one_to_one_step :: "str \<Rightarrow> str \<Rightarrow> nat \<Rightarrow> str \<Rightarrow> str" where
  "one_to_one_step source out_expr index unit_line =
     (''    for _, _cook_in in ipairs('' @ source @ '') do'' @ [newline] @ ''        local _cook_out = ''
       @ out_expr @ [newline] @ unit_line @ ''        table.insert(_cook_outputs_'' @ show_nat index
       @ '', _cook_out)'' @ [newline] @ ''    end'' @ [newline])"

definition many_to_one_step :: "str \<Rightarrow> str \<Rightarrow> nat \<Rightarrow> str \<Rightarrow> str" where
  "many_to_one_step source out_expr index unit_line =
     (''    local _cook_in = table.concat('' @ source @ '', '' @ [dquote] @ '' '' @ [dquote] @ '')''
       @ [newline] @ ''    local _cook_out = '' @ out_expr @ [newline] @ unit_line
       @ ''    table.insert(_cook_outputs_'' @ show_nat index @ '', _cook_out)'' @ [newline])"

definition outs_block :: "str list \<Rightarrow> str" where
  "outs_block exprs = (''        local _cook_outs = {'' @ [newline]
       @ concat (map (\<lambda>e. ''            '' @ e @ '','' @ [newline]) exprs) @ ''        };''
       @ [newline])"

definition one_to_many_step :: "str \<Rightarrow> str list \<Rightarrow> nat \<Rightarrow> str \<Rightarrow> str" where
  "one_to_many_step source out_exprs index unit_line =
     (''    for _, _cook_in in ipairs('' @ source @ '') do'' @ [newline] @ outs_block out_exprs
       @ unit_line @ ''        table.insert(_cook_outputs_'' @ show_nat index @ '', _cook_outs[1])''
       @ [newline] @ ''    end'' @ [newline])"

definition block_step :: "cook_step \<Rightarrow> str \<Rightarrow> nat \<Rightarrow> str \<Rightarrow> str" where
  "block_step s source index unit_line =
     (''    local _cook_outs = {'' @ join '', '' (map (literal \<circ> pattern_text) (ck_outputs s))
       @ ''};'' @ [newline] @ ''    local _cook_ins = '' @ source @ '';'' @ [newline]
       @ ''    local _cook_in = table.concat('' @ source @ '', '' @ [dquote] @ '' '' @ [dquote]
       @ '');'' @ [newline] @ unit_line)
     @ concat (map (\<lambda>i. (''    table.insert(_cook_outputs_'' @ show_nat index @ '', _cook_outs['' @ show_nat (i + 1) @ ''])''
       @ [newline]))
         [0..<length (ck_outputs s)])"

text \<open>Expanding one pattern after another, what they collect added up.\<close>

fun expand_each :: "(str \<Rightarrow> expansion \<Rightarrow> resolve_error + str \<times> expansion) \<Rightarrow> str list \<Rightarrow> expansion
    \<Rightarrow> resolve_error + str list \<times> expansion" where
  "expand_each f [] x = Inr ([], x)"
| "expand_each f (p # ps) x =
     bind_res (f p x) (\<lambda>(e, y). bind_res (expand_each f ps y) (\<lambda>(es, z). Inr (e # es, z)))"

definition generate_cook_step :: "cook_step \<Rightarrow> nat \<Rightarrow> use_statement list \<Rightarrow> nat \<Rightarrow> nat option \<Rightarrow> str list \<Rightarrow> str set
    \<Rightarrow> str set \<Rightarrow> resolve_error + str" where
  "generate_cook_step s line uses index prev_cook_index inputs names probes =
     (let mode = cook_step_mode_with_names s names;
          iter = cook_mode_to_iter_mode mode;
          n = length (ck_outputs s);
          source = input_source prev_cook_index inputs;
          text1 = pattern_text (first_output s);
          kind = (if is_lua_expr (first_output s) then LiteralPattern else output_pattern_kind_with_recipes text1 names);
          ctx = cook_step_ctx iter (count_to_output_shape n) names probes;
          multi = cook_step_ctx iter (MultiOutput n) names probes
      in case ck_body s of
           None \<Rightarrow> Inr (declaration_only s index)
         | Some b \<Rightarrow>
             (case mode of
                DeclarationOnly \<Rightarrow> Inr (declaration_only s index)
              | LuaExprOneToOne \<Rightarrow>
                  bind_res (add_unit_line ''        '' ''{_cook_in}'' ''output = _cook_out'' s line uses (length inputs) ctx
                      no_expansion b) (\<lambda>u. Inr (lua_expr_step s source index u))
              | OneToOneCook \<Rightarrow>
                  bind_res (expand_output_pattern text1 names probes no_expansion) (\<lambda>(e, x).
                  bind_res (add_unit_line ''        '' ''{_cook_in}'' ''output = _cook_out'' s line uses (length inputs) ctx x b)
                    (\<lambda>u. Inr (one_to_one_step (iter_source kind source) e index u)))
              | ManyToOneCook \<Rightarrow>
                  bind_res (expand_output_pattern text1 names probes no_expansion) (\<lambda>(e, x).
                  bind_res (add_unit_line ''    '' source ''output = _cook_out'' s line uses (length inputs) ctx x b)
                    (\<lambda>u. Inr (many_to_one_step source e index u)))
              | OneToMany \<Rightarrow>
                  bind_res (expand_each (\<lambda>p. expand_output_pattern p names probes) (map pattern_text (ck_outputs s)) no_expansion)
                    (\<lambda>(es, x).
                  bind_res (add_unit_line ''        '' ''{_cook_in}'' ''outputs = _cook_outs'' s line uses (length inputs) multi x b)
                    (\<lambda>u. Inr (one_to_many_step (iter_source kind source) es index u)))
              | BlockStep \<Rightarrow>
                  bind_res (add_unit_line ''    '' ''_cook_ins'' ''outputs = _cook_outs'' s line uses (length inputs) multi
                      no_expansion b) (\<lambda>u. Inr (block_step s source index u))))"

section \<open>Cook steps over members\<close>

definition member_is_path :: "member_source_step \<Rightarrow> bool" where
  "member_is_path m = (case ms_source m of RecipeRefSource r \<Rightarrow> True | _ \<Rightarrow> False)"

text \<open>The line before the loop that resolves trailing globs, and the inputs of a member's unit.\<close>

definition member_inputs :: "member_source_step \<Rightarrow> str \<times> str" where
  "member_inputs m =
     (if member_is_path m then ([], ''inputs = {cook.member_to_string(item)}'')
      else if ms_extra_gather m = [] then ([], ''inputs = {}'')
      else ((''    local _cook_member_inputs = cook.resolve_gather({''
       @ join '', '' (map literal (ms_extra_gather m)) @ ''}, {})'' @ [newline]),
            ''inputs = _cook_member_inputs''))"

fun member_unit_line :: "str \<Rightarrow> str \<Rightarrow> cook_step \<Rightarrow> nat \<Rightarrow> use_statement list \<Rightarrow> resolve_ctx \<Rightarrow> expansion \<Rightarrow> body option
    \<Rightarrow> resolve_error + str" where
  "member_unit_line inputs_field out_field s line uses ctx x (Some (ShellBlock ls)) =
     bind_res (expand_member_fanout_template (shell_compose ls) ctx (x\<lparr>ex_probes := []\<rparr>) LiteralSigil) (\<lambda>(e, y).
       Inr (''        cook.add_unit({'' @ inputs_field @ '', '' @ out_field @ '', command = '' @ e
       @ '', probes = '' @ probe_keys_to_lua_table (ex_probes y) @ '', consulted_env_keys = ''
       @ to_lua_table (ex_env y) @ '', member = cook.member_to_string(item)''
       @ disposition_field (ck_disposition s) @ ''})'' @ [newline]))"
| "member_unit_line inputs_field out_field s line uses ctx x (Some (LuaBlock code)) =
     Inr (''        cook.add_unit({'' @ inputs_field @ '', '' @ out_field @ '', lua_code = ''
       @ wrap_lua_string (with_execute_prelude uses code) @ '', consulted_env_keys = ''
       @ lua_body_consulted_env_keys code @ '', member = cook.member_to_string(item)''
       @ disposition_field (ck_disposition s) @ '', line = '' @ show_nat line @ ''})'' @ [newline])"
| "member_unit_line inputs_field out_field s line uses ctx x None =
     Inr (''        cook.add_unit({'' @ inputs_field @ '', '' @ out_field
       @ '', member = cook.member_to_string(item)'' @ disposition_field (ck_disposition s) @ ''})''
       @ [newline])"

definition generate_member_fanout_cook_step :: "cook_step \<Rightarrow> nat \<Rightarrow> use_statement list \<Rightarrow> nat \<Rightarrow> str set \<Rightarrow> str set
    \<Rightarrow> member_source_step \<Rightarrow> resolve_error + str" where
  "generate_member_fanout_cook_step s line uses index names probes m =
     (let ctx = cook_step_ctx OneShot (count_to_output_shape (length (ck_outputs s))) names probes;
          (glob_line, inputs_field) = member_inputs m
      in bind_res (expand_each (\<lambda>p x. expand_member_fanout_template p ctx x CacheGet) (map pattern_text (ck_outputs s)) no_expansion)
           (\<lambda>(es, x).
         (let multi = 1 < length es; out_field = (if multi then ''outputs = _cook_outs'' else ''output = _cook_out'')
          in bind_res (member_unit_line inputs_field out_field s line uses ctx x (ck_body s)) (\<lambda>u.
               Inr (glob_line @ (''    for _, item in ipairs(_items) do'' @ [newline])
                 @ (if multi then outs_block es else (''        local _cook_out = '' @ hd es @ [newline])) @ u
                 @ (''        table.insert(_cook_outputs_'' @ show_nat index @ '', '')
                 @ (if multi then ''_cook_outs[1]'' else ''_cook_out'') @ ('')'' @ [newline] @ ''    end'' @ [newline]))))))"

section \<open>Test steps\<close>

datatype test_codegen_error =
    TestMode nat plate_test_mode_error
  | TestPlaceholder nat placeholder_error
  | TestEmptySource nat
  | ProbeRefInTestCommand nat "str list"
  | TestSigil nat resolve_error

definition map_error :: "('e \<Rightarrow> 'f) \<Rightarrow> 'e + 'a \<Rightarrow> 'f + 'a" where
  "map_error f r = (case r of Inl e \<Rightarrow> Inl (f e) | Inr v \<Rightarrow> Inr v)"

definition reject_probe_refs_in_command :: "nat \<Rightarrow> str list \<Rightarrow> test_codegen_error + unit" where
  "reject_probe_refs_in_command line keys = (if keys = [] then Inr () else Inl (ProbeRefInTestCommand line keys))"

definition seal_field :: "str set \<Rightarrow> str" where
  "seal_field seal =
     (if seal = {} then [] else (''seal = '' @ probe_keys_to_lua_table (sorted_list_of_set seal) @ '', ''))"

definition test_source :: "nat \<Rightarrow> str" where "test_source line = (''_test_src'' @ show_nat line)"

text \<open>The command of a test, its placeholders replaced and its probe references refused.\<close>

definition test_command :: "nat \<Rightarrow> str list \<Rightarrow> str set \<Rightarrow> str set \<Rightarrow> str \<Rightarrow> test_codegen_error + str \<times> expansion" where
  "test_command line ls names probes iter_var =
     bind_res (map_error (TestSigil line) (expand_plate_test_body (shell_compose ls) names probes iter_var no_expansion))
       (\<lambda>(e, y). bind_res (reject_probe_refs_in_command line (ex_probes y)) (\<lambda>_. Inr (e, y)))"

fun test_units :: "body \<Rightarrow> plate_test_mode \<Rightarrow> nat \<Rightarrow> use_statement list \<Rightarrow> str \<Rightarrow> str \<Rightarrow> str \<Rightarrow> str set \<Rightarrow> str set
    \<Rightarrow> test_codegen_error + str" where
  "test_units (ShellBlock ls) mode line uses source inputs_field seal names probes =
     (if mode = PerItem then
        bind_res (test_command line ls names probes ''_test_in'') (\<lambda>(e, y).
          Inr (''    for _, _test_in in ipairs('' @ source @ '') do'' @ [newline]
       @ ''        cook.add_unit({step_kind = '' @ [dquote] @ ''test'' @ [dquote] @ '', command = ''
       @ e @ '', '' @ inputs_field @ seal @ ''line = '' @ show_nat line
       @ '', member = _test_in, consulted_env_keys = '' @ to_lua_table (ex_env y) @ ''})''
       @ [newline] @ ''    end'' @ [newline]))
      else
        bind_res (test_command line ls names probes [dquote, dquote]) (\<lambda>(e, y).
          Inr (''    cook.add_unit({step_kind = '' @ [dquote] @ ''test'' @ [dquote] @ '', command = '' @ e @ '', ''
       @ inputs_field @ seal @ ''line = '' @ show_nat line @ '', consulted_env_keys = ''
       @ to_lua_table (ex_env y) @ ''})'' @ [newline])))"
| "test_units (LuaBlock code) mode line uses source inputs_field seal names probes =
     (let chunk = lua_chunk_literal (with_execute_prelude uses code) in
      Inr (case mode of
             PerItem \<Rightarrow> (''    for _, _test_in in ipairs('' @ source @ '') do'' @ [newline]
       @ ''        cook.add_unit({step_kind = '' @ [dquote] @ ''test'' @ [dquote]
       @ '', lua_code = ('' @ [dquote] @ ''local input = '' @ [dquote] @ '' .. string.format(''
       @ [dquote] @ ''%q'' @ [dquote] @ '', _test_in) .. '' @ [dquote, backslash] @ ''n'' @ [dquote]
       @ '') .. '' @ chunk @ '', '' @ inputs_field @ seal @ ''line = '' @ show_nat line
       @ '', member = _test_in, consulted_env_keys = '' @ [dquote] @ ''*'' @ [dquote] @ ''})''
       @ [newline] @ ''    end'' @ [newline])
           | Batched \<Rightarrow> (''    cook.add_unit({step_kind = '' @ [dquote] @ ''test'' @ [dquote] @ '', lua_code = (function()''
       @ [newline] @ ''        local _h = {'' @ [dquote] @ ''local inputs = {'' @ [dquote] @ ''}''
       @ [newline] @ ''        for _i, _v in ipairs('' @ source
       @ '') do if _i > 1 then _h[#_h+1] = '' @ [dquote] @ '', '' @ [dquote]
       @ '' end _h[#_h+1] = string.format('' @ [dquote] @ ''%q'' @ [dquote] @ '', _v) end''
       @ [newline] @ ''        _h[#_h+1] = '' @ [dquote] @ ''}'' @ [backslash] @ ''n''
       @ [dquote, newline] @ ''        return table.concat(_h) .. '' @ chunk @ [newline]
       @ ''    end)(), '' @ inputs_field @ seal @ ''line = '' @ show_nat line
       @ '', consulted_env_keys = '' @ [dquote] @ ''*'' @ [dquote] @ ''})'' @ [newline])
           | OneUnit \<Rightarrow> (''    cook.add_unit({step_kind = '' @ [dquote] @ ''test'' @ [dquote] @ '', lua_code = '' @ chunk
       @ '', '' @ inputs_field @ seal @ ''line = '' @ show_nat line @ '', consulted_env_keys = ''
       @ [dquote] @ ''*'' @ [dquote] @ ''})'' @ [newline])))"

definition generate_test_step :: "test_step \<Rightarrow> nat \<Rightarrow> use_statement list \<Rightarrow> nat option \<Rightarrow> bool \<Rightarrow> str set \<Rightarrow> str set
    \<Rightarrow> test_codegen_error + str" where
  "generate_test_step s line uses last_cook_index has_gather names probes =
     bind_res (map_error (TestMode line) (detect_plate_test_mode (ts_body s))) (\<lambda>mode.
     bind_res (map_error (TestPlaceholder line) (validate_plate_test_placeholders (ts_body s) mode names probes)) (\<lambda>_.
       (if mode \<noteq> OneUnit \<and> last_cook_index = None \<and> \<not> has_gather then Inl (TestEmptySource line)
        else
          (let src = test_source line;
               inputs_field = (if mode = PerItem then ''inputs = {_test_in}, '' else (''inputs = '' @ src @ '', ''))
           in bind_res (test_units (ts_body s) mode line uses src inputs_field (seal_field (ts_seal s)) names probes) (\<lambda>u.
                Inr ((''    local '' @ src @ '' = cook.prior_outputs()'' @ [newline])
                  @ (if has_gather then (''    if #'' @ src @ '' == 0 then '' @ src @ '' = inputs end'' @ [newline]) else [])
                  @ u
                  @ (if last_cook_index \<noteq> None \<or> has_gather then (''    cook.passthrough('' @ src @ '')'' @ [newline]) else [])))))))"

definition member_source_lines :: "member_source_step \<Rightarrow> str" where
  "member_source_lines m =
     (''        local _test_src = cook.prior_outputs(cook.member_to_string(item))'' @ [newline])
     @ (if member_is_path m then (''        if #_test_src == 0 then _test_src = {cook.member_to_string(item)} end'' @ [newline]) else [])"

definition member_test_unit :: "test_step \<Rightarrow> nat \<Rightarrow> use_statement list \<Rightarrow> str set \<Rightarrow> str set \<Rightarrow> test_codegen_error + str" where
  "member_test_unit s line uses names probes =
     (let seal = seal_field (ts_seal s) in
      case ts_body s of
        ShellBlock ls \<Rightarrow>
          bind_res (map_error (TestSigil line)
              (expand_member_fanout_template (shell_compose ls) (cook_step_ctx OneShot NoOutputs names probes) no_expansion CacheGet))
            (\<lambda>(e, y). bind_res (reject_probe_refs_in_command line (ex_probes y)) (\<lambda>_.
              Inr (''        cook.add_unit({step_kind = '' @ [dquote] @ ''test'' @ [dquote] @ '', command = '' @ e
       @ '', inputs = _test_src, '' @ seal @ ''line = '' @ show_nat line
       @ '', consulted_env_keys = '' @ to_lua_table (ex_env y)
       @ '', member = cook.member_to_string(item)})'' @ [newline])))
      | LuaBlock code \<Rightarrow>
          Inr (''        cook.add_unit({step_kind = '' @ [dquote] @ ''test'' @ [dquote] @ '', lua_code = ''
       @ lua_chunk_literal (with_execute_prelude uses code) @ '', inputs = _test_src, '' @ seal
       @ ''line = '' @ show_nat line @ '', consulted_env_keys = '' @ [dquote] @ ''*'' @ [dquote]
       @ '', member = cook.member_to_string(item)})'' @ [newline]))"

definition generate_member_fanout_test_step :: "test_step \<Rightarrow> nat \<Rightarrow> use_statement list \<Rightarrow> str set \<Rightarrow> str set
    \<Rightarrow> member_source_step \<Rightarrow> test_codegen_error + str" where
  "generate_member_fanout_test_step s line uses names probes m =
     bind_res (member_test_unit s line uses names probes) (\<lambda>u.
       Inr ((''    for _, item in ipairs(_items) do'' @ [newline]) @ member_source_lines m @ u @ (''    end'' @ [newline])))"

section \<open>Probes\<close>

definition files_manifest_produce :: str where "files_manifest_produce = ''@files-manifest''"
definition tools_identity_produce :: str where "tools_identity_produce = ''@tools-identity''"
definition inline_seal_probe_name :: str where "inline_seal_probe_name = ''__inline_seal_probe''"

definition quoted_list :: "str list \<Rightarrow> str" where
  "quoted_list names = join '', '' (map literal names)"

fun produce_lua :: "probe_produce \<Rightarrow> use_statement list \<Rightarrow> str" where
  "produce_lua (ProduceLua code) uses = with_execute_prelude uses code"
| "produce_lua (ProduceShell commands typing) uses =
     (let sh = (''cook.sh('' @ wrap_lua_string (join [newline] commands) @ '')'') in
      case typing of
        StringTyped \<Rightarrow> (''return ('' @ sh @ '':gsub('' @ [dquote, backslash] @ ''n$'' @ [dquote] @ '', '' @ [dquote, dquote]
       @ ''))'')
      | JsonTyped \<Rightarrow> (''return cook.json_decode('' @ sh @ '')'')
      | LinesTyped \<Rightarrow> (''local _o = '' @ sh @ [newline] @ ''local _r = {}'' @ [newline] @ ''for _l in _o:gmatch(''
       @ [dquote] @ ''[^'' @ [backslash] @ ''n]+'' @ [dquote] @ '') do _r[#_r + 1] = _l end''
       @ [newline] @ ''return _r''))"
| "produce_lua (ProduceTools names) uses = tools_identity_produce"
| "produce_lua (ProduceFiles gs excludes) uses = files_manifest_produce"

definition seal_prefix :: str where "seal_prefix = ''@seal:''"

function trim_seal_prefixes :: "str \<Rightarrow> str" where
  "trim_seal_prefixes s = (case strip_prefix seal_prefix s of Some r \<Rightarrow> trim_seal_prefixes r | None \<Rightarrow> s)"
  by auto
termination
  by (relation "measure length") (auto simp: strip_prefix_iff seal_prefix_def)

declare trim_seal_prefixes.simps [simp del]

text \<open>The local an inline file determinant is collected in, before its probe.\<close>

definition inline_files :: "probe_decl \<Rightarrow> (str \<times> str list \<times> str list) option" where
  "inline_files p =
     (case pb_produce p of
        ProduceFiles gs excludes \<Rightarrow>
          if starts_with seal_prefix (pb_name p)
          then Some ((''_cook_inline_seal_'' @ trim_seal_prefixes (pb_name p)), gs, excludes) else None
      | _ \<Rightarrow> None)"

definition inline_files_lines :: "probe_decl \<Rightarrow> str" where
  "inline_files_lines p =
     (case inline_files p of
        None \<Rightarrow> []
      | Some (loc, gs, excludes) \<Rightarrow>
          (''local '' @ loc @ '' = cook.resolve_gather({'' @ quoted_list gs @ ''}, {'' @ quoted_list excludes
       @ ''})'' @ [newline] @ ''if #'' @ loc @ '' == 0 then error('' @ [dquote]
       @ ''seal: quoted file determinant on line '' @ show_nat (pb_line p) @ '' matched no files''
       @ [dquote] @ '', 0) end'' @ [newline]))"

definition produce_inputs :: "probe_decl \<Rightarrow> str" where
  "produce_inputs p =
     (case pb_produce p of
        ProduceTools names \<Rightarrow> (''    tools = {'' @ quoted_list names @ ''},'' @ [newline])
      | ProduceFiles gs excludes \<Rightarrow>
          (case inline_files p of
             Some (loc, g) \<Rightarrow> (''    files = '' @ loc @ '','' @ [newline])
           | None \<Rightarrow> (''    files = cook.resolve_gather({'' @ quoted_list gs @ ''}, {'' @ quoted_list excludes @ ''}),''
       @ [newline]))
      | _ \<Rightarrow> [])"

definition emit_probe :: "probe_decl \<Rightarrow> use_statement list \<Rightarrow> str" where
  "emit_probe p uses =
     inline_files_lines p
     @ (if inline_files p \<noteq> None then ''cook.'' @ inline_seal_probe_name else ''cook.probe'')
     @ (''('' @ [dquote] @ escape_double_quoted (pb_name p) @ [dquote] @ '', {'' @ [newline]
       @ ''  inputs = {'' @ [newline])
     @ (if pb_inputs p \<noteq> [] \<or> pb_excludes p \<noteq> []
        then (''    files = cook.resolve_gather({'' @ quoted_list (pb_inputs p) @ ''}, {''
       @ quoted_list (pb_excludes p) @ ''}),'' @ [newline]) else [])
     @ (if pb_deps p \<noteq> [] then (''    requires = {'' @ quoted_list (pb_deps p) @ ''},'' @ [newline]) else [])
     @ produce_inputs p
     @ (''  },'' @ [newline])
     @ (if pb_covers p \<noteq> [] then (''  covers = { '' @ quoted_list (pb_covers p) @ '' },'' @ [newline]) else [])
     @ (''  produce = '' @ wrap_lua_string (produce_lua (pb_produce p) uses) @ '','' @ [newline] @ ''})''
       @ [newline, newline])"

end
