(* ===== verification/Cookfile_Codegen.thy ===== *)
theory Cookfile_Codegen
  imports Step_Codegen Brace_Scan "HOL-Library.Product_Lexorder" "HOL-Library.Option_ord"
begin

text \<open>
  A Cookfile as Lua: \<open>cook-luagen/src/recipe.rs\<close>, the checks before the generation and the generation of
  recipes, chores, configuration and register blocks, with the map from generated lines to lines of
  the Cookfile.
\<close>

section \<open>Errors\<close>

datatype codegen_error =
    GatherUsage str str nat
  | GatherRecipeSource str str str nat
  | AccessorWithoutDriver str str str str nat
  | PlaceholderViolation str str nat
  | PlateTest test_codegen_error
  | SigilResolve str nat resolve_error

section \<open>Looking at steps\<close>

definition find_map :: "('a \<Rightarrow> 'b option) \<Rightarrow> 'a list \<Rightarrow> 'b option" where
  "find_map f xs = (case List.map_filter f xs of [] \<Rightarrow> None | y # ys \<Rightarrow> Some y)"

fun gather_marker :: "step \<Rightarrow> nat option" where
  "gather_marker (GatherStep line) = Some line"
| "gather_marker _ = None"

fun member_marker :: "step \<Rightarrow> (member_source_step \<times> nat) option" where
  "member_marker (MemberStep m line) = Some (m, line)"
| "member_marker _ = None"

fun cook_marker :: "step \<Rightarrow> cook_step option" where
  "cook_marker (CookLine s line) = Some s"
| "cook_marker _ = None"

fun step_line :: "step \<Rightarrow> nat" where
  "step_line (LuaBlockStep code line) = line + 1"
| "step_line (ShellStep command line interactive) = line"
| "step_line (LuaStep code line) = line"
| "step_line (InlineLuaStep code line) = line"
| "step_line (CookLine s line) = line"
| "step_line (TestLine s line) = line"
| "step_line (MemberStep m line) = line"
| "step_line (GatherStep line) = 0"

definition shell_names_input :: "str \<Rightarrow> bool" where
  "shell_names_input t \<longleftrightarrow> list_ex (\<lambda>p. is_own_input_ref (ps_ident p)) (scan t)"

fun body_names_input :: "body \<Rightarrow> bool" where
  "body_names_input (ShellBlock ls) \<longleftrightarrow> list_ex shell_names_input ls"
| "body_names_input (LuaBlock code) \<longleftrightarrow>
     free_identifier_occurs code ''input'' \<or> free_identifier_occurs code ''inputs''"

fun step_names_input :: "step \<Rightarrow> bool" where
  "step_names_input (CookLine s line) \<longleftrightarrow>
     list_ex (\<lambda>p. \<not> is_lua_expr p \<and> shell_names_input (pattern_text p)) (ck_outputs s)
     \<or> (case ck_body s of Some b \<Rightarrow> body_names_input b | None \<Rightarrow> False)"
| "step_names_input (TestLine s line) \<longleftrightarrow> body_names_input (ts_body s)"
| "step_names_input _ \<longleftrightarrow> False"

section \<open>Use of gather\<close>

definition names_files_declaration :: "cookfile \<Rightarrow> member_source_step \<Rightarrow> bool" where
  "names_files_declaration cf m =
     (case ms_source m of
        GatherKeySource key \<Rightarrow>
          list_ex (\<lambda>p. pb_name p = key \<and> (case pb_produce p of ProduceFiles gs es \<Rightarrow> True | _ \<Rightarrow> False)) (cf_probes cf)
      | _ \<Rightarrow> False)"

fun has_unsafe_whole_member_ref :: "body \<Rightarrow> bool" where
  "has_unsafe_whole_member_ref (ShellBlock ls) \<longleftrightarrow>
     list_ex (\<lambda>(ident, ctx). ident = ''in'' \<and> ctx \<noteq> QSingle) (shell_placeholder_contexts ls)"
| "has_unsafe_whole_member_ref (LuaBlock code) \<longleftrightarrow> False"

fun unsafe_member_step :: "step \<Rightarrow> nat option" where
  "unsafe_member_step (CookLine s line) =
     (case ck_body s of Some b \<Rightarrow> if has_unsafe_whole_member_ref b then Some line else None | None \<Rightarrow> None)"
| "unsafe_member_step (TestLine s line) = (if has_unsafe_whole_member_ref (ts_body s) then Some line else None)"
| "unsafe_member_step _ = None"

fun dep_driver :: "step \<Rightarrow> str set \<Rightarrow> bool" where
  "dep_driver (CookLine s line) names \<longleftrightarrow>
     list_ex (\<lambda>p. case output_pattern_kind_with_recipes (pattern_text p) names of DepDriven d \<Rightarrow> True | _ \<Rightarrow> False) (ck_outputs s)"
| "dep_driver _ names \<longleftrightarrow> False"

fun unbacked_input_line :: "str set \<Rightarrow> bool \<Rightarrow> bool \<Rightarrow> step list \<Rightarrow> nat option" where
  "unbacked_input_line names has_member_driver preceding_cook [] = None"
| "unbacked_input_line names has_member_driver preceding_cook (s # r) =
     (if step_names_input s \<and> \<not> preceding_cook \<and> \<not> has_member_driver \<and> \<not> dep_driver s names then Some (step_line s)
      else unbacked_input_line names has_member_driver (preceding_cook \<or> cook_marker s \<noteq> None) r)"

definition unnamed_gather :: "recipe_decl \<Rightarrow> codegen_error + unit" where
  "unnamed_gather r =
     (case find_map gather_marker (recipe_decl.rd_steps r) of
        Some line \<Rightarrow>
          if \<not> list_ex step_names_input (recipe_decl.rd_steps r)
          then Inl (GatherUsage (rd_name r) ''the command never names the gathered files; seal them instead'' line)
          else Inr ()
      | None \<Rightarrow> Inr ())"

definition gather_source_ok :: "str set \<Rightarrow> recipe_decl \<Rightarrow> codegen_error + unit" where
  "gather_source_ok names r =
     (case find_map member_marker (recipe_decl.rd_steps r) of
        Some (m, line) \<Rightarrow>
          (case ms_source m of
             RecipeRefSource name \<Rightarrow>
               if name = rd_name r then
                 Inl (GatherRecipeSource (rd_name r) name ''a recipe cannot gather its own outputs'' line)
               else if name \<notin> names then
                 Inl (GatherRecipeSource (rd_name r) name
                   (if CHR ''.'' \<in> set name
                    then ''a qualified cross-Cookfile reference is not admitted as a gather source yet; the recipe resolves elsewhere, but this position does not take it''
                    else ''no such recipe is declared in this Cookfile'') line)
               else Inr ()
           | _ \<Rightarrow> Inr ())
      | None \<Rightarrow> Inr ())"

definition drives_data_members :: "cookfile \<Rightarrow> recipe_decl \<Rightarrow> bool" where
  "drives_data_members cf r =
     (case find_map member_marker (recipe_decl.rd_steps r) of
        Some (m, line) \<Rightarrow> \<not> names_files_declaration cf m \<and> \<not> member_is_path m
      | None \<Rightarrow> False)"

definition data_members_quoted :: "cookfile \<Rightarrow> recipe_decl \<Rightarrow> codegen_error + unit" where
  "data_members_quoted cf r =
     (case (if drives_data_members cf r then find_map unsafe_member_step (recipe_decl.rd_steps r) else None) of
        Some line \<Rightarrow>
          Inl (GatherUsage (rd_name r) ''$<in> in a data fan-out shell body must be enclosed in single quotes'' line)
      | None \<Rightarrow> Inr ())"

definition inputs_backed :: "str set \<Rightarrow> recipe_decl \<Rightarrow> codegen_error + unit" where
  "inputs_backed names r =
     (let ss = recipe_decl.rd_steps r in
      case unbacked_input_line names (find_map member_marker ss \<noteq> None) False ss of
        Some line \<Rightarrow>
          if find_map gather_marker ss = None \<and> rd_inputs r = []
          then Inl (GatherUsage (rd_name r) ''nothing gathers what this command references'' line) else Inr ()
      | None \<Rightarrow> Inr ())"

definition validate_gather_usage :: "cookfile \<Rightarrow> str set \<Rightarrow> codegen_error + unit" where
  "validate_gather_usage cf names =
     first_error (\<lambda>r.
       bind_res (unnamed_gather r) (\<lambda>_.
       bind_res (gather_source_ok names r) (\<lambda>_.
       bind_res (data_members_quoted cf r) (\<lambda>_. inputs_backed names r)))) (cf_recipes cf)"

section \<open>References to empty recipes\<close>

definition warn_empty_output_refs :: "cookfile \<Rightarrow> str set \<Rightarrow> str list" where
  "warn_empty_output_refs cf names =
     (let empty = rd_name ` set (filter (\<lambda>r. rd_inputs r = [] \<and> find_map cook_marker (recipe_decl.rd_steps r) = None) (cf_recipes cf))
      in concat (map (\<lambda>r.
           map (\<lambda>x. (''recipe '' @ [squote] @ rd_name r @ [squote] @ '' references '' @ [squote] @ fst x @ [squote]
       @ '' which has empty output''))
             (filter (\<lambda>x. fst x \<in> empty) (sorted_list_of_set (extract_dep_refs r names)))) (cf_recipes cf)))"

section \<open>Placement of accessors\<close>

definition drivers_match :: "output_pattern_kind \<Rightarrow> output_pattern_kind \<Rightarrow> bool" where
  "drivers_match a b \<longleftrightarrow> a = b"

text \<open>The first pattern, counted from \<open>i\<close>, whose driver is not that of the first.\<close>

fun incoherent_output :: "str set \<Rightarrow> output_pattern_kind \<Rightarrow> nat \<Rightarrow> output_pattern list \<Rightarrow> (nat \<times> str) option" where
  "incoherent_output names k i [] = None"
| "incoherent_output names k i (p # ps) =
     (if \<not> drivers_match k (output_pattern_kind_with_recipes (pattern_text p) names) then Some (i, pattern_text p)
      else incoherent_output names k (i + 1) ps)"

definition check_multi_output_coherence :: "cook_step \<Rightarrow> str set \<Rightarrow> str + unit" where
  "check_multi_output_coherence s names =
     (case ck_outputs s of
        p # q # ps \<Rightarrow>
          (case incoherent_output names (output_pattern_kind_with_recipes (pattern_text p) names) 2 (q # ps) of
             Some (i, t) \<Rightarrow>
               Inl (''cook step'' @ [squote] @ ''s output #1 ('' @ debug_str (pattern_text p) @ '') and output #''
       @ show_nat i @ '' ('' @ debug_str t
       @ '') declare different iteration drivers; all output patterns must share a driver'')
           | None \<Rightarrow> Inr ())
      | _ \<Rightarrow> Inr ())"

definition bare_accessor_error :: "str \<Rightarrow> str \<Rightarrow> nat \<Rightarrow> str set \<Rightarrow> codegen_error + unit" where
  "bare_accessor_error ident recipe line names =
     (if ident \<in> set accessors then
        Inl (PlaceholderViolation recipe
          (''bare $<'' @ ident @ ''> in output pattern is not supported; use $<in.'' @ ident @ ''> (or $<dep.''
       @ ident @ ''> for a dep-driven pattern)'') line)
      else if CHR ''.'' \<notin> set ident \<and> ident \<in> names then
        Inl (PlaceholderViolation recipe
          (''$<'' @ ident @ ''> (bare recipe reference) is not allowed in an output pattern; use $<'' @ ident
       @ ''.stem> (or another path accessor) for dep-driven iteration, or move the reference into the `using` body'') line)
      else Inr ())"

definition check_output_pattern_no_bare_accessors :: "str \<Rightarrow> str \<Rightarrow> nat \<Rightarrow> str set \<Rightarrow> codegen_error + unit" where
  "check_output_pattern_no_bare_accessors pattern recipe line names =
     first_error (\<lambda>p. bare_accessor_error (ps_ident p) recipe line names) (scan pattern)"

definition collect_drivers :: "output_pattern list \<Rightarrow> str set \<Rightarrow> str set" where
  "collect_drivers ps names =
     set (concat (map (\<lambda>p. if is_lua_expr p then []
       else List.map_filter (\<lambda>t. map_option fst (accessor_ref t names)) (extract_sigil_tokens (pattern_text p))) ps))"

definition driver_error :: "str set \<Rightarrow> str set \<Rightarrow> str \<Rightarrow> str \<Rightarrow> nat \<Rightarrow> str \<Rightarrow> codegen_error + unit" where
  "driver_error drivers names referrer surface line token =
     (case accessor_ref token names of
        Some (name, acc) \<Rightarrow>
          if name \<notin> drivers then Inl (AccessorWithoutDriver referrer name acc surface line) else Inr ()
      | None \<Rightarrow> Inr ())"

definition check_command :: "str \<Rightarrow> str set \<Rightarrow> str set \<Rightarrow> str \<Rightarrow> str \<Rightarrow> nat \<Rightarrow> codegen_error + unit" where
  "check_command command drivers names referrer surface line =
     first_error (driver_error drivers names referrer surface line) (extract_sigil_tokens command)"

definition check_body_line :: "cook_step \<Rightarrow> str \<Rightarrow> nat \<Rightarrow> str set \<Rightarrow> str set \<Rightarrow> str \<Rightarrow> codegen_error + unit" where
  "check_body_line s recipe line names probes shell_line =
     bind_res (map_error (\<lambda>msg. PlaceholderViolation recipe msg line)
         (validate_placeholders shell_line (cook_step_mode_with_names s names) (length (ck_outputs s)) names probes))
       (\<lambda>_. check_command shell_line (collect_drivers (ck_outputs s) names) names recipe ''shell-block'' line)"

fun check_step :: "str set \<Rightarrow> str set \<Rightarrow> str \<Rightarrow> step \<Rightarrow> codegen_error + unit" where
  "check_step names probes recipe (CookLine s line) =
     bind_res (first_error (\<lambda>p. if is_lua_expr p then Inr ()
         else check_output_pattern_no_bare_accessors (pattern_text p) recipe line names) (ck_outputs s)) (\<lambda>_.
     bind_res (map_error (\<lambda>msg. PlaceholderViolation recipe msg line) (check_multi_output_coherence s names)) (\<lambda>_.
       (case ck_body s of
          Some (ShellBlock ls) \<Rightarrow> first_error (check_body_line s recipe line names probes) ls
        | _ \<Rightarrow> Inr ())))"
| "check_step names probes recipe (TestLine s line) =
     (case ts_body s of
        ShellBlock ls \<Rightarrow> first_error (\<lambda>l. check_command l {} names recipe ''test command'' line) ls
      | LuaBlock code \<Rightarrow> Inr ())"
| "check_step names probes recipe (ShellStep command line interactive) =
     check_command command {} names recipe ''shell step'' line"
| "check_step names probes recipe _ = Inr ()"

definition probe_keys_of :: "cookfile \<Rightarrow> str set" where
  "probe_keys_of cf = pb_name ` set (cf_probes cf)"

definition validate_accessor_placement :: "cookfile \<Rightarrow> str set \<Rightarrow> codegen_error + unit" where
  "validate_accessor_placement cf names =
     first_error (\<lambda>r. first_error (check_step names (probe_keys_of cf) (rd_name r)) (recipe_decl.rd_steps r)) (cf_recipes cf)"

section \<open>Units of imperative steps\<close>

fun is_bundleable :: "step \<Rightarrow> bool" where
  "is_bundleable (ShellStep command line interactive) \<longleftrightarrow> \<not> interactive"
| "is_bundleable (LuaStep code line) \<longleftrightarrow> True"
| "is_bundleable (LuaBlockStep code line) \<longleftrightarrow> True"
| "is_bundleable _ \<longleftrightarrow> False"

fun lua_code_of :: "step \<Rightarrow> str option" where
  "lua_code_of (LuaStep code line) = Some code"
| "lua_code_of (LuaBlockStep code line) = Some code"
| "lua_code_of _ = None"

definition bundle_lua_source :: "step list \<Rightarrow> str" where
  "bundle_lua_source bundle = concat (map (\<lambda>code. code @ [newline]) (List.map_filter lua_code_of bundle))"

definition end_line :: "str \<Rightarrow> str" where
  "end_line code = code @ (if ends_with [newline] code then [] else [newline])"

datatype chunk_piece = StaticPiece str | RegisterTimeShellCmd str

definition flush_raw :: "str \<Rightarrow> str list \<Rightarrow> str" where
  "flush_raw buf run =
     (if run = [] then buf else buf @ (''io.write(cook.sh('' @ wrap_lua_string (shell_compose run) @ ''))'' @ [newline]))"

definition static_piece :: "str \<Rightarrow> chunk_piece list" where
  "static_piece buf = (if buf = [] then [] else [StaticPiece buf])"

text \<open>From the raw shell lines and the Lua text gathered so far; only bundled steps get here.\<close>

fun body_pieces :: "resolve_ctx \<Rightarrow> str \<Rightarrow> str list \<Rightarrow> str \<Rightarrow> step list \<Rightarrow> codegen_error + chunk_piece list" where
  "body_pieces ctx recipe run buf [] = Inr (static_piece (flush_raw buf run))"
| "body_pieces ctx recipe run buf (s # r) =
     (case s of
        ShellStep command line interactive \<Rightarrow>
          (if scan command = [] then body_pieces ctx recipe (run @ [command]) buf r
           else
             bind_res (map_error (SigilResolve recipe line) (expand_sigil_template command ctx no_expansion)) (\<lambda>(e, y).
             bind_res (body_pieces ctx recipe [] [] r) (\<lambda>ps.
               Inr (static_piece (flush_raw buf run) @ RegisterTimeShellCmd ([dquote] @ ''set -e'' @ [backslash] @ ''n'' @ [dquote] @ '' .. ('' @ e @ '')'') # ps))))
      | _ \<Rightarrow>
          (case lua_code_of s of
             Some code \<Rightarrow> body_pieces ctx recipe [] (flush_raw buf run @ end_line code) r
           | None \<Rightarrow> body_pieces ctx recipe run buf r))"

fun static_text :: "chunk_piece \<Rightarrow> str option" where
  "static_text (StaticPiece t) = Some t"
| "static_text (RegisterTimeShellCmd e) = None"

fun render_piece :: "chunk_piece \<Rightarrow> str" where
  "render_piece (StaticPiece t) = wrap_lua_string t"
| "render_piece (RegisterTimeShellCmd e) = ([dquote] @ ''io.write(cook.sh('' @ [dquote] @ '' .. string.format('' @ [dquote] @ ''%q'' @ [dquote]
       @ '', '' @ e @ '') .. '' @ [dquote] @ ''))'' @ [backslash] @ ''n'' @ [dquote])"

definition render_chunk_pieces :: "chunk_piece list \<Rightarrow> str" where
  "render_chunk_pieces ps =
     (if list_all (\<lambda>p. static_text p \<noteq> None) ps then wrap_lua_string (concat (List.map_filter static_text ps))
      else join '' .. '' (map render_piece (filter (\<lambda>p. static_text p \<noteq> Some []) ps)))"

definition one_shot_ctx :: "str set \<Rightarrow> str set \<Rightarrow> resolve_ctx" where
  "one_shot_ctx names probes = cook_step_ctx OneShot NoOutputs names probes"

definition bundle_line :: "step list \<Rightarrow> nat" where
  "bundle_line bundle = (case bundle of [] \<Rightarrow> 0 | s # r \<Rightarrow> step_line s)"

definition emit_body_unit_with_names :: "step list \<Rightarrow> use_statement list \<Rightarrow> str set \<Rightarrow> str set \<Rightarrow> str \<Rightarrow> codegen_error + str" where
  "emit_body_unit_with_names bundle uses names probes recipe =
     bind_res (body_pieces (one_shot_ctx names probes) recipe [] (execute_prelude uses (bundle_lua_source bundle)) bundle) (\<lambda>ps.
       Inr (if ps = [] then []
            else (''    cook.add_unit({lua_code = '' @ render_chunk_pieces ps @ '', cache = false, line = ''
       @ show_nat (bundle_line bundle) @ ''})'' @ [newline])))"

definition expand_shell_command_sigil :: "str \<Rightarrow> str set \<Rightarrow> str set \<Rightarrow> resolve_error + str" where
  "expand_shell_command_sigil command names probes =
     (if scan command = [] then Inr (wrap_lua_string command)
      else bind_res (expand_sigil_template command (one_shot_ctx names probes) no_expansion) (\<lambda>(e, y). Inr e))"

section \<open>Metadata\<close>

text \<open>The first occurrence of each name.\<close>

fun first_of_each :: "str list \<Rightarrow> str list \<Rightarrow> str list" where
  "first_of_each seen [] = []"
| "first_of_each seen (x # xs) =
     (if x \<in> set seen then first_of_each seen xs else x # first_of_each (x # seen) xs)"

definition unified_requires :: "str list \<Rightarrow> step list \<Rightarrow> str set \<Rightarrow> str list" where
  "unified_requires deps ss names =
     first_of_each [] (deps @ sorted_list_of_set (fst ` extract_dep_refs_from_steps ss names))"

definition list_field :: "str \<Rightarrow> str list \<Rightarrow> str list" where
  "list_field name items = (if items = [] then [] else [(name @ '' = {'' @ quoted_list items @ ''}'')])"

definition recipe_metadata_fields :: "recipe_decl \<Rightarrow> str set \<Rightarrow> str list" where
  "recipe_metadata_fields r names =
     list_field ''inputs'' (rd_inputs r) @ list_field ''excludes'' (rd_excludes r)
     @ list_field ''requires'' (unified_requires (rd_deps r) (recipe_decl.rd_steps r) names)"

definition member_source_meta_field :: "recipe_decl \<Rightarrow> str list" where
  "member_source_meta_field r =
     (case find_map member_marker (recipe_decl.rd_steps r) of
        Some (m, line) \<Rightarrow>
          (case ms_source m of
             ProbeKeySource k \<Rightarrow> [(''__member_source = {kind = '' @ [dquote] @ ''probe'' @ [dquote] @ '', ref = '' @ [dquote]
       @ escape_double_quoted k @ [dquote] @ ''}'')]
           | GatherKeySource k \<Rightarrow> [(''__member_source = {kind = '' @ [dquote] @ ''gather'' @ [dquote] @ '', ref = '' @ [dquote]
       @ escape_double_quoted k @ [dquote] @ ''}'')]
           | RecipeRefSource name \<Rightarrow> [])
      | None \<Rightarrow> [])"

definition description_field :: "str option \<Rightarrow> str list" where
  "description_field d = (case d of Some t \<Rightarrow> [(''description = '' @ literal t)] | None \<Rightarrow> [])"

definition metadata_table :: "str list \<Rightarrow> str" where
  "metadata_table fs = ''{'' @ join '', '' fs @ ''}''"

definition generate_metadata_with_line :: "recipe_decl \<Rightarrow> str set \<Rightarrow> str" where
  "generate_metadata_with_line r names =
     metadata_table (recipe_metadata_fields r names @ description_field (rd_description r)
       @ member_source_meta_field r @ [(''__line = '' @ show_nat (rd_line r))])"

section \<open>Recipes\<close>

definition outputs_all_literal :: "str set \<Rightarrow> cook_step \<Rightarrow> bool" where
  "outputs_all_literal names s \<longleftrightarrow>
     list_all (\<lambda>p. \<not> is_lua_expr p \<and> output_pattern_kind_with_recipes (pattern_text p) names = LiteralPattern) (ck_outputs s)"

definition emit_member_items :: "member_source_step \<Rightarrow> str" where
  "emit_member_items m =
     (case ms_source m of
        ProbeKeySource k \<Rightarrow> (''    local _items = cook.probes.get('' @ [dquote] @ escape_double_quoted k @ [dquote] @ '')''
       @ [newline])
      | GatherKeySource k \<Rightarrow> (''    local _items = cook.probes.get('' @ [dquote] @ escape_double_quoted k @ [dquote] @ '')''
       @ [newline])
      | RecipeRefSource name \<Rightarrow> (''    local _items = '' @ door_call dep_output_list_name name @ [newline]))"

definition literal_gather_advice :: "member_source_step \<Rightarrow> str" where
  "literal_gather_advice m =
     (case ms_source m of
        RecipeRefSource name \<Rightarrow>
          (let n = escape_double_quoted name in
           (''the members are '' @ [squote] @ n @ [squote]
       @ ''s outputs and this step declares no accessor; fan out first (accessor-bearing outputs), or drop the gather and reference $<''
       @ n @ ''> in the body to aggregate them in one unit''))
      | _ \<Rightarrow> ''data members are not a collected file set; fan out first (accessor-bearing outputs), or read an ordinary probe from a >{ ... } Lua body via cook.probes.get'')"

text \<open>What stands before the steps of a recipe over members: its items, or the refusal of a first
  step that is not iterated.\<close>

definition member_prologue :: "recipe_decl \<Rightarrow> str set \<Rightarrow> str" where
  "member_prologue r names =
     (case find_map member_marker (recipe_decl.rd_steps r) of
        None \<Rightarrow> []
      | Some (m, line) \<Rightarrow>
          (if (case find_map cook_marker (recipe_decl.rd_steps r) of Some s \<Rightarrow> outputs_all_literal names s | None \<Rightarrow> False)
           then (''    error('' @ [dquote] @ ''recipe '' @ [squote] @ escape_double_quoted (rd_name r) @ [squote]
       @ '': a literal-output cook step in a bare-gather recipe has nothing to gather ''
       @ [CHR 0xE2, CHR 0x80, CHR 0x94] @ '' '' @ literal_gather_advice m @ '' (CS-0155)''
       @ [dquote] @ '', 0)'' @ [newline])
           else emit_member_items m))"

definition recipe_cook_step :: "recipe_decl \<Rightarrow> use_statement list \<Rightarrow> str set \<Rightarrow> str set \<Rightarrow> nat option \<Rightarrow> nat \<Rightarrow> cook_step \<Rightarrow> nat
    \<Rightarrow> codegen_error + str" where
  "recipe_cook_step r uses names probes prev index s line =
     (let member = map_option fst (find_map member_marker (recipe_decl.rd_steps r));
          member_gather = member \<noteq> None \<and> outputs_all_literal names s
      in bind_res
           (if member_gather \<and> prev = None then Inr []
            else map_error (SigilResolve (rd_name r) line)
              (case (if member_gather then None else member) of
                 Some m \<Rightarrow> generate_member_fanout_cook_step s line uses index names probes m
               | None \<Rightarrow> generate_cook_step s line uses index prev (rd_inputs r) names probes))
           (\<lambda>body. Inr ((''    local _cook_outputs_'' @ show_nat index @ '' = {}'' @ [newline]
       @ ''    cook.step_group(function()'' @ [newline]) @ body @ (''    end)'' @ [newline]))))"

definition recipe_test_step :: "recipe_decl \<Rightarrow> use_statement list \<Rightarrow> str set \<Rightarrow> str set \<Rightarrow> nat option \<Rightarrow> test_step \<Rightarrow> nat
    \<Rightarrow> codegen_error + str" where
  "recipe_test_step r uses names probes prev s line =
     bind_res (map_error PlateTest
         (case find_map member_marker (recipe_decl.rd_steps r) of
            Some (m, l) \<Rightarrow> generate_member_fanout_test_step s line uses names probes m
          | None \<Rightarrow> generate_test_step s line uses prev (rd_inputs r \<noteq> []) names probes))
       (\<lambda>body. Inr ((''    cook.step_group(function()'' @ [newline]) @ body @ (''    end)'' @ [newline])))"

definition recipe_interactive_step :: "recipe_decl \<Rightarrow> str set \<Rightarrow> str set \<Rightarrow> str \<Rightarrow> nat \<Rightarrow> codegen_error + str" where
  "recipe_interactive_step r names probes command line =
     bind_res (map_error (SigilResolve (rd_name r) line) (expand_shell_command_sigil command names probes)) (\<lambda>e.
       Inr (''    cook.add_unit({command = '' @ e @ '', interactive = true, line = '' @ show_nat line
       @ '', cache = false})'' @ [newline]))"

function recipe_steps :: "recipe_decl \<Rightarrow> use_statement list \<Rightarrow> str set \<Rightarrow> str set \<Rightarrow> nat option \<Rightarrow> nat \<Rightarrow> step list
    \<Rightarrow> codegen_error + str" where
  "recipe_steps r uses names probes prev index [] = Inr []"
| "recipe_steps r uses names probes prev index (s # rest) =
     (if is_bundleable s then
        bind_res (emit_body_unit_with_names (takeWhile is_bundleable (s # rest)) uses names probes (rd_name r)) (\<lambda>t.
        bind_res (recipe_steps r uses names probes prev index (dropWhile is_bundleable (s # rest))) (\<lambda>u. Inr (t @ u)))
      else
        (case s of
           CookLine c line \<Rightarrow>
             bind_res (recipe_cook_step r uses names probes prev (index + 1) c line) (\<lambda>t.
             bind_res (recipe_steps r uses names probes (Some (index + 1)) (index + 1) rest) (\<lambda>u. Inr (t @ u)))
         | TestLine c line \<Rightarrow>
             bind_res (recipe_test_step r uses names probes prev c line) (\<lambda>t.
             bind_res (recipe_steps r uses names probes prev index rest) (\<lambda>u. Inr (t @ u)))
         | ShellStep command line interactive \<Rightarrow>
             bind_res (recipe_interactive_step r names probes command line) (\<lambda>t.
             bind_res (recipe_steps r uses names probes prev index rest) (\<lambda>u. Inr (t @ u)))
         | InlineLuaStep code line \<Rightarrow>
             bind_res (recipe_steps r uses names probes prev index rest) (\<lambda>u. Inr ((''    '' @ code @ [newline]) @ u))
         | _ \<Rightarrow> recipe_steps r uses names probes prev index rest))"
  by pat_completeness auto
termination
  by (relation "measure (\<lambda>(r, uses, names, probes, prev, index, ss). length ss)")
    (auto simp: le_imp_less_Suc length_dropWhile_le)

definition recipe_inputs_line :: "recipe_decl \<Rightarrow> str" where
  "recipe_inputs_line r =
     (if rd_inputs r = [] then []
      else (''    local inputs = cook.resolve_gather({'' @ quoted_list (rd_inputs r) @ ''}, {''
       @ quoted_list (rd_excludes r) @ ''})'' @ [newline]))"

definition emit_recipe :: "recipe_decl \<Rightarrow> use_statement list \<Rightarrow> str set \<Rightarrow> str set \<Rightarrow> codegen_error + str" where
  "emit_recipe r uses names probes =
     bind_res (recipe_steps r uses names probes None 0 (recipe_decl.rd_steps r)) (\<lambda>body.
       Inr ((''cook.__register_surface('' @ [dquote] @ escape_double_quoted (rd_name r) @ [dquote] @ '', ''
       @ generate_metadata_with_line r names @ '', function()'' @ [newline])
         @ recipe_inputs_line r @ member_prologue r names @ body @ (''end)'' @ [newline, newline])))"

section \<open>Chores\<close>

fun is_variadic :: "chore_param \<Rightarrow> bool" where
  "is_variadic (VariadicPlus name l c) \<longleftrightarrow> True"
| "is_variadic (VariadicStar name l c) \<longleftrightarrow> True"
| "is_variadic _ \<longleftrightarrow> False"

definition env_entry :: "chore_param \<Rightarrow> str" where
  "env_entry p =
     (let n = param_name p; v = (if is_variadic p then (''table.concat('' @ cook_params_local @ ''.'' @ n @ '', '' @ [dquote] @ '' '' @ [dquote] @ '')'') else (cook_params_local @ ''.'' @ n))
      in (''['' @ [dquote] @ escape_double_quoted n @ [dquote] @ ''] = '' @ v))"

definition chore_param_env_table :: "chore_param list \<Rightarrow> str option" where
  "chore_param_env_table ps = (if ps = [] then None else Some (''{'' @ join '', '' (map env_entry ps) @ ''}''))"

definition env_field :: "chore_param list \<Rightarrow> str" where
  "env_field ps = (case chore_param_env_table ps of Some t \<Rightarrow> ('', env = '' @ t) | None \<Rightarrow> [])"

fun param_entry :: "chore_param \<Rightarrow> str" where
  "param_entry (RequiredParam name l c) = (''{name = '' @ [dquote] @ escape_double_quoted name @ [dquote] @ '', kind = '' @ [dquote]
       @ ''required'' @ [dquote] @ ''}'')"
| "param_entry (DefaultedString name d l c) =
     (''{name = '' @ [dquote] @ escape_double_quoted name @ [dquote] @ '', kind = '' @ [dquote]
       @ ''defaulted_string'' @ [dquote] @ '', default = '' @ [dquote] @ escape_double_quoted d
       @ [dquote] @ ''}'')"
| "param_entry (VariadicPlus name l c) = (''{name = '' @ [dquote] @ escape_double_quoted name @ [dquote] @ '', kind = '' @ [dquote]
       @ ''variadic_plus'' @ [dquote] @ ''}'')"
| "param_entry (VariadicStar name l c) = (''{name = '' @ [dquote] @ escape_double_quoted name @ [dquote] @ '', kind = '' @ [dquote]
       @ ''variadic_star'' @ [dquote] @ ''}'')"
| "param_entry (DefaultedLua name d l c) =
     (''{name = '' @ [dquote] @ escape_double_quoted name @ [dquote] @ '', kind = '' @ [dquote]
       @ ''defaulted_lua'' @ [dquote] @ '', default = function() return ('' @ d @ '') end}'')"

definition expand_chore_shell_command :: "str \<Rightarrow> str set \<Rightarrow> str set \<Rightarrow> str set \<Rightarrow> resolve_error + str" where
  "expand_chore_shell_command command names probes params =
     (if scan command = [] then Inr (wrap_lua_string command)
      else bind_res (expand_sigil_template_with_chore_params command (one_shot_ctx names probes) no_expansion (Some params) LiteralSigil)
        (\<lambda>(e, y). Inr e))"

definition emit_chore_body_unit :: "step list \<Rightarrow> use_statement list \<Rightarrow> chore_param list \<Rightarrow> str" where
  "emit_chore_body_unit bundle uses ps =
     (let chunk = execute_prelude uses (bundle_lua_source bundle) @ concat (map end_line (List.map_filter lua_code_of bundle)) in
      if chunk = [] then []
      else (''    cook.add_unit({lua_code = '' @ wrap_lua_string chunk
       @ '', interactive = true, cache = false, line = '' @ show_nat (bundle_line bundle)
       @ env_field ps @ ''})'' @ [newline]))"

function chore_steps :: "chore_decl \<Rightarrow> use_statement list \<Rightarrow> str set \<Rightarrow> str set \<Rightarrow> step list \<Rightarrow> codegen_error + str" where
  "chore_steps c uses names probes [] = Inr []"
| "chore_steps c uses names probes (s # rest) =
     (if lua_code_of s \<noteq> None then
        bind_res (chore_steps c uses names probes (dropWhile (\<lambda>x. lua_code_of x \<noteq> None) (s # rest))) (\<lambda>u.
          Inr (emit_chore_body_unit (takeWhile (\<lambda>x. lua_code_of x \<noteq> None) (s # rest)) uses (ch_params c) @ u))
      else
        (case s of
           ShellStep command line interactive \<Rightarrow>
             bind_res (map_error (SigilResolve (ch_name c) line)
                 (expand_chore_shell_command command names probes (param_name ` set (ch_params c)))) (\<lambda>e.
             bind_res (chore_steps c uses names probes rest) (\<lambda>u.
               Inr ((''    cook.add_unit({command = '' @ e @ '', interactive = true, line = '' @ show_nat line
       @ '', cache = false'' @ env_field (ch_params c) @ ''})'' @ [newline]) @ u)))
         | InlineLuaStep code line \<Rightarrow>
             bind_res (chore_steps c uses names probes rest) (\<lambda>u. Inr ((''    '' @ code @ [newline]) @ u))
         | _ \<Rightarrow> chore_steps c uses names probes rest))"
  by pat_completeness auto
termination
  by (relation "measure (\<lambda>(c, uses, names, probes, ss). length ss)")
    (auto simp: le_imp_less_Suc length_dropWhile_le)

definition chore_metadata :: "chore_decl \<Rightarrow> str set \<Rightarrow> str" where
  "chore_metadata c names =
     metadata_table (list_field ''requires'' (unified_requires (ch_deps c) (ch_steps c) names)
       @ description_field (ch_description c) @ [(''__line = '' @ show_nat (ch_line c))]
       @ (if ch_params c = [] then [] else [(''__params = {'' @ join '', '' (map param_entry (ch_params c)) @ ''}'')]))"

definition compile_chore_checked :: "chore_decl \<Rightarrow> use_statement list \<Rightarrow> str set \<Rightarrow> str set \<Rightarrow> codegen_error + str" where
  "compile_chore_checked c uses names probes =
     bind_res (chore_steps c uses names probes (ch_steps c)) (\<lambda>body.
       Inr ((''cook.__register_surface_chore('' @ [dquote] @ escape_double_quoted (ch_name c) @ [dquote] @ '', ''
       @ chore_metadata c names @ '', function('' @ cook_params_local @ '')'' @ [newline])
         @ concat (map (\<lambda>p. (''    local '' @ param_name p @ '' = '' @ cook_params_local @ ''.'' @ param_name p @ [newline])) (ch_params c))
         @ body @ (''end)'' @ [newline, newline])))"

section \<open>The program\<close>

datatype top_level_item =
    RecipeItem recipe_decl
  | ChoreItem chore_decl
  | RegisterItem register_block
  | CallItem top_level_module_call
  | ProbeItem probe_decl

fun item_line :: "top_level_item \<Rightarrow> nat" where
  "item_line (RecipeItem r) = rd_line r"
| "item_line (ChoreItem c) = ch_line c"
| "item_line (RegisterItem rb) = rb_line rb"
| "item_line (CallItem c) = mc_line c"
| "item_line (ProbeItem p) = pb_line p"

definition count_newlines :: "str \<Rightarrow> nat" where
  "count_newlines out = length (filter (\<lambda>c. c = newline) out)"

definition pad_to_line :: "str \<Rightarrow> nat \<Rightarrow> str" where
  "pad_to_line out target = out @ replicate (target - (count_newlines out + 1)) newline"

definition is_comment_line :: "str \<Rightarrow> bool" where
  "is_comment_line l \<longleftrightarrow> starts_with ''#'' (trim_start l)"

text \<open>The text so far and the map of generated lines to lines of the Cookfile.\<close>

type_synonym emitted = "str \<times> (nat \<times> nat) list"

fun emit_raw_lines :: "emitted \<Rightarrow> str list \<Rightarrow> nat \<Rightarrow> emitted" where
  "emit_raw_lines st [] source = st"
| "emit_raw_lines (out, m) (l # ls) source =
     (if is_comment_line l then emit_raw_lines (out, m) ls (source + 1)
      else emit_raw_lines (out @ l @ [newline], m @ [(count_newlines out + 2, source)]) ls (source + 1))"

definition emit_raw_source :: "emitted \<Rightarrow> str \<Rightarrow> nat \<Rightarrow> emitted" where
  "emit_raw_source st code first_source_line = emit_raw_lines st (str_lines code) first_source_line"

definition emit_config_body :: "str \<Rightarrow> str \<Rightarrow> str" where
  "emit_config_body body indent =
     concat (map (\<lambda>l. if is_comment_line l then [newline] else indent @ l @ [newline]) (str_lines body))"

definition header_plain :: "use_statement list \<Rightarrow> str" where
  "header_plain uses =
     (''-- Generated by Cook'' @ [newline]) @ concat (map (\<lambda>u. binding (us_alias u) (us_target u) @ [newline]) uses)
     @ (if uses = [] then [] else [newline])"

definition uses_lines :: "use_statement list \<Rightarrow> str" where
  "uses_lines uses =
     (case uses of
        [] \<Rightarrow> []
      | u # us \<Rightarrow> binding (us_alias u) (us_target u) @ ('' -- Generated by Cook'' @ [newline])
          @ concat (map (\<lambda>v. binding (us_alias v) (us_target v) @ [newline]) us))"

definition emit_base_block :: "str \<Rightarrow> config_block \<Rightarrow> str" where
  "emit_base_block out b =
     (if cb_name b = None then pad_to_line out (cb_line b + 1) @ emit_config_body (cb_body b) ''    '' else out)"

definition emit_named_block :: "str \<Rightarrow> config_block \<Rightarrow> str" where
  "emit_named_block out b =
     (case cb_name b of
        Some name \<Rightarrow>
          pad_to_line (pad_to_line out (cb_line b) @ (''    if selected_name == '' @ [dquote] @ escape_double_quoted name @ [dquote] @ '' then''
       @ [newline])) (cb_line b + 1)
          @ emit_config_body (cb_body b) ''        '' @ (''    end'' @ [newline])
      | None \<Rightarrow> out)"

definition header_config :: "use_statement list \<Rightarrow> config_block list \<Rightarrow> str" where
  "header_config uses blocks =
     (let start = pad_to_line (uses_lines uses) (cb_line (hd blocks))
            @ ''function __cook_run_config_blocks(selected_name)'' @ (if uses = [] then '' -- Generated by Cook'' else []) @ [newline];
          based = foldl emit_base_block start blocks
      in foldl emit_named_block based blocks @ (''end function __cook_main()'' @ [newline]))"

definition top_level_items :: "cookfile \<Rightarrow> top_level_item list" where
  "top_level_items cf =
     sort_key item_line (map RecipeItem (cf_recipes cf) @ map ChoreItem (cf_chores cf)
       @ map RegisterItem (cf_register_blocks cf) @ map CallItem (cf_module_calls cf) @ map ProbeItem (cf_probes cf))"

definition add_text :: "emitted \<Rightarrow> str \<Rightarrow> emitted" where
  "add_text st t = (fst st @ t, snd st)"

fun emit_item :: "cookfile \<Rightarrow> str set \<Rightarrow> emitted \<Rightarrow> top_level_item \<Rightarrow> codegen_error + emitted" where
  "emit_item cf names st (RegisterItem rb) = Inr (add_text (emit_raw_source st (rb_body rb) (rb_line rb + 1)) [newline])"
| "emit_item cf names st (CallItem c) = Inr (add_text (emit_raw_source st (mc_code c) (mc_line c)) [newline])"
| "emit_item cf names st (RecipeItem r) =
     bind_res (emit_recipe r (cf_uses cf) names (probe_keys_of cf)) (\<lambda>t. Inr (add_text st t))"
| "emit_item cf names st (ChoreItem c) =
     bind_res (compile_chore_checked c (cf_uses cf) names (probe_keys_of cf)) (\<lambda>t. Inr (add_text st t))"
| "emit_item cf names st (ProbeItem p) = Inr (add_text st (emit_probe p (cf_uses cf)))"

fun emit_items :: "cookfile \<Rightarrow> str set \<Rightarrow> emitted \<Rightarrow> top_level_item list \<Rightarrow> codegen_error + emitted" where
  "emit_items cf names st [] = Inr st"
| "emit_items cf names st (i # is) = bind_res (emit_item cf names st i) (\<lambda>st'. emit_items cf names st' is)"

text \<open>The position after the \<open>k\<close>-th line break, the end of the text when there are fewer.\<close>

fun after_newlines :: "nat \<Rightarrow> str \<Rightarrow> nat" where
  "after_newlines 0 s = 0"
| "after_newlines (Suc k) [] = 0"
| "after_newlines (Suc k) (c # s) = Suc (after_newlines (if c = newline then k else Suc k) s)"

definition map_entry :: "nat \<times> nat \<Rightarrow> str" where
  "map_entry e = (''['' @ show_nat (fst e) @ '']='' @ show_nat (snd e))"

definition source_map_line :: "(nat \<times> nat) list \<Rightarrow> str" where
  "source_map_line m = (''cook.__set_source_line_map({'' @ join '','' (map map_entry m) @ ''})'' @ [newline])"

definition insert_source_map :: "emitted \<Rightarrow> str" where
  "insert_source_map st =
     (case snd st of
        [] \<Rightarrow> fst st
      | e # m \<Rightarrow>
          (let at = after_newlines (fst e - 2) (fst st)
           in take at (fst st) @ source_map_line (e # m) @ drop at (fst st)))"

definition generate_with_names :: "cookfile \<Rightarrow> str set \<Rightarrow> codegen_error + str" where
  "generate_with_names cf names =
     (let start = (if cf_config_blocks cf = [] then header_plain (cf_uses cf) else header_config (cf_uses cf) (cf_config_blocks cf)) in
      bind_res (emit_items cf names (start, []) (top_level_items cf)) (\<lambda>st.
        Inr (insert_source_map (if cf_config_blocks cf = [] then st else add_text st ([newline] @ ''end'' @ [newline])))))"

definition generate_checked :: "cookfile \<Rightarrow> str set \<Rightarrow> codegen_error + str \<times> str list" where
  "generate_checked cf names =
     bind_res (validate_gather_usage cf names) (\<lambda>_.
     bind_res (validate_accessor_placement cf names) (\<lambda>_.
     bind_res (generate_with_names cf names) (\<lambda>lua. Inr (lua, warn_empty_output_refs cf names))))"

end
