(* ===== verification/Resolver_Props.thy ===== *)
theory Resolver_Props
  imports Resolver
begin

text \<open>
  Properties of the resolver: the recipes a text refers to are the recipes its placeholders stand for,
  in whatever position they are resolved.
\<close>

lemma probe_key_of_ref: "map_option pr_key (probe_ref al declares ident) = probe_key declares ident"
  by (simp add: probe_ref_def probe_key_def split_def Let_def)

lemma validate_no_recipe: "recipe_of (validate_builtin ident b ctx) = None"
  by (auto simp: validate_builtin_def check_indexed_def wrong_count_def split: builtin_kind.splits output_shape.splits)

lemma resolve_name_recipe:
  "recipe_of (resolve_name ident ctx)
    = (if ident \<in> rc_recipes ctx then Some (ident, None)
       else map_option (\<lambda>(name, acc). (name, Some acc)) (accessor_ref ident (rc_recipes ctx)))"
  by (auto simp: resolve_name_def split: option.splits)

lemma resolve_plain_recipe:
  "rc_recipes ctx = rc_recipes ctx' \<Longrightarrow> recipe_of (resolve_plain ident ctx) = recipe_of (resolve_plain ident ctx')"
  by (auto simp: resolve_plain_def resolve_member_def validate_no_recipe resolve_name_recipe
      split: option.splits builtin_match.splits)

lemma resolve_recipe:
  "rc_recipes ctx = rc_recipes ctx' \<Longrightarrow> recipe_of (resolve ident ctx) = recipe_of (resolve ident ctx')"
  using resolve_plain_recipe[of ctx ctx' ident]
  by (auto simp: resolve_def colon_recipe_def split: option.splits)

text \<open>
  C20: an analysis that does not know the step agrees with the substitution. Whatever the iteration
  mode, the output shape and the probes of the place a placeholder stands in, the recipe it is
  replaced by is the one \<open>recipe_ref\<close> reads off its identifier, and where it is replaced by anything
  else \<open>recipe_ref\<close> reads none.
\<close>

theorem recipe_ref_context_free:
  "recipe_ref ident (rc_recipes ctx)
    = (case resolve ident ctx of
         RecipeValue name acc \<Rightarrow> Some (name, acc)
       | RecipeMember name \<Rightarrow> Some (name, None)
       | _ \<Rightarrow> None)"
proof -
  have "recipe_ref ident (rc_recipes ctx) = recipe_of (resolve ident ctx)"
    unfolding recipe_ref_def by (rule resolve_recipe) simp
  then show ?thesis by (cases "resolve ident ctx") simp_all
qed

section \<open>Edges\<close>

text \<open>A line break ends an identifier, so a text is scanned line by line.\<close>

lemma span_of_newline:
  "takeWhile is_ident_continue (r @ newline # b) = takeWhile is_ident_continue r"
  "dropWhile is_ident_continue (r @ newline # b) = dropWhile is_ident_continue r @ newline # b"
proof -
  have n: "\<not> is_ident_continue newline" by code_simp
  show "takeWhile is_ident_continue (r @ newline # b) = takeWhile is_ident_continue r"
    using n by (induction r) auto
  show "dropWhile is_ident_continue (r @ newline # b) = dropWhile is_ident_continue r @ newline # b"
    using n by (induction r) auto
qed

lemma try_match_newline:
  "try_match_placeholder (s @ newline # b)
    = map_option (\<lambda>(w, t). (w, t @ newline # b)) (try_match_placeholder s)"
proof -
  consider "s = []" | d where "s = [d]" | d l where "s = [d, l]" | d l c r where "s = d # l # c # r"
    by (cases s rule: try_match_placeholder.cases) auto
  then show ?thesis
  proof cases
    case 1
    then show ?thesis by (cases b; cases "tl b") auto
  next
    case 2
    then show ?thesis by (cases b) auto
  next
    case 3
    moreover have "\<not> is_alpha newline" by code_simp
    ultimately show ?thesis by auto
  next
    case (4 d l c r)
    then show ?thesis
      by (cases "dropWhile is_ident_continue r") (auto simp: span_of_def span_of_newline Let_def simp del: dropWhile_eq_Nil_conv)
  qed
qed

lemma scan_newline:
  "map ps_ident (scan_from i (a @ newline # b)) = map ps_ident (scan_from i a) @ map ps_ident (scan_from 0 b)"
proof (induction i a rule: scan_from.induct)
  case (1 i)
  have shift: "map ps_ident (scan_from j b) = map ps_ident (scan_from k b)" for j k
  proof (induction j b arbitrary: k rule: scan_from.induct)
    case (2 j c s)
    show ?case
    proof (cases "try_match_placeholder (c # s)")
      case None
      then show ?thesis using 2(1)[OF None, of "Suc k"] by simp
    next
      case (Some m)
      obtain w t where m: "m = (w, t)" by (cases m)
      show ?thesis using 2(2)[OF Some, OF m[symmetric], of "k + length w + 3"] Some m by simp
    qed
  qed simp
  have "try_match_placeholder (newline # b) = None" using try_match_dollar[of newline b] by fastforce
  then show ?case using shift[of "Suc i" 0] by simp
next
  case (2 i c s)
  show ?case
  proof (cases "try_match_placeholder (c # s)")
    case None
    then show ?thesis using 2(1)[OF None] try_match_newline[of "c # s" b] by simp
  next
    case (Some m)
    obtain w t where m: "m = (w, t)" by (cases m)
    show ?thesis using 2(2)[OF Some, OF m[symmetric]] try_match_newline[of "c # s" b] Some m by simp
  qed
qed

lemma tokens_of_lines: "extract_sigil_tokens (join [newline] ls) = concat (map extract_sigil_tokens ls)"
proof (induction ls)
  case (Cons l ls)
  then show ?case using scan_newline[of 0 l "join [newline] ls"]
    by (cases ls) (simp_all add: extract_sigil_tokens_def scan_def join_Cons)
qed (simp add: extract_sigil_tokens_def scan_def)

text \<open>The texts of a step that placeholders are put in.\<close>

fun step_texts :: "step \<Rightarrow> str list" where
  "step_texts (CookLine s line) =
     map pattern_text (ck_outputs s) @ (case ck_body s of Some (ShellBlock ls) \<Rightarrow> ls | _ \<Rightarrow> [])"
| "step_texts (TestLine s line) = (case ts_body s of ShellBlock ls \<Rightarrow> ls | _ \<Rightarrow> [])"
| "step_texts (ShellStep command line interactive) = [command]"
| "step_texts _ = []"

lemma step_tokens_texts: "t \<in> set (step_texts s) \<Longrightarrow> p \<in> set (scan t) \<Longrightarrow> ps_ident p \<in> set (step_tokens s)"
proof (cases s rule: step_texts.cases)
  case (1 c line)
  then show "t \<in> set (step_texts s) \<Longrightarrow> p \<in> set (scan t) \<Longrightarrow> ps_ident p \<in> set (step_tokens s)"
    by (cases "ck_body c"; cases "the (ck_body c)") (auto simp: extract_sigil_tokens_def)
next
  case (2 c line)
  then show "t \<in> set (step_texts s) \<Longrightarrow> p \<in> set (scan t) \<Longrightarrow> ps_ident p \<in> set (step_tokens s)"
    by (cases "ts_body c") (auto simp: extract_sigil_tokens_def tokens_of_lines[unfolded extract_sigil_tokens_def])
qed (simp_all add: extract_sigil_tokens_def)

lemma dep_refs_of:
  "x \<in> extract_dep_refs_from_steps ss names
    \<longleftrightarrow> (\<exists>s \<in> set ss. \<exists>t \<in> set (step_tokens s). recipe_ref t names = Some x)"
  by (force simp: extract_dep_refs_from_steps_def map_filter_def)

text \<open>
  Whenever a placeholder of some step is replaced by the output of a recipe, or of one of its members, in
  whatever context the generator resolves it, that recipe is among the references of the steps.
\<close>

lemma substitution_has_edge:
  assumes "s \<in> set ss" and "t \<in> set (step_texts s)" and "p \<in> set (scan t)"
    and "resolve (ps_ident p) ctx = RecipeValue name acc
      \<or> resolve (ps_ident p) ctx = RecipeMember name \<and> acc = None"
  shows "(name, acc) \<in> extract_dep_refs_from_steps ss (rc_recipes ctx)"
proof -
  have "recipe_ref (ps_ident p) (rc_recipes ctx) = recipe_of (resolve (ps_ident p) ctx)"
    unfolding recipe_ref_def by (rule resolve_recipe) simp
  then have "recipe_ref (ps_ident p) (rc_recipes ctx) = Some (name, acc)" using assms(4) by auto
  then show ?thesis using step_tokens_texts[OF assms(2,3)] assms(1) unfolding dep_refs_of by blast
qed

end
