(* ===== verification/Template_Props.thy ===== *)
theory Template_Props
  imports Template Resolver_Props
begin

text \<open>
  Properties of the expansion of templates: nothing of the text is lost, and what is collected on the
  way is exactly what the placeholders consult. The second is proved once, in the locale \<open>collects\<close>,
  for any lowering that records at most one variable and one probe for a placeholder, and holds for
  each of the five lowerings of the generator.
\<close>

section \<open>The text is covered\<close>

fun chain :: "nat \<Rightarrow> nat \<Rightarrow> placeholder_span list \<Rightarrow> bool" where
  "chain i n [] \<longleftrightarrow> i \<le> n"
| "chain i n (p # ps) \<longleftrightarrow> i \<le> ps_start p \<and> ps_start p \<le> ps_end p \<and> chain (ps_end p) n ps"

lemma chain_mono: "chain j n ps \<Longrightarrow> i \<le> j \<Longrightarrow> chain i n ps"
  by (cases ps) auto

lemma scan_chain: "chain i (i + length s) (scan_from i s)"
proof (induction i s rule: scan_from.induct)
  case (2 i c s)
  show ?case
  proof (cases "try_match_placeholder (c # s)")
    case None
    then show ?thesis using 2(1)[OF None] chain_mono[of "Suc i" _ _ i] by simp
  next
    case (Some m)
    obtain w t where m: "m = (w, t)" by (cases m)
    have "length (c # s) = length w + 3 + length t"
      using arg_cong[where f = length, OF try_match_Some(1)[OF Some[unfolded m]]] by simp
    then have "i + length (c # s) = (i + length w + 3) + length t" by simp
    moreover have "chain i ((i + length w + 3) + length t) (scan_from i (c # s))"
      using 2(2)[OF Some, OF m[symmetric]] Some m by simp
    ultimately show ?thesis by (simp only:)
  qed
qed simp

lemma chain_end: "chain i n ps \<Longrightarrow> i \<le> n"
  by (induction ps arbitrary: i) (auto intro: order_trans)

datatype piece = TextPiece str | SpanPiece placeholder_span

fun piece_text :: "str \<Rightarrow> piece \<Rightarrow> str" where
  "piece_text t (TextPiece u) = u"
| "piece_text t (SpanPiece p) = span_text t p"

fun pieces_from :: "str \<Rightarrow> nat \<Rightarrow> placeholder_span list \<Rightarrow> piece list" where
  "pieces_from t e [] = (if e < length t then [TextPiece (drop e t)] else [])"
| "pieces_from t e (p # ps) =
     (if e < ps_start p then [TextPiece (slice t e (ps_start p))] else []) @ SpanPiece p # pieces_from t (ps_end p) ps"

definition pieces :: "str \<Rightarrow> piece list" where
  "pieces t = pieces_from t 0 (scan t)"

fun part_for :: "lowering \<Rightarrow> str \<Rightarrow> piece \<Rightarrow> bool" where
  "part_for lower part (TextPiece u) \<longleftrightarrow> u \<noteq> [] \<and> part = literal u"
| "part_for lower part (SpanPiece p) \<longleftrightarrow> (\<exists>x y. lower p x = Inr (part, y))"

lemma text_slice_append: "i \<le> j \<Longrightarrow> slice t i j @ drop j t = drop i t"
  by (simp add: slice_def) (metis append_take_drop_id drop_drop le_add_diff_inverse2)

lemma pieces_cover: "chain e (length t) ps \<Longrightarrow> concat (map (piece_text t) (pieces_from t e ps)) = drop e t"
proof (induction ps arbitrary: e)
  case (Cons p ps)
  then have "slice t e (ps_start p) @ span_text t p @ drop (ps_end p) t = drop e t"
    using text_slice_append[of "ps_start p" "ps_end p" t] text_slice_append[of e "ps_start p" t] by (simp add: span_text_def)
  moreover have "\<not> e < ps_start p \<Longrightarrow> slice t e (ps_start p) = []" by (simp add: slice_def)
  ultimately show ?case using Cons by auto
qed auto

lemma join_from_parts:
  "join_from t lower e ps x = Inr (parts, y) \<Longrightarrow> chain e (length t) ps
    \<Longrightarrow> list_all2 (part_for lower) parts (pieces_from t e ps)"
proof (induction ps arbitrary: e x parts)
  case (Cons p ps)
  then obtain part x' parts' where
    l: "lower p x = Inr (part, x')" and j: "join_from t lower (ps_end p) ps x' = Inr (parts', y)"
    and p: "parts = (if e < ps_start p then [literal (slice t e (ps_start p))] else []) @ part # parts'"
    by (auto simp: bind_res_Inr_iff)
  have "ps_start p \<le> length t" using Cons.prems(2) chain_end by fastforce
  then have "e < ps_start p \<Longrightarrow> slice t e (ps_start p) \<noteq> []" by (simp add: slice_def)
  then show ?case using Cons.IH[OF j] Cons.prems(2) l p by auto
qed (auto split: if_splits)

fun piece_span :: "piece \<Rightarrow> placeholder_span option" where
  "piece_span (TextPiece u) = None"
| "piece_span (SpanPiece p) = Some p"

lemma pieces_spans: "List.map_filter piece_span (pieces_from t e ps) = ps"
  by (induction ps arbitrary: e) (auto simp: map_filter_def)

text \<open>
  C22: an expansion is the whole template. Its parts, joined by Lua's concatenation, stand for consecutive
  pieces that make up the template again: a part is the literal of a piece of text that is not empty,
  or what one placeholder is lowered to, and the placeholders are all those the scan finds, in order.
\<close>

theorem expansion_covers_template:
  assumes "join_spans t lower x = Inr (e, y)"
  shows "\<exists>parts ps. e = concat_parts parts \<and> list_all2 (part_for lower) parts ps
    \<and> concat (map (piece_text t) ps) = t \<and> List.map_filter piece_span ps = scan t"
proof -
  obtain parts where p: "join_from t lower 0 (scan t) x = Inr (parts, y)" "e = concat_parts parts"
    using assms by (auto simp: join_spans_def bind_res_Inr_iff)
  have c: "chain 0 (length t) (scan t)" using scan_chain[of 0 t] by (simp add: scan_def)
  show ?thesis
    using p join_from_parts[OF p(1) c] pieces_cover[OF c] pieces_spans[of t 0 "scan t"] by auto
qed

theorem expansion_covers_template_witness:
  "\<exists>e y parts ps. expand_command_template ''cc $<in> -o $<out>''
      \<lparr>rc_mode = OneToOne, rc_outputs = SingleOutput, rc_recipes = {}, rc_probes = {}\<rparr> no_expansion = Inr (e, y)
     \<and> e = concat_parts parts \<and> concat (map (piece_text ''cc $<in> -o $<out>'') ps) = ''cc $<in> -o $<out>''
     \<and> List.map_filter piece_span ps = scan ''cc $<in> -o $<out>''"
proof -
  let ?t = "''cc $<in> -o $<out>''"
  let ?ctx = "\<lparr>rc_mode = OneToOne, rc_outputs = SingleOutput, rc_recipes = {}, rc_probes = {}\<rparr>"
  let ?e = "literal ''cc '' @ '' .. _cook_in .. '' @ literal '' -o '' @ '' .. _cook_out''"
  have e: "expand_command_template ?t ?ctx no_expansion = Inr (?e, no_expansion)" by code_simp
  then have "join_spans ?t (lower_command ?t ?ctx) no_expansion = Inr (?e, no_expansion)"
    by (simp only: expand_command_template_def)
  from expansion_covers_template[OF this] obtain parts ps where c: "?e = concat_parts parts"
    "concat (map (piece_text ?t) ps) = ?t" "List.map_filter piece_span ps = scan ?t" by metis
  show ?thesis by (intro exI conjI) (rule e c)+
qed

section \<open>What is collected\<close>

locale collects =
  fixes lower :: lowering and env_of probe_of :: "placeholder_span \<Rightarrow> str option"
  assumes lower_records: "lower p x = Inr (part, y) \<Longrightarrow>
    y = (case probe_of p of None \<Rightarrow> id | Some k \<Rightarrow> record_probe k)
          ((case env_of p of None \<Rightarrow> id | Some k \<Rightarrow> record_env k) x)"
begin

lemma join_collects:
  "join_from t lower e ps x = Inr (parts, y) \<Longrightarrow> ascending (ex_env x) \<Longrightarrow> ascending (ex_probes x) \<Longrightarrow>
    set (ex_env y) = set (ex_env x) \<union> {k. \<exists>p \<in> set ps. env_of p = Some k}
    \<and> set (ex_probes y) = set (ex_probes x) \<union> {k. \<exists>p \<in> set ps. probe_of p = Some k}
    \<and> ascending (ex_env y) \<and> ascending (ex_probes y)"
proof (induction ps arbitrary: e x parts)
  case (Cons p ps)
  then obtain part x' parts' where
    l: "lower p x = Inr (part, x')" and j: "join_from t lower (ps_end p) ps x' = Inr (parts', y)"
    by (auto simp: bind_res_Inr_iff)
  have k: "set (record_key k xs) = insert k (set xs)" "ascending (record_key k xs)" for k xs
    by (auto simp: record_key_def btree_set_def ascending_def)
  have s: "set (ex_env x') = set (ex_env x) \<union> {k. env_of p = Some k}"
    "set (ex_probes x') = set (ex_probes x) \<union> {k. probe_of p = Some k}"
    "ascending (ex_env x')" "ascending (ex_probes x')"
    unfolding lower_records[OF l] using Cons.prems(2,3)
    by (auto simp: record_env_def record_probe_def k split: option.splits)
  show ?case using Cons.IH[OF j s(3,4)] unfolding s by auto
qed (auto split: if_splits)

lemma expansion_collects:
  assumes "join_spans t lower no_expansion = Inr (e, y)"
  shows "set (ex_env y) = {k. \<exists>p \<in> set (scan t). env_of p = Some k}
    \<and> set (ex_probes y) = {k. \<exists>p \<in> set (scan t). probe_of p = Some k}
    \<and> ascending (ex_env y) \<and> ascending (ex_probes y)"
proof -
  obtain parts where p: "join_from t lower 0 (scan t) no_expansion = Inr (parts, y)"
    using assms by (auto simp: join_spans_def bind_res_Inr_iff)
  show ?thesis using join_collects[OF p] by (simp add: no_expansion_def ascending_def)
qed

end

fun env_key :: "resolved \<Rightarrow> str option" where
  "env_key (EnvRuntime k) = Some k"
| "env_key _ = None"

fun probe_value_key :: "resolved \<Rightarrow> str option" where
  "probe_value_key (ProbeValue k) = Some k"
| "probe_value_key _ = None"

lemma resolved_to_lua_records:
  "resolved_to_lua r ident x = Inr (part, y) \<Longrightarrow>
    y = (case env_key r of None \<Rightarrow> id | Some k \<Rightarrow> record_env k) x"
  by (cases r) auto

interpretation command_body: collects "lower_command cmd ctx" "\<lambda>p. env_key (resolve (ps_ident p) ctx)"
    "\<lambda>p. probe_value_key (resolve (ps_ident p) ctx)" for cmd ctx
proof
  fix p x part y
  assume "lower_command cmd ctx p x = Inr (part, y)"
  then show "y = (case probe_value_key (resolve (ps_ident p) ctx) of None \<Rightarrow> id | Some k \<Rightarrow> record_probe k)
      ((case env_key (resolve (ps_ident p) ctx) of None \<Rightarrow> id | Some k \<Rightarrow> record_env k) x)"
    by (cases "resolve (ps_ident p) ctx") (auto simp: lower_command_def)
qed

interpretation member_body: collects "lower_member t ctx pl"
    "\<lambda>p. if match_member_sigil (ps_ident p) = None then env_key (resolve (ps_ident p) ctx) else None"
    "\<lambda>p. if match_member_sigil (ps_ident p) = None then probe_value_key (resolve (ps_ident p) ctx) else None"
  for t ctx pl
proof
  fix p x part y
  assume "lower_member t ctx pl p x = Inr (part, y)"
  then show "y = (case if match_member_sigil (ps_ident p) = None then probe_value_key (resolve (ps_ident p) ctx) else None of
        None \<Rightarrow> id | Some k \<Rightarrow> record_probe k)
      ((case if match_member_sigil (ps_ident p) = None then env_key (resolve (ps_ident p) ctx) else None of
        None \<Rightarrow> id | Some k \<Rightarrow> record_env k) x)"
    by (cases "resolve (ps_ident p) ctx") (auto simp: lower_member_def Let_def split: option.splits if_splits)
qed

interpretation chore_body: collects "lower_chore t ctx params pl"
    "\<lambda>p. if ps_ident p \<in> params then None else env_key (resolve (ps_ident p) ctx)" "\<lambda>p. None"
  for t ctx params pl
proof
  fix p x part y
  assume "lower_chore t ctx params pl p x = Inr (part, y)"
  then show "y = (case None of None \<Rightarrow> id | Some k \<Rightarrow> record_probe k)
      ((case if ps_ident p \<in> params then None else env_key (resolve (ps_ident p) ctx) of
        None \<Rightarrow> id | Some k \<Rightarrow> record_env k) x)"
    by (cases "resolve (ps_ident p) ctx") (auto simp: lower_chore_def Let_def split: if_splits)
qed

interpretation output_pattern: collects "output_pattern_ident_to_lua ctx"
    "\<lambda>p. if accessor_ref (ps_ident p) (rc_recipes ctx) = None then env_key (resolve (ps_ident p) ctx) else None" "\<lambda>p. None"
  for ctx
proof
  fix p x part y
  assume "output_pattern_ident_to_lua ctx p x = Inr (part, y)"
  then show "y = (case None of None \<Rightarrow> id | Some k \<Rightarrow> record_probe k)
      ((case if accessor_ref (ps_ident p) (rc_recipes ctx) = None then env_key (resolve (ps_ident p) ctx) else None of
        None \<Rightarrow> id | Some k \<Rightarrow> record_env k) x)"
    by (auto simp: output_pattern_ident_to_lua_def split: option.splits dest: resolved_to_lua_records)
qed

interpretation test_body: collects "lower_test names probes iter_var"
    "\<lambda>p. env_key (resolve (ps_ident p) (test_ctx names probes))"
    "\<lambda>p. probe_value_key (resolve (ps_ident p) (test_ctx names probes))"
  for names probes iter_var
proof
  fix p x part y
  assume "lower_test names probes iter_var p x = Inr (part, y)"
  then show "y = (case probe_value_key (resolve (ps_ident p) (test_ctx names probes)) of
        None \<Rightarrow> id | Some k \<Rightarrow> record_probe k)
      ((case env_key (resolve (ps_ident p) (test_ctx names probes)) of None \<Rightarrow> id | Some k \<Rightarrow> record_env k) x)"
    by (cases "resolve (ps_ident p) (test_ctx names probes)") (auto simp: lower_test_def split: builtin_kind.splits)
qed

text \<open>
  C21: a command is keyed on all it consults. When a shell command expands, the variables it records are
  those its placeholders read and the probes those its placeholders name, no more and no fewer, each
  once and in order.
\<close>

theorem command_keys_exact:
  assumes "expand_command_template cmd ctx no_expansion = Inr (e, y)"
  shows "set (ex_env y) = {k. \<exists>p \<in> set (scan cmd). resolve (ps_ident p) ctx = EnvRuntime k}
    \<and> set (ex_probes y) = {k. \<exists>p \<in> set (scan cmd). resolve (ps_ident p) ctx = ProbeValue k}
    \<and> ascending (ex_env y) \<and> ascending (ex_probes y)"
proof -
  have "env_key r = Some k \<longleftrightarrow> r = EnvRuntime k" "probe_value_key r = Some k \<longleftrightarrow> r = ProbeValue k" for r k
    by (cases r; auto)+
  then show ?thesis
    using command_body.expansion_collects[of cmd cmd ctx e y] assms by (simp add: expand_command_template_def)
qed

theorem command_keys_exact_witness:
  "\<exists>y. expand_command_template ''cc $<CFLAGS> $<in> $<host:tag>''
        \<lparr>rc_mode = OneToOne, rc_outputs = SingleOutput, rc_recipes = {}, rc_probes = {}\<rparr> no_expansion
      = Inr (literal ''cc '' @ '' .. '' @ require_var_call ''CFLAGS'' @ '' .. '' @ literal '' '' @ '' .. _cook_in .. ''
          @ literal '' '' @ '' .. '' @ literal ''$<host:tag>'', y)
     \<and> set (ex_env y) = {''CFLAGS''} \<and> set (ex_probes y) = {''host:tag''} \<and> ascending (ex_env y)"
proof -
  let ?cmd = "''cc $<CFLAGS> $<in> $<host:tag>''"
  let ?ctx = "\<lparr>rc_mode = OneToOne, rc_outputs = SingleOutput, rc_recipes = {}, rc_probes = {}\<rparr>"
  let ?e = "literal ''cc '' @ '' .. '' @ require_var_call ''CFLAGS'' @ '' .. '' @ literal '' '' @ '' .. _cook_in .. ''
    @ literal '' '' @ '' .. '' @ literal ''$<host:tag>''"
  let ?y = "\<lparr>ex_env = [''CFLAGS''], ex_probes = [''host:tag'']\<rparr>"
  have e: "expand_command_template ?cmd ?ctx no_expansion = Inr (?e, ?y)" by code_simp
  have "ascending (ex_env ?y)" using command_keys_exact[OF e] by blast
  then show ?thesis using e by simp
qed

section \<open>A pattern that reads without an edge\<close>

text \<open>
  An output pattern asks for a recipe before it asks for a builtin, the resolver the other way round. A
  recipe named like an indexed output then drives the iteration of a pattern but is no reference of it.
\<close>

lemma out_named_recipe_no_edge:
  "output_pattern_kind_with_recipes ''obj/$<out_1.stem>.o'' {''out_1''} = DepDriven ''out_1''
   \<and> expand_output_pattern ''obj/$<out_1.stem>.o'' {''out_1''} {} no_expansion
       = Inr (literal ''obj/'' @ '' .. path.stem(_cook_in) .. '' @ literal ''.o'', no_expansion)
   \<and> recipe_ref ''out_1.stem'' {''out_1''} = None"
  by (intro conjI; code_simp)

end
