(* ===== verification/Codegen_Props.thy ===== *)
theory Codegen_Props
  imports Cookfile_Codegen Template_Props
begin

text \<open>
  Properties of the generated program: raw Lua of the Cookfile keeps its line numbers through the source
  map, what a recipe requires covers what it reads, and what the checks let through.
\<close>

section \<open>Lines\<close>

text \<open>The \<open>g\<close>-th line of a text, counted from 1, is \<open>l\<close> and ends in a line break.\<close>

definition at_line_start :: "str \<Rightarrow> bool" where
  "at_line_start a \<longleftrightarrow> a = [] \<or> last a = newline"

definition is_line :: "str \<Rightarrow> nat \<Rightarrow> str \<Rightarrow> bool" where
  "is_line out g l \<longleftrightarrow>
     (\<exists>a b. out = a @ l @ newline # b \<and> at_line_start a \<and> newline \<notin> set l \<and> g = count_newlines a + 1)"

lemma count_newlines_simps [simp]:
  "count_newlines [] = 0" "count_newlines (a @ b) = count_newlines a + count_newlines b"
  "count_newlines (c # s) = (if c = newline then Suc (count_newlines s) else count_newlines s)"
  by (simp_all add: count_newlines_def)

lemma count_newlines_none: "newline \<notin> set s \<Longrightarrow> count_newlines s = 0"
  by (simp add: count_newlines_def filter_empty_conv) metis

lemma at_line_start_append: "at_line_start a \<Longrightarrow> at_line_start b \<Longrightarrow> at_line_start (a @ b)"
  by (cases "b = []") (auto simp: at_line_start_def)

lemma at_line_start_ends: "at_line_start (a @ [newline])"
  by (simp add: at_line_start_def)

lemma is_line_append: "is_line out g l \<Longrightarrow> is_line (out @ t) g l"
  unfolding is_line_def by (metis append.assoc append_Cons)

lemma after_newlines_count: "at_line_start a \<Longrightarrow> after_newlines (count_newlines a) (a @ s) = length a"
proof (induction a)
  case (Cons c a)
  show ?case
  proof (cases "a = []")
    case True
    then have "c = newline" using Cons.prems by (simp add: at_line_start_def)
    then show ?thesis using True by simp
  next
    case False
    then have "at_line_start a" using Cons.prems by (simp add: at_line_start_def)
    moreover have "newline \<in> set a" using False Cons.prems last_in_set[OF False] by (simp add: at_line_start_def)
    then have "count_newlines a \<noteq> 0" by (auto simp: count_newlines_def filter_empty_conv)
    then obtain k where "count_newlines a = Suc k" using not0_implies_Suc by blast
    ultimately show ?thesis using Cons.IH by (cases "c = newline") simp_all
  qed
qed simp

lemma after_newlines_Nil [simp]: "after_newlines k [] = 0"
  by (cases k) simp_all

lemma after_newlines_mono: "j \<le> k \<Longrightarrow> after_newlines j s \<le> after_newlines k s"
proof (induction k s arbitrary: j rule: after_newlines.induct)
  case (3 k c s)
  then show ?case by (cases j) auto
qed auto

lemma line_prefix:
  assumes "at_line_start a" "at_line_start a'" "a @ s = a' @ s'" "count_newlines a \<le> count_newlines a'"
  shows "\<exists>d. a' = a @ d \<and> s = d @ s'"
proof -
  have "length a = after_newlines (count_newlines a) (a @ s)" using after_newlines_count[OF assms(1)] by simp
  moreover have "length a' = after_newlines (count_newlines a') (a @ s)"
    unfolding assms(3) using after_newlines_count[OF assms(2)] by simp
  ultimately have "length a \<le> length a'" using after_newlines_mono[OF assms(4)] by simp
  then show ?thesis using assms(3) by (auto simp: append_eq_append_conv2)
qed

text \<open>A line put in at the start of line \<open>n\<close> moves the lines from there on by one.\<close>

lemma is_line_shift:
  assumes a: "at_line_start a" and m: "newline \<notin> set m" and l: "is_line (a @ s) g l" and g: "count_newlines a < g"
  shows "is_line (a @ (m @ [newline]) @ s) (Suc g) l"
proof -
  obtain a' b where b: "a @ s = a' @ l @ newline # b" "at_line_start a'" "newline \<notin> set l" "g = count_newlines a' + 1"
    using l unfolding is_line_def by blast
  obtain d where d: "a' = a @ d" "s = d @ l @ newline # b"
    using line_prefix[OF a b(2) b(1)] b(4) g by auto
  let ?a = "a @ (m @ [newline]) @ d"
  have "at_line_start ?a" using b(2) unfolding d(1) by (cases "d = []") (auto simp: at_line_start_def)
  moreover have "count_newlines ?a = Suc (count_newlines a')"
    using m by (simp add: d(1) count_newlines_none)
  ultimately show ?thesis unfolding is_line_def using b(3,4) d(2)
    by (intro exI[of _ ?a] exI[of _ b]) simp
qed

section \<open>The source map\<close>

text \<open>The raw lines of the Cookfile with their numbers in it, in the order of the items.\<close>

fun raw_from :: "nat \<Rightarrow> str list \<Rightarrow> (nat \<times> str) list" where
  "raw_from source [] = []"
| "raw_from source (l # ls) =
     (if is_comment_line l then raw_from (source + 1) ls else (source, l) # raw_from (source + 1) ls)"

fun item_raw :: "top_level_item \<Rightarrow> (nat \<times> str) list" where
  "item_raw (RegisterItem rb) = raw_from (rb_line rb + 1) (str_lines (rb_body rb))"
| "item_raw (CallItem c) = raw_from (mc_line c) (str_lines (mc_code c))"
| "item_raw _ = []"

definition mapped :: "str \<Rightarrow> nat \<times> nat \<Rightarrow> nat \<times> str \<Rightarrow> bool" where
  "mapped out e r \<longleftrightarrow> snd e = fst r \<and> 2 \<le> fst e \<and> is_line out (fst e - 1) (snd r)"

definition emitted_ok :: "emitted \<Rightarrow> (nat \<times> str) list \<Rightarrow> bool" where
  "emitted_ok st rs \<longleftrightarrow>
     at_line_start (fst st) \<and> list_all2 (mapped (fst st)) (snd st) rs
     \<and> sorted (map fst (snd st)) \<and> list_all (\<lambda>e. fst e \<le> count_newlines (fst st) + 1) (snd st)"

lemma mapped_append: "mapped out e r \<Longrightarrow> mapped (out @ t) e r"
  by (simp add: mapped_def is_line_append)

lemma emitted_text:
  assumes "emitted_ok st rs" and "at_line_start t"
  shows "emitted_ok (add_text st t) rs"
proof -
  have "list_all2 (mapped (fst st @ t)) (snd st) rs"
    using assms(1) by (auto simp: emitted_ok_def intro: list_all2_mono mapped_append)
  moreover have "list_all (\<lambda>e. fst e \<le> count_newlines (fst st @ t) + 1) (snd st)"
    using assms(1) by (auto simp: emitted_ok_def list_all_iff)
  ultimately show ?thesis using assms by (simp add: emitted_ok_def add_text_def at_line_start_append)
qed

lemma emitted_raw_lines:
  "emitted_ok st rs \<Longrightarrow> \<forall>l \<in> set ls. newline \<notin> set l \<Longrightarrow> emitted_ok (emit_raw_lines st ls k) (rs @ raw_from k ls)"
proof (induction st ls k arbitrary: rs rule: emit_raw_lines.induct)
  case (2 out m l ls k)
  show ?case
  proof (cases "is_comment_line l")
    case True
    then show ?thesis using 2 by simp
  next
    case False
    let ?out = "out @ l @ [newline]" and ?e = "(count_newlines out + 2, k)"
    note ok = 2(3)[unfolded emitted_ok_def, simplified]
    have "is_line ?out (count_newlines out + 1) l"
      unfolding is_line_def using ok 2(4) by (intro exI[of _ out] exI[of _ "[]"]) simp
    then have "mapped ?out ?e (k, l)" by (simp add: mapped_def)
    moreover have "list_all2 (mapped ?out) m rs"
      using ok by (auto intro: list_all2_mono mapped_append)
    moreover have "at_line_start ?out" using at_line_start_ends[of "out @ l"] by simp
    moreover have "list_all (\<lambda>e. fst e \<le> count_newlines ?out + 1) (m @ [?e])"
      using ok by (auto simp: list_all_iff)
    moreover have "sorted (map fst (m @ [?e]))"
      using ok by (auto simp: sorted_append list_all_iff)
    ultimately have "emitted_ok (?out, m @ [?e]) (rs @ [(k, l)])"
      by (simp add: emitted_ok_def list_all2_appendI)
    then show ?thesis using 2(2)[OF False, of "rs @ [(k, l)]"] 2(4) False by simp
  qed
qed simp

lemma str_lines_no_newline: "l \<in> set (str_lines s) \<Longrightarrow> newline \<notin> set l"
proof -
  have c: "newline \<notin> set w \<Longrightarrow> newline \<notin> set (chomp_cr w)" for w
    by (auto simp: chomp_cr_def dest: in_set_butlastD)
  assume "l \<in> set (str_lines s)"
  then have "l \<in> chomp_cr ` set (split_on newline s) \<union> set (split_on newline s)"
    by (auto simp: str_lines_def Let_def dest: in_set_butlastD split: if_splits intro: last_in_set)
  then show ?thesis using split_on_no_sep c by blast
qed

lemma recipe_ends_line: "emit_recipe r uses names probes = Inr t \<Longrightarrow> at_line_start t"
  by (auto simp: emit_recipe_def bind_res_Inr_iff at_line_start_def)

lemma chore_ends_line: "compile_chore_checked c uses names probes = Inr t \<Longrightarrow> at_line_start t"
  by (auto simp: compile_chore_checked_def bind_res_Inr_iff at_line_start_def)

lemma probe_ends_line: "at_line_start (emit_probe p uses)"
  by (simp add: emit_probe_def at_line_start_def)

lemma emitted_item:
  assumes "emit_item cf names st i = Inr st'" and "emitted_ok st rs"
  shows "emitted_ok st' (rs @ item_raw i)"
proof (cases i)
  case (RegisterItem rb)
  then show ?thesis
    using assms emitted_text[OF emitted_raw_lines[OF assms(2), of "str_lines (rb_body rb)" "rb_line rb + 1"], of "[newline]"]
      str_lines_no_newline by (simp add: emit_raw_source_def at_line_start_def)
next
  case (CallItem c)
  then show ?thesis
    using assms emitted_text[OF emitted_raw_lines[OF assms(2), of "str_lines (mc_code c)" "mc_line c"], of "[newline]"]
      str_lines_no_newline by (simp add: emit_raw_source_def at_line_start_def)
next
  case (RecipeItem r)
  then obtain t where "emit_recipe r (cf_uses cf) names (probe_keys_of cf) = Inr t" "st' = add_text st t"
    using assms(1) by (auto simp: bind_res_Inr_iff)
  then show ?thesis using emitted_text[OF assms(2) recipe_ends_line] RecipeItem by simp
next
  case (ChoreItem c)
  then obtain t where "compile_chore_checked c (cf_uses cf) names (probe_keys_of cf) = Inr t" "st' = add_text st t"
    using assms(1) by (auto simp: bind_res_Inr_iff)
  then show ?thesis using emitted_text[OF assms(2) chore_ends_line] ChoreItem by simp
next
  case (ProbeItem p)
  then show ?thesis using assms emitted_text[OF assms(2) probe_ends_line] by auto
qed

lemma emitted_items:
  "emit_items cf names st is = Inr st' \<Longrightarrow> emitted_ok st rs \<Longrightarrow> emitted_ok st' (rs @ concat (map item_raw is))"
proof (induction "is" arbitrary: st rs)
  case (Cons i "is")
  then obtain st1 where s: "emit_item cf names st i = Inr st1" "emit_items cf names st1 is = Inr st'"
    by (auto simp: bind_res_Inr_iff)
  from Cons.IH[OF s(2) emitted_item[OF s(1) Cons.prems(2)]] show ?case by simp
qed simp

lemma show_nat_digits: "list_all is_ascii_digit (show_nat n)"
proof (induction n rule: show_nat.induct)
  case (1 n)
  then show ?case using digit_char[of n] digit_char[of "n mod 10"]
    by (subst show_nat.simps) simp
qed

lemma source_map_line_one: "\<exists>ml. source_map_line m = ml @ [newline] \<and> newline \<notin> set ml"
proof -
  have "\<not> is_ascii_digit newline" by code_simp
  then have n: "newline \<notin> set (show_nat n)" for n using show_nat_digits[of n] by (auto simp: list_all_iff)
  have "newline \<notin> set (join '','' (map map_entry m))"
    by (induction m rule: induct_list012) (simp_all add: map_entry_def n)
  then show ?thesis by (auto simp: source_map_line_def)
qed

lemma header_plain_line: "at_line_start (header_plain uses)"
  by (cases uses) (simp_all add: header_plain_def at_line_start_def)

lemma header_config_line: "at_line_start (header_config uses blocks)"
  by (simp add: header_config_def Let_def at_line_start_def)

definition well_mapped :: "str \<Rightarrow> (nat \<times> nat) list \<Rightarrow> (nat \<times> str) list \<Rightarrow> bool" where
  "well_mapped lua m rs \<longleftrightarrow>
     list_all2 (\<lambda>e r. snd e = fst r \<and> is_line lua (fst e) (snd r)) m rs
     \<and> (m = [] \<or> (\<exists>a b. lua = a @ source_map_line m @ b \<and> at_line_start a \<and> list_all (\<lambda>e. count_newlines a + 1 < fst e) m))"

lemma insert_source_map_ok:
  assumes "emitted_ok st rs"
  shows "well_mapped (insert_source_map st) (snd st) rs"
proof (cases "snd st")
  case Nil
  then show ?thesis using assms by (simp add: emitted_ok_def well_mapped_def insert_source_map_def)
next
  case (Cons e m)
  then obtain r rs' where rs: "rs = r # rs'" "mapped (fst st) e r"
    using assms by (auto simp: emitted_ok_def list_all2_Cons1)
  then obtain a b where a: "fst st = a @ snd r @ newline # b" "at_line_start a" "fst e - 1 = count_newlines a + 1"
    unfolding mapped_def is_line_def by blast
  let ?s = "snd r @ newline # b"
  have c: "fst e = count_newlines a + 2" using a(3) by simp
  have at: "after_newlines (fst e - 2) (fst st) = length a"
    using after_newlines_count[OF a(2), of ?s] a(1) c by simp
  obtain ml where ml: "source_map_line (snd st) = ml @ [newline]" "newline \<notin> set ml"
    using source_map_line_one by blast
  have lua: "insert_source_map st = a @ (ml @ [newline]) @ ?s"
    using Cons at a(1) ml(1) by (simp add: insert_source_map_def Let_def)
  have le: "fst e \<le> fst x" if "x \<in> set (snd st)" for x
    using assms that unfolding emitted_ok_def Cons by auto
  have "list_all2 (\<lambda>e r. snd e = fst r \<and> is_line (insert_source_map st) (fst e) (snd r)) (snd st) rs"
  proof (rule list.rel_mono_strong)
    show "list_all2 (mapped (fst st)) (snd st) rs" using assms by (simp add: emitted_ok_def)
    fix x y assume x: "x \<in> set (snd st)" "mapped (fst st) x y"
    then have "is_line (a @ ?s) (fst x - 1) (snd y)" "2 \<le> fst x" "snd x = fst y" using a(1) by (auto simp: mapped_def)
    moreover have "count_newlines a < fst x - 1" using le[OF x(1)] c by simp
    ultimately show "snd x = fst y \<and> is_line (insert_source_map st) (fst x) (snd y)"
      using is_line_shift[OF a(2) ml(2), of ?s "fst x - 1" "snd y"] by (simp add: lua)
  qed
  moreover have "list_all (\<lambda>x. count_newlines a + 1 < fst x) (snd st)"
    using le c by (auto simp: list_all_iff) (metis Suc_le_lessD le)
  ultimately show ?thesis unfolding well_mapped_def using a(2) lua ml(1) by auto
qed

text \<open>
  C17: an error in raw Lua is reported where it was written. In the program generated for a Cookfile, the
  source map has one entry for every raw line of its register blocks and module calls, in their order,
  that pairs the line's number in the Cookfile with the number of the line of the program that is this
  very line; and the map is set before the first of them.
\<close>

theorem source_map_exact:
  assumes "generate_with_names cf names = Inr lua"
  shows "\<exists>m. well_mapped lua m (concat (map item_raw (top_level_items cf)))"
proof -
  let ?start = "if cf_config_blocks cf = [] then header_plain (cf_uses cf) else header_config (cf_uses cf) (cf_config_blocks cf)"
  obtain st where st: "emit_items cf names (?start, []) (top_level_items cf) = Inr st"
    "lua = insert_source_map (if cf_config_blocks cf = [] then st else add_text st (newline # ''end'' @ [newline]))"
    using assms by (auto simp: generate_with_names_def Let_def bind_res_Inr_iff)
  have "emitted_ok (?start, []) []"
    using header_plain_line header_config_line by (simp add: emitted_ok_def)
  from emitted_items[OF st(1) this] have ok: "emitted_ok st (concat (map item_raw (top_level_items cf)))" by simp
  then have "emitted_ok (if cf_config_blocks cf = [] then st else add_text st (newline # ''end'' @ [newline]))
      (concat (map item_raw (top_level_items cf)))"
    using emitted_text[OF ok, of "newline # ''end'' @ [newline]"] by (simp add: at_line_start_def)
  from insert_source_map_ok[OF this] show ?thesis unfolding st(2) by blast
qed

definition sample_file :: cookfile where
  "sample_file =
     \<lparr>cf_config_blocks = [], cf_recipes = [], cf_chores = [], cf_uses = [],
       cf_imports = [], cf_register_blocks = [\<lparr>rb_body = ''local x = 1'' @ [newline] @ ''f(x)'', rb_line = 4\<rparr>],
       cf_module_calls = [\<lparr>mc_code = ''m.go()'', mc_line = 2\<rparr>], cf_probes = []\<rparr>"

theorem source_map_exact_witness:
  "\<exists>lua m. generate_with_names sample_file {} = Inr lua
     \<and> well_mapped lua m [(2, ''m.go()''), (5, ''local x = 1''), (6, ''f(x)'')]
     \<and> lua = ''-- Generated by Cook'' @ [newline] @ source_map_line [(3, 2), (5, 5), (6, 6)] @ ''m.go()''
         @ [newline, newline] @ ''local x = 1'' @ [newline] @ ''f(x)'' @ [newline, newline]"
proof -
  let ?lua = "''-- Generated by Cook'' @ [newline] @ source_map_line [(3, 2), (5, 5), (6, 6)] @ ''m.go()''
    @ [newline, newline] @ ''local x = 1'' @ [newline] @ ''f(x)'' @ [newline, newline]"
  have g: "generate_with_names sample_file {} = Inr ?lua" by code_simp
  have r: "concat (map item_raw (top_level_items sample_file)) = [(2, ''m.go()''), (5, ''local x = 1''), (6, ''f(x)'')]"
    by code_simp
  from source_map_exact[OF g] obtain m where "well_mapped ?lua m [(2, ''m.go()''), (5, ''local x = 1''), (6, ''f(x)'')]"
    unfolding r ..
  then show ?thesis using g by blast
qed

section \<open>What a recipe requires\<close>

lemma first_of_each_set: "set (first_of_each seen xs) = set xs - set seen \<and> distinct (first_of_each seen xs)"
  by (induction seen xs rule: first_of_each.induct) auto

lemma first_of_each_append:
  "first_of_each seen (xs @ ys) = first_of_each seen xs @ first_of_each (rev (first_of_each seen xs) @ seen) ys"
  by (induction seen xs rule: first_of_each.induct) simp_all

lemma first_of_each_distinct: "distinct xs \<Longrightarrow> first_of_each seen xs = filter (\<lambda>x. x \<notin> set seen) xs"
proof (induction xs arbitrary: seen)
  case (Cons x xs)
  then show ?case using Cons.IH[of seen] Cons.IH[of "x # seen"] by (auto intro!: filter_cong)
qed simp

text \<open>
  What a step reads of a recipe, by what is generated for it: the output, or a member, a placeholder is
  replaced by, in the context it is resolved in; the outputs the loop of an output pattern runs over;
  and the outputs it gathers. The last two go by the identifier alone: it must not also be the spelling
  of a builtin, of a variable, of a retired prefix or of a member (\<open>also\_means\<close>) nor, with an accessor,
  the name of another recipe.
\<close>

definition also_means :: "str \<Rightarrow> bool" where
  "also_means ident \<longleftrightarrow>
     match_builtin ident \<noteq> NoBuiltin \<or> starts_with ''var.'' ident \<or> starts_with ''file:'' ident \<or> ends_with '']'' ident"

definition substitutes :: "str list \<Rightarrow> resolve_ctx \<Rightarrow> str \<Rightarrow> bool" where
  "substitutes texts ctx name \<longleftrightarrow>
     (\<exists>t \<in> set texts. \<exists>p \<in> set (scan t).
        case resolve (ps_ident p) ctx of RecipeValue n acc \<Rightarrow> n = name | RecipeMember n \<Rightarrow> n = name | _ \<Rightarrow> False)"

definition iterates :: "output_pattern \<Rightarrow> str set \<Rightarrow> str \<Rightarrow> bool" where
  "iterates p names name \<longleftrightarrow>
     output_pattern_kind_with_recipes (pattern_text p) names = DepDriven name
     \<and> (\<forall>q \<in> set (scan (pattern_text p)). map_option fst (accessor_ref (ps_ident q) names) = Some name \<longrightarrow>
          ps_ident q \<notin> names \<and> \<not> also_means (ps_ident q))"

fun gathers :: "step \<Rightarrow> str set \<Rightarrow> str \<Rightarrow> bool" where
  "gathers (MemberStep m line) names name \<longleftrightarrow> ms_source m = RecipeRefSource name \<and> name \<in> names \<and> \<not> also_means name"
| "gathers s names name \<longleftrightarrow> False"

fun step_patterns :: "step \<Rightarrow> output_pattern list" where
  "step_patterns (CookLine c line) = ck_outputs c"
| "step_patterns s = []"

definition reads_recipe :: "step \<Rightarrow> resolve_ctx \<Rightarrow> str \<Rightarrow> bool" where
  "reads_recipe s ctx name \<longleftrightarrow>
     substitutes (step_texts s) ctx name
     \<or> (\<exists>p \<in> set (step_patterns s). iterates p (rc_recipes ctx) name)
     \<or> gathers s (rc_recipes ctx) name"

lemma strip_prefix_none: "strip_prefix u s = None \<longleftrightarrow> \<not> starts_with u s"
  by (cases "strip_prefix u s") (auto simp: strip_prefix_iff starts_with_iff)

lemma split_once_colon: "split_once c s = Some (a, b) \<Longrightarrow> c \<in> set s"
  by (simp add: split_once_Some)

lemma accessor_edge:
  assumes a: "accessor_ref ident names = Some (name, acc)" and "ident \<notin> names" and "\<not> also_means ident"
  shows "recipe_ref ident names = Some (name, Some acc)"
proof -
  have v: "strip_prefix ''var.'' ident = None" "strip_prefix ''file:'' ident = None"
    using assms(3) by (auto simp: also_means_def strip_prefix_none)
  have "\<not> ends_with '']'' ident" "match_builtin ident = NoBuiltin" using assms(3) by (simp_all add: also_means_def)
  then have plain: "resolve_plain ident ctx = resolve_name ident ctx" for ctx
    by (simp add: resolve_plain_def)
  have key: "probe_key colon_keys_only ident = None" if "CHR '':'' \<notin> set ident"
    using that by (auto simp: probe_key_def colon_keys_only_def split_base_def span_of_def Let_def
        split: option.splits dest: split_once_colon set_takeWhileD)
  show ?thesis
    unfolding recipe_ref_def
    by (cases "CHR '':'' \<in> set ident")
      (simp_all add: resolve_def v colon_recipe_def a assms(2) key plain resolve_name_def)
qed

lemma name_edge:
  assumes "name \<in> names" and "\<not> also_means name"
  shows "recipe_ref name names = Some (name, None)"
proof -
  have v: "strip_prefix ''var.'' name = None" "strip_prefix ''file:'' name = None"
    using assms(2) by (auto simp: also_means_def strip_prefix_none)
  have key: "probe_key colon_keys_only name = None" if "CHR '':'' \<notin> set name"
    using that by (auto simp: probe_key_def colon_keys_only_def split_base_def span_of_def Let_def
        split: option.splits dest: split_once_colon set_takeWhileD)
  have "\<not> ends_with '']'' name" "match_builtin name = NoBuiltin" using assms(2) by (simp_all add: also_means_def)
  then have plain: "resolve_plain name ctx = RecipeValue name None" if "rc_recipes ctx = names" for ctx
    using assms(1) that by (simp add: resolve_plain_def resolve_name_def)
  show ?thesis
    unfolding recipe_ref_def
    by (cases "CHR '':'' \<in> set name") (simp_all add: resolve_def v colon_recipe_def assms(1) key plain)
qed

lemma iterates_edge:
  assumes "s \<in> set ss" and "p \<in> set (step_patterns s)" and "iterates p names name"
  shows "\<exists>acc. (name, acc) \<in> extract_dep_refs_from_steps ss names"
proof -
  have "first_dep_accessor_sigil (pattern_text p) names = Some name"
    using assms(3) by (auto simp: iterates_def output_pattern_kind_with_recipes_def split: if_splits option.splits)
  then obtain r where "(name, r) \<in> set (List.map_filter (\<lambda>q. accessor_ref (ps_ident q) names) (scan (pattern_text p)))"
    unfolding first_dep_accessor_sigil_def
    by (cases "List.map_filter (\<lambda>q. accessor_ref (ps_ident q) names) (scan (pattern_text p))") auto
  then obtain q where q: "q \<in> set (scan (pattern_text p))" "accessor_ref (ps_ident q) names = Some (name, r)"
    by (auto simp: map_filter_def)
  then have e: "recipe_ref (ps_ident q) names = Some (name, Some r)"
    using assms(3) by (intro accessor_edge) (auto simp: iterates_def)
  have "pattern_text p \<in> set (step_texts s)" using assms(2) by (cases s) auto
  from step_tokens_texts[OF this q(1)] have "(name, Some r) \<in> extract_dep_refs_from_steps ss names"
    using e assms(1) unfolding dep_refs_of by blast
  then show ?thesis ..
qed

lemma reads_edge:
  assumes "s \<in> set ss" and "reads_recipe s ctx name"
  shows "name \<in> fst ` extract_dep_refs_from_steps ss (rc_recipes ctx)"
  using assms(2) unfolding reads_recipe_def
proof (elim disjE bexE)
  assume "substitutes (step_texts s) ctx name"
  then obtain t p acc where "t \<in> set (step_texts s)" "p \<in> set (scan t)"
    "resolve (ps_ident p) ctx = RecipeValue name acc \<or> resolve (ps_ident p) ctx = RecipeMember name \<and> acc = None"
    unfolding substitutes_def by (fastforce split: resolved.splits)
  from substitution_has_edge[OF assms(1) this] show ?thesis by force
next
  fix p assume "p \<in> set (step_patterns s)" "iterates p (rc_recipes ctx) name"
  from iterates_edge[OF assms(1) this] show ?thesis by force
next
  assume g: "gathers s (rc_recipes ctx) name"
  then obtain m line where "s = MemberStep m line" "ms_source m = RecipeRefSource name"
    "name \<in> rc_recipes ctx" "\<not> also_means name" by (cases s) auto
  then have "(name, None) \<in> extract_dep_refs_from_steps ss (rc_recipes ctx)"
    using name_edge assms(1) unfolding dep_refs_of by (intro bexI[of _ s]) auto
  then show ?thesis by force
qed

text \<open>
  C18: a recipe requires what it reads. Its requirements are the declared ones, each once and in their
  order, and after them, in alphabetical order, the other recipes its steps refer to. Among them is
  every recipe whose output, or one of whose members, a placeholder of a body or an output pattern is
  replaced by, in whatever context; every recipe an output pattern iterates over through an accessor;
  and every recipe a step gathers from: except for those an output pattern or a gather names by an
  identifier that is also the spelling of a builtin (a recipe \<open>out_1\<close> in \<open>$<out_1.stem>\<close>), of a
  variable, of a retired prefix, of a member (ending in a bracket) or of another recipe.
\<close>

theorem requires_covers_reads:
  assumes "s \<in> set ss" and "reads_recipe s ctx name"
  shows "name \<in> set (unified_requires deps ss (rc_recipes ctx))
    \<and> distinct (unified_requires deps ss (rc_recipes ctx))
    \<and> unified_requires deps ss (rc_recipes ctx)
      = first_of_each [] deps
        @ filter (\<lambda>n. n \<notin> set deps) (sorted_list_of_set (fst ` extract_dep_refs_from_steps ss (rc_recipes ctx)))"
proof -
  let ?refs = "fst ` extract_dep_refs_from_steps ss (rc_recipes ctx)"
  have f: "finite ?refs" by (simp add: extract_dep_refs_from_steps_def)
  have "name \<in> ?refs" by (rule reads_edge[OF assms])
  moreover have "set (first_of_each [] deps) = set deps" using first_of_each_set[of "[]" deps] by simp
  then have "unified_requires deps ss (rc_recipes ctx)
      = first_of_each [] deps @ filter (\<lambda>n. n \<notin> set deps) (sorted_list_of_set ?refs)"
    unfolding unified_requires_def first_of_each_append
    by (simp add: first_of_each_distinct)
  ultimately show ?thesis
    using first_of_each_set[of "[]" "deps @ sorted_list_of_set ?refs"] f by (simp add: unified_requires_def)
qed

text \<open>A step that substitutes the output of \<open>lib\<close> and iterates over the outputs of \<open>src\<close>.\<close>

definition reading_step :: step where
  "reading_step = CookLine \<lparr>ck_outputs = [QuotedOut ''$<src.stem>.o''], ck_body = Some (ShellBlock [''ld $<lib>'']),
     ck_disposition = \<lparr>dp_sharing = Shared, dp_record = False, dp_seal = {}\<rparr>\<rparr> 3"

definition reading_ctx :: resolve_ctx where
  "reading_ctx = \<lparr>rc_mode = OneToOne, rc_outputs = SingleOutput, rc_recipes = {''lib'', ''src''}, rc_probes = {}\<rparr>"

theorem requires_covers_reads_witness:
  "''lib'' \<in> set (unified_requires [''gen'', ''app'', ''gen''] [reading_step] {''lib'', ''src''})
   \<and> ''src'' \<in> set (unified_requires [''gen'', ''app'', ''gen''] [reading_step] {''lib'', ''src''})
   \<and> unified_requires [''gen'', ''app'', ''gen''] [reading_step] {''lib'', ''src''} = [''gen'', ''app'', ''lib'', ''src'']"
proof -
  have r: "rc_recipes reading_ctx = {''lib'', ''src''}" by (simp add: reading_ctx_def)
  have s1: "scan ''ld $<lib>'' = [\<lparr>ps_start = 3, ps_end = 9, ps_ident = ''lib''\<rparr>]" by code_simp
  have s2: "scan ''$<src.stem>.o'' = [\<lparr>ps_start = 0, ps_end = 11, ps_ident = ''src.stem''\<rparr>]" by code_simp
  have v: "resolve ''lib'' reading_ctx = RecipeValue ''lib'' None" by code_simp
  then have "substitutes (step_texts reading_step) reading_ctx ''lib''"
    using s1 by (simp add: substitutes_def reading_step_def)
  then have l: "reads_recipe reading_step reading_ctx ''lib''" by (simp add: reads_recipe_def)
  have k: "output_pattern_kind_with_recipes ''$<src.stem>.o'' {''lib'', ''src''} = DepDriven ''src''"
    "\<not> also_means ''src.stem''" by code_simp+
  have "iterates (QuotedOut ''$<src.stem>.o'') {''lib'', ''src''} ''src''"
    using k s2 by (simp add: iterates_def starts_with_def)
  then have "reads_recipe reading_step reading_ctx ''src''"
    by (simp add: reads_recipe_def r reading_step_def)
  moreover have "unified_requires [''gen'', ''app'', ''gen''] [reading_step] {''lib'', ''src''} = [''gen'', ''app'', ''lib'', ''src'']"
    by code_simp
  ultimately show ?thesis
    using requires_covers_reads[of reading_step "[reading_step]" reading_ctx "''lib''" "[''gen'', ''app'', ''gen'']"]
      requires_covers_reads[of reading_step "[reading_step]" reading_ctx "''src''" "[''gen'', ''app'', ''gen'']"] l
    unfolding r by simp
qed

section \<open>What the checks let through\<close>

lemma first_error_ok: "first_error f xs = Inr () \<longleftrightarrow> (\<forall>x \<in> set xs. f x = Inr ())"
  by (induction xs) (auto simp: bind_res_Inr_iff)

lemma map_error_ok: "map_error f r = Inr v \<longleftrightarrow> r = Inr v"
  by (simp add: map_error_def split: sum.splits)

lemma coherent_outputs:
  "incoherent_output names k i ps = None \<longleftrightarrow> (\<forall>p \<in> set ps. output_pattern_kind_with_recipes (pattern_text p) names = k)"
  by (induction names k i ps rule: incoherent_output.induct) (auto simp: drivers_match_def)

lemma checked_outputs:
  assumes "check_multi_output_coherence s names = Inr ()" and "p \<in> set (ck_outputs s)"
  shows "output_pattern_kind_with_recipes (pattern_text p) names
    = output_pattern_kind_with_recipes (pattern_text (first_output s)) names"
proof (cases "ck_outputs s")
  case (Cons a as)
  let ?k = "output_pattern_kind_with_recipes (pattern_text a) names"
  have "incoherent_output names ?k 2 as = None"
    using assms(1) Cons
    by (cases as) (auto simp: check_multi_output_coherence_def split: option.splits simp del: incoherent_output.simps(2))
  then show ?thesis using assms(2) Cons coherent_outputs[of names ?k 2 as] by (auto simp: first_output_def)
qed (use assms in simp)

definition body_ctx :: "cookfile \<Rightarrow> str set \<Rightarrow> cook_step \<Rightarrow> resolve_ctx" where
  "body_ctx cf names s =
     cook_step_ctx (cook_mode_to_iter_mode (cook_step_mode_with_names s names)) (count_to_output_shape (length (ck_outputs s)))
       names (probe_keys_of cf)"

lemma checked_line:
  assumes "check_body_line s recipe line names (probe_keys_of cf) l = Inr ()" and "p \<in> set (scan l)"
  shows "(\<nexists>e. resolve (ps_ident p) (body_ctx cf names s) = ResolveFails e) \<and> accessor_ref (ps_ident p) names = None"
proof -
  have v: "(case resolve (ps_ident p) (body_ctx cf names s) of
        ResolveFails e \<Rightarrow> Inl (show_resolve_error e)
      | _ \<Rightarrow> if starts_with ''file:'' (ps_ident p) then Inr () else accessor_in_body (ps_ident p) names) = Inr ()"
    using assms
    by (auto simp: check_body_line_def bind_res_Inr_iff map_error_ok validate_placeholders_def Let_def first_error_ok
        body_ctx_def cook_step_ctx_def)
  then have r: "\<nexists>e. resolve (ps_ident p) (body_ctx cf names s) = ResolveFails e" by auto
  moreover have "\<not> starts_with ''file:'' (ps_ident p)"
    using r by (auto simp: resolve_def starts_with_def split: option.splits)
  ultimately show ?thesis using v by (cases "resolve (ps_ident p) (body_ctx cf names s)")
      (auto simp: accessor_in_body_def split: option.splits)
qed

text \<open>
  C19: what is generated has been checked. When the generation of a Cookfile succeeds, every output
  pattern of every cook step has the driver of the first, the one the loop of the step iterates over; and every
  placeholder in the lines of its body resolves, in the mode and with the outputs of that step, and is no
  accessor of a recipe.
\<close>

theorem generated_steps_checked:
  assumes "generate_checked cf names = Inr out" and "r \<in> set (cf_recipes cf)"
    and "CookLine s line \<in> set (recipe_decl.rd_steps r)"
  shows "(\<forall>p \<in> set (ck_outputs s). output_pattern_kind_with_recipes (pattern_text p) names
        = output_pattern_kind_with_recipes (pattern_text (first_output s)) names)
    \<and> (\<forall>ls. ck_body s = Some (ShellBlock ls) \<longrightarrow> (\<forall>l \<in> set ls. \<forall>p \<in> set (scan l).
        (\<nexists>e. resolve (ps_ident p) (body_ctx cf names s) = ResolveFails e) \<and> accessor_ref (ps_ident p) names = None))"
proof -
  have "validate_accessor_placement cf names = Inr ()"
    using assms(1) by (auto simp: generate_checked_def bind_res_Inr_iff)
  then have "check_step names (probe_keys_of cf) (rd_name r) (CookLine s line) = Inr ()"
    using assms(2,3) unfolding validate_accessor_placement_def first_error_ok by blast
  then have c: "check_multi_output_coherence s names = Inr ()"
    and b: "\<And>ls. ck_body s = Some (ShellBlock ls) \<Longrightarrow>
      \<forall>l \<in> set ls. check_body_line s (rd_name r) line names (probe_keys_of cf) l = Inr ()"
    by (auto simp: bind_res_Inr_iff map_error_ok first_error_ok)
  show ?thesis using checked_outputs[OF c] checked_line b by blast
qed

definition sample_cook :: cook_step where
  "sample_cook =
     \<lparr>ck_outputs = [QuotedOut ''build/$<in.stem>.o''], ck_body = Some (ShellBlock [''cc -c $<in> -o $<out>'']),
       ck_disposition = \<lparr>dp_sharing = Shared, dp_record = False, dp_seal = {}\<rparr>\<rparr>"

definition sample_recipe :: recipe_decl where
  "sample_recipe =
     \<lparr>rd_name = ''objects'', rd_description = None, rd_deps = [], rd_inputs = [''src/*.c''], rd_excludes = [],
       rd_steps = [GatherStep 2, CookLine sample_cook 3], rd_line = 1\<rparr>"

definition sample_build :: cookfile where
  "sample_build = sample_file\<lparr>cf_recipes := [sample_recipe], cf_register_blocks := [], cf_module_calls := []\<rparr>"

definition is_value :: "'e + 'a \<Rightarrow> bool" where
  "is_value r \<longleftrightarrow> (case r of Inl e \<Rightarrow> False | Inr v \<Rightarrow> True)"

lemma is_value_ex: "is_value r \<Longrightarrow> \<exists>v. r = Inr v"
  by (cases r) (simp_all add: is_value_def)

theorem generated_steps_checked_witness:
  "\<exists>out. generate_checked sample_build {''objects''} = Inr out
     \<and> accessor_ref ''out'' {''objects''} = None
     \<and> (\<nexists>e. resolve ''out'' (body_ctx sample_build {''objects''} sample_cook) = ResolveFails e)"
proof -
  have "is_value (generate_checked sample_build {''objects''})" by code_simp
  then obtain out where g: "generate_checked sample_build {''objects''} = Inr out" using is_value_ex by blast
  have s: "set (scan ''cc -c $<in> -o $<out>'')
      = {\<lparr>ps_start = 6, ps_end = 11, ps_ident = ''in''\<rparr>, \<lparr>ps_start = 15, ps_end = 21, ps_ident = ''out''\<rparr>}" by code_simp
  have m: "sample_recipe \<in> set (cf_recipes sample_build)" by (simp add: sample_build_def)
  have c: "CookLine sample_cook 3 \<in> set (recipe_decl.rd_steps sample_recipe)" by (simp add: sample_recipe_def)
  from generated_steps_checked[OF g m c] have "\<forall>p \<in> set (scan ''cc -c $<in> -o $<out>'').
      (\<nexists>e. resolve (ps_ident p) (body_ctx sample_build {''objects''} sample_cook) = ResolveFails e)
      \<and> accessor_ref (ps_ident p) {''objects''} = None"
    by (simp add: sample_cook_def)
  then show ?thesis using g unfolding s by auto
qed

section \<open>Patterns that are not substituted\<close>

text \<open>
  A cook step with several outputs and no driver declares its patterns as they are written: the variable
  in them is neither read nor recorded, where the same pattern, alone, becomes its value.
\<close>

definition tagged_step :: "output_pattern list \<Rightarrow> cook_step" where
  "tagged_step ps =
     \<lparr>ck_outputs = ps, ck_body = Some (LuaBlock ''go()''), ck_disposition = \<lparr>dp_sharing = Shared, dp_record = False, dp_seal = {}\<rparr>\<rparr>"

lemma several_outputs_not_substituted:
  "cook_step_mode_with_names (tagged_step [QuotedOut ''a-$<tag>.o'', QuotedOut ''b-$<tag>.o'']) {} = BlockStep"
  "block_step (tagged_step [QuotedOut ''a-$<tag>.o'', QuotedOut ''b-$<tag>.o'']) source index u
     = ''    local _cook_outs = {'' @ literal ''a-$<tag>.o'' @ '', '' @ literal ''b-$<tag>.o'' @ ''};'' @ [newline]
       @ ''    local _cook_ins = '' @ source @ '';'' @ [newline] @ ''    local _cook_in = table.concat('' @ source
       @ '', '' @ [dquote] @ '' '' @ [dquote] @ '');'' @ [newline] @ u
       @ ''    table.insert(_cook_outputs_'' @ show_nat index @ '', _cook_outs[1])'' @ [newline]
       @ ''    table.insert(_cook_outputs_'' @ show_nat index @ '', _cook_outs[2])'' @ [newline]"
  "expand_output_pattern ''a-$<tag>.o'' {} {} no_expansion
     = Inr (literal ''a-'' @ '' .. '' @ require_var_call ''tag'' @ '' .. '' @ literal ''.o'', \<lparr>ex_env = [''tag''], ex_probes = []\<rparr>)"
proof -
  have "show_nat 1 = ''1''" "show_nat (Suc (Suc 0)) = ''2''" by code_simp+
  then show "block_step (tagged_step [QuotedOut ''a-$<tag>.o'', QuotedOut ''b-$<tag>.o'']) source index u
     = ''    local _cook_outs = {'' @ literal ''a-$<tag>.o'' @ '', '' @ literal ''b-$<tag>.o'' @ ''};'' @ [newline]
       @ ''    local _cook_ins = '' @ source @ '';'' @ [newline] @ ''    local _cook_in = table.concat('' @ source
       @ '', '' @ [dquote] @ '' '' @ [dquote] @ '');'' @ [newline] @ u
       @ ''    table.insert(_cook_outputs_'' @ show_nat index @ '', _cook_outs[1])'' @ [newline]
       @ ''    table.insert(_cook_outputs_'' @ show_nat index @ '', _cook_outs[2])'' @ [newline]"
    by (simp add: block_step_def tagged_step_def upt_rec)
qed code_simp+

end
