(* ===== verification/Spec2Isabelle.thy ===== *)
theory Spec2Isabelle
  imports Dag_Builder Fetch Executor_Props Cookfile_Props Codegen_Props
begin

text \<open>
  Verification library of Cook, a build system written in Rust (\<open>src/cli/crates\<close>).

  A Cookfile is parsed (\<open>cook-lang\<close>), compiled to Lua (\<open>cook-luagen\<close>) and run once to register its
  recipes (\<open>cook-register\<close>, \<open>cook-plan\<close>). What registration captures, units with declared inputs,
  outputs, probes and cache metadata, is wired into one graph of work (\<open>cook-contracts/unit\_graph\<close>,
  \<open>cook-engine/dag\_builder\<close>), which the executor (\<open>cook-engine/executor\<close>, \<open>cook-dag\<close>) drains with a
  pool of workers, asking the cache (\<open>cook-cache\<close>) of every unit whether it has to run. This library
  models the compiler from the text of a Cookfile to its Lua program, and the path from captured units
  to the end of a run with the cache decisions on the way; between the two stands the Lua interpreter.

  Parts, theories and sources (crates under \<open>src/cli/crates\<close>):

  \<^item> \<open>Cook_Prelude\<close>: strings as UTF-8 bytes, results as sums, ordered maps, the string functions of
    the standard library. \<open>Bytes\<close>: little-endian integers and UTF-8 validation. \<open>Release\<close>: the
    contract of a release rule as a locale, interpreted by \<open>Dag\<close> and by \<open>Unit_Graph\<close>.
  \<^item> \<open>Naming\<close> (\<open>cook-contracts/naming, probe\_key, module\_binding\<close>), \<open>Unit_Types\<close> (\<open>cook-contracts/unit,
    probe, cache/mod\<close>), \<open>Pathlaw\<close> (\<open>cook-contracts/pathlaw\<close>), \<open>Cache_Record\<close>
    (\<open>cook-contracts/cache/record\<close>): names, captured data, the lexical laws of paths, and the rules a
    cache record is judged by.
  \<^item> \<open>Unit_Graph\<close> and \<open>Unit_Plan\<close> (\<open>cook-contracts/unit\_graph\<close>): the wiring law. The plan of a closure
    has one node per unit and per demanded probe, dependencies point backwards, probe and file edges
    are complete, and every error has its documented cause. \<open>Dag_Builder\<close>
    (\<open>cook-engine/dag\_builder, run\<close>): the structural checks are exact, and the built graph lowers the
    plan node by node.
  \<^item> \<open>Dag\<close> (\<open>cook-dag\<close>): construction, readiness and completion over 64-bit counters, and the
    concurrent reading of completion as a step relation whose every interleaving releases each node
    exactly once.
  \<^item> \<open>Labels\<close>, \<open>Executor\<close>, \<open>Executor_Run\<close>, \<open>Executor_Props\<close> (\<open>cook-engine/executor, lib, id\<close>): the
    scheduler. \<open>Executor\<close> holds its state and operations, \<open>Executor_Run\<close> the invariant of the state and
    that each operation keeps it and settles some node, \<open>Executor_Props\<close> what follows for every run.
  \<^item> \<open>Output_Log\<close> (\<open>cook-contracts/cache/observation\<close>, output streams): captured output, its binary
    form and its truncation. \<open>Byte_Reader\<close>, \<open>Recipe_Index\<close> (\<open>cook-cache/index\_bin, store, step\<close>): the
    file of a recipe's records, with its round trip (\<open>read_back\<close>: an empty cause of an observation is the
    one thing that does not survive it) and the refusal of torn files.
  \<^item> \<open>Cache_Keys\<close> (\<open>cook-contracts/cache/cas, env keys, seals\<close>): the composition of every key, exact up
    to collisions of the hash. \<open>Work_Tree\<close>, \<open>Restore\<close> (\<open>cook-cache/check\<close>): a tree of files with
    symbolic links, and the restore of artifacts into it. It is confined to the declared paths, their
    temporaries and missing parents, and to the removal of links, which the sweep after a restore may
    meet anywhere; what one restore writes may be lost to another unless the two stand apart
    (\<open>stands_apart\<close>).
  \<^item> \<open>Stat_Memo\<close> (\<open>cook-cache/statmemo\<close>): the metadata memos, sequentially and as interleaved calls.
    \<open>Freshness\<close> (\<open>cook-cache/check, manager\<close>): the freshness check, equal to one that compares
    contents. \<open>Fetch\<close> (\<open>cook-cache/check\<close>): fetching artifacts by key from the shared store.
  \<^item> \<open>Text_Ops\<close>, \<open>Quoting\<close>, \<open>Brace_Scan\<close> (\<open>cook-contracts/quoting, sigil, shell\_block, cook-lang/brace\_scan\<close>):
    reading UTF-8 text, quoting for the shell, placeholders and balanced braces. \<open>sh_read\<close> is a reader
    of shell commands, without substitutions and here-documents, that marks which characters stand for
    themselves; \<open>placeholder_at\<close> is the grammar of a placeholder. The places where quoting fails are
    lemmas after the theorem.
  \<^item> \<open>Lang_Syntax\<close>, \<open>Lexer\<close>, \<open>Lexer_Props\<close>, \<open>Step_Parser\<close>, \<open>Recipe_Parser\<close>, \<open>Probe_Parser\<close>,
    \<open>Cook_Parser\<close> (\<open>cook-lang\<close>): the syntax tree, the lines of a Cookfile as tokens, and the parser. The
    position of the parser is the list of the tokens that are left, so that a parser is a function from
    tokens to a result and the tokens after it. The locale \<open>body_loop\<close> of \<open>Recipe_Parser\<close> is the contract
    of the four loops over a body, each an interpretation of it. \<open>Recipe_Props\<close> and \<open>Cookfile_Props\<close>:
    where a body ends, how it is sealed, and the consistency of a Cookfile that parses. \<open>body_lines\<close> are
    the lines a body is made of, \<open>body_seals\<close> and \<open>body_probes\<close> what its seal lines name;
    \<open>recipe_parts\<close> are the recipe headers of a file with the tokens after each.
  \<^item> \<open>Lua_Text\<close> (\<open>cook-contracts/lua\_string, lua\_scan, module\_binding, cook-luagen/long\_bracket, lua\_scan,
    use\_prelude\<close>): Lua literals, read back as Lua reads them, and the scans of Lua text. \<open>Resolver\<close>,
    \<open>Resolver_Props\<close> (\<open>cook-luagen/resolver, dep\_ref\<close>): what a placeholder names, and the recipes a step
    depends on. \<open>Template\<close>, \<open>Template_Props\<close> (\<open>cook-luagen/template\<close>): commands and patterns as Lua
    expressions; the locale \<open>collects\<close> is the contract of a lowering, interpreted for the five of the
    code. \<open>Step_Codegen\<close>, \<open>Cookfile_Codegen\<close>, \<open>Codegen_Props\<close> (\<open>cook-luagen/cook\_step, test\_step, probe,
    recipe\<close>): the Lua of steps, probes, recipes, chores and of the whole file, byte for byte, with the
    checks before it, the requirements of a recipe and the map of source lines. \<open>reads_recipe\<close> states
    what a step reads, by what is generated for it, with the identifiers the code takes otherwise.

  Bounds and fuel. Recursive loops over a shrinking set terminate by a measure
  (\<open>cancel_list\<close>, \<open>process_list\<close>, \<open>search\<close>); \<open>walk_chain\<close> gets the number of nodes as fuel, which
  suffices because successors have larger numbers (\<open>walk_chain_enough\<close>); \<open>ordered_synth\<close> gets one round
  per probe key (\<open>synth_loop_enough\<close>); following symbolic links stops after 40, as in the kernel. The
  loop of the executor is a \<open>while_option\<close>, and that it ends is proved (\<open>exec_loop_ends\<close>). The loops of
  the parser recurse on the tokens left, the scans of Lua text on the bytes left.

  What is an argument: the Unicode tables and the hash of the parser (\<open>parser_env\<close>), hash functions,
  the glob matcher, the JSON forms of serde, the answers of the store, the outcome of each command, and
  the order in which workers return (a function, so that a theorem about all of them covers every
  interleaving). Atomic operations are modelled as sequentially consistent. Machine integers are words
  where they are stored or compared with a bound; lengths of buffers and vectors are natural numbers.

  Not modelled. The Lua interpreter and what only calls into it (\<open>cook-register, cook-lua-stdlib,
  cook-execute/pool\<close>): their behaviour is that of mlua, which is not part of the sources. Terminal
  and HTTP input and output (\<open>cook-progress\<close> rendering, \<open>cook-cli\<close>, \<open>cook-logs, cloud\_backend\<close>).
  What the generated Lua does when it runs is modelled only as far as how Lua reads a literal.
  \<open>debug_char\<close> leaves out the escapes of unprintable characters above ASCII, which occur in messages
  only, and times of modification before the epoch, which the code clamps, do not occur in \<open>Stat_Memo\<close>.
  The planning of registrations over workspaces (\<open>cook-plan\<close>) and the installation of modules
  (\<open>cook-modules\<close>) are not modelled yet.
\<close>

end
